(* ===== verification/Prelude.thy ===== *)
theory Prelude
  imports Main "HOL-Library.Word"
begin

unbundle bit_operations_syntax

text \<open>
  Shared vocabulary of the development: the machine integer types of the C sources, the
  guest page geometry, the result codes of the guest memories and the generic facts about
  words, lists and maps that the component theories use.

  \<^item> \<open>u8\<close>, \<open>u16\<close>, \<open>u32\<close>, \<open>u64\<close> are \<open>uint8_t\<close> to \<open>uint64_t\<close>;
    arithmetic on them wraps as in C. Array indices and element counts are \<open>nat\<close>.
  \<^item> \<open>word_nat\<close> collects the facts that turn unsigned comparisons and non-wrapping
    sums of words into linear arithmetic over \<open>nat\<close>.
  \<^item> \<open>page_nat\<close> collects the facts about page bases and page offsets.
\<close>

section \<open>Machine integers and result codes\<close>

type_synonym u8 = "8 word"
type_synonym u16 = "16 word"
type_synonym u32 = "32 word"
type_synonym u64 = "64 word"

abbreviation UINT64_MAX :: u64 where "UINT64_MAX \<equiv> - 1"

abbreviation UINT32_MAX :: u64 where "UINT32_MAX \<equiv> 0xffffffff"

text \<open>\<open>GMResult\<close> of \<open>runtime/GuestMemory.h\<close>.\<close>

datatype GMResult = GM_OK | GM_INVALID | GM_OVERLAP | GM_UNMAPPED | GM_PROTECTION | GM_NOMEM

text \<open>The permission bits and the page size of the same header.\<close>

abbreviation GM_READ :: u32 where "GM_READ \<equiv> 1"
abbreviation GM_WRITE :: u32 where "GM_WRITE \<equiv> 2"
abbreviation GM_EXEC :: u32 where "GM_EXEC \<equiv> 4"
abbreviation GM_PAGE_SIZE :: u64 where "GM_PAGE_SIZE \<equiv> 16384"

named_theorems word_nat \<open>words as naturals\<close>
named_theorems page_nat \<open>page bases and offsets as naturals\<close>

section \<open>Words as naturals\<close>

lemmas [word_nat] = word_le_nat_alt word_less_nat_alt

lemma unat_u64_less: "unat (x :: u64) < 2 ^ 64"
  using unsigned_less [of x] by simp

lemma unat_u64_le: "unat (x :: u64) \<le> 18446744073709551615"
  using unat_u64_less [of x] by simp

lemma unat_max_minus [word_nat]: "unat (UINT64_MAX - (a :: u64)) = 2 ^ 64 - 1 - unat a"
proof -
  have "a \<le> UINT64_MAX" by simp
  then have "unat (UINT64_MAX - a) = unat UINT64_MAX - unat a"
    by (rule unat_sub)
  moreover have "unat UINT64_MAX = 2 ^ 64 - 1"
    by (simp add: unsigned_minus_1_eq_mask mask_eq_exp_minus_1)
  ultimately show ?thesis by simp
qed

lemma unat_plus_nowrap:
  "unat (a :: u64) + unat n < 2 ^ 64 \<Longrightarrow> unat (a + n) = unat a + unat n"
  by (simp add: unat_word_ariths)

lemma fits_iff: "(n :: u64) \<le> UINT64_MAX - a \<longleftrightarrow> unat a + unat n < 2 ^ 64"
  using unat_u64_less [of a] by (simp add: word_nat) linarith

lemma unat_sub_le: "(b :: u64) \<le> a \<Longrightarrow> unat (a - b) = unat a - unat b"
  by (simp add: unat_sub)

lemma unat_u32_u64: "unat (ucast (w :: u32) :: u64) = unat w"
proof -
  have "unat w < 2 ^ 32" using unsigned_less [of w, where 'a = nat] by simp
  then show ?thesis by (simp add: unsigned_ucast_eq take_bit_nat_eq_self)
qed

lemma unat_of_nat_u64: "k < 2 ^ 64 \<Longrightarrow> unat (of_nat k :: u64) = k"
  by (simp add: unat_of_nat)

text \<open>An address lies in the range of \<open>n\<close> bytes at \<open>a\<close> when its distance from
  \<open>a\<close>, as an unsigned word, is below \<open>n\<close>.\<close>

definition in_range :: "u64 \<Rightarrow> u64 \<Rightarrow> u64 \<Rightarrow> bool" where
  "in_range a n x \<longleftrightarrow> unat (x - a) < unat n"

lemma in_range_iff:
  assumes "unat a + unat n < 2 ^ 64"
  shows "in_range a n x \<longleftrightarrow> unat a \<le> unat x \<and> unat x < unat a + unat n"
proof (cases "a \<le> x")
  case True
  then show ?thesis
    by (auto simp: in_range_def unat_sub word_nat)
next
  case False
  then have lt: "unat x < unat a" by (simp add: word_nat)
  then have "unat (x - a) = 2 ^ 64 + unat x - unat a"
    by (subst unat_sub_if_size) (simp add: word_size)
  with lt assms show ?thesis by (auto simp: in_range_def)
qed

lemma in_range_0 [simp]: "\<not> in_range a 0 x"
  by (simp add: in_range_def)

lemma in_range_offset: "in_range a n x \<Longrightarrow> \<exists>i < unat n. x = a + of_nat i"
  by (rule exI [of _ "unat (x - a)"]) (simp add: in_range_def)

section \<open>Page geometry\<close>

definition page_base :: "u64 \<Rightarrow> u64" where
  "page_base a = a AND NOT (GM_PAGE_SIZE - 1)"

definition page_off :: "u64 \<Rightarrow> nat" where
  "page_off a = unat a mod 16384"

lemma and_page_mask: "(a :: u64) AND 16383 = a mod 16384"
proof -
  have "a AND 16383 = a AND mask 14" by (simp add: mask_eq_exp_minus_1)
  also have "\<dots> = take_bit 14 a" by (simp add: take_bit_eq_mask)
  also have "\<dots> = a mod 2 ^ 14" by (simp add: take_bit_eq_mod)
  finally show ?thesis by simp
qed

lemma unat_mod_page: "unat ((a :: u64) mod 16384) = unat a mod 16384"
  by (simp add: unat_mod)

lemma page_base_alt: "page_base a = a - a mod 16384"
proof -
  have "NOT a AND (a AND 16383) = 0"
    by (simp add: and.assoc [symmetric] and.commute)
  then have "a - (a AND 16383) = a AND NOT (a AND 16383)"
    by (rule disjunctive_diff_eq_and_not)
  also have "\<dots> = a AND NOT 16383"
  proof (rule bit_word_eqI)
    fix n
    show "bit (a AND NOT (a AND 16383)) n = bit (a AND NOT (16383 :: u64)) n"
      by (auto simp only: bit_and_iff bit_not_iff)
  qed
  finally show ?thesis
    by (simp add: page_base_def and_page_mask)
qed

lemma unat_page_base [page_nat]: "unat (page_base a) = unat a - unat a mod 16384"
proof -
  have "a mod 16384 \<le> a" by (simp add: word_le_nat_alt unat_mod)
  then show ?thesis by (simp add: page_base_alt unat_sub unat_mod)
qed

lemma page_off_less [simp]: "page_off a < 16384"
  by (simp add: page_off_def)

lemma unat_page_split: "unat a = unat (page_base a) + page_off a"
  by (simp add: unat_page_base page_off_def)

lemma unat_page_offset [page_nat]: "unat (a - page_base a) = page_off a"
  by (simp add: page_base_alt page_off_def unat_mod)

lemma page_base_le: "page_base a \<le> a"
  by (simp add: word_le_nat_alt unat_page_base)

lemma page_eqI: "page_base a = page_base b \<Longrightarrow> page_off a = page_off b \<Longrightarrow> a = b"
  by (metis unat_page_split word_unat_eq_iff)

definition page_aligned :: "u64 \<Rightarrow> bool" where
  "page_aligned a \<longleftrightarrow> a mod GM_PAGE_SIZE = 0"

lemma page_aligned_iff: "page_aligned a \<longleftrightarrow> unat a mod 16384 = 0"
  by (metis page_aligned_def unat_mod_page unsigned_eq_0_iff)

lemma page_aligned_base [simp]: "page_aligned (page_base a)"
proof -
  have "(unat a - unat a mod 16384) mod 16384 = 0"
    by (metis minus_mod_eq_mult_div mod_mult_self1_is_0)
  then show ?thesis by (simp add: page_aligned_iff unat_page_base)
qed

lemma page_base_aligned: "page_aligned a \<Longrightarrow> page_base a = a"
  by (simp add: page_aligned_def page_base_alt)

lemma page_base_eq_iff:
  assumes "page_aligned b"
  shows "page_base x = b \<longleftrightarrow> unat b \<le> unat x \<and> unat x < unat b + 16384"
proof
  assume "page_base x = b"
  then have "unat x = unat b + page_off x" by (metis unat_page_split)
  then show "unat b \<le> unat x \<and> unat x < unat b + 16384" by simp
next
  assume r: "unat b \<le> unat x \<and> unat x < unat b + 16384"
  have "unat b mod 16384 = 0" using assms by (simp add: page_aligned_iff)
  moreover obtain k where k: "unat x = unat b + k" and "k < 16384"
    using r by (metis add_less_cancel_left le_Suc_ex)
  ultimately have "unat x mod 16384 = k"
    by (metis add.left_neutral mod_add_left_eq mod_less)
  with k have "unat x - unat x mod 16384 = unat b" by simp
  then show "page_base x = b" by (metis unat_page_base word_unat_eq_iff)
qed

section \<open>Lists indexed by a sorted key\<close>

text \<open>A sorted array searched by key is the association of each key with its element.
  The array cut at a key's position is the array filtered by the key.\<close>

lemma sorted_key_take:
  fixes f :: "'a \<Rightarrow> 'b :: linorder"
  assumes "sorted_wrt (<) (map f xs)"
  shows "take (length (filter (\<lambda>x. f x < k) xs)) xs = filter (\<lambda>x. f x < k) xs"
  using assms
proof (induction xs)
  case Nil
  then show ?case by simp
next
  case (Cons x xs)
  show ?case
  proof (cases "f x < k")
    case True
    then show ?thesis using Cons by simp
  next
    case False
    then have "filter (\<lambda>y. f y < k) xs = []"
      using Cons.prems by (auto simp: filter_empty_conv)
    then show ?thesis using False by simp
  qed
qed

lemma sorted_key_drop:
  fixes f :: "'a \<Rightarrow> 'b :: linorder"
  assumes "sorted_wrt (<) (map f xs)"
  shows "drop (length (filter (\<lambda>x. f x < k) xs)) xs = filter (\<lambda>x. \<not> f x < k) xs"
  using assms
proof (induction xs)
  case Nil
  then show ?case by simp
next
  case (Cons x xs)
  show ?case
  proof (cases "f x < k")
    case True
    then show ?thesis using Cons by simp
  next
    case False
    then have "filter (\<lambda>y. f y < k) xs = []" and "filter (\<lambda>y. \<not> f y < k) xs = xs"
      using Cons.prems by (auto simp: filter_empty_conv filter_id_conv)
    then show ?thesis using False by simp
  qed
qed

end
