(* ===== verification/GuestMemory.thy ===== *)
theory GuestMemory
  imports Prelude
begin

text \<open>
  The software MMU of \<open>runtime/GuestMemory.c\<close>: a guest address space kept as an array of
  16 KiB pages sorted by address and searched by bisection.

  The array \<open>pages\<close> of \<open>count\<close> entries is a list; a page's heap block is a function
  from offsets to bytes, \<open>None\<close> for the \<open>NULL\<close> block of a demand-zero page. A host
  buffer argument is \<open>None\<close> for a null pointer and otherwise its contents, which a read
  returns updated. \<open>calloc\<close> may fail: the argument \<open>calloc\<close> (or \<open>calloc_ok\<close>)
  says whether the allocations of the call succeed, by their order.

  After the definitions the theory gives the abstract view of an address space (which byte an
  address holds, which attributes its page has), the invariant every operation keeps, and one
  lemma per operation that describes its effect on the view.
\<close>

section \<open>State\<close>

record GMPage =
  pg_address :: u64
  pg_bytes :: "(nat \<Rightarrow> u8) option"
  pg_prot :: u8
  pg_maxprot :: u8
  pg_jit :: bool

record GuestMemory =
  gm_pages :: "GMPage list"
  gm_generation :: u64
  gm_code_generation :: u64
  gm_fault_address :: u64

record GMThread =
  jit_write_protected :: bool

section \<open>Operations\<close>

definition gm_range :: "u64 \<Rightarrow> u64 \<Rightarrow> bool" where
  "gm_range a n \<longleftrightarrow>
     n \<noteq> 0 \<and> a mod GM_PAGE_SIZE = 0 \<and> n mod GM_PAGE_SIZE = 0 \<and> n \<le> UINT64_MAX - a"

text \<open>The bisection loop of \<open>lower\<close>.\<close>

function gm_bisect :: "GMPage list \<Rightarrow> u64 \<Rightarrow> nat \<Rightarrow> nat \<Rightarrow> nat" where
  "gm_bisect pages a lo hi =
     (if lo < hi then
        (let mid = lo + (hi - lo) div 2
         in if pg_address (pages ! mid) < a then gm_bisect pages a (mid + 1) hi
            else gm_bisect pages a lo mid)
      else lo)"
  by pat_completeness auto
termination
  by (relation "measure (\<lambda>(pages, a, lo, hi). hi - lo)") auto

declare gm_bisect.simps [simp del]

definition gm_lower :: "GMPage list \<Rightarrow> u64 \<Rightarrow> nat" where
  "gm_lower pages a = gm_bisect pages a 0 (length pages)"

definition gm_destroy :: "GuestMemory \<Rightarrow> GuestMemory" where
  "gm_destroy m =
     \<lparr>gm_pages = [], gm_generation = 0, gm_code_generation = 0, gm_fault_address = 0\<rparr>"

definition gm_new_page :: "u64 \<Rightarrow> u32 \<Rightarrow> u32 \<Rightarrow> bool \<Rightarrow> GMPage" where
  "gm_new_page a prot maxprot jit =
     \<lparr>pg_address = a, pg_bytes = None, pg_prot = ucast prot, pg_maxprot = ucast maxprot,
      pg_jit = jit\<rparr>"

text \<open>\<open>sizeof(GMPage)\<close> is 24: two 8-byte fields and three one-byte fields, padded.\<close>

definition gm_map ::
  "GuestMemory \<Rightarrow> u64 \<Rightarrow> u64 \<Rightarrow> u32 \<Rightarrow> u32 \<Rightarrow> bool \<Rightarrow> bool \<Rightarrow> bool \<Rightarrow> GMResult \<times> GuestMemory" where
  "gm_map m a n prot maxprot jit replace calloc_ok =
     (if \<not> gm_range a n \<or> maxprot AND NOT 7 \<noteq> 0 \<or> prot AND NOT maxprot \<noteq> 0 then (GM_INVALID, m)
      else let pages = gm_pages m; count = length pages;
               first = gm_lower pages a; last = gm_lower pages (a + n)
      in if \<not> replace \<and> first \<noteq> last then (GM_OVERLAP, m)
      else let newpages = unat (n div GM_PAGE_SIZE)
      in if newpages > (2 ^ 64 - 1) div 24 - (count - (last - first)) then (GM_NOMEM, m)
      else if \<not> calloc_ok then (GM_NOMEM, m)
      else (GM_OK, m\<lparr>gm_pages :=
              take first pages
              @ map (\<lambda>i. gm_new_page (a + of_nat i * GM_PAGE_SIZE) prot maxprot jit) [0..<newpages]
              @ drop last pages,
            gm_generation := gm_generation m + 1,
            gm_code_generation := gm_code_generation m + 1\<rparr>))"

definition gm_unmap :: "GuestMemory \<Rightarrow> u64 \<Rightarrow> u64 \<Rightarrow> GMResult \<times> GuestMemory" where
  "gm_unmap m a n =
     (if \<not> gm_range a n then (GM_INVALID, m)
      else let pages = gm_pages m; first = gm_lower pages a; last = gm_lower pages (a + n)
      in (GM_OK, m\<lparr>gm_pages := take first pages @ drop last pages,
            gm_generation := gm_generation m + 1,
            gm_code_generation := gm_code_generation m + 1\<rparr>))"

definition gm_protect :: "GuestMemory \<Rightarrow> u64 \<Rightarrow> u64 \<Rightarrow> u32 \<Rightarrow> GMResult \<times> GuestMemory" where
  "gm_protect m a n prot =
     (if \<not> gm_range a n \<or> prot AND NOT 7 \<noteq> 0 then (GM_INVALID, m)
      else let pages = gm_pages m; first = gm_lower pages a; last = gm_lower pages (a + n);
               inner = take (last - first) (drop first pages)
      in if last - first \<noteq> unat (n div GM_PAGE_SIZE) then (GM_UNMAPPED, m)
      else if list_ex (\<lambda>p. prot AND NOT (ucast (pg_maxprot p)) \<noteq> 0) inner then (GM_PROTECTION, m)
      else (GM_OK, m\<lparr>gm_pages :=
              take first pages @ map (\<lambda>p. p\<lparr>pg_prot := ucast prot\<rparr>) inner @ drop last pages,
            gm_generation := gm_generation m + 1,
            gm_code_generation := gm_code_generation m + 1\<rparr>))"

text \<open>The JIT test shared by the two access checks: a JIT page is writable by a thread whose
  write protection is off and executable by one whose write protection is on.\<close>

definition gm_jit_denied :: "GMPage \<Rightarrow> GMThread option \<Rightarrow> u32 \<Rightarrow> bool" where
  "gm_jit_denied p t permission =
     (pg_jit p \<and>
      (case t of None \<Rightarrow> False
       | Some th \<Rightarrow> permission = GM_WRITE \<and> jit_write_protected th
                   \<or> permission = GM_EXEC \<and> \<not> jit_write_protected th))"

definition gm_page_denied :: "GMPage \<Rightarrow> GMThread option \<Rightarrow> u32 \<Rightarrow> bool" where
  "gm_page_denied p t permission \<longleftrightarrow>
     ucast (pg_prot p) AND permission \<noteq> permission \<or> gm_jit_denied p t permission"

text \<open>The advance of \<open>access_range\<close> and \<open>copy\<close> within the page of \<open>a\<close>.\<close>

definition page_chunk :: "u64 \<Rightarrow> u64 \<Rightarrow> u64" where
  "page_chunk a n = (let chunk = GM_PAGE_SIZE - (a - page_base a) in if chunk < n then chunk else n)"

lemma unat_page_chunk: "unat (page_chunk a n) = min (16384 - page_off a) (unat n)"
proof -
  have le: "a - page_base a \<le> GM_PAGE_SIZE"
    using page_off_less [of a] by (simp add: word_le_nat_alt unat_page_offset less_imp_le)
  have "unat (GM_PAGE_SIZE - (a - page_base a)) = 16384 - page_off a"
    using unat_sub [OF le] by (simp add: unat_page_offset)
  then show ?thesis by (simp add: page_chunk_def word_less_nat_alt min_def Let_def)
qed

lemma page_chunk_le: "page_chunk a n \<le> n"
  by (simp add: word_le_nat_alt unat_page_chunk)

lemma page_chunk_pos: "0 < n \<Longrightarrow> 0 < unat (page_chunk a n)"
  by (simp add: unat_page_chunk word_less_nat_alt)

lemma page_chunk_advance:
  assumes "a < e"
  shows "unat (a + page_chunk a (e - a)) = unat a + unat (page_chunk a (e - a))"
    and "unat a < unat (a + page_chunk a (e - a))" and "a + page_chunk a (e - a) \<le> e"
proof -
  have ea: "unat (e - a) = unat e - unat a" and lt: "unat a < unat e"
    using assms by (simp_all add: unat_sub word_nat)
  have c: "unat (page_chunk a (e - a)) \<le> unat e - unat a"
    by (simp add: unat_page_chunk ea)
  show sum: "unat (a + page_chunk a (e - a)) = unat a + unat (page_chunk a (e - a))"
    using c lt unat_u64_less [of e] by (intro unat_plus_nowrap) linarith
  have "0 < unat (page_chunk a (e - a))"
    by (rule page_chunk_pos) (simp add: word_nat ea lt)
  with sum show "unat a < unat (a + page_chunk a (e - a))" by simp
  show "a + page_chunk a (e - a) \<le> e"
    using c lt by (simp add: word_le_nat_alt sum)
qed

lemma page_chunk_shrinks:
  assumes "a < e"
  shows "unat e - unat (a + page_chunk a (e - a)) < unat e - unat a"
  using page_chunk_advance(2) [OF assms] assms by (simp add: word_less_nat_alt)

text \<open>The loop of \<open>access_range\<close>: the result, and the value left in \<open>fault_address\<close>.\<close>

function gm_access_loop ::
  "GMPage list \<Rightarrow> GMThread option \<Rightarrow> u64 \<Rightarrow> u64 \<Rightarrow> u32 \<Rightarrow> GMResult \<times> u64" where
  "gm_access_loop pages t a e permission =
     (if a < e then
        (let base = page_base a; i = gm_lower pages base
         in if i = length pages \<or> pg_address (pages ! i) \<noteq> base then (GM_UNMAPPED, a)
            else if gm_page_denied (pages ! i) t permission then (GM_PROTECTION, a)
            else gm_access_loop pages t (a + page_chunk a (e - a)) e permission)
      else (GM_OK, 0))"
  by pat_completeness auto
termination
  by (relation "measure (\<lambda>(pages, t, a, e, permission). unat e - unat a)")
    (simp_all add: page_chunk_shrinks)

declare gm_access_loop.simps [simp del]

definition gm_access_range ::
  "GuestMemory \<Rightarrow> GMThread option \<Rightarrow> u64 \<Rightarrow> u64 \<Rightarrow> u32 \<Rightarrow> GMResult \<times> GuestMemory" where
  "gm_access_range m t a n permission =
     (if n > UINT64_MAX - a then (GM_INVALID, m\<lparr>gm_fault_address := a\<rparr>)
      else let (r, fault) = gm_access_loop (gm_pages m) t a (a + n) permission
      in (r, m\<lparr>gm_fault_address := fault\<rparr>))"

text \<open>\<open>memcpy\<close> into and out of a page's block, and into a host buffer.\<close>

definition block_write :: "(nat \<Rightarrow> u8) \<Rightarrow> nat \<Rightarrow> u8 list \<Rightarrow> nat \<Rightarrow> u8" where
  "block_write f off src i = (if off \<le> i \<and> i < off + length src then src ! (i - off) else f i)"

definition page_bytes :: "GMPage \<Rightarrow> nat \<Rightarrow> u8" where
  "page_bytes p = (case pg_bytes p of None \<Rightarrow> (\<lambda>_. 0) | Some f \<Rightarrow> f)"

definition buffer_write :: "u8 list \<Rightarrow> nat \<Rightarrow> u8 list \<Rightarrow> u8 list" where
  "buffer_write b at src = take at b @ src @ drop (at + length src) b"

text \<open>The allocation pass of a write that crosses pages: from position \<open>i\<close> on, every page
  below \<open>e\<close> gets its block. \<open>k\<close> counts the calls of \<open>calloc\<close> so far.\<close>

function gm_alloc_pass ::
  "(nat \<Rightarrow> bool) \<Rightarrow> nat \<Rightarrow> GMPage list \<Rightarrow> nat \<Rightarrow> u64 \<Rightarrow> bool \<times> GMPage list" where
  "gm_alloc_pass calloc k pages i e =
     (if i < length pages \<and> pg_address (pages ! i) < e then
        (case pg_bytes (pages ! i) of
           Some f \<Rightarrow> gm_alloc_pass calloc k pages (Suc i) e
         | None \<Rightarrow>
             if calloc k
             then gm_alloc_pass calloc (Suc k) (pages[i := (pages ! i)\<lparr>pg_bytes := Some (\<lambda>_. 0)\<rparr>])
                    (Suc i) e
             else (False, pages))
      else (True, pages))"
  by pat_completeness auto
termination
  by (relation "measure (\<lambda>(calloc, k, pages, i, e). length pages - i)") auto

declare gm_alloc_pass.simps [simp del]

text \<open>The copy loop: the pages, the buffer, and whether an executable page was written.
  \<open>b\<close> is the cursor in the buffer.\<close>

function gm_copy_loop ::
  "bool \<Rightarrow> GMPage list \<Rightarrow> u8 list \<Rightarrow> nat \<Rightarrow> u64 \<Rightarrow> u64 \<Rightarrow> bool \<Rightarrow> GMPage list \<times> u8 list \<times> bool" where
  "gm_copy_loop write pages buf b a n ex =
     (if n \<noteq> 0 then
        (let base = page_base a; i = gm_lower pages base; p = pages ! i;
             ex' = (ex \<or> write \<and> ucast (pg_prot p) AND GM_EXEC \<noteq> 0);
             offset = unat (a - base); chunk = page_chunk a n; len = unat chunk
         in if write
            then gm_copy_loop write
                   (pages[i := p\<lparr>pg_bytes :=
                      Some (block_write (the (pg_bytes p)) offset (take len (drop b buf)))\<rparr>])
                   buf (b + len) (a + chunk) (n - chunk) ex'
            else gm_copy_loop write pages
                   (buffer_write buf b (map (page_bytes p) [offset..<offset + len]))
                   (b + len) (a + chunk) (n - chunk) ex')
      else (pages, buf, ex))"
  by pat_completeness auto
termination
proof (relation "measure (\<lambda>(write, pages, buf, b, a, n, ex). unat n)", goal_cases)
  case 1
  show ?case by simp
next
  case (2 w pages buf b a n ex)
  then show ?case
    using page_chunk_le [of a n] page_chunk_pos [of n a]
    by (simp add: unat_sub word_neq_0_conv word_nat)
next
  case (3 w pages buf b a n ex)
  then show ?case
    using page_chunk_le [of a n] page_chunk_pos [of n a]
    by (simp add: unat_sub word_neq_0_conv word_nat)
qed

declare gm_copy_loop.simps [simp del]

text \<open>The general path of \<open>copy\<close>, for accesses that are empty or cross a page.\<close>

definition gm_copy_pages ::
  "GuestMemory \<Rightarrow> GMThread option \<Rightarrow> u64 \<Rightarrow> u8 list option \<Rightarrow> u64 \<Rightarrow> u32 \<Rightarrow> bool \<Rightarrow> (nat \<Rightarrow> bool)
     \<Rightarrow> GMResult \<times> GuestMemory \<times> u8 list option" where
  "gm_copy_pages m t a buffer n permission write calloc =
     (let (r, m1) = gm_access_range m t a n permission
      in if r \<noteq> GM_OK \<or> n = 0 then (r, m1, buffer)
      else case buffer of
        None \<Rightarrow> (GM_INVALID, m1, None)
      | Some buf \<Rightarrow>
          let pages = gm_pages m1;
              (ok, pages1) = (if write
                 then gm_alloc_pass calloc 0 pages (gm_lower pages (page_base a)) (a + n)
                 else (True, pages))
          in if \<not> ok then (GM_NOMEM, m1\<lparr>gm_pages := pages1\<rparr>, buffer)
          else let (pages2, buf2, ex) = gm_copy_loop write pages1 buf 0 a n False
          in (GM_OK,
              m1\<lparr>gm_pages := pages2,
                 gm_generation := (if write then gm_generation m1 + 1 else gm_generation m1),
                 gm_code_generation :=
                   (if ex then gm_code_generation m1 + 1 else gm_code_generation m1)\<rparr>,
              Some buf2))"

definition gm_copy ::
  "GuestMemory \<Rightarrow> GMThread option \<Rightarrow> u64 \<Rightarrow> u8 list option \<Rightarrow> u64 \<Rightarrow> u32 \<Rightarrow> bool \<Rightarrow> (nat \<Rightarrow> bool)
     \<Rightarrow> GMResult \<times> GuestMemory \<times> u8 list option" where
  "gm_copy m t a buffer n permission write calloc =
     (let offset = a AND (GM_PAGE_SIZE - 1)
      in if n \<noteq> 0 \<and> n \<le> GM_PAGE_SIZE - offset \<and> n \<le> UINT64_MAX - a then
        (let base = a - offset; pages = gm_pages m; i = gm_lower pages base;
             m1 = m\<lparr>gm_fault_address := a\<rparr>
         in if i = length pages \<or> pg_address (pages ! i) \<noteq> base then (GM_UNMAPPED, m1, buffer)
         else if gm_page_denied (pages ! i) t permission then (GM_PROTECTION, m1, buffer)
         else let p = pages ! i; m2 = m1\<lparr>gm_fault_address := 0\<rparr>
         in case buffer of
           None \<Rightarrow> (GM_INVALID, m2, None)
         | Some buf \<Rightarrow>
             if write then
               (if pg_bytes p = None \<and> \<not> calloc 0 then (GM_NOMEM, m2, buffer)
                else (GM_OK,
                  m2\<lparr>gm_pages := pages[i := p\<lparr>pg_bytes :=
                        Some (block_write (page_bytes p) (unat offset) (take (unat n) buf))\<rparr>],
                     gm_generation := gm_generation m + 1,
                     gm_code_generation :=
                       (if ucast (pg_prot p) AND GM_EXEC \<noteq> 0 then gm_code_generation m + 1
                        else gm_code_generation m)\<rparr>, buffer))
             else (GM_OK, m2,
                   Some (buffer_write buf 0
                     (map (page_bytes p) [unat offset..<unat offset + unat n]))))
      else gm_copy_pages m t a buffer n permission write calloc)"

definition gm_read ::
  "GuestMemory \<Rightarrow> u64 \<Rightarrow> u8 list option \<Rightarrow> u64 \<Rightarrow> GMResult \<times> GuestMemory \<times> u8 list option" where
  "gm_read m a b n = gm_copy m None a b n GM_READ False (\<lambda>_. False)"

definition gm_write ::
  "GuestMemory \<Rightarrow> GMThread option \<Rightarrow> u64 \<Rightarrow> u8 list option \<Rightarrow> u64 \<Rightarrow> (nat \<Rightarrow> bool)
     \<Rightarrow> GMResult \<times> GuestMemory" where
  "gm_write m t a b n calloc =
     (let (r, m', _) = gm_copy m t a b n GM_WRITE True calloc in (r, m'))"

definition gm_populate ::
  "GuestMemory \<Rightarrow> u64 \<Rightarrow> u8 list option \<Rightarrow> u64 \<Rightarrow> (nat \<Rightarrow> bool) \<Rightarrow> GMResult \<times> GuestMemory" where
  "gm_populate m a b n calloc =
     (let (r, m', _) = gm_copy m None a b n 0 True calloc in (r, m'))"

text \<open>\<open>gm_fetch\<close> reads a little-endian instruction word; \<open>out\<close> is \<open>False\<close> for a
  null result pointer.\<close>

definition gm_fetch ::
  "GuestMemory \<Rightarrow> GMThread option \<Rightarrow> u64 \<Rightarrow> bool \<Rightarrow> GMResult \<times> GuestMemory \<times> u32 option" where
  "gm_fetch m t a out =
     (if \<not> out then (GM_INVALID, m, None)
      else if a AND 3 \<noteq> 0 then (GM_INVALID, m\<lparr>gm_fault_address := a\<rparr>, None)
      else case gm_copy m t a (Some [0, 0, 0, 0]) 4 GM_EXEC False (\<lambda>_. False) of
        (r, m', b) \<Rightarrow>
          (r, m',
           if r = GM_OK then
             (case b of Some bytes \<Rightarrow>
                Some (ucast (bytes ! 0) OR push_bit 8 (ucast (bytes ! 1))
                      OR push_bit 16 (ucast (bytes ! 2)) OR push_bit 24 (ucast (bytes ! 3)))
              | None \<Rightarrow> None)
           else None))"

text \<open>The loop of \<open>gm_find_free\<close> over the pages from the hint on.\<close>

fun gm_free_loop :: "GMPage list \<Rightarrow> u64 \<Rightarrow> u64 \<Rightarrow> u64 option" where
  "gm_free_loop [] candidate n = Some candidate"
| "gm_free_loop (p # ps) candidate n =
     (if pg_address p \<ge> candidate + n then Some candidate
      else let next = pg_address p + GM_PAGE_SIZE
      in if n > UINT64_MAX - next then None else gm_free_loop ps next n)"

definition gm_find_free :: "GuestMemory \<Rightarrow> u64 \<Rightarrow> u64 \<Rightarrow> GMResult \<times> u64 option" where
  "gm_find_free m hint n =
     (if \<not> gm_range hint n then (GM_INVALID, None)
      else case gm_free_loop (drop (gm_lower (gm_pages m) hint) (gm_pages m)) hint n of
        None \<Rightarrow> (GM_NOMEM, None)
      | Some a \<Rightarrow> (GM_OK, Some a))"

definition gm_result_string :: "GMResult \<Rightarrow> string" where
  "gm_result_string r =
     (case r of GM_OK \<Rightarrow> ''ok''
      | GM_INVALID \<Rightarrow> ''invalid memory range or permissions''
      | GM_OVERLAP \<Rightarrow> ''mapping overlaps existing pages''
      | GM_UNMAPPED \<Rightarrow> ''unmapped guest address''
      | GM_PROTECTION \<Rightarrow> ''guest protection fault''
      | GM_NOMEM \<Rightarrow> ''out of backing memory'')"

section \<open>The abstract view\<close>

text \<open>The page table of an array of pages, the page, byte and attributes of an address.\<close>

definition gm_tab :: "GMPage list \<Rightarrow> u64 \<rightharpoonup> GMPage" where
  "gm_tab pages = map_of (map (\<lambda>p. (pg_address p, p)) pages)"

definition gm_page_at :: "GuestMemory \<Rightarrow> u64 \<Rightarrow> GMPage option" where
  "gm_page_at m x = gm_tab (gm_pages m) (page_base x)"

definition gm_byte :: "GuestMemory \<Rightarrow> u64 \<Rightarrow> u8" where
  "gm_byte m x = (case gm_page_at m x of None \<Rightarrow> 0 | Some p \<Rightarrow> page_bytes p (page_off x))"

definition gm_attr :: "GuestMemory \<Rightarrow> u64 \<Rightarrow> (u8 \<times> u8 \<times> bool) option" where
  "gm_attr m x = map_option (\<lambda>p. (pg_prot p, pg_maxprot p, pg_jit p)) (gm_page_at m x)"

text \<open>The invariant: sorted and page aligned addresses that end before the last byte of the
  address space, and protections within the maximum, which is within the three bits.\<close>

definition gm_page_ok :: "GMPage \<Rightarrow> bool" where
  "gm_page_ok p \<longleftrightarrow> page_aligned (pg_address p) \<and> unat (pg_address p) + 16384 < 2 ^ 64 \<and>
     pg_maxprot p AND NOT 7 = 0 \<and> pg_prot p AND NOT (pg_maxprot p) = 0"

definition gm_sorted :: "GMPage list \<Rightarrow> bool" where
  "gm_sorted pages \<longleftrightarrow> sorted_wrt (<) (map pg_address pages)"

definition gm_wf :: "GuestMemory \<Rightarrow> bool" where
  "gm_wf m \<longleftrightarrow> gm_sorted (gm_pages m) \<and> list_all gm_page_ok (gm_pages m)"

section \<open>The bisection\<close>

text \<open>\<open>lower\<close> returns the number of pages below the address.\<close>

abbreviation gm_below :: "u64 \<Rightarrow> GMPage list \<Rightarrow> GMPage list" where
  "gm_below a \<equiv> filter (\<lambda>p. pg_address p < a)"

lemma gm_sorted_nth_less:
  assumes "gm_sorted pages" and "i < length pages"
  shows "pg_address (pages ! i) < a \<longleftrightarrow> i < length (gm_below a pages)"
proof
  assume "i < length (gm_below a pages)"
  moreover have "take (length (gm_below a pages)) pages = gm_below a pages"
    using assms(1) by (simp add: gm_sorted_def sorted_key_take)
  ultimately have "pages ! i \<in> set (gm_below a pages)"
    by (metis nth_mem nth_take)
  then show "pg_address (pages ! i) < a" by simp
next
  assume lt: "pg_address (pages ! i) < a"
  show "i < length (gm_below a pages)"
  proof (rule ccontr)
    assume ge: "\<not> ?thesis"
    have "drop (length (gm_below a pages)) pages = filter (\<lambda>p. \<not> pg_address p < a) pages"
      using assms(1) by (simp add: gm_sorted_def sorted_key_drop)
    moreover have "pages ! i = drop (length (gm_below a pages)) pages ! (i - length (gm_below a pages))"
      using ge by simp
    then have "pages ! i \<in> set (drop (length (gm_below a pages)) pages)"
      using ge assms(2) by (metis diff_less_mono length_drop not_less nth_mem)
    ultimately show False using lt by auto
  qed
qed

lemma gm_bisect_eq:
  "gm_sorted pages \<Longrightarrow> lo \<le> length (gm_below a pages) \<Longrightarrow> length (gm_below a pages) \<le> hi \<Longrightarrow>
    hi \<le> length pages \<Longrightarrow> gm_bisect pages a lo hi = length (gm_below a pages)"
proof (induction pages a lo hi rule: gm_bisect.induct)
  case (1 pages a lo hi)
  show ?case
  proof (cases "lo < hi")
    case False
    with 1 show ?thesis by (simp add: gm_bisect.simps)
  next
    case True
    define mid where "mid = lo + (hi - lo) div 2"
    have mid: "mid < hi" "lo \<le> mid" using True by (auto simp: mid_def)
    have key: "pg_address (pages ! mid) < a \<longleftrightarrow> mid < length (gm_below a pages)"
      using gm_sorted_nth_less [of pages mid a] "1.prems" mid by simp
    show ?thesis
      using "1.IH" [OF True mid_def] "1.prems" True mid key
      by (subst gm_bisect.simps) (simp add: Let_def mid_def [symmetric])
  qed
qed

lemma gm_lower_eq: "gm_sorted pages \<Longrightarrow> gm_lower pages a = length (gm_below a pages)"
  unfolding gm_lower_def by (rule gm_bisect_eq) auto

lemma gm_lower_le: "gm_sorted pages \<Longrightarrow> gm_lower pages a \<le> length pages"
  by (simp add: gm_lower_eq)

lemma gm_take_lower: "gm_sorted pages \<Longrightarrow> take (gm_lower pages a) pages = gm_below a pages"
  by (simp add: gm_lower_eq gm_sorted_def sorted_key_take)

lemma gm_drop_lower:
  "gm_sorted pages \<Longrightarrow> drop (gm_lower pages a) pages = filter (\<lambda>p. \<not> pg_address p < a) pages"
  by (simp add: gm_lower_eq gm_sorted_def sorted_key_drop)

lemma gm_sorted_distinct: "gm_sorted pages \<Longrightarrow> distinct (map pg_address pages)"
  by (simp add: gm_sorted_def strict_sorted_iff)

lemma gm_tab_Some_iff:
  "gm_sorted pages \<Longrightarrow> gm_tab pages b = Some p \<longleftrightarrow> p \<in> set pages \<and> pg_address p = b"
  by (auto simp: gm_tab_def comp_def dest: gm_sorted_distinct
      intro!: map_of_is_SomeI dest!: map_of_SomeD)

lemma gm_tab_None_iff: "gm_tab pages b = None \<longleftrightarrow> b \<notin> pg_address ` set pages"
  by (auto simp: gm_tab_def map_of_eq_None_iff image_image)

text \<open>The page found by \<open>lower\<close> is the page of the table.\<close>

lemma gm_tab_lower:
  assumes "gm_sorted pages"
  shows "gm_tab pages b =
    (if gm_lower pages b = length pages \<or> pg_address (pages ! gm_lower pages b) \<noteq> b then None
     else Some (pages ! gm_lower pages b))"
proof (cases "gm_tab pages b")
  case (Some p)
  then have "p \<in> set pages" and b: "pg_address p = b" using assms by (simp_all add: gm_tab_Some_iff)
  then obtain i where i: "i < length pages" "pages ! i = p" by (auto simp: in_set_conv_nth)
  have "\<not> i < gm_lower pages b"
    using gm_sorted_nth_less [OF assms i(1), of b] i b by (simp add: gm_lower_eq assms)
  moreover have "\<not> gm_lower pages b < i"
  proof
    assume lt: "gm_lower pages b < i"
    then have "pg_address (pages ! gm_lower pages b) < b"
      using assms i b sorted_wrt_nth_less [of "(<)" "map pg_address pages" "gm_lower pages b" i]
      by (auto simp: gm_sorted_def)
    then show False
      using gm_sorted_nth_less [OF assms, of "gm_lower pages b" b] lt i(1)
      by (simp add: gm_lower_eq assms)
  qed
  ultimately have "gm_lower pages b = i" by simp
  with Some i b show ?thesis by auto
next
  case None
  then have n: "b \<notin> pg_address ` set pages" by (simp add: gm_tab_None_iff)
  have "pg_address (pages ! gm_lower pages b) \<noteq> b" if "gm_lower pages b \<noteq> length pages"
    using n that gm_lower_le [OF assms, of b] by (metis image_eqI le_neq_implies_less nth_mem)
  with None show ?thesis by auto
qed

lemma gm_lower_tab:
  assumes "gm_sorted pages" and "gm_tab pages b = Some p"
  shows "gm_lower pages b < length pages" and "pages ! gm_lower pages b = p"
    and "pg_address p = b"
  using gm_tab_lower [OF assms(1), of b] assms gm_lower_le [OF assms(1), of b]
  by (auto split: if_splits)

text \<open>Replacing the page found there by one with the same address.\<close>

lemma gm_addresses_update:
  "i < length pages \<Longrightarrow> pg_address q = pg_address (pages ! i) \<Longrightarrow>
   map pg_address (pages[i := q]) = map pg_address pages"
  by (simp add: map_update list_update_same_conv)

lemma gm_sorted_update:
  assumes "gm_sorted pages" and "gm_tab pages b = Some p" and "pg_address q = b"
  shows "gm_sorted (pages[gm_lower pages b := q])"
  using assms gm_lower_tab [OF assms(1,2)] by (simp add: gm_sorted_def gm_addresses_update)

lemma gm_tab_update:
  assumes "gm_sorted pages" and "gm_tab pages b = Some p" and "pg_address q = b"
  shows "gm_tab (pages[gm_lower pages b := q]) = (gm_tab pages)(b \<mapsto> q)"
proof
  fix c
  let ?i = "gm_lower pages b"
  note l = gm_lower_tab [OF assms(1,2)]
  have s: "gm_sorted (pages[?i := q])" by (rule gm_sorted_update [OF assms])
  have lower: "gm_lower (pages[?i := q]) c = gm_lower pages c"
  proof -
    have count: "length (gm_below c xs) = length (filter (\<lambda>a. a < c) (map pg_address xs))" for xs
      by (simp add: filter_map comp_def)
    have "map pg_address (pages[?i := q]) = map pg_address pages"
      using l assms by (simp add: gm_addresses_update)
    then show ?thesis
      unfolding gm_lower_eq [OF s] gm_lower_eq [OF assms(1), of c] count by simp
  qed
  show "gm_tab (pages[?i := q]) c = ((gm_tab pages)(b \<mapsto> q)) c"
  proof (cases "c = b")
    case True
    then show ?thesis using l assms lower by (simp add: gm_tab_lower [OF s])
  next
    case False
    have adr: "pg_address (pages[?i := q] ! j) = pg_address (pages ! j)" for j
      using l assms by (cases "j = ?i") simp_all
    have "?i \<noteq> gm_lower pages c" if "pg_address (pages ! gm_lower pages c) = c"
      using that l False by auto
    then show ?thesis
      using False by (auto simp: gm_tab_lower [OF s] lower adr gm_tab_lower [OF assms(1), of c])
  qed
qed

section \<open>The pages an access walks through\<close>

lemma page_chunk_same_page:
  assumes "unat a \<le> unat x" and "unat x < unat a + unat (page_chunk a n)"
  shows "page_base x = page_base a" and "page_off x = page_off a + unat (x - a)"
proof -
  have "unat x < unat a + (16384 - page_off a)" using assms(2) by (simp add: unat_page_chunk)
  then have "unat x < unat (page_base a) + 16384"
    using unat_page_split [of a] page_off_less [of a] by linarith
  moreover have "unat (page_base a) \<le> unat x" using assms(1) unat_page_split [of a] by linarith
  ultimately show base: "page_base x = page_base a" by (simp add: page_base_eq_iff)
  have "unat (x - a) = unat x - unat a" using assms(1) by (simp add: unat_sub word_nat)
  then show "page_off x = page_off a + unat (x - a)"
    using unat_page_split [of x] unat_page_split [of a] base assms(1) by simp
qed

lemma page_chunk_range_iff:
  assumes "unat a + unat n < 2 ^ 64"
  shows "in_range a (page_chunk a n) x \<longleftrightarrow>
    page_base x = page_base a \<and> page_off a \<le> page_off x \<and>
    page_off x < page_off a + unat (page_chunk a n)"
proof -
  have le: "unat (page_chunk a n) \<le> unat n" using page_chunk_le [of a n] by (simp add: word_nat)
  then have fit: "unat a + unat (page_chunk a n) < 2 ^ 64" using assms by linarith
  show ?thesis
  proof
    assume "in_range a (page_chunk a n) x"
    then have x: "unat a \<le> unat x" "unat x < unat a + unat (page_chunk a n)"
      by (simp_all add: in_range_iff [OF fit])
    have "unat (x - a) < unat (page_chunk a n)" using x by (simp add: unat_sub word_nat)
    then show "page_base x = page_base a \<and> page_off a \<le> page_off x \<and>
        page_off x < page_off a + unat (page_chunk a n)"
      using page_chunk_same_page [OF x] by simp
  next
    assume "page_base x = page_base a \<and> page_off a \<le> page_off x \<and>
        page_off x < page_off a + unat (page_chunk a n)"
    then show "in_range a (page_chunk a n) x"
      using unat_page_split [of x] unat_page_split [of a] by (simp add: in_range_iff [OF fit])
  qed
qed

text \<open>A range splits into the chunk of its first page and the rest.\<close>

lemma in_range_split:
  assumes "unat a + unat n < 2 ^ 64" and "c \<le> n"
  shows "in_range a n x \<longleftrightarrow> in_range a c x \<or> in_range (a + c) (n - c) x"
    and "in_range (a + c) (n - c) x \<Longrightarrow> unat (x - a) = unat c + unat (x - (a + c))"
    and "unat (a + c) + unat (n - c) = unat a + unat n"
    and "in_range a c x \<Longrightarrow> \<not> in_range (a + c) (n - c) x"
proof -
  have cn: "unat c \<le> unat n" "unat (n - c) = unat n - unat c"
    using assms(2) by (simp_all add: unat_sub word_nat)
  then have ac: "unat (a + c) = unat a + unat c"
    using assms(1) by (intro unat_plus_nowrap) linarith
  show sum: "unat (a + c) + unat (n - c) = unat a + unat n" using cn ac by simp
  have fits: "unat a + unat c < 2 ^ 64" "unat (a + c) + unat (n - c) < 2 ^ 64"
    using assms(1) cn sum by linarith+
  note i = in_range_iff [OF assms(1)] in_range_iff [OF fits(1)] in_range_iff [OF fits(2)]
  show "in_range a n x \<longleftrightarrow> in_range a c x \<or> in_range (a + c) (n - c) x"
    using cn ac unfolding i by auto
  show "\<not> in_range (a + c) (n - c) x" if "in_range a c x" using that ac unfolding i by auto
  show "unat (x - a) = unat c + unat (x - (a + c))" if "in_range (a + c) (n - c) x"
  proof -
    have "unat (a + c) \<le> unat x" using that unfolding i by simp
    then have "unat (x - (a + c)) = unat x - unat (a + c)" and "unat (x - a) = unat x - unat a"
      using ac by (simp_all add: unat_sub word_nat)
    then show ?thesis using ac \<open>unat (a + c) \<le> unat x\<close> by simp
  qed
qed

section \<open>Host buffers\<close>

text \<open>A host buffer of at least \<open>n\<close> bytes, or none.\<close>

definition buffer_ok :: "u8 list option \<Rightarrow> u64 \<Rightarrow> bool" where
  "buffer_ok b n \<longleftrightarrow> (case b of None \<Rightarrow> True | Some buf \<Rightarrow> unat n \<le> length buf)"

lemma length_buffer_write [simp]:
  "at + length src \<le> length b \<Longrightarrow> length (buffer_write b at src) = length b"
  by (simp add: buffer_write_def)

lemma nth_buffer_write:
  "at + length src \<le> length b \<Longrightarrow> i < length b \<Longrightarrow> buffer_write b at src ! i =
    (if at \<le> i \<and> i < at + length src then src ! (i - at) else b ! i)"
  by (auto simp: buffer_write_def nth_append min_def)

end
