(* ===== verification/GuestMemoryMapping.thy ===== *)
theory GuestMemoryMapping
  imports GuestMemory
begin

text \<open>
  What \<open>gm_map\<close>, \<open>gm_unmap\<close>, \<open>gm_protect\<close> and \<open>gm_find_free\<close> do to the
  page table of an address space, and that each keeps the invariant.
\<close>

section \<open>Page ranges\<close>

lemma gm_range_facts:
  assumes "gm_range a n"
  shows "page_aligned a" and "unat n mod 16384 = 0" and "0 < unat n"
    and "unat a + unat n < 2 ^ 64" and "unat (a + n) = unat a + unat n"
    and "unat (n div GM_PAGE_SIZE) * 16384 = unat n"
proof -
  show "page_aligned a" using assms by (simp add: gm_range_def page_aligned_def)
  show nm: "unat n mod 16384 = 0"
    using assms unat_mod_page [of n] by (simp add: gm_range_def)
  show "0 < unat n" using assms by (simp add: gm_range_def unat_gt_0)
  show le: "unat a + unat n < 2 ^ 64" using assms by (simp add: gm_range_def fits_iff)
  then show "unat (a + n) = unat a + unat n" by (rule unat_plus_nowrap)
  show "unat (n div GM_PAGE_SIZE) * 16384 = unat n"
    using nm by (simp add: unat_div) (metis add.right_neutral div_mult_mod_eq)
qed

lemma page_mult_le: "o' < (16384 :: nat) \<Longrightarrow> 16384 * k \<le> 16384 * q + o' \<longleftrightarrow> k \<le> q"
  by (cases "k \<le> q") linarith+

lemma page_mult_less:
  "o' < (16384 :: nat) \<Longrightarrow> 16384 * q + o' < 16384 * k + 16384 * l \<longleftrightarrow> q < k + l"
  by (cases "q < k + l") linarith+

lemma in_range_page:
  assumes "gm_range a n"
  shows "in_range a n (page_base x) \<longleftrightarrow> in_range a n x"
proof -
  note r = gm_range_facts [OF assms]
  obtain k where k: "unat a = 16384 * k" using r(1) by (auto simp: page_aligned_iff)
  obtain l where l: "unat n = 16384 * l" using r(2) by auto
  have "unat (page_base x) = 16384 * (unat x div 16384)"
    by (simp add: unat_page_base minus_mod_eq_mult_div)
  moreover have "unat x = 16384 * (unat x div 16384) + page_off x"
    by (simp add: page_off_def)
  ultimately show ?thesis
    unfolding in_range_iff [OF r(4)] k l
    using page_mult_le [OF page_off_less [of x], of k "unat x div 16384"]
      page_mult_less [OF page_off_less [of x], of "unat x div 16384" k l]
      page_mult_less [of 0 "unat x div 16384" k l] by simp
qed

lemma page_index_address:
  assumes "gm_range a n" and "i < unat (n div GM_PAGE_SIZE)"
  shows "unat (a + of_nat i * GM_PAGE_SIZE) = unat a + i * 16384"
proof -
  note r = gm_range_facts [OF assms(1)]
  have i: "i * 16384 < unat n" using assms(2) r(6) by (metis mult_less_cancel2 zero_less_numeral)
  then have "i * 16384 < 2 ^ 64" using unat_u64_less [of n] by linarith
  then have u: "unat (of_nat i * GM_PAGE_SIZE :: u64) = i * 16384"
    by (simp add: unat_word_ariths unsigned_of_nat take_bit_eq_mod)
  show ?thesis
    using unat_plus_nowrap [of a "of_nat i * GM_PAGE_SIZE"] u i r(4) by simp
qed

lemma page_index_iff:
  assumes "gm_range a n"
  shows "(\<exists>i < unat (n div GM_PAGE_SIZE). b = a + of_nat i * GM_PAGE_SIZE) \<longleftrightarrow>
    page_aligned b \<and> in_range a n b"
proof -
  note r = gm_range_facts [OF assms]
  show ?thesis
  proof
    assume "\<exists>i < unat (n div GM_PAGE_SIZE). b = a + of_nat i * GM_PAGE_SIZE"
    then obtain i where i: "i < unat (n div GM_PAGE_SIZE)" "b = a + of_nat i * GM_PAGE_SIZE" by blast
    have u: "unat b = unat a + i * 16384" using page_index_address [OF assms i(1)] i(2) by simp
    have "i * 16384 < unat n" using i(1) r(6) by (metis mult_less_cancel2 zero_less_numeral)
    with u r show "page_aligned b \<and> in_range a n b"
      by (simp add: in_range_iff page_aligned_iff)
  next
    assume b: "page_aligned b \<and> in_range a n b"
    then have le: "unat a \<le> unat b" and lt: "unat b < unat a + unat n" by (auto simp: in_range_iff [OF r(4)])
    obtain k where k: "unat a = 16384 * k" using r(1) by (auto simp: page_aligned_iff)
    obtain l where l: "unat b = 16384 * l" using b by (auto simp: page_aligned_iff)
    define i where "i = l - k"
    have "unat b = unat a + i * 16384" using le by (simp add: i_def k l)
    moreover from this lt r(6) have "i < unat (n div GM_PAGE_SIZE)"
      by (metis add_less_cancel_left mult_less_cancel2)
    ultimately show "\<exists>i < unat (n div GM_PAGE_SIZE). b = a + of_nat i * GM_PAGE_SIZE"
      using page_index_address [OF assms] by (metis word_unat_eq_iff)
  qed
qed

section \<open>Protection bits\<close>

lemma prot_down_subset:
  assumes "p AND NOT q = (0 :: u32)"
  shows "(ucast p :: u8) AND NOT (ucast q) = 0"
proof (rule bit_word_eqI)
  fix k
  assume "k < LENGTH(8)"
  moreover have "\<not> bit (p AND NOT q) k" using assms by simp
  ultimately show "bit ((ucast p :: u8) AND NOT (ucast q)) k = bit 0 k"
    by (auto simp: bit_and_iff bit_not_iff bit_ucast_iff)
qed

lemma prot_up_subset:
  assumes "(p :: u32) AND NOT 7 = 0" and "p AND NOT (ucast (q :: u8)) = 0"
  shows "(ucast p :: u8) AND NOT q = 0"
  using prot_down_subset [OF assms(2)] by (simp add: ucast_up_ucast_id is_up)

lemma gm_new_page_ok:
  assumes "gm_range a n" and "maxprot AND NOT 7 = 0" and "prot AND NOT maxprot = 0"
    and "page_aligned b" and "in_range a n b"
  shows "gm_page_ok (gm_new_page b prot maxprot jit)"
proof -
  note r = gm_range_facts [OF assms(1)]
  have b: "unat b < unat a + unat n" using assms(5) by (simp add: in_range_iff [OF r(4)])
  obtain k where k: "unat a = 16384 * k" using r(1) by (auto simp: page_aligned_iff)
  obtain l where l: "unat n = 16384 * l" using r(2) by auto
  obtain j where j: "unat b = 16384 * j" using assms(4) by (auto simp: page_aligned_iff)
  have "j < k + l"
    using b unfolding k l j by linarith
  then have "unat b + 16384 \<le> unat a + unat n" unfolding k l j by linarith
  then have "unat b + 16384 < 2 ^ 64" using r(4) by linarith
  then show ?thesis
    using assms prot_down_subset [OF assms(2)] prot_down_subset [OF assms(3)]
    by (simp add: gm_page_ok_def gm_new_page_def)
qed

section \<open>Splitting the array at a page range\<close>

lemma outside_range:
  assumes "gm_range a n"
  shows "\<not> in_range a n b \<longleftrightarrow> b < a \<or> \<not> b < a + n"
  using gm_range_facts [OF assms] by (auto simp: in_range_iff word_nat)

lemma gm_cut_set:
  assumes "gm_sorted pages" and "gm_range a n"
  shows "set (take (gm_lower pages a) pages) \<union> set (drop (gm_lower pages (a + n)) pages) =
    {p \<in> set pages. \<not> in_range a n (pg_address p)}"
  using outside_range [OF assms(2)] by (auto simp: gm_take_lower gm_drop_lower assms(1))

text \<open>The array with the pages of a range replaced by the pages \<open>mid\<close> of that range.\<close>

lemma gm_replace_sorted:
  assumes "gm_sorted pages" and "gm_range a n" and "gm_sorted mid"
    and "\<forall>p \<in> set mid. in_range a n (pg_address p)"
  shows "gm_sorted (take (gm_lower pages a) pages @ mid @ drop (gm_lower pages (a + n)) pages)"
proof -
  note r = gm_range_facts [OF assms(2)]
  have mid: "a \<le> pg_address p \<and> pg_address p < a + n" if "p \<in> set mid" for p
    using assms(4) that r by (auto simp: in_range_iff word_nat)
  have "a < a + n" using r by (simp add: word_nat)
  then show ?thesis
    using assms(1,3) mid
    by (auto simp: gm_take_lower gm_drop_lower gm_sorted_def sorted_wrt_append sorted_wrt_map
        sorted_wrt_filter not_less
        intro: less_le_trans le_less_trans order.strict_trans)
qed

lemma gm_replace_tab:
  assumes "gm_sorted pages" and "gm_range a n" and "gm_sorted mid"
    and "\<forall>p \<in> set mid. in_range a n (pg_address p)"
  shows "gm_tab (take (gm_lower pages a) pages @ mid @ drop (gm_lower pages (a + n)) pages) b =
    (if in_range a n b then gm_tab mid b else gm_tab pages b)"
proof -
  let ?new = "take (gm_lower pages a) pages @ mid @ drop (gm_lower pages (a + n)) pages"
  have s: "gm_sorted ?new" by (rule gm_replace_sorted [OF assms])
  have st: "set ?new = set mid \<union> {p \<in> set pages. \<not> in_range a n (pg_address p)}"
    using gm_cut_set [OF assms(1,2)] by auto
  have "gm_tab ?new b = Some p \<longleftrightarrow>
      (if in_range a n b then gm_tab mid b else gm_tab pages b) = Some p" for p
    unfolding gm_tab_Some_iff [OF s] st using assms(4) by (auto simp: gm_tab_Some_iff assms(1,3))
  then show ?thesis by (metis option.exhaust)
qed

lemma gm_wf_replace:
  assumes "gm_wf m" and "gm_range a n" and "gm_sorted mid"
    and "\<forall>p \<in> set mid. in_range a n (pg_address p) \<and> gm_page_ok p"
    and "gm_pages m' =
      take (gm_lower (gm_pages m) a) (gm_pages m) @ mid @ drop (gm_lower (gm_pages m) (a + n)) (gm_pages m)"
  shows "gm_wf m'"
    and "gm_page_at m' x = (if in_range a n x then gm_tab mid (page_base x) else gm_page_at m x)"
proof -
  have s: "gm_sorted (gm_pages m)" and ok: "list_all gm_page_ok (gm_pages m)"
    using assms(1) by (simp_all add: gm_wf_def)
  have "gm_sorted (gm_pages m')"
    using gm_replace_sorted [OF s assms(2,3)] assms(4,5) by simp
  moreover have "list_all gm_page_ok (gm_pages m')"
    using ok assms(4,5) by (auto simp: list_all_iff dest: in_set_takeD in_set_dropD)
  ultimately show "gm_wf m'" by (simp add: gm_wf_def)
  show "gm_page_at m' x = (if in_range a n x then gm_tab mid (page_base x) else gm_page_at m x)"
    using gm_replace_tab [OF s assms(2,3)] assms(4,5) in_range_page [OF assms(2)]
    by (simp add: gm_page_at_def)
qed

section \<open>The mapping operations\<close>

lemma sorted_wrt_upt_map:
  assumes "\<And>i j. i < j \<Longrightarrow> j < k \<Longrightarrow> P (f i) (f j)"
  shows "sorted_wrt P (map f [0..<k])"
  using assms by (auto simp: sorted_wrt_map sorted_wrt_iff_nth_less)

lemma gm_new_pages:
  fixes prot maxprot :: u32 and jit :: bool
  assumes "gm_range a n"
  defines "mid \<equiv> map (\<lambda>i. gm_new_page (a + of_nat i * GM_PAGE_SIZE) prot maxprot jit)
    [0..<unat (n div GM_PAGE_SIZE)]"
  shows "gm_sorted mid"
    and "p \<in> set mid \<longleftrightarrow> (\<exists>b. page_aligned b \<and> in_range a n b \<and> p = gm_new_page b prot maxprot jit)"
    and "page_aligned b \<Longrightarrow> in_range a n b \<Longrightarrow> gm_tab mid b = Some (gm_new_page b prot maxprot jit)"
proof -
  show s: "gm_sorted mid"
    unfolding gm_sorted_def mid_def map_map
    by (rule sorted_wrt_upt_map)
      (simp add: gm_new_page_def word_less_nat_alt page_index_address [OF assms(1)])
  have mem: "p \<in> set mid \<longleftrightarrow>
      (\<exists>b. page_aligned b \<and> in_range a n b \<and> p = gm_new_page b prot maxprot jit)" for p
    using page_index_iff [OF assms(1)] unfolding mid_def by (force simp: image_iff)
  then show "p \<in> set mid \<longleftrightarrow>
      (\<exists>b. page_aligned b \<and> in_range a n b \<and> p = gm_new_page b prot maxprot jit)" .
  show "gm_tab mid b = Some (gm_new_page b prot maxprot jit)"
    if "page_aligned b" "in_range a n b"
    using that mem [of "gm_new_page b prot maxprot jit"]
    by (auto simp: gm_tab_Some_iff [OF s] gm_new_page_def)
qed

text \<open>The pages of a range, and a range that is wholly mapped.\<close>

lemma gm_inner_pages:
  assumes "gm_sorted pages" and "gm_range a n"
  shows "take (gm_lower pages (a + n) - gm_lower pages a) (drop (gm_lower pages a) pages) =
    filter (\<lambda>p. in_range a n (pg_address p)) pages"
proof -
  have lt: "a < a + n" using gm_range_facts [OF assms(2)] by (simp add: word_nat)
  let ?low = "gm_below (a + n) pages"
  have low: "gm_sorted ?low"
    using assms(1) by (simp add: gm_sorted_def sorted_wrt_map sorted_wrt_filter)
  have "gm_below a ?low = gm_below a pages"
    using lt by (auto simp: filter_filter intro!: filter_cong)
  then have eq: "gm_lower pages a = gm_lower ?low a"
    by (simp add: gm_lower_eq assms(1) low)
  have "take (gm_lower pages (a + n) - gm_lower pages a) (drop (gm_lower pages a) pages) =
      drop (gm_lower pages a) (take (gm_lower pages (a + n)) pages)"
    by (simp add: drop_take)
  also have "\<dots> = drop (gm_lower ?low a) ?low"
    by (simp add: eq gm_take_lower assms(1))
  also have "\<dots> = filter (\<lambda>p. \<not> pg_address p < a) ?low"
    by (rule gm_drop_lower [OF low])
  also have "\<dots> = filter (\<lambda>p. in_range a n (pg_address p)) pages"
    using outside_range [OF assms(2)] by (auto simp: filter_filter intro!: filter_cong)
  finally show ?thesis .
qed

lemma page_range_card:
  assumes "gm_range a n"
  shows "card {b. page_aligned b \<and> in_range a n b} = unat (n div GM_PAGE_SIZE)"
    and "finite {b. page_aligned b \<and> in_range a n b}"
proof -
  let ?f = "\<lambda>i :: nat. a + of_nat i * GM_PAGE_SIZE"
  have eq: "{b. page_aligned b \<and> in_range a n b} = ?f ` {..<unat (n div GM_PAGE_SIZE)}"
    using page_index_iff [OF assms] by auto
  have "inj_on ?f {..<unat (n div GM_PAGE_SIZE)}"
    using page_index_address [OF assms]
    by (intro inj_onI) (metis add_left_cancel lessThan_iff mult_cancel_right zero_neq_numeral)
  then show "card {b. page_aligned b \<and> in_range a n b} = unat (n div GM_PAGE_SIZE)"
    by (simp add: eq card_image)
  show "finite {b. page_aligned b \<and> in_range a n b}" by (simp add: eq)
qed

lemma gm_inner_length:
  assumes "gm_sorted pages" and "gm_range a n"
  shows "gm_lower pages (a + n) - gm_lower pages a =
    length (filter (\<lambda>p. in_range a n (pg_address p)) pages)"
proof -
  have "gm_lower pages (a + n) \<le> length pages" by (rule gm_lower_le [OF assms(1)])
  then show ?thesis
    by (subst gm_inner_pages [OF assms, symmetric]) simp
qed

lemma gm_lower_mono: "gm_sorted pages \<Longrightarrow> gm_range a n \<Longrightarrow> gm_lower pages a \<le> gm_lower pages (a + n)"
proof -
  assume s: "gm_sorted pages" and r: "gm_range a n"
  have lt: "a < a + n" using gm_range_facts [OF r] by (simp add: word_nat)
  have "gm_below a (gm_below (a + n) pages) = gm_below a pages"
    using lt by (auto simp: filter_filter intro!: filter_cong)
  then have "length (gm_below a pages) \<le> length (gm_below (a + n) pages)"
    by (metis length_filter_le)
  with s show ?thesis by (simp add: gm_lower_eq)
qed

lemma gm_page_at_Some:
  "gm_wf m \<Longrightarrow> gm_page_at m x = Some p \<longleftrightarrow> p \<in> set (gm_pages m) \<and> pg_address p = page_base x"
  by (simp add: gm_page_at_def gm_wf_def gm_tab_Some_iff)

lemma gm_page_aligned: "gm_wf m \<Longrightarrow> p \<in> set (gm_pages m) \<Longrightarrow> page_base (pg_address p) = pg_address p"
  by (auto simp: gm_wf_def list_all_iff gm_page_ok_def intro: page_base_aligned)

lemma gm_overlap_iff:
  assumes "gm_wf m" and "gm_range a n"
  shows "gm_lower (gm_pages m) a \<noteq> gm_lower (gm_pages m) (a + n) \<longleftrightarrow>
    (\<exists>x. in_range a n x \<and> gm_page_at m x \<noteq> None)"
proof -
  have s: "gm_sorted (gm_pages m)" using assms(1) by (simp add: gm_wf_def)
  have "gm_lower (gm_pages m) a \<noteq> gm_lower (gm_pages m) (a + n) \<longleftrightarrow>
      gm_lower (gm_pages m) (a + n) - gm_lower (gm_pages m) a \<noteq> 0"
    using gm_lower_mono [OF s assms(2)] by auto
  also have "\<dots> \<longleftrightarrow> (\<exists>p \<in> set (gm_pages m). in_range a n (pg_address p))"
    by (simp add: gm_inner_length [OF s assms(2)] filter_empty_conv)
  also have "\<dots> \<longleftrightarrow> (\<exists>x. in_range a n x \<and> gm_page_at m x \<noteq> None)"
    using gm_page_at_Some [OF assms(1)] gm_page_aligned [OF assms(1)] in_range_page [OF assms(2)]
    by (metis not_Some_eq)
  finally show ?thesis .
qed

lemma gm_covered_iff:
  assumes "gm_wf m" and "gm_range a n"
  shows "gm_lower (gm_pages m) (a + n) - gm_lower (gm_pages m) a = unat (n div GM_PAGE_SIZE) \<longleftrightarrow>
    (\<forall>x. in_range a n x \<longrightarrow> gm_page_at m x \<noteq> None)"
proof -
  have s: "gm_sorted (gm_pages m)" using assms(1) by (simp add: gm_wf_def)
  let ?inner = "filter (\<lambda>p. in_range a n (pg_address p)) (gm_pages m)"
  let ?all = "{b. page_aligned b \<and> in_range a n b}"
  have "distinct (map pg_address ?inner)"
    using gm_sorted_distinct [OF s] by (simp add: distinct_map_filter)
  then have len: "length ?inner = card (pg_address ` set ?inner)"
    by (metis distinct_card length_map set_map)
  have sub: "pg_address ` set ?inner \<subseteq> ?all"
    using assms(1) by (auto simp: gm_wf_def list_all_iff gm_page_ok_def)
  have "gm_lower (gm_pages m) (a + n) - gm_lower (gm_pages m) a = card (pg_address ` set ?inner)"
    using gm_inner_length [OF s assms(2)] len by (rule trans)
  then have "gm_lower (gm_pages m) (a + n) - gm_lower (gm_pages m) a = unat (n div GM_PAGE_SIZE) \<longleftrightarrow>
      card (pg_address ` set ?inner) = card ?all"
    using page_range_card(1) [OF assms(2)] by argo
  also have "\<dots> \<longleftrightarrow> ?all \<subseteq> pg_address ` set ?inner"
  proof
    assume "card (pg_address ` set ?inner) = card ?all"
    then have "pg_address ` set ?inner = ?all"
      by (rule card_subset_eq [OF page_range_card(2) [OF assms(2)] sub])
    then show "?all \<subseteq> pg_address ` set ?inner" by (rule equalityD2)
  next
    assume "?all \<subseteq> pg_address ` set ?inner"
    with sub have "pg_address ` set ?inner = ?all" by (rule subset_antisym)
    then show "card (pg_address ` set ?inner) = card ?all" by (rule arg_cong)
  qed
  also have "\<dots> \<longleftrightarrow> (\<forall>x. in_range a n x \<longrightarrow> gm_page_at m x \<noteq> None)"
  proof
    assume all: "?all \<subseteq> pg_address ` set ?inner"
    show "\<forall>x. in_range a n x \<longrightarrow> gm_page_at m x \<noteq> None"
    proof (intro allI impI)
      fix x assume "in_range a n x"
      then have "page_base x \<in> ?all" by (simp add: in_range_page [OF assms(2)])
      with all have "page_base x \<in> pg_address ` set ?inner" by (rule subsetD)
      then obtain p where "p \<in> set (gm_pages m)" "pg_address p = page_base x" by auto
      then have "gm_page_at m x = Some p" by (simp add: gm_page_at_Some [OF assms(1)])
      then show "gm_page_at m x \<noteq> None" by simp
    qed
  next
    assume all: "\<forall>x. in_range a n x \<longrightarrow> gm_page_at m x \<noteq> None"
    show "?all \<subseteq> pg_address ` set ?inner"
    proof
      fix b assume b: "b \<in> ?all"
      then obtain p where "gm_page_at m b = Some p" using all by blast
      then have "p \<in> set (gm_pages m)" "pg_address p = b"
        using b by (simp_all add: gm_page_at_Some [OF assms(1)] page_base_aligned)
      then show "b \<in> pg_address ` set ?inner" using b by force
    qed
  qed
  finally show ?thesis .
qed

section \<open>Specifications\<close>

definition gm_map_args_ok :: "u64 \<Rightarrow> u64 \<Rightarrow> u32 \<Rightarrow> u32 \<Rightarrow> bool" where
  "gm_map_args_ok a n prot maxprot \<longleftrightarrow>
     gm_range a n \<and> maxprot AND NOT 7 = 0 \<and> prot AND NOT maxprot = 0"

lemma gm_map_error:
  "gm_map m a n prot maxprot jit replace calloc_ok = (r, m') \<Longrightarrow> r \<noteq> GM_OK \<Longrightarrow> m' = m"
  by (auto simp: gm_map_def Let_def split: if_splits)

lemma gm_map_ok:
  assumes wf: "gm_wf m" and eq: "gm_map m a n prot maxprot jit replace calloc_ok = (GM_OK, m')"
  shows "gm_wf m'"
    and "gm_page_at m' x = (if in_range a n x then Some (gm_new_page (page_base x) prot maxprot jit)
           else gm_page_at m x)"
    and "gm_generation m' = gm_generation m + 1" and "gm_code_generation m' = gm_code_generation m + 1"
    and "gm_fault_address m' = gm_fault_address m"
proof -
  have args: "gm_map_args_ok a n prot maxprot"
    using eq by (auto simp: gm_map_def gm_map_args_ok_def split: if_splits)
  then have r: "gm_range a n" by (simp add: gm_map_args_ok_def)
  note n = gm_new_pages [OF r, where prot = prot and maxprot = maxprot and jit = jit]
  have mid: "in_range a n (pg_address p) \<and> gm_page_ok p"
    if "p \<in> set (map (\<lambda>i. gm_new_page (a + of_nat i * GM_PAGE_SIZE) prot maxprot jit)
      [0..<unat (n div GM_PAGE_SIZE)])" for p
    using that args gm_new_page_ok [OF r] unfolding n(2)
    by (auto simp: gm_map_args_ok_def) (simp add: gm_new_page_def)
  have pages: "gm_pages m' = take (gm_lower (gm_pages m) a) (gm_pages m)
      @ map (\<lambda>i. gm_new_page (a + of_nat i * GM_PAGE_SIZE) prot maxprot jit)
          [0..<unat (n div GM_PAGE_SIZE)]
      @ drop (gm_lower (gm_pages m) (a + n)) (gm_pages m)"
    using eq by (auto simp: gm_map_def Let_def split: if_splits)
  show "gm_wf m'" using gm_wf_replace(1) [OF wf r n(1) _ pages] mid by blast
  show "gm_page_at m' x = (if in_range a n x then Some (gm_new_page (page_base x) prot maxprot jit)
           else gm_page_at m x)"
    using gm_wf_replace(2) [OF wf r n(1) _ pages] mid n(3) [of "page_base x"] in_range_page [OF r]
    by (metis page_aligned_base)
  show "gm_generation m' = gm_generation m + 1" "gm_code_generation m' = gm_code_generation m + 1"
    "gm_fault_address m' = gm_fault_address m"
    using eq by (auto simp: gm_map_def Let_def split: if_splits)
qed

lemma gm_map_invalid:
  "fst (gm_map m a n prot maxprot jit replace calloc_ok) = GM_INVALID \<longleftrightarrow>
   \<not> gm_map_args_ok a n prot maxprot"
  by (auto simp: gm_map_def gm_map_args_ok_def Let_def split: if_splits)

lemma gm_map_overlap:
  assumes "gm_wf m"
  shows "fst (gm_map m a n prot maxprot jit replace calloc_ok) = GM_OVERLAP \<longleftrightarrow>
    gm_map_args_ok a n prot maxprot \<and> \<not> replace \<and> (\<exists>x. in_range a n x \<and> gm_page_at m x \<noteq> None)"
proof (cases "gm_map_args_ok a n prot maxprot")
  case True
  then have r: "gm_range a n" by (simp add: gm_map_args_ok_def)
  show ?thesis
    using True unfolding gm_overlap_iff [OF assms r, symmetric]
    by (auto simp: gm_map_def gm_map_args_ok_def Let_def)
next
  case False
  then have "fst (gm_map m a n prot maxprot jit replace calloc_ok) = GM_INVALID"
    by (simp add: gm_map_invalid)
  with False show ?thesis by simp
qed

lemma gm_unmap_ok:
  assumes wf: "gm_wf m" and r: "gm_range a n"
  shows "fst (gm_unmap m a n) = GM_OK" and "gm_wf (snd (gm_unmap m a n))"
    and "gm_page_at (snd (gm_unmap m a n)) x = (if in_range a n x then None else gm_page_at m x)"
proof -
  show "fst (gm_unmap m a n) = GM_OK" using r by (simp add: gm_unmap_def Let_def)
  have pages: "gm_pages (snd (gm_unmap m a n)) = take (gm_lower (gm_pages m) a) (gm_pages m) @ []
      @ drop (gm_lower (gm_pages m) (a + n)) (gm_pages m)"
    using r by (simp add: gm_unmap_def Let_def)
  have s: "gm_sorted []" by (simp add: gm_sorted_def)
  show "gm_wf (snd (gm_unmap m a n))" using gm_wf_replace(1) [OF wf r s _ pages] by simp
  show "gm_page_at (snd (gm_unmap m a n)) x = (if in_range a n x then None else gm_page_at m x)"
    using gm_wf_replace(2) [OF wf r s _ pages, of x] by (simp add: gm_tab_def)
qed

lemma gm_unmap_invalid: "\<not> gm_range a n \<Longrightarrow> gm_unmap m a n = (GM_INVALID, m)"
  by (simp add: gm_unmap_def)

text \<open>\<open>gm_protect\<close> changes the protection of the pages of a wholly mapped range.\<close>

lemma gm_protect_inner:
  assumes "gm_sorted pages" and "in_range a n b"
  shows "gm_tab (map (\<lambda>p. p\<lparr>pg_prot := q\<rparr>) (filter (\<lambda>p. in_range a n (pg_address p)) pages)) b =
    map_option (\<lambda>p. p\<lparr>pg_prot := q\<rparr>) (gm_tab pages b)"
    and "gm_sorted (map (\<lambda>p. p\<lparr>pg_prot := q\<rparr>) (filter (\<lambda>p. in_range a n (pg_address p)) pages))"
proof -
  have s: "gm_sorted (map (\<lambda>p. p\<lparr>pg_prot := q\<rparr>) (filter P xs))" if "gm_sorted xs" for P xs
    using that by (simp add: gm_sorted_def comp_def sorted_wrt_map sorted_wrt_filter)
  then show "gm_sorted (map (\<lambda>p. p\<lparr>pg_prot := q\<rparr>) (filter (\<lambda>p. in_range a n (pg_address p)) pages))"
    using assms(1) .
  have "gm_tab (map (\<lambda>p. p\<lparr>pg_prot := q\<rparr>) (filter (\<lambda>p. in_range a n (pg_address p)) pages)) b = Some p
      \<longleftrightarrow> map_option (\<lambda>p. p\<lparr>pg_prot := q\<rparr>) (gm_tab pages b) = Some p" for p
    using assms by (auto simp: gm_tab_Some_iff s image_iff)
  then show "gm_tab (map (\<lambda>p. p\<lparr>pg_prot := q\<rparr>) (filter (\<lambda>p. in_range a n (pg_address p)) pages)) b =
    map_option (\<lambda>p. p\<lparr>pg_prot := q\<rparr>) (gm_tab pages b)"
    by (metis option.exhaust)
qed

definition gm_protect_args_ok :: "u64 \<Rightarrow> u64 \<Rightarrow> u32 \<Rightarrow> bool" where
  "gm_protect_args_ok a n prot \<longleftrightarrow> gm_range a n \<and> prot AND NOT 7 = 0"

lemma gm_protect_alt:
  assumes "gm_wf m" and "gm_range a n"
  shows "gm_protect m a n prot =
    (let inner = filter (\<lambda>p. in_range a n (pg_address p)) (gm_pages m)
     in if prot AND NOT 7 \<noteq> 0 then (GM_INVALID, m)
        else if \<exists>x. in_range a n x \<and> gm_page_at m x = None then (GM_UNMAPPED, m)
        else if \<exists>p \<in> set inner. prot AND NOT (ucast (pg_maxprot p)) \<noteq> 0 then (GM_PROTECTION, m)
        else (GM_OK, m\<lparr>gm_pages := take (gm_lower (gm_pages m) a) (gm_pages m)
               @ map (\<lambda>p. p\<lparr>pg_prot := ucast prot\<rparr>) inner
               @ drop (gm_lower (gm_pages m) (a + n)) (gm_pages m),
             gm_generation := gm_generation m + 1,
             gm_code_generation := gm_code_generation m + 1\<rparr>))"
proof -
  have s: "gm_sorted (gm_pages m)" using assms(1) by (simp add: gm_wf_def)
  have cov: "gm_lower (gm_pages m) (a + n) - gm_lower (gm_pages m) a \<noteq> unat (n div GM_PAGE_SIZE) \<longleftrightarrow>
      (\<exists>x. in_range a n x \<and> gm_page_at m x = None)"
    unfolding gm_covered_iff [OF assms] by auto
  show ?thesis
    unfolding gm_protect_def Let_def gm_inner_pages [OF s assms(2)] cov list_ex_iff
    using assms(2) by simp
qed

lemma gm_protect_result:
  assumes wf: "gm_wf m"
  shows "fst (gm_protect m a n prot) =
    (if \<not> gm_protect_args_ok a n prot then GM_INVALID
     else if \<exists>x. in_range a n x \<and> gm_page_at m x = None then GM_UNMAPPED
     else if \<exists>x p. in_range a n x \<and> gm_page_at m x = Some p \<and> prot AND NOT (ucast (pg_maxprot p)) \<noteq> 0
       then GM_PROTECTION
     else GM_OK)"
proof (cases "gm_protect_args_ok a n prot")
  case True
  then have r: "gm_range a n" by (simp add: gm_protect_args_ok_def)
  have s: "gm_sorted (gm_pages m)" using wf by (simp add: gm_wf_def)
  have "(\<exists>p \<in> set (filter (\<lambda>p. in_range a n (pg_address p)) (gm_pages m)).
        prot AND NOT (ucast (pg_maxprot p)) \<noteq> 0) \<longleftrightarrow>
      (\<exists>x p. in_range a n x \<and> gm_page_at m x = Some p \<and> prot AND NOT (ucast (pg_maxprot p)) \<noteq> 0)"
    (is "?L \<longleftrightarrow> ?R")
  proof
    assume ?L
    then obtain p where p: "p \<in> set (gm_pages m)" "in_range a n (pg_address p)"
      "prot AND NOT (ucast (pg_maxprot p)) \<noteq> 0" by auto
    then have "gm_page_at m (pg_address p) = Some p"
      by (simp add: gm_page_at_Some [OF wf] gm_page_aligned [OF wf])
    with p show ?R by blast
  next
    assume ?R
    then obtain x p where "in_range a n x" "p \<in> set (gm_pages m)" "pg_address p = page_base x"
      "prot AND NOT (ucast (pg_maxprot p)) \<noteq> 0"
      by (auto simp: gm_page_at_Some [OF wf])
    then show ?L by (auto simp: in_range_page [OF r])
  qed
  then show ?thesis
    using True unfolding gm_protect_alt [OF wf r] gm_protect_args_ok_def Let_def by simp
qed (simp add: gm_protect_def gm_protect_args_ok_def)

lemma gm_protect_error: "fst (gm_protect m a n prot) \<noteq> GM_OK \<Longrightarrow> snd (gm_protect m a n prot) = m"
  by (auto simp: gm_protect_def Let_def split: if_splits)

lemma gm_protect_ok:
  assumes wf: "gm_wf m" and eq: "gm_protect m a n prot = (GM_OK, m')"
  shows "gm_wf m'"
    and "gm_page_at m' x =
      (if in_range a n x then map_option (\<lambda>p. p\<lparr>pg_prot := ucast prot\<rparr>) (gm_page_at m x)
       else gm_page_at m x)"
proof -
  have args: "gm_range a n" "prot AND NOT 7 = 0"
    using eq by (auto simp: gm_protect_def split: if_splits)
  have s: "gm_sorted (gm_pages m)" using wf by (simp add: gm_wf_def)
  let ?inner = "filter (\<lambda>p. in_range a n (pg_address p)) (gm_pages m)"
  let ?mid = "map (\<lambda>p. p\<lparr>pg_prot := ucast prot\<rparr>) ?inner"
  have pages: "gm_pages m' = take (gm_lower (gm_pages m) a) (gm_pages m) @ ?mid
      @ drop (gm_lower (gm_pages m) (a + n)) (gm_pages m)"
    and max: "\<forall>p \<in> set ?inner. prot AND NOT (ucast (pg_maxprot p)) = 0"
    using eq unfolding gm_protect_alt [OF wf args(1)] Let_def by (auto split: if_splits)
  have ms: "gm_sorted ?mid"
    using s by (simp add: gm_sorted_def comp_def sorted_wrt_map sorted_wrt_filter)
  have mid: "in_range a n (pg_address p) \<and> gm_page_ok p" if "p \<in> set ?mid" for p
  proof -
    obtain p0 where p0: "p0 \<in> set ?inner" and p: "p = p0\<lparr>pg_prot := ucast prot\<rparr>"
      using \<open>p \<in> set ?mid\<close> by auto
    have "prot AND NOT (ucast (pg_maxprot p0)) = 0" using max p0 by blast
    then have "(ucast prot :: u8) AND NOT (pg_maxprot p0) = 0" by (rule prot_up_subset [OF args(2)])
    moreover have "gm_page_ok p0" using wf p0 by (auto simp: gm_wf_def list_all_iff)
    ultimately show ?thesis using p0 p by (auto simp: gm_page_ok_def)
  qed
  show "gm_wf m'" using gm_wf_replace(1) [OF wf args(1) ms _ pages] mid by blast
  show "gm_page_at m' x =
      (if in_range a n x then map_option (\<lambda>p. p\<lparr>pg_prot := ucast prot\<rparr>) (gm_page_at m x)
       else gm_page_at m x)"
    using gm_wf_replace(2) [OF wf args(1) ms _ pages, of x] mid gm_protect_inner(1) [OF s]
      in_range_page [OF args(1)] by (metis gm_page_at_def)
qed

section \<open>Finding free space\<close>

text \<open>A place for \<open>n\<close> bytes at \<open>y\<close>: page aligned, within the address space, no page
  inside.\<close>

definition gm_free_at :: "GMPage list \<Rightarrow> u64 \<Rightarrow> u64 \<Rightarrow> bool" where
  "gm_free_at ps n y \<longleftrightarrow> page_aligned y \<and> unat y + unat n < 2 ^ 64 \<and>
     (\<forall>p \<in> set ps. \<not> in_range y n (pg_address p))"

lemma aligned_gap:
  assumes "page_aligned p" and "page_aligned q" and "unat p < unat q"
  shows "unat p + 16384 \<le> unat q"
proof -
  obtain k where k: "unat p = 16384 * k" using assms(1) by (auto simp: page_aligned_iff)
  obtain l where l: "unat q = 16384 * l" using assms(2) by (auto simp: page_aligned_iff)
  have "k < l" using assms(3) unfolding k l by simp
  then show ?thesis unfolding k l by linarith
qed

lemma gm_free_loop_spec:
  assumes "gm_sorted ps" and "\<forall>p \<in> set ps. gm_page_ok p \<and> unat c \<le> unat (pg_address p)"
    and "page_aligned c" and "unat c + unat n < 2 ^ 64" and "unat n mod 16384 = 0"
  shows "case gm_free_loop ps c n of
      Some r \<Rightarrow> unat c \<le> unat r \<and> gm_free_at ps n r \<and>
        (\<forall>y. gm_free_at ps n y \<longrightarrow> unat c \<le> unat y \<longrightarrow> unat r \<le> unat y)
    | None \<Rightarrow> (\<forall>y. gm_free_at ps n y \<longrightarrow> unat y < unat c)"
  using assms
proof (induction ps arbitrary: c)
  case Nil
  then show ?case by (simp add: gm_free_at_def)
next
  case (Cons p ps)
  have cn: "unat (c + n) = unat c + unat n" using Cons.prems(4) by (rule unat_plus_nowrap)
  show ?case
  proof (cases "c + n \<le> pg_address p")
    case True
    have "unat (pg_address p) \<le> unat (pg_address q)" if "q \<in> set (p # ps)" for q
      using Cons.prems(1) that by (auto simp: gm_sorted_def word_less_nat_alt)
    then have "gm_free_at (p # ps) n c"
      using True Cons.prems(3,4) cn by (force simp: gm_free_at_def in_range_iff word_le_nat_alt)
    with True show ?thesis by simp
  next
    case False
    let ?next = "pg_address p + GM_PAGE_SIZE"
    have pok: "gm_page_ok p" and cp: "unat c \<le> unat (pg_address p)" using Cons.prems(2) by auto
    have un: "unat ?next = unat (pg_address p) + 16384"
      using pok unat_plus_nowrap [of "pg_address p" GM_PAGE_SIZE] by (simp add: gm_page_ok_def)
    have lt: "unat (pg_address p) < unat c + unat n" using False cn by (simp add: word_nat)
    have blocked: "unat ?next \<le> unat y" if "gm_free_at (p # ps) n y" "unat c \<le> unat y" for y
    proof -
      have y: "page_aligned y" "unat y + unat n < 2 ^ 64" "\<not> in_range y n (pg_address p)"
        using that by (auto simp: gm_free_at_def)
      then have "unat (pg_address p) < unat y" using lt that(2) by (auto simp: in_range_iff)
      then show ?thesis
        using aligned_gap [OF _ y(1)] pok un by (simp add: gm_page_ok_def)
    qed
    have tail: "gm_free_at ps n y" if "gm_free_at (p # ps) n y" for y
      using that by (simp add: gm_free_at_def)
    show ?thesis
    proof (cases "UINT64_MAX - ?next < n")
      case True
      then have "\<not> unat ?next + unat n < 2 ^ 64" by (simp only: fits_iff [symmetric] not_le)
      then have "unat y < unat c" if "gm_free_at (p # ps) n y" for y
        using blocked [OF that] that by (fastforce simp: gm_free_at_def)
      with True False show ?thesis by (simp add: Let_def)
    next
      case fits: False
      then have fit: "unat ?next + unat n < 2 ^ 64" by (simp only: fits_iff [symmetric] not_less)
      have later: "unat ?next \<le> unat (pg_address q)" if "q \<in> set ps" for q
        using Cons.prems that pok un aligned_gap [of "pg_address p" "pg_address q"]
        by (auto simp: gm_sorted_def word_less_nat_alt gm_page_ok_def)
      have al: "page_aligned ?next"
        using pok un by (simp add: page_aligned_iff gm_page_ok_def)
      have IH: "case gm_free_loop ps ?next n of
          Some r \<Rightarrow> unat ?next \<le> unat r \<and> gm_free_at ps n r \<and>
            (\<forall>y. gm_free_at ps n y \<longrightarrow> unat ?next \<le> unat y \<longrightarrow> unat r \<le> unat y)
        | None \<Rightarrow> (\<forall>y. gm_free_at ps n y \<longrightarrow> unat y < unat ?next)"
        using Cons.IH [of ?next] Cons.prems later al fit by (simp add: gm_sorted_def)
      have free: "gm_free_at (p # ps) n r" if "gm_free_at ps n r" "unat ?next \<le> unat r" for r
        using that un by (auto simp: gm_free_at_def in_range_iff)
      have step: "gm_free_loop (p # ps) c n = gm_free_loop ps ?next n"
        using False fits by (simp add: Let_def)
      show ?thesis
      proof (cases "gm_free_loop ps ?next n")
        case None
        have "unat y < unat c" if y: "gm_free_at (p # ps) n y" for y
        proof (rule ccontr)
          assume "\<not> unat y < unat c"
          then have "unat ?next \<le> unat y" using blocked [OF y] by simp
          moreover have "unat y < unat ?next" using IH tail [OF y] by (simp add: None)
          ultimately show False by simp
        qed
        then show ?thesis unfolding step None by simp
      next
        case (Some r)
        then show ?thesis using IH blocked tail free cp un unfolding step by simp
      qed
    qed
  qed
qed

lemma gm_find_free_spec:
  assumes wf: "gm_wf m"
  shows "gm_find_free m hint n = (GM_INVALID, None) \<and> \<not> gm_range hint n
    \<or> gm_range hint n \<and>
      (\<exists>r. gm_find_free m hint n = (GM_OK, Some r) \<and> hint \<le> r \<and> gm_free_at (gm_pages m) n r \<and>
        (\<forall>y. gm_free_at (gm_pages m) n y \<longrightarrow> hint \<le> y \<longrightarrow> r \<le> y))
    \<or> gm_range hint n \<and> gm_find_free m hint n = (GM_NOMEM, None) \<and>
      (\<forall>y. gm_free_at (gm_pages m) n y \<longrightarrow> y < hint)"
proof (cases "gm_range hint n")
  case True
  note r = gm_range_facts [OF True]
  let ?ps = "drop (gm_lower (gm_pages m) hint) (gm_pages m)"
  have s: "gm_sorted (gm_pages m)" using wf by (simp add: gm_wf_def)
  have ps: "?ps = filter (\<lambda>p. \<not> pg_address p < hint) (gm_pages m)" by (rule gm_drop_lower [OF s])
  have "gm_sorted ?ps"
    using s unfolding ps by (simp add: gm_sorted_def sorted_wrt_map sorted_wrt_filter)
  moreover have "\<forall>p \<in> set ?ps. gm_page_ok p \<and> unat hint \<le> unat (pg_address p)"
    using wf unfolding ps by (auto simp: gm_wf_def list_all_iff word_nat)
  ultimately have spec: "case gm_free_loop ?ps hint n of
      Some r \<Rightarrow> unat hint \<le> unat r \<and> gm_free_at ?ps n r \<and>
        (\<forall>y. gm_free_at ?ps n y \<longrightarrow> unat hint \<le> unat y \<longrightarrow> unat r \<le> unat y)
    | None \<Rightarrow> (\<forall>y. gm_free_at ?ps n y \<longrightarrow> unat y < unat hint)"
    by (rule gm_free_loop_spec) (use r in simp_all)
  have same: "gm_free_at (gm_pages m) n y" if y: "hint \<le> y" "gm_free_at ?ps n y" for y
  proof -
    have fit: "unat y + unat n < 2 ^ 64" using y(2) by (simp add: gm_free_at_def)
    have "\<not> in_range y n (pg_address p)" if "p \<in> set (gm_pages m)" "pg_address p < hint" for p
      using that(2) y(1) by (simp add: in_range_iff [OF fit] word_nat)
    then show ?thesis using y(2) unfolding ps gm_free_at_def by auto
  qed
  have all: "gm_free_at (gm_pages m) n y \<Longrightarrow> gm_free_at ?ps n y" for y
    unfolding ps gm_free_at_def by auto
  show ?thesis
  proof (cases "gm_free_loop ?ps hint n")
    case None
    then have "\<forall>y. gm_free_at (gm_pages m) n y \<longrightarrow> y < hint"
      using spec all by (simp add: word_nat)
    with True None show ?thesis by (simp add: gm_find_free_def)
  next
    case (Some q)
    then have "hint \<le> q" "gm_free_at (gm_pages m) n q"
      "\<forall>y. gm_free_at (gm_pages m) n y \<longrightarrow> hint \<le> y \<longrightarrow> q \<le> y"
      using spec same all by (simp_all add: word_nat)
    with True Some show ?thesis by (simp add: gm_find_free_def)
  qed
qed (simp add: gm_find_free_def)

end
