(* ===== verification/Scalars.thy ===== *)
theory Scalars
  imports Prelude
begin

text \<open>
  Integers as little-endian byte sequences, the way the data-access instructions move them:
  \<open>scalar_bytes\<close> and \<open>scalar_value\<close> of \<open>runtime/GuestMemoryInstruction.c\<close>, whose loops
  \<open>GuestCPU.c\<close>, \<open>GuestExclusive.c\<close> and \<open>GuestSparseMemory.c\<close> repeat, and the sign
  extension of \<open>GuestMemoryInstruction.c\<close> and \<open>GuestCPU.c\<close>. The lemmas give both round trips
  and the value of the sign extension.
\<close>

section \<open>Definitions\<close>

definition scalar_bytes :: "u64 \<Rightarrow> nat \<Rightarrow> u8 list" where
  "scalar_bytes v n = map (\<lambda>i. ucast (drop_bit (i * 8) v)) [0..<n]"

definition scalar_value :: "u8 list \<Rightarrow> nat \<Rightarrow> u64" where
  "scalar_value bs n = foldl (\<lambda>v i. v OR push_bit (i * 8) (ucast (bs ! i))) 0 [0..<n]"

definition sign_extend :: "u64 \<Rightarrow> nat \<Rightarrow> u64" where
  "sign_extend x bits = (let sign = push_bit (bits - 1) 1 in (x XOR sign) - sign)"

section \<open>Round trips\<close>

lemma length_scalar_bytes [simp]: "length (scalar_bytes v n) = n"
  by (simp add: scalar_bytes_def)

lemma nth_scalar_bytes [simp]: "i < n \<Longrightarrow> scalar_bytes v n ! i = ucast (drop_bit (i * 8) v)"
  by (simp add: scalar_bytes_def)

lemma scalar_value_0 [simp]: "scalar_value bs 0 = 0"
  by (simp add: scalar_value_def)

lemma scalar_value_Suc:
  "scalar_value bs (Suc n) = scalar_value bs n OR push_bit (n * 8) (ucast (bs ! n))"
  by (simp add: scalar_value_def)

text \<open>The bits of a value are the bits of its bytes.\<close>

lemma bit_scalar_value:
  "bit (scalar_value bs n) k \<longleftrightarrow> k < 64 \<and> k div 8 < n \<and> bit (bs ! (k div 8)) (k mod 8)"
proof (induction n)
  case 0
  then show ?case by simp
next
  case (Suc n)
  have "bit (push_bit (n * 8) (ucast (bs ! n)) :: u64) k \<longleftrightarrow>
      k < 64 \<and> n * 8 \<le> k \<and> k - n * 8 < 8 \<and> bit (bs ! n) (k - n * 8)"
    by (auto simp: bit_push_bit_iff bit_ucast_iff dest: bit_imp_le_length)
  also have "\<dots> \<longleftrightarrow> k < 64 \<and> k div 8 = n \<and> bit (bs ! (k div 8)) (k mod 8)"
  proof -
    have "n * 8 \<le> k \<and> k - n * 8 < 8 \<longleftrightarrow> k div 8 = n" by linarith
    moreover have "k - n * 8 = k mod 8" if "k div 8 = n" using that by (simp add: modulo_nat_def)
    ultimately show ?thesis by auto
  qed
  finally show ?case
    using Suc by (auto simp: scalar_value_Suc bit_or_iff less_Suc_eq)
qed

lemma bit_scalar_bytes:
  "i < n \<Longrightarrow> bit (scalar_bytes v n ! i) k \<longleftrightarrow> k < 8 \<and> bit v (i * 8 + k)"
  by (auto simp: bit_ucast_iff bit_drop_bit_eq dest: bit_imp_le_length)

lemma scalar_value_cong:
  "(\<And>i. i < n \<Longrightarrow> bs ! i = bs' ! i) \<Longrightarrow> scalar_value bs n = scalar_value bs' n"
  by (rule bit_word_eqI) (auto simp: bit_scalar_value)

lemma scalar_value_bytes: "scalar_value (scalar_bytes v n) n = take_bit (n * 8) v"
proof (rule bit_word_eqI)
  fix k
  have "k div 8 < n \<longleftrightarrow> k < n * 8" by (simp add: div_less_iff_less_mult)
  moreover have "k div 8 * 8 + k mod 8 = k" by simp
  ultimately show "bit (scalar_value (scalar_bytes v n) n) k = bit (take_bit (n * 8) v) k"
    by (auto simp: bit_scalar_value bit_scalar_bytes bit_take_bit_iff simp del: nth_scalar_bytes
        dest: bit_imp_le_length)
qed

lemma scalar_bytes_value:
  assumes "length bs = n" and "n \<le> 8"
  shows "scalar_bytes (scalar_value bs n) n = bs"
proof (rule nth_equalityI)
  fix i
  assume i: "i < length (scalar_bytes (scalar_value bs n) n)"
  show "scalar_bytes (scalar_value bs n) n ! i = bs ! i"
  proof (rule bit_word_eqI)
    fix k :: nat
    assume k: "k < LENGTH(8)"
    then have "(i * 8 + k) div 8 = i" "(i * 8 + k) mod 8 = k" "i * 8 + k < 64"
      using i assms by auto
    then show "bit (scalar_bytes (scalar_value bs n) n ! i) k = bit (bs ! i) k"
      using i k by (simp add: bit_scalar_bytes bit_scalar_value del: nth_scalar_bytes)
  qed
qed (simp add: assms)

section \<open>Sign extension\<close>

lemma sign_extend_signed_take_bit:
  assumes "0 < bits" and "take_bit bits x = x"
  shows "sign_extend x bits = signed_take_bit (bits - 1) x"
proof -
  let ?s = "push_bit (bits - 1) 1 :: u64"
  have tb: "take_bit (Suc (bits - 1)) x = x" using assms by simp
  have two: "2 ^ Suc (bits - 1) = ?s + ?s" by (simp add: push_bit_eq_mult)
  show ?thesis
  proof (cases "bit x (bits - 1)")
    case True
    have "NOT x AND ?s = 0"
      using True by (intro bit_word_eqI) (auto simp: bit_simps)
    then have "x XOR ?s = x - ?s"
      using True by (simp add: disjunctive_diff_eq_and_not) (auto intro!: bit_word_eqI simp: bit_simps)
    then show ?thesis
      using True tb two by (simp add: sign_extend_def signed_take_bit_eq_take_bit_minus)
  next
    case False
    have "x AND ?s = 0"
      using False by (intro bit_word_eqI) (auto simp: bit_simps)
    then have "x XOR ?s = x + ?s" by (simp add: disjunctive_add_eq_xor)
    then show ?thesis
      using False tb by (simp add: sign_extend_def signed_take_bit_eq_take_bit_minus)
  qed
qed

text \<open>Flipping the sign bit orders the unsigned values as the signed ones.\<close>

lemma sint_sign_extend:
  assumes b: "0 < bits" "bits \<le> 64" and x: "take_bit bits x = x"
  shows "sint (sign_extend x bits) = uint (x XOR push_bit (bits - 1) 1) - 2 ^ (bits - 1)"
proof -
  let ?s = "push_bit (bits - 1) 1 :: u64"
  have "take_bit bits (x XOR ?s) = x XOR ?s"
  proof -
    have "take_bit bits ?s = ?s" using b by (intro bit_word_eqI) (auto simp: bit_simps)
    then show ?thesis using x by (simp add: take_bit_xor)
  qed
  then have "uint (x XOR ?s) = take_bit bits (uint (x XOR ?s))"
    by (metis unsigned_take_bit_eq)
  also have "\<dots> < 2 ^ bits" by simp
  finally have lt: "uint (x XOR ?s) < 2 ^ bits" .
  have two: "(2 :: int) ^ bits = 2 * 2 ^ (bits - 1)" using b(1) by (cases bits) simp_all
  have le: "(2 :: int) ^ (bits - 1) \<le> 2 ^ 63" using b(2) by (intro power_increasing) simp_all
  have us: "uint ?s = 2 ^ (bits - 1)"
  proof -
    have "uint (2 ^ (bits - 1) :: u64) = 2 ^ (bits - 1)"
      using b by (intro bit_eqI) (auto simp: bit_uint_iff bit_simps)
    then show ?thesis by (simp add: push_bit_eq_mult)
  qed
  let ?d = "uint (x XOR ?s) - 2 ^ (bits - 1)"
  have "sign_extend x bits = word_of_int ?d"
    by (simp add: sign_extend_def Let_def us [symmetric])
  then have "sint (sign_extend x bits) = signed_take_bit 63 ?d"
    by (simp add: sint_sbintrunc' del: of_int_diff)
  also have "\<dots> = ?d"
  proof (rule signed_take_bit_int_eq_self)
    have "0 \<le> uint (x XOR ?s)" by simp
    then show "- (2 ^ 63) \<le> ?d" using le by linarith
    show "?d < 2 ^ 63" using lt two le by linarith
  qed
  finally show ?thesis .
qed

lemma signed_order:
  assumes "0 < bits" "bits \<le> 64" and "take_bit bits x = x" and "take_bit bits y = y"
  shows "x XOR push_bit (bits - 1) 1 < y XOR push_bit (bits - 1) 1 \<longleftrightarrow>
    sint (sign_extend x bits) < sint (sign_extend y bits)"
  using sint_sign_extend [OF assms(1,2,3)] sint_sign_extend [OF assms(1,2,4)] by (simp add: word_less_def)

lemma scalar_value_take_bit: "take_bit (n * 8) (scalar_value bs n) = scalar_value bs n"
  by (rule bit_word_eqI) (auto simp: bit_take_bit_iff bit_scalar_value div_less_iff_less_mult)

end
