(* ===== verification/AddressSpace.thy ===== *)
theory AddressSpace
  imports Scalars
begin

text \<open>
  The contract the two guest memories share, \<open>GuestMemory.c\<close> and \<open>GuestSparseMemory.c\<close>:
  a space of bytes with a readable and a writable part, a load that returns the bytes of a range
  or fails, and a store that replaces the bytes of a range or changes nothing. The consequences
  its clients rely on are proved once here: a load after a store, loads and stores that do not
  meet, the order of stores, and integers stored and loaded through their little-endian bytes.
  Each memory interprets the contract on its own definitions.
\<close>

abbreviation word_length :: "'a list \<Rightarrow> u64" where
  "word_length bs \<equiv> of_nat (length bs)"

definition disjoint_ranges :: "u64 \<Rightarrow> u64 \<Rightarrow> u64 \<Rightarrow> u64 \<Rightarrow> bool" where
  "disjoint_ranges a n b k \<longleftrightarrow> (\<forall>x. \<not> (in_range a n x \<and> in_range b k x))"

lemma disjoint_rangesI:
  assumes "unat a + unat n < 2 ^ 64" and "unat b + unat k < 2 ^ 64"
    and "unat a + unat n \<le> unat b \<or> unat b + unat k \<le> unat a"
  shows "disjoint_ranges a n b k"
  using assms unfolding disjoint_ranges_def in_range_iff [OF assms(1)] in_range_iff [OF assms(2)]
  by auto

lemma in_range_plus: "i < unat n \<Longrightarrow> in_range a n (a + of_nat i) \<and> unat (a + of_nat i - a) = i"
  using unat_u64_less [of n] by (simp add: in_range_def unat_of_nat_u64)

locale address_space =
  fixes inv :: "'s \<Rightarrow> bool"
    and fits :: "'s \<Rightarrow> u64 \<Rightarrow> u64 \<Rightarrow> bool"
    and byte :: "'s \<Rightarrow> u64 \<Rightarrow> u8"
    and readable :: "'s \<Rightarrow> u64 \<Rightarrow> bool"
    and writable :: "'s \<Rightarrow> u64 \<Rightarrow> bool"
    and load :: "'s \<Rightarrow> u64 \<Rightarrow> u64 \<Rightarrow> GMResult \<times> 's \<times> u8 list"
    and store :: "'s \<Rightarrow> u64 \<Rightarrow> u8 list \<Rightarrow> GMResult \<times> 's"
  assumes load_result: "inv s \<Longrightarrow> fst (load s a n) = GM_OK \<longleftrightarrow>
      fits s a n \<and> (\<forall>x. in_range a n x \<longrightarrow> readable s x)"
    and load_bytes: "inv s \<Longrightarrow> load s a n = (GM_OK, s', bs) \<Longrightarrow>
      bs = map (\<lambda>i. byte s (a + of_nat i)) [0..<unat n]"
    and load_keeps: "inv s \<Longrightarrow> load s a n = (r, s', bs) \<Longrightarrow>
      inv s' \<and> fits s' = fits s \<and> byte s' = byte s \<and> readable s' = readable s \<and> writable s' = writable s"
    and store_result: "inv s \<Longrightarrow> length bs < 2 ^ 64 \<Longrightarrow> store s a bs = (GM_OK, s') \<Longrightarrow>
      fits s a (word_length bs) \<and> (\<forall>x. in_range a (word_length bs) x \<longrightarrow> writable s x)"
    and store_bytes: "inv s \<Longrightarrow> length bs < 2 ^ 64 \<Longrightarrow> store s a bs = (r, s') \<Longrightarrow>
      byte s' x = (if r = GM_OK \<and> in_range a (word_length bs) x then bs ! unat (x - a) else byte s x)"
    and store_keeps: "inv s \<Longrightarrow> length bs < 2 ^ 64 \<Longrightarrow> store s a bs = (r, s') \<Longrightarrow>
      inv s' \<and> fits s' = fits s \<and> readable s' = readable s \<and> writable s' = writable s"
begin

lemma word_length_unat: "length bs < 2 ^ 64 \<Longrightarrow> unat (word_length bs) = length bs"
  by (rule unat_of_nat_u64)

lemma load_after_store:
  assumes "inv s" and "length bs < 2 ^ 64" and "store s a bs = (GM_OK, s')"
    and "\<forall>x. in_range a (word_length bs) x \<longrightarrow> readable s x"
  shows "\<exists>s''. load s' a (word_length bs) = (GM_OK, s'', bs)"
proof -
  note k = store_keeps [OF assms(1-3)]
  have "fst (load s' a (word_length bs)) = GM_OK"
    using k assms(4) store_result [OF assms(1-3)] by (simp add: load_result)
  then obtain s'' cs where l: "load s' a (word_length bs) = (GM_OK, s'', cs)"
    by (metis fst_conv prod_cases3)
  have "cs = map (\<lambda>i. byte s' (a + of_nat i)) [0..<length bs]"
    using load_bytes [OF _ l] k assms(2) by (simp add: word_length_unat)
  also have "\<dots> = bs"
  proof (rule nth_equalityI)
    fix i
    assume "i < length (map (\<lambda>i. byte s' (a + of_nat i)) [0..<length bs])"
    then have i: "i < length bs" by simp
    then have "in_range a (word_length bs) (a + of_nat i)" "unat (a + of_nat i - a) = i"
      using in_range_plus [of i "word_length bs" a] assms(2) by (simp_all add: word_length_unat)
    then show "map (\<lambda>i. byte s' (a + of_nat i)) [0..<length bs] ! i = bs ! i"
      using i store_bytes [OF assms(1-3), of "a + of_nat i"] by simp
  qed simp
  finally show ?thesis using l by simp
qed

lemma load_beside_store:
  assumes "inv s" and "length bs < 2 ^ 64" and "store s a bs = (r, s')"
    and "disjoint_ranges a (word_length bs) b n"
  shows "fst (load s' b n) = GM_OK \<longleftrightarrow> fst (load s b n) = GM_OK"
    and "fst (load s b n) = GM_OK \<Longrightarrow> snd (snd (load s' b n)) = snd (snd (load s b n))"
proof -
  note k = store_keeps [OF assms(1-3)]
  show ok: "fst (load s' b n) = GM_OK \<longleftrightarrow> fst (load s b n) = GM_OK"
    using k assms(1) by (simp add: load_result)
  assume "fst (load s b n) = GM_OK"
  then obtain s1 s2 cs ds where l: "load s b n = (GM_OK, s1, cs)" "load s' b n = (GM_OK, s2, ds)"
    using ok by (metis fst_conv prod_cases3)
  have "byte s' (b + of_nat i) = byte s (b + of_nat i)" if "i < unat n" for i
    using store_bytes [OF assms(1-3)] assms(4) in_range_plus [OF that, of b]
    by (auto simp: disjoint_ranges_def)
  then have "ds = cs"
    using load_bytes [OF assms(1) l(1)] load_bytes [OF _ l(2)] k by simp
  then show "snd (snd (load s' b n)) = snd (snd (load s b n))" using l by simp
qed

text \<open>Stores that do not meet commute; of two stores to one range the later one counts.\<close>

lemma stores_commute:
  assumes "inv s" and "length bs < 2 ^ 64" and "length cs < 2 ^ 64"
    and "disjoint_ranges a (word_length bs) b (word_length cs)"
    and "store s a bs = (GM_OK, s1)" and "store s1 b cs = (GM_OK, s2)"
    and "store s b cs = (GM_OK, t1)" and "store t1 a bs = (GM_OK, t2)"
  shows "byte s2 = byte t2"
proof
  fix x
  have "inv s1" "inv t1" using store_keeps assms by blast+
  then show "byte s2 x = byte t2 x"
    using assms(4) store_bytes [OF _ assms(3,6), of x] store_bytes [OF assms(1,2,5), of x]
      store_bytes [OF _ assms(2,8), of x] store_bytes [OF assms(1,3,7), of x]
    by (auto simp: disjoint_ranges_def)
qed

text \<open>A store that fails leaves every later load as it was.\<close>

lemma failed_store_invisible:
  assumes "inv s" and "length bs < 2 ^ 64" and "store s a bs = (r, s')" and "r \<noteq> GM_OK"
  shows "byte s' = byte s"
  using store_bytes [OF assms(1-3)] assms(4) by auto

text \<open>An integer stored as \<open>n\<close> bytes is loaded back reduced to those bytes.\<close>

lemma scalar_load_after_store:
  assumes "inv s" and "n \<le> 8" and "store s a (scalar_bytes v n) = (GM_OK, s')"
    and "\<forall>x. in_range a (of_nat n) x \<longrightarrow> readable s x"
  shows "\<exists>s'' bs. load s' a (of_nat n) = (GM_OK, s'', bs) \<and> scalar_value bs n = take_bit (n * 8) v"
proof -
  have "\<exists>s''. load s' a (word_length (scalar_bytes v n)) = (GM_OK, s'', scalar_bytes v n)"
    using assms by (intro load_after_store) auto
  then show ?thesis by (auto simp: scalar_value_bytes)
qed

end

end
