(* ===== verification/GuestMemoryAccess.thy ===== *)
theory GuestMemoryAccess
  imports GuestMemoryMapping AddressSpace
begin

text \<open>
  What the accesses \<open>gm_read\<close>, \<open>gm_write\<close>, \<open>gm_populate\<close> and \<open>gm_fetch\<close>
  do: the preflight check finds the first byte an access may not touch, the one-page fast path
  of \<open>copy\<close> agrees with its general path, and a copy reads and writes exactly the bytes of
  its range or, when it fails, changes no byte at all.
\<close>

section \<open>The preflight check\<close>

definition tab_allowed :: "GMPage list \<Rightarrow> GMThread option \<Rightarrow> u32 \<Rightarrow> u64 \<Rightarrow> bool" where
  "tab_allowed pages t permission x \<longleftrightarrow>
     (case gm_tab pages (page_base x) of None \<Rightarrow> False | Some p \<Rightarrow> \<not> gm_page_denied p t permission)"

definition gm_allowed :: "GuestMemory \<Rightarrow> GMThread option \<Rightarrow> u32 \<Rightarrow> u64 \<Rightarrow> bool" where
  "gm_allowed m t permission x \<longleftrightarrow> tab_allowed (gm_pages m) t permission x"

definition tab_fault :: "GMPage list \<Rightarrow> u64 \<Rightarrow> GMResult" where
  "tab_fault pages x = (if gm_tab pages (page_base x) = None then GM_UNMAPPED else GM_PROTECTION)"

lemma gm_access_loop_spec:
  assumes "gm_sorted pages" and "gm_access_loop pages t a e permission = (r, f)"
  shows "r = GM_OK \<and> f = 0 \<and> (\<forall>x. a \<le> x \<longrightarrow> x < e \<longrightarrow> tab_allowed pages t permission x) \<or>
    a \<le> f \<and> f < e \<and> \<not> tab_allowed pages t permission f \<and> r = tab_fault pages f \<and>
    (\<forall>x. a \<le> x \<longrightarrow> x < f \<longrightarrow> tab_allowed pages t permission x)"
  using assms
proof (induction pages t a e permission rule: gm_access_loop.induct)
  case (1 pages t a e permission)
  show ?case
  proof (cases "a < e")
    case False
    then have "r = GM_OK \<and> f = 0" using "1.prems"(2) by (simp add: gm_access_loop.simps)
    then show ?thesis using False by auto
  next
    case True
    let ?next = "a + page_chunk a (e - a)"
    note adv = page_chunk_advance [OF True]
    have same: "tab_allowed pages t permission x = tab_allowed pages t permission a"
      if "a \<le> x" "x < ?next" for x
    proof -
      have "page_base x = page_base a"
        using that adv(1) by (intro page_chunk_same_page(1) [of a x "e - a"]) (simp_all add: word_nat)
      then show ?thesis by (simp add: tab_allowed_def)
    qed
    show ?thesis
    proof (cases "gm_tab pages (page_base a)")
      case None
      then have "r = GM_UNMAPPED \<and> f = a"
        using "1.prems" True gm_tab_lower [OF "1.prems"(1), of "page_base a"]
        by (subst (asm) gm_access_loop.simps) (auto simp: Let_def split: if_splits)
      with None True show ?thesis by (auto simp: tab_allowed_def tab_fault_def)
    next
      case (Some p)
      note l = gm_lower_tab [OF "1.prems"(1) Some]
      show ?thesis
      proof (cases "gm_page_denied p t permission")
        case denied: True
        then have "r = GM_PROTECTION \<and> f = a"
          using "1.prems"(2) True l by (subst (asm) gm_access_loop.simps) (simp add: Let_def)
        with Some True denied show ?thesis by (auto simp: tab_allowed_def tab_fault_def)
      next
        case ok: False
        then have step: "gm_access_loop pages t ?next e permission = (r, f)"
          using "1.prems"(2) True l by (subst (asm) gm_access_loop.simps) (simp add: Let_def)
        have allowed: "tab_allowed pages t permission a"
          using Some ok by (simp add: tab_allowed_def)
        have IH: "r = GM_OK \<and> f = 0 \<and> (\<forall>x. ?next \<le> x \<longrightarrow> x < e \<longrightarrow> tab_allowed pages t permission x) \<or>
            ?next \<le> f \<and> f < e \<and> \<not> tab_allowed pages t permission f \<and> r = tab_fault pages f \<and>
            (\<forall>x. ?next \<le> x \<longrightarrow> x < f \<longrightarrow> tab_allowed pages t permission x)"
          using "1.IH" [OF True refl refl _ _ "1.prems"(1) step] l ok by simp
        have low: "tab_allowed pages t permission x" if "a \<le> x" "x < ?next" for x
          using same [OF that] allowed by simp
        have le: "a \<le> ?next" using adv(2) by (simp add: word_nat)
        have all: "tab_allowed pages t permission x"
          if "a \<le> x" "?next \<le> x \<Longrightarrow> tab_allowed pages t permission x" for x
          using low [OF that(1)] that(2) by (cases "x < ?next") (auto simp: not_less)
        from IH show ?thesis
        proof
          assume "r = GM_OK \<and> f = 0 \<and>
            (\<forall>x. ?next \<le> x \<longrightarrow> x < e \<longrightarrow> tab_allowed pages t permission x)"
          then have "r = GM_OK \<and> f = 0 \<and>
              (\<forall>x. a \<le> x \<longrightarrow> x < e \<longrightarrow> tab_allowed pages t permission x)"
            using all by blast
          then show ?thesis by (rule disjI1)
        next
          assume "?next \<le> f \<and> f < e \<and> \<not> tab_allowed pages t permission f \<and> r = tab_fault pages f \<and>
            (\<forall>x. ?next \<le> x \<longrightarrow> x < f \<longrightarrow> tab_allowed pages t permission x)"
          then have "a \<le> f \<and> f < e \<and> \<not> tab_allowed pages t permission f \<and> r = tab_fault pages f \<and>
              (\<forall>x. a \<le> x \<longrightarrow> x < f \<longrightarrow> tab_allowed pages t permission x)"
            using all order.trans [OF le] by blast
          then show ?thesis by (rule disjI2)
        qed
      qed
    qed
  qed
qed

lemma gm_access_range_spec:
  assumes wf: "gm_wf m" and eq: "gm_access_range m t a n permission = (r, m1)"
  shows "m1 = m\<lparr>gm_fault_address := gm_fault_address m1\<rparr>"
    and "r = GM_INVALID \<longleftrightarrow> \<not> unat a + unat n < 2 ^ 64"
    and "r = GM_OK \<longleftrightarrow> unat a + unat n < 2 ^ 64 \<and> (\<forall>x. in_range a n x \<longrightarrow> gm_allowed m t permission x)"
    and "r = GM_OK \<Longrightarrow> gm_fault_address m1 = 0"
    and "r \<noteq> GM_OK \<Longrightarrow> r \<noteq> GM_INVALID \<Longrightarrow>
      in_range a n (gm_fault_address m1) \<and> \<not> gm_allowed m t permission (gm_fault_address m1) \<and>
      r = tab_fault (gm_pages m) (gm_fault_address m1)"
proof -
  show frame: "m1 = m\<lparr>gm_fault_address := gm_fault_address m1\<rparr>"
    using eq by (auto simp: gm_access_range_def split: if_splits prod.splits)
  have s: "gm_sorted (gm_pages m)" using wf by (simp add: gm_wf_def)
  have "(r = GM_INVALID \<longleftrightarrow> \<not> unat a + unat n < 2 ^ 64) \<and>
    (r = GM_OK \<longleftrightarrow> unat a + unat n < 2 ^ 64 \<and> (\<forall>x. in_range a n x \<longrightarrow> gm_allowed m t permission x)) \<and>
    (r = GM_OK \<longrightarrow> gm_fault_address m1 = 0) \<and>
    (r \<noteq> GM_OK \<longrightarrow> r \<noteq> GM_INVALID \<longrightarrow>
      in_range a n (gm_fault_address m1) \<and> \<not> gm_allowed m t permission (gm_fault_address m1) \<and>
      r = tab_fault (gm_pages m) (gm_fault_address m1))"
  proof (cases "unat a + unat n < 2 ^ 64")
    case False
    then have "UINT64_MAX - a < n" by (simp only: fits_iff [symmetric] not_le)
    then have "r = GM_INVALID" using eq by (simp add: gm_access_range_def)
    with False show ?thesis by simp
  next
    case True
    then have "\<not> UINT64_MAX - a < n" by (simp only: fits_iff [symmetric] not_less)
    then obtain f where f: "gm_access_loop (gm_pages m) t a (a + n) permission = (r, f)"
        "gm_fault_address m1 = f"
      using eq by (auto simp: gm_access_range_def split: prod.splits)
    have rng: "in_range a n x \<longleftrightarrow> a \<le> x \<and> x < a + n" for x
      using unat_plus_nowrap [OF True] by (simp add: in_range_iff [OF True] word_nat)
    have ne: "tab_fault (gm_pages m) f \<noteq> GM_OK" "tab_fault (gm_pages m) f \<noteq> GM_INVALID"
      by (simp_all add: tab_fault_def)
    show ?thesis
      using gm_access_loop_spec [OF s f(1)] True f(2) ne unfolding rng gm_allowed_def by auto
  qed
  then show "r = GM_INVALID \<longleftrightarrow> \<not> unat a + unat n < 2 ^ 64"
    and "r = GM_OK \<longleftrightarrow> unat a + unat n < 2 ^ 64 \<and> (\<forall>x. in_range a n x \<longrightarrow> gm_allowed m t permission x)"
    and "r = GM_OK \<Longrightarrow> gm_fault_address m1 = 0"
    and "r \<noteq> GM_OK \<Longrightarrow> r \<noteq> GM_INVALID \<Longrightarrow>
      in_range a n (gm_fault_address m1) \<and> \<not> gm_allowed m t permission (gm_fault_address m1) \<and>
      r = tab_fault (gm_pages m) (gm_fault_address m1)"
    by blast+
qed

section \<open>Pages with the same contents\<close>

text \<open>A page table's bytes, and the allocation of a zero block, which changes no byte.\<close>

definition tab_byte :: "GMPage list \<Rightarrow> u64 \<Rightarrow> u8" where
  "tab_byte pages x =
     (case gm_tab pages (page_base x) of None \<Rightarrow> 0 | Some p \<Rightarrow> page_bytes p (page_off x))"

lemma gm_byte_tab: "gm_byte m x = tab_byte (gm_pages m) x"
  by (simp add: gm_byte_def gm_page_at_def tab_byte_def)

definition page_eqv :: "GMPage \<Rightarrow> GMPage \<Rightarrow> bool" where
  "page_eqv p q \<longleftrightarrow> q = p\<lparr>pg_bytes := pg_bytes q\<rparr>"

text \<open>Same addresses and attributes, position by position.\<close>

definition pages_eqv :: "GMPage list \<Rightarrow> GMPage list \<Rightarrow> bool" where
  "pages_eqv ps qs \<longleftrightarrow> list_all2 page_eqv ps qs"

lemma page_eqv_simps:
  "page_eqv p q \<Longrightarrow> pg_address q = pg_address p \<and> pg_prot q = pg_prot p \<and>
    pg_maxprot q = pg_maxprot p \<and> pg_jit q = pg_jit p"
  by (metis GMPage.select_convs(1,3,4,5) GMPage.surjective GMPage.update_convs(2) page_eqv_def)

lemma page_eqv_refl [simp]: "page_eqv p p"
  by (simp add: page_eqv_def)

lemma page_eqv_bytes [simp]: "page_eqv p (p\<lparr>pg_bytes := b\<rparr>)"
  by (simp add: page_eqv_def)

lemma page_eqv_trans: "page_eqv p q \<Longrightarrow> page_eqv q r \<Longrightarrow> page_eqv p r"
  by (cases p; cases q; cases r) (simp add: page_eqv_def)

lemma pages_eqv_refl [simp]: "pages_eqv ps ps"
  by (simp add: pages_eqv_def list_all2_refl)

lemma pages_eqv_trans: "pages_eqv ps qs \<Longrightarrow> pages_eqv qs rs \<Longrightarrow> pages_eqv ps rs"
  unfolding pages_eqv_def by (rule list_all2_trans [OF page_eqv_trans])

lemma pages_eqv_addresses: "pages_eqv ps qs \<Longrightarrow> map pg_address qs = map pg_address ps"
  unfolding pages_eqv_def by (induction rule: list_all2_induct) (auto dest: page_eqv_simps)

lemma pages_eqv_sorted: "pages_eqv ps qs \<Longrightarrow> gm_sorted ps \<Longrightarrow> gm_sorted qs"
  by (simp add: gm_sorted_def pages_eqv_addresses)

lemma pages_eqv_ok: "pages_eqv ps qs \<Longrightarrow> list_all gm_page_ok ps \<Longrightarrow> list_all gm_page_ok qs"
  unfolding pages_eqv_def
  by (induction rule: list_all2_induct) (auto simp: gm_page_ok_def dest: page_eqv_simps)

lemma pages_eqv_tab: "pages_eqv ps qs \<Longrightarrow> rel_option page_eqv (gm_tab ps b) (gm_tab qs b)"
  unfolding pages_eqv_def gm_tab_def
  by (induction rule: list_all2_induct) (auto dest: page_eqv_simps)

lemma pages_eqv_length: "pages_eqv ps qs \<Longrightarrow> length qs = length ps"
  unfolding pages_eqv_def by (simp add: list_all2_lengthD)

lemma pages_eqv_update:
  "i < length ps \<Longrightarrow> page_eqv (ps ! i) q \<Longrightarrow> pages_eqv ps (ps[i := q])"
  by (auto simp: pages_eqv_def list_all2_conv_all_nth nth_list_update)

lemma pages_eqv_denied: "page_eqv p q \<Longrightarrow> gm_page_denied q t permission = gm_page_denied p t permission"
  by (auto dest!: page_eqv_simps simp: gm_page_denied_def gm_jit_denied_def)

lemma pages_eqv_allowed: "pages_eqv ps qs \<Longrightarrow> tab_allowed qs t permission x = tab_allowed ps t permission x"
  using pages_eqv_tab [of ps qs "page_base x"]
  by (auto simp: tab_allowed_def pages_eqv_denied elim!: option.rel_cases)

lemma pages_eqv_lower:
  assumes "pages_eqv ps qs" and "gm_sorted ps"
  shows "gm_lower qs a = gm_lower ps a"
proof -
  have count: "length (gm_below a xs) = length (filter (\<lambda>x. x < a) (map pg_address xs))" for xs
    by (simp add: filter_map comp_def)
  show ?thesis
    unfolding gm_lower_eq [OF assms(2)] gm_lower_eq [OF pages_eqv_sorted [OF assms]] count
      pages_eqv_addresses [OF assms(1)] ..
qed

section \<open>The allocation pass\<close>

lemma gm_alloc_pass_spec:
  assumes "gm_alloc_pass calloc k pages i e = (ok, pages')" and "gm_sorted pages"
  shows "pages_eqv pages pages' \<and> tab_byte pages' = tab_byte pages \<and>
    (\<forall>j < i. j < length pages \<longrightarrow> pages' ! j = pages ! j) \<and>
    (ok \<longrightarrow> (\<forall>j. i \<le> j \<longrightarrow> j < length pages \<longrightarrow> pg_address (pages ! j) < e \<longrightarrow> pg_bytes (pages' ! j) \<noteq> None))"
  using assms
proof (induction calloc k pages i e rule: gm_alloc_pass.induct)
  case (1 calloc k pages i e)
  show ?case
  proof (cases "i < length pages \<and> pg_address (pages ! i) < e")
    case False
    then have "ok \<and> pages' = pages" using "1.prems"(1) by (subst (asm) gm_alloc_pass.simps) auto
    moreover have "\<not> pg_address (pages ! j) < e" if "i \<le> j" "j < length pages" for j
      using False that gm_sorted_nth_less [OF "1.prems"(2), of i e]
        gm_sorted_nth_less [OF "1.prems"(2), of j e] by auto
    ultimately show ?thesis by auto
  next
    case True
    show ?thesis
    proof (cases "pg_bytes (pages ! i)")
      case (Some g)
      have "gm_alloc_pass calloc k pages (Suc i) e = (ok, pages')"
        using "1.prems"(1) True Some by (subst (asm) gm_alloc_pass.simps) simp
      note IH = "1.IH"(2) [OF True Some this "1.prems"(2)]
      have "pages' ! i = pages ! i" using IH True by simp
      then have "pg_bytes (pages' ! i) \<noteq> None" using Some by simp
      then show ?thesis using IH by (metis Suc_leI le_neq_implies_less less_SucI)
    next
      case None
      show ?thesis
      proof (cases "calloc k")
        case False
        then have "\<not> ok \<and> pages' = pages"
          using "1.prems"(1) True None by (subst (asm) gm_alloc_pass.simps) simp
        then show ?thesis by simp
      next
        case alloc: True
        let ?q = "(pages ! i)\<lparr>pg_bytes := Some (\<lambda>_. 0)\<rparr>"
        have step: "gm_alloc_pass calloc (Suc k) (pages[i := ?q]) (Suc i) e = (ok, pages')"
          using "1.prems"(1) True None alloc by (subst (asm) gm_alloc_pass.simps) simp
        have eqv: "pages_eqv pages (pages[i := ?q])" using True by (intro pages_eqv_update) auto
        have s: "gm_sorted (pages[i := ?q])" by (rule pages_eqv_sorted [OF eqv "1.prems"(2)])
        have adr: "pg_address ((pages[i := ?q]) ! j) = pg_address (pages ! j)" for j
          using True by (cases "j = i") auto
        have byte: "tab_byte (pages[i := ?q]) = tab_byte pages"
        proof
          fix x
          have tab: "gm_tab pages (pg_address (pages ! i)) = Some (pages ! i)"
            using True "1.prems"(2) by (simp add: gm_tab_Some_iff)
          have low: "gm_lower pages (pg_address (pages ! i)) = i"
            using True gm_lower_tab [OF "1.prems"(2) tab] gm_sorted_distinct [OF "1.prems"(2)]
            by (metis length_map nth_eq_iff_index_eq nth_map)
          have "gm_tab (pages[i := ?q]) = (gm_tab pages)(pg_address (pages ! i) \<mapsto> ?q)"
            using gm_tab_update [OF "1.prems"(2) tab, of ?q] by (simp add: low)
          then show "tab_byte (pages[i := ?q]) x = tab_byte pages x"
            using tab None by (auto simp: tab_byte_def page_bytes_def)
        qed
        note IH = "1.IH"(1) [OF True None alloc step s]
        have i: "pages' ! i = ?q" using IH True by simp
        have keep: "pages' ! j = pages ! j" if "j < i" "j < length pages" for j
          using IH that by simp
        have all: "pg_bytes (pages' ! j) \<noteq> None"
          if "ok" "i \<le> j" "j < length pages" "pg_address (pages ! j) < e" for j
        proof (cases "j = i")
          case True
          then show ?thesis using i by simp
        next
          case False
          then show ?thesis using IH that adr by simp
        qed
        show ?thesis
          using IH pages_eqv_trans [OF eqv] byte keep all by simp
      qed
    qed
  qed
qed

section \<open>The copy loop\<close>

text \<open>One step of a write: the bytes of the chunk change, the page keeps its attributes.\<close>

lemma tab_byte_chunk_write:
  assumes s: "gm_sorted pages" and p: "gm_tab pages (page_base a) = Some p" and
    bytes: "pg_bytes p \<noteq> None" and fit: "unat a + unat n < 2 ^ 64"
    and len: "length src = unat (page_chunk a n)"
  shows "tab_byte (pages[gm_lower pages (page_base a) :=
      p\<lparr>pg_bytes := Some (block_write (the (pg_bytes p)) (page_off a) src)\<rparr>]) x =
    (if in_range a (page_chunk a n) x then src ! unat (x - a) else tab_byte pages x)"
proof -
  let ?q = "p\<lparr>pg_bytes := Some (block_write (the (pg_bytes p)) (page_off a) src)\<rparr>"
  note l = gm_lower_tab [OF s p]
  have tab: "gm_tab (pages[gm_lower pages (page_base a) := ?q]) = (gm_tab pages)(page_base a \<mapsto> ?q)"
    using l by (intro gm_tab_update [OF s p]) simp
  have off: "page_off x = page_off a + unat (x - a)" if "in_range a (page_chunk a n) x"
  proof -
    have "unat (page_chunk a n) \<le> unat n" using page_chunk_le [of a n] by (simp add: word_nat)
    then have "unat a + unat (page_chunk a n) < 2 ^ 64" using fit by linarith
    then show ?thesis
      using that by (intro page_chunk_same_page(2) [of a x n]) (simp_all add: in_range_iff)
  qed
  show ?thesis
    using page_chunk_range_iff [OF fit, of x] p bytes off
    by (auto simp: tab_byte_def tab page_bytes_def block_write_def len)
qed

lemma gm_copy_loop_write:
  assumes "gm_copy_loop True pages buf b a n ex = (pages', buf', ex')" and "gm_sorted pages"
    and "unat a + unat n < 2 ^ 64" and "b + unat n \<le> length buf"
    and "\<forall>x. in_range a n x \<longrightarrow> (\<exists>p. gm_tab pages (page_base x) = Some p \<and> pg_bytes p \<noteq> None)"
  shows "pages_eqv pages pages' \<and> buf' = buf \<and>
    (\<forall>x. tab_byte pages' x = (if in_range a n x then buf ! (b + unat (x - a)) else tab_byte pages x)) \<and>
    (ex' \<longleftrightarrow> ex \<or> (\<exists>x p. in_range a n x \<and> gm_tab pages (page_base x) = Some p \<and>
      ucast (pg_prot p) AND GM_EXEC \<noteq> 0))"
  using assms
proof (induction "unat n" arbitrary: pages b a n ex rule: less_induct)
  case less
  show ?case
  proof (cases "n = 0")
    case True
    then show ?thesis using less.prems(1) by (simp add: gm_copy_loop.simps)
  next
    case False
    let ?c = "page_chunk a n" and ?base = "page_base a"
    have c: "?c \<le> n" "0 < unat ?c" "unat ?c \<le> unat n"
      using page_chunk_le [of a n] page_chunk_pos [of n a] False
      by (simp_all add: word_neq_0_conv word_nat)
    note split = in_range_split [OF less.prems(3) c(1)]
    have "in_range a n a" using False by (simp add: in_range_def unat_gt_0)
    then obtain p where p: "gm_tab pages ?base = Some p" "pg_bytes p \<noteq> None"
      using less.prems(5) by blast
    note l = gm_lower_tab [OF less.prems(2) p(1)]
    let ?src = "take (unat ?c) (drop b buf)"
    let ?q = "p\<lparr>pg_bytes := Some (block_write (the (pg_bytes p)) (page_off a) ?src)\<rparr>"
    let ?pages = "pages[gm_lower pages ?base := ?q]"
    let ?ex = "ex \<or> ucast (pg_prot p) AND GM_EXEC \<noteq> 0"
    have src: "length ?src = unat ?c" using less.prems(4) c(3) by simp
    have step: "gm_copy_loop True ?pages buf (b + unat ?c) (a + ?c) (n - ?c) ?ex = (pages', buf', ex')"
      using less.prems(1) False l
      by (subst (asm) gm_copy_loop.simps) (simp add: Let_def unat_page_offset)
    have eqv: "pages_eqv pages ?pages" using l by (intro pages_eqv_update) auto
    have s: "gm_sorted ?pages" by (rule pages_eqv_sorted [OF eqv less.prems(2)])
    have tab: "gm_tab ?pages = (gm_tab pages)(?base \<mapsto> ?q)"
      using l by (intro gm_tab_update [OF less.prems(2) p(1)]) simp
    have byte: "tab_byte ?pages x =
        (if in_range a ?c x then ?src ! unat (x - a) else tab_byte pages x)" for x
      by (rule tab_byte_chunk_write [OF less.prems(2) p less.prems(3) src])
    have nc: "unat (n - ?c) = unat n - unat ?c" using c(1) by (rule unat_sub_le)
    have IH: "pages_eqv ?pages pages' \<and> buf' = buf \<and>
      (\<forall>x. tab_byte pages' x = (if in_range (a + ?c) (n - ?c) x
        then buf ! (b + unat ?c + unat (x - (a + ?c))) else tab_byte ?pages x)) \<and>
      (ex' \<longleftrightarrow> ?ex \<or> (\<exists>x p. in_range (a + ?c) (n - ?c) x \<and> gm_tab ?pages (page_base x) = Some p \<and>
        ucast (pg_prot p) AND GM_EXEC \<noteq> 0))"
    proof (rule less.hyps [OF _ step s])
      show "unat (n - ?c) < unat n" using c nc by simp
      show "unat (a + ?c) + unat (n - ?c) < 2 ^ 64" using split(3) less.prems(3) by simp
      show "b + unat ?c + unat (n - ?c) \<le> length buf" using less.prems(4) nc c(3) by simp
      show "\<forall>x. in_range (a + ?c) (n - ?c) x \<longrightarrow>
          (\<exists>p. gm_tab ?pages (page_base x) = Some p \<and> pg_bytes p \<noteq> None)"
        using less.prems(5) split(1) by (auto simp: tab)
    qed
    have bytes: "tab_byte pages' x = (if in_range a n x then buf ! (b + unat (x - a)) else tab_byte pages x)" for x
    proof -
      have "?src ! unat (x - a) = buf ! (b + unat (x - a))" if "in_range a ?c x"
        using that less.prems(4) c(3) by (simp add: in_range_def)
      then show ?thesis
        using IH byte [of x] split(1) [of x] split(2) [of x] split(4) [of x]
        by (cases "in_range (a + ?c) (n - ?c) x") (simp_all add: add.assoc)
    qed
    have exec: "(\<exists>x p. in_range a n x \<and> gm_tab pages (page_base x) = Some p \<and>
          ucast (pg_prot p) AND GM_EXEC \<noteq> 0) \<longleftrightarrow>
        ucast (pg_prot p) AND GM_EXEC \<noteq> 0 \<or>
        (\<exists>x p. in_range (a + ?c) (n - ?c) x \<and> gm_tab ?pages (page_base x) = Some p \<and>
          ucast (pg_prot p) AND GM_EXEC \<noteq> 0)" (is "?L \<longleftrightarrow> ?R")
    proof
      assume ?L
      then obtain x p' where x: "in_range a n x" "gm_tab pages (page_base x) = Some p'"
        "ucast (pg_prot p') AND GM_EXEC \<noteq> 0" by blast
      show ?R
      proof (cases "page_base x = ?base")
        case True
        then show ?thesis using x p by simp
      next
        case False
        then have "in_range (a + ?c) (n - ?c) x"
          using x(1) split(1) page_chunk_range_iff [OF less.prems(3)] by blast
        moreover have "gm_tab ?pages (page_base x) = Some p'" using False x(2) by (simp add: tab)
        ultimately show ?thesis using x(3) by blast
      qed
    next
      assume ?R
      then show ?L
      proof
        assume "ucast (pg_prot p) AND GM_EXEC \<noteq> 0"
        then show ?thesis using \<open>in_range a n a\<close> p by blast
      next
        assume "\<exists>x p. in_range (a + ?c) (n - ?c) x \<and> gm_tab ?pages (page_base x) = Some p \<and>
          ucast (pg_prot p) AND GM_EXEC \<noteq> 0"
        then obtain x p' where x: "in_range (a + ?c) (n - ?c) x" "gm_tab ?pages (page_base x) = Some p'"
          "ucast (pg_prot p') AND GM_EXEC \<noteq> 0" by blast
        obtain p0 where "gm_tab pages (page_base x) = Some p0" "pg_prot p0 = pg_prot p'"
          using x(2) p(1) by (cases "page_base x = ?base") (auto simp: tab)
        then show ?thesis using x split(1) by metis
      qed
    qed
    show ?thesis
      using IH pages_eqv_trans [OF eqv] bytes exec by auto
  qed
qed

lemma gm_copy_loop_read:
  assumes "gm_copy_loop False pages buf b a n ex = (pages', buf', ex')" and "gm_sorted pages"
    and "unat a + unat n < 2 ^ 64" and "b + unat n \<le> length buf"
    and "\<forall>x. in_range a n x \<longrightarrow> gm_tab pages (page_base x) \<noteq> None"
  shows "pages' = pages \<and> ex' = ex \<and> length buf' = length buf \<and>
    (\<forall>i < length buf. buf' ! i =
      (if b \<le> i \<and> i < b + unat n then tab_byte pages (a + of_nat (i - b)) else buf ! i))"
  using assms
proof (induction "unat n" arbitrary: buf b a n rule: less_induct)
  case less
  show ?case
  proof (cases "n = 0")
    case True
    then show ?thesis using less.prems(1) by (auto simp: gm_copy_loop.simps)
  next
    case False
    let ?c = "page_chunk a n" and ?base = "page_base a"
    have c: "?c \<le> n" "0 < unat ?c" "unat ?c \<le> unat n"
      using page_chunk_le [of a n] page_chunk_pos [of n a] False
      by (simp_all add: word_neq_0_conv word_nat)
    note split = in_range_split [OF less.prems(3) c(1)]
    have "in_range a n a" using False by (simp add: in_range_def unat_gt_0)
    then obtain p where p: "gm_tab pages ?base = Some p" using less.prems(5) by blast
    note l = gm_lower_tab [OF less.prems(2) p]
    let ?src = "map (page_bytes p) [page_off a..<page_off a + unat ?c]"
    let ?buf = "buffer_write buf b ?src"
    have fit: "b + length ?src \<le> length buf" using less.prems(4) c(3) by simp
    have step: "gm_copy_loop False pages ?buf (b + unat ?c) (a + ?c) (n - ?c) ex = (pages', buf', ex')"
      using less.prems(1) False l
      by (subst (asm) gm_copy_loop.simps) (simp add: Let_def unat_page_offset)
    have nc: "unat (n - ?c) = unat n - unat ?c" using c(1) by (rule unat_sub_le)
    have len: "length ?buf = length buf" by (rule length_buffer_write [OF fit])
    have IH: "pages' = pages \<and> ex' = ex \<and> length buf' = length ?buf \<and>
      (\<forall>i < length ?buf. buf' ! i = (if b + unat ?c \<le> i \<and> i < b + unat ?c + unat (n - ?c)
        then tab_byte pages (a + ?c + of_nat (i - (b + unat ?c))) else ?buf ! i))"
    proof (rule less.hyps [OF _ step less.prems(2)])
      show "unat (n - ?c) < unat n" using c nc by simp
      show "unat (a + ?c) + unat (n - ?c) < 2 ^ 64" using split(3) less.prems(3) by simp
      show "b + unat ?c + unat (n - ?c) \<le> length ?buf" using less.prems(4) nc c(3) len by simp
      show "\<forall>x. in_range (a + ?c) (n - ?c) x \<longrightarrow> gm_tab pages (page_base x) \<noteq> None"
        using less.prems(5) split(1) by blast
    qed
    have "buf' ! i = (if b \<le> i \<and> i < b + unat n then tab_byte pages (a + of_nat (i - b)) else buf ! i)"
      if i: "i < length buf" for i
    proof (cases "b \<le> i \<and> i < b + unat ?c")
      case True
      then obtain j where j: "i = b + j" "j < unat ?c" by (metis add_less_cancel_left le_Suc_ex)
      have uj: "unat (of_nat j :: u64) = j"
        using j(2) unat_u64_less [of ?c] by (simp add: unat_of_nat_u64)
      have "in_range a ?c (a + of_nat j)" using j uj by (simp add: in_range_def)
      then have b: "page_base (a + of_nat j) = ?base" and x: "in_range a ?c (a + of_nat j)"
        using page_chunk_range_iff [OF less.prems(3)] by blast+
      have "unat a + unat ?c < 2 ^ 64" using less.prems(3) c(3) by linarith
      then have "page_off (a + of_nat j) = page_off a + j"
        using x page_chunk_same_page(2) [of a "a + of_nat j" n] by (simp add: in_range_iff uj)
      then have "tab_byte pages (a + of_nat j) = ?src ! j" using b p j by (simp add: tab_byte_def)
      moreover have "buf' ! i = ?buf ! i" using IH i len True by simp
      moreover have "?buf ! i = ?src ! j" using nth_buffer_write [OF fit i] True j by simp
      ultimately show ?thesis using True j c(3) by simp
    next
      case False
      then have "?buf ! i = buf ! i" using nth_buffer_write [OF fit i] by auto
      moreover have "a + ?c + of_nat (i - (b + unat ?c)) = a + of_nat (i - b)" if "b + unat ?c \<le> i"
      proof -
        have "i - b = unat ?c + (i - (b + unat ?c))" using that by simp
        then have "(of_nat (i - b) :: u64) = ?c + of_nat (i - (b + unat ?c))"
          by (metis of_nat_add of_nat_unat ucast_id)
        then show ?thesis by simp
      qed
      ultimately show ?thesis using IH i len False nc c(3) by auto
    qed
    then show ?thesis using IH len by simp
  qed
qed

section \<open>The fast path of \<open>copy\<close>\<close>

text \<open>An access within one page, as the first test of \<open>copy\<close> recognises it.\<close>

definition one_page :: "u64 \<Rightarrow> u64 \<Rightarrow> bool" where
  "one_page a n \<longleftrightarrow>
     n \<noteq> 0 \<and> n \<le> GM_PAGE_SIZE - (a AND (GM_PAGE_SIZE - 1)) \<and> n \<le> UINT64_MAX - a"

lemma one_page_facts:
  assumes "one_page a n"
  shows "n \<noteq> 0" and "unat a + unat n < 2 ^ 64" and "page_off a + unat n \<le> 16384"
    and "page_chunk a n = n" and "a < a + n" and "page_chunk a (a + n - a) = n"
proof -
  show "n \<noteq> 0" and fit: "unat a + unat n < 2 ^ 64"
    using assms unfolding one_page_def fits_iff by simp_all
  have "a mod 16384 \<le> (16384 :: u64)"
    by (simp add: word_nat unat_mod less_imp_le)
  then have "unat (GM_PAGE_SIZE - (a AND (GM_PAGE_SIZE - 1))) = 16384 - page_off a"
    by (simp add: and_page_mask unat_sub unat_mod page_off_def)
  then have le: "unat n \<le> 16384 - page_off a" using assms by (simp add: one_page_def word_nat)
  then show "page_off a + unat n \<le> 16384" using page_off_less [of a] by linarith
  have "unat (page_chunk a n) = unat n" using le by (simp add: unat_page_chunk)
  then show c: "page_chunk a n = n" by (simp add: word_unat_eq_iff)
  then show "page_chunk a (a + n - a) = n" by simp
  show "a < a + n"
    using fit \<open>n \<noteq> 0\<close> by (simp add: word_nat unat_plus_nowrap unat_gt_0)
qed

lemma gm_access_one_page:
  assumes "one_page a n"
  shows "gm_access_range m t a n permission =
    (let pages = gm_pages m; i = gm_lower pages (page_base a)
     in if i = length pages \<or> pg_address (pages ! i) \<noteq> page_base a
        then (GM_UNMAPPED, m\<lparr>gm_fault_address := a\<rparr>)
        else if gm_page_denied (pages ! i) t permission then (GM_PROTECTION, m\<lparr>gm_fault_address := a\<rparr>)
        else (GM_OK, m\<lparr>gm_fault_address := 0\<rparr>))"
proof -
  note o = one_page_facts [OF assms]
  have "\<not> UINT64_MAX - a < n" using o(2) by (simp only: fits_iff [symmetric] not_less)
  moreover have "gm_access_loop pages t (a + n) (a + n) permission = (GM_OK, 0)" for pages
    by (simp add: gm_access_loop.simps)
  ultimately show ?thesis
    using o(5,6) by (simp add: gm_access_range_def gm_access_loop.simps [of _ _ a] Let_def)
qed

lemma gm_next_page_above:
  assumes wf: "gm_wf m" and p: "gm_tab (gm_pages m) (page_base a) = Some p" and o: "one_page a n"
    and i: "i < length (gm_pages m)" "gm_lower (gm_pages m) (page_base a) < i"
  shows "\<not> pg_address (gm_pages m ! i) < a + n"
proof -
  have s: "gm_sorted (gm_pages m)" using wf by (simp add: gm_wf_def)
  note l = gm_lower_tab [OF s p]
  have "pg_address (gm_pages m ! gm_lower (gm_pages m) (page_base a)) < pg_address (gm_pages m ! i)"
    using s i l(1) sorted_wrt_nth_less [of "(<)" "map pg_address (gm_pages m)"
        "gm_lower (gm_pages m) (page_base a)" i] by (simp add: gm_sorted_def)
  then have "unat (page_base a) < unat (pg_address (gm_pages m ! i))" using l by (simp add: word_nat)
  moreover have "page_aligned (pg_address (gm_pages m ! i))"
    using wf i(1) by (auto simp: gm_wf_def list_all_iff gm_page_ok_def)
  ultimately have "unat (page_base a) + 16384 \<le> unat (pg_address (gm_pages m ! i))"
    by (intro aligned_gap) simp_all
  then show ?thesis
    using one_page_facts(2,3) [OF o] unat_page_split [of a]
    by (simp add: word_nat unat_plus_nowrap)
qed

text \<open>The allocation pass and the copy loop of an access within one page.\<close>

lemma gm_alloc_one_page:
  assumes wf: "gm_wf m" and p: "gm_tab (gm_pages m) (page_base a) = Some p" and o: "one_page a n"
  shows "gm_alloc_pass calloc 0 (gm_pages m) (gm_lower (gm_pages m) (page_base a)) (a + n) =
    (if pg_bytes p \<noteq> None then (True, gm_pages m)
     else if calloc 0 then (True, (gm_pages m)
       [gm_lower (gm_pages m) (page_base a) := p\<lparr>pg_bytes := Some (\<lambda>_. 0)\<rparr>])
     else (False, gm_pages m))"
proof -
  let ?i = "gm_lower (gm_pages m) (page_base a)"
  have s: "gm_sorted (gm_pages m)" using wf by (simp add: gm_wf_def)
  note l = gm_lower_tab [OF s p]
  have lt: "pg_address (gm_pages m ! ?i) < a + n"
    using l one_page_facts(5) [OF o] page_base_le [of a] by simp
  have stop: "gm_alloc_pass calloc k pages (Suc ?i) (a + n) = (True, pages)"
    if "map pg_address pages = map pg_address (gm_pages m)" for k pages
  proof -
    have "length pages = length (gm_pages m)" using that by (metis length_map)
    moreover have "pg_address (pages ! Suc ?i) = pg_address (gm_pages m ! Suc ?i)"
      if "Suc ?i < length (gm_pages m)"
      using that \<open>map pg_address pages = _\<close> calculation by (metis nth_map)
    ultimately have "\<not> (Suc ?i < length pages \<and> pg_address (pages ! Suc ?i) < a + n)"
      using gm_next_page_above [OF wf p o, of "Suc ?i"] by auto
    then show ?thesis by (subst gm_alloc_pass.simps) (rule if_not_P)
  qed
  have upd: "map pg_address ((gm_pages m)[?i := p\<lparr>pg_bytes := Some (\<lambda>_. 0)\<rparr>]) = map pg_address (gm_pages m)"
    using l by (intro gm_addresses_update) simp_all
  show ?thesis
    using l lt stop [OF refl] stop [OF upd]
    by (subst gm_alloc_pass.simps) (auto split: option.splits)
qed

lemma gm_copy_loop_one_page:
  assumes o: "one_page a n"
  shows "gm_copy_loop w pages buf 0 a n False =
    (let i = gm_lower pages (page_base a); p = pages ! i
     in if w then (pages[i := p\<lparr>pg_bytes :=
            Some (block_write (the (pg_bytes p)) (page_off a) (take (unat n) buf))\<rparr>], buf,
          ucast (pg_prot p) AND GM_EXEC \<noteq> 0)
        else (pages, buffer_write buf 0 (map (page_bytes p) [page_off a..<page_off a + unat n]), False))"
proof -
  have stop: "gm_copy_loop w' ps b k x 0 ex = (ps, b, ex)" for w' ps b k x ex
    by (simp add: gm_copy_loop.simps)
  show ?thesis
    using one_page_facts(1,4) [OF o]
    by (subst gm_copy_loop.simps) (simp add: Let_def unat_page_offset stop)
qed

text \<open>The fast path is an optimisation: it gives what the general path gives.\<close>

lemma gm_copy_general:
  assumes wf: "gm_wf m"
  shows "gm_copy m t a buffer n permission w calloc = gm_copy_pages m t a buffer n permission w calloc"
proof -
  let ?pages = "gm_pages m" and ?i = "gm_lower (gm_pages m) (page_base a)"
  have s: "gm_sorted ?pages" using wf by (simp add: gm_wf_def)
  have off: "unat (a AND (GM_PAGE_SIZE - 1)) = page_off a" "a - (a AND (GM_PAGE_SIZE - 1)) = page_base a"
    by (simp_all add: and_page_mask page_base_alt page_off_def unat_mod)
  note fast = gm_copy_def [of m t a buffer n permission w calloc,
      unfolded Let_def off, folded one_page_def]
  show ?thesis
  proof (cases "one_page a n")
    case False
    then show ?thesis unfolding fast by simp
  next
    case True
    note general = gm_copy_pages_def [of m t a buffer n permission w calloc,
        unfolded gm_access_one_page [OF True] Let_def]
    show ?thesis
    proof (cases "gm_tab ?pages (page_base a)")
      case None
      then have "?i = length ?pages \<or> pg_address (?pages ! ?i) \<noteq> page_base a"
        using gm_tab_lower [OF s, of "page_base a"] by (simp split: if_splits)
      then show ?thesis using True unfolding fast general by simp
    next
      case (Some p)
      note l = gm_lower_tab [OF s Some]
      note alloc = gm_alloc_one_page [OF wf Some True]
      have eqv: "gm_lower (?pages[?i := p\<lparr>pg_bytes := b\<rparr>]) (page_base a) = ?i" for b
        using l by (intro pages_eqv_lower [OF pages_eqv_update s]) simp_all
      show ?thesis
        using True one_page_facts(1) [OF True] l unfolding fast general
        by (auto simp: alloc gm_copy_loop_one_page [OF True] Let_def eqv page_bytes_def
            split: option.splits)
    qed
  qed
qed

section \<open>What a copy does\<close>

lemma gm_alloc_pass_ok: "(\<And>k. calloc k) \<Longrightarrow> fst (gm_alloc_pass calloc k pages i e)"
proof (induction calloc k pages i e rule: gm_alloc_pass.induct)
  case (1 calloc k pages i e)
  have "calloc = (\<lambda>_. True)" using "1.prems" by auto
  then show ?case
    using "1.IH" by (subst gm_alloc_pass.simps) (auto split: option.splits)
qed

lemma pages_eqv_attr:
  assumes "pages_eqv (gm_pages m) (gm_pages m')"
  shows "gm_attr m' x = gm_attr m x"
  using pages_eqv_tab [OF assms, of "page_base x"]
  by (auto simp: gm_attr_def gm_page_at_def dest: page_eqv_simps elim!: option.rel_cases)

lemma gm_attr_exec:
  "(\<exists>x p. in_range a n x \<and> gm_tab (gm_pages m) (page_base x) = Some p \<and> P (pg_prot p)) \<longleftrightarrow>
   (\<exists>x prot maxprot jit. in_range a n x \<and> gm_attr m x = Some (prot, maxprot, jit) \<and> P prot)"
  by (force simp: gm_attr_def gm_page_at_def)

lemma pages_eqv_exec:
  assumes "pages_eqv ps qs"
  shows "(\<exists>x p. in_range a n x \<and> gm_tab qs (page_base x) = Some p \<and> P (pg_prot p)) \<longleftrightarrow>
    (\<exists>x p. in_range a n x \<and> gm_tab ps (page_base x) = Some p \<and> P (pg_prot p))"
proof -
  have "(\<exists>p. gm_tab qs (page_base x) = Some p \<and> P (pg_prot p)) \<longleftrightarrow>
      (\<exists>p. gm_tab ps (page_base x) = Some p \<and> P (pg_prot p))" for x
    using pages_eqv_tab [OF assms, of "page_base x"]
    by (auto dest: page_eqv_simps elim!: option.rel_cases)
  then show ?thesis by blast
qed

lemma gm_wf_eqv: "gm_wf m \<Longrightarrow> pages_eqv (gm_pages m) (gm_pages m') \<Longrightarrow> gm_wf m'"
  by (simp add: gm_wf_def pages_eqv_sorted pages_eqv_ok)

text \<open>The pages of a range are those the preflight check visits, and the allocation pass gives
  each of them a block.\<close>

lemma gm_alloc_covers:
  assumes s: "gm_sorted pages" and fit: "unat a + unat n < 2 ^ 64"
    and alloc: "gm_alloc_pass calloc 0 pages (gm_lower pages (page_base a)) (a + n) = (True, pages')"
    and x: "in_range a n x" and p: "gm_tab pages (page_base x) = Some p"
  shows "\<exists>q. gm_tab pages' (page_base x) = Some q \<and> pg_bytes q \<noteq> None"
proof -
  have spec: "pages_eqv pages pages'"
    "\<And>j. gm_lower pages (page_base a) \<le> j \<Longrightarrow> j < length pages \<Longrightarrow>
      pg_address (pages ! j) < a + n \<Longrightarrow> pg_bytes (pages' ! j) \<noteq> None"
    using gm_alloc_pass_spec [OF alloc s] by blast+
  note l = gm_lower_tab [OF s p]
  have ax: "unat a \<le> unat x" "unat x < unat a + unat n" using x by (simp_all add: in_range_iff [OF fit])
  have "unat (page_base a) \<le> unat (page_base x)"
    unfolding unat_page_base minus_mod_eq_mult_div by (simp add: div_le_mono ax(1))
  then have base: "page_base a \<le> page_base x" by (simp add: word_nat)
  have "filter (\<lambda>p. pg_address p < page_base a) pages =
      filter (\<lambda>p. pg_address p < page_base a) (filter (\<lambda>p. pg_address p < page_base x) pages)"
    using base by (auto intro!: filter_cong)
  then have "gm_lower pages (page_base a) \<le> gm_lower pages (page_base x)"
    unfolding gm_lower_eq [OF s] by (metis length_filter_le)
  moreover have "pg_address (pages ! gm_lower pages (page_base x)) < a + n"
  proof -
    have "unat (page_base x) \<le> unat x" using page_base_le [of x] by (simp add: word_nat)
    then show ?thesis using l ax(2) fit by (simp add: word_nat unat_plus_nowrap)
  qed
  ultimately have bytes: "pg_bytes (pages' ! gm_lower pages (page_base x)) \<noteq> None"
    using spec(2) l(1) by simp
  obtain q where q: "gm_tab pages' (page_base x) = Some q"
    using pages_eqv_tab [OF spec(1), of "page_base x"] p by (auto elim: option.rel_cases)
  have "pages' ! gm_lower pages (page_base x) = q"
    using gm_lower_tab(2) [OF pages_eqv_sorted [OF spec(1) s] q] pages_eqv_lower [OF spec(1) s] by simp
  with q bytes show ?thesis by auto
qed

text \<open>A write: on success exactly the bytes of the range change, to the buffer's; otherwise no
  byte changes. Attributes never change.\<close>

lemma gm_copy_write:
  assumes wf: "gm_wf m" and len: "unat n \<le> length buf"
    and eq: "gm_copy m t a (Some buf) n permission True calloc = (r, m', b')"
  shows "gm_wf m'" and "gm_attr m' = gm_attr m" and "b' = Some buf"
    and "gm_byte m' x = (if r = GM_OK \<and> in_range a n x then buf ! unat (x - a) else gm_byte m x)"
    and "gm_generation m' = (if r = GM_OK \<and> n \<noteq> 0 then gm_generation m + 1 else gm_generation m)"
    and "gm_code_generation m' =
      (if r = GM_OK \<and> (\<exists>x prot maxprot jit. in_range a n x \<and> gm_attr m x = Some (prot, maxprot, jit) \<and>
          ucast prot AND GM_EXEC \<noteq> 0) then gm_code_generation m + 1 else gm_code_generation m)"
    and "r = GM_OK \<Longrightarrow> unat a + unat n < 2 ^ 64 \<and> (\<forall>x. in_range a n x \<longrightarrow> gm_allowed m t permission x)"
    and "unat a + unat n < 2 ^ 64 \<Longrightarrow> \<forall>x. in_range a n x \<longrightarrow> gm_allowed m t permission x \<Longrightarrow>
      r = GM_OK \<or> r = GM_NOMEM \<and> (\<exists>k. \<not> calloc k)"
proof -
  have s: "gm_sorted (gm_pages m)" using wf by (simp add: gm_wf_def)
  obtain r0 m1 where acc: "gm_access_range m t a n permission = (r0, m1)"
    by (cases "gm_access_range m t a n permission")
  note spec = gm_access_range_spec [OF wf acc]
  have m1: "gm_pages m1 = gm_pages m" "gm_generation m1 = gm_generation m"
      "gm_code_generation m1 = gm_code_generation m"
    by (subst spec(1), simp)+
  note run = eq [unfolded gm_copy_general [OF wf] gm_copy_pages_def acc Let_def prod.case m1 if_True option.case]
  have "gm_wf m' \<and> gm_attr m' = gm_attr m \<and> b' = Some buf \<and>
    (\<forall>x. gm_byte m' x = (if r = GM_OK \<and> in_range a n x then buf ! unat (x - a) else gm_byte m x)) \<and>
    gm_generation m' = (if r = GM_OK \<and> n \<noteq> 0 then gm_generation m + 1 else gm_generation m) \<and>
    gm_code_generation m' =
      (if r = GM_OK \<and> (\<exists>x p. in_range a n x \<and> gm_tab (gm_pages m) (page_base x) = Some p \<and>
          ucast (pg_prot p) AND GM_EXEC \<noteq> 0) then gm_code_generation m + 1 else gm_code_generation m) \<and>
    (r = GM_OK \<longrightarrow> r0 = GM_OK) \<and> (r0 = GM_OK \<longrightarrow> r = GM_OK \<or> r = GM_NOMEM \<and> (\<exists>k. \<not> calloc k))"
  proof (cases "r0 \<noteq> GM_OK \<or> n = 0")
    case True
    then have "r = r0 \<and> m' = m1 \<and> b' = Some buf" using run by simp
    moreover have "pages_eqv (gm_pages m) (gm_pages m1)" by (simp add: m1)
    ultimately show ?thesis
      using True m1 gm_wf_eqv [OF wf] pages_eqv_attr [of m m1] by (auto simp: gm_byte_tab fun_eq_iff)
  next
    case False
    obtain ok pages1 where
      alloc: "gm_alloc_pass calloc 0 (gm_pages m) (gm_lower (gm_pages m) (page_base a)) (a + n) = (ok, pages1)"
      by fastforce
    note aspec = gm_alloc_pass_spec [OF alloc s]
    show ?thesis
    proof (cases ok)
      case nomem: False
      then have res: "r = GM_NOMEM" "m' = m1\<lparr>gm_pages := pages1\<rparr>" "b' = Some buf"
        using run False alloc by auto
      moreover have "\<exists>k. \<not> calloc k" using gm_alloc_pass_ok [of calloc 0] alloc nomem by (metis fst_conv)
      moreover have "pages_eqv (gm_pages m) (gm_pages m')" using aspec res by simp
      ultimately show ?thesis
        using m1 gm_wf_eqv [OF wf] pages_eqv_attr [of m m'] aspec by (simp add: gm_byte_tab fun_eq_iff)
    next
      case ok: True
      obtain pages2 buf2 ex where
        loop: "gm_copy_loop True pages1 buf 0 a n False = (pages2, buf2, ex)" by (metis prod_cases3)
      then have res: "r = GM_OK" "b' = Some buf2" "gm_pages m' = pages2"
          "gm_generation m' = gm_generation m + 1"
          "gm_code_generation m' = (if ex then gm_code_generation m + 1 else gm_code_generation m)"
        using run False alloc ok by auto
      have r0: "unat a + unat n < 2 ^ 64" "\<forall>x. in_range a n x \<longrightarrow> gm_allowed m t permission x"
        using spec(3) False by blast+
      have eqv: "pages_eqv (gm_pages m) pages1" using aspec by blast
      have cover: "\<forall>x. in_range a n x \<longrightarrow> (\<exists>p. gm_tab pages1 (page_base x) = Some p \<and> pg_bytes p \<noteq> None)"
      proof (intro allI impI)
        fix x
        assume x: "in_range a n x"
        then obtain p where "gm_tab (gm_pages m) (page_base x) = Some p"
          using r0(2) by (auto simp: gm_allowed_def tab_allowed_def split: option.splits)
        then show "\<exists>p. gm_tab pages1 (page_base x) = Some p \<and> pg_bytes p \<noteq> None"
          using gm_alloc_covers [OF s r0(1) _ x] alloc ok by simp
      qed
      have fit: "0 + unat n \<le> length buf" using len by simp
      note w = gm_copy_loop_write [OF loop pages_eqv_sorted [OF eqv s] r0(1) fit cover]
      have eqv2: "pages_eqv (gm_pages m) (gm_pages m')" using pages_eqv_trans [OF eqv] w res by simp
      have ex: "ex \<longleftrightarrow> (\<exists>x p. in_range a n x \<and> gm_tab (gm_pages m) (page_base x) = Some p \<and>
          ucast (pg_prot p) AND GM_EXEC \<noteq> 0)"
        using w pages_eqv_exec [OF eqv, of a n "\<lambda>prot. ucast prot AND GM_EXEC \<noteq> 0"] by simp
      show ?thesis
        using res w False aspec gm_wf_eqv [OF wf eqv2] pages_eqv_attr [OF eqv2] ex
        by (simp add: gm_byte_tab fun_eq_iff)
    qed
  qed
  then show "gm_wf m'" and "gm_attr m' = gm_attr m" and "b' = Some buf"
    and "gm_byte m' x = (if r = GM_OK \<and> in_range a n x then buf ! unat (x - a) else gm_byte m x)"
    and "gm_generation m' = (if r = GM_OK \<and> n \<noteq> 0 then gm_generation m + 1 else gm_generation m)"
    and "gm_code_generation m' =
      (if r = GM_OK \<and> (\<exists>x prot maxprot jit. in_range a n x \<and> gm_attr m x = Some (prot, maxprot, jit) \<and>
          ucast prot AND GM_EXEC \<noteq> 0) then gm_code_generation m + 1 else gm_code_generation m)"
    and "r = GM_OK \<Longrightarrow> unat a + unat n < 2 ^ 64 \<and> (\<forall>x. in_range a n x \<longrightarrow> gm_allowed m t permission x)"
    and "unat a + unat n < 2 ^ 64 \<Longrightarrow> \<forall>x. in_range a n x \<longrightarrow> gm_allowed m t permission x \<Longrightarrow>
      r = GM_OK \<or> r = GM_NOMEM \<and> (\<exists>k. \<not> calloc k)"
    using spec(3) unfolding gm_attr_exec [where P = "\<lambda>prot. ucast prot AND GM_EXEC \<noteq> 0"] by blast+
qed

text \<open>A read changes neither bytes nor attributes nor generations; on success the buffer
  holds the bytes of the range, otherwise the buffer is as it was.\<close>

lemma gm_copy_read:
  assumes wf: "gm_wf m" and len: "unat n \<le> length buf"
    and eq: "gm_copy m t a (Some buf) n permission False calloc = (r, m', b')"
  shows "m' = m\<lparr>gm_fault_address := gm_fault_address m'\<rparr>"
    and "r = GM_OK \<longleftrightarrow> unat a + unat n < 2 ^ 64 \<and> (\<forall>x. in_range a n x \<longrightarrow> gm_allowed m t permission x)"
    and "r = GM_OK \<Longrightarrow> b' = Some (map (\<lambda>i. gm_byte m (a + of_nat i)) [0..<unat n] @ drop (unat n) buf)"
    and "r \<noteq> GM_OK \<Longrightarrow> b' = Some buf"
    and "r = GM_OK \<Longrightarrow> gm_fault_address m' = 0"
    and "r \<noteq> GM_OK \<Longrightarrow> r \<noteq> GM_INVALID \<Longrightarrow>
      in_range a n (gm_fault_address m') \<and> \<not> gm_allowed m t permission (gm_fault_address m') \<and>
      r = tab_fault (gm_pages m) (gm_fault_address m')"
proof -
  have s: "gm_sorted (gm_pages m)" using wf by (simp add: gm_wf_def)
  obtain r0 m1 where acc: "gm_access_range m t a n permission = (r0, m1)"
    by (cases "gm_access_range m t a n permission")
  note spec = gm_access_range_spec [OF wf acc]
  have m1: "gm_pages m1 = gm_pages m" by (subst spec(1)) simp
  note run = eq [unfolded gm_copy_general [OF wf] gm_copy_pages_def acc Let_def prod.case m1 if_False option.case]
  have "r = r0 \<and> m' = m1 \<and>
    b' = Some (if r = GM_OK then map (\<lambda>i. gm_byte m (a + of_nat i)) [0..<unat n] @ drop (unat n) buf else buf)"
  proof (cases "r0 \<noteq> GM_OK \<or> n = 0")
    case True
    then show ?thesis using run by auto
  next
    case False
    obtain pages2 buf2 ex where
      loop: "gm_copy_loop False (gm_pages m) buf 0 a n False = (pages2, buf2, ex)" by (metis prod_cases3)
    have r0: "unat a + unat n < 2 ^ 64" "\<forall>x. in_range a n x \<longrightarrow> gm_allowed m t permission x"
      using spec(3) False by blast+
    have cover: "\<forall>x. in_range a n x \<longrightarrow> gm_tab (gm_pages m) (page_base x) \<noteq> None"
      using r0(2) by (auto simp: gm_allowed_def tab_allowed_def split: option.splits)
    have fit: "0 + unat n \<le> length buf" using len by simp
    note rd = gm_copy_loop_read [OF loop s r0(1) fit cover]
    have "buf2 = map (\<lambda>i. gm_byte m (a + of_nat i)) [0..<unat n] @ drop (unat n) buf"
      using rd len by (intro nth_equalityI) (simp_all add: nth_append gm_byte_tab)
    moreover have "m1\<lparr>gm_pages := gm_pages m\<rparr> = m1" by (simp add: m1 [symmetric])
    ultimately show ?thesis using run False loop rd by simp
  qed
  then show "m' = m\<lparr>gm_fault_address := gm_fault_address m'\<rparr>"
    and "r = GM_OK \<longleftrightarrow> unat a + unat n < 2 ^ 64 \<and> (\<forall>x. in_range a n x \<longrightarrow> gm_allowed m t permission x)"
    and "r = GM_OK \<Longrightarrow> b' = Some (map (\<lambda>i. gm_byte m (a + of_nat i)) [0..<unat n] @ drop (unat n) buf)"
    and "r \<noteq> GM_OK \<Longrightarrow> b' = Some buf"
    and "r = GM_OK \<Longrightarrow> gm_fault_address m' = 0"
    and "r \<noteq> GM_OK \<Longrightarrow> r \<noteq> GM_INVALID \<Longrightarrow>
      in_range a n (gm_fault_address m') \<and> \<not> gm_allowed m t permission (gm_fault_address m') \<and>
      r = tab_fault (gm_pages m) (gm_fault_address m')"
    using spec by auto
qed

section \<open>The contract of an address space\<close>

lemma gm_allowed_attr:
  "gm_allowed m t permission x \<longleftrightarrow>
    (case gm_attr m x of None \<Rightarrow> False
     | Some (prot, maxprot, jit) \<Rightarrow>
         \<not> gm_page_denied \<lparr>pg_address = 0, pg_bytes = None, pg_prot = prot, pg_maxprot = maxprot,
            pg_jit = jit\<rparr> t permission)"
  by (simp add: gm_allowed_def tab_allowed_def gm_attr_def gm_page_at_def gm_page_denied_def
      gm_jit_denied_def split: option.splits)

lemma gm_attr_allowed: "gm_attr m' = gm_attr m \<Longrightarrow> gm_allowed m' = gm_allowed m"
  by (intro ext) (simp add: gm_allowed_attr)

lemma gm_fault_only:
  assumes "m' = m\<lparr>gm_fault_address := f\<rparr>"
  shows "gm_wf m' = gm_wf m" and "gm_byte m' = gm_byte m" and "gm_attr m' = gm_attr m"
    and "gm_allowed m' = gm_allowed m"
  by (auto simp: assms gm_wf_def gm_byte_def gm_attr_def gm_page_at_def gm_allowed_def fun_eq_iff)

text \<open>A load into a fresh buffer and a store of a byte sequence.\<close>

definition gm_load :: "GuestMemory \<Rightarrow> u64 \<Rightarrow> u64 \<Rightarrow> GMResult \<times> GuestMemory \<times> u8 list" where
  "gm_load m a n =
     (let (r, m', b) = gm_read m a (Some (replicate (unat n) 0)) n in (r, m', the b))"

definition gm_store ::
  "GMThread option \<Rightarrow> (nat \<Rightarrow> bool) \<Rightarrow> GuestMemory \<Rightarrow> u64 \<Rightarrow> u8 list \<Rightarrow> GMResult \<times> GuestMemory" where
  "gm_store t calloc m a bs = gm_write m t a (Some bs) (word_length bs) calloc"

lemma gm_load_spec:
  assumes wf: "gm_wf m" and eq: "gm_load m a n = (r, m', bs)"
  shows "m' = m\<lparr>gm_fault_address := gm_fault_address m'\<rparr>"
    and "r = GM_OK \<longleftrightarrow> unat a + unat n < 2 ^ 64 \<and> (\<forall>x. in_range a n x \<longrightarrow> gm_allowed m None GM_READ x)"
    and "r = GM_OK \<Longrightarrow> bs = map (\<lambda>i. gm_byte m (a + of_nat i)) [0..<unat n]"
proof -
  obtain b where c: "gm_copy m None a (Some (replicate (unat n) 0)) n GM_READ False (\<lambda>_. False) = (r, m', b)"
    and b: "bs = the b"
    using eq by (auto simp: gm_load_def gm_read_def split: prod.splits)
  note spec = gm_copy_read [OF wf _ c, simplified]
  show "m' = m\<lparr>gm_fault_address := gm_fault_address m'\<rparr>" by (rule spec(1))
  show "r = GM_OK \<longleftrightarrow> unat a + unat n < 2 ^ 64 \<and> (\<forall>x. in_range a n x \<longrightarrow> gm_allowed m None GM_READ x)"
    using spec(2) by simp
  show "bs = map (\<lambda>i. gm_byte m (a + of_nat i)) [0..<unat n]" if "r = GM_OK"
    using spec(3) [OF that] b by simp
qed

lemma gm_store_spec:
  assumes wf: "gm_wf m" and len: "length bs < 2 ^ 64" and eq: "gm_store t calloc m a bs = (r, m')"
  shows "gm_wf m'" and "gm_attr m' = gm_attr m"
    and "gm_byte m' x = (if r = GM_OK \<and> in_range a (word_length bs) x then bs ! unat (x - a) else gm_byte m x)"
    and "r = GM_OK \<Longrightarrow> unat a + unat (word_length bs) < 2 ^ 64 \<and>
      (\<forall>x. in_range a (word_length bs) x \<longrightarrow> gm_allowed m t GM_WRITE x)"
proof -
  obtain b where c: "gm_copy m t a (Some bs) (word_length bs) GM_WRITE True calloc = (r, m', b)"
    using eq by (auto simp: gm_store_def gm_write_def split: prod.splits)
  have "unat (word_length bs) \<le> length bs" using len by (simp add: unat_of_nat_u64)
  note spec = gm_copy_write [OF wf this c]
  show "gm_wf m'" and "gm_attr m' = gm_attr m"
    and "gm_byte m' x = (if r = GM_OK \<and> in_range a (word_length bs) x then bs ! unat (x - a) else gm_byte m x)"
    and "r = GM_OK \<Longrightarrow> unat a + unat (word_length bs) < 2 ^ 64 \<and>
      (\<forall>x. in_range a (word_length bs) x \<longrightarrow> gm_allowed m t GM_WRITE x)"
    by (rule spec; assumption)+
qed

interpretation gm: address_space gm_wf "\<lambda>m a n. unat a + unat n < 2 ^ 64" gm_byte
  "\<lambda>m. gm_allowed m None GM_READ" "\<lambda>m. gm_allowed m t GM_WRITE" gm_load "gm_store t calloc"
  for t calloc
proof (unfold_locales, goal_cases)
  case (1 m a n)
  then show ?case by (cases "gm_load m a n") (simp add: gm_load_spec(2))
next
  case (2 m a n m' bs)
  show ?case by (rule gm_load_spec(3) [OF 2 refl])
next
  case (3 m a n r m' bs)
  note same = gm_fault_only [OF gm_load_spec(1) [OF 3]]
  show ?case unfolding same using 3(1) by (intro conjI refl)
next
  case (4 m bs a m')
  show ?case by (rule gm_store_spec(4) [OF 4 refl])
next
  case (5 m bs a r m' x)
  then show ?case by (rule gm_store_spec(3))
next
  case (6 m bs a r m')
  have "gm_allowed m' = gm_allowed m" by (rule gm_attr_allowed [OF gm_store_spec(2) [OF 6]])
  then show ?case using gm_store_spec(1) [OF 6] by (intro conjI) simp_all
qed

section \<open>Steps of an address space\<close>

text \<open>One call of the interface: the state before and after.\<close>

inductive gm_step :: "GuestMemory \<Rightarrow> GuestMemory \<Rightarrow> bool" where
  map: "gm_step m (snd (gm_map m a n prot maxprot jit replace ok))"
| unmap: "gm_step m (snd (gm_unmap m a n))"
| protect: "gm_step m (snd (gm_protect m a n prot))"
| read: "buffer_ok b n \<Longrightarrow> gm_step m (fst (snd (gm_read m a b n)))"
| store: "buffer_ok b n \<Longrightarrow> gm_step m (snd (gm_write m t a b n calloc))"
| populate: "buffer_ok b n \<Longrightarrow> gm_step m (snd (gm_populate m a b n calloc))"
| fetch: "gm_step m (fst (snd (gm_fetch m t a out)))"

inductive gm_reachable :: "GuestMemory \<Rightarrow> bool" where
  init: "gm_reachable (gm_destroy m)"
| step: "gm_reachable m \<Longrightarrow> gm_step m m' \<Longrightarrow> gm_reachable m'"

lemma gm_copy_null:
  assumes "gm_wf m" and "gm_copy m t a None n permission w calloc = (r, m', b')"
  shows "m' = m\<lparr>gm_fault_address := gm_fault_address m'\<rparr>"
proof -
  obtain r0 m1 where acc: "gm_access_range m t a n permission = (r0, m1)"
    by (cases "gm_access_range m t a n permission")
  have "m' = m1"
    using assms(2) unfolding gm_copy_general [OF assms(1)] gm_copy_pages_def acc
    by (auto simp: Let_def split: if_splits)
  then show ?thesis using gm_access_range_spec(1) [OF assms(1) acc] by simp
qed

text \<open>A write, whatever its buffer: it keeps the invariant and the attributes.\<close>

lemma gm_copy_write_keeps:
  assumes "gm_wf m" and "buffer_ok b n" and "gm_copy m t a b n permission True calloc = (r, m', b')"
  shows "gm_wf m'" and "gm_attr m' = gm_attr m"
proof -
  have "gm_wf m' \<and> gm_attr m' = gm_attr m"
  proof (cases b)
    case None
    then show ?thesis
      using gm_fault_only [OF gm_copy_null [OF assms(1)]] assms by metis
  next
    case (Some buf)
    then have "unat n \<le> length buf" using assms(2) by (simp add: buffer_ok_def)
    then show ?thesis using gm_copy_write(1,2) [OF assms(1) _ assms(3) [unfolded Some]] by blast
  qed
  then show "gm_wf m'" and "gm_attr m' = gm_attr m" by blast+
qed

lemma gm_copy_read_keeps:
  assumes "gm_wf m" and "buffer_ok b n" and "gm_copy m t a b n permission False calloc = (r, m', b')"
  shows "m' = m\<lparr>gm_fault_address := gm_fault_address m'\<rparr>"
proof (cases b)
  case None
  then show ?thesis using gm_copy_null [OF assms(1)] assms(3) by blast
next
  case (Some buf)
  then have "unat n \<le> length buf" using assms(2) by (simp add: buffer_ok_def)
  then show ?thesis using gm_copy_read(1) [OF assms(1) _ assms(3) [unfolded Some]] by blast
qed

lemma gm_fetch_keeps:
  assumes "gm_wf m"
  shows "\<exists>f. fst (snd (gm_fetch m t a out)) = m\<lparr>gm_fault_address := f\<rparr>"
proof (cases "out \<and> a AND 3 = 0")
  case False
  then show ?thesis by (auto simp: gm_fetch_def intro: exI [of _ "gm_fault_address m"])
next
  case True
  obtain r m' b' where c: "gm_copy m t a (Some [0, 0, 0, 0]) 4 GM_EXEC False (\<lambda>_. False) = (r, m', b')"
    by (metis prod_cases3)
  have "buffer_ok (Some [0, 0, 0, 0]) 4" by (simp add: buffer_ok_def)
  from gm_copy_read_keeps [OF assms this c] show ?thesis
    using True c by (auto simp: gm_fetch_def)
qed

lemma gm_step_wf: "gm_step m m' \<Longrightarrow> gm_wf m \<Longrightarrow> gm_wf m'"
proof (induction rule: gm_step.induct)
  case (map m a n prot maxprot jit replace ok)
  obtain r m' where eq: "gm_map m a n prot maxprot jit replace ok = (r, m')" by fastforce
  then show ?case
    using gm_map_ok(1) [OF map] gm_map_error [OF eq] map by (cases "r = GM_OK") auto
next
  case (unmap m a n)
  then show ?case using gm_unmap_ok(2) gm_unmap_invalid by (cases "gm_range a n") auto
next
  case (protect m a n prot)
  obtain r m' where eq: "gm_protect m a n prot = (r, m')" by fastforce
  then show ?case
    using gm_protect_ok(1) [OF protect] gm_protect_error [of m a n prot] protect by (cases "r = GM_OK") auto
next
  case (read b n m a)
  obtain r m' b' where c: "gm_copy m None a b n GM_READ False (\<lambda>_. False) = (r, m', b')"
    by (metis prod_cases3)
  have "gm_wf m'" using gm_fault_only(1) [OF gm_copy_read_keeps [OF read(2,1) c]] read(2) by blast
  then show ?case using c by (simp add: gm_read_def)
next
  case (store b n m t a calloc)
  obtain r m' b' where c: "gm_copy m t a b n GM_WRITE True calloc = (r, m', b')" by (metis prod_cases3)
  then show ?case using gm_copy_write_keeps(1) [OF store(2,1) c] by (simp add: gm_write_def)
next
  case (populate b n m a calloc)
  obtain r m' b' where c: "gm_copy m None a b n 0 True calloc = (r, m', b')" by (metis prod_cases3)
  then show ?case using gm_copy_write_keeps(1) [OF populate(2,1) c] by (simp add: gm_populate_def)
next
  case (fetch m t a out)
  obtain f where "fst (snd (gm_fetch m t a out)) = m\<lparr>gm_fault_address := f\<rparr>" using gm_fetch_keeps [OF fetch] by blast
  then show ?case using fetch by (simp add: gm_wf_def)
qed

lemma gm_reachable_wf: "gm_reachable m \<Longrightarrow> gm_wf m"
proof (induction rule: gm_reachable.induct)
  case (init m)
  then show ?case by (simp add: gm_wf_def gm_destroy_def gm_sorted_def)
next
  case (step m m')
  then show ?case using gm_step_wf by blast
qed

section \<open>Properties\<close>

text \<open>An address space of three pages for the witnesses: data, JIT code and read-only data.\<close>

definition gm_sample :: GuestMemory where
  "gm_sample =
     \<lparr>gm_pages =
        [\<lparr>pg_address = 0x100000000, pg_bytes = None, pg_prot = 3, pg_maxprot = 7, pg_jit = False\<rparr>,
         \<lparr>pg_address = 0x100004000, pg_bytes = Some (\<lambda>_. 0x1f), pg_prot = 7, pg_maxprot = 7, pg_jit = True\<rparr>,
         \<lparr>pg_address = 0x100010000, pg_bytes = None, pg_prot = 1, pg_maxprot = 1, pg_jit = False\<rparr>],
      gm_generation = 3, gm_code_generation = 3, gm_fault_address = 0\<rparr>"

lemma gm_sample_wf: "gm_wf gm_sample"
  by (simp add: gm_sample_def gm_wf_def gm_sorted_def gm_page_ok_def page_aligned_def)

text \<open>C1. Every reachable address space satisfies the invariant: whatever sequence of
  \<open>gm_map\<close>, \<open>gm_unmap\<close>, \<open>gm_protect\<close>, \<open>gm_read\<close>, \<open>gm_write\<close>, \<open>gm_populate\<close> and
  \<open>gm_fetch\<close> calls is made, with whatever arguments and whichever allocations failing, the
  pages stay sorted, distinct, page aligned and below the end of the address space, and no page's
  protection exceeds its maximum.\<close>

theorem gm_invariant:
  assumes "gm_reachable m"
  shows "gm_wf m"
  by (rule gm_reachable_wf [OF assms])

theorem gm_invariant_witness:
  "gm_wf (snd (gm_map (gm_destroy gm_sample) 0x100000000 0x8000 3 7 False False True))"
  by (rule gm_invariant, rule gm_reachable.step, rule gm_reachable.init, rule gm_step.map)

text \<open>C21. The one-page fast path of \<open>copy\<close> is only an optimisation: for every access it gives
  the result, the memory (bytes, generations and fault address) and the buffer that the general
  path gives.\<close>

theorem gm_copy_fast_path:
  assumes "gm_wf m"
  shows "gm_copy m t a buffer n permission w calloc = gm_copy_pages m t a buffer n permission w calloc"
  by (rule gm_copy_general [OF assms])

theorem gm_copy_fast_path_witness:
  "gm_copy gm_sample None 0x100000010 (Some [1, 2]) 2 GM_WRITE True (\<lambda>_. True) =
     gm_copy_pages gm_sample None 0x100000010 (Some [1, 2]) 2 GM_WRITE True (\<lambda>_. True)"
  by (rule gm_copy_fast_path [OF gm_sample_wf])

text \<open>C6. A write is all or nothing. When \<open>gm_write\<close> returns \<open>GM_OK\<close>, every byte of the range
  was writable and now holds the buffer's byte, and no other byte changed; when it returns an
  error, even one of allocation in the middle of the range, no byte at all changed. Page
  attributes never change, \<open>generation\<close> counts the successful non-empty writes and
  \<open>code_generation\<close> those that touched an executable page.\<close>

theorem gm_write_atomic:
  assumes "gm_wf m" and "unat n \<le> length buf" and "gm_write m t a (Some buf) n calloc = (r, m')"
  shows "gm_wf m' \<and> gm_attr m' = gm_attr m \<and>
    (\<forall>x. gm_byte m' x = (if r = GM_OK \<and> in_range a n x then buf ! unat (x - a) else gm_byte m x)) \<and>
    gm_generation m' = (if r = GM_OK \<and> n \<noteq> 0 then gm_generation m + 1 else gm_generation m) \<and>
    gm_code_generation m' =
      (if r = GM_OK \<and> (\<exists>x prot maxprot jit. in_range a n x \<and> gm_attr m x = Some (prot, maxprot, jit) \<and>
          ucast prot AND GM_EXEC \<noteq> 0) then gm_code_generation m + 1 else gm_code_generation m) \<and>
    (r = GM_OK \<longrightarrow> unat a + unat n < 2 ^ 64 \<and> (\<forall>x. in_range a n x \<longrightarrow> gm_allowed m t GM_WRITE x)) \<and>
    (unat a + unat n < 2 ^ 64 \<longrightarrow> (\<forall>x. in_range a n x \<longrightarrow> gm_allowed m t GM_WRITE x) \<longrightarrow> (\<forall>k. calloc k) \<longrightarrow>
      r = GM_OK)"
proof -
  obtain b where c: "gm_copy m t a (Some buf) n GM_WRITE True calloc = (r, m', b)"
    using assms(3) by (auto simp: gm_write_def split: prod.splits)
  note w = gm_copy_write [OF assms(1,2) c]
  show ?thesis
    by (intro conjI allI impI) (rule w(1), rule w(2), rule w(4), rule w(5), rule w(6),
        use w(7) in blast, use w(7) in blast, use w(8) in blast)
qed

theorem gm_write_atomic_witness:
  "fst (gm_write gm_sample None 0x100000010 (Some [1, 2]) 2 (\<lambda>_. True)) = GM_OK \<and>
   (\<forall>x. gm_byte (snd (gm_write gm_sample None 0x100000010 (Some [1, 2]) 2 (\<lambda>_. True))) x =
      (if in_range 0x100000010 2 x then [1, 2] ! unat (x - 0x100000010) else gm_byte gm_sample x))"
proof -
  have ok: "fst (gm_write gm_sample None 0x100000010 (Some [1, 2]) 2 (\<lambda>_. True)) = GM_OK"
    by code_simp
  show ?thesis
    using gm_write_atomic [OF gm_sample_wf _ prod.collapse [symmetric],
        of 2 "[1, 2]" None "0x100000010" "\<lambda>_. True"] ok by simp
qed

text \<open>A load returns what a store put there: after a successful \<open>gm_write\<close> of a byte
  sequence to a readable range, \<open>gm_read\<close> of that range succeeds and returns the sequence.\<close>

theorem gm_read_after_write:
  assumes "gm_wf m" and "length bs < 2 ^ 64"
    and "gm_write m t a (Some bs) (of_nat (length bs)) calloc = (GM_OK, m')"
    and "\<forall>x. in_range a (of_nat (length bs)) x \<longrightarrow> gm_allowed m None GM_READ x"
  shows "\<exists>m''. gm_read m' a (Some (replicate (length bs) 0)) (of_nat (length bs)) = (GM_OK, m'', Some bs)"
proof -
  obtain m'' where l: "gm_load m' a (of_nat (length bs)) = (GM_OK, m'', bs)"
    using gm.load_after_store [of m bs t calloc a m'] assms by (auto simp: gm_store_def)
  obtain r k b where rd: "gm_read m' a (Some (replicate (length bs) 0)) (of_nat (length bs)) = (r, k, b)"
    by (metis prod_cases3)
  have n: "unat (of_nat (length bs) :: u64) = length bs" using assms(2) by (rule unat_of_nat_u64)
  then have "r = GM_OK" "k = m''" "the b = bs"
    using l rd by (simp_all add: gm_load_def)
  moreover have "b \<noteq> None"
  proof -
    have "gm_wf m'" using gm_store_spec(1) [OF assms(1,2)] assms(3) by (simp add: gm_store_def)
    moreover have "gm_copy m' None a (Some (replicate (length bs) 0)) (of_nat (length bs)) GM_READ False
        (\<lambda>_. False) = (r, k, b)" using rd by (simp add: gm_read_def)
    moreover have "unat (of_nat (length bs) :: u64) \<le> length (replicate (length bs) (0 :: u8))"
      using n by simp
    ultimately show ?thesis using gm_copy_read(3) \<open>r = GM_OK\<close> by blast
  qed
  ultimately show ?thesis using rd by (cases b) auto
qed

theorem gm_read_after_write_witness:
  "\<exists>m''. gm_read (snd (gm_write gm_sample None 0x100000010 (Some [1, 2]) 2 (\<lambda>_. True))) 0x100000010
     (Some [0, 0]) 2 = (GM_OK, m'', Some [1, 2])"
proof -
  have ok: "fst (gm_write gm_sample None 0x100000010 (Some [1, 2]) 2 (\<lambda>_. True)) = GM_OK" by code_simp
  have r: "gm_allowed gm_sample None GM_READ x" if "in_range 0x100000010 2 x" for x
  proof -
    have "unat x = 0x100000010 \<or> unat x = 0x100000011" using that by (simp add: in_range_iff) linarith
    then have "x = 0x100000010 \<or> x = 0x100000011" by (simp add: word_unat_eq_iff)
    then show ?thesis by (elim disjE; hypsubst; code_simp)
  qed
  show ?thesis
    using gm_read_after_write [OF gm_sample_wf, of "[1, 2]" None "0x100000010" "\<lambda>_. True"
        "snd (gm_write gm_sample None 0x100000010 (Some [1, 2]) 2 (\<lambda>_. True))"] ok r
    by (simp add: prod_eq_iff)
qed

text \<open>\<open>gm_map\<close> decides and acts as documented: bad arguments are \<open>GM_INVALID\<close>, an overlap
  without \<open>replace\<close> is \<open>GM_OVERLAP\<close>, every failure leaves the memory exactly as it was, and
  success gives every address of the range a fresh zero page with the requested protection while
  every other page stays.\<close>

theorem gm_map_correct:
  assumes "gm_wf m" and "gm_map m a n prot maxprot jit replace ok = (r, m')"
  shows "(r = GM_INVALID \<longleftrightarrow> \<not> gm_map_args_ok a n prot maxprot) \<and>
    (r = GM_OVERLAP \<longleftrightarrow> gm_map_args_ok a n prot maxprot \<and> \<not> replace \<and>
      (\<exists>x. in_range a n x \<and> gm_page_at m x \<noteq> None)) \<and>
    (r \<noteq> GM_OK \<longrightarrow> m' = m) \<and>
    (r = GM_OK \<longrightarrow> (\<forall>x. gm_page_at m' x =
      (if in_range a n x then Some (gm_new_page (page_base x) prot maxprot jit) else gm_page_at m x)))"
proof -
  have "r = GM_INVALID \<longleftrightarrow> \<not> gm_map_args_ok a n prot maxprot"
    using assms(2) by (auto simp: gm_map_def gm_map_args_ok_def Let_def split: if_splits)
  moreover have "r = GM_OVERLAP \<longleftrightarrow> gm_map_args_ok a n prot maxprot \<and> \<not> replace \<and>
      (\<exists>x. in_range a n x \<and> gm_page_at m x \<noteq> None)"
    using gm_map_overlap [OF assms(1), of a n prot maxprot jit replace ok] assms(2) by simp
  moreover have "r \<noteq> GM_OK \<longrightarrow> m' = m" using gm_map_error [OF assms(2)] by blast
  moreover have "\<forall>x. gm_page_at m' x =
      (if in_range a n x then Some (gm_new_page (page_base x) prot maxprot jit) else gm_page_at m x)"
    if "r = GM_OK"
    using gm_map_ok(2) [OF assms(1)] assms(2) unfolding that by blast
  ultimately show ?thesis by blast
qed

theorem gm_map_correct_witness:
  "fst (gm_map gm_sample 0x100008000 0x4000 5 7 False False True) = GM_OK \<and>
   (\<forall>x. gm_page_at (snd (gm_map gm_sample 0x100008000 0x4000 5 7 False False True)) x =
      (if in_range 0x100008000 0x4000 x then Some (gm_new_page (page_base x) 5 7 False)
       else gm_page_at gm_sample x))"
proof -
  have ok: "fst (gm_map gm_sample 0x100008000 0x4000 5 7 False False True) = GM_OK"
    by (simp add: gm_map_def gm_range_def gm_lower_def gm_bisect.simps gm_sample_def Let_def)
  show ?thesis
    using gm_map_correct [OF gm_sample_wf prod.collapse [symmetric],
        of "0x100008000" "0x4000" 5 7 False False True] ok by simp
qed

text \<open>\<open>gm_protect\<close> checks the whole range first: it refuses bad arguments, a range with an
  unmapped address and a protection beyond the maximum of some page, in that order, without
  changing anything; otherwise it sets the protection of exactly the pages of the range.\<close>

theorem gm_protect_correct:
  assumes "gm_wf m" and "gm_protect m a n prot = (r, m')"
  shows "r = (if \<not> gm_protect_args_ok a n prot then GM_INVALID
       else if \<exists>x. in_range a n x \<and> gm_page_at m x = None then GM_UNMAPPED
       else if \<exists>x p. in_range a n x \<and> gm_page_at m x = Some p \<and>
          prot AND NOT (ucast (pg_maxprot p)) \<noteq> 0 then GM_PROTECTION
       else GM_OK) \<and>
    (r \<noteq> GM_OK \<longrightarrow> m' = m) \<and>
    (r = GM_OK \<longrightarrow> (\<forall>x. gm_page_at m' x =
      (if in_range a n x then map_option (\<lambda>p. p\<lparr>pg_prot := ucast prot\<rparr>) (gm_page_at m x)
       else gm_page_at m x)))"
proof -
  have "r = fst (gm_protect m a n prot)" using assms(2) by simp
  moreover have "r \<noteq> GM_OK \<longrightarrow> m' = m" using gm_protect_error [of m a n prot] assms(2) by simp
  moreover have "\<forall>x. gm_page_at m' x =
      (if in_range a n x then map_option (\<lambda>p. p\<lparr>pg_prot := ucast prot\<rparr>) (gm_page_at m x)
       else gm_page_at m x)" if "r = GM_OK"
    using gm_protect_ok(2) [OF assms(1)] assms(2) unfolding that by blast
  ultimately show ?thesis unfolding gm_protect_result [OF assms(1)] by blast
qed

theorem gm_protect_correct_witness:
  "fst (gm_protect gm_sample 0x100000000 0x8000 1) = GM_OK \<and>
   (\<forall>x. gm_page_at (snd (gm_protect gm_sample 0x100000000 0x8000 1)) x =
      (if in_range 0x100000000 0x8000 x
       then map_option (\<lambda>p. p\<lparr>pg_prot := 1\<rparr>) (gm_page_at gm_sample x) else gm_page_at gm_sample x))"
proof -
  have ok: "fst (gm_protect gm_sample 0x100000000 0x8000 1) = GM_OK"
    by code_simp
  show ?thesis
    using gm_protect_correct [OF gm_sample_wf prod.collapse [symmetric], of "0x100000000" "0x8000" 1] ok
    by simp
qed

text \<open>\<open>gm_find_free\<close> is first fit: it returns the lowest page-aligned address at or above the
  hint where the whole range is free, and \<open>GM_NOMEM\<close> exactly when there is none.\<close>

theorem gm_find_free_first_fit:
  assumes "gm_wf m"
  shows "gm_find_free m hint n =
    (if \<not> gm_range hint n then (GM_INVALID, None)
     else if \<exists>y. gm_free_at (gm_pages m) n y \<and> hint \<le> y
     then (GM_OK, Some (LEAST y. gm_free_at (gm_pages m) n y \<and> hint \<le> y))
     else (GM_NOMEM, None))"
proof -
  consider (bad) "gm_find_free m hint n = (GM_INVALID, None)" "\<not> gm_range hint n"
    | (found) r where "gm_range hint n" "gm_find_free m hint n = (GM_OK, Some r)" "hint \<le> r"
        "gm_free_at (gm_pages m) n r" "\<forall>y. gm_free_at (gm_pages m) n y \<longrightarrow> hint \<le> y \<longrightarrow> r \<le> y"
    | (full) "gm_range hint n" "gm_find_free m hint n = (GM_NOMEM, None)"
        "\<forall>y. gm_free_at (gm_pages m) n y \<longrightarrow> y < hint"
    using gm_find_free_spec [OF assms, of hint n] by blast
  then show ?thesis
  proof cases
    case bad
    then show ?thesis by simp
  next
    case found
    then have "(LEAST y. gm_free_at (gm_pages m) n y \<and> hint \<le> y) = r"
      by (intro Least_equality) simp_all
    with found show ?thesis by auto
  next
    case full
    then have "\<not> (\<exists>y. gm_free_at (gm_pages m) n y \<and> hint \<le> y)" using leD by blast
    with full show ?thesis by simp
  qed
qed

theorem gm_find_free_first_fit_witness:
  "gm_find_free gm_sample 0x100000000 0x8000 =
     (GM_OK, Some (LEAST y. gm_free_at (gm_pages gm_sample) 0x8000 y \<and> 0x100000000 \<le> y)) \<and>
   gm_find_free gm_sample 0x100000000 0x8000 = (GM_OK, Some 0x100008000)"
proof -
  have ok: "gm_find_free gm_sample 0x100000000 0x8000 = (GM_OK, Some 0x100008000)"
    by code_simp
  show ?thesis
    using gm_find_free_first_fit [OF gm_sample_wf, of "0x100000000" "0x8000"] ok by (auto split: if_splits)
qed

end
