(* ===== verification/DarwinMemory.thy ===== *)
theory DarwinMemory
  imports GuestMemoryAccess
begin

text \<open>
  The Darwin memory calls of \<open>runtime/DarwinMemory.c\<close> on top of the software MMU:
  \<open>mmap\<close>, \<open>mprotect\<close>, \<open>munmap\<close> and the per-thread JIT write protection, with the errno
  values of the macOS ABI. The lemmas show that the calls keep the invariant of the MMU and the
  guard below 4 GiB, that a non-fixed mapping never replaces a page, and that a failing call
  changes nothing but the error.
\<close>

section \<open>State and operations\<close>

abbreviation GD_MAP_SHARED :: u32 where "GD_MAP_SHARED \<equiv> 1"
abbreviation GD_MAP_PRIVATE :: u32 where "GD_MAP_PRIVATE \<equiv> 2"
abbreviation GD_MAP_FIXED :: u32 where "GD_MAP_FIXED \<equiv> 0x10"
abbreviation GD_MAP_ANON :: u32 where "GD_MAP_ANON \<equiv> 0x1000"
abbreviation GD_MAP_JIT :: u32 where "GD_MAP_JIT \<equiv> 0x800"

abbreviation GD_ENOMEM :: int where "GD_ENOMEM \<equiv> 12"
abbreviation GD_EACCES :: int where "GD_EACCES \<equiv> 13"
abbreviation GD_EINVAL :: int where "GD_EINVAL \<equiv> 22"
abbreviation GD_ENOTSUP :: int where "GD_ENOTSUP \<equiv> 45"

record DarwinMemory =
  d_memory :: GuestMemory
  d_thread :: GMThread
  d_error :: int

definition rounded :: "u64 \<Rightarrow> u64 option" where
  "rounded n =
     (if n = 0 \<or> n > UINT64_MAX - (GM_PAGE_SIZE - 1) then None
      else Some ((n + GM_PAGE_SIZE - 1) AND NOT (GM_PAGE_SIZE - 1)))"

definition gd_result :: "DarwinMemory \<Rightarrow> GMResult \<Rightarrow> int \<times> DarwinMemory" where
  "gd_result d r =
     (if r = GM_OK then (0, d)
      else (-1, d\<lparr>d_error := (if r = GM_PROTECTION then GD_EACCES
                             else if r = GM_NOMEM \<or> r = GM_UNMAPPED then GD_ENOMEM
                             else GD_EINVAL)\<rparr>))"

definition gd_mmap ::
  "DarwinMemory \<Rightarrow> u64 \<Rightarrow> u64 \<Rightarrow> u32 \<Rightarrow> u32 \<Rightarrow> int \<Rightarrow> u64 \<Rightarrow> bool \<Rightarrow> u64 \<times> DarwinMemory" where
  "gd_mmap d a n prot flags fd offset calloc_ok =
     (let known = GD_MAP_PRIVATE OR GD_MAP_SHARED OR GD_MAP_FIXED OR GD_MAP_ANON OR GD_MAP_JIT
      in case rounded n of
        None \<Rightarrow> (UINT64_MAX, d\<lparr>d_error := GD_EINVAL\<rparr>)
      | Some sz \<Rightarrow>
          if prot AND NOT 7 \<noteq> 0 \<or> flags AND NOT known \<noteq> 0
             \<or> flags AND (GD_MAP_PRIVATE OR GD_MAP_SHARED) \<noteq> GD_MAP_PRIVATE \<or> offset \<noteq> 0
             \<or> flags AND GD_MAP_FIXED \<noteq> 0 \<and> a mod GM_PAGE_SIZE \<noteq> 0
          then (UINT64_MAX, d\<lparr>d_error := GD_EINVAL\<rparr>)
          else if flags AND GD_MAP_ANON = 0 \<or> fd \<noteq> -1
          then (UINT64_MAX, d\<lparr>d_error := GD_ENOTSUP\<rparr>)
          else
            let (failed, d1, a1) =
                  (if flags AND GD_MAP_FIXED = 0 then
                     (let hint = a AND NOT (GM_PAGE_SIZE - 1);
                          hint = (if hint < 0x100000000 then 0x200000000 else hint);
                          (r, found) = gm_find_free (d_memory d) hint sz;
                          (failed, d1) = gd_result d r
                      in (failed \<noteq> 0, d1, case found of None \<Rightarrow> hint | Some x \<Rightarrow> x))
                   else (False, d, a))
            in if failed then (UINT64_MAX, d1)
               else if a1 < 0x100000000 then (UINT64_MAX, d1\<lparr>d_error := GD_EINVAL\<rparr>)
               else let (r, m') = gm_map (d_memory d1) a1 sz prot 7 (flags AND GD_MAP_JIT \<noteq> 0)
                                    (flags AND GD_MAP_FIXED \<noteq> 0) calloc_ok;
                        (failed, d2) = gd_result (d1\<lparr>d_memory := m'\<rparr>) r
                    in (if failed \<noteq> 0 then UINT64_MAX else a1, d2))"

definition gd_mprotect :: "DarwinMemory \<Rightarrow> u64 \<Rightarrow> u64 \<Rightarrow> u32 \<Rightarrow> int \<times> DarwinMemory" where
  "gd_mprotect d a n prot =
     (case rounded n of
        None \<Rightarrow> (-1, d\<lparr>d_error := GD_EINVAL\<rparr>)
      | Some sz \<Rightarrow>
          let (r, m') = gm_protect (d_memory d) a sz prot in gd_result (d\<lparr>d_memory := m'\<rparr>) r)"

definition gd_munmap :: "DarwinMemory \<Rightarrow> u64 \<Rightarrow> u64 \<Rightarrow> int \<times> DarwinMemory" where
  "gd_munmap d a n =
     (case rounded n of
        None \<Rightarrow> (-1, d\<lparr>d_error := GD_EINVAL\<rparr>)
      | Some sz \<Rightarrow>
          let (r, m') = gm_unmap (d_memory d) a sz in gd_result (d\<lparr>d_memory := m'\<rparr>) r)"

definition gd_jit_write_protect :: "DarwinMemory \<Rightarrow> bool \<Rightarrow> DarwinMemory" where
  "gd_jit_write_protect d enabled = d\<lparr>d_thread := (d_thread d)\<lparr>jit_write_protected := enabled\<rparr>\<rparr>"

section \<open>Rounding\<close>

lemma rounded_Some:
  assumes "rounded n = Some sz"
  shows "page_aligned sz" and "unat n \<le> unat sz" and "unat sz < unat n + 16384" and "sz \<noteq> 0"
proof -
  have n: "n \<noteq> 0" "n \<le> UINT64_MAX - 16383" and s: "sz = page_base (n + GM_PAGE_SIZE - 1)"
    using assms by (auto simp: rounded_def page_base_def not_less split: if_splits)
  have k: "unat (16383 :: u64) = 16383" "n + GM_PAGE_SIZE - 1 = n + 16383" by simp_all
  have "unat (16383 :: u64) + unat n < 2 ^ 64" using n(2) unfolding fits_iff .
  then have "unat n + unat (16383 :: u64) < 2 ^ 64" by linarith
  then have sum: "unat (n + GM_PAGE_SIZE - 1) = unat n + 16383"
    unfolding k(2) by (subst unat_plus_nowrap) (simp_all only: k(1))
  have pos: "0 < unat n" using n(1) by (simp add: unat_gt_0)
  have split: "unat n + 16383 = unat sz + page_off (n + GM_PAGE_SIZE - 1)"
    unfolding s using unat_page_split [of "n + GM_PAGE_SIZE - 1"] sum by linarith
  show "page_aligned sz" by (simp add: s)
  show "unat n \<le> unat sz" "unat sz < unat n + 16384"
    using split page_off_less [of "n + GM_PAGE_SIZE - 1"] by linarith+
  then show "sz \<noteq> 0" using pos by auto
qed

lemma rounded_None: "rounded n = None \<longleftrightarrow> n = 0 \<or> 2 ^ 64 \<le> unat n + 16383"
proof -
  have "n > UINT64_MAX - 16383 \<longleftrightarrow> \<not> unat (16383 :: u64) + unat n < 2 ^ 64"
    by (simp only: fits_iff [symmetric] not_le)
  then show ?thesis by (auto simp: rounded_def)
qed

section \<open>The invariant\<close>

text \<open>No page lies below 4 GiB.\<close>

definition gd_guard :: "GuestMemory \<Rightarrow> bool" where
  "gd_guard m \<longleftrightarrow> (\<forall>x. gm_page_at m x \<noteq> None \<longrightarrow> 0x100000000 \<le> x)"

definition gd_wf :: "DarwinMemory \<Rightarrow> bool" where
  "gd_wf d \<longleftrightarrow> gm_wf (d_memory d) \<and> gd_guard (d_memory d)"

lemma gd_result_simps [simp]:
  "d_memory (snd (gd_result d r)) = d_memory d" "d_thread (snd (gd_result d r)) = d_thread d"
  "fst (gd_result d r) = 0 \<longleftrightarrow> r = GM_OK" "fst (gd_result d r) \<noteq> 0 \<longleftrightarrow> fst (gd_result d r) = -1"
  "gd_result d GM_OK = (0, d)"
  by (simp_all add: gd_result_def)

text \<open>The pages of a successful map, unmap or protect stay above the guard.\<close>

lemma in_range_ge:
  assumes "gm_range a n" and "in_range a n x"
  shows "a \<le> x"
  using assms gm_range_facts [OF assms(1)] by (simp add: in_range_iff word_nat)

lemma gd_guard_map:
  assumes "gm_wf m" and "gd_guard m" and "gm_map m a n prot maxprot jit replace ok = (GM_OK, m')"
    and "0x100000000 \<le> a"
  shows "gd_guard m'"
proof -
  have r: "gm_range a n"
    using assms(3) by (auto simp: gm_map_def split: if_splits)
  have "0x100000000 \<le> x" if "in_range a n x" for x
    using in_range_ge [OF r that] assms(4) by simp
  then show ?thesis
    using assms(2) unfolding gd_guard_def gm_map_ok(2) [OF assms(1,3)] by simp
qed

lemma gd_guard_sub:
  assumes "gd_guard m" and "\<And>x. gm_page_at m' x \<noteq> None \<Longrightarrow> gm_page_at m x \<noteq> None"
  shows "gd_guard m'"
  using assms by (simp add: gd_guard_def)

section \<open>What the calls do\<close>

text \<open>The argument test of \<open>gd_mmap\<close>.\<close>

definition gd_mmap_args :: "u64 \<Rightarrow> u32 \<Rightarrow> u32 \<Rightarrow> int \<Rightarrow> u64 \<Rightarrow> bool" where
  "gd_mmap_args a prot flags fd offset \<longleftrightarrow>
     prot AND NOT 7 = 0 \<and> flags AND NOT 0x1813 = 0 \<and> flags AND 3 = 2 \<and> offset = 0 \<and>
     (flags AND GD_MAP_FIXED \<noteq> 0 \<longrightarrow> a mod GM_PAGE_SIZE = 0) \<and>
     flags AND GD_MAP_ANON \<noteq> 0 \<and> fd = -1"

text \<open>The address it maps: the argument when fixed, otherwise what \<open>gm_find_free\<close> finds from
  the rounded hint on.\<close>

definition gd_mmap_hint :: "u64 \<Rightarrow> u64" where
  "gd_mmap_hint a = (if page_base a < 0x100000000 then 0x200000000 else page_base a)"

lemma gd_mmap_ok:
  assumes eq: "gd_mmap d a n prot flags fd offset ok = (b, d')" and b: "b \<noteq> UINT64_MAX"
  shows "\<exists>sz m'. rounded n = Some sz \<and> gd_mmap_args a prot flags fd offset \<and> 0x100000000 \<le> b \<and>
    (if flags AND GD_MAP_FIXED \<noteq> 0 then b = a
     else gm_find_free (d_memory d) (gd_mmap_hint a) sz = (GM_OK, Some b)) \<and>
    gm_map (d_memory d) b sz prot 7 (flags AND GD_MAP_JIT \<noteq> 0) (flags AND GD_MAP_FIXED \<noteq> 0) ok
      = (GM_OK, m') \<and> d' = d\<lparr>d_memory := m'\<rparr>"
proof (cases "rounded n")
  case None
  then show ?thesis using eq b by (simp add: gd_mmap_def)
next
  case (Some sz)
  have args: "gd_mmap_args a prot flags fd offset"
    using eq b Some by (auto simp: gd_mmap_def gd_mmap_args_def Let_def split: if_splits)
  note run = eq [unfolded gd_mmap_def Some option.case Let_def]
  obtain r m' where map: "gm_map (d_memory d) b sz prot 7 (flags AND GD_MAP_JIT \<noteq> 0)
      (flags AND GD_MAP_FIXED \<noteq> 0) ok = (r, m')" by fastforce
  have find: "fst (gm_find_free m h sz) = GM_OK \<longleftrightarrow> snd (gm_find_free m h sz) \<noteq> None" for m h
    by (simp add: gm_find_free_def split: option.splits)
  show ?thesis
  proof (cases "flags AND GD_MAP_FIXED \<noteq> 0")
    case True
    then show ?thesis
      using run args map b Some by (auto simp: gd_mmap_args_def gd_result_def split: if_splits prod.splits)
  next
    case False
    obtain r0 f where ff: "gm_find_free (d_memory d) (gd_mmap_hint a) sz = (r0, f)" by fastforce
    then show ?thesis
      using run args map b Some False find [of "d_memory d" "gd_mmap_hint a"]
      by (auto simp: gd_mmap_args_def gd_mmap_hint_def page_base_def gd_result_def
          split: if_splits prod.splits)
  qed
qed

text \<open>A failing call sets the error and leaves the address space alone.\<close>

lemma gm_map_max_invalid: "fst (gm_map m UINT64_MAX n prot maxprot jit replace ok) \<noteq> GM_OK"
proof -
  have "\<not> gm_range UINT64_MAX n" by (simp add: gm_range_def)
  then show ?thesis by (simp add: gm_map_def)
qed

lemma gd_mmap_failed:
  assumes "gd_mmap d a n prot flags fd offset ok = (UINT64_MAX, d')"
  shows "d' = d\<lparr>d_error := d_error d'\<rparr>"
proof (cases "rounded n")
  case None
  then show ?thesis using assms by (auto simp: gd_mmap_def)
next
  case (Some sz)
  have keep: "d\<lparr>d_memory := m'\<rparr> = d" if "gm_map (d_memory d) x sz prot 7 jit rep ok = (r, m')" "r \<noteq> GM_OK"
    for x jit rep r m'
    using gm_map_error [OF that] by simp
  have max: "gm_map (d_memory d) UINT64_MAX sz prot 7 jit rep ok \<noteq> (GM_OK, m')" for jit rep m'
    using gm_map_max_invalid [of "d_memory d" sz prot 7 jit rep ok] by auto
  show ?thesis
    using assms Some keep max
    by (auto simp: gd_mmap_def Let_def gd_result_def split: if_splits prod.splits)
qed

lemma gd_mprotect_failed:
  assumes "gd_mprotect d a n prot = (r, d')" and "r \<noteq> 0"
  shows "d' = d\<lparr>d_error := d_error d'\<rparr>"
proof -
  have keep: "d\<lparr>d_memory := m'\<rparr> = d" if "gm_protect (d_memory d) a sz prot = (r, m')" "r \<noteq> GM_OK"
    for sz r m'
    using gm_protect_error [of "d_memory d" a sz prot] that by simp
  show ?thesis
    using assms keep by (auto simp: gd_mprotect_def gd_result_def split: option.splits prod.splits if_splits)
qed

lemma gd_munmap_failed:
  assumes "gd_munmap d a n = (r, d')" and "r \<noteq> 0"
  shows "d' = d\<lparr>d_error := d_error d'\<rparr>"
  using assms
  by (auto simp: gd_munmap_def gd_result_def gm_unmap_def Let_def split: option.splits prod.splits if_splits)

text \<open>Every call keeps the invariant.\<close>

lemma gd_wf_error [simp]: "gd_wf (d\<lparr>d_error := e\<rparr>) = gd_wf d"
  by (simp add: gd_wf_def)

lemma gd_wf_mmap:
  assumes wf: "gd_wf d" and eq: "gd_mmap d a n prot flags fd offset ok = (b, d')"
  shows "gd_wf d'"
proof (cases "b = UINT64_MAX")
  case True
  then have "d' = d\<lparr>d_error := d_error d'\<rparr>" using gd_mmap_failed eq by simp
  then show ?thesis using wf by (metis gd_wf_error)
next
  case False
  then obtain sz m' where "0x100000000 \<le> b" "d' = d\<lparr>d_memory := m'\<rparr>"
    "gm_map (d_memory d) b sz prot 7 (flags AND GD_MAP_JIT \<noteq> 0) (flags AND GD_MAP_FIXED \<noteq> 0) ok = (GM_OK, m')"
    using gd_mmap_ok [OF eq] by blast
  then show ?thesis
    using wf gm_map_ok(1) gd_guard_map unfolding gd_wf_def by simp blast
qed

lemma gd_wf_mprotect:
  assumes wf: "gd_wf d" and eq: "gd_mprotect d a n prot = (r, d')"
  shows "gd_wf d'"
proof (cases "r = 0")
  case False
  then have "d' = d\<lparr>d_error := d_error d'\<rparr>" using gd_mprotect_failed [OF eq] by simp
  then show ?thesis using wf by (metis gd_wf_error)
next
  case True
  then obtain sz m' where p: "gm_protect (d_memory d) a sz prot = (GM_OK, m')" "d' = d\<lparr>d_memory := m'\<rparr>"
    using eq by (auto simp: gd_mprotect_def gd_result_def split: option.splits prod.splits if_splits)
  have "gm_wf (d_memory d)" using wf by (simp add: gd_wf_def)
  note ok = gm_protect_ok [OF this p(1)]
  have "gm_page_at (d_memory d) x \<noteq> None" if "gm_page_at m' x \<noteq> None" for x
    using that unfolding ok(2) by (simp split: if_splits)
  moreover have "gd_guard (d_memory d)" using wf by (simp add: gd_wf_def)
  ultimately have "gd_guard m'" by (rule gd_guard_sub [rotated])
  then show ?thesis using ok(1) p(2) by (simp add: gd_wf_def)
qed

lemma gd_wf_munmap:
  assumes wf: "gd_wf d" and eq: "gd_munmap d a n = (r, d')"
  shows "gd_wf d'"
proof (cases "r = 0")
  case False
  then have "d' = d\<lparr>d_error := d_error d'\<rparr>" using gd_munmap_failed [OF eq] by simp
  then show ?thesis using wf by (metis gd_wf_error)
next
  case True
  then obtain sz m' where u: "gm_unmap (d_memory d) a sz = (GM_OK, m')" "d' = d\<lparr>d_memory := m'\<rparr>"
    using eq by (auto simp: gd_munmap_def gd_result_def split: option.splits prod.splits if_splits)
  then have r: "gm_range a sz" by (auto simp: gm_unmap_def split: if_splits)
  have "gm_wf (d_memory d)" using wf by (simp add: gd_wf_def)
  note ok = gm_unmap_ok [OF this r]
  have m': "m' = snd (gm_unmap (d_memory d) a sz)" using u by simp
  have "gm_page_at (d_memory d) x \<noteq> None" if "gm_page_at m' x \<noteq> None" for x
    using that unfolding m' ok(3) by (simp split: if_splits)
  moreover have "gd_guard (d_memory d)" using wf by (simp add: gd_wf_def)
  ultimately have "gd_guard m'" by (rule gd_guard_sub [rotated])
  then show ?thesis using ok(2) u(2) m' by (simp add: gd_wf_def)
qed

lemma gd_wf_jit: "gd_wf d \<Longrightarrow> gd_wf (gd_jit_write_protect d e)"
  by (simp add: gd_wf_def gd_jit_write_protect_def)

section \<open>Properties\<close>

text \<open>One call of the interface, and the states a process can reach.\<close>

inductive gd_step :: "DarwinMemory \<Rightarrow> DarwinMemory \<Rightarrow> bool" where
  mmap: "gd_step d (snd (gd_mmap d a n prot flags fd offset ok))"
| mprotect: "gd_step d (snd (gd_mprotect d a n prot))"
| munmap: "gd_step d (snd (gd_munmap d a n))"
| jit: "gd_step d (gd_jit_write_protect d e)"

inductive gd_reachable :: "DarwinMemory \<Rightarrow> bool" where
  init: "gd_reachable \<lparr>d_memory = gm_destroy m, d_thread = t, d_error = 0\<rparr>"
| step: "gd_reachable d \<Longrightarrow> gd_step d d' \<Longrightarrow> gd_reachable d'"

lemma gd_step_wf: "gd_step d d' \<Longrightarrow> gd_wf d \<Longrightarrow> gd_wf d'"
proof (induction rule: gd_step.induct)
  case (mmap d a n prot flags fd offset ok)
  then show ?case using gd_wf_mmap [OF _ prod.collapse [symmetric]] by blast
next
  case (mprotect d a n prot)
  then show ?case using gd_wf_mprotect [OF _ prod.collapse [symmetric]] by blast
next
  case (munmap d a n)
  then show ?case using gd_wf_munmap [OF _ prod.collapse [symmetric]] by blast
next
  case (jit d e)
  then show ?case by (rule gd_wf_jit)
qed

lemma gd_reachable_wf: "gd_reachable d \<Longrightarrow> gd_wf d"
proof (induction rule: gd_reachable.induct)
  case (init m t)
  then show ?case
    by (simp add: gd_wf_def gd_guard_def gm_wf_def gm_destroy_def gm_sorted_def gm_page_at_def gm_tab_def)
next
  case (step d d')
  then show ?case using gd_step_wf by blast
qed

text \<open>C16. The low-address guard holds: whatever sequence of \<open>gd_mmap\<close> (fixed or not),
  \<open>gd_mprotect\<close>, \<open>gd_munmap\<close> and \<open>gd_jit_write_protect\<close> calls a process makes, no address
  below 4 GiB is ever mapped, and the page table keeps its invariant.\<close>

theorem gd_low_guard:
  assumes "gd_reachable d" and "unat x < 2 ^ 32"
  shows "gm_page_at (d_memory d) x = None \<and> gm_wf (d_memory d)"
proof -
  have wf: "gd_wf d" by (rule gd_reachable_wf [OF assms(1)])
  have "\<not> 0x100000000 \<le> x" using assms(2) by (simp add: word_le_nat_alt)
  then show ?thesis using wf by (auto simp: gd_wf_def gd_guard_def)
qed

theorem gd_low_guard_witness:
  "gm_page_at (d_memory (snd (gd_mmap \<lparr>d_memory = gm_destroy gm_sample,
      d_thread = \<lparr>jit_write_protected = False\<rparr>, d_error = 0\<rparr> 0x4000 1 3 0x1012 (-1) 0 True))) 0x4000 = None"
  by (rule gd_low_guard [THEN conjunct1], rule gd_reachable.step, rule gd_reachable.init, rule gd_step.mmap)
    simp

text \<open>\<open>gd_mmap\<close>: on success the returned range, rounded up to pages, lies above the guard and
  holds fresh zero pages with the requested protection, every other page is untouched, and without
  \<open>MAP_FIXED\<close> no mapped page was inside the range, so nothing is ever replaced silently; on
  failure only \<open>errno\<close> changes.\<close>

theorem gd_mmap_correct:
  assumes "gd_wf d" and "gd_mmap d a n prot flags fd offset ok = (b, d')"
  shows "(b = UINT64_MAX \<longrightarrow> d' = d\<lparr>d_error := d_error d'\<rparr>) \<and>
    (b \<noteq> UINT64_MAX \<longrightarrow> (\<exists>sz. rounded n = Some sz \<and> page_aligned b \<and> 0x100000000 \<le> b \<and>
      unat n \<le> unat sz \<and> unat b + unat sz < 2 ^ 64 \<and> d_error d' = d_error d \<and>
      (flags AND GD_MAP_FIXED = 0 \<longrightarrow> (\<forall>x. in_range b sz x \<longrightarrow> gm_page_at (d_memory d) x = None)) \<and>
      (flags AND GD_MAP_FIXED \<noteq> 0 \<longrightarrow> b = a) \<and>
      (\<forall>x. gm_page_at (d_memory d') x =
        (if in_range b sz x then Some (gm_new_page (page_base x) prot 7 (flags AND GD_MAP_JIT \<noteq> 0))
         else gm_page_at (d_memory d) x))))"
proof -
  have wf: "gm_wf (d_memory d)" using assms(1) by (simp add: gd_wf_def)
  have "\<exists>sz. rounded n = Some sz \<and> page_aligned b \<and> 0x100000000 \<le> b \<and>
      unat n \<le> unat sz \<and> unat b + unat sz < 2 ^ 64 \<and> d_error d' = d_error d \<and>
      (flags AND GD_MAP_FIXED = 0 \<longrightarrow> (\<forall>x. in_range b sz x \<longrightarrow> gm_page_at (d_memory d) x = None)) \<and>
      (flags AND GD_MAP_FIXED \<noteq> 0 \<longrightarrow> b = a) \<and>
      (\<forall>x. gm_page_at (d_memory d') x =
        (if in_range b sz x then Some (gm_new_page (page_base x) prot 7 (flags AND GD_MAP_JIT \<noteq> 0))
         else gm_page_at (d_memory d) x))" if b: "b \<noteq> UINT64_MAX"
  proof -
    obtain sz m' where m: "rounded n = Some sz" "0x100000000 \<le> b"
      "flags AND GD_MAP_FIXED \<noteq> 0 \<longrightarrow> b = a" "d' = d\<lparr>d_memory := m'\<rparr>"
      "gm_map (d_memory d) b sz prot 7 (flags AND GD_MAP_JIT \<noteq> 0) (flags AND GD_MAP_FIXED \<noteq> 0) ok = (GM_OK, m')"
      using gd_mmap_ok [OF assms(2) b] by auto
    have r: "gm_range b sz" using m(5) by (auto simp: gm_map_def split: if_splits)
    have free: "gm_page_at (d_memory d) x = None" if "flags AND GD_MAP_FIXED = 0" "in_range b sz x" for x
    proof (rule ccontr)
      assume "gm_page_at (d_memory d) x \<noteq> None"
      moreover have "gm_map_args_ok b sz prot 7"
        using m(5) by (auto simp: gm_map_def gm_map_args_ok_def split: if_splits)
      ultimately have "fst (gm_map (d_memory d) b sz prot 7 (flags AND GD_MAP_JIT \<noteq> 0) False ok) = GM_OVERLAP"
        using gm_map_overlap [OF wf] that(2) by blast
      then show False using m(5) that(1) by simp
    qed
    note ok = gm_map_ok [OF wf m(5)]
    show ?thesis
      using m free rounded_Some(2) [OF m(1)] gm_range_facts [OF r] ok(2)
      by (intro exI [of _ sz]) (simp add: page_aligned_iff)
  qed
  then show ?thesis using gd_mmap_failed assms(2) by blast
qed

definition gd_sample :: DarwinMemory where
  "gd_sample = \<lparr>d_memory = gm_destroy gm_sample, d_thread = \<lparr>jit_write_protected = True\<rparr>, d_error = 0\<rparr>"

lemma gd_sample_wf: "gd_wf gd_sample"
  unfolding gd_sample_def by (rule gd_reachable_wf [OF gd_reachable.init])

theorem gd_mmap_correct_witness:
  "fst (gd_mmap gd_sample 0 1 3 0x1002 (-1) 0 True) = 0x200000000 \<and>
   (\<exists>sz. rounded 1 = Some sz \<and>
     (\<forall>x. gm_page_at (d_memory (snd (gd_mmap gd_sample 0 1 3 0x1002 (-1) 0 True))) x =
        (if in_range 0x200000000 sz x then Some (gm_new_page (page_base x) 3 7 False)
         else gm_page_at (d_memory gd_sample) x)))"
proof -
  have low: "gm_lower [] a = 0" for a by (simp add: gm_lower_def gm_bisect.simps)
  have ok: "fst (gd_mmap gd_sample 0 1 3 0x1002 (-1) 0 True) = 0x200000000"
    by (simp add: gd_mmap_def rounded_def gd_sample_def gm_destroy_def gm_find_free_def gm_range_def
        gm_map_def gd_result_def Let_def low)
  show ?thesis
    using gd_mmap_correct [OF gd_sample_wf prod.collapse [symmetric], of 0 1 3 "0x1002" "-1" 0 True] ok
    by auto
qed

text \<open>A JIT page is never writable and executable at once for a thread: with its write
  protection on, \<open>gd_jit_write_protect\<close> makes every JIT page of the process unwritable to the
  thread, with it off every JIT page is not executable by it, whatever the page protection.\<close>

theorem gd_jit_exclusive:
  assumes "gm_attr (d_memory d) x = Some (prot, maxprot, True)"
  shows "\<not> gm_allowed (d_memory (gd_jit_write_protect d True)) (Some (d_thread (gd_jit_write_protect d True)))
      GM_WRITE x \<and>
    \<not> gm_allowed (d_memory (gd_jit_write_protect d False)) (Some (d_thread (gd_jit_write_protect d False)))
      GM_EXEC x"
  using assms by (simp add: gd_jit_write_protect_def gm_allowed_attr gm_page_denied_def gm_jit_denied_def)

theorem gd_jit_exclusive_witness:
  "\<not> gm_allowed gm_sample (Some \<lparr>jit_write_protected = True\<rparr>) GM_WRITE 0x100004000"
proof -
  have "gm_attr gm_sample 0x100004000 = Some (7, 7, True)" by code_simp
  then show ?thesis
    using gd_jit_exclusive [of "gd_sample\<lparr>d_memory := gm_sample\<rparr>" "0x100004000"]
    by (simp add: gd_jit_write_protect_def gd_sample_def)
qed

end
