(* ===== verification/GuestCPU.thy ===== *)
theory GuestCPU
  imports GuestMemoryAccess
begin

text \<open>
  The interpreter of \<open>runtime/GuestCPU.c\<close>: the decoder of the supported AArch64
  instructions, the register and control-flow instructions, and the run loop with its cache of
  decoded instructions.

  Register arrays are functions from the register number. The \<open>uint8_t\<close> fields of a decoded
  instruction are naturals: every value the decoder stores in them is masked below 256.
\<close>

section \<open>State\<close>

datatype GCOp = INVALID | NOP | WIDE | ADD_IMM | ADD_REG | LOGIC | MADD | BRANCH | BRANCH_REG
  | COND | CBZ | ADDRESS | LOAD | STORE | LOGIC_IMM | TBZ | SELECT

datatype GCResult = GC_BUDGET | GC_RETURNED | GC_UNSUPPORTED | GC_MEMORY

record GCDecoded =
  dc_pc :: u64
  dc_immediate :: u64
  dc_instruction :: u32
  dc_op :: GCOp
  dc_rd :: nat
  dc_rn :: nat
  dc_rm :: nat
  dc_ra :: nat
  dc_width :: nat
  dc_shift :: nat
  dc_amount :: nat
  dc_flags :: nat
  dc_valid :: bool

abbreviation GC_CACHE_SIZE :: u64 where "GC_CACHE_SIZE \<equiv> 4096"

record GCRegisters =
  rx :: "nat \<Rightarrow> u64"
  rsp :: u64
  rpc :: u64
  nzcv :: u8

record GuestCPU =
  cpu_registers :: GCRegisters
  cpu_retired :: u64
  cpu_thread :: GMThread
  cpu_memory_result :: GMResult
  cpu_fault_instruction :: u32
  cpu_cache_generation :: u64
  cpu_cache_write_protected :: bool
  cpu_cache :: "nat \<Rightarrow> GCDecoded"

section \<open>Registers and arithmetic\<close>

definition gc_mask :: "nat \<Rightarrow> u64" where
  "gc_mask width = (if width = 64 then UINT64_MAX else UINT32_MAX)"

definition reg :: "GCRegisters \<Rightarrow> nat \<Rightarrow> bool \<Rightarrow> u64" where
  "reg c r sp = (if r < 31 then rx c r else if sp then rsp c else 0)"

definition put :: "GCRegisters \<Rightarrow> nat \<Rightarrow> u64 \<Rightarrow> nat \<Rightarrow> bool \<Rightarrow> GCRegisters" where
  "put c r v width sp =
     (let v = v AND gc_mask width
      in if r < 31 then c\<lparr>rx := (rx c)(r := v)\<rparr> else if sp then c\<lparr>rsp := v\<rparr> else c)"

definition shifted :: "u64 \<Rightarrow> nat \<Rightarrow> nat \<Rightarrow> nat \<Rightarrow> u64" where
  "shifted v type amount width =
     (let v = v AND gc_mask width
      in if amount = 0 then v
         else if type = 0 then push_bit amount v AND gc_mask width
         else if type = 1 then drop_bit amount v
         else if type = 2 then drop_bit amount v OR
           (if drop_bit (width - 1) v \<noteq> 0
            then push_bit (width - amount) (gc_mask width) AND gc_mask width else 0)
         else (drop_bit amount v OR push_bit (width - amount) v) AND gc_mask width)"

definition condition :: "u8 \<Rightarrow> nat \<Rightarrow> bool" where
  "condition flags cond =
     (let n = flags AND 8 \<noteq> 0; z = flags AND 4 \<noteq> 0; c = flags AND 2 \<noteq> 0; v = flags AND 1 \<noteq> 0;
          k = cond div 2
      in if k = 7 then True
         else let result = (if k = 0 then z else if k = 1 then c else if k = 2 then n
                            else if k = 3 then v else if k = 4 then c \<and> \<not> z
                            else if k = 5 then n = v else \<not> z \<and> n = v)
         in if odd cond then \<not> result else result)"

text \<open>\<open>arithmetic\<close> returns the registers with the flags it sets, and the result.\<close>

definition arithmetic ::
  "GCRegisters \<Rightarrow> u64 \<Rightarrow> u64 \<Rightarrow> bool \<Rightarrow> bool \<Rightarrow> nat \<Rightarrow> GCRegisters \<times> u64" where
  "arithmetic c a b sub flags width =
     (let m = gc_mask width; sign = push_bit (width - 1) 1; a = a AND m; b = b AND m;
          result = (if sub then a - b else a + b) AND m
      in if flags then
           (let carry = (if sub then a \<ge> b else result < a);
                overflow = (if sub then a XOR b else NOT (a XOR b)) AND (a XOR result) AND sign \<noteq> 0
            in (c\<lparr>nzcv := (if result AND sign \<noteq> 0 then 8 else 0) OR (if result = 0 then 4 else 0)
                        OR (if carry then 2 else 0) OR (if overflow then 1 else 0)\<rparr>, result))
         else (c, result))"

section \<open>Decoding\<close>

text \<open>A field of an instruction word, \<open>(i >> s) & m\<close>.\<close>

definition field :: "u32 \<Rightarrow> nat \<Rightarrow> u32 \<Rightarrow> nat" where
  "field i s m = unat (drop_bit s i AND m)"

definition logical_immediate :: "u32 \<Rightarrow> nat \<Rightarrow> u64 option" where
  "logical_immediate i width =
     (let n = drop_bit 22 i AND 1; immr = field i 16 63; imms = field i 10 63;
          encoded = push_bit 6 n OR (NOT (of_nat imms) AND 63);
          len = foldl (\<lambda>l b. if encoded AND push_bit b 1 \<noteq> 0 then b else l) 0 [1..<7]
      in if len = 0 \<or> width = 32 \<and> n \<noteq> 0 then None
         else let bits = 2 ^ len; s = imms mod bits; r = immr mod bits
         in if bits > width \<or> s = bits - 1 then None
         else let element = push_bit (s + 1) 1 - 1 :: u64;
                  element = (if r \<noteq> 0 then drop_bit r element OR push_bit (bits - r) element else element);
                  element = (if bits < 64 then element AND (push_bit bits 1 - 1) else element)
         in Some (foldl (\<lambda>v k. v OR push_bit (k * bits) element) 0 [0..<(width + bits - 1) div bits]))"

definition gc_blank :: "u64 \<Rightarrow> u32 \<Rightarrow> GCDecoded" where
  "gc_blank pc i =
     \<lparr>dc_pc = pc, dc_immediate = 0, dc_instruction = i, dc_op = INVALID, dc_rd = field i 0 31,
      dc_rn = field i 5 31, dc_rm = field i 16 31, dc_ra = field i 10 31,
      dc_width = (if drop_bit 31 i \<noteq> 0 then 64 else 32), dc_shift = 0, dc_amount = 0, dc_flags = 0,
      dc_valid = True\<rparr>"

definition decode :: "u64 \<Rightarrow> u32 \<Rightarrow> GCDecoded" where
  "decode pc i =
     (let d = gc_blank pc i
      in if i = 0xd503201f then d\<lparr>dc_op := NOP\<rparr>
      else if i AND 0x1f800000 = 0x12800000 then
        (let d = d\<lparr>dc_flags := field i 29 3, dc_amount := field i 21 3 * 16\<rparr>
         in if dc_flags d \<noteq> 1 \<and> dc_amount d < dc_width d
            then d\<lparr>dc_op := WIDE, dc_immediate := push_bit (dc_amount d) (of_nat (field i 5 65535))\<rparr>
            else d)
      else if i AND 0x1f800000 = 0x11000000 then
        d\<lparr>dc_op := ADD_IMM, dc_flags := field i 29 3,
          dc_immediate := push_bit (field i 22 1 * 12) (of_nat (field i 10 4095))\<rparr>
      else if i AND 0x1f200000 = 0x0b000000 then
        (let d = d\<lparr>dc_shift := field i 22 3, dc_amount := field i 10 63, dc_flags := field i 29 3\<rparr>
         in if dc_shift d \<noteq> 3 \<and> dc_amount d < dc_width d then d\<lparr>dc_op := ADD_REG\<rparr> else d)
      else if i AND 0x1f000000 = 0x0a000000 then
        (let d = d\<lparr>dc_shift := field i 22 3, dc_amount := field i 10 63,
                   dc_flags := field i 29 3 + 4 * field i 21 1\<rparr>
         in if dc_amount d < dc_width d then d\<lparr>dc_op := LOGIC\<rparr> else d)
      else if i AND 0x1f800000 = 0x12000000 then
        (let d = d\<lparr>dc_flags := field i 29 3\<rparr>
         in case logical_immediate i (dc_width d) of
              Some v \<Rightarrow> d\<lparr>dc_immediate := v, dc_op := LOGIC_IMM\<rparr>
            | None \<Rightarrow> d)
      else if i AND 0x3fe00800 = 0x1a800000 then
        d\<lparr>dc_op := SELECT, dc_shift := field i 12 15, dc_flags := 2 * field i 30 1 + field i 10 1\<rparr>
      else if i AND 0x7fe00000 = 0x1b000000 then d\<lparr>dc_op := MADD, dc_flags := field i 15 1\<rparr>
      else if i AND 0x7c000000 = 0x14000000 then
        d\<lparr>dc_op := BRANCH, dc_flags := unat (drop_bit 31 i),
          dc_immediate := pc + sign_extend (of_nat (field i 0 0x3ffffff)) 26 * 4\<rparr>
      else if i AND 0xfffffc1f = 0xd61f0000 \<or> i AND 0xfffffc1f = 0xd63f0000
              \<or> i AND 0xfffffc1f = 0xd65f0000 then
        d\<lparr>dc_op := BRANCH_REG, dc_flags := (if i AND 0xfffffc1f = 0xd63f0000 then 1 else 0)\<rparr>
      else if i AND 0xff000010 = 0x54000000 then
        d\<lparr>dc_op := COND, dc_flags := field i 0 15,
          dc_immediate := pc + sign_extend (of_nat (field i 5 0x7ffff)) 19 * 4\<rparr>
      else if i AND 0x7e000000 = 0x34000000 then
        d\<lparr>dc_op := CBZ, dc_flags := field i 24 1,
          dc_immediate := pc + sign_extend (of_nat (field i 5 0x7ffff)) 19 * 4\<rparr>
      else if i AND 0x7e000000 = 0x36000000 then
        d\<lparr>dc_op := TBZ, dc_flags := field i 24 1,
          dc_amount := 32 * unat (drop_bit 31 i) + field i 19 31,
          dc_immediate := pc + sign_extend (of_nat (field i 5 0x3fff)) 14 * 4\<rparr>
      else if i AND 0x1f000000 = 0x10000000 then
        (let offset = sign_extend (of_nat (field i 5 0x7ffff) * 4 + of_nat (field i 29 3)) 21
         in d\<lparr>dc_op := ADDRESS, dc_width := 64,
              dc_immediate := (if drop_bit 31 i \<noteq> 0 then (pc AND NOT 4095) + offset * 4096
                               else pc + offset)\<rparr>)
      else if i AND 0x3b000000 = 0x39000000 \<and> i AND push_bit 26 1 = 0 then
        (let opc = field i 22 3; amount = 2 ^ unat (drop_bit 30 i)
         in if opc \<le> 1
            then d\<lparr>dc_op := (if opc \<noteq> 0 then LOAD else STORE), dc_amount := amount,
                   dc_width := (if amount = 8 then 64 else 32),
                   dc_immediate := of_nat (field i 10 4095) * of_nat amount\<rparr>
            else d)
      else d)"

section \<open>Execution\<close>

text \<open>The register and control-flow instructions; \<open>False\<close> for one that is not supported.\<close>

definition gc_write_back ::
  "GCRegisters \<Rightarrow> GCDecoded \<Rightarrow> u64 \<Rightarrow> bool \<Rightarrow> u64 \<Rightarrow> bool \<times> GCRegisters" where
  "gc_write_back c d v sp next = (True, (put c (dc_rd d) v (dc_width d) sp)\<lparr>rpc := next\<rparr>)"

definition gc_link :: "GCRegisters \<Rightarrow> GCDecoded \<Rightarrow> GCRegisters" where
  "gc_link c d = (if dc_flags d \<noteq> 0 then c\<lparr>rx := (rx c)(30 := rpc c + 4)\<rparr> else c)"

text \<open>The body shared by the two logical forms: the result, and the flags when the operation
  sets them.\<close>

definition gc_logic :: "GCRegisters \<Rightarrow> u64 \<Rightarrow> u64 \<Rightarrow> nat \<Rightarrow> nat \<Rightarrow> GCRegisters \<times> u64" where
  "gc_logic c a b op width =
     (let v = (if op = 1 then a OR b else if op = 2 then a XOR b else a AND b) AND gc_mask width
      in (if op = 3
          then c\<lparr>nzcv := (if drop_bit (width - 1) v \<noteq> 0 then 8 else 0) OR (if v = 0 then 4 else 0)\<rparr>
          else c, v))"

definition register_decoded :: "GCRegisters \<Rightarrow> GCDecoded \<Rightarrow> bool \<times> GCRegisters" where
  "register_decoded c d =
     (let next = rpc c + 4; rd = dc_rd d; rn = dc_rn d; rm = dc_rm d; ra = dc_ra d;
          flags = dc_flags d; width = dc_width d; op = dc_op d
      in case op of
        NOP \<Rightarrow> (True, c\<lparr>rpc := next\<rparr>)
      | WIDE \<Rightarrow>
          gc_write_back c d
            (if flags = 0 then NOT (dc_immediate d)
             else if flags = 2 then dc_immediate d
             else (reg c rd False AND NOT (push_bit (dc_amount d) 65535)) OR dc_immediate d) False next
      | ADD_IMM \<Rightarrow>
          (let (c', v) = arithmetic c (reg c rn True) (dc_immediate d)
                           (flags AND 2 \<noteq> 0) (flags AND 1 \<noteq> 0) width
           in gc_write_back c' d v (flags AND 1 = 0) next)
      | ADD_REG \<Rightarrow>
          (let (c', v) = arithmetic c (reg c rn False)
                           (shifted (reg c rm False) (dc_shift d) (dc_amount d) width)
                           (flags AND 2 \<noteq> 0) (flags AND 1 \<noteq> 0) width
           in gc_write_back c' d v False next)
      | LOGIC \<Rightarrow>
          (let a = reg c rn False;
               b = shifted (reg c rm False) (dc_shift d) (dc_amount d) width;
               b = (if flags AND 4 \<noteq> 0 then NOT b else b);
               (c', v) = gc_logic c a b (flags AND 3) width
           in gc_write_back c' d v False next)
      | LOGIC_IMM \<Rightarrow>
          (let (c', v) = gc_logic c (reg c rn False) (dc_immediate d) (flags AND 3) width
           in gc_write_back c' d v (flags AND 3 \<noteq> 3) next)
      | SELECT \<Rightarrow>
          (let b = reg c rm False
           in gc_write_back c d
                (if condition (nzcv c) (dc_shift d) then reg c rn False
                 else if flags = 0 then b else if flags = 1 then b + 1
                 else if flags = 2 then NOT b else 0 - b) False next)
      | MADD \<Rightarrow>
          (let v = reg c rn False * reg c rm False
           in gc_write_back c d
                (if flags \<noteq> 0 then reg c ra False - v else reg c ra False + v) False next)
      | BRANCH \<Rightarrow> (True, (gc_link c d)\<lparr>rpc := dc_immediate d\<rparr>)
      | BRANCH_REG \<Rightarrow> (True, (gc_link c d)\<lparr>rpc := reg c rn False\<rparr>)
      | COND \<Rightarrow> (True, c\<lparr>rpc := (if condition (nzcv c) flags then dc_immediate d else next)\<rparr>)
      | CBZ \<Rightarrow>
          (True, c\<lparr>rpc := (if (reg c rd False AND gc_mask width \<noteq> 0) = (flags \<noteq> 0)
                          then dc_immediate d else next)\<rparr>)
      | TBZ \<Rightarrow>
          (True, c\<lparr>rpc := (if drop_bit (dc_amount d) (reg c rd False) AND 1 = of_nat flags
                          then dc_immediate d else next)\<rparr>)
      | ADDRESS \<Rightarrow> gc_write_back c d (dc_immediate d) False next
      | _ \<Rightarrow> (False, c))"

definition gc_register_step :: "GCRegisters option \<Rightarrow> u32 \<Rightarrow> bool \<times> GCRegisters option" where
  "gc_register_step r i =
     (case r of
        None \<Rightarrow> (False, None)
      | Some c \<Rightarrow>
          if rpc c AND 3 \<noteq> 0 \<or> rpc c > UINT64_MAX - 4 then (False, Some c)
          else let (ok, c') = register_decoded c (decode (rpc c) i) in (ok, Some c'))"

definition gc_empty :: GCDecoded where
  "gc_empty =
     \<lparr>dc_pc = 0, dc_immediate = 0, dc_instruction = 0, dc_op = INVALID, dc_rd = 0, dc_rn = 0,
      dc_rm = 0, dc_ra = 0, dc_width = 0, dc_shift = 0, dc_amount = 0, dc_flags = 0, dc_valid = False\<rparr>"

text \<open>\<open>gc_reset\<close> overwrites the whole processor.\<close>

definition gc_reset :: "u64 \<Rightarrow> u64 \<Rightarrow> GuestCPU" where
  "gc_reset entry stack =
     \<lparr>cpu_registers = \<lparr>rx = (\<lambda>_. 0), rsp = stack, rpc = entry, nzcv = 0\<rparr>, cpu_retired = 0,
      cpu_thread = \<lparr>jit_write_protected = True\<rparr>, cpu_memory_result = GM_OK,
      cpu_fault_instruction = 0, cpu_cache_generation = 0, cpu_cache_write_protected = False,
      cpu_cache = (\<lambda>_. gc_empty)\<rparr>"

text \<open>The load or store of a decoded instruction. \<open>calloc\<close> is the allocator of the store.\<close>

definition gc_access ::
  "GuestCPU \<Rightarrow> GuestMemory \<Rightarrow> GCDecoded \<Rightarrow> (nat \<Rightarrow> bool) \<Rightarrow> bool \<times> GuestCPU \<times> GuestMemory" where
  "gc_access c m d calloc =
     (let rs = cpu_registers c; a = reg rs (dc_rn d) True + dc_immediate d; n = dc_amount d;
          bytes = replicate 8 0
      in if dc_op d = STORE then
           (let bytes = scalar_bytes (reg rs (dc_rd d) False) n @ drop n bytes;
                (r, m') = gm_write m (Some (cpu_thread c)) a (Some bytes) (of_nat n) calloc;
                c = c\<lparr>cpu_memory_result := r\<rparr>
            in if r \<noteq> GM_OK then (False, c, m')
               else (True, c\<lparr>cpu_registers := rs\<lparr>rpc := rpc rs + 4\<rparr>\<rparr>, m'))
         else
           (let (r, m', b) = gm_read m a (Some bytes) (of_nat n);
                v = scalar_value (the b) n;
                c = c\<lparr>cpu_memory_result := r\<rparr>
            in if r \<noteq> GM_OK then (False, c, m')
               else (True, c\<lparr>cpu_registers := (put rs (dc_rd d) v (dc_width d) False)
                        \<lparr>rpc := rpc rs + 4\<rparr>\<rparr>, m')))"

text \<open>The rest of one iteration, once the instruction is decoded: a load or store, or a register
  instruction. \<open>None\<close> when the loop goes on.\<close>

definition gc_execute ::
  "GuestCPU \<Rightarrow> GuestMemory \<Rightarrow> GCDecoded \<Rightarrow> (nat \<Rightarrow> bool) \<Rightarrow> GCResult option \<times> GuestCPU \<times> GuestMemory" where
  "gc_execute c m d calloc =
     (if dc_op d = LOAD \<or> dc_op d = STORE then
        (let (ok, c', m') = gc_access c m d calloc
         in if \<not> ok then (Some GC_MEMORY, c', m')
            else (None, c'\<lparr>cpu_retired := cpu_retired c' + 1\<rparr>, m'))
      else
        (let (ok, rs) = register_decoded (cpu_registers c) d
         in if \<not> ok then (Some GC_UNSUPPORTED, c\<lparr>cpu_fault_instruction := dc_instruction d\<rparr>, m)
            else (None, c\<lparr>cpu_registers := rs, cpu_retired := cpu_retired c + 1\<rparr>, m)))"

definition gc_cache_index :: "u64 \<Rightarrow> nat" where
  "gc_cache_index pc = unat (drop_bit 2 pc AND (GC_CACHE_SIZE - 1))"

text \<open>The cache is emptied when the code generation or the thread's write protection changed.\<close>

definition gc_refresh :: "GuestCPU \<Rightarrow> GuestMemory \<Rightarrow> GuestCPU" where
  "gc_refresh c m =
     (if cpu_cache_generation c \<noteq> gm_code_generation m
         \<or> cpu_cache_write_protected c \<noteq> jit_write_protected (cpu_thread c)
      then c\<lparr>cpu_cache := (\<lambda>_. gc_empty), cpu_cache_generation := gm_code_generation m,
             cpu_cache_write_protected := jit_write_protected (cpu_thread c)\<rparr>
      else c)"

definition gc_step ::
  "GuestCPU \<Rightarrow> GuestMemory \<Rightarrow> (nat \<Rightarrow> bool) \<Rightarrow> u64 \<Rightarrow> GCResult option \<times> GuestCPU \<times> GuestMemory" where
  "gc_step c m calloc return_pc =
     (if rpc (cpu_registers c) = return_pc then (Some GC_RETURNED, c, m)
      else
        let c = gc_refresh c m; pc = rpc (cpu_registers c); k = gc_cache_index pc; d = cpu_cache c k
        in if \<not> dc_valid d \<or> dc_pc d \<noteq> pc then
             (let (r, m, i) = gm_fetch m (Some (cpu_thread c)) pc True;
                  c = c\<lparr>cpu_memory_result := r\<rparr>
              in if r \<noteq> GM_OK then (Some GC_MEMORY, c, m)
                 else let d = decode pc (the i);
                          c = c\<lparr>cpu_cache := (cpu_cache c)(k := d)\<rparr>
                      in gc_execute c m d calloc)
           else gc_execute c m d calloc)"

text \<open>The loop; \<open>callocs\<close> gives the allocator of each step still to run.\<close>

primrec gc_loop ::
  "nat \<Rightarrow> GuestCPU \<Rightarrow> GuestMemory \<Rightarrow> (nat \<Rightarrow> nat \<Rightarrow> bool) \<Rightarrow> u64 \<Rightarrow> GCResult \<times> GuestCPU \<times> GuestMemory"
where
  "gc_loop 0 c m callocs return_pc =
     (if rpc (cpu_registers c) = return_pc then GC_RETURNED else GC_BUDGET, c, m)"
| "gc_loop (Suc k) c m callocs return_pc =
     (case gc_step c m (callocs k) return_pc of
        (Some r, c', m') \<Rightarrow> (r, c', m')
      | (None, c', m') \<Rightarrow> gc_loop k c' m' callocs return_pc)"

definition gc_run ::
  "GuestCPU \<Rightarrow> GuestMemory \<Rightarrow> u64 \<Rightarrow> (nat \<Rightarrow> nat \<Rightarrow> bool) \<Rightarrow> u64 \<Rightarrow> GCResult \<times> GuestCPU \<times> GuestMemory" where
  "gc_run c m budget callocs return_pc = gc_loop (unat budget) c m callocs return_pc"

definition gc_result_string :: "GCResult \<Rightarrow> string" where
  "gc_result_string r =
     (case r of GC_BUDGET \<Rightarrow> ''instruction budget reached''
      | GC_RETURNED \<Rightarrow> ''returned''
      | GC_UNSUPPORTED \<Rightarrow> ''unsupported instruction''
      | GC_MEMORY \<Rightarrow> ''guest memory fault'')"

end
