(* ===== verification/GuestCPUArithmetic.thy ===== *)
theory GuestCPUArithmetic
  imports GuestCPU
begin

text \<open>
  What the arithmetic of \<open>GuestCPU.c\<close> computes: the result and the four flags of an addition or
  subtraction at 32 and 64 bits, the comparisons the condition codes decide after a subtraction,
  the shifts and rotations of a register operand, and the bit pattern of a logical immediate.
\<close>

section \<open>Words of the instruction width\<close>

text \<open>The unsigned and the signed value of an operand at the width.\<close>

definition uval :: "nat \<Rightarrow> u64 \<Rightarrow> int" where
  "uval w a = uint (a AND gc_mask w)"

definition sval :: "nat \<Rightarrow> u64 \<Rightarrow> int" where
  "sval w a = (if uval w a < 2 ^ (w - 1) then uval w a else uval w a - 2 ^ w)"

abbreviation gc_width :: "nat \<Rightarrow> bool" where
  "gc_width w \<equiv> w = 32 \<or> w = 64"

lemma gc_mask_eq: "gc_width w \<Longrightarrow> gc_mask w = mask w"
  by (auto simp: gc_mask_def mask_eq_exp_minus_1)

lemma and_gc_mask: "gc_width w \<Longrightarrow> a AND gc_mask w = take_bit w a"
  by (simp add: gc_mask_eq take_bit_eq_mask)

lemma uval_take_bit: "gc_width w \<Longrightarrow> uval w a = take_bit w (uint a)"
  by (simp add: uval_def and_gc_mask unsigned_take_bit_eq)

lemma uval_bounds: "gc_width w \<Longrightarrow> 0 \<le> uval w a" "gc_width w \<Longrightarrow> uval w a < 2 ^ w"
  by (simp_all add: uval_take_bit)

lemma bit_top:
  assumes "gc_width w"
  shows "bit (a AND gc_mask w) (w - 1) \<longleftrightarrow> 2 ^ (w - 1) \<le> uval w a"
proof -
  have k: "0 \<le> uval w a" "uval w a < 2 ^ w" using assms by (rule uval_bounds)+
  have "bit (a AND gc_mask w) (w - 1) \<longleftrightarrow> bit (uval w a) (w - 1)"
    by (simp add: uval_def bit_unsigned_iff)
  also have "\<dots> \<longleftrightarrow> odd (uval w a div 2 ^ (w - 1))" by (simp add: bit_iff_odd)
  also have "\<dots> \<longleftrightarrow> 2 ^ (w - 1) \<le> uval w a"
  proof (cases "2 ^ (w - 1) \<le> uval w a")
    case True
    have "uval w a div 2 ^ (w - 1) = 1"
      using True k assms by (intro int_div_pos_eq [where r = "uval w a - 2 ^ (w - 1)"]) auto
    then show ?thesis using True by simp
  next
    case False
    then show ?thesis using k by simp
  qed
  finally show ?thesis .
qed

lemma uval_arith:
  assumes "gc_width w"
  shows "uval w (a + b) = (uval w a + uval w b) mod 2 ^ w"
    and "uval w (a - b) = (uval w a - uval w b) mod 2 ^ w"
proof -
  have le: "w \<le> 64" using assms by auto
  have u: "uval w x = uint x mod 2 ^ w" for x
    using assms by (simp add: uval_take_bit take_bit_eq_mod)
  have m: "(k mod 2 ^ 64) mod 2 ^ w = k mod 2 ^ w" for k :: int
    using le by (intro mod_mod_cancel le_imp_power_dvd)
  have "uint (a + b) = (uint a + uint b) mod 2 ^ 64" "uint (a - b) = (uint a - uint b) mod 2 ^ 64"
    by (simp_all add: uint_word_ariths)
  then show "uval w (a + b) = (uval w a + uval w b) mod 2 ^ w"
    and "uval w (a - b) = (uval w a - uval w b) mod 2 ^ w"
    unfolding u by (simp_all only: m mod_add_eq mod_diff_eq)
qed

lemma uval_masked [simp]: "gc_width w \<Longrightarrow> uval w (a AND gc_mask w) = uval w a"
  by (simp add: uval_def and.assoc)

lemma mod_cases:
  assumes "gc_width w" and "0 \<le> x" "x < 2 ^ w" "0 \<le> y" "y < (2 :: int) ^ w"
  shows "(x + y) mod 2 ^ w = (if x + y < 2 ^ w then x + y else x + y - 2 ^ w)"
    and "(x - y) mod 2 ^ w = (if y \<le> x then x - y else x - y + 2 ^ w)"
proof -
  show "(x + y) mod 2 ^ w = (if x + y < 2 ^ w then x + y else x + y - 2 ^ w)"
    using assms(2-) by (auto simp: mod_add_if_z)
  show "(x - y) mod 2 ^ w = (if y \<le> x then x - y else x - y + 2 ^ w)"
    using assms(2-) by (auto simp: mod_sub_if_z)
qed

section \<open>The flags\<close>

definition flag_n :: "u8 \<Rightarrow> bool" where "flag_n f \<longleftrightarrow> f AND 8 \<noteq> 0"
definition flag_z :: "u8 \<Rightarrow> bool" where "flag_z f \<longleftrightarrow> f AND 4 \<noteq> 0"
definition flag_c :: "u8 \<Rightarrow> bool" where "flag_c f \<longleftrightarrow> f AND 2 \<noteq> 0"
definition flag_v :: "u8 \<Rightarrow> bool" where "flag_v f \<longleftrightarrow> f AND 1 \<noteq> 0"

lemma flags_packed:
  fixes n z c v :: bool
  defines "f \<equiv> (if n then 8 else 0) OR (if z then 4 else 0) OR (if c then 2 else 0) OR (if v then 1 else 0)"
  shows "flag_n f = n" and "flag_z f = z" and "flag_c f = c" and "flag_v f = v"
  unfolding f_def flag_n_def flag_z_def flag_c_def flag_v_def
  by (cases n; cases z; cases c; cases v; simp)+

lemma arithmetic_result:
  assumes "gc_width w"
  shows "uval w (snd (arithmetic c a b sub flags w)) =
      (if sub then uval w a - uval w b else uval w a + uval w b) mod 2 ^ w"
    and "snd (arithmetic c a b sub flags w) AND gc_mask w = snd (arithmetic c a b sub flags w)"
  using assms uval_arith [OF assms, of "a AND gc_mask w" "b AND gc_mask w"]
  by (simp_all add: arithmetic_def Let_def and.assoc)

text \<open>The sign test for overflow, on integers: \<open>h\<close> is half the range.\<close>

lemma signed_overflow:
  fixes x y r h :: int
  assumes "0 \<le> x" "x < 2 * h" "0 \<le> y" "y < 2 * h"
  shows "r = (if x + y < 2 * h then x + y else x + y - 2 * h) \<Longrightarrow>
      (h \<le> x) = (h \<le> y) \<and> (h \<le> x) \<noteq> (h \<le> r) \<longleftrightarrow>
      (if r < h then r else r - 2 * h) \<noteq>
        (if x < h then x else x - 2 * h) + (if y < h then y else y - 2 * h)"
    and "r = (if y \<le> x then x - y else x - y + 2 * h) \<Longrightarrow>
      (h \<le> x) \<noteq> (h \<le> y) \<and> (h \<le> x) \<noteq> (h \<le> r) \<longleftrightarrow>
      (if r < h then r else r - 2 * h) \<noteq>
        (if x < h then x else x - 2 * h) - (if y < h then y else y - 2 * h)"
  using assms by (auto split: if_splits)

lemma arithmetic_flags:
  assumes w: "gc_width w" and eq: "arithmetic c a b sub True w = (c', v)"
  shows "flag_n (nzcv c') \<longleftrightarrow> sval w v < 0"
    and "flag_z (nzcv c') \<longleftrightarrow> v = 0"
    and "flag_c (nzcv c') \<longleftrightarrow> (if sub then uval w b \<le> uval w a else 2 ^ w \<le> uval w a + uval w b)"
    and "flag_v (nzcv c') \<longleftrightarrow> sval w v \<noteq> (if sub then sval w a - sval w b else sval w a + sval w b)"
proof -
  let ?m = "gc_mask w" and ?s = "push_bit (w - 1) 1 :: u64"
  let ?a = "a AND ?m" and ?b = "b AND ?m"
  note e = eq [unfolded arithmetic_def Let_def if_True prod.inject]
  have v: "v = (if sub then ?a - ?b else ?a + ?b) AND ?m"
    by (rule e [THEN conjunct2, symmetric])
  have vm: "v AND ?m = v" by (simp add: v and.assoc)
  have uv: "uval w v = (if sub then uval w a - uval w b else uval w a + uval w b) mod 2 ^ w"
    using arithmetic_result(1) [OF w, of c a b sub True] eq by simp
  note b = uval_bounds [OF w]
  note uv' = uv [unfolded if_distrib [of "\<lambda>k. k mod 2 ^ w"] mod_cases [OF w b b]]
  have top: "x AND ?s \<noteq> 0 \<longleftrightarrow> bit x (w - 1)" for x :: u64
    by (simp add: bit_iff_and_push_bit_not_eq_0)
  have bits: "bit v (w - 1) \<longleftrightarrow> 2 ^ (w - 1) \<le> uval w v" "bit ?a (w - 1) \<longleftrightarrow> 2 ^ (w - 1) \<le> uval w a"
      "bit ?b (w - 1) \<longleftrightarrow> 2 ^ (w - 1) \<le> uval w b"
    using bit_top [OF w, of v] bit_top [OF w, of a] bit_top [OF w, of b] vm by simp_all
  have sel: "nzcv (r\<lparr>nzcv := f\<rparr>) = f" for r :: GCRegisters and f by simp
  have nz: "nzcv c' = (if v AND ?s \<noteq> 0 then 8 else 0) OR (if v = 0 then 4 else 0)
      OR (if if sub then ?a \<ge> ?b else v < ?a then 2 else 0)
      OR (if (if sub then ?a XOR ?b else NOT (?a XOR ?b)) AND (?a XOR v) AND ?s \<noteq> 0 then 1 else 0)"
    unfolding e [THEN conjunct1, symmetric] by (simp only: e [THEN conjunct2] sel)
  have dbl: "(2 :: int) ^ w = 2 * 2 ^ (w - 1)" using w by auto
  show "flag_n (nzcv c') \<longleftrightarrow> sval w v < 0"
    unfolding nz flags_packed top bits(1) using b [of v] by (auto simp: sval_def)
  show "flag_z (nzcv c') \<longleftrightarrow> v = 0" unfolding nz flags_packed ..
  have le: "?b \<le> ?a \<longleftrightarrow> uval w b \<le> uval w a" "v < ?a \<longleftrightarrow> uval w v < uval w a"
    using vm by (simp_all add: uval_def word_le_def word_less_def)
  show "flag_c (nzcv c') \<longleftrightarrow> (if sub then uval w b \<le> uval w a else 2 ^ w \<le> uval w a + uval w b)"
    unfolding nz flags_packed le uv' using b [of a] b [of b] by auto
  have w64: "w - 1 < 64" using w by auto
  have ov: "((if sub then ?a XOR ?b else NOT (?a XOR ?b)) AND (?a XOR v) AND ?s \<noteq> 0) \<longleftrightarrow>
      (if sub then bit ?a (w - 1) \<noteq> bit ?b (w - 1) else bit ?a (w - 1) = bit ?b (w - 1)) \<and>
      bit ?a (w - 1) \<noteq> bit v (w - 1)"
    using w64 unfolding and.assoc [symmetric] top by (cases sub) (simp_all only: bit_and_iff bit_xor_iff bit_not_iff if_True if_False, auto)
  show "flag_v (nzcv c') \<longleftrightarrow> sval w v \<noteq> (if sub then sval w a - sval w b else sval w a + sval w b)"
  proof (cases sub)
    case True
    then show ?thesis
      using signed_overflow(2) [where x = "uval w a" and y = "uval w b" and r = "uval w v",
          OF b(1) b(2) [unfolded dbl] b(1) b(2) [unfolded dbl]] uv' [unfolded dbl]
      unfolding nz flags_packed ov bits sval_def dbl by simp
  next
    case False
    then show ?thesis
      using signed_overflow(1) [where x = "uval w a" and y = "uval w b" and r = "uval w v",
          OF b(1) b(2) [unfolded dbl] b(1) b(2) [unfolded dbl]] uv' [unfolded dbl]
      unfolding nz flags_packed ov bits sval_def dbl by simp
  qed
qed

text \<open>The condition codes after a comparison, which subtracts and keeps only the flags.\<close>

lemma condition_flags:
  "condition f 0 = flag_z f" "condition f 2 = flag_c f" "condition f 4 = flag_n f"
  "condition f 6 = flag_v f" "condition f 8 = (flag_c f \<and> \<not> flag_z f)"
  "condition f 10 = (flag_n f = flag_v f)" "condition f 12 = (\<not> flag_z f \<and> flag_n f = flag_v f)"
  by (simp_all add: condition_def flag_n_def flag_z_def flag_c_def flag_v_def)

lemma condition_negated:
  assumes "k < 7"
  shows "condition f (2 * k + 1) = (\<not> condition f (2 * k))"
  using assms by (simp add: condition_def Let_def)

lemma sval_eq_iff:
  assumes "gc_width w"
  shows "sval w a = sval w b \<longleftrightarrow> uval w a = uval w b"
  using uval_bounds [OF assms, of a] uval_bounds [OF assms, of b] by (auto simp: sval_def split: if_splits)

lemma compare_conditions:
  assumes w: "gc_width w" and eq: "arithmetic c a b True True w = (c', v)"
  shows "condition (nzcv c') 0 \<longleftrightarrow> uval w a = uval w b"
    and "condition (nzcv c') 2 \<longleftrightarrow> uval w b \<le> uval w a"
    and "condition (nzcv c') 8 \<longleftrightarrow> uval w b < uval w a"
    and "condition (nzcv c') 10 \<longleftrightarrow> sval w b \<le> sval w a"
    and "condition (nzcv c') 12 \<longleftrightarrow> sval w b < sval w a"
proof -
  note f = arithmetic_flags [OF w eq]
  note b = uval_bounds [OF w, of a] uval_bounds [OF w, of b]
  have uv: "uval w v = (if uval w b \<le> uval w a then uval w a - uval w b else uval w a - uval w b + 2 ^ w)"
    using arithmetic_result(1) [OF w, of c a b True True] eq mod_cases(2) [OF w b] by simp
  have "v AND gc_mask w = v" using arithmetic_result(2) [OF w, of c a b True True] eq by simp
  then have "v = 0 \<longleftrightarrow> uval w v = 0" by (metis uval_def unsigned_eq_0_iff)
  then have z: "flag_z (nzcv c') \<longleftrightarrow> uval w a = uval w b" unfolding f(2) uv using b by auto
  have dbl: "(2 :: int) ^ w = 2 * 2 ^ (w - 1)" using w by auto
  have ge: "flag_n (nzcv c') = flag_v (nzcv c') \<longleftrightarrow> sval w b \<le> sval w a"
    unfolding f(1) f(4) if_True
    using uv b unfolding sval_def dbl by (auto split: if_splits)
  show "condition (nzcv c') 0 \<longleftrightarrow> uval w a = uval w b"
    and "condition (nzcv c') 2 \<longleftrightarrow> uval w b \<le> uval w a"
    and "condition (nzcv c') 8 \<longleftrightarrow> uval w b < uval w a"
    and "condition (nzcv c') 10 \<longleftrightarrow> sval w b \<le> sval w a"
    unfolding condition_flags z f(3) ge by auto
  show "condition (nzcv c') 12 \<longleftrightarrow> sval w b < sval w a"
    unfolding condition_flags z ge sval_eq_iff [OF w, of a b, symmetric] by auto
qed

section \<open>Logical immediates\<close>

text \<open>A run of \<open>s + 1\<close> ones rotated right by \<open>r\<close> within an element of \<open>bits\<close> bits.\<close>

lemma bit_rotated_run:
  fixes bits s r :: nat
  assumes "s < bits" and "r < bits" and "bits \<le> 64"
  defines "e0 \<equiv> push_bit (s + 1) 1 - 1 :: u64"
  defines "e1 \<equiv> if r \<noteq> 0 then drop_bit r e0 OR push_bit (bits - r) e0 else e0"
  defines "e2 \<equiv> if bits < 64 then e1 AND (push_bit bits 1 - 1) else e1"
  shows "bit e2 j \<longleftrightarrow> j < bits \<and> (j + r) mod bits \<le> s"
proof -
  have m: "push_bit n 1 - 1 = (mask n :: u64)" for n by (simp add: mask_eq_exp_minus_1)
  have e0: "bit e0 k \<longleftrightarrow> k < 64 \<and> k \<le> s" for k
    unfolding e0_def m by (auto simp: bit_mask_iff)
  have rot: "(j + r) mod bits = (if j + r < bits then j + r else j + r - bits)" if "j < bits"
    using that assms(2) by (auto simp: mod_if)
  have e1: "bit e1 j \<longleftrightarrow> (j + r) mod bits \<le> s" if "j < bits"
  proof (cases "r = 0")
    case True
    then have "e1 = e0" by (simp add: e1_def)
    then show ?thesis using that True assms(1-3) by (simp add: e0)
  next
    case False
    then have "bit e1 j \<longleftrightarrow> j + r \<le> s \<or> bits - r \<le> j \<and> j - (bits - r) \<le> s"
      using that assms(1-3) by (auto simp: e1_def bit_simps e0)
    also have "\<dots> \<longleftrightarrow> (j + r) mod bits \<le> s"
      unfolding rot [OF that] using that assms(1-3) by auto
    finally show ?thesis .
  qed
  show ?thesis
  proof (cases "bits < 64")
    case True
    then have "e2 = e1 AND mask bits" unfolding e2_def m by simp
    then have "bit e2 j \<longleftrightarrow> bit e1 j \<and> j < bits"
      using True by (auto simp: bit_and_iff bit_mask_iff)
    then show ?thesis using e1 by auto
  next
    case False
    then have "bits = 64" using assms(3) by simp
    then have "bit e2 j \<longleftrightarrow> bit e1 j \<and> j < bits"
      by (auto simp: e2_def dest: bit_imp_le_length)
    then show ?thesis using e1 by auto
  qed
qed

lemma bit_repeated:
  fixes e :: u64
  assumes "0 < bits" and "\<And>j. bit e j \<Longrightarrow> j < bits"
  shows "bit (foldl (\<lambda>v k. v OR push_bit (k * bits) e) 0 [0..<c]) j \<longleftrightarrow>
    j < 64 \<and> j div bits < c \<and> bit e (j mod bits)"
proof (induction c)
  case 0
  then show ?case by simp
next
  case (Suc c)
  have "bit (push_bit (c * bits) e) j \<longleftrightarrow> j < 64 \<and> j div bits = c \<and> bit e (j mod bits)"
  proof (cases "j div bits = c")
    case True
    then have "c * bits \<le> j" "j - c * bits = j mod bits"
      by (auto simp: minus_div_mult_eq_mod [symmetric])
    then show ?thesis using True by (simp add: bit_push_bit_iff)
  next
    case False
    have "\<not> (c * bits \<le> j \<and> j - c * bits < bits)"
    proof
      assume a: "c * bits \<le> j \<and> j - c * bits < bits"
      then have "j div bits = c" by (intro div_nat_eqI) (auto simp: mult.commute)
      then show False using False by simp
    qed
    then show ?thesis using False assms(2) by (auto simp: bit_push_bit_iff)
  qed
  then show ?case using Suc by (auto simp: bit_or_iff less_Suc_eq)
qed

text \<open>The exponent of the element size: the position of the highest one in \<open>N:NOT(imms)\<close>.\<close>

definition immediate_length :: "u32 \<Rightarrow> nat" where
  "immediate_length i =
     foldl (\<lambda>l b. if (push_bit 6 (drop_bit 22 i AND 1) OR (NOT (of_nat (field i 10 63)) AND 63))
        AND push_bit b 1 \<noteq> 0 then b else l) 0 [1..<7]"

lemma immediate_length_le: "immediate_length i \<le> 6"
proof -
  have "[1..<7] = [1, 2, 3, 4, 5, 6 :: nat]" by (simp add: upt_rec)
  then show ?thesis by (simp add: immediate_length_def)
qed

lemma logical_immediate_bits:
  assumes w: "gc_width w" and eq: "logical_immediate i w = Some v"
  defines "bits \<equiv> 2 ^ immediate_length i"
  shows "bits \<le> w" and "field i 10 63 mod bits < bits - 1"
    and "bit v k \<longleftrightarrow> k < w \<and> (k + field i 16 63 mod bits) mod bits \<le> field i 10 63 mod bits"
proof -
  define s where "s = field i 10 63 mod bits"
  define r where "r = field i 16 63 mod bits"
  define e :: u64 where "e = (let element = push_bit (s + 1) 1 - 1;
      element = (if r \<noteq> 0 then drop_bit r element OR push_bit (bits - r) element else element)
    in if bits < 64 then element AND (push_bit bits 1 - 1) else element)"
  note run = eq [unfolded logical_immediate_def Let_def, folded immediate_length_def bits_def,
      folded s_def r_def, folded e_def [unfolded Let_def]]
  have c: "bits \<le> w" "s \<noteq> bits - 1"
    and v: "v = foldl (\<lambda>v k. v OR push_bit (k * bits) e) 0 [0..<(w + bits - 1) div bits]"
    using run by (auto split: if_splits)
  have pos: "0 < bits" by (simp add: bits_def)
  then have sr: "s < bits" "r < bits" by (simp_all add: s_def r_def)
  have le: "bits \<le> 64" using c(1) w by auto
  have e: "bit e j \<longleftrightarrow> j < bits \<and> (j + r) mod bits \<le> s" for j
    unfolding e_def Let_def by (rule bit_rotated_run [OF sr le])
  have "w = 2 ^ 5 \<or> w = 2 ^ 6" using w by auto
  then obtain p where p: "w = 2 ^ p" by blast
  have "bits dvd w"
    using c(1) unfolding p bits_def by (simp add: le_imp_power_dvd)
  then obtain q where q: "w = bits * q" by blast
  have cnt: "(w + bits - 1) div bits = q"
    using pos unfolding q by (intro div_nat_eqI) (auto simp: algebra_simps)
  show "bits \<le> w" by (rule c(1))
  show "field i 10 63 mod bits < bits - 1" unfolding s_def [symmetric] using c(2) sr by linarith
  have kq: "k div bits < q \<longleftrightarrow> k < w" unfolding q by (metis div_less_iff_less_mult mult.commute pos)
  have k64: "k < 64" if "k < w" using that w by auto
  have "bit v k \<longleftrightarrow> k < 64 \<and> k div bits < q \<and> bit e (k mod bits)"
    unfolding v cnt by (rule bit_repeated [OF pos]) (simp add: e)
  also have "\<dots> \<longleftrightarrow> k < w \<and> (k mod bits + r) mod bits \<le> s"
    unfolding kq e using k64 pos by auto
  finally show "bit v k \<longleftrightarrow> k < w \<and> (k + field i 16 63 mod bits) mod bits \<le> field i 10 63 mod bits"
    unfolding s_def [symmetric] r_def [symmetric] by (simp only: mod_add_left_eq)
qed

section \<open>Properties\<close>

text \<open>C20. The flags of an addition or subtraction, at 32 and at 64 bits, are those of the
  architecture: the result is the exact sum or difference modulo the width, N is its sign, Z says it
  is zero, C says that the unsigned result carried (or did not borrow), V that the signed result
  does not fit.\<close>

theorem arithmetic_correct:
  assumes "w = 32 \<or> w = 64" and "arithmetic c a b sub True w = (c', v)"
  shows "uval w v = (if sub then uval w a - uval w b else uval w a + uval w b) mod 2 ^ w \<and>
    (flag_n (nzcv c') \<longleftrightarrow> sval w v < 0) \<and> (flag_z (nzcv c') \<longleftrightarrow> v = 0) \<and>
    (flag_c (nzcv c') \<longleftrightarrow> (if sub then uval w b \<le> uval w a else 2 ^ w \<le> uval w a + uval w b)) \<and>
    (flag_v (nzcv c') \<longleftrightarrow> sval w v \<noteq> (if sub then sval w a - sval w b else sval w a + sval w b))"
proof -
  have "uval w v = (if sub then uval w a - uval w b else uval w a + uval w b) mod 2 ^ w"
    using arithmetic_result(1) [OF assms(1), of c a b sub True] assms(2) by simp
  then show ?thesis using arithmetic_flags [OF assms] by blast
qed

definition zero_registers :: GCRegisters where
  "zero_registers = \<lparr>rx = (\<lambda>_. 0), rsp = 0, rpc = 0, nzcv = 0\<rparr>"

theorem arithmetic_correct_witness:
  "flag_v (nzcv (fst (arithmetic zero_registers 0x7fffffff 1 False True 32))) \<and>
   sval 32 (snd (arithmetic zero_registers 0x7fffffff 1 False True 32)) \<noteq> sval 32 0x7fffffff + sval 32 1"
proof -
  have "flag_v (nzcv (fst (arithmetic zero_registers 0x7fffffff 1 False True 32)))" by code_simp
  then show ?thesis
    using arithmetic_correct [OF _ prod.collapse [symmetric], of 32 zero_registers "0x7fffffff" 1 False]
    by simp
qed

text \<open>After a comparison the condition codes decide the order of the operands: EQ equality,
  HS and HI the unsigned order, GE and GT the signed order, and each odd code is the negation of
  the even code before it.\<close>

theorem compare_then_condition:
  assumes "w = 32 \<or> w = 64"
  shows "condition (nzcv (fst (arithmetic c a b True True w))) 0 = (uval w a = uval w b) \<and>
    condition (nzcv (fst (arithmetic c a b True True w))) 2 = (uval w b \<le> uval w a) \<and>
    condition (nzcv (fst (arithmetic c a b True True w))) 8 = (uval w b < uval w a) \<and>
    condition (nzcv (fst (arithmetic c a b True True w))) 10 = (sval w b \<le> sval w a) \<and>
    condition (nzcv (fst (arithmetic c a b True True w))) 12 = (sval w b < sval w a) \<and>
    (\<forall>k < 7. \<forall>f. condition f (2 * k + 1) = (\<not> condition f (2 * k)))"
  using compare_conditions [OF assms prod.collapse [symmetric], of c a b] condition_negated by blast

theorem compare_then_condition_witness:
  "condition (nzcv (fst (arithmetic zero_registers (- 1) 1 True True 64))) 12 = (sval 64 1 < sval 64 (- 1)) \<and>
   \<not> condition (nzcv (fst (arithmetic zero_registers (- 1) 1 True True 64))) 12"
proof -
  have "\<not> condition (nzcv (fst (arithmetic zero_registers (- 1) 1 True True 64))) 12" by code_simp
  then show ?thesis using compare_then_condition [of 64 zero_registers "- 1" 1] by simp
qed

text \<open>A logical immediate that the decoder accepts is a run of \<open>imms + 1\<close> ones, rotated
  right by \<open>immr\<close> within an element whose size \<open>N:NOT(imms)\<close> gives, and repeated over the register
  width; an element of ones only is rejected.\<close>

theorem logical_immediate_correct:
  assumes "w = 32 \<or> w = 64" and "logical_immediate i w = Some v"
  defines "bits \<equiv> 2 ^ immediate_length i"
  shows "bits \<le> w \<and> field i 10 63 mod bits < bits - 1 \<and>
    (\<forall>k. bit v k \<longleftrightarrow> k < w \<and> (k + field i 16 63 mod bits) mod bits \<le> field i 10 63 mod bits)"
  using logical_immediate_bits [OF assms(1,2)] unfolding bits_def by blast

theorem logical_immediate_correct_witness:
  "logical_immediate 0x9240f400 64 = Some 0x3fffffffffffffff \<and> bit (0x3fffffffffffffff :: u64) 61"
proof -
  have ok: "logical_immediate 0x9240f400 64 = Some 0x3fffffffffffffff" by code_simp
  have "immediate_length 0x9240f400 = 6" "field 0x9240f400 10 63 = 61" "field 0x9240f400 16 63 = 0" by code_simp+
  then show ?thesis using logical_immediate_correct [OF _ ok] ok by simp
qed

end
