(* ===== verification/GuestCPURun.thy ===== *)
theory GuestCPURun
  imports GuestCPUArithmetic
begin

text \<open>
  The run loop of \<open>GuestCPU.c\<close>. Its cache of decoded instructions is an optimisation: against
  a reference loop that fetches and decodes every instruction anew it gives the same result, the
  same registers and the same memory. A run can be cut into shorter runs, and a run that stops at
  an unsupported instruction or at a memory fault stops with the registers before it.
\<close>

section \<open>Fetching\<close>

lemma gm_copy_fault_irrelevant [simp]:
  "gm_copy (m\<lparr>gm_fault_address := f\<rparr>) t a b n permission w calloc = gm_copy m t a b n permission w calloc"
proof -
  have acc: "gm_access_range (m\<lparr>gm_fault_address := f\<rparr>) t a n permission = gm_access_range m t a n permission"
    by (simp add: gm_access_range_def)
  have "gm_copy_pages (m\<lparr>gm_fault_address := f\<rparr>) t a b n permission w calloc =
      gm_copy_pages m t a b n permission w calloc"
    unfolding gm_copy_pages_def acc ..
  then show ?thesis by (cases b) (simp_all add: gm_copy_def Let_def)
qed

lemma gm_fetch_fault_irrelevant [simp]:
  "gm_fetch (m\<lparr>gm_fault_address := f\<rparr>) t a True = gm_fetch m t a True"
  by (simp add: gm_fetch_def)

lemma gm_read_fault_irrelevant [simp]: "gm_read (m\<lparr>gm_fault_address := f\<rparr>) a b n = gm_read m a b n"
  by (simp add: gm_read_def)

lemma gm_write_fault_irrelevant [simp]:
  "gm_write (m\<lparr>gm_fault_address := f\<rparr>) t a b n calloc = gm_write m t a b n calloc"
  by (simp add: gm_write_def)

text \<open>The instruction word at an address, and when it can be fetched.\<close>

definition code_word :: "GuestMemory \<Rightarrow> u64 \<Rightarrow> u32" where
  "code_word m a = ucast (gm_byte m a) OR push_bit 8 (ucast (gm_byte m (a + 1)))
     OR push_bit 16 (ucast (gm_byte m (a + 2))) OR push_bit 24 (ucast (gm_byte m (a + 3)))"

definition fetchable :: "GuestMemory \<Rightarrow> GMThread option \<Rightarrow> u64 \<Rightarrow> bool" where
  "fetchable m t a \<longleftrightarrow> a AND 3 = 0 \<and> unat a + 4 < 2 ^ 64 \<and>
     (\<forall>x. in_range a 4 x \<longrightarrow> gm_allowed m t GM_EXEC x)"

lemma gm_fetch_spec:
  assumes wf: "gm_wf m" and eq: "gm_fetch m t a True = (r, m', i)"
  shows "r = GM_OK \<longleftrightarrow> fetchable m t a" and "r = GM_OK \<Longrightarrow> i = Some (code_word m a)"
    and "m' = m\<lparr>gm_fault_address := gm_fault_address m'\<rparr>"
proof -
  have "(r = GM_OK \<longleftrightarrow> fetchable m t a) \<and> (r = GM_OK \<longrightarrow> i = Some (code_word m a)) \<and>
    m' = m\<lparr>gm_fault_address := gm_fault_address m'\<rparr>"
  proof (cases "a AND 3 = 0")
    case False
    then show ?thesis using eq by (auto simp: gm_fetch_def fetchable_def)
  next
    case True
    obtain b where c: "gm_copy m t a (Some [0, 0, 0, 0]) 4 GM_EXEC False (\<lambda>_. False) = (r, m', b)"
      and i: "r = GM_OK \<Longrightarrow> i = (case b of Some bytes \<Rightarrow>
                Some (ucast (bytes ! 0) OR push_bit 8 (ucast (bytes ! 1))
                      OR push_bit 16 (ucast (bytes ! 2)) OR push_bit 24 (ucast (bytes ! 3)))
              | None \<Rightarrow> None)"
      using eq True by (auto simp: gm_fetch_def split: prod.splits if_splits)
    have four: "unat (4 :: u64) = 4" by simp
    have len: "unat (4 :: u64) \<le> length [0, 0, 0, 0 :: u8]" by simp
    note spec = gm_copy_read [OF wf len c, unfolded four]
    have up: "[0..<4] = [0, 1, 2, 3 :: nat]" by (simp add: upt_rec)
    have "i = Some (code_word m a)" if "r = GM_OK"
      using i [OF that] spec(3) [OF that] unfolding up by (simp add: code_word_def)
    then show ?thesis using spec(1,2) True by (simp add: fetchable_def)
  qed
  then show "r = GM_OK \<longleftrightarrow> fetchable m t a" and "r = GM_OK \<Longrightarrow> i = Some (code_word m a)"
    and "m' = m\<lparr>gm_fault_address := gm_fault_address m'\<rparr>" by blast+
qed

text \<open>A write that leaves the code generation alone leaves the fetchable code alone.\<close>

lemma gm_allowed_exec:
  assumes "gm_allowed m t GM_EXEC x"
  shows "\<exists>prot maxprot jit. gm_attr m x = Some (prot, maxprot, jit) \<and> ucast prot AND GM_EXEC \<noteq> 0"
  using assms
  by (auto simp: gm_allowed_attr gm_page_denied_def split: option.splits prod.splits)

lemma code_word_cong: "(\<And>x. in_range a 4 x \<Longrightarrow> gm_byte m x = gm_byte m' x) \<Longrightarrow> code_word m a = code_word m' a"
proof -
  assume same: "\<And>x. in_range a 4 x \<Longrightarrow> gm_byte m x = gm_byte m' x"
  have "in_range a 4 a" "in_range a 4 (a + 1)" "in_range a 4 (a + 2)" "in_range a 4 (a + 3)"
    by (simp_all add: in_range_def)
  then show ?thesis using same by (simp add: code_word_def)
qed

lemma gm_copy_keeps_code:
  assumes wf: "gm_wf m" and len: "unat n \<le> length bs"
    and c: "gm_copy m t a (Some bs) n permission True calloc = (r, m', b)"
    and gen: "gm_code_generation m' = gm_code_generation m" and f: "fetchable m t' pc"
  shows "fetchable m' t' pc" and "code_word m' pc = code_word m pc"
proof -
  note spec = gm_copy_write [OF wf len c]
  show "fetchable m' t' pc" using f gm_attr_allowed [OF spec(2)] by (simp add: fetchable_def)
  have no: "\<not> (r = GM_OK \<and> in_range a n x)" if "in_range pc 4 x" for x
  proof
    assume a: "r = GM_OK \<and> in_range a n x"
    have "gm_allowed m t' GM_EXEC x" using f that by (simp add: fetchable_def)
    then have "gm_code_generation m' = gm_code_generation m + 1"
      using spec(6) a gm_allowed_exec by auto
    then show False using gen by simp
  qed
  show "code_word m' pc = code_word m pc"
    by (rule code_word_cong) (use no spec(4) in auto)
qed

section \<open>The reference loop\<close>

definition gc_step_plain ::
  "GuestCPU \<Rightarrow> GuestMemory \<Rightarrow> (nat \<Rightarrow> bool) \<Rightarrow> u64 \<Rightarrow> GCResult option \<times> GuestCPU \<times> GuestMemory" where
  "gc_step_plain c m calloc return_pc =
     (if rpc (cpu_registers c) = return_pc then (Some GC_RETURNED, c, m)
      else let pc = rpc (cpu_registers c);
               (r, m, i) = gm_fetch m (Some (cpu_thread c)) pc True;
               c = c\<lparr>cpu_memory_result := r\<rparr>
      in if r \<noteq> GM_OK then (Some GC_MEMORY, c, m) else gc_execute c m (decode pc (the i)) calloc)"

primrec gc_loop_plain ::
  "nat \<Rightarrow> GuestCPU \<Rightarrow> GuestMemory \<Rightarrow> (nat \<Rightarrow> nat \<Rightarrow> bool) \<Rightarrow> u64 \<Rightarrow> GCResult \<times> GuestCPU \<times> GuestMemory"
where
  "gc_loop_plain 0 c m callocs return_pc =
     (if rpc (cpu_registers c) = return_pc then GC_RETURNED else GC_BUDGET, c, m)"
| "gc_loop_plain (Suc k) c m callocs return_pc =
     (case gc_step_plain c m (callocs k) return_pc of
        (Some r, c', m') \<Rightarrow> (r, c', m')
      | (None, c', m') \<Rightarrow> gc_loop_plain k c' m' callocs return_pc)"

text \<open>Two processors that differ at most in their caches and in the result of their last
  successful access, and two memories that differ at most in the last fault address.\<close>

definition cpu_same :: "GuestCPU \<Rightarrow> GuestCPU \<Rightarrow> bool" where
  "cpu_same c d \<longleftrightarrow> cpu_registers c = cpu_registers d \<and> cpu_retired c = cpu_retired d \<and>
     cpu_thread c = cpu_thread d \<and> cpu_fault_instruction c = cpu_fault_instruction d"

definition mem_same :: "GuestMemory \<Rightarrow> GuestMemory \<Rightarrow> bool" where
  "mem_same m k \<longleftrightarrow> gm_pages m = gm_pages k \<and> gm_generation m = gm_generation k \<and>
     gm_code_generation m = gm_code_generation k"

lemma mem_same_iff: "mem_same m k \<longleftrightarrow> k = m\<lparr>gm_fault_address := gm_fault_address k\<rparr>"
  by (cases m; cases k) (auto simp: mem_same_def)

definition gc_cache_ok :: "GuestCPU \<Rightarrow> GuestMemory \<Rightarrow> bool" where
  "gc_cache_ok c m \<longleftrightarrow>
     (cpu_cache_generation c = gm_code_generation m \<and>
      cpu_cache_write_protected c = jit_write_protected (cpu_thread c) \<longrightarrow>
      (\<forall>k. dc_valid (cpu_cache c k) \<longrightarrow>
        fetchable m (Some (cpu_thread c)) (dc_pc (cpu_cache c k)) \<and>
        cpu_cache c k = decode (dc_pc (cpu_cache c k)) (code_word m (dc_pc (cpu_cache c k)))))"

section \<open>The cache agrees with the reference\<close>

lemma cpu_same_simps:
  "cpu_same c d \<Longrightarrow> cpu_registers d = cpu_registers c" "cpu_same c d \<Longrightarrow> cpu_thread d = cpu_thread c"
  "cpu_same c d \<Longrightarrow> cpu_retired d = cpu_retired c"
  by (simp_all add: cpu_same_def)

text \<open>Executing a decoded instruction from states that agree.\<close>

lemma gc_access_same:
  assumes "cpu_same c c0" and "mem_same m m0"
    and "gc_access c m d calloc = (ok, c1, m1)" and "gc_access c0 m0 d calloc = (ok0, c01, m01)"
  shows "ok0 = ok \<and> cpu_same c1 c01 \<and> m01 = m1 \<and> cpu_memory_result c01 = cpu_memory_result c1 \<and>
    cpu_cache c1 = cpu_cache c \<and> cpu_cache_generation c1 = cpu_cache_generation c \<and>
    cpu_cache_write_protected c1 = cpu_cache_write_protected c \<and> cpu_thread c1 = cpu_thread c"
proof -
  obtain f where m0: "m0 = m\<lparr>gm_fault_address := f\<rparr>" using assms(2) by (auto simp: mem_same_iff)
  note s = cpu_same_simps [OF assms(1)]
  have "cpu_fault_instruction c0 = cpu_fault_instruction c" using assms(1) by (simp add: cpu_same_def)
  then show ?thesis
    using assms(3,4) unfolding gc_access_def m0 s Let_def
    by (auto simp: cpu_same_def s split: if_splits prod.splits)
qed

lemma gc_execute_same:
  assumes "cpu_same c c0" and "mem_same m m0"
    and "gc_execute c m d calloc = (r, c1, m1)" and "gc_execute c0 m0 d calloc = (r0, c01, m01)"
  shows "r0 = r \<and> cpu_same c1 c01 \<and> mem_same m1 m01 \<and>
    (r = Some GC_MEMORY \<longrightarrow> m01 = m1 \<and> cpu_memory_result c01 = cpu_memory_result c1)"
proof (cases "dc_op d = LOAD \<or> dc_op d = STORE")
  case True
  obtain ok c2 m2 where a: "gc_access c m d calloc = (ok, c2, m2)" by (metis prod_cases3)
  obtain ok' c3 m3 where b: "gc_access c0 m0 d calloc = (ok', c3, m3)" by (metis prod_cases3)
  note same = gc_access_same [OF assms(1,2) a b]
  show ?thesis
    using assms(3,4) True same by (auto simp: gc_execute_def a b cpu_same_def mem_same_def split: if_splits)
next
  case False
  then show ?thesis
    using assms cpu_same_simps [OF assms(1)]
    by (auto simp: gc_execute_def cpu_same_def split: if_splits prod.splits)
qed

text \<open>Executing an instruction keeps the cache right.\<close>

lemma gc_execute_cache:
  assumes wf: "gm_wf m" and eq: "gc_execute c m d calloc = (r, c1, m1)"
    and gen: "cpu_cache_generation c = gm_code_generation m" and ok: "gc_cache_ok c m"
    and small: "dc_op d = LOAD \<or> dc_op d = STORE \<Longrightarrow> dc_amount d \<le> 8"
  shows "gm_wf m1" and "gc_cache_ok c1 m1"
proof -
  let ?rs = "cpu_registers c" and ?n = "of_nat (dc_amount d) :: u64"
  let ?bs = "scalar_bytes (reg ?rs (dc_rd d) False) (dc_amount d) @ drop (dc_amount d) (replicate 8 0)"
  let ?a = "reg ?rs (dc_rn d) True + dc_immediate d"
  have keep: "cpu_cache c1 = cpu_cache c \<and> cpu_cache_generation c1 = cpu_cache_generation c \<and>
      cpu_cache_write_protected c1 = cpu_cache_write_protected c \<and> cpu_thread c1 = cpu_thread c"
    using eq by (auto simp: gc_execute_def gc_access_def Let_def split: if_splits prod.splits)
  consider (stores) w where "dc_amount d \<le> 8"
      "gm_write m (Some (cpu_thread c)) ?a (Some ?bs) ?n calloc = (w, m1)"
    | (loads) w b where "dc_amount d \<le> 8" "gm_read m ?a (Some (replicate 8 0)) ?n = (w, m1, b)"
    | (none) "m1 = m"
    using small
    using eq by (auto simp: gc_execute_def gc_access_def Let_def split: if_splits prod.splits)
  then have "gm_wf m1 \<and> gc_cache_ok c1 m1"
  proof cases
    case stores
    have len: "unat ?n \<le> length ?bs" using stores(1) by (simp add: unat_of_nat_u64)
    obtain b where c: "gm_copy m (Some (cpu_thread c)) ?a (Some ?bs) ?n GM_WRITE True calloc = (w, m1, b)"
      using stores(2) by (auto simp: gm_write_def split: prod.splits)
    have "gc_cache_ok c1 m1"
      unfolding gc_cache_ok_def keep [THEN conjunct1] keep [THEN conjunct2, THEN conjunct1]
        keep [THEN conjunct2, THEN conjunct2, THEN conjunct1]
        keep [THEN conjunct2, THEN conjunct2, THEN conjunct2] gen
    proof (intro impI allI)
      fix k
      assume g: "gm_code_generation m = gm_code_generation m1 \<and>
          cpu_cache_write_protected c = jit_write_protected (cpu_thread c)" and v: "dc_valid (cpu_cache c k)"
      then have e: "fetchable m (Some (cpu_thread c)) (dc_pc (cpu_cache c k))"
          "cpu_cache c k = decode (dc_pc (cpu_cache c k)) (code_word m (dc_pc (cpu_cache c k)))"
        using ok gen unfolding gc_cache_ok_def by blast+
      have "gm_code_generation m1 = gm_code_generation m" using g by simp
      note same = gm_copy_keeps_code [OF wf len c this e(1)]
      show "fetchable m1 (Some (cpu_thread c)) (dc_pc (cpu_cache c k)) \<and>
        cpu_cache c k = decode (dc_pc (cpu_cache c k)) (code_word m1 (dc_pc (cpu_cache c k)))"
        using same(1) e(2) unfolding same(2) by (rule conjI)
    qed
    then show ?thesis using gm_copy_write(1) [OF wf len c] by simp
  next
    case loads
    have c: "gm_copy m None ?a (Some (replicate 8 0)) ?n GM_READ False (\<lambda>_. False) = (w, m1, b)"
      using loads(2) by (simp add: gm_read_def)
    have len: "unat ?n \<le> length (replicate 8 (0 :: u8))"
      using loads(1) by (simp add: unat_of_nat_u64)
    obtain f where m1: "m1 = m\<lparr>gm_fault_address := f\<rparr>" using gm_copy_read(1) [OF wf len c] by blast
    note same = gm_fault_only [OF m1]
    have "code_word m1 = code_word m" by (simp add: code_word_def fun_eq_iff same)
    moreover have "fetchable m1 = fetchable m" by (simp add: fetchable_def fun_eq_iff same)
    ultimately show ?thesis using ok keep wf same(1) by (simp add: gc_cache_ok_def m1)
  next
    case none
    then show ?thesis using ok keep wf by (simp add: gc_cache_ok_def)
  qed
  then show "gm_wf m1" and "gc_cache_ok c1 m1" by blast+
qed

text \<open>The decoder.\<close>

lemma decode_cases:
  assumes "\<And>op shift amount flags width imm. (op = LOAD \<or> op = STORE \<Longrightarrow> amount \<le> 8) \<Longrightarrow>
      P ((gc_blank pc i)\<lparr>dc_op := op, dc_shift := shift, dc_amount := amount, dc_flags := flags,
        dc_width := width, dc_immediate := imm\<rparr>)"
  shows "P (decode pc i)"
proof -
  define Q where "Q d \<longleftrightarrow> (\<exists>op shift amount flags width imm. (op = LOAD \<or> op = STORE \<longrightarrow> amount \<le> 8) \<and>
      d = (gc_blank pc i)\<lparr>dc_op := op, dc_shift := shift, dc_amount := amount, dc_flags := flags,
        dc_width := width, dc_immediate := imm\<rparr>)" for d
  have "unat i < 2 ^ LENGTH(32)" by (rule unsigned_less)
  then have "unat i div 2 ^ 30 \<le> 3" by simp
  then have "unat (drop_bit 30 i) \<le> 3" by (simp add: unsigned_drop_bit_eq drop_bit_eq_div unat_div)
  then have size: "(2 :: nat) ^ unat (drop_bit 30 i) \<le> 8"
    using power_increasing [of "unat (drop_bit 30 i)" 3 "2 :: nat"] by simp
  have q: "Q d" if "dc_op d = LOAD \<or> dc_op d = STORE \<Longrightarrow> dc_amount d \<le> 8"
    "dc_pc d = pc" "dc_instruction d = i" "dc_rd d = field i 0 31" "dc_rn d = field i 5 31"
    "dc_rm d = field i 16 31" "dc_ra d = field i 10 31" "dc_valid d" for d
    unfolding Q_def
    by (rule exI [of _ "dc_op d"], rule exI [of _ "dc_shift d"], rule exI [of _ "dc_amount d"],
        rule exI [of _ "dc_flags d"], rule exI [of _ "dc_width d"], rule exI [of _ "dc_immediate d"])
      (use that in \<open>cases d, auto simp: gc_blank_def\<close>)
  have "Q (decode pc i)"
    unfolding decode_def Let_def
    by (intro if_split [of Q, THEN iffD2] option.split [of Q, THEN iffD2] conjI impI allI)
      (rule q; use size in \<open>simp add: gc_blank_def\<close>)+
  then obtain op shift amount flags width imm where small: "op = LOAD \<or> op = STORE \<longrightarrow> amount \<le> 8"
    and d: "decode pc i = (gc_blank pc i)\<lparr>dc_op := op, dc_shift := shift, dc_amount := amount,
      dc_flags := flags, dc_width := width, dc_immediate := imm\<rparr>"
    unfolding Q_def by blast
  show ?thesis unfolding d by (rule assms) (use small in blast)
qed

lemma decode_access_size:
  "dc_op (decode pc i) = LOAD \<or> dc_op (decode pc i) = STORE \<Longrightarrow> dc_amount (decode pc i) \<le> 8"
  by (rule decode_cases [of "\<lambda>d. dc_op d = LOAD \<or> dc_op d = STORE \<longrightarrow> dc_amount d \<le> 8",
        THEN mp]) simp_all

lemma decode_pc: "dc_pc (decode pc i) = pc"
  by (rule decode_cases [of "\<lambda>d. dc_pc d = pc"]) (simp add: gc_blank_def)

lemma decode_valid: "dc_valid (decode pc i)"
  by (rule decode_cases [of dc_valid]) (simp add: gc_blank_def)

lemma gc_refresh_facts:
  shows "cpu_same c (gc_refresh c m)" and "cpu_cache_generation (gc_refresh c m) = gm_code_generation m"
    and "cpu_cache_write_protected (gc_refresh c m) = jit_write_protected (cpu_thread (gc_refresh c m))"
    and "gc_cache_ok c m \<Longrightarrow> gc_cache_ok (gc_refresh c m) m"
  by (simp_all add: gc_refresh_def cpu_same_def gc_cache_ok_def gc_empty_def)

lemma cpu_same_trans: "cpu_same c d \<Longrightarrow> cpu_same c e \<Longrightarrow> cpu_same d e"
  by (simp add: cpu_same_def)

lemma gc_step_same:
  assumes wf: "gm_wf m" and ok: "gc_cache_ok c m" and cs: "cpu_same c c0" and ms: "mem_same m m0"
    and eq: "gc_step c m calloc ret = (r, c1, m1)" and eq0: "gc_step_plain c0 m0 calloc ret = (r0, c01, m01)"
  shows "r0 = r \<and> cpu_same c1 c01 \<and> mem_same m1 m01 \<and>
    (r = Some GC_MEMORY \<longrightarrow> m01 = m1 \<and> cpu_memory_result c01 = cpu_memory_result c1) \<and>
    gm_wf m1 \<and> gc_cache_ok c1 m1"
proof (cases "rpc (cpu_registers c) = ret")
  case True
  then show ?thesis using assms cpu_same_simps(1) [OF cs] by (auto simp: gc_step_def gc_step_plain_def)
next
  case False
  define b where "b = gc_refresh c m"
  have bf: "cpu_same c b" "cpu_cache_generation b = gm_code_generation m"
      "cpu_cache_write_protected b = jit_write_protected (cpu_thread b)" "gc_cache_ok b m"
    using gc_refresh_facts [of c m] ok by (simp_all add: b_def)
  have same: "cpu_registers c = cpu_registers b" "cpu_thread c = cpu_thread b"
      "cpu_registers c0 = cpu_registers b" "cpu_thread c0 = cpu_thread b"
    using bf(1) cs by (simp_all add: cpu_same_def)
  have b0: "cpu_same b c0" by (rule cpu_same_trans [OF bf(1) cs])
  let ?pc = "rpc (cpu_registers b)" and ?t = "Some (cpu_thread b)"
  let ?d = "cpu_cache b (gc_cache_index ?pc)"
  obtain f where m0: "m0 = m\<lparr>gm_fault_address := f\<rparr>" using ms by (auto simp: mem_same_iff)
  obtain rf mf i where fetch: "gm_fetch m ?t ?pc True = (rf, mf, i)" by (metis prod_cases3)
  note fs = gm_fetch_spec [OF wf fetch]
  have mf: "mem_same m mf" "mem_same mf m" using fs(3) mem_same_iff [of m mf] by (auto simp: mem_same_def)
  let ?c0 = "c0\<lparr>cpu_memory_result := rf\<rparr>"
  have plain: "(if rf \<noteq> GM_OK then (Some GC_MEMORY, ?c0, mf) else gc_execute ?c0 mf (decode ?pc (the i)) calloc) =
      (r0, c01, m01)"
    using eq0 False same by (simp add: gc_step_plain_def m0 fetch Let_def)
  show ?thesis
  proof (cases "dc_valid ?d \<and> dc_pc ?d = ?pc")
    case True
    then have hit: "fetchable m ?t ?pc" "?d = decode ?pc (code_word m ?pc)"
      using bf unfolding gc_cache_ok_def by metis+
    have run: "gc_execute b m ?d calloc = (r, c1, m1)"
      using eq False same True by (simp add: gc_step_def b_def [symmetric] Let_def)
    have rf: "rf = GM_OK" "i = Some (code_word m ?pc)" using fs hit by simp_all
    then have run0: "gc_execute ?c0 mf ?d calloc = (r0, c01, m01)" using plain hit(2) by simp
    have "cpu_same b ?c0" using b0 by (simp add: cpu_same_def)
    note sim = gc_execute_same [OF this mf(1) run run0]
    have small: "dc_op ?d = LOAD \<or> dc_op ?d = STORE \<Longrightarrow> dc_amount ?d \<le> 8"
      using decode_access_size hit(2) by metis
    show ?thesis using sim gc_execute_cache [OF wf run bf(2,4) small] by blast
  next
    case miss: False
    show ?thesis
    proof (cases "rf = GM_OK")
      case bad: False
      then have "r = Some GC_MEMORY" "c1 = b\<lparr>cpu_memory_result := rf\<rparr>" "m1 = mf"
        using eq False same miss fetch by (auto simp: gc_step_def b_def [symmetric] Let_def)
      moreover have "r0 = Some GC_MEMORY" "c01 = ?c0" "m01 = mf" using plain bad by auto
      moreover have "gc_cache_ok (b\<lparr>cpu_memory_result := rf\<rparr>) mf"
      proof -
        have "mf = m\<lparr>gm_fault_address := gm_fault_address mf\<rparr>" by (rule fs(3))
        note g = gm_fault_only [OF this]
        have "code_word mf = code_word m" "fetchable mf = fetchable m"
          by (simp_all add: code_word_def fetchable_def fun_eq_iff g)
        then show ?thesis using bf(4) mf(1) by (simp add: gc_cache_ok_def mem_same_def)
      qed
      moreover have "gm_wf mf" using wf mf(1) by (simp add: gm_wf_def mem_same_def)
      ultimately show ?thesis using b0 by (simp add: cpu_same_def mem_same_def)
    next
      case good: True
      let ?new = "decode ?pc (code_word m ?pc)"
      let ?b = "b\<lparr>cpu_memory_result := rf, cpu_cache := (cpu_cache b)(gc_cache_index ?pc := ?new)\<rparr>"
      have i: "i = Some (code_word m ?pc)" "fetchable m ?t ?pc" using fs good by simp_all
      have run: "gc_execute ?b mf ?new calloc = (r, c1, m1)"
        using eq False same miss fetch good i by (auto simp: gc_step_def b_def [symmetric] Let_def)
      have run0: "gc_execute ?c0 mf ?new calloc = (r0, c01, m01)" using plain good i by simp
      have "cpu_same ?b ?c0" using b0 by (simp add: cpu_same_def)
      moreover have "mem_same mf mf" by (simp add: mem_same_def)
      ultimately have sim: "r0 = r \<and> cpu_same c1 c01 \<and> mem_same m1 m01 \<and>
          (r = Some GC_MEMORY \<longrightarrow> m01 = m1 \<and> cpu_memory_result c01 = cpu_memory_result c1)"
        by (rule gc_execute_same [OF _ _ run run0])
      have "mf = m\<lparr>gm_fault_address := gm_fault_address mf\<rparr>" by (rule fs(3))
      note g = gm_fault_only [OF this]
      have code: "code_word mf = code_word m" "fetchable mf = fetchable m"
        by (simp_all add: code_word_def fetchable_def fun_eq_iff g)
      have "gc_cache_ok ?b mf"
        using bf mf(1) i(2) unfolding gc_cache_ok_def code
        by (simp add: mem_same_def decode_pc)
      moreover have "cpu_cache_generation ?b = gm_code_generation mf" using bf(2) mf(1) by (simp add: mem_same_def)
      moreover have "gm_wf mf" using g(1) wf by simp
      ultimately have "gm_wf m1" "gc_cache_ok c1 m1"
        using gc_execute_cache [OF _ run _ _ decode_access_size] by blast+
      then show ?thesis using sim by simp
    qed
  qed
qed

lemma gc_loop_same:
  assumes "gm_wf m" and "gc_cache_ok c m" and "cpu_same c c0" and "mem_same m m0"
    and "gc_loop k c m callocs ret = (r, c1, m1)" and "gc_loop_plain k c0 m0 callocs ret = (r0, c01, m01)"
  shows "r0 = r \<and> cpu_same c1 c01 \<and> mem_same m1 m01 \<and>
    (r = GC_MEMORY \<longrightarrow> m01 = m1 \<and> cpu_memory_result c01 = cpu_memory_result c1) \<and>
    gm_wf m1 \<and> gc_cache_ok c1 m1"
  using assms
proof (induction k arbitrary: c m c0 m0)
  case 0
  then show ?case using cpu_same_simps(1) [OF "0.prems"(3)] by (auto split: if_splits)
next
  case (Suc k)
  obtain s c2 m2 where st: "gc_step c m (callocs k) ret = (s, c2, m2)" by (metis prod_cases3)
  obtain s0 c02 m02 where st0: "gc_step_plain c0 m0 (callocs k) ret = (s0, c02, m02)" by (metis prod_cases3)
  note sim = gc_step_same [OF Suc.prems(1-4) st st0]
  show ?case
  proof (cases s)
    case None
    then show ?thesis
      using Suc.IH [of m2 c2 c02 m02] Suc.prems(5,6) sim st st0 by simp
  next
    case (Some x)
    then show ?thesis using Suc.prems(5,6) sim st st0 by auto
  qed
qed

section \<open>Runs\<close>

text \<open>The instruction counter, and the registers of a run that stops.\<close>

lemma gc_execute_stops:
  assumes "gc_execute c m d calloc = (r, c1, m1)"
  shows "cpu_retired c1 = (if r = None then cpu_retired c + 1 else cpu_retired c)"
    and "r \<noteq> None \<Longrightarrow> cpu_registers c1 = cpu_registers c"
    and "r = Some GC_UNSUPPORTED \<Longrightarrow> m1 = m \<and> cpu_fault_instruction c1 = dc_instruction d \<and>
      \<not> fst (register_decoded (cpu_registers c) d)"
    and "r \<noteq> Some GC_BUDGET" and "r \<noteq> Some GC_RETURNED"
  using assms
  by (auto simp: gc_execute_def gc_access_def Let_def split: if_splits prod.splits)

lemma gc_step_plain_cases:
  assumes "gc_step_plain c m calloc ret = (r, c1, m1)"
  obtains (returned) "rpc (cpu_registers c) = ret" "r = Some GC_RETURNED" "c1 = c" "m1 = m"
  | (fault) f i where "rpc (cpu_registers c) \<noteq> ret" "r = Some GC_MEMORY"
      "gm_fetch m (Some (cpu_thread c)) (rpc (cpu_registers c)) True = (f, m1, i)" "f \<noteq> GM_OK"
      "c1 = c\<lparr>cpu_memory_result := f\<rparr>"
  | (executed) m2 i where "rpc (cpu_registers c) \<noteq> ret"
      "gm_fetch m (Some (cpu_thread c)) (rpc (cpu_registers c)) True = (GM_OK, m2, i)"
      "gc_execute (c\<lparr>cpu_memory_result := GM_OK\<rparr>) m2 (decode (rpc (cpu_registers c)) (the i)) calloc
        = (r, c1, m1)"
  using assms by (auto simp: gc_step_plain_def Let_def split: if_splits prod.splits)

lemma gc_step_plain_stops:
  assumes "gc_step_plain c m calloc ret = (r, c1, m1)"
  shows "cpu_retired c1 = (if r = None then cpu_retired c + 1 else cpu_retired c)"
    and "r \<noteq> None \<Longrightarrow> cpu_registers c1 = cpu_registers c"
    and "r = Some GC_RETURNED \<longleftrightarrow> rpc (cpu_registers c) = ret" and "r \<noteq> Some GC_BUDGET"
proof -
  have "cpu_retired c1 = (if r = None then cpu_retired c + 1 else cpu_retired c) \<and>
    (r \<noteq> None \<longrightarrow> cpu_registers c1 = cpu_registers c) \<and>
    (r = Some GC_RETURNED \<longleftrightarrow> rpc (cpu_registers c) = ret) \<and> r \<noteq> Some GC_BUDGET"
    using assms
  proof (cases rule: gc_step_plain_cases)
    case (executed m2 i)
    then show ?thesis using gc_execute_stops [OF executed(3)] by simp
  qed simp_all
  then show "cpu_retired c1 = (if r = None then cpu_retired c + 1 else cpu_retired c)"
    and "r \<noteq> None \<Longrightarrow> cpu_registers c1 = cpu_registers c"
    and "r = Some GC_RETURNED \<longleftrightarrow> rpc (cpu_registers c) = ret" and "r \<noteq> Some GC_BUDGET" by blast+
qed

lemma gc_loop_plain_stops:
  assumes "gc_loop_plain k c m callocs ret = (r, c1, m1)"
  shows "(\<exists>j \<le> k. cpu_retired c1 = cpu_retired c + of_nat j \<and> (r = GC_BUDGET \<longrightarrow> j = k)) \<and>
    (r = GC_RETURNED \<longleftrightarrow> rpc (cpu_registers c1) = ret)"
  using assms
proof (induction k arbitrary: c m)
  case 0
  then show ?case by (auto split: if_splits)
next
  case (Suc k)
  obtain s c2 m2 where st: "gc_step_plain c m (callocs k) ret = (s, c2, m2)" by (metis prod_cases3)
  note stop = gc_step_plain_stops [OF st]
  show ?case
  proof (cases s)
    case None
    then have "gc_loop_plain k c2 m2 callocs ret = (r, c1, m1)" using Suc.prems st by simp
    from Suc.IH [OF this] obtain j where j: "j \<le> k" "cpu_retired c1 = cpu_retired c2 + of_nat j"
        "r = GC_BUDGET \<longrightarrow> j = k" "r = GC_RETURNED \<longleftrightarrow> rpc (cpu_registers c1) = ret" by blast
    then have "\<exists>j \<le> Suc k. cpu_retired c1 = cpu_retired c + of_nat j \<and> (r = GC_BUDGET \<longrightarrow> j = Suc k)"
      using stop(1) None by (intro exI [of _ "Suc j"]) auto
    then show ?thesis using j(4) by blast
  next
    case (Some x)
    then have "cpu_retired c1 = cpu_retired c" "r \<noteq> GC_BUDGET" using Suc.prems st stop by auto
    then have "\<exists>j \<le> Suc k. cpu_retired c1 = cpu_retired c + of_nat j \<and> (r = GC_BUDGET \<longrightarrow> j = Suc k)"
      by (intro exI [of _ 0]) auto
    then show ?thesis using Some Suc.prems st stop by auto
  qed
qed

text \<open>A run cut after its first \<open>a\<close> steps.\<close>

lemma gc_step_result: "fst (gc_step c m calloc ret) \<noteq> Some GC_BUDGET"
proof -
  have "fst (gc_execute e k d calloc) \<noteq> Some GC_BUDGET" for e k d
    using gc_execute_stops(4) by (metis prod.collapse)
  then show ?thesis
    by (auto simp: gc_step_def Let_def split: prod.splits)
qed

lemma gc_loop_add:
  "gc_loop (a + b) c m callocs ret =
    (case gc_loop a c m (\<lambda>k. callocs (k + b)) ret of
       (r, c', m') \<Rightarrow> if r = GC_BUDGET then gc_loop b c' m' callocs ret else (r, c', m'))"
proof (induction a arbitrary: c m)
  case 0
  have "gc_loop b c m callocs ret = (GC_RETURNED, c, m)" if "rpc (cpu_registers c) = ret"
    using that by (cases b) (simp_all add: gc_step_def)
  then show ?case by simp
next
  case (Suc a)
  obtain s c2 m2 where st: "gc_step c m (callocs (a + b)) ret = (s, c2, m2)" by (metis prod_cases3)
  then have "s \<noteq> Some GC_BUDGET" using gc_step_result by (metis fst_conv)
  then show ?case using Suc.IH [of c2 m2] st by (cases s) simp_all
qed

text \<open>A run that ends at an unsupported instruction: the program counter is at that
  instruction.\<close>

lemma decode_instruction: "dc_instruction (decode pc i) = i"
  by (rule decode_cases [of "\<lambda>d. dc_instruction d = i"]) (simp add: gc_blank_def)

lemma gc_loop_unsupported:
  assumes "gm_wf m" and "gc_cache_ok c m" and "gc_loop k c m callocs ret = (GC_UNSUPPORTED, c1, m1)"
  shows "fetchable m1 (Some (cpu_thread c1)) (rpc (cpu_registers c1)) \<and>
    cpu_fault_instruction c1 = code_word m1 (rpc (cpu_registers c1)) \<and>
    \<not> fst (register_decoded (cpu_registers c1)
        (decode (rpc (cpu_registers c1)) (cpu_fault_instruction c1)))"
  using assms
proof (induction k arbitrary: c m)
  case 0
  then show ?case by (auto split: if_splits)
next
  case (Suc k)
  obtain s c2 m2 where st: "gc_step c m (callocs k) ret = (s, c2, m2)" by (metis prod_cases3)
  obtain s0 c02 m02 where st0: "gc_step_plain c m (callocs k) ret = (s0, c02, m02)" by (metis prod_cases3)
  have "cpu_same c c" "mem_same m m" by (simp_all add: cpu_same_def mem_same_def)
  note sim = gc_step_same [OF Suc.prems(1,2) this st st0]
  show ?case
  proof (cases s)
    case None
    then have "gc_loop k c2 m2 callocs ret = (GC_UNSUPPORTED, c1, m1)"
      using Suc.prems(3) unfolding gc_loop.simps st by simp
    then show ?thesis using Suc.IH [of m2 c2] sim by blast
  next
    case (Some x)
    then have s0: "s0 = Some GC_UNSUPPORTED" "c1 = c2" "m1 = m2" using Suc.prems(3) sim st by auto
    from st0 show ?thesis
    proof (cases rule: gc_step_plain_cases)
      case (executed mf i)
      note fs = gm_fetch_spec [OF Suc.prems(1) executed(2)]
      note ex = gc_execute_stops [OF executed(3)]
      have regs: "cpu_registers c1 = cpu_registers c" "cpu_thread c1 = cpu_thread c02"
          "cpu_fault_instruction c1 = cpu_fault_instruction c02"
        using sim s0 ex(2) by (simp_all add: cpu_same_def)
      have thread: "cpu_thread c02 = cpu_thread c"
        using executed(3) by (auto simp: gc_execute_def gc_access_def Let_def split: if_splits prod.splits)
      have m02: "m02 = mf" "cpu_fault_instruction c02 = the i"
          "\<not> fst (register_decoded (cpu_registers c) (decode (rpc (cpu_registers c)) (the i)))"
        using ex(3) s0 by (simp_all add: decode_instruction)
      have "gm_pages m1 = gm_pages m"
        using sim s0 m02(1) fs(3) by (metis mem_same_def mem_same_iff)
      then have "gm_byte m1 = gm_byte m" "gm_allowed m1 = gm_allowed m"
        by (simp_all add: fun_eq_iff gm_byte_def gm_page_at_def gm_allowed_def)
      then have "code_word m1 = code_word m" "fetchable m1 = fetchable m"
        by (simp_all add: fun_eq_iff code_word_def fetchable_def)
      then show ?thesis using fs(1,2) regs thread m02 by simp
    qed (use s0 in simp_all)
  qed
qed

section \<open>Properties\<close>

lemma gm_copy_write_code:
  assumes "gm_wf m" and "buffer_ok b n" and "gm_copy m t a b n permission True calloc = (r, m', b')"
    and "gm_code_generation m' = gm_code_generation m" and "fetchable m t' pc"
  shows "fetchable m' t' pc \<and> code_word m' pc = code_word m pc"
proof (cases b)
  case None
  obtain f where "m' = m\<lparr>gm_fault_address := f\<rparr>"
    using gm_copy_null [OF assms(1)] assms(3) unfolding None by blast
  from gm_fault_only [OF this] show ?thesis using assms(5) by (simp add: fetchable_def code_word_def)
next
  case (Some buf)
  then have len: "unat n \<le> length buf" using assms(2) by (simp add: buffer_ok_def)
  show ?thesis using gm_copy_keeps_code [OF assms(1) len assms(3) [unfolded Some] assms(4,5)] by simp
qed

text \<open>The code generation guards the decode cache: no call on the address space that leaves
  \<open>code_generation\<close> as it was changes an instruction that could be fetched, or makes it
  unfetchable.\<close>

theorem gm_code_generation_guards_code:
  assumes "gm_step m m'" and "gm_wf m" and "gm_code_generation m' = gm_code_generation m"
    and "fetchable m t pc"
  shows "fetchable m' t pc \<and> code_word m' pc = code_word m pc"
  using assms
proof (induction rule: gm_step.induct)
  case (map m a n prot maxprot jit replace ok)
  then have "snd (gm_map m a n prot maxprot jit replace ok) = m"
    by (auto simp: gm_map_def Let_def split: if_splits)
  then show ?case using map by simp
next
  case (unmap m a n)
  then have "snd (gm_unmap m a n) = m" by (auto simp: gm_unmap_def Let_def split: if_splits)
  then show ?case using unmap by simp
next
  case (protect m a n prot)
  then have "snd (gm_protect m a n prot) = m" by (auto simp: gm_protect_def Let_def split: if_splits)
  then show ?case using protect by simp
next
  case (read b n m a)
  obtain r m' b' where c: "gm_copy m None a b n GM_READ False (\<lambda>_. False) = (r, m', b')"
    by (metis prod_cases3)
  note f = gm_fault_only [OF gm_copy_read_keeps [OF read(2,1) c]]
  show ?case using read(4) c by (simp add: gm_read_def fetchable_def code_word_def f)
next
  case (store b n m s a calloc)
  obtain r m' b' where c: "gm_copy m s a b n GM_WRITE True calloc = (r, m', b')" by (metis prod_cases3)
  then show ?case using gm_copy_write_code [OF store(2,1) c] store(3,4) by (simp add: gm_write_def)
next
  case (populate b n m a calloc)
  obtain r m' b' where c: "gm_copy m None a b n 0 True calloc = (r, m', b')" by (metis prod_cases3)
  then show ?case using gm_copy_write_code [OF populate(2,1) c] populate(3,4) by (simp add: gm_populate_def)
next
  case (fetch m s a out)
  obtain f where m': "fst (snd (gm_fetch m s a out)) = m\<lparr>gm_fault_address := f\<rparr>"
    using gm_fetch_keeps [OF fetch(1)] by blast
  note f = gm_fault_only [OF m']
  show ?case using fetch(3) by (simp add: fetchable_def code_word_def f)
qed

text \<open>For the witnesses: a page of no-operations, and a processor that starts there.\<close>

definition nop_memory :: GuestMemory where
  "nop_memory =
     \<lparr>gm_pages =
        [\<lparr>pg_address = 0x100000000, pg_bytes = None, pg_prot = 3, pg_maxprot = 7, pg_jit = False\<rparr>,
         \<lparr>pg_address = 0x100004000, pg_bytes = Some (\<lambda>i. [0x1f, 0x20, 0x03, 0xd5] ! (i mod 4)),
          pg_prot = 5, pg_maxprot = 5, pg_jit = False\<rparr>],
      gm_generation = 0, gm_code_generation = 7, gm_fault_address = 0\<rparr>"

lemma nop_memory_wf: "gm_wf nop_memory"
  by (simp add: nop_memory_def gm_wf_def gm_sorted_def gm_page_ok_def page_aligned_def)

lemma gc_cache_ok_reset: "gc_cache_ok (gc_reset entry stack) m"
  by (simp add: gc_cache_ok_def gc_reset_def gc_empty_def)

lemma nop_fetchable: "fetchable nop_memory t 0x100004000"
proof -
  have "gm_allowed nop_memory t GM_EXEC x" if x: "in_range 0x100004000 4 x" for x
  proof -
    obtain i where "i < 4" "x = 0x100004000 + of_nat i" using in_range_offset [OF x] by auto
    then have "x = 0x100004000 \<or> x = 0x100004001 \<or> x = 0x100004002 \<or> x = 0x100004003"
      by (auto simp: less_Suc_eq numeral_eq_Suc)
    then have "page_base x = 0x100004000" by (elim disjE) (simp_all add: page_base_def)
    then show ?thesis
      by (simp add: gm_allowed_def tab_allowed_def gm_tab_def nop_memory_def gm_page_denied_def
          gm_jit_denied_def)
  qed
  then show ?thesis by (simp add: fetchable_def)
qed

theorem gm_code_generation_guards_code_witness:
  "code_word (snd (gm_write nop_memory None 0x100000010 (Some [9]) 1 (\<lambda>_. True))) 0x100004000 =
     code_word nop_memory 0x100004000"
proof -
  let ?m = "snd (gm_write nop_memory None 0x100000010 (Some [9]) 1 (\<lambda>_. True))"
  have "gm_step nop_memory ?m" by (rule gm_step.store) (simp add: buffer_ok_def)
  moreover have "gm_code_generation ?m = gm_code_generation nop_memory" by code_simp
  ultimately show ?thesis
    using gm_code_generation_guards_code [OF _ nop_memory_wf _ nop_fetchable] by blast
qed

text \<open>C7. The decode cache is only an optimisation: started with an empty or otherwise valid
  cache, \<open>gc_run\<close> returns what a loop returns that fetches and decodes every instruction anew,
  with the same registers, instruction count, faulting instruction and memory; after a memory
  fault also the result of the access and the fault address agree. This covers programs that write
  their own code, change to code on JIT pages and fault.\<close>

theorem gc_run_cache_transparent:
  assumes "gm_wf m" and "gc_cache_ok c m" and "gc_run c m budget callocs ret = (r, c1, m1)"
  shows "\<exists>c2 m2. gc_loop_plain (unat budget) c m callocs ret = (r, c2, m2) \<and> cpu_same c1 c2 \<and>
    mem_same m1 m2 \<and> (r = GC_MEMORY \<longrightarrow> m1 = m2 \<and> cpu_memory_result c1 = cpu_memory_result c2) \<and>
    gm_wf m1 \<and> gc_cache_ok c1 m1"
proof -
  obtain r0 c2 m2 where p: "gc_loop_plain (unat budget) c m callocs ret = (r0, c2, m2)"
    by (metis prod_cases3)
  have "cpu_same c c" "mem_same m m" by (simp_all add: cpu_same_def mem_same_def)
  from gc_loop_same [OF assms(1,2) this assms(3) [unfolded gc_run_def] p] p show ?thesis by auto
qed

theorem gc_run_cache_transparent_witness:
  "fst (gc_run (gc_reset 0x100004000 0) nop_memory 2 (\<lambda>_ _. True) 0) = GC_BUDGET \<and>
   (\<exists>c2 m2. gc_loop_plain 2 (gc_reset 0x100004000 0) nop_memory (\<lambda>_ _. True) 0 = (GC_BUDGET, c2, m2))"
proof -
  have ok: "fst (gc_run (gc_reset 0x100004000 0) nop_memory 2 (\<lambda>_ _. True) 0) = GC_BUDGET"
    by code_simp
  then obtain c1 m1 where "gc_run (gc_reset 0x100004000 0) nop_memory 2 (\<lambda>_ _. True) 0 = (GC_BUDGET, c1, m1)"
    by (metis prod.collapse)
  from gc_run_cache_transparent [OF nop_memory_wf gc_cache_ok_reset this] ok show ?thesis by auto
qed

text \<open>A run can be cut anywhere: a run of \<open>a + b\<close> instructions is a run of \<open>a\<close> that, if it
  used up its budget, is continued by a run of \<open>b\<close> from the state it left.\<close>

theorem gc_run_resumes:
  assumes "unat a + unat b < 2 ^ 64"
  shows "gc_run c m (a + b) callocs ret =
    (case gc_run c m a (\<lambda>k. callocs (k + unat b)) ret of
       (r, c', m') \<Rightarrow> if r = GC_BUDGET then gc_run c' m' b callocs ret else (r, c', m'))"
  unfolding gc_run_def unat_plus_nowrap [OF assms] by (rule gc_loop_add)

theorem gc_run_resumes_witness:
  "gc_run (gc_reset 0x100004000 0) nop_memory 2 (\<lambda>_ _. True) 0 =
    (case gc_run (gc_reset 0x100004000 0) nop_memory 1 (\<lambda>_ _. True) 0 of
       (r, c', m') \<Rightarrow> if r = GC_BUDGET then gc_run c' m' 1 (\<lambda>_ _. True) 0 else (r, c', m'))"
  using gc_run_resumes [of 1 1 "gc_reset 0x100004000 0" nop_memory "\<lambda>_ _. True" 0] by simp

text \<open>Every unsupported instruction stops the run at its own address: the program counter
  still points to it, it can be fetched there, it is the reported instruction, the decoder rejects
  it, and no more than the budget of instructions was retired.\<close>

theorem gc_run_stops_at_unsupported:
  assumes "gm_wf m" and "gc_cache_ok c m" and "gc_run c m budget callocs ret = (GC_UNSUPPORTED, c1, m1)"
  shows "fetchable m1 (Some (cpu_thread c1)) (rpc (cpu_registers c1)) \<and>
    cpu_fault_instruction c1 = code_word m1 (rpc (cpu_registers c1)) \<and>
    \<not> fst (register_decoded (cpu_registers c1)
        (decode (rpc (cpu_registers c1)) (cpu_fault_instruction c1))) \<and>
    (\<exists>j \<le> unat budget. cpu_retired c1 = cpu_retired c + of_nat j)"
proof -
  obtain r0 c2 m2 where p: "gc_loop_plain (unat budget) c m callocs ret = (r0, c2, m2)"
    by (metis prod_cases3)
  have "cpu_same c c" "mem_same m m" by (simp_all add: cpu_same_def mem_same_def)
  note sim = gc_loop_same [OF assms(1,2) this assms(3) [unfolded gc_run_def] p]
  have "\<exists>j \<le> unat budget. cpu_retired c1 = cpu_retired c + of_nat j"
    using gc_loop_plain_stops [OF p] sim by (auto simp: cpu_same_def)
  then show ?thesis using gc_loop_unsupported [OF assms(1,2) assms(3) [unfolded gc_run_def]] by blast
qed

definition zero_code :: GuestMemory where
  "zero_code =
     \<lparr>gm_pages =
        [\<lparr>pg_address = 0x100004000, pg_bytes = None, pg_prot = 5, pg_maxprot = 5, pg_jit = False\<rparr>],
      gm_generation = 0, gm_code_generation = 0, gm_fault_address = 0\<rparr>"

theorem gc_run_stops_at_unsupported_witness:
  "\<exists>c1 m1. gc_run (gc_reset 0x100004000 0) zero_code 5 (\<lambda>_ _. True) 0 = (GC_UNSUPPORTED, c1, m1) \<and>
     cpu_fault_instruction c1 = code_word m1 (rpc (cpu_registers c1))"
proof -
  have wf: "gm_wf zero_code"
    by (simp add: zero_code_def gm_wf_def gm_sorted_def gm_page_ok_def page_aligned_def)
  have "fst (gc_run (gc_reset 0x100004000 0) zero_code 5 (\<lambda>_ _. True) 0) = GC_UNSUPPORTED"
    by code_simp
  then obtain c1 m1 where "gc_run (gc_reset 0x100004000 0) zero_code 5 (\<lambda>_ _. True) 0 = (GC_UNSUPPORTED, c1, m1)"
    by (metis prod.collapse)
  from this gc_run_stops_at_unsupported [OF wf gc_cache_ok_reset this] show ?thesis by blast
qed

end
