(* ===== verification/GuestSparseMemory.thy ===== *)
theory GuestSparseMemory
  imports GuestMemory Scalars "HOL-Library.Monad_Syntax"
begin

text \<open>
  The sparse software memory of \<open>runtime/GuestSparseMemory.c\<close>: an address range of a fixed
  extent, a bounded array of mapped regions, and a fixed arena of backing pages found through an
  open-addressing hash table with tombstones.

  \<^item> A \<open>GMSparseMemory\<close> handle is \<open>None\<close> when it is null or holds no implementation, and
    otherwise its \<open>Space\<close>. Every operation runs with the lock of the space held from its first
    to its last access, so an operation is one step on the space.
  \<^item> \<open>SIZE_MAX\<close> as the result of a search is \<open>None\<close>. Indices, counts and capacities are
    naturals: the table and the arena are far smaller than \<open>2 ^ 64\<close>.
  \<^item> The first \<open>free_count\<close> entries of \<open>free_backing\<close> are the list \<open>s_free\<close>, the most
    recently freed page first. The arena maps a page number and an offset to a byte, for both
    backends.
\<close>

section \<open>State\<close>

abbreviation REGION_LIMIT :: nat where "REGION_LIMIT \<equiv> 256"

record Region =
  rg_start :: u64
  rg_end :: u64
  rg_prot :: u32
  rg_maxprot :: u32

record Page =
  sp_address :: u64
  sp_generation :: u64
  sp_backing :: nat

record Space =
  s_base :: u64
  s_end :: u64
  s_generation :: u64
  s_mapping_generation :: u64
  s_backing :: "nat \<Rightarrow> nat \<Rightarrow> u8"
  s_capacity :: nat
  s_resident :: nat
  s_next_backing :: nat
  s_slot_count :: nat
  s_free :: "nat list"
  s_pages :: "Page list"
  s_regions :: "Region list"

record GMSparseExclusive =
  ex_address :: u64
  ex_generation :: u64
  ex_mapping_generation :: u64
  ex_size :: u64
  ex_valid :: bool

record GMSparseStats =
  st_reserved_bytes :: u64
  st_write_operations :: u64
  st_regions :: nat
  st_resident_pages :: nat
  st_capacity_pages :: nat

datatype GMSparseAtomic = GM_ATOMIC_ADD | GM_ATOMIC_CLEAR | GM_ATOMIC_XOR | GM_ATOMIC_SET
  | GM_ATOMIC_SIGNED_MAX | GM_ATOMIC_SIGNED_MIN | GM_ATOMIC_UNSIGNED_MAX | GM_ATOMIC_UNSIGNED_MIN
  | GM_ATOMIC_SWAP

datatype Operation = MAP | UNMAP | PROTECT

section \<open>Ranges\<close>

definition sp_aligned :: "u64 \<Rightarrow> u64 \<Rightarrow> bool" where
  "sp_aligned a n \<longleftrightarrow>
     n \<noteq> 0 \<and> a mod GM_PAGE_SIZE = 0 \<and> n mod GM_PAGE_SIZE = 0 \<and> n \<le> UINT64_MAX - a"

definition sp_contains :: "Space \<Rightarrow> u64 \<Rightarrow> u64 \<Rightarrow> bool" where
  "sp_contains s a n \<longleftrightarrow> s_base s \<le> a \<and> a \<le> s_end s \<and> n \<le> s_end s - a"

definition mapping_range :: "Space \<Rightarrow> u64 \<Rightarrow> u64 \<Rightarrow> bool" where
  "mapping_range s a n \<longleftrightarrow> sp_aligned a n \<and> sp_contains s a n"

section \<open>The page table\<close>

definition page_hash :: "u64 \<Rightarrow> u64" where
  "page_hash address =
     (let h = address div GM_PAGE_SIZE;
          h = h XOR drop_bit 30 h; h = h * 0xbf58476d1ce4e5b9;
          h = h XOR drop_bit 27 h; h = h * 0x94d049bb133111eb
      in h XOR drop_bit 31 h)"

text \<open>The probe loop of \<open>page_slot\<close>; \<open>k\<close> is the number of steps left.\<close>

primrec page_probe ::
  "nat \<Rightarrow> Page list \<Rightarrow> nat \<Rightarrow> u64 \<Rightarrow> bool \<Rightarrow> nat \<Rightarrow> nat option \<Rightarrow> nat option" where
  "page_probe 0 pages count address insertion i first_deleted =
     (if insertion then first_deleted else None)"
| "page_probe (Suc k) pages count address insertion i first_deleted =
     (let found = sp_address (pages ! i)
      in if found = address then Some i
         else if found = 0 then
           (if insertion then (case first_deleted of Some d \<Rightarrow> Some d | None \<Rightarrow> Some i) else None)
         else page_probe k pages count address insertion ((i + 1) AND (count - 1))
                (if found = UINT64_MAX \<and> first_deleted = None then Some i else first_deleted))"

definition page_slot :: "Space \<Rightarrow> u64 \<Rightarrow> bool \<Rightarrow> nat option" where
  "page_slot s address insertion =
     page_probe (s_slot_count s) (s_pages s) (s_slot_count s) address insertion
       (unat (page_hash address AND (of_nat (s_slot_count s) - 1))) None"

text \<open>\<open>discard_pages\<close> walks the table in order; each page it drops goes on the free list.\<close>

definition discarded :: "u64 \<Rightarrow> u64 \<Rightarrow> Page \<Rightarrow> bool" where
  "discarded from to p \<longleftrightarrow>
     sp_address p \<noteq> 0 \<and> sp_address p \<noteq> UINT64_MAX \<and> from \<le> sp_address p \<and> sp_address p < to"

definition discard_pages :: "Space \<Rightarrow> u64 \<Rightarrow> u64 \<Rightarrow> Space" where
  "discard_pages s from to =
     (let gone = filter (discarded from to) (s_pages s)
      in s\<lparr>s_free := rev (map sp_backing gone) @ s_free s,
           s_pages := map (\<lambda>p. if discarded from to p then p\<lparr>sp_address := UINT64_MAX\<rparr> else p) (s_pages s),
           s_resident := s_resident s - length gone\<rparr>)"

section \<open>Life cycle\<close>

function slots_for :: "nat \<Rightarrow> nat \<Rightarrow> nat option" where
  "slots_for capacity slots =
     (if 0 < slots \<and> slots < capacity * 2 then
        (if slots > (2 ^ 64 - 1) div 2 then None else slots_for capacity (slots * 2))
      else Some slots)"
  by pat_completeness auto
termination
  by (relation "measure (\<lambda>(capacity, slots). capacity * 2 - slots)") auto

declare slots_for.simps [simp del]

text \<open>\<open>memory\<close> is \<open>None\<close> for a null handle. The four booleans say which allocations succeed
  (the space, the backing, the table, the free list); \<open>garbage\<close> is the first content of the
  backing.\<close>

definition initialize ::
  "Space option option \<Rightarrow> u64 \<Rightarrow> u64 \<Rightarrow> u64 \<Rightarrow> bool \<Rightarrow> bool \<Rightarrow> bool \<Rightarrow> bool \<Rightarrow> (nat \<Rightarrow> nat \<Rightarrow> u8)
     \<Rightarrow> GMResult \<times> Space option option" where
  "initialize memory base sz backing_bytes space_ok backing_ok pages_ok free_ok garbage =
     (if memory \<noteq> Some None \<or> base = 0 \<or> \<not> sp_aligned base sz \<or> backing_bytes = 0
         \<or> backing_bytes mod GM_PAGE_SIZE \<noteq> 0 then (GM_INVALID, memory)
      else let capacity = unat (backing_bytes div GM_PAGE_SIZE)
      in if capacity > (2 ^ 64 - 1) div 2 then (GM_NOMEM, memory)
      else case slots_for capacity 16 of
        None \<Rightarrow> (GM_NOMEM, memory)
      | Some slots \<Rightarrow>
          if slots > (2 ^ 64 - 1) div 24 \<or> capacity > (2 ^ 64 - 1) div 8 then (GM_NOMEM, memory)
          else if \<not> space_ok \<or> \<not> backing_ok \<or> \<not> pages_ok \<or> \<not> free_ok then (GM_NOMEM, memory)
          else (GM_OK, Some (Some
            \<lparr>s_base = base, s_end = base + sz, s_generation = 0, s_mapping_generation = 0,
             s_backing = garbage, s_capacity = capacity, s_resident = 0, s_next_backing = 0,
             s_slot_count = slots, s_free = [],
             s_pages = replicate slots \<lparr>sp_address = 0, sp_generation = 0, sp_backing = 0\<rparr>,
             s_regions = []\<rparr>)))"

text \<open>The two backends: one anonymous mapping, which starts as zeros, and blocks of \<open>malloc\<close>.\<close>

definition gm_sparse_init ::
  "Space option option \<Rightarrow> u64 \<Rightarrow> u64 \<Rightarrow> u64 \<Rightarrow> bool \<Rightarrow> bool \<Rightarrow> bool \<Rightarrow> bool \<Rightarrow> GMResult \<times> Space option option"
where
  "gm_sparse_init memory base sz backing_bytes space_ok backing_ok pages_ok free_ok =
     initialize memory base sz backing_bytes space_ok backing_ok pages_ok free_ok (\<lambda>_ _. 0)"

definition gm_sparse_init_blocks ::
  "Space option option \<Rightarrow> u64 \<Rightarrow> u64 \<Rightarrow> u64 \<Rightarrow> bool \<Rightarrow> bool \<Rightarrow> bool \<Rightarrow> bool \<Rightarrow> (nat \<Rightarrow> nat \<Rightarrow> u8)
     \<Rightarrow> GMResult \<times> Space option option" where
  "gm_sparse_init_blocks memory base sz backing_bytes space_ok backing_ok pages_ok free_ok garbage =
     initialize memory base sz backing_bytes space_ok backing_ok pages_ok free_ok garbage"

definition gm_sparse_destroy :: "Space option option \<Rightarrow> Space option option" where
  "gm_sparse_destroy memory =
     (case memory of Some (Some s) \<Rightarrow> Some None | _ \<Rightarrow> memory)"

section \<open>Regions\<close>

definition rg_append :: "Region list \<Rightarrow> Region \<Rightarrow> Region list option" where
  "rg_append regions r =
     (if rg_start r = rg_end r then Some regions
      else if regions \<noteq> [] \<and> rg_end (last regions) = rg_start r \<and> rg_prot (last regions) = rg_prot r
              \<and> rg_maxprot (last regions) = rg_maxprot r
      then Some (butlast regions @ [(last regions)\<lparr>rg_end := rg_end r\<rparr>])
      else if length regions = REGION_LIMIT then None
      else Some (regions @ [r]))"

definition rg_part :: "Region \<Rightarrow> u64 \<Rightarrow> u64 \<Rightarrow> Region" where
  "rg_part r a b = r\<lparr>rg_start := a, rg_end := b\<rparr>"

fun free_candidate :: "Region list \<Rightarrow> u64 \<Rightarrow> u64 \<Rightarrow> u64" where
  "free_candidate [] sz candidate = candidate"
| "free_candidate (r # rs) sz candidate =
     (if sz \<le> rg_start r - candidate then candidate else free_candidate rs sz (rg_end r))"

text \<open>The result; \<open>out\<close> is \<open>False\<close> for a null result pointer.\<close>

definition gm_sparse_find_free :: "Space option \<Rightarrow> u64 \<Rightarrow> bool \<Rightarrow> GMResult \<times> u64 option" where
  "gm_sparse_find_free memory sz out =
     (case memory of
        None \<Rightarrow> (GM_INVALID, None)
      | Some s \<Rightarrow>
          if \<not> out \<or> \<not> sp_aligned 0 sz then (GM_INVALID, None)
          else let candidate = free_candidate (s_regions s) sz (s_base s)
          in if sz \<le> s_end s - candidate then (GM_OK, Some candidate) else (GM_NOMEM, None))"

text \<open>The first loop of \<open>change\<close>: overlap for \<open>MAP\<close>, coverage for \<open>PROTECT\<close>.\<close>

fun change_check :: "Operation \<Rightarrow> bool \<Rightarrow> u64 \<Rightarrow> u64 \<Rightarrow> Region list \<Rightarrow> u64 \<Rightarrow> GMResult" where
  "change_check op replace a e [] covered =
     (if op = PROTECT \<and> covered \<noteq> e then GM_UNMAPPED else GM_OK)"
| "change_check op replace a e (r # rs) covered =
     (if rg_end r \<le> a \<or> rg_start r \<ge> e then change_check op replace a e rs covered
      else if op = MAP \<and> \<not> replace then GM_OVERLAP
      else if op = PROTECT then
        (if rg_start r > covered then GM_UNMAPPED
         else change_check op replace a e rs (if rg_end r < e then rg_end r else e))
      else change_check op replace a e rs covered)"

text \<open>The loop of \<open>change\<close> that builds the new regions; \<open>None\<close> when they are too many.\<close>

fun change_loop ::
  "Operation \<Rightarrow> u64 \<Rightarrow> u64 \<Rightarrow> u32 \<Rightarrow> u32 \<Rightarrow> Region list \<Rightarrow> Region list \<Rightarrow> bool
     \<Rightarrow> (Region list \<times> bool) option" where
  "change_loop op a e prot maxprot [] next inserted = Some (next, inserted)"
| "change_loop op a e prot maxprot (r # rs) next inserted =
     (if rg_end r \<le> a then do {
        next \<leftarrow> rg_append next r;
        change_loop op a e prot maxprot rs next inserted
      } else do {
        (next, inserted) \<leftarrow>
          (if \<not> inserted then do {
             next \<leftarrow> (if rg_start r < a then rg_append next (rg_part r (rg_start r) a) else Some next);
             next \<leftarrow> rg_append next \<lparr>rg_start = a, rg_end = e, rg_prot = prot, rg_maxprot = maxprot\<rparr>;
             Some (next, True)
           } else Some (next, inserted));
        if rg_start r \<ge> e then do {
          next \<leftarrow> rg_append next r;
          change_loop op a e prot maxprot rs next inserted
        } else do {
          next \<leftarrow> (if op \<noteq> MAP \<and> rg_start r < a
                   then rg_append next (rg_part r (rg_start r) a) else Some next);
          next \<leftarrow> (if op = PROTECT
                   then rg_append next
                          ((rg_part r (if rg_start r > a then rg_start r else a)
                              (if rg_end r < e then rg_end r else e))\<lparr>rg_prot := prot\<rparr>)
                   else Some next);
          next \<leftarrow> (if rg_end r > e then rg_append next (rg_part r e (rg_end r)) else Some next);
          change_loop op a e prot maxprot rs next inserted
        }
      })"

definition change_regions ::
  "Operation \<Rightarrow> u64 \<Rightarrow> u64 \<Rightarrow> u32 \<Rightarrow> u32 \<Rightarrow> Region list \<Rightarrow> Region list option" where
  "change_regions op a e prot maxprot regions = do {
     (next, inserted) \<leftarrow> change_loop op a e prot maxprot regions [] (op \<noteq> MAP);
     if \<not> inserted
     then rg_append next \<lparr>rg_start = a, rg_end = e, rg_prot = prot, rg_maxprot = maxprot\<rparr>
     else Some next
   }"

definition change ::
  "Space option \<Rightarrow> u64 \<Rightarrow> u64 \<Rightarrow> u32 \<Rightarrow> u32 \<Rightarrow> bool \<Rightarrow> Operation \<Rightarrow> GMResult \<times> Space option" where
  "change memory a n prot maxprot replace op =
     (case memory of
        None \<Rightarrow> (GM_INVALID, None)
      | Some s \<Rightarrow>
          if \<not> mapping_range s a n \<or> maxprot AND NOT 7 \<noteq> 0 \<or> prot AND NOT maxprot \<noteq> 0
          then (GM_INVALID, memory)
          else let e = a + n; result = change_check op replace a e (s_regions s) a
          in if result \<noteq> GM_OK then (result, memory)
          else if op = PROTECT \<and>
             list_ex (\<lambda>r. rg_end r > a \<and> rg_start r < e \<and> prot AND NOT (rg_maxprot r) \<noteq> 0) (s_regions s)
          then (GM_PROTECTION, memory)
          else case change_regions op a e prot maxprot (s_regions s) of
            None \<Rightarrow> (GM_NOMEM, memory)
          | Some next \<Rightarrow>
              let s = (if s_resident s \<noteq> 0 \<and> op \<noteq> PROTECT then discard_pages s a e else s)
              in (GM_OK, Some (s\<lparr>s_regions := next,
                     s_mapping_generation := s_mapping_generation s + 1\<rparr>)))"

definition gm_sparse_map ::
  "Space option \<Rightarrow> u64 \<Rightarrow> u64 \<Rightarrow> u32 \<Rightarrow> u32 \<Rightarrow> bool \<Rightarrow> GMResult \<times> Space option" where
  "gm_sparse_map m a n prot maxprot replace = change m a n prot maxprot replace MAP"

definition gm_sparse_unmap :: "Space option \<Rightarrow> u64 \<Rightarrow> u64 \<Rightarrow> GMResult \<times> Space option" where
  "gm_sparse_unmap m a n = change m a n 0 0 False UNMAP"

definition gm_sparse_protect :: "Space option \<Rightarrow> u64 \<Rightarrow> u64 \<Rightarrow> u32 \<Rightarrow> GMResult \<times> Space option" where
  "gm_sparse_protect m a n prot = change m a n prot 7 False PROTECT"

section \<open>Accesses\<close>

text \<open>The loop of \<open>check_access\<close>.\<close>

fun access_check :: "u32 \<Rightarrow> u64 \<Rightarrow> Region list \<Rightarrow> u64 \<Rightarrow> GMResult" where
  "access_check permission e [] covered = (if covered = e then GM_OK else GM_UNMAPPED)"
| "access_check permission e (r # rs) covered =
     (if covered < e then
        (if rg_end r \<le> covered then access_check permission e rs covered
         else if rg_start r > covered then (if covered = e then GM_OK else GM_UNMAPPED)
         else if rg_prot r AND permission \<noteq> permission then GM_PROTECTION
         else access_check permission e rs (if rg_end r < e then rg_end r else e))
      else if covered = e then GM_OK else GM_UNMAPPED)"

definition check_access :: "Space \<Rightarrow> u64 \<Rightarrow> u64 \<Rightarrow> u32 \<Rightarrow> GMResult" where
  "check_access s a n permission =
     (if \<not> sp_contains s a n then GM_INVALID
      else if n = 0 then GM_OK
      else access_check permission (a + n) (s_regions s) a)"

text \<open>The pages the loops over \<open>page = a - a % GM_PAGE_SIZE; page < end; page += GM_PAGE_SIZE\<close>
  visit. The end of a space is a multiple of the page size, so \<open>page\<close> never wraps.\<close>

definition page_walk :: "u64 \<Rightarrow> u64 \<Rightarrow> u64 list" where
  "page_walk a e =
     (let page = a - a mod GM_PAGE_SIZE
      in map (\<lambda>k. page + of_nat k * GM_PAGE_SIZE) [0..<(unat e - unat page + 16383) div 16384])"

text \<open>The capacity preflight: \<open>False\<close> when the pages missing exceed the free backing.\<close>

fun backing_enough :: "Space \<Rightarrow> u64 list \<Rightarrow> nat \<Rightarrow> bool" where
  "backing_enough s [] needed = True"
| "backing_enough s (page # pages) needed =
     (if page_slot s page False = None then
        needed + 1 \<le> s_capacity s - s_resident s \<and> backing_enough s pages (needed + 1)
      else backing_enough s pages needed)"

text \<open>A zeroed backing page for \<open>page\<close>, entered in the table; returns its slot.\<close>

definition alloc_page :: "Space \<Rightarrow> u64 \<Rightarrow> Space \<times> nat" where
  "alloc_page s page =
     (let slot = the (page_slot s page True);
          (backing, s) = (case s_free s of
             b # bs \<Rightarrow> (b, s\<lparr>s_free := bs\<rparr>)
           | [] \<Rightarrow> (s_next_backing s, s\<lparr>s_next_backing := s_next_backing s + 1\<rparr>))
      in (s\<lparr>s_backing := (s_backing s)(backing := (\<lambda>_. 0)),
            s_pages := (s_pages s)[slot := \<lparr>sp_address = page, sp_generation = 0, sp_backing = backing\<rparr>],
            s_resident := s_resident s + 1\<rparr>, slot))"

definition write_slot :: "Space \<Rightarrow> nat \<Rightarrow> nat \<Rightarrow> u8 list \<Rightarrow> Space" where
  "write_slot s slot offset src =
     (let b = sp_backing (s_pages s ! slot)
      in s\<lparr>s_backing := (s_backing s)(b := block_write (s_backing s b) offset src),
           s_pages := (s_pages s)[slot := (s_pages s ! slot)\<lparr>sp_generation := s_generation s\<rparr>]\<rparr>)"

text \<open>The copy loop of \<open>access_locked\<close>; \<open>b\<close> is the cursor in the buffer.\<close>

function sparse_copy_loop ::
  "bool \<Rightarrow> Space \<Rightarrow> u8 list \<Rightarrow> nat \<Rightarrow> u64 \<Rightarrow> u64 \<Rightarrow> Space \<times> u8 list" where
  "sparse_copy_loop write s buf b a n =
     (if n \<noteq> 0 then
        (let page = a - a mod GM_PAGE_SIZE; offset = unat (a mod GM_PAGE_SIZE);
             chunk = page_chunk a n; len = unat chunk; slot = page_slot s page False
         in if write then
              (let (s, slot) = (case slot of None \<Rightarrow> alloc_page s page | Some i \<Rightarrow> (s, i))
               in sparse_copy_loop write (write_slot s slot offset (take len (drop b buf))) buf
                    (b + len) (a + chunk) (n - chunk))
            else
              sparse_copy_loop write s
                (buffer_write buf b
                   (case slot of
                      Some i \<Rightarrow> map (s_backing s (sp_backing (s_pages s ! i))) [offset..<offset + len]
                    | None \<Rightarrow> replicate len 0))
                (b + len) (a + chunk) (n - chunk))
      else (s, buf))"
  by pat_completeness auto
termination
proof (relation "measure (\<lambda>(w, s, buf, b, a, n). unat n)", goal_cases)
  case 1
  show ?case by simp
next
  case (2 w s buf b a n)
  then show ?case
    using page_chunk_le [of a n] page_chunk_pos [of n a]
    by (simp add: unat_sub word_neq_0_conv word_nat)
next
  case (3 w s buf b a n)
  then show ?case
    using page_chunk_le [of a n] page_chunk_pos [of n a]
    by (simp add: unat_sub word_neq_0_conv word_nat)
qed

declare sparse_copy_loop.simps [simp del]

definition access_locked ::
  "Space \<Rightarrow> u64 \<Rightarrow> u8 list option \<Rightarrow> u64 \<Rightarrow> bool \<Rightarrow> GMResult \<times> Space \<times> u8 list option" where
  "access_locked s a buffer n write =
     (if n \<noteq> 0 \<and> buffer = None then (GM_INVALID, s, None)
      else let result = check_access s a n (if write then GM_WRITE else GM_READ)
      in if result \<noteq> GM_OK \<or> n = 0 then (result, s, buffer)
      else if write \<and> \<not> backing_enough s (page_walk a (a + n)) 0 then (GM_NOMEM, s, buffer)
      else let s = (if write then s\<lparr>s_generation := s_generation s + 1\<rparr> else s);
               (s, buf) = sparse_copy_loop write s (the buffer) 0 a n
      in (GM_OK, s, Some buf))"

text \<open>The allocation loop of \<open>gm_sparse_prepare\<close>.\<close>

fun prepare_pages :: "Space \<Rightarrow> u64 list \<Rightarrow> Space" where
  "prepare_pages s [] = s"
| "prepare_pages s (page # pages) =
     (if page_slot s page False \<noteq> None then prepare_pages s pages
      else prepare_pages (fst (alloc_page s page)) pages)"

definition gm_sparse_prepare :: "Space option \<Rightarrow> u64 \<Rightarrow> u64 \<Rightarrow> u32 \<Rightarrow> GMResult \<times> Space option" where
  "gm_sparse_prepare memory a n permissions =
     (case memory of
        None \<Rightarrow> (GM_INVALID, None)
      | Some s \<Rightarrow>
          if permissions AND NOT (GM_READ OR GM_WRITE) \<noteq> 0 then (GM_INVALID, memory)
          else let result = check_access s a n permissions
          in if result \<noteq> GM_OK \<or> n = 0 \<or> permissions AND GM_WRITE = 0 then (result, memory)
          else if \<not> backing_enough s (page_walk a (a + n)) 0 then (GM_NOMEM, memory)
          else (GM_OK, Some (prepare_pages s (page_walk a (a + n)))))"

definition access_memory ::
  "Space option \<Rightarrow> u64 \<Rightarrow> u8 list option \<Rightarrow> u64 \<Rightarrow> bool \<Rightarrow> GMResult \<times> Space option \<times> u8 list option" where
  "access_memory memory a buffer n write =
     (case memory of
        None \<Rightarrow> (GM_INVALID, None, buffer)
      | Some s \<Rightarrow> let (r, s, b) = access_locked s a buffer n write in (r, Some s, b))"

definition gm_sparse_read ::
  "Space option \<Rightarrow> u64 \<Rightarrow> u8 list option \<Rightarrow> u64 \<Rightarrow> GMResult \<times> Space option \<times> u8 list option" where
  "gm_sparse_read m a b n = access_memory m a b n False"

definition gm_sparse_write ::
  "Space option \<Rightarrow> u64 \<Rightarrow> u8 list option \<Rightarrow> u64 \<Rightarrow> GMResult \<times> Space option" where
  "gm_sparse_write m a b n = (let (r, m, _) = access_memory m a b n True in (r, m))"

section \<open>Atomic accesses\<close>

definition atomic_size :: "u64 \<Rightarrow> u64 \<Rightarrow> bool" where
  "atomic_size address sz \<longleftrightarrow>
     sz \<noteq> 0 \<and> sz \<le> 16 \<and> sz AND (sz - 1) = 0 \<and> address mod sz = 0"

definition page_generation :: "Space \<Rightarrow> u64 \<Rightarrow> u64" where
  "page_generation s address =
     (case page_slot s (address - address mod GM_PAGE_SIZE) False of
        None \<Rightarrow> 0 | Some slot \<Rightarrow> sp_generation (s_pages s ! slot))"

text \<open>The monitor argument is \<open>None\<close> for a null pointer, as are the buffers.\<close>

definition gm_sparse_load_exclusive ::
  "Space option \<Rightarrow> u64 \<Rightarrow> u8 list option \<Rightarrow> u64 \<Rightarrow> GMSparseExclusive option
     \<Rightarrow> GMResult \<times> Space option \<times> u8 list option \<times> GMSparseExclusive option" where
  "gm_sparse_load_exclusive m a b n monitor =
     (case m of
        None \<Rightarrow> (GM_INVALID, m, b, monitor)
      | Some s \<Rightarrow>
          if monitor = None \<or> \<not> atomic_size a n then (GM_INVALID, m, b, monitor)
          else let (r, s, b) = access_locked s a b n False
          in (r, Some s, b,
              if r = GM_OK
              then Some \<lparr>ex_address = a, ex_generation = page_generation s a,
                         ex_mapping_generation = s_mapping_generation s, ex_size = n, ex_valid = True\<rparr>
              else monitor))"

definition monitor_valid :: "Space \<Rightarrow> u64 \<Rightarrow> u64 \<Rightarrow> GMSparseExclusive \<Rightarrow> bool" where
  "monitor_valid s a n x \<longleftrightarrow>
     ex_valid x \<and> ex_address x = a \<and> ex_size x = n
     \<and> ex_mapping_generation x = s_mapping_generation s \<and> ex_generation x = page_generation s a"

text \<open>\<open>stored\<close> is \<open>False\<close> for a null pointer; the last component is the flag the call writes
  through it, \<open>None\<close> when it leaves the caller's flag as it was.\<close>

definition gm_sparse_store_exclusive ::
  "Space option \<Rightarrow> u64 \<Rightarrow> u8 list option \<Rightarrow> u64 \<Rightarrow> GMSparseExclusive option \<Rightarrow> bool
     \<Rightarrow> GMResult \<times> Space option \<times> GMSparseExclusive option \<times> bool option" where
  "gm_sparse_store_exclusive m a b n monitor stored =
     (case (m, monitor) of
        (Some s, Some x) \<Rightarrow>
          if \<not> stored \<or> b = None \<or> \<not> atomic_size a n then (GM_INVALID, m, monitor, None)
          else let valid = monitor_valid s a n x;
                   (r, s, _) = (if valid then access_locked s a b n True else (GM_OK, s, b))
          in if r = GM_OK then (r, Some s, Some (x\<lparr>ex_valid := False\<rparr>), Some valid)
             else (r, Some s, monitor, None)
      | _ \<Rightarrow> (GM_INVALID, m, monitor, None))"

text \<open>The caller's \<open>previous\<close> buffer is written on success only: the last component.\<close>

definition gm_sparse_compare_exchange ::
  "Space option \<Rightarrow> u64 \<Rightarrow> u8 list option \<Rightarrow> u8 list option \<Rightarrow> bool \<Rightarrow> u64
     \<Rightarrow> GMResult \<times> Space option \<times> u8 list option" where
  "gm_sparse_compare_exchange m a expected desired previous n =
     (case m of
        None \<Rightarrow> (GM_INVALID, m, None)
      | Some s \<Rightarrow>
          if expected = None \<or> desired = None \<or> \<not> previous \<or> \<not> atomic_size a n then (GM_INVALID, m, None)
          else let r = check_access s a n (GM_READ OR GM_WRITE)
          in if r \<noteq> GM_OK then (r, m, None)
          else let (r, s, old) = access_locked s a (Some (replicate 16 0)) n False
          in if r \<noteq> GM_OK then (r, Some s, None)
          else let (r, s) = (if take (unat n) (the old) = take (unat n) (the expected)
                             then (let (r, s, _) = access_locked s a desired n True in (r, s))
                             else (GM_OK, s))
          in (r, Some s, if r = GM_OK then Some (take (unat n) (the old)) else None))"

definition atomic_value :: "GMSparseAtomic \<Rightarrow> u64 \<Rightarrow> u64 \<Rightarrow> u64 \<Rightarrow> u64" where
  "atomic_value operation sign old operand =
     (case operation of
        GM_ATOMIC_ADD \<Rightarrow> old + operand
      | GM_ATOMIC_CLEAR \<Rightarrow> old AND NOT operand
      | GM_ATOMIC_XOR \<Rightarrow> old XOR operand
      | GM_ATOMIC_SET \<Rightarrow> old OR operand
      | GM_ATOMIC_SIGNED_MAX \<Rightarrow> if old XOR sign > operand XOR sign then old else operand
      | GM_ATOMIC_SIGNED_MIN \<Rightarrow> if old XOR sign < operand XOR sign then old else operand
      | GM_ATOMIC_UNSIGNED_MAX \<Rightarrow> if old > operand then old else operand
      | GM_ATOMIC_UNSIGNED_MIN \<Rightarrow> if old < operand then old else operand
      | GM_ATOMIC_SWAP \<Rightarrow> operand)"

definition gm_sparse_atomic ::
  "Space option \<Rightarrow> u64 \<Rightarrow> u64 \<Rightarrow> GMSparseAtomic \<Rightarrow> u64 \<Rightarrow> bool \<Rightarrow> GMResult \<times> Space option \<times> u64 option" where
  "gm_sparse_atomic m a n operation operand previous =
     (case m of
        None \<Rightarrow> (GM_INVALID, m, None)
      | Some s \<Rightarrow>
          if \<not> previous \<or> n > 8 \<or> \<not> atomic_size a n then (GM_INVALID, m, None)
          else let (r, s, b) = access_locked s a (Some (replicate 8 0)) n False
          in if r \<noteq> GM_OK then (r, Some s, None)
          else let k = unat n;
                   mask = (if n = 8 then UINT64_MAX else push_bit (k * 8) 1 - 1);
                   old = scalar_value (the b) k;
                   operand = operand AND mask;
                   sign = push_bit (k * 8 - 1) 1;
                   value = atomic_value operation sign old operand;
                   bytes = scalar_bytes value k @ drop k (the b);
                   (r, s, _) = access_locked s a (Some bytes) n True
          in (r, Some s, if r = GM_OK then Some old else None))"

definition gm_sparse_stats :: "Space option \<Rightarrow> GMSparseStats" where
  "gm_sparse_stats memory =
     (case memory of
        None \<Rightarrow> \<lparr>st_reserved_bytes = 0, st_write_operations = 0, st_regions = 0,
                 st_resident_pages = 0, st_capacity_pages = 0\<rparr>
      | Some s \<Rightarrow>
          \<lparr>st_reserved_bytes = foldl (\<lambda>t r. t + (rg_end r - rg_start r)) 0 (s_regions s),
           st_write_operations = s_generation s, st_regions = length (s_regions s),
           st_resident_pages = s_resident s, st_capacity_pages = s_capacity s\<rparr>)"

end
