(* ===== verification/GuestSparseTable.thy ===== *)
theory GuestSparseTable
  imports GuestSparseMemory "HOL-Library.Multiset"
begin

text \<open>
  The page table and the arena of \<open>GuestSparseMemory.c\<close>. The table is a hash table with linear
  probing and tombstones; the lemmas show that \<open>page_slot\<close> finds exactly the resident pages, that
  inserting, updating and discarding pages keeps it so, and that every backing page is held by
  exactly one resident page, by the free list, or was never used.
\<close>

section \<open>Probing\<close>

definition sp_live :: "Page \<Rightarrow> bool" where
  "sp_live p \<longleftrightarrow> sp_address p \<noteq> 0 \<and> sp_address p \<noteq> UINT64_MAX"

definition page_home :: "nat \<Rightarrow> u64 \<Rightarrow> nat" where
  "page_home n a = unat (page_hash a AND (of_nat n - 1))"

text \<open>The table size is a power of two.\<close>

definition table_size :: "nat \<Rightarrow> bool" where
  "table_size n \<longleftrightarrow> (\<exists>k < 64. n = 2 ^ k)"

lemma table_size_pos: "table_size n \<Longrightarrow> 0 < n"
  by (auto simp: table_size_def)

lemma page_home_less:
  assumes "table_size n"
  shows "page_home n a < n"
proof -
  obtain k where k: "k < 64" "n = 2 ^ k" using assms by (auto simp: table_size_def)
  have "(of_nat n - 1 :: u64) = mask k" by (simp add: k(2) mask_eq_exp_minus_1)
  then have "page_home n a = unat (take_bit k (page_hash a))"
    by (simp add: page_home_def take_bit_eq_mask)
  also have "\<dots> = take_bit k (unat (page_hash a))" by (simp add: unsigned_take_bit_eq)
  finally show ?thesis using k(2) by simp
qed

lemma next_slot:
  assumes "table_size n"
  shows "(i + 1) AND (n - 1) = (i + 1) mod n"
proof -
  obtain k where k: "n = 2 ^ k" using assms by (auto simp: table_size_def)
  have "n - 1 = mask k" by (simp add: k mask_eq_exp_minus_1)
  then show ?thesis unfolding k by (simp flip: take_bit_eq_mask take_bit_eq_mod)
qed

text \<open>The slots a probe visits, from the home slot of the address around the table.\<close>

definition probe_pos :: "nat \<Rightarrow> u64 \<Rightarrow> nat \<Rightarrow> nat" where
  "probe_pos n a j = (page_home n a + j) mod n"

lemma probe_pos_less: "0 < n \<Longrightarrow> probe_pos n a j < n"
  by (simp add: probe_pos_def)

lemma probe_pos_next: "table_size n \<Longrightarrow> (probe_pos n a j + 1) AND (n - 1) = probe_pos n a (Suc j)"
  by (simp only: next_slot probe_pos_def mod_add_left_eq) simp

lemma probe_pos_onto:
  assumes "table_size n" and "i < n"
  obtains d where "d < n" and "probe_pos n a d = i"
proof
  let ?h = "page_home n a"
  have h: "?h < n" by (rule page_home_less [OF assms(1)])
  show "(i + n - ?h) mod n < n" using assms by simp
  have "(?h + (i + n - ?h)) mod n = i" using h assms(2) by simp
  then show "probe_pos n a ((i + n - ?h) mod n) = i"
    by (simp add: probe_pos_def mod_add_right_eq)
qed

abbreviation slot_address :: "Page list \<Rightarrow> nat \<Rightarrow> u64" where
  "slot_address pages i \<equiv> sp_address (pages ! i)"

lemma page_probe_found:
  assumes "table_size n" and "d < n" and "slot_address pages (probe_pos n a d) = a"
    and "\<And>j. n - k \<le> j \<Longrightarrow> j < d \<Longrightarrow>
      slot_address pages (probe_pos n a j) \<noteq> 0 \<and> slot_address pages (probe_pos n a j) \<noteq> a"
    and "k \<le> n" and "n - k \<le> d"
  shows "page_probe k pages n a ins (probe_pos n a (n - k)) fd = Some (probe_pos n a d)"
  using assms(4-)
proof (induction k arbitrary: fd)
  case 0
  then show ?case using assms(2) by simp
next
  case (Suc k)
  let ?j = "n - Suc k"
  have nxt: "(probe_pos n a ?j + 1) AND (n - 1) = probe_pos n a (n - k)"
    using probe_pos_next [OF assms(1), of a ?j] Suc.prems by (simp add: Suc_diff_Suc)
  show ?case
  proof (cases "?j = d")
    case True
    then show ?thesis using assms(3) by simp
  next
    case False
    then have lt: "?j < d" using Suc.prems by simp
    then have ne: "slot_address pages (probe_pos n a ?j) \<noteq> 0" "slot_address pages (probe_pos n a ?j) \<noteq> a"
      using Suc.prems(1) by simp_all
    have IH: "page_probe k pages n a ins (probe_pos n a (n - k)) fd' = Some (probe_pos n a d)" for fd'
      using Suc.prems lt by (intro Suc.IH) auto
    show ?thesis using ne nxt IH by (simp add: Let_def)
  qed
qed

lemma page_probe_absent:
  assumes "table_size n" and "\<And>j. j < n \<Longrightarrow> slot_address pages (probe_pos n a j) \<noteq> a" and "k \<le> n"
  shows "page_probe k pages n a False (probe_pos n a (n - k)) fd = None"
  using assms(3)
proof (induction k arbitrary: fd)
  case 0
  then show ?case by simp
next
  case (Suc k)
  have "(probe_pos n a (n - Suc k) + 1) AND (n - 1) = probe_pos n a (n - k)"
    using probe_pos_next [OF assms(1), of a "n - Suc k"] Suc.prems by (simp add: Suc_diff_Suc)
  moreover have "slot_address pages (probe_pos n a (n - Suc k)) \<noteq> a"
    using assms(2) Suc.prems by simp
  ultimately show ?case using Suc by (simp add: Let_def)
qed

text \<open>The slot for an insertion: the first one on the way that is empty or deleted.\<close>

lemma page_probe_insert_deleted:
  assumes "table_size n" and "\<And>j. j < n \<Longrightarrow> slot_address pages (probe_pos n a j) \<noteq> a" and "k \<le> n"
  shows "page_probe k pages n a True (probe_pos n a (n - k)) (Some f) = Some f"
  using assms(3)
proof (induction k)
  case 0
  then show ?case by simp
next
  case (Suc k)
  have "(probe_pos n a (n - Suc k) + 1) AND (n - 1) = probe_pos n a (n - k)"
    using probe_pos_next [OF assms(1), of a "n - Suc k"] Suc.prems by (simp add: Suc_diff_Suc)
  moreover have "slot_address pages (probe_pos n a (n - Suc k)) \<noteq> a"
    using assms(2) Suc.prems by simp
  ultimately show ?case using Suc by (simp add: Let_def)
qed

lemma page_probe_insert:
  assumes "table_size n" and "\<And>j. j < n \<Longrightarrow> slot_address pages (probe_pos n a j) \<noteq> a" and "k \<le> n"
    and "\<exists>d. n - k \<le> d \<and> d < n \<and> \<not> sp_live (pages ! probe_pos n a d)"
  shows "\<exists>d. n - k \<le> d \<and> d < n \<and> \<not> sp_live (pages ! probe_pos n a d) \<and>
    (\<forall>j. n - k \<le> j \<longrightarrow> j < d \<longrightarrow> sp_live (pages ! probe_pos n a j)) \<and>
    page_probe k pages n a True (probe_pos n a (n - k)) None = Some (probe_pos n a d)"
  using assms(3,4)
proof (induction k)
  case 0
  then show ?case by auto
next
  case (Suc k)
  let ?j = "n - Suc k"
  have nxt: "(probe_pos n a ?j + 1) AND (n - 1) = probe_pos n a (n - k)"
    using probe_pos_next [OF assms(1), of a ?j] Suc.prems by (simp add: Suc_diff_Suc)
  have ne: "slot_address pages (probe_pos n a ?j) \<noteq> a" using assms(2) Suc.prems by simp
  have jn: "?j < n" using Suc.prems by simp
  show ?case
  proof (cases "sp_live (pages ! probe_pos n a ?j)")
    case True
    obtain d where d: "?j \<le> d" "d < n" "\<not> sp_live (pages ! probe_pos n a d)" using Suc.prems(2) by blast
    then have "n - k \<le> d" using True by (cases "d = ?j") auto
    then have "\<exists>d. n - k \<le> d \<and> d < n \<and> \<not> sp_live (pages ! probe_pos n a d)" using d by blast
    then obtain d' where d': "n - k \<le> d'" "d' < n" "\<not> sp_live (pages ! probe_pos n a d')"
        "\<forall>j. n - k \<le> j \<longrightarrow> j < d' \<longrightarrow> sp_live (pages ! probe_pos n a j)"
        "page_probe k pages n a True (probe_pos n a (n - k)) None = Some (probe_pos n a d')"
      using Suc.IH Suc.prems(1) by auto
    have all: "sp_live (pages ! probe_pos n a j)" if "?j \<le> j" "j < d'" for j
      using that d'(4) True by (cases "j = ?j") auto
    have "page_probe (Suc k) pages n a True (probe_pos n a ?j) None = Some (probe_pos n a d')"
      using True ne nxt d'(5) by (simp add: Let_def sp_live_def)
    then show ?thesis using d' all by (intro exI [of _ d']) auto
  next
    case False
    have "page_probe (Suc k) pages n a True (probe_pos n a ?j) None = Some (probe_pos n a ?j)"
    proof (cases "slot_address pages (probe_pos n a ?j) = 0")
      case True
      then show ?thesis using ne by (simp add: Let_def)
    next
      case del: False
      then have "slot_address pages (probe_pos n a ?j) = UINT64_MAX" using False by (simp add: sp_live_def)
      then show ?thesis
        using ne nxt del page_probe_insert_deleted [OF assms(1,2), of k] Suc.prems(1)
        by (simp add: Let_def)
    qed
    then show ?thesis using False jn by (intro exI [of _ ?j]) auto
  qed
qed

section \<open>The table\<close>

text \<open>Resident addresses are distinct, and no empty slot lies between the home slot of a resident
  page and its own slot.\<close>

definition table_ok :: "nat \<Rightarrow> Page list \<Rightarrow> bool" where
  "table_ok n pages \<longleftrightarrow> table_size n \<and> length pages = n \<and>
     (\<forall>i < n. \<forall>j < n. sp_live (pages ! i) \<longrightarrow> slot_address pages i = slot_address pages j \<longrightarrow> i = j) \<and>
     (\<forall>i < n. sp_live (pages ! i) \<longrightarrow>
        (\<exists>d < n. probe_pos n (slot_address pages i) d = i \<and>
          (\<forall>j < d. slot_address pages (probe_pos n (slot_address pages i) j) \<noteq> 0)))"

lemma page_slot_alt:
  "table_size (s_slot_count s) \<Longrightarrow> page_slot s a ins =
    page_probe (s_slot_count s) (s_pages s) (s_slot_count s) a ins (probe_pos (s_slot_count s) a 0) None"
  by (simp add: page_slot_def probe_pos_def page_home_less flip: page_home_def)

lemma page_slot_lookup:
  assumes ok: "table_ok (s_slot_count s) (s_pages s)" and a: "a \<noteq> 0" "a \<noteq> UINT64_MAX"
  shows "page_slot s a False = Some i \<longleftrightarrow> i < s_slot_count s \<and> slot_address (s_pages s) i = a"
proof -
  let ?n = "s_slot_count s" and ?p = "s_pages s"
  have n: "table_size ?n" using ok by (simp add: table_ok_def)
  have found: "page_slot s a False = Some i" if i: "i < ?n" "slot_address ?p i = a" for i
  proof -
    have live: "sp_live (?p ! i)" using i a by (simp add: sp_live_def)
    then obtain d where d: "d < ?n" "probe_pos ?n a d = i"
        "\<forall>j < d. slot_address ?p (probe_pos ?n a j) \<noteq> 0"
      using ok i unfolding table_ok_def by blast
    have first: "\<exists>d0 < ?n. slot_address ?p (probe_pos ?n a d0) = a" using d i by blast
    define d0 where "d0 = (LEAST d. slot_address ?p (probe_pos ?n a d) = a)"
    have d0: "slot_address ?p (probe_pos ?n a d0) = a" "d0 \<le> d"
      unfolding d0_def using d(2) i(2) by (metis (mono_tags, lifting) LeastI, simp add: Least_le)
    have less: "slot_address ?p (probe_pos ?n a j) \<noteq> a" if "j < d0" for j
      using that not_less_Least unfolding d0_def by blast
    have "page_slot s a False = Some (probe_pos ?n a d0)"
      using page_probe_found [OF n, of d0 ?p a ?n False None] d0 d less
      by (simp add: page_slot_alt [OF n])
    moreover have "probe_pos ?n a d0 = i"
    proof -
      have "probe_pos ?n a d0 < ?n" by (rule probe_pos_less [OF table_size_pos [OF n]])
      then show ?thesis using ok live i d0(1) unfolding table_ok_def by metis
    qed
    ultimately show ?thesis by simp
  qed
  show ?thesis
  proof (cases "\<exists>j < ?n. slot_address ?p j = a")
    case True
    then obtain j where j: "j < ?n" "slot_address ?p j = a" by blast
    have "sp_live (?p ! j)" using j a by (simp add: sp_live_def)
    then have "i = j" if "i < ?n" "slot_address ?p i = a"
      using ok that j unfolding table_ok_def by metis
    then show ?thesis using found [OF j] j by auto
  next
    case False
    then have "slot_address ?p (probe_pos ?n a j) \<noteq> a" for j
      using probe_pos_less [OF table_size_pos [OF n]] by blast
    then have "page_slot s a False = None"
      using page_probe_absent [OF n, of ?p a ?n None] by (simp add: page_slot_alt [OF n])
    then show ?thesis using False by auto
  qed
qed

lemma page_slot_None:
  assumes ok: "table_ok (s_slot_count s) (s_pages s)" and a: "a \<noteq> 0" "a \<noteq> UINT64_MAX"
  shows "page_slot s a False = None \<longleftrightarrow> (\<forall>i < s_slot_count s. slot_address (s_pages s) i \<noteq> a)"
  using page_slot_lookup [OF assms] by (metis not_None_eq)

text \<open>The slot of an insertion is not live, and no slot before it on the way is empty.\<close>

lemma page_slot_insertion:
  assumes ok: "table_ok (s_slot_count s) (s_pages s)" and a: "a \<noteq> 0" "a \<noteq> UINT64_MAX"
    and absent: "page_slot s a False = None"
    and room: "\<exists>i < s_slot_count s. \<not> sp_live (s_pages s ! i)"
  obtains d where "d < s_slot_count s" and "page_slot s a True = Some (probe_pos (s_slot_count s) a d)"
    and "\<not> sp_live (s_pages s ! probe_pos (s_slot_count s) a d)"
    and "\<forall>j < d. sp_live (s_pages s ! probe_pos (s_slot_count s) a j)"
proof -
  let ?n = "s_slot_count s" and ?p = "s_pages s"
  have n: "table_size ?n" using ok by (simp add: table_ok_def)
  have ne: "slot_address ?p (probe_pos ?n a j) \<noteq> a" for j
    using absent probe_pos_less [OF table_size_pos [OF n]] by (simp add: page_slot_None [OF ok a])
  obtain i where i: "i < ?n" "\<not> sp_live (?p ! i)" using room by blast
  obtain d where "d < ?n" "probe_pos ?n a d = i" using probe_pos_onto [OF n i(1)] .
  then have "\<exists>d. ?n - ?n \<le> d \<and> d < ?n \<and> \<not> sp_live (?p ! probe_pos ?n a d)" using i by auto
  then obtain d where "d < ?n" "\<not> sp_live (?p ! probe_pos ?n a d)"
      "\<forall>j < d. sp_live (?p ! probe_pos ?n a j)" "page_slot s a True = Some (probe_pos ?n a d)"
    using page_probe_insert [OF n ne, of ?n] by (auto simp: page_slot_alt [OF n])
  then show thesis using that by blast
qed

text \<open>Updates of the table: a page that keeps its address, pages marked deleted, and a new page in
  the slot of its insertion.\<close>

lemma table_ok_addresses:
  assumes "table_ok n pages" and "map sp_address qs = map sp_address pages"
  shows "table_ok n qs"
proof -
  have len: "length qs = length pages" using assms(2) by (metis length_map)
  have adr: "slot_address qs i = slot_address pages i" if "i < n" for i
  proof -
    have "i < length pages" using assms(1) that by (simp add: table_ok_def)
    then show ?thesis using assms(2) len by (metis nth_map)
  qed
  have live: "sp_live (qs ! i) = sp_live (pages ! i)" if "i < n" for i
    using adr [OF that] by (simp add: sp_live_def)
  have "0 < n" using assms(1) by (simp add: table_ok_def table_size_pos)
  then have pos: "probe_pos n a j < n" for a j by (rule probe_pos_less)
  show ?thesis
    using assms(1) unfolding table_ok_def by (simp add: len adr live pos)
qed

lemma table_ok_discard:
  assumes "table_ok n pages" and "\<And>p. f p = p \<or> sp_live p \<and> f p = p\<lparr>sp_address := UINT64_MAX\<rparr>"
  shows "table_ok n (map f pages)"
proof -
  have len: "length pages = n" using assms(1) by (simp add: table_ok_def)
  have "0 < n" using assms(1) by (simp add: table_ok_def table_size_pos)
  then have pos: "probe_pos n a j < n" for a j by (rule probe_pos_less)
  have live: "f p = p \<and> sp_live p" if "sp_live (f p)" for p
    using that assms(2) [of p] by (auto simp: sp_live_def)
  have nz: "sp_address p \<noteq> 0 \<Longrightarrow> sp_address (f p) \<noteq> 0" for p using assms(2) [of p] by auto
  have unique: "i = j" if "i < n" "j < n" "sp_live (f (pages ! i))" "sp_address (f (pages ! i)) = sp_address (f (pages ! j))" for i j
  proof -
    have "sp_live (f (pages ! j))" using that by (simp add: sp_live_def)
    then show ?thesis using that live assms(1) unfolding table_ok_def by metis
  qed
  have way: "\<exists>d < n. probe_pos n (sp_address (f (pages ! i))) d = i \<and>
      (\<forall>j < d. sp_address (f (pages ! probe_pos n (sp_address (f (pages ! i))) j)) \<noteq> 0)"
    if "i < n" "sp_live (f (pages ! i))" for i
    using that live [OF that(2)] assms(1) nz unfolding table_ok_def by metis
  show ?thesis
    using assms(1) unique way unfolding table_ok_def by (simp add: len pos)
qed

lemma table_ok_insert:
  assumes ok: "table_ok n pages" and d: "d < n" and free: "\<not> sp_live (pages ! probe_pos n a d)"
    and way: "\<forall>j < d. sp_live (pages ! probe_pos n a j)" and p: "sp_address p = a" "sp_live p"
    and absent: "\<forall>i < n. slot_address pages i \<noteq> a"
  shows "table_ok n (pages[probe_pos n a d := p])"
proof -
  let ?k = "probe_pos n a d" and ?q = "pages[probe_pos n a d := p]"
  have len: "length pages = n" and n: "table_size n" using ok by (simp_all add: table_ok_def)
  have pos: "probe_pos n b j < n" for b j by (rule probe_pos_less [OF table_size_pos [OF n]])
  have adr: "slot_address ?q i = (if i = ?k then a else slot_address pages i)" if "i < n" for i
    using that len p by (simp add: nth_list_update)
  have live: "sp_live (?q ! i) \<longleftrightarrow> i = ?k \<or> sp_live (pages ! i)" if "i < n" for i
    using that len p by (cases "i = ?k") (simp_all add: nth_list_update)
  have nz: "slot_address ?q i \<noteq> 0" if "i < n" "slot_address pages i \<noteq> 0" for i
    using that adr p by (simp add: sp_live_def)
  have unique: "i = j" if "i < n" "j < n" "sp_live (?q ! i)" "slot_address ?q i = slot_address ?q j" for i j
  proof (cases "i = ?k \<or> j = ?k")
    case True
    then show ?thesis using that adr absent by (auto split: if_splits)
  next
    case False
    then show ?thesis using that adr live ok unfolding table_ok_def by (metis (full_types))
  qed
  have path: "\<exists>e < n. probe_pos n (slot_address ?q i) e = i \<and>
      (\<forall>j < e. slot_address ?q (probe_pos n (slot_address ?q i) j) \<noteq> 0)"
    if i: "i < n" "sp_live (?q ! i)" for i
  proof (cases "i = ?k")
    case True
    have "slot_address ?q (probe_pos n a j) \<noteq> 0" if "j < d" for j
      using nz [OF pos] way that by (simp add: sp_live_def)
    then show ?thesis using True adr i d by auto
  next
    case False
    then have same: "slot_address ?q i = slot_address pages i" "sp_live (pages ! i)"
      using adr i live by simp_all
    then obtain e where e: "e < n" "probe_pos n (slot_address pages i) e = i"
        "\<forall>j < e. slot_address pages (probe_pos n (slot_address pages i) j) \<noteq> 0"
      using ok i(1) unfolding table_ok_def by blast
    then show ?thesis unfolding same(1) using nz [OF pos] by blast
  qed
  show ?thesis using n len unique path unfolding table_ok_def by simp
qed

section \<open>The arena\<close>

text \<open>Every backing page below \<open>next_backing\<close> is held by one resident page or is on the free list,
  once; the resident pages are counted; the table is at most half full.\<close>

definition arena_ok :: "Space \<Rightarrow> bool" where
  "arena_ok s \<longleftrightarrow>
     mset (map sp_backing (filter sp_live (s_pages s))) + mset (s_free s) = mset [0..<s_next_backing s] \<and>
     s_resident s = length (filter sp_live (s_pages s)) \<and>
     s_next_backing s \<le> s_capacity s \<and> 2 * s_capacity s \<le> s_slot_count s"

lemma arena_counts:
  assumes "arena_ok s"
  shows "s_resident s + length (s_free s) = s_next_backing s"
proof -
  have "length (map sp_backing (filter sp_live (s_pages s)) @ s_free s) = length [0..<s_next_backing s]"
    using assms by (intro mset_eq_length) (simp add: arena_ok_def)
  then show ?thesis using assms by (simp add: arena_ok_def)
qed

lemma filter_update_mset:
  assumes "i < length xs" and "\<not> P (xs ! i)" and "P y"
  shows "mset (filter P (xs[i := y])) = add_mset y (mset (filter P xs))"
proof -
  have "mset (xs[i := y]) = add_mset y (mset xs - {#xs ! i#})" using assms(1) by (rule mset_update)
  then have "filter_mset P (mset (xs[i := y])) = add_mset y (filter_mset P (mset xs - {#xs ! i#}))"
    using assms(3) by simp
  moreover have "filter_mset P (mset xs - {#xs ! i#}) = filter_mset P (mset xs)"
    using assms by (simp add: filter_diff_mset)
  ultimately show ?thesis by (simp add: mset_filter)
qed

text \<open>Different resident pages have different backing.\<close>

lemma backing_injective:
  assumes ok: "table_ok (s_slot_count s) (s_pages s)" and ar: "arena_ok s"
    and i: "i < s_slot_count s" "sp_live (s_pages s ! i)" and j: "j < s_slot_count s" "sp_live (s_pages s ! j)"
    and ne: "i \<noteq> j"
  shows "sp_backing (s_pages s ! i) \<noteq> sp_backing (s_pages s ! j)"
proof -
  let ?l = "filter sp_live (s_pages s)"
  have "mset (map sp_backing ?l @ s_free s) = mset [0..<s_next_backing s]"
    using ar by (simp add: arena_ok_def)
  then have "distinct (map sp_backing ?l @ s_free s)"
    using mset_eq_imp_distinct_iff distinct_upt by blast
  then have inj: "inj_on sp_backing (set ?l)" by (simp add: distinct_map)
  have len: "length (s_pages s) = s_slot_count s" using ok by (simp add: table_ok_def)
  have "slot_address (s_pages s) i \<noteq> slot_address (s_pages s) j"
    using ok i j ne unfolding table_ok_def by blast
  then have "s_pages s ! i \<noteq> s_pages s ! j" by auto
  moreover have "s_pages s ! i \<in> set ?l" "s_pages s ! j \<in> set ?l" using i j len by simp_all
  ultimately show ?thesis using inj by (auto dest: inj_onD)
qed

lemma backing_not_free:
  assumes ok: "table_ok (s_slot_count s) (s_pages s)" and ar: "arena_ok s"
    and i: "i < s_slot_count s" "sp_live (s_pages s ! i)"
  shows "sp_backing (s_pages s ! i) \<notin> set (s_free s)" and "sp_backing (s_pages s ! i) < s_next_backing s"
proof -
  let ?l = "filter sp_live (s_pages s)"
  have eq: "mset (map sp_backing ?l @ s_free s) = mset [0..<s_next_backing s]"
    using ar by (simp add: arena_ok_def)
  then have "distinct (map sp_backing ?l @ s_free s)"
    using mset_eq_imp_distinct_iff distinct_upt by blast
  moreover have "length (s_pages s) = s_slot_count s" using ok by (simp add: table_ok_def)
  then have "s_pages s ! i \<in> set ?l" using i by simp
  ultimately show "sp_backing (s_pages s ! i) \<notin> set (s_free s)" by auto
  have "set (map sp_backing ?l @ s_free s) = set [0..<s_next_backing s]" using eq by (metis set_mset_mset)
  then show "sp_backing (s_pages s ! i) < s_next_backing s"
    using \<open>s_pages s ! i \<in> set ?l\<close> by auto
qed

section \<open>The resident pages\<close>

text \<open>The slot of the page of an address, its byte, and the generation of its page.\<close>

definition sm_slot :: "Space \<Rightarrow> u64 \<Rightarrow> nat option" where
  "sm_slot s x = (if page_base x = 0 then None else page_slot s (page_base x) False)"

definition sm_byte :: "Space \<Rightarrow> u64 \<Rightarrow> u8" where
  "sm_byte s x =
     (case sm_slot s x of None \<Rightarrow> 0 | Some i \<Rightarrow> s_backing s (sp_backing (s_pages s ! i)) (page_off x))"

definition store_ok :: "Space \<Rightarrow> bool" where
  "store_ok s \<longleftrightarrow> table_ok (s_slot_count s) (s_pages s) \<and> arena_ok s"

lemma page_base_not_max: "page_base x \<noteq> UINT64_MAX"
proof -
  have "\<not> page_aligned UINT64_MAX"
    by (simp add: page_aligned_iff unsigned_minus_1_eq_mask mask_eq_exp_minus_1)
  then show ?thesis using page_aligned_base [of x] by metis
qed

lemma sm_slot_iff:
  assumes "store_ok s"
  shows "sm_slot s x = Some i \<longleftrightarrow>
    page_base x \<noteq> 0 \<and> i < s_slot_count s \<and> slot_address (s_pages s) i = page_base x"
  using assms page_slot_lookup [of s "page_base x" i] page_base_not_max [of x]
  by (auto simp: sm_slot_def store_ok_def)

lemma sm_slot_live: "store_ok s \<Longrightarrow> sm_slot s x = Some i \<Longrightarrow> sp_live (s_pages s ! i)"
  using page_base_not_max [of x] by (simp add: sm_slot_iff sp_live_def)

lemma page_base_idem [simp]: "page_base (page_base x) = page_base x"
  by (rule page_base_aligned) simp

lemma sm_slot_base: "sm_slot s (page_base x) = sm_slot s x"
  by (simp add: sm_slot_def)

text \<open>Two spaces whose tables have the same addresses find the same slots.\<close>

lemma sm_slot_cong:
  assumes "store_ok s" and "store_ok s'" and "s_slot_count s' = s_slot_count s"
    and "\<And>i. i < s_slot_count s \<Longrightarrow> slot_address (s_pages s') i = slot_address (s_pages s) i"
  shows "sm_slot s' x = sm_slot s x"
proof -
  have "sm_slot s' x = Some i \<longleftrightarrow> sm_slot s x = Some i" for i
    using assms by (auto simp: sm_slot_iff)
  then show ?thesis by (metis not_None_eq)
qed

text \<open>Room for one more page.\<close>

lemma table_room:
  assumes "store_ok s" and "s_resident s < s_capacity s"
  shows "\<exists>i < s_slot_count s. \<not> sp_live (s_pages s ! i)"
proof (rule ccontr)
  assume "\<not> ?thesis"
  moreover have len: "length (s_pages s) = s_slot_count s" using assms(1) by (simp add: store_ok_def table_ok_def)
  ultimately have "\<forall>p \<in> set (s_pages s). sp_live p" by (metis in_set_conv_nth)
  then have "filter sp_live (s_pages s) = s_pages s" by simp
  then have "s_resident s = s_slot_count s" using assms(1) len by (simp add: store_ok_def arena_ok_def)
  moreover have "2 * s_capacity s \<le> s_slot_count s" using assms(1) by (simp add: store_ok_def arena_ok_def)
  ultimately show False using assms(2) by simp
qed

lemma alloc_page_spec:
  assumes ok: "store_ok s" and b: "page_aligned b" "b \<noteq> 0" and absent: "sm_slot s b = None"
    and room: "s_resident s < s_capacity s" and eq: "alloc_page s b = (s', k)"
  shows "store_ok s'" and "sm_byte s' = sm_byte s"
    and "sm_slot s' x = (if page_base x = b then Some k else sm_slot s x)"
    and "s_resident s' = s_resident s + 1"
    and "sp_generation (s_pages s' ! k) = 0"
    and "\<And>i. i \<noteq> k \<Longrightarrow> s_pages s' ! i = s_pages s ! i"
    and "s' = s\<lparr>s_backing := s_backing s', s_resident := s_resident s', s_next_backing := s_next_backing s',
      s_free := s_free s', s_pages := s_pages s'\<rparr>"
proof -
  let ?n = "s_slot_count s" and ?p = "s_pages s"
  have tab: "table_ok ?n ?p" and ar: "arena_ok s" using ok by (simp_all add: store_ok_def)
  have bb: "page_base b = b" by (rule page_base_aligned [OF b(1)])
  have bmax: "b \<noteq> UINT64_MAX" using page_base_not_max [of b] bb by simp
  have none: "page_slot s b False = None" using absent b(2) by (simp add: sm_slot_def bb)
  obtain d where d: "d < ?n" "page_slot s b True = Some (probe_pos ?n b d)"
      "\<not> sp_live (?p ! probe_pos ?n b d)" "\<forall>j < d. sp_live (?p ! probe_pos ?n b j)"
    using page_slot_insertion [OF tab b(2) bmax none table_room [OF ok room]] .
  define g where "g = (case s_free s of x # _ \<Rightarrow> x | [] \<Rightarrow> s_next_backing s)"
  let ?new = "\<lparr>sp_address = b, sp_generation = 0, sp_backing = g\<rparr>"
  have n: "table_size ?n" and len: "length ?p = ?n" using tab by (simp_all add: table_ok_def)
  have kn: "probe_pos ?n b d < ?n" by (rule probe_pos_less [OF table_size_pos [OF n]])
  have k: "k = probe_pos ?n b d" and fields: "s_pages s' = ?p[k := ?new]"
      "s_backing s' = (s_backing s)(g := (\<lambda>_. 0))" "s_resident s' = s_resident s + 1"
      "s_slot_count s' = ?n" "s_capacity s' = s_capacity s"
      "s_free s' = tl (s_free s)" "s_next_backing s' = s_next_backing s + (if s_free s = [] then 1 else 0)"
    using eq d(2) by (auto simp: alloc_page_def g_def Let_def split: list.splits)
  show "s' = s\<lparr>s_backing := s_backing s', s_resident := s_resident s', s_next_backing := s_next_backing s',
      s_free := s_free s', s_pages := s_pages s'\<rparr>"
    using eq by (auto simp: alloc_page_def Let_def split: list.splits)
  show "s_resident s' = s_resident s + 1" by (rule fields(3))
  show "sp_generation (s_pages s' ! k) = 0" using kn k len by (simp add: fields(1))
  show other: "s_pages s' ! i = s_pages s ! i" if "i \<noteq> k" for i using that by (simp add: fields(1))
  have live: "sp_live ?new" using b(2) bmax by (simp add: sp_live_def)
  have absent': "\<forall>i < ?n. slot_address ?p i \<noteq> b" using none page_slot_None [OF tab b(2) bmax] by blast
  have tab': "table_ok ?n (s_pages s')"
    unfolding fields(1) k by (rule table_ok_insert [OF tab d(1,3,4) _ live absent']) simp
  have mset: "mset (filter sp_live (s_pages s')) = add_mset ?new (mset (filter sp_live ?p))"
    unfolding fields(1) k using kn len d(3) live by (intro filter_update_mset) simp_all
  have "add_mset g (mset (s_free s')) = mset (s_free s) \<and> s_next_backing s' = s_next_backing s \<or>
      s_free s = [] \<and> s_free s' = [] \<and> g = s_next_backing s \<and> s_next_backing s' = s_next_backing s + 1"
    by (cases "s_free s") (simp_all add: fields g_def)
  then have arena: "mset (map sp_backing (filter sp_live (s_pages s'))) + mset (s_free s') =
      mset [0..<s_next_backing s']"
  proof
    assume f: "add_mset g (mset (s_free s')) = mset (s_free s) \<and> s_next_backing s' = s_next_backing s"
    have "mset (map sp_backing (filter sp_live (s_pages s'))) + mset (s_free s') =
        mset (map sp_backing (filter sp_live ?p)) + add_mset g (mset (s_free s'))"
      using mset by (simp only: mset_map image_mset_add_mset Page.select_convs union_mset_add_mset_left
          union_mset_add_mset_right)
    also have "\<dots> = mset [0..<s_next_backing s']" using ar f unfolding arena_ok_def by simp
    finally show ?thesis .
  next
    assume f: "s_free s = [] \<and> s_free s' = [] \<and> g = s_next_backing s \<and> s_next_backing s' = s_next_backing s + 1"
    have "mset (map sp_backing (filter sp_live ?p)) = mset [0..<s_next_backing s]"
      using ar f unfolding arena_ok_def by simp
    then show ?thesis using mset f by simp
  qed
  have cap: "s_next_backing s' \<le> s_capacity s"
    using arena_counts [OF ar] room ar fields(7) by (cases "s_free s") (simp_all add: arena_ok_def)
  have "length (filter sp_live (s_pages s')) = length (filter sp_live ?p) + 1"
    using mset by (metis add.commute length_Cons mset.simps(2) mset_eq_length plus_1_eq_Suc)
  then show ok': "store_ok s'"
    using tab' arena cap ar by (simp add: store_ok_def arena_ok_def fields)
  show slot: "sm_slot s' x = (if page_base x = b then Some k else sm_slot s x)" for x
  proof -
    have "sm_slot s' x = Some i \<longleftrightarrow> (if page_base x = b then i = k else sm_slot s x = Some i)" for i
      using absent' b(2) kn k len d(3) page_base_not_max [of x] sm_slot_live [OF ok, of x i]
      unfolding sm_slot_iff [OF ok'] sm_slot_iff [OF ok] fields
      by (cases "i = k") auto
    then show ?thesis by (metis not_None_eq)
  qed
  have fresh: "sp_backing (?p ! i) \<noteq> g" if "i < ?n" "sp_live (?p ! i)" for i
    using backing_not_free [OF tab ar that] by (auto simp: g_def split: list.splits)
  show "sm_byte s' = sm_byte s"
  proof
    fix x
    show "sm_byte s' x = sm_byte s x"
    proof (cases "page_base x = b")
      case True
      then have "sm_slot s x = None" using absent bb sm_slot_base by metis
      then show ?thesis using True kn k len by (simp add: sm_byte_def slot fields)
    next
      case False
      show ?thesis
      proof (cases "sm_slot s x")
        case None
        then show ?thesis using False by (simp add: sm_byte_def slot)
      next
        case (Some i)
        then have "i < ?n" "sp_live (?p ! i)" using sm_slot_live [OF ok Some] by (simp_all add: sm_slot_iff [OF ok])
        moreover from this have "i \<noteq> k" using d(3) k by auto
        ultimately show ?thesis using False Some other fresh by (simp add: sm_byte_def slot fields(2))
      qed
    qed
  qed
qed

lemma write_slot_spec:
  assumes ok: "store_ok s" and k: "sm_slot s b = Some k"
  shows "store_ok (write_slot s k off src)"
    and "sm_slot (write_slot s k off src) x = sm_slot s x"
    and "sm_byte (write_slot s k off src) x =
      (if page_base x = page_base b then block_write (s_backing s (sp_backing (s_pages s ! k))) off src (page_off x)
       else sm_byte s x)"
    and "i < s_slot_count s \<Longrightarrow> sp_generation (s_pages (write_slot s k off src) ! i) =
      (if i = k then s_generation s else sp_generation (s_pages s ! i))"
    and "write_slot s k off src = s\<lparr>s_backing := s_backing (write_slot s k off src),
      s_pages := s_pages (write_slot s k off src)\<rparr>"
proof -
  let ?s = "write_slot s k off src" and ?n = "s_slot_count s" and ?p = "s_pages s"
  let ?g = "sp_backing (?p ! k)"
  have tab: "table_ok ?n ?p" and ar: "arena_ok s" using ok by (simp_all add: store_ok_def)
  have len: "length ?p = ?n" using tab by (simp add: table_ok_def)
  have kn: "k < ?n" "slot_address ?p k = page_base b" using k by (simp_all add: sm_slot_iff [OF ok])
  have live: "sp_live (?p ! k)" by (rule sm_slot_live [OF ok k])
  have fields: "s_pages ?s = ?p[k := (?p ! k)\<lparr>sp_generation := s_generation s\<rparr>]" "s_slot_count ?s = ?n"
      "s_backing ?s = (s_backing s)(?g := block_write (s_backing s ?g) off src)"
      "s_free ?s = s_free s" "s_next_backing ?s = s_next_backing s" "s_capacity ?s = s_capacity s"
      "s_resident ?s = s_resident s"
    by (simp_all add: write_slot_def Let_def)
  have adr: "map sp_address (s_pages ?s) = map sp_address ?p" and bck: "map sp_backing (s_pages ?s) = map sp_backing ?p"
    using kn len by (auto simp: fields map_update list_update_same_conv)
  have "map sp_backing (filter sp_live (s_pages ?s)) = map sp_backing (filter sp_live ?p)"
  proof -
    have eq: "map sp_backing (filter sp_live q) =
        map snd (filter (\<lambda>(a, g). a \<noteq> 0 \<and> a \<noteq> UINT64_MAX) (zip (map sp_address q) (map sp_backing q)))" for q
      by (induction q) (auto simp: sp_live_def)
    show ?thesis unfolding eq adr bck ..
  qed
  moreover from this have "length (filter sp_live (s_pages ?s)) = length (filter sp_live ?p)" by (metis length_map)
  ultimately show ok': "store_ok ?s"
    using ar table_ok_addresses [OF tab adr] unfolding store_ok_def arena_ok_def fields by simp
  have "slot_address (s_pages ?s) i = slot_address ?p i" if "i < ?n" for i
    using that len by (cases "i = k") (simp_all add: fields)
  then show slot: "sm_slot ?s x = sm_slot s x" for x
    by (intro sm_slot_cong [OF ok ok']) (simp_all add: fields(2))
  show "sm_byte ?s x = (if page_base x = page_base b
      then block_write (s_backing s ?g) off src (page_off x) else sm_byte s x)"
  proof (cases "sm_slot s x")
    case None
    then have "page_base x \<noteq> page_base b" using k by (metis option.distinct(1) sm_slot_base)
    then show ?thesis using None by (simp add: sm_byte_def slot)
  next
    case (Some i)
    then have i: "i < ?n" "slot_address ?p i = page_base x" by (simp_all add: sm_slot_iff [OF ok])
    show ?thesis
    proof (cases "i = k")
      case True
      then show ?thesis using i kn Some len by (simp add: sm_byte_def slot fields)
    next
      case False
      then have "page_base x \<noteq> page_base b"
        using i kn tab live unfolding table_ok_def by metis
      moreover have "sp_backing (?p ! i) \<noteq> ?g"
        by (rule backing_injective [OF tab ar i(1) sm_slot_live [OF ok Some] kn(1) live False])
      ultimately show ?thesis using False Some by (simp add: sm_byte_def slot fields)
    qed
  qed
  show "sp_generation (s_pages ?s ! i) = (if i = k then s_generation s else sp_generation (?p ! i))" if "i < ?n"
    using that len by (simp add: fields)
  show "?s = s\<lparr>s_backing := s_backing ?s, s_pages := s_pages ?s\<rparr>" by (simp add: write_slot_def Let_def)
qed

text \<open>Discarding the pages of an address range.\<close>

lemma discard_pages_spec:
  assumes ok: "store_ok s"
  shows "store_ok (discard_pages s a e)"
    and "sm_slot (discard_pages s a e) x =
      (if a \<le> page_base x \<and> page_base x < e then None else sm_slot s x)"
    and "sm_byte (discard_pages s a e) x =
      (if a \<le> page_base x \<and> page_base x < e then 0 else sm_byte s x)"
    and "discard_pages s a e = s\<lparr>s_free := s_free (discard_pages s a e),
      s_pages := s_pages (discard_pages s a e), s_resident := s_resident (discard_pages s a e)\<rparr>"
proof -
  let ?s = "discard_pages s a e" and ?n = "s_slot_count s" and ?p = "s_pages s"
  let ?f = "\<lambda>p. if discarded a e p then p\<lparr>sp_address := UINT64_MAX\<rparr> else p"
  have tab: "table_ok ?n ?p" and ar: "arena_ok s" using ok by (simp_all add: store_ok_def)
  have len: "length ?p = ?n" using tab by (simp add: table_ok_def)
  have fields: "s_pages ?s = map ?f ?p" "s_slot_count ?s = ?n" "s_backing ?s = s_backing s"
      "s_next_backing ?s = s_next_backing s" "s_capacity ?s = s_capacity s"
      "s_free ?s = rev (map sp_backing (filter (discarded a e) ?p)) @ s_free s"
      "s_resident ?s = s_resident s - length (filter (discarded a e) ?p)"
    by (simp_all add: discard_pages_def Let_def)
  have live: "sp_live (?f p) \<longleftrightarrow> sp_live p \<and> \<not> discarded a e p" for p
    by (simp add: sp_live_def discarded_def)
  have split: "filter sp_live (map ?f q) = filter (\<lambda>p. sp_live p \<and> \<not> discarded a e p) q" for q
    by (induction q) (auto simp: live)
  have gone: "filter (discarded a e) q = filter (\<lambda>p. sp_live p \<and> discarded a e p) q" for q
    by (rule filter_cong) (auto simp: discarded_def sp_live_def)
  have parts: "mset (filter sp_live q) =
      mset (filter (\<lambda>p. sp_live p \<and> \<not> discarded a e p) q) + mset (filter (discarded a e) q)" for q
    unfolding gone by (induction q) auto
  have "mset (map sp_backing (filter sp_live (s_pages ?s))) + mset (s_free ?s) =
      mset (map sp_backing (filter sp_live ?p)) + mset (s_free s)"
    unfolding fields split using arg_cong [OF parts [of ?p], of "image_mset sp_backing"]
    by (simp add: ac_simps)
  also have "\<dots> = mset [0..<s_next_backing ?s]" using ar unfolding arena_ok_def fields(4) by (rule conjunct1)
  finally have A: "mset (map sp_backing (filter sp_live (s_pages ?s))) + mset (s_free ?s) =
      mset [0..<s_next_backing ?s]" .
  have "length (filter sp_live ?p) = length (filter sp_live (s_pages ?s)) + length (filter (discarded a e) ?p)"
    unfolding fields split using arg_cong [OF parts [of ?p], of size] by (metis size_mset size_union)
  then have B: "s_resident ?s = length (filter sp_live (s_pages ?s))"
    using ar unfolding arena_ok_def fields(7) by linarith
  have "table_ok ?n (map ?f ?p)"
    by (rule table_ok_discard [OF tab]) (auto simp: discarded_def sp_live_def)
  then have T: "table_ok (s_slot_count ?s) (s_pages ?s)" unfolding fields .
  have "s_next_backing ?s \<le> s_capacity ?s \<and> 2 * s_capacity ?s \<le> s_slot_count ?s"
    using ar unfolding arena_ok_def fields by blast
  then show ok': "store_ok ?s" unfolding store_ok_def arena_ok_def using T A B by blast
  show slot: "sm_slot ?s x = (if a \<le> page_base x \<and> page_base x < e then None else sm_slot s x)" for x
  proof -
    have "sm_slot ?s x = Some i \<longleftrightarrow>
        \<not> (a \<le> page_base x \<and> page_base x < e) \<and> sm_slot s x = Some i" for i
      using page_base_not_max [of x] len unfolding sm_slot_iff [OF ok'] sm_slot_iff [OF ok] fields
      by (auto simp: discarded_def split: if_splits)
    then show ?thesis by (metis not_None_eq)
  qed
  have bck: "sp_backing (s_pages ?s ! i) = sp_backing (?p ! i)" if "i < ?n" for i
    using that len by (simp add: fields)
  have "i < ?n" if "sm_slot s x = Some i" for i using that by (simp add: sm_slot_iff [OF ok])
  then show "sm_byte ?s x = (if a \<le> page_base x \<and> page_base x < e then 0 else sm_byte s x)"
    unfolding sm_byte_def slot fields(3) by (cases "sm_slot s x") (simp_all add: bck)
  show "?s = s\<lparr>s_free := s_free ?s, s_pages := s_pages ?s, s_resident := s_resident ?s\<rparr>"
    by (simp add: discard_pages_def Let_def)
qed

end
