(* ===== verification/GuestSparseRegions.thy ===== *)
theory GuestSparseRegions
  imports GuestSparseTable
begin

text \<open>
  The regions of \<open>GuestSparseMemory.c\<close>: a bounded, sorted list of disjoint intervals with their
  protections. The lemmas give the meaning of the merge in \<open>append\<close>, of the rebuilding loop of
  \<open>change\<close> for each of its three operations, of the coverage loops and of the search for a free
  range.
\<close>

section \<open>Interval lists\<close>

definition rg_has :: "Region \<Rightarrow> u64 \<Rightarrow> bool" where
  "rg_has r x \<longleftrightarrow> rg_start r \<le> x \<and> x < rg_end r"

definition rg_attr :: "Region \<Rightarrow> u32 \<times> u32" where
  "rg_attr r = (rg_prot r, rg_maxprot r)"

definition rg_at :: "Region list \<Rightarrow> u64 \<Rightarrow> (u32 \<times> u32) option" where
  "rg_at rs x = map_option rg_attr (find (\<lambda>r. rg_has r x) rs)"

fun rg_sorted :: "u64 \<Rightarrow> Region list \<Rightarrow> bool" where
  "rg_sorted lo [] = True"
| "rg_sorted lo (r # rs) = (lo \<le> rg_start r \<and> rg_start r < rg_end r \<and> rg_sorted (rg_end r) rs)"

definition rg_top :: "u64 \<Rightarrow> Region list \<Rightarrow> u64" where
  "rg_top lo rs = (if rs = [] then lo else rg_end (last rs))"

lemma rg_at_Nil [simp]: "rg_at [] x = None"
  by (simp add: rg_at_def)

lemma rg_at_Cons: "rg_at (r # rs) x = (if rg_has r x then Some (rg_attr r) else rg_at rs x)"
  by (simp add: rg_at_def)

lemma rg_at_append: "rg_at (xs @ ys) x = (case rg_at xs x of Some v \<Rightarrow> Some v | None \<Rightarrow> rg_at ys x)"
  by (induction xs) (simp_all add: rg_at_Cons)

lemma rg_top_Cons: "rg_top lo (r # rs) = rg_top (rg_end r) rs"
  by (simp add: rg_top_def)

lemma rg_sorted_append:
  "rg_sorted lo (xs @ ys) \<longleftrightarrow> rg_sorted lo xs \<and> rg_sorted (rg_top lo xs) ys"
  by (induction xs arbitrary: lo) (simp_all add: rg_top_Cons, simp add: rg_top_def)

lemma rg_sorted_mono: "rg_sorted lo rs \<Longrightarrow> lo' \<le> lo \<Longrightarrow> rg_sorted lo' rs"
  by (cases rs) auto

lemma rg_at_below: "rg_sorted lo rs \<Longrightarrow> x < lo \<Longrightarrow> rg_at rs x = None"
proof (induction rs arbitrary: lo)
  case (Cons r rs)
  then have "x < rg_end r" by auto
  then show ?case using Cons by (auto simp: rg_at_Cons rg_has_def)
qed simp

lemma rg_top_ge: "rg_sorted lo rs \<Longrightarrow> lo \<le> rg_top lo rs"
proof (induction rs arbitrary: lo)
  case (Cons r rs)
  then have "lo \<le> rg_end r" by auto
  also have "\<dots> \<le> rg_top (rg_end r) rs" using Cons by simp
  finally show ?case by (simp add: rg_top_Cons)
qed (simp add: rg_top_def)

lemma rg_at_above: "rg_sorted lo rs \<Longrightarrow> rg_top lo rs \<le> x \<Longrightarrow> rg_at rs x = None"
proof (induction rs arbitrary: lo)
  case (Cons r rs)
  then have "rg_end r \<le> x" using rg_top_ge [of "rg_end r" rs] by (auto simp: rg_top_Cons)
  then show ?case using Cons by (auto simp: rg_at_Cons rg_has_def rg_top_Cons)
qed simp

lemma rg_at_member:
  assumes "rg_at rs x = Some v"
  shows "\<exists>r \<in> set rs. rg_has r x \<and> rg_attr r = v"
  using assms by (auto simp: rg_at_def find_Some_iff)

lemma rg_at_unique:
  "rg_sorted lo rs \<Longrightarrow> r \<in> set rs \<Longrightarrow> rg_has r x \<Longrightarrow> rg_at rs x = Some (rg_attr r)"
proof (induction rs arbitrary: lo)
  case (Cons q rs)
  show ?case
  proof (cases "r = q")
    case True
    then show ?thesis using Cons.prems by (simp add: rg_at_Cons)
  next
    case False
    then have r: "r \<in> set rs" "rg_sorted (rg_end q) rs" using Cons.prems by simp_all
    then have some: "rg_at rs x = Some (rg_attr r)" using Cons by blast
    then have "\<not> x < rg_end q" using rg_at_below [OF r(2)] by fastforce
    then show ?thesis using some by (simp add: rg_at_Cons rg_has_def)
  qed
qed simp

text \<open>The facts about one region.\<close>

definition rg_ok :: "Region \<Rightarrow> bool" where
  "rg_ok r \<longleftrightarrow> page_aligned (rg_start r) \<and> page_aligned (rg_end r) \<and>
     rg_maxprot r AND NOT 7 = 0 \<and> rg_prot r AND NOT (rg_maxprot r) = 0"

section \<open>Appending\<close>

text \<open>\<open>rg_state lo next t v\<close>: \<open>next\<close> is a region list under construction above \<open>lo\<close>, which ends at
  or below \<open>t\<close> and has the meaning \<open>v\<close>.\<close>

definition rg_state :: "u64 \<Rightarrow> Region list \<Rightarrow> u64 \<Rightarrow> (u64 \<Rightarrow> (u32 \<times> u32) option) \<Rightarrow> bool" where
  "rg_state lo next t v \<longleftrightarrow> rg_sorted lo next \<and> lo \<le> t \<and> rg_top lo next \<le> t \<and> rg_at next = v \<and>
     list_all rg_ok next \<and> length next \<le> REGION_LIMIT"

lemma rg_append_state:
  assumes st: "rg_state lo next t v" and "t \<le> rg_start r" and "rg_start r \<le> rg_end r" and "rg_ok r"
    and eq: "rg_append next r = Some next'"
  shows "rg_state lo next' (rg_end r) (\<lambda>x. if rg_has r x then Some (rg_attr r) else v x)"
proof -
  have s: "rg_sorted lo next" "rg_top lo next \<le> t" "rg_at next = v" "list_all rg_ok next" "lo \<le> t"
      "length next \<le> REGION_LIMIT"
    using st by (simp_all add: rg_state_def)
  have top: "rg_top lo next \<le> rg_start r" using s(2) assms(2) by simp
  show ?thesis
  proof (cases "rg_start r = rg_end r")
    case True
    then have "next' = next" "rg_has r = (\<lambda>x. False)"
      using eq by (auto simp: rg_append_def rg_has_def fun_eq_iff)
    moreover have "t \<le> rg_end r" using assms(2) True by simp
    ultimately show ?thesis using st s by (auto simp: rg_state_def)
  next
    case ne: False
    then have lt: "rg_start r < rg_end r" using assms(3) by simp
    show ?thesis
    proof (cases "next \<noteq> [] \<and> rg_end (last next) = rg_start r \<and> rg_prot (last next) = rg_prot r
        \<and> rg_maxprot (last next) = rg_maxprot r")
      case True
      then obtain ns q where n: "next = ns @ [q]" by (metis append_butlast_last_id)
      then have q: "rg_end q = rg_start r" "rg_attr q = rg_attr r" using True by (simp_all add: rg_attr_def)
      have n': "next' = ns @ [q\<lparr>rg_end := rg_end r\<rparr>]"
        using eq ne True by (simp add: rg_append_def n)
      have parts: "rg_sorted lo ns" "rg_top lo ns \<le> rg_start q" "rg_start q < rg_end q"
        using s(1) by (simp_all add: n rg_sorted_append)
      have sorted: "rg_sorted lo next'" using parts q(1) lt by (simp add: n' rg_sorted_append)
      have ok: "list_all rg_ok next'" using s(4) assms(4) by (simp add: n n' rg_ok_def)
      have "rg_at next' x = (if rg_has r x then Some (rg_attr r) else v x)" for x
      proof (cases "x < rg_start q")
        case True
        then show ?thesis
          using parts(3) q(1) lt unfolding s(3) [symmetric] n n'
          by (auto simp: rg_at_append rg_at_Cons rg_has_def split: option.splits)
      next
        case False
        then have "rg_at ns x = None" using rg_at_above [OF parts(1), of x] parts(2) by auto
        then show ?thesis
          using q False parts(3) lt unfolding s(3) [symmetric] n n'
          by (auto simp: rg_at_append rg_at_Cons rg_has_def rg_attr_def)
      qed
      moreover have "lo \<le> rg_end r" using s(5) assms(2) lt by simp
      ultimately show ?thesis
        using sorted ok s(6) by (auto simp: rg_state_def rg_top_def n n' fun_eq_iff)
    next
      case False
      then have n': "next' = next @ [r]" "length next \<noteq> REGION_LIMIT"
        using eq ne by (auto simp: rg_append_def split: if_splits)
      have "v x = None" if "rg_has r x" for x
        using rg_at_above [OF s(1), of x] order.trans [OF top] that s(3) by (simp add: rg_has_def)
      then have "rg_at next' x = (if rg_has r x then Some (rg_attr r) else v x)" for x
        unfolding n' rg_at_append s(3) by (simp add: rg_at_Cons split: option.splits)
      moreover have "lo \<le> rg_end r" using s(5) assms(2) lt by simp
      ultimately show ?thesis
        using s top lt assms(4) n' by (auto simp: rg_state_def rg_sorted_append rg_top_def fun_eq_iff)
    qed
  qed
qed

section \<open>Changing a range\<close>

text \<open>The meaning of the rebuilding loop on the regions \<open>rs\<close> still to come, when the regions built
  so far mean \<open>v\<close>.\<close>

definition change_view ::
  "Operation \<Rightarrow> u64 \<Rightarrow> u64 \<Rightarrow> u32 \<Rightarrow> u32 \<Rightarrow> Region list \<Rightarrow> bool \<Rightarrow> (u64 \<Rightarrow> (u32 \<times> u32) option)
     \<Rightarrow> u64 \<Rightarrow> (u32 \<times> u32) option" where
  "change_view op a e prot maxprot rs ins v x =
     (if a \<le> x \<and> x < e then
        (case op of
           MAP \<Rightarrow> if ins then Some (prot, maxprot) else v x
         | UNMAP \<Rightarrow> v x
         | PROTECT \<Rightarrow> (case rg_at rs x of Some (_, mx) \<Rightarrow> Some (prot, mx) | None \<Rightarrow> v x))
      else (case rg_at rs x of Some w \<Rightarrow> Some w | None \<Rightarrow> v x))"

text \<open>The regions a protection change may leave: the protection is within each maximum it meets.\<close>

definition change_ok :: "Operation \<Rightarrow> u64 \<Rightarrow> u64 \<Rightarrow> u32 \<Rightarrow> u32 \<Rightarrow> Region list \<Rightarrow> bool" where
  "change_ok op a e prot maxprot rs \<longleftrightarrow>
     a < e \<and> page_aligned a \<and> page_aligned e \<and> maxprot AND NOT 7 = 0 \<and> prot AND NOT maxprot = 0 \<and>
     list_all rg_ok rs \<and>
     (op = PROTECT \<longrightarrow> list_all (\<lambda>r. rg_end r > a \<longrightarrow> rg_start r < e \<longrightarrow> prot AND NOT (rg_maxprot r) = 0) rs)"

lemma rg_part_simps [simp]:
  "rg_start (rg_part r a b) = a" "rg_end (rg_part r a b) = b" "rg_prot (rg_part r a b) = rg_prot r"
  "rg_maxprot (rg_part r a b) = rg_maxprot r" "rg_attr (rg_part r a b) = rg_attr r"
  by (simp_all add: rg_part_def rg_attr_def)

lemma rg_ok_part: "rg_ok r \<Longrightarrow> page_aligned a \<Longrightarrow> page_aligned b \<Longrightarrow> rg_ok (rg_part r a b)"
  by (simp add: rg_ok_def)

text \<open>An optional append.\<close>

lemma rg_append_if_state:
  assumes st: "rg_state lo next t v" and c: "c \<Longrightarrow> t \<le> rg_start r \<and> rg_start r \<le> rg_end r \<and> rg_ok r"
    and eq: "(if c then rg_append next r else Some next) = Some next'" and u: "t \<le> u" "c \<Longrightarrow> rg_end r \<le> u"
  shows "rg_state lo next' u (\<lambda>x. if c \<and> rg_has r x then Some (rg_attr r) else v x)"
proof (cases c)
  case True
  then have "rg_state lo next' (rg_end r) (\<lambda>x. if rg_has r x then Some (rg_attr r) else v x)"
    using rg_append_state [OF st, of r next'] c eq by simp
  then show ?thesis using True u(2) order.trans unfolding rg_state_def by (auto intro: order.trans)
next
  case False
  then show ?thesis using st eq u(1) unfolding rg_state_def by (auto intro: order.trans)
qed

text \<open>One region at a time: what the loop appends for a region that ends after \<open>a\<close> while the
  new region is still to come, and for one that comes after it or when there is none.\<close>

lemma rg_state_cong: "rg_state lo n t v \<Longrightarrow> t = t' \<Longrightarrow> v = v' \<Longrightarrow> rg_state lo n t' v'"
  by simp

lemma change_step_insert:
  assumes st: "rg_state lo next t v" and t: "t \<le> rg_start r" "t \<le> a" and r: "rg_start r < rg_end r" "rg_ok r"
    and ok: "change_ok MAP a e prot maxprot rs" and after: "a < rg_end r"
    and n1: "(if rg_start r < a then rg_append next (rg_part r (rg_start r) a) else Some next) = Some n1"
    and n2: "rg_append n1 \<lparr>rg_start = a, rg_end = e, rg_prot = prot, rg_maxprot = maxprot\<rparr> = Some n2"
  shows "rg_state lo n2 e (\<lambda>x. if a \<le> x \<and> x < e then Some (prot, maxprot)
    else if rg_start r \<le> x \<and> x < a then Some (rg_attr r) else v x)"
proof -
  have ae: "a < e" "page_aligned a" "page_aligned e" "maxprot AND NOT 7 = 0" "prot AND NOT maxprot = 0"
    using ok by (simp_all add: change_ok_def)
  let ?new = "\<lparr>rg_start = a, rg_end = e, rg_prot = prot, rg_maxprot = maxprot\<rparr>"
  have al: "page_aligned (rg_start r)" using r(2) by (simp add: rg_ok_def)
  have "rg_state lo n1 a
      (\<lambda>x. if rg_start r < a \<and> rg_has (rg_part r (rg_start r) a) x
        then Some (rg_attr (rg_part r (rg_start r) a)) else v x)"
    by (rule rg_append_if_state [OF st _ n1]) (use t rg_ok_part [OF r(2) al ae(2)] in auto)
  then have "rg_state lo n2 (rg_end ?new) (\<lambda>x. if rg_has ?new x then Some (rg_attr ?new)
      else if rg_start r < a \<and> rg_has (rg_part r (rg_start r) a) x
        then Some (rg_attr (rg_part r (rg_start r) a)) else v x)"
    by (rule rg_append_state [OF _ _ _ _ n2]) (use ae in \<open>simp_all add: rg_ok_def\<close>)
  then show ?thesis
    by (rule rg_state_cong) (auto simp: rg_has_def rg_attr_def fun_eq_iff)
qed

lemma change_step_inside:
  assumes st: "rg_state lo next t v"
    and t: "if op = MAP then t \<le> e else t \<le> rg_start r" and r: "rg_start r < rg_end r" "rg_ok r"
    and ok: "change_ok op a e prot maxprot (r # rs)" and after: "a < rg_end r" "rg_start r < e"
    and n1: "(if op \<noteq> MAP \<and> rg_start r < a then rg_append next (rg_part r (rg_start r) a) else Some next) = Some n1"
    and n2: "(if op = PROTECT then rg_append n1
       ((rg_part r (if rg_start r > a then rg_start r else a) (if rg_end r < e then rg_end r else e))\<lparr>rg_prot := prot\<rparr>)
       else Some n1) = Some n2"
    and n3: "(if rg_end r > e then rg_append n2 (rg_part r e (rg_end r)) else Some n2) = Some n3"
  shows "rg_state lo n3 (if op = MAP then max e (rg_end r) else rg_end r)
    (\<lambda>x. if e \<le> x \<and> x < rg_end r then Some (rg_attr r)
      else if op = PROTECT \<and> rg_has r x \<and> a \<le> x \<and> x < e then Some (prot, rg_maxprot r)
      else if op \<noteq> MAP \<and> rg_has r x \<and> x < a then Some (rg_attr r) else v x)"
proof -
  have ae: "a < e" "page_aligned a" "page_aligned e"
    and pr: "op = PROTECT \<Longrightarrow> prot AND NOT (rg_maxprot r) = 0"
    using ok after by (simp_all add: change_ok_def)
  have al: "page_aligned (rg_start r)" "page_aligned (rg_end r)" "rg_maxprot r AND NOT 7 = 0"
    using r(2) by (simp_all add: rg_ok_def)
  define u where "u = (if op \<noteq> MAP \<and> rg_start r < a then a else t)"
  define w where "w = (if op = MAP then e else min e (rg_end r))"
  let ?z = "if op = MAP then max e (rg_end r) else rg_end r"
  let ?mid = "(rg_part r (if rg_start r > a then rg_start r else a) (if rg_end r < e then rg_end r else e))\<lparr>rg_prot := prot\<rparr>"
  have "rg_state lo n1 u
      (\<lambda>x. if (op \<noteq> MAP \<and> rg_start r < a) \<and> rg_has (rg_part r (rg_start r) a) x
        then Some (rg_attr (rg_part r (rg_start r) a)) else v x)"
    by (rule rg_append_if_state [OF st _ n1]) (use t rg_ok_part [OF r(2) al(1) ae(2)] in \<open>auto simp: u_def\<close>)
  moreover have "op = PROTECT \<Longrightarrow> u \<le> rg_start ?mid \<and> rg_start ?mid \<le> rg_end ?mid \<and> rg_ok ?mid"
    using t r after ae al pr by (auto simp: u_def rg_ok_def)
  moreover have "u \<le> w" "op = PROTECT \<Longrightarrow> rg_end ?mid \<le> w"
    using t after ae r(1) by (auto simp: u_def w_def split: if_splits)
  ultimately have "rg_state lo n2 w (\<lambda>x. if op = PROTECT \<and> rg_has ?mid x then Some (rg_attr ?mid)
      else if (op \<noteq> MAP \<and> rg_start r < a) \<and> rg_has (rg_part r (rg_start r) a) x
        then Some (rg_attr (rg_part r (rg_start r) a)) else v x)"
    by (rule rg_append_if_state [OF _ _ n2])
  then have "rg_state lo n3 ?z (\<lambda>x. if e < rg_end r \<and> rg_has (rg_part r e (rg_end r)) x
      then Some (rg_attr (rg_part r e (rg_end r))) else if op = PROTECT \<and> rg_has ?mid x then Some (rg_attr ?mid)
      else if (op \<noteq> MAP \<and> rg_start r < a) \<and> rg_has (rg_part r (rg_start r) a) x
        then Some (rg_attr (rg_part r (rg_start r) a)) else v x)"
    using rg_ok_part [OF r(2) ae(3) al(2)] by (intro rg_append_if_state [OF _ _ n3]) (auto simp: w_def)
  then show ?thesis
  proof (rule rg_state_cong [OF _ refl ext])
    fix x
    consider "e \<le> x" | "x < e" "a \<le> x" | "x < a" by force
    then show "(if e < rg_end r \<and> rg_has (rg_part r e (rg_end r)) x
      then Some (rg_attr (rg_part r e (rg_end r))) else if op = PROTECT \<and> rg_has ?mid x then Some (rg_attr ?mid)
      else if (op \<noteq> MAP \<and> rg_start r < a) \<and> rg_has (rg_part r (rg_start r) a) x
        then Some (rg_attr (rg_part r (rg_start r) a)) else v x) =
      (if e \<le> x \<and> x < rg_end r then Some (rg_attr r)
      else if op = PROTECT \<and> rg_has r x \<and> a \<le> x \<and> x < e then Some (prot, rg_maxprot r)
      else if op \<noteq> MAP \<and> rg_has r x \<and> x < a then Some (rg_attr r) else v x)"
      using r(1) after ae(1) by cases (auto simp: rg_has_def rg_attr_def)
  qed
qed

lemma rg_state_le: "rg_state lo n t v \<Longrightarrow> t \<le> t' \<Longrightarrow> rg_state lo n t' v"
  by (auto simp: rg_state_def intro: order.trans)

lemma change_loop_state:
  assumes "change_loop op a e prot maxprot rs next ins = Some (next', ins')"
    and "rg_state lo next t v" and "rg_sorted p rs" and "change_ok op a e prot maxprot rs"
    and "\<not> ins \<Longrightarrow> op = MAP \<and> t \<le> a"
    and "if op = MAP \<and> ins then t \<le> max p e \<and> a < p else t \<le> p"
    and "list_all (\<lambda>r. rg_end r \<le> hi) rs" and "t \<le> hi" and "e \<le> hi"
  shows "\<exists>t'. rg_state lo next' t' (change_view op a e prot maxprot rs (\<not> ins \<and> ins') v) \<and>
    (\<not> ins' \<longrightarrow> t' \<le> a) \<and> t' \<le> hi \<and> (ins \<longrightarrow> ins')"
  using assms
proof (induction rs arbitrary: "next" ins t v p)
  case Nil
  have "change_view op a e prot maxprot [] (\<not> ins \<and> ins') v = v"
    using Nil.prems(1) by (auto simp: change_view_def fun_eq_iff split: Operation.splits)
  then show ?case using Nil.prems by auto
next
  case (Cons r rs)
  have r: "p \<le> rg_start r" "rg_start r < rg_end r" "rg_sorted (rg_end r) rs" "rg_ok r" "rg_end r \<le> hi"
    and ok: "change_ok op a e prot maxprot rs" and ae: "a < e"
    and hi: "list_all (\<lambda>r. rg_end r \<le> hi) rs"
    using Cons.prems by (simp_all add: change_ok_def)
  have none: "rg_at rs x = None" if "x < rg_end r" for x by (rule rg_at_below [OF r(3) that])
  note IH = Cons.IH [OF _ _ r(3) ok _ _ hi _ Cons.prems(9)]
  have append_r: ?case
    if n1: "rg_append nx r = Some n1" and st: "rg_state lo nx u w" and u: "u \<le> rg_start r"
      and rest: "change_loop op a e prot maxprot rs n1 i = Some (next', ins')"
      and i: "\<not> i \<Longrightarrow> op = MAP \<and> rg_end r \<le> a" "op = MAP \<and> i \<Longrightarrow> a < rg_end r" "ins \<longrightarrow> i"
      and out: "rg_end r \<le> a \<or> e \<le> rg_start r"
      and w: "\<And>x. w x = (if \<not> ins \<and> i \<and> a \<le> x \<and> x < e then Some (prot, maxprot) else v x)"
    for nx n1 u w i
  proof -
    have s1: "rg_state lo n1 (rg_end r) (\<lambda>x. if rg_has r x then Some (rg_attr r) else w x)"
      using rg_append_state [OF st u _ r(4) n1] r(2) by simp
    have b: "if op = MAP \<and> i then rg_end r \<le> max (rg_end r) e \<and> a < rg_end r else rg_end r \<le> rg_end r"
      using i(2) by simp
    obtain t' where t': "rg_state lo next' t' (change_view op a e prot maxprot rs (\<not> i \<and> ins')
        (\<lambda>x. if rg_has r x then Some (rg_attr r) else w x))" "\<not> ins' \<longrightarrow> t' \<le> a" "t' \<le> hi" "i \<longrightarrow> ins'"
      using IH [OF rest s1 i(1) b r(5)] by blast
    have "change_view op a e prot maxprot rs (\<not> i \<and> ins')
        (\<lambda>x. if rg_has r x then Some (rg_attr r) else w x) =
      change_view op a e prot maxprot (r # rs) (\<not> ins \<and> ins') v"
    proof
      fix x
      have "\<not> (a \<le> x \<and> x < e)" if "rg_has r x" using that out by (auto simp: rg_has_def)
      then show "change_view op a e prot maxprot rs (\<not> i \<and> ins')
        (\<lambda>x. if rg_has r x then Some (rg_attr r) else w x) x =
        change_view op a e prot maxprot (r # rs) (\<not> ins \<and> ins') v x"
        using none [of x] w [of x] i(1,3) t'(4) Cons.prems(5)
        by (auto simp: change_view_def rg_at_Cons rg_has_def split: Operation.splits option.splits)
    qed
    then show ?thesis using t' i(3) by auto
  qed
  show ?case
  proof (cases "rg_end r \<le> a")
    case True
    then obtain n1 where n1: "rg_append next r = Some n1"
        "change_loop op a e prot maxprot rs n1 ins = Some (next', ins')"
      using Cons.prems(1) by (auto simp: bind_eq_Some_conv)
    have m: "\<not> (op = MAP \<and> ins)" using Cons.prems(6) True r by auto
    show ?thesis
      by (rule append_r [OF n1(1) Cons.prems(2) _ n1(2)]) (use Cons.prems(5,6) m True r in auto)
  next
    case False
    then have after: "a < rg_end r" by simp
    let ?A = "if \<not> ins then do {
             next \<leftarrow> (if rg_start r < a then rg_append next (rg_part r (rg_start r) a) else Some next);
             next \<leftarrow> rg_append next \<lparr>rg_start = a, rg_end = e, rg_prot = prot, rg_maxprot = maxprot\<rparr>;
             Some (next, True)
           } else Some (next, ins)"
    let ?K = "\<lambda>n2 i. if rg_start r \<ge> e then do {
          next \<leftarrow> rg_append n2 r;
          change_loop op a e prot maxprot rs next i
        } else do {
          next \<leftarrow> (if op \<noteq> MAP \<and> rg_start r < a
                   then rg_append n2 (rg_part r (rg_start r) a) else Some n2);
          next \<leftarrow> (if op = PROTECT
                   then rg_append next
                          ((rg_part r (if rg_start r > a then rg_start r else a)
                              (if rg_end r < e then rg_end r else e))\<lparr>rg_prot := prot\<rparr>)
                   else Some next);
          next \<leftarrow> (if rg_end r > e then rg_append next (rg_part r e (rg_end r)) else Some next);
          change_loop op a e prot maxprot rs next i
        }"
    have "?A \<bind> (\<lambda>(n, i). ?K n i) = Some (next', ins')"
      using Cons.prems(1) False unfolding change_loop.simps(2) by (simp only: if_False)
    then obtain q where q: "?A = Some q" "(\<lambda>(n, i). ?K n i) q = Some (next', ins')"
      unfolding bind_eq_Some_conv by blast
    obtain n2 i where "q = (n2, i)" by (cases q)
    with q have ins: "?A = Some (n2, i)" and rest: "?K n2 i = Some (next', ins')" by (simp_all only: prod.case)
    define w where "w = (\<lambda>x. if \<not> ins \<and> a \<le> x \<and> x < e then Some (prot, maxprot)
      else if \<not> ins \<and> rg_start r \<le> x \<and> x < a then Some (rg_attr r) else v x)"
    define u where "u = (if ins then t else e)"
    have i: "i" and st: "rg_state lo n2 u w"
    proof -
      show "i" using ins by (auto simp: bind_eq_Some_conv split: if_splits)
      show "rg_state lo n2 u w"
      proof (cases ins)
        case True
        then show ?thesis using ins Cons.prems(2) by (simp add: u_def w_def)
      next
        case new: False
        then have m: "op = MAP" "t \<le> a" "t \<le> rg_start r" using Cons.prems(5,6) r(1) by auto
        obtain n1 where "(if rg_start r < a then rg_append next (rg_part r (rg_start r) a) else Some next) = Some n1"
          "rg_append n1 \<lparr>rg_start = a, rg_end = e, rg_prot = prot, rg_maxprot = maxprot\<rparr> = Some n2"
          using ins new by (auto simp: bind_eq_Some_conv)
        from change_step_insert [OF Cons.prems(2) m(3,2) r(2,4) ok [unfolded m(1)] after this]
        show ?thesis by (rule rg_state_cong) (simp_all add: u_def w_def new fun_eq_iff)
      qed
    qed
    show ?thesis
    proof (cases "e \<le> rg_start r")
      case True
      then obtain n3 where n3: "rg_append n2 r = Some n3" "change_loop op a e prot maxprot rs n3 i = Some (next', ins')"
        using rest by (auto simp: bind_eq_Some_conv)
      have "u \<le> rg_start r" using Cons.prems(6) True r(1) by (auto simp: u_def max_def split: if_splits)
      then show ?thesis
        by (rule append_r [OF n3(1) st _ n3(2)]) (use i after True ae in \<open>auto simp: w_def\<close>)
    next
      case inside: False
      then have lt: "rg_start r < e" by simp
      obtain n3 n4 n5 where n: "(if op \<noteq> MAP \<and> rg_start r < a
            then rg_append n2 (rg_part r (rg_start r) a) else Some n2) = Some n3"
          "(if op = PROTECT then rg_append n3 ((rg_part r (if rg_start r > a then rg_start r else a)
              (if rg_end r < e then rg_end r else e))\<lparr>rg_prot := prot\<rparr>) else Some n3) = Some n4"
          "(if rg_end r > e then rg_append n4 (rg_part r e (rg_end r)) else Some n4) = Some n5"
          "change_loop op a e prot maxprot rs n5 i = Some (next', ins')"
        using rest inside by (auto simp: bind_eq_Some_conv)
      have ut: "if op = MAP then u \<le> e else u \<le> rg_start r"
        using Cons.prems(5,6) r(1) lt by (auto simp: u_def max_def split: if_splits)
      note s5 = change_step_inside [OF st ut r(2,4) Cons.prems(4) after lt n(1-3)]
      let ?z = "if op = MAP then max e (rg_end r) else rg_end r"
      let ?v = "\<lambda>x. if e \<le> x \<and> x < rg_end r then Some (rg_attr r)
        else if op = PROTECT \<and> rg_has r x \<and> a \<le> x \<and> x < e then Some (prot, rg_maxprot r)
        else if op \<noteq> MAP \<and> rg_has r x \<and> x < a then Some (rg_attr r) else w x"
      have b: "if op = MAP \<and> i then ?z \<le> max (rg_end r) e \<and> a < rg_end r else ?z \<le> rg_end r"
        using i after by auto
      have zhi: "?z \<le> hi" using r(5) Cons.prems(9) by simp
      obtain t' where t': "rg_state lo next' t' (change_view op a e prot maxprot rs (\<not> i \<and> ins') ?v)"
          "\<not> ins' \<longrightarrow> t' \<le> a" "t' \<le> hi" "i \<longrightarrow> ins'"
        using IH [OF n(4) s5 _ b zhi] i by blast
      have "change_view op a e prot maxprot rs (\<not> i \<and> ins') ?v =
        change_view op a e prot maxprot (r # rs) (\<not> ins \<and> ins') v"
      proof
        fix x
        have start: "a < rg_start r" if "op = MAP" "ins" using that Cons.prems(6) r(1) by auto
        have new: "op = MAP" if "\<not> ins" using that Cons.prems(5) by simp
        consider "e \<le> x" | "a \<le> x" "x < e" | "x < a" by force
        then show "change_view op a e prot maxprot rs (\<not> i \<and> ins') ?v x =
          change_view op a e prot maxprot (r # rs) (\<not> ins \<and> ins') v x"
        proof cases
          case 1
          then show ?thesis
            using none [of x] lt ae
            by (cases op) (auto simp: change_view_def rg_at_Cons rg_has_def w_def split: option.splits)
        next
          case 2
          then show ?thesis
            using none [of x] i t'(4) new
            by (cases op)
              (auto simp: change_view_def rg_at_Cons rg_has_def rg_attr_def w_def split: option.splits)
        next
          case 3
          then show ?thesis
            using none [of x] start new after ae
            by (cases op; cases ins) (auto simp: change_view_def rg_at_Cons rg_has_def w_def split: option.splits)
        qed
      qed
      then show ?thesis using t' i by auto
    qed
  qed
qed

text \<open>The whole rebuilding.\<close>

lemma change_regions_state:
  assumes "change_regions op a e prot maxprot rs = Some rs'" and "rg_sorted lo rs"
    and "change_ok op a e prot maxprot rs" and "list_all (\<lambda>r. rg_end r \<le> hi) rs" and "lo \<le> a" and "e \<le> hi"
  shows "rg_state lo rs' hi (\<lambda>x. if a \<le> x \<and> x < e
      then (case op of MAP \<Rightarrow> Some (prot, maxprot) | UNMAP \<Rightarrow> None
            | PROTECT \<Rightarrow> map_option (\<lambda>(_, mx). (prot, mx)) (rg_at rs x))
      else rg_at rs x)"
proof -
  obtain n1 i where n1: "change_loop op a e prot maxprot rs [] (op \<noteq> MAP) = Some (n1, i)"
      "(if \<not> i then rg_append n1 \<lparr>rg_start = a, rg_end = e, rg_prot = prot, rg_maxprot = maxprot\<rparr> else Some n1) = Some rs'"
    using assms(1) by (auto simp: change_regions_def bind_eq_Some_conv)
  have ae: "a < e" "page_aligned a" "page_aligned e" "maxprot AND NOT 7 = 0" "prot AND NOT maxprot = 0"
    using assms(3) by (simp_all add: change_ok_def)
  have st: "rg_state lo [] lo (\<lambda>_. None)" by (simp add: rg_state_def rg_top_def fun_eq_iff)
  have lohi: "lo \<le> hi" using assms(5,6) ae(1) by simp
  obtain t where t: "rg_state lo n1 t (change_view op a e prot maxprot rs (op = MAP \<and> i) (\<lambda>_. None))"
      "\<not> i \<longrightarrow> t \<le> a" "t \<le> hi" "op \<noteq> MAP \<longrightarrow> i"
    using change_loop_state [OF n1(1) st assms(2,3) _ _ assms(4) lohi assms(6)] assms(5) by auto
  have view: "change_view op a e prot maxprot rs (op = MAP \<and> i) (\<lambda>_. None) x =
      (if a \<le> x \<and> x < e
      then (case op of MAP \<Rightarrow> if i then Some (prot, maxprot) else None | UNMAP \<Rightarrow> None
            | PROTECT \<Rightarrow> map_option (\<lambda>(_, mx). (prot, mx)) (rg_at rs x))
      else rg_at rs x)" for x
    by (auto simp: change_view_def split: Operation.splits option.splits)
  show ?thesis
  proof (cases i)
    case True
    then have "rs' = n1" using n1 by simp
    show ?thesis
      unfolding \<open>rs' = n1\<close>
      by (rule rg_state_cong [OF rg_state_le [OF t(1,3)] refl])
        (simp only: fun_eq_iff view, simp add: True split: Operation.split)
  next
    case False
    let ?new = "\<lparr>rg_start = a, rg_end = e, rg_prot = prot, rg_maxprot = maxprot\<rparr>"
    have m: "op = MAP" using False t(4) by simp
    have "rg_state lo rs' (rg_end ?new) (\<lambda>x. if rg_has ?new x then Some (rg_attr ?new)
        else change_view op a e prot maxprot rs (op = MAP \<and> i) (\<lambda>_. None) x)"
      by (rule rg_append_state [OF t(1)]) (use t(2) False ae n1 in \<open>simp_all add: rg_ok_def\<close>)
    then have "rg_state lo rs' hi (\<lambda>x. if rg_has ?new x then Some (rg_attr ?new)
        else change_view op a e prot maxprot rs (op = MAP \<and> i) (\<lambda>_. None) x)"
      by (rule rg_state_le) (simp add: assms(6))
    then show ?thesis
      by (rule rg_state_cong)
        (simp_all only: fun_eq_iff view, simp_all add: m False rg_has_def rg_attr_def)
  qed
qed

section \<open>The checks\<close>

text \<open>The first loop of \<open>change\<close>.\<close>

lemma change_check_other:
  "op \<noteq> PROTECT \<Longrightarrow> change_check op replace a e rs covered =
    (if op = MAP \<and> \<not> replace \<and> (\<exists>r \<in> set rs. a < rg_end r \<and> rg_start r < e) then GM_OVERLAP else GM_OK)"
  by (induction rs arbitrary: covered) (auto simp: not_le)

lemma change_check_protect:
  assumes "rg_sorted p rs" and "a < e" and "a \<le> c" and "c \<le> e" and "c = a \<or> c \<le> p"
  shows "change_check PROTECT replace a e rs c =
    (if \<forall>x. c \<le> x \<longrightarrow> x < e \<longrightarrow> rg_at rs x \<noteq> None then GM_OK else GM_UNMAPPED)"
  using assms
proof (induction rs arbitrary: p c)
  case Nil
  show ?case using Nil.prems by (cases "c = e") auto
next
  case (Cons r rs)
  have r: "p \<le> rg_start r" "rg_start r < rg_end r" "rg_sorted (rg_end r) rs" using Cons.prems by simp_all
  have none: "rg_at rs x = None" if "x < rg_end r" for x by (rule rg_at_below [OF r(3) that])
  show ?case
  proof (cases "rg_end r \<le> a \<or> e \<le> rg_start r")
    case True
    have ca: "c = a \<or> c \<le> rg_end r" using Cons.prems(5) r by auto
    have "rg_at (r # rs) x = rg_at rs x" if "c \<le> x" "x < e" for x
      using True that Cons.prems(3) by (auto simp: rg_at_Cons rg_has_def)
    then show ?thesis
      using Cons.IH [OF r(3) Cons.prems(2-4) ca] True by auto
  next
    case False
    then have o: "a < rg_end r" "rg_start r < e" by auto
    have ce: "c < rg_end r" using Cons.prems(5) o r by auto
    show ?thesis
    proof (cases "c < rg_start r")
      case True
      then have "rg_at (r # rs) c = None" using none [OF ce] by (auto simp: rg_at_Cons rg_has_def)
      moreover have "c < e" using True o by simp
      ultimately show ?thesis using True False by auto
    next
      case sc: False
      let ?c = "if rg_end r < e then rg_end r else e"
      have "(\<forall>x. ?c \<le> x \<longrightarrow> x < e \<longrightarrow> rg_at rs x \<noteq> None) \<longleftrightarrow>
          (\<forall>x. c \<le> x \<longrightarrow> x < e \<longrightarrow> rg_at (r # rs) x \<noteq> None)" (is "?L \<longleftrightarrow> ?R")
      proof
        assume ?L
        then show ?R using sc by (auto simp: rg_at_Cons rg_has_def split: if_splits)
      next
        assume R: ?R
        show ?L
        proof (intro allI impI)
          fix x
          assume x: "?c \<le> x" "x < e"
          then have "rg_end r \<le> x" "c \<le> x" using ce by (auto split: if_splits)
          moreover from this have "rg_at (r # rs) x = rg_at rs x" by (simp add: rg_at_Cons rg_has_def leD)
          ultimately show "rg_at rs x \<noteq> None" using R x(2) by metis
        qed
      qed
      moreover have "change_check PROTECT replace a e (r # rs) c = change_check PROTECT replace a e rs ?c"
        using False sc by simp
      moreover have "change_check PROTECT replace a e rs ?c =
          (if \<forall>x. ?c \<le> x \<longrightarrow> x < e \<longrightarrow> rg_at rs x \<noteq> None then GM_OK else GM_UNMAPPED)"
        by (rule Cons.IH [OF r(3) Cons.prems(2)]) (use o Cons.prems(2) in auto)
      ultimately show ?thesis by presburger
    qed
  qed
qed

text \<open>The loop of \<open>check_access\<close>: the first address without the permission decides.\<close>

definition rg_allows :: "Region list \<Rightarrow> u32 \<Rightarrow> u64 \<Rightarrow> bool" where
  "rg_allows rs permission x \<longleftrightarrow>
     (case rg_at rs x of None \<Rightarrow> False | Some (prot, _) \<Rightarrow> prot AND permission = permission)"

definition rg_fault :: "Region list \<Rightarrow> u64 \<Rightarrow> GMResult" where
  "rg_fault rs x = (if rg_at rs x = None then GM_UNMAPPED else GM_PROTECTION)"

lemma access_check_spec:
  assumes "rg_sorted p rs" and "c \<le> e"
  shows "access_check permission e rs c = GM_OK \<and> (\<forall>x. c \<le> x \<longrightarrow> x < e \<longrightarrow> rg_allows rs permission x) \<or>
    (\<exists>f. c \<le> f \<and> f < e \<and> \<not> rg_allows rs permission f \<and>
      (\<forall>x. c \<le> x \<longrightarrow> x < f \<longrightarrow> rg_allows rs permission x) \<and> access_check permission e rs c = rg_fault rs f)"
  using assms
proof (induction rs arbitrary: p c)
  case Nil
  show ?case
  proof (cases "c = e")
    case False
    then have "c < e" using Nil.prems by simp
    then show ?thesis using False by (intro disjI2 exI [of _ c]) (auto simp: rg_allows_def rg_fault_def)
  qed auto
next
  case (Cons r rs)
  have r: "rg_start r < rg_end r" "rg_sorted (rg_end r) rs" using Cons.prems by simp_all
  have none: "rg_at rs x = None" if "x < rg_end r" for x by (rule rg_at_below [OF r(2) that])
  show ?case
  proof (cases "c < e")
    case False
    then have "c = e" using Cons.prems(2) by simp
    then show ?thesis by auto
  next
    case ce: True
    show ?thesis
    proof (cases "rg_end r \<le> c")
      case True
      have same: "rg_at (r # rs) x = rg_at rs x" if "c \<le> x" for x
        using True that by (auto simp: rg_at_Cons rg_has_def)
      have "access_check permission e (r # rs) c = access_check permission e rs c" using ce True by simp
      moreover have "rg_allows (r # rs) permission x = rg_allows rs permission x"
          "rg_fault (r # rs) x = rg_fault rs x" if "c \<le> x" for x
        using same [OF that] by (simp_all add: rg_allows_def rg_fault_def)
      ultimately show ?thesis using Cons.IH [OF r(2) Cons.prems(2)] by auto
    next
      case c2: False
      then have cend: "c < rg_end r" by simp
      show ?thesis
      proof (cases "c < rg_start r \<or> rg_prot r AND permission \<noteq> permission")
        case True
        have at: "rg_at (r # rs) c = (if c < rg_start r then None else Some (rg_attr r))"
          using none [OF cend] cend by (auto simp: rg_at_Cons rg_has_def)
        have "access_check permission e (r # rs) c = rg_fault (r # rs) c"
          using ce c2 True at by (auto simp: rg_fault_def)
        moreover have "\<not> rg_allows (r # rs) permission c"
          using True at by (auto simp: rg_allows_def rg_attr_def)
        ultimately show ?thesis using ce by (intro disjI2 exI [of _ c]) auto
      next
        case False
        let ?c = "if rg_end r < e then rg_end r else e"
        have step: "access_check permission e (r # rs) c = access_check permission e rs ?c"
          using ce c2 False by simp
        have low: "rg_allows (r # rs) permission x" if "c \<le> x" "x < ?c" for x
        proof -
          have "rg_has r x" using that False by (auto simp: rg_has_def split: if_splits)
          then show ?thesis using False by (simp add: rg_allows_def rg_at_Cons rg_attr_def)
        qed
        have high: "rg_at (r # rs) x = rg_at rs x" if "?c \<le> x" "x < e" for x
          using that by (auto simp: rg_at_Cons rg_has_def split: if_splits)
        have high': "rg_allows (r # rs) permission x = rg_allows rs permission x"
            "rg_fault (r # rs) x = rg_fault rs x" if "?c \<le> x" "x < e" for x
          using high [OF that] by (simp_all add: rg_allows_def rg_fault_def)
        have all: "rg_allows (r # rs) permission x" if "c \<le> x" "x < e" "?c \<le> x \<Longrightarrow> rg_allows rs permission x" for x
          using low [of x] high'(1) [of x] that by (cases "x < ?c") (auto simp: not_less)
        have c': "?c \<le> e" "c \<le> ?c" using cend ce by auto
        from Cons.IH [OF r(2) c'(1)] show ?thesis
        proof
          assume "access_check permission e rs ?c = GM_OK \<and> (\<forall>x. ?c \<le> x \<longrightarrow> x < e \<longrightarrow> rg_allows rs permission x)"
          then show ?thesis using step all by auto
        next
          assume "\<exists>f. ?c \<le> f \<and> f < e \<and> \<not> rg_allows rs permission f \<and>
            (\<forall>x. ?c \<le> x \<longrightarrow> x < f \<longrightarrow> rg_allows rs permission x) \<and> access_check permission e rs ?c = rg_fault rs f"
          then obtain f where f: "?c \<le> f" "f < e" "\<not> rg_allows rs permission f"
            "\<forall>x. ?c \<le> x \<longrightarrow> x < f \<longrightarrow> rg_allows rs permission x" "access_check permission e rs ?c = rg_fault rs f" by blast
          have "\<forall>x. c \<le> x \<longrightarrow> x < f \<longrightarrow> rg_allows (r # rs) permission x"
            using all f(2,4) order.strict_trans by blast
          moreover have "c \<le> f" using order.trans [OF c'(2) f(1)] .
          ultimately show ?thesis using f step high' [OF f(1,2)] by (intro disjI2 exI [of _ f]) auto
        qed
      qed
    qed
  qed
qed

section \<open>The search\<close>

text \<open>The candidate is the lowest address from \<open>c\<close> on with \<open>sz\<close> free bytes before the next region.\<close>

definition free_first :: "Region list \<Rightarrow> u64 \<Rightarrow> u64 \<Rightarrow> u64 \<Rightarrow> bool" where
  "free_first rs sz c f \<longleftrightarrow> c \<le> f \<and>
     (\<forall>x. f \<le> x \<longrightarrow> unat x < unat f + unat sz \<longrightarrow> rg_at rs x = None) \<and>
     (\<forall>y. c \<le> y \<longrightarrow> (\<forall>x. y \<le> x \<longrightarrow> unat x < unat y + unat sz \<longrightarrow> rg_at rs x = None) \<longrightarrow> f \<le> y) \<and>
     (f = c \<or> (\<exists>r \<in> set rs. f = rg_end r))"

lemma free_firstD:
  assumes "free_first rs sz c f"
  shows "c \<le> f" and "\<And>x. f \<le> x \<Longrightarrow> unat x < unat f + unat sz \<Longrightarrow> rg_at rs x = None"
    and "\<And>y. c \<le> y \<Longrightarrow> (\<And>x. y \<le> x \<Longrightarrow> unat x < unat y + unat sz \<Longrightarrow> rg_at rs x = None) \<Longrightarrow> f \<le> y"
    and "f = c \<or> (\<exists>r \<in> set rs. f = rg_end r)"
  using assms unfolding free_first_def by blast+

lemma free_firstI:
  assumes "c \<le> f" and "\<And>x. f \<le> x \<Longrightarrow> unat x < unat f + unat sz \<Longrightarrow> rg_at rs x = None"
    and "\<And>y. c \<le> y \<Longrightarrow> (\<And>x. y \<le> x \<Longrightarrow> unat x < unat y + unat sz \<Longrightarrow> rg_at rs x = None) \<Longrightarrow> f \<le> y"
    and "f = c \<or> (\<exists>r \<in> set rs. f = rg_end r)"
  shows "free_first rs sz c f"
  unfolding free_first_def
proof (intro conjI allI impI)
  fix y
  assume "c \<le> y" "\<forall>x. y \<le> x \<longrightarrow> unat x < unat y + unat sz \<longrightarrow> rg_at rs x = None"
  then show "f \<le> y" by (intro assms(3)) blast+
qed (fact assms)+

lemma free_candidate_spec:
  assumes "rg_sorted c rs" and "0 < sz"
  shows "free_first rs sz c (free_candidate rs sz c)"
  using assms(1)
proof (induction rs arbitrary: c)
    case (Cons r rs)
    have r: "c \<le> rg_start r" "rg_start r < rg_end r" "rg_sorted (rg_end r) rs" using Cons.prems by simp_all
    have gap: "unat (rg_start r - c) = unat (rg_start r) - unat c" using r(1) by (rule unat_sub_le)
    have sz: "0 < unat sz" using assms(2) by (simp add: word_nat)
    show ?case
    proof (cases "sz \<le> rg_start r - c")
      case True
      have "rg_at (r # rs) x = None" if "c \<le> x" "unat x < unat c + unat sz" for x
      proof -
        have "x < rg_start r" using True that gap r(1) by (simp add: word_nat)
        then show ?thesis using rg_at_below [OF r(3), of x] r(2) by (auto simp: rg_at_Cons rg_has_def)
      qed
      then show ?thesis using True by (simp add: free_first_def)
    next
      case False
      let ?f = "free_candidate rs sz (rg_end r)"
      have IH: "rg_end r \<le> ?f"
          "\<And>x. ?f \<le> x \<Longrightarrow> unat x < unat ?f + unat sz \<Longrightarrow> rg_at rs x = None"
          "\<And>y. rg_end r \<le> y \<Longrightarrow> (\<And>x. y \<le> x \<Longrightarrow> unat x < unat y + unat sz \<Longrightarrow> rg_at rs x = None) \<Longrightarrow> ?f \<le> y"
          "?f = rg_end r \<or> (\<exists>q \<in> set rs. ?f = rg_end q)"
        by (fact free_firstD [OF Cons.IH [OF r(3)]])+
      have f: "free_candidate (r # rs) sz c = ?f" using False by simp
      have ge: "c \<le> ?f" using IH(1) r(1,2) by (simp add: word_nat)
      have up: "rg_at (r # rs) x = rg_at rs x" if "rg_end r \<le> x" for x
        using that by (simp add: rg_at_Cons rg_has_def leD)
      have free: "rg_at (r # rs) x = None" if "?f \<le> x" "unat x < unat ?f + unat sz" for x
        unfolding up [OF order_trans [OF IH(1) that(1)]] using that by (rule IH(2))
      have low: "?f \<le> y" if y: "c \<le> y" "\<And>x. y \<le> x \<Longrightarrow> unat x < unat y + unat sz \<Longrightarrow> rg_at (r # rs) x = None" for y
      proof -
        have big: "\<not> unat sz \<le> unat (rg_start r) - unat c" using False by (simp add: word_nat gap)
        have some: "rg_at (r # rs) (rg_start r) \<noteq> None" using r(2) by (simp add: rg_at_Cons rg_has_def)
        have "\<not> y \<le> rg_start r"
        proof
          assume le: "y \<le> rg_start r"
          then have "unat (rg_start r) < unat y + unat sz" using big y(1) by (simp add: word_nat)
          then show False using y(2) [OF le] some by simp
        qed
        moreover have "\<not> (rg_start r \<le> y \<and> y < rg_end r)"
        proof
          assume "rg_start r \<le> y \<and> y < rg_end r"
          then have "rg_at (r # rs) y \<noteq> None" by (simp add: rg_at_Cons rg_has_def)
          then show False using y(2) [of y] sz by simp
        qed
        ultimately have ey: "rg_end r \<le> y" by (meson linear not_le)
        show ?thesis
        proof (rule IH(3) [OF ey])
          fix x
          assume x: "y \<le> x" "unat x < unat y + unat sz"
          show "rg_at rs x = None" using y(2) [OF x] up [OF order_trans [OF ey x(1)]] by simp
        qed
      qed
      have last: "?f = c \<or> (\<exists>q \<in> set (r # rs). ?f = rg_end q)" using IH(4) by auto
      show ?thesis unfolding f by (rule free_firstI [OF ge free low last])
    qed
qed (simp add: free_first_def)

end
