(* ===== verification/GuestSparseSpace.thy ===== *)
theory GuestSparseSpace
  imports GuestSparseRegions AddressSpace
begin

text \<open>
  The invariant of a sparse space and the operations that change its mappings: \<open>gm_sparse_init\<close>,
  \<open>gm_sparse_map\<close>, \<open>gm_sparse_unmap\<close>, \<open>gm_sparse_protect\<close> and \<open>gm_sparse_find_free\<close>, described by
  their effect on the attributes and the bytes of the addresses.
\<close>

section \<open>The invariant\<close>

definition sm_attr :: "Space \<Rightarrow> u64 \<Rightarrow> (u32 \<times> u32) option" where
  "sm_attr s x = rg_at (s_regions s) x"

definition space_ok :: "Space \<Rightarrow> bool" where
  "space_ok s \<longleftrightarrow> store_ok s \<and> s_base s \<noteq> 0 \<and> page_aligned (s_base s) \<and> page_aligned (s_end s) \<and>
     rg_state (s_base s) (s_regions s) (s_end s) (sm_attr s) \<and>
     (\<forall>x. sm_slot s x \<noteq> None \<longrightarrow> sm_attr s x \<noteq> None)"

lemma space_ok_store: "space_ok s \<Longrightarrow> store_ok s"
  by (simp add: space_ok_def)

lemma space_ok_regions:
  assumes "space_ok s"
  shows "rg_sorted (s_base s) (s_regions s)" and "rg_top (s_base s) (s_regions s) \<le> s_end s"
    and "list_all rg_ok (s_regions s)" and "length (s_regions s) \<le> REGION_LIMIT" and "s_base s \<le> s_end s"
  using assms by (simp_all add: space_ok_def rg_state_def)

text \<open>A page is mapped as a whole.\<close>

lemma aligned_le_base: "page_aligned a \<Longrightarrow> a \<le> page_base x \<longleftrightarrow> a \<le> x"
proof -
  assume a: "page_aligned a"
  have "unat a \<le> unat x \<Longrightarrow> unat a \<le> unat (page_base x)"
  proof -
    assume "unat a \<le> unat x"
    then have "unat a div 16384 \<le> unat x div 16384" by (rule div_le_mono)
    then have "unat a div 16384 * 16384 \<le> unat x div 16384 * 16384" by simp
    then show ?thesis
      using a minus_mod_eq_div_mult [of "unat x" 16384] minus_mod_eq_div_mult [of "unat a" 16384]
      by (simp add: page_aligned_iff unat_page_base)
  qed
  then show ?thesis using page_base_le [of x] by (auto simp: word_nat)
qed

lemma base_less_aligned: "page_aligned e \<Longrightarrow> page_base x < e \<longleftrightarrow> x < e"
  using aligned_le_base [of e x] by (simp flip: not_le)

lemma rg_has_base: "rg_ok r \<Longrightarrow> rg_has r (page_base x) = rg_has r x"
  by (simp add: rg_has_def rg_ok_def aligned_le_base base_less_aligned)

lemma rg_at_base: "list_all rg_ok rs \<Longrightarrow> rg_at rs (page_base x) = rg_at rs x"
  by (induction rs) (simp_all add: rg_at_Cons rg_has_base)

lemma sm_attr_base: "space_ok s \<Longrightarrow> sm_attr s (page_base x) = sm_attr s x"
  by (simp add: sm_attr_def rg_at_base space_ok_regions)

lemma sm_attr_bounds:
  assumes "space_ok s" and "sm_attr s x \<noteq> None"
  shows "s_base s \<le> x" and "x < s_end s" and "page_base x \<noteq> 0"
proof -
  note r = space_ok_regions [OF assms(1)]
  show b: "s_base s \<le> x" using rg_at_below [OF r(1), of x] assms(2) by (cases "x < s_base s") (simp_all add: sm_attr_def)
  have "\<not> rg_top (s_base s) (s_regions s) \<le> x"
    using rg_at_above [OF r(1)] assms(2) by (auto simp: sm_attr_def)
  then show "x < s_end s" using r(2) by simp
  have "page_aligned (s_base s)" "s_base s \<noteq> 0" using assms(1) by (simp_all add: space_ok_def)
  then have "s_base s \<le> page_base x" using b aligned_le_base by blast
  then show "page_base x \<noteq> 0" using \<open>s_base s \<noteq> 0\<close> by auto
qed

text \<open>The page of a mapped address is looked up as \<open>sm_slot\<close> says.\<close>

lemma page_slot_sm:
  assumes "space_ok s" and "sm_attr s x \<noteq> None"
  shows "page_slot s (page_base x) False = sm_slot s x"
  using sm_attr_bounds(3) [OF assms] by (simp add: sm_slot_def)

section \<open>Mapping changes\<close>

lemma mapping_range_facts:
  assumes "mapping_range s a n"
  shows "unat a + unat n < 2 ^ 64" and "unat (a + n) = unat a + unat n" and "a < a + n"
    and "page_aligned a" and "page_aligned (a + n)" and "s_base s \<le> a" and "a + n \<le> s_end s"
proof -
  have n: "n \<noteq> 0" "page_aligned a" "page_aligned n" "n \<le> UINT64_MAX - a" "s_base s \<le> a" "a \<le> s_end s"
      "n \<le> s_end s - a"
    using assms by (simp_all add: mapping_range_def sp_aligned_def sp_contains_def page_aligned_def)
  show fit: "unat a + unat n < 2 ^ 64" using n(4) by (simp only: fits_iff)
  then show sum: "unat (a + n) = unat a + unat n" by (rule unat_plus_nowrap)
  show "a < a + n" using n(1) sum by (simp add: word_nat unat_gt_0)
  show "page_aligned a" "s_base s \<le> a" by fact+
  show "page_aligned (a + n)" using n(2,3) by (simp add: page_aligned_iff sum mod_add_eq [symmetric])
  show "a + n \<le> s_end s" using n(6,7) sum by (simp add: word_nat unat_sub_le)
qed

lemma in_range_bounds:
  assumes "unat a + unat n < 2 ^ 64"
  shows "in_range a n x \<longleftrightarrow> a \<le> x \<and> x < a + n"
  using in_range_iff [OF assms] unat_plus_nowrap [OF assms] by (simp add: word_nat)

lemma rg_end_le:
  assumes "rg_sorted lo rs" and "rg_top lo rs \<le> hi"
  shows "list_all (\<lambda>r. rg_end r \<le> hi) rs"
  using assms
proof (induction rs arbitrary: lo)
  case (Cons r rs)
  then have "rg_sorted (rg_end r) rs" "rg_top (rg_end r) rs \<le> hi" by (simp_all add: rg_top_Cons)
  moreover from this have "rg_end r \<le> hi" using rg_top_ge by (blast intro: order.trans)
  ultimately show ?case using Cons.IH by simp
qed simp

text \<open>The attributes after a change.\<close>

definition changed_attr ::
  "Operation \<Rightarrow> u32 \<Rightarrow> u32 \<Rightarrow> (u32 \<times> u32) option \<Rightarrow> (u32 \<times> u32) option" where
  "changed_attr op prot maxprot v =
     (case op of MAP \<Rightarrow> Some (prot, maxprot) | UNMAP \<Rightarrow> None
      | PROTECT \<Rightarrow> map_option (\<lambda>(_, mx). (prot, mx)) v)"

text \<open>What the successful case of \<open>change\<close> computes.\<close>

lemma change_ok_state:
  assumes ok: "space_ok s" and range: "mapping_range s a n" and st: "change_regions op a (a + n) prot maxprot (s_regions s) = Some rs"
    and prot: "maxprot AND NOT 7 = 0" "prot AND NOT maxprot = 0"
    and mx: "op = PROTECT \<Longrightarrow> list_all (\<lambda>r. rg_end r > a \<longrightarrow> rg_start r < a + n \<longrightarrow> prot AND NOT (rg_maxprot r) = 0) (s_regions s)"
    and s1: "s1 = (if s_resident s \<noteq> 0 \<and> op \<noteq> PROTECT then discard_pages s a (a + n) else s)"
    and s': "s' = s1\<lparr>s_regions := rs, s_mapping_generation := s_mapping_generation s1 + 1\<rparr>"
  shows "space_ok s'"
    and "sm_attr s' x = (if in_range a n x then changed_attr op prot maxprot (sm_attr s x) else sm_attr s x)"
    and "sm_byte s' x = (if in_range a n x \<and> op \<noteq> PROTECT then 0 else sm_byte s x)"
    and "sm_slot s' x = (if in_range a n x \<and> op \<noteq> PROTECT then None else sm_slot s x)"
    and "s_mapping_generation s' = s_mapping_generation s + 1" and "s_generation s' = s_generation s"
    and "s_base s' = s_base s" and "s_end s' = s_end s"
proof -
  note m = mapping_range_facts [OF range] and r = space_ok_regions [OF ok]
  note range_iff = in_range_bounds [OF m(1)]
  have "change_ok op a (a + n) prot maxprot (s_regions s)"
    using m prot r mx by (simp add: change_ok_def)
  from change_regions_state [OF st r(1) this rg_end_le [OF r(1,2)] m(6,7)]
  have "rg_state (s_base s) rs (s_end s)
      (\<lambda>x. if in_range a n x then changed_attr op prot maxprot (sm_attr s x) else sm_attr s x)"
    unfolding range_iff changed_attr_def sm_attr_def .
  then have state: "rg_at rs = (\<lambda>x. if in_range a n x then changed_attr op prot maxprot (sm_attr s x) else sm_attr s x)"
      "rg_state (s_base s) rs (s_end s) (rg_at rs)"
    by (simp_all add: rg_state_def)
  show attr: "sm_attr s' x = (if in_range a n x then changed_attr op prot maxprot (sm_attr s x) else sm_attr s x)" for x
    unfolding s' using state(1) by (simp add: sm_attr_def [of "_\<lparr>s_regions := _, s_mapping_generation := _\<rparr>"])
  note st = space_ok_store [OF ok] and d = discard_pages_spec [OF space_ok_store [OF ok], of a "a + n"]
  have page: "a \<le> page_base x \<and> page_base x < a + n \<longleftrightarrow> in_range a n x" for x
    using m(4,5) by (simp add: range_iff aligned_le_base base_less_aligned)
  have none: "sm_slot s x = None" if "s_resident s = 0" for x
  proof (rule ccontr)
    assume "sm_slot s x \<noteq> None"
    then obtain i where i: "sm_slot s x = Some i" by blast
    have "filter sp_live (s_pages s) = []" and len: "length (s_pages s) = s_slot_count s"
      using st that by (simp_all add: store_ok_def arena_ok_def table_ok_def)
    moreover have "i < s_slot_count s" "sp_live (s_pages s ! i)"
      using i sm_slot_live [OF st i] by (simp_all add: sm_slot_iff [OF st])
    ultimately show False by (metis filter_empty_conv nth_mem)
  qed
  have s1_ok: "store_ok s1" using st d(1) by (simp add: s1)
  have s1_slot: "sm_slot s1 x = (if in_range a n x \<and> op \<noteq> PROTECT then None else sm_slot s x)" for x
    using none d(2) [of x] page [of x] by (auto simp: s1)
  have s1_byte: "sm_byte s1 x = (if in_range a n x \<and> op \<noteq> PROTECT then 0 else sm_byte s x)" for x
    using none d(3) [of x] page [of x] by (auto simp: s1 sm_byte_def)
  have same: "sm_slot s' = sm_slot s1" "sm_byte s' = sm_byte s1" "store_ok s' = store_ok s1"
    by (simp_all add: s' fun_eq_iff sm_slot_def sm_byte_def page_slot_def store_ok_def arena_ok_def
        cong: option.case_cong)
  have d4: "s_mapping_generation s1 = s_mapping_generation s" "s_generation s1 = s_generation s"
      "s_base s1 = s_base s" "s_end s1 = s_end s"
    unfolding s1 by (simp_all add: discard_pages_def Let_def)
  show slot: "sm_slot s' x = (if in_range a n x \<and> op \<noteq> PROTECT then None else sm_slot s x)" for x
    unfolding same by (rule s1_slot)
  show "sm_byte s' x = (if in_range a n x \<and> op \<noteq> PROTECT then 0 else sm_byte s x)" for x
    unfolding same by (rule s1_byte)
  show g: "s_mapping_generation s' = s_mapping_generation s + 1" "s_generation s' = s_generation s"
      "s_base s' = s_base s" "s_end s' = s_end s"
    by (simp_all add: s' d4)
  have "sm_attr s' x \<noteq> None" if "sm_slot s' x \<noteq> None" for x
  proof -
    have "sm_attr s x \<noteq> None" using that ok unfolding slot space_ok_def by (auto split: if_splits)
    moreover have "in_range a n x \<Longrightarrow> op = PROTECT" using that unfolding slot by (auto split: if_splits)
    ultimately show ?thesis unfolding attr changed_attr_def by (cases "in_range a n x") auto
  qed
  moreover have "sm_attr s' = rg_at rs" by (simp add: s' sm_attr_def fun_eq_iff)
  moreover have "s_regions s' = rs" by (simp add: s')
  ultimately show "space_ok s'"
    using ok s1_ok state(2) unfolding space_ok_def same(3) g(3,4) by simp
qed

text \<open>The conditions under which a change fails, in the order the code tests them.\<close>

definition change_denied ::
  "Space \<Rightarrow> u64 \<Rightarrow> u64 \<Rightarrow> u32 \<Rightarrow> u32 \<Rightarrow> bool \<Rightarrow> Operation \<Rightarrow> GMResult \<Rightarrow> bool" where
  "change_denied s a n prot maxprot replace op r \<longleftrightarrow>
     (if \<not> mapping_range s a n \<or> maxprot AND NOT 7 \<noteq> 0 \<or> prot AND NOT maxprot \<noteq> 0 then r = GM_INVALID
      else if op = MAP \<and> \<not> replace \<and> (\<exists>x. in_range a n x \<and> sm_attr s x \<noteq> None) then r = GM_OVERLAP
      else if op = PROTECT \<and> (\<exists>x. in_range a n x \<and> sm_attr s x = None) then r = GM_UNMAPPED
      else if op = PROTECT \<and> (\<exists>x mx p. in_range a n x \<and> sm_attr s x = Some (p, mx) \<and> prot AND NOT mx \<noteq> 0)
      then r = GM_PROTECTION
      else r = GM_NOMEM)"

lemma region_meets:
  assumes sorted: "rg_sorted lo rs" and ae: "a < e"
  shows "(\<exists>r \<in> set rs. a < rg_end r \<and> rg_start r < e \<and> P (rg_attr r)) \<longleftrightarrow>
    (\<exists>x v. a \<le> x \<and> x < e \<and> rg_at rs x = Some v \<and> P v)" (is "?L \<longleftrightarrow> ?R")
proof
  assume ?L
  then obtain r where r: "r \<in> set rs" "a < rg_end r" "rg_start r < e" "P (rg_attr r)" by blast
  have "rg_start r < rg_end r" using sorted r(1) by (induction rs arbitrary: lo) auto
  then have "rg_has r (max a (rg_start r))" "max a (rg_start r) < e" "a \<le> max a (rg_start r)"
    using r ae by (auto simp: rg_has_def max_def)
  then show ?R using rg_at_unique [OF sorted r(1)] r(4) by blast
next
  assume ?R
  then obtain x v where x: "a \<le> x" "x < e" "rg_at rs x = Some v" "P v" by blast
  then obtain r where r: "r \<in> set rs" "rg_has r x" "rg_attr r = v" using rg_at_member by blast
  then have "a < rg_end r" "rg_start r < e" using x(1,2) by (auto simp: rg_has_def)
  then show ?L using r x(4) by blast
qed

lemma change_spec:
  assumes ok: "space_ok s" and eq: "change (Some s) a n prot maxprot replace op = (r, m)"
  shows "\<exists>s'. m = Some s' \<and> space_ok s' \<and>
    (r \<noteq> GM_OK \<longrightarrow> s' = s \<and> change_denied s a n prot maxprot replace op r) \<and>
    (r = GM_OK \<longrightarrow> \<not> change_denied s a n prot maxprot replace op r \<and> mapping_range s a n \<and>
      (\<forall>x. sm_attr s' x = (if in_range a n x then changed_attr op prot maxprot (sm_attr s x) else sm_attr s x)) \<and>
      (\<forall>x. sm_byte s' x = (if in_range a n x \<and> op \<noteq> PROTECT then 0 else sm_byte s x)) \<and>
      (\<forall>x. sm_slot s' x = (if in_range a n x \<and> op \<noteq> PROTECT then None else sm_slot s x)) \<and>
      s_mapping_generation s' = s_mapping_generation s + 1 \<and> s_generation s' = s_generation s \<and>
      s_base s' = s_base s \<and> s_end s' = s_end s)"
proof -
  let ?bad = "\<not> mapping_range s a n \<or> maxprot AND NOT 7 \<noteq> 0 \<or> prot AND NOT maxprot \<noteq> 0"
  let ?rs = "s_regions s" and ?e = "a + n"
  show ?thesis
  proof (cases ?bad)
    case True
    then have "r = GM_INVALID" "m = Some s" using eq by (simp_all add: change_def)
    then show ?thesis using ok True by (simp add: change_denied_def)
  next
    case False
    then have range: "mapping_range s a n" and p: "maxprot AND NOT 7 = 0" "prot AND NOT maxprot = 0" by simp_all
    note m = mapping_range_facts [OF range] and rr = space_ok_regions [OF ok]
    note iff = in_range_bounds [OF m(1)]
    have check: "change_check op replace a ?e ?rs a =
      (if op = MAP \<and> \<not> replace \<and> (\<exists>x. in_range a n x \<and> sm_attr s x \<noteq> None) then GM_OVERLAP
       else if op = PROTECT \<and> (\<exists>x. in_range a n x \<and> sm_attr s x = None) then GM_UNMAPPED else GM_OK)"
    proof (cases "op = PROTECT")
      case True
      then show ?thesis
        using change_check_protect [OF rr(1) m(3) order_refl less_imp_le [OF m(3)], of replace]
        by (auto simp: iff sm_attr_def)
    next
      case False
      have "(\<exists>r \<in> set ?rs. a < rg_end r \<and> rg_start r < ?e) \<longleftrightarrow> (\<exists>x. in_range a n x \<and> sm_attr s x \<noteq> None)"
        using region_meets [OF rr(1) m(3), of "\<lambda>_. True"] by (auto simp: iff sm_attr_def)
      then show ?thesis using False change_check_other [OF False, of replace a ?e ?rs a] by simp
    qed
    have over: "list_ex (\<lambda>r. rg_end r > a \<and> rg_start r < ?e \<and> prot AND NOT (rg_maxprot r) \<noteq> 0) ?rs \<longleftrightarrow>
        (\<exists>x mx p. in_range a n x \<and> sm_attr s x = Some (p, mx) \<and> prot AND NOT mx \<noteq> 0)"
      using region_meets [OF rr(1) m(3), of "\<lambda>(_, mx). prot AND NOT mx \<noteq> 0"]
      by (auto simp: iff sm_attr_def list_ex_iff rg_attr_def)
    define prot_bad where "prot_bad \<longleftrightarrow> op = PROTECT \<and>
      list_ex (\<lambda>r. rg_end r > a \<and> rg_start r < ?e \<and> prot AND NOT (rg_maxprot r) \<noteq> 0) ?rs"
    show ?thesis
    proof (cases "change_check op replace a ?e ?rs a = GM_OK \<and> \<not> prot_bad \<and>
        change_regions op a ?e prot maxprot ?rs \<noteq> None")
      case True
      then obtain rs where rs: "change_regions op a ?e prot maxprot ?rs = Some rs" by blast
      define s1 where "s1 = (if s_resident s \<noteq> 0 \<and> op \<noteq> PROTECT then discard_pages s a ?e else s)"
      define s' where "s' = s1\<lparr>s_regions := rs, s_mapping_generation := s_mapping_generation s1 + 1\<rparr>"
      have res: "r = GM_OK" "m = Some s'"
        using eq False True rs unfolding change_def prot_bad_def s'_def s1_def by (auto simp: Let_def)
      have mx: "list_all (\<lambda>r. rg_end r > a \<longrightarrow> rg_start r < ?e \<longrightarrow> prot AND NOT (rg_maxprot r) = 0) ?rs"
        if "op = PROTECT"
        using True that by (auto simp: prot_bad_def list_ex_iff list_all_iff)
      note c = change_ok_state [OF ok range rs p mx s1_def s'_def]
      have nd: "\<not> change_denied s a n prot maxprot replace op GM_OK"
        using False True check over by (auto simp: change_denied_def prot_bad_def split: if_splits)
      show ?thesis
        using res range c nd by (intro exI [of _ s'] conjI impI allI) simp_all
    next
      case bad: False
      have "m = Some s" and r: "r = (if change_check op replace a ?e ?rs a \<noteq> GM_OK
          then change_check op replace a ?e ?rs a else if prot_bad then GM_PROTECTION else GM_NOMEM)"
        using eq False bad unfolding change_def prot_bad_def by (auto simp: Let_def split: if_splits)
      moreover have "change_denied s a n prot maxprot replace op r" and "r \<noteq> GM_OK"
        unfolding r using False check over bad by (auto simp: change_denied_def prot_bad_def split: if_splits)
      ultimately show ?thesis using ok by simp
    qed
  qed
qed

section \<open>The search\<close>

lemma find_free_spec:
  assumes ok: "space_ok s" and eq: "gm_sparse_find_free (Some s) sz True = (r, out)"
  shows "(r = GM_INVALID \<longleftrightarrow> \<not> sp_aligned 0 sz) \<and>
    (r = GM_OK \<longrightarrow> (\<exists>f. out = Some f \<and> mapping_range s f sz \<and> (\<forall>x. in_range f sz x \<longrightarrow> sm_attr s x = None) \<and>
      (\<forall>y. mapping_range s y sz \<longrightarrow> (\<forall>x. in_range y sz x \<longrightarrow> sm_attr s x = None) \<longrightarrow> f \<le> y))) \<and>
    (r = GM_NOMEM \<longrightarrow> (\<forall>y. mapping_range s y sz \<longrightarrow> (\<exists>x. in_range y sz x \<and> sm_attr s x \<noteq> None))) \<and>
    (r = GM_OK \<or> r = GM_INVALID \<or> r = GM_NOMEM) \<and> (r \<noteq> GM_OK \<longrightarrow> out = None)"
proof (cases "sp_aligned 0 sz")
  case False
  then show ?thesis using eq by (simp add: gm_sparse_find_free_def)
next
  case True
  define f where "f = free_candidate (s_regions s) sz (s_base s)"
  note rr = space_ok_regions [OF ok]
  have sz: "sz \<noteq> 0" "page_aligned sz" using True by (simp_all add: sp_aligned_def page_aligned_def)
  then have "0 < sz" by (simp add: word_neq_0_conv)
  note ff = free_firstD [OF free_candidate_spec [OF rr(1) this], folded f_def]
  have al: "page_aligned (s_base s)" "page_aligned (s_end s)" using ok by (simp_all add: space_ok_def)
  have f_al: "page_aligned f" using ff(4) al(1) rr(3) by (auto simp: list_all_iff rg_ok_def)
  have f_end: "f \<le> s_end s" using ff(4) rg_end_le [OF rr(1,2)] rr(5) by (auto simp: list_all_iff)
  have fits: "f \<le> y" if y: "mapping_range s y sz" "\<forall>x. in_range y sz x \<longrightarrow> sm_attr s x = None" for y
  proof (rule ff(3))
    note my = mapping_range_facts [OF y(1)]
    show "s_base s \<le> y" by (rule my(6))
    fix x
    assume "y \<le> x" "unat x < unat y + unat sz"
    then have "in_range y sz x" by (simp add: in_range_iff [OF my(1)] word_nat)
    then show "rg_at (s_regions s) x = None" using y(2) by (simp add: sm_attr_def)
  qed
  show ?thesis
  proof (cases "sz \<le> s_end s - f")
    case le: True
    then have res: "r = GM_OK" "out = Some f" using eq True by (simp_all add: gm_sparse_find_free_def f_def)
    have "unat f + unat sz \<le> unat (s_end s)" using le f_end by (simp add: word_nat unat_sub_le)
    then have fit: "unat f + unat sz < 2 ^ 64" using unat_u64_less [of "s_end s"] by linarith
    then have range: "mapping_range s f sz"
      using sz f_al le f_end ff(1)
      by (simp only: mapping_range_def sp_aligned_def sp_contains_def fits_iff page_aligned_def simp_thms)
    have free: "sm_attr s x = None" if "in_range f sz x" for x
      using ff(2) [of x] that by (simp add: in_range_iff [OF fit] word_nat sm_attr_def)
    show ?thesis using res range free fits True by auto
  next
    case gt: False
    then have res: "r = GM_NOMEM" "out = None" using eq True by (simp_all add: gm_sparse_find_free_def f_def)
    have "\<exists>x. in_range y sz x \<and> sm_attr s x \<noteq> None" if y: "mapping_range s y sz" for y
    proof (rule ccontr)
      assume "\<not> ?thesis"
      then have "\<forall>x. in_range y sz x \<longrightarrow> sm_attr s x = None" by blast
      then have "f \<le> y" by (rule fits [OF y])
      moreover have "sz \<le> s_end s - y" "y \<le> s_end s"
        using y by (simp_all add: mapping_range_def sp_contains_def)
      ultimately show False using gt f_end by (simp add: word_nat unat_sub_le)
    qed
    then show ?thesis using res True by simp
  qed
qed

section \<open>A new space\<close>

lemma table_size_double:
  assumes "table_size n" and "n \<le> (2 ^ 64 - 1) div 2"
  shows "table_size (n * 2)"
proof -
  obtain k where k: "n = 2 ^ k" "k < 64" using assms(1) by (auto simp: table_size_def)
  have "k \<noteq> 63" using k(1) assms(2) by auto
  then show ?thesis using k unfolding table_size_def by (intro exI [of _ "Suc k"]) simp
qed

lemma slots_for_spec:
  assumes "slots_for capacity slots = Some n" and "table_size slots"
  shows "table_size n \<and> 2 * capacity \<le> n"
  using assms
proof (induction capacity slots rule: slots_for.induct)
  case (1 capacity slots)
  have pos: "0 < slots" by (rule table_size_pos [OF 1(3)])
  show ?case
  proof (cases "slots < capacity * 2")
    case True
    have le: "\<not> slots > (2 ^ 64 - 1) div 2" and rec: "slots_for capacity (slots * 2) = Some n"
      using 1(2) True pos by (subst (asm) slots_for.simps, simp split: if_splits)+
    show ?thesis
      by (rule 1(1) [OF conjI [OF pos True] le rec table_size_double [OF 1(3)]]) (use le in linarith)
  next
    case False
    then have "n = slots" using 1(2) by (subst (asm) slots_for.simps) simp
    then show ?thesis using False 1(3) by simp
  qed
qed

lemma initialize_spec:
  assumes eq: "initialize memory base sz backing_bytes space_ok' backing_ok pages_ok free_ok garbage = (r, m)"
  shows "(r \<noteq> GM_OK \<longrightarrow> m = memory) \<and>
    (r = GM_OK \<longrightarrow> memory = Some None \<and> (\<exists>s. m = Some (Some s) \<and> space_ok s \<and> s_base s = base \<and>
      unat (s_end s) = unat base + unat sz \<and> (\<forall>x. sm_attr s x = None) \<and> (\<forall>x. sm_byte s x = 0)))"
proof (cases "r = GM_OK")
  case False
  then show ?thesis using eq by (auto simp: initialize_def Let_def split: if_splits option.splits)
next
  case True
  let ?cap = "unat (backing_bytes div GM_PAGE_SIZE)"
  obtain slots where slots: "slots_for ?cap 16 = Some slots"
    and pre: "memory = Some None" "base \<noteq> 0" "sp_aligned base sz"
    and m: "m = Some (Some \<lparr>s_base = base, s_end = base + sz, s_generation = 0, s_mapping_generation = 0,
             s_backing = garbage, s_capacity = ?cap, s_resident = 0, s_next_backing = 0,
             s_slot_count = slots, s_free = [],
             s_pages = replicate slots \<lparr>sp_address = 0, sp_generation = 0, sp_backing = 0\<rparr>,
             s_regions = []\<rparr>)" (is "m = Some (Some ?s)")
    using eq True by (auto simp: initialize_def Let_def split: if_splits option.splits)
  have "table_size 16" unfolding table_size_def by (intro exI [of _ 4]) simp
  note sl = slots_for_spec [OF slots this]
  have live: "\<not> sp_live \<lparr>sp_address = 0, sp_generation = 0, sp_backing = 0\<rparr>" by (simp add: sp_live_def)
  have store: "store_ok ?s"
    using sl live by (simp add: store_ok_def table_ok_def arena_ok_def)
  have "sm_slot ?s x \<noteq> Some i" for x i
    unfolding sm_slot_iff [OF store] by auto
  then have slot: "sm_slot ?s x = None" for x by (metis not_None_eq)
  have b: "page_aligned base" "page_aligned sz" "sz \<le> UINT64_MAX - base"
    using pre(3) by (simp_all add: sp_aligned_def page_aligned_def)
  have fit: "unat base + unat sz < 2 ^ 64" using b(3) by (simp only: fits_iff)
  note sum = unat_plus_nowrap [OF fit]
  have al: "page_aligned (base + sz)"
    using b(1,2) by (simp add: page_aligned_iff sum mod_add_eq [symmetric])
  have le: "base \<le> base + sz" by (simp add: word_nat sum)
  have at: "sm_attr ?s x = None" for x by (simp add: sm_attr_def)
  have "space_ok ?s"
    using store pre(2) b(1) al le slot at
    by (simp add: space_ok_def rg_state_def rg_top_def fun_eq_iff sm_attr_def)
  moreover have "sm_byte ?s x = 0" for x by (simp add: sm_byte_def slot)
  ultimately show ?thesis using True m pre(1) at sum by simp
qed

end
