(* ===== verification/GuestSparseAccess.thy ===== *)
theory GuestSparseAccess
  imports GuestSparseSpace
begin

text \<open>
  The accesses of \<open>GuestSparseMemory.c\<close>: \<open>check_access\<close> finds the first address an access may not
  touch, the preflight of \<open>access_locked\<close> counts the pages the arena still has to provide, and the
  copy loop reads and writes exactly the bytes of its range.
\<close>

section \<open>The checks of an access\<close>

definition sm_allowed :: "Space \<Rightarrow> u32 \<Rightarrow> u64 \<Rightarrow> bool" where
  "sm_allowed s permission x = rg_allows (s_regions s) permission x"

definition sm_fault :: "Space \<Rightarrow> u64 \<Rightarrow> GMResult" where
  "sm_fault s x = rg_fault (s_regions s) x"

lemma sm_allowed_attr: "sm_allowed s permission x \<Longrightarrow> sm_attr s x \<noteq> None"
  by (auto simp: sm_allowed_def rg_allows_def sm_attr_def split: option.splits)

lemma sp_contains_facts:
  assumes "sp_contains s a n"
  shows "unat a + unat n < 2 ^ 64" and "unat (a + n) = unat a + unat n" and "a + n \<le> s_end s" and "a \<le> a + n"
proof -
  have le: "unat a + unat n \<le> unat (s_end s)"
    using assms unat_sub_le [of a "s_end s"] unfolding sp_contains_def word_nat by linarith
  then show fit: "unat a + unat n < 2 ^ 64" using unat_u64_less [of "s_end s"] by linarith
  then show sum: "unat (a + n) = unat a + unat n" by (rule unat_plus_nowrap)
  show "a + n \<le> s_end s" "a \<le> a + n" using le by (simp_all add: word_nat sum)
qed

lemma check_access_spec:
  assumes ok: "space_ok s"
  shows "check_access s a n permission = GM_OK \<longleftrightarrow>
      sp_contains s a n \<and> (\<forall>x. in_range a n x \<longrightarrow> sm_allowed s permission x)"
    and "check_access s a n permission = GM_INVALID \<longleftrightarrow> \<not> sp_contains s a n"
    and "check_access s a n permission \<noteq> GM_OK \<Longrightarrow> sp_contains s a n \<Longrightarrow>
      \<exists>f. in_range a n f \<and> \<not> sm_allowed s permission f \<and>
        (\<forall>x. in_range a n x \<longrightarrow> x < f \<longrightarrow> sm_allowed s permission x) \<and>
        check_access s a n permission = sm_fault s f"
proof -
  have main: "check_access s a n permission = GM_OK \<and> (\<forall>x. in_range a n x \<longrightarrow> sm_allowed s permission x) \<or>
      (\<exists>f. in_range a n f \<and> \<not> sm_allowed s permission f \<and>
        (\<forall>x. in_range a n x \<longrightarrow> x < f \<longrightarrow> sm_allowed s permission x) \<and>
        check_access s a n permission = sm_fault s f)" if c: "sp_contains s a n"
  proof (cases "n = 0")
    case True
    then show ?thesis using c by (simp add: check_access_def)
  next
    case False
    note f = sp_contains_facts [OF c]
    note iff = in_range_bounds [OF f(1)]
    have "check_access s a n permission = access_check permission (a + n) (s_regions s) a"
      using c False by (simp add: check_access_def)
    moreover note access_check_spec [OF space_ok_regions(1) [OF ok] f(4), of permission]
    ultimately consider
        "check_access s a n permission = GM_OK" "\<forall>x. a \<le> x \<longrightarrow> x < a + n \<longrightarrow> rg_allows (s_regions s) permission x"
      | g where "a \<le> g" "g < a + n" "\<not> rg_allows (s_regions s) permission g"
          "\<forall>x. a \<le> x \<longrightarrow> x < g \<longrightarrow> rg_allows (s_regions s) permission x"
          "check_access s a n permission = rg_fault (s_regions s) g"
      by (elim disjE exE conjE) simp_all
    then show ?thesis
    proof cases
      case 1
      then show ?thesis by (simp add: iff sm_allowed_def)
    next
      case (2 g)
      then show ?thesis
        unfolding iff sm_allowed_def sm_fault_def by (intro disjI2 exI [of _ g] conjI) simp_all
    qed
  qed
  have fault: "sm_fault s f \<noteq> GM_OK" "sm_fault s f \<noteq> GM_INVALID" for f
    by (simp_all add: sm_fault_def rg_fault_def)
  have out: "check_access s a n permission = GM_INVALID" if "\<not> sp_contains s a n"
    using that by (simp add: check_access_def)
  let ?r = "check_access s a n permission"
  consider (outside) "\<not> sp_contains s a n" "?r = GM_INVALID"
    | (allowed) "sp_contains s a n" "?r = GM_OK" "\<forall>x. in_range a n x \<longrightarrow> sm_allowed s permission x"
    | (denied) f where "sp_contains s a n" "in_range a n f" "\<not> sm_allowed s permission f"
        "\<forall>x. in_range a n x \<longrightarrow> x < f \<longrightarrow> sm_allowed s permission x" "?r = sm_fault s f"
    using main out by blast
  note cases = this
  show "?r = GM_OK \<longleftrightarrow> sp_contains s a n \<and> (\<forall>x. in_range a n x \<longrightarrow> sm_allowed s permission x)"
    by (cases rule: cases) (use fault in auto)
  show "?r = GM_INVALID \<longleftrightarrow> \<not> sp_contains s a n"
    by (cases rule: cases) (use fault in auto)
  show "?r \<noteq> GM_OK \<Longrightarrow> sp_contains s a n \<Longrightarrow>
      \<exists>f. in_range a n f \<and> \<not> sm_allowed s permission f \<and>
        (\<forall>x. in_range a n x \<longrightarrow> x < f \<longrightarrow> sm_allowed s permission x) \<and> ?r = sm_fault s f"
    by (cases rule: cases) auto
qed

section \<open>The pages of a range\<close>

definition touched :: "u64 \<Rightarrow> u64 \<Rightarrow> u64 \<Rightarrow> bool" where
  "touched a n x \<longleftrightarrow> (\<exists>y. in_range a n y \<and> page_base y = page_base x)"

lemma touched_base: "touched a n (page_base x) = touched a n x"
  by (simp add: touched_def)

lemma page_walk_facts:
  assumes fit: "unat a + unat n < 2 ^ 64" and n: "n \<noteq> 0"
  shows "distinct (page_walk a (a + n))"
    and "b \<in> set (page_walk a (a + n)) \<longleftrightarrow> page_aligned b \<and> touched a n b"
proof -
  let ?p = "unat (page_base a)" and ?e = "unat a + unat n"
  define count where "count = (?e - ?p + 16383) div 16384"
  note sum = unat_plus_nowrap [OF fit]
  have walk: "page_walk a (a + n) = map (\<lambda>k. page_base a + of_nat k * GM_PAGE_SIZE) [0..<count]"
    by (simp add: page_walk_def page_base_alt [symmetric] sum Let_def count_def)
  have pe: "?p < ?e" using page_base_le [of a] n by (simp add: word_nat unat_gt_0 trans_le_add1 le_less_trans)
  have lim: "k < count \<longleftrightarrow> ?p + k * 16384 < ?e" for k
  proof -
    have "k < count \<longleftrightarrow> Suc k * 16384 \<le> ?e - ?p + 16383"
      unfolding Suc_le_eq [symmetric] count_def by (rule less_eq_div_iff_mult_less_eq) simp
    then show ?thesis using pe by auto
  qed
  have at: "unat (page_base a + of_nat k * GM_PAGE_SIZE) = ?p + k * 16384" if "k < count" for k
  proof -
    have lt: "?p + k * 16384 < 2 ^ 64" using that lim [of k] fit by linarith
    then have "unat (of_nat (k * 16384) :: u64) = k * 16384" by (intro unat_of_nat_u64) linarith
    moreover have "(of_nat k * GM_PAGE_SIZE :: u64) = of_nat (k * 16384)" by simp
    ultimately have "unat (of_nat k * GM_PAGE_SIZE :: u64) = k * 16384" by metis
    then show ?thesis using lt unat_plus_nowrap [of "page_base a" "of_nat k * GM_PAGE_SIZE"] by metis
  qed
  show "distinct (page_walk a (a + n))"
    unfolding walk distinct_map
  proof (intro conjI inj_onI)
    fix j k
    assume jk: "j \<in> set [0..<count]" "k \<in> set [0..<count]"
      "page_base a + of_nat j * GM_PAGE_SIZE = page_base a + of_nat k * GM_PAGE_SIZE"
    then have "j < count" "k < count" by simp_all
    then have "?p + j * 16384 = ?p + k * 16384" using at jk(3) by metis
    then show "j = k" by simp
  qed simp
  have al: "?p mod 16384 = 0" using page_aligned_base [of a] by (simp add: page_aligned_iff)
  show "b \<in> set (page_walk a (a + n)) \<longleftrightarrow> page_aligned b \<and> touched a n b"
  proof
    assume "b \<in> set (page_walk a (a + n))"
    then obtain k where k: "k < count" "b = page_base a + of_nat k * GM_PAGE_SIZE" by (auto simp: walk)
    have ub: "unat b = ?p + k * 16384" using at [OF k(1)] k(2) by simp
    then have b: "page_aligned b" using al by (simp add: page_aligned_iff)
    have "in_range a n (max a b) \<and> page_base (max a b) = b"
    proof (cases "a \<le> b")
      case True
      then show ?thesis
        using ub lim [of k] k(1) page_base_aligned [OF b] by (simp add: in_range_iff [OF fit] word_nat max_def)
    next
      case False
      then have "unat b < unat a" by (simp add: word_nat)
      then have "k = 0" using ub page_off_less [of a] unat_page_split [of a] by linarith
      then show ?thesis using k(2) False n by (simp add: max_def in_range_def unat_gt_0)
    qed
    then show "page_aligned b \<and> touched a n b" using b page_base_aligned [OF b] by (auto simp: touched_def)
  next
    assume "page_aligned b \<and> touched a n b"
    then obtain y where b: "page_aligned b" and y: "in_range a n y" "page_base y = b"
      by (auto simp: touched_def page_base_aligned)
    have uy: "unat a \<le> unat y" "unat y < ?e" using y(1) by (simp_all add: in_range_iff [OF fit])
    have le: "?p \<le> unat b"
      using aligned_le_base [OF page_aligned_base, of a y] page_base_le [of a] uy(1) y(2) by (simp add: word_nat)
    define k where "k = (unat b - ?p) div 16384"
    have "(unat b - ?p) mod 16384 = 0"
      using b al by (simp add: page_aligned_iff mod_eq_0_iff_dvd dvd_diff_nat)
    then have ub: "unat b = ?p + k * 16384" using le unfolding k_def by auto
    then have "k < count" using lim [of k] uy(2) page_base_le [of y] y(2) by (simp add: word_nat)
    moreover from this have "b = page_base a + of_nat k * GM_PAGE_SIZE"
      using at [of k] ub by (simp add: word_unat_eq_iff)
    ultimately show "b \<in> set (page_walk a (a + n))" by (simp add: walk)
  qed
qed

section \<open>The preflight\<close>

text \<open>The pages an access of \<open>n\<close> bytes at \<open>a\<close> still has to allocate.\<close>

definition pending :: "Space \<Rightarrow> u64 \<Rightarrow> u64 \<Rightarrow> u64 set" where
  "pending s a n = {b. page_aligned b \<and> touched a n b \<and> sm_slot s b = None}"

lemma backing_enough_iff:
  assumes "\<forall>b \<in> set pages. page_slot s b False = sm_slot s b" and "needed \<le> s_capacity s - s_resident s"
  shows "backing_enough s pages needed \<longleftrightarrow>
    needed + length (filter (\<lambda>b. sm_slot s b = None) pages) \<le> s_capacity s - s_resident s"
  using assms
proof (induction pages arbitrary: needed)
  case (Cons b pages)
  show ?case
  proof (cases "sm_slot s b = None \<and> needed + 1 \<le> s_capacity s - s_resident s")
    case True
    then show ?thesis using Cons.IH [of "needed + 1"] Cons.prems by auto
  next
    case False
    then show ?thesis using Cons.IH [of needed] Cons.prems by auto
  qed
qed simp

lemma backing_enough_spec:
  assumes fit: "unat a + unat n < 2 ^ 64" and n: "n \<noteq> 0" and nz: "\<forall>x. in_range a n x \<longrightarrow> page_base x \<noteq> 0"
  shows "backing_enough s (page_walk a (a + n)) 0 \<longleftrightarrow> card (pending s a n) \<le> s_capacity s - s_resident s"
proof -
  let ?w = "page_walk a (a + n)"
  note w = page_walk_facts [OF fit n]
  have "page_slot s b False = sm_slot s b" if bw: "b \<in> set ?w" for b
  proof -
    obtain y where "in_range a n y" "page_base y = page_base b" using bw w(2) [of b] unfolding touched_def by blast
    then show ?thesis using nz bw w(2) [of b] page_base_aligned [of b] by (auto simp: sm_slot_def)
  qed
  then have "backing_enough s ?w 0 \<longleftrightarrow> length (filter (\<lambda>b. sm_slot s b = None) ?w) \<le> s_capacity s - s_resident s"
    by (simp add: backing_enough_iff)
  moreover have "length (filter (\<lambda>b. sm_slot s b = None) ?w) = card (set (filter (\<lambda>b. sm_slot s b = None) ?w))"
    by (rule distinct_card [symmetric]) (simp add: w(1))
  moreover have "set (filter (\<lambda>b. sm_slot s b = None) ?w) = pending s a n"
    using w(2) by (auto simp: pending_def)
  ultimately show ?thesis by simp
qed

section \<open>One page of a write\<close>

text \<open>The generation of the page of an address; the parts of a space that an access keeps.\<close>

definition sm_gen :: "Space \<Rightarrow> u64 \<Rightarrow> u64" where
  "sm_gen s x = (case sm_slot s x of None \<Rightarrow> 0 | Some i \<Rightarrow> sp_generation (s_pages s ! i))"

definition same_space :: "Space \<Rightarrow> Space \<Rightarrow> bool" where
  "same_space s s' \<longleftrightarrow> s_base s' = s_base s \<and> s_end s' = s_end s \<and> s_generation s' = s_generation s \<and>
     s_mapping_generation s' = s_mapping_generation s \<and> s_capacity s' = s_capacity s \<and> s_regions s' = s_regions s"

lemma same_space_refl [simp]: "same_space s s"
  by (simp add: same_space_def)

lemma same_space_trans: "same_space s t \<Longrightarrow> same_space t u \<Longrightarrow> same_space s u"
  by (simp add: same_space_def)

text \<open>The slot a write uses: the page's own, or a new one.\<close>

definition ensure_page :: "Space \<Rightarrow> u64 \<Rightarrow> Space \<times> nat" where
  "ensure_page s a =
     (case page_slot s (page_base a) False of None \<Rightarrow> alloc_page s (page_base a) | Some i \<Rightarrow> (s, i))"

lemma ensure_page_spec:
  assumes ok: "store_ok s" and b: "page_base a \<noteq> 0" and room: "sm_slot s a = None \<Longrightarrow> s_resident s < s_capacity s"
    and eq: "ensure_page s a = (s', k)"
  shows "store_ok s'" and "sm_byte s' = sm_byte s"
    and "sm_slot s' x = (if page_base x = page_base a then Some k else sm_slot s x)"
    and "sm_gen s' x = sm_gen s x" and "same_space s s'"
    and "s_resident s' = s_resident s + (if sm_slot s a = None then 1 else 0)"
proof -
  have slot: "page_slot s (page_base a) False = sm_slot s a" using b by (simp add: sm_slot_def)
  have one: "sm_slot s x = sm_slot s a" if "page_base x = page_base a" for x
    using that by (simp add: sm_slot_def)
  have "store_ok s' \<and> sm_byte s' = sm_byte s \<and>
      (\<forall>x. sm_slot s' x = (if page_base x = page_base a then Some k else sm_slot s x)) \<and>
      (\<forall>x. sm_gen s' x = sm_gen s x) \<and> same_space s s' \<and>
      s_resident s' = s_resident s + (if sm_slot s a = None then 1 else 0)"
  proof (cases "sm_slot s a")
    case None
    have al: "alloc_page s (page_base a) = (s', k)" using eq None by (simp add: ensure_page_def slot)
    have none: "sm_slot s (page_base a) = None" using None by (simp add: sm_slot_base)
    note sp = alloc_page_spec [OF ok page_aligned_base b none room [OF None] al]
    have gen: "sm_gen s' x = sm_gen s x" for x
    proof (cases "page_base x = page_base a")
      case True
      then show ?thesis using sp(3) [of x] sp(5) one [OF True] None by (simp add: sm_gen_def)
    next
      case False
      have "i \<noteq> k" if "sm_slot s x = Some i" for i
      proof
        assume "i = k"
        then have "slot_address (s_pages s') k = page_base x" "slot_address (s_pages s') k = page_base a"
          using sp(3) [of x] sp(3) [of a] False that by (simp_all add: sm_slot_iff [OF sp(1)])
        then show False using False by simp
      qed
      then show ?thesis
        using sp(3) [of x] sp(6) False by (cases "sm_slot s x") (auto simp: sm_gen_def)
    qed
    have "same_space s s'" by (subst sp(7)) (simp add: same_space_def)
    then show ?thesis using sp(1-4) gen None by simp
  next
    case (Some i)
    then have "s' = s" "k = i" using eq by (simp_all add: ensure_page_def slot)
    moreover have "sm_slot s x = Some i" if "page_base x = page_base a" for x
      using one [OF that] Some by simp
    ultimately show ?thesis using ok Some by simp
  qed
  then show "store_ok s'" and "sm_byte s' = sm_byte s"
    and "sm_slot s' x = (if page_base x = page_base a then Some k else sm_slot s x)"
    and "sm_gen s' x = sm_gen s x" and "same_space s s'"
    and "s_resident s' = s_resident s + (if sm_slot s a = None then 1 else 0)"
    by simp_all
qed

lemma touched_chunk:
  assumes "unat a + unat n < 2 ^ 64" and "n \<noteq> 0"
  shows "touched a n x \<longleftrightarrow> page_base x = page_base a \<or> touched (a + page_chunk a n) (n - page_chunk a n) x"
proof -
  note split = in_range_split [OF assms(1) page_chunk_le] and chunk = page_chunk_range_iff [OF assms(1)]
  have "in_range a n a" using assms(2) by (simp add: in_range_def unat_gt_0)
  then show ?thesis
    unfolding touched_def using split(1) chunk by metis
qed

lemma write_step:
  assumes ok: "store_ok s" and b: "page_base a \<noteq> 0" and room: "sm_slot s a = None \<Longrightarrow> s_resident s < s_capacity s"
    and fit: "unat a + unat n < 2 ^ 64" and len: "length src = unat (page_chunk a n)"
    and eq: "ensure_page s a = (s1, k)" and s2: "s2 = write_slot s1 k (page_off a) src"
  shows "store_ok s2" and "same_space s s2"
    and "sm_byte s2 x = (if in_range a (page_chunk a n) x then src ! unat (x - a) else sm_byte s x)"
    and "sm_slot s2 x = None \<longleftrightarrow> page_base x \<noteq> page_base a \<and> sm_slot s x = None"
    and "sm_gen s2 x = (if page_base x = page_base a then s_generation s else sm_gen s x)"
    and "s_resident s2 = s_resident s + (if sm_slot s a = None then 1 else 0)"
proof -
  note e = ensure_page_spec [OF ok b room eq]
  have k: "sm_slot s1 a = Some k" using e(3) [of a] by simp
  note w = write_slot_spec [OF e(1) k, where off = "page_off a" and src = src, folded s2]
  show "store_ok s2" by (rule w(1))
  have "same_space s1 s2" "s_resident s2 = s_resident s1" 
    unfolding s2 by (simp_all add: write_slot_def Let_def same_space_def)
  then show "same_space s s2" "s_resident s2 = s_resident s + (if sm_slot s a = None then 1 else 0)"
    using e(5,6) by (simp_all add: same_space_def)
  show "sm_slot s2 x = None \<longleftrightarrow> page_base x \<noteq> page_base a \<and> sm_slot s x = None"
    using w(2) [of x] e(3) [of x] by simp
  have gen: "s_generation s1 = s_generation s" using e(5) by (simp add: same_space_def)
  show "sm_gen s2 x = (if page_base x = page_base a then s_generation s else sm_gen s x)"
  proof (cases "page_base x = page_base a")
    case True
    then have "sm_slot s2 x = Some k" "k < s_slot_count s1"
      using w(2) [of x] e(3) [of x] k by (simp_all add: sm_slot_iff [OF e(1)])
    then show ?thesis using True w(4) [of k] gen by (simp add: sm_gen_def)
  next
    case False
    have "sm_gen s2 x = sm_gen s1 x"
    proof (cases "sm_slot s1 x")
      case None
      then show ?thesis using w(2) [of x] by (simp add: sm_gen_def)
    next
      case (Some i)
      then have "i < s_slot_count s1" "i \<noteq> k" using False k by (auto simp: sm_slot_iff [OF e(1)])
      then show ?thesis using Some w(2) [of x] w(4) [of i] by (simp add: sm_gen_def)
    qed
    then show ?thesis using False e(4) [of x] by simp
  qed
  have in_chunk: "page_off x = page_off a + unat (x - a)" if "in_range a (page_chunk a n) x"
  proof -
    have "unat (page_chunk a n) \<le> unat n" using page_chunk_le [of a n] by (simp add: word_nat)
    then have "unat a + unat (page_chunk a n) < 2 ^ 64" using fit by linarith
    then show ?thesis
      using that by (intro page_chunk_same_page(2) [of a x n]) (simp_all add: in_range_iff)
  qed
  have old: "s_backing s1 (sp_backing (s_pages s1 ! k)) (page_off x) = sm_byte s x" if "page_base x = page_base a"
    using that fun_cong [OF e(2), of x] e(3) [of x] by (simp add: sm_byte_def)
  show "sm_byte s2 x = (if in_range a (page_chunk a n) x then src ! unat (x - a) else sm_byte s x)"
    using page_chunk_range_iff [OF fit, of x] in_chunk old w(3) [of x] e(2)
    by (auto simp: block_write_def len)
qed

section \<open>The copy loop\<close>

lemma pending_step:
  assumes fit: "unat a + unat n < 2 ^ 64" and n: "n \<noteq> 0"
    and slot: "\<And>x. sm_slot s2 x = None \<longleftrightarrow> page_base x \<noteq> page_base a \<and> sm_slot s x = None"
  shows "card (pending s2 (a + page_chunk a n) (n - page_chunk a n)) + (if sm_slot s a = None then 1 else 0)
    \<le> card (pending s a n)"
proof -
  let ?rest = "pending s2 (a + page_chunk a n) (n - page_chunk a n)"
  note t = touched_chunk [OF fit n]
  have sub: "?rest \<subseteq> pending s a n - {page_base a}"
    using slot t by (auto simp: pending_def)
  have fin: "finite (pending s a n)" by simp
  show ?thesis
  proof (cases "sm_slot s a = None")
    case True
    have mem: "page_base a \<in> pending s a n"
      using True t [of "page_base a"] by (simp add: pending_def sm_slot_base)
    have "card ?rest \<le> card (pending s a n - {page_base a})" by (rule card_mono [OF _ sub]) simp
    moreover have "card (pending s a n - {page_base a}) = card (pending s a n) - 1"
      by (rule card_Diff_singleton [OF mem])
    moreover have "0 < card (pending s a n)" using mem fin by (auto simp: card_gt_0_iff)
    ultimately show ?thesis using True by simp
  next
    case False
    then show ?thesis using sub by (auto intro: card_mono [OF fin])
  qed
qed

text \<open>One iteration of the loop.\<close>

lemma sparse_copy_loop_0 [simp]: "sparse_copy_loop w s buf b a 0 = (s, buf)"
  by (simp add: sparse_copy_loop.simps)

lemma sparse_copy_loop_write_step:
  assumes "n \<noteq> 0"
  shows "sparse_copy_loop True s buf b a n =
    (let (s1, k) = ensure_page s a; c = page_chunk a n
     in sparse_copy_loop True (write_slot s1 k (page_off a) (take (unat c) (drop b buf))) buf
          (b + unat c) (a + c) (n - c))"
  using assms
  by (subst sparse_copy_loop.simps)
    (simp add: ensure_page_def page_base_alt [symmetric] unat_mod_page page_off_def Let_def)

lemma sparse_copy_write:
  assumes "sparse_copy_loop True s buf b a n = (s', buf')" and "store_ok s"
    and "unat a + unat n < 2 ^ 64" and "b + unat n \<le> length buf"
    and "\<forall>x. in_range a n x \<longrightarrow> page_base x \<noteq> 0"
    and "card (pending s a n) \<le> s_capacity s - s_resident s"
  shows "buf' = buf \<and> store_ok s' \<and> same_space s s' \<and>
    (\<forall>x. sm_byte s' x = (if in_range a n x then buf ! (b + unat (x - a)) else sm_byte s x)) \<and>
    (\<forall>x. sm_slot s' x = None \<longleftrightarrow> \<not> touched a n x \<and> sm_slot s x = None) \<and>
    (\<forall>x. sm_gen s' x = (if touched a n x then s_generation s else sm_gen s x))"
  using assms
proof (induction "unat n" arbitrary: s b a n rule: less_induct)
  case less
  show ?case
  proof (cases "n = 0")
    case True
    then show ?thesis using less.prems(1,2) by (simp add: touched_def)
  next
    case False
    let ?c = "page_chunk a n"
    have c: "?c \<le> n" "0 < unat ?c" "unat ?c \<le> unat n"
      using page_chunk_le [of a n] page_chunk_pos [of n a] False
      by (simp_all add: word_neq_0_conv word_nat)
    note split = in_range_split [OF less.prems(3) c(1)]
    have first: "in_range a n a" using False by (simp add: in_range_def unat_gt_0)
    then have b0: "page_base a \<noteq> 0" using less.prems(5) by blast
    obtain s1 k where e: "ensure_page s a = (s1, k)" by (metis prod.exhaust)
    let ?src = "take (unat ?c) (drop b buf)"
    define s2 where "s2 = write_slot s1 k (page_off a) ?src"
    have src: "length ?src = unat ?c" using less.prems(4) c(3) by simp
    have room: "s_resident s < s_capacity s" if "sm_slot s a = None"
    proof -
      have "page_base a \<in> pending s a n"
        using that first unfolding pending_def touched_def by (auto simp: sm_slot_base)
      then have "0 < card (pending s a n)" by (auto simp: card_gt_0_iff)
      then show ?thesis using less.prems(6) by linarith
    qed
    note w = write_step [OF less.prems(2) b0 room less.prems(3) src e s2_def]
    have step: "sparse_copy_loop True s2 buf (b + unat ?c) (a + ?c) (n - ?c) = (s', buf')"
      using less.prems(1) unfolding sparse_copy_loop_write_step [OF False] e s2_def by (simp add: Let_def)
    have nc: "unat (n - ?c) = unat n - unat ?c" using c(1) by (rule unat_sub_le)
    have same: "s_capacity s2 = s_capacity s" "s_generation s2 = s_generation s"
      using w(2) by (simp_all add: same_space_def)
    have IH: "buf' = buf \<and> store_ok s' \<and> same_space s2 s' \<and>
      (\<forall>x. sm_byte s' x = (if in_range (a + ?c) (n - ?c) x
        then buf ! (b + unat ?c + unat (x - (a + ?c))) else sm_byte s2 x)) \<and>
      (\<forall>x. sm_slot s' x = None \<longleftrightarrow> \<not> touched (a + ?c) (n - ?c) x \<and> sm_slot s2 x = None) \<and>
      (\<forall>x. sm_gen s' x = (if touched (a + ?c) (n - ?c) x then s_generation s2 else sm_gen s2 x))"
    proof (rule less.hyps [OF _ step w(1)])
      show "unat (n - ?c) < unat n" using c nc by simp
      show "unat (a + ?c) + unat (n - ?c) < 2 ^ 64" using split(3) less.prems(3) by simp
      show "b + unat ?c + unat (n - ?c) \<le> length buf" using less.prems(4) nc c(3) by simp
      show "\<forall>x. in_range (a + ?c) (n - ?c) x \<longrightarrow> page_base x \<noteq> 0" using less.prems(5) split(1) by simp
      show "card (pending s2 (a + ?c) (n - ?c)) \<le> s_capacity s2 - s_resident s2"
        using pending_step [OF less.prems(3) False w(4)] less.prems(6) w(6) same(1) by auto
    qed
    note t = touched_chunk [OF less.prems(3) False]
    have bytes: "sm_byte s' x = (if in_range a n x then buf ! (b + unat (x - a)) else sm_byte s x)" for x
    proof -
      have "?src ! unat (x - a) = buf ! (b + unat (x - a))" if "in_range a ?c x"
        using that less.prems(4) c(3) by (simp add: in_range_def)
      then show ?thesis
        using IH w(3) [of x] split(1) [of x] split(2) [of x] split(4) [of x]
        by (cases "in_range (a + ?c) (n - ?c) x") (simp_all add: add.assoc)
    qed
    have slots: "sm_slot s' x = None \<longleftrightarrow> \<not> touched a n x \<and> sm_slot s x = None" for x
      using IH w(4) [of x] t [of x] by auto
    have gens: "sm_gen s' x = (if touched a n x then s_generation s else sm_gen s x)" for x
      using IH w(5) [of x] t [of x] same(2) by simp
    show ?thesis
      using IH same_space_trans [OF w(2)] bytes slots gens by blast
  qed
qed

lemma chunk_offset:
  assumes "unat a + unat n < 2 ^ 64" and "j < unat (page_chunk a n)"
  shows "page_base (a + of_nat j) = page_base a" and "page_off (a + of_nat j) = page_off a + j"
proof -
  have le: "unat (page_chunk a n) \<le> unat n" using page_chunk_le [of a n] by (simp add: word_nat)
  have j: "unat (of_nat j :: u64) = j" using assms(2) unat_u64_less [of "page_chunk a n"] by (simp add: unat_of_nat_u64)
  have "unat (a + of_nat j) = unat a + j" using unat_plus_nowrap [of a "of_nat j"] assms le j by simp
  then show "page_base (a + of_nat j) = page_base a" "page_off (a + of_nat j) = page_off a + j"
    using page_chunk_same_page [of a "a + of_nat j" n] assms(2) j by simp_all
qed

lemma sparse_copy_loop_read_step:
  assumes "n \<noteq> 0" and "unat a + unat n < 2 ^ 64" and "page_base a \<noteq> 0"
  shows "sparse_copy_loop False s buf b a n =
    (let c = page_chunk a n
     in sparse_copy_loop False s (buffer_write buf b (map (\<lambda>j. sm_byte s (a + of_nat j)) [0..<unat c]))
          (b + unat c) (a + c) (n - c))"
proof -
  let ?c = "page_chunk a n"
  have "(case sm_slot s a of
        Some i \<Rightarrow> map (s_backing s (sp_backing (s_pages s ! i))) [page_off a..<page_off a + unat ?c]
      | None \<Rightarrow> replicate (unat ?c) 0) = map (\<lambda>j. sm_byte s (a + of_nat j)) [0..<unat ?c]"
  proof (rule nth_equalityI)
    fix j
    assume "j < length (case sm_slot s a of
        Some i \<Rightarrow> map (s_backing s (sp_backing (s_pages s ! i))) [page_off a..<page_off a + unat ?c]
      | None \<Rightarrow> replicate (unat ?c) 0)"
    then have j: "j < unat ?c" by (auto split: option.splits)
    note off = chunk_offset [OF assms(2) j]
    have "sm_slot s (a + of_nat j) = sm_slot s a" by (simp add: sm_slot_def off(1))
    then show "(case sm_slot s a of
        Some i \<Rightarrow> map (s_backing s (sp_backing (s_pages s ! i))) [page_off a..<page_off a + unat ?c]
      | None \<Rightarrow> replicate (unat ?c) 0) ! j = map (\<lambda>j. sm_byte s (a + of_nat j)) [0..<unat ?c] ! j"
      using j off(2) by (cases "sm_slot s a") (simp_all add: sm_byte_def)
  qed (auto split: option.splits)
  moreover have "page_slot s (page_base a) False = sm_slot s a" using assms(3) by (simp add: sm_slot_def)
  ultimately show ?thesis
    using assms(1) by (subst sparse_copy_loop.simps)
      (simp add: page_base_alt [symmetric] unat_mod_page page_off_def [symmetric] Let_def)
qed

lemma sparse_copy_read:
  assumes "sparse_copy_loop False s buf b a n = (s', buf')"
    and "unat a + unat n < 2 ^ 64" and "b + unat n \<le> length buf"
    and "\<forall>x. in_range a n x \<longrightarrow> page_base x \<noteq> 0"
  shows "s' = s \<and> length buf' = length buf \<and>
    (\<forall>i < length buf. buf' ! i =
      (if b \<le> i \<and> i < b + unat n then sm_byte s (a + of_nat (i - b)) else buf ! i))"
  using assms
proof (induction "unat n" arbitrary: buf b a n rule: less_induct)
  case less
  show ?case
  proof (cases "n = 0")
    case True
    then show ?thesis using less.prems(1) by auto
  next
    case False
    let ?c = "page_chunk a n"
    have c: "?c \<le> n" "0 < unat ?c" "unat ?c \<le> unat n"
      using page_chunk_le [of a n] page_chunk_pos [of n a] False
      by (simp_all add: word_neq_0_conv word_nat)
    note split = in_range_split [OF less.prems(2) c(1)]
    have "in_range a n a" using False by (simp add: in_range_def unat_gt_0)
    then have b0: "page_base a \<noteq> 0" using less.prems(4) by blast
    let ?src = "map (\<lambda>j. sm_byte s (a + of_nat j)) [0..<unat ?c]"
    let ?buf = "buffer_write buf b ?src"
    have fit: "b + length ?src \<le> length buf" using less.prems(3) c(3) by simp
    have step: "sparse_copy_loop False s ?buf (b + unat ?c) (a + ?c) (n - ?c) = (s', buf')"
      using less.prems(1) unfolding sparse_copy_loop_read_step [OF False less.prems(2) b0] by (simp add: Let_def)
    have nc: "unat (n - ?c) = unat n - unat ?c" using c(1) by (rule unat_sub_le)
    have len: "length ?buf = length buf" by (rule length_buffer_write [OF fit])
    have IH: "s' = s \<and> length buf' = length ?buf \<and>
      (\<forall>i < length ?buf. buf' ! i = (if b + unat ?c \<le> i \<and> i < b + unat ?c + unat (n - ?c)
        then sm_byte s (a + ?c + of_nat (i - (b + unat ?c))) else ?buf ! i))"
    proof (rule less.hyps [OF _ step])
      show "unat (n - ?c) < unat n" using c nc by simp
      show "unat (a + ?c) + unat (n - ?c) < 2 ^ 64" using split(3) less.prems(2) by simp
      show "b + unat ?c + unat (n - ?c) \<le> length ?buf" using less.prems(3) nc c(3) len by simp
      show "\<forall>x. in_range (a + ?c) (n - ?c) x \<longrightarrow> page_base x \<noteq> 0" using less.prems(4) split(1) by simp
    qed
    have "buf' ! i = (if b \<le> i \<and> i < b + unat n then sm_byte s (a + of_nat (i - b)) else buf ! i)"
      if i: "i < length buf" for i
    proof (cases "b \<le> i \<and> i < b + unat ?c")
      case True
      then obtain j where j: "i = b + j" "j < unat ?c" by (metis add_less_cancel_left le_Suc_ex)
      have "buf' ! i = ?buf ! i" using IH i len True by simp
      also have "?buf ! i = ?src ! j" using nth_buffer_write [OF fit i] True j by simp
      also have "\<dots> = sm_byte s (a + of_nat j)" using j by simp
      finally show ?thesis using j c(3) by simp
    next
      case False
      then have "?buf ! i = buf ! i" using nth_buffer_write [OF fit i] by auto
      moreover have "a + ?c + of_nat (i - (b + unat ?c)) = a + of_nat (i - b)" if "b + unat ?c \<le> i"
      proof -
        have "i - b = unat ?c + (i - (b + unat ?c))" using that by simp
        then have "(of_nat (i - b) :: u64) = ?c + of_nat (i - (b + unat ?c))"
          by (metis of_nat_add of_nat_unat ucast_id)
        then show ?thesis by simp
      qed
      ultimately show ?thesis using IH i len False nc c(3) by auto
    qed
    then show ?thesis using IH len by simp
  qed
qed

section \<open>One access\<close>

text \<open>The result of an access and the space after it.\<close>

definition same_map :: "Space \<Rightarrow> Space \<Rightarrow> bool" where
  "same_map s s' \<longleftrightarrow> s_base s' = s_base s \<and> s_end s' = s_end s \<and>
     s_mapping_generation s' = s_mapping_generation s \<and> s_capacity s' = s_capacity s \<and> s_regions s' = s_regions s"

lemma same_map_views:
  assumes "same_map s s'"
  shows "sm_attr s' = sm_attr s" and "sm_allowed s' = sm_allowed s" and "sp_contains s' = sp_contains s"
  using assms by (simp_all add: same_map_def fun_eq_iff sm_attr_def sm_allowed_def sp_contains_def)

lemma allowed_base:
  assumes "space_ok s" and "\<forall>x. in_range a n x \<longrightarrow> sm_allowed s p x"
  shows "\<forall>x. in_range a n x \<longrightarrow> page_base x \<noteq> 0"
  using sm_attr_bounds(3) [OF assms(1)] sm_allowed_attr assms(2) by blast

lemma access_locked_read:
  assumes ok: "space_ok s" and len: "unat n \<le> length buf"
    and eq: "access_locked s a (Some buf) n False = (r, s', buf')"
  shows "s' = s" and "r = check_access s a n GM_READ"
    and "r \<noteq> GM_OK \<Longrightarrow> buf' = Some buf"
    and "r = GM_OK \<Longrightarrow> buf' = Some (map (\<lambda>i. sm_byte s (a + of_nat i)) [0..<unat n] @ drop (unat n) buf)"
proof -
  have "s' = s \<and> r = check_access s a n GM_READ \<and> (r \<noteq> GM_OK \<longrightarrow> buf' = Some buf) \<and>
    (r = GM_OK \<longrightarrow> buf' = Some (map (\<lambda>i. sm_byte s (a + of_nat i)) [0..<unat n] @ drop (unat n) buf))"
  proof (cases "check_access s a n GM_READ = GM_OK \<and> n \<noteq> 0")
    case False
    then show ?thesis using eq by (auto simp: access_locked_def Let_def)
  next
    case True
    then have c: "sp_contains s a n" "\<forall>x. in_range a n x \<longrightarrow> sm_allowed s GM_READ x"
      using check_access_spec(1) [OF ok] by blast+
    obtain s1 b1 where loop: "sparse_copy_loop False s buf 0 a n = (s1, b1)" by (metis prod.exhaust)
    have "r = GM_OK" "s' = s1" "buf' = Some b1" using eq True loop by (simp_all add: access_locked_def Let_def)
    moreover have l: "s1 = s \<and> length b1 = length buf \<and>
        (\<forall>i < length buf. b1 ! i = (if 0 \<le> i \<and> i < 0 + unat n then sm_byte s (a + of_nat (i - 0)) else buf ! i))"
      by (rule sparse_copy_read [OF loop sp_contains_facts(1) [OF c(1)] _ allowed_base [OF ok c(2)]]) (simp add: len)
    moreover have "b1 = map (\<lambda>i. sm_byte s (a + of_nat i)) [0..<unat n] @ drop (unat n) buf"
      using l len by (intro nth_equalityI) (auto simp: nth_append)
    ultimately show ?thesis using True by simp
  qed
  then show "s' = s" and "r = check_access s a n GM_READ" and "r \<noteq> GM_OK \<Longrightarrow> buf' = Some buf"
    and "r = GM_OK \<Longrightarrow> buf' = Some (map (\<lambda>i. sm_byte s (a + of_nat i)) [0..<unat n] @ drop (unat n) buf)"
    by simp_all
qed

lemma generation_update:
  "store_ok (s\<lparr>s_generation := g\<rparr>) = store_ok s" "sm_slot (s\<lparr>s_generation := g\<rparr>) = sm_slot s"
  "sm_byte (s\<lparr>s_generation := g\<rparr>) = sm_byte s" "sm_gen (s\<lparr>s_generation := g\<rparr>) = sm_gen s"
  "pending (s\<lparr>s_generation := g\<rparr>) = pending s" "same_map s (s\<lparr>s_generation := g\<rparr>)"
proof -
  show slot: "sm_slot (s\<lparr>s_generation := g\<rparr>) = sm_slot s"
    by (simp add: fun_eq_iff sm_slot_def page_slot_def)
  show "store_ok (s\<lparr>s_generation := g\<rparr>) = store_ok s"
    by (simp add: store_ok_def arena_ok_def)
  show "sm_byte (s\<lparr>s_generation := g\<rparr>) = sm_byte s" "sm_gen (s\<lparr>s_generation := g\<rparr>) = sm_gen s"
    "pending (s\<lparr>s_generation := g\<rparr>) = pending s"
    by (simp_all add: fun_eq_iff sm_byte_def sm_gen_def pending_def slot split: option.split)
  show "same_map s (s\<lparr>s_generation := g\<rparr>)" by (simp add: same_map_def)
qed

lemma space_ok_access:
  assumes ok: "space_ok s" and st: "store_ok s'" and m: "same_map s s'"
    and slot: "\<And>x. sm_slot s' x \<noteq> None \<Longrightarrow> sm_attr s x \<noteq> None"
  shows "space_ok s'"
  using ok st slot same_map_views(1) [OF m] m unfolding space_ok_def same_map_def by simp

lemma access_locked_write:
  assumes ok: "space_ok s" and len: "unat n \<le> length buf"
    and eq: "access_locked s a (Some buf) n True = (r, s', b')"
  shows "space_ok s' \<and> b' = Some buf \<and> same_map s s' \<and>
    r = (if check_access s a n GM_WRITE \<noteq> GM_OK then check_access s a n GM_WRITE
         else if card (pending s a n) \<le> s_capacity s - s_resident s then GM_OK else GM_NOMEM) \<and>
    (r \<noteq> GM_OK \<longrightarrow> s' = s) \<and>
    (r = GM_OK \<longrightarrow> s_generation s' = s_generation s + (if n = 0 then 0 else 1) \<and>
      (\<forall>x. sm_byte s' x = (if in_range a n x then buf ! unat (x - a) else sm_byte s x)) \<and>
      (\<forall>x. sm_slot s' x = None \<longleftrightarrow> \<not> touched a n x \<and> sm_slot s x = None) \<and>
      (\<forall>x. sm_gen s' x = (if touched a n x then s_generation s' else sm_gen s x)))"
proof (cases "check_access s a n GM_WRITE = GM_OK \<and> n \<noteq> 0")
  case False
  then have "s' = s" "b' = Some buf" "r = check_access s a n GM_WRITE"
    using eq by (auto simp: access_locked_def Let_def)
  moreover have "pending s a n = {}" if "n = 0" using that by (simp add: pending_def touched_def)
  ultimately show ?thesis using ok False by (auto simp: same_map_def touched_def)
next
  case True
  then have c: "sp_contains s a n" "\<forall>x. in_range a n x \<longrightarrow> sm_allowed s GM_WRITE x"
    using check_access_spec(1) [OF ok] by blast+
  note fit = sp_contains_facts(1) [OF c(1)] and nz = allowed_base [OF ok c(2)]
  note enough = backing_enough_spec [OF fit conjunct2 [OF True] nz, of s]
  show ?thesis
  proof (cases "card (pending s a n) \<le> s_capacity s - s_resident s")
    case no: False
    then have "s' = s" "b' = Some buf" "r = GM_NOMEM"
      using eq True enough by (auto simp: access_locked_def Let_def)
    then show ?thesis using ok no True by (simp add: same_map_def)
  next
    case yes: True
    let ?s = "s\<lparr>s_generation := s_generation s + 1\<rparr>"
    obtain s1 b1 where loop: "sparse_copy_loop True ?s buf 0 a n = (s1, b1)" by (metis prod.exhaust)
    have res: "r = GM_OK" "s' = s1" "b' = Some b1"
      using eq True enough yes loop by (simp_all add: access_locked_def Let_def)
    have st: "store_ok ?s" using space_ok_store [OF ok] by (simp add: generation_update)
    have cap: "card (pending ?s a n) \<le> s_capacity ?s - s_resident ?s" using yes by (simp add: generation_update)
    have bl: "0 + unat n \<le> length buf" using len by simp
    note w = sparse_copy_write [OF loop st fit bl nz cap]
    have map: "same_map s s1" and gen: "s_generation s1 = s_generation s + 1"
      using w by (simp_all add: same_space_def same_map_def)
    have slot: "sm_slot s1 x = None \<longleftrightarrow> \<not> touched a n x \<and> sm_slot s x = None" for x
      using w by (simp add: generation_update)
    have "sm_attr s x \<noteq> None" if "sm_slot s1 x \<noteq> None" for x
    proof (cases "touched a n x")
      case t: True
      then obtain y where "in_range a n y" "page_base y = page_base x" by (auto simp: touched_def)
      then show ?thesis
        using c(2) sm_allowed_attr sm_attr_base [OF ok, of x] sm_attr_base [OF ok, of y] by metis
    next
      case False
      then show ?thesis using that slot ok by (auto simp: space_ok_def)
    qed
    then have "space_ok s1" using w by (intro space_ok_access [OF ok _ map]) simp_all
    then show ?thesis using w res map gen slot yes True by (simp add: generation_update)
  qed
qed

text \<open>\<open>gm_sparse_prepare\<close> backs the pages of a range and changes no byte.\<close>

lemma prepare_pages_spec:
  assumes "store_ok s" and "distinct pages" and "\<forall>b \<in> set pages. page_aligned b \<and> b \<noteq> 0"
    and "length (filter (\<lambda>b. sm_slot s b = None) pages) \<le> s_capacity s - s_resident s"
  shows "store_ok (prepare_pages s pages) \<and> same_space s (prepare_pages s pages) \<and>
    sm_byte (prepare_pages s pages) = sm_byte s \<and> sm_gen (prepare_pages s pages) = sm_gen s \<and>
    (\<forall>x. sm_slot (prepare_pages s pages) x = None \<longleftrightarrow> page_base x \<notin> set pages \<and> sm_slot s x = None)"
  using assms
proof (induction pages arbitrary: s)
  case (Cons b pages)
  have b: "page_base b = b" "b \<noteq> 0" using Cons.prems(3) by (simp_all add: page_base_aligned)
  obtain s1 k where e: "ensure_page s b = (s1, k)" by (metis prod.exhaust)
  have slot: "page_slot s b False = sm_slot s b" using b by (simp add: sm_slot_def)
  have room: "s_resident s < s_capacity s" if "sm_slot s b = None" using that Cons.prems(4) by simp
  have "page_base b \<noteq> 0" using b by simp
  note sp = ensure_page_spec [OF Cons.prems(1) this room e]
  have step: "prepare_pages s (b # pages) = prepare_pages s1 pages"
    using e slot b by (cases "sm_slot s b") (auto simp: ensure_page_def)
  have none: "sm_slot s1 x = None \<longleftrightarrow> page_base x \<noteq> b \<and> sm_slot s x = None" for x
    using sp(3) [of x] b(1) by simp
  have rest: "filter (\<lambda>c. sm_slot s1 c = None) pages = filter (\<lambda>c. sm_slot s c = None) pages"
    using Cons.prems(2,3) none by (intro filter_cong) (auto simp: page_base_aligned)
  have "s_capacity s1 = s_capacity s" using sp(5) by (simp add: same_space_def)
  then have cap: "length (filter (\<lambda>c. sm_slot s1 c = None) pages) \<le> s_capacity s1 - s_resident s1"
    using Cons.prems(4) sp(6) unfolding rest by (cases "sm_slot s b") auto
  have gen: "sm_gen s1 = sm_gen s" using sp(4) by (simp add: fun_eq_iff)
  have "distinct pages" "\<forall>b \<in> set pages. page_aligned b \<and> b \<noteq> 0" using Cons.prems(2,3) by simp_all
  note IH = Cons.IH [OF sp(1) this cap]
  show ?case
    unfolding step using IH same_space_trans [OF sp(5)] sp(2) gen none by auto
qed simp

end
