(* ===== verification/GuestSparseOps.thy ===== *)
theory GuestSparseOps
  imports GuestSparseAccess
begin

text \<open>
  The interface of \<open>GuestSparseMemory.c\<close> as its callers see it. The space implements the contract of
  an address space; every call keeps its invariant; a store through an exclusive monitor succeeds
  only when nothing wrote the page or changed a mapping since the load; the compare-exchange and
  the read-modify-write operations return the old value and store the new one.
\<close>

section \<open>The space as an address space\<close>

definition sm_load :: "Space \<Rightarrow> u64 \<Rightarrow> u64 \<Rightarrow> GMResult \<times> Space \<times> u8 list" where
  "sm_load s a n =
     (let (r, m, b) = gm_sparse_read (Some s) a (Some (replicate (unat n) 0)) n in (r, the m, the b))"

definition sm_store :: "Space \<Rightarrow> u64 \<Rightarrow> u8 list \<Rightarrow> GMResult \<times> Space" where
  "sm_store s a bs = (let (r, m) = gm_sparse_write (Some s) a (Some bs) (word_length bs) in (r, the m))"

lemma gm_sparse_read_locked:
  "gm_sparse_read (Some s) a b n = (let (r, s, b) = access_locked s a b n False in (r, Some s, b))"
  by (simp add: gm_sparse_read_def access_memory_def)

lemma gm_sparse_write_locked:
  "gm_sparse_write (Some s) a b n = (let (r, s, b) = access_locked s a b n True in (r, Some s))"
  by (simp add: gm_sparse_write_def access_memory_def split: prod.splits)

lemma sm_load_spec:
  assumes ok: "space_ok s" and eq: "sm_load s a n = (r, s', bs)"
  shows "s' = s" and "r = check_access s a n GM_READ"
    and "r = GM_OK \<Longrightarrow> bs = map (\<lambda>i. sm_byte s (a + of_nat i)) [0..<unat n]"
proof -
  obtain b where b: "access_locked s a (Some (replicate (unat n) 0)) n False = (r, s', b)" "bs = the b"
    using eq by (auto simp: sm_load_def gm_sparse_read_locked Let_def split: prod.splits)
  note spec = access_locked_read [OF ok _ b(1), simplified]
  show "s' = s" "r = check_access s a n GM_READ" by (fact spec)+
  show "r = GM_OK \<Longrightarrow> bs = map (\<lambda>i. sm_byte s (a + of_nat i)) [0..<unat n]"
    using spec(4) b(2) by simp
qed

lemma sm_store_spec:
  assumes ok: "space_ok s" and len: "length bs < 2 ^ 64" and eq: "sm_store s a bs = (r, s')"
  shows "space_ok s'" and "same_map s s'"
    and "r = GM_OK \<Longrightarrow> check_access s a (word_length bs) GM_WRITE = GM_OK"
    and "sm_byte s' x = (if r = GM_OK \<and> in_range a (word_length bs) x then bs ! unat (x - a) else sm_byte s x)"
proof -
  obtain b where b: "access_locked s a (Some bs) (word_length bs) True = (r, s', b)"
    using eq by (auto simp: sm_store_def gm_sparse_write_locked Let_def split: prod.splits)
  have "unat (word_length bs) \<le> length bs" using len by (simp add: unat_of_nat_u64)
  note spec = access_locked_write [OF ok this b]
  show "space_ok s'" "same_map s s'" using spec by blast+
  show "r = GM_OK \<Longrightarrow> check_access s a (word_length bs) GM_WRITE = GM_OK"
    using spec by (auto split: if_splits)
  show "sm_byte s' x = (if r = GM_OK \<and> in_range a (word_length bs) x then bs ! unat (x - a) else sm_byte s x)"
    using spec by (cases "r = GM_OK") simp_all
qed

interpretation sm: address_space space_ok sp_contains sm_byte "\<lambda>s. sm_allowed s GM_READ"
  "\<lambda>s. sm_allowed s GM_WRITE" sm_load sm_store
proof (unfold_locales, goal_cases)
  case (1 s a n)
  obtain r s' bs where l: "sm_load s a n = (r, s', bs)" by (metis prod_cases3)
  show ?case
    using check_access_spec(1) [OF 1, of a n GM_READ] sm_load_spec(2) [OF 1 l] l by simp
next
  case (2 s a n s' bs)
  show ?case by (rule sm_load_spec(3) [OF 2 refl])
next
  case (3 s a n r s' bs)
  show ?case using 3(1) sm_load_spec(1) [OF 3] by simp
next
  case (4 s bs a s')
  show ?case
    using sm_store_spec(3) [OF 4 refl] unfolding check_access_spec(1) [OF 4(1)] .
next
  case (5 s bs a r s' x)
  then show ?case by (rule sm_store_spec(4))
next
  case (6 s bs a r s')
  note v = same_map_views [OF sm_store_spec(2) [OF 6]]
  show ?case using sm_store_spec(1) [OF 6] by (simp add: v)
qed

section \<open>Prepare\<close>

lemma gm_sparse_prepare_spec:
  assumes ok: "space_ok s" and eq: "gm_sparse_prepare (Some s) a n p = (r, m)"
  shows "\<exists>s'. m = Some s' \<and> space_ok s' \<and> same_map s s' \<and> s_generation s' = s_generation s \<and>
    sm_byte s' = sm_byte s \<and> sm_gen s' = sm_gen s \<and> (r \<noteq> GM_OK \<longrightarrow> s' = s) \<and>
    (r = GM_OK \<longrightarrow> p AND GM_WRITE \<noteq> 0 \<longrightarrow> (\<forall>x. in_range a n x \<longrightarrow> sm_slot s' x \<noteq> None))"
proof (cases "p AND NOT (GM_READ OR GM_WRITE) = 0 \<and> check_access s a n p = GM_OK \<and> n \<noteq> 0 \<and> p AND GM_WRITE \<noteq> 0 \<and>
    backing_enough s (page_walk a (a + n)) 0")
  case False
  then have "m = Some s \<and> (r = GM_OK \<longrightarrow> n = 0 \<or> p AND GM_WRITE = 0)"
    using eq by (auto simp: gm_sparse_prepare_def Let_def split: if_splits)
  then show ?thesis using ok by (auto simp: same_map_def)
next
  case True
  let ?w = "page_walk a (a + n)"
  have c: "sp_contains s a n" "\<forall>x. in_range a n x \<longrightarrow> sm_allowed s p x"
    using True check_access_spec(1) [OF ok] by blast+
  note fit = sp_contains_facts(1) [OF c(1)] and nz = allowed_base [OF ok c(2)]
  have n: "n \<noteq> 0" using True by blast
  note w = page_walk_facts [OF fit n]
  have al: "page_aligned b \<and> b \<noteq> 0" if "b \<in> set ?w" for b
    using that w(2) [of b] nz page_base_aligned [of b] unfolding touched_def by auto
  have slot: "\<forall>b \<in> set ?w. page_slot s b False = sm_slot s b"
    using al by (auto simp: sm_slot_def page_base_aligned)
  have cap: "length (filter (\<lambda>b. sm_slot s b = None) ?w) \<le> s_capacity s - s_resident s"
    using True backing_enough_iff [OF slot, of 0] by simp
  let ?s = "prepare_pages s ?w"
  note pp = prepare_pages_spec [OF space_ok_store [OF ok] w(1) _ cap]
  have p: "store_ok ?s" "same_space s ?s" "sm_byte ?s = sm_byte s" "sm_gen ?s = sm_gen s"
      "\<And>x. sm_slot ?s x = None \<longleftrightarrow> page_base x \<notin> set ?w \<and> sm_slot s x = None"
    using pp al by blast+
  have res: "r = GM_OK" "m = Some ?s" using eq True by (simp_all add: gm_sparse_prepare_def Let_def)
  have map: "same_map s ?s" "s_generation ?s = s_generation s" using p(2) by (simp_all add: same_space_def same_map_def)
  have walk: "page_base x \<in> set ?w \<longleftrightarrow> touched a n x" for x using w(2) [of "page_base x"] by (simp add: touched_base)
  have "sm_attr s x \<noteq> None" if "sm_slot ?s x \<noteq> None" for x
  proof (cases "touched a n x")
    case t: True
    then obtain y where "in_range a n y" "page_base y = page_base x" by (auto simp: touched_def)
    then show ?thesis
      using c(2) sm_allowed_attr sm_attr_base [OF ok, of x] sm_attr_base [OF ok, of y] by metis
  next
    case False
    then show ?thesis using that p(5) walk ok by (auto simp: space_ok_def)
  qed
  then have "space_ok ?s" by (rule space_ok_access [OF ok p(1) map(1)])
  moreover have "sm_slot ?s x \<noteq> None" if "in_range a n x" for x
    using that p(5) [of x] walk [of x] by (auto simp: touched_def)
  ultimately show ?thesis using res map p(3,4) by simp
qed

section \<open>The effect of one call\<close>

text \<open>\<open>sm_effect s s'\<close>: the call kept the mappings and wrote at most once, or it changed the mappings.\<close>

definition sm_effect :: "Space \<Rightarrow> Space \<Rightarrow> bool" where
  "sm_effect s s' \<longleftrightarrow> space_ok s' \<and> s_base s' = s_base s \<and> s_end s' = s_end s \<and>
     (if s_mapping_generation s' = s_mapping_generation s
      then s_regions s' = s_regions s \<and>
        (s_generation s' = s_generation s \<and> sm_gen s' = sm_gen s \<and> sm_byte s' = sm_byte s \<or>
         s_generation s' = s_generation s + 1 \<and> (\<forall>x. sm_gen s' x = sm_gen s x \<or> sm_gen s' x = s_generation s'))
      else s_mapping_generation s' = s_mapping_generation s + 1 \<and> s_generation s' = s_generation s \<and>
        (\<forall>x. sm_gen s' x = sm_gen s x \<or> sm_gen s' x = 0))"

lemma sm_effect_refl: "space_ok s \<Longrightarrow> sm_effect s s"
  by (simp add: sm_effect_def)

lemma access_locked_effect:
  assumes ok: "space_ok s" and b: "buffer_ok b n" and eq: "access_locked s a b n w = (r, s', b')"
  shows "sm_effect s s'"
proof (cases b)
  case None
  then have "s' = s" using eq by (auto simp: access_locked_def Let_def split: if_splits)
  then show ?thesis using ok by (simp add: sm_effect_refl)
next
  case (Some buf)
  then have len: "unat n \<le> length buf" using b by (simp add: buffer_ok_def)
  show ?thesis
  proof (cases w)
    case False
    then have "access_locked s a (Some buf) n False = (r, s', b')" using eq Some by simp
    then have "s' = s" by (rule access_locked_read(1) [OF ok len])
    then show ?thesis using ok by (simp add: sm_effect_refl)
  next
    case True
    then have eq': "access_locked s a (Some buf) n True = (r, s', b')" using eq Some by simp
    note spec = access_locked_write [OF ok len eq']
    show ?thesis
    proof (cases "r = GM_OK \<and> n \<noteq> 0")
      case True
      then show ?thesis using spec by (simp add: sm_effect_def same_map_def)
    next
      case False
      have "s' = s"
      proof (cases "r = GM_OK")
        case True
        then have "n = 0" using False by simp
        then show ?thesis using eq' by (auto simp: access_locked_def Let_def)
      next
        case no: False
        then show ?thesis using spec by blast
      qed
      then show ?thesis using ok by (simp add: sm_effect_refl)
    qed
  qed
qed

lemma change_effect:
  assumes ok: "space_ok s" and eq: "change (Some s) a n prot maxprot replace op = (r, Some s')"
  shows "sm_effect s s'"
proof (cases "r = GM_OK")
  case False
  then show ?thesis using change_spec [OF ok eq] by (auto intro: sm_effect_refl)
next
  case True
  have spec: "space_ok s'" "s_mapping_generation s' = s_mapping_generation s + 1" "s_generation s' = s_generation s"
      "s_base s' = s_base s" "s_end s' = s_end s"
      "\<And>x. sm_slot s' x = (if in_range a n x \<and> op \<noteq> PROTECT then None else sm_slot s x)"
    using change_spec [OF ok eq] True by auto
  have "sp_generation (s_pages s' ! i) = sp_generation (s_pages s ! i)" if "i < length (s_pages s)" for i
    using eq True that
    by (auto simp: change_def discard_pages_def Let_def split: if_splits option.splits)
  moreover have "i < length (s_pages s)" if "sm_slot s x = Some i" for x i
    using that space_ok_store [OF ok] by (simp add: sm_slot_iff store_ok_def table_ok_def)
  ultimately have "sm_gen s' x = sm_gen s x \<or> sm_gen s' x = 0" for x
    using spec(6) [of x] by (cases "sm_slot s x") (auto simp: sm_gen_def)
  then show ?thesis using spec(1-5) by (simp add: sm_effect_def)
qed

lemma prepare_effect:
  assumes "space_ok s" and "gm_sparse_prepare (Some s) a n p = (r, Some s')"
  shows "sm_effect s s'"
  using gm_sparse_prepare_spec [OF assms] by (auto simp: sm_effect_def same_map_def)

text \<open>The calls of the interface on one space.\<close>

inductive sparse_step :: "Space \<Rightarrow> Space \<Rightarrow> bool" where
  map: "gm_sparse_map (Some s) a n prot maxprot replace = (r, Some s') \<Longrightarrow> sparse_step s s'"
| unmap: "gm_sparse_unmap (Some s) a n = (r, Some s') \<Longrightarrow> sparse_step s s'"
| protect: "gm_sparse_protect (Some s) a n prot = (r, Some s') \<Longrightarrow> sparse_step s s'"
| read: "buffer_ok b n \<Longrightarrow> gm_sparse_read (Some s) a b n = (r, Some s', b') \<Longrightarrow> sparse_step s s'"
| store: "buffer_ok b n \<Longrightarrow> gm_sparse_write (Some s) a b n = (r, Some s') \<Longrightarrow> sparse_step s s'"
| prepare: "gm_sparse_prepare (Some s) a n p = (r, Some s') \<Longrightarrow> sparse_step s s'"
| load_exclusive: "buffer_ok b n \<Longrightarrow>
    gm_sparse_load_exclusive (Some s) a b n x = (r, Some s', b', x') \<Longrightarrow> sparse_step s s'"
| store_exclusive: "buffer_ok b n \<Longrightarrow>
    gm_sparse_store_exclusive (Some s) a b n x out = (r, Some s', x', stored) \<Longrightarrow> sparse_step s s'"
| compare_exchange: "buffer_ok d n \<Longrightarrow>
    gm_sparse_compare_exchange (Some s) a e d out n = (r, Some s', old) \<Longrightarrow> sparse_step s s'"
| atomic: "gm_sparse_atomic (Some s) a n op v out = (r, Some s', old) \<Longrightarrow> sparse_step s s'"

inductive_cases sparse_stepE: "sparse_step s s'"

inductive sparse_reachable :: "Space \<Rightarrow> bool" where
  init: "gm_sparse_init (Some None) base sz bytes a b c d = (GM_OK, Some (Some s)) \<Longrightarrow> sparse_reachable s"
| init_blocks: "gm_sparse_init_blocks (Some None) base sz bytes a b c d garbage = (GM_OK, Some (Some s)) \<Longrightarrow>
    sparse_reachable s"
| step: "sparse_reachable s \<Longrightarrow> sparse_step s s' \<Longrightarrow> sparse_reachable s'"

lemma atomic_size_bounds:
  "atomic_size a n \<Longrightarrow> n \<noteq> 0 \<and> unat n \<le> 16"
  by (auto simp: atomic_size_def word_nat)

text \<open>The two steps of a read-modify-write.\<close>

definition atomic_mask :: "u64 \<Rightarrow> u64" where
  "atomic_mask n = (if n = 8 then UINT64_MAX else push_bit (unat n * 8) 1 - 1)"

lemma gm_sparse_atomic_steps:
  assumes ok: "space_ok s" and args: "out" "n \<le> 8" "atomic_size a n"
    and eq: "gm_sparse_atomic (Some s) a n operation v out = (r, m, old)"
  defines "k \<equiv> unat n"
  defines "before \<equiv> scalar_value (map (\<lambda>i. sm_byte s (a + of_nat i)) [0..<k]) k"
  defines "after \<equiv> atomic_value operation (push_bit (k * 8 - 1) 1) before (v AND atomic_mask n)"
  shows "if check_access s a n GM_READ \<noteq> GM_OK then r = check_access s a n GM_READ \<and> m = Some s \<and> old = None
    else \<exists>s' b. m = Some s' \<and> old = (if r = GM_OK then Some before else None) \<and>
      access_locked s a (Some (scalar_bytes after k @ replicate (8 - k) 0)) n True = (r, s', b)"
proof -
  have n8: "unat n \<le> 8" using args(2) by (simp add: word_nat)
  obtain r1 s1 b1 where l: "access_locked s a (Some (replicate 8 0)) n False = (r1, s1, b1)" by (metis prod_cases3)
  note rd = access_locked_read [OF ok _ l, simplified, OF n8]
  have not: "\<not> (\<not> out \<or> n > 8 \<or> \<not> atomic_size a n)" using args by simp
  show ?thesis
  proof (cases "r1 = GM_OK")
    case False
    then show ?thesis
      using eq not l rd(1,2) unfolding gm_sparse_atomic_def by (simp add: Let_def)
  next
    case True
    have b1: "the b1 = map (\<lambda>i. sm_byte s (a + of_nat i)) [0..<k] @ replicate (8 - k) 0"
      using rd(4) [OF True] by (simp add: k_def)
    have val: "scalar_value (the b1) k = before"
      unfolding b1 before_def by (rule scalar_value_cong) (simp add: nth_append)
    have drop: "drop k (the b1) = replicate (8 - k) 0" by (simp add: b1)
    obtain r2 s2 b2 where w: "access_locked s a (Some (scalar_bytes after k @ replicate (8 - k) 0)) n True = (r2, s2, b2)"
      by (metis prod_cases3)
    have mask: "(if n = 8 then UINT64_MAX else push_bit (k * 8) 1 - 1) = atomic_mask n"
      by (simp add: atomic_mask_def k_def)
    have "(r, m, old) = (r2, Some s2, if r2 = GM_OK then Some before else None)"
      using eq not l True rd(1) val drop w unfolding gm_sparse_atomic_def after_def
      by (auto simp: Let_def k_def [symmetric] mask)
    then show ?thesis using rd(2) True w by simp
  qed
qed

text \<open>The steps of a compare-exchange.\<close>

lemma gm_sparse_compare_exchange_steps:
  assumes ok: "space_ok s" and args: "out" "atomic_size a n"
    and eq: "gm_sparse_compare_exchange (Some s) a (Some e) (Some d) out n = (r, m, old)"
  defines "before \<equiv> map (\<lambda>i. sm_byte s (a + of_nat i)) [0..<unat n]"
  shows "if check_access s a n (GM_READ OR GM_WRITE) \<noteq> GM_OK
    then r = check_access s a n (GM_READ OR GM_WRITE) \<and> m = Some s \<and> old = None
    else if before = take (unat n) e
    then \<exists>s' b. m = Some s' \<and> old = (if r = GM_OK then Some before else None) \<and>
      access_locked s a (Some d) n True = (r, s', b)
    else r = GM_OK \<and> m = Some s \<and> old = Some before"
proof (cases "check_access s a n (GM_READ OR GM_WRITE) = GM_OK")
  case False
  then show ?thesis using eq args by (simp add: gm_sparse_compare_exchange_def Let_def)
next
  case True
  have n16: "unat n \<le> 16" using atomic_size_bounds [OF args(2)] by simp
  obtain r1 s1 b1 where l: "access_locked s a (Some (replicate 16 0)) n False = (r1, s1, b1)" by (metis prod_cases3)
  note rd = access_locked_read [OF ok _ l, simplified, OF n16]
  have sub: "sm_allowed s GM_READ x" if "sm_allowed s (GM_READ OR GM_WRITE) x" for x
  proof -
    have "p AND GM_READ = GM_READ" if "p AND 3 = 3" for p :: u32
      using arg_cong [OF that, of "\<lambda>z. z AND 1"] by (simp add: and.assoc)
    then show ?thesis using that by (auto simp: sm_allowed_def rg_allows_def split: option.splits)
  qed
  have "check_access s a n GM_READ = GM_OK"
    using True sub unfolding check_access_spec(1) [OF ok] by blast
  then have r1: "r1 = GM_OK" using rd(2) by simp
  have b1: "take (unat n) (the b1) = before" using rd(4) [OF r1] by (simp add: before_def)
  show ?thesis
    using eq True args l r1 rd(1) b1 unfolding gm_sparse_compare_exchange_def
    by (auto simp: Let_def split: prod.splits if_splits)
qed

lemma sparse_step_effect:
  assumes step: "sparse_step s s'" and ok: "space_ok s"
  shows "sm_effect s s'"
  using step
proof (cases rule: sparse_step.cases)
  case (compare_exchange d n a e out r old)
  show ?thesis
  proof (cases "e = None \<or> d = None \<or> \<not> out \<or> \<not> atomic_size a n")
    case True
    then have "s' = s" using compare_exchange(2) by (auto simp: gm_sparse_compare_exchange_def Let_def)
    then show ?thesis using ok by (simp add: sm_effect_refl)
  next
    case False
    then obtain e' d' where ed: "e = Some e'" "d = Some d'" "out" "atomic_size a n" by auto
    note eq = compare_exchange(2) [unfolded ed(1,2)]
    from gm_sparse_compare_exchange_steps [OF ok ed(3,4) eq] show ?thesis
      using access_locked_effect [OF ok, of "Some d'" n] compare_exchange(1) ok ed(2)
      by (auto intro: sm_effect_refl split: if_splits)
  qed
next
  case (atomic a n op v out r old)
  show ?thesis
  proof (cases "\<not> out \<or> n > 8 \<or> \<not> atomic_size a n")
    case True
    then have "s' = s" using atomic by (auto simp: gm_sparse_atomic_def Let_def)
    then show ?thesis using ok by (simp add: sm_effect_refl)
  next
    case False
    then have args: "out" "n \<le> 8" "atomic_size a n" by auto
    have "unat n \<le> 8" using args(2) by (simp add: word_nat)
    then have buf: "buffer_ok (Some (scalar_bytes w (unat n) @ replicate (8 - unat n) 0)) n" for w
      by (simp add: buffer_ok_def)
    from gm_sparse_atomic_steps [OF ok args atomic] show ?thesis
      using access_locked_effect [OF ok buf] ok by (auto intro: sm_effect_refl split: if_splits)
  qed
qed (use ok in \<open>auto simp: gm_sparse_map_def gm_sparse_unmap_def gm_sparse_protect_def gm_sparse_read_locked
    gm_sparse_write_locked gm_sparse_load_exclusive_def gm_sparse_store_exclusive_def Let_def
    intro: change_effect prepare_effect access_locked_effect sm_effect_refl
    split: prod.splits if_splits option.splits\<close>)

lemma sparse_reachable_ok: "sparse_reachable s \<Longrightarrow> space_ok s"
proof (induction rule: sparse_reachable.induct)
  case (init base sz bytes a b c d s)
  then show ?case using initialize_spec unfolding gm_sparse_init_def by blast
next
  case (init_blocks base sz bytes a b c d garbage s)
  then show ?case using initialize_spec unfolding gm_sparse_init_blocks_def by blast
next
  case (step s s')
  then show ?case using sparse_step_effect unfolding sm_effect_def by blast
qed

section \<open>Exclusive monitors\<close>

text \<open>A call that does not wrap one of the two counters around, and a sequence of such calls.\<close>

definition sparse_quiet :: "Space \<Rightarrow> Space \<Rightarrow> bool" where
  "sparse_quiet s s' \<longleftrightarrow> sparse_step s s' \<and> s_generation s \<le> s_generation s' \<and>
     s_mapping_generation s \<le> s_mapping_generation s'"

text \<open>No page is younger than the space.\<close>

definition gens_ok :: "Space \<Rightarrow> bool" where
  "gens_ok s \<longleftrightarrow> (\<forall>x. sm_gen s x \<le> s_generation s)"

text \<open>\<open>later s s'\<close>: a mapping changed in between, or no page got older.\<close>

definition later :: "Space \<Rightarrow> Space \<Rightarrow> bool" where
  "later s s' \<longleftrightarrow> space_ok s' \<and> gens_ok s' \<and> s_generation s \<le> s_generation s' \<and>
     (s_mapping_generation s < s_mapping_generation s' \<or>
      s_mapping_generation s = s_mapping_generation s' \<and> (\<forall>x. sm_gen s x \<le> sm_gen s' x))"

lemma word_Suc_neq: "(w :: u64) + 1 \<noteq> w"
  by simp

lemma quiet_later:
  assumes q: "sparse_quiet s s'" and ok: "space_ok s" and g: "gens_ok s"
  shows "later s s'"
proof -
  have e: "sm_effect s s'" and le: "s_generation s \<le> s_generation s'" "s_mapping_generation s \<le> s_mapping_generation s'"
    using q sparse_step_effect [OF _ ok] by (simp_all add: sparse_quiet_def)
  have gen: "sm_gen s x \<le> s_generation s" for x using g by (simp add: gens_ok_def)
  show ?thesis
  proof (cases "s_mapping_generation s' = s_mapping_generation s")
    case True
    have each: "sm_gen s x \<le> sm_gen s' x \<and> sm_gen s' x \<le> s_generation s'" for x
    proof (cases "sm_gen s' x = sm_gen s x")
      case t: True
      then show ?thesis using order_trans [OF gen le(1)] by simp
    next
      case False
      then have "sm_gen s' x = s_generation s'" using e True unfolding sm_effect_def by metis
      then show ?thesis using order_trans [OF gen le(1)] by simp
    qed
    then show ?thesis using e le(1) True by (simp add: later_def gens_ok_def sm_effect_def)
  next
    case False
    then have lt: "s_mapping_generation s < s_mapping_generation s'" using le(2) by simp
    have "sm_gen s' x \<le> s_generation s'" for x
    proof -
      have "sm_gen s' x = sm_gen s x \<or> sm_gen s' x = 0" using e False unfolding sm_effect_def by metis
      then show ?thesis using order_trans [OF gen le(1)] by auto
    qed
    then show ?thesis using e le(1) lt by (simp add: later_def gens_ok_def sm_effect_def)
  qed
qed

lemma later_refl: "space_ok s \<Longrightarrow> gens_ok s \<Longrightarrow> later s s"
  by (simp add: later_def)

lemma later_trans:
  assumes "later s t" and "later t u"
  shows "later s u"
proof -
  have g: "s_generation s \<le> s_generation u" using assms by (auto simp: later_def intro: order_trans)
  have "s_mapping_generation s < s_mapping_generation u \<or>
      s_mapping_generation s = s_mapping_generation u \<and> (\<forall>x. sm_gen s x \<le> sm_gen u x)"
  proof (cases "s_mapping_generation s = s_mapping_generation t \<and> s_mapping_generation t = s_mapping_generation u")
    case True
    have "sm_gen s x \<le> sm_gen u x" for x
      by (rule order_trans [of _ "sm_gen t x"]) (use assms True in \<open>simp_all add: later_def\<close>)
    then show ?thesis using True by simp
  next
    case False
    then show ?thesis using assms unfolding later_def by (metis less_trans)
  qed
  then show ?thesis using assms g by (simp add: later_def)
qed

lemma quiets_later:
  assumes "sparse_quiet\<^sup>*\<^sup>* s s'" and "space_ok s" and "gens_ok s"
  shows "later s s'"
  using assms(1)
proof (induction rule: rtranclp_induct)
  case base
  show ?case by (rule later_refl [OF assms(2,3)])
next
  case (step t u)
  have "later t u" using step by (intro quiet_later) (simp_all add: later_def)
  then show ?case by (rule later_trans [OF step.IH])
qed

lemma page_generation_sm: "page_base a \<noteq> 0 \<Longrightarrow> page_generation s a = sm_gen s a"
  by (simp add: page_generation_def sm_gen_def sm_slot_def page_base_alt [symmetric])

text \<open>The monitor a load-exclusive sets.\<close>

lemma gm_sparse_load_exclusive_spec:
  assumes ok: "space_ok s" and len: "unat n \<le> length buf"
    and eq: "gm_sparse_load_exclusive (Some s) a (Some buf) n (Some x0) = (GM_OK, Some s', b', Some x)"
  shows "s' = s" and "atomic_size a n" and "page_base a \<noteq> 0"
    and "x = \<lparr>ex_address = a, ex_generation = sm_gen s a, ex_mapping_generation = s_mapping_generation s,
      ex_size = n, ex_valid = True\<rparr>"
    and "b' = Some (map (\<lambda>i. sm_byte s (a + of_nat i)) [0..<unat n] @ drop (unat n) buf)"
proof -
  show at: "atomic_size a n" using eq by (auto simp: gm_sparse_load_exclusive_def split: if_splits)
  have l: "access_locked s a (Some buf) n False = (GM_OK, s', b')"
    and x: "x = \<lparr>ex_address = a, ex_generation = page_generation s' a,
      ex_mapping_generation = s_mapping_generation s', ex_size = n, ex_valid = True\<rparr>"
    using eq at by (auto simp: gm_sparse_load_exclusive_def Let_def split: prod.splits if_splits)
  note rd = access_locked_read [OF ok len l]
  show s': "s' = s" by (rule rd(1))
  have "check_access s a n GM_READ = GM_OK" using rd(2) by simp
  then have "\<forall>y. in_range a n y \<longrightarrow> sm_allowed s GM_READ y" using check_access_spec(1) [OF ok] by blast
  moreover have "in_range a n a" using atomic_size_bounds [OF at] by (simp add: in_range_def unat_gt_0)
  ultimately show b: "page_base a \<noteq> 0" using allowed_base [OF ok] by blast
  show "x = \<lparr>ex_address = a, ex_generation = sm_gen s a, ex_mapping_generation = s_mapping_generation s,
      ex_size = n, ex_valid = True\<rparr>"
    using x by (simp add: s' page_generation_sm [OF b])
  show "b' = Some (map (\<lambda>i. sm_byte s (a + of_nat i)) [0..<unat n] @ drop (unat n) buf)"
    by (rule rd(4) [OF refl])
qed

lemma init_gens_ok:
  assumes "gm_sparse_init (Some None) base sz bytes a b c d = (GM_OK, Some (Some s))"
  shows "space_ok s" and "gens_ok s"
proof -
  show ok: "space_ok s" and "gens_ok s"
    using initialize_spec [OF assms [unfolded gm_sparse_init_def]]
    by (auto simp: space_ok_def gens_ok_def sm_gen_def split: option.split)
qed

text \<open>A page written in between is younger than it was.\<close>

lemma interference_changes:
  assumes l0: "later s0 s1" and q: "sparse_quiet s1 s2" and l3: "later s2 s3" and ok0: "space_ok s0" "gens_ok s0"
    and interferes: "s_mapping_generation s2 \<noteq> s_mapping_generation s1 \<or>
      (\<exists>c k data. gm_sparse_write (Some s1) c (Some data) k = (GM_OK, Some s2) \<and> unat k \<le> length data \<and> touched c k a)"
  shows "s_mapping_generation s3 \<noteq> s_mapping_generation s0 \<or> sm_gen s3 a \<noteq> sm_gen s0 a"
proof (rule ccontr)
  assume "\<not> ?thesis"
  then have eq: "s_mapping_generation s3 = s_mapping_generation s0" "sm_gen s3 a = sm_gen s0 a" by simp_all
  have ok1: "space_ok s1" "gens_ok s1" using l0 by (simp_all add: later_def)
  have l1: "later s1 s2" by (rule quiet_later [OF q ok1])
  have le: "s_mapping_generation s0 \<le> s_mapping_generation s1" "s_mapping_generation s1 \<le> s_mapping_generation s2"
      "s_mapping_generation s2 \<le> s_mapping_generation s3"
    using l0 l1 l3 by (auto simp: later_def)
  then have same: "s_mapping_generation s1 = s_mapping_generation s0" "s_mapping_generation s2 = s_mapping_generation s0"
    using eq(1) by auto
  then obtain c k data where w: "gm_sparse_write (Some s1) c (Some data) k = (GM_OK, Some s2)"
      "unat k \<le> length data" "touched c k a"
    using interferes by auto
  have k: "k \<noteq> 0" using w(3) by (auto simp: touched_def)
  obtain b where "access_locked s1 c (Some data) k True = (GM_OK, s2, b)"
    using w(1) by (auto simp: gm_sparse_write_locked Let_def split: prod.splits)
  from access_locked_write [OF ok1(1) w(2) this]
  have g: "s_generation s2 = s_generation s1 + 1" "sm_gen s2 a = s_generation s2"
    using k w(3) by simp_all
  have "s_generation s1 \<le> s_generation s2" using q by (simp add: sparse_quiet_def)
  then have "s_generation s1 < s_generation s2" using g(1) word_Suc_neq by (simp add: order.strict_iff_order)
  moreover have "sm_gen s0 a \<le> s_generation s1"
    using ok0 l0 by (meson gens_ok_def later_def order_trans)
  moreover have "sm_gen s2 a \<le> sm_gen s3 a" using l3 same eq(1) by (auto simp: later_def)
  ultimately show False using g(2) eq(2) by simp
qed

end
