(* ===== verification/GuestSparseLaws.thy ===== *)
theory GuestSparseLaws
  imports GuestSparseOps
begin

text \<open>
  The properties of the sparse guest memory, with a small space on which they are applied: two
  backing pages, four pages of addresses, one of them mapped for reading and writing.
\<close>

section \<open>A small space\<close>

definition sparse_empty :: Space where
  "sparse_empty = \<lparr>s_base = 0x4000, s_end = 0x14000, s_generation = 0, s_mapping_generation = 0,
     s_backing = (\<lambda>_ _. 0), s_capacity = 2, s_resident = 0, s_next_backing = 0, s_slot_count = 16, s_free = [],
     s_pages = replicate 16 \<lparr>sp_address = 0, sp_generation = 0, sp_backing = 0\<rparr>, s_regions = []\<rparr>"

definition sparse_sample :: Space where
  "sparse_sample = sparse_empty\<lparr>s_mapping_generation := 1,
     s_regions := [\<lparr>rg_start = 0x8000, rg_end = 0xc000, rg_prot = 3, rg_maxprot = 7\<rparr>]\<rparr>"

lemma sparse_empty_init:
  "gm_sparse_init (Some None) 0x4000 0x10000 0x8000 True True True True = (GM_OK, Some (Some sparse_empty))"
proof -
  have "slots_for 2 16 = Some 16" by (subst slots_for.simps) simp
  then show ?thesis by (simp add: gm_sparse_init_def initialize_def sp_aligned_def sparse_empty_def)
qed

lemma sparse_sample_map:
  "gm_sparse_map (Some sparse_empty) 0x8000 0x4000 3 7 False = (GM_OK, Some sparse_sample)"
  by (simp add: gm_sparse_map_def change_def mapping_range_def sp_aligned_def sp_contains_def change_regions_def
      rg_append_def sparse_empty_def sparse_sample_def)

lemma sparse_empty_reachable: "sparse_reachable sparse_empty"
  by (rule sparse_reachable.init [OF sparse_empty_init])

lemma sparse_sample_reachable: "sparse_reachable sparse_sample"
  by (rule sparse_reachable.step [OF sparse_empty_reachable sparse_step.map [OF sparse_sample_map]])

lemmas sparse_sample_ok = sparse_reachable_ok [OF sparse_sample_reachable]

lemma gm_sparse_write_some:
  assumes "fst (gm_sparse_write (Some s) a b n) = r"
  obtains s' where "gm_sparse_write (Some s) a b n = (r, Some s')"
  using assms that by (auto simp: gm_sparse_write_locked Let_def split: prod.splits)

text \<open>The arena of the sample has room for a write within its mapped page.\<close>

lemma locked_write_ok:
  assumes ok: "space_ok s" and n: "n \<noteq> 0" and c: "check_access s a n GM_WRITE = GM_OK"
    and e: "backing_enough s (page_walk a (a + n)) 0"
  shows "card (pending s a n) \<le> s_capacity s - s_resident s"
    and "unat n \<le> length buf \<Longrightarrow> fst (access_locked s a (Some buf) n True) = GM_OK"
proof -
  have "sp_contains s a n" "\<forall>x. in_range a n x \<longrightarrow> sm_allowed s GM_WRITE x"
    using c check_access_spec(1) [OF ok] by blast+
  then show room: "card (pending s a n) \<le> s_capacity s - s_resident s"
    using e backing_enough_spec [OF sp_contains_facts(1) n allowed_base [OF ok]] by blast
  show "fst (access_locked s a (Some buf) n True) = GM_OK" if "unat n \<le> length buf"
    using access_locked_write [OF ok that] room c by (metis prod.collapse)
qed

lemma sparse_sample_walk:
  "page_walk 0x8000 (0x8000 + 1) = [0x8000]" "page_walk 0x8000 (0x8000 + 2) = [0x8000]"
  "page_walk 0x8000 (0x8000 + 8) = [0x8000]"
  by (simp_all add: page_walk_def)

lemma sparse_sample_enough: "backing_enough sparse_sample [0x8000] 0"
  by (simp add: sparse_sample_def sparse_empty_def)

lemma sparse_sample_check:
  "check_access sparse_sample 0x8000 1 p = GM_OK" "check_access sparse_sample 0x8000 2 p = GM_OK"
  "check_access sparse_sample 0x8000 8 p = GM_OK" if "p AND 3 = p"
  using that by (simp_all add: check_access_def sp_contains_def sparse_sample_def sparse_empty_def and.commute)

lemmas sparse_sample_ready =
  locked_write_ok [OF sparse_sample_ok _ sparse_sample_check(1), unfolded sparse_sample_walk, OF _ _ sparse_sample_enough]
  locked_write_ok [OF sparse_sample_ok _ sparse_sample_check(2), unfolded sparse_sample_walk, OF _ _ sparse_sample_enough]
  locked_write_ok [OF sparse_sample_ok _ sparse_sample_check(3), unfolded sparse_sample_walk, OF _ _ sparse_sample_enough]

lemma sparse_sample_write:
  "fst (gm_sparse_write (Some sparse_sample) 0x8000 (Some [7, 8]) 2) = GM_OK"
  using sparse_sample_ready(4) [of "[7, 8]"] by (auto simp: gm_sparse_write_locked Let_def split: prod.splits)

section \<open>Properties\<close>

text \<open>C2. Every space reached from \<open>gm_sparse_init\<close> or \<open>gm_sparse_init_blocks\<close> through calls of the
  interface is well formed: the regions are sorted, disjoint, page aligned, inside the space and at
  most 256; the pages in use are counted and never exceed the arena; each of them lies in a mapped
  region, and pages at different addresses never share their backing.\<close>

theorem sparse_invariant:
  assumes "sparse_reachable s"
  shows "space_ok s \<and> s_resident s \<le> s_capacity s \<and> length (s_regions s) \<le> 256 \<and>
    (\<forall>x i. sm_slot s x = Some i \<longrightarrow> sm_attr s x \<noteq> None) \<and>
    (\<forall>x y i j. sm_slot s x = Some i \<longrightarrow> sm_slot s y = Some j \<longrightarrow> page_base x \<noteq> page_base y \<longrightarrow>
      sp_backing (s_pages s ! i) \<noteq> sp_backing (s_pages s ! j))"
proof -
  have ok: "space_ok s" by (rule sparse_reachable_ok [OF assms])
  then have st: "store_ok s" by (rule space_ok_store)
  then have tab: "table_ok (s_slot_count s) (s_pages s)" and ar: "arena_ok s" by (simp_all add: store_ok_def)
  have "s_resident s \<le> s_capacity s" using arena_counts [OF ar] ar by (simp add: arena_ok_def)
  moreover have "sp_backing (s_pages s ! i) \<noteq> sp_backing (s_pages s ! j)"
    if x: "sm_slot s x = Some i" and y: "sm_slot s y = Some j" and ne: "page_base x \<noteq> page_base y" for x y i j
  proof (rule backing_injective [OF tab ar _ sm_slot_live [OF st x] _ sm_slot_live [OF st y]])
    show "i < s_slot_count s" "j < s_slot_count s" "i \<noteq> j"
      using x y ne by (auto simp: sm_slot_iff [OF st])
  qed
  ultimately show ?thesis using ok space_ok_regions(4) [OF ok] by (auto simp: space_ok_def)
qed

theorem sparse_invariant_witness: "sparse_reachable sparse_sample \<and> space_ok sparse_sample"
  using sparse_invariant [OF sparse_sample_reachable] sparse_sample_reachable by simp

text \<open>C8. \<open>change\<close>, the body of \<open>gm_sparse_map\<close>, \<open>gm_sparse_unmap\<close> and \<open>gm_sparse_protect\<close>, refines the
  update of a map from addresses to protections: on success the addresses of the range get the new
  attributes and all others keep theirs, a mapping or unmapping clears the bytes of the range and a
  protection change keeps them, and the mapping generation advances; on failure the space is
  unchanged and the error is the first that applies.\<close>

theorem sparse_change_correct:
  assumes "space_ok s" and "change (Some s) a n prot maxprot replace op = (r, m)"
  shows "\<exists>s'. m = Some s' \<and> space_ok s' \<and>
    (if r = GM_OK
     then mapping_range s a n \<and>
       (\<forall>x. sm_attr s' x = (if in_range a n x then changed_attr op prot maxprot (sm_attr s x) else sm_attr s x)) \<and>
       (\<forall>x. sm_byte s' x = (if in_range a n x \<and> op \<noteq> PROTECT then 0 else sm_byte s x)) \<and>
       s_mapping_generation s' = s_mapping_generation s + 1
     else s' = s \<and> change_denied s a n prot maxprot replace op r)"
  using change_spec [OF assms] by auto

theorem sparse_change_correct_witness:
  "\<exists>s'. space_ok s' \<and> sm_attr s' 0x8000 = None \<and> sm_attr sparse_sample 0x8000 = Some (3, 7)"
proof -
  obtain r m where eq: "change (Some sparse_sample) 0x8000 0x4000 0 0 False UNMAP = (r, m)" by (metis prod.exhaust)
  have "r = GM_OK"
    using eq by (auto simp: change_def mapping_range_def sp_aligned_def sp_contains_def change_regions_def
        rg_append_def sparse_empty_def sparse_sample_def Let_def)
  moreover have "in_range 0x8000 0x4000 0x8000" by (simp add: in_range_def)
  moreover have "sm_attr sparse_sample 0x8000 = Some (3, 7)"
    by (simp add: sm_attr_def sparse_sample_def rg_at_def rg_has_def rg_attr_def)
  ultimately show ?thesis
    using sparse_change_correct [OF sparse_sample_ok eq] by (auto simp: changed_attr_def)
qed

text \<open>A write either fails, with the space unchanged, or replaces exactly the bytes of its
  range. It fails exactly when the range leaves the space, when a byte of it is not writable, or
  when the arena has fewer free pages than the write needs.\<close>

theorem sparse_write_atomic:
  assumes ok: "space_ok s" and len: "unat n \<le> length buf"
    and eq: "gm_sparse_write (Some s) a (Some buf) n = (r, m)"
  shows "\<exists>s'. m = Some s' \<and> space_ok s' \<and> sm_attr s' = sm_attr s \<and>
    (r = GM_OK \<longleftrightarrow> sp_contains s a n \<and> (\<forall>x. in_range a n x \<longrightarrow> sm_allowed s GM_WRITE x) \<and>
      card (pending s a n) \<le> s_capacity s - s_resident s) \<and>
    (r \<noteq> GM_OK \<longrightarrow> s' = s) \<and>
    (r = GM_OK \<longrightarrow> (\<forall>x. sm_byte s' x = (if in_range a n x then buf ! unat (x - a) else sm_byte s x)))"
proof -
  obtain s' b where w: "access_locked s a (Some buf) n True = (r, s', b)" and m: "m = Some s'"
    using eq by (auto simp: gm_sparse_write_locked Let_def split: prod.splits)
  note spec = access_locked_write [OF ok len w]
  have "sm_attr s' = sm_attr s" using spec same_map_views(1) by blast
  then show ?thesis using spec m check_access_spec(1) [OF ok, of a n GM_WRITE] by (auto split: if_splits)
qed

theorem sparse_write_atomic_witness:
  "\<exists>s'. gm_sparse_write (Some sparse_sample) 0x8000 (Some [7, 8]) 2 = (GM_OK, Some s') \<and>
    sm_byte s' 0x8001 = 8 \<and> sm_byte s' 0x8002 = 0"
proof -
  obtain r m where eq: "gm_sparse_write (Some sparse_sample) 0x8000 (Some [7, 8]) 2 = (r, m)" by (metis prod.exhaust)
  have len: "unat (2 :: u64) \<le> length [7, 8 :: u8]" by simp
  note t = sparse_write_atomic [OF sparse_sample_ok len eq]
  have "r = GM_OK" using eq sparse_sample_write by simp
  moreover have "sm_byte sparse_sample 0x8002 = 0" by code_simp
  ultimately show ?thesis using t eq by (auto simp: in_range_def)
qed

text \<open>A read of a range that was just written returns the bytes written, when the range is
  readable as well.\<close>

theorem sparse_read_after_write:
  assumes ok: "space_ok s" and len: "length bs < 2 ^ 64"
    and w: "gm_sparse_write (Some s) a (Some bs) (word_length bs) = (GM_OK, Some s')"
    and rd: "\<forall>x. in_range a (word_length bs) x \<longrightarrow> sm_allowed s GM_READ x"
  shows "gm_sparse_read (Some s') a (Some (replicate (length bs) 0)) (word_length bs) = (GM_OK, Some s', Some bs)"
proof -
  have st: "sm_store s a bs = (GM_OK, s')" using w by (simp add: sm_store_def)
  obtain s'' where l: "sm_load s' a (word_length bs) = (GM_OK, s'', bs)"
    using sm.load_after_store [OF ok len st rd] by blast
  have ok': "space_ok s'" using sm.store_keeps [OF ok len st] by blast
  have "s'' = s'" by (rule sm_load_spec(1) [OF ok' l])
  obtain b where b: "access_locked s' a (Some (replicate (length bs) 0)) (word_length bs) False = (GM_OK, s', b)"
      "the b = bs"
    using l \<open>s'' = s'\<close> len
    by (auto simp: sm_load_def gm_sparse_read_locked Let_def unat_of_nat_u64 split: prod.splits)
  have "unat (word_length bs) \<le> length (replicate (length bs) (0 :: u8))" using len by (simp add: unat_of_nat_u64)
  then have "b \<noteq> None" using access_locked_read(4) [OF ok' _ b(1) refl] by simp
  then show ?thesis using b by (auto simp: gm_sparse_read_locked)
qed

theorem sparse_read_after_write_witness:
  "\<exists>s'. gm_sparse_read (Some s') 0x8000 (Some [0, 0]) 2 = (GM_OK, Some s', Some [7, 8])"
proof -
  obtain m where w: "gm_sparse_write (Some sparse_sample) 0x8000 (Some [7, 8]) 2 = (GM_OK, Some m)"
    by (rule gm_sparse_write_some [OF sparse_sample_write])
  have wl: "word_length [7, 8 :: u8] = 2" by simp
  have "sp_contains sparse_sample 0x8000 2 \<and> (\<forall>x. in_range 0x8000 2 x \<longrightarrow> sm_allowed sparse_sample GM_READ x)"
    unfolding check_access_spec(1) [OF sparse_sample_ok, symmetric] by (simp add: sparse_sample_check)
  then have "gm_sparse_read (Some m) 0x8000 (Some (replicate (length [7, 8 :: u8]) 0)) (word_length [7, 8 :: u8]) =
      (GM_OK, Some m, Some [7, 8])"
    using w by (intro sparse_read_after_write [OF sparse_sample_ok]) (simp_all add: wl)
  moreover have "replicate (length [7, 8 :: u8]) (0 :: u8) = [0, 0]" by (simp add: eval_nat_numeral)
  ultimately show ?thesis unfolding wl by auto
qed

text \<open>\<open>gm_sparse_find_free\<close> returns the lowest page-aligned free range of the size asked for, and
  reports that memory is exhausted only when there is none.\<close>

theorem sparse_find_free_first_fit:
  assumes "space_ok s" and "gm_sparse_find_free (Some s) sz True = (r, out)"
  shows "(r = GM_INVALID \<longleftrightarrow> \<not> sp_aligned 0 sz) \<and>
    (r = GM_OK \<longrightarrow> (\<exists>f. out = Some f \<and> mapping_range s f sz \<and> (\<forall>x. in_range f sz x \<longrightarrow> sm_attr s x = None) \<and>
      (\<forall>y. mapping_range s y sz \<longrightarrow> (\<forall>x. in_range y sz x \<longrightarrow> sm_attr s x = None) \<longrightarrow> f \<le> y))) \<and>
    (r = GM_NOMEM \<longrightarrow> (\<forall>y. mapping_range s y sz \<longrightarrow> (\<exists>x. in_range y sz x \<and> sm_attr s x \<noteq> None))) \<and>
    (r = GM_OK \<or> r = GM_INVALID \<or> r = GM_NOMEM) \<and> (r \<noteq> GM_OK \<longrightarrow> out = None)"
  using find_free_spec [OF assms] .

theorem sparse_find_free_first_fit_witness:
  "gm_sparse_find_free (Some sparse_sample) 0x8000 True = (GM_OK, Some 0xc000) \<and>
    mapping_range sparse_sample 0xc000 0x8000"
proof -
  have eq: "gm_sparse_find_free (Some sparse_sample) 0x8000 True = (GM_OK, Some 0xc000)" by code_simp
  show ?thesis using sparse_find_free_first_fit [OF sparse_sample_ok eq] eq by simp
qed


lemma sparse_sample_quiet: "sparse_quiet sparse_empty sparse_sample"
  using sparse_step.map [OF sparse_sample_map]
  by (simp add: sparse_quiet_def sparse_empty_def sparse_sample_def)

lemma sparse_sample_load:
  obtains b x where "gm_sparse_load_exclusive (Some sparse_sample) 0x8000 (Some (replicate 8 0)) 8
      (Some \<lparr>ex_address = 0, ex_generation = 0, ex_mapping_generation = 0, ex_size = 0, ex_valid = False\<rparr>) =
    (GM_OK, Some sparse_sample, b, Some x)"
proof -
  have c: "check_access sparse_sample 0x8000 8 GM_READ = GM_OK" by (simp add: sparse_sample_check)
  obtain r s b where l: "access_locked sparse_sample 0x8000 (Some (replicate 8 0)) 8 False = (r, s, b)"
    by (metis prod_cases3)
  have "r = GM_OK" "s = sparse_sample" using access_locked_read(1,2) [OF sparse_sample_ok _ l] c by simp_all
  moreover have "atomic_size 0x8000 8" by code_simp
  ultimately show thesis using l that by (simp add: gm_sparse_load_exclusive_def)
qed




text \<open>\<open>gm_sparse_compare_exchange\<close> needs the range readable and writable, returns the bytes that
  were there, and replaces them exactly when they equal the expected ones.\<close>

theorem sparse_compare_exchange_correct:
  assumes ok: "space_ok s" and sz: "atomic_size a n" "unat n \<le> length d"
    and eq: "gm_sparse_compare_exchange (Some s) a (Some e) (Some d) True n = (r, m, old)"
  shows "\<exists>s'. m = Some s' \<and> space_ok s' \<and>
    (r = GM_OK \<longrightarrow> sp_contains s a n \<and> (\<forall>x. in_range a n x \<longrightarrow> sm_allowed s (GM_READ OR GM_WRITE) x) \<and>
      old = Some (map (\<lambda>i. sm_byte s (a + of_nat i)) [0..<unat n]) \<and>
      (\<forall>x. sm_byte s' x = (if old = Some (take (unat n) e) \<and> in_range a n x then d ! unat (x - a) else sm_byte s x))) \<and>
    (r \<noteq> GM_OK \<longrightarrow> s' = s \<and> old = None)"
proof -
  note steps = gm_sparse_compare_exchange_steps [OF ok TrueI sz(1) eq]
  have c: "check_access s a n (GM_READ OR GM_WRITE) = GM_OK \<Longrightarrow>
      sp_contains s a n \<and> (\<forall>x. in_range a n x \<longrightarrow> sm_allowed s (GM_READ OR GM_WRITE) x)"
    using check_access_spec(1) [OF ok] by blast
  show ?thesis
  proof (cases "check_access s a n (GM_READ OR GM_WRITE) = GM_OK \<and>
      map (\<lambda>i. sm_byte s (a + of_nat i)) [0..<unat n] = take (unat n) e")
    case True
    then obtain s' b where w: "m = Some s'" "access_locked s a (Some d) n True = (r, s', b)"
        "old = (if r = GM_OK then Some (take (unat n) e) else None)"
      using steps by auto
    then show ?thesis using access_locked_write [OF ok sz(2) w(2)] c True by (auto split: if_splits)
  next
    case False
    then show ?thesis using steps ok c by (auto split: if_splits)
  qed
qed

theorem sparse_compare_exchange_correct_witness:
  "\<exists>s'. space_ok s' \<and> sm_byte s' 0x8000 = 9"
proof -
  obtain r m old where eq: "gm_sparse_compare_exchange (Some sparse_sample) 0x8000 (Some [0]) (Some [9]) True 1 = (r, m, old)"
    by (metis prod_cases3)
  have sz: "atomic_size 0x8000 1" "unat (1 :: u64) \<le> length [9 :: u8]" by (code_simp, simp)
  have r: "r = GM_OK"
    using gm_sparse_compare_exchange_steps [OF sparse_sample_ok TrueI sz(1) eq] sparse_sample_ready(2) [of "[9]"]
    by (auto simp: sparse_sample_check split: if_splits)
  obtain s' where s': "space_ok s'" "old = Some (map (\<lambda>i. sm_byte sparse_sample (0x8000 + of_nat i)) [0..<unat (1 :: u64)])"
      "sm_byte s' 0x8000 = (if old = Some (take (unat (1 :: u64)) [0]) \<and> in_range 0x8000 1 0x8000
        then [9] ! unat (0x8000 - 0x8000 :: u64) else sm_byte sparse_sample 0x8000)"
    using sparse_compare_exchange_correct [OF sparse_sample_ok sz eq] r by blast
  moreover have "sm_byte sparse_sample 0x8000 = 0" by code_simp
  ultimately have "sm_byte s' 0x8000 = 9" by (simp add: in_range_def)
  then show ?thesis using s'(1) by blast
qed

text \<open>The results of the read-modify-write operations on integers of \<open>bits\<close> bits.\<close>

definition atomic_result :: "GMSparseAtomic \<Rightarrow> nat \<Rightarrow> u64 \<Rightarrow> u64 \<Rightarrow> u64" where
  "atomic_result operation bits old v =
     (case operation of
        GM_ATOMIC_ADD \<Rightarrow> take_bit bits (old + v)
      | GM_ATOMIC_CLEAR \<Rightarrow> old AND NOT v
      | GM_ATOMIC_XOR \<Rightarrow> old XOR v
      | GM_ATOMIC_SET \<Rightarrow> old OR v
      | GM_ATOMIC_SIGNED_MAX \<Rightarrow> if sint (sign_extend v bits) < sint (sign_extend old bits) then old else v
      | GM_ATOMIC_SIGNED_MIN \<Rightarrow> if sint (sign_extend old bits) < sint (sign_extend v bits) then old else v
      | GM_ATOMIC_UNSIGNED_MAX \<Rightarrow> max old v
      | GM_ATOMIC_UNSIGNED_MIN \<Rightarrow> min old v
      | GM_ATOMIC_SWAP \<Rightarrow> v)"

lemma atomic_value_result:
  assumes "0 < bits" "bits \<le> 64" and "take_bit bits old = old" and "take_bit bits v = v"
  shows "take_bit bits (atomic_value operation (push_bit (bits - 1) 1) old v) = atomic_result operation bits old v"
proof -
  have "i < bits" if "bit old i" for i using that assms(3) by (metis bit_take_bit_iff)
  then have "take_bit bits (old AND NOT v) = old AND NOT v"
    by (intro bit_word_eqI) (auto simp: bit_simps)
  then show ?thesis
    using assms(3,4) signed_order [OF assms(1,2,3,4)] signed_order [OF assms(1,2,4,3)]
    by (cases operation)
      (simp_all add: atomic_value_def atomic_result_def max_def min_def take_bit_or take_bit_xor not_le
        del: push_bit_of_1, auto)
qed

lemma atomic_mask_take_bit:
  assumes "unat n \<le> 8"
  shows "v AND atomic_mask n = take_bit (unat n * 8) v"
proof (cases "n = 8")
  case True
  have "take_bit 64 v = v" by (rule bit_word_eqI) (simp add: bit_take_bit_iff)
  then show ?thesis using True by (simp add: atomic_mask_def)
next
  case False
  then show ?thesis by (simp add: atomic_mask_def take_bit_eq_mask mask_eq_exp_minus_1)
qed

text \<open>\<open>gm_sparse_atomic\<close> returns the little-endian integer at the address and stores the result of
  the operation reduced to the size of the access; the signed minimum and maximum, computed through
  the flipped sign bit, are those of the two's complement values.\<close>

theorem sparse_atomic_correct:
  assumes ok: "space_ok s" and sz: "atomic_size a n" "n \<le> 8"
    and eq: "gm_sparse_atomic (Some s) a n operation v True = (r, m, old)"
  defines "k \<equiv> unat n"
  defines "before \<equiv> scalar_value (map (\<lambda>i. sm_byte s (a + of_nat i)) [0..<k]) k"
  shows "\<exists>s'. m = Some s' \<and> space_ok s' \<and> (r \<noteq> GM_OK \<longrightarrow> s' = s \<and> old = None) \<and>
    (r = GM_OK \<longrightarrow> old = Some before \<and>
      scalar_value (map (\<lambda>i. sm_byte s' (a + of_nat i)) [0..<k]) k =
        atomic_result operation (k * 8) before (take_bit (k * 8) v) \<and>
      (\<forall>x. \<not> in_range a n x \<longrightarrow> sm_byte s' x = sm_byte s x))"
proof -
  have k: "k \<le> 8" "0 < k" using sz atomic_size_bounds [OF sz(1)] by (simp_all add: k_def word_nat unat_gt_0)
  note mask = atomic_mask_take_bit [OF k(1) [unfolded k_def], folded k_def]
  define after where "after = atomic_value operation (push_bit (k * 8 - 1) 1) before (take_bit (k * 8) v)"
  note steps = gm_sparse_atomic_steps [OF ok TrueI sz(2,1) eq, folded k_def, folded before_def, unfolded mask, folded after_def]
  show ?thesis
  proof (cases "check_access s a n GM_READ = GM_OK")
    case False
    then show ?thesis using steps ok by (auto simp: check_access_def)
  next
    case True
    then obtain s' b where w: "m = Some s'" "old = (if r = GM_OK then Some before else None)"
        "access_locked s a (Some (scalar_bytes after k @ replicate (8 - k) 0)) n True = (r, s', b)"
      using steps by auto
    have len: "unat n \<le> length (scalar_bytes after k @ replicate (8 - k) 0)" using k by (simp add: k_def)
    note spec = access_locked_write [OF ok len w(3)]
    have "scalar_value (map (\<lambda>i. sm_byte s' (a + of_nat i)) [0..<k]) k = take_bit (k * 8) after" if "r = GM_OK"
    proof -
      have "sm_byte s' (a + of_nat i) = scalar_bytes after k ! i" if "i < k" for i
        using spec \<open>r = GM_OK\<close> in_range_plus [of i n a] that by (simp add: k_def nth_append)
      then have "scalar_value (map (\<lambda>i. sm_byte s' (a + of_nat i)) [0..<k]) k = scalar_value (scalar_bytes after k) k"
        by (intro scalar_value_cong) simp
      then show ?thesis by (simp add: scalar_value_bytes)
    qed
    moreover have "take_bit (k * 8) after = atomic_result operation (k * 8) before (take_bit (k * 8) v)"
      unfolding after_def using k by (intro atomic_value_result) (simp_all add: before_def scalar_value_take_bit)
    ultimately show ?thesis using w(1,2) spec by auto
  qed
qed

theorem sparse_atomic_correct_witness:
  "\<exists>s'. space_ok s' \<and> scalar_value (map (\<lambda>i. sm_byte s' (0x8000 + of_nat i)) [0..<1]) 1 = 0xff"
proof -
  obtain r m old where eq: "gm_sparse_atomic (Some sparse_sample) 0x8000 1 GM_ATOMIC_SIGNED_MIN 0x1ff True = (r, m, old)"
    by (metis prod_cases3)
  have at: "atomic_size 0x8000 1" by code_simp
  have r: "r = GM_OK"
  proof -
    obtain s' b v where "access_locked sparse_sample 0x8000 (Some (scalar_bytes v (Suc 0) @ replicate 7 0)) 1 True = (r, s', b)"
      using gm_sparse_atomic_steps [OF sparse_sample_ok TrueI _ at eq] by (auto simp: sparse_sample_check)
    then show ?thesis using sparse_sample_ready(2) [of "scalar_bytes v (Suc 0) @ replicate 7 0"] by simp
  qed
  from at obtain s' where s': "space_ok s'"
      "scalar_value (map (\<lambda>i. sm_byte s' (0x8000 + of_nat i)) [0..<1]) 1 =
        atomic_result GM_ATOMIC_SIGNED_MIN 8 (scalar_value (map (\<lambda>i. sm_byte sparse_sample (0x8000 + of_nat i)) [0..<1]) 1)
          (take_bit 8 0x1ff)"
    using sparse_atomic_correct [OF sparse_sample_ok _ _ eq] r by auto
  moreover have "atomic_result GM_ATOMIC_SIGNED_MIN 8
      (scalar_value (map (\<lambda>i. sm_byte sparse_sample (0x8000 + of_nat i)) [0..<1]) 1) (take_bit 8 0x1ff) = 0xff"
    by code_simp
  ultimately show ?thesis by auto
qed

end
