(* ===== verification/GuestMemoryInstruction.thy ===== *)
theory GuestMemoryInstruction
  imports GuestSparseOps
begin

text \<open>
  The data-access instructions of \<open>runtime/GuestMemoryInstruction.c\<close>: loads and stores of one
  register or a pair, SIMD structure accesses, ordered accesses, compare-and-swap and the atomic
  read-modify-write instructions, executed on the sparse guest memory.

  A vector register is the list of its bytes, the register arrays are functions from the register
  number. The functions return, beside the step result, the memory, the registers and the value
  written through the \<open>fault\<close> pointer, \<open>None\<close> when nothing is written.
\<close>

section \<open>State\<close>

record GMMemoryRegisters =
  mx :: "nat \<Rightarrow> u64"
  msp :: u64
  mpc :: u64
  mvector :: "nat \<Rightarrow> u8 list"

datatype GMMemoryStep = GM_STEP_OK | GM_STEP_UNSUPPORTED | GM_STEP_FAULT

type_synonym step_result = "GMMemoryStep \<times> Space option \<times> GMMemoryRegisters \<times> GMResult option"

definition extend_value :: "u64 \<Rightarrow> nat \<Rightarrow> u64" where
  "extend_value value bits = (let sign = push_bit (bits - 1) 1 in (value XOR sign) - sign)"

definition mget :: "GMMemoryRegisters \<Rightarrow> nat \<Rightarrow> bool \<Rightarrow> u64" where
  "mget r index stack = (if index < 31 then mx r index else if stack then msp r else 0)"

text \<open>A field of an instruction word, \<open>(i >> s) & m\<close>, and one of its bits.\<close>

definition ifield :: "u32 \<Rightarrow> nat \<Rightarrow> u32 \<Rightarrow> nat" where
  "ifield i s m = unat (drop_bit s i AND m)"

definition ibit :: "u32 \<Rightarrow> nat \<Rightarrow> bool" where
  "ibit i k \<longleftrightarrow> drop_bit k i AND 1 \<noteq> 0"

text \<open>The address of an access written back to its base register, and the advance of the PC.\<close>

definition set_base :: "GMMemoryRegisters \<Rightarrow> nat \<Rightarrow> u64 \<Rightarrow> GMMemoryRegisters" where
  "set_base r rn v = (if rn = 31 then r\<lparr>msp := v\<rparr> else r\<lparr>mx := (mx r)(rn := v)\<rparr>)"

definition set_x :: "GMMemoryRegisters \<Rightarrow> nat \<Rightarrow> u64 \<Rightarrow> GMMemoryRegisters" where
  "set_x r k v = (if k \<noteq> 31 then r\<lparr>mx := (mx r)(k := v)\<rparr> else r)"

definition retire :: "GMMemoryRegisters \<Rightarrow> GMMemoryRegisters" where
  "retire r = r\<lparr>mpc := mpc r + 4\<rparr>"

section \<open>SIMD structures\<close>

text \<open>The shape of a structure access; \<open>None\<close> when the encoding is not supported.\<close>

record Structure =
  st_element :: nat
  st_registers :: nat
  st_repeats :: nat
  st_lane :: nat
  st_replicate :: bool

definition structure_single :: "u32 \<Rightarrow> Structure option" where
  "structure_single i =
     (let op = ifield i 13 7; s = ifield i 12 1; scale = op div 2; size = ifield i 10 3;
          q = ifield i 30 1; load = ibit i 22;
          registers = (op mod 2) * 2 + ifield i 21 1 + 1;
          shape = (\<lambda>element lane rep. \<lparr>st_element = element, st_registers = registers, st_repeats = 1,
                     st_lane = lane, st_replicate = rep\<rparr>)
      in if scale = 3 then
           (if \<not> load \<or> s \<noteq> 0 then None else Some (shape (2 ^ size) 0 True))
         else if scale = 0 then Some (shape 1 (q * 8 + s * 4 + size) False)
         else if scale = 1 then
           (if size mod 2 \<noteq> 0 then None else Some (shape 2 (q * 4 + s * 2 + size div 2) False))
         else
           (if 2 \<le> size \<or> size mod 2 \<noteq> 0 \<and> s \<noteq> 0 then None
            else if size mod 2 \<noteq> 0 then Some (shape 8 q False) else Some (shape 4 (q * 2 + s) False)))"

definition structure_multiple :: "u32 \<Rightarrow> Structure option" where
  "structure_multiple i =
     (let size = ifield i 10 3; q = ibit i 30; kind = ifield i 12 15;
          shape = (\<lambda>registers repeats.
            if size = 3 \<and> \<not> q \<and> registers \<noteq> 1 then None
            else Some \<lparr>st_element = 2 ^ size, st_registers = registers, st_repeats = repeats,
                       st_lane = 0, st_replicate = False\<rparr>)
      in if ibit i 21 then None
         else if kind = 0 then shape 4 1
         else if kind = 2 then shape 1 4
         else if kind = 4 then shape 3 1
         else if kind = 6 then shape 1 3
         else if kind = 7 then shape 1 1
         else if kind = 8 then shape 2 1
         else if kind = 10 then shape 1 2
         else None)"

definition structure_shape :: "u32 \<Rightarrow> Structure option" where
  "structure_shape i =
     (let single = ibit i 24; post = ibit i 23; rm = ifield i 16 31
      in if i AND 0xbf000000 \<noteq> (if single then 0x0d000000 else 0x0c000000) \<or> \<not> post \<and> rm \<noteq> 0 then None
         else if single then structure_single i else structure_multiple i)"

definition structure_lanes :: "u32 \<Rightarrow> Structure \<Rightarrow> nat" where
  "structure_lanes i p = (if ibit i 24 then 1 else (if ibit i 30 then 16 else 8) div st_element p)"

definition structure_total :: "u32 \<Rightarrow> Structure \<Rightarrow> nat" where
  "structure_total i p = st_registers p * st_repeats p * structure_lanes i p * st_element p"

text \<open>The elements in the order of the three nested loops: the register, the position in it, and the
  offset in the buffer.\<close>

definition structure_elements :: "u32 \<Rightarrow> Structure \<Rightarrow> (nat \<times> nat) list" where
  "structure_elements i p =
     concat (map (\<lambda>rep. concat (map (\<lambda>e. map (\<lambda>g.
       ((ifield i 0 31 + rep * st_registers p + g) mod 32,
        (if ibit i 24 then st_lane p else e) * st_element p))
       [0..<st_registers p]) [0..<structure_lanes i p])) [0..<st_repeats p])"

text \<open>The body of the innermost loop of a load, of a replicating load and of a store.\<close>

definition load_element :: "Structure \<Rightarrow> nat \<Rightarrow> u8 list \<Rightarrow> (nat \<Rightarrow> u8 list) \<Rightarrow> nat \<Rightarrow> nat \<Rightarrow> nat
    \<Rightarrow> nat \<Rightarrow> u8 list" where
  "load_element p vector_bytes bytes vectors offset index position =
     (let src = take (st_element p) (drop offset bytes)
      in if st_replicate p
         then vectors(index := foldl (\<lambda>v k. buffer_write v (k * st_element p) src) (vectors index)
                       [0..<vector_bytes div st_element p])
         else vectors(index := buffer_write (vectors index) position src))"

fun structure_load :: "Structure \<Rightarrow> nat \<Rightarrow> u8 list \<Rightarrow> (nat \<times> nat) list \<Rightarrow> nat \<Rightarrow> (nat \<Rightarrow> u8 list)
    \<Rightarrow> nat \<Rightarrow> u8 list" where
  "structure_load p vector_bytes bytes [] offset vectors = vectors"
| "structure_load p vector_bytes bytes ((index, position) # es) offset vectors =
     structure_load p vector_bytes bytes es (offset + st_element p)
       (load_element p vector_bytes bytes vectors offset index position)"

fun structure_store :: "Structure \<Rightarrow> (nat \<Rightarrow> u8 list) \<Rightarrow> (nat \<times> nat) list \<Rightarrow> nat \<Rightarrow> u8 list \<Rightarrow> u8 list" where
  "structure_store p vectors [] offset bytes = bytes"
| "structure_store p vectors ((index, position) # es) offset bytes =
     structure_store p vectors es (offset + st_element p)
       (buffer_write bytes offset (take (st_element p) (drop position (vectors index))))"

text \<open>The clearing of the registers a load replaces.\<close>

definition clear_vectors :: "nat \<Rightarrow> nat \<Rightarrow> (nat \<Rightarrow> u8 list) \<Rightarrow> nat \<Rightarrow> u8 list" where
  "clear_vectors rt cnt vectors =
     foldl (\<lambda>v n. v((rt + n) mod 32 := replicate 16 0)) vectors [0..<cnt]"

definition structure_step :: "Space option \<Rightarrow> u32 \<Rightarrow> GMMemoryRegisters \<Rightarrow> step_result" where
  "structure_step memory i r =
     (case structure_shape i of
        None \<Rightarrow> (GM_STEP_UNSUPPORTED, memory, r, None)
      | Some p \<Rightarrow>
          let rt = ifield i 0 31; rn = ifield i 5 31; rm = ifield i 16 31;
              single = ibit i 24; post = ibit i 23; load = ibit i 22;
              vector_bytes = (if ibit i 30 then 16 else 8);
              total = structure_total i p; address = mget r rn True; elements = structure_elements i p;
              done = (\<lambda>r. retire (if post
                        then set_base r rn (address + (if rm = 31 then of_nat total else mget r rm False)) else r))
          in if load then
               (let (f, memory, bytes) = gm_sparse_read memory address (Some (replicate 64 0)) (of_nat total)
                in if f \<noteq> GM_OK then (GM_STEP_FAULT, memory, r, Some f)
                   else let vectors = (if \<not> single \<or> st_replicate p
                              then clear_vectors rt (st_registers p * st_repeats p) (mvector r) else mvector r);
                            vectors = structure_load p vector_bytes (the bytes) elements 0 vectors
                   in (GM_STEP_OK, memory, done (r\<lparr>mvector := vectors\<rparr>), Some f))
             else
               (let bytes = structure_store p (mvector r) elements 0 (replicate 64 0);
                    (f, memory) = gm_sparse_write memory address (Some bytes) (of_nat total)
                in if f \<noteq> GM_OK then (GM_STEP_FAULT, memory, r, Some f)
                   else (GM_STEP_OK, memory, done r, Some f)))"

section \<open>Atomic instructions\<close>

text \<open>The operations of the encoding, \<open>(GMSparseAtomic)op\<close> for \<open>op\<close> at most 8.\<close>

definition atomic_operation :: "nat \<Rightarrow> GMSparseAtomic" where
  "atomic_operation op =
     [GM_ATOMIC_ADD, GM_ATOMIC_CLEAR, GM_ATOMIC_XOR, GM_ATOMIC_SET, GM_ATOMIC_SIGNED_MAX,
      GM_ATOMIC_SIGNED_MIN, GM_ATOMIC_UNSIGNED_MAX, GM_ATOMIC_UNSIGNED_MIN, GM_ATOMIC_SWAP] ! op"

definition casp_step :: "Space option \<Rightarrow> u32 \<Rightarrow> GMMemoryRegisters \<Rightarrow> step_result" where
  "casp_step m i r =
     (let rt = ifield i 0 31; rn = ifield i 5 31; rs = ifield i 16 31; address = mget r rn True
      in if odd rs \<or> odd rt then (GM_STEP_UNSUPPORTED, m, r, None)
         else let sz = (if ibit i 30 then 8 else 4);
                  two = (\<lambda>k. scalar_bytes (mget r k False) sz @ scalar_bytes (mget r (k + 1) False) sz);
                  (f, m, old) = gm_sparse_compare_exchange m address (Some (two rs)) (Some (two rt)) True (of_nat (sz * 2))
         in if f \<noteq> GM_OK then (GM_STEP_FAULT, m, r, Some f)
            else let r = set_x r rs (scalar_value (the old) sz);
                     r = set_x r (rs + 1) (scalar_value (drop sz (the old)) sz)
            in (GM_STEP_OK, m, retire r, Some f))"

definition cas_step :: "Space option \<Rightarrow> u32 \<Rightarrow> GMMemoryRegisters \<Rightarrow> step_result" where
  "cas_step m i r =
     (let rt = ifield i 0 31; rn = ifield i 5 31; rs = ifield i 16 31; sz = 2 ^ unat (drop_bit 30 i);
          (f, m, old) = gm_sparse_compare_exchange m (mget r rn True) (Some (scalar_bytes (mget r rs False) sz))
             (Some (scalar_bytes (mget r rt False) sz)) True (of_nat sz)
      in if f \<noteq> GM_OK then (GM_STEP_FAULT, m, r, Some f)
         else (GM_STEP_OK, m, retire (set_x r rs (scalar_value (the old) sz)), Some f))"

definition rmw_step :: "Space option \<Rightarrow> u32 \<Rightarrow> GMMemoryRegisters \<Rightarrow> step_result" where
  "rmw_step m i r =
     (let rt = ifield i 0 31; rn = ifield i 5 31; rs = ifield i 16 31; sz = 2 ^ unat (drop_bit 30 i);
          op = ifield i 12 15
      in if 8 < op then (GM_STEP_UNSUPPORTED, m, r, None)
         else let (f, m, old) = gm_sparse_atomic m (mget r rn True) (of_nat sz) (atomic_operation op) (mget r rs False) True
         in if f \<noteq> GM_OK then (GM_STEP_FAULT, m, r, Some f)
            else (GM_STEP_OK, m, retire (set_x r rt (the old)), Some f))"

definition atomic_step :: "Space option \<Rightarrow> u32 \<Rightarrow> GMMemoryRegisters \<Rightarrow> step_result" where
  "atomic_step m i r =
     (if i AND 0xbfa07c00 = 0x08207c00 then casp_step m i r
      else if i AND 0x3fa07c00 = 0x08a07c00 then cas_step m i r
      else if i AND 0x3f200c00 = 0x38200000 then rmw_step m i r
      else (GM_STEP_UNSUPPORTED, m, r, None))"

section \<open>Loads and stores\<close>

text \<open>What the decoding of a plain access determines.\<close>

record Access =
  ac_load :: bool
  ac_pair :: bool
  ac_sign :: bool
  ac_writeback :: bool
  ac_size :: nat
  ac_rt2 :: nat
  ac_width :: nat
  ac_address :: u64
  ac_newbase :: u64

definition rcpc_load :: "u32 \<Rightarrow> bool" where
  "rcpc_load i \<longleftrightarrow> i AND 0x3ffffc00 = 0x38bfc000"

definition atomic_instruction :: "u32 \<Rightarrow> bool" where
  "atomic_instruction i \<longleftrightarrow> \<not> rcpc_load i \<and>
     (i AND 0xbfa07c00 = 0x08207c00 \<or> i AND 0x3fa07c00 = 0x08a07c00 \<or> i AND 0x3f200c00 = 0x38200000)"

text \<open>\<open>LDAR\<close>, \<open>STLR\<close> and \<open>LDAPR\<close>; a misaligned one faults.\<close>

definition decode_ordered :: "u32 \<Rightarrow> GMMemoryRegisters \<Rightarrow> GMMemoryStep + Access" where
  "decode_ordered i r =
     (let sz = 2 ^ unat (drop_bit 30 i); address = mget r (ifield i 5 31) True
      in if address mod of_nat sz \<noteq> 0 then Inl GM_STEP_FAULT
         else Inr \<lparr>ac_load = rcpc_load i \<or> ibit i 22, ac_pair = False, ac_sign = False, ac_writeback = False,
                   ac_size = sz, ac_rt2 = 0, ac_width = 64, ac_address = address, ac_newbase = address\<rparr>)"

text \<open>The size and the kind of a single access: load, size, sign, destination width.\<close>

definition single_kind :: "u32 \<Rightarrow> (bool \<times> nat \<times> bool \<times> nat) option" where
  "single_kind i =
     (let scale = unat (drop_bit 30 i); opc = ifield i 22 3
      in if ibit i 26 then
           (if 2 \<le> opc then (if scale \<noteq> 0 then None else Some (odd opc, 16, False, 64))
            else Some (odd opc, 2 ^ scale, False, 64))
         else if 2 \<le> opc then
           (if scale = 3 \<or> scale = 2 \<and> opc = 3 then None
            else Some (True, 2 ^ scale, True, if opc = 3 then 32 else 64))
         else Some (opc = 1, 2 ^ scale, False, 64))"

text \<open>The address, the new base and whether it is written back.\<close>

definition single_address :: "u32 \<Rightarrow> GMMemoryRegisters \<Rightarrow> nat \<Rightarrow> (u64 \<times> u64 \<times> bool) option" where
  "single_address i r sz =
     (let rt = ifield i 0 31; rn = ifield i 5 31; base = mget r rn True; vector = ibit i 26
      in if ibit i 24 then Some (base + of_nat (ifield i 10 4095) * of_nat sz, base, False)
         else let mode = ifield i 10 3
         in if ibit i 21 then
              (let option = ifield i 13 7
               in if mode \<noteq> 2 \<or> \<not> ibit i 14 then None
                  else let offset = mget r (ifield i 16 31) False;
                           offset = (if even option then offset AND UINT32_MAX else offset);
                           offset = (if option = 6 then extend_value offset 32 else offset)
                  in Some (base + offset * (if ibit i 12 then of_nat sz else 1), base, False))
            else if vector \<and> mode = 2 then None
            else let newbase = base + extend_value (of_nat (ifield i 12 511)) 9;
                     writeback = (mode = 1 \<or> mode = 3)
            in if writeback \<and> \<not> vector \<and> rn \<noteq> 31 \<and> rn = rt then None
               else Some (if mode \<noteq> 1 then newbase else base, newbase, writeback))"

definition decode_single :: "u32 \<Rightarrow> GMMemoryRegisters \<Rightarrow> GMMemoryStep + Access" where
  "decode_single i r =
     (case single_kind i of
        None \<Rightarrow> Inl GM_STEP_UNSUPPORTED
      | Some (load, sz, sign, width) \<Rightarrow>
          (case single_address i r sz of
             None \<Rightarrow> Inl GM_STEP_UNSUPPORTED
           | Some (address, newbase, writeback) \<Rightarrow>
               Inr \<lparr>ac_load = load, ac_pair = False, ac_sign = sign, ac_writeback = writeback, ac_size = sz,
                    ac_rt2 = 0, ac_width = width, ac_address = address, ac_newbase = newbase\<rparr>))"

definition decode_pair :: "u32 \<Rightarrow> GMMemoryRegisters \<Rightarrow> GMMemoryStep + Access" where
  "decode_pair i r =
     (let rt = ifield i 0 31; rn = ifield i 5 31; rt2 = ifield i 10 31; opc = unat (drop_bit 30 i);
          mode = ifield i 23 3; load = ibit i 22; vector = ibit i 26; base = mget r rn True;
          kind = (if vector then (if opc = 3 then None else Some (4 * 2 ^ opc, False))
                  else if opc = 0 then Some (4, False)
                  else if opc = 2 then Some (8, False)
                  else if opc = 1 \<and> load \<and> mode \<noteq> 0 then Some (4, True)
                  else None);
          writeback = (mode = 1 \<or> mode = 3)
      in case kind of
           None \<Rightarrow> Inl GM_STEP_UNSUPPORTED
         | Some (sz, sign) \<Rightarrow>
             if load \<and> rt = rt2 then Inl GM_STEP_UNSUPPORTED
             else if writeback \<and> \<not> vector \<and> rn \<noteq> 31 \<and> (rn = rt \<or> rn = rt2) then Inl GM_STEP_UNSUPPORTED
             else let newbase = base + extend_value (of_nat (ifield i 15 127)) 7 * of_nat sz
             in Inr \<lparr>ac_load = load, ac_pair = True, ac_sign = sign, ac_writeback = writeback, ac_size = sz,
                     ac_rt2 = rt2, ac_width = 64, ac_address = (if mode \<noteq> 1 then newbase else base),
                     ac_newbase = newbase\<rparr>)"

definition decode_access :: "u32 \<Rightarrow> GMMemoryRegisters \<Rightarrow> GMMemoryStep + Access" where
  "decode_access i r =
     (if rcpc_load i \<or> i AND 0x3f9ffc00 = 0x089ffc00 then decode_ordered i r
      else if i AND 0x3b000000 = 0x39000000 \<or> i AND 0x3b000000 = 0x38000000 then decode_single i r
      else if i AND 0x3a000000 = 0x28000000 then decode_pair i r
      else Inl GM_STEP_UNSUPPORTED)"

text \<open>The registers an access names, in the order of its bytes; the bytes of a store.\<close>

definition access_registers :: "u32 \<Rightarrow> Access \<Rightarrow> nat list" where
  "access_registers i c = (if ac_pair c then [ifield i 0 31, ac_rt2 c] else [ifield i 0 31])"

definition store_bytes :: "u32 \<Rightarrow> GMMemoryRegisters \<Rightarrow> Access \<Rightarrow> u8 list" where
  "store_bytes i r c =
     concat (map (\<lambda>k. if ibit i 26 then take (ac_size c) (mvector r k) else scalar_bytes (mget r k False) (ac_size c))
       (access_registers i c))"

text \<open>The loop that moves the bytes of a load into the registers; \<open>k\<close> is the number of the part.\<close>

definition load_register :: "u32 \<Rightarrow> Access \<Rightarrow> u8 list \<Rightarrow> GMMemoryRegisters \<Rightarrow> nat \<Rightarrow> nat \<Rightarrow> GMMemoryRegisters" where
  "load_register i c bytes r k index =
     (if ibit i 26
      then r\<lparr>mvector := (mvector r)(index :=
             buffer_write (replicate 16 0) 0 (take (ac_size c) (drop (k * ac_size c) bytes)))\<rparr>
      else let value = scalar_value (drop (k * ac_size c) bytes) (ac_size c);
               value = (if ac_sign c then extend_value value (ac_size c * 8) else value);
               value = (if ac_width c = 32 then value AND UINT32_MAX else value)
      in set_x r index value)"

definition load_registers :: "u32 \<Rightarrow> Access \<Rightarrow> u8 list \<Rightarrow> GMMemoryRegisters \<Rightarrow> GMMemoryRegisters" where
  "load_registers i c bytes r =
     foldl (\<lambda>r (k, index). load_register i c bytes r k index) r (enumerate 0 (access_registers i c))"

definition access_step :: "Space option \<Rightarrow> u32 \<Rightarrow> GMMemoryRegisters \<Rightarrow> Access \<Rightarrow> step_result" where
  "access_step memory i r c =
     (let n = length (access_registers i c) * ac_size c; pad = (\<lambda>bs. bs @ replicate (32 - length bs) 0);
          done = (\<lambda>r. retire (if ac_writeback c then set_base r (ifield i 5 31) (ac_newbase c) else r))
      in if ac_load c then
           (let (f, memory, bytes) = gm_sparse_read memory (ac_address c) (Some (replicate 32 0)) (of_nat n)
            in if f \<noteq> GM_OK then (GM_STEP_FAULT, memory, r, Some f)
               else (GM_STEP_OK, memory, done (load_registers i c (the bytes) r), Some f))
         else
           (let (f, memory) = gm_sparse_write memory (ac_address c) (Some (pad (store_bytes i r c))) (of_nat n)
            in if f \<noteq> GM_OK then (GM_STEP_FAULT, memory, r, Some f)
               else (GM_STEP_OK, memory, done r, Some f)))"

text \<open>\<open>present\<close> is \<open>False\<close> when the pointer to the registers or to the fault is null.\<close>

definition gm_memory_step :: "Space option \<Rightarrow> u32 \<Rightarrow> GMMemoryRegisters \<Rightarrow> bool \<Rightarrow> step_result" where
  "gm_memory_step memory i r present =
     (if \<not> present then (GM_STEP_UNSUPPORTED, memory, r, None)
      else if mpc r > UINT64_MAX - 4 \<or> mpc r AND 3 \<noteq> 0 \<or> ifield i 5 31 = 31 \<and> msp r AND 15 \<noteq> 0
      then (GM_STEP_FAULT, memory, r, Some GM_INVALID)
      else if i AND 0xbe000000 = 0x0c000000 then structure_step memory i r
      else if atomic_instruction i then atomic_step memory i r
      else case decode_access i r of
        Inl GM_STEP_FAULT \<Rightarrow> (GM_STEP_FAULT, memory, r, Some GM_INVALID)
      | Inl e \<Rightarrow> (e, memory, r, None)
      | Inr c \<Rightarrow> access_step memory i r c)"

end
