(* ===== verification/GuestMemoryInstructionLaws.thy ===== *)
theory GuestMemoryInstructionLaws
  imports GuestMemoryInstruction GuestSparseLaws
begin

text \<open>
  The properties of the data-access instructions: every byte a structure access moves lies inside
  its register and its buffer, an instruction that does not retire changes nothing, and a value
  stored is loaded back.
\<close>

section \<open>Bounds of the structure accesses\<close>

lemma ifield_le: "ifield i s m \<le> unat m"
  unfolding ifield_def by (rule word_le_nat_alt [THEN iffD1]) (rule word_and_le1)

lemma ifield_bounds:
  "ifield i s 1 \<le> 1" "ifield i s 3 \<le> 3" "ifield i s 7 \<le> 7" "ifield i s 15 \<le> 15" "ifield i s 31 \<le> 31"
  using ifield_le [of i s 1] ifield_le [of i s 3] ifield_le [of i s 7] ifield_le [of i s 15] ifield_le [of i s 31]
  by simp_all

definition structure_ok :: "u32 \<Rightarrow> Structure \<Rightarrow> bool" where
  "structure_ok i p \<longleftrightarrow> st_element p \<in> {1, 2, 4, 8} \<and> 1 \<le> st_registers p \<and> 1 \<le> st_repeats p \<and>
     st_registers p * st_repeats p \<le> 4 \<and> (ibit i 24 \<longrightarrow> (st_lane p + 1) * st_element p \<le> 16)"

lemma power_size: "n \<le> 3 \<Longrightarrow> (2 :: nat) ^ n \<in> {1, 2, 4, 8}"
proof -
  assume "n \<le> 3"
  then have "n = 0 \<or> n = 1 \<or> n = 2 \<or> n = 3" by linarith
  then show ?thesis by auto
qed

lemma structure_single_ok:
  assumes eq: "structure_single i = Some p"
  shows "structure_ok i p"
proof -
  define op s sz q f where "op = ifield i 13 7" and "s = ifield i 12 1" and "sz = ifield i 10 3"
    and "q = ifield i 30 1" and "f = ifield i 21 1"
  have b: "op \<le> 7" "s \<le> 1" "sz \<le> 3" "q \<le> 1" "f \<le> 1"
    by (simp_all add: op_def s_def sz_def q_def f_def ifield_bounds [simplified])
  have r: "op mod 2 * 2 + f + 1 \<le> 4" using b by simp
  note eq' = eq [unfolded structure_single_def Let_def, folded op_def s_def sz_def q_def f_def]
  have "op div 2 \<le> 3" using b(1) by simp
  then consider "op div 2 = 3" | "op div 2 = 0" | "op div 2 = 1" | "op div 2 = 2" by linarith
  then show ?thesis
  proof cases
    case 1
    then show ?thesis using eq' r power_size [OF b(3)] by (auto simp: structure_ok_def split: if_splits)
  next
    case 2
    then show ?thesis using eq' r b by (auto simp: structure_ok_def)
  next
    case 3
    then have "sz mod 2 = 0" "p = \<lparr>st_element = 2, st_registers = op mod 2 * 2 + f + 1, st_repeats = 1,
        st_lane = q * 4 + s * 2 + sz div 2, st_replicate = False\<rparr>"
      using eq' by (auto split: if_splits)
    moreover from this have "sz div 2 \<le> 1" using b(3) by simp
    ultimately show ?thesis using r b by (auto simp: structure_ok_def)
  next
    case 4
    then show ?thesis using eq' r b by (auto simp: structure_ok_def split: if_splits)
  qed
qed

lemma structure_multiple_ok:
  assumes "structure_multiple i = Some p" and "\<not> ibit i 24"
  shows "structure_ok i p"
  using assms power_size [OF ifield_bounds(2) [of i 10]]
  by (auto simp: structure_multiple_def structure_ok_def Let_def split: if_splits)

lemma structure_shape_ok: "structure_shape i = Some p \<Longrightarrow> structure_ok i p"
  by (auto simp: structure_shape_def Let_def structure_single_ok structure_multiple_ok split: if_splits)

lemma lanes_element:
  assumes "structure_ok i p"
  shows "structure_lanes i p * st_element p \<le> 16"
  using assms by (auto simp: structure_ok_def structure_lanes_def)

lemma structure_total_le:
  assumes "structure_ok i p"
  shows "structure_total i p \<le> 64"
proof -
  have "structure_total i p = (st_registers p * st_repeats p) * (structure_lanes i p * st_element p)"
    by (simp add: structure_total_def)
  also have "\<dots> \<le> 4 * 16" using assms lanes_element [OF assms] by (intro mult_le_mono) (simp_all add: structure_ok_def)
  finally show ?thesis by simp
qed

lemma structure_elements_bounds:
  assumes ok: "structure_ok i p" and mem: "(index, position) \<in> set (structure_elements i p)"
  shows "index < 32" and "position + st_element p \<le> 16"
proof -
  obtain e where e: "e < structure_lanes i p" "position = (if ibit i 24 then st_lane p else e) * st_element p"
      and "index < 32"
    using mem by (auto simp: structure_elements_def)
  then show "index < 32" by simp
  have "(e + 1) * st_element p \<le> structure_lanes i p * st_element p" using e(1) by (intro mult_le_mono) simp_all
  then have "(e + 1) * st_element p \<le> 16" using lanes_element [OF ok] by (rule order_trans)
  then show "position + st_element p \<le> 16"
    using e(2) ok by (cases "ibit i 24") (simp_all add: structure_ok_def add_mult_distrib)
qed

lemma length_structure_elements:
  "length (structure_elements i p) = st_repeats p * structure_lanes i p * st_registers p"
  by (simp add: structure_elements_def length_concat o_def sum_list_triv)

section \<open>Register files\<close>

text \<open>Vector registers of 16 bytes.\<close>

definition regs_ok :: "GMMemoryRegisters \<Rightarrow> bool" where
  "regs_ok r \<longleftrightarrow> (\<forall>k. length (mvector r k) = 16)"

lemma regs_ok_simps [simp]:
  "regs_ok (retire r) = regs_ok r" "regs_ok (set_base r k v) = regs_ok r" "regs_ok (set_x r k v) = regs_ok r"
  by (simp_all add: regs_ok_def retire_def set_base_def set_x_def)

lemma length_foldl_write:
  assumes "\<forall>k \<in> set ks. k * el + length src \<le> length v"
  shows "length (foldl (\<lambda>v k. buffer_write v (k * el) src) v ks) = length v"
  using assms by (induction ks arbitrary: v) simp_all

lemma load_element_length:
  assumes ok: "structure_ok i p" and pos: "position + st_element p \<le> 16" and v: "\<forall>k. length (vectors k) = 16"
    and vb: "vector_bytes \<le> 16"
  shows "length (load_element p vector_bytes bytes vectors offset index position k) = 16"
proof -
  let ?src = "take (st_element p) (drop offset bytes)"
  have src: "length ?src \<le> st_element p" by simp
  have "j * st_element p + length ?src \<le> 16" if "j < vector_bytes div st_element p" for j
  proof -
    have "(j + 1) * st_element p \<le> vector_bytes div st_element p * st_element p"
      using that by (intro mult_le_mono) simp_all
    also have "\<dots> \<le> vector_bytes" by simp
    finally have "(j + 1) * st_element p \<le> 16" using vb by simp
    then show ?thesis using src by (simp add: add_mult_distrib)
  qed
  then have "length (foldl (\<lambda>v j. buffer_write v (j * st_element p) ?src) (vectors index)
      [0..<vector_bytes div st_element p]) = 16"
    using v by (subst length_foldl_write) auto
  moreover have "length (buffer_write (vectors index) position ?src) = 16"
    using v pos src by (subst length_buffer_write) (simp_all add: order_trans [OF add_left_mono])
  ultimately show ?thesis using v by (simp add: load_element_def Let_def)
qed

lemma structure_load_length:
  assumes "structure_ok i p" and "\<forall>(index, position) \<in> set es. position + st_element p \<le> 16"
    and "\<forall>k. length (vectors k) = 16" and "vector_bytes \<le> 16"
  shows "length (structure_load p vector_bytes bytes es offset vectors k) = 16"
  using assms
proof (induction es arbitrary: offset vectors)
  case (Cons x es)
  obtain index position where x: "x = (index, position)" by (metis prod.exhaust)
  have "length (load_element p vector_bytes bytes vectors offset index position j) = 16" for j
    using Cons.prems x by (intro load_element_length [OF Cons.prems(1)]) auto
  then show ?case using Cons x by simp
qed simp

lemma clear_vectors_length:
  "\<forall>k. length (vectors k) = 16 \<Longrightarrow> length (clear_vectors rt n vectors k) = 16"
  by (induction n arbitrary: k) (auto simp: clear_vectors_def)

lemma structure_store_length:
  assumes "structure_ok i p" and "offset + length es * st_element p \<le> length bytes"
  shows "length (structure_store p vectors es offset bytes) = length bytes"
  using assms
proof (induction es arbitrary: offset bytes)
  case (Cons x es)
  obtain index position where x: "x = (index, position)" by (metis prod.exhaust)
  let ?src = "take (st_element p) (drop position (vectors index))"
  have "offset + length ?src \<le> length bytes" using Cons.prems(2) by simp
  then have "length (buffer_write bytes offset ?src) = length bytes" by (rule length_buffer_write)
  then show ?case using Cons x by simp
qed simp

section \<open>One instruction on a space\<close>

text \<open>The memory operations the instructions use.\<close>

lemma read_step:
  assumes ok: "space_ok s" and len: "unat n \<le> length buf" and eq: "gm_sparse_read (Some s) a (Some buf) n = (f, m, b)"
  shows "m = Some s" and "f = GM_OK \<Longrightarrow> \<exists>bs. b = Some bs \<and> length bs = length buf"
proof -
  obtain s' where l: "access_locked s a (Some buf) n False = (f, s', b)" and m: "m = Some s'"
    using eq by (auto simp: gm_sparse_read_locked Let_def split: prod.splits)
  note rd = access_locked_read [OF ok len l]
  show "m = Some s" using rd(1) m by simp
  show "f = GM_OK \<Longrightarrow> \<exists>bs. b = Some bs \<and> length bs = length buf" using rd(4) len by simp
qed

lemma cas_spec:
  assumes ok: "space_ok s" and len: "unat n \<le> length d"
    and eq: "gm_sparse_compare_exchange (Some s) a (Some e) (Some d) True n = (f, m, old)"
  shows "\<exists>s'. m = Some s' \<and> sparse_step s s' \<and> (f \<noteq> GM_OK \<longrightarrow> s' = s)"
proof (cases "atomic_size a n")
  case False
  then have "f = GM_INVALID" "m = Some s" using eq by (simp_all add: gm_sparse_compare_exchange_def)
  moreover have "sparse_step s s"
    using sparse_step.compare_exchange [of "Some d" n s a "Some e" True f s old] eq len calculation by (simp add: buffer_ok_def)
  ultimately show ?thesis by simp
next
  case True
  obtain s' where s': "m = Some s'" "f \<noteq> GM_OK \<longrightarrow> s' = s"
    using gm_sparse_compare_exchange_steps [OF ok TrueI True eq] access_locked_write [OF ok len]
    by (auto split: if_splits)
  have "sparse_step s s'"
    using sparse_step.compare_exchange [of "Some d" n s a "Some e" True f s' old] eq len s'(1) by (simp add: buffer_ok_def)
  then show ?thesis using s' by blast
qed

lemma atomic_spec:
  assumes ok: "space_ok s" and eq: "gm_sparse_atomic (Some s) a n operation v True = (f, m, old)"
  shows "\<exists>s'. m = Some s' \<and> sparse_step s s' \<and> (f \<noteq> GM_OK \<longrightarrow> s' = s)"
proof (cases "n \<le> 8 \<and> atomic_size a n")
  case False
  then have "8 < n \<or> \<not> atomic_size a n" by auto
  then have "f = GM_INVALID" "m = Some s" using eq by (simp_all add: gm_sparse_atomic_def)
  then show ?thesis using sparse_step.atomic eq by blast
next
  case True
  then have n8: "unat n \<le> 8" by (simp add: word_nat)
  then have len: "unat n \<le> length (scalar_bytes w (unat n) @ replicate (8 - unat n) 0)" for w by simp
  obtain s' where "m = Some s'" "f \<noteq> GM_OK \<longrightarrow> s' = s"
    using gm_sparse_atomic_steps [OF ok TrueI conjunct1 [OF True] conjunct2 [OF True] eq]
      access_locked_write [OF ok len] by (auto split: if_splits)
  then show ?thesis using sparse_step.atomic eq by blast
qed

lemma write_spec:
  assumes ok: "space_ok s" and len: "unat n \<le> length buf" and eq: "gm_sparse_write (Some s) a (Some buf) n = (f, m)"
  shows "\<exists>s'. m = Some s' \<and> sparse_step s s' \<and> (f \<noteq> GM_OK \<longrightarrow> s' = s)"
proof -
  obtain s' b where l: "access_locked s a (Some buf) n True = (f, s', b)" and m: "m = Some s'"
    using eq by (auto simp: gm_sparse_write_locked Let_def split: prod.splits)
  have "sparse_step s s'" using sparse_step.store [of "Some buf" n s a f s'] eq m len by (simp add: buffer_ok_def)
  then show ?thesis using access_locked_write [OF ok len l] m by blast
qed

text \<open>What every instruction keeps: it is one call of the memory at most, an instruction that does
  not retire changes nothing, and one that retires advances the PC.\<close>

definition step_ok :: "Space \<Rightarrow> GMMemoryRegisters \<Rightarrow> step_result \<Rightarrow> bool" where
  "step_ok s r res \<longleftrightarrow> (case res of (e, m, r', f) \<Rightarrow>
     \<exists>s'. m = Some s' \<and> (s' = s \<or> sparse_step s s') \<and> regs_ok r' \<and>
       (if e = GM_STEP_OK then mpc r' = mpc r + 4 else s' = s \<and> r' = r))"

lemma step_ok_none: "regs_ok r \<Longrightarrow> e \<noteq> GM_STEP_OK \<Longrightarrow> step_ok s r (e, Some s, r, f)"
  by (simp add: step_ok_def)

lemma pc_simps [simp]:
  "mpc (retire r) = mpc r + 4" "mpc (set_base r k v) = mpc r" "mpc (set_x r k v) = mpc r"
  by (simp_all add: retire_def set_base_def set_x_def)

lemma structure_step_ok:
  assumes ok: "space_ok s" and r: "regs_ok r"
  shows "step_ok s r (structure_step (Some s) i r)"
proof (cases "structure_shape i")
  case None
  then show ?thesis using r by (simp add: structure_step_def step_ok_none)
next
  case (Some p)
  note p = structure_shape_ok [OF Some]
  note total = structure_total_le [OF p]
  have n: "unat (of_nat (structure_total i p) :: u64) = structure_total i p"
    using total by (intro unat_of_nat_u64) simp
  let ?a = "mget r (ifield i 5 31) True"
  show ?thesis
  proof (cases "ibit i 22")
    case True
    obtain f m b where rd: "gm_sparse_read (Some s) ?a (Some (replicate 64 0)) (of_nat (structure_total i p)) = (f, m, b)"
      by (metis prod_cases3)
    have m: "m = Some s" by (rule read_step(1) [OF ok _ rd]) (simp add: n total)
    let ?vb = "if ibit i 30 then 16 else 8 :: nat"
    have len: "\<forall>k. length (mvector r k) = 16" using r by (simp add: regs_ok_def)
    have v: "length (structure_load p ?vb bytes (structure_elements i p) 0 vectors k) = 16"
      if "\<forall>k. length (vectors k) = 16" for vectors bytes k
      using structure_elements_bounds(2) [OF p] by (intro structure_load_length [OF p _ that]) auto
    have c: "\<forall>k. length (clear_vectors rt n (mvector r) k) = 16" for rt n
      using clear_vectors_length [OF len] by blast
    show ?thesis
      using Some True rd m v [OF c] v [OF len] r
      by (auto simp: structure_step_def step_ok_def Let_def regs_ok_def retire_def set_base_def)
  next
    case False
    let ?bytes = "structure_store p (mvector r) (structure_elements i p) 0 (replicate 64 0)"
    have "length (structure_elements i p) * st_element p = structure_total i p"
      by (simp add: length_structure_elements structure_total_def)
    then have len: "length ?bytes = 64" using total by (subst structure_store_length [OF p]) simp_all
    obtain f m where w: "gm_sparse_write (Some s) ?a (Some ?bytes) (of_nat (structure_total i p)) = (f, m)"
      by (metis prod.exhaust)
    obtain s' where "m = Some s'" "sparse_step s s'" "f \<noteq> GM_OK \<longrightarrow> s' = s"
      using write_spec [OF ok _ w] n total len by auto
    then show ?thesis
      using Some False w r by (auto simp: structure_step_def step_ok_def Let_def)
  qed
qed

lemma atomic_step_ok:
  assumes ok: "space_ok s" and r: "regs_ok r"
  shows "step_ok s r (atomic_step (Some s) i r)"
proof -
  have casp: "step_ok s r (casp_step (Some s) i r)"
  proof (cases "odd (ifield i 16 31) \<or> odd (ifield i 0 31)")
    case True
    then show ?thesis using r by (simp add: casp_step_def Let_def step_ok_none)
  next
    case False
    let ?sz = "if ibit i 30 then 8 else 4 :: nat"
    let ?two = "\<lambda>k. scalar_bytes (mget r k False) ?sz @ scalar_bytes (mget r (k + 1) False) ?sz"
    obtain f m old where c: "gm_sparse_compare_exchange (Some s) (mget r (ifield i 5 31) True)
        (Some (?two (ifield i 16 31))) (Some (?two (ifield i 0 31))) True (of_nat (?sz * 2)) = (f, m, old)"
      by (metis prod_cases3)
    have "unat (of_nat (?sz * 2) :: u64) \<le> length (?two (ifield i 0 31))" by simp
    from cas_spec [OF ok this c] obtain s' where "m = Some s'" "sparse_step s s'" "f \<noteq> GM_OK \<longrightarrow> s' = s" by blast
    then show ?thesis
      using False c r unfolding casp_step_def Let_def step_ok_def by (auto split: prod.splits)
  qed
  have cas: "step_ok s r (cas_step (Some s) i r)"
  proof -
    let ?sz = "2 ^ unat (drop_bit 30 i) :: nat"
    obtain f m old where c: "gm_sparse_compare_exchange (Some s) (mget r (ifield i 5 31) True)
        (Some (scalar_bytes (mget r (ifield i 16 31) False) ?sz)) (Some (scalar_bytes (mget r (ifield i 0 31) False) ?sz))
        True (of_nat ?sz) = (f, m, old)"
      by (metis prod_cases3)
    have "unat (of_nat ?sz :: u64) \<le> length (scalar_bytes (mget r (ifield i 0 31) False) ?sz)"
      by (simp add: unat_of_nat del: of_nat_power of_nat_numeral)
    from cas_spec [OF ok this c] obtain s' where "m = Some s'" "sparse_step s s'" "f \<noteq> GM_OK \<longrightarrow> s' = s" by blast
    then show ?thesis
      using c r unfolding cas_step_def Let_def step_ok_def by (auto split: prod.splits)
  qed
  have rmw: "step_ok s r (rmw_step (Some s) i r)"
  proof (cases "8 < ifield i 12 15")
    case True
    then show ?thesis using r by (simp add: rmw_step_def Let_def step_ok_none)
  next
    case False
    obtain f m old where c: "gm_sparse_atomic (Some s) (mget r (ifield i 5 31) True) (of_nat (2 ^ unat (drop_bit 30 i)))
        (atomic_operation (ifield i 12 15)) (mget r (ifield i 16 31) False) True = (f, m, old)"
      by (metis prod_cases3)
    from atomic_spec [OF ok this] obtain s' where "m = Some s'" "sparse_step s s'" "f \<noteq> GM_OK \<longrightarrow> s' = s" by blast
    then show ?thesis
      using False c r unfolding rmw_step_def Let_def step_ok_def by (auto split: prod.splits)
  qed
  show ?thesis using casp cas rmw r by (simp add: atomic_step_def step_ok_none)
qed

lemma top_bits: "unat (drop_bit 30 (i :: u32)) \<le> 3"
proof -
  have "unat i < 2 ^ 32" using unsigned_less [of i] by simp
  then show ?thesis by (simp add: drop_bit_eq_div unat_div)
qed

lemma power_top_bits: "(2 :: nat) ^ unat (drop_bit 30 (i :: u32)) \<le> 8"
  using power_size [OF top_bits [of i]] by auto

lemma access_size_bounds:
  assumes "decode_access i r = Inr c"
  shows "ac_size c \<le> 16 \<and> (\<not> ibit i 26 \<longrightarrow> ac_size c \<le> 8)"
proof -
  consider "decode_ordered i r = Inr c" | "decode_single i r = Inr c" | "decode_pair i r = Inr c"
    using assms by (auto simp: decode_access_def split: if_splits)
  then show ?thesis
  proof cases
    case 1
    then show ?thesis using power_top_bits [of i] by (auto simp: decode_ordered_def Let_def split: if_splits)
  next
    case 2
    then obtain load sg w where k: "single_kind i = Some (load, ac_size c, sg, w)"
      by (auto simp: decode_single_def split: option.splits)
    then show ?thesis
      using power_top_bits [of i] by (auto simp: single_kind_def Let_def split: if_splits)
  next
    case 3
    have "unat (drop_bit 30 i) \<noteq> 3 \<Longrightarrow> (2 :: nat) ^ unat (drop_bit 30 i) \<le> 4"
      using power_increasing [of "unat (drop_bit 30 i)" 2 "2 :: nat"] top_bits [of i] by simp
    then show ?thesis
      using 3 by (auto simp: decode_pair_def Let_def split: if_splits option.splits)
  qed
qed

lemma length_store_bytes:
  assumes "regs_ok r" and "ac_size c \<le> 16"
  shows "length (store_bytes i r c) = length (access_registers i c) * ac_size c"
  using assms by (auto simp: store_bytes_def access_registers_def regs_ok_def)

lemma load_registers_keeps:
  assumes "regs_ok r" and "ac_size c \<le> 16"
  shows "regs_ok (load_registers i c bytes r) \<and> mpc (load_registers i c bytes r) = mpc r"
proof -
  have one: "regs_ok (load_register i c bytes r k index) \<and> mpc (load_register i c bytes r k index) = mpc r"
    if "regs_ok r" for r k index
    using that assms(2) by (auto simp: load_register_def Let_def regs_ok_def set_x_def)
  show ?thesis using one assms(1) by (auto simp: load_registers_def access_registers_def)
qed

lemma access_step_ok:
  assumes ok: "space_ok s" and r: "regs_ok r" and c: "decode_access i r = Inr c"
  shows "step_ok s r (access_step (Some s) i r c)"
proof -
  have sz: "ac_size c \<le> 16" using access_size_bounds [OF c] by simp
  let ?n = "length (access_registers i c) * ac_size c"
  have n32: "?n \<le> 32" using sz by (simp add: access_registers_def)
  have n: "unat (of_nat ?n :: u64) = ?n" using n32 by (intro unat_of_nat_u64) simp
  show ?thesis
  proof (cases "ac_load c")
    case True
    obtain f m b where rd: "gm_sparse_read (Some s) (ac_address c) (Some (replicate 32 0)) (of_nat ?n) = (f, m, b)"
      by (metis prod_cases3)
    have "unat (of_nat ?n :: u64) \<le> length (replicate 32 (0 :: u8))" using n n32 by simp
    then have m: "m = Some s" by (rule read_step(1) [OF ok _ rd])
    show ?thesis
      using True rd m r load_registers_keeps [OF r sz, of i] by (auto simp: access_step_def step_ok_def Let_def)
  next
    case False
    let ?b = "store_bytes i r c @ replicate (32 - length (store_bytes i r c)) 0"
    obtain f m where w: "gm_sparse_write (Some s) (ac_address c) (Some ?b) (of_nat ?n) = (f, m)" by (metis prod.exhaust)
    have "unat (of_nat ?n :: u64) \<le> length ?b" using length_store_bytes [OF r sz, of i] n n32 by simp
    from write_spec [OF ok this w] obtain s' where "m = Some s'" "sparse_step s s'" "f \<noteq> GM_OK \<longrightarrow> s' = s" by blast
    then show ?thesis using False w r by (auto simp: access_step_def step_ok_def Let_def)
  qed
qed

lemma decode_access_error: "decode_access i r = Inl e \<Longrightarrow> e \<noteq> GM_STEP_OK"
  by (auto simp: decode_access_def decode_ordered_def decode_single_def decode_pair_def Let_def
      split: if_splits option.splits prod.splits)

lemma gm_memory_step_ok:
  assumes ok: "space_ok s" and r: "regs_ok r"
  shows "step_ok s r (gm_memory_step (Some s) i r present)"
proof (cases "present \<and> \<not> (mpc r > UINT64_MAX - 4 \<or> mpc r AND 3 \<noteq> 0 \<or> ifield i 5 31 = 31 \<and> msp r AND 15 \<noteq> 0) \<and>
    i AND 0xbe000000 \<noteq> 0x0c000000 \<and> \<not> atomic_instruction i")
  case False
  then consider "\<not> present" | "present" "mpc r > UINT64_MAX - 4 \<or> mpc r AND 3 \<noteq> 0 \<or> ifield i 5 31 = 31 \<and> msp r AND 15 \<noteq> 0"
    | "gm_memory_step (Some s) i r present = structure_step (Some s) i r"
    | "gm_memory_step (Some s) i r present = atomic_step (Some s) i r"
    unfolding gm_memory_step_def by metis
  then show ?thesis
  proof cases
    case 1
    then show ?thesis using r by (simp add: gm_memory_step_def step_ok_none)
  next
    case 2
    then show ?thesis using r unfolding gm_memory_step_def by (simp add: step_ok_none)
  next
    case 3
    then show ?thesis using structure_step_ok [OF assms] by simp
  next
    case 4
    then show ?thesis using atomic_step_ok [OF assms] by simp
  qed
next
  case True
  then have eq: "gm_memory_step (Some s) i r present = (case decode_access i r of
        Inl GM_STEP_FAULT \<Rightarrow> (GM_STEP_FAULT, Some s, r, Some GM_INVALID)
      | Inl e \<Rightarrow> (e, Some s, r, None)
      | Inr c \<Rightarrow> access_step (Some s) i r c)"
    unfolding gm_memory_step_def by metis
  show ?thesis
  proof (cases "decode_access i r")
    case (Inl e)
    then have "e \<noteq> GM_STEP_OK" by (rule decode_access_error)
    then show ?thesis using r by (cases e) (simp_all add: eq Inl step_ok_none)
  next
    case (Inr c)
    then show ?thesis using access_step_ok [OF assms Inr] by (simp add: eq)
  qed
qed

section \<open>Properties\<close>

text \<open>The SIMD structure accesses stay inside their buffers: for every supported encoding at most 64
  bytes are moved, as many as the three nested loops move elements, and each element lies inside a
  register that exists.\<close>

theorem structure_bounds:
  assumes "structure_shape i = Some p"
  shows "structure_total i p \<le> 64 \<and> length (structure_elements i p) * st_element p = structure_total i p \<and>
    (\<forall>(index, position) \<in> set (structure_elements i p). index < 32 \<and> position + st_element p \<le> 16)"
  using structure_total_le structure_elements_bounds structure_shape_ok [OF assms]
  by (auto simp: length_structure_elements structure_total_def)

theorem structure_bounds_witness:
  "\<exists>p. structure_shape 0x4c400000 = Some p \<and> structure_total 0x4c400000 p \<le> 64"
proof -
  obtain p where "structure_shape 0x4c400000 = Some p"
    by (simp add: structure_shape_def structure_multiple_def ibit_def ifield_def)
  then show ?thesis using structure_bounds by blast
qed

text \<open>C19. A data-access instruction that does not retire leaves the memory and all registers as they
  were; one that retires advances the program counter and changes the memory by at most one call
  of its interface. The memory stays well formed and the vector registers keep their 16 bytes.\<close>

theorem memory_step_all_or_nothing:
  assumes "space_ok s" and "regs_ok r" and "gm_memory_step (Some s) i r True = (e, m, r', f)"
  shows "\<exists>s'. m = Some s' \<and> space_ok s' \<and> regs_ok r' \<and> (s' = s \<or> sparse_step s s') \<and>
    (if e = GM_STEP_OK then mpc r' = mpc r + 4 else s' = s \<and> r' = r)"
proof -
  obtain s' where s': "m = Some s'" "s' = s \<or> sparse_step s s'" "regs_ok r'"
      "if e = GM_STEP_OK then mpc r' = mpc r + 4 else s' = s \<and> r' = r"
    using gm_memory_step_ok [OF assms(1,2), of i True] assms(3) by (auto simp: step_ok_def)
  moreover have "space_ok s'" using s'(2) sparse_step_effect assms(1) by (auto simp: sm_effect_def)
  ultimately show ?thesis by blast
qed

definition sample_registers :: GMMemoryRegisters where
  "sample_registers = \<lparr>mx = (\<lambda>k. if k = 1 then 0x8000 else of_nat k), msp = 0, mpc = 0x1000,
     mvector = (\<lambda>_. replicate 16 0)\<rparr>"

lemma sample_registers_ok: "regs_ok sample_registers"
  by (simp add: regs_ok_def sample_registers_def)

text \<open>\<open>STR W2, [X1]\<close> on the sample space.\<close>

lemma sample_store:
  "decode_access 0xb9000022 sample_registers = Inr \<lparr>ac_load = False, ac_pair = False, ac_sign = False, ac_writeback = False,
    ac_size = 4, ac_rt2 = 0, ac_width = 64, ac_address = 0x8000, ac_newbase = 0x8000\<rparr>"
  by code_simp

lemma sparse_sample_ready4:
  assumes "4 \<le> length buf"
  shows "fst (access_locked sparse_sample 0x8000 (Some buf) 4 True) = GM_OK"
proof (rule locked_write_ok(2) [OF sparse_sample_ok])
  show "check_access sparse_sample 0x8000 4 GM_WRITE = GM_OK"
    by (simp add: check_access_def sp_contains_def sparse_sample_def sparse_empty_def)
  have "page_walk 0x8000 (0x8000 + 4) = [0x8000]" by (simp add: page_walk_def)
  then show "backing_enough sparse_sample (page_walk 0x8000 (0x8000 + 4)) 0"
    using sparse_sample_enough by metis
qed (use assms in simp_all)

theorem memory_step_all_or_nothing_witness:
  "\<exists>m r' f. gm_memory_step (Some sparse_sample) 0xb9000022 sample_registers True = (GM_STEP_OK, m, r', f) \<and>
    mpc r' = 0x1004"
proof -
  obtain e m r' f where eq: "gm_memory_step (Some sparse_sample) 0xb9000022 sample_registers True = (e, m, r', f)"
    by (metis prod_cases4)
  let ?b = "store_bytes 0xb9000022 sample_registers \<lparr>ac_load = False, ac_pair = False, ac_sign = False,
    ac_writeback = False, ac_size = 4, ac_rt2 = 0, ac_width = 64, ac_address = 0x8000, ac_newbase = 0x8000\<rparr>"
  have plain: "\<not> atomic_instruction 0xb9000022" by code_simp
  have pc: "mpc sample_registers = 0x1000" by (simp add: sample_registers_def)
  have len: "length ?b = 4"
    using length_store_bytes [OF sample_registers_ok] by (simp add: access_registers_def)
  have "fst (access_locked sparse_sample 0x8000 (Some (?b @ replicate 28 0)) 4 True) = GM_OK"
    by (rule sparse_sample_ready4) (simp add: len)
  then have "e = GM_STEP_OK"
    using eq plain len pc
    by (auto simp: gm_memory_step_def sample_store access_step_def access_registers_def gm_sparse_write_locked
        ifield_def split: prod.splits)
  moreover have "mpc sample_registers + 4 = 0x1004" by (simp add: sample_registers_def)
  ultimately show ?thesis
    using memory_step_all_or_nothing [OF sparse_sample_ok sample_registers_ok eq] eq by auto
qed

text \<open>A register stored by one instruction is loaded by another of the same size at the same
  address: the register loaded holds the low bytes of the register stored, zero or sign extended as
  the loading instruction asks.\<close>

theorem store_load_roundtrip:
  assumes ok: "space_ok s" and r: "regs_ok r"
    and store: "decode_access i r = Inr c" "\<not> ac_load c" "\<not> ac_pair c" "\<not> ibit i 26"
    and load: "decode_access j q = Inr d" "ac_load d" "\<not> ac_pair d" "\<not> ibit j 26" "ifield j 0 31 \<noteq> 31"
      "ac_writeback d \<longrightarrow> ifield j 5 31 \<noteq> ifield j 0 31"
    and same: "ac_size d = ac_size c" "ac_address d = ac_address c"
    and stored: "access_step (Some s) i r c = (GM_STEP_OK, Some s', r', f)"
    and readable: "\<forall>x. in_range (ac_address c) (of_nat (ac_size c)) x \<longrightarrow> sm_allowed s GM_READ x"
  shows "\<exists>q'. access_step (Some s') j q d = (GM_STEP_OK, Some s', q', Some GM_OK) \<and>
    mx q' (ifield j 0 31) =
      (let v = take_bit (ac_size c * 8) (mget r (ifield i 0 31) False);
           v = (if ac_sign d then sign_extend v (ac_size c * 8) else v)
       in if ac_width d = 32 then v AND UINT32_MAX else v)"
proof -
  let ?n = "ac_size c" and ?v = "mget r (ifield i 0 31) False"
  let ?bs = "scalar_bytes ?v ?n"
  have sz: "?n \<le> 8" using access_size_bounds [OF store(1)] store(4) by simp
  have n: "unat (of_nat ?n :: u64) = ?n" using sz by (intro unat_of_nat_u64) simp
  let ?pad = "?bs @ replicate (32 - ?n) 0"
  obtain b where w: "access_locked s (ac_address c) (Some ?pad) (of_nat ?n) True = (GM_OK, s', b)"
    using stored store by (auto simp: access_step_def access_registers_def store_bytes_def gm_sparse_write_locked Let_def
        split: prod.splits if_splits)
  have len: "unat (of_nat ?n :: u64) \<le> length ?pad" using n by simp
  note spec = access_locked_write [OF ok len w]
  have ok': "space_ok s'" and map: "same_map s s'" using spec by blast+
  have "sp_contains s (ac_address c) (of_nat ?n)"
    using spec check_access_spec(1) [OF ok] by (metis GMResult.distinct(9) GMResult.distinct(1))
  then have "check_access s' (ac_address c) (of_nat ?n) GM_READ = GM_OK"
    using readable same_map_views(2,3) [OF map] unfolding check_access_spec(1) [OF ok'] by simp
  moreover obtain fr s2 b2 where l: "access_locked s' (ac_address c) (Some (replicate 32 0)) (of_nat ?n) False = (fr, s2, b2)"
    by (metis prod_cases3)
  moreover have len2: "unat (of_nat ?n :: u64) \<le> length (replicate 32 (0 :: u8))" using n sz by simp
  note rd = access_locked_read [OF ok' len2 l]
  ultimately have fr: "fr = GM_OK" by simp
  have "sm_byte s' (ac_address c + of_nat k) = ?bs ! k" if "k < ?n" for k
    using spec in_range_plus [of k "of_nat ?n" "ac_address c"] that n by (simp add: nth_append)
  then have b2: "scalar_value (the b2) ?n = take_bit (?n * 8) ?v"
    using rd(4) [OF fr] n scalar_value_cong [of ?n "the b2" ?bs] by (simp add: nth_append scalar_value_bytes)
  show ?thesis
    using load same l fr rd(1) b2 store(3)
    by (auto simp: access_step_def access_registers_def gm_sparse_read_locked load_registers_def load_register_def
        retire_def set_base_def set_x_def extend_value_def sign_extend_def Let_def)
qed

text \<open>\<open>LDR W3, [X1]\<close> after \<open>STR W2, [X1]\<close>.\<close>

lemma sample_load:
  "decode_access 0xb9400023 sample_registers = Inr \<lparr>ac_load = True, ac_pair = False, ac_sign = False, ac_writeback = False,
    ac_size = 4, ac_rt2 = 0, ac_width = 64, ac_address = 0x8000, ac_newbase = 0x8000\<rparr>"
  by code_simp

theorem store_load_roundtrip_witness:
  "\<exists>s' d q'. access_step (Some s') 0xb9400023 sample_registers d = (GM_STEP_OK, Some s', q', Some GM_OK) \<and> mx q' 3 = 2"
proof -
  define c where "c = \<lparr>ac_load = False, ac_pair = False, ac_sign = False, ac_writeback = False,
    ac_size = 4, ac_rt2 = 0, ac_width = 64, ac_address = 0x8000, ac_newbase = 0x8000\<rparr>"
  define d where "d = \<lparr>ac_load = True, ac_pair = False, ac_sign = False, ac_writeback = False,
    ac_size = 4, ac_rt2 = 0, ac_width = 64, ac_address = 0x8000, ac_newbase = 0x8000\<rparr>"
  have f: "ibit 0xb9000022 26 = False" "ibit 0xb9400023 26 = False" "ifield 0xb9400023 0 31 = 3"
      "ifield 0xb9000022 0 31 = 2" "mget sample_registers 2 False = 2" by code_simp+
  let ?b = "store_bytes 0xb9000022 sample_registers c"
  have len: "length ?b = 4"
    using length_store_bytes [OF sample_registers_ok, of c] by (simp add: access_registers_def c_def)
  obtain s' b where w: "access_locked sparse_sample 0x8000 (Some (?b @ replicate 28 0)) 4 True = (GM_OK, s', b)"
    using sparse_sample_ready4 [of "?b @ replicate 28 0"] len by (metis length_append le_add1 prod.collapse)
  then have st: "access_step (Some sparse_sample) 0xb9000022 sample_registers c =
      (GM_STEP_OK, Some s', retire sample_registers, Some GM_OK)"
    using len by (simp add: access_step_def access_registers_def gm_sparse_write_locked c_def Let_def)
  have "sp_contains sparse_sample 0x8000 4 \<and> (\<forall>x. in_range 0x8000 4 x \<longrightarrow> sm_allowed sparse_sample GM_READ x)"
    unfolding check_access_spec(1) [OF sparse_sample_ok, symmetric]
    by (simp add: check_access_def sp_contains_def sparse_sample_def sparse_empty_def)
  then have "\<exists>q'. access_step (Some s') 0xb9400023 sample_registers d = (GM_STEP_OK, Some s', q', Some GM_OK) \<and>
      mx q' (ifield 0xb9400023 0 31) =
      (let v = take_bit (ac_size c * 8) (mget sample_registers (ifield 0xb9000022 0 31) False);
           v = (if ac_sign d then sign_extend v (ac_size c * 8) else v)
       in if ac_width d = 32 then v AND UINT32_MAX else v)"
    by (intro store_load_roundtrip [OF sparse_sample_ok sample_registers_ok
          sample_store [folded c_def] _ _ _ sample_load [folded d_def] _ _ _ _ _ _ _ st])
      (simp_all add: c_def d_def f)
  then show ?thesis by (auto simp: f c_def d_def Let_def)
qed

end
