(* ===== verification/GuestExclusive.thy ===== *)
theory GuestExclusive
  imports GuestCPU GuestMemoryInstruction
begin

text \<open>
  The exclusive sequences of \<open>runtime/GuestExclusive.c\<close>: from a load-exclusive or store-exclusive on,
  up to 32 instructions run as one operation of the runtime on a private copy of the registers,
  which replaces the caller's registers only when the sequence ends well.

  The instruction fetch is an argument: \<open>None\<close> when the callback refuses an address. The results are
  the step, the memory, the new registers (\<open>None\<close> when the caller's are left alone), the last value
  written through \<open>fault\<close> and the diagnostic.
\<close>

record GMExclusiveDiagnostic =
  dg_pc :: u64
  dg_reason :: string

definition gm_exclusive_instruction :: "u32 \<Rightarrow> bool" where
  "gm_exclusive_instruction i \<longleftrightarrow>
     i AND 0x3f800000 = 0x08000000 \<and> (\<not> ibit i 21 \<or> 2 \<le> unat (drop_bit 30 i))"

type_synonym exclusive_result =
  "GMMemoryStep \<times> Space option \<times> GCRegisters \<times> GMSparseExclusive \<times> GMResult option \<times> bool"

text \<open>The encodings \<open>exclusive\<close> rejects.\<close>

definition exclusive_unsupported :: "u32 \<Rightarrow> bool" where
  "exclusive_unsupported i \<longleftrightarrow>
     (let rt = ifield i 0 31; rn = ifield i 5 31; rt2 = ifield i 10 31; rs = ifield i 16 31;
          pair = ibit i 21; load = ibit i 22
      in \<not> pair \<and> rt2 \<noteq> 31 \<or> load \<and> rs \<noteq> 31 \<or> load \<and> pair \<and> rt = rt2 \<or>
         \<not> load \<and> rs \<noteq> 31 \<and> (rs = rn \<or> rs = rt \<or> pair \<and> rs = rt2))"

definition put_x :: "GCRegisters \<Rightarrow> nat \<Rightarrow> u64 \<Rightarrow> GCRegisters" where
  "put_x r k v = (if k \<noteq> 31 then r\<lparr>rx := (rx r)(k := v)\<rparr> else r)"

definition exclusive ::
  "Space option \<Rightarrow> u32 \<Rightarrow> GCRegisters \<Rightarrow> GMSparseExclusive \<Rightarrow> exclusive_result" where
  "exclusive memory i r monitor =
     (let rt = ifield i 0 31; rn = ifield i 5 31; rt2 = ifield i 10 31; rs = ifield i 16 31;
          pair = ibit i 21; load = ibit i 22; sz = 2 ^ unat (drop_bit 30 i);
          parts = (if pair then [rt, rt2] else [rt]); n = of_nat (sz * length parts)
      in if exclusive_unsupported i then (GM_STEP_UNSUPPORTED, memory, r, monitor, None, False)
         else if rn = 31 \<and> rsp r AND 15 \<noteq> 0 \<or> rpc r AND 3 \<noteq> 0 \<or> rpc r > UINT64_MAX - 4
         then (GM_STEP_FAULT, memory, r, monitor, Some GM_INVALID, False)
         else let address = reg r rn True
         in if load then
              (let (f, memory, bytes, monitor') =
                     gm_sparse_load_exclusive memory address (Some (replicate 16 0)) n (Some monitor)
               in if f \<noteq> GM_OK then (GM_STEP_FAULT, memory, r, the monitor', Some f, False)
                  else let r = foldl (\<lambda>r (part, index). put_x r index (scalar_value (drop (part * sz) (the bytes)) sz))
                                 r (enumerate 0 parts)
                  in (GM_STEP_OK, memory, r\<lparr>rpc := rpc r + 4\<rparr>, the monitor', Some f, False))
            else
              (let bytes = concat (map (\<lambda>index. scalar_bytes (reg r index False) sz) parts);
                   bytes = bytes @ replicate (16 - length bytes) 0;
                   (f, memory, monitor', stored) =
                     gm_sparse_store_exclusive memory address (Some bytes) n (Some monitor) True
               in if f \<noteq> GM_OK then (GM_STEP_FAULT, memory, r, the monitor', Some f, False)
                  else let r = put_x r rs (if stored = Some True then 0 else 1)
                  in (GM_STEP_OK, memory, r\<lparr>rpc := rpc r + 4\<rparr>, the monitor', Some f, True)))"

text \<open>Whether the sequence treats an access that succeeded as a load, after which it goes on.\<close>

definition access_reads :: "u32 \<Rightarrow> bool" where
  "access_reads i \<longleftrightarrow>
     (let ordered = (i AND 0x3f9ffc00 = 0x089ffc00); rcpc = (i AND 0x3ffffc00 = 0x38bfc000);
          single = (i AND 0x3b000000 = 0x39000000 \<or> i AND 0x3b000000 = 0x38000000);
          pair = (i AND 0x3a000000 = 0x28000000);
          load = (rcpc \<or> ordered \<and> ibit i 22 \<or> single \<and> ifield i 22 3 \<noteq> 0 \<or> pair \<and> ibit i 22)
      in if \<not> rcpc \<and> i AND 0x3f200c00 = 0x38200000 then False else load)"

text \<open>The reason reported for an instruction the sequence cannot execute.\<close>

definition exclusive_reason :: "u32 \<Rightarrow> string" where
  "exclusive_reason i =
     (if i AND 0x1f800000 = 0x13000000 then ''[software-vm] bitfield operation at ''
      else if i AND 0x1f800000 = 0x13800000 then ''[software-vm] extract operation at ''
      else if i AND 0x3b000000 = 0x39000000 \<or> i AND 0x3b000000 = 0x38000000
      then (if ibit i 22 then ''intervening single load at '' else ''intervening single store at '')
      else if i AND 0x3a000000 = 0x28000000
      then (if ibit i 22 then ''intervening pair load at '' else ''intervening pair store at '')
      else if i AND 0x3f000000 = 0x08000000 then ''intervening ordered operation at ''
      else if i AND 0x0a000000 = 0x08000000 then ''intervening other memory operation at ''
      else if i AND 0xfffff01f = 0xd503201f then ''[software-vm] hint operation at ''
      else ''[software-vm] register operation at '')"

text \<open>The registers of an access inside a sequence, and back.\<close>

definition to_access :: "GCRegisters \<Rightarrow> GMMemoryRegisters" where
  "to_access r = \<lparr>mx = rx r, msp = rsp r, mpc = rpc r, mvector = (\<lambda>_. replicate 16 0)\<rparr>"

definition from_access :: "GCRegisters \<Rightarrow> GMMemoryRegisters \<Rightarrow> GCRegisters" where
  "from_access r a = r\<lparr>rx := mx a, rsp := msp a, rpc := mpc a\<rparr>"

text \<open>One instruction of the sequence.\<close>

definition sequence_step ::
  "Space option \<Rightarrow> u32 \<Rightarrow> GCRegisters \<Rightarrow> GMSparseExclusive \<Rightarrow> exclusive_result" where
  "sequence_step memory i r monitor =
     (if gm_exclusive_instruction i then exclusive memory i r monitor
      else if i AND 0xfffff0ff = 0xd503305f
      then (GM_STEP_OK, memory, r\<lparr>rpc := rpc r + 4\<rparr>, monitor, None, True)
      else let (ok, r') = gc_register_step (Some r) i; r = the r'
      in if ok then (GM_STEP_OK, memory, r, monitor, None, False)
         else if ibit i 26 then (GM_STEP_UNSUPPORTED, memory, r, monitor, None, False)
         else let (e, memory, a, f) = gm_memory_step memory i (to_access r) True
         in if e = GM_STEP_OK then (e, memory, from_access r a, monitor, f, \<not> access_reads i)
            else (e, memory, r, monitor, f, False))"

text \<open>The diagnostic of a step that did not succeed.\<close>

definition sequence_diagnostic ::
  "GMExclusiveDiagnostic option \<Rightarrow> u32 \<Rightarrow> GMExclusiveDiagnostic option" where
  "sequence_diagnostic d i =
     (if gm_exclusive_instruction i then d else map_option (\<lambda>d. d\<lparr>dg_reason := exclusive_reason i\<rparr>) d)"

type_synonym sequence_result =
  "GMMemoryStep \<times> Space option \<times> GCRegisters option \<times> GMResult option \<times> GMExclusiveDiagnostic option"

text \<open>The loop; the first argument is the number of steps left.\<close>

primrec sequence_loop ::
  "nat \<Rightarrow> (u64 \<Rightarrow> u32 option) \<Rightarrow> u64 \<Rightarrow> Space option \<Rightarrow> u32 \<Rightarrow> GCRegisters \<Rightarrow> GMSparseExclusive
     \<Rightarrow> GMResult option \<Rightarrow> GMExclusiveDiagnostic option \<Rightarrow> sequence_result" where
  "sequence_loop 0 fetch start memory i r monitor fault d =
     (GM_STEP_UNSUPPORTED, memory, None, fault,
      map_option (\<lambda>d. d\<lparr>dg_reason := ''[software-vm] exclusive step budget at ''\<rparr>) d)"
| "sequence_loop (Suc k) fetch start memory i r monitor fault d =
     (let d = map_option (\<lambda>d. d\<lparr>dg_pc := rpc r, dg_reason := ''[software-vm] exclusive encoding at ''\<rparr>) d;
          (e, memory, r, monitor, f, finished) = sequence_step memory i r monitor;
          fault = (case f of Some g \<Rightarrow> Some g | None \<Rightarrow> fault)
      in if e \<noteq> GM_STEP_OK then (e, memory, None, fault, sequence_diagnostic d i)
         else if finished \<or> rpc r < start \<or> start + 128 \<le> rpc r
         then (GM_STEP_OK, memory, Some r, Some GM_OK, d)
         else case fetch (rpc r) of
           None \<Rightarrow> (GM_STEP_FAULT, memory, None, Some GM_INVALID, d)
         | Some j \<Rightarrow> sequence_loop k fetch start memory j r monitor fault d)"

text \<open>\<open>present\<close> is \<open>False\<close> when the pointer to the registers, to the fetch or to the fault is null.\<close>

definition gm_exclusive_sequence ::
  "Space option \<Rightarrow> u32 \<Rightarrow> GCRegisters \<Rightarrow> (u64 \<Rightarrow> u32 option) \<Rightarrow> bool \<Rightarrow> GMExclusiveDiagnostic option
     \<Rightarrow> sequence_result" where
  "gm_exclusive_sequence memory i r fetch present d =
     (if \<not> present \<or> \<not> gm_exclusive_instruction i then (GM_STEP_UNSUPPORTED, memory, None, None, d)
      else if rpc r > UINT64_MAX - 128 then (GM_STEP_FAULT, memory, None, Some GM_INVALID, d)
      else sequence_loop 32 fetch (rpc r) memory i r
             \<lparr>ex_address = 0, ex_generation = 0, ex_mapping_generation = 0, ex_size = 0, ex_valid = False\<rparr> None d)"

end
