(* ===== verification/GuestExclusiveLaws.thy ===== *)
theory GuestExclusiveLaws
  imports GuestExclusive GuestMemoryInstructionLaws
begin

text \<open>
  The properties of the exclusive sequences: a sequence that is not completed changes nothing, with
  one exception, the compare-and-swap with both orderings and the zero register as its first
  operand, which the sequence takes for a load.
\<close>

section \<open>Bits of an encoding\<close>

lemma and_eq_bit: "i AND m = v \<Longrightarrow> bit m k \<Longrightarrow> bit i k = bit v k" for i :: u32
  by (auto simp: bit_and_iff)

lemma ibit_bit: "ibit i k \<longleftrightarrow> bit i k"
  by (simp add: ibit_def and_one_eq bit_iff_odd_drop_bit odd_iff_mod_2_eq_one mod2_eq_if)

text \<open>\<open>CASAL\<close> of any size with \<open>XZR\<close> as the register compared.\<close>

definition casal_zero :: "u32 \<Rightarrow> bool" where
  "casal_zero i \<longleftrightarrow> i AND 0x3ffffc00 = 0x08fffc00"

lemma casal_zeroI:
  assumes "i AND 0x3fa07c00 = 0x08a07c00" and "i AND 0x3f9ffc00 = 0x089ffc00" and "bit i 22"
  shows "casal_zero i"
proof -
  have "(i AND 0x3fa07c00) OR (i AND 0x3f9ffc00) OR (i AND 0x00400000) = 0x08fffc00"
  proof -
    have "i AND push_bit 22 1 = push_bit 22 1"
      using assms(3) by (intro bit_word_eqI) (auto simp: bit_and_iff bit_push_bit_iff bit_1_iff simp del: push_bit_of_1)
    then have "i AND 0x00400000 = 0x00400000" by simp
    then show ?thesis by (simp add: assms)
  qed
  then have "i AND (0x3fa07c00 OR 0x3f9ffc00 OR 0x00400000) = 0x08fffc00"
    by (simp only: bit.conj_disj_distrib)
  then show ?thesis by (simp add: casal_zero_def)
qed

text \<open>The groups of encodings exclude each other.\<close>

lemma ordered_bits: "i AND 0x3f9ffc00 = 0x089ffc00 \<Longrightarrow> \<not> bit i 29 \<and> bit i 23" for i :: u32
  using and_eq_bit [of i "0x3f9ffc00" "0x089ffc00" 29] and_eq_bit [of i "0x3f9ffc00" "0x089ffc00" 23] by simp

lemma single_bits: "i AND 0x3b000000 = 0x39000000 \<or> i AND 0x3b000000 = 0x38000000 \<Longrightarrow> bit i 29 \<and> bit i 28" for i :: u32
  using and_eq_bit [of i "0x3b000000" "0x39000000" 29] and_eq_bit [of i "0x3b000000" "0x39000000" 28]
    and_eq_bit [of i "0x3b000000" "0x38000000" 29] and_eq_bit [of i "0x3b000000" "0x38000000" 28] by auto

lemma pair_bits: "i AND 0x3a000000 = 0x28000000 \<Longrightarrow> bit i 29 \<and> \<not> bit i 28" for i :: u32
  using and_eq_bit [of i "0x3a000000" "0x28000000" 29] and_eq_bit [of i "0x3a000000" "0x28000000" 28] by simp

lemma casp_bits: "i AND 0xbfa07c00 = 0x08207c00 \<Longrightarrow> \<not> bit i 29 \<and> \<not> bit i 23" for i :: u32
  using and_eq_bit [of i "0xbfa07c00" "0x08207c00" 29] and_eq_bit [of i "0xbfa07c00" "0x08207c00" 23] by simp

lemma cas_bits: "i AND 0x3fa07c00 = 0x08a07c00 \<Longrightarrow> \<not> bit i 29" for i :: u32
  using and_eq_bit [of i "0x3fa07c00" "0x08a07c00" 29] by simp

lemma structure_bits: "i AND 0xbe000000 = 0x0c000000 \<Longrightarrow> bit i 26" for i :: u32
  using and_eq_bit [of i "0xbe000000" "0x0c000000" 26] by simp

text \<open>No other atomic instruction is taken for a load.\<close>

lemma atomic_reads:
  assumes "atomic_instruction i" and "access_reads i"
  shows "casal_zero i"
proof -
  have rc: "i AND 0x3ffffc00 \<noteq> 0x38bfc000" using assms(1) by (simp add: atomic_instruction_def rcpc_load_def)
  then have rmw: "i AND 0x3f200c00 \<noteq> 0x38200000" using assms(2) by (auto simp: access_reads_def Let_def)
  then have group: "i AND 0xbfa07c00 = 0x08207c00 \<or> i AND 0x3fa07c00 = 0x08a07c00"
    using assms(1) by (auto simp: atomic_instruction_def)
  then have "\<not> bit i 29" using casp_bits cas_bits by blast
  then have ord: "i AND 0x3f9ffc00 = 0x089ffc00" "bit i 22"
    using assms(2) rc rmw single_bits [of i] pair_bits [of i] by (auto simp: access_reads_def Let_def ibit_bit)
  then have "i AND 0x3fa07c00 = 0x08a07c00" using group casp_bits [of i] ordered_bits [of i] by blast
  then show ?thesis using ord by (rule casal_zeroI)
qed

lemma decode_reads:
  assumes "decode_access i r = Inr c" and "access_reads i" and "\<not> ibit i 26"
  shows "ac_load c"
proof -
  consider (ordered) "rcpc_load i \<or> i AND 0x3f9ffc00 = 0x089ffc00" "decode_ordered i r = Inr c"
    | (single) "\<not> rcpc_load i" "i AND 0x3f9ffc00 \<noteq> 0x089ffc00"
        "i AND 0x3b000000 = 0x39000000 \<or> i AND 0x3b000000 = 0x38000000" "decode_single i r = Inr c"
    | (pair) "\<not> rcpc_load i" "i AND 0x3f9ffc00 \<noteq> 0x089ffc00" "i AND 0x3a000000 = 0x28000000" "decode_pair i r = Inr c"
    using assms(1) by (auto simp: decode_access_def split: if_splits)
  then show ?thesis
  proof cases
    case ordered
    then have "ac_load c = (rcpc_load i \<or> ibit i 22)" by (auto simp: decode_ordered_def Let_def split: if_splits)
    then show ?thesis
      using ordered(1) assms(2) ordered_bits [of i] single_bits [of i] pair_bits [of i]
      by (auto simp: access_reads_def rcpc_load_def Let_def split: if_splits)
  next
    case single
    then have "ifield i 22 3 \<noteq> 0"
      using assms(2) single_bits [of i] pair_bits [of i] by (auto simp: access_reads_def rcpc_load_def Let_def split: if_splits)
    moreover obtain sz sg w where "single_kind i = Some (ac_load c, sz, sg, w)"
      using single(4) by (auto simp: decode_single_def split: option.splits)
    ultimately show ?thesis using assms(3) by (auto simp: single_kind_def Let_def split: if_splits)
  next
    case pair
    then have "ibit i 22"
      using assms(2) single_bits [of i] pair_bits [of i] by (auto simp: access_reads_def rcpc_load_def Let_def split: if_splits)
    then show ?thesis using pair(4) by (auto simp: decode_pair_def Let_def split: if_splits option.splits)
  qed
qed

text \<open>An access the sequence takes for a load does not write, the exception apart.\<close>

lemma reads_no_write:
  assumes ok: "space_ok s" and r: "regs_ok r" and rd: "access_reads i" "\<not> ibit i 26" "\<not> casal_zero i"
    and eq: "gm_memory_step (Some s) i r True = (GM_STEP_OK, m, r', f)"
  shows "m = Some s"
proof -
  have plain: "\<not> atomic_instruction i" using atomic_reads rd by blast
  have "i AND 0xbe000000 \<noteq> 0x0c000000" using structure_bits [of i] rd(2) by (auto simp: ibit_bit)
  then have "\<exists>c. decode_access i r = Inr c \<and> access_step (Some s) i r c = (GM_STEP_OK, m, r', f)"
    using eq plain decode_access_error [of i r]
    unfolding gm_memory_step_def by (auto split: if_splits sum.splits GMMemoryStep.splits)
  then obtain c where c: "decode_access i r = Inr c" "access_step (Some s) i r c = (GM_STEP_OK, m, r', f)" by blast
  have load: "ac_load c" by (rule decode_reads [OF c(1) rd(1,2)])
  have sz: "ac_size c \<le> 16" using access_size_bounds [OF c(1)] by simp
  let ?n = "length (access_registers i c) * ac_size c"
  have n32: "?n \<le> 32" using sz by (simp add: access_registers_def)
  have n: "unat (of_nat ?n :: u64) \<le> length (replicate 32 (0 :: u8))"
    using n32 unat_of_nat_u64 [of ?n] by simp
  obtain f' m' b where g: "gm_sparse_read (Some s) (ac_address c) (Some (replicate 32 0)) (of_nat ?n) = (f', m', b)"
    by (metis prod_cases3)
  have "m' = Some s" by (rule read_step(1) [OF ok n g])
  then show ?thesis using c(2) load g by (auto simp: access_step_def Let_def split: if_splits)
qed

section \<open>Sequences\<close>

lemma load_exclusive_keeps:
  assumes ok: "space_ok s" and len: "unat n \<le> length buf"
    and eq: "gm_sparse_load_exclusive (Some s) a (Some buf) n x = (f, m, b, x')"
  shows "m = Some s"
  using eq access_locked_read(1) [OF ok len]
  by (auto simp: gm_sparse_load_exclusive_def Let_def split: prod.splits if_splits)

lemma store_exclusive_step:
  assumes ok: "space_ok s" and len: "unat n \<le> length buf"
    and eq: "gm_sparse_store_exclusive (Some s) a (Some buf) n (Some x) True = (f, m, x', st)"
  shows "\<exists>s'. m = Some s' \<and> sparse_step s s' \<and> (f \<noteq> GM_OK \<longrightarrow> s' = s)"
proof -
  have "\<exists>s'. m = Some s' \<and> (f \<noteq> GM_OK \<longrightarrow> s' = s)"
    using eq access_locked_write [OF ok len]
    by (auto simp: gm_sparse_store_exclusive_def Let_def split: prod.splits if_splits)
  then obtain s' where s': "m = Some s'" "f \<noteq> GM_OK \<longrightarrow> s' = s" by blast
  have "sparse_step s s'"
    using sparse_step.store_exclusive [of "Some buf" n s a "Some x" True f s' x' st] eq s'(1) len by (simp add: buffer_ok_def)
  then show ?thesis using s' by blast
qed

definition seq_ok :: "Space \<Rightarrow> exclusive_result \<Rightarrow> bool" where
  "seq_ok s res \<longleftrightarrow> (case res of (e, m, r, x, f, finished) \<Rightarrow>
     \<exists>s'. m = Some s' \<and> (s' = s \<or> sparse_step s s') \<and> (e \<noteq> GM_STEP_OK \<or> \<not> finished \<longrightarrow> s' = s))"

lemma exclusive_ok:
  assumes ok: "space_ok s"
  shows "seq_ok s (exclusive (Some s) i r x)"
proof -
  let ?sz = "2 ^ unat (drop_bit 30 i) :: nat"
  let ?parts = "if ibit i 21 then [ifield i 0 31, ifield i 10 31] else [ifield i 0 31]"
  let ?n = "of_nat (?sz * length ?parts) :: u64" and ?a = "reg r (ifield i 5 31) True"
  let ?bytes = "concat (map (\<lambda>index. scalar_bytes (reg r index False) ?sz) ?parts)"
  let ?pad = "?bytes @ replicate (16 - length ?bytes) 0"
  have sz: "?sz * length ?parts \<le> 16" using power_top_bits [of i] by auto
  then have n: "unat ?n = ?sz * length ?parts" by (intro unat_of_nat_u64) simp
  obtain f m b x' where l: "gm_sparse_load_exclusive (Some s) ?a (Some (replicate 16 0)) ?n (Some x) = (f, m, b, x')"
    by (metis prod_cases4)
  have "unat ?n \<le> length (replicate 16 (0 :: u8))" using n sz by simp
  then have m: "m = Some s" by (rule load_exclusive_keeps [OF ok _ l])
  obtain g m2 x2 st where w: "gm_sparse_store_exclusive (Some s) ?a (Some ?pad) ?n (Some x) True = (g, m2, x2, st)"
    by (metis prod_cases4)
  have "length ?bytes = ?sz * length ?parts" by simp
  then have "unat ?n \<le> length ?pad" using n by simp
  from store_exclusive_step [OF ok this w] obtain s2 where s2: "m2 = Some s2" "sparse_step s s2" "g \<noteq> GM_OK \<longrightarrow> s2 = s" by blast
  show ?thesis
  proof (cases "ibit i 22")
    case True
    then show ?thesis unfolding exclusive_def seq_ok_def Let_def using l m by (auto split: if_splits)
  next
    case False
    then show ?thesis unfolding exclusive_def seq_ok_def Let_def using w s2 by (auto split: if_splits)
  qed
qed

lemma to_access_ok: "regs_ok (to_access r)"
  by (simp add: regs_ok_def to_access_def)

lemma sequence_step_ok:
  assumes ok: "space_ok s" and nz: "\<not> casal_zero i"
  shows "seq_ok s (sequence_step (Some s) i r x)"
proof (cases "gm_exclusive_instruction i \<or> i AND 0xfffff0ff = 0xd503305f")
  case True
  then show ?thesis using exclusive_ok [OF ok, of i r x] by (auto simp: sequence_step_def seq_ok_def)
next
  case False
  obtain b r' where g: "gc_register_step (Some r) i = (b, r')" by (metis prod.exhaust)
  obtain e m a f where st: "gm_memory_step (Some s) i (to_access (the r')) True = (e, m, a, f)" by (metis prod_cases4)
  have "step_ok s (to_access (the r')) (e, m, a, f)"
    using gm_memory_step_ok [OF ok to_access_ok] st by metis
  then obtain s' where s': "m = Some s'" "s' = s \<or> sparse_step s s'" "e \<noteq> GM_STEP_OK \<longrightarrow> s' = s"
    by (auto simp: step_ok_def)
  have "s' = s" if "access_reads i" "\<not> ibit i 26" "e = GM_STEP_OK"
    using reads_no_write [OF ok to_access_ok that(1,2) nz] st that(3) s'(1) by blast
  then show ?thesis using False g st s' by (auto simp: sequence_step_def seq_ok_def Let_def)
qed

lemma sequence_loop_ok:
  assumes "space_ok s" and "\<not> casal_zero i" and fetch: "\<forall>pc j. fetch pc = Some j \<longrightarrow> \<not> casal_zero j"
    and "sequence_loop k fetch start (Some s) i r x fault d = (e, m, r', f, d')"
  shows "\<exists>s'. m = Some s' \<and> (s' = s \<or> sparse_step s s') \<and> (e \<noteq> GM_STEP_OK \<longrightarrow> s' = s \<and> r' = None)"
  using assms(1,2,4)
proof (induction k arbitrary: i r x fault d)
  case 0
  then show ?case by auto
next
  case (Suc k)
  obtain e1 m1 r1 x1 f1 fin where st: "sequence_step (Some s) i r x = (e1, m1, r1, x1, f1, fin)"
    by (metis prod_cases6)
  obtain s1 where s1: "m1 = Some s1" "s1 = s \<or> sparse_step s s1" "e1 \<noteq> GM_STEP_OK \<or> \<not> fin \<longrightarrow> s1 = s"
    using sequence_step_ok [OF Suc.prems(1,2), of r x] st by (auto simp: seq_ok_def)
  show ?case
  proof (cases "e1 \<noteq> GM_STEP_OK \<or> fin \<or> rpc r1 < start \<or> start + 128 \<le> rpc r1")
    case True
    then show ?thesis using Suc.prems(3) st s1 by (auto simp: Let_def split: if_splits)
  next
    case False
    then have "s1 = s" using s1(3) by blast
    show ?thesis
    proof (cases "fetch (rpc r1)")
      case None
      then show ?thesis using Suc.prems(3) st s1(1) \<open>s1 = s\<close> False by (auto simp: Let_def)
    next
      case (Some j)
      then have "\<not> casal_zero j" using fetch by blast
      then show ?thesis
        using Suc.prems(3) st s1(1) \<open>s1 = s\<close> False Some by (intro Suc.IH [OF Suc.prems(1)]) (simp_all add: Let_def)
    qed
  qed
qed

lemma exclusive_sequence_ok:
  assumes "space_ok s" and "\<not> casal_zero first" and "\<forall>pc j. fetch pc = Some j \<longrightarrow> \<not> casal_zero j"
    and "gm_exclusive_sequence (Some s) first r fetch True d = (e, m, r', f, d')"
  shows "\<exists>s'. m = Some s' \<and> (s' = s \<or> sparse_step s s') \<and> (e \<noteq> GM_STEP_OK \<longrightarrow> s' = s \<and> r' = None)"
proof (cases "gm_exclusive_instruction first \<and> \<not> rpc r > UINT64_MAX - 128")
  case False
  then show ?thesis using assms(4) by (auto simp: gm_exclusive_sequence_def split: if_splits)
next
  case True
  then have "sequence_loop 32 fetch (rpc r) (Some s) first r
      \<lparr>ex_address = 0, ex_generation = 0, ex_mapping_generation = 0, ex_size = 0, ex_valid = False\<rparr> None d = (e, m, r', f, d')"
    using assms(4) unfolding gm_exclusive_sequence_def by (auto split: if_splits)
  from sequence_loop_ok [OF assms(1-3) this] show ?thesis .
qed

section \<open>Properties\<close>

text \<open>C18. An exclusive sequence is one operation: when it does not end well, the registers and the whole
  memory are as they were, and when it does, the memory has changed by one call of its interface
  at most. This holds for every sequence without a \<open>CASAL\<close> whose compared register is \<open>XZR\<close>.\<close>

theorem exclusive_sequence_all_or_nothing:
  assumes "space_ok s" and "\<not> casal_zero first" and "\<forall>pc j. fetch pc = Some j \<longrightarrow> \<not> casal_zero j"
    and "gm_exclusive_sequence (Some s) first r fetch True d = (e, m, r', f, d')"
  shows "\<exists>s'. m = Some s' \<and> space_ok s' \<and> (s' = s \<or> sparse_step s s') \<and> (e \<noteq> GM_STEP_OK \<longrightarrow> s' = s \<and> r' = None)"
proof -
  obtain s' where s': "m = Some s'" "s' = s \<or> sparse_step s s'" "e \<noteq> GM_STEP_OK \<longrightarrow> s' = s \<and> r' = None"
    using exclusive_sequence_ok [OF assms] by blast
  then have "space_ok s'" using sparse_step_effect assms(1) by (auto simp: sm_effect_def)
  then show ?thesis using s' by blast
qed

text \<open>\<open>LDXR X0, [X1]\<close> followed by an undefined instruction.\<close>

definition exclusive_registers :: GCRegisters where
  "exclusive_registers = \<lparr>rx = (\<lambda>k. if k = 1 then 0x8000 else of_nat k), rsp = 0, rpc = 0x1000, nzcv = 0\<rparr>"

lemma ldxr_facts:
  "gm_exclusive_instruction 0xc85f7c20" "\<not> exclusive_unsupported 0xc85f7c20" "ibit 0xc85f7c20 22"
  "\<not> ibit 0xc85f7c20 21" "unat (drop_bit 30 (0xc85f7c20 :: u32)) = 3" "ifield 0xc85f7c20 5 31 = 1"
  "reg exclusive_registers 1 True = 0x8000" "\<not> casal_zero 0xc85f7c20" "\<not> casal_zero 0"
  by code_simp+

lemma ldxr_sample:
  obtains r x where "sequence_step (Some sparse_sample) 0xc85f7c20 exclusive_registers
      \<lparr>ex_address = 0, ex_generation = 0, ex_mapping_generation = 0, ex_size = 0, ex_valid = False\<rparr> =
    (GM_STEP_OK, Some sparse_sample, r, x, Some GM_OK, False)" and "rpc r = 0x1004" and "rx r 1 = 0x8000" and "rx r 2 = 2"
proof -
  let ?x = "\<lparr>ex_address = 0, ex_generation = 0, ex_mapping_generation = 0, ex_size = 0, ex_valid = False\<rparr>"
  obtain b x where l: "gm_sparse_load_exclusive (Some sparse_sample) 0x8000 (Some (replicate 8 0)) 8 (Some ?x) =
      (GM_OK, Some sparse_sample, b, Some x)" by (rule sparse_sample_load)
  obtain f m b' x' where l16: "gm_sparse_load_exclusive (Some sparse_sample) 0x8000 (Some (replicate 16 0)) 8 (Some ?x) = (f, m, b', x')"
    by (metis prod_cases4)
  have at: "atomic_size 0x8000 8" by code_simp
  obtain s' where a: "access_locked sparse_sample 0x8000 (Some (replicate 16 0)) 8 False = (f, s', b')" and "m = Some s'"
    and x': "f = GM_OK \<longrightarrow> x' \<noteq> None"
    using l16 at by (auto simp: gm_sparse_load_exclusive_def Let_def split: prod.splits if_splits)
  note rd = access_locked_read [OF sparse_sample_ok _ a]
  have "f = GM_OK" "m = Some sparse_sample" "x' \<noteq> None"
    using rd(1,2) x' \<open>m = Some s'\<close> sparse_sample_check(3) [of GM_READ] by simp_all
  then obtain y where y: "x' = Some y" by blast
  show thesis
    by (rule that [of "(put_x exclusive_registers (ifield 0xc85f7c20 0 31) (scalar_value (the b') 8))\<lparr>rpc := 0x1004\<rparr>" y])
      (use l16 y \<open>f = GM_OK\<close> \<open>m = Some sparse_sample\<close> ldxr_facts in
        \<open>simp_all add: sequence_step_def exclusive_def Let_def exclusive_registers_def put_x_def ifield_def\<close>)
qed

lemma undefined_step:
  assumes "rpc r = 0x1004 \<or> rpc r = 0x1008"
  shows "\<exists>r' f. sequence_step (Some s) 0 r x = (GM_STEP_UNSUPPORTED, Some s, r', x, f, False)"
proof -
  have d: "dc_op (decode pc 0) = INVALID" for pc by (simp add: decode_def gc_blank_def Let_def)
  have g: "gc_register_step (Some r) 0 = (False, Some r)"
    using assms d by (auto simp: gc_register_step_def register_decoded_def Let_def)
  have "decode_access 0 a = Inl GM_STEP_UNSUPPORTED" for a
    by (simp add: decode_access_def rcpc_load_def)
  moreover have "\<not> atomic_instruction 0" by code_simp
  ultimately have m: "gm_memory_step (Some s) 0 (to_access r) True = (GM_STEP_UNSUPPORTED, Some s, to_access r, None)"
    using assms by (auto simp: gm_memory_step_def to_access_def ifield_def)
  show ?thesis
    by (simp add: sequence_step_def g m gm_exclusive_instruction_def ibit_def)
qed

lemma sequence_loop_next:
  assumes "0 < k" and "sequence_step memory i r monitor = (GM_STEP_OK, memory', r', monitor', f, False)"
    and "start \<le> rpc r'" and "rpc r' < start + 128" and "fetch (rpc r') = Some j"
  shows "\<exists>fault'. sequence_loop k fetch start memory i r monitor fault None =
    sequence_loop (k - 1) fetch start memory' j r' monitor' fault' None"
  using assms by (cases k) (auto simp: not_le not_less)

lemma sequence_loop_stop:
  assumes "0 < k" and "sequence_step memory i r monitor = (e, memory', r', monitor', f, fin)" and "e \<noteq> GM_STEP_OK"
  shows "\<exists>fault'. sequence_loop k fetch start memory i r monitor fault None = (e, memory', None, fault', None)"
  using assms by (cases k) (auto simp: sequence_diagnostic_def)

lemma ldxr_sequence:
  "gm_exclusive_sequence (Some s) 0xc85f7c20 exclusive_registers fetch True None =
     sequence_loop 32 fetch 0x1000 (Some s) 0xc85f7c20 exclusive_registers
       \<lparr>ex_address = 0, ex_generation = 0, ex_mapping_generation = 0, ex_size = 0, ex_valid = False\<rparr> None None"
  by (simp add: gm_exclusive_sequence_def ldxr_facts exclusive_registers_def)

theorem exclusive_sequence_all_or_nothing_witness:
  "\<exists>d. gm_exclusive_sequence (Some sparse_sample) 0xc85f7c20 exclusive_registers (\<lambda>_. Some 0) True None =
    (GM_STEP_UNSUPPORTED, Some sparse_sample, None, d, None)"
proof -
  obtain e m r' f d' where eq: "gm_exclusive_sequence (Some sparse_sample) 0xc85f7c20 exclusive_registers (\<lambda>_. Some 0) True None =
    (e, m, r', f, d')" by (metis prod_cases5)
  obtain r x where l: "sequence_step (Some sparse_sample) 0xc85f7c20 exclusive_registers
      \<lparr>ex_address = 0, ex_generation = 0, ex_mapping_generation = 0, ex_size = 0, ex_valid = False\<rparr> =
    (GM_STEP_OK, Some sparse_sample, r, x, Some GM_OK, False)" "rpc r = 0x1004"
    by (rule ldxr_sample)
  obtain r2 f2 where u: "sequence_step (Some sparse_sample) 0 r x = (GM_STEP_UNSUPPORTED, Some sparse_sample, r2, x, f2, False)"
    using undefined_step [of r sparse_sample x] l(2) by blast
  obtain f1 where s1: "sequence_loop 32 (\<lambda>_. Some 0) 0x1000 (Some sparse_sample) 0xc85f7c20 exclusive_registers
      \<lparr>ex_address = 0, ex_generation = 0, ex_mapping_generation = 0, ex_size = 0, ex_valid = False\<rparr> None None =
    sequence_loop 31 (\<lambda>_. Some 0) 0x1000 (Some sparse_sample) 0 r x f1 None"
    using sequence_loop_next [OF _ l(1), of 32 "0x1000" "\<lambda>_. Some 0" 0 None] l(2) by auto
  obtain f2 where "sequence_loop 31 (\<lambda>_. Some 0) 0x1000 (Some sparse_sample) 0 r x f1 None =
      (GM_STEP_UNSUPPORTED, Some sparse_sample, None, f2, None)"
    using sequence_loop_stop [OF _ u, of 31] by fastforce
  then have "e = GM_STEP_UNSUPPORTED" "d' = None" using eq by (simp_all add: ldxr_sequence s1)
  moreover have "\<forall>pc j. Some 0 = Some j \<longrightarrow> \<not> casal_zero j" using ldxr_facts(9) by simp
  then have "\<exists>s'. m = Some s' \<and> space_ok s' \<and> (s' = sparse_sample \<or> sparse_step sparse_sample s') \<and>
      (e \<noteq> GM_STEP_OK \<longrightarrow> s' = sparse_sample \<and> r' = None)"
    by (intro exclusive_sequence_all_or_nothing [OF sparse_sample_ok ldxr_facts(8) _ eq]) simp
  ultimately show ?thesis using eq by auto
qed

definition casal_fetch :: "u64 \<Rightarrow> u32 option" where
  "casal_fetch pc = Some (if pc = 0x1004 then 0xc8fffc22 else 0)"

lemma casal_facts:
  "\<not> gm_exclusive_instruction 0xc8fffc22" "\<not> ibit 0xc8fffc22 26" "access_reads 0xc8fffc22" "atomic_instruction 0xc8fffc22"
  "ifield 0xc8fffc22 0 31 = 2" "ifield 0xc8fffc22 5 31 = 1" "ifield 0xc8fffc22 16 31 = 31"
  "unat (drop_bit 30 (0xc8fffc22 :: u32)) = 3" "scalar_bytes 2 8 = [2, 0, 0, 0, 0, 0, 0, 0]"
  "scalar_bytes 0 8 = replicate 8 0"
  by code_simp+

lemma casal_step:
  assumes "rpc r = 0x1004" and "rx r 1 = 0x8000" and "rx r 2 = 2"
  obtains s' r' f where "sequence_step (Some sparse_sample) 0xc8fffc22 r x = (GM_STEP_OK, Some s', r', x, f, False)"
    and "rpc r' = 0x1008" and "sm_byte s' 0x8000 = 2"
proof -
  have "dc_op (decode 0x1004 0xc8fffc22) = INVALID" by code_simp
  then have g: "gc_register_step (Some r) 0xc8fffc22 = (False, Some r)"
    using assms(1) by (auto simp: gc_register_step_def register_decoded_def Let_def)
  obtain f m old where c: "gm_sparse_compare_exchange (Some sparse_sample) 0x8000 (Some (replicate 8 0))
      (Some [2, 0, 0, 0, 0, 0, 0, 0]) True 8 = (f, m, old)" by (metis prod_cases3)
  have at: "atomic_size 0x8000 8" by code_simp
  have z: "map (\<lambda>i. sm_byte sparse_sample (0x8000 + of_nat i)) [0..<unat (8 :: u64)] = take (unat (8 :: u64)) (replicate 8 0)"
    by code_simp
  obtain s' b where w: "m = Some s'" "access_locked sparse_sample 0x8000 (Some [2, 0, 0, 0, 0, 0, 0, 0]) 8 True = (f, s', b)"
    using gm_sparse_compare_exchange_steps [OF sparse_sample_ok TrueI at c] sparse_sample_check(3) [of "GM_READ OR GM_WRITE"] z
    by auto
  have f: "f = GM_OK" using sparse_sample_ready(6) [of "[2, 0, 0, 0, 0, 0, 0, 0]"] w(2) by simp
  have len: "unat (8 :: u64) \<le> length [2, 0, 0, 0, 0, 0, 0, 0 :: u8]" by simp
  have byte: "sm_byte s' 0x8000 = 2"
    using access_locked_write [OF sparse_sample_ok len w(2)] f by (simp add: in_range_def)
  have step: "gm_memory_step (Some sparse_sample) 0xc8fffc22 (to_access r) True =
      (GM_STEP_OK, Some s', retire (to_access r), Some GM_OK)"
    using c w(1) f assms casal_facts
    by (simp add: gm_memory_step_def atomic_step_def cas_step_def to_access_def mget_def set_x_def Let_def)
  show thesis
    by (rule that [of s' "from_access r (retire (to_access r))" "Some GM_OK"])
      (use g step casal_facts assms(1) byte in
        \<open>simp_all add: sequence_step_def Let_def from_access_def retire_def to_access_def\<close>)
qed

text \<open>C23. The exception is real: \<open>LDXR X0, [X1]\<close>, \<open>CASAL XZR, X2, [X1]\<close> and an undefined instruction form
  a sequence that is rejected after the compare-and-swap has written the memory.\<close>

theorem exclusive_sequence_casal_zero:
  "\<exists>s' f d. gm_exclusive_sequence (Some sparse_sample) 0xc85f7c20 exclusive_registers casal_fetch True None =
      (GM_STEP_UNSUPPORTED, Some s', None, f, d) \<and>
    sm_byte sparse_sample 0x8000 = 0 \<and> sm_byte s' 0x8000 = 2"
proof -
  obtain r x where l: "sequence_step (Some sparse_sample) 0xc85f7c20 exclusive_registers
      \<lparr>ex_address = 0, ex_generation = 0, ex_mapping_generation = 0, ex_size = 0, ex_valid = False\<rparr> =
    (GM_STEP_OK, Some sparse_sample, r, x, Some GM_OK, False)" "rpc r = 0x1004" "rx r 1 = 0x8000" "rx r 2 = 2"
    by (rule ldxr_sample)
  obtain s' r' f where c: "sequence_step (Some sparse_sample) 0xc8fffc22 r x = (GM_STEP_OK, Some s', r', x, f, False)"
      "rpc r' = 0x1008" "sm_byte s' 0x8000 = 2"
    by (rule casal_step [OF l(2-4)])
  obtain r2 f2 where u: "sequence_step (Some s') 0 r' x = (GM_STEP_UNSUPPORTED, Some s', r2, x, f2, False)"
    using undefined_step [of r' s' x] c(2) by blast
  obtain f1 where s1: "sequence_loop 32 casal_fetch 0x1000 (Some sparse_sample) 0xc85f7c20 exclusive_registers
      \<lparr>ex_address = 0, ex_generation = 0, ex_mapping_generation = 0, ex_size = 0, ex_valid = False\<rparr> None None =
    sequence_loop 31 casal_fetch 0x1000 (Some sparse_sample) 0xc8fffc22 r x f1 None"
    using sequence_loop_next [OF _ l(1), of 32 "0x1000" casal_fetch "0xc8fffc22" None] l(2) by (auto simp: casal_fetch_def)
  obtain f2 where s2: "sequence_loop 31 casal_fetch 0x1000 (Some sparse_sample) 0xc8fffc22 r x f1 None =
      sequence_loop 30 casal_fetch 0x1000 (Some s') 0 r' x f2 None"
    using sequence_loop_next [OF _ c(1), of 31 "0x1000" casal_fetch 0 f1] c(2) by (auto simp: casal_fetch_def)
  obtain f3 where s3: "sequence_loop 30 casal_fetch 0x1000 (Some s') 0 r' x f2 None =
      (GM_STEP_UNSUPPORTED, Some s', None, f3, None)"
    using sequence_loop_stop [OF _ u, of 30] by fastforce
  have "sm_byte sparse_sample 0x8000 = 0" by code_simp
  then show ?thesis using c(3) by (simp add: ldxr_sequence s1 s2 s3)
qed

end
