(* ===== verification/GuestVMBudget.thy ===== *)
theory GuestVMBudget
  imports Prelude
begin

text \<open>
  The virtual memory budget of \<open>runtime/GuestVMBudget.c\<close>: large anonymous reservations are counted,
  mapped smaller than asked when the budget is used up, and end in a guard page; the part that was
  asked for and not mapped is never touched for the application.

  The host's memory calls are not part of the repository. They are the fields of a record
  \<open>Kernel\<close> over an arbitrary kernel state, an argument of every operation that calls them. A call
  returns an error number or its result, with the kernel state after it. \<open>k_region\<close> is the answer
  of \<open>vm_region_64\<close>: the first mapped region that ends above the address, if any. \<open>k_page\<close> is the
  page size and \<open>k_header\<close> the address of the executable's header. The unfair lock makes each
  operation one step. The arrays of regions and claims with their counts are lists; a pointer to a
  region is its index.
\<close>

section \<open>Definitions\<close>

abbreviation GV_MAX_REGIONS :: nat where "GV_MAX_REGIONS \<equiv> 256"
abbreviation GV_MAX_CLAIMS :: nat where "GV_MAX_CLAIMS \<equiv> 1024"

abbreviation MAP_FIXED :: u32 where "MAP_FIXED \<equiv> 0x10"
abbreviation MAP_ANON :: u32 where "MAP_ANON \<equiv> 0x1000"
abbreviation (input) PROT_NONE :: u32 where "PROT_NONE \<equiv> 0"
abbreviation ENOMEM :: u32 where "ENOMEM \<equiv> 12"
abbreviation EINVAL :: u32 where "EINVAL \<equiv> 22"

record 'k Kernel =
  k_mmap :: "'k \<Rightarrow> u64 \<Rightarrow> u64 \<Rightarrow> u32 \<Rightarrow> u32 \<Rightarrow> u32 \<Rightarrow> u64 \<Rightarrow> (u32 + u64) \<times> 'k"
  k_munmap :: "'k \<Rightarrow> u64 \<Rightarrow> u64 \<Rightarrow> u32 option \<times> 'k"
  k_mprotect :: "'k \<Rightarrow> u64 \<Rightarrow> u64 \<Rightarrow> u32 \<Rightarrow> u32 option \<times> 'k"
  k_madvise :: "'k \<Rightarrow> u64 \<Rightarrow> u64 \<Rightarrow> u32 \<Rightarrow> u32 option \<times> 'k"
  k_region :: "'k \<Rightarrow> u64 \<Rightarrow> (u64 \<times> u64) option"
  k_page :: u64
  k_header :: u64

record GVRegion =
  v_start :: u64
  v_end :: u64
  v_limit :: u64
  v_span :: u64

record GVClaim =
  c_start :: u64
  c_end :: u64

record GVBudget =
  gv_budget :: u64
  gv_threshold :: u64
  gv_floor :: u64
  gv_page :: u64
  gv_reserved :: u64
  gv_regions :: "GVRegion list"
  gv_claims :: "GVClaim list"

definition gv_init :: "'k Kernel \<Rightarrow> u64 \<Rightarrow> u64 \<Rightarrow> u64 \<Rightarrow> GVBudget" where
  "gv_init K bytes threshold floor =
     \<lparr>gv_budget = bytes, gv_threshold = (if threshold > k_page K then threshold else k_page K),
      gv_floor = (if floor > k_page K then floor - floor mod k_page K else k_page K),
      gv_page = k_page K, gv_reserved = 0, gv_regions = [], gv_claims = []\<rparr>"

definition gv_enabled :: "GVBudget option \<Rightarrow> bool" where
  "gv_enabled b \<longleftrightarrow> (case b of None \<Rightarrow> False | Some b \<Rightarrow> gv_budget b \<noteq> 0)"

definition gv_counts :: "GVBudget option \<Rightarrow> u64 \<Rightarrow> u64 \<Rightarrow> u32 \<Rightarrow> bool" where
  "gv_counts b address sz flags \<longleftrightarrow>
     gv_enabled b \<and> address = 0 \<and> flags AND MAP_ANON \<noteq> 0 \<and> flags AND MAP_FIXED = 0 \<and> gv_threshold (the b) \<le> sz"

definition page_end :: "GVBudget \<Rightarrow> u64 \<Rightarrow> u64 \<Rightarrow> u64" where
  "page_end b address sz =
     (let e = address + sz; rounded = e + (gv_page b - 1)
      in if e < address \<or> rounded < e then 0 else rounded - rounded mod gv_page b)"

datatype Part = OUTSIDE | GRANTED | GUARD | MISSING

definition in_own :: "u64 \<Rightarrow> GVRegion \<Rightarrow> bool" where
  "in_own a r \<longleftrightarrow> v_start r \<le> a \<and> a < v_limit r"

definition anchor_at :: "GVBudget \<Rightarrow> u64 \<Rightarrow> u64 \<times> u64" where
  "anchor_at b address =
     (case find (in_own address) (gv_regions b) of
        Some r \<Rightarrow> (v_start r, v_limit r)
      | None \<Rightarrow>
          (case find (\<lambda>c. c_start c \<le> address \<and> address < c_end c) (gv_claims b) of
             Some c \<Rightarrow> (c_start c, c_end c)
           | None \<Rightarrow> (address, address)))"

text \<open>The two loops of \<open>gv_part\<close>, over the regions from index \<open>i\<close> on. The first returns a region whose
  missing part holds the cursor, or how far the piece may reach; the second classifies the piece.\<close>

fun missing_loop :: "GVRegion list \<Rightarrow> nat \<Rightarrow> u64 \<Rightarrow> u64 \<Rightarrow> nat \<times> u64 + u64" where
  "missing_loop [] i cursor lim = Inr lim"
| "missing_loop (r # rs) i cursor lim =
     (if v_limit r \<le> cursor \<and> cursor < v_span r then Inl (i, v_span r)
      else missing_loop rs (Suc i) cursor
             (if cursor < v_limit r \<and> v_limit r < v_span r then min lim (v_limit r) else lim))"

fun own_loop :: "GVRegion list \<Rightarrow> nat \<Rightarrow> u64 \<Rightarrow> u64 \<Rightarrow> Part \<times> u64 \<times> nat option" where
  "own_loop [] i cursor lim = (OUTSIDE, lim, None)"
| "own_loop (r # rs) i cursor lim =
     (if in_own cursor r
      then (if cursor < v_end r then GRANTED else GUARD,
            min (if cursor < v_end r then v_end r else v_limit r) lim, Some i)
      else own_loop rs (Suc i) cursor (if cursor < v_start r then min lim (v_start r) else lim))"

definition gv_part :: "GVBudget \<Rightarrow> u64 \<Rightarrow> u64 \<Rightarrow> u64 \<times> u64 \<Rightarrow> Part \<times> u64 \<times> nat option" where
  "gv_part b cursor e anchor =
     (if fst anchor \<le> cursor \<and> cursor < snd anchor
      then own_loop (gv_regions b) 0 cursor (min e (snd anchor))
      else case missing_loop (gv_regions b) 0 cursor e of
        Inl (i, s) \<Rightarrow> (MISSING, min s e, Some i)
      | Inr lim \<Rightarrow> own_loop (gv_regions b) 0 cursor lim)"

text \<open>\<open>claim\<close>: the loop over the regions from index \<open>i\<close> on, until a claim is recorded.\<close>

function claim_loop :: "nat \<Rightarrow> u64 \<Rightarrow> u64 \<Rightarrow> GVBudget \<Rightarrow> GVBudget" where
  "claim_loop i address sz b =
     (if length (gv_regions b) \<le> i then b
      else let r = gv_regions b ! i
      in if address + sz \<le> v_limit r \<or> v_span r \<le> address then claim_loop (Suc i) address sz b
         else if length (gv_claims b) < GV_MAX_CLAIMS
         then b\<lparr>gv_claims := gv_claims b @ [\<lparr>c_start = address, c_end = page_end b address sz\<rparr>]\<rparr>
         else claim_loop (Suc i) address sz
                (b\<lparr>gv_regions := (gv_regions b)[i := r\<lparr>v_span := if address > v_limit r then address else v_limit r\<rparr>]\<rparr>))"
  by pat_completeness auto
termination by (relation "measure (\<lambda>(i, a, n, b). length (gv_regions b) - i)") auto

definition claim :: "GVBudget \<Rightarrow> u64 \<Rightarrow> u64 \<Rightarrow> GVBudget" where
  "claim b address sz = claim_loop 0 address sz b"

text \<open>An element removed by moving the last one into its place.\<close>

definition take_last :: "nat \<Rightarrow> 'a list \<Rightarrow> 'a list" where
  "take_last i xs = butlast (xs[i := last xs])"

lemma length_take_last [simp]: "length (take_last i xs) = length xs - 1"
  by (simp add: take_last_def)

definition clip_claim :: "u64 \<Rightarrow> u64 \<Rightarrow> GVClaim \<Rightarrow> GVClaim" where
  "clip_claim from to c =
     (if from \<le> c_start c \<and> c_start c < to then c\<lparr>c_start := to\<rparr>
      else if from < c_end c \<and> c_end c \<le> to then c\<lparr>c_end := from\<rparr> else c)"

function unclaim_loop :: "nat \<Rightarrow> u64 \<Rightarrow> u64 \<Rightarrow> GVClaim list \<Rightarrow> GVClaim list" where
  "unclaim_loop i from to cs =
     (if length cs \<le> i then cs
      else let c = cs ! i
      in if from \<le> c_start c \<and> c_end c \<le> to then unclaim_loop i from to (take_last i cs)
         else unclaim_loop (Suc i) from to (cs[i := clip_claim from to c]))"
  by pat_completeness auto
termination by (relation "measure (\<lambda>(i, a, n, cs). length cs - i)") auto

definition unclaim :: "GVBudget \<Rightarrow> u64 \<Rightarrow> u64 \<Rightarrow> GVBudget" where
  "unclaim b from to = b\<lparr>gv_claims := unclaim_loop 0 from to (gv_claims b)\<rparr>"

text \<open>The region that loses its beginning up to \<open>to\<close>.\<close>

definition cut_before :: "u64 \<Rightarrow> GVRegion \<Rightarrow> GVRegion" where
  "cut_before to r = r\<lparr>v_start := to, v_end := if v_end r < to then to else v_end r\<rparr>"

definition forget :: "GVBudget \<Rightarrow> nat \<Rightarrow> u64 \<Rightarrow> u64 \<Rightarrow> GVBudget" where
  "forget b i from to =
     (let r = gv_regions b ! i; rs = gv_regions b
      in if from \<le> v_start r
         then b\<lparr>gv_regions := rs[i := cut_before to r], gv_reserved := gv_reserved b - (to - from)\<rparr>
         else if v_limit r \<le> to
         then b\<lparr>gv_regions := rs[i := r\<lparr>v_end := if v_end r > from then from else v_end r, v_limit := from\<rparr>],
                gv_reserved := gv_reserved b - (to - from)\<rparr>
         else if length rs < GV_MAX_REGIONS
         then b\<lparr>gv_regions := rs[i := cut_before to r] @
                  [\<lparr>v_start = v_start r, v_end = min (v_end r) from, v_limit = from, v_span = from\<rparr>],
                gv_reserved := gv_reserved b - (to - from)\<rparr>
         else b)"

function sweep_loop :: "nat \<Rightarrow> GVBudget \<Rightarrow> GVBudget" where
  "sweep_loop i b =
     (if length (gv_regions b) \<le> i then b
      else let r = gv_regions b ! i
      in if v_start r < v_limit r then sweep_loop (Suc i) b
         else let b = unclaim b (v_limit r) (v_span r)
         in sweep_loop i (b\<lparr>gv_regions := take_last i (gv_regions b)\<rparr>))"
  by pat_completeness auto
termination by (relation "measure (\<lambda>(i, b). length (gv_regions b) - i)") (auto simp: unclaim_def)

definition sweep :: "GVBudget \<Rightarrow> GVBudget" where
  "sweep b = sweep_loop 0 b"

section \<open>Placement of reservations\<close>

definition unmapped :: "'k Kernel \<Rightarrow> 'k \<Rightarrow> u64 \<Rightarrow> u64 \<Rightarrow> bool" where
  "unmapped K k from sz \<longleftrightarrow> (case k_region K k from of None \<Rightarrow> True | Some (address, _) \<Rightarrow> from + sz \<le> address)"

definition overlaps_reservation :: "GVBudget \<Rightarrow> u64 \<Rightarrow> u64 \<Rightarrow> bool" where
  "overlaps_reservation b from sz \<longleftrightarrow>
     (let e = page_end b from sz
      in e = 0 \<or> (\<exists>r \<in> set (gv_regions b). from < v_span r \<and> v_start r < e))"

definition span_after :: "u64 \<Rightarrow> u64 \<Rightarrow> GVRegion list \<Rightarrow> u64" where
  "span_after from sz rs =
     foldl (\<lambda>lim r. if from < v_span r \<and> v_start r < from + sz \<and> lim < v_span r then v_span r else lim) from rs"

primrec span_loop :: "nat \<Rightarrow> 'k Kernel \<Rightarrow> 'k \<Rightarrow> GVBudget \<Rightarrow> u64 \<Rightarrow> u64 \<Rightarrow> u64" where
  "span_loop 0 K k b from sz = 0"
| "span_loop (Suc steps) K k b from sz =
     (if \<not> from + sz > from then 0
      else let lim = span_after from sz (gv_regions b)
      in if lim \<noteq> from then span_loop steps K k b lim sz
         else case k_region K k from of
           None \<Rightarrow> from
         | Some (address, extent) \<Rightarrow>
             if from + sz \<le> address then from else span_loop steps K k b (address + extent) sz)"

definition free_span :: "'k Kernel \<Rightarrow> 'k \<Rightarrow> GVBudget \<Rightarrow> u64 \<Rightarrow> u64 \<Rightarrow> u64" where
  "free_span K k b from sz = span_loop 4096 K k b from sz"

text \<open>How much is asked for first, and the halving loop around \<open>mmap\<close>.\<close>

definition first_want :: "GVBudget \<Rightarrow> u64 \<Rightarrow> u64" where
  "first_want b sz =
     (let room = (if gv_reserved b < gv_budget b then gv_budget b - gv_reserved b else 0);
          want = (if sz > room then (if room > gv_floor b then room else gv_floor b) else sz);
          want = (if want > sz then sz else want)
      in if want < sz then want - want mod gv_page b else want)"

definition mapped_size :: "GVBudget \<Rightarrow> u64 \<Rightarrow> u64 \<Rightarrow> u64" where
  "mapped_size b sz want = (if want < sz then want + gv_page b else want)"

definition halved :: "GVBudget \<Rightarrow> u64 \<Rightarrow> u64" where
  "halved b want =
     (let want = want div 2 - want div 2 mod gv_page b in if want < gv_page b then gv_page b else want)"

lemma halved_less:
  assumes "\<not> want \<le> gv_page b"
  shows "unat (halved b want) < unat want"
proof -
  have "unat (want div 2 - want div 2 mod gv_page b) \<le> unat (want div 2)"
    by (subst unat_sub) (simp_all add: word_le_nat_alt unat_mod)
  moreover have "unat (want div 2) < unat want"
    using assms by (simp add: unat_div word_le_nat_alt)
  ultimately show ?thesis using assms by (auto simp: halved_def Let_def word_le_nat_alt)
qed

function reserve_loop ::
  "'k Kernel \<Rightarrow> 'k \<Rightarrow> GVBudget \<Rightarrow> u64 \<Rightarrow> u32 \<Rightarrow> u32 \<Rightarrow> u32 \<Rightarrow> u64 \<Rightarrow> (u32 + u64) \<times> u64 \<times> 'k" where
  "reserve_loop K k b sz prot flags fd want =
     (let (result, k) = k_mmap K k 0 (mapped_size b sz want) prot flags fd 0
      in case result of
           Inr a \<Rightarrow> (Inr a, want, k)
         | Inl e \<Rightarrow> if e \<noteq> ENOMEM \<or> want \<le> gv_page b then (Inl e, want, k)
                    else reserve_loop K k b sz prot flags fd (halved b want))"
  by pat_completeness auto
termination
  by (relation "measure (\<lambda>(K, k, b, sz, prot, flags, fd, want). unat want)") (auto simp: halved_less)

definition new_region :: "GVBudget \<Rightarrow> u64 \<Rightarrow> u64 \<Rightarrow> u64 \<Rightarrow> GVRegion" where
  "new_region b start sz want =
     (let own = page_end b start want
      in if want < sz
         then let limit = own + gv_page b; asked = page_end b start sz
              in \<lparr>v_start = start, v_end = own, v_limit = limit, v_span = if asked > limit then asked else limit\<rparr>
         else \<lparr>v_start = start, v_end = own, v_limit = own, v_span = own\<rparr>)"

text \<open>Whether the place the kernel chose cannot be kept.\<close>

definition misplaced :: "'k Kernel \<Rightarrow> 'k \<Rightarrow> GVBudget \<Rightarrow> u64 \<Rightarrow> u64 \<Rightarrow> u64 \<Rightarrow> bool" where
  "misplaced K k b start sz want \<longleftrightarrow>
     (let mapped = mapped_size b sz want; asked = page_end b start sz
      in overlaps_reservation b start sz \<or>
         want < sz \<and> asked > start + mapped \<and> \<not> unmapped K k (start + mapped) (asked - start - mapped))"

text \<open>The other place: its address, or \<open>None\<close> when there is none.\<close>

definition move_reservation ::
  "'k Kernel \<Rightarrow> 'k \<Rightarrow> GVBudget \<Rightarrow> u64 \<Rightarrow> u64 \<Rightarrow> u64 \<Rightarrow> u32 \<Rightarrow> u32 \<Rightarrow> u32 \<Rightarrow> u64 option \<times> 'k" where
  "move_reservation K k b start sz mapped prot flags fd =
     (let hole = free_span K k b (k_header K) sz;
          (moved, k) = (if hole \<noteq> 0 then k_mmap K k hole mapped prot flags fd 0 else (Inl 0, k))
      in if moved = Inr hole then let (_, k) = k_munmap K k start mapped in (Some hole, k)
         else let k = (case moved of Inr m \<Rightarrow> snd (k_munmap K k m mapped) | Inl _ \<Rightarrow> k);
                  (_, k) = k_munmap K k start mapped
              in (None, k))"

definition record_region ::
  "'k Kernel \<Rightarrow> 'k \<Rightarrow> GVBudget \<Rightarrow> u64 \<Rightarrow> u64 \<Rightarrow> u64 \<Rightarrow> 'k \<times> GVBudget" where
  "record_region K k b start sz want =
     (let region = new_region b start sz want;
          k = (if want < sz then snd (k_mprotect K k (v_end region) (gv_page b) PROT_NONE) else k)
      in (k, b\<lparr>gv_regions := gv_regions b @ [region],
               gv_reserved := gv_reserved b + (v_limit region - v_start region)\<rparr>))"

definition gv_reserve ::
  "'k Kernel \<Rightarrow> 'k \<Rightarrow> GVBudget \<Rightarrow> u64 \<Rightarrow> u32 \<Rightarrow> u32 \<Rightarrow> u32 \<Rightarrow> (u32 + u64) \<times> u64 \<times> 'k \<times> GVBudget" where
  "gv_reserve K k b sz prot flags fd =
     (if length (gv_regions b) = GV_MAX_REGIONS
      then let (result, k) = k_mmap K k 0 sz prot flags fd 0
           in case result of
                Inl e \<Rightarrow> (Inl e, 0, k, b)
              | Inr a \<Rightarrow> (Inr a, sz, k, claim b a sz)
      else let (result, want, k) = reserve_loop K k b sz prot flags fd (first_want b sz)
           in case result of
                Inl e \<Rightarrow> (Inl e, 0, k, b)
              | Inr start \<Rightarrow>
                  let (place, k) = (if misplaced K k b start sz want
                                    then move_reservation K k b start sz (mapped_size b sz want) prot flags fd
                                    else (Some start, k))
                  in case place of
                       None \<Rightarrow> (Inl ENOMEM, 0, k, b)
                     | Some start \<Rightarrow> let (k, b) = record_region K k b start sz want in (Inr start, want, k, b))"

section \<open>Mappings and operations on ranges\<close>

text \<open>Every piece is nonempty and inside the range, so the loops over the pieces of a range end.\<close>

lemma missing_loop_bounds:
  assumes "cursor < lim" and "missing_loop rs i cursor lim = Inr lim'"
  shows "cursor < lim' \<and> lim' \<le> lim"
  using assms by (induction rs i cursor lim rule: missing_loop.induct) (auto split: if_splits)

lemma missing_loop_found:
  "missing_loop rs i cursor lim = Inl (j, s) \<Longrightarrow> cursor < s"
  by (induction rs i cursor lim rule: missing_loop.induct) (auto split: if_splits)

lemma own_loop_bounds:
  assumes "cursor < lim" and "own_loop rs i cursor lim = (kind, until, j)"
  shows "cursor < until \<and> until \<le> lim"
  using assms
  by (induction rs i cursor lim arbitrary: kind until j rule: own_loop.induct)
    (auto simp: in_own_def min_def split: if_splits)

lemma part_bounds:
  assumes "cursor < e" and "gv_part b cursor e anchor = (kind, until, j)"
  shows "cursor < until \<and> until \<le> e"
proof (cases "fst anchor \<le> cursor \<and> cursor < snd anchor")
  case True
  then have "own_loop (gv_regions b) 0 cursor (min e (snd anchor)) = (kind, until, j)"
    using assms(2) by (simp add: gv_part_def)
  moreover have "cursor < min e (snd anchor)" using True assms(1) by simp
  ultimately show ?thesis using own_loop_bounds by (metis min.bounded_iff)
next
  case False
  show ?thesis
  proof (cases "missing_loop (gv_regions b) 0 cursor e")
    case (Inl p)
    then have "cursor < snd p" using missing_loop_found by (metis prod.collapse)
    moreover have "until = min (snd p) e"
      using assms(2) Inl unfolding gv_part_def if_not_P [OF False] by (simp split: prod.splits)
    ultimately show ?thesis using assms(1) by simp
  next
    case (Inr lim)
    then have "cursor < lim \<and> lim \<le> e" using missing_loop_bounds assms(1) by blast
    moreover have "own_loop (gv_regions b) 0 cursor lim = (kind, until, j)"
      using assms(2) Inr unfolding gv_part_def if_not_P [OF False] by simp
    ultimately show ?thesis using own_loop_bounds by (meson order_trans)
  qed
qed

lemma part_advances:
  assumes "cursor < e" and "gv_part b cursor e anchor = (kind, until, j)"
  shows "unat e - unat until < unat e - unat cursor"
  using part_bounds [OF assms] by (simp add: word_less_nat_alt word_le_nat_alt) linarith

text \<open>Whether a range holds a guard page or a part that is missing.\<close>

function withheld :: "GVBudget \<Rightarrow> u64 \<Rightarrow> u64 \<Rightarrow> u64 \<times> u64 \<Rightarrow> bool" where
  "withheld b cursor e anchor =
     (if cursor < e
      then let (kind, until, _) = gv_part b cursor e anchor
           in kind = GUARD \<or> kind = MISSING \<or> withheld b until e anchor
      else False)"
  by pat_completeness auto
termination by (relation "measure (\<lambda>(b, cursor, e, anchor). unat e - unat cursor)") (auto dest: part_advances [OF _ sym])

definition gv_map ::
  "'k Kernel \<Rightarrow> 'k \<Rightarrow> GVBudget option \<Rightarrow> u64 \<Rightarrow> u64 \<Rightarrow> u32 \<Rightarrow> u32 \<Rightarrow> u32 \<Rightarrow> u64
     \<Rightarrow> (u32 + u64) \<times> 'k \<times> GVBudget option" where
  "gv_map K k budget address sz prot flags fd offset =
     (if \<not> gv_enabled budget
      then let (result, k) = k_mmap K k address sz prot flags fd offset in (result, k, budget)
      else let b = the budget;
               missing = (address \<noteq> 0 \<and> withheld b address (address + sz) (anchor_at b address))
      in if missing \<and> flags AND MAP_FIXED \<noteq> 0 then (Inl ENOMEM, k, budget)
         else let (result, k) = k_mmap K k (if missing then 0 else address) sz prot flags fd offset
              in case result of
                   Inl e \<Rightarrow> (Inl e, k, budget)
                 | Inr a \<Rightarrow> (Inr a, k, Some (claim b a sz)))"

datatype GVOperation = GV_UNMAP | GV_PROTECT | GV_ADVISE

definition kernel_call :: "'k Kernel \<Rightarrow> GVOperation \<Rightarrow> 'k \<Rightarrow> u64 \<Rightarrow> u64 \<Rightarrow> u32 \<Rightarrow> u32 option \<times> 'k" where
  "kernel_call K operation k address sz value =
     (case operation of
        GV_UNMAP \<Rightarrow> k_munmap K k address sz
      | GV_PROTECT \<Rightarrow> k_mprotect K k address sz value
      | GV_ADVISE \<Rightarrow> k_madvise K k address sz value)"

text \<open>One piece \<open>[cursor, until)\<close> of the range; the code is the error of the last call that failed.\<close>

definition apply_piece ::
  "'k Kernel \<Rightarrow> GVOperation \<Rightarrow> u32 \<Rightarrow> u64 \<Rightarrow> Part \<times> u64 \<times> nat option \<Rightarrow> u32 option \<times> 'k \<times> GVBudget
     \<Rightarrow> u32 option \<times> 'k \<times> GVBudget" where
  "apply_piece K operation value cursor p st =
     (let (kind, until, region) = p; (code, k, b) = st
      in if kind = MISSING \<or> kind = GUARD \<and> operation \<noteq> GV_UNMAP then (code, k, b)
         else let (failed, k) = kernel_call K operation k cursor (until - cursor) value
         in case failed of
              Some e \<Rightarrow> (Some e, k, b)
            | None \<Rightarrow>
                if operation \<noteq> GV_UNMAP then (code, k, b)
                else case region of
                  Some i \<Rightarrow> (code, k, forget b i cursor until)
                | None \<Rightarrow> (code, k, unclaim b cursor until))"

function apply_loop ::
  "'k Kernel \<Rightarrow> GVOperation \<Rightarrow> u32 \<Rightarrow> u64 \<Rightarrow> u64 \<Rightarrow> u64 \<times> u64 \<Rightarrow> u32 option \<times> 'k \<times> GVBudget
     \<Rightarrow> u32 option \<times> 'k \<times> GVBudget" where
  "apply_loop K operation value cursor e anchor st =
     (if cursor < e
      then let p = gv_part (snd (snd st)) cursor e anchor
           in apply_loop K operation value (fst (snd p)) e anchor (apply_piece K operation value cursor p st)
      else st)"
  by pat_completeness auto
termination
  by (relation "measure (\<lambda>(K, operation, value, cursor, e, anchor, st). unat e - unat cursor)")
    (auto intro: part_advances simp: prod_eq_iff)

definition apply_range ::
  "'k Kernel \<Rightarrow> 'k \<Rightarrow> GVBudget \<Rightarrow> GVOperation \<Rightarrow> u64 \<Rightarrow> u64 \<Rightarrow> u32 \<Rightarrow> u32 option \<times> 'k \<times> GVBudget" where
  "apply_range K k b operation address sz value =
     (let e = page_end b address sz
      in if sz = 0 then let (failed, k) = kernel_call K operation k address sz value in (failed, k, b)
         else if e = 0 \<or> address mod gv_page b \<noteq> 0 then (Some EINVAL, k, b)
         else let anchor = anchor_at b address
         in if operation = GV_PROTECT \<and> value \<noteq> PROT_NONE \<and> withheld b address e anchor then (Some ENOMEM, k, b)
            else let (code, k, b) = apply_loop K operation value address e anchor (None, k, b)
            in (code, k, if operation = GV_UNMAP then sweep b else b))"

text \<open>The three calls, which go to the kernel as they are when there is no budget.\<close>

definition gv_operate ::
  "'k Kernel \<Rightarrow> 'k \<Rightarrow> GVBudget option \<Rightarrow> GVOperation \<Rightarrow> u64 \<Rightarrow> u64 \<Rightarrow> u32 \<Rightarrow> u32 option \<times> 'k \<times> GVBudget option" where
  "gv_operate K k budget operation address sz value =
     (if gv_enabled budget
      then let (failed, k, b) = apply_range K k (the budget) operation address sz value in (failed, k, Some b)
      else let (failed, k) = kernel_call K operation k address sz value in (failed, k, budget))"

definition gv_unmap where "gv_unmap K k budget address sz = gv_operate K k budget GV_UNMAP address sz 0"

definition gv_protect where "gv_protect K k budget address sz prot = gv_operate K k budget GV_PROTECT address sz prot"

definition gv_advise where "gv_advise K k budget address sz advice = gv_operate K k budget GV_ADVISE address sz advice"

declare claim_loop.simps [simp del] unclaim_loop.simps [simp del] sweep_loop.simps [simp del]
  reserve_loop.simps [simp del] withheld.simps [simp del] apply_loop.simps [simp del]

end
