(* ===== verification/GuestVMBudgetLaws.thy ===== *)
theory GuestVMBudgetLaws
  imports GuestVMBudget "HOL-Library.Multiset"
begin

text \<open>
  Correctness of the virtual memory budget. The reference point is \<open>kind_at\<close>, the part of the
  address space a single address lies in; \<open>gv_part\<close> cuts a range into maximal pieces of one kind.
  The theory shows that the bookkeeping of the regions is exact and keeps the requested spans
  apart, and that the calls on a range reach exactly the addresses that were given to the
  application.
\<close>

declare mod_0_imp_dvd [rule del]

section \<open>The kind of an address\<close>

definition region_kind :: "GVRegion list \<Rightarrow> u64 \<Rightarrow> Part" where
  "region_kind rs x =
     (case find (in_own x) rs of None \<Rightarrow> OUTSIDE | Some r \<Rightarrow> if x < v_end r then GRANTED else GUARD)"

definition is_missing :: "GVRegion list \<Rightarrow> u64 \<Rightarrow> bool" where
  "is_missing rs x \<longleftrightarrow> (\<exists>r \<in> set rs. v_limit r \<le> x \<and> x < v_span r)"

definition kind_at :: "GVRegion list \<Rightarrow> u64 \<times> u64 \<Rightarrow> u64 \<Rightarrow> Part" where
  "kind_at rs anchor x =
     (if \<not> (fst anchor \<le> x \<and> x < snd anchor) \<and> is_missing rs x then MISSING else region_kind rs x)"

lemma region_kind_Cons:
  "region_kind (r # rs) x =
     (if in_own x r then if x < v_end r then GRANTED else GUARD else region_kind rs x)"
  by (simp add: region_kind_def)

lemma is_missing_Cons: "is_missing (r # rs) x \<longleftrightarrow> v_limit r \<le> x \<and> x < v_span r \<or> is_missing rs x"
  by (simp add: is_missing_def)

text \<open>The bounds of a region, in order and on page boundaries.\<close>

definition region_ok :: "u64 \<Rightarrow> GVRegion \<Rightarrow> bool" where
  "region_ok p r \<longleftrightarrow>
     v_start r \<le> v_end r \<and> v_end r \<le> v_limit r \<and> v_limit r \<le> v_span r \<and>
     v_start r mod p = 0 \<and> v_end r mod p = 0 \<and> v_limit r mod p = 0 \<and> v_span r mod p = 0"

lemma own_loop_kind:
  assumes "\<forall>r \<in> set rs. v_end r \<le> v_limit r"
    and "own_loop rs i cursor lim = (kind, until, j)" and "cursor < lim" and "cursor \<le> x" and "x < until"
  shows "region_kind rs x = kind"
  using assms
proof (induction rs i cursor lim arbitrary: kind until j rule: own_loop.induct)
  case (1 i cursor lim)
  then show ?case by (simp add: region_kind_def)
next
  case (2 r rs i cursor lim)
  show ?case
  proof (cases "in_own cursor r")
    case True
    then have e: "kind = (if cursor < v_end r then GRANTED else GUARD)"
        "until = min (if cursor < v_end r then v_end r else v_limit r) lim" "v_start r \<le> cursor"
      using 2(3) by (auto simp: in_own_def)
    have "v_start r \<le> x" using e(3) 2(5) by (rule order_trans)
    show ?thesis
    proof (cases "cursor < v_end r")
      case t: True
      have "x < v_end r" using e(2) t 2(6) by simp
      moreover have "v_end r \<le> v_limit r" using 2(2) by simp
      ultimately have "x < v_limit r" by (rule order_less_le_trans)
      then show ?thesis using \<open>x < v_end r\<close> \<open>v_start r \<le> x\<close> e(1) t by (simp add: region_kind_Cons in_own_def)
    next
      case False
      then have "x < v_limit r" using e(2) 2(6) by simp
      moreover have "\<not> x < v_end r" using False 2(5) by simp
      ultimately show ?thesis using \<open>v_start r \<le> x\<close> e(1) False by (simp add: region_kind_Cons in_own_def)
    qed
  next
    case False
    define lim' where "lim' = (if cursor < v_start r then min lim (v_start r) else lim)"
    have l: "cursor < lim'" using 2(4) by (simp add: lim'_def)
    have o: "own_loop rs (Suc i) cursor lim' = (kind, until, j)" using 2(3) False by (simp add: lim'_def)
    have "\<not> in_own x r"
    proof (cases "cursor < v_start r")
      case True
      have "until \<le> lim'" using own_loop_bounds [OF l o] by simp
      also have "lim' \<le> v_start r" using True by (simp add: lim'_def)
      finally have "x < v_start r" using 2(6) by (simp add: order_less_le_trans)
      then show ?thesis by (simp add: in_own_def leD)
    next
      case f: False
      then have "v_limit r \<le> cursor" using False by (simp add: in_own_def not_less)
      then have "v_limit r \<le> x" using 2(5) by (rule order_trans)
      then show ?thesis by (simp add: in_own_def not_less)
    qed
    then show ?thesis using 2(1) [OF False _] 2(2) o l 2(5,6) by (simp add: region_kind_Cons lim'_def)
  qed
qed

lemma own_loop_region:
  assumes "own_loop rs i cursor lim = (kind, until, j)" and "cursor < lim" and "\<forall>r \<in> set rs. v_end r \<le> v_limit r"
  shows "case j of None \<Rightarrow> kind = OUTSIDE
    | Some n \<Rightarrow> i \<le> n \<and> n - i < length rs \<and> (kind = GRANTED \<or> kind = GUARD) \<and>
        v_start (rs ! (n - i)) \<le> cursor \<and> until \<le> v_limit (rs ! (n - i))"
  using assms
proof (induction rs i cursor lim arbitrary: kind until j rule: own_loop.induct)
  case (2 r rs i cursor lim)
  show ?case
  proof (cases "in_own cursor r")
    case True
    then show ?thesis using 2(2,4) by (auto simp: in_own_def min_def)
  next
    case False
    have "case j of None \<Rightarrow> kind = OUTSIDE
      | Some n \<Rightarrow> Suc i \<le> n \<and> n - Suc i < length rs \<and> (kind = GRANTED \<or> kind = GUARD) \<and>
          v_start (rs ! (n - Suc i)) \<le> cursor \<and> until \<le> v_limit (rs ! (n - Suc i))"
      by (rule 2(1) [OF False]) (use 2(2-4) False in \<open>auto simp: min_def split: if_splits\<close>)
    then show ?thesis by (auto simp: nth_Cons' split: option.splits)
  qed
qed simp

lemma missing_loop_kind:
  assumes "missing_loop rs i cursor lim = Inr lim'" and "cursor < lim" and "cursor \<le> x" and "x < lim'"
  shows "\<not> is_missing rs x"
  using assms
proof (induction rs i cursor lim rule: missing_loop.induct)
  case (1 i cursor lim)
  then show ?case by (simp add: is_missing_def)
next
  case (2 r rs i cursor lim)
  define l where "l = (if cursor < v_limit r \<and> v_limit r < v_span r then min lim (v_limit r) else lim)"
  have f: "\<not> (v_limit r \<le> cursor \<and> cursor < v_span r)" and o: "missing_loop rs (Suc i) cursor l = Inr lim'"
    using 2(2) by (auto simp: l_def split: if_splits)
  have l: "cursor < l" using 2(3) by (simp add: l_def)
  have "\<not> (v_limit r \<le> x \<and> x < v_span r)"
  proof (cases "cursor < v_limit r \<and> v_limit r < v_span r")
    case True
    have "lim' \<le> l" using missing_loop_bounds [OF l o] by simp
    also have "l \<le> v_limit r" using True by (simp add: l_def)
    finally have "x < v_limit r" using 2(5) by (simp add: order_less_le_trans)
    then show ?thesis by (simp add: leD)
  next
    case False
    then show ?thesis using f 2(4) by (meson leD le_less_linear le_less_trans order_trans)
  qed
  then show ?case using 2(1) [OF f] o l 2(4,5) by (simp add: is_missing_Cons l_def)
qed

lemma missing_loop_region:
  assumes "missing_loop rs i cursor lim = Inl (j, s)"
  shows "\<exists>r \<in> set rs. v_limit r \<le> cursor \<and> s = v_span r"
  using assms by (induction rs i cursor lim rule: missing_loop.induct) (auto split: if_splits)

text \<open>A piece is of one kind throughout, and lies inside the region it names.\<close>

lemma part_kind:
  assumes ok: "\<forall>r \<in> set (gv_regions b). v_end r \<le> v_limit r" and "cursor < e" and "fst anchor \<le> cursor"
    and p: "gv_part b cursor e anchor = (kind, until, j)" and "cursor \<le> x" and "x < until"
  shows "kind_at (gv_regions b) anchor x = kind"
proof (cases "fst anchor \<le> cursor \<and> cursor < snd anchor")
  case True
  have o: "own_loop (gv_regions b) 0 cursor (min e (snd anchor)) = (kind, until, j)"
    using p True by (simp add: gv_part_def)
  have l: "cursor < min e (snd anchor)" using True assms(2) by simp
  have "x < min e (snd anchor)"
    using own_loop_bounds [OF l o] assms(6) by (meson order_less_le_trans)
  then have "fst anchor \<le> x \<and> x < snd anchor" using assms(3,5) by simp
  then show ?thesis using own_loop_kind [OF ok o l assms(5,6)] by (simp add: kind_at_def)
next
  case False
  then have "snd anchor \<le> x" using assms(3,5) by (simp add: order_trans)
  then have out: "\<not> (fst anchor \<le> x \<and> x < snd anchor)" by (simp add: not_less)
  show ?thesis
  proof (cases "missing_loop (gv_regions b) 0 cursor e")
    case (Inl q)
    then have q: "missing_loop (gv_regions b) 0 cursor e = Inl (fst q, snd q)" by simp
    have "kind = MISSING" "until = min (snd q) e"
      using p Inl unfolding gv_part_def if_not_P [OF False] by (simp_all split: prod.splits)
    moreover obtain r where "r \<in> set (gv_regions b)" "v_limit r \<le> cursor" "snd q = v_span r"
      using missing_loop_region [OF q] by blast
    ultimately have "is_missing (gv_regions b) x"
      using assms(5,6) order_trans [of "v_limit _" cursor x] by (auto simp: is_missing_def)
    then show ?thesis using out \<open>kind = MISSING\<close> by (simp add: kind_at_def)
  next
    case (Inr lim)
    have o: "own_loop (gv_regions b) 0 cursor lim = (kind, until, j)"
      using p Inr unfolding gv_part_def if_not_P [OF False] by simp
    have l: "cursor < lim" using missing_loop_bounds [OF assms(2) Inr] by simp
    have "x < lim" using own_loop_bounds [OF l o] assms(6) by (meson order_less_le_trans)
    then have "\<not> is_missing (gv_regions b) x" by (rule missing_loop_kind [OF Inr assms(2,5)])
    then show ?thesis using own_loop_kind [OF ok o l assms(5,6)] by (simp add: kind_at_def)
  qed
qed

lemma part_region:
  assumes "\<forall>r \<in> set (gv_regions b). v_end r \<le> v_limit r" and "cursor < e"
    and p: "gv_part b cursor e anchor = (kind, until, j)" and "kind \<noteq> MISSING"
  shows "case j of None \<Rightarrow> kind = OUTSIDE
    | Some n \<Rightarrow> n < length (gv_regions b) \<and> (kind = GRANTED \<or> kind = GUARD) \<and>
        v_start (gv_regions b ! n) \<le> cursor \<and> until \<le> v_limit (gv_regions b ! n)"
proof -
  obtain lim where "own_loop (gv_regions b) 0 cursor lim = (kind, until, j)" "cursor < lim"
  proof (cases "fst anchor \<le> cursor \<and> cursor < snd anchor")
    case True
    then show thesis using p assms(2) that [of "min e (snd anchor)"] by (simp add: gv_part_def)
  next
    case False
    show thesis
    proof (cases "missing_loop (gv_regions b) 0 cursor e")
      case (Inl q)
      then show thesis using p assms(4) unfolding gv_part_def if_not_P [OF False] by (simp split: prod.splits)
    next
      case (Inr lim)
      then show thesis
        using p that [of lim] missing_loop_bounds [OF assms(2) Inr] unfolding gv_part_def if_not_P [OF False] by simp
    qed
  qed
  from own_loop_region [OF this assms(1)] show ?thesis by (simp split: option.splits)
qed

lemma withheld_iff:
  assumes "\<forall>r \<in> set (gv_regions b). v_end r \<le> v_limit r" and "fst anchor \<le> cursor"
  shows "withheld b cursor e anchor \<longleftrightarrow>
    (\<exists>x. cursor \<le> x \<and> x < e \<and> (kind_at (gv_regions b) anchor x = GUARD \<or> kind_at (gv_regions b) anchor x = MISSING))"
  using assms
proof (induction b cursor e anchor rule: withheld.induct)
  case (1 b cursor e anchor)
  show ?case
  proof (cases "cursor < e")
    case False
    then show ?thesis by (simp add: withheld.simps [of b cursor]) (meson le_less_trans)
  next
    case True
    obtain kind until j where p: "gv_part b cursor e anchor = (kind, until, j)" by (metis prod_cases3)
    note bounds = part_bounds [OF True p]
    have kind: "kind_at (gv_regions b) anchor x = kind" if "cursor \<le> x" "x < until" for x
      by (rule part_kind [OF 1(2) True 1(3) p that])
    have "fst anchor \<le> until" using 1(3) bounds [THEN conjunct1] by order
    note ih = 1(1) [OF True p [symmetric] refl refl 1(2) this]
    show ?thesis
    proof (cases "kind = GUARD \<or> kind = MISSING")
      case t: True
      have "kind_at (gv_regions b) anchor cursor = kind" using kind bounds by simp
      then show ?thesis using True t p by (auto simp: withheld.simps [of b cursor])
    next
      case f: False
      have "withheld b cursor e anchor = withheld b until e anchor"
        using True f p by (simp add: withheld.simps [of b cursor])
      also have "\<dots> \<longleftrightarrow> (\<exists>x. until \<le> x \<and> x < e \<and>
          (kind_at (gv_regions b) anchor x = GUARD \<or> kind_at (gv_regions b) anchor x = MISSING))"
        by (rule ih)
      also have "\<dots> \<longleftrightarrow> (\<exists>x. cursor \<le> x \<and> x < e \<and>
          (kind_at (gv_regions b) anchor x = GUARD \<or> kind_at (gv_regions b) anchor x = MISSING))"
        (is "(\<exists>x. until \<le> x \<and> ?Q x) = _")
      proof (rule iff_exI)
        fix x
        show "(until \<le> x \<and> ?Q x) = (cursor \<le> x \<and> ?Q x)"
        proof (cases "until \<le> x")
          case t: True
          then have "cursor \<le> x" using bounds [THEN conjunct1] by order
          then show ?thesis using t by simp
        next
          case out: False
          then show ?thesis using kind [of x] f by (auto simp: not_le)
        qed
      qed
      finally show ?thesis .
    qed
  qed
qed

section \<open>Forgetting a piece\<close>

text \<open>A region changed at one address range keeps the kind of every other address.\<close>

lemma region_kind_update:
  assumes "i < length rs" and "in_own x r \<longleftrightarrow> in_own x (rs ! i)" and "in_own x r \<Longrightarrow> x < v_end r \<longleftrightarrow> x < v_end (rs ! i)"
  shows "region_kind (rs[i := r]) x = region_kind rs x"
  using assms
proof (induction rs arbitrary: i)
  case (Cons a rs)
  then show ?case by (cases i) (auto simp: region_kind_Cons)
qed simp

lemma is_missing_update:
  assumes "i < length rs" and "v_limit r \<le> x \<and> x < v_span r \<longleftrightarrow> v_limit (rs ! i) \<le> x \<and> x < v_span (rs ! i)"
  shows "is_missing (rs[i := r]) x \<longleftrightarrow> is_missing rs x"
  using assms
proof (induction rs arbitrary: i)
  case (Cons a rs)
  then show ?case by (cases i) (auto simp: is_missing_Cons)
qed simp

lemma kind_at_update:
  assumes "i < length rs" and "in_own x r \<longleftrightarrow> in_own x (rs ! i)" and "in_own x r \<Longrightarrow> x < v_end r \<longleftrightarrow> x < v_end (rs ! i)"
    and "v_limit r \<le> x \<and> x < v_span r \<longleftrightarrow> v_limit (rs ! i) \<le> x \<and> x < v_span (rs ! i)"
  shows "kind_at (rs[i := r]) anchor x = kind_at rs anchor x"
  using region_kind_update [OF assms(1-3)] is_missing_update [OF assms(1,4)] by (simp add: kind_at_def)

lemma kind_at_append:
  assumes "v_limit r \<le> x" and "v_span r \<le> x"
  shows "kind_at (rs @ [r]) anchor x = kind_at rs anchor x"
proof -
  have "region_kind (rs @ [r]) x = region_kind rs x"
    using assms by (induction rs) (simp_all add: region_kind_Cons, simp add: region_kind_def in_own_def not_less)
  moreover have "is_missing (rs @ [r]) x = is_missing rs x"
    using assms by (auto simp: is_missing_def not_less)
  ultimately show ?thesis by (simp add: kind_at_def)
qed

lemma cut_before_simps [simp]:
  "v_start (cut_before to r) = to" "v_end (cut_before to r) = max (v_end r) to"
  "v_limit (cut_before to r) = v_limit r" "v_span (cut_before to r) = v_span r"
  by (auto simp: cut_before_def max_def dest: less_imp_le)

text \<open>What \<open>apply\<close> ensures of a piece it unmapped.\<close>

definition piece_of :: "GVBudget \<Rightarrow> nat \<Rightarrow> u64 \<Rightarrow> u64 \<Rightarrow> bool" where
  "piece_of b i from to \<longleftrightarrow>
     i < length (gv_regions b) \<and> v_start (gv_regions b ! i) \<le> from \<and> from < to \<and> to \<le> v_limit (gv_regions b ! i)"

lemma cut_before_kind:
  assumes "v_start r \<le> to" and "to \<le> x"
  shows "in_own x (cut_before to r) \<longleftrightarrow> in_own x r" and "x < v_end (cut_before to r) \<longleftrightarrow> x < v_end r"
  using assms order_trans [OF assms] by (auto simp: in_own_def less_max_iff_disj leD)

lemma forget_kind:
  assumes "piece_of b i from to" and "to \<le> x"
  shows "kind_at (gv_regions (forget b i from to)) anchor x = kind_at (gv_regions b) anchor x"
proof -
  let ?rs = "gv_regions b" and ?r = "gv_regions b ! i"
  have i: "i < length ?rs" and f: "v_start ?r \<le> from" "from < to" "to \<le> v_limit ?r"
    using assms(1) by (simp_all add: piece_of_def)
  have to: "v_start ?r \<le> to" using f(1,2) by order
  have cut: "kind_at (?rs[i := cut_before to ?r]) anchor x = kind_at ?rs anchor x"
    by (rule kind_at_update [OF i]) (simp_all add: cut_before_kind [OF to assms(2)] del: cut_before_simps(2))
  have end_cut: "kind_at (?rs[i := ?r\<lparr>v_end := e, v_limit := from\<rparr>]) anchor x = kind_at ?rs anchor x"
    if "v_limit ?r \<le> to" for e
  proof -
    have x: "v_limit ?r \<le> x" "from \<le> x" using that f(2) assms(2) by order+
    show ?thesis by (rule kind_at_update [OF i]) (use x in \<open>auto simp: in_own_def dest: leD\<close>)
  qed
  have "from \<le> x" using f(2) assms(2) by order
  then have new: "kind_at (?rs[i := cut_before to ?r] @ [\<lparr>v_start = s, v_end = e, v_limit = from, v_span = from\<rparr>]) anchor x =
      kind_at ?rs anchor x" for s e
    by (subst kind_at_append) (simp_all add: cut)
  show ?thesis
    using cut end_cut new by (simp add: forget_def Let_def not_less)
qed

lemma forget_regions_ok:
  assumes p: "piece_of b i from to" and ok: "\<forall>r \<in> set (gv_regions b). region_ok g r" and a: "from mod g = 0" "to mod g = 0"
  shows "\<forall>r \<in> set (gv_regions (forget b i from to)). region_ok g r"
proof -
  let ?rs = "gv_regions b" and ?r = "gv_regions b ! i"
  have i: "i < length ?rs" and f: "v_start ?r \<le> from" "from < to" "to \<le> v_limit ?r"
    using p by (simp_all add: piece_of_def)
  have r: "region_ok g ?r" using ok i by simp
  have upd: "\<forall>r \<in> set (?rs[i := r']). region_ok g r" if "region_ok g r'" for r'
    using ok that set_update_subset_insert [of ?rs i r'] by blast
  have cut: "region_ok g (cut_before to ?r)"
    using r f(3) a(2) by (simp add: region_ok_def) (simp add: max_def)
  have e: "region_ok g (?r\<lparr>v_end := if v_end ?r > from then from else v_end ?r, v_limit := from\<rparr>)"
  proof -
    have "from \<le> v_span ?r" using r f(2,3) by (auto simp: region_ok_def)
    then show ?thesis using r f(1) a(1) by (simp add: region_ok_def not_less)
  qed
  have n: "region_ok g \<lparr>v_start = v_start ?r, v_end = min (v_end ?r) from, v_limit = from, v_span = from\<rparr>"
    using r f(1) a(1) by (simp add: region_ok_def) (simp add: min_def)
  show ?thesis
    using upd [OF cut] upd [OF e] n ok by (simp add: forget_def Let_def)
qed

section \<open>The addresses a call reaches\<close>

text \<open>A kernel that also keeps the list of the ranges unmapped, protected or advised.\<close>

type_synonym 'k logged = "'k \<times> (GVOperation \<times> u64 \<times> u64) list"

definition log_call :: "GVOperation \<Rightarrow> ('k \<Rightarrow> u32 option \<times> 'k) \<Rightarrow> u64 \<Rightarrow> u64 \<Rightarrow> 'k logged \<Rightarrow> u32 option \<times> 'k logged" where
  "log_call operation call a n s = (let (failed, k) = call (fst s) in (failed, k, (operation, a, n) # snd s))"

definition logged :: "'k Kernel \<Rightarrow> 'k logged Kernel" where
  "logged K =
     \<lparr>k_mmap = (\<lambda>s a n prot flags fd offset.
        let (result, k) = k_mmap K (fst s) a n prot flags fd offset in (result, k, snd s)),
      k_munmap = (\<lambda>s a n. log_call GV_UNMAP (\<lambda>k. k_munmap K k a n) a n s),
      k_mprotect = (\<lambda>s a n prot. log_call GV_PROTECT (\<lambda>k. k_mprotect K k a n prot) a n s),
      k_madvise = (\<lambda>s a n advice. log_call GV_ADVISE (\<lambda>k. k_madvise K k a n advice) a n s),
      k_region = (\<lambda>s. k_region K (fst s)), k_page = k_page K, k_header = k_header K\<rparr>"

text \<open>The addresses in the logged ranges of an operation.\<close>

definition reached :: "GVOperation \<Rightarrow> (GVOperation \<times> u64 \<times> u64) list \<Rightarrow> u64 set" where
  "reached operation l = {x. \<exists>a n. (operation, a, n) \<in> set l \<and> in_range a n x}"

lemma reached_simps [simp]:
  "reached operation [] = {}"
  "reached operation ((operation, a, n) # l) = {x. in_range a n x} \<union> reached operation l"
  by (auto simp: reached_def)

definition reaches :: "GVOperation \<Rightarrow> Part \<Rightarrow> bool" where
  "reaches operation kind \<longleftrightarrow> kind \<noteq> MISSING \<and> (kind = GUARD \<longrightarrow> operation = GV_UNMAP)"

lemma kernel_call_logged:
  "\<exists>failed k'. kernel_call (logged K) operation (k, l) a n value = (failed, k', (operation, a, n) # l)"
  by (cases operation) (auto simp: kernel_call_def logged_def log_call_def split: prod.splits)

lemma in_range_between:
  assumes "a < e"
  shows "in_range a (e - a) x \<longleftrightarrow> a \<le> x \<and> x < e"
proof -
  have "unat (e - a) = unat e - unat a" using assms by (simp add: unat_sub)
  then show ?thesis
    using assms unat_u64_less [of e] by (subst in_range_iff) (auto simp: word_nat)
qed

text \<open>One piece: what is logged, and that the budget keeps the kind of what lies beyond.\<close>

lemma apply_piece_effect:
  assumes ok: "\<forall>r \<in> set (gv_regions b). v_end r \<le> v_limit r" and c: "cursor < e"
    and p: "gv_part b cursor e anchor = (kind, until, j)"
  shows "\<exists>code' k' l' b'. apply_piece (logged K) operation value cursor (kind, until, j) (code, (k, l), b) = (code', (k', l'), b') \<and>
    reached operation l' = reached operation l \<union> {x. cursor \<le> x \<and> x < until \<and> reaches operation kind} \<and>
    (b' = b \<or> b' = unclaim b cursor until \<or> (\<exists>i. piece_of b i cursor until \<and> b' = forget b i cursor until))"
proof (cases "reaches operation kind")
  case False
  then show ?thesis by (auto simp: apply_piece_def reaches_def)
next
  case True
  obtain failed k' where call: "kernel_call (logged K) operation (k, l) cursor (until - cursor) value =
      (failed, k', (operation, cursor, until - cursor) # l)" 
    using kernel_call_logged [of K operation k l cursor "until - cursor" "value"] by (elim exE)
  have lt: "cursor < until" using part_bounds [OF c p] by simp
  have region: "piece_of b i cursor until" if "j = Some i" for i
    using part_region [OF ok c p] True that lt by (simp add: reaches_def piece_of_def)
  show ?thesis
    using True call region
    by (auto simp: apply_piece_def reaches_def in_range_between [OF lt] split: option.splits)
qed

section \<open>The invariant of the budget\<close>

definition apart :: "GVRegion \<Rightarrow> GVRegion \<Rightarrow> bool" where
  "apart r q \<longleftrightarrow> v_span r \<le> v_start q \<or> v_span q \<le> v_start r"

definition spans_apart :: "GVRegion list \<Rightarrow> bool" where
  "spans_apart rs \<longleftrightarrow> (\<forall>i < length rs. \<forall>j < length rs. i \<noteq> j \<longrightarrow> apart (rs ! i) (rs ! j))"

definition own_bytes :: "GVRegion list \<Rightarrow> u64" where
  "own_bytes rs = sum_list (map (\<lambda>r. v_limit r - v_start r) rs)"

text \<open>Region bounds in order and aligned, requested spans disjoint, every counted byte counted once.\<close>

definition budget_ok :: "GVBudget \<Rightarrow> bool" where
  "budget_ok b \<longleftrightarrow>
     0 < gv_page b \<and> 0 < gv_floor b \<and> gv_floor b mod gv_page b = 0 \<and>
     length (gv_regions b) \<le> GV_MAX_REGIONS \<and> length (gv_claims b) \<le> GV_MAX_CLAIMS \<and>
     (\<forall>r \<in> set (gv_regions b). region_ok (gv_page b) r) \<and>
     (\<forall>c \<in> set (gv_claims b). c_start c mod gv_page b = 0 \<and> c_end c mod gv_page b = 0) \<and>
     spans_apart (gv_regions b) \<and> gv_reserved b = own_bytes (gv_regions b)"

lemma apart_sym: "apart r q \<longleftrightarrow> apart q r"
  by (auto simp: apart_def)

lemma apart_shrink:
  assumes "apart r q" and "v_start r \<le> v_start r'" and "v_span r' \<le> v_span r"
  shows "apart r' q"
  using assms unfolding apart_def by (meson order_trans)

lemma spans_apart_update:
  assumes "spans_apart rs" and "i < length rs" and "v_start (rs ! i) \<le> v_start r" and "v_span r \<le> v_span (rs ! i)"
  shows "spans_apart (rs[i := r])"
  unfolding spans_apart_def
proof (intro allI impI)
  fix j k assume h: "j < length (rs[i := r])" "k < length (rs[i := r])" "j \<noteq> k"
  then have "apart (rs ! j) (rs ! k)" using assms(1) by (simp add: spans_apart_def)
  then show "apart (rs[i := r] ! j) (rs[i := r] ! k)"
    using h apart_shrink [OF _ assms(3,4), of "rs ! k"] apart_shrink [OF _ assms(3,4), of "rs ! j"]
    by (cases "i = j"; cases "i = k") (auto simp: apart_sym [of _ r] apart_sym [of "rs ! j" "rs ! k"])
qed

lemma spans_apart_snoc:
  assumes "spans_apart rs" and "\<forall>q \<in> set rs. apart r q"
  shows "spans_apart (rs @ [r])"
  using assms unfolding spans_apart_def
  by (auto simp: nth_append less_Suc_eq apart_sym)

lemma nth_take_last:
  "i < length xs \<Longrightarrow> k < length xs - 1 \<Longrightarrow> take_last i xs ! k = (if k = i then last xs else xs ! k)"
  by (simp add: take_last_def nth_butlast)

lemma spans_apart_take_last:
  assumes "spans_apart rs" and "i < length rs"
  shows "spans_apart (take_last i rs)"
  unfolding spans_apart_def
proof (intro allI impI)
  fix j k assume h: "j < length (take_last i rs)" "k < length (take_last i rs)" "j \<noteq> k"
  have l: "last rs = rs ! (length rs - 1)" using assms(2) by (cases rs) (simp_all add: last_conv_nth)
  show "apart (take_last i rs ! j) (take_last i rs ! k)"
    using h assms by (auto simp: nth_take_last l spans_apart_def)
qed

lemma mset_take_last:
  assumes "i < length xs"
  shows "add_mset (xs ! i) (mset (take_last i xs)) = mset xs"
proof -
  have ne: "xs[i := last xs] \<noteq> []" using assms by auto
  have "last (xs[i := last xs]) = last xs" using assms by (subst last_list_update) auto
  then have "mset (xs[i := last xs]) = add_mset (last xs) (mset (take_last i xs))"
    using append_butlast_last_id [OF ne] unfolding take_last_def
    by (metis add_mset_add_single mset.simps(1) mset.simps(2) mset_append)
  moreover have "mset (xs[i := last xs]) = add_mset (last xs) (mset xs - {#xs ! i#})"
    using assms by (simp add: mset_update)
  ultimately have "mset (take_last i xs) = mset xs - {#xs ! i#}" by simp
  then show ?thesis using nth_mem_mset [OF assms] by simp
qed

lemma own_bytes_take_last:
  assumes "i < length rs"
  shows "own_bytes rs = (v_limit (rs ! i) - v_start (rs ! i)) + own_bytes (take_last i rs)"
  using arg_cong [OF mset_take_last [OF assms], of "\<lambda>m. \<Sum>r \<in># m. v_limit r - v_start r"]
  by (simp add: own_bytes_def sum_mset_sum_list flip: mset_map)

lemma set_take_last: "i < length xs \<Longrightarrow> set (take_last i xs) \<subseteq> set xs"
  using mset_take_last [of i xs] by (metis set_mset_add_mset_insert set_mset_mset subset_insertI)

lemma own_bytes_update:
  "i < length rs \<Longrightarrow> own_bytes (rs[i := r]) = own_bytes rs - (v_limit (rs ! i) - v_start (rs ! i)) + (v_limit r - v_start r)"
proof (induction rs arbitrary: i)
  case (Cons a rs)
  then show ?case by (cases i) (simp_all add: own_bytes_def)
qed simp

lemma own_bytes_snoc: "own_bytes (rs @ [r]) = own_bytes rs + (v_limit r - v_start r)"
  by (simp add: own_bytes_def)

text \<open>The operations keep the invariant.\<close>

lemma forget_ok:
  assumes ok: "budget_ok b" and p: "piece_of b i from to" and a: "from mod gv_page b = 0" "to mod gv_page b = 0"
  shows "budget_ok (forget b i from to)"
proof -
  let ?rs = "gv_regions b" and ?r = "gv_regions b ! i"
  have i: "i < length ?rs" and f: "v_start ?r \<le> from" "from < to" "to \<le> v_limit ?r"
    using p by (simp_all add: piece_of_def)
  have b: "spans_apart ?rs" "gv_reserved b = own_bytes ?rs" "\<forall>r \<in> set ?rs. region_ok (gv_page b) r"
    using ok by (simp_all add: budget_ok_def)
  have r: "region_ok (gv_page b) ?r" using b(3) i by simp
  have "v_start ?r \<le> to" using f(1,2) by order
  then have cut: "spans_apart (?rs[i := cut_before to ?r])" by (intro spans_apart_update [OF b(1) i]) simp_all
  have e: "spans_apart (?rs[i := ?r\<lparr>v_end := z, v_limit := from\<rparr>])" for z
    by (intro spans_apart_update [OF b(1) i]) simp_all
  let ?new = "\<lparr>v_start = v_start ?r, v_end = min (v_end ?r) from, v_limit = from, v_span = from\<rparr>"
  have "\<forall>q \<in> set (?rs[i := cut_before to ?r]). apart ?new q"
  proof
    fix q assume "q \<in> set (?rs[i := cut_before to ?r])"
    then obtain j where j: "j < length ?rs" "q = ?rs[i := cut_before to ?r] ! j" by (auto simp: in_set_conv_nth)
    show "apart ?new q"
    proof (cases "j = i")
      case True
      then show ?thesis using j f(2) i by (simp add: apart_def less_imp_le)
    next
      case False
      then have "apart ?r (?rs ! j)" using b(1) i j(1) by (simp add: spans_apart_def)
      moreover have "from \<le> v_span ?r" using r f(2,3) by (auto simp: region_ok_def)
      ultimately show ?thesis using apart_shrink [of ?r "?rs ! j" ?new] j(2) False by simp
    qed
  qed
  then have new: "spans_apart (?rs[i := cut_before to ?r] @ [?new])" by (rule spans_apart_snoc [OF cut])
  have regions: "spans_apart (gv_regions (forget b i from to))"
    using cut e new b(1) by (simp add: forget_def Let_def)
  have bytes: "gv_reserved (forget b i from to) = own_bytes (gv_regions (forget b i from to))"
  proof -
    have "v_start ?r = from" if "from \<le> v_start ?r" using that f(1) by order
    moreover have "v_limit ?r = to" if "v_limit ?r \<le> to" using that f(3) by order
    ultimately show ?thesis
      using b(2) by (auto simp: forget_def Let_def own_bytes_update [OF i] own_bytes_snoc)
  qed
  have rest: "gv_page (forget b i from to) = gv_page b" "gv_floor (forget b i from to) = gv_floor b"
      "gv_claims (forget b i from to) = gv_claims b" "length (gv_regions (forget b i from to)) \<le> GV_MAX_REGIONS"
    using ok by (simp_all add: forget_def Let_def budget_ok_def)
  show ?thesis
    using ok regions bytes rest forget_regions_ok [OF p b(3) a] by (simp add: budget_ok_def)
qed

lemma clip_claim_aligned:
  assumes "from mod g = 0" "to mod g = 0" "c_start c mod g = 0 \<and> c_end c mod g = 0"
  shows "c_start (clip_claim from to c) mod g = 0 \<and> c_end (clip_claim from to c) mod g = 0"
  using assms by (simp add: clip_claim_def)

lemma unclaim_loop_ok:
  assumes "lo mod g = 0" "hi mod g = 0" "\<forall>c \<in> set cs. c_start c mod g = 0 \<and> c_end c mod g = 0"
  shows "length (unclaim_loop i lo hi cs) \<le> length cs \<and>
    (\<forall>c \<in> set (unclaim_loop i lo hi cs). c_start c mod g = 0 \<and> c_end c mod g = 0)"
  using assms
proof (induction i lo hi cs rule: unclaim_loop.induct)
  case (1 i lo hi cs)
  show ?case
  proof (cases "length cs \<le> i")
    case True
    then show ?thesis using 1(5) by (simp add: unclaim_loop.simps [of i lo hi cs])
  next
    case False
    then have i: "i < length cs" by simp
    show ?thesis
    proof (cases "lo \<le> c_start (cs ! i) \<and> c_end (cs ! i) \<le> hi")
      case True
      have "\<forall>c \<in> set (take_last i cs). c_start c mod g = 0 \<and> c_end c mod g = 0"
        using 1(5) set_take_last [OF i] by blast
      from 1(1) [OF False refl True 1(3,4) this] show ?thesis
        using False True by (simp add: unclaim_loop.simps [of i lo hi cs]) linarith
    next
      case f: False
      have "c_start (cs ! i) mod g = 0 \<and> c_end (cs ! i) mod g = 0" using 1(5) i by simp
      note clip = clip_claim_aligned [OF 1(3,4) this]
      have "\<forall>c \<in> set (cs[i := clip_claim lo hi (cs ! i)]). c_start c mod g = 0 \<and> c_end c mod g = 0"
        using 1(5) clip by (auto dest!: subsetD [OF set_update_subset_insert])
      from 1(2) [OF False refl f 1(3,4) this] show ?thesis
        unfolding unclaim_loop.simps [of i lo hi cs] Let_def if_not_P [OF False] if_not_P [OF f] by simp
    qed
  qed
qed

lemma unclaim_ok:
  assumes "budget_ok b" and "from mod gv_page b = 0" "to mod gv_page b = 0"
  shows "budget_ok (unclaim b from to)"
  using assms unclaim_loop_ok [OF assms(2,3), of "gv_claims b" 0] by (auto simp: budget_ok_def unclaim_def)

lemma sweep_loop_ok: "budget_ok b \<Longrightarrow> budget_ok (sweep_loop i b)"
proof (induction i b rule: sweep_loop.induct)
  case (1 i b)
  show ?case
  proof (cases "length (gv_regions b) \<le> i")
    case True
    then show ?thesis using 1(3) by (simp add: sweep_loop.simps [of i b])
  next
    case False
    then have i: "i < length (gv_regions b)" by simp
    let ?r = "gv_regions b ! i"
    have r: "region_ok (gv_page b) ?r" using 1(3) i by (simp add: budget_ok_def)
    show ?thesis
    proof (cases "v_start ?r < v_limit ?r")
      case True
      from 1(1) [OF False refl True 1(3)] show ?thesis using False True by (simp add: sweep_loop.simps [of i b])
    next
      case f: False
      let ?u = "unclaim b (v_limit ?r) (v_span ?r)"
      have u: "budget_ok ?u" by (rule unclaim_ok [OF 1(3)]) (use r in \<open>simp_all add: region_ok_def\<close>)
      have "v_limit ?r = v_start ?r"
        using f r unfolding region_ok_def by (meson leI order_antisym order_trans)
      then have "own_bytes (take_last i (gv_regions b)) = own_bytes (gv_regions b)"
        using own_bytes_take_last [OF i] by simp
      then have "budget_ok (?u\<lparr>gv_regions := take_last i (gv_regions ?u)\<rparr>)"
        using u i spans_apart_take_last [of "gv_regions b" i] set_take_last [OF i]
        by (auto simp: budget_ok_def unclaim_def)
      from 1(2) [OF False refl f refl this] show ?thesis using False f by (simp add: sweep_loop.simps [of i b] Let_def)
    qed
  qed
qed

lemma part_aligned:
  assumes ok: "\<forall>r \<in> set (gv_regions b). region_ok g r" and "e mod g = 0" and "snd anchor mod g = 0"
    and p: "gv_part b cursor e anchor = (kind, until, j)"
  shows "until mod g = 0"
proof -
  have m: "case missing_loop rs i cursor lim of Inl (_, s) \<Rightarrow> s mod g = 0 | Inr l \<Rightarrow> l mod g = 0"
    if "\<forall>r \<in> set rs. region_ok g r" "lim mod g = 0" for rs i lim
    using that
    by (induction rs i cursor lim rule: missing_loop.induct) (simp_all add: region_ok_def min_def)
  have o: "fst (snd (own_loop rs i cursor lim)) mod g = 0"
    if "\<forall>r \<in> set rs. region_ok g r" "lim mod g = 0" for rs i lim
    using that by (induction rs i cursor lim rule: own_loop.induct) (simp_all add: region_ok_def min_def)
  show ?thesis
  proof (cases "fst anchor \<le> cursor \<and> cursor < snd anchor")
    case True
    then show ?thesis using p o [OF ok, of "min e (snd anchor)" 0] assms(2,3) by (simp add: gv_part_def min_def)
  next
    case False
    show ?thesis
    proof (cases "missing_loop (gv_regions b) 0 cursor e")
      case (Inl q)
      then have "until = min (snd q) e" using p unfolding gv_part_def if_not_P [OF False] by (simp split: prod.splits)
      then show ?thesis using m [OF ok assms(2), of 0] Inl assms(2) by (simp add: min_def split: prod.splits)
    next
      case (Inr l)
      then have "own_loop (gv_regions b) 0 cursor l = (kind, until, j)"
        using p unfolding gv_part_def if_not_P [OF False] by simp
      moreover have "l mod g = 0" using m [OF ok assms(2), of 0] Inr by simp
      ultimately show ?thesis using o [OF ok, of l 0] by simp
    qed
  qed
qed

lemma budget_ok_ends: "budget_ok b \<Longrightarrow> \<forall>r \<in> set (gv_regions b). v_end r \<le> v_limit r"
  by (simp add: budget_ok_def region_ok_def)

lemma anchor_at_facts:
  assumes "budget_ok b" and "address mod gv_page b = 0"
  shows "fst (anchor_at b address) \<le> address" and "snd (anchor_at b address) mod gv_page b = 0"
  using assms
  by (auto simp: anchor_at_def budget_ok_def region_ok_def in_own_def find_Some_iff set_conv_nth split: option.split)

lemma unclaim_regions [simp]: "gv_regions (unclaim b a z) = gv_regions b" "gv_page (unclaim b a z) = gv_page b"
  by (simp_all add: unclaim_def)

lemma forget_page [simp]: "gv_page (forget b i a z) = gv_page b"
  by (simp add: forget_def Let_def)

text \<open>The loop over a range keeps the invariant and reaches exactly the addresses whose kind allows it.\<close>

lemma apply_loop_ok:
  assumes "budget_ok b" and "fst anchor \<le> cursor" and "snd anchor mod gv_page b = 0"
    and "cursor mod gv_page b = 0" and "e mod gv_page b = 0"
  shows "\<exists>code' k' l' b'. apply_loop (logged K) operation value cursor e anchor (code, (k, l), b) = (code', (k', l'), b') \<and>
    budget_ok b' \<and> gv_page b' = gv_page b \<and>
    reached operation l' = reached operation l \<union>
      {x. cursor \<le> x \<and> x < e \<and> reaches operation (kind_at (gv_regions b) anchor x)}"
  using assms
proof (induction "unat e - unat cursor" arbitrary: cursor code k l b rule: less_induct)
  case less
  show ?case
  proof (cases "cursor < e")
    case False
    then have "{x. cursor \<le> x \<and> x < e \<and> reaches operation (kind_at (gv_regions b) anchor x)} = {}"
      by (auto simp: not_less)
    then show ?thesis using False less.prems(1) by (simp only: apply_loop.simps [of _ _ _ cursor]) simp
  next
    case True
    obtain kind until j where p: "gv_part b cursor e anchor = (kind, until, j)" by (metis prod_cases3)
    note ends = budget_ok_ends [OF less.prems(1)]
    have until: "cursor < until" "until \<le> e" using part_bounds [OF True p] by simp_all
    have al: "until mod gv_page b = 0"
      by (rule part_aligned [OF _ less.prems(5,3) p]) (use less.prems(1) in \<open>simp add: budget_ok_def\<close>)
    obtain c1 k1 l1 b1 where
      st: "apply_piece (logged K) operation value cursor (kind, until, j) (code, (k, l), b) = (c1, (k1, l1), b1)"
      and log: "reached operation l1 = reached operation l \<union> {x. cursor \<le> x \<and> x < until \<and> reaches operation kind}"
      and b1: "b1 = b \<or> b1 = unclaim b cursor until \<or> (\<exists>i. piece_of b i cursor until \<and> b1 = forget b i cursor until)"
      using apply_piece_effect [OF ends True p, of K operation "value" code k l] by (elim exE conjE) (rule that)
    have ok1: "budget_ok b1" "gv_page b1 = gv_page b"
      using b1 less.prems(1) unclaim_ok [OF less.prems(1,4) al] forget_ok [OF less.prems(1) _ less.prems(4) al] by auto
    have kinds: "kind_at (gv_regions b1) anchor x = kind_at (gv_regions b) anchor x" if "until \<le> x" for x
      using b1 that by (elim disjE exE conjE) (simp_all add: forget_kind)
    have "fst anchor \<le> until" using less.prems(2) until(1) by order
    then have "\<exists>code' k' l' b'. apply_loop (logged K) operation value until e anchor (c1, (k1, l1), b1) = (code', (k', l'), b') \<and>
        budget_ok b' \<and> gv_page b' = gv_page b1 \<and>
        reached operation l' = reached operation l1 \<union>
          {x. until \<le> x \<and> x < e \<and> reaches operation (kind_at (gv_regions b1) anchor x)}"
      using less.prems(3,5) al ok1 by (intro less.hyps part_advances [OF True p]) simp_all
    moreover have "reached operation l1 \<union>
          {x. until \<le> x \<and> x < e \<and> reaches operation (kind_at (gv_regions b1) anchor x)} =
        reached operation l \<union> {x. cursor \<le> x \<and> x < e \<and> reaches operation (kind_at (gv_regions b) anchor x)}"
    proof -
      have "x \<in> {x. cursor \<le> x \<and> x < until \<and> reaches operation kind} \<union>
          {x. until \<le> x \<and> x < e \<and> reaches operation (kind_at (gv_regions b1) anchor x)} \<longleftrightarrow>
        cursor \<le> x \<and> x < e \<and> reaches operation (kind_at (gv_regions b) anchor x)" for x
      proof (cases "until \<le> x")
        case t: True
        then have "cursor \<le> x" "\<not> x < until" using until(1) by order+
        then show ?thesis using t kinds by simp
      next
        case f: False
        then have "x < until" "x < e" using until(2) by order+
        then show ?thesis using f part_kind [OF ends True less.prems(2) p, of x] by auto
      qed
      then show ?thesis unfolding log by blast
    qed
    ultimately show ?thesis
      using True p st ok1(2) by (simp add: apply_loop.simps [of _ _ _ cursor] Let_def)
  qed
qed

text \<open>The log does not change what a call does.\<close>

lemma apply_loop_logged:
  "apply_loop (logged K) operation value cursor e anchor (code, (k, l), b) = (code', (k', l'), b') \<Longrightarrow>
   apply_loop K operation value cursor e anchor (code, k, b) = (code', k', b')"
proof (induction "unat e - unat cursor" arbitrary: cursor code k l b rule: less_induct)
  case less
  show ?case
  proof (cases "cursor < e")
    case False
    then show ?thesis using less.prems by (simp add: apply_loop.simps [of _ _ _ cursor])
  next
    case True
    obtain kind until j where p: "gv_part b cursor e anchor = (kind, until, j)" by (metis prod_cases3)
    obtain c1 k1 l1 b1 where
      st: "apply_piece (logged K) operation value cursor (kind, until, j) (code, (k, l), b) = (c1, (k1, l1), b1)"
      by (metis prod.collapse)
    then have "apply_piece K operation value cursor (kind, until, j) (code, k, b) = (c1, k1, b1)"
      by (auto simp: apply_piece_def kernel_call_def logged_def log_call_def
          split: if_splits option.splits prod.splits GVOperation.splits)
    moreover have "apply_loop (logged K) operation value until e anchor (c1, (k1, l1), b1) = (code', (k', l'), b')"
      using less.prems True p st by (simp add: apply_loop.simps [of _ _ _ cursor] Let_def)
    ultimately show ?thesis
      using True p less.hyps [OF part_advances [OF True p], of c1 k1 l1 b1]
      by (simp add: apply_loop.simps [of _ _ _ cursor] Let_def)
  qed
qed

section \<open>Reservations\<close>

text \<open>What the host documents of \<open>mmap\<close>: a length of zero is refused, and a mapping starts on a page
  boundary and lies inside the address space. The page size is a power of two.\<close>

definition kernel_ok :: "'k Kernel \<Rightarrow> bool" where
  "kernel_ok K \<longleftrightarrow>
     0 < k_page K \<and> unat (k_page K) dvd 2 ^ 64 \<and>
     (\<forall>k a n prot flags fd offset x k'. k_mmap K k a n prot flags fd offset = (Inr x, k') \<longrightarrow>
        0 < n \<and> x mod k_page K = 0 \<and> unat x + unat n + unat (k_page K) < 2 ^ 64)"

lemma kernel_mmap:
  assumes "kernel_ok K" and "k_mmap K k a n prot flags fd offset = (Inr x, k')"
  shows "0 < n" and "x mod k_page K = 0" and "unat x + unat n + unat (k_page K) < 2 ^ 64"
  using assms unfolding kernel_ok_def by blast+

lemma mod_0_unat: "(x :: u64) mod g = 0 \<longleftrightarrow> unat x mod unat g = 0"
  by (metis unat_mod unsigned_eq_0_iff)

lemma unat_round_down: "unat ((x :: u64) - x mod g) = unat x - unat x mod unat g"
  by (subst unat_sub) (simp_all add: word_le_nat_alt unat_mod)

lemma round_down_mod: "(x - x mod g) mod g = (0 :: u64)"
  by (simp only: mod_0_unat unat_round_down) (simp add: minus_mod_eq_mult_div)

lemma page_end_spec:
  assumes "0 < gv_page b"
  shows "page_end b a n mod gv_page b = 0"
    and "page_end b a n \<noteq> 0 \<Longrightarrow> unat a + unat n \<le> unat (page_end b a n) \<and>
      unat (page_end b a n) < unat a + unat n + unat (gv_page b)"
    and "unat a + unat n + unat (gv_page b) < 2 ^ 64 \<Longrightarrow> unat a + unat n \<le> unat (page_end b a n)"
proof -
  let ?g = "gv_page b"
  show "page_end b a n mod ?g = 0" by (simp add: page_end_def Let_def round_down_mod)
  have g: "0 < unat ?g" using assms by (simp add: word_less_nat_alt)
  have g1: "unat (?g - 1) = unat ?g - 1" using g by (metis One_nat_def unat_minus_one unsigned_0 less_numeral_extra(3))
  have main: "unat a + unat n \<le> unat (page_end b a n) \<and> unat (page_end b a n) < unat a + unat n + unat ?g"
    if w: "\<not> a + n < a" "\<not> a + n + (?g - 1) < a + n"
  proof -
    have e: "unat (a + n) = unat a + unat n" using w(1) by (simp add: unat_plus_simple not_less)
    have r: "unat (a + n + (?g - 1)) = unat a + unat n + (unat ?g - 1)"
      using w(2) e g1 by (simp add: unat_plus_simple not_less)
    have "unat (page_end b a n) =
        unat a + unat n + (unat ?g - 1) - (unat a + unat n + (unat ?g - 1)) mod unat ?g"
      using w by (simp add: page_end_def Let_def unat_round_down r)
    moreover have "(unat a + unat n + (unat ?g - 1)) mod unat ?g < unat ?g" using g by simp
    ultimately show ?thesis using g by linarith
  qed
  show "unat a + unat n \<le> unat (page_end b a n) \<and> unat (page_end b a n) < unat a + unat n + unat ?g"
    if "page_end b a n \<noteq> 0"
    by (rule main) (use that in \<open>auto simp: page_end_def Let_def split: if_splits\<close>)
  show "unat a + unat n \<le> unat (page_end b a n)" if fit: "unat a + unat n + unat ?g < 2 ^ 64"
  proof -
    have e: "unat (a + n) = unat a + unat n" by (rule unat_plus_nowrap) (use fit in simp)
    have "unat (a + n + (?g - 1)) = unat (a + n) + unat (?g - 1)"
      by (rule unat_plus_nowrap) (use fit e g1 in simp)
    then show ?thesis using main e by (simp add: word_less_nat_alt)
  qed
qed

text \<open>Multiples of the page size.\<close>

lemma multiple_less:
  fixes m n g :: nat
  assumes "m mod g = 0" and "n mod g = 0" and "m < n"
  shows "m + g \<le> n"
proof -
  obtain i j where "m = g * i" "n = g * j" using assms(1,2) by (metis mod_0_imp_dvd dvdE)
  then show ?thesis using assms(3) by (metis Suc_leI add.commute mult_Suc_right mult_le_mono2 mult_less_cancel1)
qed

lemma round_down_ge:
  fixes x g y :: nat
  assumes "g \<le> x" and "0 < g"
  shows "g \<le> x - x mod g"
proof -
  have "g * 1 \<le> g * (x div g)" using assms by (metis div_greater_zero_iff le_simps(3) mult_le_mono2 One_nat_def)
  then show ?thesis by (simp add: minus_mod_eq_mult_div)
qed

text \<open>The amounts \<open>gv_reserve\<close> asks for: all of it, or less in whole pages.\<close>

definition want_ok :: "GVBudget \<Rightarrow> u64 \<Rightarrow> u64 \<Rightarrow> bool" where
  "want_ok b sz want \<longleftrightarrow> want \<le> sz \<and> (want < sz \<longrightarrow> want mod gv_page b = 0 \<and> gv_page b \<le> want)"

lemma page_le_multiple:
  assumes "0 < (x :: u64)" and "x mod g = 0"
  shows "g \<le> x"
proof -
  have "unat g dvd unat x" using assms(2) by (simp add: mod_0_unat dvd_eq_mod_eq_0)
  then show ?thesis using assms(1) by (simp add: word_le_nat_alt word_less_nat_alt dvd_imp_le)
qed

lemma first_want_ok:
  assumes "budget_ok b"
  shows "want_ok b sz (first_want b sz)"
proof -
  define room where "room = (if gv_reserved b < gv_budget b then gv_budget b - gv_reserved b else 0)"
  define w where "w = (if sz > room then if room > gv_floor b then room else gv_floor b else sz)"
  define v where "v = (if w > sz then sz else w)"
  have f: "gv_page b \<le> gv_floor b" "0 < gv_page b"
    using assms page_le_multiple by (simp_all add: budget_ok_def)
  have "v \<le> sz" by (simp add: v_def not_less)
  have "gv_page b \<le> v" if "v < sz"
  proof -
    have "v = w" "w \<noteq> sz" using that by (auto simp: v_def split: if_splits)
    then show ?thesis using f by (auto simp: w_def split: if_splits)
  qed
  then have "gv_page b \<le> v - v mod gv_page b" if "v < sz"
    using that round_down_ge [of "unat (gv_page b)" "unat v"] f(2)
    by (simp add: word_le_nat_alt word_less_nat_alt unat_round_down)
  moreover have "v - v mod gv_page b \<le> v" by (simp add: word_le_nat_alt unat_round_down)
  moreover have "first_want b sz = (if v < sz then v - v mod gv_page b else v)"
    unfolding first_want_def Let_def v_def w_def room_def by (rule refl)
  ultimately show ?thesis
    using \<open>v \<le> sz\<close> round_down_mod [of v "gv_page b"] by (auto simp: want_ok_def)
qed

lemma halved_ok:
  assumes "want_ok b sz want" and "\<not> want \<le> gv_page b"
  shows "want_ok b sz (halved b want)"
proof -
  have "halved b want < want" using halved_less [OF assms(2)] by (simp add: word_less_nat_alt)
  moreover have "want \<le> sz" using assms(1) by (simp add: want_ok_def)
  ultimately have "halved b want \<le> sz" by order
  then show ?thesis by (auto simp: want_ok_def halved_def Let_def round_down_mod not_less)
qed

lemma reserve_loop_ok:
  assumes "want_ok b sz want" and "reserve_loop K k b sz prot flags fd want = (Inr a, want', k')"
  shows "want_ok b sz want' \<and> want' \<le> want \<and>
    (\<exists>k0. k_mmap K k0 0 (mapped_size b sz want') prot flags fd 0 = (Inr a, k'))"
  using assms
proof (induction K k b sz prot flags fd want rule: reserve_loop.induct)
  case (1 K k b sz prot flags fd want)
  obtain r k1 where m: "k_mmap K k 0 (mapped_size b sz want) prot flags fd 0 = (r, k1)" by fastforce
  show ?case
  proof (cases "\<exists>e. r = Inl e \<and> e = ENOMEM \<and> \<not> want \<le> gv_page b")
    case True
    then have r: "r = Inl ENOMEM" and f: "\<not> want \<le> gv_page b" by auto
    have "reserve_loop K k1 b sz prot flags fd (halved b want) = (Inr a, want', k')"
      using 1(3) m r f by (simp add: reserve_loop.simps [of K k])
    then have ih: "want_ok b sz want' \<and> want' \<le> halved b want \<and>
        (\<exists>k0. k_mmap K k0 0 (mapped_size b sz want') prot flags fd 0 = (Inr a, k'))"
      using 1(1) [OF m [symmetric] refl r] f halved_ok [OF 1(2) f] by simp
    moreover have "halved b want < want" using halved_less [OF f] by (simp add: word_less_nat_alt)
    ultimately show ?thesis by auto
  next
    case False
    then show ?thesis
      using 1(2,3) m by (auto simp: reserve_loop.simps [of K k] split: sum.splits if_splits)
  qed
qed

text \<open>The region of a reservation: in order, aligned, and never beyond the last page of what was asked.\<close>

lemma mapped_size_eq:
  assumes "want_ok b sz want" and "0 < mapped_size b sz want" and "unat (gv_page b) dvd 2 ^ 64"
  shows "unat (mapped_size b sz want) = (if want < sz then unat want + unat (gv_page b) else unat want)"
proof (cases "want < sz")
  case True
  let ?g = "gv_page b"
  have "unat want + unat ?g < 2 ^ 64"
  proof (rule ccontr)
    assume "\<not> unat want + unat ?g < 2 ^ 64"
    moreover have "unat want mod unat ?g = 0" using assms(1) True by (simp add: want_ok_def mod_0_unat)
    moreover have "2 ^ 64 mod unat ?g = 0" using assms(3) by (simp add: dvd_eq_mod_eq_0)
    ultimately have "unat want + unat ?g = 2 ^ 64"
      using multiple_less [of "unat want" "unat ?g" "2 ^ 64"] unat_u64_less [of want] by simp
    then have "want + ?g = 0" by (simp add: unat_arith_simps unat_word_ariths)
    then show False using assms(2) True by (simp add: mapped_size_def)
  qed
  then show ?thesis using True by (simp add: mapped_size_def unat_plus_nowrap)
qed (simp add: mapped_size_def)

lemma new_region_ok:
  assumes want: "want_ok b sz want" and g: "0 < gv_page b" "unat (gv_page b) dvd 2 ^ 64"
    and start: "start mod gv_page b = 0" "0 < mapped_size b sz want"
      "unat start + unat (mapped_size b sz want) + unat (gv_page b) < 2 ^ 64"
  shows "region_ok (gv_page b) (new_region b start sz want)" and "v_start (new_region b start sz want) = start"
    and "unat (v_span (new_region b start sz want)) < unat start + unat sz + unat (gv_page b)"
    and "want < sz \<Longrightarrow> v_end (new_region b start sz want) = start + want \<and>
      v_limit (new_region b start sz want) = start + want + gv_page b"
proof -
  let ?g = "gv_page b" and ?r = "new_region b start sz want"
  note m = mapped_size_eq [OF want start(2) g(2)]
  have fit: "unat start + unat want + unat ?g < 2 ^ 64" using start(3) m by (simp split: if_splits)
  have own: "page_end b start want mod ?g = 0" "unat start + unat want \<le> unat (page_end b start want)"
    using page_end_spec [OF g(1), of start want] fit by simp_all
  show "v_start ?r = start" by (simp add: new_region_def Let_def)
  have ne: "0 < unat want"
    using start(2) want g(1) by (auto simp: mapped_size_def want_ok_def word_less_nat_alt word_le_nat_alt split: if_splits)
  have own_less: "unat (page_end b start want) < unat start + unat want + unat ?g"
    using page_end_spec(2) [OF g(1), of start want] own(2) ne by (metis add_is_0 le_zero_eq less_not_refl unsigned_0)
  have e: "page_end b start want = start + want" if lt: "want < sz"
  proof -
    have "(unat start + unat want) mod unat ?g = 0"
      using want lt start(1) by (simp add: want_ok_def mod_0_unat mod_add_eq [symmetric])
    moreover have "unat (page_end b start want) mod unat ?g = 0" using own(1) by (simp add: mod_0_unat)
    ultimately have "\<not> unat start + unat want < unat (page_end b start want)"
      using own_less multiple_less by (metis leD)
    then have "unat (page_end b start want) = unat start + unat want" using own(2) by linarith
    then show ?thesis using fit by (simp add: word_unat_eq_iff unat_plus_nowrap)
  qed
  have lim: "unat (start + want + ?g) = unat start + unat want + unat ?g" if lt: "want < sz"
    using fit by (simp add: unat_plus_nowrap)
  have asked: "page_end b start sz mod ?g = 0" by (rule page_end_spec(1) [OF g(1)])
  have sw: "start mod ?g = 0" "(start + want) mod ?g = 0" "(start + want + ?g) mod ?g = 0" if lt: "want < sz"
    using start(1) own(1) e [OF lt] lim [OF lt] unat_plus_nowrap [of start want] fit by (simp_all add: mod_0_unat)
  show "region_ok ?g ?r"
  proof (cases "want < sz")
    case True
    have "start \<le> start + want" "start + want \<le> start + want + ?g"
      using lim [OF True] fit by (simp_all add: word_le_nat_alt unat_plus_nowrap)
    then show ?thesis using True e sw asked by (simp add: new_region_def Let_def region_ok_def less_imp_le)
  next
    case False
    have "start \<le> page_end b start want" using own(2) by (simp add: word_le_nat_alt)
    then show ?thesis using False own start(1) by (simp add: new_region_def Let_def region_ok_def)
  qed
  show "unat (v_span ?r) < unat start + unat sz + unat ?g"
  proof (cases "want < sz")
    case True
    have "unat (start + want + ?g) < unat start + unat sz + unat ?g"
      using lim [OF True] True by (simp add: word_less_nat_alt)
    moreover have "unat (page_end b start sz) < unat start + unat sz + unat ?g" if "start + want + ?g < page_end b start sz"
      using that page_end_spec(2) [OF g(1), of start sz] by (cases "page_end b start sz = 0") auto
    ultimately show ?thesis using True e by (simp add: new_region_def Let_def)
  next
    case False
    then have "want = sz" using want by (simp add: want_ok_def)
    then show ?thesis using own_less by (simp add: new_region_def Let_def)
  qed
  show "v_end ?r = start + want \<and> v_limit ?r = start + want + ?g" if "want < sz"
    using that e by (simp add: new_region_def Let_def)
qed

text \<open>The place of a reservation does not meet the span of another.\<close>

lemma new_region_apart:
  assumes r: "region_ok (gv_page b) r" "v_start r = start" "unat (v_span r) < unat start + unat sz + unat (gv_page b)"
    and q: "region_ok (gv_page b) q" "v_span q \<le> start \<or> unat start + unat sz \<le> unat (v_start q)"
  shows "apart r q"
proof (cases "v_span q \<le> start")
  case True
  then show ?thesis using r(2) by (simp add: apart_def)
next
  case False
  have "\<not> unat (v_start q) < unat (v_span r)"
    using q False r(1,3) multiple_less [of "unat (v_start q)" "unat (gv_page b)" "unat (v_span r)"]
    by (auto simp: region_ok_def mod_0_unat)
  then show ?thesis by (simp add: apart_def word_le_nat_alt)
qed

lemma span_after_fixed:
  "span_after from sz rs = from \<longleftrightarrow> \<not> (\<exists>r \<in> set rs. from < v_span r \<and> v_start r < from + sz)"
proof -
  let ?f = "\<lambda>lim r. if from < v_span r \<and> v_start r < from + sz \<and> lim < v_span r then v_span r else lim"
  have ge: "lim \<le> foldl ?f lim rs" for lim rs
    by (induction rs arbitrary: lim) (auto intro: order_trans less_imp_le)
  have "foldl ?f from rs = from \<longleftrightarrow> \<not> (\<exists>r \<in> set rs. from < v_span r \<and> v_start r < from + sz)" for rs
  proof (induction rs)
    case (Cons r rs)
    show ?case
    proof (cases "from < v_span r \<and> v_start r < from + sz")
      case True
      then have "from < foldl ?f from (r # rs)" using ge [of "v_span r" rs] by (auto intro: order_less_le_trans)
      then show ?thesis using True by auto
    next
      case False
      then have "foldl ?f from (r # rs) = foldl ?f from rs" by auto
      then show ?thesis using Cons False by (simp del: foldl_Cons)
    qed
  qed simp
  then show ?thesis by (simp add: span_after_def)
qed

lemma span_loop_apart:
  assumes "span_loop steps K k b lo sz = hole" and "hole \<noteq> 0"
  shows "\<forall>q \<in> set (gv_regions b). v_span q \<le> hole \<or> unat hole + unat sz \<le> unat (v_start q)"
  using assms
proof (induction steps arbitrary: lo)
  case (Suc steps)
  show ?case
  proof (cases "hole = lo \<and> lo + sz > lo \<and> span_after lo sz (gv_regions b) = lo")
    case True
    then have "unat (lo + sz) = unat lo + unat sz"
      using unat_plus_simple [of lo sz] by (simp add: less_imp_le)
    moreover have "\<not> (\<exists>r \<in> set (gv_regions b). lo < v_span r \<and> v_start r < lo + sz)"
      using True by (simp add: span_after_fixed)
    ultimately show ?thesis using True by (auto simp: word_le_nat_alt not_less)
  next
    case False
    then obtain lo' where "span_loop steps K k b lo' sz = hole"
      using Suc.prems by (auto simp: Let_def split: if_splits option.splits)
    then show ?thesis using Suc.IH Suc.prems(2) by blast
  qed
qed simp

lemma place_apart:
  assumes ok: "budget_ok b" and place: "(if misplaced K k b start sz want
      then move_reservation K k b start sz (mapped_size b sz want) prot flags fd else (Some start, k)) = (Some a, k')"
  shows "\<forall>q \<in> set (gv_regions b). v_span q \<le> a \<or> unat a + unat sz \<le> unat (v_start q)"
    and "a = start \<or> (\<exists>k0 k1. k_mmap K k0 a (mapped_size b sz want) prot flags fd 0 = (Inr a, k1))"
proof -
  have g: "0 < gv_page b" using ok by (simp add: budget_ok_def)
  consider (stay) "\<not> misplaced K k b start sz want" "a = start"
    | (move) "misplaced K k b start sz want" "a = free_span K k b (k_header K) sz" "a \<noteq> 0"
        "\<exists>k0 k1. k_mmap K k0 a (mapped_size b sz want) prot flags fd 0 = (Inr a, k1)"
    using place by (auto simp: move_reservation_def Let_def split: if_splits prod.splits)
  then have "(\<forall>q \<in> set (gv_regions b). v_span q \<le> a \<or> unat a + unat sz \<le> unat (v_start q)) \<and>
    (a = start \<or> (\<exists>k0 k1. k_mmap K k0 a (mapped_size b sz want) prot flags fd 0 = (Inr a, k1)))"
  proof cases
    case stay
    then have no: "\<not> overlaps_reservation b start sz" by (simp add: misplaced_def Let_def)
    then have "unat start + unat sz \<le> unat (page_end b start sz)"
      using page_end_spec(2) [OF g, of start sz] by (simp add: overlaps_reservation_def Let_def)
    then have "v_span q \<le> start \<or> unat start + unat sz \<le> unat (v_start q)" if "q \<in> set (gv_regions b)" for q
      using no that by (auto simp: overlaps_reservation_def Let_def not_less word_le_nat_alt)
    then show ?thesis using stay by simp
  next
    case move
    then show ?thesis using span_loop_apart [of 4096 K k b "k_header K" sz a] by (simp add: free_span_def)
  qed
  then show "\<forall>q \<in> set (gv_regions b). v_span q \<le> a \<or> unat a + unat sz \<le> unat (v_start q)"
    and "a = start \<or> (\<exists>k0 k1. k_mmap K k0 a (mapped_size b sz want) prot flags fd 0 = (Inr a, k1))" by simp_all
qed

lemma claim_loop_ok:
  assumes "budget_ok b" and "a mod gv_page b = 0"
  shows "budget_ok (claim_loop i a sz b) \<and> gv_page (claim_loop i a sz b) = gv_page b"
  using assms
proof (induction i a sz b rule: claim_loop.induct)
  case (1 i a sz b)
  show ?case
  proof (cases "length (gv_regions b) \<le> i")
    case True
    then show ?thesis using 1(3) by (simp add: claim_loop.simps [of i])
  next
    case False
    then have i: "i < length (gv_regions b)" by simp
    let ?r = "gv_regions b ! i"
    have r: "region_ok (gv_page b) ?r" using 1(3) i by (simp add: budget_ok_def)
    show ?thesis
    proof (cases "a + sz \<le> v_limit ?r \<or> v_span ?r \<le> a")
      case True
      from 1(1) [OF False refl True 1(3,4)] show ?thesis
        unfolding claim_loop.simps [of i a sz b] Let_def if_not_P [OF False] if_P [OF True] .
    next
      case out: False
      show ?thesis
      proof (cases "length (gv_claims b) < GV_MAX_CLAIMS")
        case True
        have "page_end b a sz mod gv_page b = 0" using page_end_spec(1) 1(3) by (simp add: budget_ok_def)
        then show ?thesis
          using 1(3,4) True unfolding claim_loop.simps [of i a sz b] Let_def if_not_P [OF False] if_not_P [OF out]
          by (simp add: budget_ok_def)
      next
        case full: False
        let ?r' = "?r\<lparr>v_span := if a > v_limit ?r then a else v_limit ?r\<rparr>"
        have sp: "v_span ?r' \<le> v_span ?r" using out r by (simp add: region_ok_def not_le less_imp_le)
        have "region_ok (gv_page b) ?r'" using r 1(4) by (simp add: region_ok_def less_imp_le)
        then have "\<forall>r \<in> set ((gv_regions b)[i := ?r']). region_ok (gv_page b) r"
          using 1(3) by (auto simp: budget_ok_def dest!: subsetD [OF set_update_subset_insert])
        moreover have "spans_apart ((gv_regions b)[i := ?r'])"
          using 1(3) sp by (intro spans_apart_update [OF _ i]) (simp_all add: budget_ok_def)
        ultimately have "budget_ok (b\<lparr>gv_regions := (gv_regions b)[i := ?r']\<rparr>)"
          using 1(3) i by (simp add: budget_ok_def own_bytes_update)
        from 1(2) [OF False refl out full this] show ?thesis
          using 1(4) unfolding claim_loop.simps [of i a sz b] Let_def if_not_P [OF False] if_not_P [OF out] if_not_P [OF full]
          by simp
      qed
    qed
  qed
qed

lemma record_region_ok:
  assumes ok: "budget_ok b" and room: "length (gv_regions b) < GV_MAX_REGIONS"
    and r: "region_ok (gv_page b) (new_region b a sz want)" "\<forall>q \<in> set (gv_regions b). apart (new_region b a sz want) q"
  shows "budget_ok (snd (record_region K k b a sz want))"
  using ok room r spans_apart_snoc [of "gv_regions b" "new_region b a sz want"]
  by (simp add: budget_ok_def record_region_def Let_def own_bytes_snoc)

text \<open>What a reservation does to the bookkeeping.\<close>

lemma gv_reserve_spec:
  assumes ok: "budget_ok b" and K: "kernel_ok K" and page: "gv_page b = k_page K"
    and res: "gv_reserve K k b sz prot flags fd = (result, granted, k', b')"
  shows "case result of
      Inl e \<Rightarrow> b' = b \<and> granted = 0
    | Inr a \<Rightarrow>
        if length (gv_regions b) = GV_MAX_REGIONS then b' = claim b a sz \<and> granted = sz \<and> a mod gv_page b = 0
        else \<exists>r. gv_regions b' = gv_regions b @ [r] \<and> r = new_region b a sz granted \<and> budget_ok b' \<and> gv_page b' = gv_page b \<and>
          want_ok b sz granted \<and> granted \<le> first_want b sz \<and> v_start r = a \<and>
          (\<forall>q \<in> set (gv_regions b). apart r q) \<and>
          (granted < sz \<longrightarrow> v_end r = a + granted \<and> v_limit r = a + granted + gv_page b)"
proof (cases "length (gv_regions b) = GV_MAX_REGIONS")
  case True
  then show ?thesis
    using res kernel_mmap(2) [OF K] page by (auto simp: gv_reserve_def split: prod.splits sum.splits)
next
  case False
  then have room: "length (gv_regions b) < GV_MAX_REGIONS" using ok by (simp add: budget_ok_def)
  obtain first want k1 where loop: "reserve_loop K k b sz prot flags fd (first_want b sz) = (first, want, k1)"
    by (metis prod_cases3)
  show ?thesis
  proof (cases first)
    case (Inl e)
    then show ?thesis using res loop False by (auto simp: gv_reserve_def)
  next
    case (Inr start)
    obtain place k2 where place: "(if misplaced K k1 b start sz want
        then move_reservation K k1 b start sz (mapped_size b sz want) prot flags fd else (Some start, k1)) = (place, k2)"
      by fastforce
    note w = reserve_loop_ok [OF first_want_ok [OF ok] loop [unfolded Inr]]
    show ?thesis
    proof (cases place)
      case None
      then show ?thesis using res loop False Inr place by (auto simp: gv_reserve_def)
    next
      case (Some a)
      note p = place_apart [OF ok place [unfolded Some]]
      have "\<exists>k0 k1 h. k_mmap K k0 h (mapped_size b sz want) prot flags fd 0 = (Inr a, k1)"
        using p(2) w by blast
      then have m: "a mod gv_page b = 0" "0 < mapped_size b sz want"
          "unat a + unat (mapped_size b sz want) + unat (gv_page b) < 2 ^ 64"
        using kernel_mmap [OF K] page by (metis, blast, metis)
      have g: "0 < gv_page b" "unat (gv_page b) dvd 2 ^ 64" using K page by (simp_all add: kernel_ok_def)
      have want: "want_ok b sz want" using w by blast
      note r = new_region_ok [OF want g m]
      have ap: "\<forall>q \<in> set (gv_regions b). apart (new_region b a sz want) q"
        using new_region_apart [OF r(1-3)] p(1) ok by (simp add: budget_ok_def)
      have eq: "result = Inr a" "granted = want" "b' = snd (record_region K k2 b a sz want)"
        using res loop False Inr place Some by (auto simp: gv_reserve_def split: prod.splits)
      then show ?thesis
        using False room r(2,4) w ap record_region_ok [OF ok room r(1) ap]
        by (simp add: record_region_def Let_def)
    qed
  qed
qed

section \<open>Reachable budgets\<close>

text \<open>The operations of the budget, in any order, and kernel calls of the rest of the process between them.\<close>

inductive gv_step :: "'k Kernel \<Rightarrow> 'k \<times> GVBudget \<Rightarrow> 'k \<times> GVBudget \<Rightarrow> bool" for K where
  reserve: "gv_reserve K k b sz prot flags fd = (result, granted, k', b') \<Longrightarrow> gv_step K (k, b) (k', b')"
| map: "gv_map K k (Some b) a sz prot flags fd offset = (result, k', Some b') \<Longrightarrow> gv_step K (k, b) (k', b')"
| operate: "gv_operate K k (Some b) operation a sz value = (failed, k', Some b') \<Longrightarrow> gv_step K (k, b) (k', b')"
| other: "gv_step K (k, b) (k', b)"

inductive gv_reachable :: "'k Kernel \<Rightarrow> 'k \<times> GVBudget \<Rightarrow> bool" for K where
  start: "gv_reachable K (k, gv_init K bytes threshold lowest)"
| step: "gv_reachable K s \<Longrightarrow> gv_step K s s' \<Longrightarrow> gv_reachable K s'"

lemma gv_init_ok:
  assumes "kernel_ok K"
  shows "budget_ok (gv_init K bytes threshold lowest) \<and> gv_page (gv_init K bytes threshold lowest) = k_page K"
proof -
  have g: "0 < k_page K" using assms by (simp add: kernel_ok_def)
  have "0 < lowest - lowest mod k_page K" if "k_page K < lowest"
    using that g round_down_ge [of "unat (k_page K)" "unat lowest"]
    by (simp add: word_less_nat_alt unat_round_down)
  then show ?thesis using g
    by (simp add: budget_ok_def gv_init_def round_down_mod spans_apart_def own_bytes_def)
qed

lemma apply_range_ok:
  assumes ok: "budget_ok b" and r: "apply_range K k b operation a sz value = (code, k', b')"
  shows "budget_ok b' \<and> gv_page b' = gv_page b"
proof (cases "sz = 0 \<or> page_end b a sz = 0 \<or> a mod gv_page b \<noteq> 0 \<or>
    operation = GV_PROTECT \<and> value \<noteq> PROT_NONE \<and> withheld b a (page_end b a sz) (anchor_at b a)")
  case True
  then have "b' = b" using r by (auto simp: apply_range_def Let_def split: if_splits prod.splits)
  then show ?thesis using ok by simp
next
  case False
  have al: "a mod gv_page b = 0" using False by simp
  have e: "page_end b a sz mod gv_page b = 0" using page_end_spec(1) ok by (simp add: budget_ok_def)
  obtain c1 k1 l1 b1 where "apply_loop (logged K) operation value a (page_end b a sz) (anchor_at b a) (None, (k, []), b) =
      (c1, (k1, l1), b1)" and b1: "budget_ok b1" "gv_page b1 = gv_page b"
    using apply_loop_ok [OF ok anchor_at_facts [OF ok al] al e, of K operation "value" None k "[]"]
    by (elim exE conjE) (rule that)
  then have "apply_loop K operation value a (page_end b a sz) (anchor_at b a) (None, k, b) = (c1, k1, b1)"
    by (blast intro: apply_loop_logged)
  then have "b' = (if operation = GV_UNMAP then sweep b1 else b1)"
    using r False by (auto simp: apply_range_def Let_def)
  moreover have "gv_page (sweep_loop i b1) = gv_page b1" for i
    by (induction i b1 rule: sweep_loop.induct) (subst sweep_loop.simps, simp add: Let_def)
  ultimately show ?thesis using b1 sweep_loop_ok [OF b1(1), of 0] by (simp add: sweep_def)
qed

lemma gv_step_ok:
  assumes "gv_step K (k, b) (k', b')" and ok: "budget_ok b" and K: "kernel_ok K" and page: "gv_page b = k_page K"
  shows "budget_ok b' \<and> gv_page b' = k_page K"
  using assms(1)
proof cases
  case (reserve sz prot flags fd result granted)
  show ?thesis
    using gv_reserve_spec [OF ok K page reserve] ok page claim_loop_ok [OF ok, of _ 0 sz]
    by (auto simp: claim_def split: sum.splits if_splits)
next
  case (map a sz prot flags fd offset result)
  then have "b' = b \<or> (\<exists>x k0 h. b' = claim b x sz \<and> k_mmap K k h sz prot flags fd offset = (Inr x, k0))"
    by (auto simp: gv_map_def Let_def split: if_splits prod.splits sum.splits)
  then show ?thesis
    using ok page claim_loop_ok [OF ok, of _ 0 sz] kernel_mmap(2) [OF K] by (auto simp: claim_def)
next
  case (operate operation a sz "value" failed)
  then have "b' = b \<or> (\<exists>code k0. apply_range K k b operation a sz value = (code, k0, b'))"
    by (auto simp: gv_operate_def split: if_splits prod.splits)
  then show ?thesis using ok page apply_range_ok [OF ok, of K k operation a sz "value" _ _ b'] by auto
next
  case other
  then show ?thesis using ok page by simp
qed

lemma gv_reachable_ok:
  assumes "gv_reachable K s" and "kernel_ok K"
  shows "budget_ok (snd s) \<and> gv_page (snd s) = k_page K"
  using assms(1)
proof induction
  case (start k bytes threshold lowest)
  then show ?case using gv_init_ok [OF assms(2)] by simp
next
  case (step s s')
  then show ?case using gv_step_ok [of K "fst s" "snd s" "fst s'" "snd s'"] assms(2) by simp
qed

text \<open>Bytes of disjoint regions are the addresses in them.\<close>

lemma card_own: "v_start r \<le> v_limit r \<Longrightarrow> card {x. in_own x r} = unat (v_limit r - v_start r)"
proof -
  assume le: "v_start r \<le> v_limit r"
  have "{x. in_own x r} = (of_nat :: nat \<Rightarrow> u64) ` {unat (v_start r)..<unat (v_limit r)}"
  proof (intro set_eqI iffI)
    fix x assume "x \<in> {x. in_own x r}"
    then show "x \<in> of_nat ` {unat (v_start r)..<unat (v_limit r)}"
      by (intro image_eqI [of _ _ "unat x"]) (simp_all add: in_own_def word_nat)
  next
    fix x assume "x \<in> (of_nat :: nat \<Rightarrow> u64) ` {unat (v_start r)..<unat (v_limit r)}"
    then obtain n where n: "x = of_nat n" "unat (v_start r) \<le> n" "n < unat (v_limit r)" by auto
    then have "unat x = n" using unat_u64_less [of "v_limit r"] by (simp add: unat_of_nat_u64)
    then show "x \<in> {x. in_own x r}" using n by (simp add: in_own_def word_nat)
  qed
  moreover have "inj_on (of_nat :: nat \<Rightarrow> u64) {unat (v_start r)..<unat (v_limit r)}"
    using unat_u64_less [of "v_limit r"] by (intro inj_onI) (metis atLeastLessThan_iff less_trans unat_of_nat_u64)
  ultimately show ?thesis using le by (simp add: card_image unat_sub)
qed

lemma own_bytes_card:
  assumes "spans_apart rs" and "\<forall>r \<in> set rs. region_ok g r"
  shows "unat (own_bytes rs) = card {x. \<exists>r \<in> set rs. in_own x r}"
  using assms
proof (induction rs)
  case Nil
  then show ?case by (simp add: own_bytes_def)
next
  case (Cons r rs)
  have ap: "spans_apart rs"
    unfolding spans_apart_def
  proof (intro allI impI)
    fix i j assume "i < length rs" "j < length rs" "i \<noteq> j"
    then show "apart (rs ! i) (rs ! j)"
      using Cons.prems(1)[unfolded spans_apart_def, rule_format, of "Suc i" "Suc j"] by simp
  qed
  have r: "region_ok g r" using Cons.prems(2) by simp
  have disj: "{x. in_own x r} \<inter> {x. \<exists>q \<in> set rs. in_own x q} = {}"
  proof -
    have "\<not> in_own x q" if "q \<in> set rs" "in_own x r" for x q
    proof -
      obtain j where j: "j < length rs" "q = rs ! j" using \<open>q \<in> set rs\<close> by (auto simp: in_set_conv_nth)
      have "apart r q" using Cons.prems(1)[unfolded spans_apart_def, rule_format, of 0 "Suc j"] j by simp
      moreover have "v_limit r \<le> v_span r" "v_limit q \<le> v_span q" using r Cons.prems(2) that(1) by (simp_all add: region_ok_def)
      ultimately show ?thesis using that(2) unfolding in_own_def apart_def by (meson leD le_less_trans less_le_trans order_trans)
    qed
    then show ?thesis by blast
  qed
  have le: "v_start r \<le> v_limit r" using r by (auto simp: region_ok_def)
  have split: "{x. \<exists>q \<in> set (r # rs). in_own x q} = {x. in_own x r} \<union> {x. \<exists>q \<in> set rs. in_own x q}" by auto
  have card: "card {x. \<exists>q \<in> set (r # rs). in_own x q} = unat (v_limit r - v_start r) + unat (own_bytes rs)"
    unfolding split card_Un_disjoint [OF finite finite disj] card_own [OF le] using Cons.IH ap Cons.prems(2) by simp
  have "UINT64_MAX \<notin> {x. \<exists>q \<in> set (r # rs). in_own x q}" by (auto simp: in_own_def)
  then have "card {x. \<exists>q \<in> set (r # rs). in_own x q} < card (UNIV :: u64 set)"
    by (intro psubset_card_mono) auto
  then have "unat (v_limit r - v_start r) + unat (own_bytes rs) < 2 ^ 64" using card by (simp add: card_word)
  then show ?case using card by (simp add: own_bytes_def unat_plus_nowrap)
qed

lemma apply_loop_only:
  "apply_loop (logged K) operation value cursor e anchor (code, (k, l), b) = (code', (k', l'), b') \<Longrightarrow>
   fst ` set l' \<subseteq> insert operation (fst ` set l)"
proof (induction "unat e - unat cursor" arbitrary: cursor code k l b rule: less_induct)
  case less
  show ?case
  proof (cases "cursor < e")
    case False
    then show ?thesis using less.prems by (auto simp: apply_loop.simps [of _ _ _ cursor])
  next
    case True
    obtain kind until j where p: "gv_part b cursor e anchor = (kind, until, j)" by (metis prod_cases3)
    obtain c1 k1 l1 b1 where
      st: "apply_piece (logged K) operation value cursor (kind, until, j) (code, (k, l), b) = (c1, (k1, l1), b1)"
      by (metis prod.collapse)
    then have "fst ` set l1 \<subseteq> insert operation (fst ` set l)"
      by (auto simp: apply_piece_def kernel_call_def logged_def log_call_def
          split: if_splits option.splits prod.splits GVOperation.splits)
    moreover have "apply_loop (logged K) operation value until e anchor (c1, (k1, l1), b1) = (code', (k', l'), b')"
      using less.prems True p st by (simp add: apply_loop.simps [of _ _ _ cursor] Let_def)
    ultimately show ?thesis using less.hyps [OF part_advances [OF True p], of c1 k1 l1 b1] by blast
  qed
qed

lemma gv_operate_reached:
  assumes ok: "budget_ok b" "gv_budget b \<noteq> 0" and a: "0 < sz" "page_end b a sz \<noteq> 0" "a mod gv_page b = 0"
    and given: "operation = GV_PROTECT \<longrightarrow> value = PROT_NONE \<or> \<not> withheld b a (page_end b a sz) (anchor_at b a)"
    and call: "gv_operate (logged K) (k, []) (Some b) operation a sz value = (failed, (k', l), b')"
  shows "reached operation l =
      {x. a \<le> x \<and> x < page_end b a sz \<and> reaches operation (kind_at (gv_regions b) (anchor_at b a) x)} \<and>
    (\<forall>c \<in> set l. fst c = operation)"
proof -
  have e: "page_end b a sz mod gv_page b = 0" using page_end_spec(1) ok(1) by (simp add: budget_ok_def)
  obtain c1 k1 l1 b1 where loop: "apply_loop (logged K) operation value a (page_end b a sz) (anchor_at b a) (None, (k, []), b) =
      (c1, (k1, l1), b1)" and r: "reached operation l1 = reached operation [] \<union>
      {x. a \<le> x \<and> x < page_end b a sz \<and> reaches operation (kind_at (gv_regions b) (anchor_at b a) x)}"
    using apply_loop_ok [OF ok(1) anchor_at_facts [OF ok(1) a(3)] a(3) e, of K operation "value" None k "[]"]
    by (elim exE conjE) (rule that)
  have "l = l1"
    using call loop a given ok(2) by (auto simp: gv_operate_def gv_enabled_def apply_range_def Let_def split: if_splits)
  then show ?thesis using r apply_loop_only [OF loop] by auto
qed

section \<open>Properties\<close>

text \<open>C13. On every kernel that places mappings as documented, and after any sequence of reservations, mappings
  and calls on ranges, the reserved bytes are exactly the addresses in the regions' own mappings,
  each counted once; the bounds of every region are in order and on page boundaries, and the
  spans the application asked for do not overlap.\<close>

theorem gv_invariant:
  assumes "kernel_ok K" and "gv_reachable K (k, b)"
  shows "unat (gv_reserved b) = card {x. \<exists>r \<in> set (gv_regions b). in_own x r} \<and>
    (\<forall>r \<in> set (gv_regions b). region_ok (k_page K) r) \<and> spans_apart (gv_regions b) \<and>
    length (gv_regions b) \<le> GV_MAX_REGIONS \<and> length (gv_claims b) \<le> GV_MAX_CLAIMS"
  using gv_reachable_ok [OF assms(2,1)] own_bytes_card [of "gv_regions b" "k_page K"] by (auto simp: budget_ok_def)

text \<open>A kernel that maps at the address asked for, or at \<open>0x100000000\<close>, and refuses long mappings.\<close>

definition sample_kernel :: "unit Kernel" where
  "sample_kernel =
     \<lparr>k_mmap = (\<lambda>k a n prot flags fd offset.
        (if n = 0 \<or> n > 0x10000000000 \<or> a mod 0x4000 \<noteq> 0 \<or> a > 0x10000000000 then Inl ENOMEM
         else Inr (if a = 0 then 0x100000000 else a), k)),
      k_munmap = (\<lambda>k a n. (None, k)), k_mprotect = (\<lambda>k a n prot. (None, k)), k_madvise = (\<lambda>k a n advice. (None, k)),
      k_region = (\<lambda>k a. None), k_page = 0x4000, k_header = 0x200000000\<rparr>"

lemma sample_kernel_ok: "kernel_ok sample_kernel"
  by (auto simp: kernel_ok_def sample_kernel_def word_less_nat_alt unat_gt_0 split: if_splits)

text \<open>A budget of four pages and a reservation of 32 pages.\<close>

definition budget_sample :: GVBudget where
  "budget_sample =
     \<lparr>gv_budget = 0x10000, gv_threshold = 0x4000, gv_floor = 0x4000, gv_page = 0x4000, gv_reserved = 0x14000,
      gv_regions = [\<lparr>v_start = 0x100000000, v_end = 0x100010000, v_limit = 0x100014000, v_span = 0x100080000\<rparr>],
      gv_claims = []\<rparr>"

lemma budget_sample_reserve:
  "gv_reserve sample_kernel () (gv_init sample_kernel 0x10000 0x4000 0x4000) 0x80000 3 0x1002 0 =
    (Inr 0x100000000, 0x10000, (), budget_sample)"
  by code_simp

theorem gv_invariant_witness:
  "gv_reachable sample_kernel ((), budget_sample) \<and>
   unat (gv_reserved budget_sample) = card {x. \<exists>r \<in> set (gv_regions budget_sample). in_own x r}"
proof -
  have "gv_reachable sample_kernel ((), budget_sample)"
    by (rule gv_reachable.step [OF gv_reachable.start gv_step.reserve [OF budget_sample_reserve]])
  then show ?thesis using gv_invariant [OF sample_kernel_ok] by blast
qed

text \<open>C14. A call on a range reaches the host for exactly the addresses of the range that are not missing and,
  but for \<open>munmap\<close>, not in a guard page; no other call is made. The missing parts, which other code
  may use by now, are never touched.\<close>

theorem gv_range_exact:
  assumes "budget_ok b" and "gv_budget b \<noteq> 0" and "0 < sz" and "page_end b a sz \<noteq> 0" and "a mod gv_page b = 0"
    and "operation \<noteq> GV_PROTECT \<or> value = PROT_NONE"
    and "gv_operate (logged K) (k, []) (Some b) operation a sz value = (failed, (k', l), b')"
  shows "reached operation l =
      {x. a \<le> x \<and> x < page_end b a sz \<and> reaches operation (kind_at (gv_regions b) (anchor_at b a) x)} \<and>
    (\<forall>c \<in> set l. fst c = operation)"
  by (rule gv_operate_reached [OF assms(1-5) _ assms(7)]) (use assms(6) in blast)

lemma budget_sample_ok: "budget_ok budget_sample"
proof -
  have "gv_reachable sample_kernel ((), budget_sample)"
    by (rule gv_reachable.step [OF gv_reachable.start gv_step.reserve [OF budget_sample_reserve]])
  then show ?thesis using gv_reachable_ok [OF _ sample_kernel_ok] by fastforce
qed

text \<open>The whole span of the sample is unmapped: the host is asked for the granted part and the guard page.\<close>

theorem gv_range_exact_witness:
  "\<exists>l b'. gv_operate (logged sample_kernel) ((), []) (Some budget_sample) GV_UNMAP 0x100000000 0x80000 0 = (None, ((), l), b') \<and>
    reached GV_UNMAP l = {x. 0x100000000 \<le> x \<and> x < 0x100014000}"
proof -
  define l where "l = [(GV_UNMAP, 0x100010000 :: u64, 0x4000 :: u64), (GV_UNMAP, 0x100000000, 0x10000)]"
  have call: "gv_operate (logged sample_kernel) ((), []) (Some budget_sample) GV_UNMAP 0x100000000 0x80000 0 =
      (None, ((), l), Some (budget_sample\<lparr>gv_reserved := 0, gv_regions := []\<rparr>))"
    unfolding l_def by code_simp
  have f: "page_end budget_sample 0x100000000 0x80000 = 0x100080000" "gv_budget budget_sample \<noteq> 0"
      "anchor_at budget_sample 0x100000000 = (0x100000000, 0x100014000)"
      "0x100000000 mod gv_page budget_sample = 0" by code_simp+
  have k: "reaches GV_UNMAP (kind_at (gv_regions budget_sample) (0x100000000, 0x100014000) x) \<longleftrightarrow> x < 0x100014000"
    if "0x100000000 \<le> x" "x < 0x100080000" for x
    using that
    by (auto simp: reaches_def kind_at_def is_missing_def region_kind_def in_own_def budget_sample_def not_less split: if_splits)
  have "reached GV_UNMAP l = {x. 0x100000000 \<le> x \<and> x < page_end budget_sample 0x100000000 0x80000 \<and>
      reaches GV_UNMAP (kind_at (gv_regions budget_sample) (anchor_at budget_sample 0x100000000) x)}"
    using gv_range_exact [OF budget_sample_ok f(2) _ _ f(4) _ call] by (simp add: f)
  also have "\<dots> = {x. 0x100000000 \<le> x \<and> x < 0x100014000}"
  proof -
    have "x < 0x100080000" if "x < 0x100014000" for x :: u64 using that by (simp add: word_less_nat_alt)
    then show ?thesis using k by (auto simp: f)
  qed
  finally show ?thesis using call by blast
qed

text \<open>Memory the application was not given never becomes usable: protecting a range that holds a guard page
  or a missing part to anything but \<open>PROT_NONE\<close> fails with \<open>ENOMEM\<close> before the host is asked, and
  any other range is protected whole.\<close>

theorem gv_protect_all_or_nothing:
  assumes ok: "budget_ok b" "gv_budget b \<noteq> 0" and a: "0 < sz" "page_end b a sz \<noteq> 0" "a mod gv_page b = 0"
    and "prot \<noteq> PROT_NONE"
    and call: "gv_protect (logged K) (k, []) (Some b) a sz prot = (failed, (k', l), b')"
  shows "if \<exists>x. a \<le> x \<and> x < page_end b a sz \<and> kind_at (gv_regions b) (anchor_at b a) x \<in> {GUARD, MISSING}
    then failed = Some ENOMEM \<and> k' = k \<and> l = [] \<and> b' = Some b
    else reached GV_PROTECT l = {x. a \<le> x \<and> x < page_end b a sz}"
proof -
  have w: "withheld b a (page_end b a sz) (anchor_at b a) \<longleftrightarrow>
      (\<exists>x. a \<le> x \<and> x < page_end b a sz \<and> kind_at (gv_regions b) (anchor_at b a) x \<in> {GUARD, MISSING})"
    using withheld_iff [OF budget_ok_ends [OF ok(1)] anchor_at_facts(1) [OF ok(1) a(3)]] by simp
  have op: "gv_operate (logged K) (k, []) (Some b) GV_PROTECT a sz prot = (failed, (k', l), b')"
    using call by (simp add: gv_protect_def)
  show ?thesis
  proof (cases "withheld b a (page_end b a sz) (anchor_at b a)")
    case True
    have "sz \<noteq> 0" using a(1) by auto
    then have "apply_range (logged K) (k, []) b GV_PROTECT a sz prot = (Some ENOMEM, (k, []), b)"
      using a assms(6) True unfolding apply_range_def Let_def by simp
    then have "failed = Some ENOMEM \<and> k' = k \<and> l = [] \<and> b' = Some b"
      using op ok(2) by (auto simp: gv_operate_def gv_enabled_def)
    then show ?thesis using True w by simp
  next
    case False
    have "reached GV_PROTECT l =
        {x. a \<le> x \<and> x < page_end b a sz \<and> reaches GV_PROTECT (kind_at (gv_regions b) (anchor_at b a) x)}"
      using gv_operate_reached [OF ok a _ op] False by blast
    also have "\<dots> = {x. a \<le> x \<and> x < page_end b a sz}" using False w by (auto simp: reaches_def)
    finally show ?thesis unfolding w [symmetric] using False by simp
  qed
qed

theorem gv_protect_all_or_nothing_witness:
  "gv_protect (logged sample_kernel) ((), []) (Some budget_sample) 0x100000000 0x14000 3 =
    (Some ENOMEM, ((), []), Some budget_sample)"
proof -
  obtain failed k' l b' where call: "gv_protect (logged sample_kernel) ((), []) (Some budget_sample) 0x100000000 0x14000 3 =
    (failed, (k', l), b')" by (metis prod.collapse)
  have f: "page_end budget_sample 0x100000000 0x14000 = 0x100014000" "gv_budget budget_sample \<noteq> 0"
      "0x100000000 mod gv_page budget_sample = 0"
      "kind_at (gv_regions budget_sample) (anchor_at budget_sample 0x100000000) 0x100010000 = GUARD" by code_simp+
  have "\<exists>x. 0x100000000 \<le> x \<and> x < page_end budget_sample 0x100000000 0x14000 \<and>
      kind_at (gv_regions budget_sample) (anchor_at budget_sample 0x100000000) x \<in> {GUARD, MISSING}"
    by (rule exI [of _ "0x100010000"]) (simp add: f)
  then have "failed = Some ENOMEM \<and> k' = () \<and> l = [] \<and> b' = Some budget_sample"
    using gv_protect_all_or_nothing [OF budget_sample_ok f(2) _ _ f(3) _ call] by (simp add: f)
  then show ?thesis using call by simp
qed



end
