(* ===== verification/GuestImage.thy ===== *)
theory GuestImage
  imports GuestMemoryAccess Scalars
begin

text \<open>
  The loader of \<open>runtime/GuestImage.c\<close>: it finds the arm64 slice of a thin or universal file, checks the
  load commands, maps the segments at their preferred addresses and copies their file contents,
  and looks up symbols in the export trie.

  A file is the list of its bytes, so reading fails only outside it. The Mach-O structures are
  read field by field at their offsets in the file format. A name is the string before its
  terminating zero. A failure is the message (without the values printed into it). The outcomes
  of the allocations are a record, an argument of the loader.
\<close>

section \<open>Files and fields\<close>

type_synonym bytes = "u8 list"

definition within :: "u64 \<Rightarrow> u64 \<Rightarrow> u64 \<Rightarrow> bool" where
  "within offset sz whole \<longleftrightarrow> offset \<le> whole \<and> sz \<le> whole - offset"

definition be32 :: "u8 list \<Rightarrow> nat \<Rightarrow> u32" where
  "be32 p i = push_bit 24 (ucast (p ! i)) OR push_bit 16 (ucast (p ! (i + 1))) OR
     push_bit 8 (ucast (p ! (i + 2))) OR ucast (p ! (i + 3))"

definition be64 :: "u8 list \<Rightarrow> nat \<Rightarrow> u64" where
  "be64 p i = push_bit 32 (ucast (be32 p i)) OR ucast (be32 p (i + 4))"

definition read_at :: "bytes \<Rightarrow> u64 \<Rightarrow> nat \<Rightarrow> u8 list option" where
  "read_at f offset n =
     (if offset < 2 ^ 63 \<and> (n = 0 \<or> unat offset + n \<le> length f) then Some (take n (drop (unat offset) f)) else None)"

text \<open>The fields of the structures: little-endian integers and names of 16 bytes.\<close>

definition le16 :: "u8 list \<Rightarrow> nat \<Rightarrow> u16" where "le16 p i = ucast (scalar_value (drop i p) 2)"

definition le32 :: "u8 list \<Rightarrow> nat \<Rightarrow> u32" where "le32 p i = ucast (scalar_value (drop i p) 4)"

definition le64 :: "u8 list \<Rightarrow> nat \<Rightarrow> u64" where "le64 p i = scalar_value (drop i p) 8"

definition c_string :: "u8 list \<Rightarrow> string" where
  "c_string bs = map (char_of \<circ> unat) (takeWhile (\<lambda>b. b \<noteq> 0) bs)"

definition name16 :: "u8 list \<Rightarrow> nat \<Rightarrow> string" where
  "name16 p i = c_string (take 16 (drop i p))"

section \<open>The image\<close>

abbreviation GI_MAX_SEGMENTS :: nat where "GI_MAX_SEGMENTS \<equiv> 64"
abbreviation GI_MAX_DYLIBS :: nat where "GI_MAX_DYLIBS \<equiv> 128"
abbreviation GI_MAX_RPATHS :: nat where "GI_MAX_RPATHS \<equiv> 32"

record GISegment =
  gs_name :: string
  gs_address :: u64
  gs_size :: u64
  gs_file_offset :: u64
  gs_file_size :: u64
  gs_prot :: u32
  gs_maxprot :: u32

record GuestImage =
  gi_memory :: GuestMemory
  gi_segments :: "GISegment list"
  gi_slice_offset :: u64
  gi_slice_size :: u64
  gi_entry :: u64
  gi_first_initializer :: u64
  gi_initializer_count :: u64
  gi_mapped_size :: u64
  gi_file_backed_size :: u64
  gi_bind_size :: u32
  gi_lazy_bind_size :: u32
  gi_weak_bind_size :: u32
  gi_rebase_size :: u32
  gi_bind_offset :: u32
  gi_lazy_bind_offset :: u32
  gi_weak_bind_offset :: u32
  gi_rebase_offset :: u32
  gi_file_type :: u32
  gi_export_size :: u32
  gi_chained_offset :: u32
  gi_chained_size :: u32
  gi_exports :: "u8 list option"
  gi_header_address :: u64
  gi_initializer_address :: u64
  gi_unwind_address :: u64
  gi_unwind_size :: u64
  gi_eh_frame_address :: u64
  gi_eh_frame_size :: u64
  gi_tls_address :: u64
  gi_tls_size :: u64
  gi_tls_descriptors :: u64
  gi_tls_descriptors_size :: u64
  gi_tls_initializer_count :: u64
  gi_tls_alignment :: u64
  gi_dylibs :: "string list"
  gi_dylib_reexports :: "bool list"
  gi_rpaths :: "string list"
  gi_chained_fixups :: bool
  gi_has_tls :: bool
  gi_initializer_offsets :: bool
  gi_weak_defines :: bool
  gi_initializers :: "u64 list"

definition gi_zero :: GuestImage where
  "gi_zero =
     \<lparr>gi_memory = \<lparr>gm_pages = [], gm_generation = 0, gm_code_generation = 0, gm_fault_address = 0\<rparr>, gi_segments = [],
      gi_slice_offset = 0, gi_slice_size = 0, gi_entry = 0, gi_first_initializer = 0, gi_initializer_count = 0,
      gi_mapped_size = 0, gi_file_backed_size = 0, gi_bind_size = 0, gi_lazy_bind_size = 0, gi_weak_bind_size = 0,
      gi_rebase_size = 0, gi_bind_offset = 0, gi_lazy_bind_offset = 0, gi_weak_bind_offset = 0, gi_rebase_offset = 0,
      gi_file_type = 0, gi_export_size = 0, gi_chained_offset = 0, gi_chained_size = 0, gi_exports = None,
      gi_header_address = 0, gi_initializer_address = 0, gi_unwind_address = 0, gi_unwind_size = 0,
      gi_eh_frame_address = 0, gi_eh_frame_size = 0, gi_tls_address = 0, gi_tls_size = 0, gi_tls_descriptors = 0,
      gi_tls_descriptors_size = 0, gi_tls_initializer_count = 0, gi_tls_alignment = 0, gi_dylibs = [],
      gi_dylib_reexports = [], gi_rpaths = [], gi_chained_fixups = False, gi_has_tls = False,
      gi_initializer_offsets = False, gi_weak_defines = False, gi_initializers = []\<rparr>"

definition gi_destroy :: "GuestImage \<Rightarrow> GuestImage" where
  "gi_destroy img = gi_zero"

section \<open>The slice\<close>

abbreviation CPU_TYPE_ARM64 :: u32 where "CPU_TYPE_ARM64 \<equiv> 0x0100000c"
abbreviation MH_MAGIC_64 :: u32 where "MH_MAGIC_64 \<equiv> 0xfeedfacf"
abbreviation MH_EXECUTE :: u32 where "MH_EXECUTE \<equiv> 2"
abbreviation MH_DYLIB :: u32 where "MH_DYLIB \<equiv> 6"

text \<open>The loop over the fat architecture records from index \<open>i\<close> on: the slice found so far.\<close>

definition fat_record ::
  "bytes \<Rightarrow> u32 \<Rightarrow> nat \<Rightarrow> nat \<Rightarrow> (u64 \<times> u64) option \<Rightarrow> string + (u64 \<times> u64) option" where
  "fat_record f count record_size i found =
     (case read_at f (8 + of_nat (i * record_size)) record_size of
        None \<Rightarrow> Inl ''truncated fat architecture''
      | Some arch \<Rightarrow>
          if be32 arch 0 \<noteq> CPU_TYPE_ARM64 \<or> be32 arch 4 AND 0xffffff \<noteq> 0 then Inr found
          else if found \<noteq> None then Inl ''ambiguous arm64 slices''
          else let sl = (if record_size = 32 then be64 arch 8 else ucast (be32 arch 8));
                   slice_size = (if record_size = 32 then be64 arch 16 else ucast (be32 arch 12));
                   alignment = be32 arch (if record_size = 32 then 24 else 16)
          in if alignment \<ge> 63 \<or> sl AND (push_bit (unat alignment) 1 - 1) \<noteq> 0 \<or>
                sl < 8 + ucast count * of_nat record_size \<or> \<not> within sl slice_size (of_nat (length f))
             then Inl ''invalid arm64 slice range'' else Inr (Some (sl, slice_size)))"

primrec fat_loop ::
  "nat \<Rightarrow> bytes \<Rightarrow> u32 \<Rightarrow> nat \<Rightarrow> nat \<Rightarrow> (u64 \<times> u64) option \<Rightarrow> string + (u64 \<times> u64) option" where
  "fat_loop 0 f count record_size i found = Inr found"
| "fat_loop (Suc left) f count record_size i found =
     (case fat_record f count record_size i found of
        Inl e \<Rightarrow> Inl e
      | Inr found \<Rightarrow> fat_loop left f count record_size (Suc i) found)"

definition find_slice :: "bytes \<Rightarrow> string + (u64 \<times> u64)" where
  "find_slice f =
     (if length f < 32 then Inl ''truncated executable''
      else case read_at f 0 8 of
        None \<Rightarrow> Inl ''cannot read executable header''
      | Some head \<Rightarrow>
          let magic = be32 head 0
          in if magic = 0xcafebabe \<or> magic = 0xcafebabf
             then let count = be32 head 4; record_size = (if magic = 0xcafebabf then 32 else 20)
                  in if count = 0 \<or> count > 128 \<or> \<not> within 8 (ucast count * of_nat record_size) (of_nat (length f))
                     then Inl ''invalid fat architecture table''
                     else (case fat_loop (unat count) f count record_size 0 None of
                             Inl e \<Rightarrow> Inl e
                           | Inr None \<Rightarrow> Inl ''no plain arm64 slice (arm64e is unsupported)''
                           | Inr (Some s) \<Rightarrow> Inr s)
             else Inr (0, of_nat (length f)))"

section \<open>Load commands\<close>

text \<open>Which allocations succeed: the name of the command with a given index, the export trie, the page
  array of the segment with a given index, the pages of a write at an address and the list of
  initializers.\<close>

record Allocations =
  al_name :: "nat \<Rightarrow> bool"
  al_exports :: bool
  al_map :: "nat \<Rightarrow> bool"
  al_pages :: "u64 \<Rightarrow> nat \<Rightarrow> bool"
  al_initializers :: bool

text \<open>The local variables of \<open>load\<close> across the load commands.\<close>

record Loading =
  ld_image :: GuestImage
  ld_have_entry :: bool
  ld_entry_offset :: u64
  ld_have_init :: bool
  ld_init_offsets :: bool
  ld_init_address :: u64
  ld_init_size :: u64
  ld_have_text :: bool
  ld_header_address :: u64
  ld_have_exports :: bool
  ld_export_offset :: u32

abbreviation (input) S_REGULAR :: u32 where "S_REGULAR \<equiv> 0"
abbreviation (input) S_ZEROFILL :: u32 where "S_ZEROFILL \<equiv> 1"
abbreviation (input) S_MOD_INIT_FUNC_POINTERS :: u32 where "S_MOD_INIT_FUNC_POINTERS \<equiv> 9"
abbreviation (input) S_COALESCED :: u32 where "S_COALESCED \<equiv> 11"
abbreviation (input) S_GB_ZEROFILL :: u32 where "S_GB_ZEROFILL \<equiv> 12"
abbreviation (input) S_THREAD_LOCAL_REGULAR :: u32 where "S_THREAD_LOCAL_REGULAR \<equiv> 17"
abbreviation (input) S_THREAD_LOCAL_ZEROFILL :: u32 where "S_THREAD_LOCAL_ZEROFILL \<equiv> 18"
abbreviation (input) S_THREAD_LOCAL_VARIABLES :: u32 where "S_THREAD_LOCAL_VARIABLES \<equiv> 19"
abbreviation (input) S_THREAD_LOCAL_INIT_FUNCTION_POINTERS :: u32 where "S_THREAD_LOCAL_INIT_FUNCTION_POINTERS \<equiv> 21"
abbreviation (input) S_INIT_FUNC_OFFSETS :: u32 where "S_INIT_FUNC_OFFSETS \<equiv> 22"

text \<open>The fields of \<open>segment_command_64\<close> and \<open>section_64\<close>.\<close>

record SegmentCommand =
  sc_name :: string
  sc_vmaddr :: u64
  sc_vmsize :: u64
  sc_fileoff :: u64
  sc_filesize :: u64
  sc_maxprot :: u32
  sc_initprot :: u32
  sc_nsects :: u32

definition segment_command :: "u8 list \<Rightarrow> SegmentCommand" where
  "segment_command p =
     \<lparr>sc_name = name16 p 8, sc_vmaddr = le64 p 24, sc_vmsize = le64 p 32, sc_fileoff = le64 p 40,
      sc_filesize = le64 p 48, sc_maxprot = le32 p 56, sc_initprot = le32 p 60, sc_nsects = le32 p 64\<rparr>"

record SectionHeader =
  sh_name :: string
  sh_addr :: u64
  sh_size :: u64
  sh_offset :: u64
  sh_align :: u32
  sh_type :: u32

definition section_header :: "u8 list \<Rightarrow> SectionHeader" where
  "section_header p =
     \<lparr>sh_name = name16 p 0, sh_addr = le64 p 32, sh_size = le64 p 40, sh_offset = ucast (le32 p 48),
      sh_align = le32 p 52, sh_type = le32 p 64 AND 0xff\<rparr>"

text \<open>The checks and effects of one section, in the order of the loop body.\<close>

definition section_outside :: "u64 \<Rightarrow> SegmentCommand \<Rightarrow> SectionHeader \<Rightarrow> string option" where
  "section_outside slice_size s h =
     (if sh_addr h < sc_vmaddr s \<or> \<not> within (sh_addr h - sc_vmaddr s) (sh_size h) (sc_vmsize s)
      then Some ''section outside segment''
      else if sh_type h \<noteq> S_ZEROFILL \<and> sh_type h \<noteq> S_GB_ZEROFILL \<and> sh_type h \<noteq> S_THREAD_LOCAL_ZEROFILL \<and>
         (\<not> within (sh_offset h) (sh_size h) slice_size \<or> sh_offset h < sc_fileoff s \<or>
          \<not> within (sh_offset h - sc_fileoff s) (sh_size h) (sc_filesize s) \<or>
          sh_addr h - sc_vmaddr s \<noteq> sh_offset h - sc_fileoff s)
      then Some ''invalid file-backed section'' else None)"

definition section_initializers :: "SectionHeader \<Rightarrow> Loading \<Rightarrow> string + Loading" where
  "section_initializers h l =
     (if sh_type h = S_MOD_INIT_FUNC_POINTERS \<or> sh_type h = S_INIT_FUNC_OFFSETS
      then let offsets = (sh_type h = S_INIT_FUNC_OFFSETS)
           in if ld_have_init l \<or> sh_size h mod (if offsets then 4 else 8) \<noteq> 0
              then Inl ''unsupported initializer section layout''
              else Inr (l\<lparr>ld_have_init := True, ld_init_offsets := offsets, ld_init_address := sh_addr h,
                         ld_init_size := sh_size h\<rparr>)
      else Inr l)"

definition section_unwind :: "SegmentCommand \<Rightarrow> SectionHeader \<Rightarrow> Loading \<Rightarrow> string + Loading" where
  "section_unwind s h l =
     (let compact = (sh_name h = ''__unwind_info''); dwarf = (sh_name h = ''__eh_frame''); img = ld_image l
      in if compact \<or> dwarf
         then if sc_name s \<noteq> ''__TEXT'' \<or> sc_initprot s AND GM_READ = 0 \<or>
                 sh_type h \<noteq> S_REGULAR \<and> \<not> (dwarf \<and> sh_type h = S_COALESCED) \<or> sh_size h = 0
              then Inl ''invalid unwind section''
              else if (if compact then gi_unwind_size img else gi_eh_frame_size img) \<noteq> 0
              then Inl ''duplicate unwind section''
              else Inr (l\<lparr>ld_image := if compact
                       then img\<lparr>gi_unwind_address := sh_addr h, gi_unwind_size := sh_size h\<rparr>
                       else img\<lparr>gi_eh_frame_address := sh_addr h, gi_eh_frame_size := sh_size h\<rparr>\<rparr>)
         else Inr l)"

definition section_tls :: "SectionHeader \<Rightarrow> GuestImage \<Rightarrow> string + GuestImage" where
  "section_tls h img =
     (if sh_type h = S_THREAD_LOCAL_REGULAR \<or> sh_type h = S_THREAD_LOCAL_ZEROFILL
      then if sh_align h > 20 then Inl ''unsupported TLS alignment''
           else let alignment = push_bit (unat (sh_align h)) 1;
                    start = gi_tls_address img; e = start + gi_tls_size img;
                    start = (if gi_tls_size img = 0 \<or> sh_addr h < start then sh_addr h else start);
                    e = (if sh_addr h + sh_size h > e then sh_addr h + sh_size h else e)
                in if e - start > 16 * 1024 * 1024 then Inl ''TLS template too large''
                   else Inr (img\<lparr>gi_tls_alignment := (if alignment > gi_tls_alignment img then alignment
                                                      else gi_tls_alignment img),
                                  gi_tls_address := start, gi_tls_size := e - start\<rparr>)
      else Inr img)"

definition section_tls_variables :: "SectionHeader \<Rightarrow> GuestImage \<Rightarrow> string + GuestImage" where
  "section_tls_variables h img =
     (if sh_type h = S_THREAD_LOCAL_VARIABLES \<and> (gi_tls_descriptors_size img \<noteq> 0 \<or> sh_size h mod 24 \<noteq> 0)
      then Inl ''unsupported TLS descriptor section''
      else let img = (if sh_type h = S_THREAD_LOCAL_VARIABLES
                        then img\<lparr>gi_tls_descriptors := sh_addr h, gi_tls_descriptors_size := sh_size h\<rparr> else img);
               img = (if sh_type h = S_THREAD_LOCAL_INIT_FUNCTION_POINTERS
                        then img\<lparr>gi_tls_initializer_count := gi_tls_initializer_count img + sh_size h div 8\<rparr>
                        else img)
           in Inr (if S_THREAD_LOCAL_REGULAR \<le> sh_type h \<and> sh_type h \<le> S_THREAD_LOCAL_INIT_FUNCTION_POINTERS
                   then img\<lparr>gi_has_tls := True\<rparr> else img))"

definition section_step :: "u64 \<Rightarrow> SegmentCommand \<Rightarrow> SectionHeader \<Rightarrow> Loading \<Rightarrow> string + Loading" where
  "section_step slice_size s h l =
     (case section_outside slice_size s h of
        Some e \<Rightarrow> Inl e
      | None \<Rightarrow>
          (case section_initializers h l of
             Inl e \<Rightarrow> Inl e
           | Inr l \<Rightarrow>
               (case section_unwind s h l of
                  Inl e \<Rightarrow> Inl e
                | Inr l \<Rightarrow>
                    (case section_tls h (ld_image l) of
                       Inl e \<Rightarrow> Inl e
                     | Inr img \<Rightarrow>
                         (case section_tls_variables h img of
                            Inl e \<Rightarrow> Inl e
                          | Inr img \<Rightarrow> Inr (l\<lparr>ld_image := img\<rparr>))))))"

text \<open>The sections of a segment, from index \<open>j\<close> on; \<open>at\<close> is the file offset of the first one.\<close>

primrec section_loop ::
  "nat \<Rightarrow> bytes \<Rightarrow> u64 \<Rightarrow> u64 \<Rightarrow> SegmentCommand \<Rightarrow> nat \<Rightarrow> Loading \<Rightarrow> string + Loading" where
  "section_loop 0 f at slice_size s j l = Inr l"
| "section_loop (Suc left) f at slice_size s j l =
     (case read_at f (at + of_nat j * 80) 80 of
        None \<Rightarrow> Inl ''cannot read section''
      | Some p \<Rightarrow>
          (case section_step slice_size s (section_header p) l of
             Inl e \<Rightarrow> Inl e
           | Inr l \<Rightarrow> section_loop left f at slice_size s (Suc j) l))"

definition segment_invalid :: "u64 \<Rightarrow> SegmentCommand \<Rightarrow> bool" where
  "segment_invalid slice_size s \<longleftrightarrow>
     \<not> within (sc_fileoff s) (sc_filesize s) slice_size \<or> sc_filesize s > sc_vmsize s \<or>
     sc_vmsize s > UINT64_MAX - sc_vmaddr s \<or> sc_vmaddr s mod GM_PAGE_SIZE \<noteq> 0 \<or>
     sc_vmsize s mod GM_PAGE_SIZE \<noteq> 0 \<or> sc_maxprot s AND NOT 7 \<noteq> 0 \<or> sc_initprot s AND NOT (sc_maxprot s) \<noteq> 0"

definition segment_of :: "SegmentCommand \<Rightarrow> GISegment" where
  "segment_of s =
     \<lparr>gs_name = sc_name s, gs_address = sc_vmaddr s, gs_size = sc_vmsize s, gs_file_offset = sc_fileoff s,
      gs_file_size = sc_filesize s, gs_prot = sc_initprot s, gs_maxprot = sc_maxprot s\<rparr>"

definition load_segment ::
  "bytes \<Rightarrow> u64 \<Rightarrow> u64 \<Rightarrow> u64 \<Rightarrow> u64 \<Rightarrow> u32 \<Rightarrow> Loading \<Rightarrow> string + Loading" where
  "load_segment f sl slice_size commands_end cursor cmdsize l =
     (let p = read_at f (sl + cursor) 72; s = segment_command (the p); img = ld_image l
      in if cmdsize < 72 \<or> p = None \<or> sc_nsects s > (cmdsize - 72) div 80 then Inl ''invalid segment command''
         else if length (gi_segments img) = GI_MAX_SEGMENTS then Inl ''too many segments''
         else if segment_invalid slice_size s then Inl ''invalid segment''
         else let l = l\<lparr>ld_image := img\<lparr>gi_segments := gi_segments img @ [segment_of s]\<rparr>\<rparr>
         in if sc_name s = ''__TEXT'' \<and>
               (ld_have_text l \<or> sc_fileoff s \<noteq> 0 \<or> sc_filesize s < commands_end \<or> sc_initprot s AND GM_EXEC = 0)
            then Inl ''invalid __TEXT header mapping''
            else let l = (if sc_name s = ''__TEXT''
                          then l\<lparr>ld_have_text := True, ld_header_address := sc_vmaddr s\<rparr> else l)
            in section_loop (unat (sc_nsects s)) f (sl + cursor + 72) slice_size s 0 l)"

text \<open>The name of a command that ends in a string at the offset it stores.\<close>

definition command_name :: "bytes \<Rightarrow> u64 \<Rightarrow> u32 \<Rightarrow> u32 \<Rightarrow> string option" where
  "command_name f at offset cmdsize =
     (case read_at f (at + ucast offset) (unat (cmdsize - offset)) of
        None \<Rightarrow> None
      | Some bs \<Rightarrow> if 0 \<in> set bs then Some (c_string bs) else None)"

definition load_dylib :: "bytes \<Rightarrow> Allocations \<Rightarrow> nat \<Rightarrow> u64 \<Rightarrow> u32 \<Rightarrow> u32 \<Rightarrow> Loading \<Rightarrow> string + Loading" where
  "load_dylib f al c at cmd cmdsize l =
     (let p = read_at f at 24; offset = le32 (the p) 8; img = ld_image l
      in if length (gi_dylibs img) = GI_MAX_DYLIBS \<or> cmdsize < 24 \<or> p = None \<or> offset < 24 \<or> offset \<ge> cmdsize
         then Inl ''invalid dylib command''
         else if \<not> al_name al c then Inl ''cannot allocate dylib name''
         else case command_name f at offset cmdsize of
           None \<Rightarrow> Inl ''unterminated dylib name''
         | Some name \<Rightarrow>
             Inr (l\<lparr>ld_image := img\<lparr>gi_dylibs := gi_dylibs img @ [name],
                       gi_dylib_reexports := gi_dylib_reexports img @ [cmd = 0x8000001f]\<rparr>\<rparr>))"

definition load_rpath :: "bytes \<Rightarrow> Allocations \<Rightarrow> nat \<Rightarrow> u64 \<Rightarrow> u32 \<Rightarrow> Loading \<Rightarrow> string + Loading" where
  "load_rpath f al c at cmdsize l =
     (let p = read_at f at 12; offset = le32 (the p) 8; img = ld_image l
      in if cmdsize < 12 \<or> p = None \<or> offset < 12 \<or> offset \<ge> cmdsize then Inl ''invalid rpath command''
         else if length (gi_rpaths img) = GI_MAX_RPATHS then Inl ''too many rpaths''
         else if \<not> al_name al c then Inl ''cannot allocate rpath''
         else case command_name f at offset cmdsize of
           None \<Rightarrow> Inl ''unterminated rpath''
         | Some path \<Rightarrow> Inr (l\<lparr>ld_image := img\<lparr>gi_rpaths := gi_rpaths img @ [path]\<rparr>\<rparr>))"

definition load_main :: "bytes \<Rightarrow> u64 \<Rightarrow> u32 \<Rightarrow> Loading \<Rightarrow> string + Loading" where
  "load_main f at cmdsize l =
     (let p = read_at f at 24
      in if ld_have_entry l \<or> cmdsize < 24 \<or> p = None then Inl ''invalid LC_MAIN''
         else Inr (l\<lparr>ld_have_entry := True, ld_entry_offset := le64 (the p) 8\<rparr>))"

definition load_dyld_info :: "bytes \<Rightarrow> u64 \<Rightarrow> u64 \<Rightarrow> u32 \<Rightarrow> Loading \<Rightarrow> string + Loading" where
  "load_dyld_info f at slice_size cmdsize l =
     (let r = read_at f at 48; p = the r
      in if cmdsize < 48 \<or> r = None then Inl ''invalid dyld info''
         else if \<exists>i \<in> {8, 16, 24, 32, 40}. \<not> within (ucast (le32 p i)) (ucast (le32 p (i + 4))) slice_size
         then Inl ''dyld info outside slice''
         else let l = l\<lparr>ld_image := (ld_image l)
             \<lparr>gi_rebase_offset := le32 p 8, gi_rebase_size := le32 p 12, gi_bind_offset := le32 p 16,
              gi_bind_size := le32 p 20, gi_weak_bind_offset := le32 p 24, gi_weak_bind_size := le32 p 28,
              gi_lazy_bind_offset := le32 p 32, gi_lazy_bind_size := le32 p 36\<rparr>\<rparr>
         in if le32 p 44 = 0 then Inr l
            else if ld_have_exports l then Inl ''duplicate export trie''
            else Inr (l\<lparr>ld_have_exports := True, ld_export_offset := le32 p 40,
                        ld_image := (ld_image l)\<lparr>gi_export_size := le32 p 44\<rparr>\<rparr>))"

definition load_exports_trie :: "bytes \<Rightarrow> u64 \<Rightarrow> u64 \<Rightarrow> u32 \<Rightarrow> Loading \<Rightarrow> string + Loading" where
  "load_exports_trie f at slice_size cmdsize l =
     (let r = read_at f at 16; p = the r
      in if ld_have_exports l \<or> cmdsize < 16 \<or> r = None \<or> \<not> within (ucast (le32 p 8)) (ucast (le32 p 12)) slice_size
         then Inl ''invalid export trie command''
         else Inr (l\<lparr>ld_have_exports := True, ld_export_offset := le32 p 8,
                     ld_image := (ld_image l)\<lparr>gi_export_size := le32 p 12\<rparr>\<rparr>))"

definition load_chained :: "bytes \<Rightarrow> u64 \<Rightarrow> u64 \<Rightarrow> u32 \<Rightarrow> Loading \<Rightarrow> string + Loading" where
  "load_chained f at slice_size cmdsize l =
     (let r = read_at f at 16; p = the r
      in if gi_chained_fixups (ld_image l) \<or> cmdsize < 16 \<or> r = None \<or>
            \<not> within (ucast (le32 p 8)) (ucast (le32 p 12)) slice_size
         then Inl ''invalid chained fixups command''
         else Inr (l\<lparr>ld_image := (ld_image l)\<lparr>gi_chained_fixups := True, gi_chained_offset := le32 p 8,
                                             gi_chained_size := le32 p 12\<rparr>\<rparr>))"

definition load_encryption :: "bytes \<Rightarrow> u64 \<Rightarrow> u32 \<Rightarrow> Loading \<Rightarrow> string + Loading" where
  "load_encryption f at cmdsize l =
     (let r = read_at f at 24
      in if cmdsize < 24 \<or> r = None then Inl ''invalid encryption info''
         else if le32 (the r) 16 \<noteq> 0 then Inl ''encrypted Mach-O is unsupported'' else Inr l)"

text \<open>One load command: its size, and the variables after it.\<close>

definition load_command ::
  "bytes \<Rightarrow> Allocations \<Rightarrow> u64 \<Rightarrow> u64 \<Rightarrow> u64 \<Rightarrow> nat \<Rightarrow> u64 \<Rightarrow> Loading \<Rightarrow> string + (u32 \<times> Loading)" where
  "load_command f al sl slice_size commands_end c cursor l =
     (let r = read_at f (sl + cursor) 8; cmd = le32 (the r) 0; cmdsize = le32 (the r) 4; at = sl + cursor
      in if \<not> within cursor 8 commands_end \<or> r = None \<or> cmdsize < 8 \<or> cmdsize AND 7 \<noteq> 0 \<or>
            \<not> within cursor (ucast cmdsize) commands_end
         then Inl ''invalid load command''
         else case (if cmd = 0x19 then load_segment f sl slice_size commands_end cursor cmdsize l
                    else if cmd \<in> {0xc, 0x80000018, 0x8000001f, 0x80000023} then load_dylib f al c at cmd cmdsize l
                    else if cmd = 0x8000001c then load_rpath f al c at cmdsize l
                    else if cmd = 0x80000028 then load_main f at cmdsize l
                    else if cmd = 0x22 \<or> cmd = 0x80000022 then load_dyld_info f at slice_size cmdsize l
                    else if cmd = 0x80000033 then load_exports_trie f at slice_size cmdsize l
                    else if cmd = 0x80000034 then load_chained f at slice_size cmdsize l
                    else if cmd = 0x2c then load_encryption f at cmdsize l
                    else Inr l) of
           Inl e \<Rightarrow> Inl e
         | Inr l \<Rightarrow> Inr (cmdsize, l))"

primrec command_loop ::
  "nat \<Rightarrow> bytes \<Rightarrow> Allocations \<Rightarrow> u64 \<Rightarrow> u64 \<Rightarrow> u64 \<Rightarrow> nat \<Rightarrow> u64 \<Rightarrow> Loading \<Rightarrow> string + (u64 \<times> Loading)" where
  "command_loop 0 f al sl slice_size commands_end c cursor l = Inr (cursor, l)"
| "command_loop (Suc left) f al sl slice_size commands_end c cursor l =
     (case load_command f al sl slice_size commands_end c cursor l of
        Inl e \<Rightarrow> Inl e
      | Inr (cmdsize, l) \<Rightarrow> command_loop left f al sl slice_size commands_end (Suc c) (cursor + ucast cmdsize) l)"

section \<open>Mapping the segments\<close>

definition segments_overlap :: "GISegment \<Rightarrow> GISegment \<Rightarrow> bool" where
  "segments_overlap s p \<longleftrightarrow>
     gs_size s \<noteq> 0 \<and> gs_size p \<noteq> 0 \<and> gs_address s < gs_address p + gs_size p \<and> gs_address p < gs_address s + gs_size s"

text \<open>The contents of a segment are copied in blocks of at most 64 KiB; \<open>at\<close> is the file offset of the segment.\<close>

definition block_size :: "u64 \<Rightarrow> u64 \<Rightarrow> u64" where
  "block_size whole off = (if whole - off > 65536 then 65536 else whole - off)"

lemma block_size_fits:
  assumes "off < whole"
  shows "unat (off + block_size whole off) = unat off + unat (block_size whole off)"
    and "unat off + unat (block_size whole off) \<le> unat whole" and "0 < unat (block_size whole off)"
proof -
  have d: "unat (whole - off) = unat whole - unat off" using assms by (simp add: unat_sub less_imp_le)
  have le: "unat off + unat (block_size whole off) \<le> unat whole"
    using assms d by (simp add: block_size_def word_less_nat_alt) linarith
  then show "unat off + unat (block_size whole off) \<le> unat whole" .
  show "unat (off + block_size whole off) = unat off + unat (block_size whole off)"
    using le unat_u64_less [of whole] by (intro unat_plus_nowrap) linarith
  show "0 < unat (block_size whole off)"
    using assms d by (simp add: block_size_def word_less_nat_alt)
qed

function populate_file ::
  "bytes \<Rightarrow> u64 \<Rightarrow> (u64 \<Rightarrow> nat \<Rightarrow> bool) \<Rightarrow> GISegment \<Rightarrow> u64 \<Rightarrow> GuestMemory \<Rightarrow> string + GuestMemory" where
  "populate_file f at calloc s off m =
     (if off < gs_file_size s
      then let n = block_size (gs_file_size s) off
           in case read_at f (at + off) (unat n) of
                None \<Rightarrow> Inl ''cannot read segment''
              | Some bs \<Rightarrow>
                  let (r, m) = gm_populate m (gs_address s + off) (Some bs) n (calloc (gs_address s + off))
                  in if r \<noteq> GM_OK then Inl ''populate'' else populate_file f at calloc s (off + n) m
      else Inr m)"
  by pat_completeness auto
termination
proof (relation "measure (\<lambda>(f, at, calloc, s, off, m). unat (gs_file_size s) - unat off)", goal_cases)
  case (2 f at calloc s off m)
  then show ?case
    using block_size_fits [of off "gs_file_size s"] by (simp add: word_less_nat_alt)
qed simp

declare populate_file.simps [simp del]

definition map_segment ::
  "bytes \<Rightarrow> u64 \<Rightarrow> u32 \<Rightarrow> Allocations \<Rightarrow> nat \<Rightarrow> GISegment list \<Rightarrow> GISegment \<Rightarrow> GuestImage \<Rightarrow> string + GuestImage" where
  "map_segment f sl file_type al i earlier s img =
     (if \<exists>p \<in> set earlier. segments_overlap s p then Inl ''overlapping segments''
      else if gs_name s = ''__PAGEZERO''
      then if gs_address s \<noteq> 0 \<or> gs_size s \<noteq> 0x100000000 \<or> gs_file_size s \<noteq> 0 \<or> gs_maxprot s \<noteq> 0
           then Inl ''unsupported __PAGEZERO layout'' else Inr img
      else if gs_size s = 0 then Inr img
      else if file_type = MH_EXECUTE \<and> gs_address s < 0x100000000 \<or> gs_size s > 2 * 1024 * 1024 * 1024 \<or>
         gi_mapped_size img > 2 * 1024 * 1024 * 1024 - gs_size s
      then Inl ''guest image exceeds 2 GiB mapping budget''
      else let (r, m) = gm_map (gi_memory img) (gs_address s) (gs_size s) (gs_prot s) (gs_maxprot s) False False (al_map al i)
      in if r \<noteq> GM_OK then Inl ''map''
         else case populate_file f (sl + gs_file_offset s) (al_pages al) s 0 m of
           Inl e \<Rightarrow> Inl e
         | Inr m \<Rightarrow>
             Inr (img\<lparr>gi_memory := m, gi_mapped_size := gi_mapped_size img + gs_size s,
                       gi_file_backed_size := gi_file_backed_size img + gs_file_size s\<rparr>))"

fun map_segments ::
  "bytes \<Rightarrow> u64 \<Rightarrow> u32 \<Rightarrow> Allocations \<Rightarrow> GISegment list \<Rightarrow> GISegment list \<Rightarrow> GuestImage \<Rightarrow> string + GuestImage" where
  "map_segments f sl file_type al earlier [] img = Inr img"
| "map_segments f sl file_type al earlier (s # ss) img =
     (case map_segment f sl file_type al (length earlier) earlier s img of
        Inl e \<Rightarrow> Inl e
      | Inr img \<Rightarrow> map_segments f sl file_type al (earlier @ [s]) ss img)"

section \<open>Entry point and initializers\<close>

definition entry_in :: "u64 \<Rightarrow> GISegment \<Rightarrow> bool" where
  "entry_in entry_offset s \<longleftrightarrow>
     gs_prot s AND GM_EXEC \<noteq> 0 \<and> entry_offset \<ge> gs_file_offset s \<and>
     within (entry_offset - gs_file_offset s) 4 (gs_file_size s)"

definition load_entry :: "Loading \<Rightarrow> string + GuestImage" where
  "load_entry l =
     (let img = ld_image l
      in if \<not> ld_have_entry l then Inr img
         else case find (entry_in (ld_entry_offset l)) (gi_segments img) of
           None \<Rightarrow> Inl ''LC_MAIN is not in executable file-backed memory''
         | Some s \<Rightarrow>
             let entry = gs_address s + ld_entry_offset l - gs_file_offset s
             in if entry AND 3 \<noteq> 0 then Inl ''LC_MAIN is not in executable file-backed memory''
                else Inr (img\<lparr>gi_entry := entry\<rparr>))"

text \<open>The offsets of the initializers, from index \<open>i\<close> on. Reading changes only the fault address of the memory.\<close>

primrec initializer_loop ::
  "nat \<Rightarrow> u64 \<Rightarrow> u64 \<Rightarrow> nat \<Rightarrow> GuestMemory \<Rightarrow> string + (u64 list \<times> GuestMemory)" where
  "initializer_loop 0 header_address init_address i m = Inr ([], m)"
| "initializer_loop (Suc left) header_address init_address i m =
     (let (r, m, b) = gm_read m (init_address + of_nat i * 4) (Some (replicate 4 0)) 4;
          a = header_address + scalar_value (the b) 4
      in if r \<noteq> GM_OK then Inl ''initializer is not executable''
         else let (r, m, _) = gm_fetch m None a True
         in if r \<noteq> GM_OK then Inl ''initializer is not executable''
            else case initializer_loop left header_address init_address (Suc i) m of
              Inl e \<Rightarrow> Inl e
            | Inr (xs, m) \<Rightarrow> Inr (a # xs, m))"

definition load_initializers :: "Allocations \<Rightarrow> Loading \<Rightarrow> GuestImage \<Rightarrow> string + GuestImage" where
  "load_initializers al l img =
     (let count = ld_init_size l div (if ld_init_offsets l then 4 else 8);
          img = img\<lparr>gi_header_address := ld_header_address l, gi_initializer_address := ld_init_address l,
                     gi_initializer_offsets := ld_init_offsets l, gi_initializer_count := count\<rparr>
      in if ld_init_offsets l
         then if \<not> al_initializers al then Inl ''cannot hold the initializer list''
              else case initializer_loop (unat count) (ld_header_address l) (ld_init_address l) 0 (gi_memory img) of
                Inl e \<Rightarrow> Inl e
              | Inr (xs, m) \<Rightarrow>
                  Inr (img\<lparr>gi_memory := m, gi_initializers := xs,
                            gi_first_initializer := (if count \<noteq> 0 then hd xs else gi_first_initializer img)\<rparr>)
         else let (r, m, b) = (if ld_init_size l \<noteq> 0
                               then gm_read (gi_memory img) (ld_init_address l) (Some (replicate 8 0)) 8
                               else (GM_OK, gi_memory img, None))
         in if r \<noteq> GM_OK then Inl ''cannot read initializer pointer''
            else let first = (case b of Some bs \<Rightarrow> scalar_value bs 8 | None \<Rightarrow> gi_first_initializer img);
                     img = img\<lparr>gi_memory := m, gi_first_initializer := first\<rparr>
            in if first \<noteq> 0 \<and> \<not> gi_chained_fixups img
               then let (r, m, _) = gm_fetch m None first True
                    in if r \<noteq> GM_OK then Inl ''first initializer is not executable'' else Inr (img\<lparr>gi_memory := m\<rparr>)
               else Inr img)"

section \<open>Loading\<close>

definition load_header :: "bytes \<Rightarrow> u64 \<Rightarrow> u64 \<Rightarrow> u32 \<Rightarrow> string + u8 list" where
  "load_header f sl slice_size file_type =
     (let r = read_at f sl 32; mh = the r
      in if slice_size < 32 \<or> r = None then Inl ''truncated Mach-O header''
         else if le32 mh 0 \<noteq> MH_MAGIC_64 \<or> le32 mh 4 \<noteq> CPU_TYPE_ARM64 \<or> le32 mh 8 AND 0xffffff \<noteq> 0 \<or> le32 mh 12 \<noteq> file_type
         then Inl ''expected original arm64 Mach-O''
         else if le32 mh 16 = 0 \<or> le32 mh 16 > 65536 \<or> le32 mh 20 > 16 * 1024 * 1024 \<or>
            \<not> within 32 (ucast (le32 mh 20)) slice_size
         then Inl ''invalid load-command range''
         else Inr mh)"

definition load_start :: "u8 list \<Rightarrow> u64 \<Rightarrow> u64 \<Rightarrow> Loading" where
  "load_start mh sl slice_size =
     \<lparr>ld_image = gi_zero\<lparr>gi_file_type := le32 mh 12, gi_weak_defines := (le32 mh 24 AND 0x8000 \<noteq> 0),
                        gi_slice_offset := sl, gi_slice_size := slice_size\<rparr>,
      ld_have_entry = False, ld_entry_offset = 0, ld_have_init = False, ld_init_offsets = False, ld_init_address = 0,
      ld_init_size = 0, ld_have_text = False, ld_header_address = 0, ld_have_exports = False, ld_export_offset = 0\<rparr>"

definition load_exports :: "bytes \<Rightarrow> u64 \<Rightarrow> Allocations \<Rightarrow> Loading \<Rightarrow> string + GuestImage" where
  "load_exports f sl al l =
     (let img = ld_image l; r = read_at f (sl + ucast (ld_export_offset l)) (unat (gi_export_size img))
      in if gi_export_size img = 0 then Inr img
         else if gi_export_size img > 32 * 1024 * 1024 then Inl ''export trie exceeds 32 MiB budget''
         else if \<not> al_exports al \<or> r = None then Inl ''cannot read export trie''
         else Inr (img\<lparr>gi_exports := r\<rparr>))"

definition check_header :: "u8 list \<Rightarrow> GuestImage \<Rightarrow> string + GuestImage" where
  "check_header mh img =
     (let (r, m, b) = gm_read (gi_memory img) (gi_header_address img) (Some (replicate 32 0)) 32
      in if r \<noteq> GM_OK \<or> b \<noteq> Some mh then Inl ''guest header differs from source''
         else Inr (img\<lparr>gi_memory := m\<rparr>))"

text \<open>\<open>load\<close> on a zero image.\<close>

definition load :: "bytes \<Rightarrow> Allocations \<Rightarrow> u32 \<Rightarrow> string + GuestImage" where
  "load f al file_type =
     (case find_slice f of Inl e \<Rightarrow> Inl e
      | Inr (sl, slice_size) \<Rightarrow>
     (case load_header f sl slice_size file_type of Inl e \<Rightarrow> Inl e
      | Inr mh \<Rightarrow>
     (let commands_end = 32 + ucast (le32 mh 20)
      in case command_loop (unat (le32 mh 16)) f al sl slice_size commands_end 0 32 (load_start mh sl slice_size) of Inl e \<Rightarrow> Inl e
      | Inr (cursor, l) \<Rightarrow>
     (if cursor \<noteq> commands_end \<or> \<not> ld_have_text l \<or> file_type = MH_EXECUTE \<and> \<not> ld_have_entry l \<or>
         file_type = MH_DYLIB \<and> ld_have_entry l
      then Inl ''missing header/entry or inconsistent image commands''
      else case load_exports f sl al l of Inl e \<Rightarrow> Inl e
      | Inr img \<Rightarrow>
     (case map_segments f sl file_type al [] (gi_segments img) img of Inl e \<Rightarrow> Inl e
      | Inr img \<Rightarrow>
     (case load_entry (l\<lparr>ld_image := img\<rparr>) of Inl e \<Rightarrow> Inl e
      | Inr img \<Rightarrow>
     (case load_initializers al l img of Inl e \<Rightarrow> Inl e
      | Inr img \<Rightarrow> check_header mh img)))))))"

text \<open>\<open>load_path\<close>: \<open>f\<close> is \<open>None\<close> when the file cannot be opened.\<close>

definition load_path ::
  "bytes option \<Rightarrow> Allocations \<Rightarrow> GuestImage \<Rightarrow> u32 \<Rightarrow> string option \<times> GuestImage" where
  "load_path f al img file_type =
     (if gm_pages (gi_memory img) \<noteq> [] \<or> gi_segments img \<noteq> [] then (Some ''image is already loaded'', img)
      else case f of
        None \<Rightarrow> (Some ''cannot open guest executable'', img)
      | Some f \<Rightarrow> (case load f al file_type of Inl e \<Rightarrow> (Some e, img) | Inr staged \<Rightarrow> (None, staged)))"

definition gi_load :: "bytes option \<Rightarrow> Allocations \<Rightarrow> GuestImage \<Rightarrow> string option \<times> GuestImage" where
  "gi_load f al img = load_path f al img MH_EXECUTE"

definition gi_load_library :: "bytes option \<Rightarrow> Allocations \<Rightarrow> GuestImage \<Rightarrow> string option \<times> GuestImage" where
  "gi_load_library f al img = load_path f al img MH_DYLIB"

text \<open>Where the mapped segments lie, and how far they reach.\<close>

definition placed :: "GISegment \<Rightarrow> bool" where
  "placed s \<longleftrightarrow> gs_size s \<noteq> 0 \<and> gs_name s \<noteq> ''__PAGEZERO''"

definition gi_extent :: "GuestImage \<Rightarrow> u64 \<times> u64" where
  "gi_extent img =
     (let (start, e) = foldl (\<lambda>(start, e) s. if \<not> placed s then (start, e)
              else (if gs_address s < start then gs_address s else start,
                    if gs_address s + gs_size s > e then gs_address s + gs_size s else e))
            (UINT64_MAX, 0) (gi_segments img)
      in if start > e then (0, gi_header_address img)
         else ((e - start + GM_PAGE_SIZE - 1) AND NOT (GM_PAGE_SIZE - 1), start))"

text \<open>\<open>placed_word\<close> reads a pointer of the placed image.\<close>

definition gi_placed_initializer :: "(u64 \<Rightarrow> u64) \<Rightarrow> GuestImage \<Rightarrow> u64 \<Rightarrow> u64 \<Rightarrow> u64" where
  "gi_placed_initializer placed_word img slide index =
     (if index \<ge> gi_initializer_count img then 0
      else if gi_initializer_offsets img then gi_initializers img ! unat index + slide
      else placed_word (gi_initializer_address img + slide + 8 * index))"

section \<open>The export trie\<close>

text \<open>\<open>export_uleb\<close> from position \<open>cur\<close> up to position \<open>e\<close>: the value and the position after it.\<close>

function uleb_loop :: "u8 list \<Rightarrow> nat \<Rightarrow> nat \<Rightarrow> nat \<Rightarrow> u64 \<Rightarrow> (u64 \<times> nat) option" where
  "uleb_loop bs e shift cur v =
     (if shift \<le> 63 \<and> cur < e
      then let byte = bs ! cur
           in if shift = 63 \<and> byte AND 0xfe \<noteq> 0 then None
              else let v = v OR push_bit shift (ucast (byte AND 127))
                   in if byte AND 128 = 0 then Some (v, Suc cur) else uleb_loop bs e (shift + 7) (Suc cur) v
      else None)"
  by pat_completeness auto
termination by (relation "measure (\<lambda>(bs, e, shift, cur, v). e - cur)") auto

declare uleb_loop.simps [simp del]

definition export_uleb :: "u8 list \<Rightarrow> nat \<Rightarrow> nat \<Rightarrow> (u64 \<times> nat) option" where
  "export_uleb bs e cur = uleb_loop bs e 0 cur 0"

datatype GIExportResult = GI_EXPORT_INVALID | GI_EXPORT_MISSING | GI_EXPORT_FOUND | GI_EXPORT_REEXPORT

record GIExport =
  ge_address :: u64
  ge_absolute :: bool
  ge_weak :: bool
  ge_per_thread :: bool
  ge_ordinal :: u64
  ge_name :: "string option"

definition ge_zero :: GIExport where
  "ge_zero = \<lparr>ge_address = 0, ge_absolute = False, ge_weak = False, ge_per_thread = False, ge_ordinal = 0, ge_name = None\<rparr>"

type_synonym export_answer = "GIExportResult \<times> GIExport \<times> string"

definition invalid_export :: "string \<Rightarrow> export_answer" where
  "invalid_export e = (GI_EXPORT_INVALID, ge_zero, e)"

abbreviation (input) KIND_REGULAR :: u64 where "KIND_REGULAR \<equiv> 0"
abbreviation (input) KIND_THREAD_LOCAL :: u64 where "KIND_THREAD_LOCAL \<equiv> 1"
abbreviation (input) KIND_ABSOLUTE :: u64 where "KIND_ABSOLUTE \<equiv> 2"

text \<open>The payload of a terminal node, between \<open>cur\<close> and \<open>children\<close>: a re-export or an address.\<close>

definition export_reexport :: "GuestImage \<Rightarrow> u8 list \<Rightarrow> nat \<Rightarrow> nat \<Rightarrow> export_answer" where
  "export_reexport img bs cur children =
     (case export_uleb bs children cur of
        None \<Rightarrow> invalid_export ''re-export names library''
      | Some (ordinal, cur) \<Rightarrow>
          if ordinal = 0 \<or> ordinal > of_nat (length (gi_dylibs img)) then invalid_export ''re-export names library''
          else let name = take (children - cur) (drop cur bs)
          in if name = [] \<or> 0 \<in> set (butlast name) \<or> last name \<noteq> 0 then invalid_export ''invalid re-export name''
             else (GI_EXPORT_REEXPORT,
                   ge_zero\<lparr>ge_ordinal := ordinal, ge_name := (if hd name = 0 then None else Some (c_string name))\<rparr>, ''''))"

definition in_placed_segment :: "GuestImage \<Rightarrow> u64 \<Rightarrow> bool" where
  "in_placed_segment img v \<longleftrightarrow>
     (\<exists>s \<in> set (gi_segments img). gs_prot s \<noteq> 0 \<and> v \<ge> gs_address s \<and> v - gs_address s < gs_size s)"

definition export_address :: "GuestImage \<Rightarrow> u8 list \<Rightarrow> nat \<Rightarrow> nat \<Rightarrow> u64 \<Rightarrow> export_answer" where
  "export_address img bs cur children flags =
     (let kind = flags AND 3
      in case export_uleb bs children cur of
        None \<Rightarrow> invalid_export ''invalid export address''
      | Some (v, cur) \<Rightarrow>
          if cur \<noteq> children then invalid_export ''invalid export address''
          else if kind \<noteq> KIND_ABSOLUTE \<and> v > UINT64_MAX - gi_header_address img then invalid_export ''export address overflow''
          else let v = (if kind \<noteq> KIND_ABSOLUTE then v + gi_header_address img else v)
          in if kind \<noteq> KIND_ABSOLUTE \<and> \<not> in_placed_segment img v then invalid_export ''export outside mapped image''
             else if kind = KIND_THREAD_LOCAL \<and>
                (v < gi_tls_descriptors img \<or> v - gi_tls_descriptors img \<ge> gi_tls_descriptors_size img \<or>
                 (v - gi_tls_descriptors img) mod 24 \<noteq> 0)
             then invalid_export ''thread-local export outside the TLS descriptors''
             else (GI_EXPORT_FOUND,
                   ge_zero\<lparr>ge_address := v, ge_absolute := (kind = KIND_ABSOLUTE),
                           ge_per_thread := (kind = KIND_THREAD_LOCAL), ge_weak := (flags AND 4 \<noteq> 0)\<rparr>, ''''))"

definition export_terminal :: "GuestImage \<Rightarrow> u8 list \<Rightarrow> nat \<Rightarrow> nat \<Rightarrow> export_answer" where
  "export_terminal img bs cur children =
     (case export_uleb bs children cur of
        None \<Rightarrow> invalid_export ''invalid export flags''
      | Some (flags, cur) \<Rightarrow>
          if flags AND NOT (3 OR 4 OR 8) \<noteq> 0 \<or> flags AND 3 = 3 then invalid_export ''unsupported export kind/flags''
          else if flags AND 8 \<noteq> 0 then export_reexport img bs cur children
          else export_address img bs cur children flags)"

text \<open>The edges of a node: the first one that matches, as the child's offset and the length of its label.\<close>

definition edge_label :: "u8 list \<Rightarrow> nat \<Rightarrow> nat \<Rightarrow> u8 list option" where
  "edge_label bs e cur =
     (let rest = take (e - cur) (drop cur bs)
      in if 0 \<in> set rest then Some (takeWhile (\<lambda>b. b \<noteq> 0) rest) else None)"

primrec export_edges ::
  "nat \<Rightarrow> u8 list \<Rightarrow> nat \<Rightarrow> nat \<Rightarrow> string \<Rightarrow> bool \<Rightarrow> (u64 \<times> nat) option \<Rightarrow> string + (u64 \<times> nat) option" where
  "export_edges 0 bs e cur symbol labelled found = Inr found"
| "export_edges (Suc left) bs e cur symbol labelled found =
     (case edge_label bs e cur of
        None \<Rightarrow> Inl ''invalid export edge''
      | Some label \<Rightarrow>
          let matches = (length label \<le> length symbol \<and> c_string label = take (length label) symbol)
          in case export_uleb bs e (cur + length label + 1) of
               None \<Rightarrow> Inl ''invalid export child offset''
             | Some (offset, cur) \<Rightarrow>
                 if offset \<ge> of_nat e then Inl ''invalid export child offset''
                 else if matches \<and> label \<noteq> [] \<and> labelled then Inl ''ambiguous export edges''
                 else export_edges left bs e cur symbol (labelled \<or> matches \<and> label \<noteq> [])
                        (if matches \<and> found = None then Some (offset, length label) else found))"

primrec export_walk :: "nat \<Rightarrow> GuestImage \<Rightarrow> u8 list \<Rightarrow> nat \<Rightarrow> u64 \<Rightarrow> string \<Rightarrow> export_answer" where
  "export_walk 0 img bs e node symbol = invalid_export ''export path exceeds traversal budget''"
| "export_walk (Suc steps) img bs e node symbol =
     (if node \<ge> of_nat e then invalid_export ''export node outside trie''
      else case export_uleb bs e (unat node) of
        None \<Rightarrow> invalid_export ''invalid export terminal size''
      | Some (terminal_size, cur) \<Rightarrow>
          if terminal_size > of_nat (e - cur) then invalid_export ''invalid export terminal size''
          else let children = cur + unat terminal_size
          in if symbol = [] \<and> terminal_size \<noteq> 0 then export_terminal img bs cur children
             else if children = e then invalid_export ''missing export child count''
             else case export_edges (unat (bs ! children)) bs e (Suc children) symbol False None of
               Inl m \<Rightarrow> invalid_export m
             | Inr None \<Rightarrow> (GI_EXPORT_MISSING, ge_zero, '''')
             | Inr (Some (n, consumed)) \<Rightarrow> export_walk steps img bs e n (drop consumed symbol))"

text \<open>\<open>symbol\<close> is \<open>None\<close> for a null pointer; \<open>out\<close> is \<open>False\<close> for a null result pointer.\<close>

definition gi_export :: "GuestImage \<Rightarrow> string option \<Rightarrow> bool \<Rightarrow> export_answer" where
  "gi_export img symbol out =
     (case symbol of
        None \<Rightarrow> invalid_export ''invalid export query''
      | Some name \<Rightarrow>
          if \<not> out then invalid_export ''invalid export query''
          else if name = [] then invalid_export ''invalid export symbol length''
          else if gi_export_size img = 0 then (GI_EXPORT_MISSING, ge_zero, '''')
          else case gi_exports img of
            None \<Rightarrow> invalid_export ''missing export trie data''
          | Some bs \<Rightarrow>
              if length name > unat (gi_export_size img) then (GI_EXPORT_MISSING, ge_zero, '''')
              else export_walk (length name + 8192) img bs (unat (gi_export_size img)) 0 name)"

end
