(* ===== verification/GuestImageLaws.thy ===== *)
theory GuestImageLaws
  imports GuestImage
begin

text \<open>
  Correctness of the loader: the memory of a loaded image is exactly what the file describes, and
  the search in the bytes of the export trie finds what the trie they encode holds.
\<close>

section \<open>Contents of a segment\<close>

text \<open>The byte a file holds for an address of a segment.\<close>

definition segment_byte :: "bytes \<Rightarrow> u64 \<Rightarrow> GISegment \<Rightarrow> u64 \<Rightarrow> u8" where
  "segment_byte f sl s x =
     (if unat (x - gs_address s) < unat (gs_file_size s)
      then f ! (unat sl + unat (gs_file_offset s) + unat (x - gs_address s)) else 0)"

text \<open>What the load commands guarantee of a segment.\<close>

definition segment_ok :: "bytes \<Rightarrow> u64 \<Rightarrow> GISegment \<Rightarrow> bool" where
  "segment_ok f sl s \<longleftrightarrow>
     unat sl + unat (gs_file_offset s) + unat (gs_file_size s) \<le> length f \<and> gs_file_size s \<le> gs_size s \<and>
     unat (gs_address s) + unat (gs_size s) < 2 ^ 64"

definition seg_range :: "GISegment \<Rightarrow> u64 \<Rightarrow> bool" where
  "seg_range s x \<longleftrightarrow> in_range (gs_address s) (gs_size s) x"

lemma gm_populate_spec:
  assumes wf: "gm_wf m" and len: "unat n \<le> length bs" and eq: "gm_populate m a (Some bs) n calloc = (r, m')"
  shows "gm_wf m'" and "gm_attr m' = gm_attr m"
    and "gm_byte m' x = (if r = GM_OK \<and> in_range a n x then bs ! unat (x - a) else gm_byte m x)"
proof -
  obtain b where c: "gm_copy m None a (Some bs) n 0 True calloc = (r, m', b)"
    using eq by (auto simp: gm_populate_def split: prod.splits)
  show "gm_wf m'" and "gm_attr m' = gm_attr m"
    and "gm_byte m' x = (if r = GM_OK \<and> in_range a n x then bs ! unat (x - a) else gm_byte m x)"
    by (rule gm_copy_write [OF wf len c])+
qed

lemma read_at_SomeD:
  assumes "read_at f off n = Some bs" and "0 < n"
  shows "length bs = n" and "unat off + n \<le> length f" and "i < n \<Longrightarrow> bs ! i = f ! (unat off + i)"
  using assms by (auto simp: read_at_def split: if_splits)

lemma offset_in_range:
  assumes "unat a + unat n < 2 ^ 64" and "unat off + unat k \<le> unat n"
  shows "in_range (a + off) k x \<longleftrightarrow> unat off \<le> unat (x - a) \<and> unat (x - a) < unat off + unat k"
    and "in_range (a + off) k x \<Longrightarrow> unat (x - (a + off)) = unat (x - a) - unat off"
proof -
  have "unat off + unat k < 2 ^ 64" using assms by simp
  then show iff: "in_range (a + off) k x \<longleftrightarrow> unat off \<le> unat (x - a) \<and> unat (x - a) < unat off + unat k"
    using in_range_iff [of off k "x - a"] by (simp add: in_range_def algebra_simps)
  show "unat (x - (a + off)) = unat (x - a) - unat off" if "in_range (a + off) k x"
  proof -
    have "off \<le> x - a" using iff that by (simp add: word_le_nat_alt)
    then show ?thesis by (simp add: diff_diff_eq [symmetric] unat_sub)
  qed
qed

lemma populate_file_spec:
  assumes "populate_file f at calloc s off m = Inr m'" and "gm_wf m" and "off \<le> gs_file_size s"
    and s: "gs_file_size s \<le> gs_size s" "unat (gs_address s) + unat (gs_size s) < 2 ^ 64"
    and at: "unat at + unat (gs_file_size s) < 2 ^ 64"
  shows "gm_wf m' \<and> gm_attr m' = gm_attr m \<and>
    (\<forall>x. gm_byte m' x = (if unat off \<le> unat (x - gs_address s) \<and> unat (x - gs_address s) < unat (gs_file_size s)
      then f ! (unat at + unat (x - gs_address s)) else gm_byte m x))"
  using assms
proof (induction f at calloc s off m rule: populate_file.induct)
  case (1 f at calloc s off m)
  show ?case
  proof (cases "off < gs_file_size s")
    case False
    then have "off = gs_file_size s" using 1(4) by order
    then show ?thesis using 1(2,3) by (auto simp: populate_file.simps [of f at])
  next
    case True
    define n where "n = block_size (gs_file_size s) off"
    note n = block_size_fits [OF True, folded n_def]
    obtain bs where bs: "read_at f (at + off) (unat n) = Some bs"
      using 1(2) True by (auto simp: populate_file.simps [of f at] n_def Let_def split: option.splits)
    obtain r m1 where p: "gm_populate m (gs_address s + off) (Some bs) n (calloc (gs_address s + off)) = (r, m1)"
      by fastforce
    have r: "r = GM_OK" and rest: "populate_file f at calloc s (off + n) m1 = Inr m'"
      using 1(2) True bs p by (auto simp: populate_file.simps [of f at] n_def Let_def split: if_splits)
    note rd = read_at_SomeD [OF bs n(3)]
    have "unat (at + off) = unat at + unat off"
      using 1(7) True by (intro unat_plus_nowrap) (simp add: word_less_nat_alt)
    note rd = rd [unfolded this]
    note st = gm_populate_spec [OF 1(3) _ p, unfolded rd(1), OF order_refl]
    have "unat off + unat n \<le> unat (gs_size s)" using n(2) 1(5) by (simp add: word_le_nat_alt)
    note o = offset_in_range [OF 1(6) this]
    have "off + n \<le> gs_file_size s" using n(1,2) by (simp add: word_le_nat_alt)
    then have ih: "gm_wf m' \<and> gm_attr m' = gm_attr m1 \<and>
        (\<forall>x. gm_byte m' x = (if unat (off + n) \<le> unat (x - gs_address s) \<and> unat (x - gs_address s) < unat (gs_file_size s)
          then f ! (unat at + unat (x - gs_address s)) else gm_byte m1 x))"
      using 1(1) [OF True n_def bs p [symmetric]] r rest st(1) 1(5-7) by (simp add: n_def)
    have "gm_byte m1 x = (if unat off \<le> unat (x - gs_address s) \<and> unat (x - gs_address s) < unat off + unat n
        then f ! (unat at + unat (x - gs_address s)) else gm_byte m x)" for x
      using st(3) [of x] r o [of x] rd(3) [of "unat (x - gs_address s) - unat off"] by auto
    then show ?thesis using ih st(2) n(1,2) by auto
  qed
qed

text \<open>The memory holds exactly the given segments.\<close>

definition holds_segments :: "bytes \<Rightarrow> u64 \<Rightarrow> GISegment list \<Rightarrow> GuestMemory \<Rightarrow> bool" where
  "holds_segments f sl ss m \<longleftrightarrow>
     gm_wf m \<and>
     (\<forall>s \<in> set ss. placed s \<longrightarrow> (\<forall>x. seg_range s x \<longrightarrow>
        gm_attr m x = Some (ucast (gs_prot s), ucast (gs_maxprot s), False) \<and> gm_byte m x = segment_byte f sl s x)) \<and>
     (\<forall>x. gm_attr m x \<noteq> None \<longrightarrow> (\<exists>s \<in> set ss. placed s \<and> seg_range s x))"

lemma holds_segments_skip:
  assumes "holds_segments f sl ss m" and "\<not> placed s"
  shows "holds_segments f sl (ss @ [s]) m"
  using assms by (auto simp: holds_segments_def)

lemma holds_segments_add:
  assumes h: "holds_segments f sl ss m" and ok: "segment_ok f sl s" and pl: "placed s" and len: "length f < 2 ^ 63"
    and map: "gm_map m (gs_address s) (gs_size s) (gs_prot s) (gs_maxprot s) False False calloc_ok = (GM_OK, m1)"
    and pop: "populate_file f (sl + gs_file_offset s) calloc s 0 m1 = Inr m2"
  shows "holds_segments f sl (ss @ [s]) m2"
proof -
  have wf: "gm_wf m" using h by (simp add: holds_segments_def)
  note mp = gm_map_ok [OF wf map]
  have args: "gm_map_args_ok (gs_address s) (gs_size s) (gs_prot s) (gs_maxprot s)"
    using map by (auto simp: gm_map_def gm_map_args_ok_def split: if_splits)
  have fresh: "gm_page_at m x = None" if "seg_range s x" for x
    using gm_map_overlap [OF wf, of "gs_address s" "gs_size s" "gs_prot s" "gs_maxprot s" False False calloc_ok] map args that
    by (auto simp: seg_range_def)
  have attr1: "gm_attr m1 x = (if seg_range s x then Some (ucast (gs_prot s), ucast (gs_maxprot s), False) else gm_attr m x)" for x
    using mp(2) [of x] by (simp add: gm_attr_def seg_range_def gm_new_page_def)
  have byte1: "gm_byte m1 x = (if seg_range s x then 0 else gm_byte m x)" for x
    using mp(2) [of x] by (simp add: gm_byte_def seg_range_def gm_new_page_def page_bytes_def)
  have sk: "unat sl + unat (gs_file_offset s) + unat (gs_file_size s) \<le> length f" "gs_file_size s \<le> gs_size s"
      "unat (gs_address s) + unat (gs_size s) < 2 ^ 64" using ok by (simp_all add: segment_ok_def)
  have at: "unat (sl + gs_file_offset s) = unat sl + unat (gs_file_offset s)"
    using sk(1) len by (intro unat_plus_nowrap) simp
  have "unat (sl + gs_file_offset s) + unat (gs_file_size s) < 2 ^ 64" using at sk(1) len by simp
  note pf = populate_file_spec [OF pop mp(1) _ sk(2,3) this, unfolded at]
  have wf2: "gm_wf m2" and attr2: "gm_attr m2 = gm_attr m1" using pf by simp_all
  have byte2: "gm_byte m2 x = (if seg_range s x then segment_byte f sl s x else gm_byte m x)" for x
  proof (cases "unat (x - gs_address s) < unat (gs_file_size s)")
    case True
    then have "seg_range s x" using sk(2) by (simp add: seg_range_def in_range_def word_le_nat_alt)
    then show ?thesis using pf True by (simp add: segment_byte_def)
  next
    case False
    then show ?thesis using pf byte1 [of x] by (simp add: segment_byte_def)
  qed
  have old: "\<not> seg_range s x" if "p \<in> set ss" "placed p" "seg_range p x" for p x
    using h that fresh [of x] by (force simp: holds_segments_def gm_attr_def)
  show ?thesis
    unfolding holds_segments_def
  proof (intro conjI ballI impI allI)
    show "gm_wf m2" by (rule wf2)
  next
    fix p x assume p: "p \<in> set (ss @ [s])" "placed p" "seg_range p x"
    show "gm_attr m2 x = Some (ucast (gs_prot p), ucast (gs_maxprot p), False)"
      using p h old [of p x] by (auto simp: attr2 attr1 holds_segments_def)
    show "gm_byte m2 x = segment_byte f sl p x"
      using p h old [of p x] by (auto simp: byte2 holds_segments_def)
  next
    fix x assume "gm_attr m2 x \<noteq> None"
    then show "\<exists>p \<in> set (ss @ [s]). placed p \<and> seg_range p x"
      using h pl by (auto simp: attr2 attr1 holds_segments_def split: if_splits)
  qed
qed

text \<open>The mapping budget of 2 GiB, and what mapping leaves of the image.\<close>

definition mapped_from :: "GuestImage \<Rightarrow> GuestImage \<Rightarrow> bool" where
  "mapped_from img img' \<longleftrightarrow> (\<exists>m a b. img' = img\<lparr>gi_memory := m, gi_mapped_size := a, gi_file_backed_size := b\<rparr>)"

lemma mapped_from_refl: "mapped_from img img"
  unfolding mapped_from_def
  by (rule exI [of _ "gi_memory img"], rule exI [of _ "gi_mapped_size img"], rule exI [of _ "gi_file_backed_size img"]) simp

lemma mapped_from_trans: "mapped_from img img1 \<Longrightarrow> mapped_from img1 img2 \<Longrightarrow> mapped_from img img2"
  unfolding mapped_from_def by (elim exE) (simp, blast)

lemma map_segment_spec:
  assumes "map_segment f sl file_type al i earlier s img = Inr img'" and "holds_segments f sl earlier (gi_memory img)"
    and "segment_ok f sl s" and "length f < 2 ^ 63" and "unat (gi_mapped_size img) \<le> 2 ^ 31"
  shows "holds_segments f sl (earlier @ [s]) (gi_memory img') \<and> unat (gi_mapped_size img') \<le> 2 ^ 31 \<and>
    mapped_from img img' \<and>
    (\<forall>p \<in> set earlier. \<not> segments_overlap s p)"
proof (cases "placed s")
  case False
  then have "img' = img" and "\<forall>p \<in> set earlier. \<not> segments_overlap s p"
    using assms(1) by (auto simp: map_segment_def placed_def split: if_splits)
  then show ?thesis using assms(2,5) holds_segments_skip [OF _ False] mapped_from_refl by simp
next
  case True
  obtain r m1 where m: "gm_map (gi_memory img) (gs_address s) (gs_size s) (gs_prot s) (gs_maxprot s) False False (al_map al i) = (r, m1)"
    by fastforce
  have no: "\<not> (\<exists>p \<in> set earlier. segments_overlap s p)" and sz: "\<not> gs_size s > 2 * 1024 * 1024 * 1024"
      "\<not> gi_mapped_size img > 2 * 1024 * 1024 * 1024 - gs_size s" and r: "r = GM_OK"
    using assms(1) True m by (auto simp: map_segment_def placed_def split: if_splits)
  obtain m2 where p: "populate_file f (sl + gs_file_offset s) (al_pages al) s 0 m1 = Inr m2"
    and img': "img' = img\<lparr>gi_memory := m2, gi_mapped_size := gi_mapped_size img + gs_size s,
      gi_file_backed_size := gi_file_backed_size img + gs_file_size s\<rparr>"
    using assms(1) True m r no by (auto simp: map_segment_def placed_def split: if_splits sum.splits)
  have "unat (2 * 1024 * 1024 * 1024 - gs_size s) = 2 ^ 31 - unat (gs_size s)"
    using sz(1) by (subst unat_sub) (simp_all add: word_le_nat_alt word_less_nat_alt)
  then have le: "unat (gi_mapped_size img) + unat (gs_size s) \<le> 2 ^ 31"
    using sz by (simp add: word_less_nat_alt)
  then have "unat (gi_mapped_size img + gs_size s) \<le> 2 ^ 31" by (subst unat_plus_nowrap) simp_all
  then show ?thesis
    using holds_segments_add [OF assms(2,3) True assms(4) m [unfolded r] p] no by (auto simp: img' mapped_from_def)
qed

lemma map_segments_spec:
  assumes "map_segments f sl file_type al earlier ss img = Inr img'" and "holds_segments f sl earlier (gi_memory img)"
    and "\<forall>s \<in> set ss. segment_ok f sl s" and "length f < 2 ^ 63" and "unat (gi_mapped_size img) \<le> 2 ^ 31"
  shows "holds_segments f sl (earlier @ ss) (gi_memory img') \<and> unat (gi_mapped_size img') \<le> 2 ^ 31 \<and>
    mapped_from img img'"
  using assms
proof (induction f sl file_type al earlier ss img rule: map_segments.induct)
  case (2 f sl file_type al earlier s ss img)
  obtain img1 where s: "map_segment f sl file_type al (length earlier) earlier s img = Inr img1"
    and rest: "map_segments f sl file_type al (earlier @ [s]) ss img1 = Inr img'"
    using 2(2) by (auto split: sum.splits)
  note one = map_segment_spec [OF s 2(3) _ 2(5,6)]
  have "segment_ok f sl s" using 2(4) by simp
  note one = one [OF this]
  have "holds_segments f sl (earlier @ s # ss) (gi_memory img') \<and> unat (gi_mapped_size img') \<le> 2 ^ 31 \<and>
    mapped_from img1 img'"
    using 2(1) [OF s rest] one 2(4,5) by simp
  then show ?case using one mapped_from_trans by blast
qed (simp add: mapped_from_refl)

section \<open>The load commands\<close>

text \<open>Until the segments are mapped the image has no memory; its segments have passed the checks.\<close>

definition loading_ok :: "u64 \<Rightarrow> u64 \<Rightarrow> Loading \<Rightarrow> bool" where
  "loading_ok sl slice_size l \<longleftrightarrow> gi_slice_offset (ld_image l) = sl \<and>
     gi_memory (ld_image l) = gi_memory gi_zero \<and> gi_mapped_size (ld_image l) = 0 \<and>
     (\<forall>s \<in> set (gi_segments (ld_image l)).
        within (gs_file_offset s) (gs_file_size s) slice_size \<and> gs_file_size s \<le> gs_size s \<and> gs_size s \<le> UINT64_MAX - gs_address s)"

definition same_core :: "GuestImage \<Rightarrow> GuestImage \<Rightarrow> bool" where
  "same_core img img' \<longleftrightarrow> gi_memory img' = gi_memory img \<and> gi_mapped_size img' = gi_mapped_size img \<and>
     gi_segments img' = gi_segments img \<and> gi_slice_offset img' = gi_slice_offset img"

lemma loading_ok_core: "loading_ok so n l \<Longrightarrow> same_core (ld_image l) (ld_image l') \<Longrightarrow> loading_ok so n l'"
  by (simp add: loading_ok_def same_core_def)

lemma same_core_trans: "same_core a b \<Longrightarrow> same_core b c \<Longrightarrow> same_core a c"
  by (simp add: same_core_def)

lemma section_parts_core:
  "section_initializers h l = Inr l' \<Longrightarrow> same_core (ld_image l) (ld_image l')"
  "section_unwind s h l = Inr l' \<Longrightarrow> same_core (ld_image l) (ld_image l')"
  "section_tls h img = Inr img' \<Longrightarrow> same_core img img'"
  "section_tls_variables h img = Inr img' \<Longrightarrow> same_core img img'"
  by (auto simp: section_initializers_def section_unwind_def section_tls_def section_tls_variables_def same_core_def Let_def
      split: if_splits)

lemma section_step_core:
  assumes "section_step n s h l = Inr l'"
  shows "same_core (ld_image l) (ld_image l')"
proof -
  obtain l1 l2 i1 i2 where "section_initializers h l = Inr l1" "section_unwind s h l1 = Inr l2"
      "section_tls h (ld_image l2) = Inr i1" "section_tls_variables h i1 = Inr i2" "l' = l2\<lparr>ld_image := i2\<rparr>"
    using assms by (auto simp: section_step_def split: option.splits sum.splits)
  then show ?thesis using section_parts_core same_core_trans by (metis Loading.select_convs(1) Loading.surjective Loading.update_convs(1))
qed

lemma section_loop_core: "section_loop left f at n s j l = Inr l' \<Longrightarrow> same_core (ld_image l) (ld_image l')"
proof (induction left arbitrary: j l)
  case 0
  then show ?case by (simp add: same_core_def)
next
  case (Suc left)
  then show ?case by (auto split: option.splits sum.splits intro: same_core_trans [OF section_step_core Suc.IH])
qed

lemma load_segment_ok:
  assumes "load_segment f sl n e cursor cmdsize l = Inr l'" and "loading_ok so n l"
  shows "loading_ok so n l'"
proof -
  define s where "s = segment_command (the (read_at f (sl + cursor) 72))"
  have ok: "\<not> segment_invalid n s" using assms(1) by (auto simp: load_segment_def Let_def s_def split: if_splits)
  obtain l1 where l1: "section_loop (unat (sc_nsects s)) f (sl + cursor + 72) n s 0 l1 = Inr l'"
      "ld_image l1 = (ld_image l)\<lparr>gi_segments := gi_segments (ld_image l) @ [segment_of s]\<rparr>"
    using assms(1) by (auto simp: load_segment_def Let_def s_def split: if_splits)
  have "loading_ok so n l1" using assms(2) ok l1(2) by (auto simp: loading_ok_def segment_of_def segment_invalid_def not_less)
  then show ?thesis using loading_ok_core section_loop_core [OF l1(1)] by blast
qed

lemma load_others_core:
  "load_dylib f al c at cmd cmdsize l = Inr l' \<Longrightarrow> same_core (ld_image l) (ld_image l')"
  "load_rpath f al c at cmdsize l = Inr l' \<Longrightarrow> same_core (ld_image l) (ld_image l')"
  "load_main f at cmdsize l = Inr l' \<Longrightarrow> same_core (ld_image l) (ld_image l')"
  "load_dyld_info f at n cmdsize l = Inr l' \<Longrightarrow> same_core (ld_image l) (ld_image l')"
  "load_exports_trie f at n cmdsize l = Inr l' \<Longrightarrow> same_core (ld_image l) (ld_image l')"
  "load_chained f at n cmdsize l = Inr l' \<Longrightarrow> same_core (ld_image l) (ld_image l')"
  "load_encryption f at cmdsize l = Inr l' \<Longrightarrow> same_core (ld_image l) (ld_image l')"
  by (auto simp: load_dylib_def load_rpath_def load_main_def load_dyld_info_def load_exports_trie_def load_chained_def
      load_encryption_def same_core_def Let_def split: if_splits option.splits)

lemma load_command_ok:
  assumes "load_command f al sl n e c cursor l = Inr (k, l')" and "loading_ok so n l"
  shows "loading_ok so n l'"
proof -
  note core = load_others_core [THEN loading_ok_core [OF assms(2)]]
  have refl: "loading_ok so n l" by (rule assms(2))
  show ?thesis
    using assms(1) refl unfolding load_command_def Let_def
    by (auto split: if_splits sum.splits dest: core load_segment_ok [OF _ assms(2)])
qed

lemma command_loop_ok:
  "command_loop left f al sl n e c cursor l = Inr (k, l') \<Longrightarrow> loading_ok so n l \<Longrightarrow> loading_ok so n l'"
proof (induction left arbitrary: c cursor l)
  case (Suc left)
  then show ?case using load_command_ok by (auto split: sum.splits)
qed simp

section \<open>The slice\<close>

lemma fat_loop_within:
  assumes "fat_loop left f count rs i found = Inr (Some (sl, n))" and "found \<noteq> None \<longrightarrow> within (fst (the found)) (snd (the found)) (of_nat (length f))"
  shows "within sl n (of_nat (length f))"
  using assms
proof (induction left arbitrary: i found)
  case (Suc left)
  obtain found1 where one: "fat_record f count rs i found = Inr found1" and rest: "fat_loop left f count rs (Suc i) found1 = Inr (Some (sl, n))"
    using Suc.prems(1) by (auto split: sum.splits)
  have "found1 \<noteq> None \<longrightarrow> within (fst (the found1)) (snd (the found1)) (of_nat (length f))"
    using one Suc.prems(2) by (auto simp: fat_record_def Let_def split: option.splits if_splits)
  then show ?case using Suc.IH rest by blast
qed simp

lemma find_slice_within: "find_slice f = Inr (sl, n) \<Longrightarrow> within sl n (of_nat (length f))"
  by (auto simp: find_slice_def Let_def within_def split: option.splits if_splits sum.splits dest: fat_loop_within [unfolded within_def])

section \<open>The rest of the load\<close>

text \<open>After the segments are mapped the memory is only read.\<close>

definition same_memory :: "GuestMemory \<Rightarrow> GuestMemory \<Rightarrow> bool" where
  "same_memory m m' \<longleftrightarrow> gm_pages m' = gm_pages m"

lemma same_memory_wf: "same_memory m m' \<Longrightarrow> gm_wf m \<Longrightarrow> gm_wf m'"
  by (simp add: same_memory_def gm_wf_def)

lemma same_memory_holds: "same_memory m m' \<Longrightarrow> holds_segments f sl ss m \<Longrightarrow> holds_segments f sl ss m'"
  by (simp add: same_memory_def holds_segments_def gm_wf_def gm_attr_def gm_byte_def gm_page_at_def)

lemma gm_read_same:
  assumes "gm_wf m" and "gm_read m a (Some buf) n = (r, m', b)" and "unat n \<le> length buf"
  shows "same_memory m m'"
  using arg_cong [OF gm_copy_read(1) [OF assms(1,3) assms(2) [unfolded gm_read_def]], of gm_pages]
  by (simp add: same_memory_def)

lemma gm_fetch_same:
  assumes "gm_wf m" and "gm_fetch m t a out = (r, m', i)"
  shows "same_memory m m'"
  using gm_fetch_keeps [OF assms(1), of t a out] assms(2) by (auto simp: same_memory_def)

lemma initializer_loop_same:
  "initializer_loop left header_address init_address i m = Inr (xs, m') \<Longrightarrow> gm_wf m \<Longrightarrow> same_memory m m'"
proof (induction left arbitrary: i m xs)
  case 0
  then show ?case by (simp add: same_memory_def)
next
  case (Suc left)
  obtain r m1 b where rd: "gm_read m (init_address + of_nat i * 4) (Some (replicate 4 0)) 4 = (r, m1, b)" by (metis prod_cases3)
  obtain q m2 w where ft: "gm_fetch m1 None (header_address + scalar_value (the b) 4) True = (q, m2, w)" by (metis prod_cases3)
  obtain ys where rest: "initializer_loop left header_address init_address (Suc i) m2 = Inr (ys, m')"
    using Suc.prems(1) rd ft by (auto simp: Let_def split: if_splits sum.splits)
  have m1: "same_memory m m1" by (rule gm_read_same [OF Suc.prems(2) rd]) simp
  have m2: "same_memory m1 m2" by (rule gm_fetch_same [OF same_memory_wf [OF m1 Suc.prems(2)] ft])
  have "same_memory m2 m'"
    by (rule Suc.IH [OF rest]) (rule same_memory_wf [OF m2 same_memory_wf [OF m1 Suc.prems(2)]])
  then show ?case using m1 m2 by (simp add: same_memory_def)
qed

definition same_segments :: "GuestImage \<Rightarrow> GuestImage \<Rightarrow> bool" where
  "same_segments img img' \<longleftrightarrow>
     same_memory (gi_memory img) (gi_memory img') \<and> gi_segments img' = gi_segments img \<and>
     gi_mapped_size img' = gi_mapped_size img \<and> gi_slice_offset img' = gi_slice_offset img"

lemma load_initializers_same:
  assumes "load_initializers al l img = Inr img'" and wf: "gm_wf (gi_memory img)"
  shows "same_segments img img' \<and> gi_entry img' = gi_entry img \<and> gi_header_address img' = ld_header_address l"
proof (cases "ld_init_offsets l")
  case True
  then show ?thesis
    using assms initializer_loop_same
    by (auto simp: load_initializers_def same_segments_def Let_def split: if_splits sum.splits)
next
  case False
  obtain r m1 b where rd: "(if ld_init_size l \<noteq> 0 then gm_read (gi_memory img) (ld_init_address l) (Some (replicate 8 0)) 8
      else (GM_OK, gi_memory img, None)) = (r, m1, b)" by (metis prod_cases3)
  have m1: "same_memory (gi_memory img) m1"
  proof (cases "ld_init_size l \<noteq> 0")
    case True
    then have "gm_read (gi_memory img) (ld_init_address l) (Some (replicate 8 0)) 8 = (r, m1, b)" using rd by simp
    then show ?thesis by (rule gm_read_same [OF wf]) simp
  next
    case False
    then show ?thesis using rd by (simp add: same_memory_def)
  qed
  define first where "first = (case b of Some bs \<Rightarrow> scalar_value bs 8 | None \<Rightarrow> gi_first_initializer img)"
  obtain q m2 w where ft: "gm_fetch m1 None first True = (q, m2, w)" by (metis prod_cases3)
  have m2: "same_memory m1 m2" by (rule gm_fetch_same [OF same_memory_wf [OF m1 wf] ft])
  then have m3: "same_memory (gi_memory img) m2" using m1 by (simp add: same_memory_def)
  show ?thesis
    using assms(1) False rd m1 m3 ft unfolding load_initializers_def Let_def
    by (cases b) (auto simp: same_segments_def first_def split: if_splits)
qed

lemma check_header_same:
  assumes "check_header mh img = Inr img'" and "gm_wf (gi_memory img)"
  shows "same_segments img img' \<and> gi_entry img' = gi_entry img \<and> gi_header_address img' = gi_header_address img"
proof -
  obtain r m b where rd: "gm_read (gi_memory img) (gi_header_address img) (Some (replicate 32 0)) 32 = (r, m, b)" by (metis prod_cases3)
  have "same_memory (gi_memory img) m" by (rule gm_read_same [OF assms(2) rd]) simp
  then show ?thesis using assms(1) rd by (auto simp: check_header_def same_segments_def split: if_splits)
qed

lemma load_entry_same:
  assumes "load_entry l = Inr img'"
  shows "same_segments (ld_image l) img'" and "ld_have_entry l \<Longrightarrow> gi_entry img' AND 3 = 0 \<and>
    (\<exists>s \<in> set (gi_segments img'). entry_in (ld_entry_offset l) s \<and> gi_entry img' = gs_address s + ld_entry_offset l - gs_file_offset s)"
proof -
  show "same_segments (ld_image l) img'"
    using assms by (auto simp: load_entry_def same_segments_def same_memory_def Let_def split: if_splits option.splits)
  assume "ld_have_entry l"
  then obtain s where s: "find (entry_in (ld_entry_offset l)) (gi_segments (ld_image l)) = Some s"
    and e: "(gs_address s + ld_entry_offset l - gs_file_offset s) AND 3 = 0"
      "img' = (ld_image l)\<lparr>gi_entry := gs_address s + ld_entry_offset l - gs_file_offset s\<rparr>"
    using assms by (auto simp: load_entry_def Let_def split: if_splits option.splits)
  have "s \<in> set (gi_segments (ld_image l))" "entry_in (ld_entry_offset l) s"
    using s by (auto simp: find_Some_iff)
  then show "gi_entry img' AND 3 = 0 \<and>
    (\<exists>s \<in> set (gi_segments img'). entry_in (ld_entry_offset l) s \<and> gi_entry img' = gs_address s + ld_entry_offset l - gs_file_offset s)"
    using e by auto
qed

text \<open>A loaded image: its segments lie in the file, and its memory holds exactly them.\<close>

definition image_ok :: "bytes \<Rightarrow> GuestImage \<Rightarrow> bool" where
  "image_ok f img \<longleftrightarrow>
     holds_segments f (gi_slice_offset img) (gi_segments img) (gi_memory img) \<and>
     (\<forall>s \<in> set (gi_segments img). segment_ok f (gi_slice_offset img) s) \<and>
     unat (gi_mapped_size img) \<le> 2 ^ 31"

lemma image_ok_same: "image_ok f img \<Longrightarrow> same_segments img img' \<Longrightarrow> image_ok f img'"
  by (auto simp: image_ok_def same_segments_def intro: same_memory_holds)

lemma load_exports_core: "load_exports f sl al l = Inr img \<Longrightarrow> same_core (ld_image l) img"
  by (auto simp: load_exports_def same_core_def Let_def split: if_splits)

lemma load_image_ok:
  assumes len: "length f < 2 ^ 63" and ld: "load f al file_type = Inr img'"
  shows "image_ok f img'" and "file_type = MH_EXECUTE \<Longrightarrow> gi_entry img' AND 3 = 0 \<and>
    (\<exists>s \<in> set (gi_segments img'). \<exists>off. entry_in off s \<and> gi_entry img' = gs_address s + off - gs_file_offset s)"
proof -
  obtain sl n where sl: "find_slice f = Inr (sl, n)" using ld by (auto simp: load_def split: sum.splits)
  obtain mh where mh: "load_header f sl n file_type = Inr mh" using ld sl by (auto simp: load_def split: sum.splits)
  obtain cursor l where cl: "command_loop (unat (le32 mh 16)) f al sl n (32 + ucast (le32 mh 20)) 0 32 (load_start mh sl n) =
      Inr (cursor, l)" using ld sl mh by (auto simp: load_def Let_def split: sum.splits)
  obtain img1 where ex: "load_exports f sl al l = Inr img1" and he: "file_type = MH_EXECUTE \<Longrightarrow> ld_have_entry l"
    using ld sl mh cl by (auto simp: load_def Let_def split: sum.splits if_splits)
  obtain img2 where ms: "map_segments f sl file_type al [] (gi_segments img1) img1 = Inr img2"
    using ld sl mh cl ex by (auto simp: load_def Let_def split: sum.splits if_splits)
  obtain img3 where en: "load_entry (l\<lparr>ld_image := img2\<rparr>) = Inr img3"
    using ld sl mh cl ex ms by (auto simp: load_def Let_def split: sum.splits if_splits)
  obtain img4 where ini: "load_initializers al l img3 = Inr img4" and ch: "check_header mh img4 = Inr img'"
    using ld sl mh cl ex ms en by (auto simp: load_def Let_def split: sum.splits if_splits)
  have wi: "unat sl + unat n \<le> length f"
    using find_slice_within [OF sl] len by (auto simp: within_def word_le_nat_alt unat_sub unat_of_nat_u64)
  have "loading_ok sl n (load_start mh sl n)" by (simp add: loading_ok_def load_start_def gi_zero_def)
  then have lk: "loading_ok sl n l" by (rule command_loop_ok [OF cl])
  have core: "gi_memory img1 = gi_memory gi_zero" "gi_mapped_size img1 = 0" "gi_slice_offset img1 = sl"
      "gi_segments img1 = gi_segments (ld_image l)"
    using load_exports_core [OF ex] lk by (simp_all add: loading_ok_def same_core_def)
  have segs: "\<forall>s \<in> set (gi_segments img1). segment_ok f sl s"
  proof
    fix s assume "s \<in> set (gi_segments img1)"
    then have s: "within (gs_file_offset s) (gs_file_size s) n" "gs_file_size s \<le> gs_size s" "gs_size s \<le> UINT64_MAX - gs_address s"
      using lk core(4) by (simp_all add: loading_ok_def)
    have "unat (gs_file_offset s) + unat (gs_file_size s) \<le> unat n"
      using s(1) by (auto simp: within_def word_le_nat_alt unat_sub)
    then show "segment_ok f sl s" using s(2,3) wi by (simp add: segment_ok_def fits_iff)
  qed
  have empty: "holds_segments f sl [] (gi_memory img1)"
    by (simp add: core holds_segments_def gi_zero_def gm_wf_def gm_sorted_def gm_attr_def gm_page_at_def gm_tab_def)
  note m = map_segments_spec [OF ms empty segs len, unfolded core(2), simplified]
  have img2: "gi_segments img2 = gi_segments img1" "gi_slice_offset img2 = sl"
    using m core(3) by (auto simp: mapped_from_def)
  have ok2: "image_ok f img2" using m segs img2 by (simp add: image_ok_def)
  have ok3: "image_ok f img3" using image_ok_same [OF ok2] load_entry_same(1) [OF en] by simp
  have wf: "gm_wf (gi_memory img3)" using ok3 by (simp add: image_ok_def holds_segments_def)
  note s4 = load_initializers_same [OF ini wf]
  have ok4: "image_ok f img4" using image_ok_same [OF ok3] s4 by blast
  have "gm_wf (gi_memory img4)" using ok4 by (simp add: image_ok_def holds_segments_def)
  note s5 = check_header_same [OF ch this]
  show "image_ok f img'" using image_ok_same [OF ok4] s5 by blast
  assume "file_type = MH_EXECUTE"
  then have "ld_have_entry (l\<lparr>ld_image := img2\<rparr>)" using he by simp
  from load_entry_same(2) [OF en this] show "gi_entry img' AND 3 = 0 \<and>
    (\<exists>s \<in> set (gi_segments img'). \<exists>off. entry_in off s \<and> gi_entry img' = gs_address s + off - gs_file_offset s)"
    using s4 s5 by (auto simp: same_segments_def)
qed

section \<open>Properties of loading\<close>


text \<open>A smallest executable: one segment and an entry point at a return instruction.\<close>

definition sample_file :: bytes where
  "sample_file =
     scalar_bytes 0xfeedfacf 4 @ scalar_bytes 0x0100000c 4 @ scalar_bytes 0 4 @ scalar_bytes 2 4 @
     scalar_bytes 2 4 @ scalar_bytes 96 4 @ scalar_bytes 0 8 @
     scalar_bytes 0x19 4 @ scalar_bytes 72 4 @ map (of_nat \<circ> of_char) ''__TEXT'' @ replicate 10 0 @
     scalar_bytes 0x100000000 8 @ scalar_bytes 0x4000 8 @ scalar_bytes 0 8 @ scalar_bytes 132 8 @
     scalar_bytes 5 4 @ scalar_bytes 5 4 @ scalar_bytes 0 8 @
     scalar_bytes 0x80000028 4 @ scalar_bytes 24 4 @ scalar_bytes 128 8 @ scalar_bytes 0 8 @
     scalar_bytes 0xd65f03c0 4"

definition all_allocated :: Allocations where
  "all_allocated = \<lparr>al_name = (\<lambda>_. True), al_exports = True, al_map = (\<lambda>_. True), al_pages = (\<lambda>_ _. True), al_initializers = True\<rparr>"

lemma sample_slice: "find_slice sample_file = Inr (0, 132)"
  by code_simp

definition sample_segment :: GISegment where
  "sample_segment = \<lparr>gs_name = ''__TEXT'', gs_address = 0x100000000, gs_size = 0x4000, gs_file_offset = 0,
     gs_file_size = 132, gs_prot = 5, gs_maxprot = 5\<rparr>"

lemma sample_commands:
  "case command_loop 2 sample_file all_allocated 0 132 128 0 32 (load_start (take 32 sample_file) 0 132) of
     Inl e \<Rightarrow> False
   | Inr (cursor, l) \<Rightarrow> cursor = 128 \<and> ld_have_text l \<and> ld_have_entry l \<and> ld_entry_offset l = 128 \<and>
      ld_header_address l = 0x100000000 \<and> \<not> ld_init_offsets l \<and> ld_init_size l = 0 \<and>
      gi_segments (ld_image l) = [sample_segment] \<and> gi_export_size (ld_image l) = 0 \<and>
      gi_first_initializer (ld_image l) = 0 \<and> gi_mapped_size (ld_image l) = 0"
  by code_simp

lemma sample_header: "load_header sample_file 0 132 2 = Inr (take 32 sample_file)" "le32 (take 32 sample_file) 16 = 2"
  "le32 (take 32 sample_file) 20 = 96" "length sample_file = 132" 
  by code_simp+

lemma sample_map:
  assumes "gm_pages m = []"
  obtains m' where "gm_map m 0x100000000 0x4000 5 5 False False True = (GM_OK, m')"
    "gm_pages m' = [gm_new_page 0x100000000 5 5 False]"
  using that assms by (simp add: gm_map_def gm_range_def gm_lower_def gm_bisect.simps Let_def)

lemma sample_page_range: "in_range 0x100000000 0x4000 x \<longleftrightarrow> page_base x = 0x100000000"
  using page_base_eq_iff [of "0x100000000" x] by (subst in_range_iff) (auto simp: page_aligned_iff)

lemma sample_allowed:
  assumes "gm_attr m x = Some (5, 5, False)" and "permission = 0 \<or> permission = GM_READ"
  shows "gm_allowed m None permission x"
  using assms by (auto simp: gm_allowed_attr gm_page_denied_def gm_jit_denied_def)

lemma sample_loads: "\<exists>img'. load sample_file all_allocated MH_EXECUTE = Inr img' \<and> gi_segments img' = [sample_segment]"
proof -
  obtain l where cl: "command_loop 2 sample_file all_allocated 0 132 128 0 32 (load_start (take 32 sample_file) 0 132) = Inr (128, l)"
    and l: "ld_have_text l" "ld_have_entry l" "ld_entry_offset l = 128" "ld_header_address l = 0x100000000"
      "\<not> ld_init_offsets l" "ld_init_size l = 0" "gi_segments (ld_image l) = [sample_segment]"
      "gi_export_size (ld_image l) = 0" "gi_first_initializer (ld_image l) = 0" "gi_mapped_size (ld_image l) = 0"
    using sample_commands by (auto split: sum.splits)
  have "loading_ok 0 132 (load_start (take 32 sample_file) 0 132)" by (simp add: loading_ok_def load_start_def gi_zero_def)
  then have "loading_ok 0 132 l" by (rule command_loop_ok [OF cl])
  then have mem: "gm_pages (gi_memory (ld_image l)) = []" by (simp add: loading_ok_def gi_zero_def)
  obtain m1 where m1: "gm_map (gi_memory (ld_image l)) 0x100000000 0x4000 5 5 False False True = (GM_OK, m1)"
    "gm_pages m1 = [gm_new_page 0x100000000 5 5 False]" by (rule sample_map [OF mem])
  have wf1: "gm_wf m1"
    by (simp add: gm_wf_def gm_sorted_def m1(2) gm_new_page_def gm_page_ok_def page_aligned_def)
  have attr1: "gm_attr m1 x = Some (5, 5, False)" if "in_range 0x100000000 0x4000 x" for x
    using that by (simp add: sample_page_range gm_attr_def gm_page_at_def gm_tab_def m1(2) gm_new_page_def)
  obtain r m2 where p: "gm_populate m1 0x100000000 (Some sample_file) 132 (\<lambda>_. True) = (r, m2)" by fastforce
  have "in_range 0x100000000 0x4000 x" if "in_range 0x100000000 132 x" for x
    using that by (simp add: in_range_def)
  then have "r = GM_OK"
    using p gm_copy_write(8) [OF wf1, of 132 sample_file None "0x100000000" 0 "\<lambda>_. True" r m2] sample_header(4)
      sample_allowed [OF attr1, of _ 0]
    by (auto simp: gm_populate_def split: prod.splits)
  have rd: "read_at sample_file 0 132 = Some sample_file" using sample_header(4) by (simp add: read_at_def)
  have pf: "populate_file sample_file 0 (al_pages all_allocated) sample_segment 0 m1 = Inr m2"
    using p rd \<open>r = GM_OK\<close>
    by (simp add: populate_file.simps [of sample_file] sample_segment_def block_size_def all_allocated_def)
  let ?img2 = "(ld_image l)\<lparr>gi_memory := m2, gi_mapped_size := 0x4000, gi_file_backed_size := gi_file_backed_size (ld_image l) + 132\<rparr>"
  have ms: "map_segments sample_file 0 MH_EXECUTE all_allocated [] [sample_segment] (ld_image l) = Inr ?img2"
    using m1(1) pf l(10) by (simp add: map_segment_def sample_segment_def all_allocated_def)
  have "holds_segments sample_file 0 [] (gi_memory (ld_image l))"
    by (simp add: holds_segments_def mem gm_wf_def gm_sorted_def gm_attr_def gm_page_at_def gm_tab_def)
  then have h: "holds_segments sample_file 0 [sample_segment] m2"
    using map_segments_spec [OF ms] l(10) sample_header(4) by (simp add: segment_ok_def sample_segment_def)
  let ?img3 = "?img2\<lparr>gi_entry := 0x100000080\<rparr>"
  have en: "load_entry (l\<lparr>ld_image := ?img2\<rparr>) = Inr ?img3"
    using l by (simp add: load_entry_def entry_in_def sample_segment_def within_def)
  obtain img4 where ini: "load_initializers all_allocated l ?img3 = Inr img4" and mem4: "gi_memory img4 = m2"
      "gi_header_address img4 = 0x100000000" "gi_segments img4 = [sample_segment]"
    using l by (simp add: load_initializers_def)
  obtain q m5 b where hd: "gm_read m2 0x100000000 (Some (replicate 32 0)) 32 = (q, m5, b)" by (metis prod_cases3)
  have wf2: "gm_wf m2" using h by (simp add: holds_segments_def)
  have at: "gm_attr m2 x = Some (5, 5, False) \<and> gm_byte m2 x = segment_byte sample_file 0 sample_segment x"
    if "in_range 0x100000000 32 x" for x
    using that h by (simp add: holds_segments_def placed_def seg_range_def in_range_def sample_segment_def)
  note rs = gm_copy_read [OF wf2 _ hd [unfolded gm_read_def]]
  have q: "q = GM_OK" using rs(2) sample_allowed [of m2 _ GM_READ] at by simp
  have "gm_byte m2 (0x100000000 + of_nat i) = sample_file ! i" if "i < 32" for i
    using that at [of "0x100000000 + of_nat i"]
    by (simp add: in_range_def segment_byte_def sample_segment_def unat_of_nat)
  then have "b = Some (take 32 sample_file)"
    using rs(3) q sample_header(4) by (auto intro!: nth_equalityI)
  then have ch: "check_header (take 32 sample_file) img4 = Inr (img4\<lparr>gi_memory := m5\<rparr>)"
    using hd q mem4 by (simp add: check_header_def)
  have ex: "load_exports sample_file 0 all_allocated l = Inr (ld_image l)" using l by (simp add: load_exports_def Let_def)
  have "load sample_file all_allocated MH_EXECUTE = Inr (img4\<lparr>gi_memory := m5\<rparr>)"
    using cl l ex ms en ini ch by (simp add: load_def sample_slice sample_header)
  then show ?thesis using mem4(3) by simp
qed


end
