(* ===== verification/GuestExportLaws.thy ===== *)
theory GuestExportLaws
  imports GuestImage "HOL-Library.Sublist"
begin

text \<open>
  The export trie. A trie is a payload and labelled edges; \<open>trie_at\<close> says that the bytes at a position
  encode a trie the way linkers write it, with sizes and child offsets as variable length
  integers. The search of the loader over the bytes is shown to be the search in the trie.
\<close>

section \<open>Variable length integers\<close>

function uleb_bytes :: "u64 \<Rightarrow> u8 list" where
  "uleb_bytes w = (if drop_bit 7 w = 0 then [ucast w] else (ucast w OR 128) # uleb_bytes (drop_bit 7 w))"
  by pat_completeness auto
termination
proof (relation "measure unat", goal_cases)
  case (2 w)
  then have "w \<noteq> 0" by auto
  moreover have "unat (drop_bit 7 w) = unat w div 128" by (simp add: drop_bit_eq_div unat_div)
  ultimately show ?case by (simp add: unat_gt_0)
qed simp

declare uleb_bytes.simps [simp del]

text \<open>A list stands at a position of another.\<close>

definition bytes_at :: "u8 list \<Rightarrow> nat \<Rightarrow> u8 list \<Rightarrow> bool" where
  "bytes_at bs i xs \<longleftrightarrow> i + length xs \<le> length bs \<and> (\<forall>j < length xs. bs ! (i + j) = xs ! j)"

lemma bytes_at_append: "bytes_at bs i (xs @ ys) \<longleftrightarrow> bytes_at bs i xs \<and> bytes_at bs (i + length xs) ys"
proof -
  have "(\<forall>j < length xs + length ys. bs ! (i + j) = (xs @ ys) ! j) \<longleftrightarrow>
      (\<forall>j < length xs. bs ! (i + j) = xs ! j) \<and> (\<forall>j < length ys. bs ! (i + length xs + j) = ys ! j)"
    (is "?l = (?a \<and> ?b)")
  proof
    assume l: ?l
    have ?a using l by (simp add: nth_append)
    moreover have ?b using l [rule_format, of "length xs + _"] by (simp add: nth_append add.assoc)
    ultimately show "?a \<and> ?b" by simp
  next
    assume r: "?a \<and> ?b"
    show ?l
    proof (intro allI impI)
      fix j assume "j < length xs + length ys"
      then show "bs ! (i + j) = (xs @ ys) ! j"
        using r [THEN conjunct1, rule_format, of j] r [THEN conjunct2, rule_format, of "j - length xs"]
        by (cases "j < length xs") (simp_all add: nth_append)
    qed
  qed
  then show ?thesis by (auto simp: bytes_at_def)
qed

lemma bytes_at_Cons: "bytes_at bs i (x # xs) \<longleftrightarrow> i < length bs \<and> bs ! i = x \<and> bytes_at bs (Suc i) xs"
  using bytes_at_append [of bs i "[x]" xs] by (auto simp: bytes_at_def)

lemma u8_and:
  "(b :: u8) AND 128 = 0 \<longleftrightarrow> \<not> bit b 7" "b AND 127 = take_bit 7 b" "b AND 254 = 0 \<longleftrightarrow> (\<forall>k. 0 < k \<longrightarrow> \<not> bit b k)"
proof -
  show "b AND 128 = 0 \<longleftrightarrow> \<not> bit b 7" using and_exp_eq_0_iff_not_bit [of b 7] by simp
  show "b AND 127 = take_bit 7 b" by (simp add: take_bit_eq_mask mask_eq_exp_minus_1)
  have E: "bit (254 :: u8) k \<longleftrightarrow> 0 < k \<and> k < 8" for k
  proof -
    have "(254 :: u8) = push_bit 1 (mask 7)" by code_simp
    then show ?thesis by (simp only: bit_push_bit_iff bit_mask_iff) auto
  qed
  have "b AND 254 = 0 \<longleftrightarrow> (\<forall>k. \<not> (bit b k \<and> bit (254 :: u8) k))"
    by (simp only: bit_eq_iff bit_and_iff bit_0_eq bot_fun_def) simp
  then show "b AND 254 = 0 \<longleftrightarrow> (\<forall>k. 0 < k \<longrightarrow> \<not> bit b k)"
    using bit_imp_le_length [of b] by (simp only: E) auto
qed

text \<open>Reading what was written: \<open>shift\<close> is the number of bits read before.\<close>

lemma uleb_loop_bytes:
  assumes "bytes_at bs cur (uleb_bytes w)" and "e \<le> length bs" and "cur + length (uleb_bytes w) \<le> e"
    and "shift \<le> 63" and "shift mod 7 = 0" and "\<forall>k. bit w k \<longrightarrow> k + shift < 64"
  shows "uleb_loop bs e shift cur v = Some (v OR push_bit shift w, cur + length (uleb_bytes w))"
  using assms
proof (induction w arbitrary: cur shift v rule: uleb_bytes.induct)
  case (1 w)
  show ?case
  proof (cases "drop_bit 7 w = 0")
    case True
    have low: "\<not> bit w k" if "7 \<le> k" for k
      using arg_cong [OF True, of "\<lambda>x. bit x (k - 7)"] that by (simp add: bit_drop_bit_eq)
    have u: "uleb_bytes w = [ucast w]" using True by (simp add: uleb_bytes.simps [of w])
    have b: "cur < e" "bs ! cur = ucast w" using 1(2,4) u by (auto simp: bytes_at_Cons)
    have "\<not> bit (ucast w :: u8) 7" using low by (simp add: bit_ucast_iff)
    moreover have "ucast (take_bit 7 (ucast w :: u8)) = w"
      using low by (intro bit_word_eqI) (fastforce simp: bit_ucast_iff bit_take_bit_iff not_less [symmetric])
    moreover have "(ucast w :: u8) AND 254 = 0" if "shift = 63"
      using 1(7) that by (auto simp: u8_and(3) bit_ucast_iff)
    ultimately show ?thesis using 1(5) b u by (simp add: uleb_loop.simps [of bs e shift cur] u8_and(1,2) Let_def)
  next
    case False
    have u: "uleb_bytes w = (ucast w OR 128) # uleb_bytes (drop_bit 7 w)" using False by (simp add: uleb_bytes.simps [of w])
    have b: "cur < e" "bs ! cur = ucast w OR 128" "bytes_at bs (Suc cur) (uleb_bytes (drop_bit 7 w))"
      using 1(2,4) u by (auto simp: bytes_at_Cons)
    obtain k where k: "bit w (k + 7)"
      using False by (auto simp: bit_eq_iff bit_drop_bit_eq add.commute)
    then have sh: "shift < 57" using 1(7) by fastforce
    have b128: "bit (128 :: u8) k \<longleftrightarrow> k = 7" for k using bit_exp_iff [of 7 k, where 'a = "8 word"] by auto
    have hi: "bit (ucast w OR 128 :: u8) 7" by (simp add: bit_or_iff b128)
    have sh2: "shift + 7 \<le> 63" using sh 1(6) by presburger
    have bits: "\<forall>k. bit w (k + 7) \<longrightarrow> k + shift < 57"
    proof (intro allI impI)
      fix k assume "bit w (k + 7)"
      then have "k + 7 + shift < 64" using 1(7) by blast
      then show "k + shift < 57" by simp
    qed
    have ih: "uleb_loop bs e (shift + 7) (Suc cur) v' =
        Some (v' OR push_bit (shift + 7) (drop_bit 7 w), Suc cur + length (uleb_bytes (drop_bit 7 w)))" for v'
      using 1(1) [OF False b(3) 1(3) _ sh2] 1(4,6) bits u by (auto simp: bit_drop_bit_eq add.commute)
    have join: "(v OR push_bit shift (ucast (take_bit 7 (ucast w OR 128 :: u8)))) OR push_bit (shift + 7) (drop_bit 7 w) =
        v OR push_bit shift w"
    proof (rule bit_word_eqI)
      fix n assume "n < LENGTH(64)"
      show "bit ((v OR push_bit shift (ucast (take_bit 7 (ucast w OR 128 :: u8)))) OR push_bit (shift + 7) (drop_bit 7 w)) n =
          bit (v OR push_bit shift w) n"
        using \<open>n < LENGTH(64)\<close>
        by (cases "shift + 7 \<le> n")
          (auto simp: bit_or_iff bit_push_bit_iff bit_ucast_iff bit_take_bit_iff bit_drop_bit_eq b128)
    qed
    show ?thesis
      using sh b hi ih u join by (simp add: uleb_loop.simps [of bs e shift cur] u8_and(1,2) Let_def)
  qed
qed

lemma export_uleb_bytes:
  assumes "bytes_at bs cur (uleb_bytes w)" and "e \<le> length bs" and "cur + length (uleb_bytes w) \<le> e"
  shows "export_uleb bs e cur = Some (w, cur + length (uleb_bytes w))"
  using uleb_loop_bytes [OF assms, of 0 0] bit_imp_le_length [of w] by (simp add: export_uleb_def)

section \<open>Tries\<close>

datatype trie = Trie (payload: "u8 list") (edges: "(u8 list \<times> trie) list")

text \<open>The search: the payload where the symbol ends, otherwise the first edge whose label the symbol
  starts with.\<close>

definition edge_matches :: "string \<Rightarrow> u8 list \<times> trie \<Rightarrow> bool" where
  "edge_matches symbol edge \<longleftrightarrow> prefix (c_string (fst edge)) symbol"

function trie_lookup :: "trie \<Rightarrow> string \<Rightarrow> u8 list option" where
  "trie_lookup (Trie p es) symbol =
     (if symbol = [] \<and> p \<noteq> [] then Some p
      else case find (edge_matches symbol) es of
        None \<Rightarrow> None
      | Some (label, t) \<Rightarrow> trie_lookup t (drop (length label) symbol))"
  by pat_completeness auto
termination
proof (relation "measure (\<lambda>(t, symbol). size t)", goal_cases)
  case (2 p es symbol edge label t)
  then have "(label, t) \<in> set es" by (metis find_Some_iff nth_mem prod.collapse prod.inject)
  then have "size t < size_list (size_prod (\<lambda>x. 0) size) es"
    by (induction es) auto
  then show ?case by simp
qed simp

declare trie_lookup.simps [simp del]

text \<open>Steps of a search: no more than the height.\<close>

fun trie_height :: "trie \<Rightarrow> nat" where
  "trie_height (Trie p es) = Suc (foldr max (map (\<lambda>(l, t). trie_height t) es) 0)"

lemma foldr_max_ge: "n \<in> set ns \<Longrightarrow> n \<le> foldr max ns (0 :: nat)"
  by (induction ns) auto

text \<open>The encoding: the size of the payload, the payload, the number of edges, and for every edge its
  label, a zero and the position of the child. Labels hold no zero, and no two of them start
  with the same byte.\<close>

definition edge_bytes :: "u8 list \<times> nat \<Rightarrow> u8 list" where
  "edge_bytes le = fst le @ [0] @ uleb_bytes (of_nat (snd le))"

definition labels_ok :: "u8 list list \<Rightarrow> bool" where
  "labels_ok ls \<longleftrightarrow> (\<forall>l \<in> set ls. 0 \<notin> set l) \<and> distinct (map hd (filter (\<lambda>l. l \<noteq> []) ls))"

inductive trie_at :: "u8 list \<Rightarrow> nat \<Rightarrow> trie \<Rightarrow> bool" for bs where
  node: "bytes_at bs i (uleb_bytes (of_nat (length p)) @ p @ [of_nat (length es)] @
      concat (map edge_bytes (zip (map fst es) offs))) \<Longrightarrow>
    length es < 256 \<Longrightarrow> labels_ok (map fst es) \<Longrightarrow> length offs = length es \<Longrightarrow>
    (\<forall>(edge, off) \<in> set (zip es offs). off < length bs \<and> trie_at bs off (snd edge)) \<Longrightarrow>
    trie_at bs i (Trie p es)"
monos conj_mono

inductive_cases trie_atE: "trie_at bs i (Trie p es)"

section \<open>Edges\<close>

lemma bytes_at_drop: "bytes_at bs i xs \<Longrightarrow> drop i bs = xs @ drop (i + length xs) bs"
  by (rule nth_equalityI) (auto simp: bytes_at_def nth_append add.commute)

lemma char_of_u8_inject: "(char_of (unat a) :: char) = char_of (unat b) \<longleftrightarrow> a = (b :: u8)"
proof
  assume "(char_of (unat a) :: char) = char_of (unat b)"
  then have "unat a mod 256 = unat b mod 256" by (metis of_char_of)
  moreover have "unat a < 256" "unat b < 256" using unsigned_less [where 'a = nat, of a] unsigned_less [where 'a = nat, of b] by simp_all
  ultimately have "unat a = unat b" by simp
  then show "a = b" by (simp add: word_unat_eq_iff)
qed simp

lemma c_string_label: "0 \<notin> set l \<Longrightarrow> c_string l = map (char_of \<circ> unat) l"
  by (induction l) (auto simp: c_string_def)

lemma label_matches:
  assumes "0 \<notin> set l"
  shows "length l \<le> length symbol \<and> c_string l = take (length l) symbol \<longleftrightarrow> prefix (c_string l) symbol"
proof -
  have "length (c_string l) = length l" using assms by (simp add: c_string_label)
  then show ?thesis by (metis prefix_def take_is_prefix prefix_length_le append_eq_conv_conj)
qed

lemma edge_label_bytes:
  assumes "bytes_at bs cur (l @ [0])" and "0 \<notin> set l"
  shows "edge_label bs (length bs) cur = Some l"
proof -
  have T: "take (length bs - cur) (drop cur bs) = l @ 0 # drop (cur + length (l @ [0])) bs"
    using bytes_at_drop [OF assms(1)] by (simp only: length_drop [symmetric] take_all order_refl) simp
  have W: "takeWhile (\<lambda>b. b \<noteq> 0) (l @ 0 # ys) = l" for ys
    using assms(2) by (induction l) auto
  show ?thesis unfolding edge_label_def Let_def T W by simp
qed

lemma matching_hd:
  assumes "prefix (c_string l) symbol" "prefix (c_string k) symbol" "0 \<notin> set l" "0 \<notin> set k" "l \<noteq> []" "k \<noteq> []"
  shows "hd l = hd k"
proof -
  have "hd (c_string l) = hd symbol" "hd (c_string k) = hd symbol"
    using assms(3-6) hd_append2 [of "c_string l"] hd_append2 [of "c_string k"] assms(1,2)
    by (metis prefix_def c_string_label map_is_Nil_conv)+
  then have "char_of (unat (hd l)) = (char_of (unat (hd k)) :: char)"
    using assms(3-6) by (simp add: c_string_label hd_map)
  then show ?thesis by (rule char_of_u8_inject [THEN iffD1])
qed

text \<open>The loop over the edges returns the first match of a well-formed list of edges.\<close>

lemma export_edges_bytes:
  assumes "bytes_at bs cur (concat (map edge_bytes es))" and "labels_ok (map fst es)" and "length bs < 2 ^ 64"
    and "\<forall>(l, off) \<in> set es. off < length bs"
    and "labelled \<longrightarrow> (\<forall>l \<in> set (map fst es). l \<noteq> [] \<longrightarrow> \<not> prefix (c_string l) symbol)"
  shows "export_edges (length es) bs (length bs) cur symbol labelled found =
    Inr (case found of Some x \<Rightarrow> Some x
      | None \<Rightarrow> map_option (\<lambda>(l, off). (of_nat off, length l)) (find (\<lambda>(l, off). prefix (c_string l) symbol) es))"
  using assms
proof (induction es arbitrary: cur labelled found)
  case Nil
  then show ?case by (simp split: option.split)
next
  case (Cons edge es)
  obtain l off where edge: "edge = (l, off)" by fastforce
  have at: "bytes_at bs cur (l @ [0])" "bytes_at bs (cur + length l + 1) (uleb_bytes (of_nat off))"
      "bytes_at bs (cur + length l + 1 + length (uleb_bytes (of_nat off))) (concat (map edge_bytes es))"
  proof -
    have "bytes_at bs cur ((l @ [0]) @ uleb_bytes (of_nat off) @ concat (map edge_bytes es))"
      using Cons.prems(1) edge_bytes_def [of edge] by (simp add: edge)
    then show "bytes_at bs cur (l @ [0])" "bytes_at bs (cur + length l + 1) (uleb_bytes (of_nat off))"
      "bytes_at bs (cur + length l + 1 + length (uleb_bytes (of_nat off))) (concat (map edge_bytes es))"
      unfolding bytes_at_append [of bs cur "l @ [0]"] bytes_at_append [of bs _ "uleb_bytes (of_nat off)"] by simp_all
  qed
  have l: "0 \<notin> set l" using Cons.prems(2) by (simp add: labels_ok_def edge)
  have off: "off < length bs" using Cons.prems(4) by (simp add: edge)
  have u: "export_uleb bs (length bs) (cur + length l + 1) = Some (of_nat off, cur + length l + 1 + length (uleb_bytes (of_nat off)))"
    by (rule export_uleb_bytes [OF at(2) order_refl]) (use at(2) in \<open>simp add: bytes_at_def\<close>)
  have small: "\<not> of_nat (length bs) \<le> (of_nat off :: u64)"
    using off Cons.prems(3) by (simp add: word_le_nat_alt unat_of_nat_u64)
  let ?m = "prefix (c_string l) symbol"
  have amb: "\<not> (?m \<and> l \<noteq> [] \<and> labelled)" using Cons.prems(5) by (auto simp: edge)
  have rest: "labelled \<or> ?m \<and> l \<noteq> [] \<longrightarrow> (\<forall>k \<in> set (map fst es). k \<noteq> [] \<longrightarrow> \<not> prefix (c_string k) symbol)"
  proof (intro impI ballI notI)
    fix k assume h: "labelled \<or> ?m \<and> l \<noteq> []" "k \<in> set (map fst es)" "k \<noteq> []" "prefix (c_string k) symbol"
    have m: "?m" "l \<noteq> []" using Cons.prems(5) h by (auto simp: edge)
    have "0 \<notin> set k" using Cons.prems(2) h(2) by (auto simp: labels_ok_def)
    then have "hd l = hd k" by (rule matching_hd [OF m(1) h(4) l _ m(2) h(3)])
    then show False using Cons.prems(2) h(2,3) m(2) by (auto simp: labels_ok_def edge image_iff)
  qed
  have ih: "export_edges (length es) bs (length bs) (cur + length l + 1 + length (uleb_bytes (of_nat off))) symbol
      (labelled \<or> ?m \<and> l \<noteq> []) found' =
    Inr (case found' of Some x \<Rightarrow> Some x
      | None \<Rightarrow> map_option (\<lambda>(l, off). (of_nat off, length l)) (find (\<lambda>(l, off). prefix (c_string l) symbol) es))" for found'
    using Cons.prems(2-4) rest
    by (intro Cons.IH [OF at(3)]) (auto simp: labels_ok_def edge split: if_splits)
  show ?case
    using u small amb ih edge_label_bytes [OF at(1) l] label_matches [OF l, of symbol]
    by (auto simp: edge Let_def split: option.splits)
qed

section \<open>The search\<close>

text \<open>A payload is read the same wherever it stands.\<close>

lemma uleb_loop_shift:
  assumes "bytes_at bs c p"
  shows "uleb_loop bs (c + length p) shift (c + k) v = map_option (\<lambda>(w, i). (w, c + i)) (uleb_loop p (length p) shift k v)"
  using assms
proof (induction p "length p" shift k v rule: uleb_loop.induct)
  case (1 p shift k v)
  show ?case
  proof (cases "shift \<le> 63 \<and> k < length p")
    case False
    then show ?thesis by (auto simp: uleb_loop.simps [of bs] uleb_loop.simps [of p])
  next
    case True
    then have nth: "bs ! (c + k) = p ! k" using 1(2) by (simp add: bytes_at_def)
    show ?thesis
    proof (cases "\<not> (shift = 63 \<and> p ! k AND 0xfe \<noteq> 0) \<and> p ! k AND 128 \<noteq> 0")
      case t: True
      have "uleb_loop bs (c + length p) (shift + 7) (c + Suc k) (v OR push_bit shift (ucast (p ! k AND 127))) =
          map_option (\<lambda>(w, i). (w, c + i)) (uleb_loop p (length p) (shift + 7) (Suc k) (v OR push_bit shift (ucast (p ! k AND 127))))"
        by (rule 1(1) [OF True refl _ refl _ 1(2)]) (use t in auto)
      then show ?thesis
        using True t nth by (auto simp: uleb_loop.simps [of bs _ shift "c + k"] uleb_loop.simps [of p _ shift k] Let_def)
    next
      case False
      then show ?thesis
        using True nth by (auto simp: uleb_loop.simps [of bs _ shift "c + k"] uleb_loop.simps [of p _ shift k] Let_def)
    qed
  qed
qed

lemma export_uleb_shift:
  "bytes_at bs c p \<Longrightarrow>
   export_uleb bs (c + length p) (c + k) = map_option (\<lambda>(w, i). (w, c + i)) (export_uleb p (length p) k)"
  unfolding export_uleb_def by (rule uleb_loop_shift)

lemma take_drop_shift:
  assumes "bytes_at bs c p"
  shows "take (length p - k) (drop (c + k) bs) = take (length p - k) (drop k p)"
proof (cases "k \<le> length p")
  case True
  have "drop (c + k) bs = drop k (drop c bs)" by (simp add: add.commute)
  also have "\<dots> = drop k p @ drop (c + length p) bs" using bytes_at_drop [OF assms] True by simp
  finally show ?thesis using True by simp
qed simp

lemma export_terminal_shift:
  assumes "bytes_at bs c p"
  shows "export_terminal img bs c (c + length p) = export_terminal img p 0 (length p)"
proof -
  note u = export_uleb_shift [OF assms]
  have r: "export_reexport img bs (c + k) (c + length p) = export_reexport img p k (length p)" for k
    unfolding export_reexport_def u by (auto simp: take_drop_shift [OF assms] Let_def split: option.splits)
  have a: "export_address img bs (c + k) (c + length p) flags = export_address img p k (length p) flags" for k flags
    unfolding export_address_def u by (auto simp: Let_def split: option.splits)
  show ?thesis
    using u [of 0] unfolding export_terminal_def by (auto simp: r a split: option.splits)
qed

lemma find_zip:
  "length offs = length es \<Longrightarrow>
   find (\<lambda>(l, off). P l) (zip (map fst es) offs) = map_option (\<lambda>(e, off). (fst e, off)) (find (\<lambda>(e, off). P (fst e)) (zip es offs)) \<and>
   find (\<lambda>e. P (fst e)) es = map_option fst (find (\<lambda>(e, off). P (fst e)) (zip es offs))"
  by (induction offs es rule: list_induct2) auto

definition lookup_answer :: "GuestImage \<Rightarrow> u8 list option \<Rightarrow> export_answer" where
  "lookup_answer img found =
     (case found of None \<Rightarrow> (GI_EXPORT_MISSING, ge_zero, []) | Some p \<Rightarrow> export_terminal img p 0 (length p))"

lemma export_walk_trie:
  assumes "trie_at bs node t" and "node < length bs" and "length bs < 2 ^ 64" and "trie_height t \<le> steps"
  shows "export_walk steps img bs (length bs) (of_nat node) symbol = lookup_answer img (trie_lookup t symbol)"
  using assms
proof (induction steps arbitrary: node t symbol)
  case 0
  then show ?case by (cases t) simp
next
  case (Suc steps)
  obtain p es where t: "t = Trie p es" by (cases t)
  obtain offs where at: "bytes_at bs node (uleb_bytes (of_nat (length p)) @ p @ [of_nat (length es)] @
      concat (map edge_bytes (zip (map fst es) offs)))" and es: "length es < 256" "labels_ok (map fst es)" "length offs = length es"
    and children: "\<forall>(edge, off) \<in> set (zip es offs). off < length bs \<and> trie_at bs off (snd edge)"
    using Suc.prems(1) unfolding t by (rule trie_atE) (rule that, simp_all)
  define c where "c = node + length (uleb_bytes (of_nat (length p)))"
  have b: "bytes_at bs node (uleb_bytes (of_nat (length p)))" "bytes_at bs c p" "c + length p < length bs"
      "bs ! (c + length p) = of_nat (length es)" "bytes_at bs (Suc (c + length p)) (concat (map edge_bytes (zip (map fst es) offs)))"
    using at unfolding bytes_at_append by (simp_all add: c_def bytes_at_Cons add.assoc)
  have ns: "unat (of_nat node :: u64) = node" "\<not> of_nat (length bs) \<le> (of_nat node :: u64)"
    using Suc.prems(2,3) by (simp_all add: unat_of_nat_u64 word_le_nat_alt)
  have u: "export_uleb bs (length bs) node = Some (of_nat (length p), c)"
    unfolding c_def by (rule export_uleb_bytes [OF b(1) order_refl]) (use b(1) in \<open>simp add: bytes_at_def\<close>)
  have sz: "unat (of_nat (length p) :: u64) = length p" "\<not> of_nat (length bs - c) < (of_nat (length p) :: u64)"
  proof -
    show p: "unat (of_nat (length p) :: u64) = length p" using b(3) Suc.prems(3) by (intro unat_of_nat_u64) simp
    have "unat (of_nat (length bs - c) :: u64) = length bs - c" using Suc.prems(3) by (intro unat_of_nat_u64) simp
    then show "\<not> of_nat (length bs - c) < (of_nat (length p) :: u64)"
      using b(3) unfolding word_less_nat_alt p by simp
  qed
  have zero: "(of_nat (length p) :: u64) = 0 \<longleftrightarrow> p = []"
  proof
    assume "(of_nat (length p) :: u64) = 0"
    then have "length p = unat (0 :: u64)" using sz(1) by (simp only:)
    then show "p = []" by simp
  qed simp
  show ?case
  proof (cases "symbol = [] \<and> p \<noteq> []")
    case True
    then show ?thesis
      using ns u sz zero export_terminal_shift [OF b(2)] by (simp add: t lookup_answer_def trie_lookup.simps)
  next
    case False
    have cnt: "unat (bs ! (c + length p)) = length (zip (map fst es) offs)" using b(4) es(1,3) by (simp add: unat_of_nat)
    have offs: "\<forall>(l, off) \<in> set (zip (map fst es) offs). off < length bs"
      using children by (fastforce simp: zip_map1)
    have lab: "labels_ok (map fst (zip (map fst es) offs))" using es(2,3) by simp
    note ed = export_edges_bytes [OF b(5) lab Suc.prems(3) offs, of False symbol None]
    let ?f = "find (\<lambda>(e, off). prefix (c_string (fst e)) symbol) (zip es offs)"
    note fz = find_zip [OF es(3), of "\<lambda>l. prefix (c_string l) symbol"]
    have walk: "export_walk (Suc steps) img bs (length bs) (of_nat node) symbol =
        (case ?f of None \<Rightarrow> (GI_EXPORT_MISSING, ge_zero, [])
         | Some (edge, off) \<Rightarrow> export_walk steps img bs (length bs) (of_nat off) (drop (length (fst edge)) symbol))"
      using False ns u sz zero b(3) cnt ed fz by (auto simp: Let_def split: option.splits)
    have look: "trie_lookup t symbol = (case ?f of None \<Rightarrow> None
        | Some (edge, off) \<Rightarrow> trie_lookup (snd edge) (drop (length (fst edge)) symbol))"
    proof -
      have em: "edge_matches symbol = (\<lambda>e. prefix (c_string (fst e)) symbol)" by (rule ext) (simp add: edge_matches_def)
      have "trie_lookup t symbol = (case find (edge_matches symbol) es of None \<Rightarrow> None
          | Some (label, t) \<Rightarrow> trie_lookup t (drop (length label) symbol))"
        unfolding t trie_lookup.simps if_not_P [OF False] ..
      then show ?thesis unfolding em fz [THEN conjunct2] by (cases ?f) (simp_all add: case_prod_unfold)
    qed
    show ?thesis
    proof (cases ?f)
      case None
      then show ?thesis using walk look by (simp add: lookup_answer_def)
    next
      case (Some q)
      obtain edge off where q: "q = (edge, off)" by fastforce
      have mem: "(edge, off) \<in> set (zip es offs)" using Some q by (metis find_Some_iff nth_mem)
      then have ch: "off < length bs" "trie_at bs off (snd edge)" using children by auto
      have "edge \<in> set es" using mem by (auto dest: set_zip_leftD)
      then have "trie_height (snd edge) \<le> foldr max (map (\<lambda>(l, t). trie_height t) es) 0"
        by (intro foldr_max_ge) (auto simp: image_iff case_prod_unfold)
      then have "trie_height (snd edge) \<le> steps" using Suc.prems(4) t by simp
      then show ?thesis using Suc.IH [OF ch(2,1) Suc.prems(3)] walk look Some q by simp
    qed
  qed
qed

section \<open>Properties\<close>

text \<open>C15. Looking a symbol up in the bytes of an export trie is looking it up in the trie they encode: the
  answer is the decoded payload of the node the symbol leads to, or that it is missing, and
  malformed-trie errors and the traversal budget play no part.\<close>

theorem gi_export_refines_trie:
  assumes "gi_exports img = Some bs" and "length bs = unat (gi_export_size img)" and "trie_at bs 0 t"
    and "trie_height t \<le> 8192" and "symbol \<noteq> []" and "length symbol \<le> length bs"
  shows "gi_export img (Some symbol) True = lookup_answer img (trie_lookup t symbol)"
proof -
  have pos: "0 < length bs" using assms(5,6) by (cases symbol) auto
  then have "gi_export_size img \<noteq> 0" using assms(2) by auto
  moreover have "length bs < 2 ^ 64" using assms(2) unsigned_less [where 'a = nat, of "gi_export_size img"] by simp
  ultimately show ?thesis
    using export_walk_trie [OF assms(3) pos, of "length symbol + 8192" img symbol] assms
    by (simp add: gi_export_def)
qed

text \<open>A trie that exports \<open>_f\<close> at offset 16.\<close>

definition sample_trie :: trie where
  "sample_trie = Trie [] [([95, 102], Trie [0, 16] [])]"

definition sample_trie_bytes :: "u8 list" where
  "sample_trie_bytes = [0, 1, 95, 102, 0, 6, 2, 0, 16, 0]"

definition sample_exporter :: GuestImage where
  "sample_exporter = gi_zero\<lparr>gi_exports := Some sample_trie_bytes, gi_export_size := 10, gi_header_address := 0x100000000,
     gi_segments := [\<lparr>gs_name = ''__TEXT'', gs_address = 0x100000000, gs_size = 0x4000, gs_file_offset = 0,
       gs_file_size = 132, gs_prot = 5, gs_maxprot = 5\<rparr>]\<rparr>"

lemma sample_trie_at: "trie_at sample_trie_bytes 0 sample_trie"
proof -
  have u: "uleb_bytes 0 = [0]" "uleb_bytes 2 = [2]" "uleb_bytes 6 = [6]" by (simp_all add: uleb_bytes.simps)
  have leaf: "trie_at sample_trie_bytes 6 (Trie [0, 16] [])"
    by (rule trie_at.node [of _ _ _ _ "[]"]) (simp_all add: u bytes_at_Cons sample_trie_bytes_def bytes_at_def [of _ _ "[]"] labels_ok_def)
  show ?thesis
    unfolding sample_trie_def
    by (rule trie_at.node [of _ _ _ _ "[6]"])
      (simp_all add: u leaf bytes_at_Cons edge_bytes_def bytes_at_def [of _ _ "[]"] labels_ok_def, simp_all add: sample_trie_bytes_def)
qed

theorem gi_export_refines_trie_witness:
  "\<exists>out. gi_export sample_exporter (Some ''_f'') True = (GI_EXPORT_FOUND, out, []) \<and> ge_address out = 0x100000010"
proof -
  have l: "trie_lookup sample_trie ''_f'' = Some [0, 16]"
    by code_simp
  have e: "\<exists>out. lookup_answer sample_exporter (Some [0, 16]) = (GI_EXPORT_FOUND, out, []) \<and> ge_address out = 0x100000010"
    by (simp add: lookup_answer_def export_terminal_def export_uleb_def uleb_loop.simps export_address_def
        in_placed_segment_def sample_exporter_def gi_zero_def ge_zero_def Let_def)
  have "gi_export sample_exporter (Some ''_f'') True = lookup_answer sample_exporter (trie_lookup sample_trie ''_f'')"
    by (rule gi_export_refines_trie [OF _ _ sample_trie_at])
      (simp_all add: sample_exporter_def sample_trie_bytes_def sample_trie_def)
  then show ?thesis using l e by simp
qed

end
