(* ===== verification/GuestFixups.thy ===== *)
theory GuestFixups
  imports GuestImage
begin

text \<open>
  The relocations of \<open>runtime/GuestFixups.c\<close>: the rebase and bind opcode streams and the chained fixups
  of an image, applied to its memory.

  The resolver of symbols is a callback with a context of its own; it is an argument that returns
  whether it resolved the symbol, the value it left in the result, and its context after the
  call. The observer's calls, if there is an observer, are kept as a list, newest first. A result is \<open>None\<close> for success and
  otherwise the message, empty where the code leaves it to its caller. The outcomes of the
  allocations are arguments.
\<close>

section \<open>State\<close>

type_synonym 'c resolver = "'c \<Rightarrow> string \<Rightarrow> int \<Rightarrow> bool \<Rightarrow> bool \<Rightarrow> (bool \<times> u64) \<times> 'c"

text \<open>What a run changes: the memory, the statistics (\<open>GFStats\<close>), the resolver's context and the calls of the observer.\<close>

record 'c Fixing =
  fx_memory :: GuestMemory
  fx_rebases :: nat
  fx_binds :: nat
  fx_context :: 'c
  fx_observe :: bool
  fx_written :: "(u64 \<times> u64 \<times> string option) list"

type_synonym 'c fixed = "string option \<times> 'c Fixing"

definition notify :: "u64 \<Rightarrow> u64 \<Rightarrow> string option \<Rightarrow> 'c Fixing \<Rightarrow> 'c Fixing" where
  "notify a v symbol x = (if fx_observe x then x\<lparr>fx_written := (a, v, symbol) # fx_written x\<rparr> else x)"

text \<open>\<open>leb\<close> from position \<open>pos\<close>: the value, the position after it, and whether it was malformed.\<close>

function leb_loop :: "u8 list \<Rightarrow> bool \<Rightarrow> nat \<Rightarrow> nat \<Rightarrow> u64 \<Rightarrow> u64 \<times> nat \<times> bool" where
  "leb_loop bs sign shift pos v =
     (if shift < 70 \<and> pos < length bs
      then let byte = bs ! pos
           in if shift = 63 \<and> (if sign then byte AND 0x7f \<noteq> 0 \<and> byte AND 0x7f \<noteq> 0x7f else byte AND 0x7e \<noteq> 0)
              then (0, Suc pos, True)
              else let v = v OR push_bit shift (ucast (byte AND 0x7f))
                   in if byte AND 0x80 = 0
                      then (if sign \<and> shift < 63 \<and> byte AND 0x40 \<noteq> 0 then v OR push_bit (shift + 7) UINT64_MAX else v,
                            Suc pos, False)
                      else leb_loop bs sign (shift + 7) (Suc pos) v
      else (0, pos, True))"
  by pat_completeness auto
termination by (relation "measure (\<lambda>(bs, sign, shift, pos, v). length bs - pos)") auto

declare leb_loop.simps [simp del]

definition leb :: "u8 list \<Rightarrow> bool \<Rightarrow> nat \<Rightarrow> u64 \<times> nat \<times> bool" where
  "leb bs sign pos = leb_loop bs sign 0 pos 0"

definition add_offset :: "u64 \<Rightarrow> u64 \<Rightarrow> u64 option" where
  "add_offset a b = (if b > UINT64_MAX - a then None else Some (a + b))"

text \<open>The bytes of a linker table, read from the segment that holds its part of the file.\<close>

definition stream_segment :: "u32 \<Rightarrow> u32 \<Rightarrow> GISegment \<Rightarrow> bool" where
  "stream_segment offset sz s \<longleftrightarrow>
     \<not> (ucast offset < gs_file_offset s \<or> ucast offset - gs_file_offset s > gs_file_size s \<or>
        ucast sz > gs_file_size s - (ucast offset - gs_file_offset s))"

definition stream :: "GuestImage \<Rightarrow> bool \<Rightarrow> GuestMemory \<Rightarrow> u32 \<Rightarrow> u32 \<Rightarrow> u8 list option \<times> GuestMemory" where
  "stream img malloc_ok m offset sz =
     (if sz > 32 * 1024 * 1024 then (None, m)
      else case find (stream_segment offset sz) (gi_segments img) of
        None \<Rightarrow> (None, m)
      | Some s \<Rightarrow>
          if \<not> malloc_ok then (None, m)
          else let (r, m, b) = gm_read m (gs_address s + ucast offset - gs_file_offset s) (Some (replicate (unat sz) 0)) (ucast sz)
               in (if r = GM_OK then b else None, m))"

definition target :: "GuestImage \<Rightarrow> u64 \<Rightarrow> u64 \<Rightarrow> u64 option" where
  "target img seg offset =
     (if seg \<ge> of_nat (length (gi_segments img)) then None
      else let s = gi_segments img ! unat seg
      in if gs_prot s = 0 \<or> offset > gs_size s \<or> 8 > gs_size s - offset \<or> offset AND 7 \<noteq> 0 then None
         else Some (gs_address s + offset))"

text \<open>The eight bytes of a pointer are written, and the observer is told.\<close>

definition write_pointer ::
  "(u64 \<Rightarrow> nat \<Rightarrow> bool) \<Rightarrow> u64 \<Rightarrow> u64 \<Rightarrow> 'c Fixing \<Rightarrow> bool \<times> 'c Fixing" where
  "write_pointer calloc a v x =
     (let (r, m) = gm_populate (fx_memory x) a (Some (scalar_bytes v 8)) 8 (calloc a) in (r = GM_OK, x\<lparr>fx_memory := m\<rparr>))"

definition read_pointer :: "u64 \<Rightarrow> 'c Fixing \<Rightarrow> u64 option \<times> 'c Fixing" where
  "read_pointer a x =
     (let (r, m, b) = gm_read (fx_memory x) a (Some (replicate 8 0)) 8
      in (if r = GM_OK then Some (scalar_value (the b) 8) else None, x\<lparr>fx_memory := m\<rparr>))"

section \<open>Opcode streams\<close>

text \<open>The local variables of the interpreters \<open>rebases\<close> and \<open>binds\<close>, with the position in the stream.\<close>

record Interp =
  ip_pos :: nat
  ip_bad :: bool
  ip_seg :: u64
  ip_offset :: u64
  ip_addend :: u64
  ip_ordinal :: int
  ip_type :: u8
  ip_flags :: u8
  ip_symbol :: "string option"
  ip_ended :: bool
  ip_count :: u64
  ip_skip :: u64

abbreviation (input) SIZE_MAX :: u64 where "SIZE_MAX \<equiv> UINT64_MAX"

text \<open>Reading a number moves the position and remembers a malformed one.\<close>

definition ip_leb :: "u8 list \<Rightarrow> bool \<Rightarrow> Interp \<Rightarrow> u64 \<times> Interp" where
  "ip_leb bs sign ip =
     (let (v, pos, bad) = leb bs sign (ip_pos ip) in (v, ip\<lparr>ip_pos := pos, ip_bad := ip_bad ip \<or> bad\<rparr>))"

text \<open>One rebase opcode, whose byte has been read: \<open>None\<close> when it is invalid.\<close>

definition rebase_opcode :: "u8 list \<Rightarrow> u8 \<Rightarrow> Interp \<Rightarrow> Interp option" where
  "rebase_opcode bs byte ip =
     (let op = byte AND 0xf0; imm = byte AND 15
      in if op = 0x10 then Some (ip\<lparr>ip_type := imm\<rparr>)
         else if op = 0x20 then (let (v, ip) = ip_leb bs False ip in Some (ip\<lparr>ip_seg := ucast imm, ip_offset := v\<rparr>))
         else if op = 0x30
         then (let (v, ip) = ip_leb bs False ip in map_option (\<lambda>off. ip\<lparr>ip_offset := off\<rparr>) (add_offset (ip_offset ip) v))
         else if op = 0x40 then map_option (\<lambda>off. ip\<lparr>ip_offset := off\<rparr>) (add_offset (ip_offset ip) (ucast imm * 8))
         else if op = 0x50 then Some (ip\<lparr>ip_count := ucast imm\<rparr>)
         else if op = 0x60 then (let (v, ip) = ip_leb bs False ip in Some (ip\<lparr>ip_count := v\<rparr>))
         else if op = 0x70 then (let (v, ip) = ip_leb bs False ip in Some (ip\<lparr>ip_count := 1, ip_skip := v\<rparr>))
         else if op = 0x80
         then (let (n, ip) = ip_leb bs False ip; (v, ip) = ip_leb bs False ip in Some (ip\<lparr>ip_count := n, ip_skip := v\<rparr>))
         else None)"

text \<open>\<open>count\<close> pointers are rebased.\<close>

primrec rebase_times ::
  "nat \<Rightarrow> (u64 \<Rightarrow> nat \<Rightarrow> bool) \<Rightarrow> GuestImage \<Rightarrow> u64 \<Rightarrow> Interp \<Rightarrow> 'c Fixing \<Rightarrow> bool \<times> Interp \<times> 'c Fixing" where
  "rebase_times 0 calloc img slide ip x = (True, ip, x)"
| "rebase_times (Suc count) calloc img slide ip x =
     (if ip_type ip \<noteq> 1 then (False, ip, x)
      else let x = x\<lparr>fx_rebases := Suc (fx_rebases x)\<rparr>
      in if fx_rebases x > 1000000 then (False, ip, x)
         else case target img (ip_seg ip) (ip_offset ip) of
           None \<Rightarrow> (False, ip, x)
         | Some a \<Rightarrow>
             (case read_pointer a x of
                (None, x) \<Rightarrow> (False, ip, x)
              | (Some v, x) \<Rightarrow>
                  let (ok, x) = write_pointer calloc a (v + slide) x
                  in if \<not> ok then (False, ip, x)
                     else case add_offset (ip_offset ip) (8 + ip_skip ip) of
                       None \<Rightarrow> (False, ip, x)
                     | Some off \<Rightarrow>
                         rebase_times count calloc img slide (ip\<lparr>ip_offset := off\<rparr>) (notify a (v + slide) None x)))"

lemma leb_loop_pos: "pos \<le> fst (snd (leb_loop bs sign shift pos v))"
proof (induction bs sign shift pos v rule: leb_loop.induct)
  case (1 bs sign shift pos v)
  show ?case
  proof (cases "shift < 70 \<and> pos < length bs \<and> bs ! pos AND 0x80 \<noteq> 0 \<and>
      \<not> (shift = 63 \<and> (if sign then bs ! pos AND 0x7f \<noteq> 0 \<and> bs ! pos AND 0x7f \<noteq> 0x7f else bs ! pos AND 0x7e \<noteq> 0))")
    case True
    then have "Suc pos \<le> fst (snd (leb_loop bs sign (shift + 7) (Suc pos) (v OR push_bit shift (ucast (bs ! pos AND 0x7f)))))"
      by (intro 1) auto
    then show ?thesis using True by (auto simp: leb_loop.simps [of bs sign shift pos] Let_def)
  next
    case False
    then show ?thesis by (auto simp: leb_loop.simps [of bs sign shift pos] Let_def)
  qed
qed

lemma ip_leb_pos: "ip_leb bs sign ip = (v, ip') \<Longrightarrow> ip_pos ip \<le> ip_pos ip'"
  using leb_loop_pos [of "ip_pos ip" bs sign 0 0] by (auto simp: ip_leb_def leb_def split: prod.splits)

lemma rebase_opcode_pos: "rebase_opcode bs byte ip = Some ip' \<Longrightarrow> ip_pos ip \<le> ip_pos ip'"
  by (auto simp: rebase_opcode_def Let_def split: if_splits prod.splits dest!: ip_leb_pos)

lemma rebase_times_pos: "ip_pos (fst (snd (rebase_times count calloc img slide ip x))) = ip_pos ip"
  by (induction count arbitrary: ip x) (auto simp: Let_def split: option.splits prod.splits)

function rebases ::
  "(u64 \<Rightarrow> nat \<Rightarrow> bool) \<Rightarrow> GuestImage \<Rightarrow> u64 \<Rightarrow> u8 list \<Rightarrow> Interp \<Rightarrow> 'c Fixing \<Rightarrow> 'c fixed" where
  "rebases calloc img slide bs ip x =
     (if ip_pos ip < length bs
      then let byte = bs ! ip_pos ip; ip0 = ip\<lparr>ip_pos := Suc (ip_pos ip), ip_count := 0, ip_skip := 0\<rparr>
           in if byte AND 0xf0 = 0 then (None, x)
              else case rebase_opcode bs byte ip0 of
                None \<Rightarrow> (Some [], x)
              | Some ip1 \<Rightarrow>
                  if ip_bad ip1 \<or> ip_count ip1 > 1000000 \<or> ip_skip ip1 > UINT64_MAX - 8 then (Some [], x)
                  else let (ok, rest) = rebase_times (unat (ip_count ip1)) calloc img slide ip1 x
                       in if \<not> ok then (Some [], snd rest) else rebases calloc img slide bs (fst rest) (snd rest)
      else (Some [], x))"
  by pat_completeness auto
termination
proof (relation "measure (\<lambda>(calloc, img, slide, bs, ip, x). length bs - ip_pos ip)", goal_cases)
  case (2 calloc img slide bs ip x byte ip0 ip1 r ok rest)
  have "ip_pos ip0 \<le> ip_pos ip1" using rebase_opcode_pos 2(5) by blast
  moreover have "ip_pos (fst rest) = ip_pos ip1"
    using rebase_times_pos [of "unat (ip_count ip1)" calloc img slide ip1 x] arg_cong [OF 2(8), of snd] 2(7) by simp
  ultimately show ?case using 2 by (cases rest) simp
qed simp

declare rebases.simps [simp del]

text \<open>The state before the first opcode of a stream.\<close>

definition ip_start :: "int \<Rightarrow> u8 \<Rightarrow> Interp" where
  "ip_start ordinal type =
     \<lparr>ip_pos = 0, ip_bad = False, ip_seg = SIZE_MAX, ip_offset = 0, ip_addend = 0, ip_ordinal = ordinal, ip_type = type,
      ip_flags = 0, ip_symbol = None, ip_ended = False, ip_count = 0, ip_skip = 0\<rparr>"

abbreviation (input) BIND_TYPE_POINTER :: u8 where "BIND_TYPE_POINTER \<equiv> 1"
abbreviation (input) BIND_SPECIAL_DYLIB_MAIN_EXECUTABLE :: int where "BIND_SPECIAL_DYLIB_MAIN_EXECUTABLE \<equiv> - 1"
abbreviation (input) BIND_SPECIAL_DYLIB_FLAT_LOOKUP :: int where "BIND_SPECIAL_DYLIB_FLAT_LOOKUP \<equiv> - 2"
abbreviation (input) BIND_SPECIAL_DYLIB_WEAK_LOOKUP :: int where "BIND_SPECIAL_DYLIB_WEAK_LOOKUP \<equiv> - 3"

text \<open>One bind opcode; the end of a non-lazy stream is decided by its caller.\<close>

definition bind_opcode :: "GuestImage \<Rightarrow> u8 list \<Rightarrow> u8 \<Rightarrow> Interp \<Rightarrow> Interp option" where
  "bind_opcode img bs byte ip =
     (let op = byte AND 0xf0; imm = byte AND 15
      in if op = 0
         then Some (ip\<lparr>ip_seg := SIZE_MAX, ip_offset := 0, ip_addend := 0, ip_ordinal := 0, ip_flags := 0,
                       ip_type := BIND_TYPE_POINTER, ip_symbol := None, ip_ended := True\<rparr>)
         else if op = 0x10 then Some (ip\<lparr>ip_ordinal := uint imm\<rparr>)
         else if op = 0x20
         then (let (n, ip) = ip_leb bs False ip
               in if unat n > length (gi_dylibs img) then None else Some (ip\<lparr>ip_ordinal := uint n\<rparr>))
         else if op = 0x30 then Some (ip\<lparr>ip_ordinal := if imm \<noteq> 0 then sint (imm OR 0xf0) else 0\<rparr>)
         else if op = 0x40
         then (let rest = drop (ip_pos ip) bs; name = takeWhile (\<lambda>b. b \<noteq> 0) rest
               in if 0 \<notin> set rest then None
                  else Some (ip\<lparr>ip_symbol := Some (c_string rest), ip_pos := ip_pos ip + length name + 1, ip_flags := imm\<rparr>))
         else if op = 0x50 then Some (ip\<lparr>ip_type := imm\<rparr>)
         else if op = 0x60 then (let (v, ip) = ip_leb bs True ip in Some (ip\<lparr>ip_addend := v\<rparr>))
         else if op = 0x70 then (let (v, ip) = ip_leb bs False ip in Some (ip\<lparr>ip_seg := ucast imm, ip_offset := v\<rparr>))
         else if op = 0x80 then (let (v, ip) = ip_leb bs False ip in Some (ip\<lparr>ip_offset := ip_offset ip + v\<rparr>))
         else if op = 0x90 then Some (ip\<lparr>ip_count := 1\<rparr>)
         else if op = 0xa0 then (let (v, ip) = ip_leb bs False ip in Some (ip\<lparr>ip_count := 1, ip_skip := v\<rparr>))
         else if op = 0xb0 then Some (ip\<lparr>ip_count := 1, ip_skip := ucast imm * 8\<rparr>)
         else if op = 0xc0
         then (let (n, ip) = ip_leb bs False ip; (v, ip) = ip_leb bs False ip in Some (ip\<lparr>ip_count := n, ip_skip := v\<rparr>))
         else None)"

text \<open>\<open>count\<close> pointers are bound to the current symbol.\<close>

primrec bind_times ::
  "nat \<Rightarrow> (u64 \<Rightarrow> nat \<Rightarrow> bool) \<Rightarrow> GuestImage \<Rightarrow> 'c resolver \<Rightarrow> bool \<Rightarrow> bool \<Rightarrow> Interp \<Rightarrow> 'c Fixing \<Rightarrow>
   string option \<times> Interp \<times> 'c Fixing" where
  "bind_times 0 calloc img resolve lazy weak_stream ip x = (None, ip, x)"
| "bind_times (Suc count) calloc img resolve lazy weak_stream ip x =
     (if ip_type ip \<noteq> BIND_TYPE_POINTER \<or> ip_symbol ip = None \<or> ip_ordinal ip > int (length (gi_dylibs img)) \<or>
         ip_ordinal ip < - 3
      then (Some ''invalid bind target'', ip, x)
      else let x = x\<lparr>fx_binds := Suc (fx_binds x)\<rparr>
      in if fx_binds x > 1000000 then (Some ''invalid bind target'', ip, x)
         else case target img (ip_seg ip) (ip_offset ip) of
           None \<Rightarrow> (Some ''invalid bind target'', ip, x)
         | Some a \<Rightarrow>
             let symbol = the (ip_symbol ip);
                 ((found, v), c) = resolve (fx_context x) symbol (ip_ordinal ip) (ip_flags ip AND 1 \<noteq> 0 \<or> weak_stream) lazy;
                 x = x\<lparr>fx_context := c\<rparr>
             in if \<not> found then (Some ''unresolved import'', ip, x)
                else let v = v + ip_addend ip; (ok, x) = write_pointer calloc a v x
                in if \<not> ok then (Some [], ip, x)
                   else bind_times count calloc img resolve lazy weak_stream
                          (ip\<lparr>ip_offset := ip_offset ip + (8 + ip_skip ip)\<rparr>) (notify a v (Some symbol) x))"

lemma bind_opcode_pos: "bind_opcode img bs byte ip = Some ip' \<Longrightarrow> ip_pos ip \<le> ip_pos ip'"
  by (auto simp: bind_opcode_def Let_def split: if_splits prod.splits dest!: ip_leb_pos)

lemma bind_times_pos: "ip_pos (fst (snd (bind_times count calloc img resolve lazy weak_stream ip x))) = ip_pos ip"
  by (induction count arbitrary: ip x) (auto simp: Let_def split: option.splits prod.splits)

function binds ::
  "(u64 \<Rightarrow> nat \<Rightarrow> bool) \<Rightarrow> GuestImage \<Rightarrow> 'c resolver \<Rightarrow> bool \<Rightarrow> bool \<Rightarrow> u8 list \<Rightarrow> Interp \<Rightarrow> 'c Fixing \<Rightarrow> 'c fixed" where
  "binds calloc img resolve lazy weak_stream bs ip x =
     (if ip_pos ip < length bs
      then let byte = bs ! ip_pos ip;
               ip0 = ip\<lparr>ip_pos := Suc (ip_pos ip), ip_count := 0, ip_skip := 0, ip_ended := False\<rparr>
           in if byte AND 0xf0 = 0 \<and> \<not> lazy then (None, x)
              else case bind_opcode img bs byte ip0 of
                None \<Rightarrow> (Some [], x)
              | Some ip1 \<Rightarrow>
                  if ip_bad ip1 \<or> ip_count ip1 > 1000000 then (Some [], x)
                  else let (r, rest) = bind_times (unat (ip_count ip1)) calloc img resolve lazy weak_stream ip1 x
                       in if r \<noteq> None then (r, snd rest)
                          else binds calloc img resolve lazy weak_stream bs (fst rest) (snd rest)
      else (if lazy \<and> ip_ended ip then None else Some [], x))"
  by pat_completeness auto
termination
proof (relation "measure (\<lambda>(calloc, img, resolve, lazy, weak_stream, bs, ip, x). length bs - ip_pos ip)", goal_cases)
  case (2 calloc img resolve lazy weak_stream bs ip x byte ip0 ip1 r ok rest)
  have "ip_pos ip0 \<le> ip_pos ip1" using bind_opcode_pos 2(5) by blast
  moreover have "ip_pos (fst rest) = ip_pos ip1"
    using bind_times_pos [of "unat (ip_count ip1)" calloc img resolve lazy weak_stream ip1 x]
      arg_cong [OF 2(8), of snd] 2(7) by simp
  ultimately show ?case using 2 by (cases rest) simp
qed simp

declare binds.simps [simp del]

section \<open>Chained fixups\<close>

text \<open>The fields of the fixups blob, read inside its bounds.\<close>

definition blob_at :: "u8 list \<Rightarrow> u64 \<Rightarrow> u64 \<Rightarrow> u8 list option" where
  "blob_at blob offset sz =
     (if unat offset > length blob \<or> unat sz > length blob - unat offset then None else Some (drop (unat offset) blob))"

definition blob_u16 :: "u8 list \<Rightarrow> u64 \<Rightarrow> u16 option" where
  "blob_u16 blob offset = map_option (\<lambda>p. le16 p 0) (blob_at blob offset 2)"

definition blob_u32 :: "u8 list \<Rightarrow> u64 \<Rightarrow> u32 option" where
  "blob_u32 blob offset = map_option (\<lambda>p. le32 p 0) (blob_at blob offset 4)"

definition blob_u64 :: "u8 list \<Rightarrow> u64 \<Rightarrow> u64 option" where
  "blob_u64 blob offset = map_option (\<lambda>p. le64 p 0) (blob_at blob offset 8)"

definition blob_string :: "u8 list \<Rightarrow> u64 \<Rightarrow> string option" where
  "blob_string blob offset =
     (if unat offset \<ge> length blob then None
      else let rest = drop (unat offset) blob in if 0 \<in> set rest then Some (c_string rest) else None)"

definition chained_ordinal :: "u64 \<Rightarrow> u64 \<Rightarrow> int" where
  "chained_ordinal raw limit = (if raw > limit - 15 then uint raw - uint limit - 1 else uint raw)"

record ChainedImport =
  im_name :: string
  im_ordinal :: int
  im_weak :: bool
  im_addend :: u64

text \<open>Import \<open>i\<close> of the table: the formats differ in size and in the width of their fields.\<close>

definition import_fields :: "u8 list \<Rightarrow> u32 \<Rightarrow> u64 \<Rightarrow> string + (int \<times> bool \<times> u64 \<times> u64)" where
  "import_fields blob format at =
     (if format = 3
      then case (blob_u64 blob at, blob_u64 blob (at + 8)) of
          (Some raw, Some addend) \<Rightarrow>
            Inr (chained_ordinal (raw AND 0xFFFF) 0xFFFF, drop_bit 16 raw AND 1 \<noteq> 0, drop_bit 32 raw, addend)
        | _ \<Rightarrow> Inl ''chained import outside the fixups blob''
      else case blob_u32 blob at of
          None \<Rightarrow> Inl ''chained import outside the fixups blob''
        | Some raw \<Rightarrow>
            let ordinal = chained_ordinal (ucast raw AND 0xFF) 0xFF; weak = (drop_bit 8 raw AND 1 \<noteq> 0);
                name_offset = ucast (drop_bit 9 raw)
            in if format = 2
               then case blob_u32 blob (at + 4) of
                   None \<Rightarrow> Inl ''chained import addend missing''
                 | Some addend \<Rightarrow> Inr (ordinal, weak, name_offset, scast addend)
               else Inr (ordinal, weak, name_offset, 0))"

primrec import_loop ::
  "nat \<Rightarrow> u8 list \<Rightarrow> GuestImage \<Rightarrow> u32 \<Rightarrow> u64 \<Rightarrow> u64 \<Rightarrow> u64 \<Rightarrow> nat \<Rightarrow> string + ChainedImport list" where
  "import_loop 0 blob img format imports_offset entry symbols_offset i = Inr []"
| "import_loop (Suc left) blob img format imports_offset entry symbols_offset i =
     (case import_fields blob format (imports_offset + of_nat i * entry) of
        Inl m \<Rightarrow> Inl m
      | Inr (ordinal, weak, name_offset, addend) \<Rightarrow>
          (case blob_string blob (symbols_offset + name_offset) of
             None \<Rightarrow> Inl ''chained import names nothing inside the blob''
           | Some name \<Rightarrow>
               if ordinal < BIND_SPECIAL_DYLIB_WEAK_LOOKUP \<or> ordinal > int (length (gi_dylibs img))
               then Inl ''invalid chained import ordinal''
               else case import_loop left blob img format imports_offset entry symbols_offset (Suc i) of
                   Inl m \<Rightarrow> Inl m
                 | Inr rest \<Rightarrow>
                     Inr (\<lparr>im_name = name, im_ordinal = ordinal, im_weak = weak, im_addend = addend\<rparr> # rest)))"

text \<open>What the loops over the chains keep fixed.\<close>

record 'c Chained =
  ch_calloc :: "u64 \<Rightarrow> nat \<Rightarrow> bool"
  ch_image :: GuestImage
  ch_slide :: u64
  ch_resolve :: "'c resolver"
  ch_blob :: "u8 list"
  ch_imports :: "ChainedImport list"

abbreviation (input) DYLD_CHAINED_PTR_64 :: u16 where "DYLD_CHAINED_PTR_64 \<equiv> 2"
abbreviation (input) DYLD_CHAINED_PTR_64_OFFSET :: u16 where "DYLD_CHAINED_PTR_64_OFFSET \<equiv> 6"
abbreviation (input) DYLD_CHAINED_PTR_START_NONE :: u16 where "DYLD_CHAINED_PTR_START_NONE \<equiv> 0xFFFF"
abbreviation (input) DYLD_CHAINED_PTR_START_MULTI :: u16 where "DYLD_CHAINED_PTR_START_MULTI \<equiv> 0x8000"
abbreviation (input) DYLD_CHAINED_PTR_START_LAST :: u16 where "DYLD_CHAINED_PTR_START_LAST \<equiv> 0x8000"

text \<open>The value of a chained pointer, with the name of the symbol if it is a bind.\<close>

definition chained_value :: "'c Chained \<Rightarrow> u16 \<Rightarrow> u64 \<Rightarrow> 'c Fixing \<Rightarrow> (string + (u64 \<times> string option)) \<times> 'c Fixing" where
  "chained_value env format raw x =
     (if drop_bit 63 raw \<noteq> 0
      then let ordinal = unat (raw AND 0xFFFFFF)
           in if drop_bit 32 raw AND 0x7FFFF \<noteq> 0 then (Inl ''chained bind sets reserved bits'', x)
              else if ordinal \<ge> length (ch_imports env) then (Inl ''chained bind names import'', x)
              else let imp = ch_imports env ! ordinal;
                       ((found, v), c) = ch_resolve env (fx_context x) (im_name imp) (im_ordinal imp) (im_weak imp) False;
                       x = x\<lparr>fx_context := c\<rparr>
                   in if \<not> found \<and> \<not> im_weak imp then (Inl ''unresolved import'', x)
                      else (Inr (v + (im_addend imp + (drop_bit 24 raw AND 0xFF)), Some (im_name imp)),
                            x\<lparr>fx_binds := Suc (fx_binds x)\<rparr>)
      else if drop_bit 44 raw AND 0x7F \<noteq> 0 then (Inl ''chained rebase sets reserved bits'', x)
      else let v = (raw AND 0xFFFFFFFFF) OR push_bit 56 (drop_bit 36 raw AND 0xFF);
               v = (if format = DYLD_CHAINED_PTR_64_OFFSET then v + gi_header_address (ch_image env) else v)
           in (Inr (v + ch_slide env, None), x\<lparr>fx_rebases := Suc (fx_rebases x)\<rparr>))"

text \<open>One chain: \<open>left\<close> is the number of steps still allowed.\<close>

primrec step_loop :: "nat \<Rightarrow> 'c Chained \<Rightarrow> u16 \<Rightarrow> u64 \<Rightarrow> u64 \<Rightarrow> u64 \<Rightarrow> 'c Fixing \<Rightarrow> 'c fixed" where
  "step_loop 0 env format page_start page_end a x = (Some ''chained pointers do not end'', x)"
| "step_loop (Suc left) env format page_start page_end a x =
     (if a > page_end - 8 \<or> a < page_start then (Some ''chained pointer leaves its page'', x)
      else case read_pointer a x of
        (None, x) \<Rightarrow> (Some ''chained pointer outside guest memory'', x)
      | (Some raw, x) \<Rightarrow>
          (case chained_value env format raw x of
             (Inl m, x) \<Rightarrow> (Some m, x)
           | (Inr (v, symbol), x) \<Rightarrow>
               let (ok, x) = write_pointer (ch_calloc env) a v x
               in if \<not> ok then (Some ''cannot write a chained pointer'', x)
                  else let x = notify a v symbol x; nxt = drop_bit 51 raw AND 0xFFF
                  in if nxt = 0 then (None, x) else step_loop left env format page_start page_end (a + nxt * 4) x))"

text \<open>\<open>steps_allowed\<close>, and one more step for the test that it was exceeded.\<close>

definition steps_allowed :: "GuestImage \<Rightarrow> nat" where
  "steps_allowed img = unat (gi_mapped_size img div 4 + 1) + 1"

text \<open>The chain that starts at \<open>offset\<close> of a page; it stays on that page, inside the segment.\<close>

definition page_chain :: "'c Chained \<Rightarrow> GISegment \<Rightarrow> u16 \<Rightarrow> u64 \<Rightarrow> u16 \<Rightarrow> nat \<Rightarrow> u16 \<Rightarrow> 'c Fixing \<Rightarrow> 'c fixed" where
  "page_chain env segment page_size segment_offset format page offset x =
     (let off = offset AND NOT DYLD_CHAINED_PTR_START_LAST
      in if off \<ge> page_size then (Some ''chained start beyond its own page'', x)
         else let page_start = gi_header_address (ch_image env) + segment_offset + of_nat page * ucast page_size;
                  page_end = page_start + ucast page_size; segment_end = gs_address segment + gs_size segment
         in if page_start < gs_address segment \<or> page_start \<ge> segment_end then (Some ''chained page outside segment'', x)
            else step_loop (steps_allowed (ch_image env)) env format page_start
                   (if page_end > segment_end then segment_end else page_end) (page_start + ucast off) x)"

text \<open>
  The chains of a page. Chain after chain is read from the list until one is marked as the last;
  \<open>fuel\<close> bounds their number.
\<close>

primrec chain_loop ::
  "nat \<Rightarrow> 'c Chained \<Rightarrow> GISegment \<Rightarrow> u16 \<Rightarrow> u64 \<Rightarrow> u16 \<Rightarrow> nat \<Rightarrow> u16 \<Rightarrow> u64 \<Rightarrow> nat \<Rightarrow> 'c Fixing \<Rightarrow> 'c fixed" where
  "chain_loop 0 env segment page_size segment_offset format page start lst chain x =
     (Some ''chained start list is truncated'', x)"
| "chain_loop (Suc fuel) env segment page_size segment_offset format page start lst chain x =
     (case (if lst \<noteq> 0 then blob_u16 (ch_blob env) (lst + of_nat chain * 2) else Some start) of
        None \<Rightarrow> (Some ''chained start list is truncated'', x)
      | Some offset \<Rightarrow>
          (case page_chain env segment page_size segment_offset format page offset x of
             (Some m, x) \<Rightarrow> (Some m, x)
           | (None, x) \<Rightarrow>
               if lst = 0 \<or> offset AND DYLD_CHAINED_PTR_START_LAST \<noteq> 0 then (None, x)
               else chain_loop fuel env segment page_size segment_offset format page start lst (Suc chain) x))"

primrec page_loop ::
  "nat \<Rightarrow> 'c Chained \<Rightarrow> GISegment \<Rightarrow> u64 \<Rightarrow> u16 \<Rightarrow> u64 \<Rightarrow> u16 \<Rightarrow> nat \<Rightarrow> 'c Fixing \<Rightarrow> 'c fixed" where
  "page_loop 0 env segment at page_size segment_offset format page x = (None, x)"
| "page_loop (Suc left) env segment at page_size segment_offset format page x =
     (case blob_u16 (ch_blob env) (at + 22 + of_nat page * 2) of
        None \<Rightarrow> (Some ''chained page table is truncated'', x)
      | Some start \<Rightarrow>
          (case (if start = DYLD_CHAINED_PTR_START_NONE then (None, x)
                 else chain_loop (length (ch_blob env) + 1) env segment page_size segment_offset format page start
                        (if start AND DYLD_CHAINED_PTR_START_MULTI \<noteq> 0
                         then at + 22 + ucast (start AND NOT DYLD_CHAINED_PTR_START_MULTI) * 2 else 0) 0 x) of
             (Some m, x) \<Rightarrow> (Some m, x)
           | (None, x) \<Rightarrow> page_loop left env segment at page_size segment_offset format (Suc page) x))"

text \<open>The starts of segment \<open>i\<close>, when it has any.\<close>

definition segment_chains :: "'c Chained \<Rightarrow> u64 \<Rightarrow> nat \<Rightarrow> 'c Fixing \<Rightarrow> 'c fixed" where
  "segment_chains env at i x =
     (if i \<ge> length (gi_segments (ch_image env)) then (Some ''chained starts for segment'', x)
      else case (blob_u16 (ch_blob env) (at + 4), blob_u16 (ch_blob env) (at + 6), blob_u64 (ch_blob env) (at + 8),
                 blob_u16 (ch_blob env) (at + 20)) of
        (Some page_size, Some format, Some segment_offset, Some page_count) \<Rightarrow>
          if format \<noteq> DYLD_CHAINED_PTR_64 \<and> format \<noteq> DYLD_CHAINED_PTR_64_OFFSET
          then (Some ''unsupported chained pointer format'', x)
          else if page_size \<noteq> 4096 \<and> page_size \<noteq> 16384 then (Some ''unsupported chained page size'', x)
          else page_loop (unat page_count) env (gi_segments (ch_image env) ! i) at page_size segment_offset format 0 x
      | _ \<Rightarrow> (Some ''chained starts are truncated'', x))"

primrec segment_loop :: "nat \<Rightarrow> 'c Chained \<Rightarrow> u64 \<Rightarrow> nat \<Rightarrow> 'c Fixing \<Rightarrow> 'c fixed" where
  "segment_loop 0 env starts_offset i x = (None, x)"
| "segment_loop (Suc left) env starts_offset i x =
     (case blob_u32 (ch_blob env) (starts_offset + 4 + of_nat i * 4) of
        None \<Rightarrow> (Some ''chained starts outside the blob'', x)
      | Some info \<Rightarrow>
          (case (if info = 0 then (None, x) else segment_chains env (starts_offset + ucast info) i x) of
             (Some m, x) \<Rightarrow> (Some m, x)
           | (None, x) \<Rightarrow> segment_loop left env starts_offset (Suc i) x))"

text \<open>The header of the blob: offsets of the starts, imports and symbols, number and format of the imports.\<close>

definition import_entry :: "u32 \<Rightarrow> nat" where
  "import_entry format = (if format = 1 then 4 else if format = 2 then 8 else if format = 3 then 16 else 0)"

definition chained_imports :: "bool \<Rightarrow> GuestImage \<Rightarrow> u8 list \<Rightarrow> string + (u32 \<times> ChainedImport list)" where
  "chained_imports imports_ok img blob =
     (case (blob_u32 blob 0, blob_u32 blob 4, blob_u32 blob 8, blob_u32 blob 12, blob_u32 blob 16, blob_u32 blob 20,
            blob_u32 blob 24) of
        (Some version, Some starts_offset, Some imports_offset, Some symbols_offset, Some imports_count,
         Some imports_format, Some symbols_format) \<Rightarrow>
          if version \<noteq> 0 then Inl ''unsupported chained fixups version''
          else if symbols_format \<noteq> 0 then Inl ''compressed chained symbol names are unsupported''
          else let entry = import_entry imports_format
          in if entry = 0 then Inl ''unsupported chained imports format''
             else if unat imports_count > length blob div entry then Inl ''chained imports outside the fixups blob''
             else if \<not> imports_ok then Inl ''cannot hold the chained import table''
             else map_sum id (Pair starts_offset)
                    (import_loop (unat imports_count) blob img imports_format (ucast imports_offset) (of_nat entry)
                       (ucast symbols_offset) 0)
      | _ \<Rightarrow> Inl ''truncated chained fixups header'')"

text \<open>The outcomes of the allocations of a run.\<close>

record FixupAllocations =
  fa_stream :: "nat \<Rightarrow> bool"
  fa_imports :: bool
  fa_pages :: "u64 \<Rightarrow> nat \<Rightarrow> bool"

definition chained :: "FixupAllocations \<Rightarrow> GuestImage \<Rightarrow> u64 \<Rightarrow> 'c resolver \<Rightarrow> 'c Fixing \<Rightarrow> 'c fixed" where
  "chained al img slide resolve x =
     (let (bytes, m) = stream img (fa_stream al 0) (fx_memory x) (gi_chained_offset img) (gi_chained_size img);
          x = x\<lparr>fx_memory := m\<rparr>
      in case bytes of
           None \<Rightarrow> (Some ''chained fixups outside readable image'', x)
         | Some blob \<Rightarrow>
             (case chained_imports (fa_imports al) img blob of
                Inl m \<Rightarrow> (Some m, x)
              | Inr (starts_offset, imports) \<Rightarrow>
                  (case blob_u32 blob (ucast starts_offset) of
                     None \<Rightarrow> (Some ''chained starts outside the fixups blob'', x)
                   | Some segment_count \<Rightarrow>
                       segment_loop (unat segment_count)
                         \<lparr>ch_calloc = fa_pages al, ch_image = img, ch_slide = slide, ch_resolve = resolve, ch_blob = blob,
                          ch_imports = imports\<rparr> (ucast starts_offset) 0 x)))"

section \<open>Applying the fixups of an image\<close>

text \<open>The four opcode streams in their order: rebases, lazy, regular and weak binds.\<close>

definition fixup_stream :: "FixupAllocations \<Rightarrow> GuestImage \<Rightarrow> u64 \<Rightarrow> 'c resolver \<Rightarrow> nat \<Rightarrow> u32 \<Rightarrow> u32 \<Rightarrow> 'c Fixing \<Rightarrow> 'c fixed" where
  "fixup_stream al img slide resolve i offset sz x =
     (if sz = 0 then (None, x)
      else let (bytes, m) = stream img (fa_stream al i) (fx_memory x) offset sz; x = x\<lparr>fx_memory := m\<rparr>
      in case bytes of
           None \<Rightarrow> (Some ''fixup stream outside readable image'', x)
         | Some bs \<Rightarrow>
             let (r, x) = (if i = 0 then rebases (fa_pages al) img slide bs (ip_start 0 0) x
                           else binds (fa_pages al) img resolve (i = 1) (i = 3) bs
                                  (ip_start (if i = 3 then BIND_SPECIAL_DYLIB_WEAK_LOOKUP else 0) BIND_TYPE_POINTER) x)
             in (if r = Some [] then Some ''invalid or unsupported fixup stream'' else r, x))"

fun fixup_streams ::
  "FixupAllocations \<Rightarrow> GuestImage \<Rightarrow> u64 \<Rightarrow> 'c resolver \<Rightarrow> nat \<Rightarrow> (u32 \<times> u32) list \<Rightarrow> 'c Fixing \<Rightarrow> 'c fixed" where
  "fixup_streams al img slide resolve i [] x = (None, x)"
| "fixup_streams al img slide resolve i ((offset, sz) # streams) x =
     (case fixup_stream al img slide resolve i offset sz x of
        (Some m, x) \<Rightarrow> (Some m, x)
      | (None, x) \<Rightarrow> fixup_streams al img slide resolve (Suc i) streams x)"

definition gf_run :: "FixupAllocations \<Rightarrow> GuestImage \<Rightarrow> u64 \<Rightarrow> 'c resolver \<Rightarrow> 'c Fixing \<Rightarrow> 'c fixed" where
  "gf_run al img slide resolve x =
     (if gi_chained_fixups img
      then if gi_rebase_size img \<noteq> 0 \<or> gi_bind_size img \<noteq> 0 \<or> gi_lazy_bind_size img \<noteq> 0 \<or> gi_weak_bind_size img \<noteq> 0
           then (Some ''chained fixups together with dyld info opcodes'', x)
           else chained al img slide resolve x
      else fixup_streams al img slide resolve 0
             [(gi_rebase_offset img, gi_rebase_size img), (gi_lazy_bind_offset img, gi_lazy_bind_size img),
              (gi_bind_offset img, gi_bind_size img), (gi_weak_bind_offset img, gi_weak_bind_size img)] x)"

definition gf_apply_observed ::
  "FixupAllocations \<Rightarrow> GuestImage \<Rightarrow> u64 \<Rightarrow> 'c resolver option \<Rightarrow> 'c \<Rightarrow> bool \<Rightarrow> string option \<times> GuestImage \<times> 'c Fixing" where
  "gf_apply_observed al img slide resolve context observe =
     (let x = \<lparr>fx_memory = gi_memory img, fx_rebases = 0, fx_binds = 0, fx_context = context, fx_observe = observe,
               fx_written = []\<rparr>
      in case resolve of
           None \<Rightarrow> (Some ''unsupported fixup configuration'', img, x)
         | Some f \<Rightarrow> let (r, x) = gf_run al img slide f x in (r, img\<lparr>gi_memory := fx_memory x\<rparr>, x))"

definition gf_apply :: "FixupAllocations \<Rightarrow> GuestImage \<Rightarrow> u64 \<Rightarrow> 'c resolver option \<Rightarrow> 'c \<Rightarrow> string option \<times> GuestImage \<times> 'c Fixing" where
  "gf_apply al img slide resolve context = gf_apply_observed al img slide resolve context False"

end
