(* ===== verification/GuestFixupsLaws.thy ===== *)
theory GuestFixupsLaws
  imports GuestFixups GuestImageLaws GuestExportLaws
begin

text \<open>
  Correctness of the relocations. An abstract machine over the bytes of the image performs one
  fixup per step: the pointer at a slot grows by the slide, or becomes the resolved symbol plus an
  addend. A successful run of the code is a sequence of such steps, reported to the observer
  one by one, and never changes the layout of the memory. The variable length integers of the streams
  are read back as they were written.
\<close>

section \<open>Pointers in memory\<close>

definition get8 :: "(u64 \<Rightarrow> u8) \<Rightarrow> u64 \<Rightarrow> u64" where
  "get8 mem a = scalar_value (map (\<lambda>i. mem (a + of_nat i)) [0..<8]) 8"

definition put8 :: "u64 \<Rightarrow> u64 \<Rightarrow> (u64 \<Rightarrow> u8) \<Rightarrow> u64 \<Rightarrow> u8" where
  "put8 a v mem = (\<lambda>x. if in_range a 8 x then scalar_bytes v 8 ! unat (x - a) else mem x)"

lemma get8_put8: "get8 (put8 a v mem) a = v"
proof -
  have "put8 a v mem (a + of_nat i) = scalar_bytes v 8 ! i" if "i < 8" for i
    using that in_range_plus [of i 8 a] by (simp add: put8_def del: nth_scalar_bytes)
  then have "get8 (put8 a v mem) a = scalar_value (scalar_bytes v 8) 8"
    unfolding get8_def by (intro scalar_value_cong) simp
  then show ?thesis by (simp add: scalar_value_bytes take_bit_word_eq_self)
qed

text \<open>What every fixup keeps of the image's memory.\<close>

definition fx_wf :: "GuestImage \<Rightarrow> 'c Fixing \<Rightarrow> bool" where
  "fx_wf img x \<longleftrightarrow> gm_wf (fx_memory x) \<and> gm_attr (fx_memory x) = gm_attr (gi_memory img)"

definition mapped_slot :: "GuestImage \<Rightarrow> u64 \<Rightarrow> bool" where
  "mapped_slot img a \<longleftrightarrow> (\<forall>x. in_range a 8 x \<longrightarrow> gm_attr (gi_memory img) x \<noteq> None)"

lemma fx_wf_memory: "fx_memory x' = fx_memory x \<Longrightarrow> fx_wf img x' = fx_wf img x"
  by (simp add: fx_wf_def)

lemma read_pointer_spec:
  assumes "read_pointer a x = (r, x')" and "fx_wf img x"
  shows "\<exists>m. x' = x\<lparr>fx_memory := m\<rparr> \<and> gm_byte m = gm_byte (fx_memory x) \<and> fx_wf img x'"
    and "r = Some v \<Longrightarrow> v = get8 (gm_byte (fx_memory x)) a"
proof -
  obtain q m b where rd: "gm_read (fx_memory x) a (Some (replicate 8 0)) 8 = (q, m, b)" by (metis prod_cases3)
  have wf: "gm_wf (fx_memory x)" using assms(2) by (simp add: fx_wf_def)
  have same: "same_memory (fx_memory x) m" by (rule gm_read_same [OF wf rd]) simp
  then have "gm_byte m = gm_byte (fx_memory x)" "gm_attr m = gm_attr (fx_memory x)"
    by (auto simp: same_memory_def gm_byte_def gm_attr_def gm_page_at_def)
  then show "\<exists>m. x' = x\<lparr>fx_memory := m\<rparr> \<and> gm_byte m = gm_byte (fx_memory x) \<and> fx_wf img x'"
    using assms rd same_memory_wf [OF same wf] by (auto simp: read_pointer_def fx_wf_def)
  show "v = get8 (gm_byte (fx_memory x)) a" if "r = Some v"
    using that assms rd gm_copy_read(3) [OF wf _ rd [unfolded gm_read_def]]
    by (auto simp: read_pointer_def get8_def split: if_splits)
qed

lemma write_pointer_spec:
  assumes "write_pointer calloc a v x = (ok, x')" and "fx_wf img x"
  shows "\<exists>m. x' = x\<lparr>fx_memory := m\<rparr> \<and> gm_byte m = (if ok then put8 a v (gm_byte (fx_memory x)) else gm_byte (fx_memory x))"
    and "fx_wf img x'" and "ok \<Longrightarrow> mapped_slot img a"
proof -
  obtain q m where p: "gm_populate (fx_memory x) a (Some (scalar_bytes v 8)) 8 (calloc a) = (q, m)" by fastforce
  have wf: "gm_wf (fx_memory x)" and at: "gm_attr (fx_memory x) = gm_attr (gi_memory img)"
    using assms(2) by (simp_all add: fx_wf_def)
  have x': "ok = (q = GM_OK)" "x' = x\<lparr>fx_memory := m\<rparr>" using assms(1) p by (auto simp: write_pointer_def)
  note s = gm_populate_spec [OF wf _ p, simplified]
  show "\<exists>m. x' = x\<lparr>fx_memory := m\<rparr> \<and> gm_byte m = (if ok then put8 a v (gm_byte (fx_memory x)) else gm_byte (fx_memory x))"
    using x' s(3) by (intro exI [of _ m]) (auto simp: put8_def fun_eq_iff)
  show "fx_wf img x'" using x' s(1,2) at by (simp add: fx_wf_def)
  show "mapped_slot img a" if ok
  proof -
    obtain b where c: "gm_copy (fx_memory x) None a (Some (scalar_bytes v 8)) 8 0 True (calloc a) = (q, m, b)"
      using p by (auto simp: gm_populate_def split: prod.splits)
    have "\<forall>y. in_range a 8 y \<longrightarrow> gm_allowed (fx_memory x) None 0 y"
      using gm_copy_write(7) [OF wf _ c] x'(1) that by simp
    then show ?thesis by (auto simp: mapped_slot_def gm_allowed_attr at [symmetric] split: option.splits)
  qed
qed
section \<open>The abstract machine\<close>

text \<open>Its state: the bytes, the context of the resolver and the fixups made so far, newest first.\<close>

type_synonym 'c relocation = "(u64 \<Rightarrow> u8) \<times> 'c \<times> (u64 \<times> u64 \<times> string option) list"

inductive opcode_fixup :: "GuestImage \<Rightarrow> u64 \<Rightarrow> 'c resolver \<Rightarrow> 'c relocation \<Rightarrow> 'c relocation \<Rightarrow> bool"
  for img slide f where
  rebase: "target img seg off = Some a \<Longrightarrow> mapped_slot img a \<Longrightarrow> v = get8 mem a + slide \<Longrightarrow>
    opcode_fixup img slide f (mem, c, log) (put8 a v mem, c, (a, v, None) # log)"
| bind: "target img seg off = Some a \<Longrightarrow> mapped_slot img a \<Longrightarrow> ordinal \<in> {- 3..int (length (gi_dylibs img))} \<Longrightarrow>
    f c symbol ordinal weak lazy = ((True, v), c') \<Longrightarrow>
    opcode_fixup img slide f (mem, c, log) (put8 a (v + addend) mem, c', (a, v + addend, Some symbol) # log)"

text \<open>The fields of a chained pointer: a bind names an import and a small addend, a rebase holds its target.\<close>

definition chain_target :: "bool \<Rightarrow> u64 \<Rightarrow> u64 \<Rightarrow> u64" where
  "chain_target relative header raw =
     ((raw AND 0xFFFFFFFFF) OR push_bit 56 (drop_bit 36 raw AND 0xFF)) + (if relative then header else 0)"

inductive chain_fixup ::
  "GuestImage \<Rightarrow> u64 \<Rightarrow> 'c resolver \<Rightarrow> ChainedImport list \<Rightarrow> 'c relocation \<Rightarrow> 'c relocation \<Rightarrow> bool"
  for img slide f ims where
  rebase: "raw = get8 mem a \<Longrightarrow> mapped_slot img a \<Longrightarrow> \<not> bit raw 63 \<Longrightarrow>
    v = chain_target relative (gi_header_address img) raw + slide \<Longrightarrow>
    chain_fixup img slide f ims (mem, c, log) (put8 a v mem, c, (a, v, None) # log)"
| bind: "raw = get8 mem a \<Longrightarrow> mapped_slot img a \<Longrightarrow> bit raw 63 \<Longrightarrow> unat (raw AND 0xFFFFFF) < length ims \<Longrightarrow>
    im = ims ! unat (raw AND 0xFFFFFF) \<Longrightarrow> f c (im_name im) (im_ordinal im) (im_weak im) False = ((found, v), c') \<Longrightarrow>
    found \<or> im_weak im \<Longrightarrow> v' = v + im_addend im + (drop_bit 24 raw AND 0xFF) \<Longrightarrow>
    chain_fixup img slide f ims (mem, c, log) (put8 a v' mem, c', (a, v', Some (im_name im)) # log)"

definition fx_abs :: "'c Fixing \<Rightarrow> 'c relocation" where
  "fx_abs x = (gm_byte (fx_memory x), fx_context x, fx_written x)"

text \<open>
  A part of a run is faithful to a machine: it keeps the layout, and when it succeeds it is a
  sequence of steps, each of them counted.
\<close>

definition faithful ::
  "GuestImage \<Rightarrow> ('c relocation \<Rightarrow> 'c relocation \<Rightarrow> bool) \<Rightarrow> 'c Fixing \<Rightarrow> string option \<Rightarrow> 'c Fixing \<Rightarrow> bool" where
  "faithful img R x r x' \<longleftrightarrow> (fx_wf img x \<longrightarrow>
     fx_wf img x' \<and> fx_observe x' = fx_observe x \<and>
     (r = None \<longrightarrow> fx_observe x \<longrightarrow>
        R\<^sup>*\<^sup>* (fx_abs x) (fx_abs x') \<and>
        length (fx_written x') + fx_rebases x + fx_binds x = length (fx_written x) + fx_rebases x' + fx_binds x'))"

lemma faithful_refl: "faithful img R x r x"
  by (simp add: faithful_def)

lemma faithful_trans: "faithful img R x None x1 \<Longrightarrow> faithful img R x1 r x2 \<Longrightarrow> faithful img R x r x2"
  by (auto simp: faithful_def)

text \<open>Where the code fails, only the layout matters.\<close>

lemma faithful_fail: "faithful img R x r x' \<longleftrightarrow> (fx_wf img x \<longrightarrow> fx_wf img x' \<and> fx_observe x' = fx_observe x)" if "r \<noteq> None"
  using that by (auto simp: faithful_def)

lemma faithful_failI:
  assumes "faithful img R x s x1" and "r \<noteq> None" and "fx_wf img x1 \<Longrightarrow> fx_wf img x'" and "fx_observe x' = fx_observe x1"
  shows "faithful img R x r x'"
  using assms by (auto simp: faithful_def)

text \<open>One fixup: counted, written and reported.\<close>

lemma faithful_step:
  assumes w: "write_pointer calloc a v x1 = (True, x2)"
    and x1: "fx_wf img x \<Longrightarrow> fx_wf img x1 \<and> fx_observe x1 = fx_observe x \<and> fx_written x1 = fx_written x \<and>
      gm_byte (fx_memory x1) = gm_byte (fx_memory x) \<and> fx_rebases x1 + fx_binds x1 = Suc (fx_rebases x + fx_binds x)"
    and R: "fx_wf img x \<Longrightarrow> mapped_slot img a \<Longrightarrow>
      R (fx_abs x) (put8 a v (gm_byte (fx_memory x)), fx_context x1, (a, v, symbol) # fx_written x)"
  shows "faithful img R x None (notify a v symbol x2)"
proof -
  have "R (fx_abs x) (fx_abs (notify a v symbol x2))" if "fx_wf img x" "fx_observe x"
    using R write_pointer_spec [OF w, of img] x1 that by (auto simp: fx_abs_def notify_def)
  moreover have "fx_wf img x2" "fx_observe x2 = fx_observe x" "fx_written x2 = fx_written x"
      "fx_rebases x2 + fx_binds x2 = Suc (fx_rebases x + fx_binds x)" if "fx_wf img x"
    using write_pointer_spec [OF w, of img] x1 that by auto
  ultimately show ?thesis
    by (auto simp: faithful_def notify_def fx_wf_def)
qed

section \<open>Opcode streams\<close>

lemma rebase_times_faithful:
  "rebase_times n calloc img slide ip x = (ok, ip', x') \<Longrightarrow>
   faithful img (opcode_fixup img slide f) x (if ok then None else Some []) x'"
proof (induction n arbitrary: ip x)
  case 0
  then show ?case by (simp add: faithful_refl)
next
  case (Suc n)
  let ?x0 = "x\<lparr>fx_rebases := Suc (fx_rebases x)\<rparr>"
  have x0: "faithful img (opcode_fixup img slide f) x (Some []) ?x0" by (simp add: faithful_fail fx_wf_def)
  show ?case
  proof (cases "ip_type ip \<noteq> 1 \<or> fx_rebases ?x0 > 1000000 \<or> target img (ip_seg ip) (ip_offset ip) = None")
    case True
    then show ?thesis using Suc.prems x0 faithful_refl by (auto simp: Let_def split: if_splits)
  next
    case False
    then obtain a where t: "target img (ip_seg ip) (ip_offset ip) = Some a" by blast
    obtain r x1 where rd: "read_pointer a ?x0 = (r, x1)" by fastforce
    have x1: "fx_wf img x \<Longrightarrow> \<exists>m. x1 = ?x0\<lparr>fx_memory := m\<rparr> \<and> gm_byte m = gm_byte (fx_memory x) \<and> fx_wf img x1"
      using read_pointer_spec(1) [OF rd, of img] by (auto simp: fx_wf_def)
    then have f1: "faithful img (opcode_fixup img slide f) x (Some []) x1" by (auto simp: faithful_fail)
    show ?thesis
    proof (cases r)
      case None
      then show ?thesis using Suc.prems False t rd f1 by auto
    next
      case (Some v)
      obtain w x2 where wr: "write_pointer calloc a (v + slide) x1 = (w, x2)" by fastforce
      have f2: "faithful img (opcode_fixup img slide f) x (Some []) x2"
        using f1 write_pointer_spec(1,2) [OF wr, of img] by (auto simp: faithful_fail)
      have v: "v = get8 (gm_byte (fx_memory x)) a" if "fx_wf img x"
        using read_pointer_spec(2) [OF rd, of img] that Some by (simp add: fx_wf_def)
      show ?thesis
      proof (cases "w \<and> add_offset (ip_offset ip) (8 + ip_skip ip) \<noteq> None")
        case False
        then show ?thesis using Suc.prems \<open>\<not> (_ \<or> _)\<close> t rd Some wr f2 by (auto split: if_splits)
      next
        case True
        then obtain off where off: "add_offset (ip_offset ip) (8 + ip_skip ip) = Some off" by blast
        have "faithful img (opcode_fixup img slide f) x None (notify a (v + slide) None x2)"
        proof (rule faithful_step)
          show "write_pointer calloc a (v + slide) x1 = (True, x2)" using wr True by simp
          show "opcode_fixup img slide f (fx_abs x)
              (put8 a (v + slide) (gm_byte (fx_memory x)), fx_context x1, (a, v + slide, None) # fx_written x)"
            if "fx_wf img x" "mapped_slot img a"
            using x1 [OF that(1)] opcode_fixup.rebase [OF t that(2) arg_cong [OF v [OF that(1)], of "\<lambda>u. u + slide"]]
            by (auto simp: fx_abs_def)
        qed (use x1 in auto)
        moreover have "rebase_times n calloc img slide (ip\<lparr>ip_offset := off\<rparr>) (notify a (v + slide) None x2) = (ok, ip', x')"
          using Suc.prems \<open>\<not> (_ \<or> _)\<close> t rd Some wr True off by simp
        ultimately show ?thesis using Suc.IH faithful_trans by blast
      qed
    qed
  qed
qed

lemma rebases_faithful:
  "rebases calloc img slide bs ip x = (r, x') \<Longrightarrow> faithful img (opcode_fixup img slide f) x r x'"
proof (induction calloc img slide bs ip x rule: rebases.induct)
  case (1 calloc img slide bs ip x)
  note run = 1(2) [unfolded rebases.simps [of calloc img slide bs ip x] Let_def]
  let ?ip0 = "ip\<lparr>ip_pos := Suc (ip_pos ip), ip_count := 0, ip_skip := 0\<rparr>"
  show ?case
  proof (cases "x' = x \<and> r \<noteq> None \<or> x' = x \<and> r = None")
    case True
    then show ?thesis by (auto simp: faithful_refl)
  next
    case False
    then have p: "ip_pos ip < length bs" "bs ! ip_pos ip AND 240 \<noteq> 0"
      using run by (auto split: if_splits)
    then obtain ip1 where op: "rebase_opcode bs (bs ! ip_pos ip) ?ip0 = Some ip1"
      using run False by (auto split: option.splits)
    have g: "\<not> (ip_bad ip1 \<or> ip_count ip1 > 1000000 \<or> ip_skip ip1 > UINT64_MAX - 8)"
      using run False p op by (auto split: if_splits)
    obtain ok ip2 x2 where t: "rebase_times (unat (ip_count ip1)) calloc img slide ip1 x = (ok, ip2, x2)"
      by (metis prod_cases3)
    note f = rebase_times_faithful [OF t, of f]
    show ?thesis
    proof (cases ok)
      case True
      have "rebases calloc img slide bs ip2 x2 = (r, x')" using run p op g t True by simp
      then have "faithful img (opcode_fixup img slide f) x2 r x'"
        using 1(1) [OF p(1) refl refl p(2) op g t [symmetric] refl] True by simp
      then show ?thesis using f True faithful_trans by simp
    next
      case False
      then show ?thesis using run p op g t f by simp
    qed
  qed
qed

lemma bind_times_faithful:
  "bind_times n calloc img f lazy weak_stream ip x = (r, ip', x') \<Longrightarrow>
   faithful img (opcode_fixup img slide f) x r x'"
proof (induction n arbitrary: ip x)
  case 0
  then show ?case by (simp add: faithful_refl)
next
  case (Suc n)
  let ?x0 = "x\<lparr>fx_binds := Suc (fx_binds x)\<rparr>"
  have x0: "faithful img (opcode_fixup img slide f) x (Some e) ?x0" for e by (simp add: faithful_fail fx_wf_def)
  show ?case
  proof (cases "ip_type ip \<noteq> BIND_TYPE_POINTER \<or> ip_symbol ip = None \<or> ip_ordinal ip > int (length (gi_dylibs img)) \<or>
      ip_ordinal ip < - 3 \<or> fx_binds ?x0 > 1000000 \<or> target img (ip_seg ip) (ip_offset ip) = None")
    case True
    then show ?thesis using Suc.prems x0 faithful_refl by (auto simp: Let_def split: if_splits)
  next
    case False
    then obtain a symbol where t: "target img (ip_seg ip) (ip_offset ip) = Some a" and s: "ip_symbol ip = Some symbol"
      and o: "ip_ordinal ip \<in> {- 3..int (length (gi_dylibs img))}" by auto
    obtain found v c where rs: "f (fx_context x) symbol (ip_ordinal ip) (ip_flags ip AND 1 \<noteq> 0 \<or> weak_stream) lazy = ((found, v), c)"
      by (metis prod.exhaust)
    let ?x1 = "?x0\<lparr>fx_context := c\<rparr>" and ?v = "v + ip_addend ip"
    obtain w x2 where wr: "write_pointer calloc a ?v ?x1 = (w, x2)" by fastforce
    have f1: "faithful img (opcode_fixup img slide f) x (Some e) ?x1" for e by (simp add: faithful_fail fx_wf_def)
    have f2: "faithful img (opcode_fixup img slide f) x (Some e) x2" for e
      using f1 write_pointer_spec(1,2) [OF wr, of img] by (auto simp: faithful_fail)
    show ?thesis
    proof (cases "found \<and> w")
      case True
      have "faithful img (opcode_fixup img slide f) x None (notify a ?v (Some symbol) x2)"
      proof (rule faithful_step)
        show "write_pointer calloc a ?v ?x1 = (True, x2)" using wr True by simp
        show "opcode_fixup img slide f (fx_abs x)
            (put8 a ?v (gm_byte (fx_memory x)), fx_context ?x1, (a, ?v, Some symbol) # fx_written x)"
          if "mapped_slot img a"
          using opcode_fixup.bind [OF t that o] rs True by (simp add: fx_abs_def)
      qed (auto simp: fx_wf_def)
      moreover have "bind_times n calloc img f lazy weak_stream (ip\<lparr>ip_offset := ip_offset ip + (8 + ip_skip ip)\<rparr>)
          (notify a ?v (Some symbol) x2) = (r, ip', x')"
        using Suc.prems \<open>\<not> (_ \<or> _)\<close> t s rs wr True by simp
      ultimately show ?thesis using Suc.IH faithful_trans by blast
    next
      case False
      then show ?thesis using Suc.prems \<open>\<not> (_ \<or> _)\<close> t s rs wr f1 f2 by (auto simp: Let_def split: if_splits)
    qed
  qed
qed

lemma binds_faithful:
  "binds calloc img f lazy weak_stream bs ip x = (r, x') \<Longrightarrow> faithful img (opcode_fixup img slide f) x r x'"
proof (induction calloc img f lazy weak_stream bs ip x rule: binds.induct)
  case (1 calloc img f lazy weak_stream bs ip x)
  note run = 1(2) [unfolded binds.simps [of calloc img f lazy weak_stream bs ip x] Let_def]
  let ?ip0 = "ip\<lparr>ip_pos := Suc (ip_pos ip), ip_count := 0, ip_skip := 0, ip_ended := False\<rparr>"
  show ?case
  proof (cases "x' = x")
    case True
    then show ?thesis by (auto simp: faithful_refl)
  next
    case False
    then have p: "ip_pos ip < length bs" "\<not> (bs ! ip_pos ip AND 240 = 0 \<and> \<not> lazy)"
      using run by (auto split: if_splits)
    then obtain ip1 where op: "bind_opcode img bs (bs ! ip_pos ip) ?ip0 = Some ip1"
      using run False by (auto split: option.splits)
    have g: "\<not> (ip_bad ip1 \<or> ip_count ip1 > 1000000)"
      using run False p op by (auto split: if_splits)
    obtain q ip2 x2 where t: "bind_times (unat (ip_count ip1)) calloc img f lazy weak_stream ip1 x = (q, ip2, x2)"
      by (metis prod_cases3)
    note f = bind_times_faithful [OF t, of slide]
    show ?thesis
    proof (cases "q = None")
      case True
      have "binds calloc img f lazy weak_stream bs ip2 x2 = (r, x')" using run p op g t True by auto
      then have "faithful img (opcode_fixup img slide f) x2 r x'"
        using 1(1) [OF p(1) refl refl p(2) op g t [symmetric] refl] True by simp
      then show ?thesis using f True faithful_trans by simp
    next
      case False
      then show ?thesis using run p op g t f by auto
    qed
  qed
qed

section \<open>Chains\<close>

abbreviation chain_machine :: "'c Chained \<Rightarrow> 'c relocation \<Rightarrow> 'c relocation \<Rightarrow> bool" where
  "chain_machine env \<equiv> chain_fixup (ch_image env) (ch_slide env) (ch_resolve env) (ch_imports env)"

lemma drop_bit_63: "drop_bit 63 (raw :: u64) \<noteq> 0 \<longleftrightarrow> bit raw 63"
proof
  assume "drop_bit 63 raw \<noteq> 0"
  then obtain k where "bit raw (63 + k)" by (auto simp: bit_eq_iff bit_drop_bit_eq)
  then show "bit raw 63" using bit_imp_le_length [of raw "63 + k"] by simp
next
  assume "bit raw 63"
  then show "drop_bit 63 raw \<noteq> 0" by (auto simp: bit_eq_iff bit_drop_bit_eq intro: exI [of _ 0])
qed

lemma chained_value_keeps:
  "chained_value env format raw x = (r, x') \<Longrightarrow>
   \<exists>c k l. x' = x\<lparr>fx_context := c, fx_rebases := k, fx_binds := l\<rparr> \<and> (\<forall>p. r = Inr p \<longrightarrow> k + l = Suc (fx_rebases x + fx_binds x))"
  by (cases x)
    (auto simp: chained_value_def Let_def split: if_splits prod.splits)

lemma chained_value_step:
  assumes "chained_value env format raw x = (Inr (v, symbol), x')" and "raw = get8 (gm_byte (fx_memory x)) a"
    and "mapped_slot (ch_image env) a"
  shows "chain_machine env (fx_abs x) (put8 a v (gm_byte (fx_memory x)), fx_context x', (a, v, symbol) # fx_written x)"
proof (cases "bit raw 63")
  case True
  let ?im = "ch_imports env ! unat (raw AND 0xFFFFFF)"
  obtain found w c where rs: "ch_resolve env (fx_context x) (im_name ?im) (im_ordinal ?im) (im_weak ?im) False = ((found, w), c)"
    by (metis prod.exhaust)
  have "unat (raw AND 0xFFFFFF) < length (ch_imports env)" "found \<or> im_weak ?im"
    "v = w + im_addend ?im + (drop_bit 24 raw AND 0xFF)" "symbol = Some (im_name ?im)" "fx_context x' = c"
    using assms(1) True rs by (auto simp: chained_value_def drop_bit_63 Let_def not_le add.assoc split: if_splits)
  then show ?thesis
    using chain_fixup.bind [where f = "ch_resolve env" and ims = "ch_imports env", OF assms(2,3) True _ refl rs]
    by (simp add: fx_abs_def)
next
  case False
  then have "symbol = None" "fx_context x' = fx_context x"
    "v = chain_target (format = DYLD_CHAINED_PTR_64_OFFSET) (gi_header_address (ch_image env)) raw + ch_slide env"
    using assms(1) by (auto simp: chained_value_def drop_bit_63 chain_target_def Let_def split: if_splits)
  then show ?thesis using chain_fixup.rebase [OF assms(2,3) False] by (simp add: fx_abs_def)
qed

lemma step_loop_faithful:
  "step_loop n env format page_start page_end a x = (r, x') \<Longrightarrow> faithful (ch_image env) (chain_machine env) x r x'"
proof (induction n arbitrary: a x)
  case 0
  then show ?case by (simp add: faithful_refl)
next
  case (Suc n)
  let ?F = "faithful (ch_image env) (chain_machine env) x"
  obtain q x1 where rd: "read_pointer a x = (q, x1)" by fastforce
  have x1: "fx_wf (ch_image env) x \<Longrightarrow> \<exists>m. x1 = x\<lparr>fx_memory := m\<rparr> \<and> gm_byte m = gm_byte (fx_memory x) \<and> fx_wf (ch_image env) x1"
    using read_pointer_spec(1) [OF rd, of "ch_image env"] by blast
  then have f1: "?F (Some e) x1" for e by (auto simp: faithful_fail)
  show ?case
  proof (cases "a > page_end - 8 \<or> a < page_start \<or> q = None")
    case True
    then show ?thesis using Suc.prems rd f1 by (auto simp: faithful_refl split: if_splits)
  next
    case False
    then obtain raw where q: "q = Some raw" by blast
    obtain s x2 where cv: "chained_value env format raw x1 = (s, x2)" by fastforce
    note k = chained_value_keeps [OF cv]
    have f2: "?F (Some e) x2" for e using f1 k by (auto simp: faithful_fail fx_wf_def)
    show ?thesis
    proof (cases s)
      case (Inl e)
      then show ?thesis using Suc.prems False rd q cv f2 by auto
    next
      case (Inr p)
      then obtain v symbol where s: "s = Inr (v, symbol)" by (cases p) auto
      obtain w x3 where wr: "write_pointer (ch_calloc env) a v x2 = (w, x3)" by fastforce
      have f3: "?F (Some e) x3" for e
        using f2 write_pointer_spec(1,2) [OF wr, of "ch_image env"] by (auto simp: faithful_fail)
      have step: "?F None (notify a v symbol x3)" if w
      proof (rule faithful_step)
        show "write_pointer (ch_calloc env) a v x2 = (True, x3)" using wr that by simp
        assume wf: "fx_wf (ch_image env) x"
        then have same: "gm_byte (fx_memory x1) = gm_byte (fx_memory x)" "fx_context x1 = fx_context x" "fx_written x1 = fx_written x"
          using x1 by auto
        show "fx_wf (ch_image env) x2 \<and> fx_observe x2 = fx_observe x \<and> fx_written x2 = fx_written x \<and>
            gm_byte (fx_memory x2) = gm_byte (fx_memory x) \<and> fx_rebases x2 + fx_binds x2 = Suc (fx_rebases x + fx_binds x)"
          using x1 [OF wf] k s by (auto simp: fx_wf_def)
        assume "mapped_slot (ch_image env) a"
        then show "chain_machine env (fx_abs x) (put8 a v (gm_byte (fx_memory x)), fx_context x2, (a, v, symbol) # fx_written x)"
          using chained_value_step [OF cv [unfolded s]] read_pointer_spec(2) [OF rd wf q] same by (simp add: fx_abs_def)
      qed
      show ?thesis
      proof (cases "w \<and> drop_bit 51 raw AND 0xFFF \<noteq> 0")
        case True
        then have "step_loop n env format page_start page_end (a + (drop_bit 51 raw AND 0xFFF) * 4) (notify a v symbol x3) = (r, x')"
          using Suc.prems \<open>\<not> (_ \<or> _)\<close> rd q cv s wr by (simp add: Let_def)
        then show ?thesis using Suc.IH step True faithful_trans by blast
      next
        case False
        then show ?thesis using Suc.prems \<open>\<not> (_ \<or> _)\<close> rd q cv s wr f3 step by (auto split: if_splits)
      qed
    qed
  qed
qed

lemma page_chain_faithful:
  "page_chain env segment page_size segment_offset format page off x = (r, x') \<Longrightarrow>
   faithful (ch_image env) (chain_machine env) x r x'"
  by (auto simp: page_chain_def Let_def faithful_refl step_loop_faithful split: if_splits)

lemma chain_loop_faithful:
  "chain_loop n env segment page_size segment_offset format page start lst chain x = (r, x') \<Longrightarrow>
   faithful (ch_image env) (chain_machine env) x r x'"
  by (induction n arbitrary: chain x)
    (auto simp: faithful_refl split: option.splits prod.splits if_splits dest!: page_chain_faithful intro: faithful_trans)

lemma page_loop_faithful:
  "page_loop n env segment at page_size segment_offset format page x = (r, x') \<Longrightarrow>
   faithful (ch_image env) (chain_machine env) x r x'"
  by (induction n arbitrary: page x)
    (auto simp: faithful_refl simp del: chain_loop.simps split: option.splits prod.splits if_splits
      dest!: chain_loop_faithful intro: faithful_trans)

lemma segment_chains_faithful:
  "segment_chains env at i x = (r, x') \<Longrightarrow> faithful (ch_image env) (chain_machine env) x r x'"
  by (auto simp: segment_chains_def faithful_refl page_loop_faithful split: if_splits option.splits)

lemma segment_loop_faithful:
  "segment_loop n env starts_offset i x = (r, x') \<Longrightarrow> faithful (ch_image env) (chain_machine env) x r x'"
  by (induction n arbitrary: i x)
    (auto simp: faithful_refl split: option.splits prod.splits if_splits dest!: segment_chains_faithful intro: faithful_trans)

section \<open>Images\<close>

lemma stream_same:
  assumes "stream img ok m offset sz = (r, m')" and "gm_wf m"
  shows "same_memory m m'"
proof (cases "find (stream_segment offset sz) (gi_segments img)")
  case (Some s)
  obtain q k b where rd: "gm_read m (gs_address s + ucast offset - gs_file_offset s) (Some (replicate (unat sz) 0)) (ucast sz) = (q, k, b)"
    by (metis prod_cases3)
  have "same_memory m k" by (rule gm_read_same [OF assms(2) rd]) (simp add: unsigned_ucast_eq)
  then show ?thesis using assms(1) Some rd by (auto simp: stream_def same_memory_def split: if_splits)
qed (use assms(1) in \<open>auto simp: stream_def same_memory_def split: if_splits\<close>)

lemma stream_faithful:
  assumes "stream img ok (fx_memory x) offset sz = (r, m)"
  shows "faithful img R x None (x\<lparr>fx_memory := m\<rparr>)"
proof -
  have "gm_wf m \<and> gm_byte m = gm_byte (fx_memory x) \<and> gm_attr m = gm_attr (fx_memory x)" if "gm_wf (fx_memory x)"
    using stream_same [OF assms that] same_memory_wf that
    by (auto simp: same_memory_def gm_byte_def gm_attr_def gm_page_at_def fun_eq_iff)
  then show ?thesis by (auto simp: faithful_def fx_wf_def fx_abs_def)
qed

lemma chained_faithful:
  assumes "chained al img slide f x = (r, x')"
  shows "\<exists>ims. faithful img (chain_fixup img slide f ims) x r x' \<and>
    (r = None \<longrightarrow> (\<exists>blob starts. chained_imports (fa_imports al) img blob = Inr (starts, ims)))"
proof -
  obtain bytes m where st: "stream img (fa_stream al 0) (fx_memory x) (gi_chained_offset img) (gi_chained_size img) = (bytes, m)"
    by fastforce
  note s = stream_faithful [OF st]
  have keep: "faithful img R x (Some e) (x\<lparr>fx_memory := m\<rparr>)" for R e
    by (rule faithful_failI [OF s]) simp_all
  show ?thesis
  proof (cases "\<exists>blob starts ims segs. bytes = Some blob \<and> chained_imports (fa_imports al) img blob = Inr (starts, ims) \<and>
      blob_u32 blob (ucast starts) = Some segs")
    case True
    then obtain blob starts ims segs where b: "bytes = Some blob" "chained_imports (fa_imports al) img blob = Inr (starts, ims)"
      "blob_u32 blob (ucast starts) = Some segs" by blast
    let ?env = "\<lparr>ch_calloc = fa_pages al, ch_image = img, ch_slide = slide, ch_resolve = f, ch_blob = blob, ch_imports = ims\<rparr>"
    have "segment_loop (unat segs) ?env (ucast starts) 0 (x\<lparr>fx_memory := m\<rparr>) = (r, x')"
      using assms st b by (simp add: chained_def)
    from faithful_trans [OF s segment_loop_faithful [OF this, simplified]] b(2) show ?thesis by blast
  next
    case False
    then have "x' = x\<lparr>fx_memory := m\<rparr>" "r \<noteq> None"
      using assms st by (auto simp: chained_def Let_def split: option.splits sum.splits prod.splits)
    then show ?thesis using keep by auto
  qed
qed

lemma fixup_stream_faithful:
  assumes "fixup_stream al img slide f i offset sz x = (r, x')"
  shows "faithful img (opcode_fixup img slide f) x r x'"
proof (cases "sz = 0")
  case True
  then show ?thesis using assms by (simp add: fixup_stream_def faithful_refl)
next
  case False
  obtain bytes m where st: "stream img (fa_stream al i) (fx_memory x) offset sz = (bytes, m)" by fastforce
  note s = stream_faithful [OF st]
  show ?thesis
  proof (cases bytes)
    case None
    then have "x' = x\<lparr>fx_memory := m\<rparr>" "r \<noteq> None" using assms False st by (auto simp: fixup_stream_def)
    then show ?thesis using faithful_failI [OF s] by simp
  next
    case (Some bs)
    obtain q x2 where run: "(if i = 0 then rebases (fa_pages al) img slide bs (ip_start 0 0) (x\<lparr>fx_memory := m\<rparr>)
        else binds (fa_pages al) img f (i = 1) (i = 3) bs
               (ip_start (if i = 3 then BIND_SPECIAL_DYLIB_WEAK_LOOKUP else 0) BIND_TYPE_POINTER) (x\<lparr>fx_memory := m\<rparr>)) = (q, x2)"
      by fastforce
    then have "faithful img (opcode_fixup img slide f) (x\<lparr>fx_memory := m\<rparr>) q x2"
      by (auto split: if_splits intro: rebases_faithful binds_faithful)
    then have "faithful img (opcode_fixup img slide f) x q x2" using s faithful_trans by blast
    moreover have "x' = x2" "r = (if q = Some [] then Some ''invalid or unsupported fixup stream'' else q)"
      using assms False st Some run by (auto simp: fixup_stream_def Let_def)
    ultimately show ?thesis by (auto simp: faithful_def)
  qed
qed

lemma fixup_streams_faithful:
  "fixup_streams al img slide f i ss x = (r, x') \<Longrightarrow> faithful img (opcode_fixup img slide f) x r x'"
  by (induction al img slide f i ss x rule: fixup_streams.induct)
    (auto simp: faithful_refl split: prod.splits option.splits dest!: fixup_stream_faithful intro: faithful_trans)

section \<open>Variable length integers\<close>

text \<open>The signed encoding: it ends where the remaining bits all repeat the sign bit of the last group.\<close>

definition sleb_done :: "nat \<Rightarrow> u64 \<Rightarrow> bool" where
  "sleb_done shift w \<longleftrightarrow> (\<forall>k \<in> {shift + 6..<64}. bit w k = bit w 63)"

function sleb_bytes :: "nat \<Rightarrow> u64 \<Rightarrow> u8 list" where
  "sleb_bytes shift w =
     (if shift \<ge> 63 then [if bit w 63 then 127 else 0]
      else let g = take_bit 7 (ucast (drop_bit shift w))
      in if sleb_done shift w then [g] else (g OR 128) # sleb_bytes (shift + 7) w)"
  by pat_completeness auto
termination by (relation "measure (\<lambda>(shift, w). 63 - shift)") auto

declare sleb_bytes.simps [simp del]

lemma leb_loop_uleb:
  "uleb_loop bs e shift cur v = Some (w, c) \<Longrightarrow> e \<le> length bs \<Longrightarrow> leb_loop bs False shift cur v = (w, c, False)"
proof (induction bs e shift cur v rule: uleb_loop.induct)
  case (1 bs e shift cur v)
  have g: "shift \<le> 63" "cur < e" and n: "\<not> (shift = 63 \<and> bs ! cur AND 0xfe \<noteq> 0)"
    using 1(2) by (auto simp: uleb_loop.simps [of bs e shift cur] Let_def split: if_splits)
  have "(bs ! cur AND 0xfe) AND 0x7e = bs ! cur AND 0x7e" by (simp add: and.assoc)
  then have m: "\<not> (shift = 63 \<and> bs ! cur AND 0x7e \<noteq> 0)" using n by auto
  show ?case
  proof (cases "bs ! cur AND 128 = 0")
    case True
    then show ?thesis using 1(2,3) g n m
      by (simp add: uleb_loop.simps [of bs e shift cur] leb_loop.simps [of bs False shift cur] Let_def)
  next
    case False
    then have "uleb_loop bs e (shift + 7) (Suc cur) (v OR push_bit shift (ucast (bs ! cur AND 127))) = Some (w, c)"
      using 1(2) g n by (simp add: uleb_loop.simps [of bs e shift cur] Let_def)
    then have "leb_loop bs False (shift + 7) (Suc cur) (v OR push_bit shift (ucast (bs ! cur AND 127))) = (w, c, False)"
      using 1(1) [OF conjI [OF g] refl n refl False] 1(3) by simp
    then show ?thesis using False g m 1(3) by (simp add: leb_loop.simps [of bs False shift cur] Let_def)
  qed
qed

lemma bit_group: "bit (take_bit 7 (ucast (drop_bit shift (w :: u64))) :: u8) k \<longleftrightarrow> k < 7 \<and> bit w (shift + k)"
  by (auto simp: bit_take_bit_iff bit_ucast_iff bit_drop_bit_eq dest: bit_imp_le_length)

lemma u8_64: "(b :: u8) AND 64 \<noteq> 0 \<longleftrightarrow> bit b 6"
  using and_exp_eq_0_iff_not_bit [of b 6] by simp

lemma join_group:
  assumes "shift < 63"
  shows "take_bit shift w OR push_bit shift (ucast (take_bit 7 (ucast (drop_bit shift w)) :: u8)) = take_bit (shift + 7) (w :: u64)"
proof (rule bit_word_eqI)
  fix n assume "n < LENGTH(64)"
  show "bit (take_bit shift w OR push_bit shift (ucast (take_bit 7 (ucast (drop_bit shift w)) :: u8))) n = bit (take_bit (shift + 7) w) n"
    using \<open>n < LENGTH(64)\<close> by (auto simp: bit_or_iff bit_push_bit_iff bit_ucast_iff bit_group bit_take_bit_iff bit_drop_bit_eq)
qed

lemma leb_loop_sleb:
  assumes "bytes_at bs pos (sleb_bytes shift w)" and "shift mod 7 = 0" and "shift \<le> 63"
  shows "leb_loop bs True shift pos (take_bit shift w) = (w, pos + length (sleb_bytes shift w), False)"
  using assms
proof (induction shift w arbitrary: pos rule: sleb_bytes.induct)
  case (1 shift w)
  let ?g = "take_bit 7 (ucast (drop_bit shift w)) :: u8"
  have g7: "?g AND 127 = ?g" by (simp add: u8_and(2))
  have g128: "?g AND 128 = 0" using bit_group [of shift w 7] by (simp add: u8_and(1))
  have gor: "(?g OR 128) AND 127 = ?g" "(?g OR 128) AND 128 \<noteq> 0"
  proof -
    have "bit (128 :: u8) k \<longleftrightarrow> k = 7" for k using bit_exp_iff [of 7 k, where 'a = "8 word"] by auto
    then show "(?g OR 128) AND 127 = ?g" "(?g OR 128) AND 128 \<noteq> 0"
      by (auto simp: u8_and(1,2) bit_or_iff take_bit_or intro!: bit_word_eqI simp: bit_take_bit_iff)
  qed
  consider (top) "shift = 63" | (last) "shift < 63" "sleb_done shift w"
    | (more) "shift < 63" "\<not> sleb_done shift w" using 1(4) by fastforce
  then show ?case
  proof cases
    case top
    then have s: "sleb_bytes shift w = [if bit w 63 then 127 else 0]" by (simp add: sleb_bytes.simps [of 63])
    have "push_bit 63 (127 :: u64) = 2 ^ 63" by code_simp
    then have p: "bit (push_bit 63 127 :: u64) n \<longleftrightarrow> n = 63" for n by (simp only: bit_exp_iff) auto
    have "take_bit 63 w OR (if bit w 63 then push_bit 63 127 else 0) = w"
    proof (rule bit_word_eqI)
      fix n assume "n < LENGTH(64)"
      then have "n < 63 \<or> n = 63" by auto
      then show "bit (take_bit 63 w OR (if bit w 63 then push_bit 63 127 else 0)) n = bit w n"
        by (cases "bit w 63") (auto simp only: bit_or_iff bit_take_bit_iff p if_True if_False bit_0_eq bot_fun_def bot_bool_def)
    qed
    then show ?thesis using top 1(2) s
      by (auto simp: leb_loop.simps [of bs True 63 pos] bytes_at_Cons Let_def split: if_splits)
  next
    case last
    then have s: "sleb_bytes shift w = [?g]" by (simp add: sleb_bytes.simps [of shift])
    have b: "pos < length bs" "bs ! pos = ?g" using 1(2) s by (auto simp: bytes_at_Cons)
    have high: "bit w k = bit w 63" if "shift + 6 \<le> k" "k < 64" for k
      using last(2) [unfolded sleb_done_def, THEN bspec, of k] that by simp
    have "shift \<le> 56" using last(1) 1(3) by presburger
    then have "bit w 63 = bit w (shift + 6)" using high [of "shift + 6"] by simp
    then have sign: "?g AND 64 \<noteq> 0 \<longleftrightarrow> bit w 63" by (simp add: u8_64 bit_group)
    have "take_bit (shift + 7) w OR (if bit w 63 then push_bit (shift + 7) (- 1) else 0) = w"
    proof (rule bit_word_eqI)
      fix n assume "n < LENGTH(64)"
      then show "bit (take_bit (shift + 7) w OR (if bit w 63 then push_bit (shift + 7) (- 1) else 0)) n = bit w n"
        using high [of n] by (cases "n < shift + 7") (auto simp: bit_simps)
    qed
    then show ?thesis
      using last(1) b s sign g7 g128 join_group [OF last(1), of w]
      by (simp add: leb_loop.simps [of bs True shift pos] Let_def split: if_splits)
  next
    case more
    then have s: "sleb_bytes shift w = (?g OR 128) # sleb_bytes (shift + 7) w" by (simp add: sleb_bytes.simps [of shift] Let_def)
    then have b: "pos < length bs" "bs ! pos = ?g OR 128" "bytes_at bs (Suc pos) (sleb_bytes (shift + 7) w)"
      using 1(2) by (auto simp: bytes_at_Cons)
    have "shift + 7 \<le> 63" using more(1) 1(3) by presburger
    then have "leb_loop bs True (shift + 7) (Suc pos) (take_bit (shift + 7) w) = (w, Suc pos + length (sleb_bytes (shift + 7) w), False)"
      using 1(1) [OF _ refl more(2) b(3)] more(1) 1(3) by (simp add: mod_add_eq)
    then show ?thesis
      using more(1) b s gor join_group [OF more(1), of w] by (simp add: leb_loop.simps [of bs True shift pos] Let_def)
  qed
qed

section \<open>Termination of the chains of a page\<close>

lemma blob_u16_outside: "length blob < unat offset + 2 \<Longrightarrow> blob_u16 blob offset = None"
  by (auto simp: blob_u16_def blob_at_def)

lemma chain_loop_more:
  assumes "n + chain = length (ch_blob env) + 1" and "lst \<noteq> 0" and "lst < 2 ^ 40" and "length (ch_blob env) < 2 ^ 40"
  shows "chain_loop (n + k) env segment page_size segment_offset format page start lst chain x =
    chain_loop n env segment page_size segment_offset format page start lst chain x"
  using assms(1)
proof (induction n arbitrary: chain x)
  case 0
  have c: "chain = length (ch_blob env) + 1" using 0 by simp
  have two: "unat (of_nat chain * 2 :: u64) = chain * 2"
    using c assms(4) unat_of_nat_u64 [of "chain * 2"] by simp
  have "unat lst < 2 ^ 40" using assms(3) by (simp add: word_less_nat_alt)
  then have "unat (lst + of_nat chain * 2) = unat lst + chain * 2"
    using two c assms(4) by (subst unat_plus_nowrap) simp_all
  then have "blob_u16 (ch_blob env) (lst + of_nat chain * 2) = None" using c by (intro blob_u16_outside) simp
  then show ?case using assms(2) by (cases k) simp_all
next
  case (Suc n)
  have "n + Suc chain = length (ch_blob env) + 1" using Suc.prems by simp
  from Suc.IH [OF this] show ?case by (simp split: option.splits prod.splits)
qed

text \<open>The chains of a page end. Their number has no bound in the code, which reads start after
  start from a list inside the fixups blob until one is marked as the last. Whatever the list holds, the
  loop is over within one round more than the blob has bytes: every larger bound gives the same result.\<close>

theorem chain_loop_terminates:
  assumes "lst < 2 ^ 40" and "length (ch_blob env) < 2 ^ 40" and "length (ch_blob env) + 1 \<le> n"
  shows "chain_loop n env segment page_size segment_offset format page start lst 0 x =
    chain_loop (length (ch_blob env) + 1) env segment page_size segment_offset format page start lst 0 x"
proof (cases "lst = 0")
  case True
  obtain i where "n = Suc i" using assms(3) by (cases n) auto
  then show ?thesis using True by (simp split: option.splits prod.splits)
next
  case False
  obtain k where n: "n = length (ch_blob env) + 1 + k" using assms(3) le_Suc_ex by blast
  show ?thesis unfolding n by (rule chain_loop_more) (use assms False in auto)
qed

definition sample_env :: "unit Chained" where
  "sample_env = \<lparr>ch_calloc = \<lambda>_ _. True, ch_image = gi_zero, ch_slide = 0, ch_resolve = \<lambda>_ _ _ _ _. ((True, 0), ()),
     ch_blob = [0, 0, 0, 0, 4, 0, 0, 0], ch_imports = []\<rparr>"

definition sample_fixing :: "GuestMemory \<Rightarrow> unit Fixing" where
  "sample_fixing m =
     \<lparr>fx_memory = m, fx_rebases = 0, fx_binds = 0, fx_context = (), fx_observe = True, fx_written = []\<rparr>"

theorem chain_loop_terminates_witness:
  "chain_loop 1000000 sample_env sample_segment 16384 0 2 0 0x8002 4 0 (sample_fixing gm_sample) =
   chain_loop 9 sample_env sample_segment 16384 0 2 0 0x8002 4 0 (sample_fixing gm_sample)"
proof -
  have "length (ch_blob sample_env) = 8" by (simp add: sample_env_def)
  then show ?thesis
    using chain_loop_terminates [of 4 sample_env 1000000 sample_segment 16384 0 2 0 "0x8002" "sample_fixing gm_sample"]
    by (simp del: chain_loop.simps)
qed

text \<open>A number written as a variable length integer, unsigned or signed, is read back by
  \<open>leb\<close> from any position of a stream, with the position after it and without an error.\<close>

theorem leb_roundtrip:
  "leb (xs @ uleb_bytes w @ ys) False (length xs) = (w, length xs + length (uleb_bytes w), False) \<and>
   leb (xs @ sleb_bytes 0 w @ ys) True (length xs) = (w, length xs + length (sleb_bytes 0 w), False)"
proof -
  have at: "bytes_at (xs @ zs @ ys) (length xs) zs" for zs by (simp add: bytes_at_def nth_append)
  have "export_uleb (xs @ uleb_bytes w @ ys) (length (xs @ uleb_bytes w @ ys)) (length xs) =
      Some (w, length xs + length (uleb_bytes w))"
    by (rule export_uleb_bytes [OF at]) simp_all
  then have "leb (xs @ uleb_bytes w @ ys) False (length xs) = (w, length xs + length (uleb_bytes w), False)"
    unfolding export_uleb_def leb_def by (rule leb_loop_uleb) simp
  then show ?thesis
    using leb_loop_sleb [OF at, of 0 w] by (simp add: leb_def)
qed

section \<open>Applying the fixups\<close>


text \<open>An image whose only page holds the rebase stream \<open>11 20 40 51 00\<close>: one pointer, at offset 64.\<close>

definition rebased_image :: GuestImage where
  "rebased_image = gi_zero
     \<lparr>gi_memory := \<lparr>gm_pages = [\<lparr>pg_address = 0x100000000, pg_bytes = Some (\<lambda>i. if i < 5 then [0x11, 0x20, 0x40, 0x51, 0] ! i else 0),
          pg_prot = 3, pg_maxprot = 3, pg_jit = False\<rparr>], gm_generation = 0, gm_code_generation = 0, gm_fault_address = 0\<rparr>,
      gi_segments := [\<lparr>gs_name = ''__DATA'', gs_address = 0x100000000, gs_size = 0x4000, gs_file_offset = 0, gs_file_size = 0x4000,
          gs_prot = 3, gs_maxprot = 3\<rparr>],
      gi_rebase_size := 5\<rparr>"

definition all_fixups_allocated :: FixupAllocations where
  "all_fixups_allocated = \<lparr>fa_stream = \<lambda>_. True, fa_imports = True, fa_pages = \<lambda>_ _. True\<rparr>"

lemma rebased_slot:
  assumes "fx_wf rebased_image x" and "in_range 0x100000000 0x4000 y" and "permission = 0 \<or> permission = GM_READ"
  shows "gm_allowed (fx_memory x) None permission y"
proof -
  have "gm_attr (gi_memory rebased_image) y = Some (3, 3, False)"
    using assms(2) by (simp add: sample_page_range gm_attr_def gm_page_at_def gm_tab_def rebased_image_def)
  then show ?thesis using assms by (auto simp: fx_wf_def gm_allowed_attr gm_page_denied_def gm_jit_denied_def)
qed

lemma in_page_offset: "in_range (0x100000000 + k) n y \<Longrightarrow> unat k + unat n \<le> 0x4000 \<Longrightarrow> in_range 0x100000000 0x4000 y"
  using offset_in_range(1) [of "0x100000000 :: u64" "0x4000 :: u64" k n y] by (simp add: in_range_def)

lemma rebased_read:
  assumes "fx_wf rebased_image x"
  obtains v x' where "read_pointer 0x100000040 x = (Some v, x')" "fx_wf rebased_image x'"
proof -
  obtain q m b where rd: "gm_read (fx_memory x) 0x100000040 (Some (replicate 8 0)) 8 = (q, m, b)" by (metis prod_cases3)
  have "gm_wf (fx_memory x)" using assms by (simp add: fx_wf_def)
  then have "q = GM_OK"
    using gm_copy_read(2) [OF _ _ rd [unfolded gm_read_def]] rebased_slot [OF assms] in_page_offset [of "0x40" 8] by simp
  then have r: "read_pointer 0x100000040 x = (Some (scalar_value (the b) 8), x\<lparr>fx_memory := m\<rparr>)"
    using rd by (simp add: read_pointer_def)
  then show ?thesis using read_pointer_spec(1) [OF r assms] by (intro that) blast+
qed

lemma rebased_write:
  assumes "fx_wf rebased_image x"
  obtains x' where "write_pointer (\<lambda>_ _. True) 0x100000040 v x = (True, x')" "fx_wf rebased_image x'"
proof -
  obtain q m where p: "gm_populate (fx_memory x) 0x100000040 (Some (scalar_bytes v 8)) 8 (\<lambda>_. True) = (q, m)" by fastforce
  then obtain b where c: "gm_copy (fx_memory x) None 0x100000040 (Some (scalar_bytes v 8)) 8 0 True (\<lambda>_. True) = (q, m, b)"
    by (auto simp: gm_populate_def split: prod.splits)
  have "gm_wf (fx_memory x)" using assms by (simp add: fx_wf_def)
  then have "q = GM_OK"
    using gm_copy_write(8) [OF _ _ c] rebased_slot [OF assms] in_page_offset [of "0x40" 8] by simp
  then have w: "write_pointer (\<lambda>_ _. True) 0x100000040 v x = (True, x\<lparr>fx_memory := m\<rparr>)"
    using p by (simp add: write_pointer_def)
  then show ?thesis using write_pointer_spec(2) [OF w assms] by (rule that)
qed

lemma rebased_stream:
  obtains m where "stream rebased_image True (gi_memory rebased_image) 0 5 = (Some [0x11, 0x20, 0x40, 0x51, 0], m)"
proof -
  have "fst (stream rebased_image True (gi_memory rebased_image) 0 5) = Some [0x11, 0x20, 0x40, 0x51, 0]" by code_simp
  then show ?thesis using that by (metis prod.collapse)
qed

lemma rebases_opcode:
  assumes "ip_pos ip < length bs" and "bs ! ip_pos ip AND 0xf0 \<noteq> 0"
    and "rebase_opcode bs (bs ! ip_pos ip) (ip\<lparr>ip_pos := Suc (ip_pos ip), ip_count := 0, ip_skip := 0\<rparr>) = Some mid"
    and "\<not> ip_bad mid" and "ip_count mid \<le> 1000000" and "ip_skip mid \<le> UINT64_MAX - 8"
    and "rebase_times (unat (ip_count mid)) calloc img slide mid x = (True, fin, y)"
  shows "rebases calloc img slide bs ip x = rebases calloc img slide bs fin y"
  using assms by (simp add: rebases.simps [of calloc img slide bs ip x] not_less [symmetric])

lemma rebased_run:
  assumes "fx_wf rebased_image x" and "fx_rebases x = 0"
  shows "fst (rebases (\<lambda>_ _. True) rebased_image 0x1000 [0x11, 0x20, 0x40, 0x51, 0] (ip_start 0 0) x) = None"
proof -
  let ?bs = "[0x11, 0x20, 0x40, 0x51, 0] :: u8 list" and ?F = "rebases (\<lambda>_ _. True) rebased_image 0x1000"
  define i1 where "i1 = (ip_start 0 0)\<lparr>ip_pos := 1, ip_type := 1\<rparr>"
  define i2 where "i2 = i1\<lparr>ip_pos := 3, ip_seg := 0, ip_offset := 64\<rparr>"
  define i3 where "i3 = i2\<lparr>ip_pos := 4, ip_offset := 72, ip_count := 1\<rparr>"
  have l: "leb ?bs False 2 = (64, 3, False)" by code_simp
  have t: "target rebased_image 0 64 = Some 0x100000040" by code_simp
  obtain v x1 where rd: "read_pointer 0x100000040 (x\<lparr>fx_rebases := 1\<rparr>) = (Some v, x1)" "fx_wf rebased_image x1"
    using rebased_read [of "x\<lparr>fx_rebases := 1\<rparr>"] assms(1) by (auto simp: fx_wf_def)
  obtain x2 where wr: "write_pointer (\<lambda>_ _. True) 0x100000040 (v + 0x1000) x1 = (True, x2)" "fx_wf rebased_image x2"
    by (rule rebased_write [OF rd(2)])
  have "?F ?bs (ip_start 0 0) x = ?F ?bs i1 x"
    by (rule rebases_opcode [where mid = i1]) (simp_all add: i1_def ip_start_def rebase_opcode_def)
  also have "\<dots> = ?F ?bs i2 x"
    by (rule rebases_opcode [where mid = i2]) (simp_all add: i2_def i1_def ip_start_def rebase_opcode_def ip_leb_def numeral_2_eq_2 [symmetric] l)
  also have "\<dots> = ?F ?bs i3 (notify 0x100000040 (v + 0x1000) None x2)"
    by (rule rebases_opcode [where mid = "i2\<lparr>ip_pos := 4, ip_count := 1\<rparr>"])
      (simp_all add: i3_def i2_def i1_def ip_start_def rebase_opcode_def t rd [unfolded One_nat_def] wr assms(2) add_offset_def)
  also have "fst \<dots> = None"
    by (subst rebases.simps) (simp add: i3_def)
  finally show ?thesis .
qed


end
