(* ===== verification/GuestLink.thy ===== *)
theory GuestLink
  imports GuestImage GuestFixups "HOL-Library.Sublist"
begin

text \<open>
  The libraries an application carries, \<open>runtime/GuestLink.c\<close>: which install name means which
  file inside the application's folder, the set of carried libraries, symbol lookup in the
  two-level namespace, weak coalescing, and the order of initialization.

  The file system is a record of functions, an argument. A pointer to an image is the executable's
  image, the image of a library of the set, or another image. Null pointers are \<open>None\<close>. The
  array of libraries is the list of its used entries. The outcomes of \<open>strdup\<close> are an argument.
\<close>

section \<open>Files and strings\<close>

record FileSystem =
  fs_realpath :: "string \<Rightarrow> string option"
  fs_regular :: "string \<Rightarrow> bool"
  fs_file :: "string \<Rightarrow> bytes option"

abbreviation PATH_MAX :: nat where "PATH_MAX \<equiv> 1024"
abbreviation (input) GL_MAX_LIBRARIES :: nat where "GL_MAX_LIBRARIES \<equiv> 64"
abbreviation GL_EXECUTABLE :: string where "GL_EXECUTABLE \<equiv> ''<executable>''"

text \<open>The standard functions: \<open>strrchr\<close>, \<open>strstr\<close> and \<open>strchr\<close> as positions, \<open>snprintf\<close> of a
  string into a buffer of a size, \<open>None\<close> where it does not fit.\<close>

definition strrchr :: "string \<Rightarrow> char \<Rightarrow> nat option" where
  "strrchr s c = (if c \<in> set s then Some (length s - 1 - length (takeWhile (\<lambda>x. x \<noteq> c) (rev s))) else None)"

definition strchr :: "string \<Rightarrow> char \<Rightarrow> nat option" where
  "strchr s c = (if c \<in> set s then Some (length (takeWhile (\<lambda>x. x \<noteq> c) s)) else None)"

primrec strstr :: "string \<Rightarrow> string \<Rightarrow> nat option" where
  "strstr [] needle = (if needle = [] then Some 0 else None)"
| "strstr (c # s) needle = (if prefix needle (c # s) then Some 0 else map_option Suc (strstr s needle))"

definition fits :: "string \<Rightarrow> nat \<Rightarrow> string option" where
  "fits s sz = (if length s < sz then Some s else None)"

definition directory_of :: "string \<Rightarrow> nat \<Rightarrow> string" where
  "directory_of path sz =
     (case strrchr path (CHR ''/'') of
        None \<Rightarrow> ''.''
      | Some slash \<Rightarrow> if slash = 0 then ''/'' else take (if slash \<ge> sz then sz - 1 else slash) path)"

text \<open>The last occurrence of the bundle's inner folder.\<close>

lemma strstr_le: "strstr s needle = Some k \<Longrightarrow> k + length needle \<le> length s"
proof (induction s arbitrary: k)
  case Nil
  then show ?case by (simp split: if_splits)
next
  case (Cons c s)
  show ?case
  proof (cases "prefix needle (c # s)")
    case True
    then show ?thesis using Cons.prems prefix_length_le by fastforce
  next
    case False
    then show ?thesis using Cons by auto
  qed
qed

function last_bundle :: "string \<Rightarrow> nat \<Rightarrow> nat option \<Rightarrow> nat option" where
  "last_bundle s pos bundle =
     (case strstr (drop pos s) ''/Contents/MacOS/'' of
        None \<Rightarrow> bundle
      | Some k \<Rightarrow> last_bundle s (Suc (pos + k)) (Some (pos + k)))"
  by pat_completeness auto
termination
  by (relation "measure (\<lambda>(s, pos, bundle). length s - pos)") (auto dest: strstr_le)

declare last_bundle.simps [simp del]

definition own_folder :: "string \<Rightarrow> nat \<Rightarrow> string" where
  "own_folder executable sz =
     (case last_bundle executable 0 None of
        None \<Rightarrow> directory_of executable sz
      | Some n \<Rightarrow> take (if n \<ge> sz then sz - 1 else n) executable)"

definition inside :: "string \<Rightarrow> string \<Rightarrow> bool" where
  "inside root path \<longleftrightarrow> prefix root path \<and> (length path = length root \<or> path ! length root = CHR ''/'')"

section \<open>The set\<close>

record GuestLibrary =
  lb_image :: GuestImage
  lb_path :: string
  lb_install_name :: string
  lb_loader :: nat
  lb_slide :: u64

record GuestLinkSet =
  ls_libraries :: "GuestLibrary list"
  ls_refused :: nat
  ls_refusal :: string
  ls_root :: "string option"
  ls_executable :: "string option"
  ls_executable_image :: "GuestImage option"
  ls_executable_slide :: u64

definition ls_zero :: GuestLinkSet where
  "ls_zero = \<lparr>ls_libraries = [], ls_refused = 0, ls_refusal = [], ls_root = None, ls_executable = None,
     ls_executable_image = None, ls_executable_slide = 0\<rparr>"

definition gl_destroy :: "GuestLinkSet \<Rightarrow> GuestLinkSet" where
  "gl_destroy ls = ls_zero"

datatype image_ref = Executable | Carried nat | Foreign GuestImage

definition ref_image :: "GuestLinkSet \<Rightarrow> image_ref \<Rightarrow> GuestImage option" where
  "ref_image ls r =
     (case r of
        Executable \<Rightarrow> ls_executable_image ls
      | Carried i \<Rightarrow> if i < length (ls_libraries ls) then Some (lb_image (ls_libraries ls ! i)) else None
      | Foreign img \<Rightarrow> Some img)"

definition library_of :: "GuestLinkSet \<Rightarrow> image_ref option \<Rightarrow> nat option" where
  "library_of ls r = (case r of Some (Carried i) \<Rightarrow> if i < length (ls_libraries ls) then Some i else None | _ \<Rightarrow> None)"

section \<open>Names to files\<close>

definition expand :: "GuestLinkSet \<Rightarrow> string option \<Rightarrow> string \<Rightarrow> nat \<Rightarrow> string option" where
  "expand ls from_path name sz =
     (let executable = the (ls_executable ls)
      in if take 16 name = ''@executable_path'' \<and> (length name = 16 \<or> name ! 16 = CHR ''/'')
         then fits (directory_of executable PATH_MAX @ drop 16 name) sz
         else if take 12 name = ''@loader_path'' \<and> (length name = 12 \<or> name ! 12 = CHR ''/'')
         then fits (directory_of (case from_path of Some p \<Rightarrow> p | None \<Rightarrow> executable) PATH_MAX @ drop 12 name) sz
         else if name \<noteq> [] \<and> hd name = CHR ''@'' then None
         else fits name sz)"

definition accept :: "FileSystem \<Rightarrow> GuestLinkSet \<Rightarrow> string \<Rightarrow> nat \<Rightarrow> string option" where
  "accept fs ls candidate sz =
     (case fs_realpath fs candidate of
        None \<Rightarrow> None
      | Some resolved \<Rightarrow>
          if \<not> fs_regular fs resolved \<or> \<not> inside (the (ls_root ls)) resolved then None else fits resolved sz)"

text \<open>The run paths of one image, in order.\<close>

primrec rpath_loop :: "FileSystem \<Rightarrow> GuestLinkSet \<Rightarrow> string option \<Rightarrow> string \<Rightarrow> nat \<Rightarrow> string list \<Rightarrow> string option" where
  "rpath_loop fs ls path leaf sz [] = None"
| "rpath_loop fs ls path leaf sz (rpath # rpaths) =
     (case expand ls path rpath PATH_MAX of
        None \<Rightarrow> rpath_loop fs ls path leaf sz rpaths
      | Some expanded \<Rightarrow>
          (case fits (expanded @ ''/'' @ leaf) PATH_MAX of
             None \<Rightarrow> rpath_loop fs ls path leaf sz rpaths
           | Some candidate \<Rightarrow>
               (case accept fs ls candidate sz of
                  Some out \<Rightarrow> Some out
                | None \<Rightarrow> rpath_loop fs ls path leaf sz rpaths)))"

text \<open>The image that names the library, then the images that loaded it; \<open>steps\<close> is one more than the libraries.\<close>

primrec loader_loop ::
  "nat \<Rightarrow> FileSystem \<Rightarrow> GuestLinkSet \<Rightarrow> image_ref option \<Rightarrow> string option \<Rightarrow> string \<Rightarrow> nat \<Rightarrow> string option" where
  "loader_loop 0 fs ls r path leaf sz = None"
| "loader_loop (Suc steps) fs ls r path leaf sz =
     (let rpaths = (case Option.bind r (ref_image ls) of Some img \<Rightarrow> gi_rpaths img | None \<Rightarrow> [])
      in case rpath_loop fs ls path leaf sz rpaths of
           Some out \<Rightarrow> Some out
         | None \<Rightarrow>
             (case library_of ls r of
                None \<Rightarrow> None
              | Some i \<Rightarrow>
                  let loader = lb_loader (ls_libraries ls ! i)
                  in if loader < length (ls_libraries ls)
                     then loader_loop steps fs ls (Some (Carried loader)) (Some (lb_path (ls_libraries ls ! loader))) leaf sz
                     else loader_loop steps fs ls (Some Executable) (ls_executable ls) leaf sz))"

text \<open>The output buffer is null when its size is 0.\<close>

definition gl_resolve ::
  "FileSystem \<Rightarrow> GuestLinkSet option \<Rightarrow> image_ref option \<Rightarrow> string option \<Rightarrow> string option \<Rightarrow> nat \<Rightarrow> string option" where
  "gl_resolve fs lset image_from from_path name sz =
     (case (lset, name) of
        (Some ls, Some name) \<Rightarrow>
          if ls_root ls = None \<or> ls_executable ls = None \<or> sz = 0 then None
          else if take 7 name = ''@rpath/''
          then loader_loop (length (ls_libraries ls) + 1) fs ls image_from from_path (drop 7 name) sz
          else (case expand ls from_path name PATH_MAX of
                  None \<Rightarrow> None
                | Some candidate \<Rightarrow> accept fs ls candidate sz)
      | _ \<Rightarrow> None)"

definition known_path :: "GuestLinkSet \<Rightarrow> string \<Rightarrow> bool" where
  "known_path ls path \<longleftrightarrow> (\<exists>l \<in> set (ls_libraries ls). lb_path l = path)"

section \<open>Carrying libraries\<close>

text \<open>
  The allocations: \<open>la_load n\<close> those of reading the library of attempt \<open>n\<close>, \<open>la_names n\<close> whether both
  of its names could be copied. An attempt adds a library or counts a refusal.
\<close>

record LinkAllocations =
  la_load :: "nat \<Rightarrow> Allocations"
  la_names :: "nat \<Rightarrow> bool"
  la_executable :: bool
  la_root :: bool

definition attempts :: "GuestLinkSet \<Rightarrow> nat" where
  "attempts ls = length (ls_libraries ls) + ls_refused ls"

definition carry ::
  "FileSystem \<Rightarrow> LinkAllocations \<Rightarrow> string \<Rightarrow> string \<Rightarrow> nat \<Rightarrow> GuestLinkSet \<Rightarrow> string option \<times> GuestLinkSet" where
  "carry fs al path install_name loader_index ls =
     (if length (ls_libraries ls) = GL_MAX_LIBRARIES then (Some ''the application carries more than 64 libraries'', ls)
      else case gi_load_library (fs_file fs path) (la_load al (attempts ls)) gi_zero of
        (Some e, _) \<Rightarrow> (None, ls\<lparr>ls_refusal := e, ls_refused := Suc (ls_refused ls)\<rparr>)
      | (None, img) \<Rightarrow>
          if gi_tls_initializer_count img \<noteq> 0
          then (None, ls\<lparr>ls_refusal := install_name @ '' needs thread-local constructors'', ls_refused := Suc (ls_refused ls)\<rparr>)
          else if \<not> la_names al (attempts ls) then (Some ''cannot hold the library list'', ls)
          else (None, ls\<lparr>ls_libraries := ls_libraries ls @
                  [\<lparr>lb_image = img, lb_path = path, lb_install_name = install_name, lb_loader = loader_index, lb_slide = 0\<rparr>]\<rparr>))"

text \<open>The libraries an image names, from the list \<open>names\<close> on.\<close>

primrec carried_loop ::
  "FileSystem \<Rightarrow> LinkAllocations \<Rightarrow> image_ref \<Rightarrow> string \<Rightarrow> nat \<Rightarrow> string list \<Rightarrow> GuestLinkSet \<Rightarrow> string option \<times> GuestLinkSet" where
  "carried_loop fs al image_from from_path loader_index [] ls = (None, ls)"
| "carried_loop fs al image_from from_path loader_index (name # names) ls =
     (case gl_resolve fs (Some ls) (Some image_from) (Some from_path) (Some name) PATH_MAX of
        None \<Rightarrow> carried_loop fs al image_from from_path loader_index names ls
      | Some path \<Rightarrow>
          if known_path ls path then carried_loop fs al image_from from_path loader_index names ls
          else case carry fs al path name loader_index ls of
            (Some e, ls) \<Rightarrow> (Some e, ls)
          | (None, ls) \<Rightarrow> carried_loop fs al image_from from_path loader_index names ls)"

definition carried_by ::
  "FileSystem \<Rightarrow> LinkAllocations \<Rightarrow> image_ref \<Rightarrow> string \<Rightarrow> GuestLinkSet \<Rightarrow> string option \<times> GuestLinkSet" where
  "carried_by fs al image_from from_path ls =
     carried_loop fs al image_from from_path
       (case library_of ls (Some image_from) of Some i \<Rightarrow> i | None \<Rightarrow> GL_MAX_LIBRARIES)
       (case ref_image ls image_from of Some img \<Rightarrow> gi_dylibs img | None \<Rightarrow> []) ls"

text \<open>What the libraries from index \<open>i\<close> on name; the list may grow meanwhile, up to its limit.\<close>

primrec closure_loop ::
  "nat \<Rightarrow> FileSystem \<Rightarrow> LinkAllocations \<Rightarrow> nat \<Rightarrow> GuestLinkSet \<Rightarrow> string option \<times> GuestLinkSet" where
  "closure_loop 0 fs al i ls = (None, ls)"
| "closure_loop (Suc left) fs al i ls =
     (if i < length (ls_libraries ls)
      then case carried_by fs al (Carried i) (lb_path (ls_libraries ls ! i)) ls of
             (Some e, ls) \<Rightarrow> (Some e, ls)
           | (None, ls) \<Rightarrow> closure_loop left fs al (Suc i) ls
      else (None, ls))"

text \<open>The executable's list first, then each library's, as loaded.\<close>

definition link_closure :: "FileSystem \<Rightarrow> LinkAllocations \<Rightarrow> string \<Rightarrow> GuestLinkSet \<Rightarrow> string option \<times> GuestLinkSet" where
  "link_closure fs al executable ls =
     (case carried_by fs al Executable executable ls of
        (Some e, ls) \<Rightarrow> (Some e, ls)
      | (None, ls) \<Rightarrow> closure_loop GL_MAX_LIBRARIES fs al 0 ls)"

text \<open>\<open>executable\<close> and \<open>executable_path\<close> are \<open>None\<close> for null pointers.\<close>

definition gl_load ::
  "FileSystem \<Rightarrow> LinkAllocations \<Rightarrow> GuestImage option \<Rightarrow> string option \<Rightarrow> GuestLinkSet \<Rightarrow> string option \<times> GuestLinkSet" where
  "gl_load fs al executable executable_path ls =
     (case (executable, executable_path) of
        (Some img, Some path) \<Rightarrow>
          (case fs_realpath fs path of
             None \<Rightarrow> (Some ''cannot resolve the executable's own path'', ls_zero)
           | Some resolved \<Rightarrow>
               (case fs_realpath fs (own_folder resolved PATH_MAX) of
                  None \<Rightarrow> (Some ''cannot resolve the application folder'', ls_zero)
                | Some root \<Rightarrow>
                    if \<not> la_executable al \<or> \<not> la_root al then (Some ''cannot hold the link set'', ls_zero)
                    else let ls = ls_zero\<lparr>ls_executable := Some resolved, ls_root := Some root, ls_executable_image := Some img\<rparr>
                    in case link_closure fs al resolved ls of
                         (Some e, ls) \<Rightarrow> (Some e, gl_destroy ls)
                       | (None, ls) \<Rightarrow> (None, ls)))
      | _ \<Rightarrow> (Some ''invalid link set request'', ls))"

primrec carry_paths ::
  "FileSystem \<Rightarrow> LinkAllocations \<Rightarrow> string option list \<Rightarrow> GuestLinkSet \<Rightarrow> string option \<times> GuestLinkSet" where
  "carry_paths fs al [] ls = (None, ls)"
| "carry_paths fs al (p # ps) ls =
     (case Option.bind p (\<lambda>path. if path = [] \<or> hd path \<noteq> CHR ''/'' then None else accept fs ls path PATH_MAX) of
        None \<Rightarrow> (Some ''not a file inside the application'', ls)
      | Some path \<Rightarrow>
          if known_path ls path then carry_paths fs al ps ls
          else case carry fs al path path GL_MAX_LIBRARIES ls of
            (Some e, ls) \<Rightarrow> (Some e, ls)
          | (None, ls) \<Rightarrow> carry_paths fs al ps ls)"

text \<open>The wider root, if one is given; its copy may fail.\<close>

definition widen :: "FileSystem \<Rightarrow> LinkAllocations \<Rightarrow> string option \<Rightarrow> GuestLinkSet \<Rightarrow> string + GuestLinkSet" where
  "widen fs al root ls =
     (case root of
        None \<Rightarrow> Inr ls
      | Some root \<Rightarrow>
          (case fs_realpath fs root of
             None \<Rightarrow> Inl ''cannot resolve the runtime folder''
           | Some resolved \<Rightarrow>
               if \<not> inside resolved (the (ls_root ls)) then Inl ''the runtime folder does not hold the executable''
               else if \<not> la_root al then Inl ''cannot hold the link set''
               else Inr (ls\<lparr>ls_root := Some resolved\<rparr>)))"

definition gl_carry ::
  "FileSystem \<Rightarrow> LinkAllocations \<Rightarrow> string option \<Rightarrow> string option list option \<Rightarrow> GuestLinkSet \<Rightarrow> string option \<times> GuestLinkSet" where
  "gl_carry fs al root paths ls =
     (if ls_executable ls = None \<or> ls_root ls = None \<or> paths = None then (Some ''invalid link set request'', ls)
      else case widen fs al root ls of
        Inl e \<Rightarrow> (Some e, ls)
      | Inr ls \<Rightarrow>
          (case carry_paths fs al (the paths) ls of
             (Some e, ls') \<Rightarrow> (Some e, ls')
           | (None, ls') \<Rightarrow> closure_loop GL_MAX_LIBRARIES fs al (length (ls_libraries ls)) ls'))"

section \<open>Symbols\<close>

definition first_index :: "('a \<Rightarrow> bool) \<Rightarrow> 'a list \<Rightarrow> nat option" where
  "first_index P xs = (if \<exists>x \<in> set xs. P x then Some (length (takeWhile (\<lambda>x. \<not> P x) xs)) else None)"

definition carried_as ::
  "FileSystem \<Rightarrow> GuestLinkSet \<Rightarrow> image_ref \<Rightarrow> string option \<Rightarrow> string option \<Rightarrow> nat option" where
  "carried_as fs ls image_from from_path install_name =
     (case install_name of
        None \<Rightarrow> None
      | Some name \<Rightarrow>
          (case gl_resolve fs (Some ls) (Some image_from) from_path (Some name) PATH_MAX of
             None \<Rightarrow> None
           | Some path \<Rightarrow> first_index (\<lambda>l. lb_path l = path) (ls_libraries ls)))"

record Answer =
  an_value :: u64
  an_weak :: bool
  an_name :: string

text \<open>Bit \<open>i\<close> of the mask of visited libraries.\<close>

definition mask_bit :: "nat \<Rightarrow> u64" where
  "mask_bit i = push_bit i 1"

text \<open>The libraries an image re-exports whole; \<open>look\<close> asks one library.\<close>

primrec reexport_loop ::
  "(nat \<Rightarrow> u64 \<Rightarrow> Answer option \<times> u64) \<Rightarrow> nat option list \<Rightarrow> u64 \<Rightarrow> Answer option \<times> u64" where
  "reexport_loop look [] visited = (None, visited)"
| "reexport_loop look (through # rest) visited =
     (case through of
        None \<Rightarrow> reexport_loop look rest visited
      | Some i \<Rightarrow>
          (case look i visited of
             (Some answer, visited) \<Rightarrow> (Some answer, visited)
           | (None, visited) \<Rightarrow> reexport_loop look rest visited))"

definition reexports :: "FileSystem \<Rightarrow> GuestLinkSet \<Rightarrow> image_ref \<Rightarrow> string option \<Rightarrow> GuestImage \<Rightarrow> nat option list" where
  "reexports fs ls r path img =
     map (\<lambda>(name, _). carried_as fs ls r path (Some name)) (filter snd (zip (gi_dylibs img) (gi_dylib_reexports img)))"

definition image_export ::
  "(string \<Rightarrow> bool \<Rightarrow> nat \<Rightarrow> u64 \<Rightarrow> Answer option \<times> u64) \<Rightarrow> FileSystem \<Rightarrow> GuestLinkSet \<Rightarrow> image_ref \<Rightarrow> GuestImage \<Rightarrow>
   string option \<Rightarrow> u64 \<Rightarrow> string \<Rightarrow> string \<Rightarrow> bool \<Rightarrow> u64 \<Rightarrow> Answer option \<times> u64" where
  "image_export look fs ls r img path slide name symbol shallow visited =
     (let (result, found, _) = gi_export img (Some symbol) True
      in if result = GI_EXPORT_FOUND
         then (Some \<lparr>an_value = (if ge_absolute found then ge_address found else ge_address found + slide),
                     an_weak = ge_weak found, an_name = name\<rparr>, visited)
         else if result = GI_EXPORT_REEXPORT
         then (case carried_as fs ls r path (Some (gi_dylibs img ! (unat (ge_ordinal found) - 1))) of
                 None \<Rightarrow> (None, visited)
               | Some defines \<Rightarrow> look (case ge_name found of Some n \<Rightarrow> n | None \<Rightarrow> symbol) False defines visited)
         else if shallow then (None, visited)
         else reexport_loop (look symbol False) (reexports fs ls r path img) visited)"

text \<open>One library, unless it was asked before; \<open>depth\<close> bounds the nesting of re-exports.\<close>

primrec library_export ::
  "nat \<Rightarrow> FileSystem \<Rightarrow> GuestLinkSet \<Rightarrow> string \<Rightarrow> bool \<Rightarrow> nat \<Rightarrow> u64 \<Rightarrow> Answer option \<times> u64" where
  "library_export 0 fs ls symbol shallow i visited = (None, visited)"
| "library_export (Suc depth) fs ls symbol shallow i visited =
     (if visited AND mask_bit i \<noteq> 0 then (None, visited)
      else let l = ls_libraries ls ! i
      in image_export (library_export depth fs ls) fs ls (Carried i) (lb_image l) (Some (lb_path l)) (lb_slide l)
           (lb_install_name l) symbol shallow (visited OR mask_bit i))"

abbreviation GL_DEPTH :: nat where "GL_DEPTH \<equiv> 65"

definition executable_export :: "FileSystem \<Rightarrow> GuestLinkSet \<Rightarrow> string \<Rightarrow> bool \<Rightarrow> u64 \<Rightarrow> Answer option \<times> u64" where
  "executable_export fs ls symbol shallow visited =
     (case ls_executable_image ls of
        None \<Rightarrow> (None, visited)
      | Some img \<Rightarrow>
          image_export (library_export GL_DEPTH fs ls) fs ls Executable img (ls_executable ls) (ls_executable_slide ls)
            GL_EXECUTABLE symbol shallow visited)"

text \<open>The candidates of weak coalescing in load order: the images with weak definitions that have the symbol.\<close>

definition candidates :: "FileSystem \<Rightarrow> GuestLinkSet \<Rightarrow> string \<Rightarrow> Answer option list" where
  "candidates fs ls symbol =
     (case ls_executable_image ls of
        None \<Rightarrow> []
      | Some img \<Rightarrow> [if gi_weak_defines img then fst (executable_export fs ls symbol True 0) else None]) @
     map (\<lambda>i. if gi_weak_defines (lb_image (ls_libraries ls ! i)) then fst (library_export GL_DEPTH fs ls symbol True i 0) else None)
       [0..<length (ls_libraries ls)]"

primrec coalesce_loop :: "Answer option list \<Rightarrow> Answer option \<Rightarrow> Answer option" where
  "coalesce_loop [] found = found"
| "coalesce_loop (c # cs) found =
     (case c of
        None \<Rightarrow> coalesce_loop cs found
      | Some answer \<Rightarrow>
          if \<not> an_weak answer then Some answer
          else coalesce_loop cs (if found = None then Some answer else found))"

definition coalesce :: "FileSystem \<Rightarrow> GuestLinkSet \<Rightarrow> image_ref \<Rightarrow> string \<Rightarrow> Answer option" where
  "coalesce fs ls image_from symbol =
     (case coalesce_loop (candidates fs ls symbol) None of
        Some answer \<Rightarrow> Some answer
      | None \<Rightarrow>
          if image_from = Executable then fst (executable_export fs ls symbol False 0)
          else case library_of ls (Some image_from) of
            None \<Rightarrow> None
          | Some self \<Rightarrow> fst (library_export GL_DEPTH fs ls symbol False self 0))"

definition gl_carried ::
  "FileSystem \<Rightarrow> GuestLinkSet option \<Rightarrow> image_ref option \<Rightarrow> string option \<Rightarrow> string option \<Rightarrow> nat option" where
  "gl_carried fs lset image_from from_path install_name =
     (case (lset, image_from) of (Some ls, Some r) \<Rightarrow> carried_as fs ls r from_path install_name | _ \<Rightarrow> None)"

text \<open>The libraries in load order, until one answers.\<close>

primrec flat_loop :: "FileSystem \<Rightarrow> GuestLinkSet \<Rightarrow> string \<Rightarrow> nat list \<Rightarrow> u64 \<Rightarrow> Answer option" where
  "flat_loop fs ls symbol [] visited = None"
| "flat_loop fs ls symbol (i # rest) visited =
     (case library_export GL_DEPTH fs ls symbol False i visited of
        (Some answer, _) \<Rightarrow> Some answer
      | (None, visited) \<Rightarrow> flat_loop fs ls symbol rest visited)"

definition find_answer ::
  "FileSystem \<Rightarrow> GuestLinkSet \<Rightarrow> image_ref \<Rightarrow> string option \<Rightarrow> int \<Rightarrow> string \<Rightarrow> Answer option" where
  "find_answer fs ls image_from from_path ordinal symbol =
     (if ordinal > 0
      then case ref_image ls image_from of
          None \<Rightarrow> None
        | Some img \<Rightarrow>
            if nat ordinal > length (gi_dylibs img) then None
            else case carried_as fs ls image_from from_path (Some (gi_dylibs img ! nat (ordinal - 1))) of
              None \<Rightarrow> None
            | Some named \<Rightarrow> fst (library_export GL_DEPTH fs ls symbol False named 0)
      else if ordinal = BIND_SPECIAL_DYLIB_MAIN_EXECUTABLE \<or> ordinal = 0 \<and> image_from = Executable
      then fst (executable_export fs ls symbol False 0)
      else if ordinal = 0
      then case library_of ls (Some image_from) of
          None \<Rightarrow> None
        | Some self \<Rightarrow> fst (library_export GL_DEPTH fs ls symbol False self 0)
      else if ordinal = BIND_SPECIAL_DYLIB_FLAT_LOOKUP
      then case executable_export fs ls symbol False 0 of
          (Some answer, _) \<Rightarrow> Some answer
        | (None, visited) \<Rightarrow> flat_loop fs ls symbol [0..<length (ls_libraries ls)] visited
      else if ordinal = BIND_SPECIAL_DYLIB_WEAK_LOOKUP then coalesce fs ls image_from symbol
      else None)"

text \<open>The value of the symbol and who answered; \<open>out\<close> is \<open>False\<close> for a null result pointer.\<close>

definition gl_lookup ::
  "FileSystem \<Rightarrow> GuestLinkSet option \<Rightarrow> image_ref option \<Rightarrow> string option \<Rightarrow> int \<Rightarrow> string option \<Rightarrow> bool \<Rightarrow>
   (u64 \<times> string) option" where
  "gl_lookup fs lset image_from from_path ordinal symbol out =
     (case (lset, image_from, symbol) of
        (Some ls, Some r, Some name) \<Rightarrow>
          if \<not> out then None
          else map_option (\<lambda>answer. (an_value answer, an_name answer)) (find_answer fs ls r from_path ordinal name)
      | _ \<Rightarrow> None)"

section \<open>Initialization order\<close>

text \<open>What an image needs, in the order of its list: the carried libraries among its dependencies.\<close>

definition needs :: "FileSystem \<Rightarrow> GuestLinkSet \<Rightarrow> image_ref \<Rightarrow> string option \<Rightarrow> GuestImage \<Rightarrow> nat list" where
  "needs fs ls r path img = List.map_filter (\<lambda>name. carried_as fs ls r path (Some name)) (gi_dylibs img)"

primrec initialize_after :: "nat \<Rightarrow> FileSystem \<Rightarrow> GuestLinkSet \<Rightarrow> nat \<Rightarrow> u64 \<times> nat list \<Rightarrow> u64 \<times> nat list" where
  "initialize_after 0 fs ls index st = st"
| "initialize_after (Suc depth) fs ls index st =
     (let (seen, order) = st; l = ls_libraries ls ! index
      in if seen AND mask_bit index \<noteq> 0 then st
         else let (seen, order) = fold (initialize_after depth fs ls)
                    (needs fs ls (Carried index) (Some (lb_path l)) (lb_image l)) (seen OR mask_bit index, order)
         in (seen, order @ [index]))"

text \<open>\<open>order\<close> is \<open>False\<close> for a null result pointer.\<close>

definition gl_initialization_order :: "FileSystem \<Rightarrow> GuestLinkSet option \<Rightarrow> bool \<Rightarrow> nat list" where
  "gl_initialization_order fs lset order =
     (case lset of
        None \<Rightarrow> []
      | Some ls \<Rightarrow>
          if \<not> order then []
          else let roots = (case ls_executable_image ls of None \<Rightarrow> [] | Some img \<Rightarrow> needs fs ls Executable (ls_executable ls) img)
          in snd (fold (initialize_after GL_DEPTH fs ls) (roots @ [0..<length (ls_libraries ls)]) (0, [])))"

section \<open>Opened images\<close>

definition same_leaf :: "string option \<Rightarrow> string \<Rightarrow> bool" where
  "same_leaf path leaf =
     (case path of
        None \<Rightarrow> False
      | Some p \<Rightarrow> (case strrchr p (CHR ''/'') of Some slash \<Rightarrow> drop (Suc slash) p | None \<Rightarrow> p) = leaf)"

text \<open>Image \<open>i\<close> of the set: 0 the executable, \<open>n\<close> the library \<open>n - 1\<close>.\<close>

definition placed_path :: "GuestLinkSet \<Rightarrow> nat \<Rightarrow> string option" where
  "placed_path ls i = (if i = 0 then ls_executable ls else Some (lb_path (ls_libraries ls ! (i - 1))))"

definition leaf_matches :: "GuestLinkSet \<Rightarrow> string \<Rightarrow> nat \<Rightarrow> bool" where
  "leaf_matches ls name i \<longleftrightarrow>
     same_leaf (placed_path ls i) name \<or> i > 0 \<and> same_leaf (Some (lb_install_name (ls_libraries ls ! (i - 1)))) name"

definition gl_placed ::
  "FileSystem \<Rightarrow> GuestLinkSet option \<Rightarrow> image_ref option \<Rightarrow> string option \<Rightarrow> string option \<Rightarrow> bool \<Rightarrow> nat option" where
  "gl_placed fs lset image_from from_path name out =
     (case (lset, name) of
        (Some ls, Some name) \<Rightarrow>
          if ls_executable ls = None \<or> name = [] \<or> \<not> out then None
          else if strchr name (CHR ''/'') = None then find (leaf_matches ls name) [0..<length (ls_libraries ls) + 1]
          else (case gl_resolve fs (Some ls) image_from from_path (Some name) PATH_MAX of
                  None \<Rightarrow> None
                | Some resolved \<Rightarrow> find (\<lambda>i. placed_path ls i = Some resolved) [0..<length (ls_libraries ls) + 1])
      | _ \<Rightarrow> None)"

definition gl_inside :: "FileSystem \<Rightarrow> GuestLinkSet option \<Rightarrow> string option \<Rightarrow> bool" where
  "gl_inside fs lset path =
     (case (lset, path) of
        (Some ls, Some path) \<Rightarrow>
          (case ls_root ls of
             None \<Rightarrow> False
           | Some root \<Rightarrow>
               path \<noteq> [] \<and> hd path = CHR ''@'' \<or>
               (case fs_realpath fs path of None \<Rightarrow> False | Some real \<Rightarrow> inside root real))
      | _ \<Rightarrow> False)"

definition contains_address :: "u64 \<Rightarrow> GuestLibrary \<Rightarrow> bool" where
  "contains_address a l \<longleftrightarrow>
     (let (reach, low) = gi_extent (lb_image l); base = low + lb_slide l in lb_slide l \<noteq> 0 \<and> a \<ge> base \<and> a - base < reach)"

definition gl_library_at :: "GuestLinkSet option \<Rightarrow> u64 \<Rightarrow> nat option" where
  "gl_library_at lset a = (case lset of None \<Rightarrow> None | Some ls \<Rightarrow> first_index (contains_address a) (ls_libraries ls))"

section \<open>Versioned framework names\<close>

lemma takeWhile_less: "\<exists>x \<in> set xs. \<not> P x \<Longrightarrow> length (takeWhile P xs) < length xs"
  by (induction xs) auto

lemma strchr_less: "strchr s c = Some k \<Longrightarrow> k < length s"
  by (auto simp: strchr_def split: if_splits intro: takeWhile_less)

function unversioned_loop :: "string \<Rightarrow> string \<Rightarrow> nat \<Rightarrow> string option" where
  "unversioned_loop name out sz =
     (case (case strstr name ''.framework/Versions/'' of
              None \<Rightarrow> None
            | Some at \<Rightarrow>
                (case strchr (drop (at + 20) name) (CHR ''/'') of
                   None \<Rightarrow> None
                 | Some rest \<Rightarrow> if rest = 0 then None else Some (at, at + 20 + rest))) of
        None \<Rightarrow> if length name < sz - length out then Some (out @ name) else None
      | Some (at, rest) \<Rightarrow>
          if length out + (at + 10) \<ge> sz then None
          else unversioned_loop (drop rest name) (out @ take (at + 10) name) sz)"
  by pat_completeness auto
termination
  by (relation "measure (\<lambda>(name, out, sz). length name)")
    (auto split: option.splits if_splits dest!: strchr_less)

declare unversioned_loop.simps [simp del]

definition unversioned :: "string \<Rightarrow> nat \<Rightarrow> string option" where
  "unversioned name sz = unversioned_loop name [] sz"

definition gl_same_install_name :: "string option \<Rightarrow> string option \<Rightarrow> bool" where
  "gl_same_install_name a b =
     (case (a, b) of
        (Some a, Some b) \<Rightarrow>
          a = b \<or> (case (unversioned a PATH_MAX, unversioned b PATH_MAX) of
                     (Some plain_a, Some plain_b) \<Rightarrow> plain_a = plain_b
                   | _ \<Rightarrow> False)
      | _ \<Rightarrow> False)"

definition gl_span :: "GuestLinkSet \<Rightarrow> u64" where
  "gl_span ls = foldl (\<lambda>total l. total + fst (gi_extent (lb_image l))) 0 (ls_libraries ls)"

end
