(* ===== verification/DepthFirst.thy ===== *)
theory DepthFirst
  imports Prelude
begin

text \<open>
  Depth-first walks over at most 64 nodes that remember the visited ones in a mask of 64 bits, the
  way \<open>runtime/GuestLink.c\<close> orders the libraries: a node is appended to the order after the nodes
  it needs, and a node met again is skipped. The locale states what the walk relies on, a
  dependency list that stays among the nodes; its lemmas show that the walk ends within one level
  more than there are nodes, appends each node once, and puts what a node needs before it unless the two
  lie on a cycle.
\<close>

definition members :: "u64 \<Rightarrow> nat set" where
  "members seen = {i. bit seen i}"

lemma members_0 [simp]: "members 0 = {}"
  by (simp add: members_def)

lemma mask_member: "(seen :: u64) AND 2 ^ i \<noteq> 0 \<longleftrightarrow> i \<in> members seen" "(seen :: u64) AND 2 ^ i = 0 \<longleftrightarrow> i \<notin> members seen"
  using and_exp_eq_0_iff_not_bit [of seen i] by (simp_all add: members_def)

lemma mask_add: "i < 64 \<Longrightarrow> members (seen OR 2 ^ i) = insert i (members seen)"
  by (auto simp: members_def bit_or_iff bit_exp_iff)

primrec dfs :: "nat \<Rightarrow> (nat \<Rightarrow> nat list) \<Rightarrow> nat \<Rightarrow> u64 \<times> nat list \<Rightarrow> u64 \<times> nat list" where
  "dfs 0 need i st = st"
| "dfs (Suc depth) need i st =
     (if fst st AND push_bit i 1 \<noteq> 0 then st
      else let r = fold (dfs depth need) (need i) (fst st OR push_bit i 1, snd st) in (fst r, snd r @ [i]))"

text \<open>One element stands before another in a list.\<close>

definition before :: "'a list \<Rightarrow> 'a \<Rightarrow> 'a \<Rightarrow> bool" where
  "before xs j k \<longleftrightarrow> (\<exists>as bs. xs = as @ k # bs \<and> j \<in> set as)"

lemma before_append: "before xs j k \<Longrightarrow> before (xs @ ys) j k"
  unfolding before_def by (metis append.assoc append_Cons)

lemma before_last: "j \<in> set xs \<Longrightarrow> before (xs @ [k]) j k"
  unfolding before_def by blast

locale dependency_graph =
  fixes n :: nat and need :: "nat \<Rightarrow> nat list"
  assumes few: "n \<le> 64"
    and need_less: "i < n \<Longrightarrow> j \<in> set (need i) \<Longrightarrow> j < n"
begin

definition edge :: "nat \<Rightarrow> nat \<Rightarrow> bool" where
  "edge i j \<longleftrightarrow> j \<in> set (need i)"

text \<open>What holds between two visits: the order lists visited nodes, once each, and respects the
  dependencies up to cycles. The open nodes are those visited and not yet in the order.\<close>

definition ordered :: "nat list \<Rightarrow> bool" where
  "ordered xs \<longleftrightarrow> (\<forall>k \<in> set xs. \<forall>j \<in> set (need k). before xs j k \<or> edge\<^sup>*\<^sup>* j k)"

definition walk :: "u64 \<times> nat list \<Rightarrow> bool" where
  "walk st \<longleftrightarrow> distinct (snd st) \<and> set (snd st) \<subseteq> members (fst st) \<and> members (fst st) \<subseteq> {..<n} \<and> ordered (snd st)"

definition open_nodes :: "u64 \<times> nat list \<Rightarrow> nat set" where
  "open_nodes st = members (fst st) - set (snd st)"

definition visits :: "u64 \<times> nat list \<Rightarrow> u64 \<times> nat list \<Rightarrow> bool" where
  "visits st st' \<longleftrightarrow> walk st' \<and> members (fst st) \<subseteq> members (fst st') \<and> set (snd st) \<subseteq> set (snd st') \<and> open_nodes st' = open_nodes st"

lemma visits_trans: "visits a b \<Longrightarrow> visits b c \<Longrightarrow> visits a c"
  by (auto simp: visits_def)

lemma unseen_less: "members s \<subseteq> members t \<Longrightarrow> members t \<subseteq> {..<n} \<Longrightarrow> card ({..<n} - members t) \<le> card ({..<n} - members s)"
  by (intro card_mono) auto

lemma dfs_visits:
  assumes "i < n" and "walk st" and "card ({..<n} - members (fst st)) < depth" and "\<forall>g \<in> open_nodes st. edge\<^sup>*\<^sup>* g i"
  shows "visits st (dfs depth need i st) \<and> i \<in> members (fst (dfs depth need i st))"
  using assms
proof (induction depth arbitrary: i st)
  case 0
  then show ?case by simp
next
  case (Suc depth)
  show ?case
  proof (cases "i \<in> members (fst st)")
    case True
    then show ?thesis using Suc.prems(2) by (simp add: mask_member visits_def)
  next
    case False
    let ?st = "(fst st OR 2 ^ i, snd st)"
    have m: "members (fst ?st) = insert i (members (fst st))" using Suc.prems(1) few mask_add by simp
    have w: "walk ?st" using Suc.prems(1,2) m by (auto simp: walk_def)
    have op: "open_nodes ?st = insert i (open_nodes st)"
      using m False Suc.prems(2) by (auto simp: open_nodes_def walk_def)
    have "card ({..<n} - members (fst ?st)) < card ({..<n} - members (fst st))"
      unfolding m using False Suc.prems(1) by (intro psubset_card_mono) auto
    then have c: "card ({..<n} - members (fst ?st)) < depth" using Suc.prems(3) by simp
    have fold: "visits a (fold (dfs depth need) js a) \<and> set js \<subseteq> members (fst (fold (dfs depth need) js a))"
      if "set js \<subseteq> set (need i)" "walk a" "card ({..<n} - members (fst a)) < depth" "open_nodes a = insert i (open_nodes st)" for js a
      using that
    proof (induction js arbitrary: a)
      case Nil
      then show ?case by (simp add: visits_def)
    next
      case (Cons j js)
      have ij: "edge i j" using Cons.prems(1) by (simp add: edge_def)
      have "\<forall>g \<in> open_nodes a. edge\<^sup>*\<^sup>* g j"
        using Cons.prems(4) Suc.prems(4) ij by (auto intro: rtranclp.rtrancl_into_rtrancl)
      then have v: "visits a (dfs depth need j a)" "j \<in> members (fst (dfs depth need j a))"
        using Suc.IH [of j a] Cons.prems need_less [OF Suc.prems(1)] by auto
      have "card ({..<n} - members (fst (dfs depth need j a))) < depth"
        using unseen_less [of "fst a" "fst (dfs depth need j a)"] v(1) Cons.prems(3) by (auto simp: visits_def walk_def)
      moreover have "set js \<subseteq> set (need i)" "walk (dfs depth need j a)" "open_nodes (dfs depth need j a) = insert i (open_nodes st)"
        using v(1) Cons.prems(1,4) by (auto simp: visits_def)
      ultimately have rest: "visits (dfs depth need j a) (fold (dfs depth need) js (dfs depth need j a))"
          "set js \<subseteq> members (fst (fold (dfs depth need) js (dfs depth need j a)))"
        using Cons.IH by blast+
      then have "j \<in> members (fst (fold (dfs depth need) js (dfs depth need j a)))"
        using v(2) unfolding visits_def by blast
      then show ?case using visits_trans [OF v(1) rest(1)] rest(2) by simp
    qed
    define r where "r = fold (dfs depth need) (need i) ?st"
    have r: "visits ?st r" "set (need i) \<subseteq> members (fst r)" using fold [OF order_refl w c op] by (simp_all add: r_def)
    have i: "i \<in> open_nodes r" using r(1) op by (simp add: visits_def)
    have reach: "edge\<^sup>*\<^sup>* j i" if "j \<in> open_nodes r" for j using that r(1) op Suc.prems(4) by (auto simp: visits_def)
    have "before (snd r @ [i]) j k \<or> edge\<^sup>*\<^sup>* j k" if "k \<in> set (snd r @ [i])" "j \<in> set (need k)" for j k
    proof (cases "k \<in> set (snd r)")
      case True
      then show ?thesis using r(1) that(2) before_append by (fastforce simp: visits_def walk_def ordered_def)
    next
      case False
      then have "k = i" using that(1) by simp
      then show ?thesis using that(2) r(2) reach [of j] before_last [of j "snd r" i] by (auto simp: open_nodes_def)
    qed
    then have "ordered (snd r @ [i])" by (auto simp: ordered_def)
    then have "visits st (fst r, snd r @ [i])"
      using r(1) op i m False by (auto simp: visits_def walk_def open_nodes_def)
    moreover have "i \<in> members (fst r)" using i by (simp add: open_nodes_def)
    moreover have "dfs (Suc depth) need i st = (fst r, snd r @ [i])"
      using False by (simp add: mask_member r_def Let_def)
    ultimately show ?thesis by simp
  qed
qed

text \<open>A walk from every node.\<close>

lemma dfs_all:
  assumes "set roots \<subseteq> {..<n}" and "n < depth"
  shows "let xs = snd (fold (dfs depth need) (roots @ [0..<n]) (0, [])) in distinct xs \<and> set xs = {..<n} \<and> ordered xs"
proof -
  have run: "walk (fold (dfs depth need) is st) \<and> open_nodes (fold (dfs depth need) is st) = {} \<and>
      set is \<subseteq> members (fst (fold (dfs depth need) is st)) \<and> members (fst st) \<subseteq> members (fst (fold (dfs depth need) is st))"
    if "walk st" "open_nodes st = {}" "set is \<subseteq> {..<n}" for "is" st
    using that
  proof (induction "is" arbitrary: st)
    case Nil
    then show ?case by simp
  next
    case (Cons i "is")
    have "card ({..<n} - members (fst st)) \<le> card {..<n}" by (intro card_mono) auto
    then have v: "visits st (dfs depth need i st)" "i \<in> members (fst (dfs depth need i st))"
      using dfs_visits [of i st depth] Cons.prems assms(2) by auto
    then show ?case using Cons.IH [of "dfs depth need i st"] Cons.prems by (auto simp: visits_def)
  qed
  let ?st = "fold (dfs depth need) (roots @ [0..<n]) (0, [])"
  have r: "walk ?st" "open_nodes ?st = {}" "set (roots @ [0..<n]) \<subseteq> members (fst ?st)"
  proof -
    have "walk (0, [])" "open_nodes (0, []) = {}" "set (roots @ [0..<n]) \<subseteq> {..<n}"
      using assms(1) by (auto simp: walk_def open_nodes_def ordered_def)
    from run [OF this] show "walk ?st" "open_nodes ?st = {}" "set (roots @ [0..<n]) \<subseteq> members (fst ?st)" by blast+
  qed
  have "{..<n} \<subseteq> members (fst ?st)" using r(3) by auto
  then have "set (snd ?st) = {..<n}" using r(1,2) unfolding walk_def open_nodes_def by blast
  then show ?thesis using r(1) by (simp add: walk_def Let_def)
qed

end

end
