(* ===== verification/GuestLinkLaws.thy ===== *)
theory GuestLinkLaws
  imports GuestLink DepthFirst
begin

text \<open>
  Correctness of the link set: nothing outside the application's folder is carried, symbol lookup
  ends and coalesces weak definitions as documented, and the initialization order has each library once,
  after the libraries it needs.
\<close>

section \<open>Paths\<close>

lemma inside_trans: "inside a b \<Longrightarrow> inside b c \<Longrightarrow> inside a c"
proof -
  assume ab: "inside a b" and bc: "inside b c"
  obtain u v where u: "b = a @ u" and v: "c = b @ v" using ab bc by (auto simp: inside_def prefix_def)
  have "u = [] \<or> hd u = CHR ''/''" using ab u by (cases u) (auto simp: inside_def nth_append)
  moreover have "v = [] \<or> hd v = CHR ''/''" using bc v by (cases v) (auto simp: inside_def nth_append)
  ultimately have "u @ v = [] \<or> hd (u @ v) = CHR ''/''" by (cases u) auto
  then show "inside a c" using u v by (cases "u @ v") (auto simp: inside_def nth_append)
qed

lemma accept_SomeD:
  "accept fs ls candidate sz = Some path \<Longrightarrow>
   fs_realpath fs candidate = Some path \<and> fs_regular fs path \<and> inside (the (ls_root ls)) path \<and> length path < sz"
  by (auto simp: accept_def fits_def split: option.splits if_splits)

text \<open>What a resolved name promises.\<close>

definition in_folder :: "FileSystem \<Rightarrow> string option \<Rightarrow> string \<Rightarrow> bool" where
  "in_folder fs root path \<longleftrightarrow>
     (\<exists>r candidate. root = Some r \<and> fs_realpath fs candidate = Some path \<and> fs_regular fs path \<and> inside r path)"

lemma accept_in_folder: "accept fs ls candidate sz = Some path \<Longrightarrow> ls_root ls \<noteq> None \<Longrightarrow> in_folder fs (ls_root ls) path"
  using accept_SomeD [of fs ls candidate sz path] by (auto simp: in_folder_def)

lemma rpath_loop_in_folder:
  "rpath_loop fs ls path leaf sz rpaths = Some out \<Longrightarrow> ls_root ls \<noteq> None \<Longrightarrow> in_folder fs (ls_root ls) out"
  by (induction rpaths) (auto split: option.splits dest!: accept_in_folder)

lemma loader_loop_in_folder:
  "loader_loop n fs ls r path leaf sz = Some out \<Longrightarrow> ls_root ls \<noteq> None \<Longrightarrow> in_folder fs (ls_root ls) out"
  by (induction n arbitrary: r path)
    (auto simp: Let_def split: option.splits if_splits dest!: rpath_loop_in_folder)

lemma gl_resolve_in_folder:
  "gl_resolve fs (Some ls) r path (Some name) sz = Some out \<Longrightarrow> in_folder fs (ls_root ls) out"
  by (auto simp: gl_resolve_def simp del: loader_loop.simps split: option.splits if_splits
      dest!: loader_loop_in_folder accept_in_folder)

section \<open>The set\<close>

text \<open>The invariant: few, distinct libraries inside the folder, each loaded by an earlier one or by the executable.\<close>

definition library_ok :: "FileSystem \<Rightarrow> string option \<Rightarrow> GuestLibrary \<Rightarrow> bool" where
  "library_ok fs root l \<longleftrightarrow> in_folder fs root (lb_path l) \<and> gi_tls_initializer_count (lb_image l) = 0 \<and>
     (\<exists>al. gi_load_library (fs_file fs (lb_path l)) al gi_zero = (None, lb_image l))"

definition link_ok :: "FileSystem \<Rightarrow> GuestLinkSet \<Rightarrow> bool" where
  "link_ok fs ls \<longleftrightarrow>
     length (ls_libraries ls) \<le> GL_MAX_LIBRARIES \<and> distinct (map lb_path (ls_libraries ls)) \<and>
     list_all (library_ok fs (ls_root ls)) (ls_libraries ls) \<and>
     (\<forall>i < length (ls_libraries ls). lb_loader (ls_libraries ls ! i) < i \<or> lb_loader (ls_libraries ls ! i) = GL_MAX_LIBRARIES)"

text \<open>A step of the closure only appends libraries.\<close>

definition grows :: "FileSystem \<Rightarrow> GuestLinkSet \<Rightarrow> GuestLinkSet \<Rightarrow> bool" where
  "grows fs ls ls' \<longleftrightarrow>
     (\<exists>more. ls_libraries ls' = ls_libraries ls @ more) \<and> ls_root ls' = ls_root ls \<and> ls_executable ls' = ls_executable ls \<and>
     ls_executable_image ls' = ls_executable_image ls \<and> (link_ok fs ls \<longrightarrow> link_ok fs ls')"

lemma grows_refl: "grows fs ls ls"
  by (simp add: grows_def)

lemma grows_trans: "grows fs a b \<Longrightarrow> grows fs b c \<Longrightarrow> grows fs a c"
  by (auto simp: grows_def)

lemma carry_grows:
  assumes "carry fs al path name loader ls = (r, ls')" and "in_folder fs (ls_root ls) path" and "\<not> known_path ls path"
    and "loader < length (ls_libraries ls) \<or> loader = GL_MAX_LIBRARIES"
  shows "grows fs ls ls'"
proof -
  obtain e img where ld: "gi_load_library (fs_file fs path) (la_load al (attempts ls)) gi_zero = (e, img)" by fastforce
  let ?l = "\<lparr>lb_image = img, lb_path = path, lb_install_name = name, lb_loader = loader, lb_slide = 0\<rparr>"
  have "ls_libraries ls' = ls_libraries ls @ [?l] \<and> e = None \<and> gi_tls_initializer_count img = 0 \<and> length (ls_libraries ls) \<noteq> 64 \<or>
      ls_libraries ls' = ls_libraries ls"
    and keep: "ls_root ls' = ls_root ls" "ls_executable ls' = ls_executable ls" "ls_executable_image ls' = ls_executable_image ls"
    using assms(1) ld by (auto simp: carry_def split: if_splits option.splits)
  then consider (same) "ls_libraries ls' = ls_libraries ls"
    | (more) "ls_libraries ls' = ls_libraries ls @ [?l]" "e = None" "gi_tls_initializer_count img = 0" "length (ls_libraries ls) \<noteq> 64"
    by blast
  then show ?thesis
  proof cases
    case same
    then show ?thesis using keep by (simp add: grows_def link_ok_def)
  next
    case more
    have "link_ok fs ls'" if ok: "link_ok fs ls"
    proof -
      have "lb_path ?l \<notin> lb_path ` set (ls_libraries ls)" using assms(3) by (auto simp: known_path_def)
      moreover have "library_ok fs (ls_root ls) ?l" using more ld assms(2) by (auto simp: library_ok_def)
      moreover have "lb_loader (ls_libraries ls' ! i) < i \<or> lb_loader (ls_libraries ls' ! i) = 64" if "i < length (ls_libraries ls')" for i
        using that ok assms(4) more by (cases "i < length (ls_libraries ls)") (auto simp: link_ok_def nth_append less_Suc_eq)
      ultimately show ?thesis using ok more keep by (auto simp: link_ok_def)
    qed
    then show ?thesis using more keep by (auto simp: grows_def)
  qed
qed

lemma carried_loop_grows:
  assumes "loader < length (ls_libraries ls) \<or> loader = GL_MAX_LIBRARIES"
    and "carried_loop fs al r path loader names ls = (e, ls')"
  shows "grows fs ls ls'"
  using assms
proof (induction names arbitrary: ls)
  case Nil
  then show ?case by (simp add: grows_refl)
next
  case (Cons name names)
  show ?case
  proof (cases "gl_resolve fs (Some ls) (Some r) (Some path) (Some name) PATH_MAX")
    case None
    then show ?thesis using Cons by simp
  next
    case (Some p)
    show ?thesis
    proof (cases "known_path ls p")
      case True
      then show ?thesis using Cons Some by simp
    next
      case False
      obtain c ls1 where cr: "carry fs al p name loader ls = (c, ls1)" by fastforce
      have g: "grows fs ls ls1" by (rule carry_grows [OF cr gl_resolve_in_folder [OF Some] False Cons.prems(1)])
      then have "loader < length (ls_libraries ls1) \<or> loader = 64" using Cons.prems(1) by (auto simp: grows_def)
      then show ?thesis using Cons Some False cr g by (cases c) (auto intro: grows_trans)
    qed
  qed
qed

lemma carried_by_grows: "carried_by fs al r path ls = (e, ls') \<Longrightarrow> grows fs ls ls'"
  unfolding carried_by_def
  by (rule carried_loop_grows) (auto simp: library_of_def split: option.splits image_ref.splits if_splits)

lemma closure_loop_grows: "closure_loop n fs al i ls = (e, ls') \<Longrightarrow> grows fs ls ls'"
  by (induction n arbitrary: i ls)
    (auto simp: grows_refl split: if_splits prod.splits option.splits dest!: carried_by_grows intro: grows_trans)

lemma carry_paths_grows: "carry_paths fs al ps ls = (e, ls') \<Longrightarrow> ls_root ls \<noteq> None \<Longrightarrow> grows fs ls ls'"
proof (induction ps arbitrary: ls)
  case Nil
  then show ?case by (simp add: grows_refl)
next
  case (Cons p ps)
  let ?a = "Option.bind p (\<lambda>path. if path = [] \<or> hd path \<noteq> CHR ''/'' then None else accept fs ls path PATH_MAX)"
  show ?case
  proof (cases ?a)
    case None
    then show ?thesis using Cons.prems by (simp add: grows_refl)
  next
    case (Some path)
    then have f: "in_folder fs (ls_root ls) path"
      using Cons.prems(2) by (auto simp: Option.bind_eq_Some_conv split: if_splits dest!: accept_in_folder)
    show ?thesis
    proof (cases "known_path ls path")
      case True
      then show ?thesis using Cons Some by simp
    next
      case False
      obtain c ls1 where cr: "carry fs al path path GL_MAX_LIBRARIES ls = (c, ls1)" by fastforce
      have g: "grows fs ls ls1" by (rule carry_grows [OF cr f False]) simp
      then have "ls_root ls1 \<noteq> None" using Cons.prems(2) by (simp add: grows_def)
      then show ?thesis using Cons Some False cr g by (cases c) (auto intro: grows_trans)
    qed
  qed
qed

lemma widen_ok:
  assumes "widen fs al root ls = Inr ls'" and "link_ok fs ls" and "ls_root ls \<noteq> None"
  shows "link_ok fs ls' \<and> ls_root ls' \<noteq> None"
proof (cases root)
  case None
  then show ?thesis using assms by (simp add: widen_def)
next
  case (Some d)
  then obtain resolved old where w: "ls' = ls\<lparr>ls_root := Some resolved\<rparr>" "ls_root ls = Some old" "inside resolved old"
    using assms by (auto simp: widen_def split: option.splits if_splits)
  then have "library_ok fs (Some resolved) l" if "library_ok fs (Some old) l" for l
    using that inside_trans by (auto simp: library_ok_def in_folder_def)
  then show ?thesis using assms(2) w by (auto simp: link_ok_def list_all_iff)
qed

lemma gl_carry_ok:
  assumes "gl_carry fs al root paths ls = (e, ls')" and "link_ok fs ls" and "ls_root ls \<noteq> None"
  shows "link_ok fs ls' \<and> ls_root ls' \<noteq> None"
proof (cases "ls' = ls")
  case False
  then obtain ls1 where w: "widen fs al root ls = Inr ls1"
    using assms(1) by (auto simp: gl_carry_def split: if_splits sum.splits)
  note ok = widen_ok [OF w assms(2,3)]
  obtain c ls2 where cp: "carry_paths fs al (the paths) ls1 = (c, ls2)" by fastforce
  have g: "grows fs ls1 ls2" using carry_paths_grows [OF cp] ok by blast
  have "grows fs ls1 ls'"
    using assms(1) False w cp g closure_loop_grows grows_trans
    by (cases c) (auto simp: gl_carry_def split: if_splits)
  then show ?thesis using ok by (auto simp: grows_def)
qed (use assms in simp)

lemma link_closure_grows: "link_closure fs al path ls = (e, ls') \<Longrightarrow> grows fs ls ls'"
  by (auto simp: link_closure_def simp del: closure_loop.simps split: prod.splits option.splits
      dest!: carried_by_grows closure_loop_grows intro: grows_trans)

lemma gl_load_ok:
  assumes "gl_load fs al executable path ls0 = (None, ls)"
  shows "link_ok fs ls \<and> ls_root ls \<noteq> None"
proof -
  obtain resolved root img where
    "link_closure fs al resolved (ls_zero\<lparr>ls_executable := Some resolved, ls_root := Some root, ls_executable_image := Some img\<rparr>) =
      (None, ls)"
    using assms by (auto simp: gl_load_def Let_def split: option.splits if_splits prod.splits)
  then have "grows fs (ls_zero\<lparr>ls_executable := Some resolved, ls_root := Some root, ls_executable_image := Some img\<rparr>) ls"
    by (rule link_closure_grows)
  then show ?thesis by (auto simp: grows_def link_ok_def ls_zero_def)
qed

text \<open>The sets a program can hold: loaded, extended, and with the libraries placed.\<close>

inductive linked :: "FileSystem \<Rightarrow> GuestLinkSet \<Rightarrow> bool" for fs where
  load: "gl_load fs al executable path ls0 = (None, ls) \<Longrightarrow> linked fs ls"
| carry: "linked fs ls \<Longrightarrow> linked fs (snd (gl_carry fs al root paths ls))"
| place: "linked fs ls \<Longrightarrow>
    linked fs (ls\<lparr>ls_libraries := map (\<lambda>l. l\<lparr>lb_slide := slide l\<rparr>) (ls_libraries ls), ls_executable_slide := s\<rparr>)"

lemma linked_ok: "linked fs ls \<Longrightarrow> link_ok fs ls \<and> ls_root ls \<noteq> None"
proof (induction rule: linked.induct)
  case (load al executable path ls0 ls)
  then show ?case by (rule gl_load_ok)
next
  case (carry ls al root paths)
  then show ?case using gl_carry_ok [of fs al root paths ls, OF prod.collapse [symmetric]] by blast
next
  case (place ls slide s)
  then show ?case by (auto simp: link_ok_def list_all_iff library_ok_def comp_def)
qed

section \<open>Initialization order\<close>

lemma first_index_less: "first_index P xs = Some i \<Longrightarrow> i < length xs \<and> P (xs ! i)"
  using nth_length_takeWhile [of "\<lambda>x. \<not> P x" xs] takeWhile_less [of xs "\<lambda>x. \<not> P x"]
  by (auto simp: first_index_def split: if_splits)

lemma carried_as_less: "carried_as fs ls r path name = Some i \<Longrightarrow> i < length (ls_libraries ls)"
  by (auto simp: carried_as_def split: option.splits dest: first_index_less)

definition lib_needs :: "FileSystem \<Rightarrow> GuestLinkSet \<Rightarrow> nat \<Rightarrow> nat list" where
  "lib_needs fs ls i = (let l = ls_libraries ls ! i in needs fs ls (Carried i) (Some (lb_path l)) (lb_image l))"

lemma needs_less: "j \<in> set (needs fs ls r path img) \<Longrightarrow> j < length (ls_libraries ls)"
  by (auto simp: needs_def List.map_filter_def dest: carried_as_less)

lemma initialize_after_dfs: "initialize_after depth fs ls i st = dfs depth (lib_needs fs ls) i st"
proof (induction depth arbitrary: i st)
  case 0
  then show ?case by simp
next
  case (Suc depth)
  have "initialize_after depth fs ls = dfs depth (lib_needs fs ls)" using Suc by (intro ext)
  then show ?case by (simp add: mask_bit_def lib_needs_def [of fs ls i] Let_def split: prod.splits)
qed

text \<open>The graph of the carried libraries: at most the 64 of the set, and their needs among them.\<close>

definition graph_size :: "GuestLinkSet \<Rightarrow> nat" where
  "graph_size ls = min GL_MAX_LIBRARIES (length (ls_libraries ls))"

definition graph_needs :: "FileSystem \<Rightarrow> GuestLinkSet \<Rightarrow> nat \<Rightarrow> nat list" where
  "graph_needs fs ls i = filter (\<lambda>j. j < graph_size ls) (lib_needs fs ls i)"

interpretation libs: dependency_graph "graph_size ls" "graph_needs fs ls" for fs ls
  by unfold_locales (auto simp: graph_size_def graph_needs_def)

lemma graph_needs_eq: "length (ls_libraries ls) \<le> 64 \<Longrightarrow> graph_needs fs ls = lib_needs fs ls"
  by (intro ext) (auto simp: graph_needs_def graph_size_def lib_needs_def Let_def filter_id_conv dest: needs_less)

text \<open>C17. The initialization order has every carried library exactly once, and puts what a library
  needs before it: only where two libraries need each other, directly or through others, the
  order between them is free.\<close>

theorem gl_initialization_order_correct:
  assumes "length (ls_libraries ls) \<le> GL_MAX_LIBRARIES"
  shows "let xs = gl_initialization_order fs (Some ls) True; n = length (ls_libraries ls)
     in distinct xs \<and> set xs = {..<n} \<and> length xs = n \<and>
        (\<forall>i < n. \<forall>j \<in> set (lib_needs fs ls i). before xs j i \<or> (\<lambda>i j. j \<in> set (lib_needs fs ls i))\<^sup>*\<^sup>* j i)"
proof -
  let ?n = "length (ls_libraries ls)" and ?xs = "gl_initialization_order fs (Some ls) True"
  have n: "graph_size ls = ?n" using assms by (simp add: graph_size_def)
  let ?roots = "case ls_executable_image ls of None \<Rightarrow> [] | Some img \<Rightarrow> needs fs ls Executable (ls_executable ls) img"
  have roots: "set ?roots \<subseteq> {..<graph_size ls}" using needs_less n by (fastforce split: option.splits)
  have f: "initialize_after GL_DEPTH fs ls = dfs GL_DEPTH (graph_needs fs ls)"
    by (intro ext) (simp add: initialize_after_dfs graph_needs_eq [OF assms] del: initialize_after.simps dfs.simps)
  have xs: "?xs = snd (fold (dfs GL_DEPTH (graph_needs fs ls)) (?roots @ [0..<graph_size ls]) (0, []))"
    by (simp add: gl_initialization_order_def f n Let_def del: dfs.simps initialize_after.simps)
  have "graph_size ls < GL_DEPTH" using assms n by simp
  note all = libs.dfs_all [where fs = fs, OF roots this, unfolded Let_def, folded xs, unfolded n]
  have d: "distinct ?xs" and s: "set ?xs = {..<?n}" and o: "libs.ordered fs ls ?xs" using all by blast+
  have "length ?xs = ?n" using distinct_card [OF d] s by simp
  moreover have "libs.edge fs ls = (\<lambda>i j. j \<in> set (lib_needs fs ls i))"
    by (intro ext) (subst libs.edge_def, simp add: graph_needs_eq [OF assms])
  moreover note o [unfolded libs.ordered_def]
  ultimately show ?thesis using d s by (simp add: graph_needs_eq [OF assms] Let_def)
qed

text \<open>An application with two libraries, the first of which needs the second.\<close>

definition sample_fs :: FileSystem where
  "sample_fs = \<lparr>fs_realpath = Some, fs_regular = \<lambda>_. True, fs_file = \<lambda>_. None\<rparr>"

definition sample_library :: "string \<Rightarrow> string list \<Rightarrow> GuestLibrary" where
  "sample_library path dylibs = \<lparr>lb_image = gi_zero\<lparr>gi_dylibs := dylibs\<rparr>, lb_path = path, lb_install_name = path, lb_loader = 64, lb_slide = 0\<rparr>"

definition sample_set :: GuestLinkSet where
  "sample_set = ls_zero\<lparr>ls_libraries := [sample_library ''/a/x'' [''/a/y''], sample_library ''/a/y'' []],
     ls_root := Some ''/a'', ls_executable := Some ''/a/p'', ls_executable_image := Some (gi_zero\<lparr>gi_dylibs := [''/a/x'']\<rparr>)\<rparr>"

lemma sample_order: "gl_initialization_order sample_fs (Some sample_set) True = [1, 0]"
  by code_simp

lemma sample_needs: "lib_needs sample_fs sample_set 0 = [1]"
  by code_simp

theorem gl_initialization_order_correct_witness:
  "distinct (gl_initialization_order sample_fs (Some sample_set) True) \<and>
   gl_initialization_order sample_fs (Some sample_set) True = [1, 0] \<and> lib_needs sample_fs sample_set 0 = [1]"
  using gl_initialization_order_correct [of sample_set sample_fs] sample_order sample_needs by (simp add: sample_set_def Let_def)

section \<open>Symbol lookup\<close>

text \<open>Asking a library only adds to the visited ones.\<close>

lemma reexport_loop_grows:
  assumes "\<And>i v. members v \<subseteq> members (snd (look i v))"
  shows "members v \<subseteq> members (snd (reexport_loop look ts v))"
proof (induction ts arbitrary: v)
  case (Cons t ts)
  show ?case
  proof (cases t)
    case (Some i)
    obtain a v1 where l: "look i v = (a, v1)" by fastforce
    then have "members v \<subseteq> members v1" using assms [of v i] by simp
    then show ?thesis using Cons.IH [of v1] Some l by (cases a) auto
  qed (simp add: Cons.IH)
qed simp

lemma image_export_grows:
  assumes "\<And>s sh i v. members v \<subseteq> members (snd (look s sh i v))"
  shows "members v \<subseteq> members (snd (image_export look fs ls r img path slide name symbol shallow v))"
  using assms reexport_loop_grows [of "look symbol False"]
  by (simp add: image_export_def Let_def split: prod.splits option.splits)

lemma library_export_grows: "members v \<subseteq> members (snd (library_export depth fs ls symbol shallow i v))"
proof (induction depth arbitrary: symbol shallow i v)
  case (Suc depth)
  have "members v \<subseteq> members (v OR mask_bit i)" by (auto simp: members_def bit_or_iff)
  then show ?case using image_export_grows [OF Suc] by (force simp: Let_def)
qed simp

text \<open>The result depends only on how the libraries answer from the visited ones on.\<close>

lemma reexport_loop_cong:
  assumes "\<And>i w. i \<in> I \<Longrightarrow> members v \<subseteq> members w \<Longrightarrow> look i w = look' i w" and "\<And>i w. members w \<subseteq> members (snd (look i w))"
    and "\<forall>t \<in> set ts. \<forall>i. t = Some i \<longrightarrow> i \<in> I"
  shows "reexport_loop look ts v = reexport_loop look' ts v"
proof -
  have "reexport_loop look ts w = reexport_loop look' ts w" if "members v \<subseteq> members w" for w
    using that assms(3)
  proof (induction ts arbitrary: w)
    case (Cons t ts)
    show ?case
    proof (cases t)
      case (Some i)
      then have eq: "look i w = look' i w" using Cons.prems assms(1) by simp
      obtain a w1 where l: "look i w = (a, w1)" by fastforce
      then have "members v \<subseteq> members w1" using Cons.prems(1) assms(2) [of w i] by auto
      then have "reexport_loop look ts w1 = reexport_loop look' ts w1" using Cons by simp
      moreover have "look' i w = (a, w1)" using eq l by simp
      ultimately show ?thesis using Some l by (cases a) simp_all
    qed (use Cons in simp)
  qed simp
  then show ?thesis by blast
qed

lemma image_export_cong:
  assumes "\<And>s sh i w. i < length (ls_libraries ls) \<Longrightarrow> members v \<subseteq> members w \<Longrightarrow> look s sh i w = look' s sh i w"
    and "\<And>s sh i w. members w \<subseteq> members (snd (look s sh i w))"
  shows "image_export look fs ls r img path slide name symbol shallow v =
    image_export look' fs ls r img path slide name symbol shallow v"
proof -
  have "\<forall>t \<in> set (reexports fs ls r path img). \<forall>i. t = Some i \<longrightarrow> i \<in> {..<length (ls_libraries ls)}"
  proof (intro ballI allI impI)
    fix t i
    assume "t \<in> set (reexports fs ls r path img)" and i: "t = Some i"
    then obtain nm where "t = carried_as fs ls r path (Some nm)" by (auto simp: reexports_def)
    then show "i \<in> {..<length (ls_libraries ls)}" using i carried_as_less by simp
  qed
  then have "reexport_loop (look symbol False) (reexports fs ls r path img) v = reexport_loop (look' symbol False) (reexports fs ls r path img) v"
    using assms by (intro reexport_loop_cong [of "{..<length (ls_libraries ls)}"]) auto
  then show ?thesis
    using assms(1) [OF _ order_refl] by (auto simp: image_export_def Let_def split: prod.splits option.splits dest: carried_as_less)
qed

lemma library_export_more:
  assumes "length (ls_libraries ls) \<le> 64" and "i < length (ls_libraries ls)"
    and "card ({..<length (ls_libraries ls)} - members v) < depth"
  shows "library_export (depth + k) fs ls symbol shallow i v = library_export depth fs ls symbol shallow i v"
  using assms(2,3)
proof (induction depth arbitrary: symbol shallow i v)
  case (Suc depth)
  show ?case
  proof (cases "i \<in> members v")
    case True
    then show ?thesis by (simp add: mask_bit_def mask_member)
  next
    case False
    have m: "members (v OR mask_bit i) = insert i (members v)" using Suc.prems(1) assms(1) by (simp add: mask_bit_def mask_add)
    let ?n = "length (ls_libraries ls)"
    have "card ({..<?n} - insert i (members v)) < card ({..<?n} - members v)"
      using False Suc.prems(1) by (intro psubset_card_mono) auto
    then have c: "card ({..<?n} - insert i (members v)) < depth" using Suc.prems(2) by simp
    have "card ({..<?n} - members w) < depth" if "insert i (members v) \<subseteq> members w" for w
    proof -
      have "card ({..<?n} - members w) \<le> card ({..<?n} - insert i (members v))" using that by (intro card_mono) auto
      then show ?thesis using c by simp
    qed
    then have "image_export (library_export (depth + k) fs ls) fs ls r img path slide name symbol shallow (v OR mask_bit i) =
        image_export (library_export depth fs ls) fs ls r img path slide name symbol shallow (v OR mask_bit i)" for r img path slide name
      using Suc.IH library_export_grows m by (intro image_export_cong) auto
    then show ?thesis by (simp add: Let_def)
  qed
qed simp

text \<open>C25. Symbol lookup follows re-exports from library to library, however they refer to each other,
  and ends: a library is asked once, so that no more than 65 calls are ever nested, and any larger
  bound on the nesting gives the same answer.\<close>

theorem library_export_terminates:
  assumes "length (ls_libraries ls) \<le> GL_MAX_LIBRARIES" and "i < length (ls_libraries ls)"
  shows "library_export (GL_DEPTH + k) fs ls symbol shallow i visited = library_export GL_DEPTH fs ls symbol shallow i visited"
proof (rule library_export_more [OF assms])
  have "card ({..<length (ls_libraries ls)} - members visited) \<le> card {..<length (ls_libraries ls)}" by (intro card_mono) auto
  then show "card ({..<length (ls_libraries ls)} - members visited) < GL_DEPTH" using assms(1) by simp
qed

theorem library_export_terminates_witness:
  "library_export 1000 sample_fs sample_set ''_f'' False 0 0 = library_export 65 sample_fs sample_set ''_f'' False 0 0"
  using library_export_terminates [of sample_set 0 935 sample_fs "''_f''" False 0]
  by (simp add: sample_set_def del: library_export.simps)

lemma coalesce_loop_found:
  "coalesce_loop cs found =
     (case find (\<lambda>a. \<not> an_weak a) (List.map_filter id cs) of
        Some a \<Rightarrow> Some a
      | None \<Rightarrow> if found \<noteq> None then found else (case List.map_filter id cs of [] \<Rightarrow> None | a # _ \<Rightarrow> Some a))"
  by (induction cs arbitrary: found) (auto simp: List.map_filter_simps split: option.splits)

text \<open>A weak lookup coalesces definitions: of the images that have weak definitions, in load order and
  the executable first, the first definition that is not weak answers, otherwise the first one;
  when none of them has the symbol, the binding image's own export answers.\<close>

theorem gl_lookup_weak:
  "gl_lookup fs (Some ls) (Some r) path BIND_SPECIAL_DYLIB_WEAK_LOOKUP (Some symbol) True =
     map_option (\<lambda>a. (an_value a, an_name a))
       (let defs = List.map_filter id (candidates fs ls symbol)
        in case find (\<lambda>a. \<not> an_weak a) defs of
             Some a \<Rightarrow> Some a
           | None \<Rightarrow>
               (case defs of
                  a # _ \<Rightarrow> Some a
                | [] \<Rightarrow>
                    if r = Executable then fst (executable_export fs ls symbol False 0)
                    else case library_of ls (Some r) of
                      None \<Rightarrow> None
                    | Some self \<Rightarrow> fst (library_export GL_DEPTH fs ls symbol False self 0)))"
proof -
  have "coalesce fs ls r symbol =
     (let defs = List.map_filter id (candidates fs ls symbol)
      in case find (\<lambda>a. \<not> an_weak a) defs of
           Some a \<Rightarrow> Some a
         | None \<Rightarrow>
             (case defs of
                a # _ \<Rightarrow> Some a
              | [] \<Rightarrow>
                  if r = Executable then fst (executable_export fs ls symbol False 0)
                  else case library_of ls (Some r) of
                    None \<Rightarrow> None
                  | Some self \<Rightarrow> fst (library_export GL_DEPTH fs ls symbol False self 0)))"
    unfolding coalesce_def coalesce_loop_found Let_def
    by (cases "find (\<lambda>a. \<not> an_weak a) (List.map_filter id (candidates fs ls symbol))")
      (simp_all del: library_export.simps split: list.splits)
  then show ?thesis by (simp add: gl_lookup_def find_answer_def del: library_export.simps)
qed

section \<open>Containment\<close>

text \<open>C12. Nothing outside the application's folder is ever carried. Whatever calls of \<open>gl_load\<close> and
  \<open>gl_carry\<close> build the set, and wherever its libraries are placed, each of at most 64 libraries was read
  from a regular file whose resolved path lies inside the folder, no file is carried twice, none has
  thread-local constructors, and each was first needed by an earlier library or by the executable.\<close>

theorem gl_contained:
  assumes "linked fs ls"
  shows "link_ok fs ls \<and> ls_root ls \<noteq> None"
  by (rule linked_ok [OF assms])

definition link_allocated :: LinkAllocations where
  "link_allocated = \<lparr>la_load = \<lambda>_. \<lparr>al_name = \<lambda>_. True, al_exports = True, al_map = \<lambda>_. True, al_pages = \<lambda>_ _. True, al_initializers = True\<rparr>,
     la_names = \<lambda>_. True, la_executable = True, la_root = True\<rparr>"

theorem gl_contained_witness:
  "\<exists>ls. gl_load sample_fs link_allocated (Some (gi_zero\<lparr>gi_dylibs := [''@executable_path/lib'', ''/b/lib'']\<rparr>)) (Some ''/a/p'') ls_zero = (None, ls) \<and>
     ls_refused ls = 1 \<and> link_ok sample_fs ls"
proof -
  let ?r = "gl_load sample_fs link_allocated (Some (gi_zero\<lparr>gi_dylibs := [''@executable_path/lib'', ''/b/lib'']\<rparr>)) (Some ''/a/p'') ls_zero"
  have e: "fst ?r = None" "ls_refused (snd ?r) = 1" by code_simp+
  then have "?r = (None, snd ?r)" by (simp add: prod_eq_iff)
  then have "linked sample_fs (snd ?r)" by (rule linked.load)
  from gl_contained [OF this] show ?thesis using e \<open>?r = (None, snd ?r)\<close> by blast
qed

section \<open>The bound of the closure\<close>

text \<open>The set never holds more than 64 libraries, so that 64 rounds visit all of them.\<close>

lemma closure_loop_enough:
  assumes "link_ok fs ls" and "64 \<le> i + n"
  shows "closure_loop (n + k) fs al i ls = closure_loop n fs al i ls"
  using assms
proof (induction n arbitrary: i ls)
  case 0
  then have "\<not> i < length (ls_libraries ls)" by (simp add: link_ok_def)
  then show ?case by (cases k) simp_all
next
  case (Suc n)
  obtain e ls1 where c: "carried_by fs al (Carried i) (lb_path (ls_libraries ls ! i)) ls = (e, ls1)" by fastforce
  have "link_ok fs ls1" using carried_by_grows [OF c] Suc.prems(1) by (simp add: grows_def)
  then have "closure_loop (n + k) fs al (Suc i) ls1 = closure_loop n fs al (Suc i) ls1" using Suc by simp
  then show ?case using c by (simp split: option.splits)
qed

end
