(* ===== verification/GuestSoftwareVM.thy ===== *)
theory GuestSoftwareVM
  imports GuestSparseOps GuestMemoryInstruction GuestExclusive GuestVMBudget
begin

text \<open>
  The software address range of \<open>runtime/GuestSoftwareVM.c\<close>: large reservations the host cannot place are kept
  in a sparse memory behind an address range the host leaves unmapped; a data abort there executes the
  faulting instruction on the sparse memory, and the memory calls of the application are routed by address.

  The host is a record of functions over an arbitrary kernel state, the one of \<open>GuestVMBudget\<close> with
  signal actions, the limits of the task, instruction reads and files. Ordinary host memory is a
  function from addresses to bytes. The static variables are a record, \<open>errno\<close> included; each
  call is one step. What is only written to the log, and the counters of instruction
  fetches, are left out.
\<close>

section \<open>State\<close>

datatype Handler = SIG_DFL | SIG_IGN | Guest_Handler nat | Dispatch_Signal

record Sigaction =
  sa_handler :: Handler
  sa_flags :: u32
  sa_mask :: u32

record 'k Host = "'k Kernel" +
  h_sigaction :: "'k \<Rightarrow> u32 \<Rightarrow> Sigaction option \<Rightarrow> (u32 option \<times> Sigaction) \<times> 'k"
  h_max_address :: "'k \<Rightarrow> u64 option"
  h_fetch :: "'k \<Rightarrow> u64 \<Rightarrow> u32 option"
  h_input :: "'k \<Rightarrow> u32 \<Rightarrow> u64 \<Rightarrow> u64 option \<Rightarrow> (u32 + u8 list) \<times> 'k"
  h_output :: "'k \<Rightarrow> u32 \<Rightarrow> u8 list \<Rightarrow> u64 option \<Rightarrow> (u32 + u64) \<times> 'k"
  h_fread :: "'k \<Rightarrow> u32 \<Rightarrow> u64 \<Rightarrow> u64 \<Rightarrow> u8 list \<times> 'k"
  h_fwrite :: "'k \<Rightarrow> u32 \<Rightarrow> u64 \<Rightarrow> u64 \<Rightarrow> u8 list \<Rightarrow> u64 \<times> 'k"

text \<open>The signal action in force: the one found at the start, or an entry of \<open>actions\<close>.\<close>

datatype action_ref = Original | Action nat

record 'k GSV =
  sv_memory :: "Space option"
  sv_base :: u64
  sv_span :: u64
  sv_guard :: "u64 option"
  sv_force_threshold :: u64
  sv_native_pool_size :: u64
  sv_forced_pool_size :: u64
  sv_pending_native_pool :: "u64 option"
  sv_enabled :: bool
  sv_fault_count :: u64
  sv_io_reports :: u32
  sv_code_base :: u64
  sv_code_alias :: u64
  sv_code_size :: u64
  sv_code_alias_enabled :: bool
  sv_original :: "Sigaction \<times> Sigaction"
  sv_actions :: "Sigaction list"
  sv_current :: "action_ref \<times> action_ref"
  sv_errno :: u32
  sv_host :: "u64 \<Rightarrow> u8"
  sv_kernel :: 'k

abbreviation ACTION_LIMIT :: nat where "ACTION_LIMIT \<equiv> 128"
abbreviation BOUNCE_SIZE :: u64 where "BOUNCE_SIZE \<equiv> 4096"
abbreviation (input) PROT_READ :: u32 where "PROT_READ \<equiv> 1"
abbreviation (input) PROT_WRITE :: u32 where "PROT_WRITE \<equiv> 2"
abbreviation (input) MAP_PRIVATE :: u32 where "MAP_PRIVATE \<equiv> 2"
abbreviation (input) MAP_NORESERVE :: u32 where "MAP_NORESERVE \<equiv> 0x40"
abbreviation (input) EACCES :: u32 where "EACCES \<equiv> 13"
abbreviation (input) EFAULT :: u32 where "EFAULT \<equiv> 14"
abbreviation (input) ENAMETOOLONG :: u32 where "ENAMETOOLONG \<equiv> 63"
abbreviation (input) EOVERFLOW :: u32 where "EOVERFLOW \<equiv> 84"
abbreviation (input) SIGBUS :: u32 where "SIGBUS \<equiv> 10"
abbreviation (input) SIGSEGV :: u32 where "SIGSEGV \<equiv> 11"
abbreviation (input) SA_RESETHAND :: u32 where "SA_RESETHAND \<equiv> 4"
abbreviation (input) SA_SIGINFO :: u32 where "SA_SIGINFO \<equiv> 0x40"

definition error_code :: "GMResult \<Rightarrow> u32" where
  "error_code r = (if r = GM_NOMEM then ENOMEM else if r = GM_PROTECTION then EACCES else EINVAL)"

definition gsv_rounded :: "u64 \<Rightarrow> u64 option" where
  "gsv_rounded sz =
     (if sz = 0 \<or> sz > UINT64_MAX - (GM_PAGE_SIZE - 1) then None
      else Some ((sz + GM_PAGE_SIZE - 1) AND NOT (GM_PAGE_SIZE - 1)))"

definition gsv_address :: "'k GSV \<Rightarrow> u64 \<Rightarrow> bool" where
  "gsv_address st a \<longleftrightarrow> sv_enabled st \<and> a \<ge> sv_base st \<and> a - sv_base st < sv_span st"

definition gsv_force_pool :: "u64 \<Rightarrow> 'k GSV \<Rightarrow> 'k GSV" where
  "gsv_force_pool sz st = st\<lparr>sv_forced_pool_size := sz\<rparr>"

text \<open>The host's calls set \<open>errno\<close> when they fail.\<close>

definition host_munmap :: "'k Host \<Rightarrow> u64 \<Rightarrow> u64 \<Rightarrow> 'k GSV \<Rightarrow> bool \<times> 'k GSV" where
  "host_munmap h a n st =
     (let (e, k) = k_munmap h (sv_kernel st) a n; st = st\<lparr>sv_kernel := k\<rparr>
      in case e of None \<Rightarrow> (True, st) | Some e \<Rightarrow> (False, st\<lparr>sv_errno := e\<rparr>))"

definition host_mprotect :: "'k Host \<Rightarrow> u64 \<Rightarrow> u64 \<Rightarrow> u32 \<Rightarrow> 'k GSV \<Rightarrow> bool \<times> 'k GSV" where
  "host_mprotect h a n prot st =
     (let (e, k) = k_mprotect h (sv_kernel st) a n prot; st = st\<lparr>sv_kernel := k\<rparr>
      in case e of None \<Rightarrow> (True, st) | Some e \<Rightarrow> (False, st\<lparr>sv_errno := e\<rparr>))"

definition host_madvise :: "'k Host \<Rightarrow> u64 \<Rightarrow> u64 \<Rightarrow> u32 \<Rightarrow> 'k GSV \<Rightarrow> bool \<times> 'k GSV" where
  "host_madvise h a n advice st =
     (let (e, k) = k_madvise h (sv_kernel st) a n advice; st = st\<lparr>sv_kernel := k\<rparr>
      in case e of None \<Rightarrow> (True, st) | Some e \<Rightarrow> (False, st\<lparr>sv_errno := e\<rparr>))"

definition host_mmap :: "'k Host \<Rightarrow> u64 \<Rightarrow> u64 \<Rightarrow> u32 \<Rightarrow> u32 \<Rightarrow> u32 \<Rightarrow> u64 \<Rightarrow> 'k GSV \<Rightarrow> u64 option \<times> 'k GSV" where
  "host_mmap h a n prot flags fd offset st =
     (let (r, k) = k_mmap h (sv_kernel st) a n prot flags fd offset; st = st\<lparr>sv_kernel := k\<rparr>
      in case r of Inr p \<Rightarrow> (Some p, st) | Inl e \<Rightarrow> (None, st\<lparr>sv_errno := e\<rparr>))"

definition host_sigaction :: "'k Host \<Rightarrow> u32 \<Rightarrow> Sigaction option \<Rightarrow> 'k GSV \<Rightarrow> bool \<times> Sigaction \<times> 'k GSV" where
  "host_sigaction h number action st =
     (let ((e, old), k) = h_sigaction h (sv_kernel st) number action; st = st\<lparr>sv_kernel := k\<rparr>
      in case e of None \<Rightarrow> (True, old, st) | Some e \<Rightarrow> (False, old, st\<lparr>sv_errno := e\<rparr>))"

definition gsv_prefer_native_pool :: "'k Host \<Rightarrow> u64 \<Rightarrow> 'k GSV \<Rightarrow> 'k GSV" where
  "gsv_prefer_native_pool h sz st =
     (let previous = sv_pending_native_pool st; st = st\<lparr>sv_pending_native_pool := None\<rparr>;
          st = (case previous of None \<Rightarrow> st | Some p \<Rightarrow> snd (host_munmap h p (sv_native_pool_size st) st));
          st = st\<lparr>sv_native_pool_size := sz\<rparr>
      in if \<not> sv_enabled st \<or> sz = 0 then st
         else let (reserved, st) = host_mmap h 0 sz PROT_NONE (MAP_PRIVATE OR MAP_ANON) (- 1) 0 st
         in st\<lparr>sv_pending_native_pool := reserved\<rparr>)"

section \<open>Instruction fetches\<close>

definition gsv_code_alias :: "u64 \<Rightarrow> u64 \<Rightarrow> u64 \<Rightarrow> 'k GSV \<Rightarrow> bool \<times> 'k GSV" where
  "gsv_code_alias start alias sz st =
     (if \<not> sv_enabled st \<or> sv_code_size st \<noteq> 0 \<or> start = 0 \<or> alias = 0 \<or> start AND 3 \<noteq> 0 \<or> alias AND 3 \<noteq> 0 \<or>
         sz < 4 \<or> sz AND 3 \<noteq> 0 \<or> sz > UINT64_MAX - start \<or> sz > UINT64_MAX - alias \<or>
         gsv_address st start \<or> gsv_address st alias
      then (False, st)
      else (True, st\<lparr>sv_code_base := start, sv_code_alias := alias, sv_code_size := sz, sv_code_alias_enabled := True\<rparr>))"

definition gsv_forget_code_alias :: "u64 \<Rightarrow> u64 \<Rightarrow> 'k GSV \<Rightarrow> 'k GSV" where
  "gsv_forget_code_alias start sz st =
     (if \<not> sv_code_alias_enabled st \<or> sz = 0 then st
      else if (if start \<le> sv_code_base st then sz > sv_code_base st - start else start - sv_code_base st < sv_code_size st)
      then st\<lparr>sv_code_alias_enabled := False\<rparr>
      else st)"

definition host_bytes :: "(u64 \<Rightarrow> u8) \<Rightarrow> u64 \<Rightarrow> nat \<Rightarrow> u8 list" where
  "host_bytes mem a n = map (\<lambda>i. mem (a + of_nat i)) [0..<n]"

text \<open>\<open>out\<close> is \<open>False\<close> for a null result pointer.\<close>

definition gsv_fetch_instruction :: "'k Host \<Rightarrow> 'k GSV \<Rightarrow> u64 \<Rightarrow> bool \<Rightarrow> u32 option" where
  "gsv_fetch_instruction h st pc out =
     (if \<not> out \<or> pc AND 3 \<noteq> 0 \<or> gsv_address st pc then None
      else if sv_code_alias_enabled st \<and> pc \<ge> sv_code_base st \<and> pc - sv_code_base st \<le> sv_code_size st - 4
      then Some (ucast (scalar_value (host_bytes (sv_host st) (sv_code_alias st + (pc - sv_code_base st)) 4) 4))
      else h_fetch h (sv_kernel st) pc)"

section \<open>Faults\<close>

text \<open>The machine context of a signal: the exception syndrome, the registers and the flags.\<close>

record UContext =
  uc_esr :: u32
  uc_x :: "nat \<Rightarrow> u64"
  uc_fp :: u64
  uc_lr :: u64
  uc_sp :: u64
  uc_pc :: u64
  uc_cpsr :: u32
  uc_vectors :: "nat \<Rightarrow> u8 list"

definition context_registers :: "UContext \<Rightarrow> GMMemoryRegisters" where
  "context_registers u =
     \<lparr>mx = (\<lambda>i. if i < 29 then uc_x u i else if i = 29 then uc_fp u else if i = 30 then uc_lr u else 0),
      msp = uc_sp u, mpc = uc_pc u, mvector = uc_vectors u\<rparr>"

definition context_nzcv :: "UContext \<Rightarrow> u8" where
  "context_nzcv u = ucast (drop_bit 28 (uc_cpsr u) AND 15)"

definition resume_context :: "GMMemoryRegisters \<Rightarrow> u8 \<Rightarrow> UContext \<Rightarrow> UContext" where
  "resume_context r flags u =
     u\<lparr>uc_x := (\<lambda>i. if i < 29 then mx r i else uc_x u i), uc_fp := mx r 29, uc_lr := mx r 30, uc_sp := msp r, uc_pc := mpc r,
       uc_cpsr := (uc_cpsr u AND 0x0fffffff) OR push_bit 28 (ucast flags), uc_vectors := mvector r\<rparr>"

text \<open>The faulting instruction on the sparse memory: an exclusive sequence or one data access.\<close>

definition execute_fault ::
  "'k Host \<Rightarrow> 'k GSV \<Rightarrow> u32 \<Rightarrow> GMMemoryRegisters \<Rightarrow> u8 \<Rightarrow> GMMemoryStep \<times> Space option \<times> GMMemoryRegisters \<times> u8" where
  "execute_fault h st i r flags =
     (if gm_exclusive_instruction i
      then let state = \<lparr>rx = mx r, rsp = msp r, rpc = mpc r, nzcv = flags\<rparr>;
               (result, memory, out, _, _) =
                 gm_exclusive_sequence (sv_memory st) i state (\<lambda>pc. gsv_fetch_instruction h st pc True) True
                   (Some \<lparr>dg_pc = 0, dg_reason = []\<rparr>)
           in case out of
                Some s \<Rightarrow> if result = GM_STEP_OK then (result, memory, r\<lparr>mx := rx s, msp := rsp s, mpc := rpc s\<rparr>, nzcv s)
                          else (result, memory, r, flags)
              | None \<Rightarrow> (result, memory, r, flags)
      else let (result, memory, r, _) = gm_memory_step (sv_memory st) i r True in (result, memory, r, flags))"

text \<open>\<open>address\<close> is \<open>None\<close> for a null signal information.\<close>

definition handle_fault :: "'k Host \<Rightarrow> u64 option \<Rightarrow> UContext \<Rightarrow> 'k GSV \<Rightarrow> bool \<times> UContext \<times> 'k GSV" where
  "handle_fault h address u st =
     (case address of
        None \<Rightarrow> (False, u, st)
      | Some a \<Rightarrow>
          if \<not> gsv_address st a \<or> drop_bit 26 (uc_esr u) \<noteq> 0x24 \<or> uc_pc u AND 3 \<noteq> 0 \<or> gsv_address st (uc_pc u)
          then (False, u, st)
          else case gsv_fetch_instruction h st (uc_pc u) True of
            None \<Rightarrow> (False, u, st)
          | Some i \<Rightarrow>
              let (result, memory, r, flags) = execute_fault h st i (context_registers u) (context_nzcv u);
                  st = st\<lparr>sv_memory := memory\<rparr>
              in if result \<noteq> GM_STEP_OK then (False, u, st)
                 else (True, resume_context r flags u, st\<lparr>sv_fault_count := sv_fault_count st + 1\<rparr>))"

section \<open>Signals\<close>

definition signal_action :: "'k GSV \<Rightarrow> bool \<Rightarrow> Sigaction" where
  "signal_action st bus =
     (case (if bus then snd (sv_current st) else fst (sv_current st)) of
        Original \<Rightarrow> if bus then snd (sv_original st) else fst (sv_original st)
      | Action i \<Rightarrow> sv_actions st ! i)"

definition set_current :: "bool \<Rightarrow> action_ref \<Rightarrow> 'k GSV \<Rightarrow> 'k GSV" where
  "set_current bus a st = st\<lparr>sv_current := (if bus then (fst (sv_current st), a) else (a, snd (sv_current st)))\<rparr>"

text \<open>What a signal comes to: the program goes on, the signal is ignored, raised with its default
  action, or passed to a handler.\<close>

datatype delivery = Resumed | Ignored | Raised | Called Handler bool

definition dispatch_signal :: "'k Host \<Rightarrow> u32 \<Rightarrow> u64 option \<Rightarrow> UContext \<Rightarrow> 'k GSV \<Rightarrow> delivery \<times> UContext \<times> 'k GSV" where
  "dispatch_signal h number address u st =
     (let saved_errno = sv_errno st; (handled, u, st) = handle_fault h address u st; st = st\<lparr>sv_errno := saved_errno\<rparr>
      in if handled then (Resumed, u, st)
         else let bus = (number = SIGBUS); action = signal_action st bus;
                  st = (if sa_flags action AND SA_RESETHAND \<noteq> 0 then set_current bus (Action 0) st else st)
         in case sa_handler action of
              SIG_IGN \<Rightarrow> (Ignored, u, st)
            | SIG_DFL \<Rightarrow> let (_, _, st) = host_sigaction h number (Some action) st in (Raised, u, st)
            | handler \<Rightarrow> (Called handler (sa_flags action AND SA_SIGINFO \<noteq> 0), u, st))"

definition installed_action :: "Sigaction \<Rightarrow> Sigaction" where
  "installed_action action = action\<lparr>sa_handler := Dispatch_Signal, sa_flags := (sa_flags action AND NOT SA_RESETHAND) OR SA_SIGINFO\<rparr>"

text \<open>The result is success and the old action.\<close>

definition gsv_sigaction :: "'k Host \<Rightarrow> u32 \<Rightarrow> Sigaction option \<Rightarrow> 'k GSV \<Rightarrow> bool \<times> Sigaction \<times> 'k GSV" where
  "gsv_sigaction h number action st =
     (if \<not> sv_enabled st \<or> number \<noteq> SIGSEGV \<and> number \<noteq> SIGBUS then host_sigaction h number action st
      else let bus = (number = SIGBUS); previous = (if bus then snd (sv_current st) else fst (sv_current st));
               old = signal_action st bus
      in case action of
           None \<Rightarrow> (True, old, st)
         | Some a \<Rightarrow>
             if length (sv_actions st) = ACTION_LIMIT then (False, old, st\<lparr>sv_errno := ENOMEM\<rparr>)
             else let n = length (sv_actions st); st = set_current bus (Action n) (st\<lparr>sv_actions := sv_actions st @ [a]\<rparr>);
                      (ok, _, st) = host_sigaction h number (Some (installed_action a)) st
             in (ok, old, if ok then st else set_current bus previous st))"

section \<open>Life cycle\<close>

text \<open>The outcomes of the allocations of the sparse memory, and the first content of its blocks.\<close>

record SparseAllocations =
  sa_space :: bool
  sa_backing :: bool
  sa_pages :: bool
  sa_free :: bool
  sa_garbage :: "nat \<Rightarrow> nat \<Rightarrow> u8"

text \<open>The address range: a host reservation, or the terabyte mark when the task cannot reach it.\<close>

definition reserve_range :: "'k Host \<Rightarrow> 'k GSV \<Rightarrow> bool \<times> 'k GSV" where
  "reserve_range h st =
     (let st = st\<lparr>sv_span := push_bit 30 512, sv_base := push_bit 40 1, sv_guard := None\<rparr>
      in case h_max_address h (sv_kernel st) of
           None \<Rightarrow> (False, st)
         | Some limit \<Rightarrow>
             if limit > sv_base st
             then case host_mmap h 0 (sv_span st) PROT_NONE (MAP_PRIVATE OR MAP_ANON) (- 1) 0 st of
                    (None, st) \<Rightarrow> (False, st)
                  | (Some p, st) \<Rightarrow> (True, st\<lparr>sv_guard := Some p, sv_base := p\<rparr>)
             else (True, st))"

definition release_guard :: "'k Host \<Rightarrow> 'k GSV \<Rightarrow> 'k GSV" where
  "release_guard h st = (case sv_guard st of None \<Rightarrow> st | Some p \<Rightarrow> snd (host_munmap h p (sv_span st) st))"

definition default_action :: Sigaction where
  "default_action = \<lparr>sa_handler = SIG_DFL, sa_flags = 0, sa_mask = 0\<rparr>"

definition first_action :: Sigaction where
  "first_action = \<lparr>sa_handler = Dispatch_Signal, sa_flags = SA_SIGINFO, sa_mask = 0\<rparr>"

definition restore_actions :: "'k Host \<Rightarrow> 'k GSV \<Rightarrow> 'k GSV" where
  "restore_actions h st =
     (let (_, _, st) = host_sigaction h SIGSEGV (Some (fst (sv_original st))) st;
          (_, _, st) = host_sigaction h SIGBUS (Some (snd (sv_original st))) st
      in st)"

definition install_actions :: "'k Host \<Rightarrow> 'k GSV \<Rightarrow> bool \<times> 'k GSV" where
  "install_actions h st =
     (let st = st\<lparr>sv_actions := [default_action]\<rparr>;
          (_, segv, st) = host_sigaction h SIGSEGV None st; (_, bus, st) = host_sigaction h SIGBUS None st;
          st = st\<lparr>sv_original := (segv, bus), sv_current := (Original, Original)\<rparr>;
          (ok, _, st) = host_sigaction h SIGSEGV (Some first_action) st
      in if \<not> ok then (False, restore_actions h st)
         else let (ok, _, st) = host_sigaction h SIGBUS (Some first_action) st
         in if \<not> ok then (False, restore_actions h st) else (True, st))"

definition gsv_destroy_memory :: "'k GSV \<Rightarrow> 'k GSV" where
  "gsv_destroy_memory st = st\<lparr>sv_memory := the (gm_sparse_destroy (Some (sv_memory st)))\<rparr>"

definition start :: "'k Host \<Rightarrow> SparseAllocations \<Rightarrow> u64 \<Rightarrow> u64 \<Rightarrow> bool \<Rightarrow> 'k GSV \<Rightarrow> bool \<times> 'k GSV" where
  "start h al backing_bytes force small_blocks st =
     (if sv_enabled st then (False, st)
      else case reserve_range h st of
        (False, st) \<Rightarrow> (False, st)
      | (True, st) \<Rightarrow>
          let (initialized, memory) =
                (if small_blocks
                 then gm_sparse_init_blocks (Some (sv_memory st)) (sv_base st) (sv_span st) backing_bytes (sa_space al) (sa_backing al)
                        (sa_pages al) (sa_free al) (sa_garbage al)
                 else gm_sparse_init (Some (sv_memory st)) (sv_base st) (sv_span st) backing_bytes (sa_space al) (sa_backing al)
                        (sa_pages al) (sa_free al));
              st = st\<lparr>sv_memory := the memory\<rparr>
          in if initialized \<noteq> GM_OK then (False, release_guard h st)
             else case install_actions h st of
               (False, st) \<Rightarrow> (False, release_guard h (gsv_destroy_memory st))
             | (True, st) \<Rightarrow>
                 (True, st\<lparr>sv_force_threshold := force, sv_native_pool_size := 0, sv_forced_pool_size := 0, sv_fault_count := 0,
                           sv_io_reports := 0, sv_pending_native_pool := None, sv_code_base := 0, sv_code_alias := 0, sv_code_size := 0,
                           sv_code_alias_enabled := False, sv_enabled := True\<rparr>))"

definition gsv_start :: "'k Host \<Rightarrow> SparseAllocations \<Rightarrow> u64 \<Rightarrow> u64 \<Rightarrow> 'k GSV \<Rightarrow> bool \<times> 'k GSV" where
  "gsv_start h al backing_bytes force st = start h al backing_bytes force False st"

definition gsv_start_blocks :: "'k Host \<Rightarrow> SparseAllocations \<Rightarrow> u64 \<Rightarrow> u64 \<Rightarrow> 'k GSV \<Rightarrow> bool \<times> 'k GSV" where
  "gsv_start_blocks h al backing_bytes force st = start h al backing_bytes force True st"

definition gsv_stop :: "'k Host \<Rightarrow> 'k GSV \<Rightarrow> 'k GSV" where
  "gsv_stop h st =
     (if \<not> sv_enabled st then st
      else let st = restore_actions h (st\<lparr>sv_enabled := False, sv_code_alias_enabled := False\<rparr>);
               pending = sv_pending_native_pool st; st = st\<lparr>sv_pending_native_pool := None\<rparr>;
               st = (case pending of None \<Rightarrow> st | Some p \<Rightarrow> snd (host_munmap h p (sv_native_pool_size st) st))
      in release_guard h (gsv_destroy_memory st))"

section \<open>Memory calls\<close>

definition eligible :: "u32 \<Rightarrow> u32 \<Rightarrow> u32 \<Rightarrow> u64 \<Rightarrow> bool" where
  "eligible prot flags fd offset \<longleftrightarrow>
     flags AND (MAP_ANON OR MAP_PRIVATE) = MAP_ANON OR MAP_PRIVATE \<and>
     flags AND NOT (MAP_ANON OR MAP_PRIVATE OR MAP_FIXED OR MAP_NORESERVE) = 0 \<and>
     prot AND NOT (PROT_READ OR PROT_WRITE) = 0 \<and> fd = - 1 \<and> offset = 0"

definition forced :: "'k GSV \<Rightarrow> u64 \<Rightarrow> bool" where
  "forced st sz \<longleftrightarrow>
     sv_forced_pool_size st \<noteq> 0 \<and> sz = sv_forced_pool_size st \<or>
     sv_force_threshold st \<noteq> 0 \<and> sz \<ge> sv_force_threshold st \<or>
     sv_native_pool_size st \<noteq> 0 \<and> sz \<ge> push_bit 20 64 \<and> sz \<noteq> sv_native_pool_size st"

text \<open>The search for a free range, repeated while another thread maps it first.\<close>

primrec map_loop :: "nat \<Rightarrow> u64 \<Rightarrow> u32 \<Rightarrow> Space option \<Rightarrow> GMResult \<times> u64 \<times> Space option" where
  "map_loop 0 n prot m = (GM_OVERLAP, 0, m)"
| "map_loop (Suc rounds) n prot m =
     (case gm_sparse_find_free m n True of
        (GM_OK, at) \<Rightarrow>
          (case gm_sparse_map m (the at) n prot 3 False of
             (GM_OVERLAP, m) \<Rightarrow> map_loop rounds n prot m
           | (r, m) \<Rightarrow> (r, the at, m))
      | (GM_OVERLAP, _) \<Rightarrow> map_loop rounds n prot m
      | (r, _) \<Rightarrow> (r, 0, m))"

definition software_map :: "u64 \<Rightarrow> u64 \<Rightarrow> u32 \<Rightarrow> u32 \<Rightarrow> bool \<Rightarrow> bool \<Rightarrow> 'k GSV \<Rightarrow> u64 option \<times> 'k GSV" where
  "software_map a sz prot flags software_hint ok st =
     (case gsv_rounded sz of
        None \<Rightarrow> (None, st\<lparr>sv_errno := if software_hint then EINVAL else ENOMEM\<rparr>)
      | Some n \<Rightarrow>
          if \<not> sv_enabled st \<or> \<not> ok \<or> \<not> software_hint \<and> flags AND MAP_FIXED \<noteq> 0
          then (None, st\<lparr>sv_errno := if software_hint then EINVAL else ENOMEM\<rparr>)
          else let (r, at, m) =
                     (if software_hint \<and> flags AND MAP_FIXED \<noteq> 0
                      then let (r, m) = gm_sparse_map (sv_memory st) a n prot 3 True in (r, a, m)
                      else map_loop 1 n prot (sv_memory st));
                   st = st\<lparr>sv_memory := m\<rparr>
          in if r \<noteq> GM_OK then (None, st\<lparr>sv_errno := error_code r\<rparr>) else (Some at, st))"

definition gsv_map :: "'k Host \<Rightarrow> u64 \<Rightarrow> u64 \<Rightarrow> u32 \<Rightarrow> u32 \<Rightarrow> u32 \<Rightarrow> u64 \<Rightarrow> 'k GSV \<Rightarrow> u64 option \<times> 'k GSV" where
  "gsv_map h a sz prot flags fd offset st =
     (let st = (if flags AND MAP_FIXED \<noteq> 0 then gsv_forget_code_alias a sz st else st)
      in if \<not> sv_enabled st then host_mmap h a sz prot flags fd offset st
         else let software_hint = gsv_address st a; ok = eligible prot flags fd offset;
                  force = (ok \<and> flags AND MAP_FIXED = 0 \<and> forced st sz);
                  native = (a = 0 \<and> ok \<and> flags AND MAP_FIXED = 0 \<and> \<not> force \<and> sz = sv_native_pool_size st);
                  reserved = (if native then sv_pending_native_pool st else None);
                  st = (if native then st\<lparr>sv_pending_native_pool := None\<rparr> else st)
         in case reserved of
              Some p \<Rightarrow>
                let (ok, st) = host_mprotect h p sz prot st
                in if ok then (Some p, st)
                   else let failure = sv_errno st; (_, st) = host_munmap h p sz st in (None, st\<lparr>sv_errno := failure\<rparr>)
            | None \<Rightarrow>
                if \<not> software_hint \<and> \<not> force
                then let (r, st) = host_mmap h a sz prot flags fd offset st
                     in if r \<noteq> None \<or> sv_errno st \<noteq> ENOMEM \<or> sz < push_bit 20 64 then (r, st)
                        else software_map a sz prot flags software_hint ok st
                else software_map a sz prot flags software_hint ok st)"

definition gsv_protect :: "'k Host \<Rightarrow> u64 \<Rightarrow> u64 \<Rightarrow> u32 \<Rightarrow> 'k GSV \<Rightarrow> bool \<times> 'k GSV" where
  "gsv_protect h a sz prot st =
     (let st = (if prot AND PROT_READ = 0 then gsv_forget_code_alias a sz st else st)
      in if \<not> gsv_address st a then host_mprotect h a sz prot st
         else case gsv_rounded sz of
           None \<Rightarrow> (False, st\<lparr>sv_errno := EINVAL\<rparr>)
         | Some n \<Rightarrow>
             if prot AND NOT (PROT_READ OR PROT_WRITE) \<noteq> 0 then (False, st\<lparr>sv_errno := EINVAL\<rparr>)
             else let (r, m) = gm_sparse_protect (sv_memory st) a n prot; st = st\<lparr>sv_memory := m\<rparr>
             in if r \<noteq> GM_OK then (False, st\<lparr>sv_errno := error_code r\<rparr>) else (True, st))"

definition gsv_unmap :: "'k Host \<Rightarrow> u64 \<Rightarrow> u64 \<Rightarrow> 'k GSV \<Rightarrow> bool \<times> 'k GSV" where
  "gsv_unmap h a sz st =
     (let st = gsv_forget_code_alias a sz st
      in if \<not> gsv_address st a then host_munmap h a sz st
         else case gsv_rounded sz of
           None \<Rightarrow> (False, st\<lparr>sv_errno := EINVAL\<rparr>)
         | Some n \<Rightarrow>
             let (r, m) = gm_sparse_unmap (sv_memory st) a n; st = st\<lparr>sv_memory := m\<rparr>
             in if r \<noteq> GM_OK then (False, st\<lparr>sv_errno := error_code r\<rparr>) else (True, st))"

definition gsv_advise :: "'k Host \<Rightarrow> u64 \<Rightarrow> u64 \<Rightarrow> u32 \<Rightarrow> 'k GSV \<Rightarrow> bool \<times> 'k GSV" where
  "gsv_advise h a sz advice st =
     (if \<not> gsv_address st a then host_madvise h a sz advice st
      else if advice \<notin> {0, 1, 2, 3, 4, 5, 7, 8} then (False, st\<lparr>sv_errno := EINVAL\<rparr>)
      else let (r, m) = gm_sparse_prepare (sv_memory st) a sz 0; st = st\<lparr>sv_memory := m\<rparr>
      in if r \<noteq> GM_OK then (False, st\<lparr>sv_errno := error_code r\<rparr>) else (True, st))"

end
