(* ===== verification/GuestSoftwareIO.thy ===== *)
theory GuestSoftwareIO
  imports GuestSoftwareVM
begin

text \<open>
  The accesses of \<open>runtime/GuestSoftwareVM.c\<close> on behalf of the host: strings and buffers that may lie in the
  software range are scanned in chunks, copied and filled through a bounce buffer, and read from
  and written to files. A scan that meets an unreadable byte aborts the process.
\<close>

section \<open>Host memory\<close>

text \<open>The C functions on ordinary memory. A comparison returns the difference of the first bytes that differ.\<close>

primrec mem_strnlen :: "nat \<Rightarrow> (u64 \<Rightarrow> u8) \<Rightarrow> u64 \<Rightarrow> nat" where
  "mem_strnlen 0 mem a = 0"
| "mem_strnlen (Suc n) mem a = (if mem a = 0 then 0 else Suc (mem_strnlen n mem (a + 1)))"

fun list_memcmp :: "u8 list \<Rightarrow> u8 list \<Rightarrow> int" where
  "list_memcmp (x # xs) (y # ys) = (if x \<noteq> y then uint x - uint y else list_memcmp xs ys)"
| "list_memcmp _ _ = 0"

text \<open>As \<open>strncmp\<close>: the bytes after a terminator do not count; the flag says that one was met.\<close>

fun list_strncmp :: "u8 list \<Rightarrow> u8 list \<Rightarrow> int \<times> bool" where
  "list_strncmp (x # xs) (y # ys) =
     (if x \<noteq> y then (uint x - uint y, True) else if x = 0 then (0, True) else list_strncmp xs ys)"
| "list_strncmp _ _ = (0, False)"

definition mem_memchr :: "(u64 \<Rightarrow> u8) \<Rightarrow> u64 \<Rightarrow> u8 \<Rightarrow> nat \<Rightarrow> u64 option" where
  "mem_memchr mem a v n =
     (let bs = host_bytes mem a n
      in if v \<in> set bs then Some (a + of_nat (length (takeWhile (\<lambda>b. b \<noteq> v) bs))) else None)"

definition put_bytes :: "u64 \<Rightarrow> u8 list \<Rightarrow> (u64 \<Rightarrow> u8) \<Rightarrow> u64 \<Rightarrow> u8" where
  "put_bytes a bs mem = (\<lambda>x. if unat (x - a) < length bs then bs ! unat (x - a) else mem x)"

section \<open>Strings\<close>

definition prepare :: "u64 \<Rightarrow> u64 \<Rightarrow> u32 \<Rightarrow> 'k GSV \<Rightarrow> GMResult \<times> 'k GSV" where
  "prepare p n permissions st =
     (if gsv_address st p
      then let (r, m) = gm_sparse_prepare (sv_memory st) p n permissions in (r, st\<lparr>sv_memory := m\<rparr>)
      else (GM_OK, st))"

text \<open>The result of a scan; \<open>Aborted\<close> ends the process.\<close>

datatype 'a scan = Aborted | Scanned 'a

text \<open>
  \<open>gsv_string\<close> copies a software string into the caller's buffer. The result is an error, the source
  itself, or the filled buffer.
\<close>

datatype string_result = Failed u32 | Same_string | Copied "u8 list"

primrec string_loop :: "nat \<Rightarrow> 'k GSV \<Rightarrow> u64 \<Rightarrow> u8 list \<Rightarrow> string_result" where
  "string_loop 0 st source pos = Failed ENAMETOOLONG"
| "string_loop (Suc left) st source pos =
     (case gm_sparse_read (sv_memory st) (source + of_nat (length pos)) (Some [0]) 1 of
        (GM_OK, _, Some bs) \<Rightarrow>
          if hd bs = 0 then Copied (pos @ [0]) else string_loop left st source (pos @ [hd bs])
      | _ \<Rightarrow> Failed EFAULT)"

definition gsv_string :: "'k GSV \<Rightarrow> u64 \<Rightarrow> nat \<Rightarrow> string_result" where
  "gsv_string st source capacity =
     (if source = 0 then Failed EFAULT
      else if \<not> gsv_address st source then Same_string
      else string_loop capacity st source [])"

definition scan_chunk :: "'k GSV \<Rightarrow> u64 \<Rightarrow> u64 \<Rightarrow> u64" where
  "scan_chunk st pointer remaining =
     (let n = (if remaining < 256 then remaining else 256)
      in if gsv_address st pointer
         then let page_left = GM_PAGE_SIZE - pointer mod GM_PAGE_SIZE in if n > page_left then page_left else n
         else n)"

definition scan_read :: "'k GSV \<Rightarrow> u64 \<Rightarrow> u64 \<Rightarrow> u8 list scan" where
  "scan_read st source n =
     (if \<not> gsv_address st source then Scanned (host_bytes (sv_host st) source (unat n))
      else case gm_sparse_read (sv_memory st) source (Some (replicate (unat n) 0)) n of
        (GM_OK, _, Some bs) \<Rightarrow> Scanned bs
      | _ \<Rightarrow> Aborted)"

lemma scan_chunk_bounds:
  "0 < remaining \<Longrightarrow> 0 < scan_chunk st p remaining" "scan_chunk st p remaining \<le> remaining" "unat (scan_chunk st p remaining) \<le> 256"
proof -
  have left: "unat (GM_PAGE_SIZE - p mod GM_PAGE_SIZE) = 16384 - unat p mod 16384"
    by (subst unat_sub_le) (simp_all add: word_le_nat_alt unat_mod)
  show "0 < remaining \<Longrightarrow> 0 < scan_chunk st p remaining" "scan_chunk st p remaining \<le> remaining" "unat (scan_chunk st p remaining) \<le> 256"
    using left by (auto simp: scan_chunk_def Let_def word_less_nat_alt word_le_nat_alt)
qed

lemma scan_advance:
  assumes "pos < (limit :: u64)" and "0 < n" and "n \<le> limit - pos"
  shows "unat (limit - (pos + n)) < unat (limit - pos)"
  using assms unat_sub_le [of n "limit - pos"]
  by (simp add: diff_diff_add [symmetric] word_less_nat_alt word_le_nat_alt)

lemma scan_progress:
  assumes "pos < (limit :: u64)"
  shows "unat (limit - (pos + scan_chunk st p (limit - pos))) < unat (limit - pos)"
    and "unat (limit - (pos + min (scan_chunk st p (limit - pos)) (scan_chunk st q (limit - pos)))) < unat (limit - pos)"
proof -
  have "0 < limit - pos" using assms by (simp add: word_gt_0)
  then have c: "0 < scan_chunk st x (limit - pos)" for x by (rule scan_chunk_bounds(1))
  show "unat (limit - (pos + scan_chunk st p (limit - pos))) < unat (limit - pos)"
    by (rule scan_advance [OF assms c scan_chunk_bounds(2)])
  show "unat (limit - (pos + min (scan_chunk st p (limit - pos)) (scan_chunk st q (limit - pos)))) < unat (limit - pos)"
    using c scan_chunk_bounds(2) by (intro scan_advance [OF assms]) (auto simp: min_def)
qed

definition first_zero :: "u8 list \<Rightarrow> nat option" where
  "first_zero bs = (if 0 \<in> set bs then Some (length (takeWhile (\<lambda>b. b \<noteq> 0) bs)) else None)"

function strnlen_loop :: "'k GSV \<Rightarrow> u64 \<Rightarrow> u64 \<Rightarrow> u64 \<Rightarrow> u64 scan" where
  "strnlen_loop st string limit pos =
     (if pos < limit
      then let n = scan_chunk st (string + pos) (limit - pos)
           in case scan_read st (string + pos) n of
                Aborted \<Rightarrow> Aborted
              | Scanned bs \<Rightarrow>
                  (case first_zero bs of
                     Some i \<Rightarrow> Scanned (pos + of_nat i)
                   | None \<Rightarrow> strnlen_loop st string limit (pos + n))
      else Scanned pos)"
  by pat_completeness auto
termination
proof (relation "measure (\<lambda>(st, string, limit, pos). unat (limit - pos))", goal_cases)
  case 2
  then show ?case using scan_progress by simp
qed simp

declare strnlen_loop.simps [simp del]

definition gsv_strnlen :: "'k GSV \<Rightarrow> u64 \<Rightarrow> u64 \<Rightarrow> u64 scan" where
  "gsv_strnlen st string limit =
     (if limit = 0 then Scanned 0
      else if \<not> gsv_address st string then Scanned (of_nat (mem_strnlen (unat limit) (sv_host st) string))
      else strnlen_loop st string limit 0)"

definition gsv_strlen :: "'k GSV \<Rightarrow> u64 \<Rightarrow> u64 scan" where
  "gsv_strlen st string =
     (if gsv_address st string then gsv_strnlen st string UINT64_MAX
      else Scanned (of_nat (mem_strnlen (2 ^ 64) (sv_host st) string)))"

function memcmp_loop :: "'k GSV \<Rightarrow> u64 \<Rightarrow> u64 \<Rightarrow> u64 \<Rightarrow> u64 \<Rightarrow> int scan" where
  "memcmp_loop st left right sz pos =
     (if pos < sz
      then let n = min (scan_chunk st (left + pos) (sz - pos)) (scan_chunk st (right + pos) (sz - pos))
           in case (scan_read st (left + pos) n, scan_read st (right + pos) n) of
                (Scanned aa, Scanned bb) \<Rightarrow>
                  if list_memcmp aa bb \<noteq> 0 then Scanned (list_memcmp aa bb) else memcmp_loop st left right sz (pos + n)
              | _ \<Rightarrow> Aborted
      else Scanned 0)"
  by pat_completeness auto
termination
proof (relation "measure (\<lambda>(st, left, right, sz, pos). unat (sz - pos))", goal_cases)
  case 2
  then show ?case using scan_progress by simp
qed simp

declare memcmp_loop.simps [simp del]

definition gsv_memcmp :: "'k GSV \<Rightarrow> u64 \<Rightarrow> u64 \<Rightarrow> u64 \<Rightarrow> int scan" where
  "gsv_memcmp st left right sz =
     (if sz = 0 then Scanned 0
      else if \<not> gsv_address st left \<and> \<not> gsv_address st right
      then Scanned (list_memcmp (host_bytes (sv_host st) left (unat sz)) (host_bytes (sv_host st) right (unat sz)))
      else memcmp_loop st left right sz 0)"

function memchr_loop :: "'k GSV \<Rightarrow> u64 \<Rightarrow> u8 \<Rightarrow> u64 \<Rightarrow> u64 \<Rightarrow> u64 option scan" where
  "memchr_loop st bytes v sz pos =
     (if pos < sz
      then let n = scan_chunk st (bytes + pos) (sz - pos)
           in case scan_read st (bytes + pos) n of
                Aborted \<Rightarrow> Aborted
              | Scanned chunk \<Rightarrow>
                  if v \<in> set chunk then Scanned (Some (bytes + pos + of_nat (length (takeWhile (\<lambda>b. b \<noteq> v) chunk))))
                  else memchr_loop st bytes v sz (pos + n)
      else Scanned None)"
  by pat_completeness auto
termination
proof (relation "measure (\<lambda>(st, bytes, v, sz, pos). unat (sz - pos))", goal_cases)
  case 2
  then show ?case using scan_progress by simp
qed simp

declare memchr_loop.simps [simp del]

definition gsv_memchr :: "'k GSV \<Rightarrow> u64 \<Rightarrow> u32 \<Rightarrow> u64 \<Rightarrow> u64 option scan" where
  "gsv_memchr st source v sz =
     (if sz = 0 then Scanned None
      else if \<not> gsv_address st source then Scanned (mem_memchr (sv_host st) source (ucast v) (unat sz))
      else memchr_loop st source (ucast v) sz 0)"

text \<open>A native string may end before the chunk does: the chunk is cut after its terminator.\<close>

definition native_cut :: "'k GSV \<Rightarrow> u64 \<Rightarrow> u64 \<Rightarrow> u64" where
  "native_cut st a n =
     (if gsv_address st a then n
      else let len = mem_strnlen (unat n) (sv_host st) a in if len < unat n then of_nat len + 1 else n)"

lemma mem_strnlen_le: "mem_strnlen n mem a \<le> n"
  by (induction n arbitrary: a) auto

lemma native_cut_bounds:
  "0 < n \<Longrightarrow> 0 < native_cut st a n" "native_cut st a n \<le> n"
proof -
  define len where "len = mem_strnlen (unat n) (sv_host st) a"
  have u: "unat (of_nat len + 1 :: u64) = len + 1" if "len < unat n"
    using that unat_u64_less [of n] unat_of_nat_u64 [of "Suc len"] by (simp add: add.commute)
  show "0 < n \<Longrightarrow> 0 < native_cut st a n"
    using u by (auto simp: native_cut_def Let_def word_less_nat_alt simp flip: len_def)
  show "native_cut st a n \<le> n"
    using u by (auto simp: native_cut_def Let_def word_le_nat_alt simp flip: len_def)
qed

definition strncmp_chunk :: "'k GSV \<Rightarrow> u64 \<Rightarrow> u64 \<Rightarrow> u64 \<Rightarrow> u64" where
  "strncmp_chunk st a b remaining =
     (let n = min (scan_chunk st a remaining) (scan_chunk st b remaining)
      in native_cut st b (native_cut st a n))"

lemma strncmp_chunk_bounds:
  "0 < remaining \<Longrightarrow> 0 < strncmp_chunk st a b remaining" "strncmp_chunk st a b remaining \<le> remaining"
  unfolding strncmp_chunk_def Let_def
  by (auto intro!: native_cut_bounds(1) scan_chunk_bounds(1) simp: min_def)
    (meson native_cut_bounds(2) order_trans scan_chunk_bounds(2))+

function strncmp_loop :: "'k GSV \<Rightarrow> u64 \<Rightarrow> u64 \<Rightarrow> u64 \<Rightarrow> u64 \<Rightarrow> int scan" where
  "strncmp_loop st left right limit pos =
     (if pos < limit
      then let a = left + pos; b = right + pos; n = strncmp_chunk st a b (limit - pos)
           in case (scan_read st a n, scan_read st b n) of
                (Scanned aa, Scanned bb) \<Rightarrow>
                  (case list_strncmp aa bb of
                     (d, True) \<Rightarrow> Scanned d
                   | (_, False) \<Rightarrow> strncmp_loop st left right limit (pos + n))
              | _ \<Rightarrow> Aborted
      else Scanned 0)"
  by pat_completeness auto
termination
proof (relation "measure (\<lambda>(st, left, right, limit, pos). unat (limit - pos))", goal_cases)
  case (2 st left right limit pos)
  have "0 < limit - pos" using 2(1) by (simp add: word_gt_0)
  then show ?case using 2 scan_advance [OF 2(1) strncmp_chunk_bounds] by simp
qed simp

declare strncmp_loop.simps [simp del]

definition gsv_strncmp :: "'k GSV \<Rightarrow> u64 \<Rightarrow> u64 \<Rightarrow> u64 \<Rightarrow> int scan" where
  "gsv_strncmp st left right limit =
     (if limit = 0 then Scanned 0
      else if \<not> gsv_address st left \<and> \<not> gsv_address st right
      then Scanned (fst (list_strncmp (host_bytes (sv_host st) left (unat limit)) (host_bytes (sv_host st) right (unat limit))))
      else strncmp_loop st left right limit 0)"

definition gsv_strcmp :: "'k GSV \<Rightarrow> u64 \<Rightarrow> u64 \<Rightarrow> int scan" where
  "gsv_strcmp st left right = gsv_strncmp st left right UINT64_MAX"

text \<open>The first byte of a chunk that is the wanted one or a terminator: its index and whether it is the wanted one.\<close>

fun chr_index :: "u8 \<Rightarrow> u8 list \<Rightarrow> (nat \<times> bool) option" where
  "chr_index v [] = None"
| "chr_index v (b # bs) =
     (if b = v then Some (0, True) else if b = 0 then Some (0, False)
      else map_option (\<lambda>(i, found). (Suc i, found)) (chr_index v bs))"

text \<open>The loop has no limit; \<open>None\<close> is a search that never ends.\<close>

partial_function (option) strchr_loop :: "'k GSV \<Rightarrow> u64 \<Rightarrow> u8 \<Rightarrow> u64 \<Rightarrow> u64 option scan option" where
  "strchr_loop st string v pos =
     (let n = scan_chunk st (string + pos) UINT64_MAX
      in case scan_read st (string + pos) n of
           Aborted \<Rightarrow> Some Aborted
         | Scanned bs \<Rightarrow>
             (case chr_index v bs of
                Some (i, found) \<Rightarrow> Some (Scanned (if found then Some (string + pos + of_nat i) else None))
              | None \<Rightarrow> strchr_loop st string v (pos + n)))"

definition gsv_strchr :: "'k GSV \<Rightarrow> u64 \<Rightarrow> u32 \<Rightarrow> u64 option scan option" where
  "gsv_strchr st string v =
     (if gsv_address st string then strchr_loop st string (ucast v) 0
      else Some (Scanned (case chr_index (ucast v) (host_bytes (sv_host st) string (2 ^ 64)) of
             Some (i, True) \<Rightarrow> Some (string + of_nat i) | _ \<Rightarrow> None)))"

section \<open>Copies\<close>

definition bounce_chunk :: "u64 \<Rightarrow> u64" where
  "bounce_chunk remaining = (if remaining > BOUNCE_SIZE then BOUNCE_SIZE else remaining)"

lemma bounce_progress:
  assumes "pos < (sz :: u64)"
  shows "unat (sz - (pos + bounce_chunk (sz - pos))) < unat (sz - pos)"
proof -
  have "0 < sz - pos" using assms by (simp add: word_gt_0)
  then show ?thesis by (intro scan_advance [OF assms]) (auto simp: bounce_chunk_def)
qed

definition copy_in :: "bool \<Rightarrow> u64 \<Rightarrow> u64 \<Rightarrow> 'k GSV \<Rightarrow> GMResult \<times> u8 list" where
  "copy_in software a n st =
     (if software
      then let (r, _, bs) = gm_sparse_read (sv_memory st) a (Some (replicate (unat n) 0)) n in (r, the bs)
      else (GM_OK, host_bytes (sv_host st) a (unat n)))"

definition copy_out :: "bool \<Rightarrow> u64 \<Rightarrow> u8 list \<Rightarrow> u64 \<Rightarrow> 'k GSV \<Rightarrow> GMResult \<times> 'k GSV" where
  "copy_out software a bs n st =
     (if software
      then let (r, m) = gm_sparse_write (sv_memory st) a (Some bs) n in (r, st\<lparr>sv_memory := m\<rparr>)
      else (GM_OK, st\<lparr>sv_host := put_bytes a bs (sv_host st)\<rparr>))"

function copy_loop :: "bool \<Rightarrow> bool \<Rightarrow> bool \<Rightarrow> u64 \<Rightarrow> u64 \<Rightarrow> u64 \<Rightarrow> u64 \<Rightarrow> 'k GSV \<Rightarrow> GMResult \<times> 'k GSV" where
  "copy_loop dst src reverse d s sz completed st =
     (if completed < sz
      then let chunk = bounce_chunk (sz - completed); offset = (if reverse then sz - completed - chunk else completed)
           in case copy_in src (s + offset) chunk st of
                (GM_OK, bounce) \<Rightarrow>
                  (case copy_out dst (d + offset) bounce chunk st of
                     (GM_OK, st) \<Rightarrow> copy_loop dst src reverse d s sz (completed + chunk) st
                   | failed \<Rightarrow> failed)
              | (r, _) \<Rightarrow> (r, st)
      else (GM_OK, st))"
  by pat_completeness auto
termination
  by (relation "measure (\<lambda>(dst, src, reverse, d, s, sz, completed, st). unat (sz - completed))") (simp_all add: bounce_progress)

declare copy_loop.simps [simp del]

definition gsv_copy :: "u64 \<Rightarrow> u64 \<Rightarrow> u64 \<Rightarrow> 'k GSV \<Rightarrow> GMResult \<times> 'k GSV" where
  "gsv_copy destination source sz st =
     (let dst = gsv_address st destination; src = gsv_address st source
      in if \<not> dst \<and> \<not> src
         then (GM_OK, st\<lparr>sv_host := put_bytes destination (host_bytes (sv_host st) source (unat sz)) (sv_host st)\<rparr>)
         else case prepare source sz GM_READ st of
           (GM_OK, st) \<Rightarrow>
             (case prepare destination sz GM_WRITE st of
                (GM_OK, st) \<Rightarrow>
                  copy_loop dst src (destination > source \<and> destination - source < sz) destination source sz 0 st
              | failed \<Rightarrow> failed)
         | failed \<Rightarrow> failed)"

function fill_loop :: "u64 \<Rightarrow> u8 \<Rightarrow> u64 \<Rightarrow> u64 \<Rightarrow> 'k GSV \<Rightarrow> GMResult \<times> 'k GSV" where
  "fill_loop d v sz completed st =
     (if completed < sz
      then let chunk = bounce_chunk (sz - completed)
           in case copy_out True (d + completed) (replicate (unat BOUNCE_SIZE) v) chunk st of
                (GM_OK, st) \<Rightarrow> fill_loop d v sz (completed + chunk) st
              | failed \<Rightarrow> failed
      else (GM_OK, st))"
  by pat_completeness auto
termination
  by (relation "measure (\<lambda>(d, v, sz, completed, st). unat (sz - completed))") (simp_all add: bounce_progress)

declare fill_loop.simps [simp del]

definition gsv_fill :: "u64 \<Rightarrow> u32 \<Rightarrow> u64 \<Rightarrow> 'k GSV \<Rightarrow> GMResult \<times> 'k GSV" where
  "gsv_fill destination v sz st =
     (if \<not> gsv_address st destination
      then (GM_OK, st\<lparr>sv_host := put_bytes destination (replicate (unat sz) (ucast v)) (sv_host st)\<rparr>)
      else case prepare destination sz GM_WRITE st of
        (GM_OK, st) \<Rightarrow> fill_loop destination (ucast v) sz 0 st
      | failed \<Rightarrow> failed)"

section \<open>Files\<close>

text \<open>
  The host's calls. A call moves at most what it was asked for. A result \<open>None\<close> is \<open>-1\<close>. The number
  of items of \<open>fread\<close> is what its bytes fill.
\<close>

definition host_input :: "'k Host \<Rightarrow> u32 \<Rightarrow> u64 \<Rightarrow> u64 option \<Rightarrow> 'k GSV \<Rightarrow> u8 list option \<times> 'k GSV" where
  "host_input h fd n offset st =
     (let (r, k) = h_input h (sv_kernel st) fd n offset; st = st\<lparr>sv_kernel := k\<rparr>
      in case r of Inr bs \<Rightarrow> (Some (take (unat n) bs), st) | Inl e \<Rightarrow> (None, st\<lparr>sv_errno := e\<rparr>))"

definition host_output :: "'k Host \<Rightarrow> u32 \<Rightarrow> u8 list \<Rightarrow> u64 option \<Rightarrow> 'k GSV \<Rightarrow> u64 option \<times> 'k GSV" where
  "host_output h fd bs offset st =
     (let (r, k) = h_output h (sv_kernel st) fd bs offset; st = st\<lparr>sv_kernel := k\<rparr>
      in case r of Inr n \<Rightarrow> (Some (min n (word_length bs)), st) | Inl e \<Rightarrow> (None, st\<lparr>sv_errno := e\<rparr>))"

definition host_fread :: "'k Host \<Rightarrow> u32 \<Rightarrow> u64 \<Rightarrow> u64 \<Rightarrow> 'k GSV \<Rightarrow> u8 list \<times> 'k GSV" where
  "host_fread h f sz n st =
     (let (bs, k) = h_fread h (sv_kernel st) f sz n in (take (unat sz * unat n) bs, st\<lparr>sv_kernel := k\<rparr>))"

definition host_fwrite :: "'k Host \<Rightarrow> u32 \<Rightarrow> u64 \<Rightarrow> u64 \<Rightarrow> u8 list \<Rightarrow> 'k GSV \<Rightarrow> u64 \<times> 'k GSV" where
  "host_fwrite h f sz n bs st =
     (let (items, k) = h_fwrite h (sv_kernel st) f sz n bs in (min items n, st\<lparr>sv_kernel := k\<rparr>))"

definition io_result :: "u64 option \<Rightarrow> 'k GSV \<Rightarrow> u64 option \<times> 'k GSV" where
  "io_result r st = (r, if r = None then st else st\<lparr>sv_io_reports := sv_io_reports st + 1\<rparr>)"

definition io_failed :: "u32 \<Rightarrow> 'k GSV \<Rightarrow> u64 option \<times> 'k GSV" where
  "io_failed e st = io_result None (st\<lparr>sv_errno := e\<rparr>)"

text \<open>\<open>offset\<close> is the position of a positional call; \<open>allocated\<close> is the outcome of the allocation of a large bounce buffer.\<close>

definition file_io ::
  "'k Host \<Rightarrow> bool \<Rightarrow> u32 \<Rightarrow> u64 \<Rightarrow> u64 \<Rightarrow> u64 option \<Rightarrow> bool \<Rightarrow> 'k GSV \<Rightarrow> u64 option \<times> 'k GSV" where
  "file_io h allocated fd buffer sz offset writing st =
     (if \<not> gsv_address st buffer
      then if writing
           then let (r, st) = host_output h fd (host_bytes (sv_host st) buffer (unat sz)) offset st in io_result r st
           else case host_input h fd sz offset st of
                  (None, st) \<Rightarrow> io_result None st
                | (Some bs, st) \<Rightarrow>
                    io_result (Some (word_length bs)) (st\<lparr>sv_host := put_bytes buffer bs (sv_host st)\<rparr>)
      else if sz > 0x7fffffff then io_failed EINVAL st
      else case prepare buffer sz (if writing then GM_READ else GM_WRITE) st of
        (GM_OK, st) \<Rightarrow>
          if sz > BOUNCE_SIZE \<and> \<not> allocated then io_failed ENOMEM st
          else if writing
          then (case copy_in True buffer sz st of
                  (GM_OK, bounce) \<Rightarrow> let (r, st) = host_output h fd bounce offset st in io_result r st
                | _ \<Rightarrow> io_failed EFAULT st)
          else (case host_input h fd sz offset st of
                  (None, st) \<Rightarrow> io_result None st
                | (Some bs, st) \<Rightarrow>
                    if bs = [] then io_result (Some 0) st
                    else case copy_out True buffer bs (word_length bs) st of
                           (GM_OK, st) \<Rightarrow> io_result (Some (word_length bs)) st
                         | (_, st) \<Rightarrow> io_failed EFAULT st)
      | (_, st) \<Rightarrow> io_failed EFAULT st)"

definition gsv_read :: "'k Host \<Rightarrow> bool \<Rightarrow> u32 \<Rightarrow> u64 \<Rightarrow> u64 \<Rightarrow> 'k GSV \<Rightarrow> u64 option \<times> 'k GSV" where
  "gsv_read h allocated fd b n st = file_io h allocated fd b n None False st"

definition gsv_pread :: "'k Host \<Rightarrow> bool \<Rightarrow> u32 \<Rightarrow> u64 \<Rightarrow> u64 \<Rightarrow> u64 \<Rightarrow> 'k GSV \<Rightarrow> u64 option \<times> 'k GSV" where
  "gsv_pread h allocated fd b n offset st = file_io h allocated fd b n (Some offset) False st"

definition gsv_write :: "'k Host \<Rightarrow> bool \<Rightarrow> u32 \<Rightarrow> u64 \<Rightarrow> u64 \<Rightarrow> 'k GSV \<Rightarrow> u64 option \<times> 'k GSV" where
  "gsv_write h allocated fd b n st = file_io h allocated fd b n None True st"

definition gsv_pwrite :: "'k Host \<Rightarrow> bool \<Rightarrow> u32 \<Rightarrow> u64 \<Rightarrow> u64 \<Rightarrow> u64 \<Rightarrow> 'k GSV \<Rightarrow> u64 option \<times> 'k GSV" where
  "gsv_pwrite h allocated fd b n offset st = file_io h allocated fd b n (Some offset) True st"

text \<open>A chunk of a stream: the bytes moved and whether the loop goes on.\<close>

definition stream_chunk :: "'k Host \<Rightarrow> u32 \<Rightarrow> bool \<Rightarrow> u64 \<Rightarrow> u64 \<Rightarrow> 'k GSV \<Rightarrow> (u64 \<times> bool) \<times> 'k GSV" where
  "stream_chunk h f writing a chunk st =
     (if writing
      then case copy_in True a chunk st of
             (GM_OK, bounce) \<Rightarrow> let (moved, st) = host_fwrite h f 1 chunk bounce st in ((moved, \<not> moved < chunk), st)
           | _ \<Rightarrow> ((0, False), st\<lparr>sv_errno := EFAULT\<rparr>)
      else let (bounce, st) = host_fread h f 1 chunk st; moved = word_length bounce
           in case copy_out True a bounce moved st of
                (GM_OK, st) \<Rightarrow> ((moved, \<not> moved < chunk), st)
              | (_, st) \<Rightarrow> ((0, False), st\<lparr>sv_errno := EFAULT\<rparr>))"

lemma stream_chunk_full:
  assumes "stream_chunk h f writing a chunk st = ((moved, True), st')"
  shows "moved = chunk"
proof (cases writing)
  case True
  then show ?thesis
    using assms by (auto simp: stream_chunk_def host_fwrite_def min_def Let_def split: prod.splits GMResult.splits if_splits)
next
  case False
  have "length (take (unat chunk) bs) < 2 ^ 64" for bs :: "u8 list"
    using unat_u64_less [of chunk] by (simp add: min_def)
  then have "word_length (take (unat chunk) bs) \<le> chunk" for bs :: "u8 list"
    by (simp add: word_le_nat_alt unat_of_nat_u64)
  then show ?thesis
    using False assms
    by (auto simp: stream_chunk_def host_fread_def Let_def split: prod.splits GMResult.splits)
      (metis order_le_imp_less_or_eq)
qed

function stream_loop :: "'k Host \<Rightarrow> u32 \<Rightarrow> bool \<Rightarrow> u64 \<Rightarrow> u64 \<Rightarrow> u64 \<Rightarrow> 'k GSV \<Rightarrow> u64 \<times> 'k GSV" where
  "stream_loop h f writing buffer all completed st =
     (if completed < all
      then case stream_chunk h f writing (buffer + completed) (bounce_chunk (all - completed)) st of
             ((moved, True), st) \<Rightarrow> stream_loop h f writing buffer all (completed + moved) st
           | ((moved, False), st) \<Rightarrow> (completed + moved, st)
      else (completed, st))"
  by pat_completeness auto
termination
proof (relation "measure (\<lambda>(h, f, writing, buffer, all, completed, st). unat (all - completed))", goal_cases)
  case (2 h f writing buffer all completed st x y moved more)
  then have "stream_chunk h f writing (buffer + completed) (bounce_chunk (all - completed)) st = ((moved, True), y)" by simp
  then have "moved = bounce_chunk (all - completed)" by (rule stream_chunk_full)
  then show ?case using bounce_progress [OF 2(1)] by simp
qed simp

declare stream_loop.simps [simp del]

definition stream_io :: "'k Host \<Rightarrow> u64 \<Rightarrow> u64 \<Rightarrow> u64 \<Rightarrow> u32 \<Rightarrow> bool \<Rightarrow> 'k GSV \<Rightarrow> u64 \<times> 'k GSV" where
  "stream_io h buffer sz n f writing st =
     (if \<not> gsv_address st buffer
      then if writing then host_fwrite h f sz n (host_bytes (sv_host st) buffer (unat sz * unat n)) st
           else let (bs, st) = host_fread h f sz n st
                in (of_nat (length bs div unat sz), st\<lparr>sv_host := put_bytes buffer bs (sv_host st)\<rparr>)
      else if sz = 0 \<or> n = 0 then (0, st)
      else if n > UINT64_MAX div sz then (0, st\<lparr>sv_errno := EOVERFLOW\<rparr>)
      else case prepare buffer (sz * n) (if writing then GM_READ else GM_WRITE) st of
        (GM_OK, st) \<Rightarrow> let (completed, st) = stream_loop h f writing buffer (sz * n) 0 st in (completed div sz, st)
      | (_, st) \<Rightarrow> (0, st\<lparr>sv_errno := EFAULT\<rparr>))"

definition gsv_fread :: "'k Host \<Rightarrow> u64 \<Rightarrow> u64 \<Rightarrow> u64 \<Rightarrow> u32 \<Rightarrow> 'k GSV \<Rightarrow> u64 \<times> 'k GSV" where
  "gsv_fread h b sz n f st = stream_io h b sz n f False st"

definition gsv_fwrite :: "'k Host \<Rightarrow> u64 \<Rightarrow> u64 \<Rightarrow> u64 \<Rightarrow> u32 \<Rightarrow> 'k GSV \<Rightarrow> u64 \<times> 'k GSV" where
  "gsv_fwrite h b sz n f st = stream_io h b sz n f True st"

section \<open>Counters\<close>

definition gsv_stats :: "'k GSV \<Rightarrow> GMSparseStats" where
  "gsv_stats st = gm_sparse_stats (sv_memory st)"

definition gsv_fault_count :: "'k GSV \<Rightarrow> u64" where
  "gsv_fault_count st = sv_fault_count st"

end
