(* ===== verification/GuestSoftwareLaws.thy ===== *)
theory GuestSoftwareLaws
  imports GuestSoftwareIO GuestSparseLaws
begin

text \<open>
  The software address range of \<open>GuestSoftwareVM.c\<close> as one memory with the host: the invariant of its state, and
  copies through the bounce buffer, which move bytes as \<open>memmove\<close> does on the combined memory or
  change nothing.
\<close>

section \<open>The combined memory\<close>

definition gsv_view :: "'k GSV \<Rightarrow> u64 \<Rightarrow> u8" where
  "gsv_view st x = (if gsv_address st x then sm_byte (the (sv_memory st)) x else sv_host st x)"

definition gsv_memory_ok :: "'k GSV \<Rightarrow> bool" where
  "gsv_memory_ok st \<longleftrightarrow>
     (sv_enabled st \<longrightarrow>
        (\<exists>s. sv_memory st = Some s \<and> space_ok s \<and> s_base s = sv_base st \<and> s_end s = sv_base st + sv_span st \<and>
           unat (sv_base st) + unat (sv_span st) < 2 ^ 64))"

lemma gsv_address_update [simp]:
  "gsv_address (st\<lparr>sv_memory := m\<rparr>) x = gsv_address st x"
  "gsv_address (st\<lparr>sv_host := mem\<rparr>) x = gsv_address st x"
  "gsv_address (st\<lparr>sv_kernel := k\<rparr>) x = gsv_address st x"
  "gsv_address (st\<lparr>sv_errno := e\<rparr>) x = gsv_address st x"
  "gsv_address (st\<lparr>sv_io_reports := r\<rparr>) x = gsv_address st x"
  by (simp_all add: gsv_address_def)

lemma gsv_view_update [simp]:
  "gsv_view (st\<lparr>sv_kernel := k\<rparr>) = gsv_view st"
  "gsv_view (st\<lparr>sv_errno := e\<rparr>) = gsv_view st"
  "gsv_view (st\<lparr>sv_io_reports := r\<rparr>) = gsv_view st"
  by (simp_all add: fun_eq_iff gsv_view_def)

lemma gsv_memory_ok_update [simp]:
  "gsv_memory_ok (st\<lparr>sv_kernel := k\<rparr>) = gsv_memory_ok st"
  "gsv_memory_ok (st\<lparr>sv_errno := e\<rparr>) = gsv_memory_ok st"
  "gsv_memory_ok (st\<lparr>sv_io_reports := r\<rparr>) = gsv_memory_ok st"
  "gsv_memory_ok (st\<lparr>sv_host := mem\<rparr>) = gsv_memory_ok st"
  by (simp_all add: gsv_memory_ok_def)

lemma gsv_memory_okE:
  assumes "gsv_memory_ok st" and "gsv_address st x"
  obtains s where "sv_memory st = Some s" and "space_ok s" and "s_base s = sv_base st"
    and "s_end s = sv_base st + sv_span st" and "unat (sv_base st) + unat (sv_span st) < 2 ^ 64"
  using assms that by (auto simp: gsv_memory_ok_def gsv_address_def)

text \<open>The addresses a space contains are those of the software range.\<close>

lemma gsv_address_nat:
  assumes "unat (sv_base st) + unat (sv_span st) < 2 ^ 64"
  shows "gsv_address st x \<longleftrightarrow>
    sv_enabled st \<and> unat (sv_base st) \<le> unat x \<and> unat x < unat (sv_base st) + unat (sv_span st)"
  by (auto simp: gsv_address_def word_nat unat_sub)

lemma contains_address:
  assumes "gsv_memory_ok st" and "gsv_address st a" and "sv_memory st = Some s" and "sp_contains s a n" and "in_range a n x"
  shows "gsv_address st x"
proof -
  obtain s' where s: "sv_memory st = Some s'" "s_base s' = sv_base st" "s_end s' = sv_base st + sv_span st"
      and fit: "unat (sv_base st) + unat (sv_span st) < 2 ^ 64"
    by (rule gsv_memory_okE [OF assms(1,2)])
  note f = sp_contains_facts [OF assms(4)]
  have e: "unat (s_end s) = unat (sv_base st) + unat (sv_span st)"
    using s assms(3) unat_plus_nowrap [OF fit] by simp
  have "unat a + unat n \<le> unat (s_end s)" using f(2,3) by (simp add: word_nat)
  then show ?thesis
    using assms(2,5) f(1) e by (auto simp: gsv_address_nat [OF fit] in_range_iff [OF f(1)])
qed

lemma same_map_ok:
  assumes "gsv_memory_ok st" and "sv_memory st = Some s" and "space_ok s'" and "s_base s' = s_base s" and "s_end s' = s_end s"
  shows "gsv_memory_ok (st\<lparr>sv_memory := Some s'\<rparr>)"
  using assms by (auto simp: gsv_memory_ok_def)

section \<open>Buffers\<close>

text \<open>
  A buffer lies in the software range, where the accesses must be allowed and, for a store, the
  pages committed; or it is an object of the host, which does not reach into the range.
\<close>

definition host_object :: "'k GSV \<Rightarrow> u64 \<Rightarrow> u64 \<Rightarrow> bool" where
  "host_object st a n \<longleftrightarrow> unat a + unat n < 2 ^ 64 \<and> (\<forall>x. in_range a n x \<longrightarrow> \<not> gsv_address st x)"

definition source_ready :: "'k GSV \<Rightarrow> u64 \<Rightarrow> u64 \<Rightarrow> bool" where
  "source_ready st a n \<longleftrightarrow>
     (if gsv_address st a
      then \<exists>s. sv_memory st = Some s \<and> sp_contains s a n \<and> (\<forall>x. in_range a n x \<longrightarrow> sm_allowed s GM_READ x)
      else host_object st a n)"

definition target_ready :: "'k GSV \<Rightarrow> u64 \<Rightarrow> u64 \<Rightarrow> bool" where
  "target_ready st a n \<longleftrightarrow>
     (if gsv_address st a
      then \<exists>s. sv_memory st = Some s \<and> sp_contains s a n \<and> (\<forall>x. in_range a n x \<longrightarrow> sm_allowed s GM_WRITE x \<and> sm_slot s x \<noteq> None)
      else host_object st a n)"

lemma target_ready_kernel [simp]: "target_ready (st\<lparr>sv_kernel := k\<rparr>) a n = target_ready st a n"
  by (simp add: target_ready_def host_object_def)

lemma sub_range:
  assumes fit: "unat a + unat n < 2 ^ 64" and sub: "unat off + unat k \<le> unat n"
  shows "unat (a + off) = unat a + unat off" and "unat (a + off) + unat k < 2 ^ 64"
    and "in_range (a + off) k x \<longleftrightarrow> unat a + unat off \<le> unat x \<and> unat x < unat a + unat off + unat k"
    and "in_range (a + off) k x \<Longrightarrow> in_range a n x"
proof -
  show u: "unat (a + off) = unat a + unat off" by (rule unat_plus_nowrap) (use fit sub in linarith)
  show f: "unat (a + off) + unat k < 2 ^ 64" using fit sub u by linarith
  show i: "in_range (a + off) k x \<longleftrightarrow> unat a + unat off \<le> unat x \<and> unat x < unat a + unat off + unat k"
    unfolding in_range_iff [OF f] u by (rule refl)
  show "in_range (a + off) k x \<Longrightarrow> in_range a n x"
    unfolding i in_range_iff [OF fit] using sub by linarith
qed

lemma contains_sub:
  assumes c: "sp_contains s a n" and sub: "unat off + unat k \<le> unat n"
  shows "sp_contains s (a + off) k"
proof -
  note f = sp_contains_facts [OF c] and r = sub_range [OF sp_contains_facts(1) [OF c] sub]
  have "unat a + unat n \<le> unat (s_end s)" using f(2,3) by (simp add: word_nat)
  then have le: "unat (a + off) + unat k \<le> unat (s_end s)" using r(1) sub by linarith
  have "a \<le> a + off" using r(1) by (simp add: word_nat)
  then have "s_base s \<le> a + off" using c by (auto simp: sp_contains_def)
  moreover have "a + off \<le> s_end s" using le by (simp add: word_nat)
  moreover have "k \<le> s_end s - (a + off)"
    using le unat_sub_le [OF \<open>a + off \<le> s_end s\<close>] by (simp add: word_nat)
  ultimately show ?thesis by (simp add: sp_contains_def)
qed

lemma ready_fits:
  "source_ready st a n \<Longrightarrow> unat a + unat n < 2 ^ 64" "target_ready st a n \<Longrightarrow> unat a + unat n < 2 ^ 64"
  using sp_contains_facts(1) by (auto simp: source_ready_def target_ready_def host_object_def split: if_splits)

lemma ready_address:
  assumes "gsv_memory_ok st" and "source_ready st a n \<or> target_ready st a n" and "in_range a n x"
  shows "gsv_address st x \<longleftrightarrow> gsv_address st a"
  using assms contains_address [OF assms(1)]
  by (auto simp: source_ready_def target_ready_def host_object_def split: if_splits)

lemma copy_in_ready:
  assumes ok: "gsv_memory_ok st" and ready: "source_ready st a n" and sub: "unat off + unat k \<le> unat n"
  shows "copy_in (gsv_address st a) (a + off) k st = (GM_OK, map (\<lambda>i. gsv_view st (a + off + of_nat i)) [0..<unat k])"
proof -
  note r = sub_range [OF ready_fits(1) [OF ready] sub]
  have view: "gsv_view st (a + off + of_nat i) =
      (if gsv_address st a then sm_byte (the (sv_memory st)) (a + off + of_nat i) else sv_host st (a + off + of_nat i))"
    if "i < unat k" for i
    using ready_address [OF ok disjI1 [OF ready] r(4)] in_range_plus [OF that] by (simp add: gsv_view_def)
  show ?thesis
  proof (cases "gsv_address st a")
    case False
    then show ?thesis using view by (simp add: copy_in_def host_bytes_def)
  next
    case True
    obtain s where s: "sv_memory st = Some s" "space_ok s" by (rule gsv_memory_okE [OF ok True])
    have c: "sp_contains s a n" "\<forall>x. in_range a n x \<longrightarrow> sm_allowed s GM_READ x"
      using ready True s(1) by (auto simp: source_ready_def)
    have "check_access s (a + off) k GM_READ = GM_OK"
      unfolding check_access_spec(1) [OF s(2)] using contains_sub [OF c(1) sub] c(2) r(4) by blast
    moreover obtain res s' b where acc: "access_locked s (a + off) (Some (replicate (unat k) 0)) k False = (res, s', b)"
      by (metis prod_cases3)
    ultimately have "res = GM_OK" "b = Some (map (\<lambda>i. sm_byte s (a + off + of_nat i)) [0..<unat k])"
      using access_locked_read [OF s(2) _ acc] by simp_all
    then show ?thesis
      using True view acc s(1) by (simp add: copy_in_def gm_sparse_read_locked)
  qed
qed

lemma committed_pending:
  assumes "\<forall>x. in_range a n x \<longrightarrow> sm_slot s x \<noteq> None"
  shows "pending s a n = {}"
  using assms by (force simp: pending_def touched_def sm_slot_def)

text \<open>A store into a ready target succeeds, changes the bytes of its range and nothing else, and keeps every buffer ready.\<close>

lemma copy_out_ready:
  assumes ok: "gsv_memory_ok st" and ready: "target_ready st a n" and sub: "unat off + unat k \<le> unat n"
    and len: "unat k \<le> length bs" "gsv_address st a \<or> length bs = unat k"
  obtains st' where "copy_out (gsv_address st a) (a + off) bs k st = (GM_OK, st')" and "gsv_memory_ok st'"
    and "gsv_address st' = gsv_address st"
    and "\<And>x. gsv_view st' x = (if in_range (a + off) k x then bs ! unat (x - (a + off)) else gsv_view st x)"
    and "\<And>b m. source_ready st b m \<Longrightarrow> source_ready st' b m" and "\<And>b m. target_ready st b m \<Longrightarrow> target_ready st' b m"
    and "sv_kernel st' = sv_kernel st" and "\<And>m. st'\<lparr>sv_memory := m, sv_host := sv_host st\<rparr> = st\<lparr>sv_memory := m\<rparr>"
proof -
  note r = sub_range [OF ready_fits(2) [OF ready] sub] and same = ready_address [OF ok disjI2 [OF ready]]
  show ?thesis
  proof (cases "gsv_address st a")
    case False
    let ?st = "st\<lparr>sv_host := put_bytes (a + off) bs (sv_host st)\<rparr>"
    have "gsv_view ?st x = (if in_range (a + off) k x then bs ! unat (x - (a + off)) else gsv_view st x)" for x
      using False len(2) same [OF r(4), of x] by (auto simp: gsv_view_def put_bytes_def in_range_def)
    moreover have "source_ready ?st b m = source_ready st b m" "target_ready ?st b m = target_ready st b m" for b m
      by (simp_all add: source_ready_def target_ready_def host_object_def)
    ultimately show ?thesis using that [of ?st] ok False by (simp add: copy_out_def fun_eq_iff)
  next
    case True
    obtain s where s: "sv_memory st = Some s" "space_ok s" by (rule gsv_memory_okE [OF ok True])
    have c: "sp_contains s a n" "\<forall>x. in_range a n x \<longrightarrow> sm_allowed s GM_WRITE x \<and> sm_slot s x \<noteq> None"
      using ready True s(1) by (auto simp: target_ready_def)
    have chk: "check_access s (a + off) k GM_WRITE = GM_OK"
      unfolding check_access_spec(1) [OF s(2)] using contains_sub [OF c(1) sub] c(2) r(4) by blast
    have pend: "pending s (a + off) k = {}" by (rule committed_pending) (use c(2) r(4) in blast)
    obtain res s' b where acc: "access_locked s (a + off) (Some bs) k True = (res, s', b)" by (metis prod_cases3)
    note w = access_locked_write [OF s(2) len(1) acc]
    have res: "res = GM_OK" using w chk pend by simp
    let ?st = "st\<lparr>sv_memory := Some s'\<rparr>"
    have ok': "space_ok s'" "same_map s s'" using w by blast+
    note v = same_map_views [OF ok'(2)]
    have slots: "sm_slot s x \<noteq> None \<Longrightarrow> sm_slot s' x \<noteq> None" for x using w res by simp
    have keep: "source_ready st b m \<Longrightarrow> source_ready ?st b m" "target_ready st b m \<Longrightarrow> target_ready ?st b m" for b m
      using slots s(1) by (auto simp: source_ready_def target_ready_def host_object_def v simp del: not_None_eq split: if_splits)
    have "gsv_view ?st x = (if in_range (a + off) k x then bs ! unat (x - (a + off)) else gsv_view st x)" for x
      using w res s(1) True same [OF r(4), of x] by (auto simp: gsv_view_def)
    moreover have "gsv_memory_ok ?st" using same_map_ok [OF ok s(1) ok'(1)] ok'(2) by (simp add: same_map_def)
    ultimately show ?thesis
      using that [of ?st] keep True acc res s(1) by (simp add: copy_out_def gm_sparse_write_locked fun_eq_iff)
  qed
qed

section \<open>Copies\<close>

text \<open>The memory after the bytes with offsets \<open>lo\<close> to \<open>hi\<close> have been moved, and after all have.\<close>

definition copied :: "(u64 \<Rightarrow> u8) \<Rightarrow> u64 \<Rightarrow> u64 \<Rightarrow> nat \<Rightarrow> nat \<Rightarrow> u64 \<Rightarrow> u8" where
  "copied v d s lo hi x = (if unat d + lo \<le> unat x \<and> unat x < unat d + hi then v (s + (x - d)) else v x)"

definition memmove :: "u64 \<Rightarrow> u64 \<Rightarrow> u64 \<Rightarrow> (u64 \<Rightarrow> u8) \<Rightarrow> u64 \<Rightarrow> u8" where
  "memmove d s n v x = (if in_range d n x then v (s + (x - d)) else v x)"

definition copy_reverse :: "u64 \<Rightarrow> u64 \<Rightarrow> u64 \<Rightarrow> bool" where
  "copy_reverse d s n \<longleftrightarrow> d > s \<and> d - s < n"

definition copy_window :: "u64 \<Rightarrow> u64 \<Rightarrow> u64 \<Rightarrow> u64 \<Rightarrow> nat \<times> nat" where
  "copy_window d s n c = (if copy_reverse d s n then (unat n - unat c, unat n) else (0, unat c))"

definition copy_offset :: "u64 \<Rightarrow> u64 \<Rightarrow> u64 \<Rightarrow> u64 \<Rightarrow> u64" where
  "copy_offset d s n c = (if copy_reverse d s n then n - c - bounce_chunk (n - c) else c)"

lemma bounce_chunk_nat:
  assumes "c < (n :: u64)"
  shows "0 < unat (bounce_chunk (n - c))" and "unat c + unat (bounce_chunk (n - c)) \<le> unat n"
    and "unat (c + bounce_chunk (n - c)) = unat c + unat (bounce_chunk (n - c))"
    and "unat (bounce_chunk (n - c)) \<le> 4096"
proof -
  have u: "unat (n - c) = unat n - unat c" using assms by (intro unat_sub_le) simp
  have lt: "unat c < unat n" using assms by (simp add: word_nat)
  show le: "unat c + unat (bounce_chunk (n - c)) \<le> unat n" and "0 < unat (bounce_chunk (n - c))"
    and "unat (bounce_chunk (n - c)) \<le> 4096"
    using u lt by (auto simp: bounce_chunk_def word_nat)
  show "unat (c + bounce_chunk (n - c)) = unat c + unat (bounce_chunk (n - c))"
    by (rule unat_plus_nowrap) (use le unat_u64_less [of n] in linarith)
qed

lemma copy_offset_nat:
  assumes "c < (n :: u64)"
  shows "unat (copy_offset d s n c) =
      (if copy_reverse d s n then unat n - (unat c + unat (bounce_chunk (n - c))) else unat c)"
    and "unat (copy_offset d s n c) + unat (bounce_chunk (n - c)) \<le> unat n"
proof -
  note b = bounce_chunk_nat [OF assms]
  have "unat (n - c - bounce_chunk (n - c)) = unat n - (unat c + unat (bounce_chunk (n - c)))"
    using b(2,3) unat_sub_le [of "c + bounce_chunk (n - c)" n] by (simp add: diff_diff_add word_nat)
  then show o: "unat (copy_offset d s n c) =
      (if copy_reverse d s n then unat n - (unat c + unat (bounce_chunk (n - c))) else unat c)"
    by (simp add: copy_offset_def)
  show "unat (copy_offset d s n c) + unat (bounce_chunk (n - c)) \<le> unat n" unfolding o using b(2) by auto
qed

text \<open>The direction of the copy keeps the bytes still to be read apart from those already written.\<close>

lemma copied_source:
  assumes fit: "unat d + unat n < 2 ^ 64" "unat s + unat n < 2 ^ 64" and c: "c < n"
    and y: "unat y = unat s + unat (copy_offset d s n c) + i" and i: "i < unat (bounce_chunk (n - c))"
    and w: "copy_window d s n c = (lo, hi)"
  shows "copied v d s lo hi y = v y"
proof -
  note b = bounce_chunk_nat [OF c] and o = copy_offset_nat [OF c, of d s]
  have "\<not> (unat d + lo \<le> unat y \<and> unat y < unat d + hi)"
  proof (cases "copy_reverse d s n")
    case True
    then have "unat s < unat d" by (simp add: copy_reverse_def word_nat)
    moreover have "lo = unat n - unat c" using w True by (auto simp: copy_window_def)
    ultimately show ?thesis using y i o b(2) True by auto
  next
    case False
    then have "unat d \<le> unat s \<or> unat n \<le> unat d - unat s"
      by (auto simp: copy_reverse_def word_nat unat_sub)
    moreover have "lo = 0" "hi = unat c" using w False by (simp_all add: copy_window_def)
    ultimately show ?thesis using y i o False b(2) by auto
  qed
  then show ?thesis by (auto simp: copied_def)
qed

text \<open>One round extends the window by its chunk.\<close>

lemma copied_extend:
  assumes fit: "unat d + unat n < 2 ^ 64" and c: "c < n" and w: "copy_window d s n c = (lo, hi)"
    and w': "copy_window d s n (c + bounce_chunk (n - c)) = (lo', hi')"
  shows "(if in_range (d + copy_offset d s n c) (bounce_chunk (n - c)) x then v (s + (x - d)) else copied v d s lo hi x) =
    copied v d s lo' hi' x"
proof -
  note b = bounce_chunk_nat [OF c] and o = copy_offset_nat [OF c, of d s]
  have "in_range (d + copy_offset d s n c) (bounce_chunk (n - c)) x \<or> unat d + lo \<le> unat x \<and> unat x < unat d + hi \<longleftrightarrow>
      unat d + lo' \<le> unat x \<and> unat x < unat d + hi'"
    unfolding sub_range(3) [OF fit o(2)] using o b(2,3) w w' by (auto simp: copy_window_def split: if_splits)
  then show ?thesis by (auto simp: copied_def)
qed

lemma copy_round:
  assumes ok: "gsv_memory_ok st" and src: "source_ready st s n" and dst: "target_ready st d n" and c: "c < n"
    and w: "copy_window d s n c = (lo, hi)" and view: "gsv_view st = copied v d s lo hi"
    and w': "copy_window d s n (c + bounce_chunk (n - c)) = (lo', hi')"
  obtains bs st' where
    "copy_in (gsv_address st s) (s + copy_offset d s n c) (bounce_chunk (n - c)) st = (GM_OK, bs)"
    "copy_out (gsv_address st d) (d + copy_offset d s n c) bs (bounce_chunk (n - c)) st = (GM_OK, st')"
    "gsv_memory_ok st'" "gsv_address st' = gsv_address st" "gsv_view st' = copied v d s lo' hi'"
    "source_ready st' s n" "target_ready st' d n" "\<And>m. st'\<lparr>sv_memory := m, sv_host := sv_host st\<rparr> = st\<lparr>sv_memory := m\<rparr>"
proof -
  let ?off = "copy_offset d s n c" and ?k = "bounce_chunk (n - c)"
  note fit = ready_fits(2) [OF dst] ready_fits(1) [OF src] and sub = copy_offset_nat(2) [OF c, of d s]
  define bs where "bs = map (\<lambda>i. gsv_view st (s + ?off + of_nat i)) [0..<unat ?k]"
  have len: "length bs = unat ?k" by (simp add: bs_def)
  obtain st' where st': "copy_out (gsv_address st d) (d + ?off) bs ?k st = (GM_OK, st')" "gsv_memory_ok st'"
      "gsv_address st' = gsv_address st" "source_ready st' s n" "target_ready st' d n"
      "\<And>m. st'\<lparr>sv_memory := m, sv_host := sv_host st\<rparr> = st\<lparr>sv_memory := m\<rparr>"
    and new: "\<And>x. gsv_view st' x = (if in_range (d + ?off) ?k x then bs ! unat (x - (d + ?off)) else gsv_view st x)"
    by (rule copy_out_ready [OF ok dst sub, of bs]) (use len src dst in auto)
  have byte: "bs ! unat (x - (d + ?off)) = v (s + (x - d))" if x: "in_range (d + ?off) ?k x" for x
  proof -
    let ?i = "unat (x - (d + ?off))"
    have i: "?i < unat ?k" using x by (simp add: in_range_def)
    have y: "s + ?off + of_nat ?i = s + (x - d)" by simp
    have "unat (s + ?off + of_nat ?i) = unat s + unat ?off + ?i"
      using i sub_range(1,2) [OF fit(2) sub] unat_plus_nowrap [of "s + ?off" "x - (d + ?off)"] by simp
    then have "copied v d s lo hi (s + ?off + of_nat ?i) = v (s + ?off + of_nat ?i)"
      by (rule copied_source [OF fit c _ i w])
    then show ?thesis using i by (simp add: bs_def view y)
  qed
  have "gsv_view st' x = copied v d s lo' hi' x" for x
    unfolding new copied_extend [OF fit(1) c w w', symmetric] using byte by (simp add: view)
  then have "gsv_view st' = copied v d s lo' hi'" by (rule ext)
  with st' copy_in_ready [OF ok src sub] show ?thesis using that [of bs st'] by (simp add: bs_def)
qed

lemma copy_loop_ready:
  assumes "gsv_memory_ok st" and "source_ready st s n" and "target_ready st d n" and "c \<le> n"
    and "copy_window d s n c = (lo, hi)" and "gsv_view st = copied v d s lo hi"
  shows "\<exists>st'. copy_loop (gsv_address st d) (gsv_address st s) (copy_reverse d s n) d s n c st = (GM_OK, st') \<and>
    gsv_memory_ok st' \<and> gsv_address st' = gsv_address st \<and> gsv_view st' = copied v d s 0 (unat n) \<and>
    (\<forall>m. st'\<lparr>sv_memory := m, sv_host := sv_host st\<rparr> = st\<lparr>sv_memory := m\<rparr>)"
  using assms
proof (induction "unat (n - c)" arbitrary: c st lo hi rule: less_induct)
  case less
  show ?case
  proof (cases "c < n")
    case False
    then have "c = n" using less(5) by simp
    then show ?thesis using less(2,6,7) False by (simp add: copy_loop.simps copy_window_def split: if_splits)
  next
    case True
    let ?k = "bounce_chunk (n - c)"
    obtain lo' hi' where w': "copy_window d s n (c + ?k) = (lo', hi')" by (metis prod.exhaust)
    obtain bs st1 where r: "copy_in (gsv_address st s) (s + copy_offset d s n c) ?k st = (GM_OK, bs)"
        "copy_out (gsv_address st d) (d + copy_offset d s n c) bs ?k st = (GM_OK, st1)"
        "gsv_memory_ok st1" "gsv_address st1 = gsv_address st" "gsv_view st1 = copied v d s lo' hi'"
        "source_ready st1 s n" "target_ready st1 d n" "\<And>m. st1\<lparr>sv_memory := m, sv_host := sv_host st\<rparr> = st\<lparr>sv_memory := m\<rparr>"
      by (rule copy_round [OF less(2,3,4) True less(6,7) w']) blast
    have "c + ?k \<le> n" using bounce_chunk_nat(2,3) [OF True] by (simp add: word_nat)
    note ih = less(1) [OF bounce_progress [OF True] r(3,6,7) this w' r(5)]
    have "copy_loop (gsv_address st d) (gsv_address st s) (copy_reverse d s n) d s n c st =
        copy_loop (gsv_address st d) (gsv_address st s) (copy_reverse d s n) d s n (c + ?k) st1"
      using True r(1,2) by (subst copy_loop.simps) (simp add: copy_offset_def [of d s n c, symmetric] Let_def)
    moreover have "st'\<lparr>sv_memory := m, sv_host := sv_host st\<rparr> = st\<lparr>sv_memory := m\<rparr>"
      if "\<forall>m. st'\<lparr>sv_memory := m, sv_host := sv_host st1\<rparr> = st1\<lparr>sv_memory := m\<rparr>" for st' :: "'a GSV" and m
    proof -
      have "st'\<lparr>sv_memory := m, sv_host := sv_host st\<rparr> = st'\<lparr>sv_memory := m, sv_host := sv_host st1\<rparr>\<lparr>sv_host := sv_host st\<rparr>" by simp
      also have "\<dots> = st1\<lparr>sv_memory := m, sv_host := sv_host st\<rparr>" using that by simp
      finally show ?thesis using r(8) by simp
    qed
    ultimately show ?thesis using ih r(4) by auto
  qed
qed

text \<open>The accesses \<open>prepare\<close> lets through: host addresses, and ranges of the software range with the
  permission and, for a store, room for the pages not yet backed.\<close>

definition accessible :: "'k GSV \<Rightarrow> u64 \<Rightarrow> u64 \<Rightarrow> u32 \<Rightarrow> bool" where
  "accessible st a n p \<longleftrightarrow>
     (gsv_address st a \<longrightarrow> (\<exists>s. sv_memory st = Some s \<and> sp_contains s a n \<and> (\<forall>x. in_range a n x \<longrightarrow> sm_allowed s p x) \<and>
        (p AND GM_WRITE \<noteq> 0 \<longrightarrow> card (pending s a n) \<le> s_capacity s - s_resident s)))"

lemma sparse_prepare_result:
  assumes ok: "space_ok s" and p: "p = GM_READ \<or> p = GM_WRITE"
  shows "fst (gm_sparse_prepare (Some s) a n p) = GM_OK \<longleftrightarrow>
    sp_contains s a n \<and> (\<forall>x. in_range a n x \<longrightarrow> sm_allowed s p x) \<and>
      (p AND GM_WRITE \<noteq> 0 \<longrightarrow> card (pending s a n) \<le> s_capacity s - s_resident s)"
proof -
  have "backing_enough s (page_walk a (a + n)) 0 \<longleftrightarrow> card (pending s a n) \<le> s_capacity s - s_resident s"
    if "check_access s a n p = GM_OK" "n \<noteq> 0"
  proof -
    have c: "sp_contains s a n" "\<forall>x. in_range a n x \<longrightarrow> sm_allowed s p x"
      using that(1) unfolding check_access_spec(1) [OF ok] by blast+
    show ?thesis by (rule backing_enough_spec [OF sp_contains_facts(1) [OF c(1)] that(2) allowed_base [OF ok c(2)]])
  qed
  moreover have "pending s a 0 = {}" by (simp add: pending_def touched_def)
  ultimately have "fst (gm_sparse_prepare (Some s) a n p) = GM_OK \<longleftrightarrow>
      check_access s a n p = GM_OK \<and> (p AND GM_WRITE \<noteq> 0 \<longrightarrow> card (pending s a n) \<le> s_capacity s - s_resident s)"
    using p by (cases "n = 0") (auto simp: gm_sparse_prepare_def Let_def)
  then show ?thesis unfolding check_access_spec(1) [OF ok] by simp
qed

lemma memory_same: "sv_memory st = m \<Longrightarrow> st\<lparr>sv_memory := m\<rparr> = st"
  by (cases st) simp

lemma prepare_ready:
  assumes ok: "gsv_memory_ok st" and p: "p = GM_READ \<or> p = GM_WRITE" and eq: "prepare a n p st = (r, st')"
  shows "r = GM_OK \<longleftrightarrow> accessible st a n p" and "gsv_memory_ok st'" and "gsv_view st' = gsv_view st"
    and "gsv_address st' = gsv_address st" and "p = GM_READ \<Longrightarrow> st' = st" and "r \<noteq> GM_OK \<Longrightarrow> st' = st"
    and "r = GM_OK \<Longrightarrow> p = GM_READ \<Longrightarrow> gsv_address st a \<or> host_object st a n \<Longrightarrow> source_ready st' a n"
    and "r = GM_OK \<Longrightarrow> p = GM_WRITE \<Longrightarrow> gsv_address st a \<or> host_object st a n \<Longrightarrow> target_ready st' a n"
    and "source_ready st b m \<Longrightarrow> source_ready st' b m"
    and "\<And>m. st'\<lparr>sv_memory := m\<rparr> = st\<lparr>sv_memory := m\<rparr>"
proof -
  have "(r = GM_OK \<longleftrightarrow> accessible st a n p) \<and> gsv_memory_ok st' \<and> gsv_view st' = gsv_view st \<and>
    gsv_address st' = gsv_address st \<and> (p = GM_READ \<or> r \<noteq> GM_OK \<longrightarrow> st' = st) \<and>
    (r = GM_OK \<longrightarrow> gsv_address st a \<or> host_object st a n \<longrightarrow> (p = GM_READ \<longrightarrow> source_ready st' a n) \<and> (p = GM_WRITE \<longrightarrow> target_ready st' a n)) \<and>
    (source_ready st b m \<longrightarrow> source_ready st' b m) \<and> (\<forall>m. st'\<lparr>sv_memory := m\<rparr> = st\<lparr>sv_memory := m\<rparr>)"
  proof (cases "gsv_address st a")
    case False
    then have "r = GM_OK" "st' = st" using eq by (simp_all add: prepare_def)
    then show ?thesis using ok False by (simp add: accessible_def source_ready_def target_ready_def)
  next
    case True
    obtain s where s: "sv_memory st = Some s" "space_ok s" by (rule gsv_memory_okE [OF ok True])
    obtain m1 where m1: "gm_sparse_prepare (Some s) a n p = (r, m1)" "st' = st\<lparr>sv_memory := m1\<rparr>"
      using eq True s(1) by (auto simp: prepare_def split: prod.splits)
    obtain s' where s': "m1 = Some s'" "space_ok s'" "same_map s s'" "sm_byte s' = sm_byte s" "r \<noteq> GM_OK \<longrightarrow> s' = s"
        "r = GM_OK \<longrightarrow> p AND GM_WRITE \<noteq> 0 \<longrightarrow> (\<forall>x. in_range a n x \<longrightarrow> sm_slot s' x \<noteq> None)"
      using gm_sparse_prepare_spec [OF s(2) m1(1)] by blast
    note v = same_map_views [OF s'(3)]
    have res: "r = GM_OK \<longleftrightarrow> accessible st a n p"
      using sparse_prepare_result [OF s(2) p, of a n] m1(1) s(1) True by (simp add: accessible_def)
    have "m1 = Some s" if "p = GM_READ \<or> r \<noteq> GM_OK"
    proof (cases "r = GM_OK")
      case True
      then have "p = GM_READ" using that by simp
      then show ?thesis using m1(1) by (simp add: gm_sparse_prepare_def Let_def split: if_splits)
    qed (use s' in simp)
    then have same: "st' = st" if "p = GM_READ \<or> r \<noteq> GM_OK" using that m1(2) memory_same [OF s(1)] by simp
    have "gsv_memory_ok st'" using same_map_ok [OF ok s(1) s'(2)] s'(1,3) m1(2) by (simp add: same_map_def)
    moreover have "gsv_view st' = gsv_view st" using m1(2) s'(1,4) s(1) by (simp add: fun_eq_iff gsv_view_def)
    moreover have "source_ready st b m \<longrightarrow> source_ready st' b m"
      using m1(2) s'(1) s(1) by (simp add: source_ready_def host_object_def v)
    moreover have "(p = GM_READ \<longrightarrow> source_ready st' a n) \<and> (p = GM_WRITE \<longrightarrow> target_ready st' a n)" if "r = GM_OK"
      using that res True s(1) s' m1(2) by (auto simp: accessible_def source_ready_def target_ready_def v simp del: not_None_eq)
    moreover have "gsv_address st' = gsv_address st" using m1(2) by (simp add: fun_eq_iff)
    moreover have "\<forall>m. st'\<lparr>sv_memory := m\<rparr> = st\<lparr>sv_memory := m\<rparr>" using m1(2) by simp
    ultimately show ?thesis using res same by blast
  qed
  then show "r = GM_OK \<longleftrightarrow> accessible st a n p" and "gsv_memory_ok st'" and "gsv_view st' = gsv_view st"
    and "gsv_address st' = gsv_address st" and "p = GM_READ \<Longrightarrow> st' = st" and "r \<noteq> GM_OK \<Longrightarrow> st' = st"
    and "r = GM_OK \<Longrightarrow> p = GM_READ \<Longrightarrow> gsv_address st a \<or> host_object st a n \<Longrightarrow> source_ready st' a n"
    and "r = GM_OK \<Longrightarrow> p = GM_WRITE \<Longrightarrow> gsv_address st a \<or> host_object st a n \<Longrightarrow> target_ready st' a n"
    and "source_ready st b m \<Longrightarrow> source_ready st' b m"
    and "\<And>m. st'\<lparr>sv_memory := m\<rparr> = st\<lparr>sv_memory := m\<rparr>"
    by auto
qed

lemma memmove_copied:
  assumes "unat d + unat n < 2 ^ 64"
  shows "copied v d s 0 (unat n) = memmove d s n v"
  by (simp add: fun_eq_iff copied_def memmove_def in_range_iff [OF assms])

lemma host_move:
  assumes "\<not> gsv_address st d" and d: "host_object st d n" and s: "host_object st s n"
  shows "gsv_view (st\<lparr>sv_host := put_bytes d (host_bytes (sv_host st) s (unat n)) (sv_host st)\<rparr>) = memmove d s n (gsv_view st)"
proof
  fix x
  have "\<not> gsv_address st (s + (x - d))" if "in_range d n x"
    using that s unfolding host_object_def by (auto simp: in_range_def)
  then show "gsv_view (st\<lparr>sv_host := put_bytes d (host_bytes (sv_host st) s (unat n)) (sv_host st)\<rparr>) x =
      memmove d s n (gsv_view st) x"
    using d by (auto simp: gsv_view_def memmove_def put_bytes_def host_bytes_def host_object_def in_range_def)
qed

text \<open>C10. \<open>gsv_copy\<close> is \<open>memmove\<close> on the memory that the software range and the host form together, with
  overlapping ranges and ranges of more than one bounce buffer included; it succeeds exactly when
  the source may be read and the destination written with enough backing left, and otherwise
  changes no byte. A buffer outside the software range is an object of the host.\<close>

theorem gsv_copy_memmove:
  assumes ok: "gsv_memory_ok st" and d: "gsv_address st d \<or> host_object st d n"
    and s: "gsv_address st s \<or> host_object st s n" and eq: "gsv_copy d s n st = (r, st')"
  shows "gsv_memory_ok st' \<and> (r = GM_OK \<longleftrightarrow> accessible st s n GM_READ \<and> accessible st d n GM_WRITE) \<and>
    gsv_view st' = (if r = GM_OK then memmove d s n (gsv_view st) else gsv_view st)"
proof (cases "gsv_address st d \<or> gsv_address st s")
  case False
  then have "r = GM_OK" "st' = st\<lparr>sv_host := put_bytes d (host_bytes (sv_host st) s (unat n)) (sv_host st)\<rparr>"
    using eq by (simp_all add: gsv_copy_def Let_def)
  then show ?thesis using False d s ok host_move [of st d n s] by (auto simp: accessible_def)
next
  case soft: True
  obtain r1 st1 where p1: "prepare s n GM_READ st = (r1, st1)" by (metis prod.exhaust)
  note a = prepare_ready [OF ok disjI1 [OF refl] p1]
  have st1: "st1 = st" by (rule a(5)) simp
  obtain r2 st2 where p2: "prepare d n GM_WRITE st = (r2, st2)" by (metis prod.exhaust)
  note b = prepare_ready [OF ok disjI2 [OF refl] p2]
  show ?thesis
  proof (cases "r1 = GM_OK \<and> r2 = GM_OK")
    case False
    then have "r \<noteq> GM_OK" "st' = st"
      using eq soft p1 p2 st1 b(6) by (auto simp: gsv_copy_def Let_def split: GMResult.splits)
    then show ?thesis using False a(1) b(1) ok by auto
  next
    case True
    have src: "source_ready st2 s n" using b(9) [OF a(7) [unfolded st1]] True s by simp
    have dst: "target_ready st2 d n" using b(8) True d by simp
    obtain lo hi where w: "copy_window d s n 0 = (lo, hi)" by (metis prod.exhaust)
    have v0: "gsv_view st2 = copied (gsv_view st) d s lo hi"
      using w b(3) by (auto simp: fun_eq_iff copied_def copy_window_def split: if_splits)
    obtain st3 where l: "copy_loop (gsv_address st2 d) (gsv_address st2 s) (copy_reverse d s n) d s n 0 st2 = (GM_OK, st3)"
        "gsv_memory_ok st3" "gsv_view st3 = copied (gsv_view st) d s 0 (unat n)"
      using copy_loop_ready [OF b(2) src dst _ w v0] by auto
    have "gsv_copy d s n st = (GM_OK, st3)"
      using soft p1 p2 st1 True l(1) b(4) by (auto simp: gsv_copy_def Let_def copy_reverse_def)
    then show ?thesis
      using eq l(2,3) True a(1) b(1) by (simp add: memmove_copied [OF ready_fits(2) [OF dst]])
  qed
qed

section \<open>A sample state\<close>

definition software_sample :: "unit GSV" where
  "software_sample =
     \<lparr>sv_memory = Some sparse_sample, sv_base = s_base sparse_sample, sv_span = s_end sparse_sample - s_base sparse_sample,
      sv_guard = None, sv_force_threshold = 0, sv_native_pool_size = 0, sv_forced_pool_size = 0,
      sv_pending_native_pool = None, sv_enabled = True, sv_fault_count = 0, sv_io_reports = 0, sv_code_base = 0,
      sv_code_alias = 0, sv_code_size = 0, sv_code_alias_enabled = False, sv_original = (default_action, default_action),
      sv_actions = [default_action], sv_current = (Original, Original), sv_errno = 0,
      sv_host = (\<lambda>x. if x = 0x103 then 9 else if x = 0x104 then 0 else 1), sv_kernel = ()\<rparr>"

lemma software_sample_bounds: "sv_base software_sample = s_base sparse_sample" "sv_enabled software_sample"
    "sv_memory software_sample = Some sparse_sample" "sv_span software_sample = s_end sparse_sample - s_base sparse_sample"
  by (simp_all add: software_sample_def)

lemma software_sample_ok: "gsv_memory_ok software_sample"
  using sparse_sample_ok
  by (simp add: gsv_memory_ok_def software_sample_bounds) (simp add: sparse_sample_def sparse_empty_def)

lemma software_sample_address: "gsv_address software_sample 0x8000" "\<not> gsv_address software_sample 0x100"
  by (simp_all add: gsv_address_def software_sample_bounds) (simp_all add: sparse_sample_def sparse_empty_def)

lemma software_sample_host: "host_object software_sample 0x100 8"
proof -
  have "\<not> gsv_address software_sample x" if "in_range 0x100 8 x" for x
    using in_range_iff [of "0x100" 8 x] that
    by (simp add: gsv_address_def software_sample_bounds word_nat) (simp add: sparse_sample_def sparse_empty_def)
  then show ?thesis by (simp add: host_object_def)
qed

lemma software_sample_writable: "accessible software_sample 0x8000 8 GM_WRITE"
proof -
  have "sp_contains sparse_sample 0x8000 8 \<and> (\<forall>x. in_range 0x8000 8 x \<longrightarrow> sm_allowed sparse_sample GM_WRITE x)"
    unfolding check_access_spec(1) [OF sparse_sample_ok, symmetric] by (simp add: sparse_sample_check)
  moreover have "card (pending sparse_sample 0x8000 8) \<le> s_capacity sparse_sample - s_resident sparse_sample"
    by (rule sparse_sample_ready) simp_all
  ultimately show ?thesis by (simp add: accessible_def software_sample_bounds)
qed

theorem gsv_copy_memmove_witness:
  "\<exists>st'. gsv_copy 0x8000 0x100 8 software_sample = (GM_OK, st') \<and> gsv_view st' 0x8003 = 9"
proof -
  obtain r st' where eq: "gsv_copy 0x8000 0x100 8 software_sample = (r, st')" by (metis prod.exhaust)
  note t = gsv_copy_memmove [OF software_sample_ok disjI1 [OF software_sample_address(1)] disjI2 [OF software_sample_host] eq]
  have "r = GM_OK" using t software_sample_writable software_sample_address(2) by (simp add: accessible_def)
  moreover have "gsv_view software_sample 0x103 = 9"
    using software_sample_host by (auto simp: gsv_view_def host_object_def software_sample_def in_range_def)
  moreover have "in_range 0x8000 8 0x8003" by (simp add: in_range_def)
  ultimately show ?thesis using t eq by (simp add: memmove_def)
qed

end
