(* ===== verification/GuestSoftwareScan.thy ===== *)
theory GuestSoftwareScan
  imports GuestSoftwareLaws
begin

text \<open>
  The string scans of \<open>GuestSoftwareVM.c\<close> read chunks of up to 256 bytes. Protections are per page and a chunk ends
  with its page, so the chunked scans find what a scan byte by byte finds: the same length, and an abort
  exactly when the first byte that is a terminator or unreadable is unreadable.
\<close>

section \<open>Chunks\<close>

text \<open>A byte a scan may read: software addresses need the permission.\<close>

definition legible :: "'k GSV \<Rightarrow> u64 \<Rightarrow> bool" where
  "legible st x \<longleftrightarrow> (gsv_address st x \<longrightarrow> sm_allowed (the (sv_memory st)) GM_READ x)"

lemma page_rest:
  assumes k: "unat k \<le> 16384 - unat p mod 16384" and x: "in_range p k x"
  shows "page_base x = page_base p"
proof -
  have p: "unat p = unat (page_base p) + unat p mod 16384" using unat_page_split [of p] by (simp add: page_off_def)
  have lt: "unat (page_base p) + 16384 \<le> 2 ^ 64"
  proof -
    obtain q where "unat (page_base p) = 16384 * q"
      using page_aligned_base [of p] by (auto simp: page_aligned_iff mod_eq_0_iff_dvd elim: dvdE)
    then show ?thesis using unat_u64_less [of "page_base p"] by simp
  qed
  obtain i where i: "i < unat k" "x = p + of_nat i" using in_range_offset [OF x] by blast
  have "unat p + i < 2 ^ 64" using p k i(1) lt by linarith
  then have "unat x = unat p + i" using i unat_u64_less [of k] by (simp add: unat_word_ariths unat_of_nat_u64)
  then show ?thesis unfolding page_base_eq_iff [OF page_aligned_base] using p k i(1) by linarith
qed

lemma page_end:
  assumes "page_aligned e" and "p < e"
  shows "unat p + (16384 - unat p mod 16384) \<le> unat e"
proof -
  obtain q where q: "unat e = 16384 * q" using assms(1) by (auto simp: page_aligned_iff mod_eq_0_iff_dvd elim: dvdE)
  have p: "unat p = 16384 * (unat p div 16384) + unat p mod 16384" by simp
  have "unat p < 16384 * q" using assms(2) q by (simp add: word_nat)
  then have "unat p div 16384 < q" by (simp add: div_less_iff_less_mult mult.commute)
  then have "16384 * (unat p div 16384) + 16384 \<le> 16384 * q" by simp
  moreover have "unat p mod 16384 < 16384" by simp
  ultimately show ?thesis using p q by linarith
qed

lemma scan_chunk_page:
  assumes "gsv_address st p"
  shows "unat (scan_chunk st p remaining) \<le> 16384 - unat p mod 16384"
proof -
  have "unat (GM_PAGE_SIZE - p mod GM_PAGE_SIZE) = 16384 - unat p mod 16384"
    by (subst unat_sub_le) (simp_all add: word_le_nat_alt unat_mod)
  then show ?thesis using assms by (auto simp: scan_chunk_def Let_def word_nat)
qed

text \<open>A chunk of the software range is readable when its first byte is.\<close>

lemma scan_read_software:
  assumes ok: "gsv_memory_ok st" and p: "gsv_address st p" and k: "unat k \<le> 16384 - unat p mod 16384" "k \<noteq> 0"
  shows "scan_read st p k = (if legible st p then Scanned (map (\<lambda>i. gsv_view st (p + of_nat i)) [0..<unat k]) else Aborted)"
    and "i < unat k \<Longrightarrow> legible st (p + of_nat i) = legible st p"
proof -
  obtain s where s: "sv_memory st = Some s" "space_ok s" "s_base s = sv_base st" "s_end s = sv_base st + sv_span st"
      and fit: "unat (sv_base st) + unat (sv_span st) < 2 ^ 64" by (rule gsv_memory_okE [OF ok p])
  have e: "unat (s_end s) = unat (sv_base st) + unat (sv_span st)" using s(4) unat_plus_nowrap [OF fit] by simp
  have b: "unat (s_base s) \<le> unat p" "unat p < unat (s_end s)" using p e s(3) by (simp_all add: gsv_address_nat [OF fit])
  have "unat p + unat k \<le> unat (s_end s)"
    using page_end [of "s_end s" p] s(2) b(2) k(1) by (simp add: space_ok_def word_nat)
  then have c: "sp_contains s p k" using b by (simp add: sp_contains_def word_nat unat_sub)
  have same: "sm_allowed s GM_READ x = sm_allowed s GM_READ p" if "in_range p k x" for x
    using page_rest [OF k(1) that] sm_attr_base [OF s(2), of x] sm_attr_base [OF s(2), of p]
    by (simp add: sm_allowed_def rg_allows_def sm_attr_def)
  have addr: "gsv_address st x" if "in_range p k x" for x by (rule contains_address [OF ok p s(1) c that])
  have leg: "legible st x = sm_allowed s GM_READ p" if "in_range p k x" for x
    using same [OF that] addr [OF that] s(1) by (simp add: legible_def)
  have pk: "in_range p k p" using k(2) by (simp add: in_range_def unat_gt_0)
  show "i < unat k \<Longrightarrow> legible st (p + of_nat i) = legible st p"
    using leg [OF conjunct1 [OF in_range_plus]] leg [OF pk] by simp
  have chk: "check_access s p k GM_READ = GM_OK \<longleftrightarrow> legible st p"
    unfolding check_access_spec(1) [OF s(2)] leg [OF pk] using c same pk by blast
  obtain res s' buf where acc: "access_locked s p (Some (replicate (unat k) 0)) k False = (res, s', buf)"
    by (metis prod_cases3)
  note r = access_locked_read [OF s(2) _ acc, simplified]
  have view: "map (\<lambda>i. gsv_view st (p + of_nat i)) [0..<unat k] = map (\<lambda>i. sm_byte s (p + of_nat i)) [0..<unat k]"
    using addr in_range_plus s(1) by (auto simp: gsv_view_def)
  show "scan_read st p k = (if legible st p then Scanned (map (\<lambda>i. gsv_view st (p + of_nat i)) [0..<unat k]) else Aborted)"
    unfolding view using acc r chk p s(1)
    by (cases res) (auto simp: scan_read_def gm_sparse_read_locked)
qed

text \<open>Above the software range a chunk is read from the host; at the positions a string can reach without
  wrapping around, a chunk is the memory there.\<close>

lemma scan_read_chunk:
  assumes ok: "gsv_memory_ok st" and a: "gsv_address st a" and p: "unat p = unat a + j" and rem: "0 < remaining"
  defines "k \<equiv> scan_chunk st p remaining"
  obtains bs where "scan_read st p k = (if legible st p then Scanned bs else Aborted)" and "length bs = unat k"
    and "\<And>i. i < unat k \<Longrightarrow> unat p + i < 2 ^ 64 \<Longrightarrow>
      bs ! i = gsv_view st (p + of_nat i) \<and> legible st (p + of_nat i) = legible st p"
proof (cases "gsv_address st p")
  case True
  have "k \<noteq> 0" using scan_chunk_bounds(1) [OF rem, of st p] by (auto simp: k_def)
  note r = scan_read_software [OF ok True scan_chunk_page [OF True, of remaining] this [unfolded k_def], folded k_def]
  show ?thesis by (rule that [OF r(1)]) (simp_all add: r(2))
next
  case False
  have fit: "unat (sv_base st) + unat (sv_span st) < 2 ^ 64" by (rule gsv_memory_okE [OF ok a])
  have above: "unat (sv_base st) + unat (sv_span st) \<le> unat p"
    using a p False by (simp add: gsv_address_nat [OF fit])
  have "\<not> gsv_address st (p + of_nat i)" if "unat p + i < 2 ^ 64" for i
  proof -
    have "unat (p + of_nat i) = unat p + i" using that by (simp add: unat_word_ariths unat_of_nat_u64)
    then show ?thesis using above by (simp add: gsv_address_nat [OF fit])
  qed
  then show ?thesis
    using that [of "host_bytes (sv_host st) p (unat k)"] False
    by (simp add: scan_read_def legible_def host_bytes_def gsv_view_def)
qed

section \<open>Lengths\<close>

primrec bytewise_strnlen :: "nat \<Rightarrow> 'k GSV \<Rightarrow> u64 \<Rightarrow> nat scan" where
  "bytewise_strnlen 0 st a = Scanned 0"
| "bytewise_strnlen (Suc n) st a =
     (if \<not> legible st a then Aborted else if gsv_view st a = 0 then Scanned 0
      else map_scan Suc (bytewise_strnlen n st (a + 1)))"

lemma bytewise_skip:
  assumes "\<forall>i < c. legible st (p + of_nat i) \<and> gsv_view st (p + of_nat i) \<noteq> 0" and "c \<le> m"
  shows "bytewise_strnlen m st p = map_scan ((+) c) (bytewise_strnlen (m - c) st (p + of_nat c))"
  using assms
proof (induction c arbitrary: m p)
  case 0
  show ?case by (simp add: scan.map_ident)
next
  case (Suc c)
  obtain m' where m: "m = Suc m'" using Suc.prems(2) by (cases m) auto
  have "legible st (p + 1 + of_nat i) \<and> gsv_view st (p + 1 + of_nat i) \<noteq> 0" if "i < c" for i
    using Suc.prems(1) [rule_format, of "Suc i"] that by (simp add: add.assoc)
  then have "bytewise_strnlen m' st (p + 1) = map_scan ((+) c) (bytewise_strnlen (m' - c) st (p + 1 + of_nat c))"
    using Suc.prems(2) m by (intro Suc.IH) auto
  then show ?case
    using Suc.prems(1) [rule_format, of 0] m by (simp add: scan.map_comp comp_def add.assoc)
qed

lemma bytewise_all:
  assumes "\<forall>i < m. legible st (p + of_nat i) \<and> gsv_view st (p + of_nat i) \<noteq> 0"
  shows "bytewise_strnlen m st p = Scanned m"
  using bytewise_skip [OF assms order_refl] by simp

lemma bytewise_zero:
  assumes "\<forall>j < i. legible st (p + of_nat j) \<and> gsv_view st (p + of_nat j) \<noteq> 0" and "i < m"
    and "legible st (p + of_nat i)" and "gsv_view st (p + of_nat i) = 0"
  shows "bytewise_strnlen m st p = Scanned i"
proof -
  obtain k where "m - i = Suc k" using assms(2) by (metis Suc_diff_Suc)
  then show ?thesis using bytewise_skip [OF assms(1) less_imp_le [OF assms(2)]] assms(3,4) by simp
qed

lemma first_zero_Some:
  assumes "first_zero bs = Some i"
  shows "i < length bs" and "bs ! i = 0" and "j < i \<Longrightarrow> bs ! j \<noteq> 0"
proof -
  have z: "0 \<in> set bs" and i: "i = length (takeWhile (\<lambda>b. b \<noteq> 0) bs)"
    using assms by (auto simp: first_zero_def split: if_splits)
  show lt: "i < length bs" unfolding i using z by (induction bs) auto
  show "bs ! i = 0" using nth_length_takeWhile [of "\<lambda>b. b \<noteq> 0" bs] lt by (simp add: i)
  show "bs ! j \<noteq> 0" if "j < i"
  proof -
    have "takeWhile (\<lambda>b. b \<noteq> 0) bs ! j \<in> set (takeWhile (\<lambda>b. b \<noteq> 0) bs)" by (rule nth_mem) (use that i in simp)
    then show ?thesis using takeWhile_nth [of j "\<lambda>b. b \<noteq> 0" bs] that i by (auto dest: set_takeWhileD)
  qed
qed

lemma first_zero_None: "first_zero bs = None \<Longrightarrow> i < length bs \<Longrightarrow> bs ! i \<noteq> 0"
  by (auto simp: first_zero_def in_set_conv_nth split: if_splits)

text \<open>What a chunk says of a bytewise scan it decides, or that goes on after it.\<close>

lemma bytewise_chunk:
  assumes at: "\<forall>i < length bs. i < m \<longrightarrow> bs ! i = gsv_view st (p + of_nat i) \<and> legible st (p + of_nat i)"
    and decided: "length bs \<le> m \<or> bytewise_strnlen m st p \<noteq> Scanned m"
  shows "first_zero bs = Some i \<Longrightarrow> bytewise_strnlen m st p = Scanned i"
    and "first_zero bs = None \<Longrightarrow> length bs \<le> m"
    and "first_zero bs = None \<Longrightarrow> bytewise_strnlen m st p =
      map_scan ((+) (length bs)) (bytewise_strnlen (m - length bs) st (p + of_nat (length bs)))"
proof -
  have nz: "legible st (p + of_nat j) \<and> gsv_view st (p + of_nat j) \<noteq> 0" if "j < length bs" "j < m" "bs ! j \<noteq> 0" for j
    using at that by auto
  show "bytewise_strnlen m st p = Scanned i" if z: "first_zero bs = Some i"
  proof -
    note f = first_zero_Some [OF z]
    have "i < m"
    proof (rule ccontr)
      assume "\<not> i < m"
      then have "bytewise_strnlen m st p = Scanned m" using f nz by (intro bytewise_all) auto
      then show False using decided f(1) \<open>\<not> i < m\<close> by simp
    qed
    then show ?thesis using f nz at by (intro bytewise_zero) auto
  qed
  show le: "length bs \<le> m" if z: "first_zero bs = None"
  proof (rule ccontr)
    assume "\<not> length bs \<le> m"
    then have "bytewise_strnlen m st p = Scanned m" using first_zero_None [OF z] nz by (intro bytewise_all) auto
    then show False using decided \<open>\<not> length bs \<le> m\<close> by simp
  qed
  show "bytewise_strnlen m st p = map_scan ((+) (length bs)) (bytewise_strnlen (m - length bs) st (p + of_nat (length bs)))"
    if z: "first_zero bs = None"
    using le [OF z] first_zero_None [OF z] nz by (intro bytewise_skip) auto
qed

lemma strnlen_loop_bytewise:
  assumes ok: "gsv_memory_ok st" and a: "gsv_address st a"
    and "pos \<le> limit" "unat a + unat pos + m \<le> 2 ^ 64" "m \<le> unat limit - unat pos"
      "m = unat limit - unat pos \<or> bytewise_strnlen m st (a + pos) \<noteq> Scanned m"
  shows "strnlen_loop st a limit pos = map_scan (\<lambda>k. pos + of_nat k) (bytewise_strnlen m st (a + pos))"
  using assms(3-6)
proof (induction "unat (limit - pos)" arbitrary: pos m rule: less_induct)
  case less
  show ?case
  proof (cases "m = 0")
    case True
    then have "pos = limit" using less(2,5) by (simp add: word_nat word_unat_eq_iff)
    then show ?thesis using True by (simp add: strnlen_loop.simps)
  next
    case False
    then have lt: "pos < limit" using less(4) by (simp add: word_nat)
    define n where "n = scan_chunk st (a + pos) (limit - pos)"
    have p: "unat (a + pos) = unat a + unat pos" by (rule unat_plus_nowrap) (use less(3) False in linarith)
    have rem: "0 < limit - pos" using lt by (simp add: word_gt_0)
    have u: "unat (limit - pos) = unat limit - unat pos" using lt by (intro unat_sub_le) simp
    have n: "unat n \<le> unat limit - unat pos" "0 < unat n"
      using scan_chunk_bounds(1) [OF rem] scan_chunk_bounds(2) [of st "a + pos" "limit - pos"] u
      by (simp_all add: n_def word_nat)
    have un: "unat (pos + n) = unat pos + unat n" by (rule unat_plus_nowrap) (use n unat_u64_less [of limit] in linarith)
    obtain bs where bs: "scan_read st (a + pos) n = (if legible st (a + pos) then Scanned bs else Aborted)" "length bs = unat n"
        "\<And>i. i < unat n \<Longrightarrow> unat (a + pos) + i < 2 ^ 64 \<Longrightarrow>
          bs ! i = gsv_view st (a + pos + of_nat i) \<and> legible st (a + pos + of_nat i) = legible st (a + pos)"
      by (rule scan_read_chunk [OF ok a p rem, folded n_def]) blast
    have at: "bs ! i = gsv_view st (a + pos + of_nat i)" "legible st (a + pos + of_nat i) = legible st (a + pos)"
      if "i < unat n" "i < m" for i
      using bs(3) [OF that(1)] that(2) less(3) p by simp_all
    note loop = strnlen_loop.simps [of st a limit pos, folded n_def]
    show ?thesis
    proof (cases "legible st (a + pos)")
      case False
      then show ?thesis using loop lt bs(1) \<open>m \<noteq> 0\<close> by (cases m) (simp_all add: Let_def flip: n_def)
    next
      case leg: True
      have chunk: "\<forall>i < length bs. i < m \<longrightarrow> bs ! i = gsv_view st (a + pos + of_nat i) \<and> legible st (a + pos + of_nat i)"
        using at leg bs(2) by simp
      have decided: "length bs \<le> m \<or> bytewise_strnlen m st (a + pos) \<noteq> Scanned m" using less(5) n(1) bs(2) by auto
      show ?thesis
      proof (cases "first_zero bs")
        case (Some i)
        then show ?thesis
          using loop lt bs(1) leg bytewise_chunk(1) [OF chunk decided Some] by (simp add: Let_def flip: n_def)
      next
        case None
        note le = bytewise_chunk(2) [OF chunk decided None, unfolded bs(2)]
        note skip = bytewise_chunk(3) [OF chunk decided None, unfolded bs(2), simplified, unfolded add.assoc]
        have "strnlen_loop st a limit (pos + n) = map_scan (\<lambda>k. pos + n + of_nat k) (bytewise_strnlen (m - unat n) st (a + (pos + n)))"
        proof (rule less(1))
          show "unat (limit - (pos + n)) < unat (limit - pos)" unfolding n_def by (rule scan_progress(1) [OF lt])
          show "pos + n \<le> limit" using n(1) un lt by (simp add: word_nat)
          show "unat a + unat (pos + n) + (m - unat n) \<le> 2 ^ 64" "m - unat n \<le> unat limit - unat (pos + n)"
            using less(3,4) le un by linarith+
          show "m - unat n = unat limit - unat (pos + n) \<or>
              bytewise_strnlen (m - unat n) st (a + (pos + n)) \<noteq> Scanned (m - unat n)"
            using less(5) skip le un by auto
        qed
        then show ?thesis
          using loop lt bs(1) leg None by (simp add: Let_def skip scan.map_comp comp_def add.assoc flip: n_def)
      qed
    qed
  qed
qed

text \<open>C26. The chunked \<open>gsv_strnlen\<close> on a software string is the scan byte by byte of the combined memory, with
  the abort at an unreadable byte met before a terminator: for a limit the address space can hold, and
  for any larger limit when the first \<open>m\<close> bytes decide the result.\<close>

theorem gsv_strnlen_bytewise:
  assumes ok: "gsv_memory_ok st" and a: "gsv_address st a" and fit: "unat a + m \<le> 2 ^ 64" and m: "m \<le> unat limit"
    and decided: "m = unat limit \<or> bytewise_strnlen m st a \<noteq> Scanned m"
  shows "gsv_strnlen st a limit = map_scan of_nat (bytewise_strnlen m st a)"
proof (cases "limit = 0")
  case True
  then show ?thesis using m by (simp add: gsv_strnlen_def)
next
  case False
  then show ?thesis using a strnlen_loop_bytewise [OF ok a, of 0 limit m] fit m decided by (simp add: gsv_strnlen_def)
qed

theorem gsv_strnlen_bytewise_witness: "gsv_strnlen software_sample 0x8000 8 = Scanned 0"
proof -
  have "sm_allowed sparse_sample GM_READ 0x8000" "sm_byte sparse_sample 0x8000 = 0" by code_simp+
  then have "legible software_sample 0x8000" "gsv_view software_sample 0x8000 = 0"
    using software_sample_address(1) by (simp_all add: legible_def gsv_view_def software_sample_bounds)
  then have "bytewise_strnlen (Suc 7) software_sample 0x8000 = Scanned 0" unfolding bytewise_strnlen.simps by simp
  then show ?thesis
    using gsv_strnlen_bytewise [OF software_sample_ok software_sample_address(1), of "Suc 7" 8] by simp
qed

end
