(* ===== verification/GuestSoftwareState.thy ===== *)
theory GuestSoftwareState
  imports GuestSoftwareLaws GuestMemoryInstructionLaws GuestExclusiveLaws
begin

text \<open>
  The state machine of \<open>GuestSoftwareVM.c\<close>: the calls of its interface as a step relation, and the invariant of the
  states they reach. Most calls leave everything but the sparse memory, host memory, \<open>errno\<close> and the
  counters alone; the sparse memory they lead to is well formed and has the bounds of the old one.
\<close>

section \<open>The sparse memory\<close>

definition follows :: "Space option \<Rightarrow> Space option \<Rightarrow> bool" where
  "follows m m' \<longleftrightarrow>
     (case m of None \<Rightarrow> m' = None
      | Some s \<Rightarrow> space_ok s \<longrightarrow> (\<exists>s'. m' = Some s' \<and> space_ok s' \<and> s_base s' = s_base s \<and> s_end s' = s_end s))"

lemma follows_refl [simp]: "follows m m"
  by (simp add: follows_def split: option.split)

lemma follows_trans: "follows a b \<Longrightarrow> follows b c \<Longrightarrow> follows a c"
  by (auto simp: follows_def split: option.splits)

lemma follows_effect: "(space_ok s \<Longrightarrow> sm_effect s s') \<Longrightarrow> follows (Some s) (Some s')"
  by (auto simp: follows_def sm_effect_def)

lemma follows_steps: "sparse_step\<^sup>*\<^sup>* s s' \<Longrightarrow> follows (Some s) (Some s')"
  by (induction rule: rtranclp_induct)
    (auto intro: follows_trans follows_effect sparse_step_effect)

lemma follows_change:
  assumes "change m a n prot maxprot replace op = (r, m')"
  shows "follows m m'"
proof (cases m)
  case (Some s)
  have "\<exists>s'. m' = Some s' \<and> space_ok s' \<and> s_base s' = s_base s \<and> s_end s' = s_end s" if "space_ok s"
    using change_spec [OF that assms [unfolded Some]] by metis
  then show ?thesis by (simp add: Some follows_def)
qed (use assms in \<open>simp add: follows_def change_def\<close>)

lemma follows_calls:
  "gm_sparse_map m a n prot maxprot replace = (r, m') \<Longrightarrow> follows m m'" "gm_sparse_unmap m a n = (r, m') \<Longrightarrow> follows m m'"
  "gm_sparse_protect m a n prot = (r, m') \<Longrightarrow> follows m m'"
  by (simp_all add: gm_sparse_map_def gm_sparse_unmap_def gm_sparse_protect_def follows_change)

lemma follows_prepare: "gm_sparse_prepare m a n p = (r, m') \<Longrightarrow> follows m m'"
proof (cases m)
  case (Some s)
  assume "gm_sparse_prepare m a n p = (r, m')"
  then show ?thesis using gm_sparse_prepare_spec [of s a n p r m'] Some by (auto simp: follows_def same_map_def)
qed (simp add: follows_def gm_sparse_prepare_def)

lemma follows_write:
  assumes eq: "gm_sparse_write m a (Some bs) n = (r, m')" and len: "unat n \<le> length bs"
  shows "follows m m'"
proof (cases m)
  case (Some s)
  obtain s' b where acc: "access_locked s a (Some bs) n True = (r, s', b)" and m': "m' = Some s'"
    using eq by (auto simp: Some gm_sparse_write_locked Let_def split: prod.splits)
  have "space_ok s' \<and> same_map s s'" if "space_ok s"
    using access_locked_write [OF that len acc] by blast
  then show ?thesis by (simp add: Some m' follows_def same_map_def)
qed (use eq in \<open>simp add: follows_def gm_sparse_write_def access_memory_def\<close>)

lemma sequence_step_steps:
  assumes ok: "space_ok s" and eq: "sequence_step (Some s) i r x = (e, m, r', x', f, fin)"
  shows "\<exists>s'. m = Some s' \<and> sparse_step\<^sup>*\<^sup>* s s'"
proof -
  consider "gm_exclusive_instruction i" | "\<not> gm_exclusive_instruction i" "i AND 0xfffff0ff = 0xd503305f"
    | "\<not> gm_exclusive_instruction i" "i AND 0xfffff0ff \<noteq> 0xd503305f" by blast
  then show ?thesis
  proof cases
    case 1
    then show ?thesis using exclusive_ok [OF ok, of i r x] eq by (auto simp: sequence_step_def seq_ok_def)
  next
    case 2
    then show ?thesis using eq by (auto simp: sequence_step_def)
  next
    case 3
    obtain b r1 where g: "gc_register_step (Some r) i = (b, r1)" by (metis prod.exhaust)
    obtain e1 m1 a f1 where st: "gm_memory_step (Some s) i (to_access (the r1)) True = (e1, m1, a, f1)" by (metis prod_cases4)
    have "step_ok s (to_access (the r1)) (e1, m1, a, f1)" using gm_memory_step_ok [OF ok to_access_ok] st by metis
    then show ?thesis using 3 g st eq by (auto simp: sequence_step_def step_ok_def Let_def split: if_splits)
  qed
qed

lemma sequence_loop_steps:
  assumes "space_ok s" and "sequence_loop k fetch from_pc (Some s) i r x fault d = (e, m, r', f, d')"
  shows "\<exists>s'. m = Some s' \<and> sparse_step\<^sup>*\<^sup>* s s'"
  using assms
proof (induction k arbitrary: s i r x fault d)
  case (Suc k)
  obtain e1 m1 r1 x1 f1 fin where st: "sequence_step (Some s) i r x = (e1, m1, r1, x1, f1, fin)"
    by (metis prod_cases6)
  obtain s1 where s1: "m1 = Some s1" "sparse_step\<^sup>*\<^sup>* s s1" using sequence_step_steps [OF Suc.prems(1) st] by blast
  have "space_ok s1" using follows_steps [OF s1(2)] Suc.prems(1) by (auto simp: follows_def)
  then show ?case
    using Suc.prems(2) st s1 Suc.IH
    by (auto simp: Let_def split: if_splits option.splits dest!: Suc.IH [rotated] intro: rtranclp_trans)
qed auto

section \<open>Calls that keep the configuration\<close>

text \<open>The part of the state that only the life cycle and the signal calls change, and the states a call may lead to.\<close>

definition framed :: "'k GSV \<Rightarrow> 'k GSV \<Rightarrow> bool" where
  "framed st st' \<longleftrightarrow>
     follows (sv_memory st) (sv_memory st') \<and> sv_enabled st' = sv_enabled st \<and> sv_base st' = sv_base st \<and> sv_span st' = sv_span st \<and>
     sv_actions st' = sv_actions st \<and> sv_current st' = sv_current st \<and>
     (sv_code_alias_enabled st' \<longrightarrow> sv_code_alias_enabled st) \<and> sv_code_base st' = sv_code_base st \<and>
     sv_code_alias st' = sv_code_alias st \<and> sv_code_size st' = sv_code_size st"

lemma framed_refl [simp]: "framed st st"
  by (simp add: framed_def)

lemma framed_trans: "framed a b \<Longrightarrow> framed b c \<Longrightarrow> framed a c"
  by (auto simp: framed_def intro: follows_trans)

lemma framed_update [simp]:
  "framed st (st\<lparr>sv_memory := m\<rparr>) = follows (sv_memory st) m"
  "framed st (st'\<lparr>sv_errno := e\<rparr>) = framed st st'" "framed st (st'\<lparr>sv_host := mem\<rparr>) = framed st st'"
  "framed st (st'\<lparr>sv_kernel := k\<rparr>) = framed st st'" "framed st (st'\<lparr>sv_io_reports := q\<rparr>) = framed st st'"
  "framed st (st'\<lparr>sv_fault_count := c\<rparr>) = framed st st'" "framed st (st'\<lparr>sv_pending_native_pool := p\<rparr>) = framed st st'"
  "framed st (st'\<lparr>sv_native_pool_size := n\<rparr>) = framed st st'" "framed st (st'\<lparr>sv_forced_pool_size := n\<rparr>) = framed st st'"
  by (simp_all add: framed_def)

lemma framed_memory: "framed st st' \<Longrightarrow> follows (sv_memory st') m \<Longrightarrow> framed st (st'\<lparr>sv_memory := m\<rparr>)"
  by (auto simp: framed_def intro: follows_trans)

lemma framed_address: "framed st st' \<Longrightarrow> gsv_address st' = gsv_address st"
  by (simp add: framed_def gsv_address_def fun_eq_iff)

named_theorems framing \<open>calls that keep the configuration\<close>

lemma host_framed [framing]:
  "host_munmap h a n st = (b, st') \<Longrightarrow> framed st st'" "host_mprotect h a n prot st = (b, st') \<Longrightarrow> framed st st'"
  "host_madvise h a n advice st = (b, st') \<Longrightarrow> framed st st'" "host_mmap h a n prot flags fd offset st = (p, st') \<Longrightarrow> framed st st'"
  "host_sigaction h number action st = (b, old, st') \<Longrightarrow> framed st st'"
  "host_input h fd n pos st = (bs, st') \<Longrightarrow> framed st st'" "host_output h fd data pos st = (k, st') \<Longrightarrow> framed st st'"
  "host_fread h f sz n st = (data, st') \<Longrightarrow> framed st st'" "host_fwrite h f sz n data st = (items, st') \<Longrightarrow> framed st st'"
  by (auto simp: host_munmap_def host_mprotect_def host_madvise_def host_mmap_def host_sigaction_def host_input_def
      host_output_def host_fread_def host_fwrite_def Let_def split: prod.splits option.splits sum.splits)

lemma forget_framed [framing]: "framed st (gsv_forget_code_alias a n st)"
  by (simp add: gsv_forget_code_alias_def framed_def)

lemma prepare_framed [framing]: "prepare a n p st = (r, st') \<Longrightarrow> framed st st'"
  by (auto simp: prepare_def split: if_splits prod.splits intro: follows_prepare)

lemma copy_out_framed [framing]:
  "copy_out software a bs n st = (r, st') \<Longrightarrow> \<not> software \<or> unat n \<le> length bs \<Longrightarrow> framed st st'"
  by (auto simp: copy_out_def split: if_splits prod.splits intro: follows_write)

lemma protect_framed [framing]:
  assumes "gsv_protect h a n prot st = (b, st')"
  shows "framed st st'"
proof -
  define st1 where "st1 = (if prot AND PROT_READ = 0 then gsv_forget_code_alias a n st else st)"
  have "framed st st1" by (simp add: st1_def forget_framed)
  moreover have "framed st1 st'"
    using assms unfolding gsv_protect_def Let_def st1_def [symmetric]
    by (auto split: if_splits option.splits prod.splits intro: host_framed follows_calls)
  ultimately show ?thesis by (rule framed_trans)
qed

lemma unmap_framed [framing]:
  assumes "gsv_unmap h a n st = (b, st')"
  shows "framed st st'"
proof -
  have "framed (gsv_forget_code_alias a n st) st'"
    using assms unfolding gsv_unmap_def Let_def
    by (auto split: if_splits option.splits prod.splits intro: host_framed follows_calls)
  with forget_framed show ?thesis by (rule framed_trans)
qed

lemma advise_framed [framing]: "gsv_advise h a n advice st = (b, st') \<Longrightarrow> framed st st'"
  by (auto simp: gsv_advise_def Let_def split: if_splits prod.splits intro: host_framed follows_prepare)

lemma map_loop_follows: "map_loop k n prot m = (r, at, m') \<Longrightarrow> follows m m'"
proof (induction k arbitrary: m)
  case (Suc k)
  then show ?case
    by (auto split: prod.splits GMResult.splits intro: follows_calls follows_trans [OF follows_calls(1)])
qed simp

lemma software_map_framed: "software_map a n prot flags hint ok st = (p, st') \<Longrightarrow> framed st st'"
  by (auto simp: software_map_def Let_def split: if_splits option.splits prod.splits
      intro: follows_calls map_loop_follows simp del: map_loop.simps)

lemma map_framed [framing]:
  assumes "gsv_map h a n prot flags fd offset st = (p, st')"
  shows "framed st st'"
proof -
  define st1 where "st1 = (if flags AND MAP_FIXED \<noteq> 0 then gsv_forget_code_alias a n st else st)"
  have st1: "framed st st1" by (simp add: st1_def forget_framed)
  define native where "native = (a = 0 \<and> eligible prot flags fd offset \<and> flags AND MAP_FIXED = 0 \<and>
    \<not> (eligible prot flags fd offset \<and> flags AND MAP_FIXED = 0 \<and> forced st1 n) \<and> n = sv_native_pool_size st1)"
  define st2 where "st2 = (if native then st1\<lparr>sv_pending_native_pool := None\<rparr> else st1)"
  have st2: "framed st st2" using st1 by (simp add: st2_def)
  have host: "framed st x" if "host_mmap h a n prot flags fd offset y = (q, x)" "framed st y" for q x y
    by (rule framed_trans [OF that(2) host_framed(4) [OF that(1)]])
  have soft: "framed st x" if "software_map a n prot flags hint ok y = (q, x)" "framed st y" for hint ok q x y
    by (rule framed_trans [OF that(2) software_map_framed [OF that(1)]])
  have prot: "framed st x" if "host_mprotect h q n prot y = (b, x)" "framed st y" for q b x y
    by (rule framed_trans [OF that(2) host_framed(2) [OF that(1)]])
  have unm: "framed st x" if "host_munmap h q n y = (b, x)" "framed st y" for q b x y
    by (rule framed_trans [OF that(2) host_framed(1) [OF that(1)]])
  show ?thesis
    using assms st1 st2 unfolding gsv_map_def Let_def st1_def [symmetric] native_def [symmetric] st2_def [symmetric]
    by (auto split: if_splits option.splits prod.splits dest: host soft prot unm)
qed

lemma framed_ok: "framed st st' \<Longrightarrow> gsv_memory_ok st \<Longrightarrow> gsv_memory_ok st'"
  by (auto simp: framed_def gsv_memory_ok_def follows_def)

lemma copy_in_length:
  assumes ok: "gsv_memory_ok st" and on: "software \<longrightarrow> sv_enabled st" and eq: "copy_in software a n st = (GM_OK, bs)"
  shows "length bs = unat n"
proof (cases software)
  case True
  then obtain s where s: "sv_memory st = Some s" "space_ok s" using ok on by (auto simp: gsv_memory_ok_def)
  obtain res s' b where acc: "access_locked s a (Some (replicate (unat n) 0)) n False = (res, s', b)" by (metis prod_cases3)
  then have "res = GM_OK" "bs = the b"
    using eq True s(1) by (simp_all add: copy_in_def gm_sparse_read_locked)
  then show ?thesis using access_locked_read(4) [OF s(2) _ acc] by simp
qed (use eq in \<open>auto simp: copy_in_def host_bytes_def\<close>)

lemma copy_loop_framed:
  assumes "gsv_memory_ok st" and "dst \<or> src \<longrightarrow> sv_enabled st" and "copy_loop dst src rv d s n c st = (r, st')"
  shows "framed st st'"
  using assms
proof (induction dst src rv d s n c st arbitrary: r rule: copy_loop.induct)
  case (1 dst src rv d s n c st)
  let ?k = "bounce_chunk (n - c)" and ?off = "if rv then n - c - bounce_chunk (n - c) else c"
  show ?case
  proof (cases "c < n")
    case False
    then show ?thesis using 1(4) by (simp add: copy_loop.simps)
  next
    case True
    obtain r1 bs where i: "copy_in src (s + ?off) ?k st = (r1, bs)" by (metis prod.exhaust)
    obtain r2 st2 where o: "copy_out dst (d + ?off) bs ?k st = (r2, st2)" by (metis prod.exhaust)
    note loop = 1(4) [unfolded copy_loop.simps [of dst src rv d s n c st] Let_def]
    show ?thesis
    proof (cases "r1 = GM_OK")
      case False
      then show ?thesis using loop True i by (cases r1) auto
    next
      case r1: True
      have "length bs = unat ?k" using copy_in_length [OF 1(2) _ i [unfolded r1]] 1(3) by blast
      then have f: "framed st st2" using copy_out_framed [OF o] by simp
      show ?thesis
      proof (cases "r2 = GM_OK")
        case False
        then show ?thesis using loop True i r1 o f by (cases r2) auto
      next
        case r2: True
        have "copy_loop dst src rv d s n (c + ?k) st2 = (r, st')" using loop True i r1 o r2 by simp
        then have "framed st2 st'"
          using 1(1) [OF True refl refl i [symmetric] r1 o [symmetric] r2] framed_ok [OF f 1(2)] f 1(3) by (simp add: framed_def)
        with f show ?thesis by (rule framed_trans)
      qed
    qed
  qed
qed

lemma copy_framed [framing]:
  assumes ok: "gsv_memory_ok st" and eq: "gsv_copy d s n st = (r, st')"
  shows "framed st st'"
proof -
  have on: "gsv_address st d \<or> gsv_address st s \<longrightarrow> sv_enabled st" by (auto simp: gsv_address_def)
  obtain r1 st1 where p1: "prepare s n GM_READ st = (r1, st1)" by (metis prod.exhaust)
  obtain r2 st2 where p2: "prepare d n GM_WRITE st1 = (r2, st2)" by (metis prod.exhaust)
  have f1: "framed st st1" by (rule prepare_framed [OF p1])
  have f2: "framed st st2" by (rule framed_trans [OF f1 prepare_framed [OF p2]])
  have "framed st2 x" if "copy_loop (gsv_address st d) (gsv_address st s) rv d s n 0 st2 = (r, x)" for rv x
    using copy_loop_framed [OF framed_ok [OF f2 ok] _ that] on f2 by (simp add: framed_def)
  then show ?thesis
    using eq p1 p2 f1 f2 by (auto simp: gsv_copy_def Let_def split: if_splits GMResult.splits intro: framed_trans)
qed

lemma fill_loop_framed:
  assumes "fill_loop d v n c st = (r, st')"
  shows "framed st st'"
  using assms
proof (induction d v n c st arbitrary: r rule: fill_loop.induct)
  case (1 d v n c st)
  show ?case
  proof (cases "c < n")
    case False
    then show ?thesis using 1(2) by (simp add: fill_loop.simps)
  next
    case True
    let ?bs = "replicate (unat BOUNCE_SIZE) v"
    obtain r1 st1 where o: "copy_out True (d + c) ?bs (bounce_chunk (n - c)) st = (r1, st1)" by (metis prod.exhaust)
    have f: "framed st st1" using copy_out_framed [OF o] bounce_chunk_nat(4) [OF True] by simp
    note loop = 1(2) [unfolded fill_loop.simps [of d v n c st] Let_def]
    show ?thesis
    proof (cases "r1 = GM_OK")
      case False
      then show ?thesis using loop True o f by (cases r1) auto
    next
      case r1: True
      then show ?thesis using 1(1) [OF True refl o [symmetric] r1] loop True o f framed_trans by simp
    qed
  qed
qed

lemma fill_framed [framing]:
  assumes "gsv_fill d v n st = (r, st')"
  shows "framed st st'"
proof -
  obtain r1 st1 where p1: "prepare d n GM_WRITE st = (r1, st1)" by (metis prod.exhaust)
  show ?thesis
    using assms p1 prepare_framed [OF p1] fill_loop_framed [of d "ucast v" n 0 st1]
    by (auto simp: gsv_fill_def split: if_splits GMResult.splits intro: framed_trans)
qed

lemma io_framed:
  "io_result r st = (r', st') \<Longrightarrow> framed x st \<Longrightarrow> framed x st'" "io_failed e st = (r', st') \<Longrightarrow> framed x st \<Longrightarrow> framed x st'"
  by (auto simp: io_failed_def io_result_def split: if_splits)

lemma word_length_le: "unat (word_length bs) \<le> length bs"
  by (simp add: unat_of_nat)

lemma file_io_framed [framing]:
  assumes "file_io h al fd b n pos writing st = (r, st')"
  shows "framed st st'"
proof -
  have out: "framed st x" if "host_output h fd data pos y = (q, x)" "framed st y" for data q x y
    by (rule framed_trans [OF that(2) host_framed(7) [OF that(1)]])
  have inp: "framed st x" if "host_input h fd n pos y = (q, x)" "framed st y" for q x y
    by (rule framed_trans [OF that(2) host_framed(6) [OF that(1)]])
  have put: "framed st x" if "copy_out True b data (word_length data) y = (q, x)" "framed st y" for data q x y
    using framed_trans [OF that(2) copy_out_framed [OF that(1)]] word_length_le by blast
  obtain r1 st1 where p: "prepare b n (if writing then GM_READ else GM_WRITE) st = (r1, st1)" by (metis prod.exhaust)
  have f: "framed st st1" by (rule prepare_framed [OF p])
  show ?thesis
  proof (cases "gsv_address st b")
    case False
    then show ?thesis
      using assms by (auto simp: file_io_def Let_def split: if_splits option.splits prod.splits
        dest!: out [OF _ framed_refl] inp [OF _ framed_refl] dest: io_framed)
  next
    case True
    note eq = assms [unfolded file_io_def, simplified True p, simplified]
    show ?thesis
    proof (cases "n > 0x7fffffff \<or> r1 \<noteq> GM_OK \<or> n > BOUNCE_SIZE \<and> \<not> al")
      case True
      then show ?thesis
        using eq by (auto split: GMResult.splits if_splits dest: io_framed(2) [OF _ f] io_framed(2) [OF _ framed_refl])
    next
      case ok: False
      show ?thesis
      proof (cases writing)
        case True
        then show ?thesis
          using eq ok by (auto split: prod.splits GMResult.splits dest!: out [OF _ f] io_framed(2) [OF _ f] dest: io_framed)
      next
        case False
        then show ?thesis
          using eq ok by (auto split: prod.splits GMResult.splits option.splits if_splits dest!: inp [OF _ f] dest: io_framed put)
      qed
    qed
  qed
qed

lemma stream_chunk_framed:
  assumes "stream_chunk h f writing a k st = (q, st')"
  shows "framed st st'"
proof -
  have put: "framed x z" if "copy_out True a data (word_length data) y = (p, z)" "framed x y" for data p x y z
    using framed_trans [OF that(2) copy_out_framed [OF that(1)]] word_length_le by blast
  show ?thesis
    using assms by (auto simp: stream_chunk_def Let_def split: if_splits prod.splits GMResult.splits
      dest!: host_framed(8,9) dest: put)
qed

lemma stream_loop_framed:
  assumes "stream_loop h f writing b n c st = (r, st')"
  shows "framed st st'"
  using assms
proof (induction h f writing b n c st arbitrary: r rule: stream_loop.induct)
  case (1 h f writing b n c st)
  show ?case
  proof (cases "c < n")
    case True
    obtain moved more st1 where k: "stream_chunk h f writing (b + c) (bounce_chunk (n - c)) st = ((moved, more), st1)"
      by (metis prod.exhaust)
    have f: "framed st st1" by (rule stream_chunk_framed [OF k])
    note loop = 1(2) [unfolded stream_loop.simps [of h f writing b n c st]]
    show ?thesis
    proof (cases more)
      case m: True
      then show ?thesis using loop True k f 1(1) [OF True k [symmetric] refl, of r] framed_trans by simp
    qed (use loop True k f in simp)
  qed (use 1(2) in \<open>simp add: stream_loop.simps\<close>)
qed

lemma stream_io_framed [framing]:
  assumes "stream_io h b sz n f writing st = (r, st')"
  shows "framed st st'"
proof -
  obtain r1 st1 where p: "prepare b (sz * n) (if writing then GM_READ else GM_WRITE) st = (r1, st1)" by (metis prod.exhaust)
  have f: "framed st st1" by (rule prepare_framed [OF p])
  have loop: "framed st x" if "stream_loop h f w b (sz * n) 0 st1 = (q, x)" for w q x
    by (rule framed_trans [OF f stream_loop_framed [OF that]])
  show ?thesis
    using assms p f by (auto simp: stream_io_def Let_def split: if_splits prod.splits GMResult.splits
      dest: loop host_framed(8,9))
qed

section \<open>Faults\<close>

lemma exclusive_sequence_steps:
  assumes ok: "space_ok s" and eq: "gm_exclusive_sequence (Some s) i r fetch out d = (e, m, r', f, d')"
  shows "\<exists>s'. m = Some s' \<and> sparse_step\<^sup>*\<^sup>* s s'"
proof (cases "m = Some s")
  case False
  then have "sequence_loop 32 fetch (rpc r) (Some s) i r
      \<lparr>ex_address = 0, ex_generation = 0, ex_mapping_generation = 0, ex_size = 0, ex_valid = False\<rparr> None d = (e, m, r', f, d')"
    using eq unfolding gm_exclusive_sequence_def by (auto split: if_splits)
  from sequence_loop_steps [OF ok this] show ?thesis .
qed simp

lemma execute_fault_steps:
  assumes m: "sv_memory st = Some s" and ok: "space_ok s" and r: "regs_ok r"
    and eq: "execute_fault h st i r fl = (e, m', r', fl')"
  shows "\<exists>s'. m' = Some s' \<and> sparse_step\<^sup>*\<^sup>* s s'"
proof (cases "gm_exclusive_instruction i")
  case False
  have "step_ok s r (gm_memory_step (Some s) i r True)" by (rule gm_memory_step_ok [OF ok r])
  then show ?thesis using eq False m by (auto simp: execute_fault_def step_ok_def split: prod.splits)
next
  case True
  obtain e1 m1 out f1 d1 where sq: "gm_exclusive_sequence (Some s) i \<lparr>rx = mx r, rsp = msp r, rpc = mpc r, nzcv = fl\<rparr>
      (\<lambda>pc. gsv_fetch_instruction h st pc True) True (Some \<lparr>dg_pc = 0, dg_reason = []\<rparr>) = (e1, m1, out, f1, d1)"
    by (metis prod_cases5)
  have "m' = m1" using eq True m sq by (auto simp: execute_fault_def split: option.splits if_splits)
  then show ?thesis using exclusive_sequence_steps [OF ok sq] by simp
qed

definition context_ok :: "UContext \<Rightarrow> bool" where
  "context_ok u \<longleftrightarrow> (\<forall>k. length (uc_vectors u k) = 16)"

lemma context_registers_ok: "context_ok u \<Longrightarrow> regs_ok (context_registers u)"
  by (simp add: context_ok_def regs_ok_def context_registers_def)

lemma handle_fault_framed [framing]:
  assumes ok: "gsv_memory_ok st" and u: "context_ok u" and eq: "handle_fault h a u st = (b, u', st')"
  shows "framed st st'"
proof (cases "st' = st")
  case False
  then obtain x i where x: "a = Some x" "gsv_address st x" "gsv_fetch_instruction h st (uc_pc u) True = Some i"
    using eq by (auto simp: handle_fault_def split: option.splits if_splits)
  obtain s where s: "sv_memory st = Some s" "space_ok s" by (rule gsv_memory_okE [OF ok x(2)])
  obtain e m r fl where ex: "execute_fault h st i (context_registers u) (context_nzcv u) = (e, m, r, fl)" by (metis prod_cases4)
  have "follows (Some s) m" using execute_fault_steps [OF s context_registers_ok [OF u] ex] follows_steps by blast
  then show ?thesis using eq False x ex s(1) by (auto simp: handle_fault_def Let_def split: if_splits)
qed simp

section \<open>The invariant\<close>

primrec ref_ok :: "nat \<Rightarrow> action_ref \<Rightarrow> bool" where
  "ref_ok n Original = True"
| "ref_ok n (Action i) = (i < n)"

lemma ref_ok_mono: "ref_ok n a \<Longrightarrow> n \<le> m \<Longrightarrow> ref_ok m a"
  by (cases a) auto

definition gsv_ok :: "'k GSV \<Rightarrow> bool" where
  "gsv_ok st \<longleftrightarrow> gsv_memory_ok st \<and>
     (sv_enabled st \<longrightarrow> sv_actions st \<noteq> [] \<and> length (sv_actions st) \<le> ACTION_LIMIT \<and>
        ref_ok (length (sv_actions st)) (fst (sv_current st)) \<and> ref_ok (length (sv_actions st)) (snd (sv_current st))) \<and>
     (sv_code_alias_enabled st \<longrightarrow> sv_enabled st \<and> 4 \<le> unat (sv_code_size st) \<and>
        unat (sv_code_base st) + unat (sv_code_size st) < 2 ^ 64 \<and> unat (sv_code_alias st) + unat (sv_code_size st) < 2 ^ 64 \<and>
        \<not> gsv_address st (sv_code_base st) \<and> \<not> gsv_address st (sv_code_alias st))"

lemma framed_gsv_ok: "framed st st' \<Longrightarrow> gsv_ok st \<Longrightarrow> gsv_ok st'"
  using framed_ok [of st st'] framed_address [of st st'] by (auto simp: gsv_ok_def framed_def)

lemma prefer_framed: "framed st (gsv_prefer_native_pool h n st)"
proof -
  have un: "framed x (snd (host_munmap h p k y)) = framed x y" for x y p k
    by (auto simp: host_munmap_def Let_def split: prod.splits option.splits)
  show ?thesis
    by (auto simp: gsv_prefer_native_pool_def Let_def un host_mmap_def split: option.splits prod.splits sum.splits)
qed

lemma code_alias_ok:
  assumes ok: "gsv_ok st" and eq: "gsv_code_alias a b n st = (r, st')"
  shows "gsv_ok st'"
proof (cases r)
  case False
  then show ?thesis using ok eq by (auto simp: gsv_code_alias_def split: if_splits)
next
  case True
  then have st': "st' = st\<lparr>sv_code_base := a, sv_code_alias := b, sv_code_size := n, sv_code_alias_enabled := True\<rparr>"
      and g: "sv_enabled st" "\<not> n < 4" "\<not> n > UINT64_MAX - a" "\<not> n > UINT64_MAX - b" "\<not> gsv_address st a" "\<not> gsv_address st b"
    using eq by (auto simp: gsv_code_alias_def split: if_splits)
  have "4 \<le> unat n" using g(2) by (simp add: word_nat)
  moreover have "unat a + unat n < 2 ^ 64" "unat b + unat n < 2 ^ 64"
    using g(3,4) fits_iff [of n a] fits_iff [of n b] by (simp_all add: not_less)
  moreover have "gsv_address st' = gsv_address st" by (simp add: st' fun_eq_iff gsv_address_def)
  moreover have "gsv_memory_ok st'" using ok by (simp add: st' gsv_ok_def gsv_memory_ok_def)
  ultimately show ?thesis using ok g(1,5,6) by (simp add: gsv_ok_def st')
qed

lemma sigaction_ok:
  assumes ok: "gsv_ok st" and eq: "gsv_sigaction h number action st = (r, old, st')"
  shows "gsv_ok st'"
proof (cases "\<not> sv_enabled st \<or> number \<noteq> SIGSEGV \<and> number \<noteq> SIGBUS \<or> action = None \<or> length (sv_actions st) = ACTION_LIMIT")
  case True
  then have "framed st st'"
    using eq by (auto simp: gsv_sigaction_def Let_def intro: host_framed(5) split: if_splits option.splits)
  then show ?thesis using ok by (rule framed_gsv_ok)
next
  case False
  then obtain a where a: "action = Some a" by auto
  define bus where "bus = (number = SIGBUS)"
  define st1 where "st1 = set_current bus (Action (length (sv_actions st))) (st\<lparr>sv_actions := sv_actions st @ [a]\<rparr>)"
  obtain b o2 st2 where s: "host_sigaction h number (Some (installed_action a)) st1 = (b, o2, st2)" by (metis prod_cases3)
  have st1: "gsv_ok st1" "gsv_ok (set_current bus (if bus then snd (sv_current st) else fst (sv_current st)) st1)"
    using ok False by (auto simp: st1_def gsv_ok_def gsv_memory_ok_def gsv_address_def set_current_def intro: ref_ok_mono)
  have "framed st1 st2" "framed (set_current bus p st1) (set_current bus p st2)" for p
    using host_framed(5) [OF s] by (auto simp: framed_def set_current_def)
  then have "gsv_ok st2" "gsv_ok (set_current bus (if bus then snd (sv_current st) else fst (sv_current st)) st2)"
    using st1 framed_gsv_ok by blast+
  moreover have "st' = (if b then st2 else set_current bus (if bus then snd (sv_current st) else fst (sv_current st)) st2)"
    using eq False a s [unfolded st1_def bus_def] by (auto simp: gsv_sigaction_def Let_def bus_def)
  ultimately show ?thesis by (simp split: if_splits)
qed

lemma dispatch_ok:
  assumes ok: "gsv_ok st" and u: "context_ok u" and eq: "dispatch_signal h number a u st = (r, u', st')" and on: "sv_enabled st"
  shows "gsv_ok st'"
proof -
  obtain b u1 st1 where hf: "handle_fault h a u st = (b, u1, st1)" by (metis prod_cases3)
  have "framed st st1" using handle_fault_framed [OF _ u hf] ok by (simp add: gsv_ok_def)
  then have ok1: "gsv_ok (st1\<lparr>sv_errno := sv_errno st\<rparr>)" "sv_enabled st1"
    using framed_gsv_ok [of st "st1\<lparr>sv_errno := sv_errno st\<rparr>"] ok on by (auto simp: framed_def)
  have reset: "gsv_ok (set_current bus (Action 0) (st1\<lparr>sv_errno := sv_errno st\<rparr>))" for bus
    using ok1 by (auto simp: gsv_ok_def gsv_memory_ok_def gsv_address_def set_current_def)
  have host: "gsv_ok z" if "host_sigaction h number action y = (q, o', z)" "gsv_ok y" for action y q o' z
    using host_framed(5) [OF that(1)] that(2) by (rule framed_gsv_ok)
  show ?thesis
    using eq hf ok1(1) reset by (auto simp: dispatch_signal_def Let_def split: if_splits Handler.splits prod.splits dest: host)
qed

lemma reserve_range_off:
  assumes "reserve_range h st = (b, st')"
  shows "sv_enabled st' = sv_enabled st" and "sv_code_alias_enabled st' = sv_code_alias_enabled st"
    and "sv_memory st' = sv_memory st"
  using assms by (auto simp: reserve_range_def host_mmap_def Let_def split: option.splits if_splits prod.splits sum.splits)

lemma restore_framed: "framed st (restore_actions h st)"
  by (auto simp: restore_actions_def host_sigaction_def Let_def split: prod.splits option.splits)

lemma release_framed: "framed st (release_guard h st)"
  by (auto simp: release_guard_def host_munmap_def Let_def split: option.splits prod.splits)

lemma install_actions_effect:
  assumes "install_actions h st = (b, st')"
  shows "follows (sv_memory st) (sv_memory st')" and "sv_enabled st' = sv_enabled st"
    and "sv_code_alias_enabled st' \<longrightarrow> sv_code_alias_enabled st"
    and "sv_base st' = sv_base st" and "sv_span st' = sv_span st" and "sv_actions st' = [default_action]"
    and "sv_current st' = (Original, Original)"
proof -
  obtain b1 o1 st1 where s1: "host_sigaction h SIGSEGV None (st\<lparr>sv_actions := [default_action]\<rparr>) = (b1, o1, st1)" by (metis prod_cases3)
  obtain b2 o2 st2 where s2: "host_sigaction h SIGBUS None st1 = (b2, o2, st2)" by (metis prod_cases3)
  let ?st = "st2\<lparr>sv_original := (o1, o2), sv_current := (Original, Original)\<rparr>"
  obtain b3 o3 st3 where s3: "host_sigaction h SIGSEGV (Some first_action) ?st = (b3, o3, st3)" by (metis prod_cases3)
  obtain b4 o4 st4 where s4: "host_sigaction h SIGBUS (Some first_action) st3 = (b4, o4, st4)" by (metis prod_cases3)
  note f = framed_trans [OF host_framed(5) [OF s1] host_framed(5) [OF s2]] host_framed(5) [OF s3] host_framed(5) [OF s4]
  have "framed ?st x \<Longrightarrow> framed ?st (restore_actions h x)" for x by (rule framed_trans [OF _ restore_framed])
  then have "framed ?st st'"
    using assms s1 s2 s3 s4 f(2) framed_trans [OF f(2,3)] by (auto simp: install_actions_def Let_def split: if_splits)
  then show "follows (sv_memory st) (sv_memory st')" and "sv_enabled st' = sv_enabled st"
    and "sv_code_alias_enabled st' \<longrightarrow> sv_code_alias_enabled st"
    and "sv_base st' = sv_base st" and "sv_span st' = sv_span st" and "sv_actions st' = [default_action]"
    and "sv_current st' = (Original, Original)"
    using f(1) by (auto simp: framed_def intro: follows_trans)
qed

lemma gsv_ok_off: "\<not> sv_enabled st \<Longrightarrow> gsv_ok st \<longleftrightarrow> \<not> sv_code_alias_enabled st"
  by (auto simp: gsv_ok_def gsv_memory_ok_def)

lemma destroy_off: "sv_enabled (gsv_destroy_memory st) = sv_enabled st"
    "sv_code_alias_enabled (gsv_destroy_memory st) = sv_code_alias_enabled st"
  by (simp_all add: gsv_destroy_memory_def)

lemma release_off: "sv_enabled (release_guard h st) = sv_enabled st"
    "sv_code_alias_enabled (release_guard h st) \<Longrightarrow> sv_code_alias_enabled st"
  using release_framed [of st h] by (auto simp: framed_def)

lemma start_ok:
  assumes ok: "gsv_ok st" and eq: "start h al bytes force small st = (b, st')"
  shows "gsv_ok st'"
proof (cases "sv_enabled st")
  case True
  then show ?thesis using eq ok by (simp add: start_def)
next
  case off: False
  obtain b1 st1 where r: "reserve_range h st = (b1, st1)" by (metis prod.exhaust)
  note r1 = reserve_range_off [OF r]
  have flags: "\<not> sv_code_alias_enabled st" "\<not> sv_enabled st1" "\<not> sv_code_alias_enabled st1"
    using ok off r1 by (simp_all add: gsv_ok_off)
  show ?thesis
  proof (cases b1)
    case False
    then show ?thesis using eq off r flags by (simp add: start_def gsv_ok_off)
  next
    case b1: True
    obtain g i m where init: "initialize (Some (sv_memory st1)) (sv_base st1) (sv_span st1) bytes (sa_space al) (sa_backing al)
        (sa_pages al) (sa_free al) g = (i, m)" and sel: "g = (if small then sa_garbage al else (\<lambda>_ _. 0))"
      by (metis prod.exhaust)
    obtain b2 st2 where ins: "install_actions h (st1\<lparr>sv_memory := the m\<rparr>) = (b2, st2)" by (metis prod.exhaust)
    note e = install_actions_effect [OF ins, simplified]
    note start = eq [unfolded start_def gsv_start_def gm_sparse_init_blocks_def gm_sparse_init_def]
    show ?thesis
    proof (cases "i = GM_OK \<and> b2")
      case False
      then have "\<not> sv_enabled st' \<and> \<not> sv_code_alias_enabled st'"
        using start off r b1 init sel ins flags e(2,3)
        by (auto simp: Let_def release_off(1) destroy_off dest!: release_off(2) split: if_splits)
      then show ?thesis by (simp add: gsv_ok_off)
    next
      case True
      obtain s where s: "m = Some (Some s)" "space_ok s" "s_base s = sv_base st1" "unat (s_end s) = unat (sv_base st1) + unat (sv_span st1)"
        using initialize_spec [OF init] True by blast
      have fit: "unat (sv_base st1) + unat (sv_span st1) < 2 ^ 64" using s(4) unat_u64_less [of "s_end s"] by simp
      have "s_end s = sv_base st1 + sv_span st1"
        using s(4) unat_plus_nowrap [OF fit] by (simp add: word_unat_eq_iff)
      then have mem: "gsv_memory_ok (st2\<lparr>sv_enabled := True\<rparr>)"
        using e(1,4,5) s(1-3) fit by (auto simp: gsv_memory_ok_def follows_def)
      have "st' = st2\<lparr>sv_force_threshold := force, sv_native_pool_size := 0, sv_forced_pool_size := 0, sv_fault_count := 0,
          sv_io_reports := 0, sv_pending_native_pool := None, sv_code_base := 0, sv_code_alias := 0, sv_code_size := 0,
          sv_code_alias_enabled := False, sv_enabled := True\<rparr>"
        using start off r b1 init sel ins True by (auto simp: Let_def split: if_splits)
      then show ?thesis using mem e(6,7) by (simp add: gsv_ok_def gsv_memory_ok_def)
    qed
  qed
qed

lemma stop_ok:
  assumes "gsv_ok st"
  shows "gsv_ok (gsv_stop h st)"
proof -
  let ?st = "restore_actions h (st\<lparr>sv_enabled := False, sv_code_alias_enabled := False\<rparr>)"
  have "framed (st\<lparr>sv_enabled := False, sv_code_alias_enabled := False\<rparr>) ?st" by (rule restore_framed)
  then have off: "\<not> sv_enabled ?st" "\<not> sv_code_alias_enabled ?st" by (auto simp: framed_def)
  have un: "sv_enabled (snd (host_munmap h p n x)) = sv_enabled x"
      "sv_code_alias_enabled (snd (host_munmap h p n x)) = sv_code_alias_enabled x" for p n x
    by (auto simp: host_munmap_def Let_def split: prod.splits option.splits)
  have "\<not> sv_enabled (gsv_stop h st) \<and> \<not> sv_code_alias_enabled (gsv_stop h st)" if "sv_enabled st"
    using that off by (auto simp: gsv_stop_def Let_def un release_off(1) destroy_off dest!: release_off(2) split: option.splits)
  then show ?thesis
    by (cases "sv_enabled st") (simp add: gsv_ok_off, use assms in \<open>simp add: gsv_stop_def\<close>)
qed

section \<open>Steps\<close>

text \<open>The calls of the interface, signals while the handlers are installed, and what the rest of the process does to host
  memory, the kernel and \<open>errno\<close>.\<close>

inductive gsv_step :: "'k Host \<Rightarrow> 'k GSV \<Rightarrow> 'k GSV \<Rightarrow> bool" for h where
  start: "gsv_start h al bytes force st = (b, st') \<Longrightarrow> gsv_step h st st'"
| start_blocks: "gsv_start_blocks h al bytes force st = (b, st') \<Longrightarrow> gsv_step h st st'"
| stop: "gsv_step h st (gsv_stop h st)"
| prefer_pool: "gsv_step h st (gsv_prefer_native_pool h n st)"
| force_pool: "gsv_step h st (gsv_force_pool n st)"
| code_alias: "gsv_code_alias a d n st = (b, st') \<Longrightarrow> gsv_step h st st'"
| forget: "gsv_step h st (gsv_forget_code_alias a n st)"
| signal: "sv_enabled st \<Longrightarrow> context_ok u \<Longrightarrow> dispatch_signal h number a u st = (r, u', st') \<Longrightarrow> gsv_step h st st'"
| sigaction: "gsv_sigaction h number action st = (b, old, st') \<Longrightarrow> gsv_step h st st'"
| map: "gsv_map h a n prot flags fd offset st = (p, st') \<Longrightarrow> gsv_step h st st'"
| protect: "gsv_protect h a n prot st = (b, st') \<Longrightarrow> gsv_step h st st'"
| unmap: "gsv_unmap h a n st = (b, st') \<Longrightarrow> gsv_step h st st'"
| advise: "gsv_advise h a n advice st = (b, st') \<Longrightarrow> gsv_step h st st'"
| copy: "gsv_copy d s n st = (r, st') \<Longrightarrow> gsv_step h st st'"
| fill: "gsv_fill d v n st = (r, st') \<Longrightarrow> gsv_step h st st'"
| file_call: "file_io h al fd b n pos writing st = (r, st') \<Longrightarrow> gsv_step h st st'"
| stream_call: "stream_io h b sz n f writing st = (r, st') \<Longrightarrow> gsv_step h st st'"
| process: "gsv_step h st (st\<lparr>sv_host := mem, sv_kernel := k, sv_errno := e\<rparr>)"

inductive_cases gsv_stepE: "gsv_step h st st'"

definition gsv_initial :: "'k GSV \<Rightarrow> bool" where
  "gsv_initial st \<longleftrightarrow> \<not> sv_enabled st \<and> \<not> sv_code_alias_enabled st \<and> sv_memory st = None"

lemma gsv_step_ok:
  assumes "gsv_step h st st'" and ok: "gsv_ok st"
  shows "gsv_ok st'"
proof -
  have mem: "gsv_memory_ok st" using ok by (simp add: gsv_ok_def)
  have fr: "framed st x \<Longrightarrow> gsv_ok x" for x using ok by (rule framed_gsv_ok [rotated])
  from assms(1) show ?thesis
  proof (cases rule: gsv_step.cases)
    case (force_pool n)
    then show ?thesis using fr by (simp add: gsv_force_pool_def)
  next
    case (signal u number a r u')
    then show ?thesis using dispatch_ok [OF ok] by blast
  next
    case (copy d s n r)
    then show ?thesis using fr copy_framed [OF mem] by blast
  qed (use fr ok in \<open>auto simp: gsv_start_def gsv_start_blocks_def intro: prefer_framed framing
      start_ok [OF ok] stop_ok code_alias_ok [OF ok] sigaction_ok [OF ok]\<close>)
qed

section \<open>Properties\<close>

text \<open>C3. In every state the calls of the interface reach, whatever the host answers: while the range is
  enabled its sparse memory is well formed and has exactly the bounds of the range, the table of signal
  actions has 1 to 128 entries and the actions in force are among them; a code alias exists only while
  the range is enabled, and neither of its views wraps around or starts in the range.\<close>

theorem gsv_invariant:
  assumes "gsv_initial i" and "(gsv_step h)\<^sup>*\<^sup>* i st"
  shows "gsv_ok st"
  using assms(2)
proof (induction rule: rtranclp_induct)
  case base
  then show ?case using assms(1) by (simp add: gsv_initial_def gsv_ok_off)
next
  case (step y z)
  then show ?case using gsv_step_ok by blast
qed

text \<open>A host that answers every call with success.\<close>

definition sample_host :: "unit Host" where
  "sample_host =
     \<lparr>k_mmap = (\<lambda>_ _ _ _ _ _ _. (Inr 0x100000, ())), k_munmap = (\<lambda>_ _ _. (None, ())), k_mprotect = (\<lambda>_ _ _ _. (None, ())),
      k_madvise = (\<lambda>_ _ _ _. (None, ())), k_region = (\<lambda>_ _. None), k_page = 0x4000, k_header = 0, h_sigaction = (\<lambda>_ _ _. ((None, default_action), ())),
      h_max_address = (\<lambda>_. Some 0), h_fetch = (\<lambda>_ _. None), h_input = (\<lambda>_ _ _ _. (Inr [], ())),
      h_output = (\<lambda>_ _ _ _. (Inr 0, ())), h_fread = (\<lambda>_ _ _ _. ([], ())), h_fwrite = (\<lambda>_ _ _ _ _. (0, ()))\<rparr>"

definition initial_sample :: "unit GSV" where
  "initial_sample = software_sample\<lparr>sv_enabled := False, sv_memory := None\<rparr>"

definition sample_allocations :: SparseAllocations where
  "sample_allocations = \<lparr>sa_space = True, sa_backing = True, sa_pages = True, sa_free = True, sa_garbage = (\<lambda>_ _. 0)\<rparr>"

lemma sample_start: "fst (gsv_start sample_host sample_allocations 0x8000 0 initial_sample) = True"
proof -
  have "slots_for 2 16 = Some 16" by (subst slots_for.simps) simp
  then show ?thesis
    by (simp add: gsv_start_def start_def reserve_range_def install_actions_def host_sigaction_def sample_host_def
        initial_sample_def software_sample_def sample_allocations_def gm_sparse_init_def initialize_def sp_aligned_def Let_def)
qed

theorem gsv_invariant_witness:
  "\<exists>st. gsv_start sample_host sample_allocations 0x8000 0 initial_sample = (True, st) \<and> gsv_ok st"
proof -
  obtain st where st: "gsv_start sample_host sample_allocations 0x8000 0 initial_sample = (True, st)"
    using sample_start by (metis prod.collapse)
  have i: "gsv_initial initial_sample" by (simp add: gsv_initial_def initial_sample_def software_sample_def)
  have "(gsv_step sample_host)\<^sup>*\<^sup>* initial_sample st" using gsv_step.start [OF st] by blast
  then have "gsv_ok st" by (rule gsv_invariant [OF i])
  then show ?thesis using st by blast
qed

lemma execute_fault_ok:
  assumes m: "sv_memory st = Some s" and ok: "space_ok s" and r: "regs_ok r" and i: "\<not> casal_zero i"
    and nz: "\<forall>pc j. gsv_fetch_instruction h st pc True = Some j \<longrightarrow> \<not> casal_zero j"
    and eq: "execute_fault h st i r fl = (e, m', r', fl')"
  shows "\<exists>s'. m' = Some s' \<and> (s' = s \<or> sparse_step s s') \<and> (e \<noteq> GM_STEP_OK \<longrightarrow> s' = s) \<and>
    (e = GM_STEP_OK \<and> \<not> gm_exclusive_instruction i \<longrightarrow> mpc r' = mpc r + 4)"
proof (cases "gm_exclusive_instruction i")
  case False
  have "step_ok s r (gm_memory_step (Some s) i r True)" by (rule gm_memory_step_ok [OF ok r])
  then show ?thesis using eq False m by (auto simp: execute_fault_def step_ok_def split: prod.splits if_splits)
next
  case True
  obtain e1 m1 out f1 d1 where sq: "gm_exclusive_sequence (Some s) i \<lparr>rx = mx r, rsp = msp r, rpc = mpc r, nzcv = fl\<rparr>
      (\<lambda>pc. gsv_fetch_instruction h st pc True) True (Some \<lparr>dg_pc = 0, dg_reason = []\<rparr>) = (e1, m1, out, f1, d1)"
    by (metis prod_cases5)
  have "m' = m1" "e = e1" using eq True m sq by (auto simp: execute_fault_def split: option.splits if_splits)
  then show ?thesis using exclusive_sequence_ok [OF ok i nz sq] True by auto
qed


text \<open>\<open>STR W2, [X1]\<close> at \<open>0x1000\<close> with \<open>X1\<close> in the software range.\<close>

definition fault_context :: UContext where
  "fault_context = \<lparr>uc_esr = 0x90000000, uc_x = (\<lambda>k. if k = 1 then 0x8000 else 7), uc_fp = 0, uc_lr = 0, uc_sp = 0, uc_pc = 0x1000,
     uc_cpsr = 0, uc_vectors = (\<lambda>_. replicate 16 0)\<rparr>"

definition store_host :: "unit Host" where
  "store_host = sample_host\<lparr>h_fetch := (\<lambda>_ _. Some 0xb9000022)\<rparr>"

lemma fault_context_ok: "context_ok fault_context"
  by (simp add: context_ok_def fault_context_def)

lemma fault_store:
  "decode_access 0xb9000022 (context_registers fault_context) = Inr \<lparr>ac_load = False, ac_pair = False, ac_sign = False,
    ac_writeback = False, ac_size = 4, ac_rt2 = 0, ac_width = 64, ac_address = 0x8000, ac_newbase = 0x8000\<rparr>"
  by code_simp

lemma fault_step: "fst (gm_memory_step (Some sparse_sample) 0xb9000022 (context_registers fault_context) True) = GM_STEP_OK"
proof -
  let ?b = "store_bytes 0xb9000022 (context_registers fault_context) \<lparr>ac_load = False, ac_pair = False, ac_sign = False,
    ac_writeback = False, ac_size = 4, ac_rt2 = 0, ac_width = 64, ac_address = 0x8000, ac_newbase = 0x8000\<rparr>"
  have plain: "\<not> atomic_instruction 0xb9000022" by code_simp
  have pc: "mpc (context_registers fault_context) = 0x1000" by (simp add: context_registers_def fault_context_def)
  have len: "length ?b = 4"
    using length_store_bytes [OF context_registers_ok [OF fault_context_ok]] by (simp add: access_registers_def)
  have "fst (access_locked sparse_sample 0x8000 (Some (?b @ replicate 28 0)) 4 True) = GM_OK"
    by (rule sparse_sample_ready4) (simp add: len)
  then show ?thesis
    using plain len pc
    by (auto simp: gm_memory_step_def fault_store access_step_def access_registers_def gm_sparse_write_locked
        ifield_def split: prod.splits)
qed


section \<open>Mappings\<close>

text \<open>What a successful mapping does to the space.\<close>

definition mapped_fresh :: "Space \<Rightarrow> Space \<Rightarrow> u64 \<Rightarrow> u64 \<Rightarrow> u32 \<Rightarrow> bool" where
  "mapped_fresh s s' a n prot \<longleftrightarrow> space_ok s' \<and> s_base s' = s_base s \<and> s_end s' = s_end s \<and> mapping_range s a n \<and>
     (\<forall>x. sm_attr s' x = (if in_range a n x then Some (prot, 3) else sm_attr s x)) \<and>
     (\<forall>x. sm_byte s' x = (if in_range a n x then 0 else sm_byte s x))"

lemma sparse_map_fresh:
  assumes ok: "space_ok s" and eq: "gm_sparse_map (Some s) a n prot 3 replace = (r, m)"
  shows "r = GM_OK \<Longrightarrow> \<exists>s'. m = Some s' \<and> mapped_fresh s s' a n prot" and "r \<noteq> GM_OK \<Longrightarrow> m = Some s"
    and "mapping_range s a n \<Longrightarrow> \<forall>x. in_range a n x \<longrightarrow> sm_attr s x = None \<Longrightarrow> r \<noteq> GM_OVERLAP"
proof -
  obtain s' where s': "m = Some s'" "space_ok s'" "r \<noteq> GM_OK \<longrightarrow> s' = s \<and> change_denied s a n prot 3 replace MAP r"
      "r = GM_OK \<longrightarrow> mapping_range s a n \<and>
        (\<forall>x. sm_attr s' x = (if in_range a n x then changed_attr MAP prot 3 (sm_attr s x) else sm_attr s x)) \<and>
        (\<forall>x. sm_byte s' x = (if in_range a n x \<and> MAP \<noteq> PROTECT then 0 else sm_byte s x)) \<and>
        s_base s' = s_base s \<and> s_end s' = s_end s"
    using change_spec [OF ok eq [unfolded gm_sparse_map_def]] by blast
  show "r = GM_OK \<Longrightarrow> \<exists>s'. m = Some s' \<and> mapped_fresh s s' a n prot"
    using s'(1,2,4) by (simp add: mapped_fresh_def changed_attr_def)
  show "r \<noteq> GM_OK \<Longrightarrow> m = Some s" using s' by simp
  show "r \<noteq> GM_OVERLAP" if "mapping_range s a n" "\<forall>x. in_range a n x \<longrightarrow> sm_attr s x = None"
    using s'(3) that by (auto simp: change_denied_def split: if_splits)
qed

lemma map_loop_round:
  assumes ok: "space_ok s"
  obtains r a m where "\<And>k. map_loop (Suc k) n prot (Some s) = (r, a, m)"
    and "r = GM_OK \<Longrightarrow> (\<exists>s'. m = Some s' \<and> mapped_fresh s s' a n prot) \<and> (\<forall>x. in_range a n x \<longrightarrow> sm_attr s x = None)"
    and "r \<noteq> GM_OK \<Longrightarrow> m = Some s"
proof -
  obtain r out where f: "gm_sparse_find_free (Some s) n True = (r, out)" by (metis prod.exhaust)
  note spec = find_free_spec [OF ok f]
  show ?thesis
  proof (cases "r = GM_OK")
    case False
    then have "r = GM_INVALID \<or> r = GM_NOMEM" using spec by blast
    then show ?thesis using that [of r 0 "Some s"] f by auto
  next
    case True
    then obtain a where a: "out = Some a" "mapping_range s a n" "\<forall>x. in_range a n x \<longrightarrow> sm_attr s x = None" using spec by blast
    obtain r2 m where m: "gm_sparse_map (Some s) a n prot 3 False = (r2, m)" by (metis prod.exhaust)
    note sp = sparse_map_fresh [OF ok m]
    have "map_loop (Suc k) n prot (Some s) = (r2, a, m)" for k
      using f True a(1) m sp(3) [OF a(2,3)] by (cases r2) simp_all
    then show ?thesis using that [of r2 a m] sp(1,2) a(3) by blast
  qed
qed

text \<open>A mapping placed in the software range is fresh: its pages have the requested protection and
  read as zeros, every other address keeps its protection and bytes, and without \<open>MAP_FIXED\<close> no page was
  mapped there before; a failed call leaves the sparse memory as it was. The loop that looks for a free
  range ends in its first round: more rounds give the same result.\<close>

theorem gsv_software_map_fresh:
  assumes ok: "gsv_memory_ok st" and on: "sv_enabled st"
    and eq: "software_map a sz prot flags hint elig st = (p, st')"
  shows "\<exists>s. sv_memory st = Some s \<and> (\<forall>k n. map_loop (Suc k) n prot (Some s) = map_loop 1 n prot (Some s)) \<and>
    (case p of
       None \<Rightarrow> sv_memory st' = Some s
     | Some b \<Rightarrow> \<exists>n s'. gsv_rounded sz = Some n \<and> sv_memory st' = Some s' \<and> mapped_fresh s s' b n prot \<and>
         (\<not> (hint \<and> flags AND MAP_FIXED \<noteq> 0) \<longrightarrow> (\<forall>x. in_range b n x \<longrightarrow> sm_attr s x = None)))"
proof -
  obtain s where s: "sv_memory st = Some s" "space_ok s" using ok on by (auto simp: gsv_memory_ok_def)
  have once: "map_loop (Suc k) n prot (Some s) = map_loop 1 n prot (Some s)" for k n
    by (rule map_loop_round [OF s(2), of n prot]) (metis One_nat_def)
  have "case p of None \<Rightarrow> sv_memory st' = Some s
    | Some b \<Rightarrow> \<exists>n s'. gsv_rounded sz = Some n \<and> sv_memory st' = Some s' \<and> mapped_fresh s s' b n prot \<and>
         (\<not> (hint \<and> flags AND MAP_FIXED \<noteq> 0) \<longrightarrow> (\<forall>x. in_range b n x \<longrightarrow> sm_attr s x = None))"
  proof (cases "gsv_rounded sz = None \<or> \<not> elig \<or> \<not> hint \<and> flags AND MAP_FIXED \<noteq> 0")
    case True
    then show ?thesis using eq s(1) by (auto simp: software_map_def split: option.splits if_splits)
  next
    case False
    then obtain n where n: "gsv_rounded sz = Some n" by auto
    show ?thesis
    proof (cases "hint \<and> flags AND MAP_FIXED \<noteq> 0")
      case fixed: True
      obtain r m where m: "gm_sparse_map (Some s) a n prot 3 True = (r, m)" by (metis prod.exhaust)
      show ?thesis
        using eq n False fixed on s(1) m sparse_map_fresh(1,2) [OF s(2) m]
        by (cases "r = GM_OK") (auto simp: software_map_def Let_def)
    next
      case loose: False
      obtain r b m where m: "\<And>k. map_loop (Suc k) n prot (Some s) = (r, b, m)"
          "r = GM_OK \<Longrightarrow> (\<exists>s'. m = Some s' \<and> mapped_fresh s s' b n prot) \<and> (\<forall>x. in_range b n x \<longrightarrow> sm_attr s x = None)"
          "r \<noteq> GM_OK \<Longrightarrow> m = Some s"
        by (rule map_loop_round [OF s(2), of n prot]) blast
      have one: "map_loop 1 n prot (Some s) = (r, b, m)" using m(1) [of 0] by simp
      show ?thesis
        using eq n False loose on s(1) one m(2,3)
        by (cases "r = GM_OK") (auto simp: software_map_def Let_def simp del: map_loop.simps)
    qed
  qed
  with s(1) once show ?thesis by blast
qed

theorem gsv_software_map_fresh_witness:
  "\<exists>p st'. software_map 0 5 3 0x1002 False True software_sample = (p, st') \<and> p = Some 0x4000 \<and>
    (\<exists>s'. sv_memory st' = Some s' \<and> sm_attr s' 0x4000 = Some (3, 3))"
proof -
  obtain p st' where eq: "software_map 0 5 3 0x1002 False True software_sample = (p, st')" by (metis prod.exhaust)
  have n: "gsv_rounded 5 = Some 0x4000" by (simp add: gsv_rounded_def)
  have "fst (map_loop 1 0x4000 3 (Some sparse_sample)) = GM_OK \<and> fst (snd (map_loop 1 0x4000 3 (Some sparse_sample))) = 0x4000"
    by code_simp
  then have p: "p = Some 0x4000"
    using eq n by (auto simp: software_map_def software_sample_bounds Let_def split: prod.splits simp del: map_loop.simps)
  have "in_range 0x4000 0x4000 0x4000" by (simp add: in_range_def)
  then show ?thesis
    using gsv_software_map_fresh [OF software_sample_ok software_sample_bounds(2) eq] eq p n by (auto simp: mapped_fresh_def)
qed

section \<open>Reads from files\<close>

definition put_view :: "u64 \<Rightarrow> u8 list \<Rightarrow> (u64 \<Rightarrow> u8) \<Rightarrow> u64 \<Rightarrow> u8" where
  "put_view a bs v x = (if in_range a (word_length bs) x then bs ! unat (x - a) else v x)"

lemma put_view_Nil [simp]: "put_view a [] v = v"
  by (simp add: fun_eq_iff put_view_def)

text \<open>A read into the software range loses no data: a request that is too large, that the destination does not
  allow or that finds no bounce buffer fails before the host is asked; once the host has returned bytes,
  exactly they are stored at the buffer, their number is the result, and no other byte changes.\<close>

theorem gsv_read_correct:
  assumes ok: "gsv_memory_ok st" and b: "gsv_address st b" and eq: "file_io h allocated fd b n pos False st = (r, st')"
  shows "if n > 0x7fffffff \<or> \<not> accessible st b n GM_WRITE \<or> n > BOUNCE_SIZE \<and> \<not> allocated
    then r = None \<and> gsv_view st' = gsv_view st \<and> sv_kernel st' = sv_kernel st
    else (case h_input h (sv_kernel st) fd n pos of
        (Inl e, k) \<Rightarrow> r = None \<and> sv_errno st' = e \<and> gsv_view st' = gsv_view st \<and> sv_kernel st' = k
      | (Inr bs, k) \<Rightarrow> r = Some (word_length (take (unat n) bs)) \<and> sv_kernel st' = k \<and>
          gsv_view st' = put_view b (take (unat n) bs) (gsv_view st))"
proof -
  obtain r1 st1 where p: "prepare b n GM_WRITE st = (r1, st1)" by (metis prod.exhaust)
  note pr = prepare_ready [OF ok disjI2 [OF refl] p]
  have kern: "sv_kernel st1 = sv_kernel st" using arg_cong [OF pr(10) [of None], of sv_kernel] by simp
  have b1: "gsv_address st1 b" using pr(4) b by simp
  note io = eq [unfolded file_io_def, simplified b, simplified]
  show ?thesis
  proof (cases "n > 0x7fffffff \<or> \<not> accessible st b n GM_WRITE \<or> n > BOUNCE_SIZE \<and> \<not> allocated")
    case True
    have "r = None \<and> gsv_view st' = gsv_view st \<and> sv_kernel st' = sv_kernel st"
    proof (cases "n > 0x7fffffff \<or> r1 = GM_OK")
      case c: True
      then show ?thesis
        using io p True pr(1,3) kern by (auto simp: io_failed_def io_result_def split: if_splits)
    next
      case False
      then show ?thesis
        using io p pr(3) kern by (cases r1) (auto simp: io_failed_def io_result_def split: if_splits)
    qed
    with True show ?thesis by simp
  next
    case go: False
    obtain res k where k: "h_input h (sv_kernel st) fd n pos = (res, k)" by (metis prod.exhaust)
    have r1: "r1 = GM_OK" using go pr(1) by simp
    show ?thesis
    proof (cases res)
      case (Inl e)
      then show ?thesis
        using io p go r1 k pr(3) kern by (auto simp: host_input_def io_result_def)
    next
      case (Inr full)
      define bs where "bs = take (unat n) full"
      let ?st = "st1\<lparr>sv_kernel := k\<rparr>"
      have host: "host_input h fd n pos st1 = (Some bs, ?st)" using k Inr kern by (simp add: host_input_def bs_def)
      have len: "unat (word_length bs) = length bs" "length bs \<le> unat n"
        using unat_u64_less [of n] by (simp_all add: bs_def unat_of_nat min_def)
      have tr: "target_ready ?st b n"
        using pr(8) [OF r1 refl disjI1 [OF b]] by simp
      have "gsv_memory_ok ?st" using pr(2) by simp
      then obtain st2 where o: "copy_out (gsv_address ?st b) (b + 0) bs (word_length bs) ?st = (GM_OK, st2)" "sv_kernel st2 = sv_kernel ?st"
          "\<And>x. gsv_view st2 x = (if in_range (b + 0) (word_length bs) x then bs ! unat (x - (b + 0)) else gsv_view ?st x)"
        by (rule copy_out_ready [OF _ tr, of 0 "word_length bs" bs]) (use len b1 in auto)
      note o = o [simplified b1 gsv_address_update, simplified]
      have v: "gsv_view st2 = put_view b bs (gsv_view st)" using o(3) pr(3) by (simp add: fun_eq_iff put_view_def)
      have "r = Some (word_length bs) \<and> gsv_view st' = put_view b bs (gsv_view st) \<and> sv_kernel st' = k"
      proof (cases "bs = []")
        case True
        then show ?thesis using io p go r1 host pr(3) by (auto simp: io_result_def)
      next
        case False
        then show ?thesis using io p go r1 host o(1,2) v by (auto simp: io_result_def)
      qed
      then show ?thesis using go k Inr by (simp add: bs_def)
    qed
  qed
qed

definition read_host :: "unit Host" where
  "read_host = sample_host\<lparr>h_input := (\<lambda>_ _ _ _. (Inr [5, 6], ()))\<rparr>"

theorem gsv_read_correct_witness:
  "\<exists>st'. file_io read_host True 3 0x8000 8 None False software_sample = (Some 2, st') \<and> gsv_view st' 0x8001 = 6"
proof -
  obtain r st' where eq: "file_io read_host True 3 0x8000 8 None False software_sample = (r, st')" by (metis prod.exhaust)
  have "accessible software_sample 0x8000 8 GM_WRITE" by (rule software_sample_writable)
  moreover have "in_range 0x8000 2 0x8001" by (simp add: in_range_def)
  ultimately show ?thesis
    using gsv_read_correct [OF software_sample_ok software_sample_address(1) eq] eq
    by (auto simp: read_host_def put_view_def)
qed

end
