(* ===== verification/DebugWire.thy ===== *)
theory DebugWire
  imports GuestMemory
begin

text \<open>
  The packet codec of the debugger connection, \<open>authorization/DebugWire.c\<close>: a parser fed one byte at a time, which keeps
  the payload in a buffer of fixed capacity, undoes escapes and run lengths and checks the sum, and an
  encoder. Shown are that the parser never writes outside its buffer and that it reads back every packet
  the encoder writes. The parser's state is one of the six of the source's \<open>enum\<close>; the branch after its
  \<open>switch\<close>, for other values, is not reachable.
\<close>

section \<open>The parser\<close>

datatype DWState = SEEK | BODY | ESCAPE | REPEAT | CHECK_HIGH | CHECK_LOW

datatype DWEvent = DW_MORE | DW_PACKET | DW_NOTIFICATION | DW_ACK | DW_NACK | DW_BAD_CHECKSUM | DW_MALFORMED | DW_OVERFLOW

record DWParser =
  dw_payload :: "u8 list"
  dw_capacity :: nat
  dw_length :: nat
  dw_state :: DWState
  dw_sum :: u8
  dw_expected :: u8
  dw_notification :: bool
  dw_zero_checksum :: bool

definition dw_hex :: "u8 \<Rightarrow> u8 option" where
  "dw_hex c =
     (if c \<ge> 0x30 \<and> c \<le> 0x39 then Some (c - 0x30)
      else if c \<ge> 0x61 \<and> c \<le> 0x66 then Some (c - 0x61 + 10)
      else if c \<ge> 0x41 \<and> c \<le> 0x46 then Some (c - 0x41 + 10) else None)"

text \<open>\<open>buffer\<close> is \<open>None\<close> for a null pointer.\<close>

definition dw_init :: "u8 list option \<Rightarrow> nat \<Rightarrow> DWParser" where
  "dw_init buffer capacity =
     \<lparr>dw_payload = (case buffer of None \<Rightarrow> [] | Some b \<Rightarrow> b), dw_capacity = (if buffer \<noteq> None then capacity else 0), dw_length = 0,
      dw_state = SEEK, dw_sum = 0, dw_expected = 0, dw_notification = False, dw_zero_checksum = False\<rparr>"

definition dw_fail :: "DWEvent \<Rightarrow> DWParser \<Rightarrow> DWEvent \<times> DWParser" where
  "dw_fail event p = (event, p\<lparr>dw_state := SEEK, dw_length := 0\<rparr>)"

definition dw_append :: "u8 \<Rightarrow> DWParser \<Rightarrow> DWEvent \<times> DWParser" where
  "dw_append byte p =
     (if dw_length p = dw_capacity p then dw_fail DW_OVERFLOW p
      else (DW_MORE, p\<lparr>dw_payload := (dw_payload p)[dw_length p := byte], dw_length := dw_length p + 1\<rparr>))"

definition dw_repeat :: "u8 \<Rightarrow> DWParser \<Rightarrow> DWEvent \<times> DWParser" where
  "dw_repeat b p =
     (let p = p\<lparr>dw_sum := dw_sum p + b, dw_state := BODY\<rparr>
      in if dw_length p = 0 \<or> b < 32 \<or> b > 126 \<or> b = 0x24 \<or> b = 0x23 \<or> b = 0x2b \<or> b = 0x2d then dw_fail DW_MALFORMED p
         else let n = unat b - 29
         in if n > dw_capacity p - dw_length p then dw_fail DW_OVERFLOW p
            else (DW_MORE, p\<lparr>dw_payload := buffer_write (dw_payload p) (dw_length p) (replicate n (dw_payload p ! (dw_length p - 1))),
                             dw_length := dw_length p + n\<rparr>))"

definition dw_feed :: "DWParser \<Rightarrow> u8 \<Rightarrow> DWEvent \<times> DWParser" where
  "dw_feed p b =
     (case dw_state p of
        SEEK \<Rightarrow>
          if b = 0x2b then (DW_ACK, p)
          else if b = 0x2d then (DW_NACK, p)
          else if b = 0x24 \<or> b = 0x25
          then (DW_MORE, p\<lparr>dw_state := BODY, dw_length := 0, dw_sum := 0, dw_notification := (b = 0x25)\<rparr>)
          else (DW_MORE, p)
      | BODY \<Rightarrow>
          if b = 0x24 then (DW_MALFORMED, p\<lparr>dw_length := 0, dw_sum := 0, dw_notification := False\<rparr>)
          else if b = 0x23 then (DW_MORE, p\<lparr>dw_state := CHECK_HIGH\<rparr>)
          else let p = p\<lparr>dw_sum := dw_sum p + b\<rparr>
          in if b = 0x7d then (DW_MORE, p\<lparr>dw_state := ESCAPE\<rparr>)
             else if b = 0x2a then (DW_MORE, p\<lparr>dw_state := REPEAT\<rparr>)
             else dw_append b p
      | ESCAPE \<Rightarrow> dw_append (b XOR 0x20) (p\<lparr>dw_sum := dw_sum p + b, dw_state := BODY\<rparr>)
      | REPEAT \<Rightarrow> dw_repeat b p
      | CHECK_HIGH \<Rightarrow>
          (case dw_hex b of
             None \<Rightarrow> dw_fail DW_MALFORMED p
           | Some digit \<Rightarrow> (DW_MORE, p\<lparr>dw_expected := push_bit 4 digit, dw_state := CHECK_LOW\<rparr>))
      | CHECK_LOW \<Rightarrow>
          (case dw_hex b of
             None \<Rightarrow> dw_fail DW_MALFORMED p
           | Some digit \<Rightarrow>
               let p = p\<lparr>dw_state := SEEK\<rparr>; acc = dw_expected p OR digit
               in if acc \<noteq> dw_sum p \<and> \<not> (dw_zero_checksum p \<and> acc = 0) then dw_fail DW_BAD_CHECKSUM p
                  else (if dw_notification p then DW_NOTIFICATION else DW_PACKET, p)))"

section \<open>The encoder\<close>

definition needs_escape :: "u8 \<Rightarrow> bool" where
  "needs_escape b \<longleftrightarrow> b = 0x24 \<or> b = 0x23 \<or> b = 0x7d \<or> b = 0x2a"

text \<open>The bytes needed, unless they exceed the capacity.\<close>

fun dw_needed :: "u8 list \<Rightarrow> nat \<Rightarrow> nat \<Rightarrow> nat option" where
  "dw_needed [] capacity needed = Some needed"
| "dw_needed (b # bs) capacity needed =
     (if needs_escape b then if needed = capacity then None else dw_needed bs capacity (needed + 1)
      else dw_needed bs capacity needed)"

text \<open>The body and its sum.\<close>

fun dw_body :: "u8 list \<Rightarrow> u8 \<Rightarrow> u8 list \<times> u8" where
  "dw_body [] acc = ([], acc)"
| "dw_body (b # bs) acc =
     (if needs_escape b
      then let (out, all) = dw_body bs (acc + 0x7d + (b XOR 0x20)) in (0x7d # (b XOR 0x20) # out, all)
      else let (out, all) = dw_body bs (acc + b) in (b # out, all))"

definition dw_digit :: "u8 \<Rightarrow> u8" where
  "dw_digit d = (if d < 10 then 0x30 + d else 0x61 + (d - 10))"

text \<open>\<open>payload\<close> and \<open>destination\<close> are \<open>None\<close> for null pointers. The result is the number of bytes and the
  destination's content.\<close>

definition dw_encode :: "u8 list option \<Rightarrow> nat \<Rightarrow> u8 list option \<Rightarrow> nat \<Rightarrow> nat \<times> u8 list option" where
  "dw_encode payload n destination capacity =
     (if destination = None \<or> n \<noteq> 0 \<and> payload = None \<or> capacity < 4 \<or> n > capacity - 4 then (0, destination)
      else let input = (case payload of None \<Rightarrow> [] | Some bs \<Rightarrow> take n bs)
      in case dw_needed input capacity (n + 4) of
           None \<Rightarrow> (0, destination)
         | Some _ \<Rightarrow>
             let (body, acc) = dw_body input 0;
                 out = 0x24 # body @ [0x23, dw_digit (drop_bit 4 acc), dw_digit (acc AND 15)]
             in (length out, Some (buffer_write (the destination) 0 out)))"

section \<open>Bounds\<close>

definition dw_ok :: "DWParser \<Rightarrow> bool" where
  "dw_ok p \<longleftrightarrow> length (dw_payload p) = dw_capacity p \<and> dw_length p \<le> dw_capacity p"

primrec dw_feeds :: "DWParser \<Rightarrow> u8 list \<Rightarrow> DWEvent list \<times> DWParser" where
  "dw_feeds p [] = ([], p)"
| "dw_feeds p (b # bs) = (let (e, p) = dw_feed p b; (es, p) = dw_feeds p bs in (e # es, p))"

lemma dw_fail_ok: "dw_ok p \<Longrightarrow> dw_fail e p = (e', p') \<Longrightarrow> dw_ok p' \<and> dw_capacity p' = dw_capacity p"
  by (auto simp: dw_fail_def dw_ok_def)

lemma dw_append_ok: "dw_ok p \<Longrightarrow> dw_append b p = (e, p') \<Longrightarrow> dw_ok p' \<and> dw_capacity p' = dw_capacity p"
  by (auto simp: dw_append_def dw_fail_def dw_ok_def split: if_splits)

lemma dw_repeat_ok: "dw_ok p \<Longrightarrow> dw_repeat b p = (e, p') \<Longrightarrow> dw_ok p' \<and> dw_capacity p' = dw_capacity p"
  by (auto simp: dw_repeat_def Let_def dw_fail_def dw_ok_def length_buffer_write split: if_splits)

lemma dw_ok_fields:
  "dw_ok (p\<lparr>dw_state := x\<rparr>) = dw_ok p" "dw_ok (p\<lparr>dw_sum := y\<rparr>) = dw_ok p" "dw_ok (p\<lparr>dw_expected := y\<rparr>) = dw_ok p"
  "dw_ok (p\<lparr>dw_notification := z\<rparr>) = dw_ok p" "dw_ok p \<Longrightarrow> dw_ok (p\<lparr>dw_length := 0\<rparr>)"
  by (simp_all add: dw_ok_def)

lemma dw_feed_ok:
  assumes ok: "dw_ok p" and eq: "dw_feed p b = (e, p')"
  shows "dw_ok p' \<and> dw_capacity p' = dw_capacity p"
proof (cases "dw_state p")
  case REPEAT
  then show ?thesis using eq dw_repeat_ok [OF ok] by (simp add: dw_feed_def)
next
  case ESCAPE
  then show ?thesis using eq ok dw_append_ok [of "p\<lparr>dw_sum := dw_sum p + b, dw_state := BODY\<rparr>"] by (simp add: dw_feed_def dw_ok_fields)
next
  case BODY
  then show ?thesis
    using eq ok dw_append_ok [of "p\<lparr>dw_sum := dw_sum p + b\<rparr>" b]
    by (auto simp: dw_feed_def Let_def dw_ok_fields split: if_splits)
qed (use eq ok in \<open>auto simp: dw_feed_def dw_fail_def Let_def dw_ok_fields split: if_splits option.splits\<close>)

lemma dw_feeds_ok: "dw_ok p \<Longrightarrow> dw_feeds p bs = (es, p') \<Longrightarrow> dw_ok p' \<and> dw_capacity p' = dw_capacity p"
proof (induction bs arbitrary: p es)
  case (Cons b bs)
  obtain e p1 where f: "dw_feed p b = (e, p1)" by (metis prod.exhaust)
  obtain es1 where "dw_feeds p1 bs = (es1, p')" using Cons.prems(2) f by (auto simp: Let_def split: prod.splits)
  then show ?case using Cons.IH [of p1 es1] dw_feed_ok [OF Cons.prems(1) f] by simp
qed simp

section \<open>Packets\<close>

lemma dw_feeds_append:
  "dw_feeds p (xs @ ys) = (let (es, p) = dw_feeds p xs; (fs, p) = dw_feeds p ys in (es @ fs, p))"
  by (induction xs arbitrary: p) (auto simp: Let_def split: prod.splits)

text \<open>The parser inside a packet whose first \<open>bs\<close> bytes it has taken.\<close>

definition in_body :: "DWParser \<Rightarrow> u8 list \<Rightarrow> u8 \<Rightarrow> bool" where
  "in_body p bs acc \<longleftrightarrow> dw_ok p \<and> dw_state p = BODY \<and> dw_length p = length bs \<and> take (length bs) (dw_payload p) = bs \<and>
     dw_sum p = acc \<and> \<not> dw_notification p"

lemma append_in_body:
  assumes p: "in_body p bs acc" and room: "length bs < dw_capacity p"
  shows "\<exists>p'. dw_append b (p\<lparr>dw_sum := s\<rparr>) = (DW_MORE, p') \<and> in_body p' (bs @ [b]) s \<and> dw_capacity p' = dw_capacity p"
  using assms by (auto simp: in_body_def dw_append_def dw_ok_def take_Suc_conv_app_nth)

lemma body_byte:
  assumes p: "in_body p bs acc" and room: "length bs < dw_capacity p" and b: "\<not> needs_escape b"
  shows "\<exists>p'. dw_feed p b = (DW_MORE, p') \<and> in_body p' (bs @ [b]) (acc + b) \<and> dw_capacity p' = dw_capacity p"
  using append_in_body [OF p room, of b "acc + b"] p b by (auto simp: dw_feed_def in_body_def needs_escape_def)

lemma body_escape:
  assumes p: "in_body p bs acc" and room: "length bs < dw_capacity p"
  shows "\<exists>p'. dw_feeds p [0x7d, b XOR 0x20] = ([DW_MORE, DW_MORE], p') \<and> in_body p' (bs @ [b]) (acc + 0x7d + (b XOR 0x20)) \<and>
    dw_capacity p' = dw_capacity p"
proof -
  have x: "(b XOR 0x20) XOR 0x20 = b" by (simp add: xor.assoc)
  have q: "p\<lparr>dw_sum := s, dw_state := BODY\<rparr> = p\<lparr>dw_sum := s\<rparr>" for s using p by (cases p) (simp add: in_body_def)
  obtain p' where "dw_append b (p\<lparr>dw_sum := acc + 0x7d + (b XOR 0x20)\<rparr>) = (DW_MORE, p')"
      "in_body p' (bs @ [b]) (acc + 0x7d + (b XOR 0x20))" "dw_capacity p' = dw_capacity p"
    using append_in_body [OF p room] by blast
  then show ?thesis using p x by (simp add: dw_feed_def in_body_def q)
qed

lemma body_feeds:
  assumes "in_body p bs acc" and "length bs + length xs \<le> dw_capacity p" and "dw_body xs acc = (out, all)"
  shows "\<exists>p'. dw_feeds p out = (replicate (length out) DW_MORE, p') \<and> in_body p' (bs @ xs) all \<and> dw_capacity p' = dw_capacity p"
  using assms
proof (induction xs arbitrary: p bs acc out)
  case Nil
  then show ?case by simp
next
  case (Cons b xs)
  show ?case
  proof (cases "needs_escape b")
    case True
    obtain out1 where o: "dw_body xs (acc + 0x7d + (b XOR 0x20)) = (out1, all)" "out = [0x7d, b XOR 0x20] @ out1"
      using Cons.prems(3) True by (auto split: prod.splits)
    obtain p1 where p1: "dw_feeds p [0x7d, b XOR 0x20] = ([DW_MORE, DW_MORE], p1)" "in_body p1 (bs @ [b]) (acc + 0x7d + (b XOR 0x20))"
        "dw_capacity p1 = dw_capacity p" using body_escape [OF Cons.prems(1), of b] Cons.prems(2) by auto
    then show ?thesis using Cons.IH [OF p1(2) _ o(1)] Cons.prems(2) unfolding o(2) dw_feeds_append p1(1) by auto
  next
    case False
    obtain out1 where o: "dw_body xs (acc + b) = (out1, all)" "out = b # out1"
      using Cons.prems(3) False by (auto split: prod.splits)
    obtain p1 where p1: "dw_feed p b = (DW_MORE, p1)" "in_body p1 (bs @ [b]) (acc + b)" "dw_capacity p1 = dw_capacity p"
      using body_byte [OF Cons.prems(1) _ False] Cons.prems(2) by auto
    then show ?thesis using Cons.IH [OF p1(2) _ o(1)] Cons.prems(2) unfolding o(2) by auto
  qed
qed

lemma hex_digit:
  assumes "d < 16"
  shows "dw_hex (dw_digit d) = Some d"
proof -
  have "\<forall>n \<in> set [0..<16]. dw_hex (dw_digit (of_nat n)) = Some (of_nat n)" by code_simp
  moreover have "unat d < 16" using assms by (simp add: word_less_nat_alt)
  ultimately have "dw_hex (dw_digit (of_nat (unat d))) = Some (of_nat (unat d))" by (auto simp: Ball_def)
  then show ?thesis by simp
qed

lemma nibbles: "drop_bit 4 (s :: u8) < 16" "s AND 15 < 16" "push_bit 4 (drop_bit 4 s) OR (s AND 15) = s"
proof -
  have "unat (drop_bit 4 s) = unat s div 16" by (simp add: drop_bit_eq_div unat_div)
  moreover have "unat s < 256" using unsigned_less [of s] by simp
  ultimately show "drop_bit 4 s < 16" by (simp add: word_less_nat_alt)
  have "s AND 15 = take_bit 4 s" by (simp add: take_bit_eq_mask mask_eq_exp_minus_1)
  then show "s AND 15 < 16" by (simp add: take_bit_eq_mod word_less_nat_alt unat_mod)
  show "push_bit 4 (drop_bit 4 s) OR (s AND 15) = s"
    unfolding \<open>s AND 15 = take_bit 4 s\<close> by (rule bit_word_eqI) (auto simp: bit_simps)
qed

lemma dw_needed_eq:
  "dw_needed bs capacity n = (if n + length (filter needs_escape bs) \<le> capacity then Some (n + length (filter needs_escape bs)) else None)"
  if "n \<le> capacity"
  using that by (induction bs arbitrary: n) auto

lemma length_dw_body: "length (fst (dw_body bs acc)) = length bs + length (filter needs_escape bs)"
  by (induction bs acc rule: dw_body.induct) (auto split: prod.splits)

lemma more_run: "DW_MORE # replicate k DW_MORE @ [DW_MORE, DW_MORE, DW_PACKET] = replicate (k + 3) DW_MORE @ [DW_PACKET]"
  by (induction k) (simp_all add: eval_nat_numeral)

section \<open>Properties\<close>

text \<open>Whatever bytes arrive, the parser never writes outside its buffer: the payload stays within the
  capacity it was given.\<close>

theorem dw_feed_bounded:
  assumes "length b = capacity" and "dw_feeds (dw_init (Some b) capacity) bs = (es, p)"
  shows "length (dw_payload p) = capacity \<and> dw_length p \<le> capacity"
proof -
  have "dw_ok (dw_init (Some b) capacity)" using assms(1) by (simp add: dw_ok_def dw_init_def)
  from dw_feeds_ok [OF this assms(2)] show ?thesis by (simp add: dw_ok_def dw_init_def)
qed

theorem dw_feed_bounded_witness:
  "length (dw_payload (snd (dw_feeds (dw_init (Some [0, 0]) 2) [0x24, 0x61, 0x2a, 0x7e]))) = 2"
proof -
  obtain es p where eq: "dw_feeds (dw_init (Some [0, 0]) 2) [0x24, 0x61, 0x2a, 0x7e] = (es, p)" by (metis prod.exhaust)
  have "length [0, 0 :: u8] = 2" by simp
  from dw_feed_bounded [OF this eq] show ?thesis unfolding eq by simp
qed

text \<open>C28. The encoder succeeds exactly when the escaped packet fits; then a parser that waits for a packet and
  has room for the payload asks for more at every byte but the last, reports a packet at the last one,
  and holds the payload.\<close>

theorem dw_roundtrip:
  assumes cap: "length dest = capacity" and eq: "dw_encode (Some bs) (length bs) (Some dest) capacity = (n, out)"
    and p: "dw_ok p" "dw_state p = SEEK" and room: "length bs \<le> dw_capacity p"
  shows "(0 < n \<longleftrightarrow> length bs + length (filter needs_escape bs) + 4 \<le> capacity) \<and>
    (0 < n \<longrightarrow> (\<exists>p'. dw_feeds p (take n (the out)) = (replicate (n - 1) DW_MORE @ [DW_PACKET], p') \<and>
      take (dw_length p') (dw_payload p') = bs))"
proof (cases "length bs + length (filter needs_escape bs) + 4 \<le> capacity")
  case False
  then have "n = 0" using eq by (auto simp: dw_encode_def dw_needed_eq Let_def split: if_splits option.splits)
  then show ?thesis using False by simp
next
  case True
  obtain body acc where b: "dw_body bs 0 = (body, acc)" by (metis prod.exhaust)
  let ?out = "0x24 # body @ [0x23, dw_digit (drop_bit 4 acc), dw_digit (acc AND 15)]"
  have len: "length body = length bs + length (filter needs_escape bs)" using length_dw_body [of bs 0] b by simp
  have c: "\<not> capacity - 4 < length bs" "\<not> capacity < 4" "length bs + 4 \<le> capacity" using True by linarith+
  have "dw_needed bs capacity (length bs + 4) \<noteq> None" using True by (simp add: dw_needed_eq [OF c(3)])
  then have n: "n = length ?out" "out = Some (buffer_write dest 0 ?out)"
    using eq b c(1,2) by (auto simp: dw_encode_def)
  have t: "take n (the out) = ?out" using n cap True len by (simp add: buffer_write_def)
  define p0 where "p0 = p\<lparr>dw_state := BODY, dw_length := 0, dw_sum := 0, dw_notification := False\<rparr>"
  have f0: "dw_feed p 0x24 = (DW_MORE, p0)" using p(2) by (simp add: dw_feed_def p0_def)
  have i0: "in_body p0 [] 0" "dw_capacity p0 = dw_capacity p" using p(1) by (simp_all add: in_body_def p0_def dw_ok_def)
  obtain p1 where p1: "dw_feeds p0 body = (replicate (length body) DW_MORE, p1)" "in_body p1 bs acc"
    using body_feeds [OF i0(1) _ b] room i0(2) by auto
  let ?q = "p1\<lparr>dw_expected := push_bit 4 (drop_bit 4 acc), dw_state := SEEK\<rparr>"
  have "dw_feeds p1 [0x23, dw_digit (drop_bit 4 acc), dw_digit (acc AND 15)] = ([DW_MORE, DW_MORE, DW_PACKET], ?q)"
    using p1(2) nibbles [of acc] by (simp add: dw_feed_def in_body_def hex_digit Let_def)
  then have "dw_feeds p ?out = (replicate (n - 1) DW_MORE @ [DW_PACKET], ?q)"
    using f0 p1(1) n(1) more_run [of "length body"] by (simp add: dw_feeds_append eval_nat_numeral)
  moreover have "take (dw_length ?q) (dw_payload ?q) = bs" using p1(2) by (simp add: in_body_def)
  ultimately show ?thesis using t True n(1) by auto
qed

theorem dw_roundtrip_witness:
  "\<exists>p'. dw_feeds (dw_init (Some [0, 0]) 2) [0x24, 0x61, 0x7d, 0x03, 0x23, 0x65, 0x31] = (replicate 6 DW_MORE @ [DW_PACKET], p') \<and>
    take (dw_length p') (dw_payload p') = [0x61, 0x23]"
proof -
  let ?d = "replicate 8 0 :: u8 list" and ?p = "dw_init (Some [0, 0]) 2"
  have eq: "dw_encode (Some [0x61, 0x23]) (length [0x61, 0x23 :: u8]) (Some ?d) 8 =
      (7, Some [0x24, 0x61, 0x7d, 0x03, 0x23, 0x65, 0x31, 0])" by code_simp
  have "length ?d = 8" "dw_ok ?p" "dw_state ?p = SEEK" "length [0x61, 0x23 :: u8] \<le> dw_capacity ?p"
    by (simp_all add: dw_ok_def dw_init_def)
  from dw_roundtrip [OF this(1) eq this(2-4)] show ?thesis by (simp add: eval_nat_numeral)
qed

end
