(* ===== verification/ArenaControl.thy ===== *)
theory ArenaControl
  imports GuestMemory
begin

text \<open>
  The messages between the application and the provider of its code arena,
  \<open>authorization/Control/ArenaControl.c\<close>: a request of fixed size in network order, checked when it is written and when
  it is read, replies that repeat the request, and the commands of the connection. Buffers are byte
  lists, \<open>None\<close> for a null pointer; their sizes are arguments as in the source.
\<close>

section \<open>Requests\<close>

abbreviation (input) TKAC_SIZE :: nat where "TKAC_SIZE \<equiv> 96"

record TKACRequest =
  rq_pid :: u32
  rq_uid :: u32
  rq_address :: u64
  rq_size :: u64
  rq_challenge_address :: u64
  rq_deadline_ms :: u64
  rq_challenge :: "u8 list"
  rq_identifier :: "u8 list"

definition read_number :: "u8 list \<Rightarrow> u64" where
  "read_number bs = foldl (\<lambda>v b. push_bit 8 v OR ucast b) 0 bs"

primrec write_number :: "nat \<Rightarrow> u64 \<Rightarrow> u8 list" where
  "write_number 0 v = []"
| "write_number (Suc n) v = write_number n (drop_bit 8 v) @ [ucast v]"

definition nonzero :: "u8 list \<Rightarrow> bool" where
  "nonzero bs \<longleftrightarrow> foldl (OR) 0 bs \<noteq> 0"

definition request_valid :: "TKACRequest \<Rightarrow> bool" where
  "request_valid r \<longleftrightarrow>
     (let maximum = 0x0000ffffffffffff
      in rq_pid r > 1 \<and> rq_pid r \<le> 0x7fffffff \<and> rq_size r \<noteq> 0 \<and> rq_size r \<le> 512 * 1024 * 1024 \<and> rq_size r mod 16384 = 0 \<and>
         rq_address r \<ge> 16384 \<and> rq_address r mod 16384 = 0 \<and> rq_address r \<le> maximum - rq_size r \<and>
         rq_challenge_address r \<ge> 4096 \<and> rq_challenge_address r \<le> maximum - 32 \<and>
         (rq_challenge_address r + 32 \<le> rq_address r \<or> rq_address r + rq_size r \<le> rq_challenge_address r) \<and>
         rq_deadline_ms r \<noteq> 0 \<and> nonzero (take 32 (rq_challenge r)) \<and> nonzero (take 16 (rq_identifier r)))"

definition tkac_header :: "u8 list" where
  "tkac_header = [0x54, 0x4b, 0x41, 0x52, 1, 1, 0, 0]"

definition request_bytes :: "TKACRequest \<Rightarrow> u8 list" where
  "request_bytes r =
     tkac_header @ write_number 4 (ucast (rq_pid r)) @ write_number 4 (ucast (rq_uid r)) @ write_number 8 (rq_address r) @
     write_number 8 (rq_size r) @ write_number 8 (rq_challenge_address r) @ write_number 8 (rq_deadline_ms r) @
     take 32 (rq_challenge r) @ take 16 (rq_identifier r)"

definition tkac_encode :: "TKACRequest option \<Rightarrow> u8 list option \<Rightarrow> nat \<Rightarrow> u8 list option" where
  "tkac_encode r out n =
     (case (r, out) of
        (Some r, Some out) \<Rightarrow> if n \<noteq> TKAC_SIZE \<or> \<not> request_valid r then None else Some (buffer_write out 0 (request_bytes r))
      | _ \<Rightarrow> None)"

definition slice_at :: "u8 list \<Rightarrow> nat \<Rightarrow> nat \<Rightarrow> u8 list" where
  "slice_at bs i n = take n (drop i bs)"

definition staged_request :: "u8 list \<Rightarrow> TKACRequest" where
  "staged_request bs =
     \<lparr>rq_pid = ucast (read_number (slice_at bs 8 4)), rq_uid = ucast (read_number (slice_at bs 12 4)),
      rq_address = read_number (slice_at bs 16 8), rq_size = read_number (slice_at bs 24 8),
      rq_challenge_address = read_number (slice_at bs 32 8), rq_deadline_ms = read_number (slice_at bs 40 8),
      rq_challenge = slice_at bs 48 32, rq_identifier = slice_at bs 80 16\<rparr>"

text \<open>\<open>present\<close> is \<open>False\<close> for a null result pointer.\<close>

definition tkac_decode :: "u8 list option \<Rightarrow> nat \<Rightarrow> bool \<Rightarrow> TKACRequest option" where
  "tkac_decode bytes n present =
     (case bytes of
        None \<Rightarrow> None
      | Some bs \<Rightarrow>
          if \<not> present \<or> n \<noteq> TKAC_SIZE \<or> slice_at bs 0 8 \<noteq> tkac_header then None
          else let staged = staged_request bs in if \<not> request_valid staged then None else Some staged)"

section \<open>Replies and commands\<close>

definition tkac_reply :: "u8 list option \<Rightarrow> nat \<Rightarrow> int \<Rightarrow> u8 list option \<Rightarrow> nat \<Rightarrow> u8 list option" where
  "tkac_reply request n outcome out capacity =
     (case out of
        None \<Rightarrow> None
      | Some out \<Rightarrow>
          if capacity \<noteq> TKAC_SIZE \<or> outcome < 1 \<or> outcome > 5 \<or> tkac_decode request n True = None then None
          else Some ((buffer_write out 0 (take TKAC_SIZE (the request)))[5 := 2, 6 := word_of_int outcome]))"

definition tkac_match :: "u8 list option \<Rightarrow> nat \<Rightarrow> u8 list option \<Rightarrow> nat \<Rightarrow> bool \<Rightarrow> u8 option" where
  "tkac_match request request_size reply reply_size present =
     (case reply of
        None \<Rightarrow> None
      | Some rep \<Rightarrow>
          if \<not> present \<or> reply_size \<noteq> TKAC_SIZE \<or> tkac_decode request request_size True = None \<or>
             slice_at rep 0 6 \<noteq> [0x54, 0x4b, 0x41, 0x52, 1, 2] \<or> rep ! 7 \<noteq> 0 \<or> rep ! 6 < 1 \<or> rep ! 6 > 5 \<or>
             slice_at (the request) 8 (TKAC_SIZE - 8) \<noteq> slice_at rep 8 (TKAC_SIZE - 8)
          then None else Some (rep ! 6))"

definition tkac_command :: "u8 list option \<Rightarrow> nat \<Rightarrow> int \<Rightarrow> u8 list option \<Rightarrow> nat \<Rightarrow> u8 list option" where
  "tkac_command request n command out capacity =
     (case out of
        None \<Rightarrow> None
      | Some out \<Rightarrow>
          if capacity \<noteq> TKAC_SIZE \<or> command \<noteq> 3 \<and> command \<noteq> 4 \<or> tkac_decode request n True = None then None
          else Some ((buffer_write out 0 (take TKAC_SIZE (the request)))[5 := word_of_int command]))"

text \<open>The result is the command and the request's buffer; \<open>present\<close> is \<open>False\<close> for a null command pointer.\<close>

definition tkac_normalize :: "u8 list option \<Rightarrow> nat \<Rightarrow> bool \<Rightarrow> u8 list option \<Rightarrow> nat \<Rightarrow> (u8 \<times> u8 list) option" where
  "tkac_normalize message n present request capacity =
     (case (message, request) of
        (Some msg, Some req) \<Rightarrow>
          if \<not> present \<or> n \<noteq> TKAC_SIZE \<or> capacity \<noteq> TKAC_SIZE \<or> msg ! 5 \<noteq> 3 \<and> msg ! 5 \<noteq> 4 then None
          else let normalized = (take TKAC_SIZE msg)[5 := 1]
               in if tkac_decode (Some normalized) TKAC_SIZE True = None then None
                  else Some (msg ! 5, buffer_write req 0 normalized)
      | _ \<Rightarrow> None)"

section \<open>Numbers\<close>

lemma length_write_number [simp]: "length (write_number n v) = n"
  by (induction n arbitrary: v) simp_all

lemma read_number_snoc: "read_number (bs @ [b]) = push_bit 8 (read_number bs) OR ucast b"
  by (simp add: read_number_def)

lemma read_write_number: "read_number (write_number n v) = take_bit (8 * n) v"
proof (induction n arbitrary: v)
  case 0
  then show ?case by (simp add: read_number_def)
next
  case (Suc n)
  show ?case
    unfolding write_number.simps read_number_snoc Suc.IH
    by (rule bit_word_eqI) (auto simp: bit_simps)
qed

lemma write_read_number: "length bs \<le> 8 \<Longrightarrow> write_number (length bs) (read_number bs) = bs"
proof (induction bs rule: rev_induct)
  case Nil
  then show ?case by simp
next
  case (snoc b bs)
  have "read_number bs = take_bit (8 * length bs) (read_number bs)"
    using snoc by (metis read_write_number append_take_drop_id butlast_snoc length_append_singleton Suc_leD)
  then have "k < 8 * length bs" if "bit (read_number bs) k" for k using that by (metis bit_take_bit_iff)
  then have lo: "k < 56" if "bit (read_number bs) k" for k using that snoc.prems by fastforce
  have "drop_bit 8 (push_bit 8 (read_number bs) OR ucast b :: u64) = read_number bs"
    by (rule bit_word_eqI) (auto simp: bit_simps dest: bit_imp_le_length lo)
  moreover have "(ucast (push_bit 8 (read_number bs) OR ucast b :: u64) :: u8) = b"
    by (rule bit_word_eqI) (auto simp: bit_simps)
  ultimately show ?case using snoc by (simp add: read_number_snoc)
qed

section \<open>Properties\<close>

definition request_ok :: "TKACRequest \<Rightarrow> bool" where
  "request_ok r \<longleftrightarrow> request_valid r \<and> length (rq_challenge r) = 32 \<and> length (rq_identifier r) = 16"

lemma length_request_bytes: "request_ok r \<Longrightarrow> length (request_bytes r) = 96"
  by (simp add: request_ok_def request_bytes_def tkac_header_def)

lemma read_word: "(ucast (take_bit 32 (ucast (w :: u32) :: u64)) :: u32) = w"
  by (rule bit_word_eqI) (auto simp: bit_simps dest: bit_imp_le_length)

lemma read_long: "take_bit 64 (w :: u64) = w"
  by (rule bit_word_eqI) (auto simp: bit_simps dest: bit_imp_le_length)

lemma staged_request_bytes:
  assumes "request_ok r"
  shows "staged_request (request_bytes r) = r" and "slice_at (request_bytes r) 0 8 = tkac_header"
proof -
  have len: "length tkac_header = 8" by (simp add: tkac_header_def)
  show "staged_request (request_bytes r) = r"
    using assms by (cases r) (simp add: request_ok_def staged_request_def request_bytes_def slice_at_def len read_write_number read_word read_long)
  show "slice_at (request_bytes r) 0 8 = tkac_header" by (simp add: slice_at_def request_bytes_def len)
qed

lemma slices:
  assumes "length bs = 96"
  shows "bs = slice_at bs 0 8 @ slice_at bs 8 4 @ slice_at bs 12 4 @ slice_at bs 16 8 @ slice_at bs 24 8 @ slice_at bs 32 8 @
    slice_at bs 40 8 @ slice_at bs 48 32 @ slice_at bs 80 16"
proof -
  have step: "drop i bs = slice_at bs i n @ drop (i + n) bs" for i n
    by (simp add: slice_at_def) (metis append_take_drop_id drop_drop add.commute)
  have "bs = drop 0 bs" by simp
  also have "\<dots> = slice_at bs 0 8 @ slice_at bs 8 4 @ slice_at bs 12 4 @ slice_at bs 16 8 @ slice_at bs 24 8 @ slice_at bs 32 8 @
    slice_at bs 40 8 @ slice_at bs 48 32 @ slice_at bs 80 16 @ drop 96 bs"
    using step [of 0 8] step [of 8 4] step [of 12 4] step [of 16 8] step [of 24 8] step [of 32 8] step [of 40 8] step [of 48 32]
      step [of 80 16] by simp
  finally show ?thesis using assms by simp
qed

lemma length_slice: "i + n \<le> length bs \<Longrightarrow> length (slice_at bs i n) = n"
  by (simp add: slice_at_def)

lemma write_word:
  assumes "length bs = 4"
  shows "write_number 4 (ucast (ucast (read_number bs) :: u32)) = bs"
proof -
  have w: "write_number 4 (read_number bs) = bs" using write_read_number [of bs] assms by simp
  have "read_number bs = take_bit 32 (read_number bs)" using read_write_number [of 4 "read_number bs"] w by simp
  then have "k < 32" if "bit (read_number bs) k" for k using that by (metis bit_take_bit_iff)
  then have "ucast (ucast (read_number bs) :: u32) = read_number bs"
    by (intro bit_word_eqI) (auto simp: bit_simps)
  with w show ?thesis by simp
qed

lemma request_bytes_staged:
  assumes "length bs = 96" and "slice_at bs 0 8 = tkac_header"
  shows "request_bytes (staged_request bs) = bs"
proof -
  have l: "length (slice_at bs 8 4) = 4" "length (slice_at bs 12 4) = 4" "length (slice_at bs 16 8) = 8"
      "length (slice_at bs 24 8) = 8" "length (slice_at bs 32 8) = 8" "length (slice_at bs 40 8) = 8"
      "length (slice_at bs 48 32) = 32" "length (slice_at bs 80 16) = 16"
    using assms(1) by (simp_all add: length_slice)
  have w: "write_number 8 (read_number (slice_at bs i 8)) = slice_at bs i 8" if "length (slice_at bs i 8) = 8" for i
    using write_read_number [of "slice_at bs i 8"] that by simp
  show ?thesis
    using slices [OF assms(1)] assms(2) l w by (simp add: request_bytes_def staged_request_def write_word)
qed

text \<open>C29. Requests survive the wire: decoding what was encoded gives the request back, and every message the
  decoder accepts is the encoding of the request it returns, so no two messages mean the same request.\<close>

theorem tkac_roundtrip:
  "(request_ok r \<and> length out = 96 \<longrightarrow> (\<exists>bs. tkac_encode (Some r) (Some out) 96 = Some bs \<and> tkac_decode (Some bs) 96 True = Some r)) \<and>
   (length bs = 96 \<and> tkac_decode (Some bs) 96 True = Some r' \<longrightarrow> request_ok r' \<and> tkac_encode (Some r') (Some bs) 96 = Some bs)"
proof (intro conjI impI)
  assume "request_ok r \<and> length out = 96"
  then have ok: "request_ok r" and out: "length out = 96" by simp_all
  have "tkac_encode (Some r) (Some out) 96 = Some (request_bytes r)"
    using ok out length_request_bytes [OF ok] by (simp add: tkac_encode_def request_ok_def buffer_write_def)
  moreover have "tkac_decode (Some (request_bytes r)) 96 True = Some r"
    using ok staged_request_bytes [OF ok] by (simp add: tkac_decode_def request_ok_def)
  ultimately show "\<exists>bs. tkac_encode (Some r) (Some out) 96 = Some bs \<and> tkac_decode (Some bs) 96 True = Some r" by blast
next
  assume a: "length bs = 96 \<and> tkac_decode (Some bs) 96 True = Some r'"
  then have h: "slice_at bs 0 8 = tkac_header" "r' = staged_request bs" "request_valid r'"
    by (auto simp: tkac_decode_def Let_def split: if_splits)
  then show ok: "request_ok r'" using a by (simp add: request_ok_def staged_request_def length_slice)
  show "tkac_encode (Some r') (Some bs) 96 = Some bs"
    using a h request_bytes_staged [of bs] by (simp add: tkac_encode_def buffer_write_def)
qed

definition sample_request :: TKACRequest where
  "sample_request = \<lparr>rq_pid = 7, rq_uid = 501, rq_address = 0x100000000, rq_size = 0x4000, rq_challenge_address = 0x200000000,
     rq_deadline_ms = 9, rq_challenge = replicate 32 1, rq_identifier = replicate 16 2\<rparr>"

lemma sample_request_ok: "request_ok sample_request"
  by code_simp

theorem tkac_roundtrip_witness:
  "\<exists>bs. tkac_encode (Some sample_request) (Some (replicate 96 0)) 96 = Some bs \<and> tkac_decode (Some bs) 96 True = Some sample_request"
  using tkac_roundtrip [of sample_request "replicate 96 0"] sample_request_ok by simp

lemma decoded_split:
  assumes "length q = 96" and "tkac_decode (Some q) 96 True \<noteq> None"
  obtains rest where "q = tkac_header @ rest" and "length rest = 88" and "slice_at q 8 88 = rest"
proof -
  have "take 8 q = tkac_header" using assms(2) by (auto simp: tkac_decode_def slice_at_def split: if_splits)
  then have "q = tkac_header @ drop 8 q" by (metis append_take_drop_id)
  then show ?thesis using assms(1) by (intro that [of "drop 8 q"]) (simp_all add: slice_at_def)
qed

text \<open>A provider's reply is accepted for the request it answers, with the outcome it carries, and for no
  other request.\<close>

theorem tkac_reply_matches:
  assumes q: "length q = 96" "tkac_decode (Some q) 96 True \<noteq> None" and o: "1 \<le> outcome" "outcome \<le> 5" and out: "length out = 96"
  shows "\<exists>rep. tkac_reply (Some q) 96 outcome (Some out) 96 = Some rep \<and> length rep = 96 \<and>
    tkac_match (Some q) 96 (Some rep) 96 True = Some (word_of_int outcome) \<and>
    (\<forall>q'. length q' = 96 \<longrightarrow> tkac_match (Some q') 96 (Some rep) 96 True \<noteq> None \<longrightarrow> q' = q)"
proof -
  obtain rest where r: "q = tkac_header @ rest" "length rest = 88" "slice_at q 8 88 = rest" by (rule decoded_split [OF q])
  define rep where "rep = [0x54, 0x4b, 0x41, 0x52, 1, 2, word_of_int outcome, 0] @ rest"
  have "tkac_reply (Some q) 96 outcome (Some out) 96 = Some rep"
    using q(2) o out r(1,2) by (simp add: tkac_reply_def buffer_write_def tkac_header_def rep_def eval_nat_numeral)
  moreover have "outcome = 1 \<or> outcome = 2 \<or> outcome = 3 \<or> outcome = 4 \<or> outcome = 5" using o by presburger
  then have v: "\<not> (word_of_int outcome :: u8) < 1" "\<not> (word_of_int outcome :: u8) > 5" by (elim disjE; simp)+
  have parts: "slice_at rep 0 6 = [0x54, 0x4b, 0x41, 0x52, 1, 2]" "rep ! 7 = 0" "rep ! 6 = word_of_int outcome" "slice_at rep 8 88 = rest"
    using r(2) by (simp_all add: rep_def slice_at_def eval_nat_numeral)
  then have "tkac_match (Some q) 96 (Some rep) 96 True = Some (word_of_int outcome)"
    using q(2) v r(3) by (simp add: tkac_match_def)
  moreover have "q' = q" if q': "length q' = 96" and m: "tkac_match (Some q') 96 (Some rep) 96 True \<noteq> None" for q'
  proof -
    have "tkac_decode (Some q') 96 True \<noteq> None" and s: "slice_at q' 8 88 = slice_at rep 8 88"
      using m by (auto simp: tkac_match_def split: if_splits)
    then obtain rest' where "q' = tkac_header @ rest'" "slice_at q' 8 88 = rest'" by (metis decoded_split [OF q'])
    then show ?thesis using s parts(4) r(1) by simp
  qed
  moreover have "length rep = 96" using r(2) by (simp add: rep_def)
  ultimately show ?thesis by blast
qed

theorem tkac_reply_matches_witness:
  "\<exists>rep. tkac_match (Some (request_bytes sample_request)) 96 (Some rep) 96 True = Some 5"
proof -
  have "tkac_decode (Some (request_bytes sample_request)) 96 True \<noteq> None"
    using sample_request_ok staged_request_bytes [OF sample_request_ok] by (simp add: tkac_decode_def request_ok_def)
  from tkac_reply_matches [OF length_request_bytes [OF sample_request_ok] this, of 5 "replicate 96 0"] show ?thesis by auto
qed

end
