(* ===== verification/CodeArena.thy ===== *)
theory CodeArena
  imports GuestSoftwareIO
begin

text \<open>
  Executable memory, \<open>runtime/NativeCodeMemory.c\<close> and the policy of \<open>runtime/DebuggerArena.c\<close>: an arena has an executable
  view and a writable alias of the same pages. It is made here and prepared by a helper, or adopted from a
  debugger. When the helper's answer is uncertain both views are kept in quarantine for good.

  The kernel is a record of functions over an arbitrary state; the calls that acquire, release or protect a
  mapping are also kept in a list. The page size is a field of the record. Logging is left out.
\<close>

section \<open>Host\<close>

datatype arena_call = Mapped u64 u64 | Aliased u64 u64 | Enabled u64 u64 | Unmapped u64 u64 | Deallocated u64 u64

record NativeCodeMemory =
  nc_executable :: u64
  nc_writable :: u64
  nc_size :: u64
  nc_published :: bool
  nc_quarantined :: bool

abbreviation (input) NC_MAX_ARENA :: u64 where "NC_MAX_ARENA \<equiv> 1024 * 1024 * 1024"
abbreviation (input) EPERM :: u32 where "EPERM \<equiv> 1"
abbreviation (input) EINPROGRESS :: u32 where "EINPROGRESS \<equiv> 36"

datatype NCPreparation = NC_REJECTED | NC_PREPARED | NC_UNCERTAIN

text \<open>\<open>vm_remap\<close> fails for want of space or for another reason.\<close>

record 'k ArenaHost =
  ah_page :: u64
  ah_available :: u64
  ah_mmap :: "'k \<Rightarrow> u64 \<Rightarrow> (u32 + u64) \<times> 'k"
  ah_remap :: "'k \<Rightarrow> u64 \<Rightarrow> u64 \<Rightarrow> (bool + u64) \<times> 'k"
  ah_mprotect :: "'k \<Rightarrow> u64 \<Rightarrow> u64 \<Rightarrow> u32 option \<times> 'k"
  ah_munmap :: "'k \<Rightarrow> u64 \<Rightarrow> u64 \<Rightarrow> u32 option \<times> 'k"
  ah_deallocate :: "'k \<Rightarrow> u64 \<Rightarrow> u64 \<Rightarrow> 'k"
  ah_executable :: "'k \<Rightarrow> u64 \<Rightarrow> bool"
  ah_attached :: "'k \<Rightarrow> bool"
  ah_detach :: "'k \<Rightarrow> 'k"

record 'k ArenaState =
  as_kernel :: 'k
  as_errno :: u32
  as_calls :: "arena_call list"

definition empty_arena :: NativeCodeMemory where
  "empty_arena = \<lparr>nc_executable = 0, nc_writable = 0, nc_size = 0, nc_published = False, nc_quarantined = False\<rparr>"

definition arena_munmap :: "'k ArenaHost \<Rightarrow> u64 \<Rightarrow> u64 \<Rightarrow> 'k ArenaState \<Rightarrow> bool \<times> 'k ArenaState" where
  "arena_munmap h a n st =
     (let (e, k) = ah_munmap h (as_kernel st) a n; st = st\<lparr>as_kernel := k, as_calls := as_calls st @ [Unmapped a n]\<rparr>
      in case e of None \<Rightarrow> (True, st) | Some e \<Rightarrow> (False, st\<lparr>as_errno := e\<rparr>))"

definition arena_deallocate :: "'k ArenaHost \<Rightarrow> u64 \<Rightarrow> u64 \<Rightarrow> 'k ArenaState \<Rightarrow> 'k ArenaState" where
  "arena_deallocate h a n st = st\<lparr>as_kernel := ah_deallocate h (as_kernel st) a n, as_calls := as_calls st @ [Deallocated a n]\<rparr>"

definition arena_mmap :: "'k ArenaHost \<Rightarrow> u64 \<Rightarrow> 'k ArenaState \<Rightarrow> u64 option \<times> 'k ArenaState" where
  "arena_mmap h n st =
     (let (r, k) = ah_mmap h (as_kernel st) n; st = st\<lparr>as_kernel := k\<rparr>
      in case r of Inl e \<Rightarrow> (None, st\<lparr>as_errno := e\<rparr>) | Inr a \<Rightarrow> (Some a, st\<lparr>as_calls := as_calls st @ [Mapped a n]\<rparr>))"

definition arena_remap :: "'k ArenaHost \<Rightarrow> u64 \<Rightarrow> u64 \<Rightarrow> 'k ArenaState \<Rightarrow> (bool + u64) \<times> 'k ArenaState" where
  "arena_remap h a n st =
     (let (r, k) = ah_remap h (as_kernel st) a n; st = st\<lparr>as_kernel := k\<rparr>
      in (r, case r of Inl _ \<Rightarrow> st | Inr b \<Rightarrow> st\<lparr>as_calls := as_calls st @ [Aliased b n]\<rparr>))"

definition arena_mprotect :: "'k ArenaHost \<Rightarrow> u64 \<Rightarrow> u64 \<Rightarrow> 'k ArenaState \<Rightarrow> bool \<times> 'k ArenaState" where
  "arena_mprotect h a n st =
     (let (e, k) = ah_mprotect h (as_kernel st) a n; st = st\<lparr>as_kernel := k\<rparr>
      in case e of None \<Rightarrow> (True, st\<lparr>as_calls := as_calls st @ [Enabled a n]\<rparr>) | Some e \<Rightarrow> (False, st\<lparr>as_errno := e\<rparr>))"

section \<open>Limits\<close>

definition nc_available_memory :: "'k ArenaHost \<Rightarrow> u64" where
  "nc_available_memory h = ah_available h"

definition nc_launch_limit :: "'k ArenaHost \<Rightarrow> u64" where
  "nc_launch_limit h =
     (let available = nc_available_memory h;
          limit = (if available \<noteq> 0 \<and> available < NC_MAX_ARENA then available else NC_MAX_ARENA)
      in limit - limit mod ah_page h)"

definition nc_arena_limit :: "'k ArenaHost \<Rightarrow> u64" where
  "nc_arena_limit h =
     (let available = nc_available_memory h;
          limit = (if available \<noteq> 0 \<and> available div 4 < NC_MAX_ARENA then available div 4 else NC_MAX_ARENA)
      in limit - limit mod ah_page h)"

section \<open>Arenas\<close>

definition nc_destroy :: "'k ArenaHost \<Rightarrow> NativeCodeMemory \<Rightarrow> 'k ArenaState \<Rightarrow> NativeCodeMemory \<times> 'k ArenaState" where
  "nc_destroy h m st =
     (if nc_quarantined m then (m, st)
      else let st = (if nc_writable m \<noteq> 0 then arena_deallocate h (nc_writable m) (nc_size m) st else st);
               st = (if nc_executable m \<noteq> 0 then snd (arena_munmap h (nc_executable m) (nc_size m) st) else st)
      in (empty_arena, st))"

definition arena_error :: "u32 \<Rightarrow> 'k ArenaState \<Rightarrow> 'k ArenaState" where
  "arena_error e st = st\<lparr>as_errno := e\<rparr>"

definition vacant :: "NativeCodeMemory \<Rightarrow> bool" where
  "vacant m \<longleftrightarrow> nc_size m = 0 \<and> nc_executable m = 0 \<and> nc_writable m = 0"

text \<open>
  \<open>memory\<close> and \<open>quarantine\<close> are \<open>None\<close> for null pointers, \<open>same\<close> says that they are one object, \<open>prep\<close> is the preparation callback
  over the kernel's state, \<open>None\<close> for a null pointer. The result is success and the two objects.
\<close>

definition nc_create_managed ::
  "'k ArenaHost \<Rightarrow> NativeCodeMemory option \<Rightarrow> u64 \<Rightarrow> (u64 \<Rightarrow> u64 \<Rightarrow> 'k \<Rightarrow> NCPreparation \<times> 'k) option \<Rightarrow> NativeCodeMemory option \<Rightarrow> bool \<Rightarrow>
     'k ArenaState \<Rightarrow> bool \<times> NativeCodeMemory option \<times> NativeCodeMemory option \<times> 'k ArenaState" where
  "nc_create_managed h memory n prep quarantine same st =
     (if memory = None \<or> quarantine = None \<or> same \<or> \<not> vacant (the memory) \<or> \<not> vacant (the quarantine) \<or> n = 0 \<or>
         n mod ah_page h \<noteq> 0 \<or> n > NC_MAX_ARENA \<or> prep = None
      then (False, memory, quarantine, arena_error EINVAL st)
      else case arena_mmap h n st of
        (None, st) \<Rightarrow> (False, memory, quarantine, st)
      | (Some a, st) \<Rightarrow>
          let staged = empty_arena\<lparr>nc_size := n, nc_executable := a\<rparr>
          in case arena_remap h a n st of
               (Inl full, st) \<Rightarrow>
                 let (_, st) = nc_destroy h staged st
                 in (False, memory, quarantine, arena_error (if full then ENOMEM else EACCES) st)
             | (Inr b, st) \<Rightarrow>
                 let staged = staged\<lparr>nc_writable := b\<rparr>; (outcome, k) = the prep a n (as_kernel st); st = st\<lparr>as_kernel := k\<rparr>
                 in if outcome \<noteq> NC_PREPARED \<and> outcome \<noteq> NC_REJECTED
                    then (False, memory, Some (staged\<lparr>nc_quarantined := True\<rparr>), arena_error EINPROGRESS st)
                    else if outcome = NC_REJECTED
                    then let (_, st) = nc_destroy h staged st in (False, memory, quarantine, arena_error EPERM st)
                    else case arena_mprotect h b n st of
                           (False, st) \<Rightarrow>
                             let saved = as_errno st; (_, st) = nc_destroy h staged st
                             in (False, memory, quarantine, arena_error saved st)
                         | (True, st) \<Rightarrow> (True, Some (staged\<lparr>nc_published := True\<rparr>), quarantine, st))"

definition nc_adopt ::
  "'k ArenaHost \<Rightarrow> NativeCodeMemory option \<Rightarrow> u64 \<Rightarrow> u64 \<Rightarrow> 'k ArenaState \<Rightarrow> bool \<times> NativeCodeMemory option \<times> 'k ArenaState" where
  "nc_adopt h memory a n st =
     (if memory = None \<or> \<not> vacant (the memory) \<or> a = 0 \<or> n = 0 \<or> n mod ah_page h \<noteq> 0 \<or> n > NC_MAX_ARENA \<or> a mod ah_page h \<noteq> 0
      then (False, memory, arena_error EINVAL st)
      else case arena_remap h a n st of
        (Inl full, st) \<Rightarrow> (False, memory, arena_error (if full then ENOMEM else EACCES) st)
      | (Inr b, st) \<Rightarrow>
          (case arena_mprotect h b n st of
             (False, st) \<Rightarrow> let saved = as_errno st in (False, memory, arena_error saved (arena_deallocate h b n st))
           | (True, st) \<Rightarrow>
               (True, Some \<lparr>nc_executable = a, nc_writable = b, nc_size = n, nc_published = True, nc_quarantined = False\<rparr>, st)))"

text \<open>The publisher of \<open>nc_create\<close> answers yes or no.\<close>

definition legacy_prepare :: "(u64 \<Rightarrow> u64 \<Rightarrow> 'k \<Rightarrow> bool \<times> 'k) \<Rightarrow> u64 \<Rightarrow> u64 \<Rightarrow> 'k \<Rightarrow> NCPreparation \<times> 'k" where
  "legacy_prepare publish a n k = (let (ok, k) = publish a n k in (if ok then NC_PREPARED else NC_REJECTED, k))"

definition nc_create ::
  "'k ArenaHost \<Rightarrow> NativeCodeMemory option \<Rightarrow> u64 \<Rightarrow> (u64 \<Rightarrow> u64 \<Rightarrow> 'k \<Rightarrow> bool \<times> 'k) option \<Rightarrow> 'k ArenaState \<Rightarrow>
     bool \<times> NativeCodeMemory option \<times> 'k ArenaState" where
  "nc_create h memory n publish st =
     (case publish of
        None \<Rightarrow> (False, memory, arena_error EINVAL st)
      | Some f \<Rightarrow>
          let (ok, memory, _, st) = nc_create_managed h memory n (Some (legacy_prepare f)) (Some empty_arena) False st
          in (ok, memory, st))"

text \<open>Host memory is a function from addresses to bytes; \<open>bytes\<close> is \<open>None\<close> for a null pointer. Caches are not modelled.\<close>

definition nc_write ::
  "NativeCodeMemory \<Rightarrow> u64 \<Rightarrow> u8 list option \<Rightarrow> u64 \<Rightarrow> (u64 \<Rightarrow> u8) \<Rightarrow> 'k ArenaState \<Rightarrow> bool \<times> (u64 \<Rightarrow> u8) \<times> 'k ArenaState" where
  "nc_write m offset bytes n mem st =
     (if \<not> nc_published m \<or> nc_quarantined m \<or> nc_executable m = 0 \<or> nc_writable m = 0 \<or> bytes = None \<or> offset > nc_size m \<or>
         n > nc_size m - offset
      then (False, mem, arena_error EINVAL st)
      else if n = 0 then (True, mem, st)
      else (True, put_bytes (nc_writable m + offset) (take (unat n) (the bytes)) mem, st))"

section \<open>Debugger\<close>

definition da_plausible_region :: "'k ArenaHost \<Rightarrow> u64 \<Rightarrow> bool" where
  "da_plausible_region h a \<longleftrightarrow>
     \<not> (a = 0 \<or> a = - 1) \<and> \<not> (a = 0x690000e0 \<or> a = 0xcccccccc690000e0) \<and> a AND (ah_page h - 1) = 0"

definition da_detached :: "'k ArenaHost \<Rightarrow> 'k ArenaState \<Rightarrow> bool \<times> 'k ArenaState" where
  "da_detached h st =
     (if \<not> ah_attached h (as_kernel st) then (True, st)
      else let st = st\<lparr>as_kernel := ah_detach h (as_kernel st)\<rparr> in (\<not> ah_attached h (as_kernel st), st))"

definition da_adopt_region ::
  "'k ArenaHost \<Rightarrow> NativeCodeMemory option \<Rightarrow> u64 \<Rightarrow> u64 \<Rightarrow> 'k ArenaState \<Rightarrow> bool \<times> NativeCodeMemory option \<times> 'k ArenaState" where
  "da_adopt_region h memory region n st =
     (case nc_adopt h memory region n st of
        (True, memory, st) \<Rightarrow> (True, memory, st)
      | (False, memory, st) \<Rightarrow>
          let page = ah_page h
          in if region \<noteq> 0 \<and> region mod page = 0 \<and> n \<noteq> 0 \<and> n mod page = 0 \<and> n \<le> NC_MAX_ARENA
             then let (_, st) = arena_munmap h region n st in (False, memory, st)
             else (False, memory, st))"

text \<open>The attempts to get a region; \<open>ask\<close> is the trap the debugger answers.\<close>

primrec request_loop :: "nat \<Rightarrow> 'k ArenaHost \<Rightarrow> (u64 \<Rightarrow> 'k \<Rightarrow> u64 \<times> 'k) \<Rightarrow> u64 \<Rightarrow> 'k ArenaState \<Rightarrow> u64 option \<times> 'k ArenaState" where
  "request_loop 0 h ask n st = (None, st)"
| "request_loop (Suc attempts) h ask n st =
     (let (candidate, k) = ask n (as_kernel st); st = st\<lparr>as_kernel := k\<rparr>
      in if da_plausible_region h candidate then (Some candidate, st) else request_loop attempts h ask n st)"

text \<open>As on a device with the breakpoint protocol; elsewhere the request fails at once.\<close>

definition da_request_arena ::
  "'k ArenaHost \<Rightarrow> (u64 \<Rightarrow> 'k \<Rightarrow> u64 \<times> 'k) \<Rightarrow> NativeCodeMemory option \<Rightarrow> u64 \<Rightarrow> 'k ArenaState \<Rightarrow>
     bool \<times> NativeCodeMemory option \<times> 'k ArenaState" where
  "da_request_arena h ask memory n st =
     (if \<not> ah_attached h (as_kernel st) then (False, memory, st)
      else case request_loop 3 h ask n st of
        (None, st) \<Rightarrow> (False, memory, st)
      | (Some a, st) \<Rightarrow> da_adopt_region h memory a n st)"

definition da_release_debugger :: "'k ArenaHost \<Rightarrow> NativeCodeMemory option \<Rightarrow> 'k ArenaState \<Rightarrow> bool \<times> 'k ArenaState" where
  "da_release_debugger h memory st =
     (if memory = None \<or> nc_executable (the memory) = 0 then (False, st)
      else let (_, st) = da_detached h st in (ah_executable h (as_kernel st) (nc_executable (the memory)), st))"

definition da_entry_allowed :: "'k ArenaHost \<Rightarrow> NativeCodeMemory option \<Rightarrow> 'k ArenaState \<Rightarrow> bool \<times> 'k ArenaState" where
  "da_entry_allowed h memory st =
     (if memory = None \<or> nc_executable (the memory) = 0 then (False, st)
      else case da_detached h st of
        (False, st) \<Rightarrow> (False, st)
      | (True, st) \<Rightarrow> (ah_executable h (as_kernel st) (nc_executable (the memory)), st))"

section \<open>Ownership\<close>

text \<open>The mappings a list of calls acquired and released.\<close>

definition acquired :: "arena_call list \<Rightarrow> (u64 \<times> u64) list" where
  "acquired cs = concat (map (\<lambda>c. case c of Mapped a n \<Rightarrow> [(a, n)] | Aliased a n \<Rightarrow> [(a, n)] | _ \<Rightarrow> []) cs)"

definition released :: "arena_call list \<Rightarrow> (u64 \<times> u64) list" where
  "released cs = concat (map (\<lambda>c. case c of Unmapped a n \<Rightarrow> [(a, n)] | Deallocated a n \<Rightarrow> [(a, n)] | _ \<Rightarrow> []) cs)"

definition enabled_views :: "arena_call list \<Rightarrow> (u64 \<times> u64) list" where
  "enabled_views cs = concat (map (\<lambda>c. case c of Enabled a n \<Rightarrow> [(a, n)] | _ \<Rightarrow> []) cs)"

lemmas ledger_defs = acquired_def released_def enabled_views_def

text \<open>A kernel that never places a mapping at the null address.\<close>

definition kernel_places :: "'k ArenaHost \<Rightarrow> bool" where
  "kernel_places h \<longleftrightarrow> (\<forall>k n k'. ah_mmap h k n \<noteq> (Inr 0, k')) \<and> (\<forall>k a n k'. ah_remap h k a n \<noteq> (Inr 0, k'))"

lemma arena_calls:
  "arena_mmap h n st = (Some a, st') \<Longrightarrow> kernel_places h \<Longrightarrow> a \<noteq> 0 \<and> as_calls st' = as_calls st @ [Mapped a n]"
  "arena_mmap h n st = (None, st') \<Longrightarrow> as_calls st' = as_calls st"
  "arena_remap h a n st = (Inr b, st') \<Longrightarrow> kernel_places h \<Longrightarrow> b \<noteq> 0 \<and> as_calls st' = as_calls st @ [Aliased b n]"
  "arena_remap h a n st = (Inl full, st') \<Longrightarrow> as_calls st' = as_calls st"
  "arena_mprotect h b n st = (True, st') \<Longrightarrow> as_calls st' = as_calls st @ [Enabled b n]"
  "arena_mprotect h b n st = (False, st') \<Longrightarrow> as_calls st' = as_calls st"
  "as_calls (arena_error e st) = as_calls st"
  by (auto simp: arena_mmap_def arena_remap_def arena_mprotect_def arena_error_def kernel_places_def Let_def
      split: prod.splits sum.splits option.splits)

lemma nc_destroy_calls:
  assumes "\<not> nc_quarantined m" and "nc_executable m \<noteq> 0" and "nc_destroy h m st = (m', st')"
  shows "as_calls st' = as_calls st @ (if nc_writable m \<noteq> 0 then [Deallocated (nc_writable m) (nc_size m)] else []) @
    [Unmapped (nc_executable m) (nc_size m)]"
  using assms by (auto simp: nc_destroy_def arena_deallocate_def arena_munmap_def Let_def split: prod.splits option.splits)


definition arena_host :: "unit ArenaHost" where
  "arena_host = \<lparr>ah_page = 0x4000, ah_available = 0, ah_mmap = (\<lambda>_ _. (Inr 0x100000, ())), ah_remap = (\<lambda>_ _ _. (Inr 0x200000, ())),
     ah_mprotect = (\<lambda>_ _ _. (None, ())), ah_munmap = (\<lambda>_ _ _. (None, ())), ah_deallocate = (\<lambda>_ _ _. ()),
     ah_executable = (\<lambda>_ _. True), ah_attached = (\<lambda>_. False), ah_detach = (\<lambda>_. ())\<rparr>"


text \<open>Guest code is entered only when nothing is attached any more and the arena is executable.\<close>

lemma da_entry_allowed_safe:
  assumes "da_entry_allowed h memory st = (True, st')"
  shows "\<exists>m. memory = Some m \<and> \<not> ah_attached h (as_kernel st') \<and> ah_executable h (as_kernel st') (nc_executable m)"
  using assms by (cases memory) (auto simp: da_entry_allowed_def da_detached_def Let_def split: if_splits bool.splits)

text \<open>The limits are whole pages within the ceiling.\<close>

lemma limit_le:
  assumes "(l :: u64) \<le> m"
  shows "l - l mod p \<le> m"
proof -
  have "unat (l mod p) \<le> unat l" by (simp add: unat_mod)
  then show ?thesis using assms by (simp add: word_nat unat_sub)
qed

lemma nc_limits: "nc_launch_limit h \<le> NC_MAX_ARENA" "nc_arena_limit h \<le> NC_MAX_ARENA"
  unfolding nc_launch_limit_def nc_arena_limit_def Let_def by (rule limit_le, auto)+

end
