(* ===== verification/SignedImage.thy ===== *)
theory SignedImage
  imports GuestImage
begin

text \<open>
  The container of locally signed pages, \<open>runtime/SignedImage.c\<close>: a signed library whose \<open>__TEXT\<close> segment holds a copy of
  the application's final code. The section with the copy is found from the library's load
  commands, bound to the staged application by its header, and compared with the staged pages to find the
  range the application rewrites when it unpacks itself.

  The mapped library is a function from addresses to bytes. A failure is the message, without the
  values printed into it. The file format's structures are those of \<open>GuestImage\<close>.
\<close>

section \<open>Finding the image\<close>

record SIImage =
  si_bytes :: u64
  si_size :: u64

definition container_bytes :: "(u64 \<Rightarrow> u8) \<Rightarrow> u64 \<Rightarrow> nat \<Rightarrow> u8 list" where
  "container_bytes mem a n = map (\<lambda>i. mem (a + of_nat i)) [0..<n]"

text \<open>The sections of \<open>__TEXT\<close> from index \<open>j\<close> on; \<open>at\<close> is the address of the first one.\<close>

primrec marked_loop ::
  "nat \<Rightarrow> (u64 \<Rightarrow> u8) \<Rightarrow> u64 \<Rightarrow> u64 \<Rightarrow> u64 \<Rightarrow> SegmentCommand \<Rightarrow> nat \<Rightarrow> SectionHeader option \<Rightarrow> string + SectionHeader option" where
  "marked_loop 0 mem header v1 at s j found = Inr found"
| "marked_loop (Suc left) mem header v1 at s j found =
     (let candidate = section_header (container_bytes mem (at + of_nat j * 80) 80)
      in if sh_size candidate = 0 \<or> header + (sh_addr candidate - sc_vmaddr s) \<noteq> v1
         then marked_loop left mem header v1 at s (Suc j) found
         else if found \<noteq> None then Inl ''two container sections start at the marker''
         else marked_loop left mem header v1 at s (Suc j) (Some candidate))"

text \<open>One load command, at \<open>cursor\<close>; the result is its size and what was found so far.\<close>

definition container_command ::
  "(u64 \<Rightarrow> u8) \<Rightarrow> u64 \<Rightarrow> u64 \<Rightarrow> u64 \<Rightarrow> u64 \<Rightarrow> SegmentCommand option \<times> SectionHeader option \<Rightarrow>
     string + (u32 \<times> SegmentCommand option \<times> SectionHeader option)" where
  "container_command mem header v1 commands_end cursor acc =
     (if \<not> within cursor 8 commands_end then Inl ''container load command lies past sizeofcmds''
      else let lc = container_bytes mem (header + cursor) 8; cmd = le32 lc 0; cmdsize = le32 lc 4
      in if cmdsize < 8 \<or> cmdsize AND 7 \<noteq> 0 \<or> \<not> within cursor (ucast cmdsize) commands_end then Inl ''invalid container load command''
         else if cmd \<noteq> 0x19 then Inr (cmdsize, acc)
         else if cmdsize < 72 then Inl ''truncated container segment command''
         else let s = segment_command (container_bytes mem (header + cursor) 72)
         in if (ucast (sc_nsects s) :: u64) > (ucast cmdsize - 72) div 80 then Inl ''container segment sections exceed its command''
            else if sc_name s \<noteq> ''__TEXT'' then Inr (cmdsize, acc)
            else if fst acc \<noteq> None then Inl ''container has more than one __TEXT segment''
            else (case marked_loop (unat (sc_nsects s)) mem header v1 (header + cursor + 72) s 0 (snd acc) of
                    Inl e \<Rightarrow> Inl e
                  | Inr found \<Rightarrow> Inr (cmdsize, Some s, found)))"

primrec container_loop ::
  "nat \<Rightarrow> (u64 \<Rightarrow> u8) \<Rightarrow> u64 \<Rightarrow> u64 \<Rightarrow> u64 \<Rightarrow> u64 \<Rightarrow> SegmentCommand option \<times> SectionHeader option \<Rightarrow>
     string + (u64 \<times> SegmentCommand option \<times> SectionHeader option)" where
  "container_loop 0 mem header v1 commands_end cursor acc = Inr (cursor, acc)"
| "container_loop (Suc left) mem header v1 commands_end cursor acc =
     (case container_command mem header v1 commands_end cursor acc of
        Inl e \<Rightarrow> Inl e
      | Inr (cmdsize, acc) \<Rightarrow> container_loop left mem header v1 commands_end (cursor + ucast cmdsize) acc)"

text \<open>The checks after the loop.\<close>

definition located :: "SegmentCommand \<Rightarrow> SectionHeader \<Rightarrow> u64 \<Rightarrow> string + SIImage" where
  "located text sec v1 =
     (let limit = (if sc_filesize text < sc_vmsize text then sc_filesize text else sc_vmsize text);
          offset = sh_addr sec - sc_vmaddr text
      in if sh_addr sec < sc_vmaddr text \<or> \<not> within offset (sh_size sec) limit
         then Inl ''container section lies outside its __TEXT segment''
         else if offset mod GM_PAGE_SIZE \<noteq> 0 then Inl ''container section is not 16 KiB aligned''
         else if sh_size sec mod GM_PAGE_SIZE \<noteq> 0 then Inl ''container image size is not a whole number of pages''
         else Inr \<lparr>si_bytes = v1, si_size = sh_size sec\<rparr>)"

definition si_locate_image :: "(u64 \<Rightarrow> u8) \<Rightarrow> u64 \<Rightarrow> u64 \<Rightarrow> u64 \<Rightarrow> string + SIImage" where
  "si_locate_image mem header v1 final =
     (if v1 = 0 then Inl ''container lacks the tolkara_container_v1 marker''
      else if final = 0 then Inl ''container lacks the tolkara_container_final marker''
      else if v1 \<noteq> final then Inl ''container markers differ''
      else if header = 0 \<or> header mod GM_PAGE_SIZE \<noteq> 0 then Inl ''container header is not page aligned''
      else let mh = container_bytes mem header 32; ncmds = le32 mh 16; sizeofcmds = le32 mh 20
      in if le32 mh 0 \<noteq> MH_MAGIC_64 \<or> le32 mh 4 \<noteq> CPU_TYPE_ARM64 then Inl ''container is not an arm64 Mach-O''
         else if (ucast sizeofcmds :: u64) > GM_PAGE_SIZE - 32 then Inl ''container load commands exceed one 16 KiB page''
         else let commands_end = 32 + ucast sizeofcmds
         in case container_loop (unat ncmds) mem header v1 commands_end 32 (None, None) of
              Inl e \<Rightarrow> Inl e
            | Inr (cursor, text, found) \<Rightarrow>
                if cursor \<noteq> commands_end then Inl ''container sizeofcmds disagrees with its load commands''
                else (case text of
                        None \<Rightarrow> Inl ''container has no __TEXT segment''
                      | Some text \<Rightarrow>
                          if sc_fileoff text \<noteq> 0 \<or> sc_initprot text AND 7 \<noteq> 5 then Inl ''container __TEXT must map its header read/execute''
                          else (case found of
                                  None \<Rightarrow> Inl ''container marker is not at the start of a __TEXT section''
                                | Some sec \<Rightarrow> located text sec v1)))"

section \<open>Comparing with the application\<close>

text \<open>Staged bytes of a page, zeros for a demand-zero or unstaged one; the loop is that of \<open>lower\<close> in \<open>GuestMemory.c\<close>.\<close>

definition original_page :: "GuestMemory \<Rightarrow> u64 \<Rightarrow> nat \<Rightarrow> u8" where
  "original_page m a =
     (let lo = gm_bisect (gm_pages m) a 0 (length (gm_pages m))
      in if lo < length (gm_pages m) \<and> pg_address (gm_pages m ! lo) = a
         then (case pg_bytes (gm_pages m ! lo) of None \<Rightarrow> (\<lambda>_. 0) | Some b \<Rightarrow> b)
         else (\<lambda>_. 0))"

text \<open>The bytes from \<open>i\<close> to \<open>i + n\<close>, one at a time; \<open>count\<close> and \<open>first\<close> so far.\<close>

primrec mismatch_bytes :: "nat \<Rightarrow> (nat \<Rightarrow> u8) \<Rightarrow> (nat \<Rightarrow> u8) \<Rightarrow> nat \<Rightarrow> nat \<times> nat \<Rightarrow> nat \<times> nat" where
  "mismatch_bytes 0 x y i acc = acc"
| "mismatch_bytes (Suc n) x y i acc =
     mismatch_bytes n x y (Suc i)
       (if x i \<noteq> y i then (fst acc + 1, if fst acc = 0 then i else snd acc) else acc)"

definition same_chunk :: "(nat \<Rightarrow> u8) \<Rightarrow> (nat \<Rightarrow> u8) \<Rightarrow> nat \<Rightarrow> nat \<Rightarrow> bool" where
  "same_chunk x y i n \<longleftrightarrow> list_all (\<lambda>k. x k = y k) [i..<i + n]"

function mismatch_chunks :: "(nat \<Rightarrow> u8) \<Rightarrow> (nat \<Rightarrow> u8) \<Rightarrow> nat \<Rightarrow> nat \<Rightarrow> nat \<times> nat \<Rightarrow> nat \<times> nat" where
  "mismatch_chunks x y whole chunk acc =
     (if chunk < whole
      then let n = (if whole - chunk < 4096 then whole - chunk else 4096)
           in mismatch_chunks x y whole (chunk + 4096) (if same_chunk x y chunk n then acc else mismatch_bytes n x y chunk acc)
      else acc)"
  by pat_completeness auto
termination by (relation "measure (\<lambda>(x, y, whole, chunk, acc). whole - chunk)") auto

declare mismatch_chunks.simps [simp del]

text \<open>The number of differing bytes and the offset of the first.\<close>

definition si_count_mismatches :: "(nat \<Rightarrow> u8) \<Rightarrow> (nat \<Rightarrow> u8) \<Rightarrow> nat \<Rightarrow> nat \<times> nat" where
  "si_count_mismatches x y n = mismatch_chunks x y n 0 (0, n)"

definition image_bytes :: "(u64 \<Rightarrow> u8) \<Rightarrow> SIImage \<Rightarrow> u64 \<Rightarrow> nat \<Rightarrow> u8" where
  "image_bytes mem img offset i = mem (si_bytes img + offset + of_nat i)"

text \<open>The number of executable segments, and the last of them that is \<open>__TEXT\<close>.\<close>

primrec executable_segments :: "GISegment list \<Rightarrow> nat \<times> GISegment option \<Rightarrow> nat \<times> GISegment option" where
  "executable_segments [] acc = acc"
| "executable_segments (s # ss) acc =
     executable_segments ss
       (if gs_prot s AND GM_EXEC = 0 then acc else (fst acc + 1, if gs_name s = ''__TEXT'' then Some s else snd acc))"

definition si_match_guest :: "(u64 \<Rightarrow> u8) \<Rightarrow> SIImage \<Rightarrow> GuestImage \<Rightarrow> string option" where
  "si_match_guest mem img guest =
     (let unsupported = Some ''Local signing supports guests whose only executable segment is __TEXT''
      in case executable_segments (gi_segments guest) (0, None) of
           (_, None) \<Rightarrow> unsupported
         | (executable, Some text) \<Rightarrow>
             if executable \<noteq> 1 \<or> gs_size text = 0 \<or> gs_address text \<noteq> gi_header_address guest \<or>
                gs_address text mod GM_PAGE_SIZE \<noteq> 0 \<or> gs_size text mod GM_PAGE_SIZE \<noteq> 0
             then unsupported
             else if si_size img \<noteq> gs_size text then Some ''container was built for a different executable''
             else let page = original_page (gi_memory guest) (gi_header_address guest);
                      mh = map page [0..<32]; sizeofcmds = le32 mh 20
             in if le32 mh 0 \<noteq> MH_MAGIC_64 then Some ''guest header is not staged at its __TEXT''
                else if (ucast sizeofcmds :: u64) > GM_PAGE_SIZE - 32 then Some ''guest header and load commands exceed one 16 KiB page''
                else if fst (si_count_mismatches page (image_bytes mem img 0) (32 + unat sizeofcmds)) \<noteq> 0
                then Some ''container was built for a different executable: header and load-command bytes differ''
                else None)"

text \<open>The pages from \<open>offset\<close> on; the end of the last one that differs.\<close>

primrec shadow_loop :: "nat \<Rightarrow> (u64 \<Rightarrow> u8) \<Rightarrow> SIImage \<Rightarrow> GuestMemory \<Rightarrow> u64 \<Rightarrow> u64 \<Rightarrow> u64 \<Rightarrow> u64" where
  "shadow_loop 0 mem img m base offset shadow = shadow"
| "shadow_loop (Suc left) mem img m base offset shadow =
     shadow_loop left mem img m base (offset + GM_PAGE_SIZE)
       (if same_chunk (original_page m (base + offset)) (image_bytes mem img offset) 0 16384 then shadow
        else offset + GM_PAGE_SIZE)"

text \<open>The size is a whole number of pages, so the loop runs once for each of them.\<close>

definition si_shadow_size :: "(u64 \<Rightarrow> u8) \<Rightarrow> SIImage \<Rightarrow> GuestImage \<Rightarrow> string + u64" where
  "si_shadow_size mem img guest =
     (let base = gi_header_address guest; n = si_size img
      in if n = 0 \<or> n mod GM_PAGE_SIZE \<noteq> 0 \<or> base mod GM_PAGE_SIZE \<noteq> 0 \<or> n > UINT64_MAX - base then Inl ''invalid guest __TEXT range''
         else let shadow = shadow_loop (unat (n div GM_PAGE_SIZE)) mem img (gi_memory guest) base 0 0;
                  initializer = gi_first_initializer guest - base
         in if gi_initializer_count guest = 0 \<or> gi_first_initializer guest < base \<or> initializer \<ge> n
            then Inl ''the guest's first initializer lies outside __TEXT''
            else if initializer < shadow then Inl ''the unpacking code lies inside the rewritten range''
            else Inr shadow)"

end
