(* ===== verification/SignedImageLaws.thy ===== *)
theory SignedImageLaws
  imports SignedImage
begin

text \<open>
  Correctness of the checks on a container of signed pages: the image is found exactly when the load commands
  name one, counting of mismatches in chunks is counting byte by byte, and a container that passes both
  comparisons holds the staged code outside the range the application rewrites.
\<close>

section \<open>Mismatches\<close>

definition mismatch_summary :: "(nat \<Rightarrow> u8) \<Rightarrow> (nat \<Rightarrow> u8) \<Rightarrow> nat \<Rightarrow> nat \<Rightarrow> nat \<times> nat" where
  "mismatch_summary x y whole i =
     (card {k. k < i \<and> x k \<noteq> y k}, if \<exists>k<i. x k \<noteq> y k then LEAST k. x k \<noteq> y k else whole)"

lemma summary_Suc:
  "mismatch_summary x y w (Suc i) =
     (if x i \<noteq> y i
      then (fst (mismatch_summary x y w i) + 1, if fst (mismatch_summary x y w i) = 0 then i else snd (mismatch_summary x y w i))
      else mismatch_summary x y w i)"
proof (cases "x i = y i")
  case True
  then have "{k. k < Suc i \<and> x k \<noteq> y k} = {k. k < i \<and> x k \<noteq> y k}" "(\<exists>k<Suc i. x k \<noteq> y k) = (\<exists>k<i. x k \<noteq> y k)"
    by (auto simp: less_Suc_eq)
  then show ?thesis using True by (simp add: mismatch_summary_def)
next
  case False
  have set: "{k. k < Suc i \<and> x k \<noteq> y k} = insert i {k. k < i \<and> x k \<noteq> y k}" using False by (auto simp: less_Suc_eq)
  have none: "card {k. k < i \<and> x k \<noteq> y k} = 0 \<longleftrightarrow> \<not> (\<exists>k<i. x k \<noteq> y k)" by auto
  have "(LEAST k. x k \<noteq> y k) = i" if "\<not> (\<exists>k<i. x k \<noteq> y k)"
    using False that by (intro Least_equality) (auto simp: not_less [symmetric])
  then show ?thesis using False set none by (auto simp: mismatch_summary_def)
qed

lemma mismatch_bytes_summary:
  "mismatch_bytes n x y i (mismatch_summary x y w i) = mismatch_summary x y w (i + n)"
proof (induction n arbitrary: i)
  case (Suc n)
  show ?case using Suc [of "Suc i"] by (simp add: summary_Suc)
qed simp

lemma same_chunk_summary:
  "same_chunk x y i n \<Longrightarrow> mismatch_summary x y w (i + n) = mismatch_summary x y w i"
proof (induction n)
  case (Suc n)
  then have "same_chunk x y i n" "x (i + n) = y (i + n)" by (auto simp: same_chunk_def)
  then show ?case using Suc.IH by (simp add: summary_Suc)
qed simp

lemma mismatch_chunks_summary:
  "mismatch_chunks x y w chunk (mismatch_summary x y w (min chunk w)) = mismatch_summary x y w w"
proof (induction "w - chunk" arbitrary: chunk rule: less_induct)
  case less
  define n where "n = (if w - chunk < 4096 then w - chunk else 4096)"
  show ?case
  proof (cases "chunk < w")
    case True
    then have eq: "min chunk w = chunk" "chunk + n = min (chunk + 4096) w" by (auto simp: n_def)
    have "(if same_chunk x y chunk n then mismatch_summary x y w chunk else mismatch_bytes n x y chunk (mismatch_summary x y w chunk)) =
      mismatch_summary x y w (min (chunk + 4096) w)"
      using mismatch_bytes_summary [of n x y chunk w] same_chunk_summary [of x y chunk n w] eq by simp
    moreover have "w - (chunk + 4096) < w - chunk" using True by simp
    note less [OF this]
    ultimately show ?thesis using True eq(1) by (subst mismatch_chunks.simps) (simp add: n_def [symmetric] Let_def split: if_splits)
  next
    case False
    then show ?thesis by (subst mismatch_chunks.simps) simp
  qed
qed

lemma si_count_mismatches_summary: "si_count_mismatches x y n = mismatch_summary x y n n"
  using mismatch_chunks_summary [of x y n 0] by (simp add: si_count_mismatches_def mismatch_summary_def)

section \<open>Pages\<close>

lemma original_page_byte:
  assumes "gm_wf m" and "a mod GM_PAGE_SIZE = 0" and "i < 16384"
  shows "original_page m a i = gm_byte m (a + of_nat i)"
proof -
  have al: "page_aligned a" "unat a mod 16384 = 0" using assms(2) by (simp_all add: page_aligned_def page_aligned_iff [symmetric])
  obtain q where q: "unat a = 16384 * q" using al(2) by (metis mod_0_imp_dvd dvdE)
  have "unat a + i < 2 ^ 64" using q assms(3) unat_u64_less [of a] by simp
  then have u: "unat (a + of_nat i) = unat a + i" using assms(3) by (simp add: unat_word_ariths unat_of_nat)
  have base: "page_base (a + of_nat i) = a" "page_off (a + of_nat i) = i"
    using assms(3) u q by (simp_all add: page_base_eq_iff [OF al(1)] page_off_def)
  have "gm_sorted (gm_pages m)" using assms(1) by (simp add: gm_wf_def)
  then show ?thesis
    using gm_lower_le [of "gm_pages m" a]
    by (auto simp: original_page_def gm_byte_def gm_page_at_def base gm_tab_lower gm_lower_def [symmetric] Let_def page_bytes_def
        split: option.splits)
qed


definition page_differs :: "(u64 \<Rightarrow> u8) \<Rightarrow> SIImage \<Rightarrow> GuestMemory \<Rightarrow> u64 \<Rightarrow> nat \<Rightarrow> bool" where
  "page_differs mem img m base k \<longleftrightarrow>
     \<not> same_chunk (original_page m (base + of_nat k * GM_PAGE_SIZE)) (image_bytes mem img (of_nat k * GM_PAGE_SIZE)) 0 16384"

lemma shadow_loop_last:
  "shadow_loop n mem img m base (of_nat k * GM_PAGE_SIZE) shadow = r \<Longrightarrow>
     r = shadow \<and> (\<forall>j. k \<le> j \<and> j < k + n \<longrightarrow> \<not> page_differs mem img m base j) \<or>
     (\<exists>j. k \<le> j \<and> j < k + n \<and> page_differs mem img m base j \<and> (\<forall>i. j < i \<and> i < k + n \<longrightarrow> \<not> page_differs mem img m base i) \<and>
        r = of_nat (Suc j) * GM_PAGE_SIZE)"
proof (induction n arbitrary: k shadow)
  case (Suc n)
  have off: "of_nat k * GM_PAGE_SIZE + GM_PAGE_SIZE = (of_nat (Suc k) * GM_PAGE_SIZE :: u64)" by (simp add: algebra_simps)
  define s where "s = (if page_differs mem img m base k then of_nat (Suc k) * GM_PAGE_SIZE else shadow)"
  have "shadow_loop n mem img m base (of_nat (Suc k) * GM_PAGE_SIZE) s = r"
    using Suc.prems unfolding s_def page_differs_def off [symmetric] by (auto split: if_splits)
  from Suc.IH [OF this] consider
      (none) "r = s" "\<And>j. k < j \<Longrightarrow> j < k + Suc n \<Longrightarrow> \<not> page_differs mem img m base j"
    | (some) j where "k < j" "j < k + Suc n" "page_differs mem img m base j" "r = of_nat (Suc j) * GM_PAGE_SIZE"
        "\<And>i. j < i \<Longrightarrow> i < k + Suc n \<Longrightarrow> \<not> page_differs mem img m base i"
    by (metis Suc_le_eq add_Suc add_Suc_right)
  then show ?case
  proof cases
    case none
    then show ?thesis by (cases "page_differs mem img m base k") (auto simp: s_def le_less)
  next
    case some
    then show ?thesis by (metis less_imp_le)
  qed
qed auto

lemma page_same_bytes:
  assumes m: "gm_wf m" and base: "base mod GM_PAGE_SIZE = 0" and k: "k < unat n div 16384" and n: "unat base + unat (n :: u64) < 2 ^ 64"
  shows "\<not> page_differs mem img m base k \<longleftrightarrow>
    (\<forall>off :: u64. k * 16384 \<le> unat off \<and> unat off < Suc k * 16384 \<longrightarrow> mem (si_bytes img + off) = gm_byte m (base + off))"
proof -
  let ?b = "of_nat k * GM_PAGE_SIZE :: u64"
  have u: "unat ?b = k * 16384" using k unat_u64_less [of n] by (simp add: unat_word_ariths unat_of_nat)
  have "unat base mod 16384 = 0" using base by (metis page_aligned_def page_aligned_iff)
  have ub: "unat (base + ?b) = unat base + k * 16384" using u k n by (simp add: unat_word_ariths)
  then have al: "(base + ?b) mod GM_PAGE_SIZE = 0"
    using \<open>unat base mod 16384 = 0\<close> by (metis page_aligned_def page_aligned_iff mod_mult_self1)
  have "\<not> page_differs mem img m base k \<longleftrightarrow> (\<forall>i<16384. gm_byte m (base + (?b + of_nat i)) = mem (si_bytes img + (?b + of_nat i)))"
    using original_page_byte [OF m al] by (auto simp: page_differs_def same_chunk_def list_all_iff image_bytes_def add.assoc)
  also have "\<dots> \<longleftrightarrow> (\<forall>off :: u64. k * 16384 \<le> unat off \<and> unat off < Suc k * 16384 \<longrightarrow> mem (si_bytes img + off) = gm_byte m (base + off))"
  proof safe
    fix off :: u64 assume a: "\<forall>i<16384. gm_byte m (base + (?b + of_nat i)) = mem (si_bytes img + (?b + of_nat i))"
      and off: "k * 16384 \<le> unat off" "unat off < Suc k * 16384"
    then have "unat ?b + (unat off - k * 16384) = unat off" using u by simp
    from arg_cong [OF this, of "of_nat :: nat \<Rightarrow> u64"] have "?b + of_nat (unat off - k * 16384) = off" unfolding of_nat_add of_nat_unat by (simp only: ucast_id)
    with a [rule_format, of "unat off - k * 16384"] off show "mem (si_bytes img + off) = gm_byte m (base + off)" by simp
  next
    fix i :: nat assume a: "\<forall>off. k * 16384 \<le> unat off \<and> unat off < Suc k * 16384 \<longrightarrow> mem (si_bytes img + off) = gm_byte m (base + off)"
      and i: "i < 16384"
    have "unat (?b + of_nat i) = k * 16384 + i" using u i k n by (simp add: unat_word_ariths unat_of_nat)
    then show "gm_byte m (base + (?b + of_nat i)) = mem (si_bytes img + (?b + of_nat i))" using a i by simp
  qed
  finally show ?thesis .
qed


lemma shadow_correct:
  assumes m: "gm_wf (gi_memory g)" and eq: "si_shadow_size mem img g = Inr shadow"
  shows "shadow \<le> si_size img" and "shadow mod GM_PAGE_SIZE = 0"
    and "unat (gi_header_address g) + unat (si_size img) < 2 ^ 64"
    and "\<And>off. shadow \<le> off \<Longrightarrow> off < si_size img \<Longrightarrow> mem (si_bytes img + off) = gm_byte (gi_memory g) (gi_header_address g + off)"
    and "shadow \<noteq> 0 \<Longrightarrow> \<exists>off. shadow - GM_PAGE_SIZE \<le> off \<and> off < shadow \<and>
      mem (si_bytes img + off) \<noteq> gm_byte (gi_memory g) (gi_header_address g + off)"
    and "gi_header_address g \<le> gi_first_initializer g" and "shadow \<le> gi_first_initializer g - gi_header_address g"
    and "gi_first_initializer g - gi_header_address g < si_size img"
proof -
  let ?n = "si_size img" and ?b = "gi_header_address g"
  define pages where "pages = unat ?n div 16384"
  have ok: "?n mod GM_PAGE_SIZE = 0" "?b mod GM_PAGE_SIZE = 0" "?n \<le> UINT64_MAX - ?b"
    and loop: "shadow_loop (unat (?n div GM_PAGE_SIZE)) mem img (gi_memory g) ?b 0 0 = shadow"
    and init: "?b \<le> gi_first_initializer g" "gi_first_initializer g - ?b < ?n" "shadow \<le> gi_first_initializer g - ?b"
    using eq by (auto simp: si_shadow_size_def Let_def not_less not_le split: if_splits)
  show fits: "unat ?b + unat ?n < 2 ^ 64" using ok(3) by (simp add: fits_iff)
  have whole: "unat ?n = pages * 16384" using ok(1) by (metis page_aligned_def page_aligned_iff pages_def mod_0_imp_dvd dvd_div_mult_self)
  have last: "shadow = 0 \<and> (\<forall>j<pages. \<not> page_differs mem img (gi_memory g) ?b j) \<or>
     (\<exists>j<pages. page_differs mem img (gi_memory g) ?b j \<and> (\<forall>i. j < i \<and> i < pages \<longrightarrow> \<not> page_differs mem img (gi_memory g) ?b i) \<and>
        shadow = of_nat (Suc j) * GM_PAGE_SIZE)"
    using shadow_loop_last [of pages mem img "gi_memory g" ?b 0 0 shadow] loop by (auto simp: pages_def unat_div)
  note same = page_same_bytes [OF m ok(2) _ fits, folded pages_def]
  obtain q where q: "unat shadow = q * 16384" "q \<le> pages" "\<And>j. q \<le> j \<Longrightarrow> j < pages \<Longrightarrow> \<not> page_differs mem img (gi_memory g) ?b j"
      "q \<noteq> 0 \<Longrightarrow> page_differs mem img (gi_memory g) ?b (q - 1)"
  proof (cases "shadow = 0 \<and> (\<forall>j<pages. \<not> page_differs mem img (gi_memory g) ?b j)")
    case True
    then show ?thesis by (intro that [of 0]) auto
  next
    case False
    then obtain j where j: "j < pages" "page_differs mem img (gi_memory g) ?b j" "shadow = of_nat (Suc j) * GM_PAGE_SIZE"
        "\<forall>i. j < i \<and> i < pages \<longrightarrow> \<not> page_differs mem img (gi_memory g) ?b i" using last by blast
    have "Suc j * 16384 < 2 ^ 64" using j(1) whole unat_u64_less [of ?n] by simp
    then have "unat shadow = Suc j * 16384" unfolding j(3) by (simp add: unat_word_ariths unat_of_nat)
    then show ?thesis using j by (intro that [of "Suc j"]) auto
  qed
  show "shadow \<le> ?n" using q(1,2) whole by (simp add: word_le_nat_alt)
  show "shadow mod GM_PAGE_SIZE = 0" using q(1) by (metis page_aligned_def page_aligned_iff mod_mult_self2_is_0)
  show "mem (si_bytes img + off) = gm_byte (gi_memory g) (?b + off)" if "shadow \<le> off" "off < ?n" for off
  proof -
    let ?k = "unat off div 16384"
    have k: "q \<le> ?k" "?k < pages" using that q(1) whole by (auto simp: word_le_nat_alt word_less_nat_alt less_mult_imp_div_less less_eq_div_iff_mult_less_eq)
    have "?k * 16384 \<le> unat off \<and> unat off < Suc ?k * 16384" using div_mult_mod_eq [of "unat off" 16384] by simp
    with same [OF k(2)] q(3) [OF k] show ?thesis by blast
  qed
  show "\<exists>off. shadow - GM_PAGE_SIZE \<le> off \<and> off < shadow \<and> mem (si_bytes img + off) \<noteq> gm_byte (gi_memory g) (?b + off)" if "shadow \<noteq> 0"
  proof -
    have "q \<noteq> 0" using that q(1) by (metis mult_0 unsigned_eq_0_iff)
    then obtain off :: u64 where off: "(q - 1) * 16384 \<le> unat off" "unat off < Suc (q - 1) * 16384"
        "mem (si_bytes img + off) \<noteq> gm_byte (gi_memory g) (?b + off)"
      using same [of "q - 1" mem img] q(2) q(4) [OF \<open>q \<noteq> 0\<close>] by (metis Suc_diff_1 less_eq_Suc_le neq0_conv)
    moreover have "unat (shadow - GM_PAGE_SIZE) = (q - 1) * 16384"
      using q(1) \<open>q \<noteq> 0\<close> by (subst unat_sub) (auto simp: word_le_nat_alt diff_mult_distrib)
    ultimately show ?thesis using q(1) \<open>q \<noteq> 0\<close> by (auto simp: word_le_nat_alt word_less_nat_alt)
  qed
  show "?b \<le> gi_first_initializer g" "shadow \<le> gi_first_initializer g - ?b" "gi_first_initializer g - ?b < ?n" using init by blast+
qed


section \<open>Binding\<close>

abbreviation executable_segment :: "GISegment \<Rightarrow> bool" where
  "executable_segment s \<equiv> gs_prot s AND GM_EXEC \<noteq> 0"

lemma executable_segments_filter:
  "executable_segments ss (c, t) =
     (c + length (filter executable_segment ss),
      case filter (\<lambda>s. executable_segment s \<and> gs_name s = ''__TEXT'') ss of [] \<Rightarrow> t | xs \<Rightarrow> Some (last xs))"
  by (induction ss arbitrary: c t) (auto split: list.splits)

text \<open>The size of the header and the load commands staged at an address.\<close>

definition header_size :: "GuestMemory \<Rightarrow> u64 \<Rightarrow> nat" where
  "header_size m a = 32 + unat (le32 (map (\<lambda>i. gm_byte m (a + of_nat i)) [0..<32]) 20)"

lemma match_correct:
  assumes m: "gm_wf (gi_memory g)" and eq: "si_match_guest mem img g = None"
  shows "\<exists>seg. filter executable_segment (gi_segments g) = [seg] \<and> gs_name seg = ''__TEXT'' \<and>
      gs_address seg = gi_header_address g \<and> gs_size seg = si_size img" (is ?A)
    and "i < header_size (gi_memory g) (gi_header_address g) \<Longrightarrow>
      mem (si_bytes img + of_nat i) = gm_byte (gi_memory g) (gi_header_address g + of_nat i)"
proof -
  let ?h = "gi_header_address g" and ?m = "gi_memory g"
  let ?page = "original_page ?m ?h"
  obtain n t where e: "executable_segments (gi_segments g) (0, None) = (n, t)" by (metis prod.exhaust)
  then obtain seg where t: "t = Some seg" and n: "n = 1" "gs_address seg = ?h" "?h mod GM_PAGE_SIZE = 0" "si_size img = gs_size seg"
      and size: "\<not> (ucast (le32 (map ?page [0..<32]) 20) :: u64) > GM_PAGE_SIZE - 32"
      and same: "fst (si_count_mismatches ?page (image_bytes mem img 0) (32 + unat (le32 (map ?page [0..<32]) 20))) = 0"
    using eq by (auto simp: si_match_guest_def Let_def split: option.splits if_splits)
  obtain a where a: "filter executable_segment (gi_segments g) = [a]"
    using e n(1) by (auto simp: executable_segments_filter length_Suc_conv)
  have "filter (\<lambda>s. gs_name s = ''__TEXT'') (filter executable_segment (gi_segments g)) =
      filter (\<lambda>s. executable_segment s \<and> gs_name s = ''__TEXT'') (gi_segments g)" by (simp add: conj_commute)
  then have "a = seg" "gs_name seg = ''__TEXT''" using e t by (auto simp: executable_segments_filter a split: if_splits list.splits)
  then show ?A using a n by auto
  have bytes: "?page k = gm_byte ?m (?h + of_nat k)" if "k < 16384" for k by (rule original_page_byte [OF m n(3) that])
  have "map ?page [0..<32] = map (\<lambda>i. gm_byte ?m (?h + of_nat i)) [0..<32]" using bytes by simp
  then have hs: "header_size ?m ?h = 32 + unat (le32 (map ?page [0..<32]) 20)" unfolding header_size_def by (simp only:)
  then have "header_size ?m ?h \<le> 16384" using size by (simp add: word_less_nat_alt not_less unat_u32_u64)
  moreover have "?page k = image_bytes mem img 0 k" if "k < header_size ?m ?h" for k
    using same that unfolding hs [symmetric] by (auto simp: si_count_mismatches_summary mismatch_summary_def)
  ultimately show "mem (si_bytes img + of_nat i) = gm_byte ?m (?h + of_nat i)" if "i < header_size ?m ?h"
    using that bytes [of i] by (auto simp: image_bytes_def)
qed


section \<open>A sample container\<close>

definition signed_page :: "nat \<Rightarrow> u8" where
  "signed_page i = (if i = 0 then 0xcf else if i = 1 then 0xfa else if i = 2 then 0xed else if i = 3 then 0xfe else 0)"

definition signed_guest :: GuestImage where
  "signed_guest = gi_zero\<lparr>
     gi_memory := \<lparr>gm_pages = [\<lparr>pg_address = 0x100000000, pg_bytes = Some signed_page, pg_prot = 5, pg_maxprot = 5, pg_jit = False\<rparr>],
       gm_generation = 0, gm_code_generation = 0, gm_fault_address = 0\<rparr>,
     gi_segments := [\<lparr>gs_name = ''__TEXT'', gs_address = 0x100000000, gs_size = 0x4000, gs_file_offset = 0, gs_file_size = 0x4000,
       gs_prot = 5, gs_maxprot = 5\<rparr>],
     gi_header_address := 0x100000000, gi_first_initializer := 0x100000100, gi_initializer_count := 1\<rparr>"

definition signed_memory :: "u64 \<Rightarrow> u8" where
  "signed_memory a = signed_page (unat (a - 0x8000))"

lemma signed_guest_wf: "gm_wf (gi_memory signed_guest)"
  by (simp add: signed_guest_def gm_wf_def gm_sorted_def gm_page_ok_def page_aligned_def)

lemma signed_original: "original_page (gi_memory signed_guest) 0x100000000 = signed_page"
  by (simp add: original_page_def signed_guest_def gm_bisect.simps [of _ _ 0 0] gm_bisect.simps [of _ _ 0 "Suc 0"] Let_def)

lemma signed_image_bytes: "i < 16384 \<Longrightarrow> image_bytes signed_memory \<lparr>si_bytes = 0x8000, si_size = 0x4000\<rparr> 0 i = signed_page i"
  by (simp add: image_bytes_def signed_memory_def unat_of_nat)

lemma signed_same: "same_chunk signed_page (image_bytes signed_memory \<lparr>si_bytes = 0x8000, si_size = 0x4000\<rparr> 0) 0 16384"
  by (simp add: same_chunk_def list_all_iff signed_image_bytes del: upt.simps)

lemma signed_match: "si_match_guest signed_memory \<lparr>si_bytes = 0x8000, si_size = 0x4000\<rparr> signed_guest = None"
proof -
  have mh: "le32 (map signed_page [0..<32]) 0 = MH_MAGIC_64" "le32 (map signed_page [0..<32]) 20 = 0" by code_simp+
  have "fst (si_count_mismatches signed_page (image_bytes signed_memory \<lparr>si_bytes = 0x8000, si_size = 0x4000\<rparr> 0) 32) = 0"
    using signed_image_bytes by (auto simp: si_count_mismatches_summary mismatch_summary_def)
  moreover have "gi_header_address signed_guest = 0x100000000" by (simp add: signed_guest_def)
  moreover have "executable_segments (gi_segments signed_guest) (0, None) = (1, Some (hd (gi_segments signed_guest)))"
    by (simp add: signed_guest_def)
  moreover have "gs_address (hd (gi_segments signed_guest)) = 0x100000000" "gs_size (hd (gi_segments signed_guest)) = 0x4000"
    by (simp_all add: signed_guest_def)
  ultimately show ?thesis using mh by (simp add: si_match_guest_def signed_original Let_def del: upt.simps upt_rec_numeral)
qed

lemma signed_shadow: "si_shadow_size signed_memory \<lparr>si_bytes = 0x8000, si_size = 0x4000\<rparr> signed_guest = Inr 0"
proof -
  have "gi_header_address signed_guest = 0x100000000" "gi_first_initializer signed_guest = 0x100000100" "gi_initializer_count signed_guest = 1"
    by (simp_all add: signed_guest_def)
  then show ?thesis using signed_same by (simp add: si_shadow_size_def signed_original Let_def numeral_eq_Suc [of Num.One])
qed

section \<open>Properties\<close>

text \<open>C30. A container that passes both comparisons is bound to the application: its size is that of the only executable
  segment, \<open>__TEXT\<close> at the header; the application's staged header and load commands are its first bytes;
  outside the rewritten range every byte is the staged one; the range is no larger than it must be; and the first
  initializer, which unpacks the range, lies in the segment and outside the range.\<close>

theorem si_container_bound:
  assumes "gm_wf (gi_memory g)" and "si_match_guest mem img g = None" and "si_shadow_size mem img g = Inr shadow"
  shows "(\<exists>seg. filter executable_segment (gi_segments g) = [seg] \<and> gs_name seg = ''__TEXT'' \<and> gs_address seg = gi_header_address g \<and>
      gs_size seg = si_size img) \<and>
    (\<forall>i < header_size (gi_memory g) (gi_header_address g). mem (si_bytes img + of_nat i) = gm_byte (gi_memory g) (gi_header_address g + of_nat i)) \<and>
    shadow mod GM_PAGE_SIZE = 0 \<and> shadow \<le> si_size img \<and>
    (\<forall>off. shadow \<le> off \<and> off < si_size img \<longrightarrow> mem (si_bytes img + off) = gm_byte (gi_memory g) (gi_header_address g + off)) \<and>
    (shadow \<noteq> 0 \<longrightarrow> (\<exists>off. shadow - GM_PAGE_SIZE \<le> off \<and> off < shadow \<and>
       mem (si_bytes img + off) \<noteq> gm_byte (gi_memory g) (gi_header_address g + off))) \<and>
    (\<exists>off. gi_first_initializer g = gi_header_address g + off \<and> shadow \<le> off \<and> off < si_size img)"
proof -
  note s = shadow_correct [OF assms(1,3)] and m = match_correct [OF assms(1,2)]
  have "\<exists>off. gi_first_initializer g = gi_header_address g + off \<and> shadow \<le> off \<and> off < si_size img"
    using s(7,8) by (intro exI [of _ "gi_first_initializer g - gi_header_address g"]) simp
  then show ?thesis using m s(1,2,4,5) by blast
qed

theorem si_container_bound_witness:
  "signed_memory 0x8001 = gm_byte (gi_memory signed_guest) 0x100000001"
  using si_container_bound [OF signed_guest_wf signed_match signed_shadow, THEN conjunct2, THEN conjunct2, THEN conjunct2, THEN conjunct2, THEN conjunct1,
      rule_format, of 1]
  by (simp add: signed_guest_def)


section \<open>The load commands of a container\<close>

text \<open>A reference reading of the load commands: the offsets of all commands when they fill the given range exactly, the
  segment a command holds, and the sections of a segment that start at the marker.\<close>

definition command_kind :: "(u64 \<Rightarrow> u8) \<Rightarrow> u64 \<Rightarrow> u64 \<Rightarrow> u32" where
  "command_kind mem header c = le32 (container_bytes mem (header + c) 8) 0"

definition command_size :: "(u64 \<Rightarrow> u8) \<Rightarrow> u64 \<Rightarrow> u64 \<Rightarrow> u32" where
  "command_size mem header c = le32 (container_bytes mem (header + c) 8) 4"

primrec command_offsets :: "nat \<Rightarrow> (u64 \<Rightarrow> u8) \<Rightarrow> u64 \<Rightarrow> u64 \<Rightarrow> u64 \<Rightarrow> (u64 list \<times> u64) option" where
  "command_offsets 0 mem header e c = Some ([], c)"
| "command_offsets (Suc n) mem header e c =
     (let sz = command_size mem header c
      in if within c 8 e \<and> sz \<ge> 8 \<and> sz AND 7 = 0 \<and> within c (ucast sz) e
         then map_option (\<lambda>(cs, z). (c # cs, z)) (command_offsets n mem header e (c + ucast sz)) else None)"

definition segment_at :: "(u64 \<Rightarrow> u8) \<Rightarrow> u64 \<Rightarrow> u64 \<Rightarrow> SegmentCommand" where
  "segment_at mem header c = segment_command (container_bytes mem (header + c) 72)"

definition segment_fits :: "(u64 \<Rightarrow> u8) \<Rightarrow> u64 \<Rightarrow> u64 \<Rightarrow> bool" where
  "segment_fits mem header c \<longleftrightarrow>
     (command_kind mem header c = 0x19 \<longrightarrow> command_size mem header c \<ge> 72 \<and>
        (ucast (sc_nsects (segment_at mem header c)) :: u64) \<le> (ucast (command_size mem header c) - 72) div 80)"

definition is_text :: "(u64 \<Rightarrow> u8) \<Rightarrow> u64 \<Rightarrow> u64 \<Rightarrow> bool" where
  "is_text mem header c \<longleftrightarrow> command_kind mem header c = 0x19 \<and> sc_name (segment_at mem header c) = ''__TEXT''"

definition section_at :: "(u64 \<Rightarrow> u8) \<Rightarrow> u64 \<Rightarrow> nat \<Rightarrow> SectionHeader" where
  "section_at mem at j = section_header (container_bytes mem (at + of_nat j * 80) 80)"

definition at_marker :: "u64 \<Rightarrow> u64 \<Rightarrow> SegmentCommand \<Rightarrow> SectionHeader \<Rightarrow> bool" where
  "at_marker header v1 s h \<longleftrightarrow> sh_size h \<noteq> 0 \<and> header + (sh_addr h - sc_vmaddr s) = v1"

definition marked_sections :: "(u64 \<Rightarrow> u8) \<Rightarrow> u64 \<Rightarrow> u64 \<Rightarrow> u64 \<Rightarrow> SectionHeader list" where
  "marked_sections mem header v1 c =
     filter (at_marker header v1 (segment_at mem header c))
       (map (section_at mem (header + c + 72)) [0..<unat (sc_nsects (segment_at mem header c))])"

definition sole :: "'a list \<Rightarrow> 'a option \<Rightarrow> 'a option \<Rightarrow> bool" where
  "sole xs found f \<longleftrightarrow> xs = [] \<and> f = found \<or> (\<exists>x. xs = [x] \<and> found = None \<and> f = Some x)"

lemma sole_simps [simp]:
  "sole [] found f \<longleftrightarrow> f = found" "sole (x # xs) found f \<longleftrightarrow> found = None \<and> sole xs (Some x) f"
  by (auto simp: sole_def)

lemma sole_unique: "sole xs found f \<Longrightarrow> sole xs found f' \<Longrightarrow> f = f'"
  by (auto simp: sole_def)

lemma marked_loop_filter:
  "marked_loop n mem header v1 at s j found = Inr f \<longleftrightarrow> sole (filter (at_marker header v1 s) (map (section_at mem at) [j..<j + n])) found f"
proof (induction n arbitrary: j found)
  case (Suc n)
  have u: "[j..<j + Suc n] = j # [Suc j..<Suc j + n]" by (simp add: upt_rec)
  have m: "(sh_size (section_at mem at j) = 0 \<or> header + (sh_addr (section_at mem at j) - sc_vmaddr s) \<noteq> v1) \<longleftrightarrow>
      \<not> at_marker header v1 s (section_at mem at j)" by (auto simp: at_marker_def)
  show ?case
    unfolding marked_loop.simps Let_def section_at_def [symmetric] m u by (simp add: Suc)
qed auto

text \<open>What a command adds to what was found before, and what a list of commands adds.\<close>

definition text_added ::
  "(u64 \<Rightarrow> u8) \<Rightarrow> u64 \<Rightarrow> u64 \<Rightarrow> u64 list \<Rightarrow> SegmentCommand option \<Rightarrow> SectionHeader option \<Rightarrow> SegmentCommand option \<Rightarrow> SectionHeader option \<Rightarrow> bool" where
  "text_added mem header v1 cs t f t' f' \<longleftrightarrow>
     cs = [] \<and> t' = t \<and> f' = f \<or>
     (\<exists>c. cs = [c] \<and> t = None \<and> t' = Some (segment_at mem header c) \<and> sole (marked_sections mem header v1 c) f f')"

lemma text_added_simps [simp]:
  "text_added mem header v1 [] t f t' f' \<longleftrightarrow> t' = t \<and> f' = f"
  "text_added mem header v1 (c # cs) t f t' f' \<longleftrightarrow>
     t = None \<and> (\<exists>f1. sole (marked_sections mem header v1 c) f f1 \<and> text_added mem header v1 cs (Some (segment_at mem header c)) f1 t' f')"
  by (auto simp: text_added_def)

lemma container_command_text:
  "container_command mem header v1 e c (t, f) = Inr (sz, t', f') \<longleftrightarrow>
     sz = command_size mem header c \<and> within c 8 e \<and> sz \<ge> 8 \<and> sz AND 7 = 0 \<and> within c (ucast sz) e \<and> segment_fits mem header c \<and>
     text_added mem header v1 (if is_text mem header c then [c] else []) t f t' f'"
  unfolding container_command_def Let_def command_kind_def [symmetric] command_size_def [symmetric] segment_at_def [symmetric]
    segment_fits_def is_text_def
  using marked_loop_filter [of "unat (sc_nsects (segment_at mem header c))" mem header v1 "header + c + 72" "segment_at mem header c" 0 f]
  by (auto simp: marked_sections_def [symmetric] not_less dest: sole_unique split: sum.splits)

lemma container_loop_text:
  "container_loop n mem header v1 e c (t, f) = Inr (z, t', f') \<longleftrightarrow>
     (\<exists>cs. command_offsets n mem header e c = Some (cs, z) \<and> list_all (segment_fits mem header) cs \<and>
       text_added mem header v1 (filter (is_text mem header) cs) t f t' f')"
proof (induction n arbitrary: c t f)
  case (Suc n)
  let ?sz = "command_size mem header c"
  have "container_loop (Suc n) mem header v1 e c (t, f) = Inr (z, t', f') \<longleftrightarrow>
      (\<exists>t1 f1. container_command mem header v1 e c (t, f) = Inr (?sz, t1, f1) \<and>
         container_loop n mem header v1 e (c + ucast ?sz) (t1, f1) = Inr (z, t', f'))"
  proof (cases "container_command mem header v1 e c (t, f)")
    case (Inr r)
    then obtain sz t1 f1 where "r = (sz, t1, f1)" by (metis prod_cases3)
    with Inr show ?thesis using container_command_text [of mem header v1 e c t f sz t1 f1] by auto
  qed simp
  then show ?case
    unfolding Suc.IH container_command_text by (cases "is_text mem header c") (auto simp: Let_def)
qed auto


definition marked_image :: "SegmentCommand \<Rightarrow> SectionHeader \<Rightarrow> bool" where
  "marked_image s h \<longleftrightarrow>
     sc_fileoff s = 0 \<and> sc_initprot s AND 7 = 5 \<and> unat (sc_vmaddr s) \<le> unat (sh_addr h) \<and>
     unat (sh_addr h) + unat (sh_size h) \<le> unat (sc_vmaddr s) + min (unat (sc_filesize s)) (unat (sc_vmsize s)) \<and>
     (unat (sh_addr h) - unat (sc_vmaddr s)) mod 16384 = 0 \<and> unat (sh_size h) mod 16384 = 0"

lemma located_marked:
  "sc_fileoff s = 0 \<and> sc_initprot s AND 7 = 5 \<and> located s h v1 = Inr img \<longleftrightarrow>
     marked_image s h \<and> img = \<lparr>si_bytes = v1, si_size = sh_size h\<rparr>"
proof (cases "sc_vmaddr s \<le> sh_addr h")
  case True
  define limit where "limit = (if sc_filesize s < sc_vmsize s then sc_filesize s else sc_vmsize s)"
  have l: "unat limit = min (unat (sc_filesize s)) (unat (sc_vmsize s))" by (auto simp: limit_def word_less_nat_alt)
  have u: "unat (sh_addr h - sc_vmaddr s) = unat (sh_addr h) - unat (sc_vmaddr s)" using True by (simp add: unat_sub)
  have fit: "within (sh_addr h - sc_vmaddr s) (sh_size h) limit \<longleftrightarrow>
      unat (sh_addr h) + unat (sh_size h) \<le> unat (sc_vmaddr s) + unat limit"
    using True u by (auto simp: within_def word_le_nat_alt unat_sub)
  have al: "x mod GM_PAGE_SIZE = 0 \<longleftrightarrow> unat x mod 16384 = 0" for x :: u64 by (metis page_aligned_def page_aligned_iff)
  show ?thesis
    unfolding located_def Let_def limit_def [symmetric] fit al u marked_image_def l [symmetric] using True by (auto simp: word_le_nat_alt word_less_nat_alt)
next
  case False
  then show ?thesis by (auto simp: located_def marked_image_def word_le_nat_alt word_less_nat_alt Let_def)
qed

text \<open>C31. The image is found exactly when the markers agree and the mapped header is that of an arm64 library whose load
  commands fill their page-bounded range, with one \<open>__TEXT\<close> segment that maps the header read and execute and one
  section of it that starts at the marker, is page aligned and lies in the bytes that file and memory
  share; the image is then that section. No other load command is accepted that does not fit.\<close>

theorem si_locate_image_exact:
  "si_locate_image mem header v1 final = Inr img \<longleftrightarrow>
     v1 \<noteq> 0 \<and> v1 = final \<and> header \<noteq> 0 \<and> header mod GM_PAGE_SIZE = 0 \<and>
     (let mh = container_bytes mem header 32; e = 32 + ucast (le32 mh 20) :: u64
      in le32 mh 0 = MH_MAGIC_64 \<and> le32 mh 4 = CPU_TYPE_ARM64 \<and> unat (le32 mh 20) \<le> 16384 - 32 \<and>
         (\<exists>cs c h. command_offsets (unat (le32 mh 16)) mem header e 32 = Some (cs, e) \<and> list_all (segment_fits mem header) cs \<and>
            filter (is_text mem header) cs = [c] \<and> marked_sections mem header v1 c = [h] \<and>
            marked_image (segment_at mem header c) h \<and> img = \<lparr>si_bytes = v1, si_size = sh_size h\<rparr>))"
  (is "?L \<longleftrightarrow> ?R")
proof -
  let ?mh = "container_bytes mem header 32"
  let ?e = "32 + ucast (le32 ?mh 20) :: u64"
  let ?ok = "v1 \<noteq> 0 \<and> v1 = final \<and> header \<noteq> 0 \<and> header mod GM_PAGE_SIZE = 0 \<and> le32 ?mh 0 = MH_MAGIC_64 \<and>
      le32 ?mh 4 = CPU_TYPE_ARM64 \<and> \<not> (ucast (le32 ?mh 20) :: u64) > GM_PAGE_SIZE - 32"
  have small: "\<not> (ucast (le32 ?mh 20) :: u64) > GM_PAGE_SIZE - 32 \<longleftrightarrow> unat (le32 ?mh 20) \<le> 16384 - 32"
    by (simp add: word_less_nat_alt unat_u32_u64 not_less)
  have "?L \<longleftrightarrow> ?ok \<and> (\<exists>t f. container_loop (unat (le32 ?mh 16)) mem header v1 ?e 32 (None, None) = Inr (?e, Some t, Some f) \<and>
      sc_fileoff t = 0 \<and> sc_initprot t AND 7 = 5 \<and> located t f v1 = Inr img)"
    by (auto simp: si_locate_image_def Let_def split: sum.splits option.splits if_splits)
  also have "\<dots> \<longleftrightarrow> ?R"
    unfolding container_loop_text located_marked small Let_def page_aligned_def [symmetric] by (auto simp: text_added_def sole_def)
  finally show ?thesis .
qed


text \<open>A library with one \<open>__TEXT\<close> segment at 0x4000 and one section, a page further.\<close>

definition sample_container :: "u8 list" where
  "sample_container =
     [0xcf, 0xfa, 0xed, 0xfe, 0x0c, 0, 0, 1, 0, 0, 0, 0, 6, 0, 0, 0, 1, 0, 0, 0, 152, 0, 0, 0] @ replicate 8 0 @
     [0x19, 0, 0, 0, 152, 0, 0, 0, 0x5f, 0x5f, 0x54, 0x45, 0x58, 0x54] @ replicate 10 0 @
     [0, 0x40, 0, 0, 0, 0, 0, 0, 0, 0x80, 0, 0, 0, 0, 0, 0] @ replicate 8 0 @ [0, 0x80, 0, 0, 0, 0, 0, 0, 5, 0, 0, 0, 5, 0, 0, 0, 1, 0, 0, 0, 0, 0, 0, 0] @
     replicate 32 0 @ [0, 0x80, 0, 0, 0, 0, 0, 0, 0, 0x40, 0, 0, 0, 0, 0, 0] @ replicate 32 0"

lemma sample_located:
  "si_locate_image (\<lambda>a. sample_container ! unat (a - 0x10000)) 0x10000 0x14000 0x14000 = Inr \<lparr>si_bytes = 0x14000, si_size = 0x4000\<rparr>"
  by code_simp

end
