(* ===== verification/SignedFile.thy ===== *)
theory SignedFile
  imports GuestImage "HOL-Library.Monad_Syntax" "HOL-Library.Sublist"
begin

text \<open>
  The inspection of a signed Mach-O file, \<open>launcher/App/SignedFileProbe.c\<close>: its text section, the range of its
  signature and the blobs of that signature, each offset taken from the file. The mapped file is a list of bytes; a read
  that leaves the mapping is \<open>None\<close>, so that a result \<open>Some\<close> says every read was inside. The lines written to the log
  are values of \<open>sf_line\<close>. The modes that map the file executable and call into it are in
  \<open>SignedProbe\<close>.
\<close>

section \<open>Reads of the mapping\<close>

definition mapped_at :: "u8 list \<Rightarrow> nat \<Rightarrow> nat \<Rightarrow> u8 list option" where
  "mapped_at b offset n = (if offset + n \<le> length b then Some (take n (drop offset b)) else None)"

definition read_be32 :: "u8 list \<Rightarrow> nat \<Rightarrow> u32 option" where
  "read_be32 b offset = do { p \<leftarrow> mapped_at b offset 4; Some (be32 p 0) }"

definition read_be64 :: "u8 list \<Rightarrow> nat \<Rightarrow> u64 option" where
  "read_be64 b offset = do { p \<leftarrow> mapped_at b offset 8; Some (be64 p 0) }"

definition read_u8 :: "u8 list \<Rightarrow> nat \<Rightarrow> u8 option" where
  "read_u8 b offset = do { p \<leftarrow> mapped_at b offset 1; Some (p ! 0) }"

section \<open>What the log shows of a path\<close>

text \<open>\<open>home\<close> is the value of \<open>HOME\<close>; the output of \<open>snprintf\<close> is cut to the buffer.\<close>

definition home_relative :: "string option \<Rightarrow> string \<Rightarrow> nat \<Rightarrow> string" where
  "home_relative home0 path n =
     (let home = (case home0 of Some h \<Rightarrow> h | None \<Rightarrow> []) in
      if home \<noteq> [] \<and> take (length home) path = home \<and> (drop (length home) path = [] \<or> path ! length home = CHR ''/'')
      then take (n - 1) (''~'' @ drop (length home) path)
      else rev (takeWhile (\<lambda>c. c \<noteq> CHR ''/'') (rev path)))"

text \<open>What is left of the message and how many characters are in the buffer; the result is what is written from there on.\<close>

function sanitize_loop :: "string \<Rightarrow> string \<Rightarrow> nat \<Rightarrow> nat \<Rightarrow> string" where
  "sanitize_loop home message out n =
     (if message = [] \<or> \<not> out + 1 < n then []
      else if home \<noteq> [] \<and> take (length home) message = home
      then CHR ''~'' # sanitize_loop home (drop (length home) message) (out + 1) n
      else hd message # sanitize_loop home (tl message) (out + 1) n)"
  by auto
termination by (relation "measure (\<lambda>(h, m, _). length m)") (auto simp: neq_Nil_conv)

declare sanitize_loop.simps [simp del]

definition sanitize :: "string option \<Rightarrow> string option \<Rightarrow> nat \<Rightarrow> string" where
  "sanitize home0 message0 n =
     (if n = 0 then [] else
      case message0 of
        None \<Rightarrow> []
      | Some message \<Rightarrow> sanitize_loop (case home0 of Some h \<Rightarrow> h | None \<Rightarrow> []) message 0 n)"

section \<open>The Mach-O structure\<close>

record Inspected =
  in_text_offset :: u32
  in_text_size :: u64
  in_signature_offset :: u32
  in_signature_size :: u32

definition text_callable :: "u32 \<Rightarrow> u64 \<Rightarrow> bool" where
  "text_callable text_offset sz \<longleftrightarrow> \<not> ((ucast text_offset :: u64) + 4 > sz \<or> text_offset AND 3 \<noteq> 0)"

text \<open>The sections of a segment; \<open>at\<close> is the offset of the next. The result is an error code, 0 for none.\<close>

primrec sections_loop :: "nat \<Rightarrow> u8 list \<Rightarrow> nat \<Rightarrow> Inspected \<Rightarrow> (int \<times> Inspected) option" where
  "sections_loop 0 b at r = Some (0, r)"
| "sections_loop (Suc left) b at r =
     do { p \<leftarrow> mapped_at b at 80;
          (let offset = le32 p 48; sz = le64 p 40; whole = of_nat (length b) :: u64
           in if name16 p 0 = ''__text'' \<and> name16 p 16 = ''__TEXT''
              then if (ucast offset :: u64) + 4 > whole \<or> sz > whole \<or> ucast offset + sz > whole \<or> offset AND 3 \<noteq> 0
                   then Some (-7, r)
                   else sections_loop left b (at + 80) (r\<lparr>in_text_offset := offset, in_text_size := sz\<rparr>)
              else sections_loop left b (at + 80) r) }"

text \<open>The command at offset \<open>at\<close> once its size is known to fit.\<close>

definition inspect_command :: "u8 list \<Rightarrow> nat \<Rightarrow> u32 \<Rightarrow> u32 \<Rightarrow> Inspected \<Rightarrow> (int \<times> Inspected) option" where
  "inspect_command b at cmd cmdsize r =
     (if cmd = 0x19
      then if cmdsize < 72 then Some (-4, r)
           else do { p \<leftarrow> mapped_at b at 72;
                     (let nsects = le32 p 64
                      in if (ucast cmdsize :: u64) < 72 + ucast nsects * 80 then Some (-4, r)
                         else sections_loop (unat nsects) b (at + 72) r) }
      else if cmd = 0x1d
      then if cmdsize < 16 then Some (-5, r)
           else do { p \<leftarrow> mapped_at b at 16;
                     (let dataoff = le32 p 8; datasize = le32 p 12
                      in if (ucast dataoff :: u64) + ucast datasize > of_nat (length b) then Some (-8, r)
                         else Some (0, r\<lparr>in_signature_offset := dataoff, in_signature_size := datasize\<rparr>)) }
      else Some (0, r))"

primrec commands_loop :: "nat \<Rightarrow> u8 list \<Rightarrow> nat \<Rightarrow> nat \<Rightarrow> Inspected \<Rightarrow> (int \<times> Inspected) option" where
  "commands_loop 0 b cmds_end at r = Some (if in_text_offset r \<noteq> 0 then 0 else -6, r)"
| "commands_loop (Suc left) b cmds_end at r =
     (if at + 8 > cmds_end then Some (-3, r)
      else do { lc \<leftarrow> mapped_at b at 8;
                (let cmdsize = le32 lc 4
                 in if cmdsize < 8 \<or> cmdsize > of_nat (cmds_end - at) then Some (-3, r)
                    else do { (e, r) \<leftarrow> inspect_command b at (le32 lc 0) cmdsize r;
                              if e \<noteq> 0 then Some (e, r)
                              else commands_loop left b cmds_end (at + unat cmdsize) r }) })"

definition inspect_mach_o :: "u8 list \<Rightarrow> Inspected \<Rightarrow> (int \<times> Inspected) option" where
  "inspect_mach_o b r =
     (if length b < 32 then Some (-1, r)
      else do { mh \<leftarrow> mapped_at b 0 32;
                if le32 mh 0 \<noteq> MH_MAGIC_64 \<or> le32 mh 4 \<noteq> CPU_TYPE_ARM64 then Some (-2, r)
                else if 32 + unat (le32 mh 20) > length b then Some (-3, r)
                else commands_loop (unat (le32 mh 16)) b (32 + unat (le32 mh 20)) 32
                       \<lparr>in_text_offset = 0, in_text_size = 0, in_signature_offset = 0, in_signature_size = 0\<rparr> })"

section \<open>The signature\<close>

datatype sf_line =
    NoSignature u32 u32
  | UnexpectedMagic u32
  | SuperBlob u32 u32
  | CodeDirectory u32 u32 string u32 u32 u32 u8 u8 u8 u8 u64 u64
  | Requirements u32 u32
  | CmsSignature u32 u32
  | OtherSlot u32 u32 u32

text \<open>The identifier at \<open>content + offset\<close>: the characters up to a null, at most \<open>n\<close>.\<close>

definition blob_ident :: "u8 list \<Rightarrow> nat \<Rightarrow> nat \<Rightarrow> string option" where
  "blob_ident b at n = do { p \<leftarrow> mapped_at b at n; Some (c_string p) }"

definition code_directory :: "u8 list \<Rightarrow> nat \<Rightarrow> u32 \<Rightarrow> sf_line option" where
  "code_directory b content len =
     do { version \<leftarrow> read_be32 b (content + 8);
          flags \<leftarrow> read_be32 b (content + 12);
          hash_offset \<leftarrow> read_be32 b (content + 16);
          ident_offset \<leftarrow> read_be32 b (content + 20);
          special \<leftarrow> read_be32 b (content + 24);
          slots \<leftarrow> read_be32 b (content + 28);
          limit \<leftarrow> read_be32 b (content + 32);
          hash_size \<leftarrow> read_u8 b (content + 36);
          hash_type \<leftarrow> read_u8 b (content + 37);
          platform \<leftarrow> read_u8 b (content + 38);
          page_size \<leftarrow> read_u8 b (content + 39);
          ident \<leftarrow> (if ident_offset < len then blob_ident b (content + unat ident_offset) (unat (len - ident_offset)) else Some ''?'');
          (exec_limit, exec_flags) \<leftarrow>
            (if version \<ge> 0x20400 \<and> len \<ge> 88
             then do { l \<leftarrow> read_be64 b (content + 72); f \<leftarrow> read_be64 b (content + 80); Some (l, f) }
             else Some (0, 0));
          Some (CodeDirectory version flags ident slots special limit hash_size hash_type platform page_size exec_limit exec_flags) }"

text \<open>The blobs from \<open>index\<close> on, at most 16; \<open>blob\<close> is the offset of the signature, \<open>n\<close> its size.\<close>

primrec blobs_loop :: "nat \<Rightarrow> u8 list \<Rightarrow> nat \<Rightarrow> u32 \<Rightarrow> nat \<Rightarrow> sf_line list \<Rightarrow> sf_line list option" where
  "blobs_loop 0 b blob n index log = Some log"
| "blobs_loop (Suc left) b blob n index log =
     (if 12 + (index + 1) * 8 > unat n then Some log
      else do { ty \<leftarrow> read_be32 b (blob + (12 + index * 8));
                entry \<leftarrow> read_be32 b (blob + (12 + index * 8 + 4));
                if unat entry + 8 > unat n then Some log
                else let content = blob + unat entry
                in do { magic \<leftarrow> read_be32 b content;
                        len \<leftarrow> read_be32 b (content + 4);
                        if unat entry + unat len > unat n \<or> len < 8 then Some log
                        else do { line \<leftarrow>
                                    (if ty = 0 \<and> magic = 0xfade0c02 \<and> len \<ge> 44 then code_directory b content len
                                     else if ty = 2 then Some (Requirements magic len)
                                     else if ty = 0x10000 then Some (CmsSignature magic len)
                                     else Some (OtherSlot ty magic len));
                                  blobs_loop left b blob n (index + 1) (log @ [line]) } } })"

definition describe_signature :: "u8 list \<Rightarrow> u32 \<Rightarrow> u32 \<Rightarrow> sf_line list option" where
  "describe_signature b offset n =
     (if offset = 0 \<or> n = 0 \<or> (ucast offset :: u64) + ucast n > of_nat (length b) then Some [NoSignature offset n]
      else let blob = unat offset
      in do { magic \<leftarrow> (if n < 12 then Some 0 else read_be32 b blob);
              if n < 12 \<or> magic \<noteq> 0xfade0cc0
              then do { shown \<leftarrow> (if n \<ge> 4 then read_be32 b blob else Some 0); Some [UnexpectedMagic shown] }
              else do { cnt \<leftarrow> read_be32 b (blob + 8);
                        whole \<leftarrow> read_be32 b (blob + 4);
                        blobs_loop (min (unat cnt) 16) b blob n 0 [SuperBlob cnt whole] } })"

section \<open>The inspection\<close>

text \<open>
  \<open>file0\<close> is the file's content when it can be opened and measured, \<open>mapped\<close> the outcome of mapping it. The result is the verdict
  and the lines about the signature.
\<close>

definition run_inspect :: "u8 list option \<Rightarrow> bool \<Rightarrow> (bool \<times> sf_line list) option" where
  "run_inspect file0 mapped =
     (case file0 of
        None \<Rightarrow> Some (False, [])
      | Some b \<Rightarrow>
          if length b = 0 \<or> length b > 64 * 2 ^ 20 \<or> \<not> mapped then Some (False, [])
          else do { (parse, r) \<leftarrow> inspect_mach_o b \<lparr>in_text_offset = 0, in_text_size = 0, in_signature_offset = 0, in_signature_size = 0\<rparr>;
                    log \<leftarrow> (if parse = 0 then describe_signature b (in_signature_offset r) (in_signature_size r) else Some []);
                    Some (parse = 0 \<and> text_callable (in_text_offset r) (of_nat (length b)), log) })"

section \<open>Reads stay inside the mapping\<close>

lemma mapped_at_inside: "offset + n \<le> length b \<Longrightarrow> \<exists>p. mapped_at b offset n = Some p \<and> length p = n"
  by (simp add: mapped_at_def)

lemma read_be32_inside: "offset + 4 \<le> length b \<Longrightarrow> \<exists>v. read_be32 b offset = Some v"
  by (simp add: read_be32_def mapped_at_def)

lemma read_be64_inside: "offset + 8 \<le> length b \<Longrightarrow> \<exists>v. read_be64 b offset = Some v"
  by (simp add: read_be64_def mapped_at_def)

lemma read_u8_inside: "offset + 1 \<le> length b \<Longrightarrow> \<exists>v. read_u8 b offset = Some v"
  by (simp add: read_u8_def mapped_at_def)

text \<open>A range of file offsets, as the code compares them, is one of naturals for a mapping of ordinary size.\<close>

lemma file_sum:
  assumes "length (b :: u8 list) < 2 ^ 63" "x + y < 2 ^ 64"
  shows "(of_nat x + of_nat y > (of_nat (length b) :: u64)) \<longleftrightarrow> x + y > length b"
  using assms by (simp add: word_less_nat_alt unat_of_nat flip: of_nat_add)

definition inside_file :: "u8 list \<Rightarrow> Inspected \<Rightarrow> bool" where
  "inside_file b r \<longleftrightarrow>
     unat (in_text_offset r) + 4 \<le> length b \<and> in_text_offset r AND 3 = 0 \<and>
     unat (in_text_offset r) + unat (in_text_size r) \<le> length b \<and>
     unat (in_signature_offset r) + unat (in_signature_size r) \<le> length b"

lemma section_accepted:
  assumes "length (b :: u8 list) < 2 ^ 63"
  shows "\<not> ((ucast (offset :: u32) :: u64) + 4 > of_nat (length b) \<or> (sz :: u64) > of_nat (length b) \<or> ucast offset + sz > of_nat (length b) \<or> offset AND 3 \<noteq> 0) \<longleftrightarrow>
    unat offset + 4 \<le> length b \<and> unat offset + unat sz \<le> length b \<and> offset AND 3 = 0"
proof -
  have o: "unat offset < 2 ^ 32" by (rule order_less_le_trans [OF unsigned_less]) simp
  have 1: "(ucast offset :: u64) + 4 > of_nat (length b) \<longleftrightarrow> unat offset + 4 > length b"
    using file_sum [OF assms, of "unat offset" 4] o by simp
  have 2: "sz > of_nat (length b) \<longleftrightarrow> unat sz > length b" using assms by (simp add: word_less_nat_alt unat_of_nat)
  have 3: "ucast offset + sz > of_nat (length b) \<longleftrightarrow> unat offset + unat sz > length b" if "unat sz \<le> length b"
    using file_sum [OF assms, of "unat offset" "unat sz"] o that assms by simp
  show ?thesis using 1 2 3 by auto
qed

lemma sections_loop_safe:
  "length b < 2 ^ 63 \<Longrightarrow> at + left * 80 \<le> length b \<Longrightarrow> inside_file b r \<Longrightarrow>
   \<exists>e r'. sections_loop left b at r = Some (e, r') \<and> inside_file b r'"
proof (induction left arbitrary: at r)
  case (Suc left)
  obtain p where p: "mapped_at b at 80 = Some p" using mapped_at_inside [of at 80 b] Suc.prems by auto
  let ?offset = "le32 p 48" and ?sz = "le64 p 40"
  let ?r = "r\<lparr>in_text_offset := ?offset, in_text_size := ?sz\<rparr>"
  have at: "at + 80 + left * 80 \<le> length b" using Suc.prems by simp
  note acc = section_accepted [OF Suc.prems(1), of ?offset ?sz]
  show ?case
  proof (cases "name16 p 0 = ''__text'' \<and> name16 p 16 = ''__TEXT''")
    case True
    have "inside_file b ?r" if "\<not> (ucast ?offset + 4 > (of_nat (length b) :: u64) \<or> ?sz > of_nat (length b) \<or>
        ucast ?offset + ?sz > of_nat (length b) \<or> ?offset AND 3 \<noteq> 0)"
      using that Suc.prems(3) unfolding acc by (simp add: inside_file_def)
    then show ?thesis using p True Suc.IH [OF Suc.prems(1) at, of ?r] Suc.prems(3) by (auto simp: Let_def)
  next
    case False
    then show ?thesis using p Suc.IH [OF Suc.prems(1) at Suc.prems(3)] by (auto simp: Let_def)
  qed
qed simp

lemma inspect_command_safe:
  assumes "length b < 2 ^ 63" "at + unat cmdsize \<le> length b" "inside_file b r"
  shows "\<exists>e r'. inspect_command b at cmd cmdsize r = Some (e, r') \<and> inside_file b r'"
proof -
  consider "cmd = 0x19" "\<not> cmdsize < 72" | "cmd = 0x1d" "\<not> cmdsize < 16" | "cmd \<noteq> 0x19 \<and> cmd \<noteq> 0x1d \<or> cmd = 0x19 \<and> cmdsize < 72 \<or> cmd = 0x1d \<and> cmdsize < 16"
    by blast
  then show ?thesis
  proof cases
    case 1
    then have c: "72 \<le> unat cmdsize" by (simp add: word_less_nat_alt)
    obtain p where p: "mapped_at b at 72 = Some p" using mapped_at_inside [of at 72 b] assms(2) c by auto
    let ?n = "le32 p 64"
    have n: "unat ?n < 2 ^ 32" by (rule order_less_le_trans [OF unsigned_less]) simp
    have "(ucast cmdsize :: u64) < 72 + ucast ?n * 80 \<longleftrightarrow> unat cmdsize < 72 + unat ?n * 80"
      using n by (simp add: word_less_nat_alt unat_word_ariths unat_u32_u64)
    then show ?thesis using 1 p sections_loop_safe [OF assms(1) _ assms(3), of "at + 72" "unat ?n"] assms(2,3)
      by (auto simp: inspect_command_def Let_def)
  next
    case 2
    then have c: "16 \<le> unat cmdsize" by (simp add: word_less_nat_alt)
    obtain p where p: "mapped_at b at 16 = Some p" using mapped_at_inside [of at 16 b] assms(2) c by auto
    have n: "unat (x :: u32) < 2 ^ 32" for x by (rule order_less_le_trans [OF unsigned_less]) simp
    have "(ucast (le32 p 8) :: u64) + ucast (le32 p 12) > of_nat (length b) \<longleftrightarrow> unat (le32 p 8) + unat (le32 p 12) > length b"
      using file_sum [OF assms(1), of "unat (le32 p 8)" "unat (le32 p 12)"] n [of "le32 p 8"] n [of "le32 p 12"] by simp
    then show ?thesis using 2 p assms(3) by (auto simp: inspect_command_def Let_def inside_file_def)
  next
    case 3
    then show ?thesis using assms(3) by (auto simp: inspect_command_def)
  qed
qed

lemma commands_loop_safe:
  assumes "length b < 2 ^ 63" "cmds_end \<le> length b" "cmds_end \<le> at + unat (limit :: u32)" "inside_file b r"
  shows "\<exists>e r'. commands_loop left b cmds_end at r = Some (e, r') \<and> inside_file b r'"
  using assms(3,4)
proof (induction left arbitrary: at r)
  case (Suc left)
  show ?case
  proof (cases "at + 8 > cmds_end")
    case False
    obtain lc where lc: "mapped_at b at 8 = Some lc" using mapped_at_inside [of at 8 b] False assms(2) by auto
    let ?n = "le32 lc 4"
    have "unat limit < 2 ^ 32" by (rule order_less_le_trans [OF unsigned_less]) simp
    then have "cmds_end - at < 2 ^ 32" using Suc.prems(1) by simp
    then have fit: "?n > of_nat (cmds_end - at) \<longleftrightarrow> unat ?n > cmds_end - at" by (simp add: word_less_nat_alt unat_of_nat)
    show ?thesis
    proof (cases "?n < 8 \<or> ?n > of_nat (cmds_end - at)")
      case True
      then show ?thesis using False lc Suc.prems(2) by (auto simp: Let_def)
    next
      case inside: False
      then have n: "at + unat ?n \<le> cmds_end" using fit False by simp
      obtain e r' where c: "inspect_command b at (le32 lc 0) ?n r = Some (e, r')" "inside_file b r'"
        using inspect_command_safe [OF assms(1) _ Suc.prems(2), of at ?n "le32 lc 0"] n assms(2) by auto
      have "cmds_end \<le> at + unat ?n + unat limit" using Suc.prems(1) by simp
      from Suc.IH [OF this c(2)] show ?thesis using False lc inside c by (auto simp: Let_def)
    qed
  qed (use Suc.prems in auto)
qed auto

lemma commands_loop_text: "commands_loop left b cmds_end at r = Some (0, r') \<Longrightarrow> in_text_offset r' \<noteq> 0"
  by (induction left arbitrary: at r) (auto simp: Let_def split: bind_splits if_splits)

lemma inspect_mach_o_safe:
  assumes "length b < 2 ^ 63"
  shows "\<exists>e r'. inspect_mach_o b r = Some (e, r') \<and> (e = 0 \<longrightarrow> inside_file b r' \<and> in_text_offset r' \<noteq> 0)"
proof (cases "length b < 32")
  case False
  obtain mh where mh: "mapped_at b 0 32 = Some mh" using mapped_at_inside [of 0 32 b] False by auto
  let ?r = "\<lparr>in_text_offset = 0, in_text_size = 0, in_signature_offset = 0, in_signature_size = 0\<rparr> :: Inspected"
  have "inside_file b ?r" using False by (simp add: inside_file_def)
  then show ?thesis using mh False
      commands_loop_safe [OF assms, of "32 + unat (le32 mh 20)" 32 "le32 mh 20" ?r "unat (le32 mh 16)"]
      commands_loop_text [of "unat (le32 mh 16)" b "32 + unat (le32 mh 20)" 32 ?r]
    by (auto simp: inspect_mach_o_def)
qed (simp add: inspect_mach_o_def)


lemma bind_inside: "\<exists>v. m = Some v \<Longrightarrow> (\<And>v. m = Some v \<Longrightarrow> \<exists>w. f v = Some w) \<Longrightarrow> \<exists>w. Option.bind m f = Some w"
  by auto

lemma code_directory_inside:
  assumes "content + unat len \<le> length b" "44 \<le> len"
  shows "\<exists>line. code_directory b content len = Some line"
proof -
  have len: "44 \<le> unat len" using assms(2) by (simp add: word_le_nat_alt)
  have r32: "\<exists>v. read_be32 b (content + k) = Some v" if "k \<le> 40" for k using that len assms(1) by (intro read_be32_inside) simp
  have r8: "\<exists>v. read_u8 b (content + k) = Some v" if "k \<le> 40" for k using that len assms(1) by (intro read_u8_inside) simp
  have r64: "\<exists>v. read_be64 b (content + k) = Some v" if "k \<le> 80" "88 \<le> len" for k
    using that len assms(1) by (intro read_be64_inside) (simp add: word_le_nat_alt)
  have ident: "\<exists>s. blob_ident b (content + unat o1) (unat (len - o1)) = Some s" if "o1 < len" for o1
    using that assms(1) mapped_at_inside [of "content + unat o1" "unat (len - o1)" b]
    by (auto simp: blob_ident_def word_less_nat_alt unat_sub [of o1 len] word_le_nat_alt)
  have e: "\<exists>p. (if c \<and> len \<ge> 88 then do { l \<leftarrow> read_be64 b (content + 72); f \<leftarrow> read_be64 b (content + 80); Some (l, f) } else Some (0, 0)) = Some p" for c
    using r64 [of 72] r64 [of 80] by auto
  have i: "\<exists>x. (if s < len then blob_ident b (content + unat s) (unat (len - s)) else Some ''?'') = Some x" for s using ident [of s] by auto
  show ?thesis
    unfolding code_directory_def by (intro bind_inside r32 r8 i e) (simp_all add: case_prod_unfold)
qed

lemma blobs_loop_inside:
  assumes "blob + unat n \<le> length b"
  shows "\<exists>lines. blobs_loop left b blob n index log = Some lines"
proof (induction left arbitrary: index log)
  case (Suc left)
  show ?case
  proof (cases "12 + (index + 1) * 8 > unat n")
    case False
    obtain ty entry where e: "read_be32 b (blob + (12 + index * 8)) = Some ty" "read_be32 b (blob + (12 + index * 8 + 4)) = Some entry"
      using read_be32_inside [of "blob + (12 + index * 8)" b] read_be32_inside [of "blob + (12 + index * 8 + 4)" b] False assms by auto
    show ?thesis
    proof (cases "unat entry + 8 > unat n")
      case in1: False
      let ?c = "blob + unat entry"
      obtain magic len where m: "read_be32 b ?c = Some magic" "read_be32 b (?c + 4) = Some len"
        using read_be32_inside [of ?c b] read_be32_inside [of "?c + 4" b] in1 assms by auto
      show ?thesis
      proof (cases "unat entry + unat len > unat n \<or> len < 8")
        case in2: False
        have "\<exists>line. code_directory b ?c len = Some line" if "len \<ge> 44" using that in2 assms by (intro code_directory_inside) auto
        then show ?thesis using False in1 in2 e m Suc.IH by (cases "ty = 0 \<and> magic = 0xfade0c02 \<and> len \<ge> 44") (auto simp: Let_def)
      qed (use False in1 e m in \<open>auto simp: Let_def\<close>)
    qed (use False e in auto)
  qed simp
qed simp

lemma describe_signature_inside:
  assumes "length b < 2 ^ 63"
  shows "\<exists>lines. describe_signature b offset n = Some lines"
proof (cases "offset = 0 \<or> n = 0 \<or> (ucast offset :: u64) + ucast n > of_nat (length b)")
  case False
  have u: "unat (x :: u32) < 2 ^ 32" for x by (rule order_less_le_trans [OF unsigned_less]) simp
  have i: "unat offset + unat n \<le> length b" using False file_sum [OF assms, of "unat offset" "unat n"] u [of offset] u [of n] by simp
  have r: "\<exists>v. read_be32 b (unat offset + k) = Some v" if "k + 4 \<le> unat n" for k using that i by (intro read_be32_inside) simp
  show ?thesis
  proof (cases "n < 12")
    case True
    have "n \<ge> 4 \<Longrightarrow> \<exists>v. read_be32 b (unat offset) = Some v" using r [of 0] by (simp add: word_le_nat_alt)
    then show ?thesis using False True by (auto simp: describe_signature_def)
  next
    case big: False
    then have "12 \<le> unat n" "4 \<le> n" by (auto simp: word_less_nat_alt word_le_nat_alt)
    then show ?thesis using False big r [of 0] r [of 4] r [of 8] blobs_loop_inside [OF i]
      by (auto simp: describe_signature_def Let_def)
  qed
qed (auto simp: describe_signature_def)

lemma run_inspect_total:
  assumes "length b \<le> 64 * 2 ^ 20"
  shows "\<exists>verdict. run_inspect (Some b) mapped = Some verdict"
proof -
  have b: "length b < 2 ^ 63" using assms by simp
  obtain e0 r0 where "inspect_mach_o b \<lparr>in_text_offset = 0, in_text_size = 0, in_signature_offset = 0, in_signature_size = 0\<rparr> = Some (e0, r0)"
    using inspect_mach_o_safe [OF b] by blast
  moreover obtain lines where "describe_signature b (in_signature_offset r0) (in_signature_size r0) = Some lines"
    using describe_signature_inside [OF b] by blast
  ultimately have "run_inspect (Some b) mapped \<noteq> None" by (simp add: run_inspect_def del: not_None_eq)
  then show ?thesis by (simp only: not_None_eq)
qed

text \<open>C38. Inspecting a file never reads outside its mapping, whatever offsets, sizes and counts the file holds. When the
  Mach-O structure is accepted, the text section it reports begins with an aligned instruction inside the file, not at its start, the
  whole section and the whole signature lie inside the file, and the entry is accepted as callable.
\<close>

theorem run_inspect_safe:
  assumes "length b \<le> 64 * 2 ^ 20"
  shows "(\<exists>verdict. run_inspect (Some b) mapped = Some verdict) \<and>
    (\<exists>e r'. inspect_mach_o b r = Some (e, r') \<and>
      (e = 0 \<longrightarrow> 0 < unat (in_text_offset r') \<and> text_callable (in_text_offset r') (of_nat (length b)) \<and>
         unat (in_text_offset r') + max 4 (unat (in_text_size r')) \<le> length b \<and>
         unat (in_signature_offset r') + unat (in_signature_size r') \<le> length b))"
proof -
  have b: "length b < 2 ^ 63" using assms by simp
  obtain e r' where i: "inspect_mach_o b r = Some (e, r')" "e = 0 \<longrightarrow> inside_file b r' \<and> in_text_offset r' \<noteq> 0"
    using inspect_mach_o_safe [OF b] by blast
  have u: "unat (in_text_offset r') < 2 ^ 32" by (rule order_less_le_trans [OF unsigned_less]) simp
  have "text_callable (in_text_offset r') (of_nat (length b))" if "inside_file b r'"
    using that u file_sum [OF b, of "unat (in_text_offset r')" 4] by (simp add: text_callable_def inside_file_def)
  moreover note run_inspect_total [OF assms, of mapped]
  ultimately show ?thesis using i by (auto simp: inside_file_def unat_gt_0)
qed

text \<open>
  A file of one segment with two text sections, at 32 and at 64. The last one is the one reported.
\<close>

definition two_texts :: "u8 list" where
  "two_texts =
     [0xcf, 0xfa, 0xed, 0xfe, 0x0c, 0, 0, 1, 0, 0, 0, 0, 6, 0, 0, 0, 1, 0, 0, 0, 232, 0, 0, 0] @ replicate 8 0 @
     [0x19, 0, 0, 0, 232, 0, 0, 0] @ replicate 56 0 @ [2, 0, 0, 0, 0, 0, 0, 0] @
     [0x5f, 0x5f, 0x74, 0x65, 0x78, 0x74] @ replicate 10 0 @ [0x5f, 0x5f, 0x54, 0x45, 0x58, 0x54] @ replicate 10 0 @
     replicate 8 0 @ [8, 0, 0, 0, 0, 0, 0, 0, 32] @ replicate 31 0 @
     [0x5f, 0x5f, 0x74, 0x65, 0x78, 0x74] @ replicate 10 0 @ [0x5f, 0x5f, 0x54, 0x45, 0x58, 0x54] @ replicate 10 0 @
     replicate 8 0 @ [16, 0, 0, 0, 0, 0, 0, 0, 64] @ replicate 31 0"

theorem last_text_reported:
  "inspect_mach_o two_texts \<lparr>in_text_offset = 0, in_text_size = 0, in_signature_offset = 0, in_signature_size = 0\<rparr> =
     Some (0, \<lparr>in_text_offset = 64, in_text_size = 16, in_signature_offset = 0, in_signature_size = 0\<rparr>)"
  by code_simp

theorem run_inspect_safe_witness:
  "\<exists>e r'. inspect_mach_o two_texts \<lparr>in_text_offset = 0, in_text_size = 0, in_signature_offset = 0, in_signature_size = 0\<rparr> = Some (e, r') \<and>
     e = 0 \<and> text_callable (in_text_offset r') (of_nat (length two_texts))"
proof -
  have "length two_texts \<le> 64 * 2 ^ 20" by (simp add: two_texts_def)
  from run_inspect_safe [OF this, of True "\<lparr>in_text_offset = 0, in_text_size = 0, in_signature_offset = 0, in_signature_size = 0\<rparr>"]
  show ?thesis by (simp add: last_text_reported)
qed


section \<open>The home directory stays out of the log\<close>

lemma take_prefix: "take (length h) m = h \<longleftrightarrow> prefix h m"
  by (metis append_eq_conv_conj prefix_def)

lemma sanitize_prefix:
  "CHR ''~'' \<notin> set w \<Longrightarrow> prefix w (sanitize_loop home m out n) \<Longrightarrow> prefix w m"
proof (induction home m out n arbitrary: w rule: sanitize_loop.induct)
  case (1 home m out n)
  show ?case
  proof (cases w)
    case (Cons c w')
    have nz: "m \<noteq> []" "out + 1 < n" using "1.prems"(2) Cons by (subst (asm) sanitize_loop.simps, auto split: if_splits)+
    show ?thesis
    proof (cases "home \<noteq> [] \<and> take (length home) m = home")
      case True
      then have "c = CHR ''~''" using "1.prems"(2) Cons nz by (subst (asm) sanitize_loop.simps) auto
      then show ?thesis using "1.prems"(1) Cons by simp
    next
      case False
      then have e: "sanitize_loop home m out n = hd m # sanitize_loop home (tl m) (out + 1) n" using nz by (subst sanitize_loop.simps) auto
      have "c = hd m" "prefix w' (tl m)" using "1.prems" Cons "1.IH"(2) [of w'] nz False unfolding e by auto
      then show ?thesis using Cons nz(1) by (cases m) auto
    qed
  qed simp
qed

lemma sanitize_loop_hides:
  assumes "home \<noteq> []" "CHR ''~'' \<notin> set home"
  shows "\<not> sublist home (sanitize_loop home m out n)"
  using assms
proof (induction home m out n rule: sanitize_loop.induct)
  case (1 home m out n)
  consider "m = [] \<or> \<not> out + 1 < n" | "m \<noteq> []" "out + 1 < n" "take (length home) m = home" | "m \<noteq> []" "out + 1 < n" "take (length home) m \<noteq> home"
    by blast
  then show ?case
  proof cases
    case 1
    then show ?thesis using "1.prems"(1) by (subst sanitize_loop.simps) auto
  next
    case 2
    then show ?thesis using "1.IH"(1) "1.prems" by (subst sanitize_loop.simps) (cases home, auto simp: sublist_Cons_right)
  next
    case 3
    have "\<not> prefix home (sanitize_loop home m out n)" using sanitize_prefix [OF "1.prems"(2)] 3(3) take_prefix by blast
    then show ?thesis using 3 "1.IH"(2) "1.prems" by (subst sanitize_loop.simps, subst (asm) sanitize_loop.simps) (auto simp: sublist_Cons_right)
  qed
qed

lemma sanitize_loop_short: "out < n \<Longrightarrow> out + length (sanitize_loop home m out n) < n"
proof (induction home m out n rule: sanitize_loop.induct)
  case (1 home m out n)
  then show ?case by (subst sanitize_loop.simps) auto
qed

text \<open>A message prepared for the log fits its buffer with a null at the end and does not contain the home directory
  anywhere, wherever the buffer cuts it, as long as the name of that directory has no tilde in it.
\<close>

theorem sanitize_hides_home:
  assumes "home \<noteq> []" "CHR ''~'' \<notin> set home" "0 < n"
  shows "\<not> sublist home (sanitize (Some home) message n) \<and> length (sanitize (Some home) message n) < n"
  using assms sanitize_loop_hides [OF assms(1,2), of _ 0 n] sanitize_loop_short [OF assms(3), of home]
  by (cases message) (auto simp: sanitize_def)

theorem sanitize_hides_home_witness:
  "\<not> sublist ''/var/u'' (sanitize (Some ''/var/u'') (Some ''open /var/u/a'') 10) \<and>
   sanitize (Some ''/var/u'') (Some ''open /var/u/a'') 10 = ''open ~/a''"
proof (rule conjI)
  show "\<not> sublist ''/var/u'' (sanitize (Some ''/var/u'') (Some ''open /var/u/a'') 10)"
    using sanitize_hides_home [of "''/var/u''" 10 "Some ''open /var/u/a''"] by simp
  show "sanitize (Some ''/var/u'') (Some ''open /var/u/a'') 10 = ''open ~/a''" by code_simp
qed

end
