(* ===== verification/SignedProbe.thy ===== *)
theory SignedProbe
  imports SignedFile
begin

text \<open>
  The modes of the signed-file experiment, \<open>launcher/App/SignedFileProbe.c\<close>: each opens, maps and protects a file in its own
  way, calls the code in it and gives everything back. What the host answers is a record of outcomes; what a mode does to
  the host is the list of its calls, in order. A mapping is named by the variable that holds it. The printed lines are left
  out; \<open>None\<close> is a read outside the mapped file. Images opened with \<open>dlopen\<close> are never closed, as in the code.
\<close>

section \<open>Host\<close>

datatype mapping = Reading | Executable | Destination

datatype probe_event =
    Open
  | Close
  | Map mapping
  | Unmap mapping
  | Protect mapping
  | Remap mapping
  | Add_signatures u32 u32
  | Write_at mapping nat
  | Call_at mapping nat
  | Call_symbol

record ProbeHost =
  ph_file :: "u8 list option"
  ph_fstat :: bool
  ph_map_reading :: bool
  ph_map_executable :: bool
  ph_map_destination :: bool
  ph_protect_executable :: bool
  ph_protect_write :: bool
  ph_dlopen :: bool
  ph_symbol :: "u64 option"
  ph_dladdr :: bool
  ph_page :: u64
  ph_remap :: bool
  ph_remap_copy :: bool
  ph_own_path :: bool
  ph_own_file :: bool
  ph_call :: "mapping \<Rightarrow> nat \<Rightarrow> u32"
  ph_call_symbol :: u32

abbreviation (input) nothing_inspected :: Inspected where
  "nothing_inspected \<equiv> \<lparr>in_text_offset = 0, in_text_size = 0, in_signature_offset = 0, in_signature_size = 0\<rparr>"

section \<open>Modes\<close>

text \<open>The file when it can be opened, measured and is of a plausible size; otherwise what was done until then.\<close>

definition open_file :: "ProbeHost \<Rightarrow> probe_event list + u8 list" where
  "open_file h =
     (case ph_file h of
        None \<Rightarrow> Inl []
      | Some b \<Rightarrow> if \<not> ph_fstat h \<or> length b = 0 \<or> length b > 64 * 2 ^ 20 then Inl [Open, Close] else Inr b)"

definition run_exec :: "ProbeHost \<Rightarrow> bool \<Rightarrow> bool \<Rightarrow> u32 \<Rightarrow> (bool \<times> probe_event list) option" where
  "run_exec h mprotect_first attempt_write expected =
     (case open_file h of
        Inl ev \<Rightarrow> Some (False, ev)
      | Inr b \<Rightarrow>
          if \<not> ph_map_reading h then Some (False, [Open, Close])
          else do {
            (parse, r) \<leftarrow> inspect_mach_o b nothing_inspected;
            _ \<leftarrow> (if parse = 0 then describe_signature b (in_signature_offset r) (in_signature_size r) else Some []);
            (let ev = [Open, Map Reading, Unmap Reading]; at = unat (in_text_offset r)
             in if parse \<noteq> 0 \<or> \<not> text_callable (in_text_offset r) (of_nat (length b)) then Some (False, ev @ [Close])
                else if \<not> ph_map_executable h then Some (False, ev @ [Close])
                else if mprotect_first \<and> \<not> ph_protect_executable h
                then Some (False, ev @ [Map Executable, Protect Executable, Unmap Executable, Close])
                else let ev = ev @ [Map Executable] @ (if mprotect_first then [Protect Executable] else []) @ [Close]
                in do {
                  first_word \<leftarrow> mapped_at b at 4;
                  (let ev = ev @ (if attempt_write then Protect Executable # (if ph_protect_write h then [Write_at Executable at] else []) else []);
                       val = ph_call h Executable at
                   in Some (val = expected, ev @ [Call_at Executable at, Unmap Executable])) }) })"

definition run_dlopen :: "ProbeHost \<Rightarrow> u32 \<Rightarrow> (bool \<times> probe_event list) option" where
  "run_dlopen h expected =
     (if \<not> ph_dlopen h \<or> ph_symbol h = None then Some (False, []) else Some (ph_call_symbol h = expected, [Call_symbol]))"

definition run_remap :: "ProbeHost \<Rightarrow> bool \<Rightarrow> u32 \<Rightarrow> (bool \<times> probe_event list) option" where
  "run_remap h attempt_write expected =
     (case ph_symbol h of
        None \<Rightarrow> Some (False, [])
      | Some symbol \<Rightarrow>
          if \<not> ph_dlopen h \<or> \<not> ph_dladdr h \<or> \<not> ph_map_destination h then Some (False, [])
          else let page = ph_page h; source = symbol AND NOT (page - 1); offset_in_page = unat (symbol - source);
                   ev = [Map Destination, Remap Destination] @ (if ph_remap h then [] else [Remap Destination])
          in if \<not> ph_remap h \<and> \<not> ph_remap_copy h then Some (False, ev @ [Unmap Destination])
             else let ev = ev @ (if attempt_write then Protect Destination # (if ph_protect_write h then [Write_at Destination 0] else []) else [])
             in Some (ph_call h Destination offset_in_page = expected, ev @ [Call_at Destination offset_in_page, Unmap Destination]))"

text \<open>The image opened first is not used; the file is then mapped executable by the mode itself.\<close>

definition run_exec_after_dlopen :: "ProbeHost \<Rightarrow> u32 \<Rightarrow> (bool \<times> probe_event list) option" where
  "run_exec_after_dlopen h expected =
     (case open_file h of
        Inl ev \<Rightarrow> Some (False, ev)
      | Inr b \<Rightarrow>
          if \<not> ph_map_executable h then Some (False, [Open, Close])
          else do {
            (parse, r) \<leftarrow> inspect_mach_o b nothing_inspected;
            (let at = unat (in_text_offset r)
             in if parse \<noteq> 0 \<or> \<not> text_callable (in_text_offset r) (of_nat (length b))
                then Some (False, [Open, Map Executable, Unmap Executable, Close])
                else Some (ph_call h Executable at = expected, [Open, Map Executable, Call_at Executable at, Unmap Executable, Close])) })"

definition run_fcntl :: "ProbeHost \<Rightarrow> u32 \<Rightarrow> (bool \<times> probe_event list) option" where
  "run_fcntl h expected =
     (case open_file h of
        Inl ev \<Rightarrow> Some (False, ev)
      | Inr b \<Rightarrow>
          if \<not> ph_map_reading h then Some (False, [Open, Close])
          else do {
            (parse, r) \<leftarrow> inspect_mach_o b nothing_inspected;
            (let at = unat (in_text_offset r)
             in if parse \<noteq> 0 \<or> in_signature_offset r = 0 \<or> in_signature_size r = 0 \<or> \<not> text_callable (in_text_offset r) (of_nat (length b))
                then Some (False, [Open, Map Reading, Unmap Reading, Close])
                else let ev = [Open, Map Reading, Add_signatures (in_signature_offset r) (in_signature_size r), Unmap Reading]
                in if \<not> ph_map_executable h then Some (False, ev @ [Close])
                   else Some (ph_call h Executable at = expected, ev @ [Map Executable, Call_at Executable at, Unmap Executable, Close])) })"

definition run_self :: "ProbeHost \<Rightarrow> (bool \<times> probe_event list) option" where
  "run_self h =
     (if \<not> ph_own_path h \<or> \<not> ph_own_file h then Some (False, [])
      else if \<not> ph_map_executable h then Some (False, [Open, Close])
      else Some (True, [Open, Map Executable, Unmap Executable, Close]))"

text \<open>The inspection of \<open>SignedFile\<close> with what it does to the host; the file is closed as soon as it is mapped.\<close>

definition inspect_events :: "ProbeHost \<Rightarrow> (bool \<times> probe_event list) option" where
  "inspect_events h =
     (case open_file h of
        Inl ev \<Rightarrow> Some (False, ev)
      | Inr b \<Rightarrow>
          do { (ok, _) \<leftarrow> run_inspect (Some b) (ph_map_reading h);
               Some (ok, if ph_map_reading h then [Open, Map Reading, Close, Unmap Reading] else [Open, Close]) })"

definition HostSignedFileProbe :: "ProbeHost \<Rightarrow> string \<Rightarrow> u32 \<Rightarrow> (bool \<times> probe_event list) option" where
  "HostSignedFileProbe h mode expected =
     (if mode = ''inspect'' then inspect_events h
      else if mode = ''dlopen'' then run_dlopen h expected
      else if mode = ''mprotect'' then run_exec h True False expected
      else if mode = ''write'' then run_exec h False True expected
      else if mode = ''remap'' then run_remap h False expected
      else if mode = ''remapwrite'' then run_remap h True expected
      else if mode = ''execafter'' then run_exec_after_dlopen h expected
      else if mode = ''fcntl'' then run_fcntl h expected
      else if mode = ''self'' then run_self h
      else if mode = ''exec'' then run_exec h False False expected
      else Some (False, []))"

section \<open>What a mode leaves behind\<close>

datatype held = Descriptor | Mapped mapping

text \<open>What is held after some calls; \<open>None\<close> when something is released, changed or called that is not held.\<close>

fun holding :: "held set \<Rightarrow> probe_event list \<Rightarrow> held set option" where
  "holding hs [] = Some hs"
| "holding hs (Open # ev) = (if Descriptor \<in> hs then None else holding (insert Descriptor hs) ev)"
| "holding hs (Close # ev) = (if Descriptor \<in> hs then holding (hs - {Descriptor}) ev else None)"
| "holding hs (Map m # ev) = (if Mapped m \<in> hs then None else holding (insert (Mapped m) hs) ev)"
| "holding hs (Unmap m # ev) = (if Mapped m \<in> hs then holding (hs - {Mapped m}) ev else None)"
| "holding hs (Protect m # ev) = (if Mapped m \<in> hs then holding hs ev else None)"
| "holding hs (Remap m # ev) = (if Mapped m \<in> hs then holding hs ev else None)"
| "holding hs (Write_at m k # ev) = (if Mapped m \<in> hs then holding hs ev else None)"
| "holding hs (Call_at m k # ev) = (if Mapped m \<in> hs then holding hs ev else None)"
| "holding hs (Add_signatures x y # ev) = (if Descriptor \<in> hs then holding hs ev else None)"
| "holding hs (Call_symbol # ev) = holding hs ev"

text \<open>Every instruction of the file that is entered or overwritten is aligned and lies inside it, and signatures are ranges of it.\<close>

fun inside_event :: "u8 list \<Rightarrow> probe_event \<Rightarrow> bool" where
  "inside_event b (Call_at Executable k) \<longleftrightarrow> k mod 4 = 0 \<and> k + 4 \<le> length b"
| "inside_event b (Write_at Executable k) \<longleftrightarrow> k mod 4 = 0 \<and> k + 4 \<le> length b"
| "inside_event b (Add_signatures x y) \<longleftrightarrow> unat x + unat y \<le> length b"
| "inside_event b _ \<longleftrightarrow> True"

definition probe_ok :: "ProbeHost \<Rightarrow> (bool \<times> probe_event list) option \<Rightarrow> bool" where
  "probe_ok h res \<longleftrightarrow>
     (case res of
        None \<Rightarrow> False
      | Some (ok, ev) \<Rightarrow> holding {} ev = Some {} \<and> (\<forall>b. ph_file h = Some b \<longrightarrow> list_all (inside_event b) ev) \<and>
          (ph_file h = None \<longrightarrow> (\<forall>k. Call_at Executable k \<notin> set ev)))"

lemma aligned_mod: "(w :: u32) AND 3 = 0 \<Longrightarrow> unat w mod 4 = 0"
proof -
  assume "w AND 3 = 0"
  moreover have "w AND 3 = take_bit 2 w" by (simp add: take_bit_eq_mask mask_eq_exp_minus_1)
  ultimately have "w mod 4 = 0" by (simp add: take_bit_eq_mod)
  then have "unat (w mod 4) = 0" by (simp only: unsigned_0)
  then show ?thesis by (simp add: unat_mod)
qed

lemma open_file_Inr: "open_file h = Inr b \<Longrightarrow> ph_file h = Some b \<and> length b \<le> 64 * 2 ^ 20"
  by (auto simp: open_file_def split: option.splits if_splits)

lemma open_file_Inl: "open_file h = Inl ev \<Longrightarrow> ev = [] \<or> ev = [Open, Close]"
  by (auto simp: open_file_def split: option.splits if_splits)

lemma probe_ok_start: "open_file h = Inl ev \<Longrightarrow> probe_ok h (Some (False, ev))"
  using open_file_Inl by (fastforce simp: probe_ok_def)

text \<open>What an opened file gives: an inspection without faults, and an accepted text inside the file.\<close>

lemma inspected:
  assumes "open_file h = Inr b"
  obtains parse r where "inspect_mach_o b nothing_inspected = Some (parse, r)"
    "parse = 0 \<Longrightarrow> unat (in_text_offset r) mod 4 = 0 \<and> unat (in_text_offset r) + 4 \<le> length b \<and>
       unat (in_signature_offset r) + unat (in_signature_size r) \<le> length b"
    "\<exists>lines. describe_signature b (in_signature_offset r) (in_signature_size r) = Some lines"
proof -
  have b: "length b < 2 ^ 63" using open_file_Inr [OF assms] by simp
  obtain parse r where i: "inspect_mach_o b nothing_inspected = Some (parse, r)" "parse = 0 \<longrightarrow> inside_file b r"
    using inspect_mach_o_safe [OF b, of nothing_inspected] by blast
  show ?thesis
    by (rule that [OF i(1)]) (use i(2) describe_signature_inside [OF b] in \<open>auto simp: inside_file_def aligned_mod\<close>)
qed

lemma run_exec_ok: "probe_ok h (run_exec h first attempt expected)"
proof (cases "open_file h")
  case (Inl ev)
  then show ?thesis using probe_ok_start [OF Inl] by (simp add: run_exec_def)
next
  case (Inr b)
  obtain parse r where i: "inspect_mach_o b nothing_inspected = Some (parse, r)"
    "parse = 0 \<Longrightarrow> unat (in_text_offset r) mod 4 = 0 \<and> unat (in_text_offset r) + 4 \<le> length b \<and>
       unat (in_signature_offset r) + unat (in_signature_size r) \<le> length b"
    "\<exists>lines. describe_signature b (in_signature_offset r) (in_signature_size r) = Some lines"
    using inspected [OF Inr] by blast
  obtain lines where l: "(if parse = 0 then describe_signature b (in_signature_offset r) (in_signature_size r) else Some []) = Some lines"
    using i(3) by (cases "parse = 0") auto
  have m: "\<exists>w. mapped_at b (unat (in_text_offset r)) 4 = Some w" if "parse = 0" using i(2) [OF that] mapped_at_inside [of "unat (in_text_offset r)" 4 b] by auto
  show ?thesis using i(1,2) l m open_file_Inr [OF Inr]
    by (auto simp: run_exec_def Inr Let_def probe_ok_def)
qed


lemma run_remap_ok: "probe_ok h (run_remap h attempt expected)"
  by (auto simp: run_remap_def Let_def probe_ok_def split: option.splits)

lemma run_exec_after_dlopen_ok: "probe_ok h (run_exec_after_dlopen h expected)"
proof (cases "open_file h")
  case (Inl ev)
  then show ?thesis using probe_ok_start [OF Inl] by (simp add: run_exec_after_dlopen_def)
next
  case (Inr b)
  show ?thesis
    by (rule inspected [OF Inr]) (use open_file_Inr [OF Inr] in \<open>auto simp: run_exec_after_dlopen_def Inr Let_def probe_ok_def\<close>)
qed

lemma run_fcntl_ok: "probe_ok h (run_fcntl h expected)"
proof (cases "open_file h")
  case (Inl ev)
  then show ?thesis using probe_ok_start [OF Inl] by (simp add: run_fcntl_def)
next
  case (Inr b)
  show ?thesis
    by (rule inspected [OF Inr]) (use open_file_Inr [OF Inr] in \<open>auto simp: run_fcntl_def Inr Let_def probe_ok_def\<close>)
qed

lemma inspect_events_ok: "probe_ok h (inspect_events h)"
proof (cases "open_file h")
  case (Inl ev)
  then show ?thesis using probe_ok_start [OF Inl] by (simp add: inspect_events_def)
next
  case (Inr b)
  obtain ok lines where "run_inspect (Some b) (ph_map_reading h) = Some (ok, lines)"
    using run_inspect_total [of b "ph_map_reading h"] open_file_Inr [OF Inr] by auto
  then show ?thesis using open_file_Inr [OF Inr] by (auto simp: inspect_events_def Inr probe_ok_def)
qed

lemma calls_inspect: "inspect_events h = Some (ok, ev) \<Longrightarrow> Call_at m k \<notin> set ev \<and> Call_symbol \<notin> set ev"
  using open_file_Inl [of h] by (fastforce simp: inspect_events_def split: sum.splits bind_splits if_splits)

text \<open>
  Whatever the host answers, every mode of the experiment returns without a read outside the mapped file, closes the
  file and releases every mapping it made, once and only while it holds them, and enters code only in a mapping it
  holds; code of the file is entered or overwritten only at aligned instructions inside it, after the file was accepted, and
  the signature it attaches is a range of the file. An unknown mode does nothing at all and the mode inspect enters no code.
\<close>

theorem HostSignedFileProbe_safe:
  "probe_ok h (HostSignedFileProbe h mode expected) \<and>
   (mode \<notin> {''inspect'', ''dlopen'', ''mprotect'', ''write'', ''remap'', ''remapwrite'', ''execafter'', ''fcntl'', ''self'', ''exec''} \<longrightarrow>
      HostSignedFileProbe h mode expected = Some (False, [])) \<and>
   (\<forall>ok ev m k. HostSignedFileProbe h ''inspect'' expected = Some (ok, ev) \<longrightarrow> Call_at m k \<notin> set ev \<and> Call_symbol \<notin> set ev)"
proof -
  have "probe_ok h (run_dlopen h expected)" "probe_ok h (run_self h)" "probe_ok h (Some (False, []))"
    by (simp_all add: run_dlopen_def run_self_def probe_ok_def)
  then have "probe_ok h (HostSignedFileProbe h mode expected)"
    by (simp add: HostSignedFileProbe_def inspect_events_ok run_exec_ok run_remap_ok run_exec_after_dlopen_ok run_fcntl_ok)
  then show ?thesis using calls_inspect by (auto simp: HostSignedFileProbe_def)
qed

end
