(* ===== verification/GuestUnwind.thy ===== *)
theory GuestUnwind
  imports GuestImage
begin

text \<open>
  The images the unwinder of the host looks in, \<open>runtime/GuestUnwind.c\<close>: a table of at most 65 placed images with their
  code ranges and unwind sections, and the callback that finds the sections for a program counter. Only the
  entries below the count are ever read, so the table is the list of those. Whether the host offers the two
  registration functions, and what they answer, are arguments.
\<close>

section \<open>Operations\<close>

record NGUnwindSections =
  us_header :: u64
  us_dwarf :: u64
  us_dwarf_size :: u64
  us_compact :: u64
  us_compact_size :: u64

abbreviation (input) NG_UNWIND_IMAGES :: nat where "NG_UNWIND_IMAGES \<equiv> 65"

record UnwindImage =
  ui_sections :: NGUnwindSections
  ui_code :: "(u64 \<times> u64) list"

record Unwind =
  uw_images :: "UnwindImage list"
  uw_registered :: bool

primrec find_sections :: "UnwindImage list \<Rightarrow> u64 \<Rightarrow> NGUnwindSections option" where
  "find_sections [] pc = None"
| "find_sections (i # is) pc =
     (if list_ex (\<lambda>(start, n). pc \<ge> start \<and> pc - start < n) (ui_code i) then Some (ui_sections i) else find_sections is pc)"

definition section_valid :: "GuestImage \<Rightarrow> u64 \<Rightarrow> u64 \<Rightarrow> u64 \<Rightarrow> bool" where
  "section_valid img a n slide \<longleftrightarrow>
     (if n = 0 then a = 0
      else if a > UINT64_MAX - slide \<or> n > UINT64_MAX - (a + slide) then False
      else list_ex (\<lambda>s. gs_prot s AND GM_READ \<noteq> 0 \<and> a \<ge> gs_address s \<and> a - gs_address s \<le> gs_file_size s \<and>
        n \<le> gs_file_size s - (a - gs_address s)) (gi_segments img))"

text \<open>The code ranges of the segments, \<open>None\<close> when one of them wraps.\<close>

primrec code_ranges :: "GISegment list \<Rightarrow> u64 \<Rightarrow> (u64 \<times> u64) list option" where
  "code_ranges [] slide = Some []"
| "code_ranges (s # ss) slide =
     (if gs_prot s AND GM_EXEC = 0 \<or> gs_size s = 0 then code_ranges ss slide
      else if gs_address s > UINT64_MAX - slide \<or> gs_size s > UINT64_MAX - (gs_address s + slide) then None
      else map_option ((#) (gs_address s + slide, gs_size s)) (code_ranges ss slide))"

text \<open>\<open>available\<close>: both registration functions exist; \<open>added\<close>: the registration succeeds.\<close>

definition ng_unwind_add :: "GuestImage option \<Rightarrow> u64 \<Rightarrow> bool \<Rightarrow> bool \<Rightarrow> Unwind \<Rightarrow> bool \<times> Unwind" where
  "ng_unwind_add image0 slide available added st =
     (case image0 of
        None \<Rightarrow> (False, st)
      | Some img \<Rightarrow>
          if length (gi_segments img) > GI_MAX_SEGMENTS \<or> gi_header_address img > UINT64_MAX - slide \<or>
             \<not> section_valid img (gi_unwind_address img) (gi_unwind_size img) slide \<or>
             \<not> section_valid img (gi_eh_frame_address img) (gi_eh_frame_size img) slide then (False, st)
          else if gi_unwind_size img = 0 \<and> gi_eh_frame_size img = 0 then (True, st)
          else if length (uw_images st) = NG_UNWIND_IMAGES then (False, st)
          else let header = gi_header_address img + slide
          in if list_ex (\<lambda>i. us_header (ui_sections i) = header) (uw_images st) then (False, st)
             else (case code_ranges (gi_segments img) slide of
                     None \<Rightarrow> (False, st)
                   | Some [] \<Rightarrow> (False, st)
                   | Some code \<Rightarrow>
                       let sections = \<lparr>us_header = header,
                             us_dwarf = (if gi_eh_frame_size img \<noteq> 0 then gi_eh_frame_address img + slide else 0),
                             us_dwarf_size = gi_eh_frame_size img,
                             us_compact = (if gi_unwind_size img \<noteq> 0 then gi_unwind_address img + slide else 0),
                             us_compact_size = gi_unwind_size img\<rparr>
                       in if \<not> uw_registered st \<and> (\<not> available \<or> \<not> added) then (False, st)
                          else (True, \<lparr>uw_images = uw_images st @ [\<lparr>ui_sections = sections, ui_code = code\<rparr>], uw_registered = True\<rparr>)))"

definition ng_unwind_reset :: "bool \<Rightarrow> Unwind \<Rightarrow> bool \<times> Unwind" where
  "ng_unwind_reset removed st =
     (if uw_registered st \<and> \<not> removed then (False, st) else (True, \<lparr>uw_images = [], uw_registered = False\<rparr>))"

section \<open>Ranges and lookups\<close>

definition code_address :: "GuestImage \<Rightarrow> u64 \<Rightarrow> u64 \<Rightarrow> bool" where
  "code_address img slide pc \<longleftrightarrow>
     (\<exists>s \<in> set (gi_segments img). gs_prot s AND GM_EXEC \<noteq> 0 \<and> unat (gs_address s) + unat slide \<le> unat pc \<and>
        unat pc < unat (gs_address s) + unat slide + unat (gs_size s))"

definition in_code :: "(u64 \<times> u64) list \<Rightarrow> u64 \<Rightarrow> bool" where
  "in_code code pc \<longleftrightarrow> list_ex (\<lambda>(start, n). pc \<ge> start \<and> pc - start < n) code"

lemma find_sections_append:
  "find_sections (is @ js) pc = (case find_sections is pc of None \<Rightarrow> find_sections js pc | r \<Rightarrow> r)"
  by (induction "is") auto

lemma slid_range:
  assumes "\<not> (a > UINT64_MAX - slide)" and "\<not> (n > UINT64_MAX - (a + slide))"
  shows "unat (a + slide) = unat a + unat slide" and "unat a + unat slide + unat n < 2 ^ 64"
    and "(pc \<ge> a + slide \<and> pc - (a + slide) < n) \<longleftrightarrow> unat a + unat slide \<le> unat pc \<and> unat pc < unat a + unat slide + unat n"
proof -
  have "unat slide + unat a < 2 ^ 64" using assms(1) by (simp add: not_less fits_iff)
  then show s: "unat (a + slide) = unat a + unat slide" by (simp add: unat_plus_nowrap add.commute)
  show "unat a + unat slide + unat n < 2 ^ 64" using assms(2) s by (simp add: not_less fits_iff)
  show "(pc \<ge> a + slide \<and> pc - (a + slide) < n) \<longleftrightarrow> unat a + unat slide \<le> unat pc \<and> unat pc < unat a + unat slide + unat n"
  proof (cases "a + slide \<le> pc")
    case True
    then have "unat (pc - (a + slide)) = unat pc - (unat a + unat slide)" using s by (simp add: unat_sub_le)
    then show ?thesis using True s by (auto simp: word_less_nat_alt word_le_nat_alt)
  next
    case False
    then show ?thesis using s by (auto simp: word_le_nat_alt)
  qed
qed

lemma code_ranges_in_code:
  assumes "code_ranges ss slide = Some code"
  shows "in_code code pc \<longleftrightarrow> (\<exists>s \<in> set ss. gs_prot s AND GM_EXEC \<noteq> 0 \<and> unat (gs_address s) + unat slide \<le> unat pc \<and>
        unat pc < unat (gs_address s) + unat slide + unat (gs_size s))"
  using assms
proof (induction ss arbitrary: code)
  case (Cons s ss)
  show ?case
  proof (cases "gs_prot s AND GM_EXEC = 0 \<or> gs_size s = 0")
    case True
    then show ?thesis using Cons by auto
  next
    case False
    then obtain rest where r: "code_ranges ss slide = Some rest" "code = (gs_address s + slide, gs_size s) # rest"
        "\<not> (gs_address s > UINT64_MAX - slide)" "\<not> (gs_size s > UINT64_MAX - (gs_address s + slide))"
      using Cons.prems by (auto split: if_splits)
    then show ?thesis using False Cons.IH [OF r(1)] slid_range(3) [OF r(3,4), of pc] by (auto simp: in_code_def)
  qed
qed (simp add: in_code_def)

section \<open>The sections\<close>

definition slid_inside :: "GuestImage \<Rightarrow> u64 \<Rightarrow> u64 \<Rightarrow> u64 \<Rightarrow> bool" where
  "slid_inside img slide a n \<longleftrightarrow>
     n = 0 \<and> a = 0 \<or>
     (\<exists>s \<in> set (gi_segments img). gs_prot s AND GM_READ \<noteq> 0 \<and> unat (gs_address s) + unat slide \<le> unat a \<and>
        unat a + unat n \<le> unat (gs_address s) + unat slide + unat (gs_file_size s) \<and> unat a + unat n < 2 ^ 64)"

lemma section_valid_inside:
  assumes "section_valid img a n slide"
  shows "slid_inside img slide (if n \<noteq> 0 then a + slide else 0) n"
proof (cases "n = 0")
  case False
  then obtain s where s: "s \<in> set (gi_segments img)" "gs_prot s AND GM_READ \<noteq> 0" "gs_address s \<le> a" "a - gs_address s \<le> gs_file_size s"
      "n \<le> gs_file_size s - (a - gs_address s)" and r: "\<not> (a > UINT64_MAX - slide)" "\<not> (n > UINT64_MAX - (a + slide))"
    using assms by (auto simp: section_valid_def list_ex_iff split: if_splits)
  note u = slid_range [OF r]
  have "unat (gs_address s) \<le> unat a" "unat a + unat n \<le> unat (gs_address s) + unat (gs_file_size s)"
    using s(3-5) by (auto simp: word_le_nat_alt unat_sub_le)
  then show ?thesis using False s(1,2) u(1,2) by (auto simp: slid_inside_def intro!: bexI [of _ s])
qed (simp add: slid_inside_def)


section \<open>Reachable tables\<close>

inductive unwind_reachable :: "Unwind \<Rightarrow> bool" where
  unwind_none: "unwind_reachable \<lparr>uw_images = [], uw_registered = False\<rparr>"
| unwind_add: "unwind_reachable st \<Longrightarrow> ng_unwind_add img slide available added st = (r, st') \<Longrightarrow> unwind_reachable st'"
| unwind_reset: "unwind_reachable st \<Longrightarrow> ng_unwind_reset removed st = (r, st') \<Longrightarrow> unwind_reachable st'"

definition unwind_ok :: "Unwind \<Rightarrow> bool" where
  "unwind_ok st \<longleftrightarrow>
     length (uw_images st) \<le> NG_UNWIND_IMAGES \<and> distinct (map (us_header \<circ> ui_sections) (uw_images st)) \<and>
     (uw_images st \<noteq> [] \<longrightarrow> uw_registered st) \<and> list_all (\<lambda>i. ui_code i \<noteq> []) (uw_images st)"

definition placed_sections :: "GuestImage \<Rightarrow> u64 \<Rightarrow> NGUnwindSections \<Rightarrow> bool" where
  "placed_sections img slide u \<longleftrightarrow>
     unat (us_header u) = unat (gi_header_address img) + unat slide \<and>
     us_dwarf_size u = gi_eh_frame_size img \<and> slid_inside img slide (us_dwarf u) (us_dwarf_size u) \<and>
     us_compact_size u = gi_unwind_size img \<and> slid_inside img slide (us_compact u) (us_compact_size u)"

lemma ng_unwind_add_cases:
  assumes "ng_unwind_add image0 slide available added st = (ok, st')"
  obtains (same) "st' = st" "ok \<longrightarrow> (\<exists>img. image0 = Some img \<and> gi_unwind_size img = 0 \<and> gi_eh_frame_size img = 0)"
  | (new) img u code where "ok" "image0 = Some img" "gi_unwind_size img \<noteq> 0 \<or> gi_eh_frame_size img \<noteq> 0" "length (uw_images st) \<noteq> NG_UNWIND_IMAGES"
      "us_header u \<notin> (us_header \<circ> ui_sections) ` set (uw_images st)" "code \<noteq> []" "code_ranges (gi_segments img) slide = Some code"
      "placed_sections img slide u" "st' = \<lparr>uw_images = uw_images st @ [\<lparr>ui_sections = u, ui_code = code\<rparr>], uw_registered = True\<rparr>"
proof (cases "ok \<and> (\<exists>img. image0 = Some img \<and> (gi_unwind_size img \<noteq> 0 \<or> gi_eh_frame_size img \<noteq> 0))")
  case False
  then show ?thesis
    by (intro same) (use assms in \<open>auto simp: ng_unwind_add_def Let_def split: option.splits list.splits if_splits\<close>)
next
  case True
  then obtain img where img: "ok" "image0 = Some img" "gi_unwind_size img \<noteq> 0 \<or> gi_eh_frame_size img \<noteq> 0" by blast
  define u where "u = \<lparr>us_header = gi_header_address img + slide,
      us_dwarf = (if gi_eh_frame_size img \<noteq> 0 then gi_eh_frame_address img + slide else 0), us_dwarf_size = gi_eh_frame_size img,
      us_compact = (if gi_unwind_size img \<noteq> 0 then gi_unwind_address img + slide else 0), us_compact_size = gi_unwind_size img\<rparr>"
  have h: "\<not> gi_header_address img > UINT64_MAX - slide" "section_valid img (gi_unwind_address img) (gi_unwind_size img) slide"
      "section_valid img (gi_eh_frame_address img) (gi_eh_frame_size img) slide" "length (uw_images st) \<noteq> NG_UNWIND_IMAGES"
      "\<not> list_ex (\<lambda>i. us_header (ui_sections i) = gi_header_address img + slide) (uw_images st)"
    using assms img by (auto simp: ng_unwind_add_def Let_def split: if_splits)
  obtain code where c: "code_ranges (gi_segments img) slide = Some code" "code \<noteq> []"
      "st' = \<lparr>uw_images = uw_images st @ [\<lparr>ui_sections = u, ui_code = code\<rparr>], uw_registered = True\<rparr>"
    using assms img h by (auto simp: ng_unwind_add_def u_def Let_def split: if_splits option.splits list.splits)
  have "placed_sections img slide u"
    using section_valid_inside [OF h(2)] section_valid_inside [OF h(3)] h(1)
    by (simp add: placed_sections_def u_def not_less fits_iff unat_plus_nowrap add.commute)
  moreover have "us_header u \<notin> (us_header \<circ> ui_sections) ` set (uw_images st)"
    using h(5) by (auto simp: u_def list_ex_iff image_iff)
  ultimately show ?thesis using img h(4) c by (intro new)
qed

lemma unwind_reachable_ok: "unwind_reachable st \<Longrightarrow> unwind_ok st"
proof (induction rule: unwind_reachable.induct)
  case (unwind_add st img slide available added r st')
  from unwind_add(2) show ?case
  proof (cases rule: ng_unwind_add_cases)
    case same
    then show ?thesis using unwind_add by simp
  next
    case new
    then show ?thesis using unwind_add(3) by (auto simp: unwind_ok_def)
  qed
qed (auto simp: unwind_ok_def ng_unwind_reset_def split: if_splits)

section \<open>Properties\<close>

text \<open>C32. In every reachable table, registering an image that fails changes no lookup. One that succeeds keeps all lookups
  that had an answer, and for the other addresses answers with the sections of the new image exactly in its
  executable segments, slid; those sections lie in file-backed readable bytes of the image. The table
  holds at most 65 images with distinct headers, and the finder is registered while it holds any.\<close>

theorem ng_unwind_add_correct:
  assumes "unwind_reachable st" and "ng_unwind_add image0 slide available added st = (ok, st')"
  shows "unwind_ok st' \<and> (\<not> ok \<longrightarrow> st' = st) \<and>
    (ok \<longrightarrow> (\<exists>img. image0 = Some img \<and>
       (if gi_unwind_size img = 0 \<and> gi_eh_frame_size img = 0 then st' = st
        else \<exists>u. placed_sections img slide u \<and>
          (\<forall>pc. find_sections (uw_images st') pc =
             (case find_sections (uw_images st) pc of
                None \<Rightarrow> if code_address img slide pc then Some u else None
              | Some v \<Rightarrow> Some v)))))"
proof -
  have "unwind_ok st'" by (rule unwind_reachable_ok [OF unwind_reachable.unwind_add [OF assms]])
  from assms(2) show ?thesis
  proof (cases rule: ng_unwind_add_cases)
    case same
    then show ?thesis using \<open>unwind_ok st'\<close> by auto
  next
    case (new img u code)
    have "find_sections (uw_images st') pc = (case find_sections (uw_images st) pc of
        None \<Rightarrow> if code_address img slide pc then Some u else None | Some v \<Rightarrow> Some v)" for pc
      using code_ranges_in_code [OF new(7), of pc]
      by (auto simp: new(9) find_sections_append code_address_def in_code_def split: option.splits)
    then show ?thesis using new(1-3,8) \<open>unwind_ok st'\<close> by auto
  qed
qed

definition unwind_image :: GuestImage where
  "unwind_image = gi_zero\<lparr>gi_segments := [\<lparr>gs_name = ''__TEXT'', gs_address = 0x4000, gs_size = 0x4000, gs_file_offset = 0,
     gs_file_size = 0x4000, gs_prot = 5, gs_maxprot = 5\<rparr>], gi_header_address := 0x4000, gi_unwind_address := 0x5000, gi_unwind_size := 16\<rparr>"

theorem ng_unwind_add_correct_witness:
  "\<exists>st' u. ng_unwind_add (Some unwind_image) 0x10000 True True \<lparr>uw_images = [], uw_registered = False\<rparr> = (True, st') \<and>
     find_sections (uw_images st') 0x14000 = Some u \<and> us_compact_size u = 16"
proof -
  obtain ok st' where eq: "ng_unwind_add (Some unwind_image) 0x10000 True True \<lparr>uw_images = [], uw_registered = False\<rparr> = (ok, st')"
    by (metis prod.exhaust)
  have "fst (ng_unwind_add (Some unwind_image) 0x10000 True True \<lparr>uw_images = [], uw_registered = False\<rparr>)" by code_simp
  then have ok by (simp add: eq)
  moreover have "code_address unwind_image 0x10000 0x14000" by (simp add: code_address_def unwind_image_def)
  ultimately show ?thesis
    using ng_unwind_add_correct [OF unwind_none eq] eq by (auto simp: unwind_image_def placed_sections_def gi_zero_def)
qed

end
