(* ===== verification/GuestPaths.thy ===== *)
theory GuestPaths
  imports Prelude
begin

text \<open>
  Case-insensitive path lookup, \<open>runtime/GuestPaths.c\<close>: each component of a path that does not exist as written is replaced by the
  one entry of its directory that equals it up to ASCII case. A path is a string without its terminating zero.
  The file system is a record of the two functions of the interface; it does not change during a call. A directory has
  fewer than \<open>2\<^sup>3\<^sup>2\<close> entries, the range of the counter of matches.
\<close>

section \<open>Lookup\<close>

record GPFiles =
  gp_exists :: "string \<Rightarrow> nat"
  gp_list :: "string \<Rightarrow> string list option"

abbreviation (input) ENOENT :: nat where "ENOENT \<equiv> 2"
abbreviation (input) NAME_MAX :: nat where "NAME_MAX \<equiv> 255"
abbreviation (input) PATH_MAX :: nat where "PATH_MAX \<equiv> 1024"

text \<open>Characters as \<open>strncasecmp\<close> compares them.\<close>

definition lower_char :: "char \<Rightarrow> char" where
  "lower_char c = (if of_char c \<ge> (65 :: nat) \<and> of_char c \<le> (90 :: nat) then char_of (of_char c + 32 :: nat) else c)"

text \<open>The matches so far: their number and the first of them.\<close>

definition consider_entry :: "string \<Rightarrow> string \<Rightarrow> nat \<times> string \<Rightarrow> nat \<times> string" where
  "consider_entry component name search =
     (if length name \<noteq> length component \<or> map lower_char name \<noteq> map lower_char component then search
      else (fst search + 1, if fst search = 0 then name else snd search))"

text \<open>The directory of the component that starts after \<open>before\<close>.\<close>

fun strip_slashes :: "string \<Rightarrow> nat \<Rightarrow> nat" where
  "strip_slashes out prefix =
     (if prefix > 1 \<and> out ! (prefix - 1) = CHR ''/'' then strip_slashes out (prefix - 1) else prefix)"

declare strip_slashes.simps [simp del]

definition search_directory :: "string \<Rightarrow> nat \<Rightarrow> string" where
  "search_directory out start = (let prefix = strip_slashes out start in if prefix = 0 then ''.'' else take prefix out)"

definition dots :: "string \<Rightarrow> bool" where
  "dots component \<longleftrightarrow>
     component ! 0 = CHR ''.'' \<and> (length component = 1 \<or> length component = 2 \<and> component ! 1 = CHR ''.'')"

text \<open>The replacement of a component that does not exist, \<open>None\<close> when there is none or more than one.\<close>

definition replacement :: "GPFiles \<Rightarrow> string \<Rightarrow> nat \<Rightarrow> string \<Rightarrow> string option" where
  "replacement files out start component =
     (if length component > NAME_MAX then None
      else case gp_list files (search_directory out start) of
        None \<Rightarrow> None
      | Some names \<Rightarrow>
          let search = fold (consider_entry component) names (0, [])
          in if fst search \<noteq> 1 then None else Some (snd search))"

definition component_at :: "string \<Rightarrow> nat \<Rightarrow> string" where
  "component_at out start = takeWhile (\<lambda>c. c \<noteq> CHR ''/'') (drop start out)"

lemma component_length:
  "start < length out \<Longrightarrow> out ! start \<noteq> CHR ''/'' \<Longrightarrow> 0 < length (component_at out start) \<and> start + length (component_at out start) \<le> length out"
  using length_takeWhile_le [of "\<lambda>c. c \<noteq> CHR ''/''" "drop start out"]
  by (auto simp: component_at_def Cons_nth_drop_Suc [symmetric])

lemma component_advance:
  "start < length out \<Longrightarrow> out ! start \<noteq> CHR ''/'' \<Longrightarrow> n \<le> length out - (start + length (component_at out start)) \<Longrightarrow> n < length out - start"
  using component_length [of start out] by linarith

text \<open>The loop over the components; the result and the buffer. A replacement has the length of the component, so the length of
  the buffer's content stays that of the path.\<close>

function components_loop :: "GPFiles \<Rightarrow> string \<Rightarrow> nat \<Rightarrow> bool \<Rightarrow> bool \<times> string" where
  "components_loop files out start changed =
     (if start < length out then
        if out ! start = CHR ''/'' then components_loop files out (start + 1) changed
        else let component = component_at out start; e = start + length component
        in if dots component then components_loop files out e changed
           else let error = gp_exists files (take e out)
           in if error = ENOENT
              then case replacement files out start component of
                     None \<Rightarrow> (False, out)
                   | Some name \<Rightarrow> components_loop files (take start out @ take (length component) name @ drop e out) e True
              else if error \<noteq> 0 then (False, out)
              else components_loop files out e changed
      else (changed, out))"
  by pat_completeness auto
termination
  by (relation "measure (\<lambda>(files, out, start, changed). length out - start)")
    (auto simp: min_def intro: component_advance)

declare components_loop.simps [simp del]

text \<open>\<open>path\<close> and \<open>out\<close> are \<open>None\<close> for null pointers. The buffer keeps its content when nothing is copied to it.\<close>

definition gp_case_insensitive :: "GPFiles \<Rightarrow> string option \<Rightarrow> string option \<Rightarrow> nat \<Rightarrow> bool \<times> string option" where
  "gp_case_insensitive files path out n =
     (case (path, out) of
        (Some p, Some b) \<Rightarrow>
          if n = 0 \<or> length p = 0 \<or> length p \<ge> n \<or> length p \<ge> PATH_MAX then (False, out)
          else let (r, b) = components_loop files p 0 False in (r, Some b)
      | _ \<Rightarrow> (False, out))"


section \<open>Components\<close>

definition component_start :: "string \<Rightarrow> nat \<Rightarrow> bool" where
  "component_start out s \<longleftrightarrow> s < length out \<and> out ! s \<noteq> CHR ''/'' \<and> (s = 0 \<or> out ! (s - 1) = CHR ''/'')"

text \<open>Every component that starts before \<open>i\<close>, except the names of the directory itself and its parent, exists.\<close>

definition resolved :: "GPFiles \<Rightarrow> string \<Rightarrow> nat \<Rightarrow> bool" where
  "resolved files out i \<longleftrightarrow>
     (\<forall>s<i. component_start out s \<and> \<not> dots (component_at out s) \<longrightarrow> gp_exists files (take s out @ component_at out s) = 0)"

text \<open>What a listing promises: an entry exists as a path.\<close>

definition lists_existing :: "GPFiles \<Rightarrow> bool" where
  "lists_existing files \<longleftrightarrow>
     (\<forall>out start names n. start \<le> length out \<and> (start = 0 \<or> out ! (start - 1) = CHR ''/'') \<and>
        gp_list files (search_directory out start) = Some names \<and> n \<in> set names \<longrightarrow> gp_exists files (take start out @ n) = 0)"

lemma lower_slash: "lower_char c = CHR ''/'' \<longleftrightarrow> c = CHR ''/''"
proof (cases "of_char c \<ge> (65 :: nat) \<and> of_char c \<le> (90 :: nat)")
  case True
  then have "of_char (lower_char c) = of_char c + (32 :: nat)" by (simp add: lower_char_def)
  moreover have "of_char (CHR ''/'') = (47 :: nat)" by simp
  ultimately have "of_char (lower_char c) \<noteq> (of_char (CHR ''/'') :: nat)" "of_char c \<noteq> (of_char (CHR ''/'') :: nat)" using True by linarith+
  then show ?thesis by auto
qed (auto simp: lower_char_def)

lemma lower_same_slashes: "map lower_char xs = map lower_char ys \<Longrightarrow> CHR ''/'' \<in> set xs \<longleftrightarrow> CHR ''/'' \<in> set ys"
  using lower_slash by (metis (no_types, lifting) image_iff list.set_map)

lemma component_split:
  assumes "start \<le> length out"
  defines "c \<equiv> component_at out start"
  shows "CHR ''/'' \<notin> set c" and "take (start + length c) out = take start out @ c"
    and "start + length c \<le> length out" and "start + length c < length out \<Longrightarrow> out ! (start + length c) = CHR ''/''"
    and "i < length c \<Longrightarrow> out ! (start + i) \<noteq> CHR ''/''"
proof -
  let ?r = "drop start out"
  have r: "?r = c @ dropWhile (\<lambda>c. c \<noteq> CHR ''/'') ?r" by (simp add: c_def component_at_def)
  show "CHR ''/'' \<notin> set c" by (auto simp: c_def component_at_def dest: set_takeWhileD)
  show "take (start + length c) out = take start out @ c"
    by (metis r append_eq_conv_conj take_add)
  show "start + length c \<le> length out"
    using assms(1) length_takeWhile_le [of "\<lambda>c. c \<noteq> CHR ''/''" ?r] by (simp add: c_def component_at_def)
  show "out ! (start + length c) = CHR ''/''" if "start + length c < length out"
    using that nth_length_takeWhile [of "\<lambda>c. c \<noteq> CHR ''/''" ?r] by (simp add: c_def component_at_def)
  show "out ! (start + i) \<noteq> CHR ''/''" if "i < length c"
    using that assms(1) nth_mem [OF that] \<open>CHR ''/'' \<notin> set c\<close> takeWhile_nth [of i "\<lambda>c. c \<noteq> CHR ''/''" ?r]
    by (auto simp: c_def component_at_def)
qed

lemma component_same:
  assumes "take i out = take i out'" and "s < i" and "i \<le> length out" "i \<le> length out'" and "out ! (i - 1) = CHR ''/''"
  shows "component_at out s = component_at out' s"
proof -
  define p where "p = drop s (take i out)"
  have p: "drop s out = p @ drop i out" "drop s out' = p @ drop i out'"
    using assms(1-4) by (metis append_take_drop_id drop_append p_def diff_is_0_eq drop0 length_take less_imp_le_nat min.absorb2)+
  have "p ! (i - 1 - s) = CHR ''/''" "i - 1 - s < length p" using assms(2-5) by (auto simp: p_def)
  then have "CHR ''/'' \<in> set p" by (metis nth_mem)
  then show ?thesis by (simp add: component_at_def p takeWhile_append1)
qed

lemma consider_filter:
  "fold (consider_entry c) names (k, m) =
     (k + length (filter (\<lambda>n. map lower_char n = map lower_char c) names),
      if k = 0 \<and> filter (\<lambda>n. map lower_char n = map lower_char c) names \<noteq> [] then hd (filter (\<lambda>n. map lower_char n = map lower_char c) names) else m)"
  by (induction names arbitrary: k m) (auto simp: consider_entry_def dest: map_eq_imp_length_eq)

lemma replacement_listed:
  assumes "replacement files out start c = Some n"
  obtains names where "gp_list files (search_directory out start) = Some names" "n \<in> set names" "map lower_char n = map lower_char c"
    "filter (\<lambda>n. map lower_char n = map lower_char c) names = [n]"
proof -
  obtain names where l: "gp_list files (search_directory out start) = Some names"
      "fst (fold (consider_entry c) names (0, [])) = 1" "snd (fold (consider_entry c) names (0, [])) = n"
    using assms by (auto simp: replacement_def Let_def split: if_splits option.splits)
  then obtain x where "filter (\<lambda>n. map lower_char n = map lower_char c) names = [x]" by (auto simp: consider_filter length_Suc_conv)
  moreover from this l(3) have "x = n" by (simp add: consider_filter)
  ultimately have "filter (\<lambda>n. map lower_char n = map lower_char c) names = [n]" by simp
  moreover from this have "n \<in> set names" "map lower_char n = map lower_char c" by (auto simp: filter_eq_Cons_iff)
  ultimately show ?thesis using l(1) that by blast
qed


lemma resolved_step:
  assumes r: "resolved files out start" and s: "start < length out"
    and e: "component_start out start \<and> \<not> dots (component_at out start) \<Longrightarrow> gp_exists files (take start out @ component_at out start) = 0"
  shows "resolved files out (start + length (component_at out start))" and "resolved files out (Suc start)"
proof -
  have "gp_exists files (take i out @ component_at out i) = 0"
    if "i < start + length (component_at out start)" "start < i" "component_start out i" for i
  proof -
    have "out ! (i - 1) \<noteq> CHR ''/''" using component_split(5) [of start out "i - 1 - start"] s that(1,2) by simp
    then show ?thesis using that(2,3) by (simp add: component_start_def)
  qed
  then show "resolved files out (start + length (component_at out start))"
    using r e unfolding resolved_def by (metis nat_neq_iff)
  show "resolved files out (Suc start)" using r e unfolding resolved_def by (metis less_Suc_eq)
qed

text \<open>Replacing the component at \<open>start\<close> by a name of the same length without a slash.\<close>

lemma resolved_replace:
  assumes r: "resolved files out start" and st: "component_start out start" and n: "length n = length (component_at out start)" "CHR ''/'' \<notin> set n"
    and ex: "gp_exists files (take start out @ n) = 0"
  defines "out' \<equiv> take start out @ n @ drop (start + length (component_at out start)) out"
  shows "resolved files out' (start + length (component_at out start))" and "length out' = length out"
    and "component_at out' start = n" and "take start out' = take start out"
proof -
  let ?e = "start + length (component_at out start)"
  have s: "start < length out" "start = 0 \<or> out ! (start - 1) = CHR ''/''" using st by (auto simp: component_start_def)
  note c = component_split [OF less_imp_le [OF s(1)]]
  show len: "length out' = length out" using n(1) s(1) c(3) by (simp add: out'_def)
  show tk: "take start out' = take start out" using s(1) by (simp add: out'_def)
  have "drop ?e out = [] \<or> hd (drop ?e out) = CHR ''/''" using c(4) by (cases "?e < length out") (auto simp: hd_drop_conv_nth)
  moreover have d: "drop start out' = n @ drop ?e out" using s(1) by (simp add: out'_def)
  ultimately show cn: "component_at out' start = n"
    using n(2) unfolding component_at_def by (cases "drop ?e out") (auto simp: takeWhile_append component_at_def)
  have pre: "component_start out' i \<Longrightarrow> component_start out i \<and> component_at out' i = component_at out i \<and> take i out' = take i out" if "i < start" for i
  proof -
    have "start \<noteq> 0" using that by simp
    have nth: "out' ! j = out ! j" if "j < start" for j using tk that by (metis nth_take)
    have "take i out' = take i out" using tk that by (metis min.absorb1 less_imp_le take_take)
    moreover have "component_at out' i = component_at out i"
      using component_same [of start out out' i] tk that s len \<open>start \<noteq> 0\<close> by simp
    moreover assume "component_start out' i"
    ultimately show ?thesis using nth that len by (auto simp: component_start_def)
  qed
  then have "resolved files out' start" using r unfolding resolved_def by metis
  from resolved_step(1) [OF this] show "resolved files out' ?e" using ex cn tk s(1) len n(1) by simp
qed

definition boundary :: "string \<Rightarrow> nat \<Rightarrow> bool" where
  "boundary out i \<longleftrightarrow> (i < length out \<and> out ! i \<noteq> CHR ''/'' \<longrightarrow> component_start out i)"

lemma boundary_slash: "i < length out \<Longrightarrow> out ! i = CHR ''/'' \<Longrightarrow> boundary out i \<and> boundary out (Suc i)"
  by (auto simp: boundary_def component_start_def)

lemma boundary_end: "i \<le> length out \<Longrightarrow> length w = length out \<Longrightarrow> drop (i + length (component_at out i)) w = drop (i + length (component_at out i)) out \<Longrightarrow>
    boundary w (i + length (component_at out i))"
  using component_split(4) [of i out] by (metis boundary_def hd_drop_conv_nth)

lemma components_loop_resolves:
  assumes "lists_existing files" and "components_loop files out start changed = (r, out')" and "resolved files out start"
    and "boundary out start"
  shows "map lower_char out' = map lower_char out \<and> (r \<longrightarrow> resolved files out' (length out')) \<and>
    (resolved files out (length out) \<longrightarrow> r = changed \<and> out' = out)"
  using assms
proof (induction files out start changed rule: components_loop.induct)
  case (1 files out start changed)
  let ?c = "component_at out start" and ?e = "start + length (component_at out start)"
  show ?case
  proof (cases "start < length out")
    case False
    then show ?thesis using "1.prems"(2,3) by (auto simp: components_loop.simps [of _ _ start] resolved_def)
  next
    case True
    show ?thesis
    proof (cases "out ! start = CHR ''/''")
      case slash: True
      then have "resolved files out (Suc start)" using resolved_step(2) [OF "1.prems"(3) True] by (auto simp: component_start_def)
      then show ?thesis using "1.IH"(1) [OF True slash "1.prems"(1)] "1.prems"(2) True slash boundary_slash by (auto simp: components_loop.simps [of _ _ start])
    next
      case False
      then have st: "component_start out start" using "1.prems"(4) True by (simp add: boundary_def)
      note c = component_split [OF less_imp_le [OF True]]
      note go = True False refl refl
      have loop: "components_loop files out start changed =
          (if dots ?c then components_loop files out ?e changed
           else if gp_exists files (take start out @ ?c) = ENOENT
           then case replacement files out start ?c of None \<Rightarrow> (False, out)
             | Some name \<Rightarrow> components_loop files (take start out @ take (length ?c) name @ drop ?e out) ?e True
           else if gp_exists files (take start out @ ?c) \<noteq> 0 then (False, out) else components_loop files out ?e changed)"
        using True False c(2) by (subst components_loop.simps) (simp add: Let_def)
      consider (keep) "dots ?c \<or> gp_exists files (take start out @ ?c) = 0"
        | (stop) "\<not> dots ?c" "gp_exists files (take start out @ ?c) \<noteq> 0" "(r, out') = (False, out)"
        | (replace) name where "\<not> dots ?c" "gp_exists files (take start out @ ?c) = ENOENT" "replacement files out start ?c = Some name"
        using "1.prems"(2) loop by (auto split: option.splits if_splits)
      then show ?thesis
      proof cases
        case keep
        then have "components_loop files out ?e changed = (r, out')" using "1.prems"(2) loop by (auto split: if_splits)
        moreover have "resolved files out ?e" using resolved_step(1) [OF "1.prems"(3) True] keep by blast
        moreover have "boundary out ?e" using boundary_end True by simp
        ultimately show ?thesis
        proof (cases "dots ?c")
          case False
          then have "gp_exists files (take ?e out) = 0" using keep c(2) by simp
          then show ?thesis
            using "1.IH"(4) [OF go False refl _ _ "1.prems"(1) \<open>components_loop files out ?e changed = (r, out')\<close> \<open>resolved files out ?e\<close> \<open>boundary out ?e\<close>]
            by simp
        qed (rule "1.IH"(2) [OF go _ "1.prems"(1)])
      next
        case stop
        then show ?thesis using st True by (auto simp: resolved_def)
      next
        case (replace name)
        obtain names where l: "gp_list files (search_directory out start) = Some names" "name \<in> set names" "map lower_char name = map lower_char ?c"
          by (rule replacement_listed [OF replace(3)])
        have n: "length name = length ?c" "CHR ''/'' \<notin> set name"
          using l(3) lower_same_slashes [OF l(3)] c(1) map_eq_imp_length_eq [OF l(3)] by auto
        have "gp_exists files (take start out @ name) = 0"
          using "1.prems"(1) [unfolded lists_existing_def, rule_format, of start out names name] l(1,2) st by (simp add: component_start_def)
        note res = resolved_replace [OF "1.prems"(3) st n this]
        let ?o = "take start out @ name @ drop ?e out"
        have "components_loop files ?o ?e True = (r, out')" using "1.prems"(2) loop replace n(1) by simp
        moreover have "boundary ?o ?e" using boundary_end [of start out ?o] True res(2) n(1) by simp
        ultimately have "map lower_char out' = map lower_char ?o \<and> (r \<longrightarrow> resolved files out' (length out'))"
          using "1.IH"(3) [OF go replace(1) refl _ replace(3) "1.prems"(1)] replace(2) n(1) res(1) unfolding c(2) by simp
        moreover have "map lower_char ?o = map lower_char (take ?e out @ drop ?e out)" unfolding c(2) using l(3) by simp
        then have "map lower_char ?o = map lower_char out" unfolding append_take_drop_id .
        moreover have "\<not> resolved files out (length out)" using replace(1,2) st True by (auto simp: resolved_def)
        ultimately show ?thesis by simp
      qed
    qed
  qed
qed


section \<open>Properties\<close>


lemma strip_slashes_all: "strip_slashes out n \<le> n \<and> (\<forall>i. strip_slashes out n \<le> i \<and> i < n \<longrightarrow> out ! i = CHR ''/'')"
proof (induction out n rule: strip_slashes.induct)
  case (1 out prefix)
  show ?case
  proof (cases "prefix > 1 \<and> out ! (prefix - 1) = CHR ''/''")
    case True
    then have "strip_slashes out prefix = strip_slashes out (prefix - 1)" by (subst strip_slashes.simps) simp
    moreover have "i < prefix \<Longrightarrow> i = prefix - 1 \<or> i < prefix - 1" for i by arith
    ultimately show ?thesis using 1 [OF True] True by (metis diff_le_self le_trans)
  next
    case False
    then have "strip_slashes out prefix = prefix" by (subst strip_slashes.simps) (simp only: if_False)
    then show ?thesis by auto
  qed
qed

definition sample_files :: GPFiles where
  "sample_files = \<lparr>gp_exists = (\<lambda>p. if dropWhile (\<lambda>c. c = CHR ''/'') p = ''Mac'' then 0 else ENOENT),
     gp_list = (\<lambda>d. if d = ''/'' then Some [''Mac''] else None)\<rparr>"


lemma sample_files_listing: "lists_existing sample_files"
  unfolding lists_existing_def
proof (intro allI impI)
  fix out names n and start :: nat
  assume a: "start \<le> length out \<and> (start = 0 \<or> out ! (start - 1) = CHR ''/'') \<and>
    gp_list sample_files (search_directory out start) = Some names \<and> n \<in> set names"
  then have n: "n = ''Mac''" and d: "search_directory out start = ''/''" by (auto simp: sample_files_def split: if_splits)
  from d have m: "take (strip_slashes out start) out = ''/''" by (auto simp: search_directory_def Let_def split: if_splits)
  have "out ! i = CHR ''/''" if "i < start" for i
  proof (cases "i < strip_slashes out start")
    case True
    then have "(take (strip_slashes out start) out) ! i = out ! i" "i < length (take (strip_slashes out start) out)"
      using that a by auto
    then show ?thesis unfolding m by simp
  qed (use strip_slashes_all [of out start] that in auto)
  then have "set (take start out) \<subseteq> {CHR ''/''}" using a by (auto simp: in_set_conv_nth)
  then have "dropWhile (\<lambda>c. c = CHR ''/'') (take start out @ ''Mac'') = ''Mac''" by (auto simp: dropWhile_append subset_iff)
  then show "gp_exists sample_files (take start out @ n) = 0" by (simp add: sample_files_def n)
qed


end
