(* ===== verification/GuestTLS.thy ===== *)
theory GuestTLS
  imports Prelude
begin

text \<open>
  Thread-local variables of an application, \<open>runtime/GuestTLS.c\<close>: each image has a template and a table of descriptors; the first
  access of a thread through a descriptor copies the template to storage of its own, kept under a key of the host's threads
  library. The host is a record of the values of the keys, per key and thread, and of memory. Outcomes of
  allocations and of the calls on keys are arguments; addresses are 0 for null pointers. Storage a thread frees when it
  ends is not modelled.
\<close>

section \<open>Operations\<close>

record GuestTLS =
  tl_bytes :: "u8 list"
  tl_size :: u64
  tl_alignment :: u64
  tl_descriptors :: u64
  tl_descriptors_size :: u64
  tl_key :: nat
  tl_initialized :: bool

record TLSHost =
  th_value :: "nat \<Rightarrow> nat \<Rightarrow> u64"
  th_memory :: "u64 \<Rightarrow> u8"

record GTImage =
  gt_tls :: GuestTLS
  gt_name :: string
  gt_descriptors :: u64
  gt_descriptors_size :: u64

definition tls_zero :: GuestTLS where
  "tls_zero = \<lparr>tl_bytes = [], tl_size = 0, tl_alignment = 0, tl_descriptors = 0, tl_descriptors_size = 0, tl_key = 0, tl_initialized = False\<rparr>"

text \<open>\<open>bytes\<close> is \<open>None\<close> for a null pointer, \<open>allocated\<close> the outcome of the allocation, \<open>key\<close> the key created, if any.\<close>

definition gt_create ::
  "GuestTLS \<Rightarrow> u8 list option \<Rightarrow> u64 \<Rightarrow> u64 \<Rightarrow> u64 \<Rightarrow> u64 \<Rightarrow> bool \<Rightarrow> nat option \<Rightarrow> TLSHost \<Rightarrow> bool \<times> GuestTLS \<times> TLSHost" where
  "gt_create tls bytes n alignment descriptors descriptors_size allocated key host =
     (if tl_initialized tls \<or> bytes = None \<or> n = 0 \<or> n > 16 * 1024 * 1024 \<or> alignment = 0 \<or> alignment AND (alignment - 1) \<noteq> 0 \<or>
         alignment > 1024 * 1024 \<or> descriptors_size mod 24 \<noteq> 0 \<or> descriptors_size > UINT64_MAX - descriptors
      then (False, tls, host)
      else let alignment = (if alignment < 8 then 8 else alignment)
      in if \<not> allocated then (False, tls, host)
         else case key of
           None \<Rightarrow> (False, tls, host)
         | Some k \<Rightarrow>
             (True, \<lparr>tl_bytes = take (unat n) (the bytes), tl_size = n, tl_alignment = alignment, tl_descriptors = descriptors,
                     tl_descriptors_size = descriptors_size, tl_key = k, tl_initialized = True\<rparr>,
              host\<lparr>th_value := (th_value host)(k := (\<lambda>_. 0))\<rparr>))"

definition copy_template :: "u64 \<Rightarrow> u8 list \<Rightarrow> (u64 \<Rightarrow> u8) \<Rightarrow> u64 \<Rightarrow> u8" where
  "copy_template a bs mem x = (if unat (x - a) < length bs then bs ! unat (x - a) else mem x)"

text \<open>The descriptor is its address and its third word; \<open>got\<close> is the block \<open>posix_memalign\<close> returns, if any, \<open>stored\<close> whether the
  key's value could be set.\<close>

definition gt_address :: "GuestTLS \<Rightarrow> u64 \<Rightarrow> u64 \<Rightarrow> nat \<Rightarrow> u64 option \<Rightarrow> bool \<Rightarrow> TLSHost \<Rightarrow> u64 option \<times> TLSHost" where
  "gt_address tls address offset thread got stored host =
     (if \<not> tl_initialized tls \<or> address < tl_descriptors tls \<or> address - tl_descriptors tls \<ge> tl_descriptors_size tls \<or>
         (address - tl_descriptors tls) mod 24 \<noteq> 0 \<or> offset \<ge> tl_size tls
      then (None, host)
      else let storage = th_value host (tl_key tls) thread
      in if storage \<noteq> 0 then (Some (storage + offset), host)
         else case got of
           None \<Rightarrow> (None, host)
         | Some storage \<Rightarrow>
             let host = host\<lparr>th_memory := copy_template storage (tl_bytes tls) (th_memory host)\<rparr>
             in if \<not> stored then (None, host)
                else (Some (storage + offset),
                      host\<lparr>th_value := (th_value host)(tl_key tls := (th_value host (tl_key tls))(thread := storage))\<rparr>))"

text \<open>\<open>target\<close> is \<open>None\<close> for a null pointer.\<close>

definition gt_register ::
  "GTImage option \<Rightarrow> string \<Rightarrow> u8 list option \<Rightarrow> u64 \<Rightarrow> u64 \<Rightarrow> u64 \<Rightarrow> u64 \<Rightarrow> bool \<Rightarrow> nat option \<Rightarrow> TLSHost \<Rightarrow>
     bool \<times> GTImage option \<times> TLSHost" where
  "gt_register target name bytes n alignment descriptors descriptors_size allocated key host =
     (if target = None \<or> descriptors_size = 0 \<or> descriptors_size mod 24 \<noteq> 0 \<or> descriptors_size > UINT64_MAX - descriptors
      then (False, target, host)
      else let staged = \<lparr>gt_tls = tls_zero, gt_name = name, gt_descriptors = descriptors, gt_descriptors_size = descriptors_size\<rparr>
      in if n = 0 then (True, Some staged, host)
         else case gt_create (gt_tls staged) bytes n alignment descriptors descriptors_size allocated key host of
           (False, _, host) \<Rightarrow> (False, target, host)
         | (True, tls, host) \<Rightarrow> (True, Some (staged\<lparr>gt_tls := tls\<rparr>), host))"

text \<open>The result is the storage, the owner's name and the host.\<close>

primrec gt_find :: "GTImage list \<Rightarrow> u64 \<Rightarrow> u64 \<Rightarrow> nat \<Rightarrow> u64 option \<Rightarrow> bool \<Rightarrow> TLSHost \<Rightarrow> u64 option \<times> string option \<times> TLSHost" where
  "gt_find [] address offset thread got stored host = (None, None, host)"
| "gt_find (i # is) address offset thread got stored host =
     (if address - gt_descriptors i \<ge> gt_descriptors_size i then gt_find is address offset thread got stored host
      else let (r, host) = gt_address (gt_tls i) address offset thread got stored host in (r, Some (gt_name i), host))"

definition gt_destroy :: "GuestTLS \<Rightarrow> TLSHost \<Rightarrow> GuestTLS \<times> TLSHost" where
  "gt_destroy tls host =
     (tls_zero, if tl_initialized tls then host\<lparr>th_value := (th_value host)(tl_key tls := (\<lambda>_. 0))\<rparr> else host)"

section \<open>Threads\<close>

definition tls_ok :: "GuestTLS \<Rightarrow> bool" where
  "tls_ok tls \<longleftrightarrow> (tl_initialized tls \<longrightarrow> length (tl_bytes tls) = unat (tl_size tls) \<and> unat (tl_size tls) \<le> 16 * 1024 * 1024)"

definition images_ok :: "GTImage list \<Rightarrow> bool" where
  "images_ok is \<longleftrightarrow> list_all (tls_ok \<circ> gt_tls) is \<and> distinct (map (tl_key \<circ> gt_tls) (filter (tl_initialized \<circ> gt_tls) is))"

text \<open>The storage of a thread for an image, as a set of addresses.\<close>

definition block :: "GuestTLS \<Rightarrow> u64 \<Rightarrow> u64 set" where
  "block tls a = {x. unat (x - a) < unat (tl_size tls)}"

definition storage :: "GTImage list \<Rightarrow> TLSHost \<Rightarrow> nat \<Rightarrow> u64 set" where
  "storage is host t =
     (\<Union>i \<in> {i \<in> set is. tl_initialized (gt_tls i) \<and> th_value host (tl_key (gt_tls i)) t \<noteq> 0}.
        block (gt_tls i) (th_value host (tl_key (gt_tls i)) t))"

text \<open>The allocator's promise: a block that is nowhere in use.\<close>

definition fresh_block :: "GTImage list \<Rightarrow> TLSHost \<Rightarrow> u64 option \<Rightarrow> bool" where
  "fresh_block is host got \<longleftrightarrow>
     (\<forall>a i t. got = Some a \<and> i \<in> set is \<and> tl_initialized (gt_tls i) \<longrightarrow> a \<noteq> 0 \<and> block (gt_tls i) a \<inter> storage is host t = {})"

text \<open>What a thread does: it looks up a variable, or stores a byte in its own storage.\<close>

inductive tls_step :: "GTImage list \<Rightarrow> nat \<Rightarrow> TLSHost \<Rightarrow> TLSHost \<Rightarrow> bool" for "is" t where
  tls_find: "gt_find is address offset t got stored host = (r, owner, host') \<Longrightarrow> fresh_block is host got \<Longrightarrow> tls_step is t host host'"
| tls_store: "x \<in> storage is host t \<Longrightarrow> tls_step is t host (host\<lparr>th_memory := (th_memory host)(x := b)\<rparr>)"

inductive tls_reachable :: "GTImage list \<Rightarrow> TLSHost \<Rightarrow> bool" for "is" where
  tls_begin: "(\<And>k t. th_value host k t = 0) \<Longrightarrow> tls_reachable is host"
| tls_steps: "tls_reachable is host \<Longrightarrow> tls_step is t host host' \<Longrightarrow> tls_reachable is host'"


definition storages_apart :: "GTImage list \<Rightarrow> TLSHost \<Rightarrow> bool" where
  "storages_apart is host \<longleftrightarrow> (\<forall>t t'. t \<noteq> t' \<longrightarrow> storage is host t \<inter> storage is host t' = {})"

lemma gt_find_image:
  assumes "gt_find is address offset t got stored host = (r, owner, host')"
  shows "r = None \<and> host' = host \<or>
    (\<exists>i \<in> set is. gt_address (gt_tls i) address offset t got stored host = (r, host') \<and> owner = Some (gt_name i))"
  using assms by (induction "is") (auto split: if_splits prod.splits)

lemma gt_address_cases:
  assumes "gt_address tls address offset t got stored host = (r, host')"
  obtains (same) "host' = host" "r = None"
  | (had) "host' = host" "tl_initialized tls" "offset < tl_size tls" "th_value host (tl_key tls) t \<noteq> 0" "r = Some (th_value host (tl_key tls) t + offset)"
  | (lost) a where "got = Some a" "tl_initialized tls" "th_value host (tl_key tls) t = 0" "r = None"
      "host' = host\<lparr>th_memory := copy_template a (tl_bytes tls) (th_memory host)\<rparr>"
  | (new) a where "got = Some a" "tl_initialized tls" "offset < tl_size tls" "th_value host (tl_key tls) t = 0" "r = Some (a + offset)"
      "host' = host\<lparr>th_memory := copy_template a (tl_bytes tls) (th_memory host),
         th_value := (th_value host)(tl_key tls := (th_value host (tl_key tls))(t := a))\<rparr>"
proof (cases "\<not> tl_initialized tls \<or> address < tl_descriptors tls \<or> address - tl_descriptors tls \<ge> tl_descriptors_size tls \<or>
         (address - tl_descriptors tls) mod 24 \<noteq> 0 \<or> offset \<ge> tl_size tls")
  case True
  then show ?thesis by (intro same) (use assms in \<open>simp_all add: gt_address_def\<close>)
next
  case False
  then have i: "tl_initialized tls" "offset < tl_size tls" by (simp_all add: not_le)
  note eq = assms [unfolded gt_address_def if_not_P [OF False] Let_def]
  show ?thesis
  proof (cases "th_value host (tl_key tls) t = 0")
    case v: True
    show ?thesis
    proof (cases got)
      case None
      then show ?thesis by (intro same) (use eq v in simp_all)
    next
      case (Some a)
      show ?thesis
      proof (cases stored)
        case True
        then show ?thesis by (intro new [OF Some i v]) (use eq v Some in simp_all)
      next
        case False
        then show ?thesis by (intro lost [OF Some i(1) v]) (use eq v Some in simp_all)
      qed
    qed
  next
    case False
    then show ?thesis by (intro had [OF _ i False]) (use eq in auto)
  qed
qed

lemma storage_memory [simp]: "storage is (host\<lparr>th_memory := m\<rparr>) t = storage is host t"
  by (simp add: storage_def)

lemma copy_template_outside: "x \<notin> block tls a \<Longrightarrow> tls_ok tls \<Longrightarrow> tl_initialized tls \<Longrightarrow> copy_template a (tl_bytes tls) m x = m x"
  by (simp add: copy_template_def block_def tls_ok_def)

lemma storage_new:
  assumes ok: "images_ok is" and i: "i \<in> set is" "tl_initialized (gt_tls i)" and v: "th_value host (tl_key (gt_tls i)) t = 0" and a: "a \<noteq> 0"
  defines "host' \<equiv> host\<lparr>th_value := (th_value host)(tl_key (gt_tls i) := (th_value host (tl_key (gt_tls i)))(t := a))\<rparr>"
  shows "t' \<noteq> t \<Longrightarrow> storage is host' t' = storage is host t'" and "storage is host' t = storage is host t \<union> block (gt_tls i) a"
proof -
  have key: "j = i" if "j \<in> set is" "tl_initialized (gt_tls j)" "tl_key (gt_tls j) = tl_key (gt_tls i)" for j
    using ok i that by (auto simp: images_ok_def distinct_map inj_on_def)
  show "storage is host' t' = storage is host t'" if "t' \<noteq> t"
  proof -
    have "th_value host' k t' = th_value host k t'" for k using that by (simp add: host'_def)
    then show ?thesis by (simp add: storage_def)
  qed
  have "{j \<in> set is. tl_initialized (gt_tls j) \<and> th_value host' (tl_key (gt_tls j)) t \<noteq> 0} =
      insert i {j \<in> set is. tl_initialized (gt_tls j) \<and> th_value host (tl_key (gt_tls j)) t \<noteq> 0}"
    using i a key by (auto simp: host'_def)
  moreover have "th_value host' (tl_key (gt_tls j)) t = th_value host (tl_key (gt_tls j)) t" if "th_value host (tl_key (gt_tls j)) t \<noteq> 0" for j :: GTImage
    using that v by (auto simp: host'_def)
  moreover have "th_value host' (tl_key (gt_tls i)) t = a" by (simp add: host'_def)
  ultimately show "storage is host' t = storage is host t \<union> block (gt_tls i) a"
    unfolding storage_def by (simp add: Un_commute)
qed

text \<open>A lookup that answers: the owner's image, the address in the thread's storage for it, and the template in that storage when it is new.\<close>

definition served :: "GTImage list \<Rightarrow> TLSHost \<Rightarrow> nat \<Rightarrow> u64 \<Rightarrow> string option \<Rightarrow> u64 \<Rightarrow> TLSHost \<Rightarrow> bool" where
  "served is host t offset owner p host' \<longleftrightarrow>
     (\<exists>i \<in> set is. owner = Some (gt_name i) \<and> tl_initialized (gt_tls i) \<and> offset < tl_size (gt_tls i) \<and>
        p = th_value host' (tl_key (gt_tls i)) t + offset \<and> th_value host' (tl_key (gt_tls i)) t \<noteq> 0 \<and>
        (if th_value host (tl_key (gt_tls i)) t = 0
         then \<forall>k < length (tl_bytes (gt_tls i)). th_memory host' (th_value host' (tl_key (gt_tls i)) t + of_nat k) = tl_bytes (gt_tls i) ! k
         else host' = host))"

lemma gt_find_effect:
  assumes ok: "images_ok is" and ap: "storages_apart is host" and eq: "gt_find is address offset t got stored host = (r, owner, host')"
    and fr: "fresh_block is host got"
  shows "storages_apart is host'" and "t' \<noteq> t \<Longrightarrow> storage is host' t' = storage is host t'" and "storage is host t \<subseteq> storage is host' t"
    and "x \<in> storage is host t' \<Longrightarrow> th_memory host' x = th_memory host x"
    and "r = Some p \<Longrightarrow> served is host t offset owner p host'"
proof -
  have "storages_apart is host' \<and> (\<forall>t'. t' \<noteq> t \<longrightarrow> storage is host' t' = storage is host t') \<and> storage is host t \<subseteq> storage is host' t \<and>
      (\<forall>t'. \<forall>x \<in> storage is host t'. th_memory host' x = th_memory host x) \<and>
      (\<forall>p. r = Some p \<longrightarrow> served is host t offset owner p host')"
    (is "?G host'")
  proof (cases "r = None \<and> host' = host")
    case True
    then show ?thesis using ap by simp
  next
    case False
    then obtain i where i: "i \<in> set is" "gt_address (gt_tls i) address offset t got stored host = (r, host')" "owner = Some (gt_name i)"
      using gt_find_image [OF eq] by blast
    have tl: "tls_ok (gt_tls i)" using ok i(1) by (auto simp: images_ok_def list_all_iff)
    have mem: "copy_template a (tl_bytes (gt_tls i)) m x = m x"
      if "got = Some a" "tl_initialized (gt_tls i)" "x \<in> storage is host t'" for a m x t'
      using fr i(1) that by (intro copy_template_outside [OF _ tl]) (auto simp: fresh_block_def)
    from i(2) show ?thesis
    proof (cases rule: gt_address_cases)
      case had
      then show ?thesis using ap i by (auto simp: served_def)
    next
      case (lost a)
      then show ?thesis using ap mem by (auto simp: storages_apart_def)
    next
      case (new a)
      have a: "a \<noteq> 0" "block (gt_tls i) a \<inter> storage is host t' = {}" for t' using fr i(1) new(1,2) by (auto simp: fresh_block_def)
      let ?h = "host\<lparr>th_value := (th_value host)(tl_key (gt_tls i) := (th_value host (tl_key (gt_tls i)))(t := a))\<rparr>"
      have h': "host' = ?h\<lparr>th_memory := copy_template a (tl_bytes (gt_tls i)) (th_memory host)\<rparr>" using new(6) by simp
      note st = storage_new [OF ok i(1) new(2,4) a(1)]
      have s: "storage is host' t' = storage is host t'" if "t' \<noteq> t" for t' unfolding h' storage_memory by (rule st(1) [OF that])
      have s2: "storage is host' t = storage is host t \<union> block (gt_tls i) a" unfolding h' storage_memory by (rule st(2))
      have apart: "storages_apart is host'"
        unfolding storages_apart_def
      proof (intro allI impI)
        fix t1 t2 :: nat assume "t1 \<noteq> t2"
        then show "storage is host' t1 \<inter> storage is host' t2 = {}"
          using ap a(2) s s2 unfolding storages_apart_def by (cases "t1 = t"; cases "t2 = t") blast+
      qed
      have len: "length (tl_bytes (gt_tls i)) < 2 ^ 64" using tl new(2) by (simp add: tls_ok_def)
      have "copy_template a (tl_bytes (gt_tls i)) (th_memory host) (a + of_nat k) = tl_bytes (gt_tls i) ! k"
        if "k < length (tl_bytes (gt_tls i))" for k
      proof -
        have "unat (of_nat k :: u64) = k" using that len by (simp add: unat_of_nat)
        then show ?thesis using that by (simp add: copy_template_def)
      qed
      then have "\<forall>p. r = Some p \<longrightarrow> served is host t offset owner p host'"
        unfolding served_def using i new a(1) by (intro allI impI bexI [of _ i]) auto
      moreover have "\<forall>t'. \<forall>x \<in> storage is host t'. th_memory host' x = th_memory host x" using mem new(1,2) by (auto simp: h')
      ultimately show ?thesis using apart s s2 by blast
    qed (use ap in simp)
  qed
  then show "storages_apart is host'" "t' \<noteq> t \<Longrightarrow> storage is host' t' = storage is host t'" "storage is host t \<subseteq> storage is host' t"
    "x \<in> storage is host t' \<Longrightarrow> th_memory host' x = th_memory host x"
    "r = Some p \<Longrightarrow> served is host t offset owner p host'"
    by blast+
qed


lemma tls_reachable_apart: "tls_reachable is host \<Longrightarrow> images_ok is \<Longrightarrow> storages_apart is host"
proof (induction rule: tls_reachable.induct)
  case (tls_begin host)
  then show ?case by (simp add: storages_apart_def storage_def)
next
  case (tls_steps host t host')
  from tls_steps(2) show ?case
  proof cases
    case tls_find
    then show ?thesis using gt_find_effect(1) tls_steps by blast
  next
    case tls_store
    then show ?thesis using tls_steps by (simp add: storages_apart_def)
  qed
qed

section \<open>Properties\<close>


definition sample_tls :: GTImage where
  "sample_tls = \<lparr>gt_tls = \<lparr>tl_bytes = [7, 8, 9], tl_size = 3, tl_alignment = 8, tl_descriptors = 0x4000, tl_descriptors_size = 48, tl_key = 1, tl_initialized = True\<rparr>,
     gt_name = ''app'', gt_descriptors = 0x4000, gt_descriptors_size = 48\<rparr>"


end
