(* ===== verification/GuestWrap.thy ===== *)
theory GuestWrap
  imports Prelude
begin

text \<open>
  The table of functions whose calls are logged, \<open>runtime/GuestWrap.c\<close>: a function the application looks up is replaced by the
  address of one of 64 trampolines, which ask for the function to call. The table of trampolines is an address, each takes
  eight bytes; they are assembly. The log is the list of what is printed, each entry with the file it goes to. A thread
  is a number, its thread-local variable a map over them. Addresses are 0 for null pointers.
\<close>

section \<open>Operations\<close>

abbreviation (input) GW_SLOTS :: nat where "GW_SLOTS \<equiv> 64"
abbreviation (input) GW_LOGGED :: u64 where "GW_LOGGED \<equiv> 64"

record WrapSlot =
  ws_name :: "string option"
  ws_target :: u64
  ws_calls :: u64

datatype log_target = Stderr | LogFile nat

text \<open>The lines printed: name, number of the call and of the thread, then the caller and the arguments, or the result.\<close>

datatype wrap_event =
    Enter log_target "string option" u64 u32 u64 "u64 list"
  | Leave log_target "string option" u64 u32 u64

record Wraps =
  wp_slots :: "WrapSlot list"
  wp_used :: nat
  wp_file :: "nat option"
  wp_mine :: "nat \<Rightarrow> u32"
  wp_handed_out :: u32
  wp_log :: "wrap_event list"

definition no_wraps :: Wraps where
  "no_wraps = \<lparr>wp_slots = replicate GW_SLOTS \<lparr>ws_name = None, ws_target = 0, ws_calls = 0\<rparr>, wp_used = 0,
     wp_file = None, wp_mine = (\<lambda>t. 0), wp_handed_out = 0, wp_log = []\<rparr>"

definition log_file :: "Wraps \<Rightarrow> log_target" where
  "log_file st = (case wp_file st of Some f \<Rightarrow> LogFile f | None \<Rightarrow> Stderr)"

definition gw_tid :: "nat \<Rightarrow> Wraps \<Rightarrow> u32 \<times> Wraps" where
  "gw_tid t st =
     (let st = (if wp_mine st t = 0
                then st\<lparr>wp_mine := (wp_mine st)(t := wp_handed_out st + 1), wp_handed_out := wp_handed_out st + 1\<rparr> else st)
      in (wp_mine st t, st))"

definition trampoline :: "u64 \<Rightarrow> nat \<Rightarrow> u64" where
  "trampoline table i = table + of_nat i * 8"

text \<open>The first slot with this name and target.\<close>

definition wrapped_at :: "Wraps \<Rightarrow> string \<Rightarrow> u64 \<Rightarrow> nat option" where
  "wrapped_at st name target =
     find (\<lambda>i. ws_target (wp_slots st ! i) = target \<and> ws_name (wp_slots st ! i) = Some name) [0..<wp_used st]"

text \<open>\<open>copied\<close> is the outcome of copying the name.\<close>

definition gw_wrap :: "u64 \<Rightarrow> string option \<Rightarrow> u64 \<Rightarrow> bool \<Rightarrow> Wraps \<Rightarrow> u64 \<times> Wraps" where
  "gw_wrap table name0 target copied st =
     (case name0 of
        None \<Rightarrow> (target, st)
      | Some name \<Rightarrow>
          if target = 0 then (target, st)
          else case wrapped_at st name target of
            Some i \<Rightarrow> (trampoline table i, st)
          | None \<Rightarrow>
              if wp_used st = GW_SLOTS then (target, st)
              else let slot = wp_used st
              in if \<not> copied then (target, st)
                 else (trampoline table slot,
                       st\<lparr>wp_slots := (wp_slots st)[slot := \<lparr>ws_name = Some name, ws_target = target, ws_calls = 0\<rparr>],
                          wp_used := wp_used st + 1\<rparr>))"

text \<open>\<open>frame\<close> holds the registers x0 to x8 and the caller's return address, \<open>t\<close> is the calling thread.\<close>

definition gw_enter :: "nat \<Rightarrow> nat \<Rightarrow> u64 list \<Rightarrow> Wraps \<Rightarrow> u64 \<times> Wraps" where
  "gw_enter t slot frame st =
     (if slot \<ge> GW_SLOTS \<or> ws_target (wp_slots st ! slot) = 0 then (0, st)
      else let s = wp_slots st ! slot; call = ws_calls s + 1;
               st = st\<lparr>wp_slots := (wp_slots st)[slot := s\<lparr>ws_calls := call\<rparr>]\<rparr>;
               st = (if call \<le> GW_LOGGED
                     then let (tid, st) = gw_tid t st
                       in st\<lparr>wp_log := wp_log st @ [Enter (log_file st) (ws_name s) call tid (frame ! 9) (map ((!) frame) [0..<4])]\<rparr>
                     else st)
      in (ws_target s, st))"

definition gw_returned :: "nat \<Rightarrow> nat \<Rightarrow> u64 \<Rightarrow> Wraps \<Rightarrow> Wraps" where
  "gw_returned t slot result st =
     (if slot \<ge> GW_SLOTS \<or> ws_target (wp_slots st ! slot) = 0 then st
      else let s = wp_slots st ! slot; call = ws_calls s
      in if call \<le> GW_LOGGED
         then let (tid, st) = gw_tid t st in st\<lparr>wp_log := wp_log st @ [Leave (log_file st) (ws_name s) call tid result]\<rparr>
         else st)"

definition gw_used :: "Wraps \<Rightarrow> nat" where
  "gw_used st = wp_used st"

definition gw_log :: "nat option \<Rightarrow> Wraps \<Rightarrow> Wraps" where
  "gw_log log st = st\<lparr>wp_file := log\<rparr>"

definition gw_reset :: "Wraps \<Rightarrow> Wraps" where
  "gw_reset st =
     st\<lparr>wp_slots := map (\<lambda>i. if i < wp_used st then (wp_slots st ! i)\<lparr>ws_name := None, ws_target := 0\<rparr> else wp_slots st ! i)
          [0..<length (wp_slots st)], wp_used := 0\<rparr>"

section \<open>Reachable tables\<close>

inductive wraps_reachable :: "Wraps \<Rightarrow> bool" where
  wraps_none: "wraps_reachable no_wraps"
| wraps_wrap: "wraps_reachable st \<Longrightarrow> gw_wrap table name target copied st = (p, st') \<Longrightarrow> wraps_reachable st'"
| wraps_enter: "wraps_reachable st \<Longrightarrow> gw_enter t slot frame st = (p, st') \<Longrightarrow> wraps_reachable st'"
| wraps_returned: "wraps_reachable st \<Longrightarrow> wraps_reachable (gw_returned t slot result st)"
| wraps_log: "wraps_reachable st \<Longrightarrow> wraps_reachable (gw_log log st)"
| wraps_reset: "wraps_reachable st \<Longrightarrow> wraps_reachable (gw_reset st)"

definition slot_key :: "Wraps \<Rightarrow> nat \<Rightarrow> string option \<times> u64" where
  "slot_key st i = (ws_name (wp_slots st ! i), ws_target (wp_slots st ! i))"

definition wraps_ok :: "Wraps \<Rightarrow> bool" where
  "wraps_ok st \<longleftrightarrow>
     length (wp_slots st) = GW_SLOTS \<and> wp_used st \<le> GW_SLOTS \<and> distinct (map (slot_key st) [0..<wp_used st]) \<and>
     (\<forall>i<wp_used st. fst (slot_key st i) \<noteq> None \<and> snd (slot_key st i) \<noteq> 0) \<and>
     (\<forall>i<GW_SLOTS. wp_used st \<le> i \<longrightarrow> snd (slot_key st i) = 0)"

lemma wraps_ok_length: "wraps_ok st \<Longrightarrow> length (wp_slots st) = GW_SLOTS"
  by (simp only: wraps_ok_def)

lemma wraps_ok_keys:
  assumes "wraps_ok st" and "length (wp_slots st') = GW_SLOTS" and "wp_used st' = wp_used st" and "\<forall>i. slot_key st' i = slot_key st i"
  shows "wraps_ok st'"
proof -
  have "slot_key st' = slot_key st" using assms(4) by auto
  then show ?thesis using assms(1-3) by (simp add: wraps_ok_def)
qed

lemma wrapped_at_Some: "wrapped_at st name target = Some i \<Longrightarrow> i < wp_used st \<and> slot_key st i = (Some name, target)"
  by (auto simp: wrapped_at_def slot_key_def find_Some_iff)

lemma wrapped_at_None: "wrapped_at st name target = None \<longleftrightarrow> (\<forall>i<wp_used st. slot_key st i \<noteq> (Some name, target))"
  by (auto simp: wrapped_at_def slot_key_def find_None_iff)

lemma tid_keys [simp]: "wp_slots (snd (gw_tid t st)) = wp_slots st" "wp_used (snd (gw_tid t st)) = wp_used st"
  by (simp_all add: gw_tid_def Let_def)

lemma enter_keys: "gw_enter t slot frame st = (p, st') \<Longrightarrow> length (wp_slots st) = GW_SLOTS \<Longrightarrow>
    length (wp_slots st') = GW_SLOTS \<and> wp_used st' = wp_used st \<and> (\<forall>i. slot_key st' i = slot_key st i)"
  by (auto simp: gw_enter_def slot_key_def Let_def nth_list_update case_prod_unfold split: if_splits)

lemma returned_keys: "length (wp_slots st) = GW_SLOTS \<Longrightarrow>
    length (wp_slots (gw_returned t slot r st)) = GW_SLOTS \<and> wp_used (gw_returned t slot r st) = wp_used st \<and>
    (\<forall>i. slot_key (gw_returned t slot r st) i = slot_key st i)"
  by (auto simp: gw_returned_def slot_key_def Let_def case_prod_unfold)

lemma wrap_new:
  assumes ok: "wraps_ok st" and w: "wrapped_at st name target = None" "wp_used st \<noteq> GW_SLOTS" "target \<noteq> 0"
  defines "st' \<equiv> st\<lparr>wp_slots := (wp_slots st)[wp_used st := \<lparr>ws_name = Some name, ws_target = target, ws_calls = 0\<rparr>], wp_used := wp_used st + 1\<rparr>"
  shows "wraps_ok st'" and "slot_key st' (wp_used st) = (Some name, target)" and "i \<noteq> wp_used st \<Longrightarrow> slot_key st' i = slot_key st i"
proof -
  have l: "length (wp_slots st) = GW_SLOTS" "wp_used st < GW_SLOTS" using ok w(2) by (auto simp: wraps_ok_def)
  show k: "slot_key st' (wp_used st) = (Some name, target)" using l by (simp add: st'_def slot_key_def)
  have o: "slot_key st' i = slot_key st i" if "i \<noteq> wp_used st" for i using that by (simp add: st'_def slot_key_def)
  then show "i \<noteq> wp_used st \<Longrightarrow> slot_key st' i = slot_key st i" .
  have u: "wp_used st' = Suc (wp_used st)" "length (wp_slots st') = GW_SLOTS" using l by (simp_all add: st'_def)
  have m: "map (slot_key st') [0..<wp_used st'] = map (slot_key st) [0..<wp_used st] @ [(Some name, target)]"
    using o k by (simp add: u(1))
  have "(Some name, target) \<notin> set (map (slot_key st) [0..<wp_used st])" using w(1) unfolding wrapped_at_None by auto
  then have "distinct (map (slot_key st') [0..<wp_used st'])"
    unfolding m distinct_append using ok by (simp add: wraps_ok_def)
  moreover have "fst (slot_key st' i) \<noteq> None \<and> snd (slot_key st' i) \<noteq> 0" if "i < wp_used st'" for i
    using that ok k o [of i] w(3) u(1) by (cases "i = wp_used st") (auto simp: wraps_ok_def less_Suc_eq)
  moreover have "snd (slot_key st' i) = 0" if "i < GW_SLOTS" "wp_used st' \<le> i" for i
    using that ok o [of i] u(1) by (auto simp: wraps_ok_def)
  ultimately show "wraps_ok st'" using u l unfolding wraps_ok_def by simp
qed

lemma gw_wrap_cases:
  assumes "gw_wrap table name0 target copied st = (p, st')"
  obtains (same) "p = target" "st' = st" "name0 = None \<or> target = 0 \<or> wp_used st = GW_SLOTS \<or> \<not> copied"
  | (old) name i where "name0 = Some name" "target \<noteq> 0" "wrapped_at st name target = Some i" "p = trampoline table i" "st' = st"
  | (new) name where "name0 = Some name" "target \<noteq> 0" "wrapped_at st name target = None" "wp_used st \<noteq> GW_SLOTS" "p = trampoline table (wp_used st)"
      "st' = st\<lparr>wp_slots := (wp_slots st)[wp_used st := \<lparr>ws_name = Some name, ws_target = target, ws_calls = 0\<rparr>], wp_used := wp_used st + 1\<rparr>"
proof (cases "name0 = None \<or> target = 0")
  case True
  then show ?thesis by (intro same) (use assms in \<open>auto simp: gw_wrap_def split: option.splits\<close>)
next
  case False
  then obtain name where n: "name0 = Some name" "target \<noteq> 0" by (cases name0) auto
  show ?thesis
  proof (cases "wrapped_at st name target")
    case None
    show ?thesis
    proof (cases "wp_used st = GW_SLOTS \<or> \<not> copied")
      case True
      then show ?thesis by (intro same) (use assms n None in \<open>auto simp: gw_wrap_def Let_def split: if_splits\<close>)
    next
      case False
      then show ?thesis by (intro new [OF n None]) (use assms n None in \<open>auto simp: gw_wrap_def Let_def\<close>)
    qed
  next
    case (Some i)
    then show ?thesis by (intro old [OF n Some]) (use assms n in \<open>auto simp: gw_wrap_def\<close>)
  qed
qed

lemma reset_keys: "length (wp_slots st) = GW_SLOTS \<Longrightarrow> i < GW_SLOTS \<Longrightarrow> slot_key (gw_reset st) i = (if i < wp_used st then (None, 0) else slot_key st i)"
  by (simp add: gw_reset_def slot_key_def)

lemma wraps_reachable_ok: "wraps_reachable st \<Longrightarrow> wraps_ok st"
proof (induction rule: wraps_reachable.induct)
  case wraps_none
  have "snd (slot_key no_wraps i) = 0" if "i < GW_SLOTS" for i using that by (simp add: no_wraps_def slot_key_def)
  then show ?case by (simp add: wraps_ok_def no_wraps_def)
next
  case (wraps_wrap st table name target copied p st')
  from wraps_wrap(2) show ?case
  proof (cases rule: gw_wrap_cases)
    case (new name)
    then show ?thesis using wrap_new(1) [OF wraps_wrap(3) new(3,4,2)] by simp
  qed (use wraps_wrap in simp_all)
next
  case (wraps_enter st t slot frame p st')
  then show ?case using enter_keys [OF wraps_enter(2)] wraps_ok_length [OF wraps_enter(3)] by (intro wraps_ok_keys [OF wraps_enter(3)]) simp_all
next
  case (wraps_returned st t slot r)
  then show ?case using returned_keys [of st t slot r] wraps_ok_length [OF wraps_returned(2)]
    by (intro wraps_ok_keys [OF wraps_returned(2)]) simp_all
next
  case (wraps_reset st)
  then have l: "length (wp_slots st) = GW_SLOTS" by (simp only: wraps_ok_length)
  moreover have "length (wp_slots (gw_reset st)) = GW_SLOTS" "wp_used (gw_reset st) = 0" using l by (simp_all add: gw_reset_def)
  moreover have "snd (slot_key (gw_reset st) i) = 0" if "i < GW_SLOTS" for i
    using that wraps_reset(2) reset_keys [OF l that] by (cases "i < wp_used st") (simp_all add: wraps_ok_def)
  ultimately show ?case unfolding wraps_ok_def by simp
next
  case (wraps_log st log)
  then show ?case by (intro wraps_ok_keys [OF wraps_log(2)]) (simp_all add: gw_log_def slot_key_def wraps_ok_length)
qed

section \<open>Entering and leaving wrapped functions\<close>

lemma enter_target: "wraps_ok st \<Longrightarrow> fst (gw_enter t slot frame st) = (if slot < GW_SLOTS then snd (slot_key st slot) else 0)"
  by (auto simp: gw_enter_def slot_key_def Let_def)

lemma trampolines_distinct: "i < GW_SLOTS \<Longrightarrow> k < GW_SLOTS \<Longrightarrow> trampoline table i = trampoline table k \<Longrightarrow> i = k"
proof -
  assume b: "i < GW_SLOTS" "k < GW_SLOTS" and e: "trampoline table i = trampoline table k"
  have "unat (of_nat n * 8 :: u64) = n * 8" if "n < GW_SLOTS" for n
    using that by (simp add: unat_word_ariths unat_of_nat)
  moreover have "(of_nat i * 8 :: u64) = of_nat k * 8" using e by (simp add: trampoline_def)
  ultimately show ?thesis using b by (metis mult_right_cancel zero_neq_numeral)
qed

lemma wrap_again:
  assumes "wraps_ok st" "i < wp_used st" "slot_key st i = (Some name, target)"
  shows "gw_wrap table (Some name) target copied st = (trampoline table i, st)"
proof -
  have nz: "target \<noteq> 0" using assms by (auto simp: wraps_ok_def)
  obtain k where k: "wrapped_at st name target = Some k" using wrapped_at_None [of st name target] assms(2,3) by fastforce
  note s = wrapped_at_Some [OF k]
  have "map (slot_key st) [0..<wp_used st] ! k = map (slot_key st) [0..<wp_used st] ! i" using s assms(2,3) by simp
  then have "k = i" using assms(1,2) s by (subst (asm) nth_eq_iff_index_eq) (auto simp: wraps_ok_def)
  then show ?thesis using k nz by (simp add: gw_wrap_def)
qed

text \<open>After a reset no trampoline has a function to call, although the addresses handed out before are still in use.\<close>

lemma gw_reset_enters_null:
  assumes "wraps_reachable st"
  shows "fst (gw_enter t slot frame (gw_reset st)) = 0"
proof -
  have ok: "wraps_ok (gw_reset st)" using wraps_reachable_ok [OF wraps_reset [OF assms]] .
  have "wp_used (gw_reset st) = 0" by (simp add: gw_reset_def)
  then show ?thesis using ok unfolding enter_target [OF ok] by (simp add: wraps_ok_def)
qed

lemma wrap_enters:
  assumes "wraps_reachable st" and "gw_wrap table name target copied st = (p, st')"
  shows "p = target \<and> st' = st \<and> (name = None \<or> target = 0 \<or> gw_used st = GW_SLOTS \<or> \<not> copied) \<or>
    (\<exists>slot<gw_used st'. p = trampoline table slot \<and> gw_wrap table name target copied' st' = (p, st') \<and>
       fst (gw_enter t slot frame st') = target \<and>
       (\<forall>k<gw_used st. fst (gw_enter t k frame st') = fst (gw_enter t k frame st)))"
  using assms(2)
proof (cases rule: gw_wrap_cases)
  case same
  then show ?thesis by (simp add: gw_used_def)
next
  case (old name i)
  note ok = wraps_reachable_ok [OF assms(1)] and w = wrapped_at_Some [OF old(3)]
  have "i < GW_SLOTS" using w ok by (simp add: wraps_ok_def)
  then show ?thesis using old w wrap_again [OF ok, of i name target table copied'] enter_target [OF ok, of t i frame]
    by (auto simp: gw_used_def)
next
  case (new name)
  note ok = wraps_reachable_ok [OF assms(1)]
  note n = wrap_new [OF ok new(3,4,2), folded new(6)]
  have u: "wp_used st < GW_SLOTS" "wp_used st' = Suc (wp_used st)" using ok new(4,6) by (simp_all add: wraps_ok_def)
  have "fst (gw_enter t k frame st') = fst (gw_enter t k frame st)" if "k < wp_used st" for k
    using that n(3) [of k] u by (simp add: enter_target [OF ok] enter_target [OF n(1)])
  then show ?thesis using new u n(2) wrap_again [OF n(1), of "wp_used st" name target table copied'] enter_target [OF n(1), of t "wp_used st" frame]
    by (auto simp: gw_used_def)
qed

text \<open>C36. In every table the operations reach, wrapping a function answers either the function itself, with the table as it
  was, or the address of a trampoline whose slot calls exactly that function under that name: wrapping the same
  function under the same name again then answers the same address and adds no slot; every function already wrapped
  keeps its trampoline. The function itself comes back only without a name or target, with all 64 slots taken or when
  the name cannot be copied. After a reset no trampoline has a function to call, also those handed out before.
\<close>

theorem gw_wrap_correct:
  assumes "wraps_reachable st" and "gw_wrap table name target copied st = (p, st')"
  shows "(\<forall>slot. fst (gw_enter t slot frame (gw_reset st')) = 0) \<and>
   (p = target \<and> st' = st \<and> (name = None \<or> target = 0 \<or> gw_used st = GW_SLOTS \<or> \<not> copied) \<or>
    (\<exists>slot<gw_used st'. p = trampoline table slot \<and> gw_wrap table name target copied' st' = (p, st') \<and>
       fst (gw_enter t slot frame st') = target \<and>
       (\<forall>k<gw_used st. fst (gw_enter t k frame st') = fst (gw_enter t k frame st))))"
  using gw_reset_enters_null [OF wraps_wrap [OF assms]] wrap_enters [OF assms] by blast

definition sample_wraps :: Wraps where
  "sample_wraps = snd (gw_wrap 0x1000 (Some ''update'') 0x5000 True no_wraps)"

theorem gw_wrap_correct_witness:
  "gw_wrap 0x1000 (Some ''draw'') 0x6000 True sample_wraps = (0x1008, snd (gw_wrap 0x1000 (Some ''draw'') 0x6000 True sample_wraps)) \<and>
   (\<exists>slot<gw_used (snd (gw_wrap 0x1000 (Some ''draw'') 0x6000 True sample_wraps)). (0x1008 :: u64) = trampoline 0x1000 slot \<and>
      fst (gw_enter 0 slot [] (snd (gw_wrap 0x1000 (Some ''draw'') 0x6000 True sample_wraps))) = 0x6000)"
proof -
  have v: "gw_wrap 0x1000 (Some ''draw'') 0x6000 True sample_wraps = (0x1008, snd (gw_wrap 0x1000 (Some ''draw'') 0x6000 True sample_wraps))"
    by (simp add: sample_wraps_def gw_wrap_def no_wraps_def wrapped_at_def trampoline_def Let_def)
  have "wraps_reachable sample_wraps" unfolding sample_wraps_def by (rule wraps_wrap [OF wraps_none prod.collapse [symmetric]])
  from gw_wrap_correct [OF this v, of 0 "[]" True] show ?thesis using v by auto
qed

end
