(* ===== verification/WaitTrace.thy ===== *)
theory WaitTrace
  imports Prelude
begin

text \<open>
  Waits of the application's threads. \<open>runtime/GuestWait.c\<close> splits an endless wait of the main thread into short ones, between which it
  serves the run loop. \<open>runtime/GuestWaitTrace.c\<close> publishes what each thread waits for, in a slot with a sequence counter that
  is odd while the slot is being written, and another thread takes snapshots of it without a lock.

  The atomic operations are sequentially consistent, so a run is an interleaving of single actions. A slot is written only
  by its own thread, the loads of a snapshot are four states of the slot between which the writer may run.
\<close>

section \<open>Wait records\<close>

abbreviation (input) GWT_THREAD_LIMIT :: nat where "GWT_THREAD_LIMIT \<equiv> 256"

record GWWaitRecord =
  wr_operation :: "string option"
  wr_address :: u64

record Slot =
  sl_sequence :: u32
  sl_operation :: "string option"
  sl_address :: u64

definition no_record :: GWWaitRecord where
  "no_record = \<lparr>wr_operation = None, wr_address = 0\<rparr>"

definition slot_record :: "Slot \<Rightarrow> GWWaitRecord" where
  "slot_record s = \<lparr>wr_operation = sl_operation s, wr_address = sl_address s\<rparr>"

text \<open>The atomic actions of the writer.\<close>

datatype slot_action = Count | Store_operation "string option" | Store_address u64

primrec act :: "slot_action \<Rightarrow> Slot \<Rightarrow> Slot" where
  "act Count s = s\<lparr>sl_sequence := sl_sequence s + 1\<rparr>"
| "act (Store_operation x) s = s\<lparr>sl_operation := x\<rparr>"
| "act (Store_address a) s = s\<lparr>sl_address := a\<rparr>"

definition publish_actions :: "GWWaitRecord \<Rightarrow> slot_action list" where
  "publish_actions r = [Count, Store_operation (wr_operation r), Store_address (wr_address r), Count]"

definition publish :: "GWWaitRecord \<Rightarrow> Slot \<Rightarrow> Slot" where
  "publish r s = fold act (publish_actions r) s"

text \<open>Slots are indexed by thread identifier minus one.\<close>

definition gwt_begin :: "nat \<Rightarrow> string option \<Rightarrow> u64 \<Rightarrow> Slot list \<Rightarrow> GWWaitRecord \<times> Slot list" where
  "gwt_begin thread operation a slots =
     (if thread = 0 \<or> thread > GWT_THREAD_LIMIT then (no_record, slots)
      else let i = thread - 1; old = slot_record (slots ! i)
           in (old, slots[i := publish \<lparr>wr_operation = operation, wr_address = a\<rparr> (slots ! i)]))"

definition gwt_end :: "nat \<Rightarrow> GWWaitRecord \<Rightarrow> Slot list \<Rightarrow> Slot list" where
  "gwt_end thread previous slots =
     (if thread \<noteq> 0 \<and> thread \<le> GWT_THREAD_LIMIT then slots[thread - 1 := publish previous (slots ! (thread - 1))] else slots)"

text \<open>The four loads of a snapshot are made in the states \<open>s1\<close> to \<open>s4\<close> of the slot; \<open>present\<close> is \<open>False\<close> for a null result pointer.\<close>

definition gwt_snapshot :: "nat \<Rightarrow> bool \<Rightarrow> Slot \<Rightarrow> Slot \<Rightarrow> Slot \<Rightarrow> Slot \<Rightarrow> GWWaitRecord option" where
  "gwt_snapshot thread present s1 s2 s3 s4 =
     (if \<not> present \<or> thread = 0 \<or> thread > GWT_THREAD_LIMIT then None
      else let before = sl_sequence s1
      in if before AND 1 \<noteq> 0 then None
         else let record' = \<lparr>wr_operation = sl_operation s2, wr_address = sl_address s3\<rparr>
         in if before \<noteq> sl_sequence s4 \<or> wr_operation record' = None then None else Some record')"

section \<open>The writer\<close>

text \<open>The writer between actions: the slot, the actions left of the publication it is in, and the last record it published
  completely.\<close>

record Writer =
  wt_slot :: Slot
  wt_left :: "slot_action list"
  wt_published :: GWWaitRecord

inductive writer_step :: "Writer \<Rightarrow> Writer \<Rightarrow> bool" where
  begin_publish: "wt_left w = [] \<Longrightarrow> publish_actions r = a # as \<Longrightarrow> writer_step w (w\<lparr>wt_slot := act a (wt_slot w), wt_left := as\<rparr>)"
| go_on: "wt_left w = a # b # as \<Longrightarrow> writer_step w (w\<lparr>wt_slot := act a (wt_slot w), wt_left := b # as\<rparr>)"
| end_publish: "wt_left w = [a] \<Longrightarrow> s = act a (wt_slot w) \<Longrightarrow> writer_step w \<lparr>wt_slot = s, wt_left = [], wt_published = slot_record s\<rparr>"

inductive writer_run :: "nat \<Rightarrow> Writer \<Rightarrow> Writer \<Rightarrow> bool" where
  run_refl: "writer_run 0 w w"
| run_step: "writer_run n w w' \<Longrightarrow> writer_step w' w'' \<Longrightarrow> writer_run (Suc n) w w''"

inductive writer_reachable :: "Writer \<Rightarrow> bool" where
  writer_start: "sl_sequence s = 0 \<Longrightarrow> writer_reachable \<lparr>wt_slot = s, wt_left = [], wt_published = slot_record s\<rparr>"
| writer_more: "writer_reachable w \<Longrightarrow> writer_step w w' \<Longrightarrow> writer_reachable w'"

definition writer_ok :: "Writer \<Rightarrow> bool" where
  "writer_ok w \<longleftrightarrow>
     wt_left w = [] \<and> even (unat (sl_sequence (wt_slot w))) \<and> slot_record (wt_slot w) = wt_published w \<or>
     odd (unat (sl_sequence (wt_slot w))) \<and>
       (\<exists>x a. wt_left w = [Store_operation x, Store_address a, Count] \<or> wt_left w = [Store_address a, Count] \<or> wt_left w = [Count])"

lemma parity_count: "odd (unat (x + 1 :: u32)) \<longleftrightarrow> even (unat x)"
proof -
  have "unat (x + 1) = (unat x + 1) mod 4294967296" by (simp add: unat_word_ariths)
  then have "unat (x + 1) mod 2 = (unat x + 1) mod 2" by (simp add: mod_mod_cancel)
  then show ?thesis by presburger
qed

lemma low_bit: "(x :: u32) AND 1 = 0 \<longleftrightarrow> even (unat x)"
proof -
  have "unat (x AND 1) = unat x mod 2" by (simp add: and_one_eq unat_mod)
  then show ?thesis by (metis even_iff_mod_2_eq_zero unsigned_eq_0_iff)
qed

lemma writer_step_ok: "writer_step w w' \<Longrightarrow> writer_ok w \<Longrightarrow> writer_ok w'"
proof (induction rule: writer_step.induct)
  case (begin_publish w r a as)
  then show ?case using parity_count by (auto simp: writer_ok_def publish_actions_def)
next
  case (go_on w a b as)
  then show ?case by (auto simp: writer_ok_def)
next
  case (end_publish w a s)
  then show ?case using parity_count by (auto simp: writer_ok_def)
qed

lemma writer_reachable_ok: "writer_reachable w \<Longrightarrow> writer_ok w"
proof (induction rule: writer_reachable.induct)
  case (writer_start s)
  then show ?case by (simp add: writer_ok_def)
qed (rule writer_step_ok)

lemma writer_run_trans: "writer_run m w' w'' \<Longrightarrow> writer_run n w w' \<Longrightarrow> writer_run (n + m) w w''"
  by (induction rule: writer_run.induct) (auto intro: writer_run.intros)

lemma step_counts:
  "writer_step w w' \<Longrightarrow> \<exists>d \<le> 1. sl_sequence (wt_slot w') = sl_sequence (wt_slot w) + of_nat d \<and> (wt_left w = [] \<longrightarrow> d = 1)"
proof (induction rule: writer_step.induct)
  case (begin_publish w r a as)
  then show ?case by (intro exI [of _ 1]) (auto simp: publish_actions_def)
next
  case (go_on w a b as)
  then show ?case by (cases a) (auto intro: exI [of _ 0] exI [of _ 1])
next
  case (end_publish w a s)
  then show ?case by (cases a) (auto intro: exI [of _ 0] exI [of _ 1])
qed

lemma run_counts:
  "writer_run n w w' \<Longrightarrow> wt_left w = [] \<Longrightarrow>
     n = 0 \<and> w' = w \<or> (\<exists>c. 1 \<le> c \<and> c \<le> n \<and> sl_sequence (wt_slot w') = sl_sequence (wt_slot w) + of_nat c)"
proof (induction rule: writer_run.induct)
  case (run_step n w w' w'')
  obtain d where d: "d \<le> 1" "sl_sequence (wt_slot w'') = sl_sequence (wt_slot w') + of_nat d" "wt_left w' = [] \<longrightarrow> d = 1"
    using step_counts [OF run_step(2)] by blast
  from run_step(3) [OF run_step(4)] show ?case
  proof
    assume "n = 0 \<and> w' = w"
    then show ?thesis using d run_step(4) by (intro disjI2 exI [of _ 1]) auto
  next
    assume "\<exists>c. 1 \<le> c \<and> c \<le> n \<and> sl_sequence (wt_slot w') = sl_sequence (wt_slot w) + of_nat c"
    then obtain c where "1 \<le> c" "c \<le> n" "sl_sequence (wt_slot w') = sl_sequence (wt_slot w) + of_nat c" by blast
    then show ?thesis using d by (intro disjI2 exI [of _ "c + d"]) (auto simp: algebra_simps)
  qed
qed simp

section \<open>Properties of snapshots\<close>

text \<open>C35. A snapshot that succeeds is the record the thread had published completely when the snapshot began, however the writer's actions
  interleave with its loads, as long as the writer makes fewer than \<open>2\<^sup>3\<^sup>2\<close> of them meanwhile. A snapshot of a thread
  that is not publishing and does nothing meanwhile succeeds when a wait is published.\<close>

theorem gwt_snapshot_consistent:
  assumes "writer_reachable w1" and "writer_run n1 w1 w2" and "writer_run n2 w2 w3" and "writer_run n3 w3 w4" and "n1 + n2 + n3 < 2 ^ 32"
  shows "(gwt_snapshot thread present (wt_slot w1) (wt_slot w2) (wt_slot w3) (wt_slot w4) = Some r \<longrightarrow>
      r = wt_published w1 \<and> wr_operation r \<noteq> None \<and> wt_left w1 = [] \<and> n1 + n2 + n3 = 0) \<and>
    (present \<and> 1 \<le> thread \<and> thread \<le> GWT_THREAD_LIMIT \<and> wt_left w1 = [] \<and> wr_operation (wt_published w1) \<noteq> None \<and> n1 + n2 + n3 = 0 \<longrightarrow>
      gwt_snapshot thread present (wt_slot w1) (wt_slot w2) (wt_slot w3) (wt_slot w4) = Some (wt_published w1))"
proof -
  have ok: "writer_ok w1" by (rule writer_reachable_ok [OF assms(1)])
  have run: "writer_run (n1 + n2 + n3) w1 w4" by (intro writer_run_trans [OF assms(4)] writer_run_trans [OF assms(3)] assms(2))
  have none: "writer_run 0 a b \<Longrightarrow> b = a" for a b by (auto elim: writer_run.cases)
  have idle: "even (unat (sl_sequence (wt_slot w1))) \<longleftrightarrow> wt_left w1 = []"
    using ok by (auto simp: writer_ok_def)
  have same: "w2 = w1 \<and> w3 = w1 \<and> w4 = w1" if "n1 + n2 + n3 = 0" using that assms(2-4) none by auto
  have pub: "slot_record (wt_slot w1) = wt_published w1" if "wt_left w1 = []"
    using ok that by (auto simp: writer_ok_def)
  show ?thesis
  proof (intro conjI impI)
    assume s: "gwt_snapshot thread present (wt_slot w1) (wt_slot w2) (wt_slot w3) (wt_slot w4) = Some r"
    then have l: "wt_left w1 = []" and seq: "sl_sequence (wt_slot w1) = sl_sequence (wt_slot w4)"
      using idle by (auto simp: gwt_snapshot_def Let_def low_bit split: if_splits)
    have "n1 + n2 + n3 = 0"
    proof (rule ccontr)
      assume "n1 + n2 + n3 \<noteq> 0"
      then obtain c where c: "1 \<le> c" "c \<le> n1 + n2 + n3" "(of_nat c :: u32) = 0" using run_counts [OF run l] seq by auto
      then show False using assms(5) by (auto simp: word_of_nat_eq_0_iff dest!: dvd_imp_le)
    qed
    then show "r = wt_published w1" "wr_operation r \<noteq> None" "wt_left w1 = []" "n1 + n2 + n3 = 0"
      using s same pub [OF l] l by (auto simp: gwt_snapshot_def slot_record_def Let_def split: if_splits)
  next
    assume a: "present \<and> 1 \<le> thread \<and> thread \<le> GWT_THREAD_LIMIT \<and> wt_left w1 = [] \<and> wr_operation (wt_published w1) \<noteq> None \<and> n1 + n2 + n3 = 0"
    then show "gwt_snapshot thread present (wt_slot w1) (wt_slot w2) (wt_slot w3) (wt_slot w4) = Some (wt_published w1)"
      using same pub idle by (auto simp: gwt_snapshot_def slot_record_def low_bit Let_def)
  qed
qed


theorem gwt_snapshot_consistent_witness:
  "gwt_snapshot 3 True (publish \<lparr>wr_operation = Some ''wait'', wr_address = 9\<rparr> \<lparr>sl_sequence = 0, sl_operation = None, sl_address = 0\<rparr>)
     (publish \<lparr>wr_operation = Some ''wait'', wr_address = 9\<rparr> \<lparr>sl_sequence = 0, sl_operation = None, sl_address = 0\<rparr>)
     (publish \<lparr>wr_operation = Some ''wait'', wr_address = 9\<rparr> \<lparr>sl_sequence = 0, sl_operation = None, sl_address = 0\<rparr>)
     (publish \<lparr>wr_operation = Some ''wait'', wr_address = 9\<rparr> \<lparr>sl_sequence = 0, sl_operation = None, sl_address = 0\<rparr>) =
   Some \<lparr>wr_operation = Some ''wait'', wr_address = 9\<rparr>"
proof -
  define s where "s n x a = \<lparr>sl_sequence = n, sl_operation = x, sl_address = a\<rparr>" for n x a
  have "writer_reachable \<lparr>wt_slot = s 0 None 0, wt_left = [], wt_published = slot_record (s 0 None 0)\<rparr>" by (rule writer_start) (simp add: s_def)
  then have "writer_reachable \<lparr>wt_slot = s 1 None 0, wt_left = [Store_operation (Some ''wait''), Store_address 9, Count], wt_published = slot_record (s 0 None 0)\<rparr>"
    using writer_step.begin_publish [of "\<lparr>wt_slot = s 0 None 0, wt_left = [], wt_published = slot_record (s 0 None 0)\<rparr>" "\<lparr>wr_operation = Some ''wait'', wr_address = 9\<rparr>"]
    by (auto simp: publish_actions_def s_def intro: writer_more)
  from writer_more [OF this writer_step.go_on] have "writer_reachable \<lparr>wt_slot = s 1 (Some ''wait'') 0, wt_left = [Store_address 9, Count], wt_published = slot_record (s 0 None 0)\<rparr>"
    by (simp add: s_def)
  from writer_more [OF this writer_step.go_on] have "writer_reachable \<lparr>wt_slot = s 1 (Some ''wait'') 9, wt_left = [Count], wt_published = slot_record (s 0 None 0)\<rparr>"
    by (simp add: s_def)
  from writer_more [OF this writer_step.end_publish] have re: "writer_reachable \<lparr>wt_slot = s 2 (Some ''wait'') 9, wt_left = [], wt_published = slot_record (s 2 (Some ''wait'') 9)\<rparr>"
    by (simp add: s_def)
  have "publish \<lparr>wr_operation = Some ''wait'', wr_address = 9\<rparr> (s 0 None 0) = s 2 (Some ''wait'') 9" by (simp add: publish_def publish_actions_def s_def)
  then show ?thesis
    using gwt_snapshot_consistent [OF re run_refl run_refl run_refl, THEN conjunct2, of True 3] by (simp add: s_def slot_record_def)
qed

text \<open>Nested waits restore the record: what a wait replaced is there again after it.\<close>

lemma gwt_nested:
  assumes "thread \<noteq> 0" "thread \<le> GWT_THREAD_LIMIT" "length slots = GWT_THREAD_LIMIT" and "gwt_begin thread operation a slots = (old, slots')"
    and "sl_operation (slots'' ! (thread - 1)) = operation" and "length slots'' = length slots'"
  shows "slot_record (gwt_end thread old slots'' ! (thread - 1)) = slot_record (slots ! (thread - 1))"
  using assms by (auto simp: gwt_begin_def gwt_end_def publish_def publish_actions_def slot_record_def Let_def)

section \<open>The main thread's wait\<close>

text \<open>The host's wait returns a result and \<open>errno\<close>; \<open>pending\<close> and \<open>pump\<close> are \<open>None\<close> for null pointers. All act on an arbitrary
  state \<open>'k\<close>.\<close>

type_synonym 'k host_wait = "u32 \<Rightarrow> u64 \<Rightarrow> u64 \<Rightarrow> u32 \<Rightarrow> 'k \<Rightarrow> int \<times> nat \<times> 'k"

abbreviation (input) ETIMEDOUT :: nat where "ETIMEDOUT \<equiv> 60"

partial_function (option) wait_loop ::
  "(u32 \<Rightarrow> 'k \<Rightarrow> int \<times> nat \<times> 'k) \<Rightarrow> ('k \<Rightarrow> bool \<times> 'k) \<Rightarrow> ('k \<Rightarrow> 'k) \<Rightarrow> 'k \<Rightarrow> (int \<times> nat \<times> 'k) option" where
  "wait_loop w pending pump k =
     (case w 10000 k of (result, errno, k) \<Rightarrow>
        if result \<noteq> - 1 \<or> errno \<noteq> ETIMEDOUT then Some (result, errno, k)
        else case pending k of (p, k) \<Rightarrow> wait_loop w pending pump (if p then pump k else k))"

definition gw_wait ::
  "'k host_wait \<Rightarrow> u32 \<Rightarrow> u64 \<Rightarrow> u64 \<Rightarrow> u32 \<Rightarrow> bool \<Rightarrow> ('k \<Rightarrow> bool \<times> 'k) option \<Rightarrow> ('k \<Rightarrow> 'k) option \<Rightarrow> 'k \<Rightarrow> (int \<times> nat \<times> 'k) option" where
  "gw_wait wait operation a v microseconds main_thread pending pump k =
     (if \<not> main_thread \<or> operation \<noteq> 1 \<or> microseconds \<noteq> 0 \<or> pending = None \<or> pump = None then Some (wait operation a v microseconds k)
      else wait_loop (wait operation a v) (the pending) (the pump) k)"

text \<open>One w that ended by its time, and what is done before the next.\<close>

definition timed_out :: "int \<times> nat \<times> 'k \<Rightarrow> bool" where
  "timed_out r \<longleftrightarrow> fst r = - 1 \<and> fst (snd r) = ETIMEDOUT"

definition between :: "('k \<Rightarrow> bool \<times> 'k) \<Rightarrow> ('k \<Rightarrow> 'k) \<Rightarrow> int \<times> nat \<times> 'k \<Rightarrow> 'k" where
  "between pending pump r = (case pending (snd (snd r)) of (p, k) \<Rightarrow> if p then pump k else k)"

definition after_slices :: "(u32 \<Rightarrow> 'k \<Rightarrow> int \<times> nat \<times> 'k) \<Rightarrow> ('k \<Rightarrow> bool \<times> 'k) \<Rightarrow> ('k \<Rightarrow> 'k) \<Rightarrow> nat \<Rightarrow> 'k \<Rightarrow> 'k" where
  "after_slices w pending pump n k = ((\<lambda>k. between pending pump (w 10000 k)) ^^ n) k"

lemma wait_loop_unfold:
  "wait_loop w pending pump k =
     (if timed_out (w 10000 k) then wait_loop w pending pump (between pending pump (w 10000 k)) else Some (w 10000 k))"
  by (subst wait_loop.simps) (auto simp: timed_out_def between_def split: prod.splits)

lemma wait_loop_ends:
  "(\<forall>i<n. timed_out (w 10000 (after_slices w pending pump i k))) \<Longrightarrow> \<not> timed_out (w 10000 (after_slices w pending pump n k)) \<Longrightarrow>
     wait_loop w pending pump k = Some (w 10000 (after_slices w pending pump n k))"
proof (induction n arbitrary: k)
  case 0
  then show ?case by (subst wait_loop_unfold) (simp add: after_slices_def)
next
  case (Suc n)
  have sh: "after_slices w pending pump i (between pending pump (w 10000 k)) = after_slices w pending pump (Suc i) k" for i
    by (simp add: after_slices_def funpow_Suc_right del: funpow.simps)
  have "timed_out (w 10000 k)" using Suc.prems(1) by (auto simp: after_slices_def dest: spec [of _ 0])
  then show ?case using Suc.IH [of "between pending pump (w 10000 k)"] Suc.prems by (subst wait_loop_unfold) (auto simp: sh)
qed


lemma wait_loop_result:
  assumes "wait_loop w pending pump k = Some r"
  shows "\<exists>n. (\<forall>i<n. timed_out (w 10000 (after_slices w pending pump i k))) \<and> \<not> timed_out (w 10000 (after_slices w pending pump n k)) \<and>
       r = w 10000 (after_slices w pending pump n k)"
  using assms
proof (rule wait_loop.raw_induct [rotated])
  fix f :: "(u32 \<Rightarrow> 'a \<Rightarrow> int \<times> nat \<times> 'a) \<Rightarrow> ('a \<Rightarrow> bool \<times> 'a) \<Rightarrow> ('a \<Rightarrow> 'a) \<Rightarrow> 'a \<Rightarrow> (int \<times> nat \<times> 'a) option"
    and w :: "u32 \<Rightarrow> 'a \<Rightarrow> int \<times> nat \<times> 'a" and pending pump k r
  let ?b = "between pending pump (w 10000 k)"
  assume IH: "\<And>w pending pump k r. f w pending pump k = Some r \<Longrightarrow>
      \<exists>n. (\<forall>i<n. timed_out (w 10000 (after_slices w pending pump i k))) \<and> \<not> timed_out (w 10000 (after_slices w pending pump n k)) \<and>
        r = w 10000 (after_slices w pending pump n k)"
    and eq: "(case w 10000 k of (result, errno, k) \<Rightarrow>
        if result \<noteq> - 1 \<or> errno \<noteq> ETIMEDOUT then Some (result, errno, k)
        else case pending k of (p, k) \<Rightarrow> f w pending pump (if p then pump k else k)) = Some r"
  show "\<exists>n. (\<forall>i<n. timed_out (w 10000 (after_slices w pending pump i k))) \<and> \<not> timed_out (w 10000 (after_slices w pending pump n k)) \<and>
      r = w 10000 (after_slices w pending pump n k)"
  proof (cases "timed_out (w 10000 k)")
    case True
    then have "f w pending pump ?b = Some r" using eq by (auto simp: timed_out_def between_def split: prod.splits)
    then obtain n where n: "\<forall>i<n. timed_out (w 10000 (after_slices w pending pump i ?b))" "\<not> timed_out (w 10000 (after_slices w pending pump n ?b))"
        "r = w 10000 (after_slices w pending pump n ?b)" using IH by blast
    have sh: "after_slices w pending pump i ?b = after_slices w pending pump (Suc i) k" for i
      by (simp add: after_slices_def funpow_Suc_right del: funpow.simps)
    have "after_slices w pending pump 0 k = k" by (simp add: after_slices_def)
    then have "\<forall>i<Suc n. timed_out (w 10000 (after_slices w pending pump i k))" using n(1) True by (metis sh less_Suc_eq_0_disj)
    then show ?thesis using n(2,3) unfolding sh by blast
  next
    case False
    then show ?thesis using eq by (intro exI [of _ 0]) (auto simp: timed_out_def after_slices_def split: prod.splits if_splits)
  qed
qed

text \<open>The main thread's endless wait for a job returns exactly when one of its slices ends other than by its time, with the result and
  \<open>errno\<close> of the first such slice; between slices the run loop is served when something is pending. Every other wait is the
  host's own.\<close>

theorem gw_wait_correct:
  "gw_wait wait operation a v microseconds main_thread pending pump k = Some r \<longleftrightarrow>
     (if main_thread \<and> operation = 1 \<and> microseconds = 0 \<and> pending \<noteq> None \<and> pump \<noteq> None
      then \<exists>n. (\<forall>i<n. timed_out (wait 1 a v 10000 (after_slices (wait 1 a v) (the pending) (the pump) i k))) \<and>
        \<not> timed_out (wait 1 a v 10000 (after_slices (wait 1 a v) (the pending) (the pump) n k)) \<and>
        r = wait 1 a v 10000 (after_slices (wait 1 a v) (the pending) (the pump) n k)
      else r = wait operation a v microseconds k)"
proof (cases "main_thread \<and> operation = 1 \<and> microseconds = 0 \<and> pending \<noteq> None \<and> pump \<noteq> None")
  case True
  then have "gw_wait wait operation a v microseconds main_thread pending pump k = wait_loop (wait 1 a v) (the pending) (the pump) k"
    by (auto simp: gw_wait_def)
  then show ?thesis using True wait_loop_ends [of _ "wait 1 a v" "the pending" "the pump" k] wait_loop_result [of "wait 1 a v" "the pending" "the pump" k r]
    by (auto 0 4)
next
  case False
  then show ?thesis by (auto simp: gw_wait_def)
qed

theorem gw_wait_correct_witness:
  "gw_wait (\<lambda>_ _ _ _ k. if k < 2 then (- 1, ETIMEDOUT, k + 1) else (0, 0, k)) 1 0 0 0 True (Some (\<lambda>k. (True, k))) (Some (\<lambda>k. k)) (0 :: nat) = Some (0, 0, 2)"
proof -
  let ?w = "\<lambda>_ _ _ _ k. if k < 2 then (- 1, ETIMEDOUT, k + 1) else (0, 0, k) :: int \<times> nat \<times> nat"
  let ?a = "\<lambda>i. after_slices (?w (1 :: u32) (0 :: u64) (0 :: u64)) (\<lambda>k. (True, k)) (\<lambda>k. k) i (0 :: nat)"
  have a: "?a 0 = 0" "?a 1 = 1" "?a 2 = 2" by (simp_all add: after_slices_def between_def numeral_2_eq_2)
  have "\<forall>i<2. timed_out (?w (1 :: u32) (0 :: u64) (0 :: u64) (10000 :: u32) (?a i))"
    using a by (auto simp: timed_out_def less_2_cases_iff)
  then show ?thesis by (subst gw_wait_correct) (use a in \<open>auto simp: timed_out_def intro!: exI [of _ 2]\<close>)
qed

end
