(* ===== verification/LaunchPolicy.thy ===== *)
theory LaunchPolicy
  imports Scalars "HOL-Library.Sublist"
begin

text \<open>
  The small decisions of a launch, \<open>runtime/NativeGuestPolicy.h\<close>: the limit on the number of processors the application
  is told of, stubs for missing imports, the arena reserved beforehand and the expansion of a placeholder in the
  environment. C strings are HOL strings without null characters, \<open>char_at\<close> gives the null that ends them; output
  buffers are lists that are returned updated. The numbers of \<open>sysctl\<close> and \<open>sysconf\<close> are those of the macOS headers.
\<close>

section \<open>The number of processors\<close>

abbreviation (input) CTL_HW :: u32 where "CTL_HW \<equiv> 6"
abbreviation (input) HW_NCPU :: u32 where "HW_NCPU \<equiv> 3"
abbreviation (input) HW_AVAILCPU :: u32 where "HW_AVAILCPU \<equiv> 25"
abbreviation (input) SC_NPROCESSORS_CONF :: u32 where "SC_NPROCESSORS_CONF \<equiv> 57"
abbreviation (input) SC_NPROCESSORS_ONLN :: u32 where "SC_NPROCESSORS_ONLN \<equiv> 58"

definition cpu_queries :: "string list" where
  "cpu_queries = [''hw.ncpu'', ''hw.activecpu'', ''hw.logicalcpu'', ''hw.logicalcpu_max'', ''hw.physicalcpu'', ''hw.physicalcpu_max'']"

text \<open>The answer is the native result, an \<open>int\<close> in little-endian order.\<close>

definition ng_limit_cpu_answer :: "string option \<Rightarrow> u8 list option \<Rightarrow> u64 \<Rightarrow> u32 \<Rightarrow> bool \<times> u8 list option" where
  "ng_limit_cpu_answer name0 answer0 len limit =
     (case (name0, answer0) of
        (Some name, Some answer) \<Rightarrow>
          if limit = 0 \<or> len \<noteq> 4 then (False, answer0)
          else if name \<notin> set cpu_queries then (False, answer0)
          else let cpus = (ucast (scalar_value answer 4) :: u32)
          in if sint cpus \<le> 0 \<or> cpus \<le> limit then (False, answer0)
             else (True, Some (scalar_bytes (ucast limit) 4 @ drop 4 answer))
      | _ \<Rightarrow> (False, answer0))"

definition ng_cpu_mib_name :: "u32 list option \<Rightarrow> u32 \<Rightarrow> string option" where
  "ng_cpu_mib_name name0 cnt =
     (case name0 of
        None \<Rightarrow> None
      | Some name \<Rightarrow>
          if cnt \<noteq> 2 \<or> name ! 0 \<noteq> CTL_HW then None
          else if name ! 1 = HW_NCPU then Some ''hw.ncpu''
          else if name ! 1 = HW_AVAILCPU then Some ''hw.activecpu''
          else None)"

definition ng_limit_cpu_sysconf :: "u32 \<Rightarrow> u64 \<Rightarrow> u32 \<Rightarrow> u64" where
  "ng_limit_cpu_sysconf name val limit =
     (if limit = 0 \<or> sint val \<le> 0 \<or> name \<noteq> SC_NPROCESSORS_CONF \<and> name \<noteq> SC_NPROCESSORS_ONLN then val
      else if val > ucast limit then ucast limit else val)"

section \<open>Stubs and reserved arenas\<close>

definition ng_may_stub :: "bool \<Rightarrow> bool \<Rightarrow> bool \<Rightarrow> bool" where
  "ng_may_stub generic_build carried_image weak \<longleftrightarrow> \<not> weak \<and> (generic_build \<or> carried_image)"

datatype NGReservedChoice = NG_RESERVED_NONE | NG_RESERVED_TAKE | NG_RESERVED_REFUSE | NG_RESERVED_GIVE_BACK

definition ng_reserved_choice :: "bool \<Rightarrow> bool \<Rightarrow> u64 \<Rightarrow> u64 \<Rightarrow> NGReservedChoice" where
  "ng_reserved_choice external reserved tot reserved_size =
     (if \<not> reserved then NG_RESERVED_NONE
      else if \<not> external then NG_RESERVED_GIVE_BACK
      else if tot \<le> reserved_size then NG_RESERVED_TAKE else NG_RESERVED_REFUSE)"

section \<open>Expansion of a placeholder\<close>

definition char_at :: "string \<Rightarrow> nat \<Rightarrow> char" where
  "char_at s i = (if i < length s then s ! i else CHR 0x00)"

text \<open>The comparison stops at the first difference; \<open>i\<close> counts up to the length of the placeholder.\<close>

function matches_from :: "string \<Rightarrow> string \<Rightarrow> nat \<Rightarrow> bool" where
  "matches_from at placeholder i =
     (if i < length placeholder then char_at at i = placeholder ! i \<and> matches_from at placeholder (i + 1) else True)"
  by auto
termination by (relation "measure (\<lambda>(at, p, i). length p - i)") auto

declare matches_from.simps [simp del]

fun put_piece :: "string \<Rightarrow> string \<Rightarrow> nat \<Rightarrow> string \<times> nat" where
  "put_piece out [] used = (out, used)"
| "put_piece out (c # piece) used = put_piece (out[used := c]) piece (used + 1)"

text \<open>The lengths of the strings and of the buffer are those of objects in memory, so their sums do not wrap.\<close>

function expand_loop :: "string \<Rightarrow> string \<Rightarrow> string \<Rightarrow> string \<Rightarrow> nat \<Rightarrow> bool \<Rightarrow> bool \<times> string" where
  "expand_loop at placeholder replacement out used found =
     (if at = [] \<or> placeholder = [] then (found, out[used := CHR 0x00])
      else let match = matches_from at placeholder 0;
               piece = (if match then replacement else take 1 at)
        in if used + length piece \<ge> length out then (False, out[0 := CHR 0x00])
           else let (out, used) = put_piece out piece used
             in expand_loop (drop (if match then length placeholder else 1) at) placeholder replacement out used (found \<or> match))"
  by auto
termination by (relation "measure (\<lambda>(at, _). length at)") (auto simp: Let_def split: if_splits)

declare expand_loop.simps [simp del]

definition ng_expand :: "string \<Rightarrow> string \<Rightarrow> string \<Rightarrow> string \<Rightarrow> bool \<times> string" where
  "ng_expand val placeholder replacement out =
     (if length out = 0 \<or> length placeholder = 0 then (False, out)
      else expand_loop val placeholder replacement out 0 False)"

section \<open>Limits\<close>

lemma char_at_prefix: "CHR 0x00 \<notin> set p \<Longrightarrow> matches_from at p i \<longleftrightarrow> prefix (drop i p) (drop i at)" if "i \<le> length at"
  using that
proof (induction at p i rule: matches_from.induct)
  case (1 at p i)
  show ?case
  proof (cases "i < length p")
    case True
    then have d: "drop i p = p ! i # drop (Suc i) p" by (simp add: Cons_nth_drop_Suc)
    show ?thesis
    proof (cases "i < length at")
      case True
      then have "drop i at = at ! i # drop (Suc i) at" by (simp add: Cons_nth_drop_Suc)
      then show ?thesis using 1 \<open>i < length p\<close> d True by (subst matches_from.simps) (auto simp: char_at_def)
    next
      case False
      have "p ! i \<noteq> CHR 0x00" using 1(2) \<open>i < length p\<close> nth_mem by force
      then show ?thesis using d False \<open>i < length p\<close> by (subst matches_from.simps) (simp add: char_at_def)
    qed
  qed (subst matches_from.simps, simp)
qed

lemma positive_sint: "0 < sint (x :: u32) \<Longrightarrow> sint x = uint x"
proof -
  assume "0 < sint x"
  moreover have "sint x = uint x - 2 ^ 32 * of_bool (bit (uint x) 31)"
    using signed_take_bit_eq_take_bit_minus [of 31 "uint x"] by (simp add: sint_uint take_bit_int_eq_self uint_lt2p [of x, simplified])
  moreover have "uint x < 2 ^ 32" using uint_lt2p [of x] by simp
  ultimately show ?thesis by (cases "bit (uint x) 31") simp_all
qed

lemma positive_below: "0 < sint (x :: u32) \<Longrightarrow> y < x \<Longrightarrow> y \<noteq> 0 \<Longrightarrow> 0 < sint y \<and> sint y < sint x"
proof -
  assume a: "0 < sint x" "y < x" "y \<noteq> 0"
  have y: "uint y < uint x" "0 < uint y" using a by (simp_all add: word_less_def uint_0_iff order_less_le)
  have "uint x < 2 ^ 31" using positive_sint [OF a(1)] sint_lt [of x] by simp
  then have "sint y = uint y" using y by (simp add: sint_uint signed_take_bit_int_eq_self)
  then show ?thesis using y positive_sint [OF a(1)] by simp
qed

lemma ng_limit_cpu_answer_bound:
  assumes "ng_limit_cpu_answer name (Some answer) len limit = (changed, Some answer')" and "4 \<le> length answer"
  defines "before \<equiv> ucast (scalar_value answer 4) :: u32" and "after \<equiv> ucast (scalar_value answer' 4) :: u32"
  shows "if changed then after = limit \<and> 0 < sint after \<and> sint after < sint before \<and> drop 4 answer' = drop 4 answer else answer' = answer"
proof (cases changed)
  case True
  have a: "answer' = scalar_bytes (ucast limit) 4 @ drop 4 answer" and c: "limit \<noteq> 0" "0 < sint before" "limit < before"
    using assms(1) True by (auto simp: ng_limit_cpu_answer_def before_def Let_def split: option.splits if_splits)
  have "scalar_value answer' 4 = scalar_value (scalar_bytes (ucast limit) 4) 4" unfolding a by (intro scalar_value_cong) (simp add: nth_append)
  then have l: "after = limit" by (simp add: after_def scalar_value_bytes) (rule bit_word_eqI, auto simp: bit_simps)
  show ?thesis using True l a c positive_below [OF c(2,3,1)] by simp
next
  case False
  then show ?thesis using assms(1) by (auto simp: ng_limit_cpu_answer_def Let_def split: option.splits if_splits)
qed

section \<open>What an expansion produces\<close>

text \<open>
  \<open>pieces\<close> splits a text at the placeholder, \<open>join_with\<close> puts a separator between pieces. A splitting is \<open>leftmost\<close>
  when the placeholder ends every piece but the last where it first occurs, and does not occur in the last.
\<close>

fun join_with :: "string \<Rightarrow> string list \<Rightarrow> string" where
  "join_with r [] = []"
| "join_with r [v] = v"
| "join_with r (v # w # vs) = v @ r @ join_with r (w # vs)"

definition leftmost :: "string \<Rightarrow> string list \<Rightarrow> bool" where
  "leftmost p vs \<longleftrightarrow> vs \<noteq> [] \<and> (\<forall>v\<in>set (butlast vs). \<not> sublist p (butlast (v @ p))) \<and> \<not> sublist p (last vs)"

function pieces :: "string \<Rightarrow> string \<Rightarrow> string list" where
  "pieces p v =
     (if v = [] \<or> p = [] then [v]
      else if prefix p v then [] # pieces p (drop (length p) v)
      else (hd v # hd (pieces p (tl v))) # tl (pieces p (tl v)))"
  by auto
termination by (relation "measure (\<lambda>(p, v). length v)") (auto simp: neq_Nil_conv prefix_def)

declare pieces.simps [simp del]

lemma pieces_not_Nil [simp]: "pieces p v \<noteq> []"
  by (subst pieces.simps) simp

lemma join_with_Cons: "vs \<noteq> [] \<Longrightarrow> join_with r (v # vs) = v @ r @ join_with r vs"
  by (cases vs) auto

lemma join_with_head: "vs \<noteq> [] \<Longrightarrow> join_with r ((c # hd vs) # tl vs) = c # join_with r vs"
  by (cases vs; cases "tl vs") auto

lemma join_pieces: "join_with p (pieces p v) = v"
proof (induction p v rule: pieces.induct)
  case (1 p v)
  then show ?case by (subst pieces.simps) (auto simp: join_with_Cons join_with_head prefix_def)
qed

lemma join_with_hd: "vs \<noteq> [] \<Longrightarrow> tl vs \<noteq> [] \<Longrightarrow> prefix (hd vs @ p) (join_with p vs)"
  by (cases vs; cases "tl vs") auto

lemma leftmost_head:
  assumes "leftmost p vs" "p \<noteq> []" "\<not> prefix p (c # join_with p vs)"
  shows "leftmost p ((c # hd vs) # tl vs)"
proof (cases "tl vs")
  case Nil
  then obtain v where "vs = [v]" using assms(1) by (cases vs) (auto simp: leftmost_def)
  then show ?thesis using assms by (simp add: leftmost_def sublist_Cons_right)
next
  case (Cons w ws)
  then obtain v where v: "vs = v # w # ws" by (cases vs) auto
  have "prefix (butlast (c # v @ p)) (c # join_with p vs)"
    using assms(2) prefix_order.trans [OF prefixeq_butlast join_with_hd [of vs p]] v by (simp add: butlast_append)
  then have "\<not> prefix p (butlast (c # v @ p))" using assms(3) prefix_order.trans by blast
  moreover have "butlast (c # v @ p) = c # butlast (v @ p)" using assms(2) by simp
  ultimately have "\<not> sublist p (butlast (c # v @ p))" using assms(1) v by (simp add: leftmost_def sublist_Cons_right)
  then show ?thesis using assms(1) v by (simp add: leftmost_def)
qed

lemma leftmost_pieces: "p \<noteq> [] \<Longrightarrow> leftmost p (pieces p v)"
proof (induction p v rule: pieces.induct)
  case (1 p v)
  consider "v = []" | "v \<noteq> []" "prefix p v" | "v \<noteq> []" "\<not> prefix p v" by blast
  then show ?case
  proof cases
    case 1
    then show ?thesis using "1.prems" by (subst pieces.simps) (simp add: leftmost_def)
  next
    case 2
    have "\<not> sublist p (butlast p)" using "1.prems" sublist_length_le [of p "butlast p"] by (cases p) auto
    then show ?thesis using 2 "1.prems" "1.IH"(1) by (subst pieces.simps) (simp add: leftmost_def)
  next
    case 3
    then have "leftmost p (pieces p (tl v))" "\<not> prefix p (hd v # join_with p (pieces p (tl v)))"
      using "1.prems" "1.IH"(2) by (simp_all add: join_pieces)
    then show ?thesis using 3 "1.prems" leftmost_head by (subst pieces.simps) simp
  qed
qed

lemma put_piece_run: "used + length piece \<le> length out \<Longrightarrow> put_piece out piece used = (take used out @ piece @ drop (used + length piece) out, used + length piece)"
proof (induction out piece used rule: put_piece.induct)
  case (2 out c piece used)
  have "take (Suc used) (out[used := c]) = take used out @ [c]" using "2.prems" by (simp add: take_Suc_conv_app_nth)
  then show ?case using 2 by simp
qed simp


text \<open>
  The loop, once some output is written: it either writes the rest of the text with each placeholder replaced and a
  null after it, or empties the buffer when that does not fit.
\<close>

definition expansion :: "string \<Rightarrow> string \<Rightarrow> string \<Rightarrow> string \<Rightarrow> nat \<Rightarrow> bool \<Rightarrow> bool \<times> string \<Rightarrow> bool" where
  "expansion at p r out used found res \<longleftrightarrow>
     (let vs = pieces p at; new = join_with r vs
      in if used + length new < length out
         then res = (found \<or> tl vs \<noteq> [], take used out @ new @ [CHR 0x00] @ drop (used + length new + 1) out)
         else \<not> fst res \<and> length (snd res) = length out \<and> snd res ! 0 = CHR 0x00)"

lemma expand_loop_correct:
  assumes "p \<noteq> []" "CHR 0x00 \<notin> set p" "used < length out"
  shows "expansion at p r out used found (expand_loop at p r out used found)"
  using assms
proof (induction at p r out used found rule: expand_loop.induct)
  case (1 at p r out used found)
  show ?case
  proof (cases "at = []")
    case True
    then show ?thesis using "1.prems"
      by (subst expand_loop.simps) (simp add: expansion_def pieces.simps [of p "[]"] upd_conv_take_nth_drop)
  next
    case False
    define m where "m = prefix p at"
    define piece where "piece = (if m then r else take 1 at)"
    define rest where "rest = drop (if m then length p else 1) at"
    have m: "matches_from at p 0 = m" using char_at_prefix [of 0 at p] "1.prems" by (simp add: m_def)
    have j: "join_with r (pieces p at) = piece @ join_with r (pieces p rest)" and
      t: "(tl (pieces p at) \<noteq> []) = (m \<or> tl (pieces p rest) \<noteq> [])"
      using False "1.prems"(1) unfolding pieces.simps [of p at] piece_def rest_def m_def
      by (cases at; simp add: join_with_Cons join_with_head)+
    show ?thesis
    proof (cases "used + length piece \<ge> length out")
      case True
      then have "expand_loop at p r out used found = (False, out[0 := CHR 0x00])"
        using False "1.prems"(1) by (subst expand_loop.simps) (simp add: m piece_def Let_def)
      then show ?thesis using True "1.prems"(3) by (cases out) (auto simp: expansion_def j Let_def)
    next
      case fits: False
      let ?out = "take used out @ piece @ drop (used + length piece) out"
      have pp: "put_piece out piece used = (?out, used + length piece)" using fits by (simp add: put_piece_run)
      have e: "expand_loop at p r out used found = expand_loop rest p r ?out (used + length piece) (found \<or> m)"
        using False "1.prems"(1) fits pp by (subst expand_loop.simps) (simp add: m piece_def rest_def Let_def)
      have "expansion rest p r ?out (used + length piece) (found \<or> m) (expand_loop at p r out used found)"
        unfolding e by (rule "1.IH" [of m piece "(?out, used + length piece)" ?out "used + length piece", folded rest_def])
          (use False "1.prems" fits pp in \<open>auto simp: m piece_def rest_def\<close>)
      then show ?thesis using fits t unfolding expansion_def j Let_def by (auto simp: ac_simps)
    qed
  qed
qed

text \<open>C37. For strings of C and a placeholder that is not empty, the value falls into pieces with the placeholder between
  them, leftmost occurrence first. When the pieces with the replacement between them fit the buffer with a null at the
  end, that is what the buffer holds afterwards, the rest of it as it was, and the answer tells whether the placeholder
  occurred. Otherwise the answer is false and the buffer holds the empty string.
\<close>

theorem ng_expand_correct:
  assumes "placeholder \<noteq> []" and "CHR 0x00 \<notin> set placeholder" and "out \<noteq> []"
  shows "\<exists>vs. leftmost placeholder vs \<and> join_with placeholder vs = val \<and>
    (let new = join_with replacement vs; (found, out') = ng_expand val placeholder replacement out
     in if length new < length out then found = (1 < length vs) \<and> out' = new @ [CHR 0x00] @ drop (length new + 1) out
        else \<not> found \<and> length out' = length out \<and> out' ! 0 = CHR 0x00)"
proof (intro exI conjI)
  let ?vs = "pieces placeholder val"
  show "leftmost placeholder ?vs" "join_with placeholder ?vs = val" using assms(1) by (simp_all add: leftmost_pieces join_pieces)
  have "(tl ?vs \<noteq> []) = (1 < length ?vs)" by (cases ?vs; cases "tl ?vs") auto
  then show "let new = join_with replacement ?vs; (found, out') = ng_expand val placeholder replacement out
     in if length new < length out then found = (1 < length ?vs) \<and> out' = new @ [CHR 0x00] @ drop (length new + 1) out
        else \<not> found \<and> length out' = length out \<and> out' ! 0 = CHR 0x00"
    using expand_loop_correct [OF assms(1,2), of 0 out val replacement False] assms
    by (auto simp: expansion_def ng_expand_def Let_def split: if_splits)
qed

theorem ng_expand_correct_witness:
  "ng_expand ''a$Pb'' ''$P'' ''0x10'' (replicate 8 CHR ''.'') = (True, ''a0x10b'' @ [CHR 0x00, CHR ''.'']) \<and>
   (\<exists>vs. leftmost ''$P'' vs \<and> join_with ''$P'' vs = ''a$Pb'' \<and> 1 < length vs \<and>
      ''a0x10b'' @ [CHR 0x00, CHR ''.''] = join_with ''0x10'' vs @ [CHR 0x00] @ drop (length (join_with ''0x10'' vs) + 1) (replicate 8 CHR ''.''))"
    (is "?run \<and> _")
proof (rule conjI)
  show run: ?run by (simp add: ng_expand_def expand_loop.simps matches_from.simps char_at_def numeral_eq_Suc)
  show "\<exists>vs. leftmost ''$P'' vs \<and> join_with ''$P'' vs = ''a$Pb'' \<and> 1 < length vs \<and>
      ''a0x10b'' @ [CHR 0x00, CHR ''.''] = join_with ''0x10'' vs @ [CHR 0x00] @ drop (length (join_with ''0x10'' vs) + 1) (replicate 8 CHR ''.'')"
    using ng_expand_correct [of "''$P''" "replicate 8 CHR ''.''" "''a$Pb''" "''0x10''"] unfolding run Let_def by (auto split: if_splits)
qed

section \<open>What a launch decides\<close>

text \<open>An arena is taken only by the route it was made for and only when the image fits; a reserved one is never ignored.\<close>

lemma ng_reserved_choice_sound:
  "(ng_reserved_choice external reserved tot n = NG_RESERVED_TAKE \<longleftrightarrow> external \<and> reserved \<and> tot \<le> n) \<and>
   (ng_reserved_choice external reserved tot n = NG_RESERVED_NONE \<longleftrightarrow> \<not> reserved)"
  by (simp add: ng_reserved_choice_def)

lemma ng_limit_cpu_sysconf_bound:
  "let v = ng_limit_cpu_sysconf name val limit in v = val \<or> v = ucast limit \<and> 0 < v \<and> v < val"
proof -
  have "(ucast limit :: u64) \<noteq> 0" if "limit \<noteq> 0"
    using that by (simp add: word_uint_eq_iff unsigned_ucast_eq take_bit_int_eq_self order_less_trans [OF uint_lt2p [of limit, simplified]])
  then show ?thesis by (auto simp: ng_limit_cpu_sysconf_def Let_def word_gt_0)
qed

end
