(* ===== verification/LocalRoute.thy ===== *)
theory LocalRoute
  imports Prelude
begin

text \<open>
  The local route of the authorization service, \<open>authorization/LocalRoute.c\<close>: an outgoing IPv4 packet between two fixed
  addresses is handed back to the local network stack with its addresses exchanged. A packet is the list of its bytes,
  the length the one passed with it.
\<close>

section \<open>Reflection\<close>

record LocalRoute =
  lr_interface_address :: "u8 list"
  lr_peer_address :: "u8 list"

datatype LRResult = LR_REFLECTED | LR_UNRELATED | LR_MALFORMED

text \<open>Bytes \<open>at\<close> to \<open>at + 4\<close> of a packet, and a \<open>memcpy\<close> over them.\<close>

definition four :: "u8 list \<Rightarrow> nat \<Rightarrow> u8 list" where
  "four p at = take 4 (drop at p)"

definition put_four :: "u8 list \<Rightarrow> nat \<Rightarrow> u8 list \<Rightarrow> u8 list" where
  "put_four p at x = take at p @ x @ drop (at + 4) p"

definition lr_reflect :: "LocalRoute option \<Rightarrow> u8 list option \<Rightarrow> nat \<Rightarrow> LRResult \<times> u8 list option" where
  "lr_reflect r0 packet n =
     (case (r0, packet) of
        (Some r, Some p) \<Rightarrow>
          if n < 20 then (LR_MALFORMED, packet)
          else let header = unat (p ! 0 AND 15) * 4;
                   tot = unat (push_bit 8 (ucast (p ! 2)) OR ucast (p ! 3) :: u64)
          in if drop_bit 4 (p ! 0) \<noteq> 4 \<or> header < 20 \<or> header > n \<or> tot \<noteq> n then (LR_MALFORMED, packet)
             else if four p 12 \<noteq> lr_interface_address r \<or> four p 16 \<noteq> lr_peer_address r then (LR_UNRELATED, packet)
             else let source = four p 12; p = put_four p 12 (four p 16)
             in (LR_REFLECTED, Some (put_four p 16 source))
      | _ \<Rightarrow> (LR_MALFORMED, packet))"

section \<open>Checksums\<close>

text \<open>The sum of the big-endian 16-bit words of some bytes, of which the checksums of IPv4, TCP and UDP are the complement.\<close>

fun word_sum :: "u8 list \<Rightarrow> nat" where
  "word_sum (a # b # bs) = unat a * 256 + unat b + word_sum bs"
| "word_sum [a] = unat a * 256"
| "word_sum [] = 0"

lemma word_sum_append: "even (length xs) \<Longrightarrow> word_sum (xs @ ys) = word_sum xs + word_sum ys"
  by (induction xs rule: word_sum.induct) auto

text \<open>A packet of at least 20 bytes in parts: the fields before the addresses, the two addresses, the rest.\<close>

lemma packet_parts: "p = take 12 p @ four p 12 @ four p 16 @ drop 20 p"
proof -
  have "drop 12 p = four p 12 @ drop 16 p" "drop 16 p = four p 16 @ drop 20 p"
    using append_take_drop_id [of 4 "drop 12 p"] append_take_drop_id [of 4 "drop 16 p"] by (simp_all add: four_def)
  then show ?thesis by (metis append_take_drop_id)
qed

lemma swapped:
  assumes "20 \<le> length p"
  shows "put_four (put_four p 12 (four p 16)) 16 (four p 12) = take 12 p @ four p 16 @ four p 12 @ drop 20 p"
  using assms by (simp add: put_four_def four_def min_def)

text \<open>The fields of a packet made of parts.\<close>

lemma parts_fields:
  assumes "length f = 12" "length s = 4" "length d = 4"
  shows "four (f @ s @ d @ rest) 12 = s" "four (f @ s @ d @ rest) 16 = d" "take 12 (f @ s @ d @ rest) = f" "drop 20 (f @ s @ d @ rest) = rest"
  using assms by (simp_all add: four_def)

lemma total_length: "unat (push_bit 8 (ucast (a :: u8)) OR ucast (b :: u8) :: u64) = unat a * 256 + unat b"
proof -
  have ab: "unat a < 256" "unat b < 256" using unsigned_less [of a, where 'a = nat] unsigned_less [of b, where 'a = nat] by simp_all
  have u: "unat (ucast x :: u64) = unat x" for x :: u8
    using unsigned_less [of x, where 'a = nat] by (simp add: unsigned_ucast_eq take_bit_nat_eq_self)
  have "(push_bit 8 (ucast a) OR ucast b :: u64) = push_bit 8 (ucast a) + ucast b"
    by (rule disjunctive_add [symmetric]) (auto simp: bit_simps dest: bit_imp_le_length)
  then show ?thesis using ab by (simp add: push_bit_eq_mult unat_word_ariths u)
qed

definition reflectable :: "LocalRoute \<Rightarrow> u8 list \<Rightarrow> bool" where
  "reflectable r p \<longleftrightarrow>
     20 \<le> length p \<and> drop_bit 4 (p ! 0) = 4 \<and> 20 \<le> unat (p ! 0 AND 15) * 4 \<and> unat (p ! 0 AND 15) * 4 \<le> length p \<and>
     unat (p ! 2) * 256 + unat (p ! 3) = length p \<and> four p 12 = lr_interface_address r \<and> four p 16 = lr_peer_address r"

lemma reflect_reflectable:
  "reflectable r p \<Longrightarrow> lr_reflect (Some r) (Some p) (length p) = (LR_REFLECTED, Some (take 12 p @ four p 16 @ four p 12 @ drop 20 p))"
  using swapped [of p] unfolding lr_reflect_def reflectable_def total_length by (simp add: Let_def not_less)

lemma reflect_other:
  "\<not> reflectable r p \<Longrightarrow> lr_reflect (Some r) (Some p) (length p) = (res, q) \<Longrightarrow> res \<noteq> LR_REFLECTED \<and> q = Some p"
  unfolding lr_reflect_def reflectable_def total_length by (auto simp: Let_def not_less split: if_splits)

lemma reflected_back:
  assumes "reflectable r p"
  defines "p' \<equiv> take 12 p @ four p 16 @ four p 12 @ drop 20 p"
  shows "reflectable \<lparr>lr_interface_address = lr_peer_address r, lr_peer_address = lr_interface_address r\<rparr> p'"
    and "take 12 p' @ four p' 16 @ four p' 12 @ drop 20 p' = p"
    and "take 12 p' = take 12 p" "four p' 12 = four p 16" "four p' 16 = four p 12" "drop 20 p' = drop 20 p"
proof -
  have l: "20 \<le> length p" using assms(1) by (simp add: reflectable_def)
  then have n: "length (take 12 p) = 12" "length (four p 16) = 4" "length (four p 12) = 4" by (simp_all add: four_def)
  note parts = parts_fields [OF n, of "drop 20 p", folded p'_def]
  show "take 12 p' = take 12 p" "four p' 12 = four p 16" "four p' 16 = four p 12" "drop 20 p' = drop 20 p" using parts by simp_all
  show "take 12 p' @ four p' 16 @ four p' 12 @ drop 20 p' = p" unfolding parts using packet_parts [of p] by simp
  have k: "p' ! k = p ! k" if "k < 12" for k using that l by (simp add: p'_def nth_append)
  have "length p' = length p" using l n by (simp add: p'_def)
  then show "reflectable \<lparr>lr_interface_address = lr_peer_address r, lr_peer_address = lr_interface_address r\<rparr> p'"
    using assms(1) parts k [of 0] k [of 2] k [of 3] by (simp add: reflectable_def)
qed

lemma swapped_sum:
  assumes "length f = 12" "length s = 4" "length d = 4" "20 \<le> h"
  shows "word_sum (take h (f @ s @ d @ rest)) = word_sum (take h (f @ d @ s @ rest))"
  using assms by (simp add: word_sum_append)

text \<open>C40. A packet is reflected exactly when it is a complete IPv4 packet from the interface address to the peer's, and
  otherwise it is left as it is. A reflected packet keeps every byte but the addresses, which are exchanged; the sum
  of 16-bit words over the header and over the addresses, which enter the IPv4 checksum and those of TCP and UDP, stay the
  same; and the route in the other direction reflects it back to the packet it was.
\<close>

theorem lr_reflect_correct:
  assumes "lr_reflect (Some r) (Some p) (length p) = (res, Some p')"
  shows "(res \<noteq> LR_REFLECTED \<longrightarrow> p' = p) \<and>
    (res = LR_REFLECTED \<longleftrightarrow> 20 \<le> length p \<and> drop_bit 4 (p ! 0) = 4 \<and> 20 \<le> unat (p ! 0 AND 15) * 4 \<and> unat (p ! 0 AND 15) * 4 \<le> length p \<and>
       unat (p ! 2) * 256 + unat (p ! 3) = length p \<and> four p 12 = lr_interface_address r \<and> four p 16 = lr_peer_address r) \<and>
    (res = LR_REFLECTED \<longrightarrow>
       take 12 p' = take 12 p \<and> four p' 12 = four p 16 \<and> four p' 16 = four p 12 \<and> drop 20 p' = drop 20 p \<and>
       word_sum (take (unat (p ! 0 AND 15) * 4) p') = word_sum (take (unat (p ! 0 AND 15) * 4) p) \<and>
       word_sum (four p' 12 @ four p' 16) = word_sum (four p 12 @ four p 16) \<and>
       lr_reflect (Some \<lparr>lr_interface_address = lr_peer_address r, lr_peer_address = lr_interface_address r\<rparr>) (Some p') (length p') =
         (LR_REFLECTED, Some p))"
proof (cases "reflectable r p")
  case True
  let ?q = "take 12 p @ four p 16 @ four p 12 @ drop 20 p" and ?h = "unat (p ! 0 AND 15) * 4"
  have e: "res = LR_REFLECTED" "p' = ?q" using assms reflect_reflectable [OF True] by simp_all
  note rb = reflected_back [OF True, folded e(2)]
  have l: "20 \<le> length p" "20 \<le> ?h" using True by (simp_all add: reflectable_def)
  then have n: "length (take 12 p) = 12" "length (four p 16) = 4" "length (four p 12) = 4" by (simp_all add: four_def)
  have "word_sum (take ?h p') = word_sum (take ?h (take 12 p @ four p 12 @ four p 16 @ drop 20 p))"
    unfolding e(2) by (rule swapped_sum [OF n l(2)])
  then have h: "word_sum (take ?h p') = word_sum (take ?h p)" by (simp only: packet_parts [symmetric])
  have a: "word_sum (four p 16 @ four p 12) = word_sum (four p 12 @ four p 16)" using n by (simp add: word_sum_append)
  have b: "lr_reflect (Some \<lparr>lr_interface_address = lr_peer_address r, lr_peer_address = lr_interface_address r\<rparr>) (Some p') (length p') = (LR_REFLECTED, Some p)"
    using reflect_reflectable [OF rb(1)] unfolding rb(2) .
  show ?thesis using True e(1) rb(3-6) h a b by (simp add: reflectable_def)
next
  case False
  then show ?thesis using reflect_other [OF False assms] by (simp add: reflectable_def)
qed

definition sample_packet :: "u8 list" where
  "sample_packet = [0x45, 0, 0, 22, 0, 0, 0, 0, 64, 6, 0, 0, 10, 7, 0, 1, 10, 7, 0, 2, 1, 2]"

definition sample_route :: LocalRoute where
  "sample_route = \<lparr>lr_interface_address = [10, 7, 0, 1], lr_peer_address = [10, 7, 0, 2]\<rparr>"

theorem lr_reflect_correct_witness:
  "lr_reflect (Some sample_route) (Some sample_packet) (length sample_packet) =
     (LR_REFLECTED, Some [0x45, 0, 0, 22, 0, 0, 0, 0, 64, 6, 0, 0, 10, 7, 0, 2, 10, 7, 0, 1, 1, 2]) \<and>
   four sample_packet 12 = lr_interface_address sample_route"
proof -
  have v: "lr_reflect (Some sample_route) (Some sample_packet) (length sample_packet) =
     (LR_REFLECTED, Some [0x45, 0, 0, 22, 0, 0, 0, 0, 64, 6, 0, 0, 10, 7, 0, 2, 10, 7, 0, 1, 1, 2])" by code_simp
  from lr_reflect_correct [OF v] v show ?thesis by blast
qed

end
