(* ===== verification/LegacyCrypto.thy ===== *)
theory LegacyCrypto
  imports Scalars
begin

text \<open>
  The retired cryptography interface some applications use for their saves, \<open>translation/Security/LegacyCrypto.c\<close>: modules
  and contexts named by handles, keys derived from passphrases, and encryption with padding that is checked before
  anything decrypted is published.

  A pointer to data is a length with the bytes it points to, or none. The allocator of a module's client is a
  function from sizes to fresh buffers, \<open>lc_freed\<close> lists the buffers given back to it. CommonCrypto is two function
  arguments: \<open>pbkdf\<close> derives a key (result code and bytes), \<open>cc\<close> encrypts or decrypts (result code and bytes written, which
  CommonCrypto keeps within the capacity it is given). Whether an allocation succeeds is a boolean argument. Each operation
  holds the lock from its first use of the tables to its last.
\<close>

section \<open>Data and state\<close>

datatype cssm_status = OK | MEMORY | POINTER | UNSUPPORTED | CONTEXT | DATA | OUTPUT | KEY

fun cssm_code :: "cssm_status \<Rightarrow> int" where
  "cssm_code OK = 0"
| "cssm_code MEMORY = -2147416062"
| "cssm_code POINTER = -2147416060"
| "cssm_code UNSUPPORTED = -2147416057"
| "cssm_code CONTEXT = -2147416000"
| "cssm_code DATA = -2147415994"
| "cssm_code OUTPUT = -2147415806"
| "cssm_code KEY = -2147415792"

abbreviation (input) AES_ID :: u32 where "AES_ID \<equiv> 0x80000001"
abbreviation (input) MAX_DATA :: u64 where "MAX_DATA \<equiv> 1048576"

definition gGuidAppleCSP :: "u8 list" where
  "gGuidAppleCSP = [0x87, 0x19, 0x1c, 0xa2, 0x0f, 0xc9, 0x11, 0xd4, 0x84, 0x9a, 0, 5, 2, 0xb5, 0x21, 0x22]"

record CSSMData =
  cd_length :: u64
  cd_data :: "u8 list option"

record CSSMKey =
  ck_version :: u32
  ck_csp :: "u8 list"
  ck_blob_type :: u32
  ck_format :: u32
  ck_algorithm :: u32
  ck_class :: u32
  ck_bits :: u32
  ck_attr :: u32
  ck_usage :: u32
  ck_rest :: "u8 list"
  ck_data :: CSSMData

definition zero_data :: CSSMData where "zero_data = \<lparr>cd_length = 0, cd_data = None\<rparr>"

definition zero_key :: CSSMKey where
  "zero_key = \<lparr>ck_version = 0, ck_csp = replicate 16 0, ck_blob_type = 0, ck_format = 0, ck_algorithm = 0, ck_class = 0,
     ck_bits = 0, ck_attr = 0, ck_usage = 0, ck_rest = replicate 28 0, ck_data = zero_data\<rparr>"

record CSSMPBKDF2 =
  pb_passphrase :: CSSMData
  pb_function :: u32

text \<open>Of a client's memory functions the code uses two; the flags tell which are given.\<close>

record CSSMMemory =
  me_malloc_func :: bool
  me_free_func :: bool
  me_ref :: u64

record Module =
  mo_id :: u64
  mo_memory :: CSSMMemory

record Context =
  cx_id :: u64
  cx_module :: u64
  cx_kind :: nat
  cx_bits :: u32
  cx_rounds :: u32
  cx_padding :: u32
  cx_key :: "u8 list"
  cx_iv :: "u8 list"
  cx_salt :: "u8 list"
  cx_key_size :: u64

record Crypto =
  lc_modules :: "Module list"
  lc_contexts :: "Context list"
  lc_serial :: u64
  lc_freed :: "(u64 \<times> u8 list) list"

definition no_crypto :: Crypto where
  "no_crypto = \<lparr>lc_modules = [], lc_contexts = [], lc_serial = 1, lc_freed = []\<rparr>"

definition zero_context :: Context where
  "zero_context = \<lparr>cx_id = 0, cx_module = 0, cx_kind = 0, cx_bits = 0, cx_rounds = 0, cx_padding = 0,
     cx_key = replicate 32 0, cx_iv = replicate 16 0, cx_salt = [], cx_key_size = 0\<rparr>"

definition module_of :: "Crypto \<Rightarrow> u64 \<Rightarrow> Module option" where
  "module_of st i = find (\<lambda>m. mo_id m = i) (lc_modules st)"

definition context_of :: "Crypto \<Rightarrow> u64 \<Rightarrow> Context option" where
  "context_of st i = find (\<lambda>c. cx_id c = i) (lc_contexts st)"

definition valid_guid :: "u8 list option \<Rightarrow> bool" where
  "valid_guid g \<longleftrightarrow> g = Some gGuidAppleCSP"

definition valid_data :: "CSSMData option \<Rightarrow> bool" where
  "valid_data d0 \<longleftrightarrow> (case d0 of None \<Rightarrow> False | Some d \<Rightarrow> cd_length d \<le> MAX_DATA \<and> (cd_length d = 0 \<or> cd_data d \<noteq> None))"

text \<open>The bytes a valid pointer names.\<close>

definition data_bytes :: "CSSMData \<Rightarrow> u8 list" where
  "data_bytes d = (case cd_data d of None \<Rightarrow> [] | Some p \<Rightarrow> take (unat (cd_length d)) p)"

definition wipe :: "u8 list \<Rightarrow> nat \<Rightarrow> u8 list" where
  "wipe p n = replicate (min n (length p)) 0 @ drop n p"

section \<open>Modules and contexts\<close>

definition CSSM_Init :: "(u32 \<times> u32) option \<Rightarrow> u32 \<Rightarrow> u32 \<Rightarrow> bool \<Rightarrow> cssm_status" where
  "CSSM_Init v scope hierarchy reserved = (if v = Some (2, 0) \<and> scope = 0 \<and> hierarchy = 0 \<and> \<not> reserved then OK else UNSUPPORTED)"

definition CSSM_ModuleLoad :: "u8 list option \<Rightarrow> u32 \<Rightarrow> bool \<Rightarrow> cssm_status" where
  "CSSM_ModuleLoad g hierarchy callback = (if valid_guid g \<and> hierarchy = 0 \<and> \<not> callback then OK else UNSUPPORTED)"

text \<open>The second result is what is stored through \<open>out\<close>, if anything is.\<close>

definition CSSM_ModuleAttach ::
  "u8 list option \<Rightarrow> (u32 \<times> u32) option \<Rightarrow> CSSMMemory option \<Rightarrow> u32 \<Rightarrow> u32 \<Rightarrow> u32 \<Rightarrow> u32 \<Rightarrow> bool \<Rightarrow> u32 \<Rightarrow> bool \<Rightarrow> bool \<Rightarrow> bool \<Rightarrow> Crypto \<Rightarrow>
     cssm_status \<times> u64 option \<times> Crypto" where
  "CSSM_ModuleAttach g v mem sub service flags hierarchy table cnt reserved out allocated st =
     (if \<not> out then (POINTER, None, st)
      else if \<not> valid_guid g \<or> v \<noteq> Some (2, 0) \<or> sub \<noteq> 0 \<or> service \<noteq> 2 \<or> flags \<noteq> 0 \<or> hierarchy \<noteq> 0 \<or> table \<or> cnt \<noteq> 0 \<or> reserved
      then (UNSUPPORTED, Some 0, st)
      else case mem of
        None \<Rightarrow> (POINTER, Some 0, st)
      | Some m \<Rightarrow>
          if \<not> me_malloc_func m \<or> \<not> me_free_func m then (POINTER, Some 0, st)
          else if \<not> allocated then (MEMORY, Some 0, st)
          else (OK, Some (lc_serial st),
                st\<lparr>lc_serial := lc_serial st + 1, lc_modules := \<lparr>mo_id = lc_serial st, mo_memory = m\<rparr> # lc_modules st\<rparr>))"

text \<open>The unlinking of the first element with a handle, of a module or a context list.\<close>

fun unlink :: "('a \<Rightarrow> u64) \<Rightarrow> u64 \<Rightarrow> 'a list \<Rightarrow> 'a option \<times> 'a list" where
  "unlink ident i [] = (None, [])"
| "unlink ident i (x # xs) = (if ident x \<noteq> i then let (old, ys) = unlink ident i xs in (old, x # ys) else (Some x, xs))"

definition CSSM_ModuleDetach :: "u64 \<Rightarrow> Crypto \<Rightarrow> cssm_status \<times> Crypto" where
  "CSSM_ModuleDetach i st =
     (if list_ex (\<lambda>c. cx_module c = i) (lc_contexts st) then (CONTEXT, st)
      else let (old, ms) = unlink mo_id i (lc_modules st)
      in (if old \<noteq> None then OK else CONTEXT, st\<lparr>lc_modules := ms\<rparr>))"

definition add_context :: "Context \<Rightarrow> u64 \<Rightarrow> Crypto \<Rightarrow> cssm_status \<times> u64 option \<times> Crypto" where
  "add_context c i st =
     (case module_of st i of
        None \<Rightarrow> (CONTEXT, Some 0, st)
      | Some _ \<Rightarrow>
          (OK, Some (lc_serial st),
           st\<lparr>lc_serial := lc_serial st + 1, lc_contexts := c\<lparr>cx_id := lc_serial st, cx_module := i\<rparr> # lc_contexts st\<rparr>))"

definition CSSM_CSP_CreateDeriveKeyContext ::
  "u64 \<Rightarrow> u32 \<Rightarrow> u32 \<Rightarrow> u32 \<Rightarrow> bool \<Rightarrow> u32 \<Rightarrow> CSSMData option \<Rightarrow> bool \<Rightarrow> bool \<Rightarrow> bool \<Rightarrow> bool \<Rightarrow> Crypto \<Rightarrow> cssm_status \<times> u64 option \<times> Crypto" where
  "CSSM_CSP_CreateDeriveKeyContext i algorithm ty bits base rounds salt seed out allocated salt_allocated st =
     (if \<not> out then (POINTER, None, st)
      else if algorithm \<noteq> 103 \<or> ty \<noteq> AES_ID \<or> bits \<noteq> 128 \<and> bits \<noteq> 192 \<and> bits \<noteq> 256 \<or> rounds = 0 \<or> rounds > 10000000 \<or> base \<or> seed
      then (UNSUPPORTED, Some 0, st)
      else if \<not> valid_data salt then (DATA, Some 0, st)
      else if \<not> allocated then (MEMORY, Some 0, st)
      else if cd_length (the salt) \<noteq> 0 \<and> \<not> salt_allocated then (MEMORY, Some 0, st)
      else add_context (zero_context\<lparr>cx_kind := 1, cx_bits := bits, cx_rounds := rounds, cx_salt := data_bytes (the salt)\<rparr>) i st)"

definition CSSM_CSP_CreateSymmetricContext ::
  "u64 \<Rightarrow> u32 \<Rightarrow> u32 \<Rightarrow> CSSMKey option \<Rightarrow> CSSMData option \<Rightarrow> u32 \<Rightarrow> bool \<Rightarrow> bool \<Rightarrow> bool \<Rightarrow> Crypto \<Rightarrow> cssm_status \<times> u64 option \<times> Crypto" where
  "CSSM_CSP_CreateSymmetricContext i algorithm mode key0 iv padding reserved out allocated st =
     (if \<not> out then (POINTER, None, st)
      else if algorithm \<noteq> AES_ID \<or> mode \<noteq> 6 \<or> padding \<noteq> 7 \<or> reserved then (UNSUPPORTED, Some 0, st)
      else case key0 of
        None \<Rightarrow> (KEY, Some 0, st)
      | Some key \<Rightarrow>
          if ck_algorithm key \<noteq> AES_ID \<or> ck_blob_type key \<noteq> 0 \<or> ck_format key \<noteq> 12 \<or> ck_class key \<noteq> 2 \<or> \<not> valid_data (Some (ck_data key))
          then (KEY, Some 0, st)
          else let n = cd_length (ck_data key)
          in if n \<noteq> 16 \<and> n \<noteq> 24 \<and> n \<noteq> 32 \<or> (ucast (ck_bits key) :: u64) \<noteq> n * 8 then (KEY, Some 0, st)
             else if \<not> valid_data iv \<or> cd_length (the iv) \<noteq> 16 then (DATA, Some 0, st)
             else if \<not> allocated then (MEMORY, Some 0, st)
             else add_context (zero_context\<lparr>cx_kind := 2, cx_key_size := n, cx_padding := padding,
                    cx_key := data_bytes (ck_data key) @ drop (unat n) (cx_key zero_context), cx_iv := data_bytes (the iv)\<rparr>) i st)"

definition CSSM_DeleteContext :: "u64 \<Rightarrow> Crypto \<Rightarrow> cssm_status \<times> Crypto" where
  "CSSM_DeleteContext i st =
     (let (old, cs) = unlink cx_id i (lc_contexts st)
      in (if old = None then CONTEXT else OK, st\<lparr>lc_contexts := cs\<rparr>))"

section \<open>Keys\<close>

text \<open>The parameters of the derivation are read through \<open>param\<close>, whose length has to be that of the structure.\<close>

definition CSSM_DeriveKey ::
  "(u8 list \<Rightarrow> u8 list \<Rightarrow> u32 \<Rightarrow> nat \<Rightarrow> int \<times> u8 list) \<Rightarrow> (u64 \<Rightarrow> u8 list option) \<Rightarrow> u64 \<Rightarrow> (u64 \<times> CSSMPBKDF2 option) option \<Rightarrow> u32 \<Rightarrow> u32 \<Rightarrow> bool \<Rightarrow>
     CSSMKey option \<Rightarrow> Crypto \<Rightarrow> cssm_status \<times> CSSMKey option \<times> Crypto" where
  "CSSM_DeriveKey pbkdf alloc i param usage attrs acl key st =
     (case key of None \<Rightarrow> (POINTER, key, st) | Some _ \<Rightarrow>
      case param of
        Some (len, Some params) \<Rightarrow>
          if len \<noteq> 24 then (DATA, key, st)
          else if \<not> valid_data (Some (pb_passphrase params)) \<or> pb_function params \<noteq> 0 \<or> acl \<or> attrs AND 0x10000000 = 0 \<or> attrs AND 0x60000000 \<noteq> 0
          then (UNSUPPORTED, key, st)
          else (case context_of st i of
                  None \<Rightarrow> (CONTEXT, key, st)
                | Some c \<Rightarrow>
                    (case module_of st (cx_module c) of
                       None \<Rightarrow> (CONTEXT, key, st)
                     | Some m \<Rightarrow>
                         if cx_kind c \<noteq> 1 then (CONTEXT, key, st)
                         else let n = cx_bits c div 8
                         in (case alloc (ucast n) of
                               None \<Rightarrow> (MEMORY, key, st)
                             | Some buf \<Rightarrow>
                                 let (result, bytes) = pbkdf (data_bytes (pb_passphrase params)) (cx_salt c) (cx_rounds c) (unat n)
                                 in if result \<noteq> 0
                                    then (DATA, key, st\<lparr>lc_freed := lc_freed st @ [(me_ref (mo_memory m), wipe (bytes @ drop (length bytes) buf) (unat n))]\<rparr>)
                                    else (OK, Some (zero_key\<lparr>ck_version := 2, ck_csp := gGuidAppleCSP, ck_blob_type := 0, ck_format := 12,
                                            ck_algorithm := AES_ID, ck_class := 2, ck_bits := cx_bits c, ck_attr := attrs AND 0x0fffffff,
                                            ck_usage := usage, ck_data := \<lparr>cd_length = ucast n, cd_data = Some (bytes @ drop (length bytes) buf)\<rparr>\<rparr>), st))))
      | _ \<Rightarrow> (DATA, key, st))"

definition CSSM_FreeKey :: "u64 \<Rightarrow> CSSMKey option \<Rightarrow> bool \<Rightarrow> Crypto \<Rightarrow> cssm_status \<times> CSSMKey option \<times> Crypto" where
  "CSSM_FreeKey i key0 permanent st =
     (case key0 of
        None \<Rightarrow> (POINTER, key0, st)
      | Some key \<Rightarrow>
          if permanent then (UNSUPPORTED, key0, st)
          else if ck_blob_type key \<noteq> 0 \<or> \<not> valid_data (Some (ck_data key)) then (KEY, key0, st)
          else (case module_of st i of
                  None \<Rightarrow> (CONTEXT, key0, st)
                | Some m \<Rightarrow>
                    (OK, Some zero_key,
                     case cd_data (ck_data key) of
                       None \<Rightarrow> st
                     | Some p \<Rightarrow> st\<lparr>lc_freed := lc_freed st @ [(me_ref (mo_memory m), wipe p (unat (cd_length (ck_data key))))]\<rparr>)))"

section \<open>Encryption and decryption\<close>

datatype cc_operation = kCCEncrypt | kCCDecrypt

abbreviation (input) kCCDecodeError :: int where "kCCDecodeError \<equiv> -4304"

text \<open>The padding test: all sixteen last bytes are read, those beyond the padding do not count.\<close>

primrec padding_loop :: "nat \<Rightarrow> u8 list \<Rightarrow> u32 \<Rightarrow> nat \<Rightarrow> u32 \<Rightarrow> u32" where
  "padding_loop 0 scratch padding i invalid = invalid"
| "padding_loop (Suc left) scratch padding i invalid =
     padding_loop left scratch padding (i + 1)
       (invalid OR (if of_nat i < padding then 1 else 0) * (ucast (scratch ! (length scratch - 1 - i)) XOR padding))"

definition strip_padding :: "u8 list \<Rightarrow> int \<times> u8 list" where
  "strip_padding scratch =
     (if length scratch < 16 then (kCCDecodeError, scratch)
      else let padding = ucast (scratch ! (length scratch - 1)) :: u32;
               invalid = padding_loop 16 scratch padding 0 (if padding = 0 \<or> padding > 16 then 1 else 0)
           in if invalid \<noteq> 0 then (kCCDecodeError, scratch) else (0, take (length scratch - unat padding) scratch))"

text \<open>\<open>cc\<close> is given whether to pad, the key, the vector, the input and the capacity of the output.\<close>

type_synonym cc_crypt = "cc_operation \<Rightarrow> bool \<Rightarrow> u8 list \<Rightarrow> u8 list \<Rightarrow> u8 list \<Rightarrow> u64 \<Rightarrow> int \<times> u8 list"

definition crypt_data ::
  "cc_crypt \<Rightarrow> (u64 \<Rightarrow> u8 list option) \<Rightarrow> bool \<Rightarrow> u64 \<Rightarrow> CSSMData option \<Rightarrow> u32 \<Rightarrow> CSSMData option \<Rightarrow> u32 \<Rightarrow> bool \<Rightarrow> bool \<Rightarrow> cc_operation \<Rightarrow> Crypto \<Rightarrow>
     cssm_status \<times> CSSMData option \<times> u64 option \<times> CSSMData option" where
  "crypt_data cc alloc scratch_allocated i input input_count output0 output_count actual remaining operation st =
     (if \<not> actual \<or> \<not> remaining \<or> output0 = None then (POINTER, output0, None, None)
      else if input_count \<noteq> 1 \<or> output_count \<noteq> 1 then (UNSUPPORTED, output0, Some 0, Some zero_data)
      else if \<not> valid_data input \<or> \<not> valid_data output0 then (DATA, output0, Some 0, Some zero_data)
      else let inp = the input; output = the output0
      in case context_of st i of
           None \<Rightarrow> (CONTEXT, output0, Some 0, Some zero_data)
         | Some c \<Rightarrow>
             if cx_kind c \<noteq> 2 \<or> module_of st (cx_module c) = None then (CONTEXT, output0, Some 0, Some zero_data)
             else if \<not> scratch_allocated then (MEMORY, output0, Some 0, Some zero_data)
             else let (result, scratch) = cc operation (operation = kCCEncrypt) (take (unat (cx_key_size c)) (cx_key c)) (cx_iv c)
                                            (data_bytes inp) (cd_length inp + 16);
                      (result, scratch) = (if result = 0 \<and> operation = kCCDecrypt then strip_padding scratch else (result, scratch));
                      n = of_nat (length scratch) :: u64
             in if result \<noteq> 0 then (DATA, output0, Some 0, Some zero_data)
                else if cd_data output \<noteq> None \<and> cd_length output < n then (OUTPUT, output0, Some 0, Some zero_data)
                else (case (case cd_data output of Some p \<Rightarrow> Some p | None \<Rightarrow> alloc (if n \<noteq> 0 then n else 1)) of
                        None \<Rightarrow> (MEMORY, output0, Some 0, Some zero_data)
                      | Some p \<Rightarrow> (OK, Some \<lparr>cd_length = n, cd_data = Some (scratch @ drop (length scratch) p)\<rparr>, Some n, Some zero_data)))"

definition CSSM_EncryptData ::
  "cc_crypt \<Rightarrow> (u64 \<Rightarrow> u8 list option) \<Rightarrow> bool \<Rightarrow> u64 \<Rightarrow> CSSMData option \<Rightarrow> u32 \<Rightarrow> CSSMData option \<Rightarrow> u32 \<Rightarrow> bool \<Rightarrow> bool \<Rightarrow> Crypto \<Rightarrow>
     cssm_status \<times> CSSMData option \<times> u64 option \<times> CSSMData option" where
  "CSSM_EncryptData cc alloc sa c i ni out no n r st = crypt_data cc alloc sa c i ni out no n r kCCEncrypt st"

definition CSSM_DecryptData ::
  "cc_crypt \<Rightarrow> (u64 \<Rightarrow> u8 list option) \<Rightarrow> bool \<Rightarrow> u64 \<Rightarrow> CSSMData option \<Rightarrow> u32 \<Rightarrow> CSSMData option \<Rightarrow> u32 \<Rightarrow> bool \<Rightarrow> bool \<Rightarrow> Crypto \<Rightarrow>
     cssm_status \<times> CSSMData option \<times> u64 option \<times> CSSMData option" where
  "CSSM_DecryptData cc alloc sa c i ni out no n r st = crypt_data cc alloc sa c i ni out no n r kCCDecrypt st"

section \<open>Padding\<close>

lemma xor_zero_iff: "(a :: u32) XOR b = 0 \<longleftrightarrow> a = b"
  by (metis xor.assoc xor.right_neutral xor_self_eq)

lemma padding_loop_zero:
  "padding_loop left s padding i invalid = 0 \<longleftrightarrow>
     invalid = 0 \<and> (\<forall>k. i \<le> k \<and> k < i + left \<and> of_nat k < padding \<longrightarrow> ucast (s ! (length s - 1 - k)) = padding)"
proof (induction left arbitrary: i invalid)
  case (Suc left)
  have step: "(k \<ge> i \<and> k < i + Suc left) = (k = i \<or> k \<ge> i + 1 \<and> k < i + 1 + left)" for k by auto
  show ?case unfolding padding_loop.simps Suc.IH
    by (subst (2) conj_assoc [symmetric], subst step) (auto simp: or_eq_0_iff xor_zero_iff)
qed auto

lemma last_bytes: "p \<le> length s \<Longrightarrow> (\<forall>k<p. s ! (length s - 1 - k) = x) \<longleftrightarrow> drop (length s - p) s = replicate p x"
proof -
  assume p: "p \<le> length s"
  have "drop (length s - p) s = replicate p x \<longleftrightarrow> (\<forall>j<p. s ! (length s - p + j) = x)" using p by (simp add: list_eq_iff_nth_eq)
  also have "\<dots> \<longleftrightarrow> (\<forall>k<p. s ! (length s - 1 - k) = x)"
  proof safe
    fix k assume "\<forall>j<p. s ! (length s - p + j) = x" "k < p"
    then show "s ! (length s - 1 - k) = x" using p by (auto dest: spec [of _ "p - 1 - k"])
  next
    fix j assume "\<forall>k<p. s ! (length s - 1 - k) = x" "j < p"
    then have "s ! (length s - 1 - (p - 1 - j)) = x" by (metis diff_less less_imp_diff_less diff_Suc_less gr_implies_not0 not_gr_zero diff_diff_left Suc_eq_plus1_left)
    moreover have "length s - 1 - (p - 1 - j) = length s - p + j" using \<open>j < p\<close> p by simp
    ultimately show "s ! (length s - p + j) = x" by metis
  qed
  finally show ?thesis by blast
qed

lemma split_last: "length r = q \<Longrightarrow> q \<le> length s \<Longrightarrow> drop (length s - q) s = r \<and> bs = take (length s - q) s \<longleftrightarrow> s = bs @ r"
  by (metis append_take_drop_id append_eq_conv_conj length_append add_diff_cancel_right')

lemma strip_padding_iff:
  "strip_padding s = (0, bs) \<longleftrightarrow> 16 \<le> length s \<and> (\<exists>p. 1 \<le> p \<and> p \<le> 16 \<and> s = bs @ replicate p (of_nat p))"
proof (cases "length s < 16")
  case False
  define x where "x = s ! (length s - 1)"
  have u: "unat (ucast y :: u32) = unat y" for y :: u8
    using unsigned_less [of y, where 'a = nat] by (simp add: unsigned_ucast_eq take_bit_nat_eq_self)
  have inj: "ucast y = (ucast x :: u32) \<longleftrightarrow> y = x" for y :: u8 by (simp only: word_unat_eq_iff u)
  have lt: "of_nat k < (ucast x :: u32) \<longleftrightarrow> k < unat x" if "k < 16" for k
    using that by (simp add: word_less_nat_alt u unat_of_nat)
  have bounds: "(ucast x :: u32) = 0 \<longleftrightarrow> unat x = 0" "(ucast x :: u32) > 16 \<longleftrightarrow> unat x > 16"
    by (simp_all add: word_unat_eq_iff word_less_nat_alt u)
  have "strip_padding s = (0, bs) \<longleftrightarrow> 1 \<le> unat x \<and> unat x \<le> 16 \<and> (\<forall>k<unat x. s ! (length s - 1 - k) = x) \<and> bs = take (length s - unat x) s"
  proof -
    let ?bad = "if (ucast x :: u32) = 0 \<or> (ucast x :: u32) > 16 then 1 else 0 :: u32"
    have b: "?bad = 0 \<longleftrightarrow> 1 \<le> unat x \<and> unat x \<le> 16" unfolding bounds by simp
    have "padding_loop 16 s (ucast x) 0 ?bad = 0 \<longleftrightarrow> ?bad = 0 \<and> (\<forall>k<16. k < unat x \<longrightarrow> s ! (length s - 1 - k) = x)"
      unfolding padding_loop_zero inj using lt by (simp only: le0 add_0 simp_thms) blast
    then have "padding_loop 16 s (ucast x) 0 ?bad = 0 \<longleftrightarrow> 1 \<le> unat x \<and> unat x \<le> 16 \<and> (\<forall>k<unat x. s ! (length s - 1 - k) = x)"
      unfolding b using order_less_le_trans [of _ "unat x" 16] by blast
    moreover have "strip_padding s = (if padding_loop 16 s (ucast x) 0 ?bad \<noteq> 0 then (kCCDecodeError, s) else (0, take (length s - unat x) s))"
      using False by (simp only: strip_padding_def Let_def x_def [symmetric] u if_False)
    ultimately show ?thesis by (cases "padding_loop 16 s (ucast x) 0 ?bad = 0") (simp_all del: padding_loop.simps, blast)
  qed
  also have "\<dots> \<longleftrightarrow> 1 \<le> unat x \<and> unat x \<le> 16 \<and> s = bs @ replicate (unat x) x"
    using last_bytes [of "unat x" s x] split_last [of "replicate (unat x) x" "unat x" s bs] False by (cases "unat x \<le> 16") simp_all
  also have "\<dots> \<longleftrightarrow> (\<exists>p. 1 \<le> p \<and> p \<le> 16 \<and> s = bs @ replicate p (of_nat p))"
  proof
    assume "\<exists>p. 1 \<le> p \<and> p \<le> 16 \<and> s = bs @ replicate p (of_nat p)"
    then obtain p where p: "1 \<le> p" "p \<le> 16" "s = bs @ replicate p (of_nat p)" by blast
    then have "x = of_nat p" by (auto simp: x_def nth_append)
    then have "unat x = p" using p(2) by (simp add: unat_of_nat)
    then show "1 \<le> unat x \<and> unat x \<le> 16 \<and> s = bs @ replicate (unat x) x" using p \<open>x = of_nat p\<close> by simp
  qed auto
  finally show ?thesis using False by simp
qed (auto simp: strip_padding_def)


section \<open>What decryption publishes\<close>

lemma crypt_data_cases:
  assumes "crypt_data cc alloc sa i input ni output no actual remaining operation st = (status, output', n, r)"
  obtains (fails) "status \<noteq> OK" "output' = output" "n = None \<or> n = Some 0"
  | (runs) c inp out scratch plain p where
      "status = OK" "input = Some inp" "valid_data input" "output = Some out" "valid_data output"
      "context_of st i = Some c" "cx_kind c = 2" "module_of st (cx_module c) \<noteq> None"
      "cc operation (operation = kCCEncrypt) (take (unat (cx_key_size c)) (cx_key c)) (cx_iv c) (data_bytes inp) (cd_length inp + 16) = (0, scratch)"
      "if operation = kCCDecrypt then strip_padding scratch = (0, plain) else plain = scratch"
      "cd_data out = None \<or> of_nat (length plain) \<le> cd_length out"
      "output' = Some \<lparr>cd_length = of_nat (length plain), cd_data = Some (plain @ drop (length plain) p)\<rparr>" "n = Some (of_nat (length plain))"
proof (cases "status = OK")
  case True
  then show ?thesis using assms
    by (auto simp: crypt_data_def Let_def not_less valid_data_def intro: runs split: if_splits option.splits prod.splits)
next
  case False
  then show ?thesis using assms
    by (intro fails) (auto simp: crypt_data_def Let_def split: if_splits option.splits prod.splits)
qed


text \<open>C39. Decryption publishes only complete padding, whatever CommonCrypto answers. With status OK the decrypted bytes end
  in 1 to 16 bytes that each hold their number; the bytes before them, and nothing else of the decryption, are at the
  start of the output, whose length they give, and they fit what the caller offered. With any other status the output is
  as it was and the number of bytes is 0 or not stored.
\<close>

theorem CSSM_DecryptData_correct:
  assumes "CSSM_DecryptData cc alloc sa i input ni output no actual remaining st = (status, output', n, r)"
  shows "(status \<noteq> OK \<longrightarrow> output' = output \<and> (n = None \<or> n = Some 0)) \<and>
    (status = OK \<longrightarrow> (\<exists>c inp out plain p rest. input = Some inp \<and> output = Some out \<and> context_of st i = Some c \<and> 1 \<le> p \<and> p \<le> 16 \<and>
       cc kCCDecrypt False (take (unat (cx_key_size c)) (cx_key c)) (cx_iv c) (data_bytes inp) (cd_length inp + 16) = (0, plain @ replicate p (of_nat p)) \<and>
       (cd_data out = None \<or> of_nat (length plain) \<le> cd_length out) \<and> n = Some (of_nat (length plain)) \<and>
       output' = Some \<lparr>cd_length = of_nat (length plain), cd_data = Some (plain @ rest)\<rparr>))"
  using assms [unfolded CSSM_DecryptData_def]
proof (cases rule: crypt_data_cases)
  case (runs c inp out scratch plain p)
  obtain k where "1 \<le> k" "k \<le> 16" "scratch = plain @ replicate k (of_nat k)" using runs(10) by (auto simp: strip_padding_iff)
  then show ?thesis using runs by auto
qed auto

section \<open>Encryption and decryption\<close>

text \<open>
  What the documentation of CommonCrypto promises of a block cipher in chaining mode with padding of 16-byte blocks:
  encryption writes whole blocks within the capacity of the input and one block, and decryption without the padding
  option gives the input followed by its padding.
\<close>

definition pkcs7 :: "u8 list \<Rightarrow> u8 list" where
  "pkcs7 x = (let p = 16 - length x mod 16 in replicate p (of_nat p))"

definition padded_cipher :: "cc_crypt \<Rightarrow> bool" where
  "padded_cipher cc \<longleftrightarrow>
     (\<forall>key iv x cap. length x + 16 \<le> unat cap \<longrightarrow>
        (\<exists>y. cc kCCEncrypt True key iv x cap = (0, y) \<and> length y = length x + length (pkcs7 x) \<and>
           (\<forall>cap'. length y \<le> unat cap' \<longrightarrow> cc kCCDecrypt False key iv y cap' = (0, x @ pkcs7 x))))"

lemma pkcs7_strip: "strip_padding (x @ pkcs7 x) = (0, x)"
proof -
  have p: "1 \<le> 16 - length x mod 16" "16 - length x mod 16 \<le> 16" "16 \<le> length x + (16 - length x mod 16)"
    using mod_less_divisor [of 16 "length x"] mod_less_eq_dividend [of "length x" 16] by linarith+
  then have "\<exists>p. 1 \<le> p \<and> p \<le> 16 \<and> x @ pkcs7 x = x @ replicate p (of_nat p)" by (auto simp: pkcs7_def Let_def)
  then show ?thesis unfolding strip_padding_iff using p(3) by (auto simp: pkcs7_def Let_def)
qed

lemma length_pkcs7: "1 \<le> length (pkcs7 x)" "length (pkcs7 x) \<le> 16"
  using mod_less_divisor [of 16 "length x"] by (simp_all add: pkcs7_def Let_def Suc_leI del: mod_less_divisor)

definition usable_data :: "CSSMData \<Rightarrow> bool" where
  "usable_data d \<longleftrightarrow> cd_length d \<le> MAX_DATA - 16 \<and> (cd_length d = 0 \<or> (\<exists>p. cd_data d = Some p \<and> unat (cd_length d) \<le> length p))"

text \<open>What a context encrypts it decrypts again: with a context for encryption whose module is attached, both
  operations succeed on data of at most \<open>MAX_DATA\<close> less a block when the output is allocated by the client, and the
  bytes that come back are the ones that went in.
\<close>

theorem CSSM_crypt_roundtrip:
  assumes "padded_cipher cc" "context_of st i = Some c" "cx_kind c = 2" "module_of st (cx_module c) \<noteq> None" "usable_data d"
    and "\<forall>n. alloc n \<noteq> None"
  shows "\<exists>e n d' n'. CSSM_EncryptData cc alloc True i (Some d) 1 (Some zero_data) 1 True True st = (OK, Some e, Some n, Some zero_data) \<and>
    CSSM_DecryptData cc alloc True i (Some e) 1 (Some zero_data) 1 True True st = (OK, Some d', Some n', Some zero_data) \<and>
    data_bytes d' = data_bytes d"
proof -
  let ?key = "take (unat (cx_key_size c)) (cx_key c)" and ?x = "data_bytes d"
  have v: "valid_data (Some d)" "cd_length d \<le> 0xFFFF0"
    using assms(5) word_le_nat_alt [of "cd_length d" "0xFFFF0"] by (auto simp: usable_data_def valid_data_def word_le_nat_alt)
  have len: "length ?x = unat (cd_length d)" using assms(5) by (auto simp: usable_data_def data_bytes_def split: option.splits)
  have cap: "unat (cd_length d + 16) = unat (cd_length d) + 16" using v(2) by (simp add: unat_word_ariths word_le_nat_alt)
  obtain y where y: "cc kCCEncrypt True ?key (cx_iv c) ?x (cd_length d + 16) = (0, y)" "length y = length ?x + length (pkcs7 ?x)"
    "\<And>cap'. length y \<le> unat cap' \<Longrightarrow> cc kCCDecrypt False ?key (cx_iv c) y cap' = (0, ?x @ pkcs7 ?x)"
    using assms(1) [unfolded padded_cipher_def, rule_format, of ?x "cd_length d + 16" ?key "cx_iv c"] len cap by auto
  have ly: "length y \<le> 1048576" "unat (of_nat (length y) :: u64) = length y" "of_nat (length y) \<le> MAX_DATA"
    "unat (of_nat (length y) + 16 :: u64) = length y + 16"
    using y(2) length_pkcs7 [of ?x] len v(2) by (simp_all add: word_le_nat_alt unat_of_nat unat_word_ariths)
  obtain p q where p: "alloc (if (of_nat (length y) :: u64) \<noteq> 0 then of_nat (length y) else 1) = Some p"
    "alloc (if (of_nat (length ?x) :: u64) \<noteq> 0 then of_nat (length ?x) else 1) = Some q" using assms(6) by (metis not_None_eq)
  let ?e = "\<lparr>cd_length = of_nat (length y), cd_data = Some (y @ drop (length y) p)\<rparr>"
  have "data_bytes ?e = y" using ly(2) by (simp add: data_bytes_def)
  have "CSSM_EncryptData cc alloc True i (Some d) 1 (Some zero_data) 1 True True st = (OK, Some ?e, Some (of_nat (length y)), Some zero_data)"
    using assms(2-4) v(1) y(1) p(1) by (auto simp: CSSM_EncryptData_def crypt_data_def zero_data_def valid_data_def Let_def)
  moreover have "CSSM_DecryptData cc alloc True i (Some ?e) 1 (Some zero_data) 1 True True st =
      (OK, Some \<lparr>cd_length = of_nat (length ?x), cd_data = Some (?x @ drop (length ?x) q)\<rparr>, Some (of_nat (length ?x)), Some zero_data)"
    using assms(2-4) y(3) [of "of_nat (length y) + 16"] ly(3,4) p(2) \<open>data_bytes ?e = y\<close>
    by (auto simp: CSSM_DecryptData_def crypt_data_def zero_data_def valid_data_def pkcs7_strip Let_def)
  moreover have "data_bytes \<lparr>cd_length = of_nat (length ?x), cd_data = Some (?x @ drop (length ?x) q)\<rparr> = ?x"
    using len by (simp add: data_bytes_def)
  ultimately show ?thesis by blast
qed


text \<open>A cipher for the examples: the first byte of the key is added to each byte of the padded text.\<close>

definition sample_cipher :: cc_crypt where
  "sample_cipher operation pad key iv x cap =
     (let k = (if key = [] then 0 else hd key)
      in case operation of
           kCCEncrypt \<Rightarrow> (0, map (\<lambda>b. b + k) (x @ (if pad then pkcs7 x else [])))
         | kCCDecrypt \<Rightarrow> (0, map (\<lambda>b. b - k) x))"

lemma sample_cipher_padded: "padded_cipher sample_cipher"
  by (simp add: padded_cipher_def sample_cipher_def Let_def comp_def)

definition sample_context :: Context where
  "sample_context = zero_context\<lparr>cx_id := 2, cx_module := 1, cx_kind := 2, cx_key_size := 16, cx_key := [7] @ replicate 31 0\<rparr>"

definition sample_crypto :: Crypto where
  "sample_crypto = \<lparr>lc_modules = [\<lparr>mo_id = 1, mo_memory = \<lparr>me_malloc_func = True, me_free_func = True, me_ref = 0\<rparr>\<rparr>],
     lc_contexts = [sample_context], lc_serial = 3, lc_freed = []\<rparr>"

theorem CSSM_crypt_roundtrip_witness:
  "\<exists>e n d' n'. CSSM_EncryptData sample_cipher (\<lambda>n. Some (replicate (unat n) 0)) True 2 (Some \<lparr>cd_length = 3, cd_data = Some [1, 2, 3]\<rparr>) 1 (Some zero_data) 1 True True
      sample_crypto = (OK, Some e, Some n, Some zero_data) \<and>
    CSSM_DecryptData sample_cipher (\<lambda>n. Some (replicate (unat n) 0)) True 2 (Some e) 1 (Some zero_data) 1 True True sample_crypto = (OK, Some d', Some n', Some zero_data) \<and>
    data_bytes d' = [1, 2, 3]"
  using CSSM_crypt_roundtrip [OF sample_cipher_padded, of sample_crypto 2 sample_context "\<lparr>cd_length = 3, cd_data = Some [1, 2, 3]\<rparr>" "\<lambda>n. Some (replicate (unat n) 0)"]
  by (simp add: sample_crypto_def sample_context_def zero_context_def context_of_def module_of_def usable_data_def data_bytes_def)

theorem CSSM_DecryptData_correct_witness:
  "CSSM_DecryptData sample_cipher (\<lambda>n. Some (replicate (unat n) 0)) True 2 (Some \<lparr>cd_length = 16, cd_data = Some (8 # replicate 15 22)\<rparr>) 1 (Some zero_data) 1
      True True sample_crypto = (OK, Some \<lparr>cd_length = 1, cd_data = Some [1]\<rparr>, Some 1, Some zero_data) \<and>
   (\<exists>c plain p rest. context_of sample_crypto 2 = Some c \<and> 1 \<le> p \<and> p \<le> 16 \<and> [1] = plain @ rest \<and>
      sample_cipher kCCDecrypt False (take (unat (cx_key_size c)) (cx_key c)) (cx_iv c) (8 # replicate 15 22) 32 = (0, plain @ replicate p (of_nat p)))"
    (is "?run \<and> _")
proof (rule conjI)
  show run: ?run by code_simp
  have "data_bytes \<lparr>cd_length = 16, cd_data = Some (8 # replicate 15 22)\<rparr> = 8 # replicate 15 22" by code_simp
  with CSSM_DecryptData_correct [OF run]
  show "\<exists>c plain p rest. context_of sample_crypto 2 = Some c \<and> 1 \<le> p \<and> p \<le> 16 \<and> [1] = plain @ rest \<and>
      sample_cipher kCCDecrypt False (take (unat (cx_key_size c)) (cx_key c)) (cx_iv c) (8 # replicate 15 22) 32 = (0, plain @ replicate p (of_nat p))"
    by fastforce
qed


section \<open>Handles\<close>

text \<open>The states the operations reach, as long as the counter of handles has not used up its 64 bits.\<close>

inductive crypto_reachable :: "Crypto \<Rightarrow> bool" where
  crypto_none: "crypto_reachable no_crypto"
| crypto_attach: "crypto_reachable st \<Longrightarrow> lc_serial st \<noteq> UINT64_MAX \<Longrightarrow>
    CSSM_ModuleAttach g v mem sub service flags hierarchy table cnt reserved out allocated st = (s, h, st') \<Longrightarrow> crypto_reachable st'"
| crypto_detach: "crypto_reachable st \<Longrightarrow> CSSM_ModuleDetach i st = (s, st') \<Longrightarrow> crypto_reachable st'"
| crypto_derive_context: "crypto_reachable st \<Longrightarrow> lc_serial st \<noteq> UINT64_MAX \<Longrightarrow>
    CSSM_CSP_CreateDeriveKeyContext i algorithm ty bits base rounds salt seed out allocated salt_allocated st = (s, h, st') \<Longrightarrow> crypto_reachable st'"
| crypto_symmetric_context: "crypto_reachable st \<Longrightarrow> lc_serial st \<noteq> UINT64_MAX \<Longrightarrow>
    CSSM_CSP_CreateSymmetricContext i algorithm mode key iv padding reserved out allocated st = (s, h, st') \<Longrightarrow> crypto_reachable st'"
| crypto_delete: "crypto_reachable st \<Longrightarrow> CSSM_DeleteContext i st = (s, st') \<Longrightarrow> crypto_reachable st'"
| crypto_derive_key: "crypto_reachable st \<Longrightarrow> CSSM_DeriveKey pbkdf alloc i param usage attrs acl key st = (s, key', st') \<Longrightarrow> crypto_reachable st'"
| crypto_free_key: "crypto_reachable st \<Longrightarrow> CSSM_FreeKey i key permanent st = (s, key', st') \<Longrightarrow> crypto_reachable st'"

definition crypto_ok :: "Crypto \<Rightarrow> bool" where
  "crypto_ok st \<longleftrightarrow>
     distinct (map mo_id (lc_modules st) @ map cx_id (lc_contexts st)) \<and>
     (\<forall>i \<in> set (map mo_id (lc_modules st) @ map cx_id (lc_contexts st)). 0 < i \<and> i < lc_serial st) \<and> 0 < lc_serial st \<and>
     (\<forall>c \<in> set (lc_contexts st). cx_module c \<in> mo_id ` set (lc_modules st))"

lemma unlink_spec:
  assumes "distinct (map ident xs)"
  shows "unlink ident i xs = (find (\<lambda>x. ident x = i) xs, filter (\<lambda>x. ident x \<noteq> i) xs)"
  using assms
proof (induction xs)
  case (Cons x xs)
  have "filter (\<lambda>y. ident y \<noteq> i) xs = xs" if "i \<notin> ident ` set xs" using that by (intro filter_True) auto
  then show ?case using Cons by (cases "ident x = i") simp_all
qed simp

lemma crypto_ok_same: "crypto_ok st \<Longrightarrow> lc_modules st' = lc_modules st \<Longrightarrow> lc_contexts st' = lc_contexts st \<Longrightarrow> lc_serial st' = lc_serial st \<Longrightarrow> crypto_ok st'"
  by (simp add: crypto_ok_def)

lemma serial_next: "(n :: u64) \<noteq> UINT64_MAX \<Longrightarrow> n < n + 1"
proof -
  assume "n \<noteq> UINT64_MAX"
  then have "unat n \<noteq> unat UINT64_MAX" by (simp only: word_unat_eq_iff not_False_eq_True)
  then have "unat n + unat (1 :: u64) < 2 ^ 64" using unat_max_minus [of 0] unat_u64_less [of n] by simp
  then have "unat (n + 1) = unat n + 1" using unat_plus_nowrap [of n 1] by simp
  then show ?thesis by (simp only: word_less_nat_alt)
qed

lemma module_of_Some: "module_of st i \<noteq> None \<longleftrightarrow> i \<in> mo_id ` set (lc_modules st)"
  by (auto simp: module_of_def find_None_iff)

lemma handles_new:
  assumes "\<forall>i \<in> hs. 0 < i \<and> i < (n :: u64)" "n \<noteq> UINT64_MAX" "0 < n"
  shows "n \<notin> hs \<and> (\<forall>i \<in> insert n hs. 0 < i \<and> i < n + 1) \<and> 0 < n + 1"
proof -
  note n = serial_next [OF assms(2)]
  have "0 < i \<and> i < n + 1" if "i \<in> hs" for i using that assms(1) order.strict_trans [of i n "n + 1"] n by blast
  moreover have "n \<notin> hs" using assms(1) by blast
  moreover have "0 < n + 1" using order.strict_trans [OF assms(3) n] .
  ultimately show ?thesis using assms(3) n by blast
qed

lemma crypto_ok_module:
  assumes "crypto_ok st" "lc_serial st \<noteq> UINT64_MAX"
  shows "crypto_ok (st\<lparr>lc_serial := lc_serial st + 1, lc_modules := \<lparr>mo_id = lc_serial st, mo_memory = m\<rparr> # lc_modules st\<rparr>)"
  using assms(1) handles_new [OF _ assms(2), of "set (map mo_id (lc_modules st) @ map cx_id (lc_contexts st))"]
  by (simp add: crypto_ok_def)

lemma add_context_ok:
  assumes "crypto_ok st" "lc_serial st \<noteq> UINT64_MAX" "add_context c i st = (s, h, st')"
  shows "crypto_ok st'"
proof (cases "module_of st i")
  case None
  then show ?thesis using assms by (simp add: add_context_def)
next
  case (Some m)
  have "i \<in> mo_id ` set (lc_modules st)" using Some module_of_Some [of st i] by simp
  moreover have "st' = st\<lparr>lc_serial := lc_serial st + 1, lc_contexts := c\<lparr>cx_id := lc_serial st, cx_module := i\<rparr> # lc_contexts st\<rparr>"
    using Some assms(3) by (simp add: add_context_def)
  ultimately show ?thesis
    using assms(1) handles_new [OF _ assms(2), of "set (map mo_id (lc_modules st) @ map cx_id (lc_contexts st))"] by (simp add: crypto_ok_def)
qed

lemma attach_ok:
  "CSSM_ModuleAttach g v mem sub service flags hierarchy table cnt reserved out allocated st = (s, h, st') \<Longrightarrow>
   crypto_ok st \<Longrightarrow> lc_serial st \<noteq> UINT64_MAX \<Longrightarrow> crypto_ok st'"
  by (auto simp: CSSM_ModuleAttach_def crypto_ok_module split: if_splits option.splits)

lemma detach_ok: "crypto_ok st \<Longrightarrow> CSSM_ModuleDetach i st = (s, st') \<Longrightarrow> crypto_ok st'"
  by (auto simp: CSSM_ModuleDetach_def unlink_spec crypto_ok_def list_ex_iff Let_def distinct_map inj_on_def split: if_splits) blast+

lemma delete_ok: "crypto_ok st \<Longrightarrow> CSSM_DeleteContext i st = (s, st') \<Longrightarrow> crypto_ok st'"
  by (auto simp: CSSM_DeleteContext_def unlink_spec crypto_ok_def Let_def distinct_map_filter) blast

lemma crypto_reachable_ok: "crypto_reachable st \<Longrightarrow> crypto_ok st"
proof (induction rule: crypto_reachable.induct)
  case crypto_none
  then show ?case by (simp add: crypto_ok_def no_crypto_def)
next
  case (crypto_derive_key st pbkdf alloc i param usage attrs acl key s key' st')
  then show ?case
    by (intro crypto_ok_same [OF crypto_derive_key(3)]) (auto simp: CSSM_DeriveKey_def Let_def split: if_splits option.splits prod.splits)
next
  case (crypto_free_key st i key permanent s key' st')
  then show ?case
    by (intro crypto_ok_same [OF crypto_free_key(3)]) (auto simp: CSSM_FreeKey_def split: if_splits option.splits)
next
  case (crypto_derive_context st i algorithm ty bits base rounds salt seed out allocated salt_allocated s h st')
  then show ?case by (auto simp: CSSM_CSP_CreateDeriveKeyContext_def add_context_ok split: if_splits)
next
  case (crypto_symmetric_context st i algorithm mode key iv padding reserved out allocated s h st')
  then show ?case by (auto simp: CSSM_CSP_CreateSymmetricContext_def Let_def add_context_ok split: if_splits option.splits)
qed (auto intro: attach_ok detach_ok delete_ok)


lemma surjective_triple: "x = (fst x, fst (snd x), snd (snd x))"
  by simp

lemma find_distinct: "distinct (map ident xs) \<Longrightarrow> x \<in> set xs \<Longrightarrow> find (\<lambda>y. ident y = ident x) xs = Some x"
  by (induction xs) auto

text \<open>In every state the operations reach before the counter of handles is used up, no two modules or contexts have
  the same handle and none has handle 0; every context is the one its handle finds, the module it was made with is
  still attached and cannot be detached, and deleting it leaves every other context where it was.
\<close>

theorem crypto_handles:
  assumes "crypto_reachable st"
  shows "distinct (0 # map mo_id (lc_modules st) @ map cx_id (lc_contexts st)) \<and>
    (\<forall>c \<in> set (lc_contexts st). context_of st (cx_id c) = Some c \<and> module_of st (cx_module c) \<noteq> None \<and>
       CSSM_ModuleDetach (cx_module c) st = (CONTEXT, st) \<and> fst (CSSM_DeleteContext (cx_id c) st) = OK \<and>
       (\<forall>i. context_of (snd (CSSM_DeleteContext (cx_id c) st)) i = (if i = cx_id c then None else context_of st i)))"
proof -
  have ok: "crypto_ok st" using crypto_reachable_ok [OF assms] .
  then have d: "distinct (map cx_id (lc_contexts st))" "distinct (0 # map mo_id (lc_modules st) @ map cx_id (lc_contexts st))"
    by (auto simp: crypto_ok_def)
  have "find (\<lambda>c. cx_id c = i) (filter (\<lambda>c. cx_id c \<noteq> k) cs) = (if i = k then None else find (\<lambda>c. cx_id c = i) cs)" for i k and cs :: "Context list"
    by (induction cs) auto
  then have "\<forall>i. context_of (snd (CSSM_DeleteContext k st)) i = (if i = k then None else context_of st i)" for k
    by (simp add: CSSM_DeleteContext_def unlink_spec [OF d(1)] context_of_def)
  moreover have "context_of st (cx_id c) = Some c" "fst (CSSM_DeleteContext (cx_id c) st) = OK" if "c \<in> set (lc_contexts st)" for c
    using find_distinct [OF d(1) that] by (simp_all add: context_of_def CSSM_DeleteContext_def unlink_spec [OF d(1)])
  moreover have "module_of st (cx_module c) \<noteq> None" "CSSM_ModuleDetach (cx_module c) st = (CONTEXT, st)" if "c \<in> set (lc_contexts st)" for c
    using ok that unfolding module_of_Some by (auto simp: crypto_ok_def CSSM_ModuleDetach_def list_ex_iff)
  ultimately show ?thesis using d(2) by blast
qed

definition attached_crypto :: Crypto where
  "attached_crypto = snd (snd (CSSM_ModuleAttach (Some gGuidAppleCSP) (Some (2, 0)) (Some \<lparr>me_malloc_func = True, me_free_func = True, me_ref = 0\<rparr>)
     0 2 0 0 False 0 False True True no_crypto))"

definition derived_crypto :: Crypto where
  "derived_crypto = snd (snd (CSSM_CSP_CreateDeriveKeyContext 1 103 AES_ID 128 False 1000 (Some zero_data) False True True True attached_crypto))"

theorem crypto_handles_witness:
  "map cx_id (lc_contexts derived_crypto) = [2] \<and> (\<forall>c \<in> set (lc_contexts derived_crypto). module_of derived_crypto (cx_module c) \<noteq> None)"
proof (rule conjI)
  have "crypto_reachable attached_crypto" unfolding attached_crypto_def
    by (rule crypto_attach [OF crypto_none _ surjective_triple]) (simp add: no_crypto_def)
  then have "crypto_reachable derived_crypto" unfolding derived_crypto_def
    by (rule crypto_derive_context [OF _ _ surjective_triple]) code_simp
  from crypto_handles [OF this] show "\<forall>c \<in> set (lc_contexts derived_crypto). module_of derived_crypto (cx_module c) \<noteq> None" by blast
  show "map cx_id (lc_contexts derived_crypto) = [2]" by code_simp
qed

end
