(* ===== verification/SystemAnswers.thy ===== *)
theory SystemAnswers
  imports Prelude
begin

text \<open>
  Answers of system interfaces the iPad does not have: the gamma ramp of the display
  (\<open>translation/CoreGraphics/Gamma.c\<close>), the login session (\<open>translation/Security/Session.c\<close>) and the texts of error
  numbers (\<open>translation/CoreServices/Errors.c\<close>). Gamma values are of an arbitrary type; \<open>ratio i k\<close> is the floating-point
  quotient of two counters. An output pointer is a boolean that tells whether it is given, or the buffer it points to.
\<close>

section \<open>The gamma ramp\<close>

abbreviation (input) AKMainDisplay :: u32 where "AKMainDisplay \<equiv> 1"
abbreviation (input) AKGammaTableCapacity :: u32 where "AKGammaTableCapacity \<equiv> 256"

datatype cg_error = kCGErrorSuccess | kCGErrorIllegalArgument

record 'v GammaTables =
  gt_red :: "'v list"
  gt_green :: "'v list"
  gt_blue :: "'v list"
  gt_table_size :: u32

definition CGDisplayGammaTableCapacity :: "u32 \<Rightarrow> u32" where
  "CGDisplayGammaTableCapacity display = (if display = AKMainDisplay then AKGammaTableCapacity else 0)"

text \<open>The loop copies the first \<open>n\<close> values of a table.\<close>

definition copy_values :: "nat \<Rightarrow> (nat \<Rightarrow> 'v) \<Rightarrow> 'v list \<Rightarrow> 'v list" where
  "copy_values n from1 table = fold (\<lambda>i t. t[i := from1 i]) [0..<n] table"

definition CGSetDisplayTransferByTable ::
  "u32 \<Rightarrow> u32 \<Rightarrow> 'v list option \<Rightarrow> 'v list option \<Rightarrow> 'v list option \<Rightarrow> 'v GammaTables \<Rightarrow> cg_error \<times> 'v GammaTables" where
  "CGSetDisplayTransferByTable display sz red green blue st =
     (if display \<noteq> AKMainDisplay then (kCGErrorIllegalArgument, st)
      else if sz > AKGammaTableCapacity \<or> sz \<noteq> 0 \<and> (red = None \<or> green = None \<or> blue = None) then (kCGErrorIllegalArgument, st)
      else (kCGErrorSuccess,
            st\<lparr>gt_red := copy_values (unat sz) (\<lambda>i. the red ! i) (gt_red st),
               gt_green := copy_values (unat sz) (\<lambda>i. the green ! i) (gt_green st),
               gt_blue := copy_values (unat sz) (\<lambda>i. the blue ! i) (gt_blue st), gt_table_size := sz\<rparr>))"

text \<open>The result is the status, the three buffers and the count stored, if any is.\<close>

definition CGGetDisplayTransferByTable ::
  "(nat \<Rightarrow> nat \<Rightarrow> 'v) \<Rightarrow> 'v \<Rightarrow> u32 \<Rightarrow> u32 \<Rightarrow> 'v list option \<Rightarrow> 'v list option \<Rightarrow> 'v list option \<Rightarrow> bool \<Rightarrow> 'v GammaTables \<Rightarrow>
     cg_error \<times> 'v list option \<times> 'v list option \<times> 'v list option \<times> u32 option" where
  "CGGetDisplayTransferByTable ratio zero display capacity red green blue cnt st =
     (if display \<noteq> AKMainDisplay \<or> \<not> cnt \<or> capacity \<noteq> 0 \<and> (red = None \<or> green = None \<or> blue = None)
      then (kCGErrorIllegalArgument, red, green, blue, None)
      else let sz = (if gt_table_size st \<noteq> 0 then gt_table_size st else AKGammaTableCapacity);
               sz = (if capacity < sz then capacity else sz);
               linear = (\<lambda>i. if sz > 1 then ratio i (unat sz - 1) else zero);
               val = (\<lambda>table i. if gt_table_size st \<noteq> 0 then table ! i else linear i)
      in (kCGErrorSuccess, map_option (copy_values (unat sz) (val (gt_red st))) red,
          map_option (copy_values (unat sz) (val (gt_green st))) green,
          map_option (copy_values (unat sz) (val (gt_blue st))) blue, Some sz))"

definition CGDisplayRestoreColorSyncSettings :: "'v GammaTables \<Rightarrow> 'v GammaTables" where
  "CGDisplayRestoreColorSyncSettings st = st\<lparr>gt_table_size := 0\<rparr>"

section \<open>The login session\<close>

abbreviation (input) callerSecuritySession :: u32 where "callerSecuritySession \<equiv> - 1"
abbreviation (input) AKCallerSessionId :: u32 where "AKCallerSessionId \<equiv> 100000"
abbreviation (input) sessionHasGraphicAccess :: u32 where "sessionHasGraphicAccess \<equiv> 0x10"

text \<open>The status and what is stored through the two pointers.\<close>

definition SessionGetInfo :: "u32 \<Rightarrow> bool \<Rightarrow> bool \<Rightarrow> int \<times> u32 option \<times> u32 option" where
  "SessionGetInfo session session_id attributes =
     (if session \<noteq> callerSecuritySession \<and> session \<noteq> AKCallerSessionId then (-60500, None, None)
      else (0, if session_id then Some AKCallerSessionId else None, if attributes then Some sessionHasGraphicAccess else None))"

section \<open>Error numbers\<close>

text \<open>\<open>strerror\<close> is that of the C library.\<close>

definition GetMacOSStatusCommentString :: "(int \<Rightarrow> string) \<Rightarrow> int \<Rightarrow> string" where
  "GetMacOSStatusCommentString strerror status =
     (if status \<ge> 100000 \<and> status < 101000 then strerror (status - 100000)
      else if status = 0 then ''Call succeeded with no error''
      else if status = -50 then ''error in user parameter list''
      else if status = -43 then ''File not found''
      else if status = -108 then ''Not enough memory''
      else '''')"

definition GetMacOSStatusErrorString :: "int \<Rightarrow> string" where
  "GetMacOSStatusErrorString status =
     (if status = 0 then ''noErr''
      else if status = -50 then ''paramErr''
      else if status = -43 then ''fnfErr''
      else if status = -108 then ''memFullErr''
      else if status = 100001 then ''EPERM''
      else if status = 100002 then ''ENOENT''
      else if status = 100013 then ''EACCES''
      else '''')"

section \<open>What is set is read back\<close>

lemma length_copy_values [simp]: "length (copy_values n f t) = length t"
proof -
  have "length (fold (\<lambda>i t. t[i := f i]) xs t) = length t" for xs by (induction xs arbitrary: t) simp_all
  then show ?thesis by (simp add: copy_values_def)
qed

lemma copy_values_eq: "n \<le> length t \<Longrightarrow> copy_values n f t = map f [0..<n] @ drop n t"
proof (induction n)
  case (Suc n)
  then have "copy_values (Suc n) f t = (map f [0..<n] @ drop n t)[n := f n]" by (simp add: copy_values_def)
  then show ?case using Suc.prems by (simp add: Cons_nth_drop_Suc [of n t, symmetric] list_update_append)
qed (simp add: copy_values_def)

text \<open>A gamma ramp a program sets is the one it reads back: after a successful call that sets a ramp of at least one
  value, reading with room for all of it succeeds, stores exactly the values set in the first places of the three
  buffers and their number, and leaves the rest of the buffers alone. After the settings are restored the full linear
  ramp is read.
\<close>

theorem gamma_readback:
  assumes "length (gt_red st) = 256" "length (gt_green st) = 256" "length (gt_blue st) = 256" "sz \<noteq> 0"
    and "CGSetDisplayTransferByTable display sz (Some r) (Some g) (Some b) st = (kCGErrorSuccess, st')"
    and "unat sz \<le> length r" "unat sz \<le> length g" "unat sz \<le> length b"
    and "sz \<le> capacity" "unat capacity \<le> length r'" "unat capacity \<le> length g'" "unat capacity \<le> length b'"
  shows "CGGetDisplayTransferByTable ratio zero display capacity (Some r') (Some g') (Some b') True st' =
      (kCGErrorSuccess, Some (take (unat sz) r @ drop (unat sz) r'), Some (take (unat sz) g @ drop (unat sz) g'),
       Some (take (unat sz) b @ drop (unat sz) b'), Some sz) \<and>
    (256 \<le> capacity \<longrightarrow> CGGetDisplayTransferByTable ratio zero display capacity (Some r') (Some g') (Some b') True (CGDisplayRestoreColorSyncSettings st') =
      (kCGErrorSuccess, Some (map (\<lambda>i. ratio i 255) [0..<256] @ drop 256 r'), Some (map (\<lambda>i. ratio i 255) [0..<256] @ drop 256 g'),
       Some (map (\<lambda>i. ratio i 255) [0..<256] @ drop 256 b'), Some 256))"
proof -
  let ?n = "unat sz"
  have st': "display = AKMainDisplay" "?n \<le> 256" "st' = st\<lparr>gt_red := copy_values ?n (\<lambda>i. r ! i) (gt_red st), gt_green := copy_values ?n (\<lambda>i. g ! i) (gt_green st),
      gt_blue := copy_values ?n (\<lambda>i. b ! i) (gt_blue st), gt_table_size := sz\<rparr>"
    using assms(5) by (auto simp: CGSetDisplayTransferByTable_def word_less_nat_alt split: if_splits)
  have c: "?n \<le> unat capacity" using assms(9) by (simp add: word_le_nat_alt)
  have t: "map (\<lambda>i. copy_values ?n (\<lambda>i. xs ! i) tab ! i) [0..<?n] = take ?n xs" if "length tab = 256" "?n \<le> length xs" for xs tab :: "'a list"
    using that st'(2) by (simp add: copy_values_eq list_eq_iff_nth_eq nth_append)
  have g: "copy_values ?n (\<lambda>i. copy_values ?n (\<lambda>i. xs ! i) tab ! i) buf = take ?n xs @ drop ?n buf"
    if "length tab = 256" "?n \<le> length xs" "unat capacity \<le> length buf" for xs tab buf :: "'a list"
    using t [OF that(1,2)] c that(3) by (simp add: copy_values_eq [of ?n buf])
  have "256 \<le> length buf" if "256 \<le> capacity" "unat capacity \<le> length buf" for buf :: "'a list" using that by (simp add: word_le_nat_alt)
  then show ?thesis using st'(1) assms g unfolding st'(3)
    by (simp add: CGGetDisplayTransferByTable_def CGDisplayRestoreColorSyncSettings_def Let_def not_less [symmetric] copy_values_eq)
qed

theorem gamma_readback_witness:
  "CGGetDisplayTransferByTable (\<lambda>i k. 0) 0 1 2 (Some [0, 0, 9]) (Some [0, 0, 9]) (Some [0, 0, 9]) True
     (snd (CGSetDisplayTransferByTable 1 2 (Some [1, 2]) (Some [3, 4]) (Some [5, 6])
        \<lparr>gt_red = replicate 256 0, gt_green = replicate 256 0, gt_blue = replicate 256 (0 :: nat), gt_table_size = 0\<rparr>)) =
   (kCGErrorSuccess, Some [1, 2, 9], Some [3, 4, 9], Some [5, 6, 9], Some 2)"
proof -
  let ?st = "\<lparr>gt_red = replicate 256 0, gt_green = replicate 256 0, gt_blue = replicate 256 (0 :: nat), gt_table_size = 0\<rparr>"
  let ?set = "CGSetDisplayTransferByTable 1 2 (Some [1, 2]) (Some [3, 4]) (Some [5, 6]) ?st"
  have s: "?set = (kCGErrorSuccess, snd ?set)" by (simp add: CGSetDisplayTransferByTable_def)
  show ?thesis
    using gamma_readback [OF _ _ _ _ s, of 2 "[0, 0, 9]" "[0, 0, 9]" "[0, 0, 9]" "\<lambda>i k. 0" 0] by simp
qed

end
