(* ===== verification/Spec2Isabelle.thy ===== *)
theory Spec2Isabelle
  imports DarwinMemory GuestCPURun GuestSparseLaws GuestMemoryInstructionLaws GuestExclusiveLaws
    GuestVMBudgetLaws GuestImageLaws GuestExportLaws GuestFixupsLaws GuestLinkLaws GuestSoftwareScan GuestSoftwareState
    DebugWire ArenaControl CodeArena SignedImageLaws SignedProbe GuestUnwind GuestPaths GuestTLS GuestWrap WaitTrace
    LaunchPolicy LocalRoute LegacyCrypto SystemAnswers
begin

text \<open>
  Tolkara runs unmodified macOS applications on a device whose system has no loader for them. Its C code
  brings an executable and its libraries into memory, gives them an address space larger than the host grants,
  executes what the processor cannot execute directly, and obtains memory that may hold code. This
  development models that C code and proves what its parts promise.

  \<^bold>\<open>The program and its parts.\<close>
  An executable is read by the image loader (\<open>runtime/GuestImage.c\<close>), which stages its segments in a guest memory
  (\<open>runtime/GuestMemory.c\<close>). The link set (\<open>runtime/GuestLink.c\<close>) finds the libraries the application carries, loads each
  with the same loader, answers symbol lookups through their export tries and orders their initializers. The
  fixups (\<open>runtime/GuestFixups.c\<close>) relocate the staged image with the answers of a resolver. The
  interpreter (\<open>runtime/GuestCPU.c\<close>) executes instructions on the guest memory; the Darwin memory calls
  (\<open>runtime/DarwinMemory.c\<close>) change its mappings. In a native launch the virtual memory budget (\<open>runtime/GuestVMBudget.c\<close>) decides
  how much of a large reservation the host is asked for. What does not fit lies in a software range
  (\<open>runtime/GuestSoftwareVM.c\<close>): the pages are those of the sparse memory (\<open>runtime/GuestSparseMemory.c\<close>), a fault there
  executes the instruction (\<open>runtime/GuestMemoryInstruction.c\<close>) or the exclusive sequence it starts
  (\<open>runtime/GuestExclusive.c\<close>), and string, copy and file calls of the application are routed by address. Code is placed in an
  arena (\<open>runtime/NativeCodeMemory.c\<close>) that a helper prepares, asked through the messages of
  \<open>authorization/Control/ArenaControl.c\<close> and the debugger packets of \<open>authorization/DebugWire.c\<close>, or that an attached
  debugger provides (\<open>runtime/DebuggerArena.c\<close>), or is a locally signed copy of the final code (\<open>runtime/SignedImage.c\<close>).
  Around a launch stand small services: decisions of the launch (\<open>runtime/NativeGuestPolicy.h\<close>), unwind tables
  (\<open>runtime/GuestUnwind.c\<close>), paths that ignore case (\<open>runtime/GuestPaths.c\<close>), thread-local variables (\<open>runtime/GuestTLS.c\<close>),
  logged calls (\<open>runtime/GuestWrap.c\<close>), waits and their trace (\<open>runtime/GuestWait.c\<close>, \<open>runtime/GuestWaitTrace.c\<close>), the local
  route of the authorization service (\<open>authorization/LocalRoute.c\<close>), the experiment with signed files
  (\<open>launcher/App/SignedFileProbe.c\<close>) and the C parts of the framework translation (\<open>translation/Security/LegacyCrypto.c\<close>,
  \<open>translation/Security/Session.c\<close>, \<open>translation/CoreGraphics/Gamma.c\<close>, \<open>translation/CoreServices/Errors.c\<close>).

  \<^bold>\<open>Theories and sources.\<close> Definitions carry the names of the C functions and types.
  \<^item> \<open>Prelude\<close>, \<open>Scalars\<close>: machine integers, page geometry, result codes; little-endian integers and their round trips.
  \<^item> \<open>AddressSpace\<close>: the locale of a byte memory that loads and stores ranges, interpreted by \<open>GuestMemoryAccess\<close> and
    \<open>GuestSparseOps\<close> on the two memories. \<open>DepthFirst\<close>: the locale of a dependency walk with a mask of visited
    nodes, interpreted by \<open>GuestLinkLaws\<close> on the libraries of a link set.
  \<^item> \<open>GuestMemory\<close>, \<open>GuestMemoryMapping\<close>, \<open>GuestMemoryAccess\<close>: \<open>GuestMemory.c\<close>. The sorted array of pages is a list;
    shown are the invariant of every reachable space, what mapping calls install, that accesses are all or
    nothing, the fast path against the general one, and that code cannot change without \<open>code_generation\<close> changing.
  \<^item> \<open>DarwinMemory\<close>: \<open>DarwinMemory.c\<close>; results and \<open>errno\<close> of the calls, the guard below 4 GiB, writable or executable JIT pages.
  \<^item> \<open>GuestCPU\<close>, \<open>GuestCPUArithmetic\<close>, \<open>GuestCPURun\<close>: \<open>GuestCPU.c\<close>; decoder, instructions, run loop. Flags are those
    of the architecture, and the decode cache changes nothing.
  \<^item> \<open>GuestSparseMemory\<close>, \<open>GuestSparseTable\<close>, \<open>GuestSparseRegions\<close>, \<open>GuestSparseSpace\<close>, \<open>GuestSparseAccess\<close>,
    \<open>GuestSparseOps\<close>, \<open>GuestSparseLaws\<close>: \<open>GuestSparseMemory.c\<close>; hash table of pages, regions, accesses, monitors
    and atomic operations. The rebuilding of regions refines the pointwise update of an attribute map; monitors
    see every interleaved write.
  \<^item> \<open>GuestMemoryInstruction\<close>, \<open>GuestMemoryInstructionLaws\<close>, \<open>GuestExclusive\<close>, \<open>GuestExclusiveLaws\<close>: the two
    instruction executors; instructions and sequences that do not retire change nothing, with the exception the code has.
  \<^item> \<open>GuestVMBudget\<close>, \<open>GuestVMBudgetLaws\<close>: \<open>GuestVMBudget.c\<close>; the reserved bytes are those of the regions, and calls
    reach the host for exactly the right addresses.
  \<^item> \<open>GuestImage\<close>, \<open>GuestImageLaws\<close>, \<open>GuestExportLaws\<close>: \<open>GuestImage.c\<close>; the memory of a loaded image is what its file describes,
    and the symbol lookup refines the lookup in the trie the bytes encode.
  \<^item> \<open>GuestFixups\<close>, \<open>GuestFixupsLaws\<close>: \<open>GuestFixups.c\<close>; a successful run is a run of an abstract relocation machine.
  \<^item> \<open>GuestLink\<close>, \<open>GuestLinkLaws\<close>: \<open>GuestLink.c\<close>; libraries stay inside the application, lookups end, dependencies are initialized first.
  \<^item> \<open>GuestSoftwareVM\<close>, \<open>GuestSoftwareIO\<close>, \<open>GuestSoftwareLaws\<close>, \<open>GuestSoftwareScan\<close>, \<open>GuestSoftwareState\<close>: \<open>GuestSoftwareVM.c\<close>; copies
    are \<open>memmove\<close> over both kinds of memory, chunked scans are bytewise scans, faults are all or nothing, and
    the invariant of the module holds over all its calls.
  \<^item> \<open>DebugWire\<close>, \<open>ArenaControl\<close>: the two wire formats with their round trips and bounds.
  \<^item> \<open>CodeArena\<close>: \<open>NativeCodeMemory.c\<close> and \<open>DebuggerArena.c\<close>; no mapping is leaked or lost, and guest code is entered only when
    nothing is attached.
  \<^item> \<open>SignedImage\<close>, \<open>SignedImageLaws\<close>: \<open>SignedImage.c\<close>; exactly which containers are accepted, and that an accepted one carries the
    application's own pages outside the rewritten range.
  \<^item> \<open>SignedFile\<close>, \<open>SignedProbe\<close>: \<open>SignedFileProbe.c\<close>; no read leaves the mapping, the home directory stays out of the log, and
    every mode of the experiment gives back what it maps and enters code only inside the file.
  \<^item> \<open>GuestUnwind\<close>, \<open>GuestPaths\<close>, \<open>GuestTLS\<close>, \<open>GuestWrap\<close>: the files of these names; what a registration, a path lookup, a
    thread-local lookup and a wrapped call give, over all reachable tables and, for thread-local storage, all interleavings of threads.
  \<^item> \<open>WaitTrace\<close>: \<open>GuestWaitTrace.c\<close> and \<open>GuestWait.c\<close>; snapshots are consistent under every interleaving with the writer, and the
    sliced wait returns when the endless one would.
  \<^item> \<open>LaunchPolicy\<close>: \<open>NativeGuestPolicy.h\<close>; the expansion of placeholders against splitting and joining, limits never raised.
  \<^item> \<open>LocalRoute\<close>: \<open>LocalRoute.c\<close>; reflection keeps payload and checksums and is undone by the opposite route.
  \<^item> \<open>LegacyCrypto\<close>: \<open>LegacyCrypto.c\<close>; handles, padding, and that decryption undoes encryption under the documented
    behaviour of CommonCrypto.
  \<^item> \<open>SystemAnswers\<close>: gamma tables, session answers and error texts.

  \<^bold>\<open>Conventions.\<close>
  Addresses and sizes are words of 64 bits and wrap as in C; indices and counts are natural numbers. Structures
  are records, passed and returned; host buffers are byte lists, \<open>None\<close> for a null pointer. Errors are the
  result codes of the source, an \<open>errno\<close> field, or the message strings a loader reports. What is
  not in the repository is an argument: the host kernel, the file system and the helper are records of functions or functions over an
  arbitrary state, and outcomes of allocations are arguments, so that every failure path is a branch.
  Locks make each operation one step; step relations over the operations (\<open>gm_step\<close>, \<open>gd_step\<close>,
  \<open>sparse_step\<close>, \<open>gv_step\<close>, \<open>linked\<close>, \<open>gsv_step\<close>, \<open>tls_step\<close>, \<open>writer_step\<close>, \<open>unwind_reachable\<close>, \<open>wraps_reachable\<close>,
  \<open>crypto_reachable\<close>) give the reachable states. Reads of a file that is only mapped are optional values in \<open>SignedFile\<close>, so that a
  read outside the mapping would show.

  \<^bold>\<open>Loops and bounds.\<close>
  Loops over data are structural or have a measure. The others:
  \<open>chain_loop\<close> gets one round more than the fixups blob has bytes, and \<open>chain_loop_terminates\<close> shows that more rounds never
  change the result; \<open>library_export\<close> gets 65 nested calls and \<open>library_export_terminates\<close> shows the same, because a mask of 64
  libraries grows with each call; the closure of carried libraries gets one round per possible library, which is the limit the
  source checks; \<open>map_loop\<close> of the software range ends in its first round (\<open>gsv_software_map_fresh\<close>); exclusive sequences and arena
  requests have the source's own limits of 32 instructions and 3 attempts; the run loop of the interpreter has the
  caller's instruction limit. \<open>strchr_loop\<close> may run on as in C and is a partial function with the value \<open>None\<close> for that;
  so is \<open>wait_loop\<close>, and \<open>gw_wait_correct\<close> shows that it returns exactly when one of its slices does.

  \<^bold>\<open>Not modelled.\<close>
  Logging and printed reports (\<open>gi_report\<close>, \<open>gl_report\<close>, \<open>report\<close>, statistics of instruction fetches), cache maintenance, the
  trampolines and other assembly. The probes (\<open>CPUProbe.c\<close>, \<open>MemoryProbe.c\<close>, \<open>SparseMemoryProbe.c\<close>, \<open>HostExecutionProbe.c\<close>,
  \<open>SignedCodeProbe.c\<close>) try on a device what its kernel allows and print the outcome:
  what they do is what the kernel does. The Objective-C and Swift parts (launcher, native launch, framework translation,
  authorization service) call Apple's frameworks throughout. The kernel questions of \<open>HostDiagnostics.c\<close> are arguments where the modelled
  code asks them. \<open>USKeyMap.h\<close> is one constant table, \<open>AppKit.h\<close> and the other remaining headers hold declarations.
\<close>

end
